(* ===== verification/Rt_Prelude.thy ===== *)
theory Rt_Prelude
  imports Main "HOL-Library.Word" "HOL-Library.Monad_Syntax"
begin

text \<open>
  Shared vocabulary of the development: the machine types and error codes of
  \<^verbatim>\<open>rt-thread/include/rtdef.h\<close>, the meaning given to \<^verbatim>\<open>RT_ASSERT\<close>, and the
  generic lemmas on lists, words and options that the component theories share.

  A C routine is a HOL function into \<open>option\<close>: \<open>None\<close> is every way the C code fails to
  go on (a failed \<^verbatim>\<open>RT_ASSERT\<close>, which spins in \<^verbatim>\<open>rt_assert_handler\<close>; an access outside
  an object; linking a list node that is already linked).  Error codes are ordinary
  results, as in the code.
\<close>

unbundle bit_operations_syntax

subsection \<open>Types\<close>

type_synonym u8 = "8 word"
type_synonym u16 = "16 word"
type_synonym u32 = "32 word"

subsection \<open>Error codes (rtdef.h)\<close>

abbreviation (input) RT_EOK :: int where "RT_EOK \<equiv> 0"
abbreviation (input) RT_ERROR :: int where "RT_ERROR \<equiv> 1"
abbreviation (input) RT_ETIMEOUT :: int where "RT_ETIMEOUT \<equiv> 2"
abbreviation (input) RT_EFULL :: int where "RT_EFULL \<equiv> 3"
abbreviation (input) RT_EEMPTY :: int where "RT_EEMPTY \<equiv> 4"
abbreviation (input) RT_ENOMEM :: int where "RT_ENOMEM \<equiv> 5"
abbreviation (input) RT_ENOSYS :: int where "RT_ENOSYS \<equiv> 6"
abbreviation (input) RT_EBUSY :: int where "RT_EBUSY \<equiv> 7"
abbreviation (input) RT_EIO :: int where "RT_EIO \<equiv> 8"
abbreviation (input) RT_EINTR :: int where "RT_EINTR \<equiv> 9"
abbreviation (input) RT_EINVAL :: int where "RT_EINVAL \<equiv> 10"

subsection \<open>Assertions\<close>

definition RT_ASSERT :: "bool \<Rightarrow> unit option" where
  "RT_ASSERT b = (if b then Some () else None)"

lemma RT_ASSERT_bind [simp]: "Option.bind (RT_ASSERT b) f = (if b then f () else None)"
  by (simp add: RT_ASSERT_def)

lemma RT_ASSERT_Some [simp]: "RT_ASSERT b = Some x \<longleftrightarrow> b"
  by (simp add: RT_ASSERT_def)

lemma if_None_eq_Some: "(if b then x else None) = Some y \<longleftrightarrow> b \<and> x = Some y"
  by simp

subsection \<open>Collections\<close>

named_theorems kdefs \<open>unfolding rules of the kernel state accessors\<close>
named_theorems kframe \<open>what an operation leaves unchanged\<close>

subsection \<open>Lists\<close>

lemma remove1_not_in [simp]: "x \<notin> set xs \<Longrightarrow> remove1 x xs = xs"
  by (rule remove1_idem)

lemma set_remove1_distinct [simp]: "distinct xs \<Longrightarrow> set (remove1 x xs) = set xs - {x}"
  by (rule set_remove1_eq)

subsection \<open>Words\<close>

lemma bit_mask32_iff [simp]: "bit (2 ^ n :: 32 word) m \<longleftrightarrow> m = n \<and> n < 32"
  by (auto simp: bit_exp_iff)

lemma bit_or_mask_iff:
  "bit (g OR 2 ^ n :: 32 word) m \<longleftrightarrow> bit g m \<or> (m = n \<and> n < 32)"
  by (simp add: bit_or_iff)

lemma bit_and_not_mask_iff:
  "bit (g AND NOT (2 ^ n) :: 32 word) m \<longleftrightarrow> bit g m \<and> m \<noteq> n"
  by (auto simp: bit_and_iff bit_not_iff dest: bit_imp_le_length)

lemma word32_zero_iff_bits: "(w :: 32 word) = 0 \<longleftrightarrow> (\<forall>i < 32. \<not> bit w i)"
  by (auto intro: bit_word_eqI)

text \<open>The low nibble of \<^verbatim>\<open>thread->stat\<close> is the state, the rest are signal bits.\<close>

lemma stat_mask_update:
  "(s OR (x AND NOT 0xf)) AND 0xf = (s AND 0xf :: 8 word)"
  by (rule bit_word_eqI) (auto simp: bit_simps)

lemma stat_mask_update_num [simp]:
  "(s OR (x AND - 16)) AND 0xf = (s AND 0xf :: 8 word)"
  using stat_mask_update [of s x] by simp

text \<open>\<^verbatim>\<open>RT_ALIGN_DOWN\<close> to a power of two.\<close>

lemma and_not_mask_eq:
  fixes x :: "'a::len word"
  shows "x AND NOT (mask n) = x - take_bit n x"
proof -
  have "x AND NOT (mask n) = push_bit n (drop_bit n x)"
    by (rule bit_word_eqI) (auto simp: bit_simps)
  then show ?thesis using bits_ident [of n x] by (simp add: eq_diff_eq)
qed

lemma unat_and_not_mask:
  fixes x :: "'a::len word"
  shows "unat (x AND NOT (mask n)) = unat x - unat x mod 2 ^ n"
proof -
  have t: "unat (take_bit n x) = unat x mod 2 ^ n"
    by (simp only: unsigned_take_bit_eq take_bit_nat_eq_self_iff) (simp add: take_bit_eq_mod)
  then have "take_bit n x \<le> x" by (simp add: word_le_nat_alt)
  then show ?thesis unfolding and_not_mask_eq by (simp add: unat_sub t)
qed

lemma unat_of_nat32: "n < 2 ^ 32 \<Longrightarrow> unat (of_nat n :: u32) = n"
  by (simp add: unat_of_nat)

text \<open>\<^verbatim>\<open>RT_ALIGN(size, RT_ALIGN_SIZE)\<close>.\<close>

definition rt_align :: "u32 \<Rightarrow> u32" where
  "rt_align n = (n + 3) AND NOT 3"

lemma and3_zero_iff: "(x :: u32) AND 3 = 0 \<longleftrightarrow> unat x mod 4 = 0"
proof -
  have "x AND 3 = take_bit 2 x" by (simp add: take_bit_eq_mask mask_eq_exp_minus_1)
  moreover have "unat (take_bit 2 x) = unat x mod 4"
    by (simp only: unsigned_take_bit_eq take_bit_nat_eq_self_iff) (simp add: take_bit_eq_mod)
  ultimately show ?thesis by (metis unat_0 unat_eq_zero)
qed

subsection \<open>Linked lists of blocks\<close>

text \<open>\<open>linked n p bs\<close>: from the pointer \<open>p\<close> the next-pointers \<open>n\<close> lead through exactly \<open>bs\<close>.\<close>

fun linked :: "('a \<Rightarrow> 'a option) \<Rightarrow> 'a option \<Rightarrow> 'a list \<Rightarrow> bool" where
  "linked n p [] \<longleftrightarrow> p = None"
| "linked n p (b # bs) \<longleftrightarrow> p = Some b \<and> linked n (n b) bs"

fun walk :: "('a \<Rightarrow> 'a option) \<Rightarrow> 'a option \<Rightarrow> nat \<Rightarrow> 'a list" where
  "walk n p 0 = []"
| "walk n p (Suc c) = (case p of None \<Rightarrow> [] | Some b \<Rightarrow> b # walk n (n b) c)"

lemma linked_walk: "linked n p bs \<Longrightarrow> walk n p (length bs) = bs"
  by (induction bs arbitrary: p) auto

lemma linked_upd [simp]: "b \<notin> set bs \<Longrightarrow> linked (n(b := v)) p bs = linked n p bs"
  by (induction bs arbitrary: p) auto

lemma linked_snoc:
  "linked n p bs \<Longrightarrow> bs \<noteq> [] \<Longrightarrow> distinct bs \<Longrightarrow> n b = None \<Longrightarrow> b \<notin> set bs \<Longrightarrow>
   linked (n(last bs := Some b)) p (bs @ [b])"
  by (induction bs arbitrary: p) auto

lemma linked_None: "linked n None bs \<longleftrightarrow> bs = []"
  by (cases bs) auto

lemma linked_Some: "linked n (Some b) bs \<longleftrightarrow> (\<exists>cs. bs = b # cs \<and> linked n (n b) cs)"
  by (cases bs) auto

end
