(* ===== verification/Rt_List.thy ===== *)
theory Rt_List
  imports Rt_Prelude
begin

text \<open>
  The intrusive doubly linked circular lists of \<^verbatim>\<open>rt-thread/include/rtservice.h\<close> and the
  abstraction of them the kernel theories use.

  The code's level is a heap of \<^verbatim>\<open>next\<close>/\<^verbatim>\<open>prev\<close> fields (\<open>links\<close>) and the assignments of
  \<^verbatim>\<open>rt_list_init\<close>, \<^verbatim>\<open>rt_list_insert_after\<close>, \<^verbatim>\<open>rt_list_insert_before\<close> and
  \<^verbatim>\<open>rt_list_remove\<close> in their order.  The abstract level (\<open>lstore\<close>) keeps, for each list
  head, the HOL list of the nodes linked on it and, for each node, the head it is linked on.
  \<open>lrel\<close> relates the two; every operation refines its abstract counterpart.
\<close>

subsection \<open>The heap of links\<close>

record 'a links =
  nxt :: "'a \<Rightarrow> 'a"
  prv :: "'a \<Rightarrow> 'a"

definition rt_list_init :: "'a \<Rightarrow> 'a links \<Rightarrow> 'a links" where
  "rt_list_init l h = h\<lparr>prv := (prv h)(l := l), nxt := (nxt h)(l := l)\<rparr>"

definition rt_list_insert_after :: "'a \<Rightarrow> 'a \<Rightarrow> 'a links \<Rightarrow> 'a links" where
  "rt_list_insert_after l n h =
     (let h1 = h\<lparr>prv := (prv h)(nxt h l := n)\<rparr>;
          h2 = h1\<lparr>nxt := (nxt h1)(n := nxt h1 l)\<rparr>;
          h3 = h2\<lparr>nxt := (nxt h2)(l := n)\<rparr>
      in h3\<lparr>prv := (prv h3)(n := l)\<rparr>)"

definition rt_list_insert_before :: "'a \<Rightarrow> 'a \<Rightarrow> 'a links \<Rightarrow> 'a links" where
  "rt_list_insert_before l n h =
     (let h1 = h\<lparr>nxt := (nxt h)(prv h l := n)\<rparr>;
          h2 = h1\<lparr>prv := (prv h1)(n := prv h1 l)\<rparr>;
          h3 = h2\<lparr>prv := (prv h2)(l := n)\<rparr>
      in h3\<lparr>nxt := (nxt h3)(n := l)\<rparr>)"

definition rt_list_remove :: "'a \<Rightarrow> 'a links \<Rightarrow> 'a links" where
  "rt_list_remove n h =
     (let h1 = h\<lparr>prv := (prv h)(nxt h n := prv h n)\<rparr>;
          h2 = h1\<lparr>nxt := (nxt h1)(prv h1 n := nxt h1 n)\<rparr>
      in h2\<lparr>prv := (prv h2)(n := n), nxt := (nxt h2)(n := n)\<rparr>)"

definition rt_list_isempty :: "'a \<Rightarrow> 'a links \<Rightarrow> bool" where
  "rt_list_isempty l h = (nxt h l = l)"

text \<open>The counting loop of \<^verbatim>\<open>rt_list_len\<close>; \<open>None\<close> if the chain never comes back to \<open>l\<close>.\<close>

partial_function (option) rt_list_len_loop :: "'a links \<Rightarrow> 'a \<Rightarrow> 'a \<Rightarrow> nat \<Rightarrow> nat option" where
  "rt_list_len_loop h l p n =
     (if nxt h p = l then Some n else rt_list_len_loop h l (nxt h p) (Suc n))"

definition rt_list_len :: "'a \<Rightarrow> 'a links \<Rightarrow> nat option" where
  "rt_list_len l h = rt_list_len_loop h l l 0"

subsection \<open>Rings\<close>

fun chain :: "'a links \<Rightarrow> 'a \<Rightarrow> 'a list \<Rightarrow> 'a \<Rightarrow> bool" where
  "chain h a [] b = (nxt h a = b \<and> prv h b = a)"
| "chain h a (y # ys) b = (nxt h a = y \<and> prv h y = a \<and> chain h y ys b)"

definition ring :: "'a links \<Rightarrow> 'a \<Rightarrow> 'a list \<Rightarrow> bool" where
  "ring h l xs \<longleftrightarrow> distinct (l # xs) \<and> chain h l xs l"

lemma chain_append: "chain h a (xs @ y # ys) b \<longleftrightarrow> chain h a xs y \<and> chain h y ys b"
  by (induction xs arbitrary: a) auto

lemma chain_frame:
  "(\<forall>x \<in> set (a # xs). nxt h' x = nxt h x) \<Longrightarrow> (\<forall>x \<in> set (xs @ [b]). prv h' x = prv h x)
   \<Longrightarrow> chain h' a xs b = chain h a xs b"
  by (induction xs arbitrary: a) auto

lemma chain_next: "chain h a xs b \<Longrightarrow> nxt h a = hd (xs @ [b])"
  by (cases xs) auto

lemma chain_prev: "chain h a xs b \<Longrightarrow> prv h b = last (a # xs)"
  by (induction xs arbitrary: a) auto

lemma ring_empty_iff: "ring h l xs \<Longrightarrow> rt_list_isempty l h \<longleftrightarrow> xs = []"
  by (cases xs) (auto simp: ring_def rt_list_isempty_def)

lemma ring_init: "ring (rt_list_init l h) l []"
  by (simp add: ring_def rt_list_init_def)

text \<open>One link is replaced by two: the common core of both insertions.\<close>

lemma chain_link:
  assumes "chain h a xs b" "n \<notin> set (a # xs @ [b])" "distinct (a # xs)" "b \<notin> set xs"
  shows "chain (rt_list_insert_after a n h) a (n # xs) b"
proof (cases xs)
  case Nil
  with assms show ?thesis by (auto simp: rt_list_insert_after_def Let_def)
next
  case (Cons y ys)
  with assms have *: "nxt h a = y" "prv h y = a" "chain h y ys b" by auto
  have "chain (rt_list_insert_after a n h) y ys b = chain h y ys b"
    by (rule chain_frame) (use assms Cons * in \<open>auto simp: rt_list_insert_after_def Let_def\<close>)
  with assms Cons * show ?thesis by (auto simp: rt_list_insert_after_def Let_def)
qed

lemma insert_before_eq_after:
  "nxt h (prv h l) = l \<Longrightarrow> n \<noteq> l \<Longrightarrow> n \<noteq> prv h l
   \<Longrightarrow> rt_list_insert_before l n h = rt_list_insert_after (prv h l) n h"
  by (auto simp: rt_list_insert_before_def rt_list_insert_after_def Let_def fun_eq_iff
      intro!: links.equality)

lemma chain_nxt_prv: "chain h a xs b \<Longrightarrow> nxt h (prv h b) = b"
  by (induction xs arbitrary: a) auto

subsection \<open>The operations on rings\<close>

lemma ring_insert_after_head:
  "ring h l xs \<Longrightarrow> n \<notin> set (l # xs) \<Longrightarrow> ring (rt_list_insert_after l n h) l (n # xs)"
  using chain_link [of h l xs l n] by (auto simp: ring_def)

lemma ring_insert_after_node:
  assumes r: "ring h l (cs @ p # ds)" and n: "n \<notin> set (l # cs @ p # ds)"
  shows "ring (rt_list_insert_after p n h) l (cs @ p # n # ds)"
proof -
  from r have c1: "chain h l cs p" and c2: "chain h p ds l"
    and d: "distinct (l # cs @ p # ds)"
    by (auto simp: ring_def chain_append)
  have nx: "nxt h p = hd (ds @ [l])" by (rule chain_next [OF c2])
  have "chain (rt_list_insert_after p n h) p (n # ds) l"
    by (rule chain_link [OF c2]) (use n d in auto)
  moreover have "chain (rt_list_insert_after p n h) l cs p = chain h l cs p"
    by (rule chain_frame) (use n d nx in \<open>(cases ds; auto simp: rt_list_insert_after_def Let_def)+\<close>)
  ultimately show ?thesis
    using c1 d n by (auto simp: ring_def chain_append)
qed

lemma ring_insert_before_head:
  assumes r: "ring h l xs" and n: "n \<notin> set (l # xs)"
  shows "ring (rt_list_insert_before l n h) l (xs @ [n])"
proof -
  from r have c: "chain h l xs l" by (simp add: ring_def)
  have p: "prv h l = last (l # xs)" by (rule chain_prev [OF c])
  have e: "rt_list_insert_before l n h = rt_list_insert_after (last (l # xs)) n h"
    using insert_before_eq_after [of h l n] chain_nxt_prv [OF c] p n last_in_set [of "l # xs"]
    by fastforce
  show ?thesis
  proof (cases xs rule: rev_cases)
    case Nil
    with e ring_insert_after_head [OF r n] show ?thesis by simp
  next
    case (snoc cs q)
    with e ring_insert_after_node [of h l cs q "[]" n] r n show ?thesis by simp
  qed
qed

lemma ring_insert_before_node:
  assumes r: "ring h l (as @ s # bs)" and n: "n \<notin> set (l # as @ s # bs)"
  shows "ring (rt_list_insert_before s n h) l (as @ n # s # bs)"
proof -
  from r have c: "chain h l as s" by (simp add: ring_def chain_append)
  have p: "prv h s = last (l # as)" by (rule chain_prev [OF c])
  have e: "rt_list_insert_before s n h = rt_list_insert_after (last (l # as)) n h"
    using insert_before_eq_after [of h s n] chain_nxt_prv [OF c] p n last_in_set [of "l # as"]
    by fastforce
  show ?thesis
  proof (cases as rule: rev_cases)
    case Nil
    with e ring_insert_after_head [of h l "s # bs" n] r n show ?thesis by simp
  next
    case (snoc cs q)
    with e ring_insert_after_node [of h l cs q "s # bs" n] r n show ?thesis by simp
  qed
qed

lemma chain_unlink:
  assumes "chain h a as n" "chain h n bs b" "distinct (a # as @ n # bs)" "b \<notin> set (as @ n # bs)"
  shows "chain (rt_list_remove n h) a (as @ bs) b"
  using assms
proof (induction as arbitrary: a)
  case Nil
  show ?case
  proof (cases bs)
    case Nil
    with Nil.prems show ?thesis by (auto simp: rt_list_remove_def Let_def)
  next
    case (Cons d ds)
    with Nil.prems have "chain (rt_list_remove n h) d ds b = chain h d ds b"
      by (intro chain_frame) (auto simp: rt_list_remove_def Let_def)
    with Cons Nil.prems show ?thesis by (auto simp: rt_list_remove_def Let_def)
  qed
next
  case (Cons y ys)
  have "nxt (rt_list_remove n h) a = nxt h a \<and> prv (rt_list_remove n h) y = prv h y"
    using Cons.prems chain_prev [of h y ys n] chain_next [of h n bs b]
    by (cases bs; cases ys rule: rev_cases) (auto simp: rt_list_remove_def Let_def)
  with Cons show ?case by auto
qed

lemma ring_remove:
  assumes "ring h l (as @ n # bs)"
  shows "ring (rt_list_remove n h) l (as @ bs)"
  using assms chain_unlink [of h l as n bs l] by (auto simp: ring_def chain_append)

lemma ring_remove_self: "ring (rt_list_remove n h) n []"
  by (simp add: ring_def rt_list_remove_def Let_def)

text \<open>A ring none of whose nodes the operation touches is untouched.\<close>

lemma ring_frame:
  "ring h l xs \<Longrightarrow> (\<forall>x \<in> set (l # xs). nxt h' x = nxt h x \<and> prv h' x = prv h x) \<Longrightarrow> ring h' l xs"
  unfolding ring_def by (subst chain_frame) auto

lemma ring_closed:
  assumes "ring h l xs" "x \<in> set (l # xs)"
  shows "nxt h x \<in> set (l # xs) \<and> prv h x \<in> set (l # xs)"
proof -
  have c: "chain h l xs l" using assms by (simp add: ring_def)
  show ?thesis
  proof (cases "x = l")
    case True
    with chain_next [OF c] chain_prev [OF c] show ?thesis
      by (cases xs) auto
  next
    case False
    with assms obtain as bs where x: "xs = as @ x # bs" by (auto simp: in_set_conv_decomp)
    with c have "chain h l as x" "chain h x bs l" by (auto simp: chain_append)
    with chain_prev [of h l as x] chain_next [of h x bs l] x show ?thesis
      by (cases bs; cases as rule: rev_cases) auto
  qed
qed

lemma ring_len: "ring h l xs \<Longrightarrow> rt_list_len l h = Some (length xs)"
proof -
  have "distinct (l # ys @ xs) \<Longrightarrow> chain h p xs l \<Longrightarrow>
      rt_list_len_loop h l p n = Some (n + length xs)" for p n ys xs
  proof (induction xs arbitrary: p n ys)
    case Nil
    then show ?case by (simp add: rt_list_len_loop.simps)
  next
    case (Cons y ys')
    then have "rt_list_len_loop h l y (Suc n) = Some (Suc n + length ys')"
      using Cons.IH [of "ys @ [y]" y "Suc n"] by simp
    with Cons.prems show ?case by (subst rt_list_len_loop.simps) auto
  qed
  from this [of "[]" xs l 0] show "ring h l xs \<Longrightarrow> ?thesis"
    by (simp add: ring_def rt_list_len_def)
qed

subsection \<open>The abstract list store\<close>

text \<open>
  \<open>lst s q\<close> is the list of nodes linked on head \<open>q\<close>, \<open>own s t\<close> the head node \<open>t\<close> is
  linked on.  Linking a node that is already linked would splice two rings of the C heap
  into each other; it is \<open>None\<close> here.  Removing an unlinked node changes nothing, as
  \<^verbatim>\<open>rt_list_remove\<close> of a self-linked node does.
\<close>

record ('q, 't) lstore =
  lst :: "'q \<Rightarrow> 't list"
  own :: "'t \<Rightarrow> 'q option"

definition ls_wf :: "('q, 't) lstore \<Rightarrow> bool" where
  "ls_wf s \<longleftrightarrow> (\<forall>q. distinct (lst s q)) \<and> (\<forall>q t. t \<in> set (lst s q) \<longleftrightarrow> own s t = Some q)"

definition ls_empty :: "('q, 't) lstore" where
  "ls_empty = \<lparr>lst = (\<lambda>_. []), own = (\<lambda>_. None)\<rparr>"

definition ls_remove :: "'t \<Rightarrow> ('q, 't) lstore \<Rightarrow> ('q, 't) lstore" where
  "ls_remove t s =
     (case own s t of
        None \<Rightarrow> s
      | Some q \<Rightarrow> s\<lparr>lst := (lst s)(q := remove1 t (lst s q)), own := (own s)(t := None)\<rparr>)"

text \<open>\<^verbatim>\<open>rt_list_init\<close> of a node that is linked would leave its ring dangling.\<close>

definition ls_init :: "'t \<Rightarrow> ('q, 't) lstore \<Rightarrow> ('q, 't) lstore option" where
  "ls_init t s = (if own s t = None then Some s else None)"

text \<open>Insertion in front of the first node for which \<open>P\<close> holds, at the end if there is none.\<close>

fun insert_at :: "('t \<Rightarrow> bool) \<Rightarrow> 't \<Rightarrow> 't list \<Rightarrow> 't list" where
  "insert_at P t [] = [t]"
| "insert_at P t (x # xs) = (if P x then t # x # xs else x # insert_at P t xs)"

definition ls_insert :: "('t \<Rightarrow> bool) \<Rightarrow> 'q \<Rightarrow> 't \<Rightarrow> ('q, 't) lstore \<Rightarrow> ('q, 't) lstore option" where
  "ls_insert P q t s =
     (case own s t of
        Some _ \<Rightarrow> None
      | None \<Rightarrow> Some (s\<lparr>lst := (lst s)(q := insert_at P t (lst s q)), own := (own s)(t := Some q)\<rparr>))"

text \<open>\<^verbatim>\<open>rt_list_insert_before(head, n)\<close> appends, \<^verbatim>\<open>rt_list_insert_after(head, n)\<close> prepends.\<close>

abbreviation ls_append :: "'q \<Rightarrow> 't \<Rightarrow> ('q, 't) lstore \<Rightarrow> ('q, 't) lstore option" where
  "ls_append \<equiv> ls_insert (\<lambda>_. False)"

abbreviation ls_prepend :: "'q \<Rightarrow> 't \<Rightarrow> ('q, 't) lstore \<Rightarrow> ('q, 't) lstore option" where
  "ls_prepend \<equiv> ls_insert (\<lambda>_. True)"

lemma insert_at_False [simp]: "insert_at (\<lambda>_. False) t xs = xs @ [t]"
  by (induction xs) auto

lemma insert_at_True [simp]: "insert_at (\<lambda>_. True) t xs = t # xs"
  by (cases xs) auto

lemma set_insert_at [simp]: "set (insert_at P t xs) = insert t (set xs)"
  by (induction xs) auto

lemma distinct_insert_at [simp]:
  "distinct (insert_at P t xs) \<longleftrightarrow> t \<notin> set xs \<and> distinct xs"
  by (induction xs) auto

lemma insert_at_split:
  "insert_at P t xs = takeWhile (\<lambda>x. \<not> P x) xs @ t # dropWhile (\<lambda>x. \<not> P x) xs"
  by (induction xs) auto

lemma insert_at_not_Nil [simp]: "insert_at P t xs \<noteq> []"
  by (cases xs) auto

text \<open>The successor pointer of a node: itself when it is unlinked, the head after the last one.\<close>

datatype ('q, 't) node = Head 'q | Node 't

definition ls_next :: "('q, 't) lstore \<Rightarrow> 't \<Rightarrow> ('q, 't) node" where
  "ls_next s t =
     (case own s t of
        None \<Rightarrow> Node t
      | Some q \<Rightarrow> (case dropWhile (\<lambda>x. x \<noteq> t) (lst s q) of _ # y # _ \<Rightarrow> Node y | _ \<Rightarrow> Head q))"

definition ls_first :: "('q, 't) lstore \<Rightarrow> 'q \<Rightarrow> ('q, 't) node" where
  "ls_first s q = (case lst s q of [] \<Rightarrow> Head q | t # _ \<Rightarrow> Node t)"

lemma ls_init_eq [simp]: "ls_init t s = Some s' \<longleftrightarrow> own s t = None \<and> s' = s"
  by (auto simp: ls_init_def)

lemma ls_wf_empty [simp]: "ls_wf ls_empty"
  by (simp add: ls_wf_def ls_empty_def)

lemma ls_wfD: "ls_wf s \<Longrightarrow> t \<in> set (lst s q) \<longleftrightarrow> own s t = Some q"
  by (simp add: ls_wf_def)

lemma ls_wf_distinct: "ls_wf s \<Longrightarrow> distinct (lst s q)"
  by (simp add: ls_wf_def)

lemma ls_remove_wf [simp]: "ls_wf s \<Longrightarrow> ls_wf (ls_remove t s)"
  by (auto simp: ls_wf_def ls_remove_def split: option.splits)

lemma own_ls_remove: "own (ls_remove t s) = (own s)(t := None)"
  by (auto simp: ls_remove_def split: option.splits)

lemma lst_ls_remove: "ls_wf s \<Longrightarrow> lst (ls_remove t s) q = remove1 t (lst s q)"
  by (auto simp: ls_remove_def ls_wf_def split: option.splits)

lemma ls_insert_Some [simp]: "(\<exists>s'. ls_insert P q t s = Some s') \<longleftrightarrow> own s t = None"
  by (auto simp: ls_insert_def split: option.splits)

lemma ls_insert_eq:
  "own s t = None \<Longrightarrow> ls_insert P q t s =
     Some (s\<lparr>lst := (lst s)(q := insert_at P t (lst s q)), own := (own s)(t := Some q)\<rparr>)"
  by (simp add: ls_insert_def)

lemma ls_insert_wf: "ls_wf s \<Longrightarrow> ls_insert P q t s = Some s' \<Longrightarrow> ls_wf s'"
  by (auto simp: ls_wf_def ls_insert_def split: option.splits if_splits)

lemma own_ls_insert: "ls_insert P q t s = Some s' \<Longrightarrow> own s' = (own s)(t := Some q)"
  by (auto simp: ls_insert_def split: option.splits)

lemma lst_ls_insert:
  "ls_insert P q t s = Some s' \<Longrightarrow> lst s' = (lst s)(q := insert_at P t (lst s q))"
  by (auto simp: ls_insert_def split: option.splits)

subsection \<open>The heap refines the store\<close>

definition lrel :: "('q, 't) node links \<Rightarrow> ('q, 't) lstore \<Rightarrow> bool" where
  "lrel h s \<longleftrightarrow> ls_wf s \<and> (\<forall>q. ring h (Head q) (map Node (lst s q)))
     \<and> (\<forall>t. own s t = None \<longrightarrow> ring h (Node t) [])"

lemma lrel_isempty: "lrel h s \<Longrightarrow> rt_list_isempty (Head q) h \<longleftrightarrow> lst s q = []"
  using ring_empty_iff by (fastforce simp: lrel_def)

lemma lrel_first:
  "lrel h s \<Longrightarrow> lst s q \<noteq> [] \<Longrightarrow> nxt h (Head q) = Node (hd (lst s q))"
  by (cases "lst s q") (auto simp: lrel_def ring_def dest!: spec [of _ q])

lemma lrel_next:
  assumes "lrel h s"
  shows "nxt h (Node t) = ls_next s t"
proof (cases "own s t")
  case None
  with assms show ?thesis by (auto simp: lrel_def ring_def ls_next_def)
next
  case (Some q)
  from assms have wf: "ls_wf s" and r: "ring h (Head q) (map Node (lst s q))" by (auto simp: lrel_def)
  from Some wf have "t \<in> set (lst s q)" by (simp add: ls_wfD)
  then obtain as bs where q: "lst s q = as @ t # bs" by (auto simp: in_set_conv_decomp)
  with ls_wf_distinct [OF wf, of q] have "dropWhile (\<lambda>x. x \<noteq> t) (lst s q) = t # bs"
    by (auto simp: dropWhile_append3)
  with Some r q show ?thesis
    by (cases bs) (auto simp: ring_def chain_append ls_next_def)
qed

lemma lrel_ring_disjoint:
  assumes "lrel h s" "q \<noteq> q'" "x \<in> set (Head q # map Node (lst s q))"
  shows "x \<notin> set (Head q' # map Node (lst s q'))"
  using assms by (auto simp: lrel_def ls_wf_def)

lemma ring_frame_rings:
  assumes r: "ring h l xs" and o: "ring h l' ys" and d: "set (l # xs) \<inter> set (l' # ys) = {}"
    and m: "\<forall>x. x \<notin> A \<longrightarrow> nxt h' x = nxt h x \<and> prv h' x = prv h x" and A: "A \<subseteq> set (l # xs)"
  shows "ring h' l' ys"
  by (rule ring_frame [OF o]) (use m A d in blast)

lemma remove_touches:
  "\<forall>x. x \<notin> {n, nxt h n, prv h n} \<longrightarrow>
     nxt (rt_list_remove n h) x = nxt h x \<and> prv (rt_list_remove n h) x = prv h x"
  by (auto simp: rt_list_remove_def Let_def)

lemma insert_before_touches:
  "\<forall>x. x \<notin> {p, n, prv h p} \<longrightarrow>
     nxt (rt_list_insert_before p n h) x = nxt h x \<and> prv (rt_list_insert_before p n h) x = prv h x"
  by (auto simp: rt_list_insert_before_def Let_def)

lemma insert_after_touches:
  "\<forall>x. x \<notin> {p, n, nxt h p} \<longrightarrow>
     nxt (rt_list_insert_after p n h) x = nxt h x \<and> prv (rt_list_insert_after p n h) x = prv h x"
  by (auto simp: rt_list_insert_after_def Let_def)

lemma rt_list_remove_self:
  "ring h n [] \<Longrightarrow> rt_list_remove n h = h"
  by (auto simp: rt_list_remove_def ring_def Let_def fun_eq_iff intro!: links.equality)

lemma lrel_remove:
  assumes rel: "lrel h s"
  shows "lrel (rt_list_remove (Node t) h) (ls_remove t s)"
proof (cases "own s t")
  case None
  with rel have "rt_list_remove (Node t) h = h" by (intro rt_list_remove_self) (simp add: lrel_def)
  with rel None show ?thesis by (simp add: ls_remove_def)
next
  case (Some q)
  let ?h = "rt_list_remove (Node t) h" and ?q = "Head q # map Node (lst s q)"
  from rel have wf: "ls_wf s" and rq: "ring h (Head q) (map Node (lst s q))"
    by (auto simp: lrel_def)
  from Some wf have tin: "t \<in> set (lst s q)" by (simp add: ls_wfD)
  then obtain as bs where q: "lst s q = as @ t # bs" by (auto simp: in_set_conv_decomp)
  with ls_wf_distinct [OF wf, of q] have tn: "t \<notin> set as" by simp
  have A: "{Node t, nxt h (Node t), prv h (Node t)} \<subseteq> set ?q"
    using ring_closed [OF rq, of "Node t"] tin by auto
  have "ring ?h (Head q') (map Node (lst (ls_remove t s) q'))" for q'
  proof (cases "q' = q")
    case True
    with ring_remove [of h "Head q" "map Node as" "Node t" "map Node bs"] rq q tn Some
    show ?thesis by (simp add: ls_remove_def remove1_append)
  next
    case False
    have o: "ring h (Head q') (map Node (lst s q'))" using rel by (simp add: lrel_def)
    have "set ?q \<inter> set (Head q' # map Node (lst s q')) = {}"
      using lrel_ring_disjoint [OF rel, of q q'] False by blast
    from ring_frame_rings [OF rq o this remove_touches A] False Some
    show ?thesis by (simp add: ls_remove_def)
  qed
  moreover have "ring ?h (Node t') []" if "own (ls_remove t s) t' = None" for t'
  proof (cases "t' = t")
    case True
    then show ?thesis by (simp add: ring_remove_self)
  next
    case False
    with that have n: "own s t' = None" by (simp add: own_ls_remove)
    with rel have o: "ring h (Node t') []" by (simp add: lrel_def)
    have "set ?q \<inter> set [Node t'] = {}" using n wf by (auto simp: ls_wfD)
    from ring_frame_rings [OF rq o this remove_touches A] show ?thesis .
  qed
  ultimately show ?thesis using wf by (simp add: lrel_def)
qed

text \<open>
  Both insertions have one shape: the touched nodes lie in the ring of \<open>q\<close> and the new
  node, and the ring of \<open>q\<close> afterwards is the inserted one.
\<close>

lemma lrel_insert_shape:
  assumes rel: "lrel h s" and ins: "ls_insert P q t s = Some s'"
    and m: "\<forall>x. x \<notin> insert (Node t) B \<longrightarrow> nxt h' x = nxt h x \<and> prv h' x = prv h x"
    and B: "B \<subseteq> set (Head q # map Node (lst s q))"
    and rq: "ring h' (Head q) (map Node (insert_at P t (lst s q)))"
  shows "lrel h' s'"
proof -
  from rel have wf: "ls_wf s" and wf': "ls_wf s'" using ls_insert_wf ins by (auto simp: lrel_def)
  from ins have t: "own s t = None" by (auto simp: ls_insert_def split: option.splits)
  have "ring h' (Head q') (map Node (lst s' q'))" for q'
  proof (cases "q' = q")
    case True
    with rq ins show ?thesis by (simp add: lst_ls_insert)
  next
    case False
    have o: "ring h (Head q') (map Node (lst s q'))" using rel by (simp add: lrel_def)
    have "insert (Node t) B \<inter> set (Head q' # map Node (lst s q')) = {}"
      using lrel_ring_disjoint [OF rel, of q q'] False B t wf by (auto simp: ls_wfD)
    with m have "ring h' (Head q') (map Node (lst s q'))" by (intro ring_frame [OF o]) blast
    with False ins show ?thesis by (simp add: lst_ls_insert)
  qed
  moreover have "ring h' (Node t') []" if "own s' t' = None" for t'
  proof -
    from that ins have n: "own s t' = None" "t' \<noteq> t" by (auto simp: own_ls_insert split: if_splits)
    with rel have o: "ring h (Node t') []" by (simp add: lrel_def)
    have "Node t' \<notin> insert (Node t) B" using n B wf by (auto simp: ls_wfD)
    with m show ?thesis by (intro ring_frame [OF o]) auto
  qed
  ultimately show ?thesis using wf' by (simp add: lrel_def)
qed

lemma lrel_own_notin:
  "lrel h s \<Longrightarrow> ls_insert P q t s = Some s' \<Longrightarrow> Node t \<notin> set (Head q' # map Node (lst s q'))"
  by (auto simp: lrel_def ls_wfD ls_insert_def split: option.splits)

lemma lrel_append:
  assumes rel: "lrel h s" and ins: "ls_append q t s = Some s'"
  shows "lrel (rt_list_insert_before (Head q) (Node t) h) s'"
proof -
  have r: "ring h (Head q) (map Node (lst s q))" using rel by (simp add: lrel_def)
  note n = lrel_own_notin [OF rel ins, of q]
  show ?thesis
  proof (rule lrel_insert_shape [OF rel ins, where B = "{Head q, prv h (Head q)}"])
    show "\<forall>x. x \<notin> insert (Node t) {Head q, prv h (Head q)} \<longrightarrow>
        nxt (rt_list_insert_before (Head q) (Node t) h) x = nxt h x \<and>
        prv (rt_list_insert_before (Head q) (Node t) h) x = prv h x"
      using insert_before_touches [of "Head q" "Node t" h] by auto
    show "{Head q, prv h (Head q)} \<subseteq> set (Head q # map Node (lst s q))"
      using ring_closed [OF r, of "Head q"] by auto
    show "ring (rt_list_insert_before (Head q) (Node t) h) (Head q)
        (map Node (insert_at (\<lambda>_. False) t (lst s q)))"
      using ring_insert_before_head [OF r n] by simp
  qed
qed

lemma lrel_prepend:
  assumes rel: "lrel h s" and ins: "ls_prepend q t s = Some s'"
  shows "lrel (rt_list_insert_after (Head q) (Node t) h) s'"
proof -
  have r: "ring h (Head q) (map Node (lst s q))" using rel by (simp add: lrel_def)
  note n = lrel_own_notin [OF rel ins, of q]
  show ?thesis
  proof (rule lrel_insert_shape [OF rel ins, where B = "{Head q, nxt h (Head q)}"])
    show "\<forall>x. x \<notin> insert (Node t) {Head q, nxt h (Head q)} \<longrightarrow>
        nxt (rt_list_insert_after (Head q) (Node t) h) x = nxt h x \<and>
        prv (rt_list_insert_after (Head q) (Node t) h) x = prv h x"
      using insert_after_touches [of "Head q" "Node t" h] by auto
    show "{Head q, nxt h (Head q)} \<subseteq> set (Head q # map Node (lst s q))"
      using ring_closed [OF r, of "Head q"] by auto
    show "ring (rt_list_insert_after (Head q) (Node t) h) (Head q)
        (map Node (insert_at (\<lambda>_. True) t (lst s q)))"
      using ring_insert_after_head [OF r n] by simp
  qed
qed

lemma lrel_insert_before_node:
  assumes rel: "lrel h s" and ins: "ls_insert P q t s = Some s'"
    and q: "lst s q = as @ x # bs" and P: "P x" "\<forall>y \<in> set as. \<not> P y"
  shows "lrel (rt_list_insert_before (Node x) (Node t) h) s'"
proof -
  have r: "ring h (Head q) (map Node (lst s q))" using rel by (simp add: lrel_def)
  note n = lrel_own_notin [OF rel ins, of q]
  have i: "insert_at P t (lst s q) = as @ t # x # bs"
    using q P by (simp add: insert_at_split takeWhile_append2 dropWhile_append2)
  show ?thesis
  proof (rule lrel_insert_shape [OF rel ins, where B = "{Node x, prv h (Node x)}"])
    show "\<forall>y. y \<notin> insert (Node t) {Node x, prv h (Node x)} \<longrightarrow>
        nxt (rt_list_insert_before (Node x) (Node t) h) y = nxt h y \<and>
        prv (rt_list_insert_before (Node x) (Node t) h) y = prv h y"
      using insert_before_touches [of "Node x" "Node t" h] by auto
    show "{Node x, prv h (Node x)} \<subseteq> set (Head q # map Node (lst s q))"
      using ring_closed [OF r, of "Node x"] q by auto
    show "ring (rt_list_insert_before (Node x) (Node t) h) (Head q)
        (map Node (insert_at P t (lst s q)))"
      using ring_insert_before_node [of h "Head q" "map Node as" "Node x" "map Node bs" "Node t"]
        r n q i by simp
  qed
qed

end
