(* ===== verification/Kservice_Bits.thy ===== *)
theory Kservice_Bits
  imports Rt_Prelude
begin

text \<open>
  \<^verbatim>\<open>__rt_ffs\<close> of \<^verbatim>\<open>rt-thread/src/kservice.c\<close>: the number (from 1) of the least set bit of a
  32-bit value, found by one byte of the value and a table of 256 entries.  The scheduler
  uses it to find the highest ready priority.
\<close>

definition lowest_bit_bitmap :: "nat list" where
  "lowest_bit_bitmap =
    [0, 0, 1, 0, 2, 0, 1, 0, 3, 0, 1, 0, 2, 0, 1, 0,
     4, 0, 1, 0, 2, 0, 1, 0, 3, 0, 1, 0, 2, 0, 1, 0,
     5, 0, 1, 0, 2, 0, 1, 0, 3, 0, 1, 0, 2, 0, 1, 0,
     4, 0, 1, 0, 2, 0, 1, 0, 3, 0, 1, 0, 2, 0, 1, 0,
     6, 0, 1, 0, 2, 0, 1, 0, 3, 0, 1, 0, 2, 0, 1, 0,
     4, 0, 1, 0, 2, 0, 1, 0, 3, 0, 1, 0, 2, 0, 1, 0,
     5, 0, 1, 0, 2, 0, 1, 0, 3, 0, 1, 0, 2, 0, 1, 0,
     4, 0, 1, 0, 2, 0, 1, 0, 3, 0, 1, 0, 2, 0, 1, 0,
     7, 0, 1, 0, 2, 0, 1, 0, 3, 0, 1, 0, 2, 0, 1, 0,
     4, 0, 1, 0, 2, 0, 1, 0, 3, 0, 1, 0, 2, 0, 1, 0,
     5, 0, 1, 0, 2, 0, 1, 0, 3, 0, 1, 0, 2, 0, 1, 0,
     4, 0, 1, 0, 2, 0, 1, 0, 3, 0, 1, 0, 2, 0, 1, 0,
     6, 0, 1, 0, 2, 0, 1, 0, 3, 0, 1, 0, 2, 0, 1, 0,
     4, 0, 1, 0, 2, 0, 1, 0, 3, 0, 1, 0, 2, 0, 1, 0,
     5, 0, 1, 0, 2, 0, 1, 0, 3, 0, 1, 0, 2, 0, 1, 0,
     4, 0, 1, 0, 2, 0, 1, 0, 3, 0, 1, 0, 2, 0, 1, 0]"

definition rt_ffs :: "u32 \<Rightarrow> nat" where
  "rt_ffs value =
     (if value = 0 then 0
      else if value AND 0xff \<noteq> 0
      then lowest_bit_bitmap ! unat (value AND 0xff) + 1
      else if value AND 0xff00 \<noteq> 0
      then lowest_bit_bitmap ! unat (drop_bit 8 (value AND 0xff00)) + 9
      else if value AND 0xff0000 \<noteq> 0
      then lowest_bit_bitmap ! unat (drop_bit 16 (value AND 0xff0000)) + 17
      else lowest_bit_bitmap ! unat (drop_bit 24 (value AND 0xff000000)) + 25)"

subsection \<open>The table\<close>

text \<open>An entry is right if the number leaves \<open>2 ^ k\<close> modulo \<open>2 ^ (k + 1)\<close>.\<close>

fun entries_ok :: "nat \<Rightarrow> nat list \<Rightarrow> bool" where
  "entries_ok n [] = True"
| "entries_ok n (k # ks) = (n mod 2 ^ Suc k = 2 ^ k \<and> entries_ok (n + 1) ks)"

lemma entries_ok_nth:
  "entries_ok n ks \<Longrightarrow> i < length ks \<Longrightarrow> (n + i) mod 2 ^ Suc (ks ! i) = 2 ^ (ks ! i)"
proof (induction ks arbitrary: n i)
  case Nil
  then show ?case by simp
next
  case (Cons k ks)
  then show ?case by (cases i) (auto dest: Cons.IH)
qed

lemma bitmap_entries: "entries_ok 1 (tl lowest_bit_bitmap)"
  by (simp add: lowest_bit_bitmap_def)

lemma bitmap_length: "length lowest_bit_bitmap = 256"
  by (simp add: lowest_bit_bitmap_def)

lemma bitmap_entry:
  assumes "n \<noteq> 0" "n < 256"
  shows "n mod 2 ^ Suc (lowest_bit_bitmap ! n) = 2 ^ (lowest_bit_bitmap ! n)"
  using entries_ok_nth [OF bitmap_entries, of "n - 1"] assms
  by (simp add: bitmap_length nth_tl)

lemma mod_least_bit:
  fixes n :: nat
  assumes "n mod 2 ^ Suc k = 2 ^ k"
  shows "bit n k \<and> (\<forall>i < k. \<not> bit n i)"
proof -
  have t: "take_bit (Suc k) n = 2 ^ k" using assms by (simp add: take_bit_eq_mod)
  have "bit n i \<longleftrightarrow> i = k" if "i \<le> k" for i
  proof -
    have "bit n i \<longleftrightarrow> bit (take_bit (Suc k) n) i" using that by (simp add: bit_take_bit_iff)
    also have "\<dots> \<longleftrightarrow> i = k" by (auto simp: t bit_exp_iff)
    finally show ?thesis .
  qed
  then show ?thesis by auto
qed

text \<open>\<open>least_bit v k\<close>: bit \<open>k\<close> of \<open>v\<close> is its lowest set bit.\<close>

definition least_bit :: "u32 \<Rightarrow> nat \<Rightarrow> bool" where
  "least_bit v k \<longleftrightarrow> bit v k \<and> (\<forall>i < k. \<not> bit v i)"

lemma least_bit_unique: "least_bit v k \<Longrightarrow> least_bit v k' \<Longrightarrow> k = k'"
  unfolding least_bit_def by (meson linorder_neqE_nat)

lemma byte_entry:
  fixes w :: u32
  assumes w: "w \<noteq> 0" "\<forall>i \<ge> 8. \<not> bit w i"
  shows "least_bit w (lowest_bit_bitmap ! unat w)"
proof -
  have "w = take_bit 8 w"
    by (rule bit_word_eqI) (use w(2) in \<open>auto simp: bit_take_bit_iff not_less [symmetric]\<close>)
  then have "unat w = unat (take_bit 8 w)" by simp
  also have "\<dots> = take_bit 8 (unat w)" by (simp add: unsigned_take_bit_eq)
  also have "\<dots> < 256" by (simp add: take_bit_eq_mod)
  finally have "unat w mod 2 ^ Suc (lowest_bit_bitmap ! unat w) = 2 ^ (lowest_bit_bitmap ! unat w)"
    using w by (intro bitmap_entry) (auto simp: unsigned_eq_0_iff)
  from mod_least_bit [OF this] show ?thesis
    by (auto simp: least_bit_def bit_unsigned_iff dest: bit_imp_le_length)
qed

text \<open>The bytes of a 32-bit value, as the code masks them out.\<close>

lemma mask_bits:
  "bit (0xff :: u32) i \<longleftrightarrow> i < 8"
  "bit (0xff00 :: u32) i \<longleftrightarrow> 8 \<le> i \<and> i < 16"
  "bit (0xff0000 :: u32) i \<longleftrightarrow> 16 \<le> i \<and> i < 24"
  "bit (0xff000000 :: u32) i \<longleftrightarrow> 24 \<le> i \<and> i < 32"
proof -
  have e: "(0xff :: u32) = mask 8" "(0xff00 :: u32) = push_bit 8 (mask 8)"
    "(0xff0000 :: u32) = push_bit 16 (mask 8)" "(0xff000000 :: u32) = push_bit 24 (mask 8)"
    by (simp_all add: mask_eq_exp_minus_1 push_bit_eq_mult)
  show "bit (0xff :: u32) i \<longleftrightarrow> i < 8"
    "bit (0xff00 :: u32) i \<longleftrightarrow> 8 \<le> i \<and> i < 16"
    "bit (0xff0000 :: u32) i \<longleftrightarrow> 16 \<le> i \<and> i < 24"
    "bit (0xff000000 :: u32) i \<longleftrightarrow> 24 \<le> i \<and> i < 32"
    unfolding e by (auto simp: bit_mask_iff bit_push_bit_iff)
qed

lemma byte_of_value:
  fixes v m :: u32
  assumes m: "\<forall>i. bit m i \<longleftrightarrow> b \<le> i \<and> i < b + 8" and ne: "v AND m \<noteq> 0"
    and low: "\<forall>i < b. \<not> bit v i"
  shows "least_bit v (lowest_bit_bitmap ! unat (drop_bit b (v AND m)) + b)"
proof -
  define w where "w = drop_bit b (v AND m)"
  have w: "bit w i \<longleftrightarrow> bit v (i + b) \<and> i < 8" for i
    unfolding w_def by (auto simp: bit_drop_bit_eq bit_and_iff m add.commute)
  from ne obtain j where "bit v j" "bit m j" by (auto simp: bit_eq_iff bit_and_iff)
  moreover from this m have "b \<le> j" "j < b + 8" by blast+
  ultimately have "bit w (j - b)" by (simp add: w)
  then have "w \<noteq> 0" by (metis bit_0_eq bot_apply bot_bool_def)
  moreover have "\<forall>i \<ge> 8. \<not> bit w i" by (simp add: w)
  ultimately have l: "least_bit w (lowest_bit_bitmap ! unat w)" by (rule byte_entry)
  let ?k = "lowest_bit_bitmap ! unat w"
  have "\<not> bit v i" if "i < ?k + b" for i
  proof (cases "i < b")
    case True
    with low show ?thesis by simp
  next
    case False
    with that have "i - b < ?k" by simp
    moreover from this l have "i - b < 8" by (auto simp: least_bit_def w)
    ultimately show ?thesis using l False by (auto simp: least_bit_def w)
  qed
  with l have "least_bit v (?k + b)" by (auto simp: least_bit_def w)
  then show ?thesis unfolding w_def .
qed

lemma and_mask_zero_bits:
  fixes v m :: u32
  assumes "v AND m = 0" "bit m i"
  shows "\<not> bit v i"
proof
  assume "bit v i"
  with assms(2) have "bit (v AND m) i" unfolding bit_and_iff by (rule conjI [rotated])
  with assms(1) show False by simp
qed

lemma rt_ffs_least:
  assumes v: "v \<noteq> 0"
  shows "least_bit v (rt_ffs v - 1) \<and> 1 \<le> rt_ffs v"
proof -
  note z = and_mask_zero_bits [of v]
  have b0: "\<not> bit v i" if "v AND 0xff = 0" "i < 8" for i
    by (rule z [OF that(1)]) (use that in \<open>simp only: mask_bits\<close>)
  have b1: "\<not> bit v i" if "v AND 0xff = 0" "v AND 0xff00 = 0" "i < 16" for i
    using b0 [OF that(1)] z [OF that(2), of i] that(3) by (cases "i < 8") (simp_all only: mask_bits, auto)
  have b2: "\<not> bit v i"
    if "v AND 0xff = 0" "v AND 0xff00 = 0" "v AND 0xff0000 = 0" "i < 24" for i
    using b1 [OF that(1,2)] z [OF that(3), of i] that(4)
    by (cases "i < 16") (simp_all only: mask_bits, auto)
  have b3: "v AND 0xff000000 \<noteq> 0"
    if "v AND 0xff = 0" "v AND 0xff00 = 0" "v AND 0xff0000 = 0"
  proof
    assume e: "v AND 0xff000000 = 0"
    have "\<not> bit v i" if "i < 32" for i
      using b2 [OF \<open>v AND 0xff = 0\<close> \<open>v AND 0xff00 = 0\<close> \<open>v AND 0xff0000 = 0\<close>, of i] z [OF e, of i] that
      by (cases "i < 24") (simp_all only: mask_bits, auto)
    with v show False by (simp add: word32_zero_iff_bits)
  qed
  have m0: "\<forall>i. bit (0xff :: u32) i \<longleftrightarrow> 0 \<le> i \<and> i < 0 + 8"
    and m1: "\<forall>i. bit (0xff00 :: u32) i \<longleftrightarrow> 8 \<le> i \<and> i < 8 + 8"
    and m2: "\<forall>i. bit (0xff0000 :: u32) i \<longleftrightarrow> 16 \<le> i \<and> i < 16 + 8"
    and m3: "\<forall>i. bit (0xff000000 :: u32) i \<longleftrightarrow> 24 \<le> i \<and> i < 24 + 8"
    by (simp_all only: mask_bits) simp_all
  note l0 = byte_of_value [OF m0, of v] and l1 = byte_of_value [OF m1, of v]
    and l2 = byte_of_value [OF m2, of v] and l3 = byte_of_value [OF m3, of v]
  consider "v AND 0xff \<noteq> 0" | "v AND 0xff = 0" "v AND 0xff00 \<noteq> 0"
    | "v AND 0xff = 0" "v AND 0xff00 = 0" "v AND 0xff0000 \<noteq> 0"
    | "v AND 0xff = 0" "v AND 0xff00 = 0" "v AND 0xff0000 = 0" by blast
  then show ?thesis
  proof cases
    case 1
    with l0 v show ?thesis by (simp add: rt_ffs_def add.commute)
  next
    case 2
    with l1 b0 v show ?thesis by (simp add: rt_ffs_def add.commute)
  next
    case 3
    with l2 b1 v show ?thesis by (simp add: rt_ffs_def add.commute)
  next
    case 4
    with l3 b2 b3 v show ?thesis by (simp add: rt_ffs_def add.commute)
  qed
qed

lemma rt_ffs_zero [simp]: "rt_ffs 0 = 0"
  by (simp add: rt_ffs_def)

lemma rt_ffs_bound: "rt_ffs v \<le> 32"
proof (cases "v = 0")
  case False
  from rt_ffs_least [OF this] have "rt_ffs v - 1 < 32"
    by (auto simp: least_bit_def dest: bit_imp_le_length)
  with rt_ffs_least [OF False] show ?thesis by linarith
qed simp

end
