(* ===== verification/Kernel_Defs.thy ===== *)
theory Kernel_Defs
  imports Rt_List Kservice_Bits
begin

text \<open>
  The kernel's data (\<^verbatim>\<open>rt-thread/include/rtdef.h\<close>) and its global state, for the
  configuration of the repository's \<^verbatim>\<open>examples/*/rtconfig.h\<close>: one CPU, 32 priorities,
  \<^verbatim>\<open>RT_DEBUG\<close>, overflow check, soft timers, no signals and no modules.

  Objects are named by handles instead of addresses.  The \<^verbatim>\<open>rt_object\<close> header that C embeds
  as the first member of every kernel object is kept in one table, \<open>hdr\<close>, indexed by the
  object; the other members are in one table per class.
\<close>

subsection \<open>Constants\<close>

abbreviation (input) RT_THREAD_INIT :: u8 where "RT_THREAD_INIT \<equiv> 0x00"
abbreviation (input) RT_THREAD_READY :: u8 where "RT_THREAD_READY \<equiv> 0x01"
abbreviation (input) RT_THREAD_SUSPEND :: u8 where "RT_THREAD_SUSPEND \<equiv> 0x02"
abbreviation (input) RT_THREAD_RUNNING :: u8 where "RT_THREAD_RUNNING \<equiv> 0x03"
abbreviation (input) RT_THREAD_CLOSE :: u8 where "RT_THREAD_CLOSE \<equiv> 0x04"
abbreviation (input) RT_THREAD_STAT_MASK :: u8 where "RT_THREAD_STAT_MASK \<equiv> 0x0f"

abbreviation (input) RT_THREAD_PRIORITY_MAX :: nat where "RT_THREAD_PRIORITY_MAX \<equiv> 32"

abbreviation (input) RT_Object_Class_Thread :: u8 where "RT_Object_Class_Thread \<equiv> 1"
abbreviation (input) RT_Object_Class_Semaphore :: u8 where "RT_Object_Class_Semaphore \<equiv> 2"
abbreviation (input) RT_Object_Class_Mutex :: u8 where "RT_Object_Class_Mutex \<equiv> 3"
abbreviation (input) RT_Object_Class_Event :: u8 where "RT_Object_Class_Event \<equiv> 4"
abbreviation (input) RT_Object_Class_MailBox :: u8 where "RT_Object_Class_MailBox \<equiv> 5"
abbreviation (input) RT_Object_Class_MessageQueue :: u8 where "RT_Object_Class_MessageQueue \<equiv> 6"
abbreviation (input) RT_Object_Class_MemPool :: u8 where "RT_Object_Class_MemPool \<equiv> 8"
abbreviation (input) RT_Object_Class_Device :: u8 where "RT_Object_Class_Device \<equiv> 9"
abbreviation (input) RT_Object_Class_Timer :: u8 where "RT_Object_Class_Timer \<equiv> 10"
abbreviation (input) RT_Object_Class_Unknown :: u8 where "RT_Object_Class_Unknown \<equiv> 12"
abbreviation (input) RT_Object_Class_Static :: u8 where "RT_Object_Class_Static \<equiv> 0x80"

abbreviation (input) RT_TIMER_FLAG_ACTIVATED :: u8 where "RT_TIMER_FLAG_ACTIVATED \<equiv> 0x1"
abbreviation (input) RT_TIMER_FLAG_ONE_SHOT :: u8 where "RT_TIMER_FLAG_ONE_SHOT \<equiv> 0x0"
abbreviation (input) RT_TIMER_FLAG_PERIODIC :: u8 where "RT_TIMER_FLAG_PERIODIC \<equiv> 0x2"
abbreviation (input) RT_TIMER_FLAG_SOFT_TIMER :: u8 where "RT_TIMER_FLAG_SOFT_TIMER \<equiv> 0x4"

abbreviation (input) RT_TICK_MAX :: u32 where "RT_TICK_MAX \<equiv> 0xffffffff"
text \<open>\<^verbatim>\<open>RT_TICK_MAX / 2\<close>, the half range of the tick counter.\<close>
abbreviation (input) TICK_HALF :: u32 where "TICK_HALF \<equiv> 0x7fffffff"

abbreviation (input) RT_IPC_FLAG_FIFO :: u8 where "RT_IPC_FLAG_FIFO \<equiv> 0x00"
abbreviation (input) RT_IPC_FLAG_PRIO :: u8 where "RT_IPC_FLAG_PRIO \<equiv> 0x01"
abbreviation (input) RT_IPC_CMD_RESET :: nat where "RT_IPC_CMD_RESET \<equiv> 1"
abbreviation (input) RT_EVENT_FLAG_AND :: u8 where "RT_EVENT_FLAG_AND \<equiv> 0x01"
abbreviation (input) RT_EVENT_FLAG_OR :: u8 where "RT_EVENT_FLAG_OR \<equiv> 0x02"
abbreviation (input) RT_EVENT_FLAG_CLEAR :: u8 where "RT_EVENT_FLAG_CLEAR \<equiv> 0x04"

subsection \<open>Handles\<close>

type_synonym tid = nat
type_synonym oid = nat

datatype tmr = ThreadTimer tid | UserTimer nat

datatype oref =
    OThread tid | OTimer tmr | OSem oid | OMutex oid | OEvent oid | OMailbox oid | OMq oid | OMempool oid

text \<open>The heads of the lists a thread's \<^verbatim>\<open>tlist\<close> node can be linked on.\<close>

datatype qid =
    ReadyQ nat       \<comment> \<open>\<open>rt_thread_priority_table[p]\<close>\<close>
  | SuspendQ oref    \<comment> \<open>\<open>parent.suspend_thread\<close> of an IPC object\<close>
  | SenderQ oref     \<comment> \<open>\<open>suspend_sender_thread\<close> of a mailbox\<close>
  | CompletionQ oid  \<comment> \<open>\<open>suspended_list\<close> of a completion\<close>
  | PushQ oid        \<comment> \<open>\<open>suspended_push_list\<close> of a data queue\<close>
  | PopQ oid         \<comment> \<open>\<open>suspended_pop_list\<close> of a data queue\<close>
  | DefunctQ         \<comment> \<open>\<open>rt_thread_defunct\<close>\<close>

datatype tqid = HardT | SoftT  \<comment> \<open>\<open>rt_timer_list\<close>, \<open>rt_soft_timer_list\<close>\<close>

text \<open>A timer's callback with its parameter.\<close>

datatype tfunc = ThreadTimeout tid | UserTimeout nat

subsection \<open>Kernel objects\<close>

record rt_object =
  o_name :: "u8 list"      \<comment> \<open>\<open>RT_NAME_MAX\<close> bytes\<close>
  o_type :: u8
  o_flag :: u8

record rt_thread =
  sp :: u32
  stack_addr :: u32
  stack_size :: u32
  stack_magic :: u8        \<comment> \<open>the byte at \<open>stack_addr\<close>\<close>
  t_error :: int
  stat :: u8
  current_priority :: u8
  init_priority :: u8
  number_mask :: u32
  event_set :: u32
  event_info :: u8
  init_tick :: u32
  remaining_tick :: u32
  cleanup :: bool          \<comment> \<open>whether \<open>cleanup\<close> is set\<close>

record rt_timer =
  timeout_func :: tfunc
  tm_init_tick :: u32
  timeout_tick :: u32

record rt_semaphore =
  s_value :: u16

record rt_mutex =
  m_value :: u16
  original_priority :: u8
  hold :: u8
  owner :: "tid option"

record rt_event =
  e_set :: u32

record rt_mailbox =
  msg_pool :: "u32 list"
  mb_size :: u16
  mb_entry :: u16
  in_offset :: u16
  out_offset :: u16

text \<open>A message block is its index in the pool; \<open>mq_next\<close> is its \<^verbatim>\<open>next\<close> field.\<close>

record rt_messagequeue =
  mq_next :: "nat \<Rightarrow> nat option"
  mq_data :: "nat \<Rightarrow> u8 list"
  msg_size :: u16
  max_msgs :: u16
  mq_entry :: u16
  msg_queue_head :: "nat option"
  msg_queue_tail :: "nat option"
  msg_queue_free :: "nat option"

text \<open>
  The pointer-sized head of a pool's block: in a free block the next free one, in an allocated
  block the pool.
\<close>

datatype mp_link = NextFree "nat option" | PoolOf oid

record rt_mempool =
  mp_size :: u32
  block_size :: u32
  block_list :: "nat option"
  mp_link :: "nat \<Rightarrow> mp_link"
  block_total_count :: u32
  block_free_count :: u32
  suspend_thread_count :: u32

record rt_completion =
  c_flag :: u32

record rt_data_item =
  data_ptr :: u32
  data_size :: u32

record rt_data_queue =
  dq_size :: u16
  lwm :: u16
  get_index :: u16
  put_index :: u16
  dq_items :: "rt_data_item list"   \<comment> \<open>\<open>queue\<close>\<close>
  evt_notify :: bool                \<comment> \<open>whether a callback is set\<close>

text \<open>The objects outside \<^verbatim>\<open>ipc.c\<close> on which threads wait.\<close>

record resources =
  mempools :: "oid \<Rightarrow> rt_mempool"
  completions :: "oid \<Rightarrow> rt_completion"
  data_queues :: "oid \<Rightarrow> rt_data_queue"

subsection \<open>The kernel state\<close>

record kernel =
  hdr :: "oref \<Rightarrow> rt_object"
  objs :: "(u8, oref) lstore"            \<comment> \<open>\<open>rt_object_container\<close>, by class\<close>
  threads :: "tid \<Rightarrow> rt_thread"
  thl :: "(qid, tid) lstore"              \<comment> \<open>the \<open>tlist\<close> nodes\<close>
  timers :: "tmr \<Rightarrow> rt_timer"
  tml :: "(tqid, tmr) lstore"            \<comment> \<open>the timers' \<open>row[0]\<close> nodes\<close>
  timer_thread :: tid
  ready_group :: u32                     \<comment> \<open>\<open>rt_thread_ready_priority_group\<close>\<close>
  current :: "tid option"                \<comment> \<open>\<open>rt_current_thread\<close>\<close>
  cur_prio :: u8                         \<comment> \<open>\<open>rt_current_priority\<close>\<close>
  lock_nest :: u16                       \<comment> \<open>\<open>rt_scheduler_lock_nest\<close>, signed\<close>
  irq_nest :: u8                         \<comment> \<open>\<open>rt_interrupt_nest\<close>\<close>
  tick :: u32                            \<comment> \<open>\<open>rt_tick\<close>\<close>
  sems :: "oid \<Rightarrow> rt_semaphore"
  mutexes :: "oid \<Rightarrow> rt_mutex"
  events :: "oid \<Rightarrow> rt_event"
  mailboxes :: "oid \<Rightarrow> rt_mailbox"
  mqs :: "oid \<Rightarrow> rt_messagequeue"
  res :: resources

subsection \<open>Access\<close>

definition upd_thread :: "tid \<Rightarrow> (rt_thread \<Rightarrow> rt_thread) \<Rightarrow> kernel \<Rightarrow> kernel" where
  [kdefs]: "upd_thread t f k = k\<lparr>threads := (threads k)(t := f (threads k t))\<rparr>"

definition upd_hdr :: "oref \<Rightarrow> (rt_object \<Rightarrow> rt_object) \<Rightarrow> kernel \<Rightarrow> kernel" where
  [kdefs]: "upd_hdr r f k = k\<lparr>hdr := (hdr k)(r := f (hdr k r))\<rparr>"

definition upd_timer :: "tmr \<Rightarrow> (rt_timer \<Rightarrow> rt_timer) \<Rightarrow> kernel \<Rightarrow> kernel" where
  [kdefs]: "upd_timer m f k = k\<lparr>timers := (timers k)(m := f (timers k m))\<rparr>"

text \<open>\<^verbatim>\<open>thread->stat & RT_THREAD_STAT_MASK\<close> and the update that keeps the signal bits.\<close>

definition stat_of :: "kernel \<Rightarrow> tid \<Rightarrow> u8" where
  "stat_of k t = stat (threads k t) AND RT_THREAD_STAT_MASK"

definition set_stat :: "tid \<Rightarrow> u8 \<Rightarrow> kernel \<Rightarrow> kernel" where
  [kdefs]: "set_stat t s =
     upd_thread t (\<lambda>th. th\<lparr>stat := s OR (stat th AND NOT RT_THREAD_STAT_MASK)\<rparr>)"

definition prio_of :: "kernel \<Rightarrow> tid \<Rightarrow> nat" where
  "prio_of k t = unat (current_priority (threads k t))"

text \<open>\<^verbatim>\<open>RT_DEBUG_IN_THREAD_CONTEXT\<close> and \<^verbatim>\<open>RT_DEBUG_NOT_IN_INTERRUPT\<close> (rtdebug.h).\<close>

definition not_in_interrupt :: "kernel \<Rightarrow> bool" where
  "not_in_interrupt k \<longleftrightarrow> irq_nest k = 0"

definition in_thread_context :: "kernel \<Rightarrow> bool" where
  "in_thread_context k \<longleftrightarrow> current k \<noteq> None \<and> not_in_interrupt k"

subsection \<open>What the updates leave unchanged\<close>

lemma upd_thread_sel [simp]:
  "hdr (upd_thread t f k) = hdr k"
  "objs (upd_thread t f k) = objs k"
  "thl (upd_thread t f k) = thl k"
  "timers (upd_thread t f k) = timers k"
  "tml (upd_thread t f k) = tml k"
  "timer_thread (upd_thread t f k) = timer_thread k"
  "ready_group (upd_thread t f k) = ready_group k"
  "current (upd_thread t f k) = current k"
  "cur_prio (upd_thread t f k) = cur_prio k"
  "lock_nest (upd_thread t f k) = lock_nest k"
  "irq_nest (upd_thread t f k) = irq_nest k"
  "tick (upd_thread t f k) = tick k"
  "sems (upd_thread t f k) = sems k"
  "mutexes (upd_thread t f k) = mutexes k"
  "events (upd_thread t f k) = events k"
  "mailboxes (upd_thread t f k) = mailboxes k"
  "mqs (upd_thread t f k) = mqs k"
  "res (upd_thread t f k) = res k"
  "threads (upd_thread t f k) = (threads k)(t := f (threads k t))"
  by (simp_all add: upd_thread_def)

lemma upd_hdr_sel [simp]:
  "objs (upd_hdr r f k) = objs k"
  "threads (upd_hdr r f k) = threads k"
  "thl (upd_hdr r f k) = thl k"
  "timers (upd_hdr r f k) = timers k"
  "tml (upd_hdr r f k) = tml k"
  "timer_thread (upd_hdr r f k) = timer_thread k"
  "ready_group (upd_hdr r f k) = ready_group k"
  "current (upd_hdr r f k) = current k"
  "cur_prio (upd_hdr r f k) = cur_prio k"
  "lock_nest (upd_hdr r f k) = lock_nest k"
  "irq_nest (upd_hdr r f k) = irq_nest k"
  "tick (upd_hdr r f k) = tick k"
  "sems (upd_hdr r f k) = sems k"
  "mutexes (upd_hdr r f k) = mutexes k"
  "events (upd_hdr r f k) = events k"
  "mailboxes (upd_hdr r f k) = mailboxes k"
  "mqs (upd_hdr r f k) = mqs k"
  "res (upd_hdr r f k) = res k"
  "hdr (upd_hdr r f k) = (hdr k)(r := f (hdr k r))"
  by (simp_all add: upd_hdr_def)

lemma upd_timer_sel [simp]:
  "hdr (upd_timer m f k) = hdr k"
  "objs (upd_timer m f k) = objs k"
  "threads (upd_timer m f k) = threads k"
  "thl (upd_timer m f k) = thl k"
  "tml (upd_timer m f k) = tml k"
  "timer_thread (upd_timer m f k) = timer_thread k"
  "ready_group (upd_timer m f k) = ready_group k"
  "current (upd_timer m f k) = current k"
  "cur_prio (upd_timer m f k) = cur_prio k"
  "lock_nest (upd_timer m f k) = lock_nest k"
  "irq_nest (upd_timer m f k) = irq_nest k"
  "tick (upd_timer m f k) = tick k"
  "sems (upd_timer m f k) = sems k"
  "mutexes (upd_timer m f k) = mutexes k"
  "events (upd_timer m f k) = events k"
  "mailboxes (upd_timer m f k) = mailboxes k"
  "mqs (upd_timer m f k) = mqs k"
  "res (upd_timer m f k) = res k"
  "timers (upd_timer m f k) = (timers k)(m := f (timers k m))"
  by (simp_all add: upd_timer_def)

lemma set_stat_sel [simp]:
  "hdr (set_stat t s k) = hdr k"
  "objs (set_stat t s k) = objs k"
  "thl (set_stat t s k) = thl k"
  "timers (set_stat t s k) = timers k"
  "tml (set_stat t s k) = tml k"
  "timer_thread (set_stat t s k) = timer_thread k"
  "ready_group (set_stat t s k) = ready_group k"
  "current (set_stat t s k) = current k"
  "cur_prio (set_stat t s k) = cur_prio k"
  "lock_nest (set_stat t s k) = lock_nest k"
  "irq_nest (set_stat t s k) = irq_nest k"
  "tick (set_stat t s k) = tick k"
  "sems (set_stat t s k) = sems k"
  "mutexes (set_stat t s k) = mutexes k"
  "events (set_stat t s k) = events k"
  "mailboxes (set_stat t s k) = mailboxes k"
  "mqs (set_stat t s k) = mqs k"
  "res (set_stat t s k) = res k"
  by (simp_all add: set_stat_def)

lemma threads_set_stat:
  "threads (set_stat t s k) =
     (threads k)(t := (threads k t)\<lparr>stat := s OR (stat (threads k t) AND NOT RT_THREAD_STAT_MASK)\<rparr>)"
  by (simp add: set_stat_def)

lemma stat_of_set_stat [simp]:
  "stat_of (set_stat t s k) u = (if u = t then s AND RT_THREAD_STAT_MASK else stat_of k u)"
  by (simp add: stat_of_def threads_set_stat)

lemma prio_of_set_stat [simp]: "prio_of (set_stat t s k) u = prio_of k u"
  by (simp add: prio_of_def threads_set_stat)

lemma number_mask_set_stat [simp]:
  "number_mask (threads (set_stat t s k) u) = number_mask (threads k u)"
  by (simp add: threads_set_stat)

lemma stat_of_cong: "threads k' t = threads k t \<Longrightarrow> stat_of k' t = stat_of k t"
  by (simp add: stat_of_def)

lemma prio_of_cong: "threads k' t = threads k t \<Longrightarrow> prio_of k' t = prio_of k t"
  by (simp add: prio_of_def)

lemma stat_of_upds [simp]:
  "stat_of (k\<lparr>hdr := x_hdr\<rparr>) t = stat_of k t"
  "stat_of (k\<lparr>objs := x_objs\<rparr>) t = stat_of k t"
  "stat_of (k\<lparr>thl := x_tl\<rparr>) t = stat_of k t"
  "stat_of (k\<lparr>timers := x_timers\<rparr>) t = stat_of k t"
  "stat_of (k\<lparr>tml := x_tml\<rparr>) t = stat_of k t"
  "stat_of (k\<lparr>timer_thread := x_timer_thread\<rparr>) t = stat_of k t"
  "stat_of (k\<lparr>ready_group := x_ready_group\<rparr>) t = stat_of k t"
  "stat_of (k\<lparr>current := x_current\<rparr>) t = stat_of k t"
  "stat_of (k\<lparr>cur_prio := x_cur_prio\<rparr>) t = stat_of k t"
  "stat_of (k\<lparr>lock_nest := x_lock_nest\<rparr>) t = stat_of k t"
  "stat_of (k\<lparr>irq_nest := x_irq_nest\<rparr>) t = stat_of k t"
  "stat_of (k\<lparr>tick := x_tick\<rparr>) t = stat_of k t"
  "stat_of (k\<lparr>sems := x_sems\<rparr>) t = stat_of k t"
  "stat_of (k\<lparr>mutexes := x_mutexes\<rparr>) t = stat_of k t"
  "stat_of (k\<lparr>events := x_events\<rparr>) t = stat_of k t"
  "stat_of (k\<lparr>mailboxes := x_mailboxes\<rparr>) t = stat_of k t"
  "stat_of (k\<lparr>mqs := x_mqs\<rparr>) t = stat_of k t"
  "stat_of (k\<lparr>res := x_res\<rparr>) t = stat_of k t"
  by (simp_all add: stat_of_def)

lemma prio_of_upds [simp]:
  "prio_of (k\<lparr>hdr := x_hdr\<rparr>) t = prio_of k t"
  "prio_of (k\<lparr>objs := x_objs\<rparr>) t = prio_of k t"
  "prio_of (k\<lparr>thl := x_tl\<rparr>) t = prio_of k t"
  "prio_of (k\<lparr>timers := x_timers\<rparr>) t = prio_of k t"
  "prio_of (k\<lparr>tml := x_tml\<rparr>) t = prio_of k t"
  "prio_of (k\<lparr>timer_thread := x_timer_thread\<rparr>) t = prio_of k t"
  "prio_of (k\<lparr>ready_group := x_ready_group\<rparr>) t = prio_of k t"
  "prio_of (k\<lparr>current := x_current\<rparr>) t = prio_of k t"
  "prio_of (k\<lparr>cur_prio := x_cur_prio\<rparr>) t = prio_of k t"
  "prio_of (k\<lparr>lock_nest := x_lock_nest\<rparr>) t = prio_of k t"
  "prio_of (k\<lparr>irq_nest := x_irq_nest\<rparr>) t = prio_of k t"
  "prio_of (k\<lparr>tick := x_tick\<rparr>) t = prio_of k t"
  "prio_of (k\<lparr>sems := x_sems\<rparr>) t = prio_of k t"
  "prio_of (k\<lparr>mutexes := x_mutexes\<rparr>) t = prio_of k t"
  "prio_of (k\<lparr>events := x_events\<rparr>) t = prio_of k t"
  "prio_of (k\<lparr>mailboxes := x_mailboxes\<rparr>) t = prio_of k t"
  "prio_of (k\<lparr>mqs := x_mqs\<rparr>) t = prio_of k t"
  "prio_of (k\<lparr>res := x_res\<rparr>) t = prio_of k t"
  by (simp_all add: prio_of_def)

lemma stat_of_upd_hdr [simp]: "stat_of (upd_hdr r f k) t = stat_of k t"
  "prio_of (upd_hdr r f k) t = prio_of k t"
  "stat_of (upd_timer m g k) t = stat_of k t"
  "prio_of (upd_timer m g k) t = prio_of k t"
  by (simp_all add: stat_of_def prio_of_def)

lemma stat_of_upd_thread:
  "stat_of (upd_thread t f k) u =
     (if u = t then stat (f (threads k t)) AND RT_THREAD_STAT_MASK else stat_of k u)"
  by (simp add: stat_of_def)

lemma prio_of_upd_thread:
  "prio_of (upd_thread t f k) u =
     (if u = t then unat (current_priority (f (threads k t))) else prio_of k u)"
  by (simp add: prio_of_def)

end
