(* ===== verification/Scheduler.thy ===== *)
theory Scheduler
  imports Kernel_Defs
begin

text \<open>
  \<^verbatim>\<open>rt-thread/src/scheduler.c\<close> (the single-CPU branches): the ready queues, one list per
  priority with a 32-bit map of the non-empty ones, and \<^verbatim>\<open>rt_schedule\<close>.

  A context switch changes \<^verbatim>\<open>rt_current_thread\<close>; the registers it saves are the hardware's
  and are not modelled.  \<open>None\<close> stands for the spin after a stack overflow, a
  dereference of a null thread or an index outside the priority table.
\<close>

subsection \<open>Operations\<close>

text \<open>
  \<^verbatim>\<open>_rt_scheduler_stack_check\<close>: the magic byte is gone or the stack pointer is outside the
  stack.  The code then spins with interrupts off.
\<close>

definition stack_ok :: "rt_thread \<Rightarrow> bool" where
  "stack_ok th \<longleftrightarrow>
     \<not> (stack_magic th \<noteq> 0x23 \<or> sp th \<le> stack_addr th \<or> sp th > stack_addr th + stack_size th)"

definition get_highest_priority_thread :: "kernel \<Rightarrow> (nat \<times> tid) option" where
  "get_highest_priority_thread k =
     (if ready_group k = 0 then None
      else case lst (thl k) (ReadyQ (rt_ffs (ready_group k) - 1)) of
             [] \<Rightarrow> None
           | t # _ \<Rightarrow> Some (rt_ffs (ready_group k) - 1, t))"

definition rt_system_scheduler_init :: "kernel \<Rightarrow> kernel" where
  "rt_system_scheduler_init k =
     k\<lparr>lock_nest := 0,
       thl := (thl k)\<lparr>lst := (\<lambda>q. case q of
                 ReadyQ p \<Rightarrow> if p < RT_THREAD_PRIORITY_MAX then [] else lst (thl k) q
               | DefunctQ \<Rightarrow> [] | _ \<Rightarrow> lst (thl k) q)\<rparr>,
       ready_group := 0\<rparr>"

definition rt_schedule_insert_thread :: "tid \<Rightarrow> kernel \<Rightarrow> kernel option" where
  "rt_schedule_insert_thread t k =
     (if current k = Some t then Some (set_stat t RT_THREAD_RUNNING k)
      else do {
        let k1 = set_stat t RT_THREAD_READY k;
        RT_ASSERT (prio_of k1 t < RT_THREAD_PRIORITY_MAX);
        l \<leftarrow> ls_append (ReadyQ (prio_of k1 t)) t (thl k1);
        Some (k1\<lparr>thl := l, ready_group := ready_group k1 OR number_mask (threads k1 t)\<rparr>)
      })"

definition rt_schedule_remove_thread :: "tid \<Rightarrow> kernel \<Rightarrow> kernel option" where
  "rt_schedule_remove_thread t k =
     do {
       let k1 = k\<lparr>thl := ls_remove t (thl k)\<rparr>;
       RT_ASSERT (prio_of k1 t < RT_THREAD_PRIORITY_MAX);
       Some (if lst (thl k1) (ReadyQ (prio_of k1 t)) = []
             then k1\<lparr>ready_group := ready_group k1 AND NOT (number_mask (threads k1 t))\<rparr>
             else k1)
     }"

definition rt_system_scheduler_start :: "kernel \<Rightarrow> kernel option" where
  "rt_system_scheduler_start k =
     do {
       (p, to) \<leftarrow> get_highest_priority_thread k;
       k2 \<leftarrow> rt_schedule_remove_thread to (k\<lparr>current := Some to\<rparr>);
       Some (upd_thread to (\<lambda>th. th\<lparr>stat := RT_THREAD_RUNNING\<rparr>) k2)
     }"

text \<open>The switch of \<^verbatim>\<open>rt_schedule\<close> from thread \<open>c\<close> to thread \<open>to\<close> of priority \<open>p\<close>.\<close>

definition switch_to :: "nat \<Rightarrow> tid \<Rightarrow> bool \<Rightarrow> tid \<Rightarrow> kernel \<Rightarrow> kernel option" where
  "switch_to p c need_insert to k =
     do {
       let k1 = k\<lparr>cur_prio := of_nat p, current := Some to\<rparr>;
       k2 \<leftarrow> (if need_insert then rt_schedule_insert_thread c k1 else Some k1);
       k3 \<leftarrow> rt_schedule_remove_thread to k2;
       let k4 = set_stat to RT_THREAD_RUNNING k3;
       RT_ASSERT (stack_ok (threads k4 to));
       Some k4
     }"

definition rt_schedule :: "kernel \<Rightarrow> kernel option" where
  "rt_schedule k =
     (if lock_nest k = 0 \<and> ready_group k \<noteq> 0 then do {
        (p, hi) \<leftarrow> get_highest_priority_thread k;
        c \<leftarrow> current k;
        let (to, need_insert) =
          (if stat_of k c = RT_THREAD_RUNNING
           then if prio_of k c < p then (c, False) else (hi, True)
           else (hi, False));
        if to \<noteq> c then switch_to p c need_insert to k
        else do {
          k1 \<leftarrow> rt_schedule_remove_thread c k;
          Some (set_stat c RT_THREAD_RUNNING k1)
        }
      } else Some k)"

definition rt_enter_critical :: "kernel \<Rightarrow> kernel" where
  "rt_enter_critical k = k\<lparr>lock_nest := lock_nest k + 1\<rparr>"

definition rt_exit_critical :: "kernel \<Rightarrow> kernel option" where
  "rt_exit_critical k =
     (let k1 = k\<lparr>lock_nest := lock_nest k - 1\<rparr>
      in if sint (lock_nest k1) \<le> 0 then rt_schedule (k1\<lparr>lock_nest := 0\<rparr>) else Some k1)"

definition rt_critical_level :: "kernel \<Rightarrow> u16" where
  "rt_critical_level k = lock_nest k"

subsection \<open>The invariant of the ready queues\<close>

text \<open>
  \<open>core_except X k\<close> is the agreement of the thread states, the lists and the bitmap for all
  threads outside \<open>X\<close>, the threads an operation is moving; those are on no list.
\<close>

fun link_ok :: "qid option \<Rightarrow> u8 \<Rightarrow> nat \<Rightarrow> bool" where
  "link_ok None s p = (s \<noteq> RT_THREAD_READY)"
| "link_ok (Some (ReadyQ q)) s p = (s = RT_THREAD_READY \<and> p = q)"
| "link_ok (Some (SuspendQ r)) s p = (s = RT_THREAD_SUSPEND)"
| "link_ok (Some (SenderQ r)) s p = (s = RT_THREAD_SUSPEND)"
| "link_ok (Some (CompletionQ r)) s p = (s = RT_THREAD_SUSPEND)"
| "link_ok (Some (PushQ r)) s p = (s = RT_THREAD_SUSPEND)"
| "link_ok (Some (PopQ r)) s p = (s = RT_THREAD_SUSPEND)"
| "link_ok (Some DefunctQ) s p = (s = RT_THREAD_CLOSE)"

definition thread_ok :: "kernel \<Rightarrow> tid \<Rightarrow> bool" where
  "thread_ok k t \<longleftrightarrow>
     link_ok (own (thl k) t) (stat_of k t) (prio_of k t) \<and>
     (stat_of k t \<noteq> RT_THREAD_INIT \<longrightarrow>
        prio_of k t < RT_THREAD_PRIORITY_MAX \<and> number_mask (threads k t) = 2 ^ prio_of k t)"

lemma link_ok_ready: "link_ok q RT_THREAD_READY p \<longleftrightarrow> q = Some (ReadyQ p)"
  by (cases "(q, RT_THREAD_READY, p)" rule: link_ok.cases) auto

lemma link_ok_running: "link_ok q RT_THREAD_RUNNING p \<longleftrightarrow> q = None"
  by (cases "(q, RT_THREAD_RUNNING, p)" rule: link_ok.cases) auto

definition core_except :: "tid set \<Rightarrow> kernel \<Rightarrow> bool" where
  "core_except X k \<longleftrightarrow>
     ls_wf (thl k) \<and>
     (\<forall>p < 32. bit (ready_group k) p \<longleftrightarrow> lst (thl k) (ReadyQ p) \<noteq> []) \<and>
     (\<forall>t. t \<notin> X \<longrightarrow> thread_ok k t) \<and>
     (\<forall>t \<in> X. own (thl k) t = None)"

text \<open>The running thread is the only one in state RUNNING, and it is never READY.\<close>

definition cur_ok :: "kernel \<Rightarrow> bool" where
  "cur_ok k \<longleftrightarrow>
     (\<forall>t. stat_of k t = RT_THREAD_RUNNING \<longrightarrow> current k = Some t) \<and>
     (\<forall>c. current k = Some c \<longrightarrow>
        stat_of k c \<noteq> RT_THREAD_READY \<and> stat_of k c \<noteq> RT_THREAD_INIT)"

definition sched_inv :: "kernel \<Rightarrow> bool" where
  "sched_inv k \<longleftrightarrow> core_except {} k \<and> cur_ok k"

lemma core_except_cong:
  "thl k' = thl k \<Longrightarrow> ready_group k' = ready_group k \<Longrightarrow> threads k' = threads k \<Longrightarrow>
     core_except X k' = core_except X k"
  by (simp add: core_except_def thread_ok_def stat_of_def prio_of_def)

lemma sched_inv_cong:
  "thl k' = thl k \<Longrightarrow> ready_group k' = ready_group k \<Longrightarrow> threads k' = threads k \<Longrightarrow>
     current k' = current k \<Longrightarrow> sched_inv k' = sched_inv k"
  by (simp add: sched_inv_def core_except_cong [of k' k] cur_ok_def stat_of_def)

lemma sched_inv_core: "sched_inv k \<Longrightarrow> core_except {} k"
  by (simp add: sched_inv_def)

lemma cur_not_ready:
  "sched_inv k \<Longrightarrow> current k = Some c \<Longrightarrow> stat_of k c \<noteq> RT_THREAD_READY \<and> stat_of k c \<noteq> RT_THREAD_INIT"
  by (simp add: sched_inv_def cur_ok_def)

lemma running_current: "sched_inv k \<Longrightarrow> stat_of k t = RT_THREAD_RUNNING \<Longrightarrow> current k = Some t"
  by (simp add: sched_inv_def cur_ok_def)

subsection \<open>The moving parts keep the invariant\<close>

lemma thread_ok_cong:
  "own (thl k') t = own (thl k) t \<Longrightarrow> threads k' t = threads k t \<Longrightarrow> thread_ok k' t = thread_ok k t"
  by (simp add: thread_ok_def stat_of_def prio_of_def)

lemma core_thread_ok: "core_except X k \<Longrightarrow> t \<notin> X \<Longrightarrow> thread_ok k t"
  by (simp add: core_except_def)

lemma core_wf: "core_except X k \<Longrightarrow> ls_wf (thl k)"
  by (simp add: core_except_def)

lemma core_except_weaken:
  "core_except {} k \<Longrightarrow> own (thl k) t = None \<Longrightarrow> core_except {t} k"
  by (simp add: core_except_def)

lemma core_except_upd_thread:
  "core_except {t} k \<Longrightarrow> core_except {t} (upd_thread t f k)"
  by (auto simp: core_except_def thread_ok_def stat_of_upd_thread prio_of_upd_thread)

lemma core_except_set_stat:
  assumes "core_except {t} k"
    and "s \<in> {RT_THREAD_SUSPEND, RT_THREAD_RUNNING, RT_THREAD_CLOSE}"
    and "prio_of k t < 32" "number_mask (threads k t) = 2 ^ prio_of k t"
  shows "core_except {} (set_stat t s k)"
  using assms by (auto simp: core_except_def thread_ok_def threads_set_stat)

lemma remove_thread_frame:
  "rt_schedule_remove_thread t k = Some k' \<Longrightarrow>
     k' = k\<lparr>thl := ls_remove t (thl k), ready_group := ready_group k'\<rparr>"
  by (auto simp: rt_schedule_remove_thread_def Let_def split: if_splits)

lemma insert_thread_frame:
  "rt_schedule_insert_thread t k = Some k' \<Longrightarrow>
     k' = k\<lparr>threads := threads k', thl := thl k', ready_group := ready_group k'\<rparr>"
  by (auto simp: rt_schedule_insert_thread_def set_stat_def upd_thread_def Let_def
      bind_eq_Some_conv       split: if_splits)

lemma core_remove:
  assumes c: "core_except {} k" and t: "stat_of k t \<noteq> RT_THREAD_INIT"
  obtains k' where "rt_schedule_remove_thread t k = Some k'" "core_except {t} k'"
    "k' = k\<lparr>thl := ls_remove t (thl k), ready_group := ready_group k'\<rparr>"
proof -
  from c t have p: "prio_of k t < 32" and m: "number_mask (threads k t) = 2 ^ prio_of k t"
    and wf: "ls_wf (thl k)" and ok: "thread_ok k t"
    using core_thread_ok [OF c, of t] core_wf [OF c] by (simp_all add: thread_ok_def)
  let ?p = "prio_of k t"
  let ?g = "if remove1 t (lst (thl k) (ReadyQ ?p)) = [] then ready_group k AND NOT (2 ^ ?p)
            else ready_group k"
  let ?k = "k\<lparr>thl := ls_remove t (thl k), ready_group := ?g\<rparr>"
  have r: "rt_schedule_remove_thread t k = Some ?k"
    using p m by (simp add: rt_schedule_remove_thread_def Let_def lst_ls_remove [OF wf])
  have other: "t \<notin> set (lst (thl k) (ReadyQ q))" if "q \<noteq> ?p" for q
    using that ok by (auto simp: ls_wfD [OF wf] thread_ok_def)
  have "bit ?g q \<longleftrightarrow> remove1 t (lst (thl k) (ReadyQ q)) \<noteq> []" if "q < 32" for q
  proof (cases "q = ?p")
    case True
    with c that show ?thesis
      by (cases "t \<in> set (lst (thl k) (ReadyQ ?p))")
        (auto simp: bit_and_not_mask_iff core_except_def)
  next
    case False
    with c that other [OF False] show ?thesis by (auto simp: bit_and_not_mask_iff core_except_def)
  qed
  moreover have "thread_ok ?k u" if "u \<noteq> t" for u
    using c that thread_ok_cong [of ?k u k] by (simp add: core_except_def own_ls_remove)
  ultimately have "core_except {t} ?k"
    using wf by (simp add: core_except_def lst_ls_remove own_ls_remove)
  with r show ?thesis by (intro that [of ?k]) simp_all
qed

lemma core_insert:
  assumes c: "core_except {t} k" and cur: "current k \<noteq> Some t"
    and p: "prio_of k t < 32" and m: "number_mask (threads k t) = 2 ^ prio_of k t"
  obtains k' where "rt_schedule_insert_thread t k = Some k'" "core_except {} k'"
    "k' = (set_stat t RT_THREAD_READY k)\<lparr>thl := thl k', ready_group := ready_group k'\<rparr>"
    "lst (thl k') = (lst (thl k))(ReadyQ (prio_of k t) := lst (thl k) (ReadyQ (prio_of k t)) @ [t])"
    "own (thl k') = (own (thl k))(t := Some (ReadyQ (prio_of k t)))"
    "ready_group k' = ready_group k OR 2 ^ prio_of k t"
proof -
  let ?p = "prio_of k t"
  from c have wf: "ls_wf (thl k)" and o: "own (thl k) t = None" by (auto simp: core_except_def)
  define l where "l = (thl k)\<lparr>lst := (lst (thl k))(ReadyQ ?p := lst (thl k) (ReadyQ ?p) @ [t]),
     own := (own (thl k))(t := Some (ReadyQ ?p))\<rparr>"
  have l: "ls_append (ReadyQ ?p) t (thl k) = Some l" by (simp add: ls_insert_eq [OF o] l_def)
  let ?k = "(set_stat t RT_THREAD_READY k)\<lparr>thl := l, ready_group := ready_group k OR 2 ^ ?p\<rparr>"
  have r: "rt_schedule_insert_thread t k = Some ?k"
    using cur p m l by (simp add: rt_schedule_insert_thread_def Let_def)
  have "thread_ok ?k u" for u
  proof (cases "u = t")
    case True
    then show ?thesis using p m by (simp add: thread_ok_def l_def threads_set_stat)
  next
    case False
    with c thread_ok_cong [of ?k u k] show ?thesis
      by (simp add: core_except_def l_def threads_set_stat)
  qed
  moreover have "bit (ready_group ?k) q \<longleftrightarrow> lst l (ReadyQ q) \<noteq> []" if "q < 32" for q
    using c that by (auto simp: bit_or_mask_iff core_except_def l_def)
  ultimately have "core_except {} ?k"
    using ls_insert_wf [OF wf l] by (simp add: core_except_def)
  with r show ?thesis by (intro that [of ?k]) (simp_all add: l_def)
qed

subsection \<open>The highest ready priority\<close>

lemma highest_priority:
  assumes c: "core_except {} k" and g: "ready_group k \<noteq> 0"
  obtains p t where "get_highest_priority_thread k = Some (p, t)" "p < 32"
    "lst (thl k) (ReadyQ p) \<noteq> []" "t = hd (lst (thl k) (ReadyQ p))"
    "\<forall>q < p. lst (thl k) (ReadyQ q) = []"
    "stat_of k t = RT_THREAD_READY" "prio_of k t = p"
proof -
  let ?p = "rt_ffs (ready_group k) - 1"
  from rt_ffs_least [OF g] have lb: "least_bit (ready_group k) ?p" by simp
  then have b: "bit (ready_group k) ?p" and lo: "\<forall>q < ?p. \<not> bit (ready_group k) q"
    by (auto simp: least_bit_def)
  from b have p: "?p < 32" by (auto dest: bit_imp_le_length)
  with b c obtain t ts where l: "lst (thl k) (ReadyQ ?p) = t # ts"
    by (cases "lst (thl k) (ReadyQ ?p)") (auto simp: core_except_def)
  then have "own (thl k) t = Some (ReadyQ ?p)"
    using c ls_wfD [of "thl k" t "ReadyQ ?p"] by (simp add: core_except_def)
  with core_thread_ok [OF c, of t] have "stat_of k t = RT_THREAD_READY" "prio_of k t = ?p"
    by (auto simp: thread_ok_def)
  moreover have "\<forall>q < ?p. lst (thl k) (ReadyQ q) = []"
    using lo c p by (auto simp: core_except_def)
  moreover have "get_highest_priority_thread k = Some (?p, t)"
    using g l by (simp add: get_highest_priority_thread_def)
  ultimately show ?thesis using p l by (intro that [of ?p t]) simp_all
qed

lemma ready_queued:
  assumes "core_except {} k" "stat_of k t = RT_THREAD_READY"
  shows "t \<in> set (lst (thl k) (ReadyQ (prio_of k t))) \<and> prio_of k t < 32"
  using core_thread_ok [OF assms(1), of t] core_wf [OF assms(1)] assms(2)
  by (simp add: thread_ok_def ls_wfD link_ok_ready)

lemma queued_ready:
  assumes "core_except {} k" "t \<in> set (lst (thl k) (ReadyQ p))"
  shows "stat_of k t = RT_THREAD_READY \<and> prio_of k t = p"
  using core_thread_ok [OF assms(1), of t] core_wf [OF assms(1)] assms(2)
  by (simp add: thread_ok_def ls_wfD)

lemma running_unlinked:
  assumes "core_except {} k" "stat_of k t = RT_THREAD_RUNNING"
  shows "own (thl k) t = None"
  using core_thread_ok [OF assms(1), of t] assms(2) by (simp add: thread_ok_def link_ok_running)

subsection \<open>The switch\<close>

text \<open>The fields the scheduler writes; every other one keeps its value.\<close>

definition sched_frame :: "kernel \<Rightarrow> kernel \<Rightarrow> bool" where
  "sched_frame k k' \<longleftrightarrow>
     k' = k\<lparr>threads := threads k', thl := thl k', ready_group := ready_group k',
            current := current k', cur_prio := cur_prio k'\<rparr> \<and>
     (\<forall>t. \<exists>s. threads k' t = (threads k t)\<lparr>stat := s\<rparr>)"

lemma sched_frame_sel:
  assumes "sched_frame k k'"
  shows "hdr k' = hdr k" "objs k' = objs k" "timers k' = timers k" "tml k' = tml k"
    "timer_thread k' = timer_thread k" "lock_nest k' = lock_nest k" "irq_nest k' = irq_nest k"
    "tick k' = tick k" "sems k' = sems k" "mutexes k' = mutexes k" "events k' = events k"
    "mailboxes k' = mailboxes k" "mqs k' = mqs k" "prio_of k' t = prio_of k t"
    "number_mask (threads k' t) = number_mask (threads k t)"
    "stack_ok (threads k' t) = stack_ok (threads k t)"
    "t_error (threads k' t) = t_error (threads k t)"
    "current_priority (threads k' t) = current_priority (threads k t)"
    "event_set (threads k' t) = event_set (threads k t)"
    "event_info (threads k' t) = event_info (threads k t)"
    "init_priority (threads k' t) = init_priority (threads k t)"
    "init_tick (threads k' t) = init_tick (threads k t)"
    "remaining_tick (threads k' t) = remaining_tick (threads k t)"
    "cleanup (threads k' t) = cleanup (threads k t)" "res k' = res k"
proof -
  from assms have e: "k' = k\<lparr>threads := threads k', thl := thl k', ready_group := ready_group k',
      current := current k', cur_prio := cur_prio k'\<rparr>"
    and t: "\<exists>s. threads k' t = (threads k t)\<lparr>stat := s\<rparr>"
    by (auto simp: sched_frame_def)
  show "hdr k' = hdr k" "objs k' = objs k" "timers k' = timers k" "tml k' = tml k"
    "timer_thread k' = timer_thread k" "lock_nest k' = lock_nest k" "irq_nest k' = irq_nest k"
    "tick k' = tick k" "sems k' = sems k" "mutexes k' = mutexes k" "events k' = events k"
    "mailboxes k' = mailboxes k" "mqs k' = mqs k" "res k' = res k"
    by (subst e, simp)+
  from t show "prio_of k' t = prio_of k t"
    "number_mask (threads k' t) = number_mask (threads k t)"
    "stack_ok (threads k' t) = stack_ok (threads k t)"
    "t_error (threads k' t) = t_error (threads k t)"
    "current_priority (threads k' t) = current_priority (threads k t)"
    "event_set (threads k' t) = event_set (threads k t)"
    "event_info (threads k' t) = event_info (threads k t)"
    "init_priority (threads k' t) = init_priority (threads k t)"
    "init_tick (threads k' t) = init_tick (threads k t)"
    "remaining_tick (threads k' t) = remaining_tick (threads k t)"
    "cleanup (threads k' t) = cleanup (threads k t)"
    by (auto simp: prio_of_def stack_ok_def)
qed

lemma sched_frameI:
  assumes "hdr k' = hdr k" "objs k' = objs k" "timers k' = timers k" "tml k' = tml k"
    "timer_thread k' = timer_thread k" "lock_nest k' = lock_nest k" "irq_nest k' = irq_nest k"
    "tick k' = tick k" "sems k' = sems k" "mutexes k' = mutexes k" "events k' = events k"
    "mailboxes k' = mailboxes k" "mqs k' = mqs k"
    "\<And>t. \<exists>s. threads k' t = (threads k t)\<lparr>stat := s\<rparr>" "res k' = res k"
  shows "sched_frame k k'"
  unfolding sched_frame_def using assms by (auto intro!: kernel.equality)

lemma sched_frame_trans: "sched_frame a b \<Longrightarrow> sched_frame b c \<Longrightarrow> sched_frame a c"
proof (rule sched_frameI, goal_cases)
  case (14 t)
  from 14(1) obtain s where "threads b t = (threads a t)\<lparr>stat := s\<rparr>" by (auto simp: sched_frame_def)
  moreover from 14(2) obtain s' where "threads c t = (threads b t)\<lparr>stat := s'\<rparr>"
    by (auto simp: sched_frame_def)
  ultimately have "threads c t = (threads a t)\<lparr>stat := s'\<rparr>" by simp
  then show ?case ..
qed (simp_all add: sched_frame_sel)

lemma thread_stat_self: "\<exists>s. threads k t = (threads k t)\<lparr>stat := s\<rparr>"
  by (rule exI [of _ "stat (threads k t)"]) simp

lemma sched_frame_set_stat [simp]: "sched_frame k (set_stat t s k)"
  by (rule sched_frameI) (auto simp: threads_set_stat thread_stat_self)

lemma sched_frame_upds [simp]:
  "sched_frame k (k\<lparr>thl := l\<rparr>)" "sched_frame k (k\<lparr>thl := l, ready_group := g\<rparr>)"
  "sched_frame k (k\<lparr>cur_prio := p, current := c\<rparr>)" "sched_frame k (k\<lparr>current := c\<rparr>)"
  "sched_frame k k"
  by (rule sched_frameI; simp add: thread_stat_self)+

lemma sched_frame_remove: "rt_schedule_remove_thread t k = Some k' \<Longrightarrow> sched_frame k k'"
  by (subst remove_thread_frame, assumption) simp

lemma sched_frame_insert: "rt_schedule_insert_thread t k = Some k' \<Longrightarrow> sched_frame k k'"
  by (auto simp: rt_schedule_insert_thread_def Let_def bind_eq_Some_conv split: if_splits
      intro: sched_frame_trans [OF sched_frame_set_stat sched_frame_upds(2)])


text \<open>
  \<open>switched k c hi k'\<close>: the result of a context switch from \<open>c\<close> to the queue head \<open>hi\<close>.
\<close>

definition switched :: "kernel \<Rightarrow> tid \<Rightarrow> tid \<Rightarrow> kernel \<Rightarrow> bool" where
  "switched k c hi k' \<longleftrightarrow>
     current k' = Some hi \<and>
     stat_of k' = (stat_of k)(hi := RT_THREAD_RUNNING,
       c := (if stat_of k c = RT_THREAD_RUNNING then RT_THREAD_READY else stat_of k c)) \<and>
     (\<forall>q. lst (thl k') q =
        (if q = ReadyQ (prio_of k hi)
         then List.tl (lst (thl k) q) @ (if stat_of k c = RT_THREAD_RUNNING \<and> q = ReadyQ (prio_of k c) then [c] else [])
         else lst (thl k) q @ (if stat_of k c = RT_THREAD_RUNNING \<and> q = ReadyQ (prio_of k c) then [c] else []))) \<and>
     sched_frame k k'"

lemma stack_ok_stat [simp]: "stack_ok (th\<lparr>stat := s\<rparr>) = stack_ok th"
  by (simp add: stack_ok_def)

lemma stack_ok_set_stat [simp]: "stack_ok (threads (set_stat t s k) u) = stack_ok (threads k u)"
  by (simp add: threads_set_stat)

lemma switch_to_spec:
  assumes inv: "sched_inv k" and cur: "current k = Some c" and ne: "hi \<noteq> c"
    and hi: "stat_of k hi = RT_THREAD_READY" "lst (thl k) (ReadyQ (prio_of k hi)) \<noteq> []"
      "hi = hd (lst (thl k) (ReadyQ (prio_of k hi)))"
    and st: "stack_ok (threads k hi)"
  obtains k' where "switch_to p c (stat_of k c = RT_THREAD_RUNNING) hi k = Some k'"
    "sched_inv k'" "switched k c hi k'"
proof -
  from inv have core: "core_except {} k" and co: "cur_ok k" by (auto simp: sched_inv_def)
  define k1 where "k1 = k\<lparr>cur_prio := of_nat p, current := Some hi\<rparr>"
  have core1: "core_except {} k1" using core by (simp add: core_except_def thread_ok_def k1_def)
  have ci: "stat_of k c \<noteq> RT_THREAD_READY" using co cur by (auto simp: cur_ok_def)
  let ?need = "stat_of k c = RT_THREAD_RUNNING"
  obtain k2 where k2: "(if ?need then rt_schedule_insert_thread c k1 else Some k1) = Some k2"
    and core2: "core_except {} k2"
    and f2: "k2 = (if ?need then set_stat c RT_THREAD_READY k1 else k1)\<lparr>thl := thl k2, ready_group := ready_group k2\<rparr>"
    and l2: "lst (thl k2) = (if ?need then (lst (thl k))(ReadyQ (prio_of k c) :=
               lst (thl k) (ReadyQ (prio_of k c)) @ [c]) else lst (thl k))"
  proof (cases ?need)
    case True
    have o: "own (thl k) c = None" by (rule running_unlinked [OF core True])
    have cx: "core_except {c} k1"
      using core_except_weaken [OF core1] o by (simp add: k1_def)
    have "prio_of k1 c < 32 \<and> number_mask (threads k1 c) = 2 ^ prio_of k1 c"
      using core_thread_ok [OF core, of c] True by (simp add: thread_ok_def k1_def)
    moreover have "current k1 \<noteq> Some c" using ne by (simp add: k1_def)
    ultimately show ?thesis
      using core_insert [OF cx] True that by (simp add: k1_def) metis
  next
    case False
    then show ?thesis using core1 that [of k1] by (simp add: k1_def)
  qed
  have s2: "stat_of k2 u = (if u = c \<and> ?need then RT_THREAD_READY else stat_of k u)" for u
    by (subst f2) (simp add: k1_def)
  have p2: "prio_of k2 u = prio_of k u" for u
    by (subst f2) (simp add: k1_def)
  have "stat_of k2 hi \<noteq> RT_THREAD_INIT" using s2 [of hi] ne hi by simp
  from core_remove [OF core2 this] obtain k3 where
    k3: "rt_schedule_remove_thread hi k2 = Some k3" and core3: "core_except {hi} k3"
    and f3: "k3 = k2\<lparr>thl := ls_remove hi (thl k2), ready_group := ready_group k3\<rparr>" .
  have s3: "stat_of k3 u = stat_of k2 u" and p3: "prio_of k3 u = prio_of k2 u" for u
    by (subst f3, simp)+
  have t3: "threads k3 = threads k2" by (subst f3) simp
  have th2: "\<exists>s. threads k2 u = (threads k u)\<lparr>stat := s\<rparr>" for u
    by (subst f2) (auto simp: k1_def threads_set_stat intro: exI [of _ "stat (threads k u)"])
  let ?k = "set_stat hi RT_THREAD_RUNNING k3"
  have th: "\<exists>s. threads ?k u = (threads k u)\<lparr>stat := s\<rparr>" for u
    using th2 [of u] by (auto simp: threads_set_stat t3)
  have r: "switch_to p c ?need hi k = Some ?k"
  proof -
    from th2 [of hi] st have "stack_ok (threads k3 hi)" by (auto simp: t3)
    with k2 k3 show ?thesis by (simp add: switch_to_def Let_def k1_def [symmetric])
  qed
  have cur3: "current k3 = Some hi" by (subst f3, subst f2) (simp add: k1_def)
  have rdy: "thread_ok k2 hi" using core2 by (simp add: core_except_def)
  have core4: "core_except {} ?k"
    by (rule core_except_set_stat [OF core3]) (use rdy s2 [of hi] hi ne in \<open>auto simp: p3 t3 thread_ok_def\<close>)
  have "cur_ok ?k"
    using co cur cur3 ci by (auto simp: cur_ok_def s3 s2)
  with core4 have "sched_inv ?k" by (simp add: sched_inv_def)
  moreover have "switched k c hi ?k"
  proof -
    have wf2: "ls_wf (thl k2)" using core2 by (simp add: core_except_def)
    have "lst (thl ?k) q = remove1 hi (lst (thl k2) q)" for q
      by (simp, subst f3) (simp add: lst_ls_remove [OF wf2])
    moreover have "hi \<notin> set (lst (thl k) q)" if "q \<noteq> ReadyQ (prio_of k hi)" for q
      using that core_thread_ok [OF core, of hi] hi
      by (simp add: ls_wfD [OF core_wf [OF core]] thread_ok_def link_ok_ready)
    moreover have "stat_of ?k = (stat_of k)(hi := RT_THREAD_RUNNING,
        c := (if ?need then RT_THREAD_READY else stat_of k c))"
      using ne by (auto simp: s3 s2 fun_eq_iff)
    moreover have "sched_frame k ?k"
    proof -
      have "sched_frame k k1" by (simp add: k1_def)
      moreover have "sched_frame k1 k2"
        using k2 sched_frame_insert by (auto split: if_splits)
      ultimately have "sched_frame k k2" by (rule sched_frame_trans)
      from sched_frame_trans [OF sched_frame_trans [OF this sched_frame_remove [OF k3]]
          sched_frame_set_stat] show ?thesis .
    qed
    moreover obtain ts where "lst (thl k) (ReadyQ (prio_of k hi)) = hi # ts"
      using hi(2,3) by (cases "lst (thl k) (ReadyQ (prio_of k hi))") simp_all
    ultimately show ?thesis
      using cur3 hi(1) ne unfolding switched_def by (auto simp: l2 remove1_append)
  qed
  ultimately show ?thesis using r that by blast
qed

subsection \<open>\<^verbatim>\<open>rt_schedule\<close>\<close>

text \<open>\<open>preempts k c\<close>: a ready thread is to replace the current thread \<open>c\<close>.\<close>

definition preempts :: "kernel \<Rightarrow> tid \<Rightarrow> tid \<Rightarrow> bool" where
  "preempts k c hi \<longleftrightarrow>
     get_highest_priority_thread k = Some (prio_of k hi, hi) \<and>
     (stat_of k c = RT_THREAD_RUNNING \<longrightarrow> prio_of k hi \<le> prio_of k c)"

lemma schedule_switch:
  assumes inv: "sched_inv k" and cur: "current k = Some c" and lock: "lock_nest k = 0"
    and hi: "preempts k c hi" and st: "stack_ok (threads k hi)"
  obtains k' where "rt_schedule k = Some k'" "sched_inv k'" "switched k c hi k'"
proof -
  from inv have core: "core_except {} k" and co: "cur_ok k" by (auto simp: sched_inv_def)
  from hi have hp: "get_highest_priority_thread k = Some (prio_of k hi, hi)"
    and pr: "stat_of k c = RT_THREAD_RUNNING \<longrightarrow> prio_of k hi \<le> prio_of k c"
    by (simp_all add: preempts_def)
  have g: "ready_group k \<noteq> 0"
    using hp by (cases "ready_group k = 0") (simp_all add: get_highest_priority_thread_def)
  obtain p t where pt: "get_highest_priority_thread k = Some (p, t)"
    "lst (thl k) (ReadyQ p) \<noteq> []" "t = hd (lst (thl k) (ReadyQ p))" "stat_of k t = RT_THREAD_READY"
    by (rule highest_priority [OF core g]) blast
  have e: "p = prio_of k hi" "t = hi"
    using pt(1) unfolding hp by auto
  have h: "stat_of k hi = RT_THREAD_READY"
    "lst (thl k) (ReadyQ (prio_of k hi)) \<noteq> []" "hi = hd (lst (thl k) (ReadyQ (prio_of k hi)))"
    using pt(2-4) unfolding e by blast+
  have ne: "hi \<noteq> c" using co cur h(1) by (auto simp: cur_ok_def)
  from switch_to_spec [OF inv cur ne h st, of "prio_of k hi"] obtain k' where
    k': "switch_to (prio_of k hi) c (stat_of k c = RT_THREAD_RUNNING) hi k = Some k'"
    "sched_inv k'" "switched k c hi k'" .
  moreover have "rt_schedule k = Some k'"
    using k'(1) ne pr by (cases "stat_of k c = RT_THREAD_RUNNING")
      (simp_all add: rt_schedule_def lock g hp cur)
  ultimately show ?thesis using that by blast
qed

lemma schedule_keeps:
  assumes inv: "sched_inv k" and cur: "current k = Some c" and run: "stat_of k c = RT_THREAD_RUNNING"
    and no: "\<forall>hi. \<not> preempts k c hi"
  obtains k' where "rt_schedule k = Some k'" "sched_inv k'" "stat_of k' = stat_of k"
    "thl k' = thl k" "current k' = Some c" "sched_frame k k'"
proof (cases "lock_nest k = 0 \<and> ready_group k \<noteq> 0")
  case False
  then show ?thesis using inv cur that [of k] by (auto simp: rt_schedule_def)
next
  case True
  from inv have core: "core_except {} k" and co: "cur_ok k" by (auto simp: sched_inv_def)
  from True have g: "ready_group k \<noteq> 0" by simp
  obtain p t where h: "get_highest_priority_thread k = Some (p, t)" "prio_of k t = p"
    using highest_priority [OF core g] by metis
  with no run have lt: "prio_of k c < p" by (force simp: preempts_def)
  from run have "stat_of k c \<noteq> RT_THREAD_INIT" by simp
  from core_remove [OF core this] obtain k1 where
    k1: "rt_schedule_remove_thread c k = Some k1" "core_except {c} k1" and
    f: "k1 = k\<lparr>thl := ls_remove c (thl k), ready_group := ready_group k1\<rparr>" .
  have own: "own (thl k) c = None" by (rule running_unlinked [OF core run])
  then have l: "thl k1 = thl k" by (subst f) (simp add: ls_remove_def)
  have t: "threads k1 = threads k" "current k1 = current k" by (subst f, simp)+
  then have s: "stat_of k1 = stat_of k" "prio_of k1 = prio_of k"
    by (auto simp: stat_of_def prio_of_def fun_eq_iff)
  let ?k = "set_stat c RT_THREAD_RUNNING k1"
  have sk: "stat_of ?k = stat_of k" using run by (auto simp: fun_eq_iff s)
  have "core_except {} ?k"
    by (rule core_except_set_stat [OF k1(2)])
      (use core_thread_ok [OF core, of c] run in \<open>auto simp: thread_ok_def s t\<close>)
  moreover have "cur_ok ?k" using co by (simp add: cur_ok_def sk t)
  moreover have "rt_schedule k = Some ?k"
    using True h cur run lt k1 by (simp add: rt_schedule_def)
  moreover have "sched_frame k ?k"
    by (rule sched_frame_trans [OF sched_frame_remove [OF k1(1)] sched_frame_set_stat])
  ultimately show ?thesis using that [of ?k] sk l t cur by (simp add: sched_inv_def)
qed

lemma schedule_idle:
  assumes "current k = Some c" "stat_of k c \<noteq> RT_THREAD_RUNNING" "\<forall>hi. \<not> preempts k c hi"
    and core: "core_except {} k"
  shows "rt_schedule k = Some k"
proof (cases "ready_group k = 0")
  case False
  with highest_priority [OF core] obtain p t where
    "get_highest_priority_thread k = Some (p, t)" "prio_of k t = p" by metis
  with assms(2,3) show ?thesis by (auto simp: preempts_def)
qed (simp add: rt_schedule_def)

lemma schedule_locked: "lock_nest k \<noteq> 0 \<Longrightarrow> rt_schedule k = Some k"
  by (simp add: rt_schedule_def)

subsection \<open>What a call of \<^verbatim>\<open>rt_schedule\<close> promises\<close>

definition ready_stacks_ok :: "kernel \<Rightarrow> bool" where
  "ready_stacks_ok k \<longleftrightarrow> (\<forall>t. stat_of k t = RT_THREAD_READY \<longrightarrow> stack_ok (threads k t))"

lemma preempts_ready:
  assumes "core_except {} k" "preempts k c hi"
  shows "stat_of k hi = RT_THREAD_READY"
proof -
  have hp: "get_highest_priority_thread k = Some (prio_of k hi, hi)"
    using assms(2) by (simp add: preempts_def)
  then have g: "ready_group k \<noteq> 0"
    by (cases "ready_group k = 0") (simp_all add: get_highest_priority_thread_def)
  obtain p t where "get_highest_priority_thread k = Some (p, t)" "stat_of k t = RT_THREAD_READY"
    by (rule highest_priority [OF assms(1) g]) blast
  then show ?thesis unfolding hp by auto
qed

text \<open>The three outcomes of \<^verbatim>\<open>rt_schedule\<close> as one case rule.\<close>

lemma schedule_cases:
  assumes inv: "sched_inv k" and cur: "current k = Some c" and st: "ready_stacks_ok k"
  obtains
    (switch) hi k' where "rt_schedule k = Some k'" "sched_inv k'" "switched k c hi k'"
      "preempts k c hi" "lock_nest k = 0"
  | (keep) k' where "rt_schedule k = Some k'" "sched_inv k'" "stat_of k' = stat_of k"
      "thl k' = thl k" "current k' = Some c" "sched_frame k k'"
      "lock_nest k = 0 \<Longrightarrow> \<forall>hi. \<not> preempts k c hi"
proof (cases "lock_nest k = 0 \<and> (\<exists>hi. preempts k c hi)")
  case True
  then obtain hi where hi: "preempts k c hi" by blast
  have core: "core_except {} k" using inv by (simp add: sched_inv_def)
  have "stack_ok (threads k hi)"
    using st preempts_ready [OF core hi] by (simp add: ready_stacks_ok_def)
  from schedule_switch [OF inv cur _ hi this] True obtain k' where
    "rt_schedule k = Some k'" "sched_inv k'" "switched k c hi k'" by blast
  then show ?thesis using switch hi True by blast
next
  case False
  note no = this
  have core: "core_except {} k" using inv by (simp add: sched_inv_def)
  show ?thesis
  proof (cases "lock_nest k = 0")
    case False
    show ?thesis
      by (rule keep [of k]) (use False inv cur in \<open>simp_all add: schedule_locked\<close>)
  next
    case True
    with no have np: "\<forall>hi. \<not> preempts k c hi" by blast
    show ?thesis
    proof (cases "stat_of k c = RT_THREAD_RUNNING")
      case True
      from schedule_keeps [OF inv cur True np] show ?thesis using keep np by blast
    next
      case False
      show ?thesis
        by (rule keep [of k])
          (use inv cur np schedule_idle [OF cur False np core] in simp_all)
    qed
  qed
qed

lemma switched_current: "switched k c hi k' \<Longrightarrow> current k' = Some hi"
  by (simp add: switched_def)

lemma switched_frame: "switched k c hi k' \<Longrightarrow> sched_frame k k'"
  by (simp add: switched_def)

lemma switched_stat:
  "switched k c hi k' \<Longrightarrow> stat_of k' u =
     (if u = c then if stat_of k c = RT_THREAD_RUNNING then RT_THREAD_READY else stat_of k c
      else if u = hi then RT_THREAD_RUNNING else stat_of k u)"
  by (simp add: switched_def)

lemma no_preempt_lower:
  assumes core: "core_except {} k" and no: "\<forall>hi. \<not> preempts k c hi"
    and t: "stat_of k t = RT_THREAD_READY"
  shows "stat_of k c = RT_THREAD_RUNNING \<and> prio_of k c < prio_of k t"
proof -
  have q: "t \<in> set (lst (thl k) (ReadyQ (prio_of k t)))" "prio_of k t < 32"
    using ready_queued [OF core t] by simp_all
  then have "bit (ready_group k) (prio_of k t)" using core by (auto simp: core_except_def)
  then have g: "ready_group k \<noteq> 0" by auto
  obtain p u where h: "get_highest_priority_thread k = Some (p, u)" "prio_of k u = p"
      "\<forall>q < p. lst (thl k) (ReadyQ q) = []"
    by (rule highest_priority [OF core g]) blast
  from h(3) q(1) have "p \<le> prio_of k t" by (metis empty_iff empty_set not_le)
  moreover from h(1,2) no have "stat_of k c = RT_THREAD_RUNNING \<and> prio_of k c < p"
    by (auto simp: preempts_def)
  ultimately show ?thesis by simp
qed

lemma preempts_least:
  assumes core: "core_except {} k" and p: "preempts k c hi" and t: "stat_of k t = RT_THREAD_READY"
  shows "prio_of k hi \<le> prio_of k t"
proof -
  have hp: "get_highest_priority_thread k = Some (prio_of k hi, hi)"
    using p by (simp add: preempts_def)
  then have g: "ready_group k \<noteq> 0"
    by (cases "ready_group k = 0") (simp_all add: get_highest_priority_thread_def)
  obtain q u where h: "get_highest_priority_thread k = Some (q, u)"
      "\<forall>r < q. lst (thl k) (ReadyQ r) = []"
    by (rule highest_priority [OF core g]) blast
  from h(1) have "q = prio_of k hi" unfolding hp by auto
  with h(2) ready_queued [OF core t] show ?thesis by (metis empty_iff empty_set not_le)
qed

text \<open>
  The abstract contract: \<open>runs_highest k\<close> says that the processor runs a thread in state RUNNING
  and no ready thread has a more urgent (smaller) priority.
\<close>

definition runs_highest :: "kernel \<Rightarrow> bool" where
  "runs_highest k \<longleftrightarrow>
     (\<exists>c. current k = Some c \<and> stat_of k c = RT_THREAD_RUNNING \<and>
        (\<forall>t. stat_of k t = RT_THREAD_READY \<longrightarrow> prio_of k c \<le> prio_of k t))"

lemma schedule_runs_highest:
  assumes inv: "sched_inv k" and cur: "current k = Some c" and st: "ready_stacks_ok k"
    and lock: "lock_nest k = 0"
    and some: "stat_of k c = RT_THREAD_RUNNING \<or> (\<exists>t. stat_of k t = RT_THREAD_READY)"
  obtains k' where "rt_schedule k = Some k'" "sched_inv k'" "runs_highest k'" "sched_frame k k'"
proof -
  note core = sched_inv_core [OF inv]
  from inv cur st show ?thesis
  proof (cases rule: schedule_cases)
    case (switch hi k')
    note f = switched_frame [OF switch(3)]
    have p: "prio_of k' = prio_of k" using sched_frame_sel(14) [OF f] by blast
    have ne: "hi \<noteq> c" using preempts_ready [OF core switch(4)] cur_not_ready [OF inv cur] by auto
    have "prio_of k hi \<le> prio_of k t" if t: "stat_of k' t = RT_THREAD_READY" for t
    proof (cases "stat_of k t = RT_THREAD_READY")
      case True
      show ?thesis by (rule preempts_least [OF core switch(4) True])
    next
      case False
      with t have "t = c" "stat_of k c = RT_THREAD_RUNNING"
        unfolding switched_stat [OF switch(3)] by (simp_all split: if_splits)
      with switch(4) show ?thesis by (simp add: preempts_def)
    qed
    moreover have "stat_of k' hi = RT_THREAD_RUNNING"
      unfolding switched_stat [OF switch(3)] using ne by simp
    ultimately have "runs_highest k'"
      using switched_current [OF switch(3)] by (simp add: runs_highest_def p)
    then show ?thesis using that switch(1,2) f by blast
  next
    case (keep k')
    have no: "\<forall>hi. \<not> preempts k c hi" using keep(7) lock by blast
    have p: "prio_of k' = prio_of k" using sched_frame_sel(14) [OF keep(6)] by blast
    have run: "stat_of k c = RT_THREAD_RUNNING" using some no_preempt_lower [OF core no] by blast
    have "runs_highest k'"
      using no_preempt_lower [OF core no] run
      unfolding runs_highest_def keep(3) keep(5) p by (auto intro: less_imp_le)
    then show ?thesis using that keep(1,2,6) by blast
  qed
qed

lemma exit_critical_last:
  assumes inv: "sched_inv k" and cur: "current k = Some c" and st: "ready_stacks_ok k"
    and n: "lock_nest k = 1" and run: "stat_of k c = RT_THREAD_RUNNING"
  shows "\<exists>k'. rt_exit_critical k = Some k' \<and> sched_inv k' \<and> runs_highest k' \<and> lock_nest k' = 0"
proof -
  let ?k = "k\<lparr>lock_nest := 0\<rparr>"
  have i: "sched_inv ?k" using inv sched_inv_cong [of ?k k] by simp
  have "ready_stacks_ok ?k" "current ?k = Some c" "stat_of ?k c = RT_THREAD_RUNNING"
    using st cur run by (simp_all add: ready_stacks_ok_def)
  from schedule_runs_highest [OF i this(2,1)] this(3) obtain k' where
    k': "rt_schedule ?k = Some k'" "sched_inv k'" "runs_highest k'" "sched_frame ?k k'"
    by auto
  have "lock_nest k' = 0" using sched_frame_sel(6) [OF k'(4)] by simp
  moreover have "rt_exit_critical k = Some k'"
    using k'(1) n by (simp add: rt_exit_critical_def)
  ultimately show ?thesis using k'(2,3) by blast
qed

lemma exit_critical_inner:
  assumes "0 < sint (lock_nest k)" "lock_nest k \<noteq> 1"
  shows "rt_exit_critical k = Some (k\<lparr>lock_nest := lock_nest k - 1\<rparr>)"
proof -
  have "sint (lock_nest k) \<noteq> sint (1 :: u16)" using assms(2) signed_word_eqI by blast
  with assms(1) have "1 < sint (lock_nest k)" by simp
  moreover have "sint (lock_nest k - 1) = sint (lock_nest k) - 1"
    using calculation sint_lt [of "lock_nest k"] by (simp add: sint_word_ariths signed_take_bit_int_eq_self)
  ultimately show ?thesis by (simp add: rt_exit_critical_def Let_def)
qed

text \<open>
  C1.  With the scheduler unlocked, a call of \<^verbatim>\<open>rt_schedule\<close> from a thread that can run or
  while some thread is ready returns (the stacks of the ready threads being intact), keeps the
  agreement of thread states, ready queues and bitmap, and leaves the processor with a most
  urgent thread among the ready and running ones.
\<close>

theorem rt_schedule_runs_highest:
  assumes "sched_inv k" "current k = Some c" "ready_stacks_ok k" "lock_nest k = 0"
    and "stat_of k c = RT_THREAD_RUNNING \<or> (\<exists>t. stat_of k t = RT_THREAD_READY)"
  shows "\<exists>k'. rt_schedule k = Some k' \<and> sched_inv k' \<and> runs_highest k'"
  using schedule_runs_highest [OF assms] by blast

text \<open>
  C12.  Round robin and preemption: with the scheduler unlocked, when the running thread \<open>c\<close> has
  the priority of the most urgent ready queue \<open>hi # ts\<close> (it yielded, or used up its slice),
  \<^verbatim>\<open>rt_schedule\<close> runs \<open>hi\<close> and \<open>c\<close> goes READY to the end of that queue; with a more urgent
  queue, \<open>hi\<close> leaves its queue and \<open>c\<close> is appended to the queue of its own priority.
\<close>

theorem rt_schedule_rotates:
  assumes inv: "sched_inv k" and cur: "current k = Some c" and st: "ready_stacks_ok k"
    and lock: "lock_nest k = 0" and run: "stat_of k c = RT_THREAD_RUNNING"
    and q: "lst (thl k) (ReadyQ p) = hi # ts" "\<forall>r < p. lst (thl k) (ReadyQ r) = []"
    and le: "p \<le> prio_of k c"
  shows "\<exists>k'. rt_schedule k = Some k' \<and> current k' = Some hi \<and>
           stat_of k' c = RT_THREAD_READY \<and>
           lst (thl k') (ReadyQ p) = (if p = prio_of k c then ts @ [c] else ts) \<and>
           (p \<noteq> prio_of k c \<longrightarrow>
              lst (thl k') (ReadyQ (prio_of k c)) = lst (thl k) (ReadyQ (prio_of k c)) @ [c])"
proof -
  have core: "core_except {} k" using inv by (simp add: sched_inv_def)
  have hi: "stat_of k hi = RT_THREAD_READY" "prio_of k hi = p"
    using queued_ready [OF core, of hi p] q(1) by simp_all
  have p32: "p < 32" using ready_queued [OF core hi(1)] hi(2) by simp
  then have "bit (ready_group k) p" using core q(1) by (simp add: core_except_def)
  then have g: "ready_group k \<noteq> 0" by auto
  obtain r u where h: "get_highest_priority_thread k = Some (r, u)"
      "lst (thl k) (ReadyQ r) \<noteq> []" "u = hd (lst (thl k) (ReadyQ r))"
      "\<forall>s < r. lst (thl k) (ReadyQ s) = []"
    by (rule highest_priority [OF core g]) blast
  have "r = p" using h(2,4) q by (metis linorder_neqE_nat list.discI)
  with h q have pr: "preempts k c hi"
    using hi le by (simp add: preempts_def)
  have "stack_ok (threads k hi)" using st hi by (simp add: ready_stacks_ok_def)
  from schedule_switch [OF inv cur lock pr this] obtain k' where
    k': "rt_schedule k = Some k'" "switched k c hi k'" .
  have "c \<noteq> hi" using run hi by auto
  with k' q hi run show ?thesis by (auto simp: switched_def)
qed

text \<open>
  A locked scheduler never switches, and the last \<^verbatim>\<open>rt_exit_critical\<close> of a nest of
  critical sections reschedules: after it the processor runs a most urgent thread, while an
  inner exit only counts down.
\<close>

theorem rt_exit_critical_reschedules:
  assumes inv: "sched_inv k" and cur: "current k = Some c" and st: "ready_stacks_ok k"
    and n: "0 < sint (lock_nest k)" and run: "stat_of k c = RT_THREAD_RUNNING"
  shows "rt_schedule k = Some k \<and>
         (\<exists>k'. rt_exit_critical k = Some k' \<and> sched_inv k' \<and>
               (if lock_nest k = 1 then runs_highest k' \<and> lock_nest k' = 0
                else current k' = Some c \<and> lock_nest k' = lock_nest k - 1))"
proof (intro conjI)
  show "rt_schedule k = Some k" using n by (intro schedule_locked) auto
  show "\<exists>k'. rt_exit_critical k = Some k' \<and> sched_inv k' \<and>
               (if lock_nest k = 1 then runs_highest k' \<and> lock_nest k' = 0
                else current k' = Some c \<and> lock_nest k' = lock_nest k - 1)"
  proof (cases "lock_nest k = 1")
    case True
    then show ?thesis using exit_critical_last [OF inv cur st True run] by auto
  next
    case False
    then show ?thesis
      using exit_critical_inner [OF n False] inv cur
      by (simp add: sched_inv_cong [of "k\<lparr>lock_nest := lock_nest k - 1\<rparr>" k])
  qed
qed

subsection \<open>A concrete kernel\<close>

text \<open>
  The zeroed static storage the C program starts with, and a small kernel in mid-run on which
  the properties are instantiated: thread 0 runs at priority 10, thread 1 is ready at 10,
  thread 2 ready at 20, thread 3 (priority 5) is suspended and on no list, thread 4
  (priority 7) waits on semaphore 0.
\<close>

definition zero_thread :: rt_thread where
  "zero_thread = \<lparr>sp = 0, stack_addr = 0, stack_size = 0, stack_magic = 0, t_error = 0, stat = 0,
     current_priority = 0, init_priority = 0, number_mask = 0, event_set = 0, event_info = 0,
     init_tick = 0, remaining_tick = 0, cleanup = False\<rparr>"

definition zero_kernel :: kernel where
  "zero_kernel = \<lparr>hdr = (\<lambda>_. \<lparr>o_name = [], o_type = 0, o_flag = 0\<rparr>),
     objs = \<lparr>lst = (\<lambda>_. []), own = (\<lambda>_. None)\<rparr>, threads = (\<lambda>_. zero_thread),
     thl = \<lparr>lst = (\<lambda>_. []), own = (\<lambda>_. None)\<rparr>,
     timers = (\<lambda>_. \<lparr>timeout_func = UserTimeout 0, tm_init_tick = 0, timeout_tick = 0\<rparr>),
     tml = \<lparr>lst = (\<lambda>_. []), own = (\<lambda>_. None)\<rparr>, timer_thread = 0, ready_group = 0,
     current = None, cur_prio = 0, lock_nest = 0, irq_nest = 0, tick = 0,
     sems = (\<lambda>_. \<lparr>s_value = 0\<rparr>),
     mutexes = (\<lambda>_. \<lparr>m_value = 0, original_priority = 0, hold = 0, owner = None\<rparr>),
     events = (\<lambda>_. \<lparr>e_set = 0\<rparr>),
     mailboxes = (\<lambda>_. \<lparr>msg_pool = [], mb_size = 0, mb_entry = 0, in_offset = 0, out_offset = 0\<rparr>),
     mqs = (\<lambda>_. \<lparr>mq_next = (\<lambda>_. None), mq_data = (\<lambda>_. []), msg_size = 0, max_msgs = 0,
       mq_entry = 0, msg_queue_head = None, msg_queue_tail = None, msg_queue_free = None\<rparr>),
     res = \<lparr>mempools = (\<lambda>_. \<lparr>mp_size = 0, block_size = 0, block_list = None, mp_link = (\<lambda>_. NextFree None),
         block_total_count = 0, block_free_count = 0, suspend_thread_count = 0\<rparr>),
       completions = (\<lambda>_. \<lparr>c_flag = 0\<rparr>),
       data_queues = (\<lambda>_. \<lparr>dq_size = 0, lwm = 0, get_index = 0, put_index = 0, dq_items = [], evt_notify = False\<rparr>)\<rparr>\<rparr>"

definition demo_thread :: "u8 \<Rightarrow> nat \<Rightarrow> rt_thread" where
  "demo_thread s p = zero_thread\<lparr>sp := 200, stack_addr := 100, stack_size := 100, stack_magic := 0x23,
     stat := s, current_priority := of_nat p, init_priority := of_nat p, number_mask := 2 ^ p,
     init_tick := 5, remaining_tick := 5\<rparr>"

definition demo_kernel :: kernel where
  "demo_kernel = zero_kernel\<lparr>
     threads := (threads zero_kernel)
       (0 := demo_thread RT_THREAD_RUNNING 10, 1 := demo_thread RT_THREAD_READY 10,
        2 := demo_thread RT_THREAD_READY 20, 3 := demo_thread RT_THREAD_SUSPEND 5,
        4 := demo_thread RT_THREAD_SUSPEND 7),
     thl := \<lparr>lst = (\<lambda>_. [])(ReadyQ 10 := [1], ReadyQ 20 := [2], SuspendQ (OSem 0) := [4]),
       own = (\<lambda>_. None)(1 := Some (ReadyQ 10), 2 := Some (ReadyQ 20), 4 := Some (SuspendQ (OSem 0)))\<rparr>,
     ready_group := 2 ^ 10 OR 2 ^ 20, current := Some 0, cur_prio := 10, timer_thread := 9\<rparr>"

lemmas demo_simps = demo_kernel_def demo_thread_def zero_kernel_def zero_thread_def
  stat_of_def prio_of_def

lemma demo_stat:
  "stat_of demo_kernel t = (if t = 0 then RT_THREAD_RUNNING else if t = 1 \<or> t = 2 then RT_THREAD_READY
     else if t = 3 \<or> t = 4 then RT_THREAD_SUSPEND else RT_THREAD_INIT)"
  by (simp add: demo_simps)

lemma demo_prio:
  "prio_of demo_kernel t = (if t = 0 \<or> t = 1 then 10 else if t = 2 then 20 else if t = 3 then 5
     else if t = 4 then 7 else 0)"
  by (simp add: demo_simps)

lemma demo_thl:
  "lst (thl demo_kernel) q = (if q = ReadyQ 10 then [1] else if q = ReadyQ 20 then [2]
     else if q = SuspendQ (OSem 0) then [4] else [])"
  "own (thl demo_kernel) t = (if t = 1 then Some (ReadyQ 10) else if t = 2 then Some (ReadyQ 20)
     else if t = 4 then Some (SuspendQ (OSem 0)) else None)"
  by (simp_all add: demo_simps)

lemma demo_sel:
  "current demo_kernel = Some 0" "lock_nest demo_kernel = 0" "irq_nest demo_kernel = 0"
  "ready_group demo_kernel = 2 ^ 10 OR 2 ^ 20" "tick demo_kernel = 0"
  by (simp_all add: demo_simps)

lemma demo_inv: "sched_inv demo_kernel"
proof -
  have "thread_ok demo_kernel t" for t
    by (simp add: thread_ok_def demo_stat demo_prio demo_thl) (simp add: demo_simps)
  moreover have "bit (ready_group demo_kernel) p \<longleftrightarrow> lst (thl demo_kernel) (ReadyQ p) \<noteq> []" if "p < 32" for p
    unfolding demo_sel(4) bit_or_iff bit_mask32_iff by (auto simp: demo_thl)
  moreover have "ls_wf (thl demo_kernel)"
    by (auto simp: ls_wf_def demo_thl)
  ultimately show ?thesis
    by (simp add: sched_inv_def core_except_def cur_ok_def demo_stat demo_sel)
qed

lemma demo_stacks: "ready_stacks_ok demo_kernel"
  by (simp add: ready_stacks_ok_def demo_stat) (simp add: demo_simps stack_ok_def)

theorem rt_schedule_runs_highest_witness:
  "\<exists>k'. rt_schedule demo_kernel = Some k' \<and> sched_inv k' \<and> runs_highest k'"
  by (rule rt_schedule_runs_highest [OF demo_inv demo_sel(1) demo_stacks demo_sel(2)])
    (simp add: demo_stat)

theorem rt_schedule_rotates_witness:
  "\<exists>k'. rt_schedule demo_kernel = Some k' \<and> current k' = Some 1 \<and>
     stat_of k' 0 = RT_THREAD_READY \<and> lst (thl k') (ReadyQ 10) = [0]"
  using rt_schedule_rotates [OF demo_inv demo_sel(1) demo_stacks demo_sel(2), of 10 1 "[]"]
  by (simp add: demo_stat demo_prio demo_thl)

theorem rt_exit_critical_reschedules_witness:
  "\<exists>k'. rt_exit_critical (rt_enter_critical demo_kernel) = Some k' \<and> runs_highest k' \<and> lock_nest k' = 0"
proof -
  let ?k = "rt_enter_critical demo_kernel"
  have "sched_inv ?k" using demo_inv sched_inv_cong [of ?k demo_kernel]
    by (simp add: rt_enter_critical_def)
  moreover have "ready_stacks_ok ?k" using demo_stacks
    by (simp add: ready_stacks_ok_def rt_enter_critical_def)
  moreover have "current ?k = Some 0" "lock_nest ?k = 1" "stat_of ?k 0 = RT_THREAD_RUNNING"
    by (simp_all add: rt_enter_critical_def demo_sel demo_stat)
  ultimately show ?thesis using rt_exit_critical_reschedules [of ?k 0] by auto
qed

end
