(* ===== verification/Objects.thy ===== *)
theory Objects
  imports Scheduler
begin

text \<open>
  \<^verbatim>\<open>rt-thread/src/object.c\<close>: the object container, one list of objects per class, newest
  first, and the name lookup.  \<open>objs k\<close> is the container, indexed by class; \<open>hdr k\<close> holds
  the \<^verbatim>\<open>rt_object\<close> headers.  The hooks are null in the modelled configuration.  A name is
  the list of its characters; the header keeps the eight bytes \<^verbatim>\<open>rt_strncpy\<close> leaves.
\<close>

subsection \<open>Operations\<close>

abbreviation (input) RT_NAME_MAX :: nat where "RT_NAME_MAX \<equiv> 8"

text \<open>The name field after \<^verbatim>\<open>rt_strncpy(object->name, name, RT_NAME_MAX)\<close>.\<close>

definition name_buf :: "u8 list \<Rightarrow> u8 list" where
  "name_buf s = take RT_NAME_MAX (s @ replicate RT_NAME_MAX 0)"

text \<open>The classes \<^verbatim>\<open>rt_object_container\<close> has a list for.\<close>

definition object_classes :: "u8 list" where
  "object_classes = [RT_Object_Class_Thread, RT_Object_Class_Semaphore, RT_Object_Class_Mutex,
     RT_Object_Class_Event, RT_Object_Class_MailBox, RT_Object_Class_MessageQueue,
     RT_Object_Class_MemPool, RT_Object_Class_Device, RT_Object_Class_Timer]"

definition rt_object_get_information :: "u8 \<Rightarrow> u8 option" where
  "rt_object_get_information type = find (\<lambda>c. c = type) object_classes"

definition rt_object_init :: "oref \<Rightarrow> u8 \<Rightarrow> u8 list \<Rightarrow> kernel \<Rightarrow> kernel option" where
  "rt_object_init r type name k =
     do {
       information \<leftarrow> rt_object_get_information type;
       let k1 = upd_hdr r (\<lambda>h. h\<lparr>o_type := type OR RT_Object_Class_Static,
                                  o_name := name_buf name\<rparr>) k;
       l \<leftarrow> ls_prepend information r (objs k1);
       Some (k1\<lparr>objs := l\<rparr>)
     }"

definition rt_object_detach :: "oref \<Rightarrow> kernel \<Rightarrow> kernel" where
  "rt_object_detach r k =
     (let k1 = upd_hdr r (\<lambda>h. h\<lparr>o_type := 0\<rparr>) k in k1\<lparr>objs := ls_remove r (objs k1)\<rparr>)"

text \<open>\<^verbatim>\<open>rt_memset(object, 0, object_size)\<close>: the members of the object's class.\<close>

definition zero_object :: "oref \<Rightarrow> kernel \<Rightarrow> kernel" where
  "zero_object r k =
     (case r of
        OThread t \<Rightarrow> k\<lparr>threads := (threads k)(t := zero_thread)\<rparr>
      | OTimer m \<Rightarrow> k\<lparr>timers := (timers k)(m := timers zero_kernel m)\<rparr>
      | OSem i \<Rightarrow> k\<lparr>sems := (sems k)(i := sems zero_kernel i)\<rparr>
      | OMutex i \<Rightarrow> k\<lparr>mutexes := (mutexes k)(i := mutexes zero_kernel i)\<rparr>
      | OEvent i \<Rightarrow> k\<lparr>events := (events k)(i := events zero_kernel i)\<rparr>
      | OMailbox i \<Rightarrow> k\<lparr>mailboxes := (mailboxes k)(i := mailboxes zero_kernel i)\<rparr>
      | OMq i \<Rightarrow> k\<lparr>mqs := (mqs k)(i := mqs zero_kernel i)\<rparr>
      | OMempool i \<Rightarrow> k\<lparr>res := (res k)\<lparr>mempools := (mempools (res k))(i := mempools (res zero_kernel) i)\<rparr>\<rparr>)"

text \<open>\<open>mem\<close> is what \<^verbatim>\<open>RT_KERNEL_MALLOC\<close> returns: the handle of the fresh memory or null.\<close>

definition rt_object_allocate ::
  "u8 \<Rightarrow> u8 list \<Rightarrow> oref option \<Rightarrow> kernel \<Rightarrow> (oref option \<times> kernel) option" where
  "rt_object_allocate type name mem k =
     do {
       RT_ASSERT (not_in_interrupt k);
       information \<leftarrow> rt_object_get_information type;
       (case mem of
          None \<Rightarrow> Some (None, k)
        | Some r \<Rightarrow> do {
            let k1 = (zero_object r k)\<lparr>hdr := (hdr k)(r :=
                        \<lparr>o_name = name_buf name, o_type = type, o_flag = 0\<rparr>)\<rparr>;
            l \<leftarrow> ls_prepend information r (objs k1);
            Some (Some r, k1\<lparr>objs := l\<rparr>)
          })
     }"

definition rt_object_delete :: "oref \<Rightarrow> kernel \<Rightarrow> kernel option" where
  "rt_object_delete r k =
     do {
       RT_ASSERT (o_type (hdr k r) AND RT_Object_Class_Static = 0);
       let k1 = upd_hdr r (\<lambda>h. h\<lparr>o_type := 0\<rparr>) k;
       Some (k1\<lparr>objs := ls_remove r (objs k1)\<rparr>)
     }"

definition rt_object_is_systemobject :: "kernel \<Rightarrow> oref \<Rightarrow> bool" where
  "rt_object_is_systemobject k r \<longleftrightarrow> o_type (hdr k r) AND RT_Object_Class_Static \<noteq> 0"

definition rt_object_get_type :: "kernel \<Rightarrow> oref \<Rightarrow> u8" where
  "rt_object_get_type k r = o_type (hdr k r) AND NOT RT_Object_Class_Static"

text \<open>
  The lookup runs inside a critical section; leaving it may switch threads, so the state the
  caller continues in is returned too.  \<^verbatim>\<open>rt_strncmp\<close> over \<^verbatim>\<open>RT_NAME_MAX\<close> bytes is 0 when
  the padded names agree.
\<close>

definition rt_object_find :: "u8 list \<Rightarrow> u8 \<Rightarrow> kernel \<Rightarrow> (oref option \<times> kernel) option" where
  "rt_object_find name type k =
     (if type > RT_Object_Class_Unknown then Some (None, k)
      else do {
        RT_ASSERT (not_in_interrupt k);
        let k1 = rt_enter_critical k;
        information \<leftarrow> rt_object_get_information type;
        let object = find (\<lambda>r. o_name (hdr k1 r) = name_buf name) (lst (objs k1) information);
        k2 \<leftarrow> rt_exit_critical k1;
        Some (object, k2)
      })"

subsection \<open>The container invariant\<close>

text \<open>Every object on the list of a class has that class in its header.\<close>

definition obj_inv :: "kernel \<Rightarrow> bool" where
  "obj_inv k \<longleftrightarrow> ls_wf (objs k) \<and>
     (\<forall>r c. own (objs k) r = Some c \<longrightarrow> rt_object_get_type k r = c \<and> c \<in> set object_classes)"

lemma find_eq: "find (\<lambda>c. c = x) xs = (if x \<in> set xs then Some x else None)"
  by (induction xs) auto

lemma find_SomeD: "find P xs = Some x \<Longrightarrow> x \<in> set xs \<and> P x"
  by (induction xs) (auto split: if_splits)

lemma rt_object_get_information_eq:
  "rt_object_get_information c = (if c \<in> set object_classes then Some c else None)"
  by (simp add: rt_object_get_information_def find_eq)

lemma class_no_static: "c \<in> set object_classes \<Longrightarrow> (c OR 0x80) AND NOT 0x80 = c"
  by (auto simp: object_classes_def)

lemma class_bound: "c \<in> set object_classes \<Longrightarrow> c \<le> RT_Object_Class_Unknown"
  by (auto simp: object_classes_def)

lemma class_static: "c \<in> set object_classes \<Longrightarrow> c AND 0x80 = 0"
  by (auto simp: object_classes_def)

text \<open>What the lookup finds, without the critical section around it.\<close>

definition object_lookup :: "u8 list \<Rightarrow> u8 \<Rightarrow> kernel \<Rightarrow> oref option" where
  "object_lookup name type k =
     find (\<lambda>r. o_name (hdr k r) = name_buf name) (lst (objs k) type)"

lemma object_init_eq:
  assumes "type \<in> set object_classes" "own (objs k) r = None"
  shows "rt_object_init r type name k =
     Some ((upd_hdr r (\<lambda>h. h\<lparr>o_type := type OR RT_Object_Class_Static, o_name := name_buf name\<rparr>) k)
       \<lparr>objs := (objs k)\<lparr>lst := (lst (objs k))(type := r # lst (objs k) type),
                          own := (own (objs k))(r := Some type)\<rparr>\<rparr>)"
  using assms by (simp add: rt_object_init_def rt_object_get_information_eq ls_insert_eq Let_def)

lemma object_init_inv:
  assumes inv: "obj_inv k" and t: "type \<in> set object_classes" and r: "own (objs k) r = None"
    and k': "rt_object_init r type name k = Some k'"
  shows "obj_inv k'"
proof -
  have "ls_wf (objs k')"
    using inv r ls_insert_wf [of "objs k" "\<lambda>_. True" type r "objs k'"] k'
    by (simp add: obj_inv_def object_init_eq [OF t r] ls_insert_eq) auto
  then show ?thesis
    using inv t class_no_static k'
    by (auto simp: obj_inv_def object_init_eq [OF t r] rt_object_get_type_def split: if_splits)
qed

lemma object_detach_inv: "obj_inv k \<Longrightarrow> obj_inv (rt_object_detach r k)"
  by (auto simp: obj_inv_def rt_object_detach_def Let_def own_ls_remove rt_object_get_type_def)

lemma enter_exit_critical:
  assumes inv: "sched_inv k" and cur: "current k = Some c" and st: "ready_stacks_ok k"
    and run: "stat_of k c = RT_THREAD_RUNNING"
    and n: "0 \<le> sint (lock_nest k)" "sint (lock_nest k) < 32767"
  obtains k' where "rt_exit_critical (rt_enter_critical k) = Some k'" "sched_inv k'"
proof -
  let ?k = "rt_enter_critical k"
  have i: "sched_inv ?k" using inv sched_inv_cong [of ?k k] by (simp add: rt_enter_critical_def)
  have c: "current ?k = Some c" "stat_of ?k c = RT_THREAD_RUNNING" "ready_stacks_ok ?k"
    using cur run st by (simp_all add: rt_enter_critical_def ready_stacks_ok_def)
  have s: "sint (lock_nest ?k) = sint (lock_nest k) + 1"
    using n by (simp add: rt_enter_critical_def sint_word_ariths signed_take_bit_int_eq_self)
  show ?thesis
  proof (cases "lock_nest ?k = 1")
    case True
    from exit_critical_last [OF i c(1,3) True c(2)] that show ?thesis by blast
  next
    case False
    have "0 < sint (lock_nest ?k)" using s n by simp
    from exit_critical_inner [OF this False] i that
      sched_inv_cong [of "?k\<lparr>lock_nest := lock_nest ?k - 1\<rparr>" ?k]
    show ?thesis by simp
  qed
qed

lemma object_find_returns:
  assumes "sched_inv k" "current k = Some c" "ready_stacks_ok k" "stat_of k c = RT_THREAD_RUNNING"
    and "0 \<le> sint (lock_nest k)" "sint (lock_nest k) < 32767"
    and i: "not_in_interrupt k" and t: "type \<in> set object_classes"
  obtains k' where "rt_object_find name type k = Some (object_lookup name type k, k')" "sched_inv k'"
proof -
  from enter_exit_critical [OF assms(1-6)] obtain k' where
    "rt_exit_critical (rt_enter_critical k) = Some k'" "sched_inv k'" .
  moreover have "\<not> RT_Object_Class_Unknown < type" using class_bound [OF t] by simp
  ultimately show ?thesis using that [of k'] i t
    by (simp add: rt_object_find_def Let_def rt_object_get_information_eq object_lookup_def
        rt_enter_critical_def)
qed

lemma object_lookup_sound:
  assumes "obj_inv k" "object_lookup name type k = Some r"
  shows "rt_object_get_type k r = type \<and> o_name (hdr k r) = name_buf name"
  using assms find_SomeD [of _ "lst (objs k) type" r]
  by (auto simp: object_lookup_def obj_inv_def ls_wfD)

lemma find_remove1: "\<not> P r \<Longrightarrow> find P (remove1 r xs) = find P xs"
  by (induction xs) auto

lemma lookup_init:
  assumes "type \<in> set object_classes" "own (objs k) r = None"
    and "rt_object_init r type name k = Some k'"
  shows "object_lookup name type k' = Some r"
  using assms by (auto simp: object_init_eq object_lookup_def)

lemma lookup_detach:
  assumes inv: "obj_inv k" and "object_lookup name type (rt_object_detach r k) = Some r'"
  shows "r' \<noteq> r"
proof -
  have "r' \<in> set (lst (objs (rt_object_detach r k)) type)"
    using find_SomeD [OF assms(2) [unfolded object_lookup_def]] by simp
  with object_detach_inv [OF inv] have "own (objs (rt_object_detach r k)) r' = Some type"
    by (simp add: obj_inv_def ls_wfD)
  then show ?thesis by (auto simp: rt_object_detach_def Let_def own_ls_remove split: if_splits)
qed

text \<open>
  Registering an object under a name keeps the container consistent and makes
  \<^verbatim>\<open>rt_object_find\<close> return that object for the name and class (it shadows an older object of
  the same name); whatever the lookup returns after the object is detached is not that object.
\<close>

theorem object_find_after_init:
  assumes "sched_inv k" "current k = Some c" "ready_stacks_ok k" "stat_of k c = RT_THREAD_RUNNING"
    and "0 \<le> sint (lock_nest k)" "sint (lock_nest k) < 32767" "not_in_interrupt k"
    and o: "obj_inv k" and t: "type \<in> set object_classes" and r: "own (objs k) r = None"
  shows "\<exists>k1 k2 k3 x. rt_object_init r type name k = Some k1 \<and> obj_inv k1 \<and>
           rt_object_find name type k1 = Some (Some r, k2) \<and>
           rt_object_find name type (rt_object_detach r k1) = Some (x, k3) \<and> x \<noteq> Some r"
proof -
  obtain k1 where k1: "rt_object_init r type name k = Some k1"
    using object_init_eq [OF t r] by blast
  have e: "thl k1 = thl k" "ready_group k1 = ready_group k" "threads k1 = threads k"
    "current k1 = current k" "lock_nest k1 = lock_nest k" "irq_nest k1 = irq_nest k"
    using k1 by (auto simp: object_init_eq [OF t r])
  have d: "thl (rt_object_detach r k1) = thl k" "ready_group (rt_object_detach r k1) = ready_group k"
    "threads (rt_object_detach r k1) = threads k" "current (rt_object_detach r k1) = current k"
    "lock_nest (rt_object_detach r k1) = lock_nest k" "irq_nest (rt_object_detach r k1) = irq_nest k"
    by (simp_all add: rt_object_detach_def Let_def e)
  have pre: "sched_inv k'" "current k' = Some c" "ready_stacks_ok k'" "stat_of k' c = RT_THREAD_RUNNING"
    "0 \<le> sint (lock_nest k')" "sint (lock_nest k') < 32767" "not_in_interrupt k'"
    if "thl k' = thl k" "ready_group k' = ready_group k" "threads k' = threads k"
      "current k' = current k" "lock_nest k' = lock_nest k" "irq_nest k' = irq_nest k" for k'
    using assms(1-7) that sched_inv_cong [of k' k] stat_of_cong [of k' _ k]
    by (simp_all add: ready_stacks_ok_def not_in_interrupt_def)
  have o1: "obj_inv k1" by (rule object_init_inv [OF o t r k1])
  from object_find_returns [OF pre [OF e] t, of name] obtain k2 where
    k2: "rt_object_find name type k1 = Some (object_lookup name type k1, k2)" by blast
  from object_find_returns [OF pre [OF d] t, of name] obtain k3 where
    k3: "rt_object_find name type (rt_object_detach r k1) =
           Some (object_lookup name type (rt_object_detach r k1), k3)" by blast
  show ?thesis
    using k1 o1 k2 lookup_init [OF t r k1] k3 lookup_detach [OF o1] by auto
qed

theorem object_find_after_init_witness:
  "\<exists>k1 k2. rt_object_init (OSem 3) RT_Object_Class_Semaphore [115, 101, 109] demo_kernel = Some k1 \<and>
     rt_object_find [115, 101, 109] RT_Object_Class_Semaphore k1 = Some (Some (OSem 3), k2)"
proof -
  have "obj_inv demo_kernel" by (simp add: obj_inv_def demo_simps ls_wf_def)
  moreover have "own (objs demo_kernel) (OSem 3) = None" by (simp add: demo_simps)
  moreover have "RT_Object_Class_Semaphore \<in> set object_classes" by (simp add: object_classes_def)
  ultimately show ?thesis
    using object_find_after_init [OF demo_inv demo_sel(1) demo_stacks, of RT_Object_Class_Semaphore "OSem 3" "[115, 101, 109]"]
    by (auto simp: demo_stat demo_sel not_in_interrupt_def)
qed

end
