(* ===== verification/Timer_Core.thy ===== *)
theory Timer_Core
  imports Objects
begin

text \<open>
  \<^verbatim>\<open>rt-thread/src/timer.c\<close>, the operations on the timer lists that do not run threads:
  initialisation, removal, the ordered insertion of \<^verbatim>\<open>rt_timer_start\<close>, stop and control.
  \<open>RT_TIMER_SKIP_LIST_LEVEL\<close> is 1, so a timer has one list node and the insertion counter
  \<^verbatim>\<open>random_nr\<close> has no effect; it is left out.
\<close>

subsection \<open>Operations\<close>

abbreviation timer_flag :: "kernel \<Rightarrow> tmr \<Rightarrow> u8" where
  "timer_flag k m \<equiv> o_flag (hdr k (OTimer m))"

definition set_timer_flag :: "tmr \<Rightarrow> u8 \<Rightarrow> kernel \<Rightarrow> kernel" where
  "set_timer_flag m f = upd_hdr (OTimer m) (\<lambda>h. h\<lparr>o_flag := f\<rparr>)"

definition rt_timer_init0 :: "tmr \<Rightarrow> tfunc \<Rightarrow> u32 \<Rightarrow> u8 \<Rightarrow> kernel \<Rightarrow> kernel option" where
  "rt_timer_init0 m timeout time flag k =
     do {
       let k1 = set_timer_flag m flag k;
       let k2 = set_timer_flag m (timer_flag k1 m AND NOT RT_TIMER_FLAG_ACTIVATED) k1;
       let k3 = upd_timer m (\<lambda>x. x\<lparr>timeout_func := timeout, timeout_tick := 0,
                                    tm_init_tick := time\<rparr>) k2;
       l \<leftarrow> ls_init m (tml k3);
       Some (k3\<lparr>tml := l\<rparr>)
     }"

definition rt_timer_list_next_timeout :: "tqid \<Rightarrow> kernel \<Rightarrow> u32" where
  "rt_timer_list_next_timeout q k =
     (case lst (tml k) q of [] \<Rightarrow> RT_TICK_MAX | m # _ \<Rightarrow> timeout_tick (timers k m))"

definition rt_timer_remove :: "tmr \<Rightarrow> kernel \<Rightarrow> kernel" where
  "rt_timer_remove m k = k\<lparr>tml := ls_remove m (tml k)\<rparr>"

definition rt_timer_init :: "tmr \<Rightarrow> u8 list \<Rightarrow> tfunc \<Rightarrow> u32 \<Rightarrow> u8 \<Rightarrow> kernel \<Rightarrow> kernel option" where
  "rt_timer_init m name timeout time flag k =
     do {
       k1 \<leftarrow> rt_object_init (OTimer m) RT_Object_Class_Timer name k;
       rt_timer_init0 m timeout time flag k1
     }"

definition rt_timer_detach :: "tmr \<Rightarrow> kernel \<Rightarrow> (int \<times> kernel) option" where
  "rt_timer_detach m k =
     do {
       RT_ASSERT (rt_object_get_type k (OTimer m) = RT_Object_Class_Timer);
       RT_ASSERT (rt_object_is_systemobject k (OTimer m));
       Some (RT_EOK, rt_object_detach (OTimer m) (rt_timer_remove m k))
     }"

definition rt_timer_create ::
  "u8 list \<Rightarrow> tfunc \<Rightarrow> u32 \<Rightarrow> u8 \<Rightarrow> tmr option \<Rightarrow> kernel \<Rightarrow> (tmr option \<times> kernel) option" where
  "rt_timer_create name timeout time flag mem k =
     do {
       (r, k1) \<leftarrow> rt_object_allocate RT_Object_Class_Timer name (map_option OTimer mem) k;
       (case mem of
          None \<Rightarrow> Some (None, k1)
        | Some m \<Rightarrow> do {
            k2 \<leftarrow> rt_timer_init0 m timeout time flag k1;
            Some (Some m, k2)
          })
     }"

definition rt_timer_delete :: "tmr \<Rightarrow> kernel \<Rightarrow> (int \<times> kernel) option" where
  "rt_timer_delete m k =
     do {
       RT_ASSERT (rt_object_get_type k (OTimer m) = RT_Object_Class_Timer);
       RT_ASSERT (\<not> rt_object_is_systemobject k (OTimer m));
       k1 \<leftarrow> rt_object_delete (OTimer m) (rt_timer_remove m k);
       Some (RT_EOK, k1)
     }"

text \<open>The half-range comparison of the insertion loop: node \<open>t\<close> stays behind the new timer.\<close>

definition fires_later :: "u32 \<Rightarrow> u32 \<Rightarrow> bool" where
  "fires_later new_tick t_tick \<longleftrightarrow> t_tick - new_tick \<noteq> 0 \<and> t_tick - new_tick < TICK_HALF"

text \<open>
  \<^verbatim>\<open>rt_timer_start\<close> up to the insertion; the wake-up of the timer thread that follows for a
  soft timer is in theory Timer.
\<close>

definition rt_timer_start0 :: "tmr \<Rightarrow> kernel \<Rightarrow> kernel option" where
  "rt_timer_start0 m k =
     do {
       RT_ASSERT (rt_object_get_type k (OTimer m) = RT_Object_Class_Timer);
       let k1 = rt_timer_remove m k;
       let k2 = set_timer_flag m (timer_flag k1 m AND NOT RT_TIMER_FLAG_ACTIVATED) k1;
       RT_ASSERT (tm_init_tick (timers k2 m) < TICK_HALF);
       let k3 = upd_timer m (\<lambda>x. x\<lparr>timeout_tick := tick k2 + tm_init_tick x\<rparr>) k2;
       let q = (if timer_flag k3 m AND RT_TIMER_FLAG_SOFT_TIMER \<noteq> 0 then SoftT else HardT);
       l \<leftarrow> ls_insert (\<lambda>t. fires_later (timeout_tick (timers k3 m)) (timeout_tick (timers k3 t))) q m (tml k3);
       Some (set_timer_flag m (timer_flag k3 m OR RT_TIMER_FLAG_ACTIVATED) (k3\<lparr>tml := l\<rparr>))
     }"

definition rt_timer_stop :: "tmr \<Rightarrow> kernel \<Rightarrow> (int \<times> kernel) option" where
  "rt_timer_stop m k =
     do {
       RT_ASSERT (rt_object_get_type k (OTimer m) = RT_Object_Class_Timer);
       (if timer_flag k m AND RT_TIMER_FLAG_ACTIVATED = 0 then Some (- RT_ERROR, k)
        else
          let k1 = rt_timer_remove m k
          in Some (RT_EOK, set_timer_flag m (timer_flag k1 m AND NOT RT_TIMER_FLAG_ACTIVATED) k1))
     }"

text \<open>\<open>GET_TIME\<close> stores through \<open>arg\<close>: the stored tick is the first component.\<close>

datatype timer_cmd = CTRL_SET_TIME u32 | CTRL_GET_TIME | CTRL_SET_ONESHOT | CTRL_SET_PERIODIC | CTRL_OTHER

definition rt_timer_control :: "tmr \<Rightarrow> timer_cmd \<Rightarrow> kernel \<Rightarrow> (u32 option \<times> int \<times> kernel) option" where
  "rt_timer_control m cmd k =
     do {
       RT_ASSERT (rt_object_get_type k (OTimer m) = RT_Object_Class_Timer);
       Some (case cmd of
               CTRL_GET_TIME \<Rightarrow> (Some (tm_init_tick (timers k m)), RT_EOK, k)
             | CTRL_SET_TIME time \<Rightarrow> (None, RT_EOK, upd_timer m (\<lambda>x. x\<lparr>tm_init_tick := time\<rparr>) k)
             | CTRL_SET_ONESHOT \<Rightarrow>
                 (None, RT_EOK, set_timer_flag m (timer_flag k m AND NOT RT_TIMER_FLAG_PERIODIC) k)
             | CTRL_SET_PERIODIC \<Rightarrow>
                 (None, RT_EOK, set_timer_flag m (timer_flag k m OR RT_TIMER_FLAG_PERIODIC) k)
             | CTRL_OTHER \<Rightarrow> (None, RT_EOK, k))
     }"

definition rt_timer_next_timeout_tick :: "kernel \<Rightarrow> u32" where
  "rt_timer_next_timeout_tick k = rt_timer_list_next_timeout HardT k"

definition rt_system_timer_init :: "kernel \<Rightarrow> kernel" where
  "rt_system_timer_init k = k\<lparr>tml := (tml k)\<lparr>lst := (lst (tml k))(HardT := [])\<rparr>\<rparr>"

subsection \<open>What the timer operations leave unchanged\<close>

lemma set_timer_flag_sel [simp]:
  "objs (set_timer_flag m f k) = objs k" "threads (set_timer_flag m f k) = threads k"
  "thl (set_timer_flag m f k) = thl k" "timers (set_timer_flag m f k) = timers k"
  "tml (set_timer_flag m f k) = tml k" "timer_thread (set_timer_flag m f k) = timer_thread k"
  "ready_group (set_timer_flag m f k) = ready_group k" "current (set_timer_flag m f k) = current k"
  "cur_prio (set_timer_flag m f k) = cur_prio k" "lock_nest (set_timer_flag m f k) = lock_nest k"
  "irq_nest (set_timer_flag m f k) = irq_nest k" "tick (set_timer_flag m f k) = tick k"
  "sems (set_timer_flag m f k) = sems k" "mutexes (set_timer_flag m f k) = mutexes k"
  "events (set_timer_flag m f k) = events k" "mailboxes (set_timer_flag m f k) = mailboxes k"
  "mqs (set_timer_flag m f k) = mqs k"
  "res (set_timer_flag m f k) = res k"
  "stat_of (set_timer_flag m f k) t = stat_of k t" "prio_of (set_timer_flag m f k) t = prio_of k t"
  "rt_object_get_type (set_timer_flag m f k) r = rt_object_get_type k r"
  "rt_object_is_systemobject (set_timer_flag m f k) r = rt_object_is_systemobject k r"
  "o_name (hdr (set_timer_flag m f k) r) = o_name (hdr k r)"
  "o_type (hdr (set_timer_flag m f k) r) = o_type (hdr k r)"
  "o_flag (hdr (set_timer_flag m f k) r) = (if r = OTimer m then f else o_flag (hdr k r))"
  by (simp_all add: set_timer_flag_def rt_object_get_type_def rt_object_is_systemobject_def)

lemma rt_timer_remove_sel [simp]:
  "hdr (rt_timer_remove m k) = hdr k"
  "objs (rt_timer_remove m k) = objs k" "threads (rt_timer_remove m k) = threads k"
  "thl (rt_timer_remove m k) = thl k" "timers (rt_timer_remove m k) = timers k"
  "tml (rt_timer_remove m k) = ls_remove m (tml k)" "timer_thread (rt_timer_remove m k) = timer_thread k"
  "ready_group (rt_timer_remove m k) = ready_group k" "current (rt_timer_remove m k) = current k"
  "cur_prio (rt_timer_remove m k) = cur_prio k" "lock_nest (rt_timer_remove m k) = lock_nest k"
  "irq_nest (rt_timer_remove m k) = irq_nest k" "tick (rt_timer_remove m k) = tick k"
  "sems (rt_timer_remove m k) = sems k" "mutexes (rt_timer_remove m k) = mutexes k"
  "events (rt_timer_remove m k) = events k" "mailboxes (rt_timer_remove m k) = mailboxes k"
  "mqs (rt_timer_remove m k) = mqs k"
  "res (rt_timer_remove m k) = res k"
  "stat_of (rt_timer_remove m k) t = stat_of k t" "prio_of (rt_timer_remove m k) t = prio_of k t"
  "rt_object_get_type (rt_timer_remove m k) r = rt_object_get_type k r"
  "rt_object_is_systemobject (rt_timer_remove m k) r = rt_object_is_systemobject k r"
  by (simp_all add: rt_timer_remove_def rt_object_get_type_def rt_object_is_systemobject_def)

lemma object_type_cong:
  "hdr k' = hdr k \<Longrightarrow> rt_object_get_type k' r = rt_object_get_type k r"
  "hdr k' = hdr k \<Longrightarrow> rt_object_is_systemobject k' r = rt_object_is_systemobject k r"
  by (simp_all add: rt_object_get_type_def rt_object_is_systemobject_def)

lemma object_type_upds [simp]:
  "rt_object_get_type (upd_thread t f k) r = rt_object_get_type k r"
  "rt_object_get_type (upd_timer m g k) r = rt_object_get_type k r"
  "rt_object_get_type (set_stat t s k) r = rt_object_get_type k r"
  "rt_object_get_type (k\<lparr>tml := l\<rparr>) r = rt_object_get_type k r"
  "rt_object_get_type (k\<lparr>thl := h\<rparr>) r = rt_object_get_type k r"
  "rt_object_get_type (k\<lparr>lock_nest := n\<rparr>) r = rt_object_get_type k r"
  "rt_object_is_systemobject (upd_thread t f k) r = rt_object_is_systemobject k r"
  "rt_object_is_systemobject (upd_timer m g k) r = rt_object_is_systemobject k r"
  "rt_object_is_systemobject (set_stat t s k) r = rt_object_is_systemobject k r"
  "rt_object_is_systemobject (k\<lparr>tml := l\<rparr>) r = rt_object_is_systemobject k r"
  by (simp_all add: rt_object_get_type_def rt_object_is_systemobject_def)

subsection \<open>The timer lists are ordered by remaining time\<close>

text \<open>
  A linked timer is ACTIVATED and on the list its flag names.  The converse does not hold
  while a callback runs: the timer is off the list with the flag still set.
\<close>

definition timer_queue :: "kernel \<Rightarrow> tmr \<Rightarrow> tqid" where
  "timer_queue k m = (if timer_flag k m AND RT_TIMER_FLAG_SOFT_TIMER \<noteq> 0 then SoftT else HardT)"

definition timer_inv :: "kernel \<Rightarrow> bool" where
  "timer_inv k \<longleftrightarrow> ls_wf (tml k) \<and>
     (\<forall>m q. own (tml k) m = Some q \<longrightarrow>
        timer_flag k m AND RT_TIMER_FLAG_ACTIVATED \<noteq> 0 \<and> q = timer_queue k m)"

text \<open>
  Ticks wrap, so a timer's time is measured from a base tick: \<open>timers_sorted base k q\<close> says that
  the list is ordered by that distance, which stays below half the tick range.
\<close>

definition tick_off :: "u32 \<Rightarrow> kernel \<Rightarrow> tmr \<Rightarrow> nat" where
  "tick_off base k m = unat (timeout_tick (timers k m) - base)"

definition timers_sorted :: "u32 \<Rightarrow> kernel \<Rightarrow> tqid \<Rightarrow> bool" where
  "timers_sorted base k q \<longleftrightarrow>
     sorted (map (tick_off base k) (lst (tml k) q)) \<and>
     (\<forall>m \<in> set (lst (tml k) q). tick_off base k m < 0x7fffffff)"

lemma unat_diff_cases:
  fixes x y :: u32
  shows "unat (y - x) = (if unat x \<le> unat y then unat y - unat x else 2 ^ 32 + unat y - unat x)"
proof -
  have "unat x < 2 ^ 32" "unat y < 2 ^ 32"
    using unsigned_less [of x] unsigned_less [of y] by simp_all
  then show ?thesis
    by (auto simp: unat_sub_if_size word_size)
qed

lemma fires_later_iff:
  assumes "unat (a - base) < 0x7fffffff" "unat (b - base) < 0x7fffffff"
  shows "fires_later a b \<longleftrightarrow> unat (a - base) < unat (b - base)"
proof -
  let ?x = "a - base" and ?y = "b - base"
  have d: "b - a = ?y - ?x" by simp
  have "fires_later a b \<longleftrightarrow> unat (?y - ?x) \<noteq> 0 \<and> unat (?y - ?x) < 0x7fffffff"
    unfolding fires_later_def d word_less_nat_alt by (simp add: unat_eq_0)
  also have "\<dots> \<longleftrightarrow> unat ?x < unat ?y"
    using assms unfolding unat_diff_cases [of ?y ?x] by auto
  finally show ?thesis .
qed

lemma insert_at_cong:
  "(\<And>x. x \<in> set xs \<Longrightarrow> P x = Q x) \<Longrightarrow> insert_at P t xs = insert_at Q t xs"
  by (induction xs) auto

lemma insert_at_sorted_filter:
  fixes f :: "'a \<Rightarrow> nat"
  assumes "sorted (map f xs)"
  shows "insert_at (\<lambda>x. f t < f x) t xs =
     filter (\<lambda>x. f x \<le> f t) xs @ t # filter (\<lambda>x. f t < f x) xs"
  using assms
proof (induction xs)
  case (Cons a xs)
  show ?case
  proof (cases "f t < f a")
    case True
    with Cons.prems have gt: "\<forall>x \<in> set xs. f t < f x" by fastforce
    then have "filter (\<lambda>x. f x \<le> f t) xs = []" "filter (\<lambda>x. f t < f x) xs = xs"
      by (fastforce simp: filter_empty_conv, simp add: filter_id_conv)
    with True show ?thesis by simp
  next
    case False
    with Cons show ?thesis by simp
  qed
qed simp

lemma sorted_insert_at:
  fixes f :: "'a \<Rightarrow> nat"
  assumes "sorted (map f xs)"
  shows "sorted (map f (insert_at (\<lambda>x. f t < f x) t xs))"
  using assms by (induction xs) (auto simp: sorted_append intro: order_trans less_imp_le)

lemma sorted_map_remove1: "sorted (map f xs) \<Longrightarrow> sorted (map f (remove1 x xs))"
  by (induction xs) (auto dest: notin_set_remove1 set_remove1_subset [THEN subsetD])

lemma timer_flag_bits [simp]:
  fixes f :: u8
  shows "(f AND NOT 1) AND 4 = f AND 4" "(f OR 1) AND 4 = f AND 4" "(f OR 1) AND 1 = 1"
    "(f AND NOT 1) AND 1 = 0" "(f OR 1) AND 2 = f AND 2" "(f AND NOT 1) AND 2 = f AND 2"
    "(f AND - 2) AND 4 = f AND 4" "(f AND - 2) AND 1 = 0" "(f AND - 2) AND 2 = f AND 2"
    "((f AND - 2) OR 1) AND 4 = f AND 4" "((f AND - 2) OR 1) AND 2 = f AND 2"
  by (simp_all add: and.assoc bit.conj_disj_distrib2)

lemma timer_flag_upds [simp]:
  "timer_flag (upd_timer m g k) n = timer_flag k n"
  "timer_flag (k\<lparr>tml := l\<rparr>) n = timer_flag k n"
  by simp_all

text \<open>The state after a start, when it is not refused.\<close>

definition started :: "tmr \<Rightarrow> kernel \<Rightarrow> kernel" where
  "started m k =
     (let to = tick k + tm_init_tick (timers k m); s = ls_remove m (tml k); q = timer_queue k m
      in set_timer_flag m ((timer_flag k m AND NOT RT_TIMER_FLAG_ACTIVATED) OR RT_TIMER_FLAG_ACTIVATED)
           ((upd_timer m (\<lambda>x. x\<lparr>timeout_tick := to\<rparr>) k)
             \<lparr>tml := s\<lparr>lst := (lst s)(q :=
                  insert_at (\<lambda>t. t \<noteq> m \<and> fires_later to (timeout_tick (timers k t))) m (lst s q)),
                own := (own s)(m := Some q)\<rparr>\<rparr>))"

lemma not_fires_self [simp]: "\<not> fires_later a a"
  by (simp add: fires_later_def)

lemma insert_at_upd_self:
  "insert_at (\<lambda>t. fires_later a (timeout_tick (((timers k)(m := x\<lparr>timeout_tick := a\<rparr>)) t))) m xs =
   insert_at (\<lambda>t. t \<noteq> m \<and> fires_later a (timeout_tick (timers k t))) m xs"
  by (rule insert_at_cong) simp

lemma timer_start0_eq:
  assumes "rt_object_get_type k (OTimer m) = RT_Object_Class_Timer"
    and "tm_init_tick (timers k m) < TICK_HALF"
  shows "rt_timer_start0 m k = Some (started m k)"
proof -
  let ?to = "tick k + tm_init_tick (timers k m)"
  have o: "own (ls_remove m (tml k)) m = None" by (simp add: own_ls_remove)
  have q: "timer_flag k m AND - 2 AND 4 = timer_flag k m AND 4" by (simp add: and.assoc)
  show ?thesis
    using assms o
    by (simp add: rt_timer_start0_def Let_def ls_insert_eq [OF o] started_def insert_at_upd_self
        timer_queue_def cong: conj_cong)
      (simp add: set_timer_flag_def upd_hdr_def upd_timer_def rt_timer_remove_def cong: conj_cong)
qed

lemma started_sel [simp]:
  "threads (started m k) = threads k" "thl (started m k) = thl k" "objs (started m k) = objs k"
  "ready_group (started m k) = ready_group k" "current (started m k) = current k"
  "cur_prio (started m k) = cur_prio k" "lock_nest (started m k) = lock_nest k"
  "irq_nest (started m k) = irq_nest k" "tick (started m k) = tick k"
  "timer_thread (started m k) = timer_thread k"
  "sems (started m k) = sems k" "mutexes (started m k) = mutexes k" "events (started m k) = events k"
  "mailboxes (started m k) = mailboxes k" "mqs (started m k) = mqs k" "res (started m k) = res k"
  "stat_of (started m k) t = stat_of k t" "prio_of (started m k) t = prio_of k t"
  "rt_object_get_type (started m k) r = rt_object_get_type k r"
  "rt_object_is_systemobject (started m k) r = rt_object_is_systemobject k r"
  "timer_flag (started m k) n =
     (if n = m then (timer_flag k m AND NOT RT_TIMER_FLAG_ACTIVATED) OR RT_TIMER_FLAG_ACTIVATED
      else timer_flag k n)"
  "timers (started m k) = (timers k)(m := (timers k m)
     \<lparr>timeout_tick := tick k + tm_init_tick (timers k m)\<rparr>)"
  "own (tml (started m k)) = (own (tml k))(m := Some (timer_queue k m))"
  by (simp_all add: started_def Let_def own_ls_remove stat_of_def prio_of_def object_type_cong
      rt_object_get_type_def rt_object_is_systemobject_def)

lemma timer_queue_started [simp]: "timer_queue (started m k) n = timer_queue k n"
  by (simp add: timer_queue_def)

lemma lst_started:
  "ls_wf (tml k) \<Longrightarrow> lst (tml (started m k)) q =
     (if q = timer_queue k m
      then insert_at (\<lambda>t. t \<noteq> m \<and> fires_later (tick k + tm_init_tick (timers k m)) (timeout_tick (timers k t)))
             m (remove1 m (lst (tml k) q))
      else remove1 m (lst (tml k) q))"
  by (simp add: started_def Let_def lst_ls_remove)

lemma started_wf:
  assumes wf: "ls_wf (tml k)"
  shows "ls_wf (tml (started m k))"
proof -
  have "m \<notin> set (remove1 m (lst (tml k) q))" for q
    using ls_wf_distinct [OF wf, of q] by simp
  then show ?thesis
    using wf ls_wf_distinct [OF wf]
    by (auto simp: ls_wf_def lst_started [OF wf] split: if_splits)
qed

lemma started_inv: "timer_inv k \<Longrightarrow> timer_inv (started m k)"
  using started_wf [of k m] by (auto simp: timer_inv_def timer_queue_def split: if_splits)

lemma tick_off_started:
  assumes "unat (tick k - base) + unat (tm_init_tick (timers k m)) < 0x7fffffff"
  shows "tick_off base (started m k) m = unat (tick k - base) + unat (tm_init_tick (timers k m))"
proof -
  have e: "tick k + tm_init_tick (timers k m) - base = (tick k - base) + tm_init_tick (timers k m)" by simp
  moreover have "unat ((tick k - base) + tm_init_tick (timers k m)) =
      unat (tick k - base) + unat (tm_init_tick (timers k m))"
    using assms by (subst unat_word_ariths(1)) simp
  ultimately show ?thesis by (simp add: tick_off_def del: diff_add_eq) (simp only: e)
qed

text \<open>
  The functional behaviour: the new timer goes behind every timer due no later than itself.
\<close>

lemma started_list:
  assumes inv: "timer_inv k" and srt: "timers_sorted base k (timer_queue k m)"
    and rng: "unat (tick k - base) + unat (tm_init_tick (timers k m)) < 0x7fffffff"
  defines "due \<equiv> unat (tick k - base) + unat (tm_init_tick (timers k m))"
    and "rest \<equiv> remove1 m (lst (tml k) (timer_queue k m))"
  shows "lst (tml (started m k)) (timer_queue k m) =
           filter (\<lambda>t. tick_off base k t \<le> due) rest @ m # filter (\<lambda>t. due < tick_off base k t) rest"
    and "timers_sorted base (started m k) (timer_queue k m)"
proof -
  have wf: "ls_wf (tml k)" using inv by (simp add: timer_inv_def)
  let ?k = "started m k" and ?f = "tick_off base (started m k)"
  have mn: "m \<notin> set rest" using ls_wf_distinct [OF wf] by (simp add: rest_def)
  have fm: "?f m = due" unfolding due_def by (rule tick_off_started [OF rng])
  have ft: "?f t = tick_off base k t" if "t \<noteq> m" for t using that by (simp add: tick_off_def)
  have ftr: "map ?f rest = map (tick_off base k) rest" using mn ft by (metis map_cong)
  have lt: "tick_off base k t < 0x7fffffff" if "t \<in> set rest" for t
    using srt that set_remove1_subset by (fastforce simp: timers_sorted_def rest_def)
  have s: "sorted (map ?f rest)"
    unfolding ftr using srt by (simp add: timers_sorted_def rest_def sorted_map_remove1)
  have "(t \<noteq> m \<and> fires_later (tick k + tm_init_tick (timers k m)) (timeout_tick (timers k t)))
      = (?f m < ?f t)" if t: "t \<in> set rest" for t
  proof -
    have ne: "t \<noteq> m" using t mn by blast
    have "unat (tick k + tm_init_tick (timers k m) - base) = due"
      using fm by (simp add: tick_off_def)
    with fires_later_iff [of "tick k + tm_init_tick (timers k m)" base "timeout_tick (timers k t)"]
      lt [OF t] ne rng show ?thesis
      by (simp add: ft fm) (simp add: due_def tick_off_def)
  qed
  then have l: "lst (tml ?k) (timer_queue k m) = insert_at (\<lambda>t. ?f m < ?f t) m rest"
    unfolding lst_started [OF wf] rest_def [symmetric] by (simp cong: insert_at_cong)
  also have "\<dots> = filter (\<lambda>t. ?f t \<le> ?f m) rest @ m # filter (\<lambda>t. ?f m < ?f t) rest"
    by (rule insert_at_sorted_filter [OF s])
  also have "\<dots> = filter (\<lambda>t. tick_off base k t \<le> due) rest @ m # filter (\<lambda>t. due < tick_off base k t) rest"
  proof -
    have "?f t = tick_off base k t" if "t \<in> set rest" for t
      by (rule ft) (use that mn in blast)
    then have "filter (\<lambda>t. ?f t \<le> due) rest = filter (\<lambda>t. tick_off base k t \<le> due) rest"
      "filter (\<lambda>t. due < ?f t) rest = filter (\<lambda>t. due < tick_off base k t) rest"
      by (auto intro!: filter_cong)
    then show ?thesis unfolding fm by simp
  qed
  finally show "lst (tml ?k) (timer_queue k m) =
      filter (\<lambda>t. tick_off base k t \<le> due) rest @ m # filter (\<lambda>t. due < tick_off base k t) rest" .
  show "timers_sorted base ?k (timer_queue k m)"
    unfolding timers_sorted_def l
  proof (intro conjI ballI)
    show "sorted (map ?f (insert_at (\<lambda>t. ?f m < ?f t) m rest))" by (rule sorted_insert_at [OF s])
    fix t assume "t \<in> set (insert_at (\<lambda>t. ?f m < ?f t) m rest)"
    then consider "t = m" | "t \<in> set rest" "t \<noteq> m" by auto
    then show "?f t < 0x7fffffff"
      using fm rng lt ft by cases (simp_all add: due_def)
  qed
qed

text \<open>
  C9.  \<^verbatim>\<open>rt_timer_start\<close> keeps the timer list ordered by expiry: measured from any base tick from
  which all pending expiries and the new one lie within half the tick range (so across the
  wrap-around of the tick counter too), the timer is inserted behind the timers due no later,
  in particular behind those due at the same tick, and in front of the later ones.
\<close>

theorem rt_timer_start_ordered:
  assumes "timer_inv k" "rt_object_get_type k (OTimer m) = RT_Object_Class_Timer"
    and "tm_init_tick (timers k m) < TICK_HALF" "timers_sorted base k (timer_queue k m)"
    and "unat (tick k - base) + unat (tm_init_tick (timers k m)) < 0x7fffffff"
  shows "\<exists>k'. rt_timer_start0 m k = Some k' \<and> timer_inv k' \<and>
           timers_sorted base k' (timer_queue k m) \<and>
           timeout_tick (timers k' m) = tick k + tm_init_tick (timers k m) \<and>
           (let due = unat (tick k - base) + unat (tm_init_tick (timers k m));
                rest = remove1 m (lst (tml k) (timer_queue k m))
            in lst (tml k') (timer_queue k m) =
                 filter (\<lambda>t. tick_off base k t \<le> due) rest @ m #
                 filter (\<lambda>t. due < tick_off base k t) rest)"
  using timer_start0_eq [OF assms(2,3)] started_inv [OF assms(1), of m]
    started_list [OF assms(1,4,5)]
  by (simp add: Let_def)

text \<open>A kernel 16 ticks before the tick counter wraps, with one pending hard timer.\<close>

definition timer_demo :: kernel where
  "timer_demo = demo_kernel\<lparr>tick := 0xfffffff0,
     hdr := (\<lambda>r. \<lparr>o_name = [], o_type = (case r of OThread _ \<Rightarrow> 0x81 | OTimer _ \<Rightarrow> 0x8a | _ \<Rightarrow> 0),
               o_flag = (if r = OTimer (UserTimer 1) then RT_TIMER_FLAG_ACTIVATED else 0)\<rparr>),
     timers := (\<lambda>m. \<lparr>timeout_func = (case m of ThreadTimer t \<Rightarrow> ThreadTimeout t | UserTimer n \<Rightarrow> UserTimeout n),
               tm_init_tick = 50, timeout_tick = 3\<rparr>),
     tml := \<lparr>lst = (\<lambda>_. [])(HardT := [UserTimer 1]), own = (\<lambda>_. None)(UserTimer 1 := Some HardT)\<rparr>\<rparr>"

lemma timer_demo_inv: "timer_inv timer_demo"
  by (auto simp: timer_inv_def timer_demo_def timer_queue_def ls_wf_def split: if_splits)

theorem rt_timer_start_ordered_witness:
  "\<exists>k'. rt_timer_start0 (UserTimer 0) timer_demo = Some k' \<and> timeout_tick (timers k' (UserTimer 0)) = 34 \<and>
     lst (tml k') HardT = [UserTimer 1, UserTimer 0]"
  using rt_timer_start_ordered [OF timer_demo_inv, where m = "UserTimer 0" and base = "0xfffffff0"]
  by (auto simp: timer_demo_def rt_object_get_type_def timers_sorted_def timer_queue_def tick_off_def)

subsection \<open>Stop and control\<close>

lemma timer_stop_inv:
  assumes "timer_inv k" "rt_timer_stop m k = Some (r, k')"
  shows "timer_inv k'"
  using assms
  by (auto simp: rt_timer_stop_def timer_inv_def Let_def own_ls_remove timer_queue_def split: if_splits)

lemma timer_stop_unlinked:
  assumes "timer_inv k" "rt_timer_stop m k = Some (r, k')"
  shows "own (tml k') = (own (tml k))(m := None)"
  using assms
  by (cases "own (tml k) m")
    (auto simp: rt_timer_stop_def timer_inv_def Let_def own_ls_remove fun_upd_idem split: if_splits)

end
