(* ===== verification/Thread_Core.thy ===== *)
theory Thread_Core
  imports Timer_Core
begin

text \<open>
  \<^verbatim>\<open>rt-thread/src/thread.c\<close>, the operations every blocking call is made of: suspend, resume
  and the timeout callback, and the invariant \<open>kinv\<close> of threads, ready queues and thread timers
  that all kernel operations keep.
\<close>

subsection \<open>Operations\<close>

definition rt_thread_self :: "kernel \<Rightarrow> tid option" where
  "rt_thread_self k = current k"

definition rt_thread_suspend :: "tid \<Rightarrow> kernel \<Rightarrow> (int \<times> kernel) option" where
  "rt_thread_suspend t k =
     do {
       RT_ASSERT (rt_object_get_type k (OThread t) = RT_Object_Class_Thread);
       (if stat_of k t \<noteq> RT_THREAD_READY \<and> stat_of k t \<noteq> RT_THREAD_RUNNING
        then Some (- RT_ERROR, k)
        else do {
          RT_ASSERT (stat_of k t = RT_THREAD_RUNNING \<longrightarrow> rt_thread_self k = Some t);
          k1 \<leftarrow> rt_schedule_remove_thread t k;
          let k2 = set_stat t RT_THREAD_SUSPEND k1;
          (_, k3) \<leftarrow> rt_timer_stop (ThreadTimer t) k2;
          Some (RT_EOK, k3)
        })
     }"

definition rt_thread_resume :: "tid \<Rightarrow> kernel \<Rightarrow> (int \<times> kernel) option" where
  "rt_thread_resume t k =
     do {
       RT_ASSERT (rt_object_get_type k (OThread t) = RT_Object_Class_Thread);
       (if stat_of k t \<noteq> RT_THREAD_SUSPEND
        then Some (- RT_ERROR, k)
        else do {
          let k1 = k\<lparr>thl := ls_remove t (thl k)\<rparr>;
          (_, k2) \<leftarrow> rt_timer_stop (ThreadTimer t) k1;
          k3 \<leftarrow> rt_schedule_insert_thread t k2;
          Some (RT_EOK, k3)
        })
     }"

definition rt_thread_timeout :: "tid \<Rightarrow> kernel \<Rightarrow> kernel option" where
  "rt_thread_timeout t k =
     do {
       RT_ASSERT (stat_of k t = RT_THREAD_SUSPEND);
       RT_ASSERT (rt_object_get_type k (OThread t) = RT_Object_Class_Thread);
       let k1 = upd_thread t (\<lambda>th. th\<lparr>t_error := - RT_ETIMEOUT\<rparr>) k;
       let k2 = k1\<lparr>thl := ls_remove t (thl k1)\<rparr>;
       k3 \<leftarrow> rt_schedule_insert_thread t k2;
       rt_schedule k3
     }"

subsection \<open>The kernel invariant\<close>

text \<open>
  A started, not yet closed thread is registered, and so is its timer: a one-shot hard timer
  that calls \<^verbatim>\<open>rt_thread_timeout\<close> for this thread.
\<close>

definition live :: "kernel \<Rightarrow> tid \<Rightarrow> bool" where
  "live k t \<longleftrightarrow> stat_of k t = RT_THREAD_READY \<or> stat_of k t = RT_THREAD_SUSPEND \<or>
               stat_of k t = RT_THREAD_RUNNING"

definition thread_objs_ok :: "kernel \<Rightarrow> tid \<Rightarrow> bool" where
  "thread_objs_ok k t \<longleftrightarrow>
     rt_object_get_type k (OThread t) = RT_Object_Class_Thread \<and>
     rt_object_get_type k (OTimer (ThreadTimer t)) = RT_Object_Class_Timer \<and>
     rt_object_is_systemobject k (OTimer (ThreadTimer t)) \<and>
     timer_flag k (ThreadTimer t) AND RT_TIMER_FLAG_PERIODIC = 0 \<and>
     timer_flag k (ThreadTimer t) AND RT_TIMER_FLAG_SOFT_TIMER = 0 \<and>
     timeout_func (timers k (ThreadTimer t)) = ThreadTimeout t"

text \<open>The timer of a thread is pending only while the thread is suspended.\<close>

definition kinv :: "kernel \<Rightarrow> bool" where
  "kinv k \<longleftrightarrow> sched_inv k \<and> timer_inv k \<and>
     (\<forall>t. live k t \<longrightarrow> thread_objs_ok k t) \<and>
     (\<forall>t. own (tml k) (ThreadTimer t) \<noteq> None \<longrightarrow> stat_of k t = RT_THREAD_SUSPEND)"

lemma kinvD:
  assumes "kinv k"
  shows "sched_inv k" "timer_inv k" "live k t \<Longrightarrow> thread_objs_ok k t"
    "own (tml k) (ThreadTimer t) \<noteq> None \<Longrightarrow> stat_of k t = RT_THREAD_SUSPEND"
  using assms by (simp_all add: kinv_def)

lemma timer_inv_cong:
  "tml k' = tml k \<Longrightarrow> (\<And>m. timer_flag k' m = timer_flag k m) \<Longrightarrow> timer_inv k' = timer_inv k"
  by (simp add: timer_inv_def timer_queue_def)

lemma thread_objs_ok_cong:
  assumes "\<And>r. o_type (hdr k' r) = o_type (hdr k r)"
    "timer_flag k' (ThreadTimer t) AND 2 = timer_flag k (ThreadTimer t) AND 2"
    "timer_flag k' (ThreadTimer t) AND 4 = timer_flag k (ThreadTimer t) AND 4"
    "timeout_func (timers k' (ThreadTimer t)) = timeout_func (timers k (ThreadTimer t))"
  shows "thread_objs_ok k' t = thread_objs_ok k t"
  using assms by (simp add: thread_objs_ok_def rt_object_get_type_def rt_object_is_systemobject_def)

text \<open>
  What the thread operations leave alone: the IPC objects, the clock, the nesting counters, the
  container, every header except the flags of the timers, and the threads but for their state
  and error code.
\<close>

definition env_same :: "kernel \<Rightarrow> kernel \<Rightarrow> bool" where
  "env_same k k' \<longleftrightarrow>
     sems k' = sems k \<and> mutexes k' = mutexes k \<and> events k' = events k \<and>
     mailboxes k' = mailboxes k \<and> mqs k' = mqs k \<and> objs k' = objs k \<and> tick k' = tick k \<and>
     lock_nest k' = lock_nest k \<and> irq_nest k' = irq_nest k \<and> timer_thread k' = timer_thread k \<and>
     (\<forall>r. o_type (hdr k' r) = o_type (hdr k r) \<and> o_name (hdr k' r) = o_name (hdr k r)) \<and>
     (\<forall>r. (\<forall>m. r \<noteq> OTimer m) \<longrightarrow> o_flag (hdr k' r) = o_flag (hdr k r)) \<and>
     (\<forall>m. timeout_func (timers k' m) = timeout_func (timers k m) \<and>
          timer_flag k' m AND 2 = timer_flag k m AND 2 \<and>
          timer_flag k' m AND 4 = timer_flag k m AND 4) \<and>
     (\<forall>t. \<exists>s e. threads k' t = (threads k t)\<lparr>stat := s, t_error := e\<rparr>) \<and> res k' = res k"

lemma thread_se_self: "\<exists>s e. th = th\<lparr>stat := s, t_error := e\<rparr>"
  by (rule exI [of _ "stat th"], rule exI [of _ "t_error th"]) simp

lemma env_same_refl [simp]: "env_same k k"
  by (simp add: env_same_def thread_se_self)

lemma env_same_trans: "env_same a b \<Longrightarrow> env_same b c \<Longrightarrow> env_same a c"
proof -
  assume a: "env_same a b" and b: "env_same b c"
  have "\<exists>s e. threads c t = (threads a t)\<lparr>stat := s, t_error := e\<rparr>" for t
  proof -
    from a obtain s e where 1: "threads b t = (threads a t)\<lparr>stat := s, t_error := e\<rparr>"
      unfolding env_same_def by meson
    from b obtain s' e' where 2: "threads c t = (threads b t)\<lparr>stat := s', t_error := e'\<rparr>"
      unfolding env_same_def by meson
    show ?thesis by (rule exI [of _ s'], rule exI [of _ e']) (simp add: 1 2)
  qed
  with a b show ?thesis by (simp add: env_same_def)
qed

lemma env_sameD:
  assumes "env_same k k'"
  shows "sems k' = sems k" "mutexes k' = mutexes k" "events k' = events k"
    "mailboxes k' = mailboxes k" "mqs k' = mqs k" "objs k' = objs k" "tick k' = tick k"
    "lock_nest k' = lock_nest k" "irq_nest k' = irq_nest k" "timer_thread k' = timer_thread k"
    "rt_object_get_type k' r = rt_object_get_type k r"
    "rt_object_is_systemobject k' r = rt_object_is_systemobject k r"
    "o_name (hdr k' r) = o_name (hdr k r)"
    "(\<forall>m. r \<noteq> OTimer m) \<Longrightarrow> o_flag (hdr k' r) = o_flag (hdr k r)"
    "prio_of k' t = prio_of k t" "number_mask (threads k' t) = number_mask (threads k t)"
    "stack_ok (threads k' t) = stack_ok (threads k t)"
    "event_set (threads k' t) = event_set (threads k t)"
    "event_info (threads k' t) = event_info (threads k t)"
    "thread_objs_ok k' t = thread_objs_ok k t"
    "current_priority (threads k' t) = current_priority (threads k t)"
    "init_priority (threads k' t) = init_priority (threads k t)"
    "cleanup (threads k' t) = cleanup (threads k t)" "res k' = res k"
proof -
  from assms obtain s e where t: "threads k' t = (threads k t)\<lparr>stat := s, t_error := e\<rparr>"
    unfolding env_same_def by meson
  show "sems k' = sems k" "mutexes k' = mutexes k" "events k' = events k"
    "mailboxes k' = mailboxes k" "mqs k' = mqs k" "objs k' = objs k" "tick k' = tick k"
    "lock_nest k' = lock_nest k" "irq_nest k' = irq_nest k" "timer_thread k' = timer_thread k"
    "rt_object_get_type k' r = rt_object_get_type k r"
    "rt_object_is_systemobject k' r = rt_object_is_systemobject k r"
    "o_name (hdr k' r) = o_name (hdr k r)"
    "(\<forall>m. r \<noteq> OTimer m) \<Longrightarrow> o_flag (hdr k' r) = o_flag (hdr k r)"
    "prio_of k' t = prio_of k t" "number_mask (threads k' t) = number_mask (threads k t)"
    "stack_ok (threads k' t) = stack_ok (threads k t)"
    "event_set (threads k' t) = event_set (threads k t)"
    "event_info (threads k' t) = event_info (threads k t)"
    "current_priority (threads k' t) = current_priority (threads k t)"
    "init_priority (threads k' t) = init_priority (threads k t)"
    "cleanup (threads k' t) = cleanup (threads k t)" "res k' = res k"
    using assms t
    by (simp_all add: env_same_def rt_object_get_type_def rt_object_is_systemobject_def prio_of_def
        stack_ok_def)
  show "thread_objs_ok k' t = thread_objs_ok k t"
    by (rule thread_objs_ok_cong) (use assms in \<open>simp_all add: env_same_def\<close>)
qed

lemma env_same_sched: "sched_frame k k' \<Longrightarrow> env_same k k'"
proof -
  assume f: "sched_frame k k'"
  have "\<exists>s e. threads k' t = (threads k t)\<lparr>stat := s, t_error := e\<rparr>" for t
  proof -
    from f obtain s where "threads k' t = (threads k t)\<lparr>stat := s\<rparr>"
      unfolding sched_frame_def by meson
    then show ?thesis by (intro exI [of _ s] exI [of _ "t_error (threads k t)"]) simp
  qed
  with sched_frame_sel [OF f] show ?thesis by (simp add: env_same_def)
qed

subsection \<open>Stopping a timer\<close>

definition timer_stopped :: "tmr \<Rightarrow> kernel \<Rightarrow> kernel" where
  "timer_stopped m k =
     (if timer_flag k m AND RT_TIMER_FLAG_ACTIVATED = 0 then k
      else set_timer_flag m (timer_flag k m AND NOT RT_TIMER_FLAG_ACTIVATED) (rt_timer_remove m k))"

lemma timer_stop_eq:
  "rt_object_get_type k (OTimer m) = RT_Object_Class_Timer \<Longrightarrow>
     \<exists>r. rt_timer_stop m k = Some (r, timer_stopped m k)"
  by (simp add: rt_timer_stop_def timer_stopped_def Let_def)

lemma timer_stopped_sel [simp]:
  "threads (timer_stopped m k) = threads k" "thl (timer_stopped m k) = thl k"
  "objs (timer_stopped m k) = objs k" "timers (timer_stopped m k) = timers k"
  "ready_group (timer_stopped m k) = ready_group k" "current (timer_stopped m k) = current k"
  "lock_nest (timer_stopped m k) = lock_nest k" "tick (timer_stopped m k) = tick k"
  "stat_of (timer_stopped m k) t = stat_of k t" "prio_of (timer_stopped m k) t = prio_of k t"
  by (simp_all add: timer_stopped_def)

lemma timer_stopped_env [simp]: "env_same k (timer_stopped m k)"
  by (simp add: env_same_def timer_stopped_def thread_se_self)

lemma timer_stopped_inv: "timer_inv k \<Longrightarrow> timer_inv (timer_stopped m k)"
  by (auto simp: timer_stopped_def timer_inv_def own_ls_remove timer_queue_def split: if_splits)

lemma timer_stopped_own: "timer_inv k \<Longrightarrow> own (tml (timer_stopped m k)) = (own (tml k))(m := None)"
  by (cases "own (tml k) m") (auto simp: timer_stopped_def timer_inv_def own_ls_remove fun_upd_idem)

subsection \<open>Waking and suspending, as the scheduler sees them\<close>

text \<open>Unlinking a suspended thread \<open>t\<close> keeps the ready queues in order, \<open>t\<close> aside.\<close>

lemma core_unlink:
  assumes c: "core_except {} k" and s: "stat_of k t = RT_THREAD_SUSPEND"
  shows "core_except {t} (k\<lparr>thl := ls_remove t (thl k)\<rparr>)"
proof -
  let ?k = "k\<lparr>thl := ls_remove t (thl k)\<rparr>"
  have wf: "ls_wf (thl k)" by (rule core_wf [OF c])
  have "t \<notin> set (lst (thl k) (ReadyQ p))" for p
    using queued_ready [OF c, of t p] s by auto
  then have "lst (thl ?k) (ReadyQ p) = lst (thl k) (ReadyQ p)" for p
    by (simp add: lst_ls_remove [OF wf])
  moreover have "thread_ok ?k u" if "u \<noteq> t" for u
    using core_thread_ok [OF c, of u] that thread_ok_cong [of ?k u k] by (simp add: own_ls_remove)
  ultimately show ?thesis
    using c wf by (simp add: core_except_def own_ls_remove)
qed

definition woken :: "tid \<Rightarrow> kernel \<Rightarrow> kernel \<Rightarrow> bool" where
  "woken t k k' \<longleftrightarrow>
     stat_of k' = (stat_of k)(t := (if current k = Some t then RT_THREAD_RUNNING else RT_THREAD_READY)) \<and>
     (\<forall>q. lst (thl k') q = remove1 t (lst (thl k) q) @
            (if current k \<noteq> Some t \<and> q = ReadyQ (prio_of k t) then [t] else [])) \<and>
     current k' = current k"

lemma wake_spec:
  assumes inv: "sched_inv k" and s: "stat_of k t = RT_THREAD_SUSPEND"
  obtains k' where "rt_schedule_insert_thread t (k\<lparr>thl := ls_remove t (thl k)\<rparr>) = Some k'"
    "sched_inv k'" "sched_frame k k'" "woken t k k'"
proof -
  note c = sched_inv_core [OF inv]
  let ?k = "k\<lparr>thl := ls_remove t (thl k)\<rparr>"
  have p: "prio_of k t < 32" "number_mask (threads k t) = 2 ^ prio_of k t"
    using core_thread_ok [OF c, of t] s by (simp_all add: thread_ok_def)
  have x: "core_except {t} ?k" by (rule core_unlink [OF c s])
  have l: "lst (thl ?k) q = remove1 t (lst (thl k) q)" for q
    by (simp add: lst_ls_remove [OF core_wf [OF c]])
  have others: "stat_of k u = RT_THREAD_RUNNING \<Longrightarrow> current k = Some u" for u
    by (rule running_current [OF inv])
  show ?thesis
  proof (cases "current k = Some t")
    case True
    let ?k' = "set_stat t RT_THREAD_RUNNING ?k"
    have "rt_schedule_insert_thread t ?k = Some ?k'"
      using True by (simp add: rt_schedule_insert_thread_def)
    moreover have "core_except {} ?k'"
      by (rule core_except_set_stat [OF x]) (use p in simp_all)
    moreover have "cur_ok ?k'" using others True by (auto simp: cur_ok_def)
    moreover have "sched_frame k ?k'"
      by (rule sched_frame_trans [OF sched_frame_upds(1) sched_frame_set_stat])
    moreover have "woken t k ?k'"
      using True by (auto simp: woken_def lst_ls_remove [OF core_wf [OF c]] fun_eq_iff)
    ultimately show ?thesis using that by (simp add: sched_inv_def)
  next
    case False
    have cu: "current ?k \<noteq> Some t" and pk: "prio_of ?k t < 32"
      "number_mask (threads ?k t) = 2 ^ prio_of ?k t" using False p by simp_all
    from core_insert [OF x cu pk] obtain k' where
      k': "rt_schedule_insert_thread t ?k = Some k'" "core_except {} k'" and
      f: "k' = (set_stat t RT_THREAD_READY ?k)\<lparr>thl := thl k', ready_group := ready_group k'\<rparr>" and
      lq: "lst (thl k') = (lst (thl ?k))(ReadyQ (prio_of ?k t) := lst (thl ?k) (ReadyQ (prio_of ?k t)) @ [t])"
      by blast
    have st: "stat_of k' = (stat_of k)(t := RT_THREAD_READY)"
      by (subst f) (simp add: fun_eq_iff)
    have cu': "current k' = current k" by (subst f) simp
    have "cur_ok k'"
      using others cur_not_ready [OF inv] False by (auto simp: cur_ok_def st cu')
    moreover have "sched_frame k k'"
      by (rule sched_frame_trans [OF sched_frame_upds(1) sched_frame_insert [OF k'(1)]])
    moreover have "woken t k k'"
      using False unfolding woken_def st cu' lq
      by (simp add: lst_ls_remove [OF core_wf [OF c]])
    ultimately show ?thesis using that k' by (simp add: sched_inv_def)
  qed
qed

text \<open>The half of \<^verbatim>\<open>rt_thread_suspend\<close> that works on the queues.\<close>

definition parked :: "tid \<Rightarrow> kernel \<Rightarrow> kernel \<Rightarrow> bool" where
  "parked t k k' \<longleftrightarrow>
     stat_of k' = (stat_of k)(t := RT_THREAD_SUSPEND) \<and>
     own (thl k') = (own (thl k))(t := None) \<and>
     (\<forall>q. lst (thl k') q = remove1 t (lst (thl k) q)) \<and>
     current k' = current k"

lemma park_spec:
  assumes inv: "sched_inv k" and s: "stat_of k t = RT_THREAD_READY \<or> stat_of k t = RT_THREAD_RUNNING"
  obtains k1 where "rt_schedule_remove_thread t k = Some k1"
    "sched_inv (set_stat t RT_THREAD_SUSPEND k1)"
    "sched_frame k (set_stat t RT_THREAD_SUSPEND k1)"
    "parked t k (set_stat t RT_THREAD_SUSPEND k1)" "hdr k1 = hdr k"
proof -
  note c = sched_inv_core [OF inv]
  have p: "prio_of k t < 32" "number_mask (threads k t) = 2 ^ prio_of k t"
    using core_thread_ok [OF c, of t] s by (auto simp: thread_ok_def)
  have "stat_of k t \<noteq> RT_THREAD_INIT" using s by auto
  from core_remove [OF c this] obtain k1 where
    k1: "rt_schedule_remove_thread t k = Some k1" "core_except {t} k1"
    and f: "k1 = k\<lparr>thl := ls_remove t (thl k), ready_group := ready_group k1\<rparr>" .
  let ?k = "set_stat t RT_THREAD_SUSPEND k1"
  have e: "stat_of k1 u = stat_of k u" "prio_of k1 u = prio_of k u" "threads k1 = threads k"
    "current k1 = current k" "thl k1 = ls_remove t (thl k)" "hdr k1 = hdr k" for u
    by (subst f, simp)+
  have "core_except {} ?k"
    by (rule core_except_set_stat [OF k1(2)]) (use p in \<open>simp_all add: e\<close>)
  moreover have "cur_ok ?k"
    using running_current [OF inv] cur_not_ready [OF inv] by (auto simp: cur_ok_def e)
  moreover have "sched_frame k ?k"
    by (rule sched_frame_trans [OF sched_frame_remove [OF k1(1)] sched_frame_set_stat])
  moreover have "parked t k ?k"
    by (simp add: parked_def e own_ls_remove lst_ls_remove [OF core_wf [OF c]] fun_eq_iff)
  ultimately show ?thesis using that k1(1) e(6) by (simp add: sched_inv_def)
qed

subsection \<open>Suspend, resume and timeout keep the kernel invariant\<close>

lemma kinv_stat_step:
  assumes inv: "kinv k" and s': "sched_inv k'" and t': "timer_inv k'" and e: "env_same k k'"
    and live: "\<And>u. live k' u \<Longrightarrow> live k u"
    and tm: "\<And>u. own (tml k') (ThreadTimer u) \<noteq> None \<Longrightarrow> stat_of k' u = RT_THREAD_SUSPEND"
  shows "kinv k'"
  using s' t' tm live kinvD(3) [OF inv] env_sameD(20) [OF e] by (simp add: kinv_def)

lemma suspend_spec:
  assumes inv: "kinv k" and s: "stat_of k t = RT_THREAD_READY \<or> stat_of k t = RT_THREAD_RUNNING"
  obtains k' where "rt_thread_suspend t k = Some (RT_EOK, k')" "kinv k'" "parked t k k'"
    "env_same k k'" "own (tml k') = (own (tml k))(ThreadTimer t := None)"
    "\<And>u. t_error (threads k' u) = t_error (threads k u)"
proof -
  have si: "sched_inv k" and ti: "timer_inv k" and ok: "thread_objs_ok k t"
    using inv s by (auto simp: kinv_def live_def)
  from park_spec [OF si s] obtain k1 where k1: "rt_schedule_remove_thread t k = Some k1"
    "sched_inv (set_stat t RT_THREAD_SUSPEND k1)" "sched_frame k (set_stat t RT_THREAD_SUSPEND k1)"
    "parked t k (set_stat t RT_THREAD_SUSPEND k1)" "hdr k1 = hdr k" .
  let ?k2 = "set_stat t RT_THREAD_SUSPEND k1"
  let ?k = "timer_stopped (ThreadTimer t) ?k2"
  have h: "hdr ?k2 = hdr k" "tml ?k2 = tml k"
    using k1(5) sched_frame_sel(4) [OF k1(3)] by simp_all
  have ti2: "timer_inv ?k2" using ti timer_inv_cong [of ?k2 k] h by simp
  obtain r where r: "rt_timer_stop (ThreadTimer t) ?k2 = Some (r, ?k)"
    using timer_stop_eq [of ?k2 "ThreadTimer t"] ok h object_type_cong(1) [of ?k2 k]
    by (auto simp: thread_objs_ok_def)
  have run: "stat_of k t = RT_THREAD_RUNNING \<longrightarrow> current k = Some t"
    using running_current [OF si] by blast
  have res: "rt_thread_suspend t k = Some (RT_EOK, ?k)"
    using ok s run k1(1) r by (auto simp: rt_thread_suspend_def thread_objs_ok_def rt_thread_self_def Let_def)
  have e: "env_same k ?k"
    by (rule env_same_trans [OF env_same_sched [OF k1(3)] timer_stopped_env])
  have o: "own (tml ?k) = (own (tml k))(ThreadTimer t := None)"
    using timer_stopped_own [OF ti2] h by simp
  have st: "stat_of ?k = (stat_of k)(t := RT_THREAD_SUSPEND)"
    using k1(4) by (simp add: parked_def fun_eq_iff)
  have "kinv ?k"
  proof (rule kinv_stat_step [OF inv _ _ e])
    show "sched_inv ?k" using k1(2) sched_inv_cong [of ?k ?k2] by simp
    show "timer_inv ?k" by (rule timer_stopped_inv [OF ti2])
    show "live k u" if "live ?k u" for u using that s by (auto simp: live_def st split: if_splits)
    show "stat_of ?k u = RT_THREAD_SUSPEND" if "own (tml ?k) (ThreadTimer u) \<noteq> None" for u
      using that kinvD(4) [OF inv, of u] by (auto simp: o st split: if_splits)
  qed
  moreover have "parked t k ?k"
    using k1(4) by (simp add: parked_def fun_eq_iff)
  moreover have "t_error (threads ?k u) = t_error (threads k u)" for u
    using sched_frame_sel(17) [OF k1(3), of u] by simp
  ultimately show ?thesis using that res e o by blast
qed

lemma suspend_refused:
  assumes "rt_object_get_type k (OThread t) = RT_Object_Class_Thread"
    "stat_of k t \<noteq> RT_THREAD_READY" "stat_of k t \<noteq> RT_THREAD_RUNNING"
  shows "rt_thread_suspend t k = Some (- RT_ERROR, k)"
  using assms by (simp add: rt_thread_suspend_def)

lemma resume_spec:
  assumes inv: "kinv k" and s: "stat_of k t = RT_THREAD_SUSPEND"
  obtains k' where "rt_thread_resume t k = Some (RT_EOK, k')" "kinv k'" "woken t k k'"
    "env_same k k'" "own (tml k') = (own (tml k))(ThreadTimer t := None)"
    "\<And>u. t_error (threads k' u) = t_error (threads k u)"
proof -
  have si: "sched_inv k" and ti: "timer_inv k" and ok: "thread_objs_ok k t"
    using inv s by (auto simp: kinv_def live_def)
  let ?m = "ThreadTimer t"
  let ?k0 = "timer_stopped ?m k"
  let ?k1 = "k\<lparr>thl := ls_remove t (thl k)\<rparr>"
  have com: "timer_stopped ?m ?k1 = ?k0\<lparr>thl := ls_remove t (thl ?k0)\<rparr>"
    by (simp add: timer_stopped_def set_timer_flag_def upd_hdr_def rt_timer_remove_def)
  obtain r where r: "rt_timer_stop ?m ?k1 = Some (r, ?k0\<lparr>thl := ls_remove t (thl ?k0)\<rparr>)"
    using timer_stop_eq [of ?k1 ?m] ok by (auto simp: thread_objs_ok_def com)
  have si0: "sched_inv ?k0" using si sched_inv_cong [of ?k0 k] by simp
  from wake_spec [OF si0, of t] s obtain k' where
    k': "rt_schedule_insert_thread t (?k0\<lparr>thl := ls_remove t (thl ?k0)\<rparr>) = Some k'"
    "sched_inv k'" "sched_frame ?k0 k'" "woken t ?k0 k'" by (auto simp del: timer_stopped_sel(2))
  have res: "rt_thread_resume t k = Some (RT_EOK, k')"
    using ok s r k'(1) by (auto simp: rt_thread_resume_def thread_objs_ok_def Let_def)
  have e: "env_same k k'"
    by (rule env_same_trans [OF timer_stopped_env env_same_sched [OF k'(3)]])
  have tm: "tml k' = tml ?k0" "hdr k' = hdr ?k0"
    using sched_frame_sel [OF k'(3)] by simp_all
  have o: "own (tml k') = (own (tml k))(?m := None)"
    by (simp add: tm timer_stopped_own [OF ti])
  have w: "woken t k k'" using k'(4) by (simp add: woken_def fun_eq_iff)
  have "kinv k'"
  proof (rule kinv_stat_step [OF inv k'(2) _ e])
    show "timer_inv k'"
      using timer_stopped_inv [OF ti, of ?m] timer_inv_cong [of k' ?k0] tm by simp
    show "live k u" if "live k' u" for u
      using that w s by (auto simp: live_def woken_def split: if_splits)
    show "stat_of k' u = RT_THREAD_SUSPEND" if "own (tml k') (ThreadTimer u) \<noteq> None" for u
      using that kinvD(4) [OF inv, of u] w by (auto simp: o woken_def split: if_splits)
  qed
  moreover have "t_error (threads k' u) = t_error (threads k u)" for u
    using sched_frame_sel(17) [OF k'(3), of u] by simp
  ultimately show ?thesis using that res e o w by blast
qed

lemma resume_refused:
  assumes "rt_object_get_type k (OThread t) = RT_Object_Class_Thread" "stat_of k t \<noteq> RT_THREAD_SUSPEND"
  shows "rt_thread_resume t k = Some (- RT_ERROR, k)"
  using assms by (simp add: rt_thread_resume_def)

subsection \<open>Rescheduling keeps the kernel invariant\<close>

definition stacks_ok :: "kernel \<Rightarrow> bool" where
  "stacks_ok k \<longleftrightarrow> (\<forall>t. live k t \<longrightarrow> stack_ok (threads k t))"

lemma stacks_ready: "stacks_ok k \<Longrightarrow> ready_stacks_ok k"
  by (simp add: stacks_ok_def ready_stacks_ok_def live_def)

lemma stacks_ok_env:
  "stacks_ok k \<Longrightarrow> env_same k k' \<Longrightarrow> (\<And>u. live k' u \<Longrightarrow> live k u) \<Longrightarrow> stacks_ok k'"
  by (simp add: stacks_ok_def env_sameD(17))

text \<open>
  \<open>rescheduled k k'\<close>: only ready and running threads change, among themselves; every other
  list, the timers, the headers and the error codes stay.
\<close>

definition rescheduled :: "kernel \<Rightarrow> kernel \<Rightarrow> bool" where
  "rescheduled k k' \<longleftrightarrow>
     (\<forall>u. if stat_of k u = RT_THREAD_READY \<or> stat_of k u = RT_THREAD_RUNNING
          then stat_of k' u = RT_THREAD_READY \<or> stat_of k' u = RT_THREAD_RUNNING
          else stat_of k' u = stat_of k u) \<and>
     (\<forall>q. (\<forall>p. q \<noteq> ReadyQ p) \<longrightarrow> lst (thl k') q = lst (thl k) q) \<and>
     tml k' = tml k \<and> hdr k' = hdr k \<and> timers k' = timers k \<and>
     (\<forall>u. t_error (threads k' u) = t_error (threads k u)) \<and> env_same k k'"

lemma rescheduledD:
  assumes "rescheduled k k'"
  shows "tml k' = tml k" "hdr k' = hdr k" "timers k' = timers k"
    "t_error (threads k' u) = t_error (threads k u)" "env_same k k'"
    "(\<forall>p. q \<noteq> ReadyQ p) \<Longrightarrow> lst (thl k') q = lst (thl k) q"
  using assms unfolding rescheduled_def by blast+

lemma rescheduled_live: "rescheduled k k' \<Longrightarrow> live k' u = live k u"
  unfolding rescheduled_def live_def by (metis (no_types, lifting))

lemma rescheduled_stat:
  "rescheduled k k' \<Longrightarrow> s \<noteq> RT_THREAD_READY \<Longrightarrow> s \<noteq> RT_THREAD_RUNNING \<Longrightarrow> stat_of k' u = s \<longleftrightarrow> stat_of k u = s"
  unfolding rescheduled_def by (metis (no_types, lifting))

lemma schedule_rescheduled:
  assumes inv: "sched_inv k" and cur: "current k = Some c" and st: "ready_stacks_ok k"
  obtains k' where "rt_schedule k = Some k'" "sched_inv k'" "rescheduled k k'"
    "current k' \<noteq> None" "lock_nest k \<noteq> 0 \<Longrightarrow> k' = k"
proof -
  note core = sched_inv_core [OF inv]
  show ?thesis
  proof (cases "lock_nest k = 0")
    case False
    show ?thesis
      by (rule that [of k]) (use False inv cur in \<open>auto simp: schedule_locked rescheduled_def\<close>)
  next
    case True
    from inv cur st show ?thesis
    proof (cases rule: schedule_cases)
      case (switch hi k')
      note f = switched_frame [OF switch(3)]
      note h = preempts_ready [OF core switch(4)]
      have stt: "stat_of k' u =
          (if u = c then if stat_of k c = RT_THREAD_RUNNING then RT_THREAD_READY else stat_of k c
           else if u = hi then RT_THREAD_RUNNING else stat_of k u)" for u
        by (rule switched_stat [OF switch(3)])
      have "rescheduled k k'"
        unfolding rescheduled_def
      proof (intro conjI allI impI)
        fix u
        show "if stat_of k u = RT_THREAD_READY \<or> stat_of k u = RT_THREAD_RUNNING
              then stat_of k' u = RT_THREAD_READY \<or> stat_of k' u = RT_THREAD_RUNNING
              else stat_of k' u = stat_of k u"
          using h cur_not_ready [OF inv cur] by (auto simp: stt)
        show "t_error (threads k' u) = t_error (threads k u)" by (rule sched_frame_sel(17) [OF f])
      next
        fix q :: qid assume "\<forall>p. q \<noteq> ReadyQ p"
        with switch(3) show "lst (thl k') q = lst (thl k) q" by (simp add: switched_def)
      next
        show "tml k' = tml k" "hdr k' = hdr k" "timers k' = timers k" "env_same k k'"
          using sched_frame_sel [OF f] env_same_sched [OF f] by simp_all
      qed
      moreover have "current k' \<noteq> None" using switched_current [OF switch(3)] by simp
      ultimately show ?thesis using switch(1,2) True that by simp
    next
      case (keep k')
      have "rescheduled k k'"
        using sched_frame_sel [OF keep(6)] env_same_sched [OF keep(6)]
        by (simp add: rescheduled_def keep(3,4))
      moreover have "current k' \<noteq> None" using keep(5) by simp
      ultimately show ?thesis using keep(1,2) True that by simp
    qed
  qed
qed

lemma kinv_rescheduled:
  assumes inv: "kinv k" and s': "sched_inv k'" and r: "rescheduled k k'"
  shows "kinv k'"
proof -
  have e: "env_same k k'" and t: "tml k' = tml k" "hdr k' = hdr k" using r by (simp_all add: rescheduled_def)
  have "timer_inv k'" using kinvD(2) [OF inv] timer_inv_cong [of k' k] t by simp
  then show ?thesis
    by (rule kinv_stat_step [OF inv s' _ e])
      (use rescheduled_live [OF r] rescheduled_stat [OF r] kinvD(4) [OF inv] t in simp_all)
qed

lemma schedule_kinv:
  assumes inv: "kinv k" and cur: "current k \<noteq> None" and st: "stacks_ok k"
  obtains k' where "rt_schedule k = Some k'" "kinv k'" "rescheduled k k'" "stacks_ok k'"
    "current k' \<noteq> None" "lock_nest k \<noteq> 0 \<Longrightarrow> k' = k"
proof -
  from cur obtain c where c: "current k = Some c" by blast
  from schedule_rescheduled [OF kinvD(1) [OF inv] c stacks_ready [OF st]] obtain k' where
    k': "rt_schedule k = Some k'" "sched_inv k'" "rescheduled k k'" "current k' \<noteq> None"
    "lock_nest k \<noteq> 0 \<Longrightarrow> k' = k" by blast
  have "env_same k k'" using k'(3) by (simp add: rescheduled_def)
  then have "stacks_ok k'" by (rule stacks_ok_env [OF st]) (use rescheduled_live [OF k'(3)] in simp)
  with that k' kinv_rescheduled [OF inv k'(2,3)] show ?thesis by blast
qed

lemma woken_live: "woken t k k' \<Longrightarrow> stat_of k t = RT_THREAD_SUSPEND \<Longrightarrow> live k' u = live k u"
  by (auto simp: woken_def live_def split: if_splits)

lemma parked_live:
  "parked t k k' \<Longrightarrow> stat_of k t = RT_THREAD_READY \<or> stat_of k t = RT_THREAD_RUNNING \<Longrightarrow> live k' u = live k u"
  by (auto simp: parked_def live_def split: if_splits)

text \<open>The timeout callback, up to its call of \<^verbatim>\<open>rt_schedule\<close>.\<close>

lemma timeout_wakes:
  assumes inv: "kinv k" and s: "stat_of k t = RT_THREAD_SUSPEND"
    and o: "own (tml k) (ThreadTimer t) = None"
  obtains k' where "rt_thread_timeout t k = rt_schedule k'" "kinv k'" "woken t k k'" "env_same k k'"
    "tml k' = tml k" "hdr k' = hdr k" "timers k' = timers k"
    "\<And>u. t_error (threads k' u) = (if u = t then - RT_ETIMEOUT else t_error (threads k u))"
proof -
  let ?k0 = "upd_thread t (\<lambda>th. th\<lparr>t_error := - RT_ETIMEOUT\<rparr>) k"
  have st0: "stat_of ?k0 u = stat_of k u" "prio_of ?k0 u = prio_of k u" for u
    by (simp_all add: stat_of_def prio_of_def)
  have "thread_ok ?k0 u = thread_ok k u" for u
    by (simp add: thread_ok_def st0)
  then have "core_except {} ?k0 = core_except {} k"
    by (simp add: core_except_def)
  then have si: "sched_inv ?k0"
    using kinvD(1) [OF inv] by (simp add: sched_inv_def cur_ok_def st0)
  from wake_spec [OF si, of t] s obtain k' where
    k': "rt_schedule_insert_thread t (?k0\<lparr>thl := ls_remove t (thl ?k0)\<rparr>) = Some k'"
    "sched_inv k'" "sched_frame ?k0 k'" "woken t ?k0 k'" by (auto simp: st0)
  have ok: "thread_objs_ok k t" using kinvD(3) [OF inv] s by (simp add: live_def)
  have e0: "env_same k ?k0"
  proof -
    have "\<exists>s e. threads ?k0 u = (threads k u)\<lparr>stat := s, t_error := e\<rparr>" for u
      by (auto simp: thread_se_self intro!: exI [of _ "stat (threads k t)"] exI [of _ "- RT_ETIMEOUT"])
    then show ?thesis by (simp add: env_same_def)
  qed
  have e: "env_same k k'" by (rule env_same_trans [OF e0 env_same_sched [OF k'(3)]])
  have w: "woken t k k'" using k'(4) by (simp add: woken_def st0 fun_eq_iff)
  have tm: "tml k' = tml k" "hdr k' = hdr k" "timers k' = timers k"
    using sched_frame_sel [OF k'(3)] by simp_all
  have "kinv k'"
  proof (rule kinv_stat_step [OF inv k'(2) _ e])
    show "timer_inv k'" using kinvD(2) [OF inv] timer_inv_cong [of k' k] tm by simp
    show "live k u" if "live k' u" for u using that woken_live [OF w s] by simp
    show "stat_of k' u = RT_THREAD_SUSPEND" if "own (tml k') (ThreadTimer u) \<noteq> None" for u
      using that kinvD(4) [OF inv, of u] w o by (auto simp: tm woken_def split: if_splits)
  qed
  moreover have "rt_thread_timeout t k = rt_schedule k'"
    using k'(1) s ok by (simp add: rt_thread_timeout_def thread_objs_ok_def Let_def)
  moreover have "t_error (threads k' u) = (if u = t then - RT_ETIMEOUT else t_error (threads k u))" for u
    using sched_frame_sel(17) [OF k'(3), of u] by simp
  ultimately show ?thesis using that w e tm by blast
qed

end
