(* ===== verification/Timer.thy ===== *)
theory Timer
  imports Thread_Core
begin

text \<open>
  \<^verbatim>\<open>rt-thread/src/timer.c\<close>, the operations that run threads or callbacks: the whole of
  \<^verbatim>\<open>rt_timer_start\<close>, the expiry processing of both lists and one round of the timer thread.

  Callbacks other than \<^verbatim>\<open>rt_thread_timeout\<close> are not kernel code: \<open>cb n\<close> is the callback of the
  user timer with parameter \<open>n\<close>.  Expiry processing loops while timers are due and need not end.
\<close>

subsection \<open>Operations\<close>

definition rt_timer_start :: "tmr \<Rightarrow> kernel \<Rightarrow> (int \<times> kernel) option" where
  "rt_timer_start m k =
     do {
       k1 \<leftarrow> rt_timer_start0 m k;
       (if timer_flag k1 m AND RT_TIMER_FLAG_SOFT_TIMER \<noteq> 0 \<and>
           stat_of k1 (timer_thread k1) = RT_THREAD_SUSPEND
        then do {
          (_, k2) \<leftarrow> rt_thread_resume (timer_thread k1) k1;
          k3 \<leftarrow> rt_schedule k2;
          Some (RT_EOK, k3)
        } else Some (RT_EOK, k1))
     }"

definition call_timeout :: "(nat \<Rightarrow> kernel \<Rightarrow> kernel option) \<Rightarrow> tfunc \<Rightarrow> kernel \<Rightarrow> kernel option" where
  "call_timeout cb f k =
     (case f of ThreadTimeout t \<Rightarrow> rt_thread_timeout t k | UserTimeout n \<Rightarrow> cb n k)"

text \<open>\<^verbatim>\<open>(current_tick - t->timeout_tick) < RT_TICK_MAX / 2\<close>\<close>

definition is_due :: "u32 \<Rightarrow> kernel \<Rightarrow> tmr \<Rightarrow> bool" where
  "is_due current_tick k t \<longleftrightarrow> current_tick - timeout_tick (timers k t) < TICK_HALF"

text \<open>After the callback: a periodic timer is started again, any other is marked stopped.\<close>

definition timer_rearm :: "tmr \<Rightarrow> kernel \<Rightarrow> kernel option" where
  "timer_rearm t k =
     (let k1 = set_timer_flag t (timer_flag k t AND NOT RT_TIMER_FLAG_ACTIVATED) k
      in if timer_flag k t AND RT_TIMER_FLAG_PERIODIC \<noteq> 0 \<and> timer_flag k t AND RT_TIMER_FLAG_ACTIVATED \<noteq> 0
         then map_option snd (rt_timer_start t k1) else Some k1)"

partial_function (option) rt_timer_check_loop ::
  "(nat \<Rightarrow> kernel \<Rightarrow> kernel option) \<Rightarrow> u32 \<Rightarrow> kernel \<Rightarrow> kernel option" where
  "rt_timer_check_loop cb current_tick k =
     (case lst (tml k) HardT of
        [] \<Rightarrow> Some k
      | t # _ \<Rightarrow>
          if is_due current_tick k t
          then Option.bind (call_timeout cb (timeout_func (timers k t)) (rt_timer_remove t k)) (\<lambda>k2.
               Option.bind (timer_rearm t k2) (\<lambda>k3. rt_timer_check_loop cb (tick k2) k3))
          else Some k)"

definition rt_timer_check :: "(nat \<Rightarrow> kernel \<Rightarrow> kernel option) \<Rightarrow> kernel \<Rightarrow> kernel option" where
  "rt_timer_check cb k = rt_timer_check_loop cb (tick k) k"

text \<open>
  The soft list is walked by a node pointer \<open>n\<close> taken before the callback; the scheduler is
  unlocked around the callback.  A head other than the soft list's would be read as a timer.
\<close>

partial_function (option) rt_soft_timer_check_loop ::
  "(nat \<Rightarrow> kernel \<Rightarrow> kernel option) \<Rightarrow> u32 \<Rightarrow> (tqid, tmr) node \<Rightarrow> kernel \<Rightarrow> kernel option" where
  "rt_soft_timer_check_loop cb current_tick n k =
     (case n of
        Head q \<Rightarrow> if q = SoftT then Some k else None
      | Node t \<Rightarrow>
          if is_due current_tick k t
          then Option.bind (rt_exit_critical (rt_timer_remove t k)) (\<lambda>k1.
               Option.bind (call_timeout cb (timeout_func (timers k1 t)) k1) (\<lambda>k2.
               Option.bind (timer_rearm t (rt_enter_critical k2)) (\<lambda>k3.
                 rt_soft_timer_check_loop cb (tick k2) (ls_next (tml k) t) k3)))
          else Some k)"

definition rt_soft_timer_check :: "(nat \<Rightarrow> kernel \<Rightarrow> kernel option) \<Rightarrow> kernel \<Rightarrow> kernel option" where
  "rt_soft_timer_check cb k =
     do {
       let k1 = rt_enter_critical k;
       k2 \<leftarrow> rt_soft_timer_check_loop cb (tick k) (ls_first (tml k1) SoftT) k1;
       rt_exit_critical k2
     }"

subsection \<open>Starting a thread timer\<close>

lemma kinv_started:
  assumes inv: "kinv k" and t: "stat_of k t = RT_THREAD_SUSPEND"
  shows "kinv (started (ThreadTimer t) k)"
proof -
  let ?k = "started (ThreadTimer t) k"
  have "sched_inv ?k" using kinvD(1) [OF inv] sched_inv_cong [of ?k k] by simp
  moreover have "timer_inv ?k" by (rule started_inv [OF kinvD(2) [OF inv]])
  moreover have "thread_objs_ok ?k u = thread_objs_ok k u" for u
    by (simp add: thread_objs_ok_def)
  moreover have "live ?k u = live k u" for u by (simp add: live_def)
  ultimately show ?thesis
    using kinvD(3,4) [OF inv] t by (auto simp: kinv_def)
qed

lemma thread_timer_start:
  assumes inv: "kinv k" and t: "stat_of k t = RT_THREAD_SUSPEND"
    and n: "tm_init_tick (timers k (ThreadTimer t)) < TICK_HALF"
  shows "rt_timer_start (ThreadTimer t) k = Some (RT_EOK, started (ThreadTimer t) k)"
proof -
  have ok: "thread_objs_ok k t" using kinvD(3) [OF inv] t by (simp add: live_def)
  then have "timer_flag (started (ThreadTimer t) k) (ThreadTimer t) AND 4 = 0"
    by (simp add: thread_objs_ok_def)
  moreover have "rt_timer_start0 (ThreadTimer t) k = Some (started (ThreadTimer t) k)"
    using ok by (intro timer_start0_eq [OF _ n]) (simp add: thread_objs_ok_def)
  ultimately show ?thesis by (simp add: rt_timer_start_def)
qed

lemma started_env: "env_same k (started m k)"
  unfolding env_same_def
  by (auto simp: thread_se_self started_def Let_def set_timer_flag_def)

lemma kinv_set_init_tick:
  "kinv (upd_timer m (\<lambda>x. x\<lparr>tm_init_tick := n\<rparr>) k) = kinv k"
proof -
  let ?k = "upd_timer m (\<lambda>x. x\<lparr>tm_init_tick := n\<rparr>) k"
  have "sched_inv ?k = sched_inv k" by (rule sched_inv_cong) simp_all
  moreover have "timer_inv ?k = timer_inv k" by (rule timer_inv_cong) simp_all
  moreover have "thread_objs_ok ?k u = thread_objs_ok k u" for u
    by (rule thread_objs_ok_cong) simp_all
  ultimately show ?thesis by (simp add: kinv_def live_def)
qed

subsection \<open>Expiry of the hard timers\<close>

text \<open>
  The contract of a callback that leaves the timers alone: it returns, keeps the invariants,
  never puts a thread to sleep that is awake, and leaves the processor to a running thread.
\<close>

definition cpu_runs :: "kernel \<Rightarrow> bool" where
  "cpu_runs k \<longleftrightarrow> (\<exists>c. current k = Some c \<and> stat_of k c = RT_THREAD_RUNNING)"

definition callback_ok :: "(nat \<Rightarrow> kernel \<Rightarrow> kernel option) \<Rightarrow> bool" where
  "callback_ok cb \<longleftrightarrow>
     (\<forall>n k. kinv k \<and> stacks_ok k \<and> current k \<noteq> None \<longrightarrow>
        (\<exists>k'. cb n k = Some k' \<and> kinv k' \<and> stacks_ok k' \<and> current k' \<noteq> None \<and>
              rescheduled k k' \<and> (cpu_runs k \<longrightarrow> cpu_runs k')))"

lemma kinv_timer_remove:
  assumes inv: "kinv k"
  shows "kinv (rt_timer_remove m k)"
proof -
  let ?k = "rt_timer_remove m k"
  have "sched_inv ?k" using kinvD(1) [OF inv] sched_inv_cong [of ?k k] by simp
  moreover have "timer_inv ?k"
    using kinvD(2) [OF inv] by (auto simp: timer_inv_def own_ls_remove timer_queue_def split: if_splits)
  moreover have "thread_objs_ok ?k u = thread_objs_ok k u" for u by (rule thread_objs_ok_cong) simp_all
  ultimately show ?thesis
    using kinvD(3,4) [OF inv] by (auto simp: kinv_def live_def own_ls_remove split: if_splits)
qed

lemma kinv_clear_flag:
  assumes inv: "kinv k" and o: "own (tml k) m = None"
  shows "kinv (set_timer_flag m (timer_flag k m AND NOT RT_TIMER_FLAG_ACTIVATED) k)" (is "kinv ?k")
proof -
  have "sched_inv ?k" using kinvD(1) [OF inv] sched_inv_cong [of ?k k] by simp
  moreover have "timer_inv ?k"
    using kinvD(2) [OF inv] o by (auto simp: timer_inv_def timer_queue_def split: if_splits)
  moreover have "thread_objs_ok ?k u = thread_objs_ok k u" for u by (rule thread_objs_ok_cong) auto
  ultimately show ?thesis using kinvD(3,4) [OF inv] by (auto simp: kinv_def live_def)
qed

lemma stacks_ok_cong: "threads k' = threads k \<Longrightarrow> stacks_ok k' = stacks_ok k"
  by (simp add: stacks_ok_def live_def stat_of_def)

text \<open>Calling a timer's function leaves the timers alone and wakes the thread it belongs to.\<close>

lemma call_timeout_spec:
  assumes inv: "kinv k" and st: "stacks_ok k" and cur: "current k \<noteq> None" and cb: "callback_ok cb"
    and f: "case f of ThreadTimeout t \<Rightarrow> stat_of k t = RT_THREAD_SUSPEND \<and> own (tml k) (ThreadTimer t) = None
            | UserTimeout _ \<Rightarrow> True"
  obtains k' where "call_timeout cb f k = Some k'" "kinv k'" "stacks_ok k'" "current k' \<noteq> None"
    "tml k' = tml k" "hdr k' = hdr k" "timers k' = timers k" "tick k' = tick k"
    "\<And>t. f = ThreadTimeout t \<Longrightarrow> stat_of k' t \<noteq> RT_THREAD_SUSPEND \<and> t_error (threads k' t) = - RT_ETIMEOUT"
    "\<And>u. f \<noteq> ThreadTimeout u \<Longrightarrow> (stat_of k' u = RT_THREAD_SUSPEND \<longleftrightarrow> stat_of k u = RT_THREAD_SUSPEND) \<and>
        t_error (threads k' u) = t_error (threads k u)"
    "env_same k k'" "\<And>q. (\<forall>p. q \<noteq> ReadyQ p) \<Longrightarrow> lst (thl k') q = filter (\<lambda>u. f \<noteq> ThreadTimeout u) (lst (thl k) q)"
    "lock_nest k = 0 \<Longrightarrow> cpu_runs k \<Longrightarrow> cpu_runs k'" "\<And>u. live k' u = live k u"
proof (cases f)
  case (UserTimeout n)
  with cb inv st cur obtain k' where k': "cb n k = Some k'" "kinv k'" "stacks_ok k'" "current k' \<noteq> None"
    "rescheduled k k'" "cpu_runs k \<longrightarrow> cpu_runs k'" unfolding callback_ok_def by blast
  have e: "env_same k k'" using k'(5) by (simp add: rescheduled_def)
  then have "tick k' = tick k" by (rule env_sameD)
  with k'(1-4,6) UserTimeout e show ?thesis
    by (intro that [of k'])
      (simp_all add: call_timeout_def rescheduledD [OF k'(5)] rescheduled_stat [OF k'(5)] rescheduled_live [OF k'(5)])
next
  case (ThreadTimeout t)
  with f have s: "stat_of k t = RT_THREAD_SUSPEND" and o: "own (tml k) (ThreadTimer t) = None" by simp_all
  from timeout_wakes [OF inv s o] obtain k1 where k1: "rt_thread_timeout t k = rt_schedule k1" "kinv k1"
    "woken t k k1" "env_same k k1" "tml k1 = tml k" "hdr k1 = hdr k" and
    err: "\<And>u. t_error (threads k1 u) = (if u = t then - RT_ETIMEOUT else t_error (threads k u))" and
    tmr: "timers k1 = timers k" by blast
  have st1: "stacks_ok k1" by (rule stacks_ok_env [OF st k1(4)]) (use woken_live [OF k1(3) s] in simp)
  have cur1: "current k1 \<noteq> None" using k1(3) cur by (simp add: woken_def)
  from schedule_kinv [OF k1(2) cur1 st1] obtain k' where k': "rt_schedule k1 = Some k'" "kinv k'"
    "rescheduled k1 k'" "stacks_ok k'" "current k' \<noteq> None" by blast
  have e: "env_same k1 k'" by (rule rescheduledD(5) [OF k'(3)])
  have tk: "tick k' = tick k" using env_sameD(7) [OF e] env_sameD(7) [OF k1(4)] by simp
  have ss: "stat_of k' u = RT_THREAD_SUSPEND \<longleftrightarrow> stat_of k1 u = RT_THREAD_SUSPEND" for u
    by (rule rescheduled_stat [OF k'(3)]) simp_all
  have er: "t_error (threads k' u) = t_error (threads k1 u)" for u by (rule rescheduledD(4) [OF k'(3)])
  show ?thesis
  proof (rule that [of k'])
    show "call_timeout cb f k = Some k'" using k1(1) k'(1) ThreadTimeout by (simp add: call_timeout_def)
    show "tml k' = tml k" "hdr k' = hdr k" "timers k' = timers k"
      using k1(5,6) tmr by (simp_all add: rescheduledD [OF k'(3)])
    show "stat_of k' v \<noteq> RT_THREAD_SUSPEND \<and> t_error (threads k' v) = - RT_ETIMEOUT" if "f = ThreadTimeout v" for v
      using that ThreadTimeout k1(3) by (simp add: ss er err woken_def)
    show "(stat_of k' u = RT_THREAD_SUSPEND \<longleftrightarrow> stat_of k u = RT_THREAD_SUSPEND) \<and>
        t_error (threads k' u) = t_error (threads k u)" if "f \<noteq> ThreadTimeout u" for u
      using that ThreadTimeout k1(3) by (auto simp: ss er err woken_def)
    show "env_same k k'" by (rule env_same_trans [OF k1(4) e])
    show "live k' u = live k u" for u using rescheduled_live [OF k'(3)] woken_live [OF k1(3) s] by simp
    show "cpu_runs k'" if l: "lock_nest k = 0" "cpu_runs k"
    proof -
      obtain c where c: "current k = Some c" "stat_of k c = RT_THREAD_RUNNING" using l(2) by (auto simp: cpu_runs_def)
      have "c \<noteq> t" using c(2) s by auto
      then have "current k1 = Some c" "stat_of k1 c = RT_THREAD_RUNNING" using k1(3) c by (simp_all add: woken_def)
      moreover have "lock_nest k1 = 0" using env_sameD(8) [OF k1(4)] l(1) by simp
      ultimately have "runs_highest k'"
        using schedule_runs_highest [OF kinvD(1) [OF k1(2)] _ stacks_ready [OF st1], of c] k'(1) by auto
      then show ?thesis by (auto simp: runs_highest_def cpu_runs_def)
    qed
    show "lst (thl k') q = filter (\<lambda>u. f \<noteq> ThreadTimeout u) (lst (thl k) q)" if "\<forall>p. q \<noteq> ReadyQ p" for q
    proof -
      have "distinct (lst (thl k) q)" using ls_wf_distinct [OF core_wf [OF sched_inv_core [OF kinvD(1) [OF inv]]]] .
      then have "remove1 t (lst (thl k) q) = filter (\<lambda>u. f \<noteq> ThreadTimeout u) (lst (thl k) q)"
        using ThreadTimeout by (simp add: distinct_remove1_removeAll removeAll_filter_not_eq)
      then show ?thesis using that k1(3) rescheduledD(6) [OF k'(3) that] by (simp add: woken_def)
    qed
  qed (use k' tk in simp_all)
qed

text \<open>
  \<open>hard_oneshot k\<close>: every timer on the hard list is one-shot, and only a thread's own timer
  calls \<^verbatim>\<open>rt_thread_timeout\<close>.
\<close>

definition hard_oneshot :: "kernel \<Rightarrow> bool" where
  "hard_oneshot k \<longleftrightarrow> (\<forall>m \<in> set (lst (tml k) HardT).
     timer_flag k m AND RT_TIMER_FLAG_PERIODIC = 0 \<and>
     (\<forall>t. timeout_func (timers k m) = ThreadTimeout t \<longrightarrow> m = ThreadTimer t))"

text \<open>What one pass over the due prefix \<open>fired\<close> of the hard list amounts to.\<close>

definition expired :: "kernel \<Rightarrow> tmr list \<Rightarrow> kernel \<Rightarrow> bool" where
  "expired k fired k' \<longleftrightarrow>
     (\<forall>t. if ThreadTimer t \<in> set fired
          then stat_of k' t \<noteq> RT_THREAD_SUSPEND \<and> t_error (threads k' t) = - RT_ETIMEOUT
          else (stat_of k' t = RT_THREAD_SUSPEND \<longleftrightarrow> stat_of k t = RT_THREAD_SUSPEND) \<and>
               t_error (threads k' t) = t_error (threads k t)) \<and>
     env_same k k' \<and> (lock_nest k = 0 \<longrightarrow> cpu_runs k \<longrightarrow> cpu_runs k') \<and> (\<forall>u. live k' u = live k u) \<and>
     (\<forall>q. (\<forall>p. q \<noteq> ReadyQ p) \<longrightarrow> lst (thl k') q = filter (\<lambda>t. ThreadTimer t \<notin> set fired) (lst (thl k) q))"

lemma expired_Nil: "expired k [] k"
  by (simp add: expired_def)

lemma expired_Cons:
  assumes "expired k [m] k1" "expired k1 ms k2" "m \<notin> set ms"
  shows "expired k (m # ms) k2"
  using assms env_same_trans [of k k1 k2] env_sameD(8) [of k k1] by (auto simp: expired_def split: if_splits intro: filter_cong)

lemma linked_timeout:
  assumes inv: "kinv k" and ho: "hard_oneshot k" and m: "m \<in> set (lst (tml k) HardT)"
  shows "(\<exists>t. m = ThreadTimer t \<and> timeout_func (timers k m) = ThreadTimeout t \<and>
            stat_of k t = RT_THREAD_SUSPEND) \<or>
         (\<exists>n p. m = UserTimer n \<and> timeout_func (timers k m) = UserTimeout p)"
proof -
  have wf: "ls_wf (tml k)" using kinvD(2) [OF inv] by (simp add: timer_inv_def)
  show ?thesis
  proof (cases m)
    case (ThreadTimer t)
    with m wf have "stat_of k t = RT_THREAD_SUSPEND"
      using kinvD(4) [OF inv, of t] by (auto simp: ls_wfD)
    with kinvD(3) [OF inv, of t] ThreadTimer show ?thesis by (simp add: live_def thread_objs_ok_def)
  next
    case (UserTimer n)
    with ho m show ?thesis by (cases "timeout_func (timers k m)") (auto simp: hard_oneshot_def)
  qed
qed

text \<open>
  What firing the one-shot timers of a list in its order is: each comes off its list, then its function is
  called, \<^verbatim>\<open>rt_thread_timeout\<close> for the timer of a thread and the callback for any other, and then it
  is marked stopped.
\<close>

fun fire_timers :: "(nat \<Rightarrow> kernel \<Rightarrow> kernel option) \<Rightarrow> tmr list \<Rightarrow> kernel \<Rightarrow> kernel option" where
  "fire_timers cb [] k = Some k"
| "fire_timers cb (m # ms) k =
     (let k1 = k\<lparr>tml := ls_remove m (tml k)\<rparr>;
          called = (case timeout_func (timers k m) of UserTimeout n \<Rightarrow> cb n k1 | ThreadTimeout t \<Rightarrow> rt_thread_timeout t k1)
      in case called of
           None \<Rightarrow> None
         | Some k2 \<Rightarrow> fire_timers cb ms (set_timer_flag m (timer_flag k2 m AND NOT RT_TIMER_FLAG_ACTIVATED) k2))"

definition flags_stopped :: "kernel \<Rightarrow> tmr list \<Rightarrow> kernel \<Rightarrow> bool" where
  "flags_stopped k fired k' \<longleftrightarrow> (\<forall>m. timer_flag k' m =
     (if m \<in> set fired then timer_flag k m AND NOT RT_TIMER_FLAG_ACTIVATED else timer_flag k m))"

text \<open>One turn of the loop on a one-shot timer at the head of the list.\<close>

lemma check_turn:
  assumes inv: "kinv k" and st: "stacks_ok k" and cur: "current k \<noteq> None" and cb: "callback_ok cb"
    and ho: "hard_oneshot k" and l: "lst (tml k) HardT = m # ms" and due: "is_due (tick k) k m"
  obtains k' where "rt_timer_check_loop cb (tick k) k = rt_timer_check_loop cb (tick k') k'"
    "kinv k'" "stacks_ok k'" "current k' \<noteq> None" "hard_oneshot k'" "lst (tml k') HardT = ms"
    "timers k' = timers k" "tick k' = tick k" "expired k [m] k'" "flags_stopped k [m] k'"
    "\<And>ts. fire_timers cb (m # ts) k = fire_timers cb ts k'"
proof -
  have wf: "ls_wf (tml k)" using kinvD(2) [OF inv] by (simp add: timer_inv_def)
  let ?k1 = "rt_timer_remove m k" and ?f = "timeout_func (timers k m)"
  have inv1: "kinv ?k1" by (rule kinv_timer_remove [OF inv])
  have st1: "stacks_ok ?k1" using st stacks_ok_cong [of ?k1 k] by simp
  have fk: "case ?f of ThreadTimeout t \<Rightarrow> stat_of ?k1 t = RT_THREAD_SUSPEND \<and>
      own (tml ?k1) (ThreadTimer t) = None | UserTimeout _ \<Rightarrow> True"
    using linked_timeout [OF inv ho, of m] l by (auto simp: own_ls_remove)
  from call_timeout_spec [OF inv1 st1 _ cb fk] cur obtain k2 where
    k2: "call_timeout cb ?f ?k1 = Some k2" "kinv k2" "stacks_ok k2" "current k2 \<noteq> None"
    "tml k2 = tml ?k1" "hdr k2 = hdr ?k1" "timers k2 = timers ?k1" "tick k2 = tick ?k1"
    and fired: "\<And>t. ?f = ThreadTimeout t \<Longrightarrow> stat_of k2 t \<noteq> RT_THREAD_SUSPEND \<and> t_error (threads k2 t) = - RT_ETIMEOUT"
    and keep: "\<And>u. ?f \<noteq> ThreadTimeout u \<Longrightarrow> (stat_of k2 u = RT_THREAD_SUSPEND \<longleftrightarrow> stat_of ?k1 u = RT_THREAD_SUSPEND) \<and>
        t_error (threads k2 u) = t_error (threads ?k1 u)"
    and env: "env_same ?k1 k2"
    and lq: "\<And>q. (\<forall>p. q \<noteq> ReadyQ p) \<Longrightarrow> lst (thl k2) q = filter (\<lambda>u. ?f \<noteq> ThreadTimeout u) (lst (thl ?k1) q)"
    and runs: "lock_nest ?k1 = 0 \<Longrightarrow> cpu_runs ?k1 \<Longrightarrow> cpu_runs k2"
    and lv: "\<And>u. live k2 u = live ?k1 u"
    by auto
  let ?k3 = "set_timer_flag m (timer_flag k2 m AND NOT RT_TIMER_FLAG_ACTIVATED) k2"
  have o2: "own (tml k2) m = None" using k2(5) by (simp add: own_ls_remove)
  have l3: "lst (tml ?k3) HardT = ms"
    using k2(5) l ls_wf_distinct [OF wf, of HardT] by (simp add: lst_ls_remove [OF wf])
  have "timer_flag k2 m AND 2 = 0" using ho l k2(6) by (simp add: hard_oneshot_def)
  then have re: "timer_rearm m k2 = Some ?k3" by (simp add: timer_rearm_def)
  have step: "rt_timer_check_loop cb (tick k) k = rt_timer_check_loop cb (tick ?k3) ?k3"
    by (subst rt_timer_check_loop.simps) (simp add: l due k2(1) re)
  have ho3: "hard_oneshot ?k3"
    using ho l k2(6,7) l3 by (auto simp: hard_oneshot_def)
  have ex: "expired k [m] ?k3"
    unfolding expired_def
  proof (intro conjI allI impI)
    have "env_same k ?k1" "env_same k2 ?k3" by (auto simp: env_same_def thread_se_self)
    then show "env_same k ?k3" using env env_same_trans by blast
    show "cpu_runs ?k3" if "lock_nest k = 0" "cpu_runs k"
      using runs that by (simp add: cpu_runs_def)
    show "live ?k3 u = live k u" for u using lv [of u] by (simp add: live_def)
    show "lst (thl ?k3) q = filter (\<lambda>t. ThreadTimer t \<notin> set [m]) (lst (thl k) q)" if "\<forall>p. q \<noteq> ReadyQ p" for q
    proof -
      have "?f \<noteq> ThreadTimeout u \<longleftrightarrow> ThreadTimer u \<notin> set [m]" for u using linked_timeout [OF inv ho, of m] l by auto
      then show ?thesis using lq [OF that] by simp
    qed
  next
    fix u
    show "if ThreadTimer u \<in> set [m] then stat_of ?k3 u \<noteq> RT_THREAD_SUSPEND \<and> t_error (threads ?k3 u) = - RT_ETIMEOUT
      else (stat_of ?k3 u = RT_THREAD_SUSPEND \<longleftrightarrow> stat_of k u = RT_THREAD_SUSPEND) \<and> t_error (threads ?k3 u) = t_error (threads k u)"
      using linked_timeout [OF inv ho, of m] l fired [of u] keep [of u] by auto
  qed
  have fs: "flags_stopped k [m] ?k3" using k2(6) by (simp add: flags_stopped_def)
  have fire: "fire_timers cb (m # ts) k = fire_timers cb ts ?k3" for ts
    using k2(1) by (cases ?f) (simp_all add: call_timeout_def rt_timer_remove_def)
  show ?thesis
    by (rule that [OF step kinv_clear_flag [OF k2(2) o2] _ _ ho3 l3 _ _ ex fs fire])
      (use k2 stacks_ok_cong [of ?k3 k2] in simp_all)
qed

lemma check_loop:
  assumes "kinv k" "stacks_ok k" "current k \<noteq> None" "callback_ok cb" "hard_oneshot k"
  shows "\<exists>k'. rt_timer_check_loop cb (tick k) k = Some k' \<and> kinv k' \<and> stacks_ok k' \<and> current k' \<noteq> None \<and>
           lst (tml k') HardT = dropWhile (is_due (tick k) k) (lst (tml k) HardT) \<and>
           expired k (takeWhile (is_due (tick k) k) (lst (tml k) HardT)) k' \<and>
           flags_stopped k (takeWhile (is_due (tick k) k) (lst (tml k) HardT)) k' \<and>
           fire_timers cb (takeWhile (is_due (tick k) k) (lst (tml k) HardT)) k = Some k'"
  using assms
proof (induction "lst (tml k) HardT" arbitrary: k)
  case Nil
  then show ?case
    by (intro exI [of _ k]) (simp add: rt_timer_check_loop.simps [of cb _ k] expired_Nil flags_stopped_def)
next
  case (Cons m ms)
  note l = Cons.hyps(2) [symmetric]
  show ?case
  proof (cases "is_due (tick k) k m")
    case False
    with Cons.prems l show ?thesis
      by (intro exI [of _ k]) (simp add: rt_timer_check_loop.simps [of cb _ k] expired_Nil flags_stopped_def)
  next
    case True
    from check_turn [OF Cons.prems l True] obtain k1 where
      k1: "rt_timer_check_loop cb (tick k) k = rt_timer_check_loop cb (tick k1) k1"
      "kinv k1" "stacks_ok k1" "current k1 \<noteq> None" "hard_oneshot k1" "lst (tml k1) HardT = ms"
      "timers k1 = timers k" "tick k1 = tick k" "expired k [m] k1" "flags_stopped k [m] k1"
      "\<And>ts. fire_timers cb (m # ts) k = fire_timers cb ts k1" by blast
    have d: "is_due (tick k1) k1 = is_due (tick k) k"
      using k1(7,8) by (simp add: is_due_def fun_eq_iff)
    have "distinct (m # ms)"
      using kinvD(2) [OF Cons.prems(1)] l ls_wf_distinct [of "tml k" HardT]
      by (simp add: timer_inv_def)
    then have mn: "m \<notin> set (takeWhile (is_due (tick k) k) ms)"
      by (auto dest: set_takeWhileD)
    from Cons.hyps(1) [OF k1(6) [symmetric] k1(2-4) Cons.prems(4) k1(5)]
    obtain k' where k': "rt_timer_check_loop cb (tick k1) k1 = Some k'" "kinv k'" "stacks_ok k'"
      "current k' \<noteq> None" "lst (tml k') HardT = dropWhile (is_due (tick k) k) ms"
      and ex: "expired k1 (takeWhile (is_due (tick k) k) ms) k'"
      and fs: "flags_stopped k1 (takeWhile (is_due (tick k) k) ms) k'"
      and fire: "fire_timers cb (takeWhile (is_due (tick k) k) ms) k1 = Some k'" by (auto simp: d k1(6))
    have "flags_stopped k (m # takeWhile (is_due (tick k) k) ms) k'"
      using k1(10) fs mn by (auto simp: flags_stopped_def)
    with expired_Cons [OF k1(9) ex mn] k' fire show ?thesis
      by (intro exI [of _ k']) (simp add: k1(1) l True k1(11) del: fire_timers.simps)
  qed
qed

text \<open>
  C10.  With one-shot timers on the hard list and callbacks that return and leave the timers
  alone, \<^verbatim>\<open>rt_timer_check\<close> returns and does just what firing the due prefix of the list in its order does:
  the callback of each due user timer is called, on the state the timers in front of it leave, and
  \<^verbatim>\<open>rt_thread_timeout\<close> for each due timer of a thread.  It keeps the kernel invariant, takes exactly
  the due prefix off the list and marks exactly these timers stopped, and exactly the threads whose timers
  were in it are awake afterwards with error \<^verbatim>\<open>-RT_ETIMEOUT\<close>; in particular the assertions of
  \<^verbatim>\<open>rt_thread_timeout\<close> hold.
\<close>

theorem rt_timer_check_fires_due:
  assumes "kinv k" "stacks_ok k" "current k \<noteq> None" "callback_ok cb" "hard_oneshot k"
    and due: "due = takeWhile (\<lambda>m. tick k - timeout_tick (timers k m) < 0x7fffffff) (lst (tml k) HardT)"
  shows "\<exists>k'. rt_timer_check cb k = Some k' \<and> fire_timers cb due k = Some k' \<and> kinv k' \<and>
           lst (tml k) HardT = due @ lst (tml k') HardT \<and>
           (\<forall>m. timer_flag k' m = (if m \<in> set due then timer_flag k m AND NOT RT_TIMER_FLAG_ACTIVATED else timer_flag k m)) \<and>
           (\<forall>t. if ThreadTimer t \<in> set due
                then stat_of k' t \<noteq> RT_THREAD_SUSPEND \<and> t_error (threads k' t) = - RT_ETIMEOUT
                else (stat_of k' t = RT_THREAD_SUSPEND \<longleftrightarrow> stat_of k t = RT_THREAD_SUSPEND) \<and>
                     t_error (threads k' t) = t_error (threads k t))"
proof -
  have d: "due = takeWhile (is_due (tick k) k) (lst (tml k) HardT)" by (simp add: due is_due_def [abs_def])
  obtain k' where k': "rt_timer_check_loop cb (tick k) k = Some k'" "kinv k'"
    "lst (tml k') HardT = dropWhile (is_due (tick k) k) (lst (tml k) HardT)"
    "expired k due k'" "flags_stopped k due k'" "fire_timers cb due k = Some k'"
    using check_loop [OF assms(1-5)] unfolding d by blast
  then show ?thesis unfolding rt_timer_check_def expired_def flags_stopped_def using d by auto
qed

text \<open>Thread 4 of the timer kernel asleep until tick 3, at tick 5.\<close>

definition sleep_demo :: kernel where
  "sleep_demo = timer_demo\<lparr>tick := 5,
     hdr := (\<lambda>r. \<lparr>o_name = [], o_type = (case r of OThread _ \<Rightarrow> 0x81 | OTimer _ \<Rightarrow> 0x8a | _ \<Rightarrow> 0),
               o_flag = (if r = OTimer (ThreadTimer 4) then RT_TIMER_FLAG_ACTIVATED else 0)\<rparr>),
     tml := \<lparr>lst = (\<lambda>_. [])(HardT := [ThreadTimer 4]), own = (\<lambda>_. None)(ThreadTimer 4 := Some HardT)\<rparr>\<rparr>"

lemma sleep_demo_stat: "stat_of sleep_demo t = stat_of demo_kernel t" "prio_of sleep_demo t = prio_of demo_kernel t"
  by (simp_all add: sleep_demo_def timer_demo_def)

lemma sleep_demo_sel: "current sleep_demo = Some 0" "threads sleep_demo = threads demo_kernel"
  "thl sleep_demo = thl demo_kernel" "irq_nest sleep_demo = 0" "lock_nest sleep_demo = 0"
  "own (tml sleep_demo) = (\<lambda>_. None)(ThreadTimer 4 := Some HardT)"
  "lst (tml sleep_demo) HardT = [ThreadTimer 4]" "lst (tml sleep_demo) SoftT = []" "tick sleep_demo = 5"
  "timeout_tick (timers sleep_demo m) = 3"
  by (simp_all add: sleep_demo_def timer_demo_def demo_sel)

lemma sleep_demo_kinv: "kinv sleep_demo"
proof -
  have "sched_inv sleep_demo"
    using demo_inv sched_inv_cong [of sleep_demo demo_kernel] by (simp add: sleep_demo_def timer_demo_def)
  moreover have "timer_inv sleep_demo"
    by (auto simp: timer_inv_def sleep_demo_def timer_queue_def ls_wf_def split: if_splits)
  moreover have "thread_objs_ok sleep_demo t" for t
    by (simp add: thread_objs_ok_def sleep_demo_def timer_demo_def rt_object_get_type_def
        rt_object_is_systemobject_def)
  ultimately show ?thesis by (simp add: kinv_def sleep_demo_sel sleep_demo_stat demo_stat)
qed

lemma sleep_demo_stacks: "stacks_ok sleep_demo"
  by (simp add: stacks_ok_def live_def sleep_demo_stat demo_stat sleep_demo_sel)
    (simp add: demo_simps stack_ok_def)

lemma callback_ok_Some: "callback_ok (\<lambda>_. Some)"
  by (simp add: callback_ok_def rescheduled_def)

text \<open>A callback that asks for rescheduling, as one does that made a thread ready.\<close>

lemma callback_ok_schedule: "callback_ok (\<lambda>_. rt_schedule)"
  unfolding callback_ok_def
proof (intro allI impI, elim conjE)
  fix k assume inv: "kinv k" "stacks_ok k" "current k \<noteq> None"
  obtain k' where k': "rt_schedule k = Some k'" "kinv k'" "rescheduled k k'" "stacks_ok k'" "current k' \<noteq> None"
    and same: "lock_nest k \<noteq> 0 \<Longrightarrow> k' = k" by (rule schedule_kinv [OF inv(1,3,2)]) blast
  have "cpu_runs k'" if run: "cpu_runs k"
  proof (cases "lock_nest k = 0")
    case True
    obtain c where "current k = Some c" "stat_of k c = RT_THREAD_RUNNING" using run by (auto simp: cpu_runs_def)
    then have "runs_highest k'"
      using schedule_runs_highest [OF kinvD(1) [OF inv(1)] _ stacks_ready [OF inv(2)] True, of c] k'(1) by auto
    then show ?thesis by (auto simp: runs_highest_def cpu_runs_def)
  qed (use same run in simp)
  then show "\<exists>k'. rt_schedule k = Some k' \<and> kinv k' \<and> stacks_ok k' \<and> current k' \<noteq> None \<and> rescheduled k k' \<and>
      (cpu_runs k \<longrightarrow> cpu_runs k')" using k' by blast
qed

text \<open>The user timer 7 is due with the timer of thread 4, in front of it.\<close>

definition two_due :: kernel where
  "two_due = sleep_demo\<lparr>
     hdr := (\<lambda>r. (hdr sleep_demo r)\<lparr>o_flag :=
       (if r = OTimer (UserTimer 7) \<or> r = OTimer (ThreadTimer 4) then RT_TIMER_FLAG_ACTIVATED else 0)\<rparr>),
     tml := \<lparr>lst = (\<lambda>_. [])(HardT := [UserTimer 7, ThreadTimer 4]),
             own = (\<lambda>_. None)(UserTimer 7 := Some HardT, ThreadTimer 4 := Some HardT)\<rparr>\<rparr>"

lemma two_due_sel: "stat_of two_due t = stat_of sleep_demo t" "current two_due = Some 0" "tick two_due = 5"
  "timeout_tick (timers two_due m) = 3" "lst (tml two_due) HardT = [UserTimer 7, ThreadTimer 4]"
  by (simp_all add: two_due_def sleep_demo_sel)

lemma two_due_kinv: "kinv two_due" "stacks_ok two_due" "hard_oneshot two_due"
proof -
  have "sched_inv two_due"
    using kinvD(1) [OF sleep_demo_kinv] sched_inv_cong [of two_due sleep_demo] by (simp add: two_due_def)
  moreover have "timer_inv two_due"
    by (auto simp: timer_inv_def two_due_def timer_queue_def ls_wf_def split: if_splits)
  moreover have "thread_objs_ok two_due t" for t
    by (simp add: thread_objs_ok_def two_due_def sleep_demo_def timer_demo_def rt_object_get_type_def
        rt_object_is_systemobject_def)
  ultimately show "kinv two_due" by (simp add: kinv_def two_due_def sleep_demo_stat demo_stat)
  show "stacks_ok two_due" using sleep_demo_stacks stacks_ok_cong [of two_due sleep_demo] by (simp add: two_due_def)
  show "hard_oneshot two_due" by (simp add: hard_oneshot_def two_due_def) (simp add: sleep_demo_def timer_demo_def)
qed

theorem rt_timer_check_fires_due_witness:
  "\<exists>k'. rt_timer_check (\<lambda>_. rt_schedule) two_due = Some k' \<and> lst (tml k') HardT = [] \<and>
     fire_timers (\<lambda>_. rt_schedule) [UserTimer 7, ThreadTimer 4] two_due = Some k' \<and>
     stat_of k' 4 \<noteq> RT_THREAD_SUSPEND \<and> t_error (threads k' 4) = - RT_ETIMEOUT"
proof -
  have due: "[UserTimer 7, ThreadTimer 4] = takeWhile (\<lambda>m. tick two_due - timeout_tick (timers two_due m) < 0x7fffffff)
      (lst (tml two_due) HardT)" by (simp add: two_due_sel)
  from rt_timer_check_fires_due [OF two_due_kinv(1,2) _ callback_ok_schedule two_due_kinv(3) due] show ?thesis
    by (auto simp: two_due_sel simp del: fire_timers.simps dest: spec [of _ 4])
qed

subsection \<open>A periodic timer of period 0\<close>

text \<open>\<open>m\<close> is the only hard timer, periodic, with period 0 and due now.\<close>

definition zero_period :: "tmr \<Rightarrow> u32 \<Rightarrow> kernel \<Rightarrow> bool" where
  "zero_period m now k \<longleftrightarrow>
     ls_wf (tml k) \<and> lst (tml k) HardT = [m] \<and> is_due now k m \<and> tick k = now \<and>
     rt_object_get_type k (OTimer m) = RT_Object_Class_Timer \<and>
     timer_flag k m AND RT_TIMER_FLAG_PERIODIC \<noteq> 0 \<and> timer_flag k m AND RT_TIMER_FLAG_ACTIVATED \<noteq> 0 \<and>
     timer_flag k m AND RT_TIMER_FLAG_SOFT_TIMER = 0 \<and> tm_init_tick (timers k m) = 0 \<and>
     (\<exists>p. timeout_func (timers k m) = UserTimeout p)"

lemma zero_period_again:
  assumes z: "zero_period m now k"
  obtains k' where "timer_rearm m (rt_timer_remove m k) = Some k'" "zero_period m now k'"
proof -
  let ?k0 = "rt_timer_remove m k"
  let ?k1 = "set_timer_flag m (timer_flag ?k0 m AND NOT RT_TIMER_FLAG_ACTIVATED) ?k0"
  let ?k2 = "started m ?k1"
  have wf: "ls_wf (tml ?k1)" using z by (simp add: zero_period_def)
  have s0: "rt_timer_start0 m ?k1 = Some ?k2"
    using z by (intro timer_start0_eq) (simp_all add: zero_period_def)
  have l1: "lst (tml ?k1) HardT = []"
    using z by (simp add: zero_period_def lst_ls_remove)
  have soft: "timer_flag ?k2 m AND 4 = 0" using z by (simp add: zero_period_def)
  then have "rt_timer_start m ?k1 = Some (RT_EOK, ?k2)" unfolding rt_timer_start_def s0 by simp
  then have r: "timer_rearm m ?k0 = Some ?k2"
    using z by (simp add: timer_rearm_def zero_period_def)
  have q: "timer_queue ?k1 m = HardT" using z by (simp add: timer_queue_def zero_period_def)
  have "ls_wf (tml ?k2)" by (rule started_wf [OF wf])
  moreover have "lst (tml ?k2) HardT = [m]"
    unfolding lst_started [OF wf] using q l1 by simp
  moreover have "is_due now ?k2 m" using z by (simp add: is_due_def zero_period_def)
  ultimately have "zero_period m now ?k2"
    using z by (simp add: zero_period_def)
  with r show ?thesis using that by blast
qed

lemma zero_period_never_returns:
  assumes "rt_timer_check_loop cb now k = Some k'"
  shows "cb = (\<lambda>_. Some) \<longrightarrow> \<not> zero_period m now k"
proof (rule rt_timer_check_loop.raw_induct [OF _ assms, where P = "\<lambda>cb now k _. cb = (\<lambda>_. Some) \<longrightarrow> \<not> zero_period m now k"],
    intro impI notI)
  fix loop :: "(nat \<Rightarrow> kernel \<Rightarrow> kernel option) \<Rightarrow> u32 \<Rightarrow> kernel \<Rightarrow> kernel option" and cb now k k'
  assume ih: "\<And>cb now k k'. loop cb now k = Some k' \<Longrightarrow> cb = (\<lambda>_. Some) \<longrightarrow> \<not> zero_period m now k"
    and eq: "(case lst (tml k) HardT of [] \<Rightarrow> Some k
      | t # _ \<Rightarrow> if is_due now k t
          then Option.bind (call_timeout cb (timeout_func (timers k t)) (rt_timer_remove t k))
            (\<lambda>k2. Option.bind (timer_rearm t k2) (loop cb (tick k2)))
          else Some k) = Some k'"
    and cb: "cb = (\<lambda>_. Some)" and z: "zero_period m now k"
  from zero_period_again [OF z] obtain k1 where
    k1: "timer_rearm m (rt_timer_remove m k) = Some k1" "zero_period m now k1" .
  from z obtain p where p: "timeout_func (timers k m) = UserTimeout p" "tick k = now"
    "lst (tml k) HardT = [m]" "is_due now k m" by (auto simp: zero_period_def)
  have "call_timeout cb (timeout_func (timers k m)) (rt_timer_remove m k) = Some (rt_timer_remove m k)"
    unfolding cb by (simp add: call_timeout_def p(1))
  with eq have "loop cb now k1 = Some k'" by (simp add: p(2-4) k1(1))
  from ih [OF this] cb k1(2) show False by blast
qed

text \<open>
  \<^verbatim>\<open>rt_timer_check\<close> does not return when a periodic timer of period 0 (which
  \<^verbatim>\<open>rt_timer_init\<close> and \<^verbatim>\<open>rt_timer_control\<close> accept) is due, here as the only hard timer and with a
  callback that does nothing: it is started again for the same tick for ever, with interrupts
  disabled.
\<close>

theorem rt_timer_check_zero_period_diverges:
  assumes "zero_period m (tick k) k"
  shows "rt_timer_check (\<lambda>_. Some) k = None"
  using zero_period_never_returns [of "\<lambda>_. Some" "tick k" k _ m] assms
  by (cases "rt_timer_check_loop (\<lambda>_. Some) (tick k) k") (auto simp: rt_timer_check_def)

theorem rt_timer_check_zero_period_diverges_witness:
  "rt_timer_check (\<lambda>_. Some) (sleep_demo\<lparr>
     hdr := (\<lambda>_. \<lparr>o_name = [], o_type = 0x8a, o_flag = RT_TIMER_FLAG_PERIODIC OR RT_TIMER_FLAG_ACTIVATED\<rparr>),
     timers := (\<lambda>_. \<lparr>timeout_func = UserTimeout 0, tm_init_tick = 0, timeout_tick = 5\<rparr>),
     tml := \<lparr>lst = (\<lambda>_. [])(HardT := [UserTimer 0]), own = (\<lambda>_. None)(UserTimer 0 := Some HardT)\<rparr>\<rparr>) = None"
  by (rule rt_timer_check_zero_period_diverges [where m = "UserTimer 0"])
    (auto simp: zero_period_def ls_wf_def is_due_def rt_object_get_type_def sleep_demo_sel split: if_splits)

end
