(* ===== verification/Clock.thy ===== *)
theory Clock
  imports Timer
begin

text \<open>
  \<^verbatim>\<open>rt-thread/src/clock.c\<close> and \<^verbatim>\<open>irq.c\<close>: the tick, the interrupt nesting counter, and the tick
  interrupt, which ends time slices and fires timers.  \<open>cb\<close> are the callbacks of user timers.
\<close>

subsection \<open>Operations\<close>

abbreviation (input) RT_TICK_PER_SECOND :: int where "RT_TICK_PER_SECOND \<equiv> 1000"

definition rt_interrupt_enter :: "kernel \<Rightarrow> kernel" where
  "rt_interrupt_enter k = k\<lparr>irq_nest := irq_nest k + 1\<rparr>"

definition rt_interrupt_leave :: "kernel \<Rightarrow> kernel" where
  "rt_interrupt_leave k = k\<lparr>irq_nest := irq_nest k - 1\<rparr>"

definition rt_interrupt_get_nest :: "kernel \<Rightarrow> u8" where
  "rt_interrupt_get_nest k = irq_nest k"

definition rt_tick_get :: "kernel \<Rightarrow> u32" where
  "rt_tick_get k = tick k"

definition rt_tick_set :: "u32 \<Rightarrow> kernel \<Rightarrow> kernel" where
  "rt_tick_set t k = k\<lparr>tick := t\<rparr>"

definition rt_thread_yield :: "kernel \<Rightarrow> (int \<times> kernel) option" where
  "rt_thread_yield k = do { k1 \<leftarrow> rt_schedule k; Some (RT_EOK, k1) }"

definition rt_tick_increase :: "(nat \<Rightarrow> kernel \<Rightarrow> kernel option) \<Rightarrow> kernel \<Rightarrow> kernel option" where
  "rt_tick_increase cb k =
     do {
       let k1 = k\<lparr>tick := tick k + 1\<rparr>;
       t \<leftarrow> rt_thread_self k1;
       let k2 = upd_thread t (\<lambda>th. th\<lparr>remaining_tick := remaining_tick th - 1\<rparr>) k1;
       k3 \<leftarrow> (if remaining_tick (threads k2 t) = 0
              then map_option snd (rt_thread_yield
                     (upd_thread t (\<lambda>th. th\<lparr>remaining_tick := init_tick th\<rparr>) k2))
              else Some k2);
       rt_timer_check cb k3
     }"

text \<open>\<open>ms\<close> is an \<^verbatim>\<open>rt_int32_t\<close>; \<open>None\<close> is the signed overflow of the multiplication or addition.\<close>

definition rt_tick_from_millisecond :: "int \<Rightarrow> int option" where
  "rt_tick_from_millisecond ms =
     (if ms < 0 then Some (- 1)
      else if RT_TICK_PER_SECOND * ms + 999 > 2 ^ 31 - 1 then None
      else Some ((RT_TICK_PER_SECOND * ms + 999) div 1000))"

subsection \<open>The tick interrupt\<close>

text \<open>
  \<^verbatim>\<open>rt_tick_from_millisecond\<close> rounds up to whole ticks, but its product overflows \<^verbatim>\<open>int\<close>
  from 2147483 ms on, although its comment allows arguments up to 0x7fffffff.
\<close>

theorem tick_from_millisecond_range:
  "rt_tick_from_millisecond ms = (if ms < 0 then Some (- 1) else if ms \<le> 2147482 then Some ms else None)"
  by (simp add: rt_tick_from_millisecond_def)

lemma core_env_cong:
  assumes "thl k' = thl k" "ready_group k' = ready_group k" "current k' = current k"
    "\<And>t. stat_of k' t = stat_of k t" "\<And>t. prio_of k' t = prio_of k t"
    "\<And>t. number_mask (threads k' t) = number_mask (threads k t)"
  shows "sched_inv k' = sched_inv k"
  using assms by (simp add: sched_inv_def core_except_def thread_ok_def cur_ok_def)

lemma kinv_cong:
  assumes "thl k' = thl k" "ready_group k' = ready_group k" "current k' = current k"
    "\<And>t. stat_of k' t = stat_of k t" "\<And>t. prio_of k' t = prio_of k t"
    "\<And>t. number_mask (threads k' t) = number_mask (threads k t)"
    "tml k' = tml k" "\<And>r. hdr k' r = hdr k r"
    "\<And>m. timeout_func (timers k' m) = timeout_func (timers k m)"
  shows "kinv k' = kinv k"
proof -
  have "sched_inv k' = sched_inv k" by (rule core_env_cong) (use assms in simp_all)
  moreover have "timer_inv k' = timer_inv k" by (rule timer_inv_cong) (use assms in simp_all)
  moreover have "thread_objs_ok k' t = thread_objs_ok k t" for t
    by (rule thread_objs_ok_cong) (use assms in simp_all)
  ultimately show ?thesis by (simp add: kinv_def live_def assms)
qed

text \<open>The part of \<^verbatim>\<open>rt_tick_increase\<close> before \<^verbatim>\<open>rt_timer_check\<close>.\<close>

lemma tick_slice:
  assumes inv: "kinv k" and st: "stacks_ok k" and cur: "current k = Some c"
  obtains k' where "rt_tick_increase cb k = rt_timer_check cb k'" "kinv k'" "stacks_ok k'"
    "current k' \<noteq> None" "tick k' = tick k + 1" "timers k' = timers k" "tml k' = tml k" "hdr k' = hdr k"
    "\<And>u. stat_of k' u = RT_THREAD_SUSPEND \<longleftrightarrow> stat_of k u = RT_THREAD_SUSPEND"
    "\<And>u. t_error (threads k' u) = t_error (threads k u)"
    "remaining_tick (threads k c) = 1 \<longrightarrow> lock_nest k = 0 \<longrightarrow> stat_of k c = RT_THREAD_RUNNING \<longrightarrow>
       runs_highest k' \<and> remaining_tick (threads k' c) = init_tick (threads k c)"
    "remaining_tick (threads k c) \<noteq> 1 \<longrightarrow> current k' = Some c \<and> thl k' = thl k \<and>
       remaining_tick (threads k' c) = remaining_tick (threads k c) - 1"
    "sems k' = sems k" "lock_nest k' = lock_nest k" "irq_nest k' = irq_nest k"
    "\<And>q. (\<forall>p. q \<noteq> ReadyQ p) \<Longrightarrow> lst (thl k') q = lst (thl k) q"
    "lock_nest k = 0 \<Longrightarrow> stat_of k c = RT_THREAD_RUNNING \<Longrightarrow> cpu_runs k'"
    "\<And>u. live k' u = live k u"
proof -
  define f where "f = (\<lambda>th. th\<lparr>remaining_tick :=
     if remaining_tick th = 1 then init_tick th else remaining_tick th - 1\<rparr> :: rt_thread)"
  define k2 where "k2 = upd_thread c f (k\<lparr>tick := tick k + 1\<rparr>)"
  have sel: "thl k2 = thl k" "ready_group k2 = ready_group k" "current k2 = current k" "tml k2 = tml k"
    "hdr k2 = hdr k" "timers k2 = timers k" "tick k2 = tick k + 1" "lock_nest k2 = lock_nest k"
    "stat_of k2 t = stat_of k t" "prio_of k2 t = prio_of k t"
    "number_mask (threads k2 t) = number_mask (threads k t)" "stack_ok (threads k2 t) = stack_ok (threads k t)"
    "t_error (threads k2 t) = t_error (threads k t)" "sems k2 = sems k" "irq_nest k2 = irq_nest k" for t
    by (simp_all add: k2_def f_def stat_of_def prio_of_def stack_ok_def)
  have inv2: "kinv k2" using inv kinv_cong [of k2 k] sel by simp
  have st2: "stacks_ok k2" using st by (simp add: stacks_ok_def live_def sel)
  have rem: "remaining_tick (threads k2 c) =
      (if remaining_tick (threads k c) = 1 then init_tick (threads k c) else remaining_tick (threads k c) - 1)"
    by (simp add: k2_def f_def)
  have z: "remaining_tick (threads k c) - 1 = 0 \<longleftrightarrow> remaining_tick (threads k c) = 1" by auto
  show ?thesis
  proof (cases "remaining_tick (threads k c) = 1")
    case False
    have "rt_tick_increase cb k = rt_timer_check cb k2"
      using False cur z by (simp add: rt_tick_increase_def rt_thread_self_def Let_def k2_def f_def
          upd_thread_def)
    then show ?thesis
      by (rule that) (use False inv2 st2 sel cur rem in \<open>simp_all add: live_def cpu_runs_def\<close>)
  next
    case True
    have "current k2 \<noteq> None" using sel cur by simp
    from schedule_kinv [OF inv2 this st2] obtain k' where
      k': "rt_schedule k2 = Some k'" "kinv k'" "rescheduled k2 k'" "stacks_ok k'" "current k' \<noteq> None"
      by blast
    have eq: "rt_tick_increase cb k = rt_timer_check cb k'"
      using True cur k'(1) by (simp add: rt_tick_increase_def rt_thread_self_def Let_def k2_def f_def
          upd_thread_def rt_thread_yield_def)
    have e: "env_same k2 k'" by (rule rescheduledD(5) [OF k'(3)])
    have top: "runs_highest k' \<and> remaining_tick (threads k' c) = init_tick (threads k c)"
      if lk: "lock_nest k = 0" and rn: "stat_of k c = RT_THREAD_RUNNING"
    proof -
      have pre: "current k2 = Some c" "lock_nest k2 = 0" "stat_of k2 c = RT_THREAD_RUNNING"
        using cur sel lk rn by simp_all
      obtain k'' where "rt_schedule k2 = Some k''" "runs_highest k''" "sched_frame k2 k''"
        using schedule_runs_highest [OF kinvD(1) [OF inv2] pre(1) stacks_ready [OF st2] pre(2)] pre(3)
        by blast
      with k'(1) have "runs_highest k'" "sched_frame k2 k'" by simp_all
      with sched_frame_sel(23) [of k2 k' c] rem True show ?thesis by simp
    qed
    have runs: "lock_nest k = 0 \<Longrightarrow> stat_of k c = RT_THREAD_RUNNING \<Longrightarrow> cpu_runs k'"
      using top unfolding runs_highest_def cpu_runs_def by blast
    show ?thesis
      by (rule that [OF eq k'(2,4,5)])
        (use True runs top sel env_sameD(1,7,8,9) [OF e] rescheduledD [OF k'(3)] rescheduled_stat [OF k'(3)]
          rescheduled_live [OF k'(3)] in \<open>simp_all add: live_def\<close>)
  qed
qed

text \<open>All that the tick interrupt does, for the theorems on the whole kernel.\<close>

lemma tick_spec:
  assumes inv: "kinv k" and st: "stacks_ok k" and cur: "current k = Some c"
    and cb: "callback_ok cb" and ho: "hard_oneshot k"
  obtains k1 k' where "rt_tick_increase cb k = Some k'" "kinv k'" "stacks_ok k'"
    "current k' \<noteq> None" "env_same k1 k'" "timers k1 = timers k" "hdr k1 = hdr k" "sems k1 = sems k"
    "lock_nest k1 = lock_nest k" "irq_nest k1 = irq_nest k" "tick k1 = tick k + 1"
    "\<And>t. if ThreadTimer t \<in> set (takeWhile (is_due (tick k + 1) k) (lst (tml k) HardT))
        then stat_of k' t \<noteq> RT_THREAD_SUSPEND \<and> t_error (threads k' t) = - RT_ETIMEOUT
        else (stat_of k' t = RT_THREAD_SUSPEND \<longleftrightarrow> stat_of k t = RT_THREAD_SUSPEND) \<and>
             t_error (threads k' t) = t_error (threads k t)"
    "\<And>q. (\<forall>p. q \<noteq> ReadyQ p) \<Longrightarrow> lst (thl k') q =
        filter (\<lambda>t. ThreadTimer t \<notin> set (takeWhile (is_due (tick k + 1) k) (lst (tml k) HardT))) (lst (thl k) q)"
    "lock_nest k = 0 \<Longrightarrow> stat_of k c = RT_THREAD_RUNNING \<Longrightarrow> cpu_runs k'"
    "lst (tml k') HardT = dropWhile (is_due (tick k + 1) k) (lst (tml k) HardT)"
    "\<And>u. live k' u = live k u"
proof -
  obtain k1 where k1: "rt_tick_increase cb k = rt_timer_check cb k1"
    "kinv k1" "stacks_ok k1" "current k1 \<noteq> None" "tick k1 = tick k + 1" "timers k1 = timers k"
    "tml k1 = tml k" "hdr k1 = hdr k" "sems k1 = sems k" "lock_nest k1 = lock_nest k" "irq_nest k1 = irq_nest k"
    and s: "\<And>u. stat_of k1 u = RT_THREAD_SUSPEND \<longleftrightarrow> stat_of k u = RT_THREAD_SUSPEND"
    and e: "\<And>u. t_error (threads k1 u) = t_error (threads k u)"
    and l: "\<And>q. (\<forall>p. q \<noteq> ReadyQ p) \<Longrightarrow> lst (thl k1) q = lst (thl k) q"
    and r: "lock_nest k = 0 \<Longrightarrow> stat_of k c = RT_THREAD_RUNNING \<Longrightarrow> cpu_runs k1"
    and v: "\<And>u. live k1 u = live k u"
    by (rule tick_slice [OF inv st cur, of cb]) blast
  have ho1: "hard_oneshot k1" using ho by (simp add: hard_oneshot_def k1(6-8))
  have d: "is_due (tick k1) k1 = is_due (tick k + 1) k" by (simp add: is_due_def fun_eq_iff k1(5,6))
  from check_loop [OF k1(2-4) cb ho1] obtain k' where k': "rt_timer_check_loop cb (tick k1) k1 = Some k'"
    "kinv k'" "stacks_ok k'" "current k' \<noteq> None"
    "lst (tml k') HardT = dropWhile (is_due (tick k + 1) k) (lst (tml k) HardT)"
    "expired k1 (takeWhile (is_due (tick k + 1) k) (lst (tml k) HardT)) k'" unfolding d k1(7) by blast
  note ex = k'(6) [unfolded expired_def]
  show ?thesis
    by (rule that [of k' k1]) (use k' ex k1 s e l r v in \<open>simp_all add: rt_timer_check_def\<close>)
qed

text \<open>
  C11.  The tick interrupt returns and keeps the kernel invariant; it advances the tick, wakes
  with \<^verbatim>\<open>-RT_ETIMEOUT\<close> exactly the threads whose timers are due at the new tick (one-shot hard
  timers, callbacks that return and leave timers alone), and charges the running thread one
  tick of its slice.
\<close>

theorem rt_tick_increase_fires_due:
  assumes inv: "kinv k" and st: "stacks_ok k" and cur: "current k = Some c"
    and cb: "callback_ok cb" and ho: "hard_oneshot k"
  shows "\<exists>k'. rt_tick_increase cb k = Some k' \<and> kinv k' \<and>
           lst (tml k') HardT = dropWhile (\<lambda>m. tick k + 1 - timeout_tick (timers k m) < 0x7fffffff) (lst (tml k) HardT) \<and>
           (\<forall>t. if ThreadTimer t \<in> set (takeWhile (\<lambda>m. tick k + 1 - timeout_tick (timers k m) < 0x7fffffff) (lst (tml k) HardT))
                then stat_of k' t \<noteq> RT_THREAD_SUSPEND \<and> t_error (threads k' t) = - RT_ETIMEOUT
                else (stat_of k' t = RT_THREAD_SUSPEND \<longleftrightarrow> stat_of k t = RT_THREAD_SUSPEND) \<and>
                     t_error (threads k' t) = t_error (threads k t))"
proof -
  obtain k1 where k1: "rt_tick_increase cb k = rt_timer_check cb k1"
    "kinv k1" "stacks_ok k1" "current k1 \<noteq> None" "tick k1 = tick k + 1" "timers k1 = timers k"
    "tml k1 = tml k" "hdr k1 = hdr k"
    and s: "\<And>u. stat_of k1 u = RT_THREAD_SUSPEND \<longleftrightarrow> stat_of k u = RT_THREAD_SUSPEND"
    and e: "\<And>u. t_error (threads k1 u) = t_error (threads k u)"
    by (rule tick_slice [OF inv st cur, of cb]) blast
  have ho1: "hard_oneshot k1" using ho by (simp add: hard_oneshot_def k1(6-8))
  have d: "is_due (tick k1) k1 = is_due (tick k + 1) k" by (simp add: is_due_def fun_eq_iff k1(5,6))
  from check_loop [OF k1(2-4) cb ho1] show ?thesis
    unfolding rt_timer_check_def k1(1) d k1(7) expired_def s e is_due_def by blast
qed

theorem rt_tick_increase_fires_due_witness:
  "\<exists>k'. rt_tick_increase (\<lambda>_. Some) sleep_demo = Some k' \<and> lst (tml k') HardT = [] \<and>
     t_error (threads k' 4) = - RT_ETIMEOUT"
proof -
  have "hard_oneshot sleep_demo"
    by (simp add: hard_oneshot_def sleep_demo_sel) (simp add: sleep_demo_def timer_demo_def)
  from rt_tick_increase_fires_due [OF sleep_demo_kinv sleep_demo_stacks sleep_demo_sel(1) callback_ok_Some this]
  obtain k' where k': "rt_tick_increase (\<lambda>_. Some) sleep_demo = Some k'"
    "lst (tml k') HardT = []" and
    t: "\<forall>t. if ThreadTimer t \<in> set [ThreadTimer 4]
          then stat_of k' t \<noteq> RT_THREAD_SUSPEND \<and> t_error (threads k' t) = - RT_ETIMEOUT
          else (stat_of k' t = RT_THREAD_SUSPEND \<longleftrightarrow> stat_of sleep_demo t = RT_THREAD_SUSPEND) \<and>
               t_error (threads k' t) = t_error (threads sleep_demo t)"
    by (auto simp: sleep_demo_sel)
  with k' spec [OF t, of 4] show ?thesis by auto
qed

text \<open>
  Time slices: with the scheduler unlocked, the tick that uses up the slice of the running
  thread refills it and yields, so that the timers are then checked with a most urgent thread
  running; any other tick leaves the thread running with one tick less.
\<close>

theorem rt_tick_increase_slice:
  assumes "kinv k" "stacks_ok k" "current k = Some c" "stat_of k c = RT_THREAD_RUNNING" "lock_nest k = 0"
  shows "\<exists>k1. rt_tick_increase cb k = rt_timer_check cb k1 \<and> kinv k1 \<and>
           (if remaining_tick (threads k c) = 1
            then runs_highest k1 \<and> remaining_tick (threads k1 c) = init_tick (threads k c)
            else current k1 = Some c \<and> thl k1 = thl k \<and>
                 remaining_tick (threads k1 c) = remaining_tick (threads k c) - 1)"
proof -
  obtain k1 where "rt_tick_increase cb k = rt_timer_check cb k1" "kinv k1"
    "remaining_tick (threads k c) = 1 \<longrightarrow> lock_nest k = 0 \<longrightarrow> stat_of k c = RT_THREAD_RUNNING \<longrightarrow>
       runs_highest k1 \<and> remaining_tick (threads k1 c) = init_tick (threads k c)"
    "remaining_tick (threads k c) \<noteq> 1 \<longrightarrow> current k1 = Some c \<and> thl k1 = thl k \<and>
       remaining_tick (threads k1 c) = remaining_tick (threads k c) - 1"
    by (rule tick_slice [OF assms(1-3), of cb]) blast
  with assms(4,5) show ?thesis by (intro exI [of _ k1]) auto
qed

theorem rt_tick_increase_slice_witness:
  "\<exists>k1. rt_tick_increase (\<lambda>_. Some) sleep_demo = rt_timer_check (\<lambda>_. Some) k1 \<and> current k1 = Some 0 \<and>
     remaining_tick (threads k1 0) = 4"
proof -
  have "remaining_tick (threads sleep_demo 0) = 5" by (simp add: sleep_demo_sel) (simp add: demo_simps)
  then show ?thesis
    using rt_tick_increase_slice [OF sleep_demo_kinv sleep_demo_stacks sleep_demo_sel(1), of "\<lambda>_. Some"]
    by (auto simp: sleep_demo_stat demo_stat sleep_demo_sel)
qed

end
