(* ===== verification/Thread.thy ===== *)
theory Thread
  imports Clock
begin

text \<open>
  \<^verbatim>\<open>rt-thread/src/thread.c\<close>: creation, start, end, sleep and control of threads, and the stack
  frame of \<^verbatim>\<open>libcpu/arm/cortex-m3/cpuport.c\<close> as far as the stack pointer goes.

  A call that blocks is split at its \<^verbatim>\<open>rt_schedule\<close>: the first definition runs up to and through
  it, the second is what the thread does when it runs again.
\<close>

subsection \<open>Operations\<close>

text \<open>\<^verbatim>\<open>struct stack_frame\<close> is 16 words.\<close>

definition rt_hw_stack_init :: "u32 \<Rightarrow> u32" where
  "rt_hw_stack_init stack =
     (let stk = stack + 4; stk1 = stk AND NOT 7 in stk1 - 64)"

text \<open>The test-and-shift \<^verbatim>\<open>1L << current_priority\<close>; a shift by 32 or more gives 0 on the target.\<close>

definition prio_mask :: "u8 \<Rightarrow> u32" where
  "prio_mask p = push_bit (unat p) 1"

definition rt_thread_init0 ::
  "tid \<Rightarrow> u32 \<Rightarrow> u32 \<Rightarrow> u8 \<Rightarrow> u32 \<Rightarrow> kernel \<Rightarrow> (int \<times> kernel) option" where
  "rt_thread_init0 t stack_start stk_size priority ticks k =
     do {
       l \<leftarrow> ls_init t (thl k);
       let k1 = upd_thread t (\<lambda>th. th\<lparr>stack_addr := stack_start, stack_size := stk_size,
                  stack_magic := (if stk_size = 0 then stack_magic th else 0x23),
                  sp := rt_hw_stack_init (stack_start + stk_size - 4)\<rparr>) (k\<lparr>thl := l\<rparr>);
       RT_ASSERT (unat priority < RT_THREAD_PRIORITY_MAX);
       let k2 = upd_thread t (\<lambda>th. th\<lparr>init_priority := priority, current_priority := priority,
                  number_mask := 0, init_tick := ticks, remaining_tick := ticks, t_error := RT_EOK,
                  stat := RT_THREAD_INIT, cleanup := False\<rparr>) k1;
       k3 \<leftarrow> rt_timer_init (ThreadTimer t) (o_name (hdr k2 (OThread t))) (ThreadTimeout t) 0
               RT_TIMER_FLAG_ONE_SHOT k2;
       Some (RT_EOK, k3)
     }"

definition rt_thread_init ::
  "tid \<Rightarrow> u8 list \<Rightarrow> u32 \<Rightarrow> u32 \<Rightarrow> u8 \<Rightarrow> u32 \<Rightarrow> kernel \<Rightarrow> (int \<times> kernel) option" where
  "rt_thread_init t name stack_start stk_size priority ticks k =
     do {
       RT_ASSERT (stack_start \<noteq> 0);
       k1 \<leftarrow> rt_object_init (OThread t) RT_Object_Class_Thread name k;
       rt_thread_init0 t stack_start stk_size priority ticks k1
     }"

definition rt_thread_startup :: "tid \<Rightarrow> kernel \<Rightarrow> (int \<times> kernel) option" where
  "rt_thread_startup t k =
     do {
       RT_ASSERT (stat_of k t = RT_THREAD_INIT);
       RT_ASSERT (rt_object_get_type k (OThread t) = RT_Object_Class_Thread);
       let k1 = upd_thread t (\<lambda>th. th\<lparr>current_priority := init_priority th,
                  number_mask := prio_mask (init_priority th), stat := RT_THREAD_SUSPEND\<rparr>) k;
       (_, k2) \<leftarrow> rt_thread_resume t k1;
       k3 \<leftarrow> (if rt_thread_self k2 \<noteq> None then rt_schedule k2 else Some k2);
       Some (RT_EOK, k3)
     }"

definition rt_thread_exit :: "kernel \<Rightarrow> kernel option" where
  "rt_thread_exit k =
     do {
       t \<leftarrow> rt_thread_self k;
       k1 \<leftarrow> rt_schedule_remove_thread t k;
       let k2 = upd_thread t (\<lambda>th. th\<lparr>stat := RT_THREAD_CLOSE\<rparr>) k1;
       (_, k3) \<leftarrow> rt_timer_detach (ThreadTimer t) k2;
       k4 \<leftarrow> (if rt_object_is_systemobject k3 (OThread t) \<and> \<not> cleanup (threads k3 t)
              then Some (rt_object_detach (OThread t) k3)
              else do { l \<leftarrow> ls_prepend DefunctQ t (thl k3); Some (k3\<lparr>thl := l\<rparr>) });
       rt_schedule k4
     }"

definition rt_thread_detach :: "tid \<Rightarrow> kernel \<Rightarrow> (int \<times> kernel) option" where
  "rt_thread_detach t k =
     do {
       RT_ASSERT (rt_object_get_type k (OThread t) = RT_Object_Class_Thread);
       RT_ASSERT (rt_object_is_systemobject k (OThread t));
       k1 \<leftarrow> (if stat_of k t \<noteq> RT_THREAD_INIT then rt_schedule_remove_thread t k else Some k);
       (_, k2) \<leftarrow> rt_timer_detach (ThreadTimer t) k1;
       let k3 = rt_object_detach (OThread t) (upd_thread t (\<lambda>th. th\<lparr>stat := RT_THREAD_CLOSE\<rparr>) k2);
       (if cleanup (threads k3 t)
        then do { l \<leftarrow> ls_prepend DefunctQ t (thl k3); Some (RT_EOK, k3\<lparr>thl := l\<rparr>) }
        else Some (RT_EOK, k3))
     }"

text \<open>\<open>mem\<close> and \<open>stack\<close> are the results of the two allocations.\<close>

definition rt_thread_create ::
  "u8 list \<Rightarrow> u32 \<Rightarrow> u8 \<Rightarrow> u32 \<Rightarrow> tid option \<Rightarrow> u32 option \<Rightarrow> kernel \<Rightarrow> (tid option \<times> kernel) option" where
  "rt_thread_create name stk_size priority ticks mem stack k =
     do {
       (r, k1) \<leftarrow> rt_object_allocate RT_Object_Class_Thread name (map_option OThread mem) k;
       (case mem of
          None \<Rightarrow> Some (None, k1)
        | Some t \<Rightarrow>
            (case stack of
               None \<Rightarrow> do { k2 \<leftarrow> rt_object_delete (OThread t) k1; Some (None, k2) }
             | Some stack_start \<Rightarrow> do {
                 (_, k2) \<leftarrow> rt_thread_init0 t stack_start stk_size priority ticks k1;
                 Some (Some t, k2)
               }))
     }"

definition rt_thread_delete :: "tid \<Rightarrow> kernel \<Rightarrow> (int \<times> kernel) option" where
  "rt_thread_delete t k =
     do {
       RT_ASSERT (rt_object_get_type k (OThread t) = RT_Object_Class_Thread);
       RT_ASSERT (\<not> rt_object_is_systemobject k (OThread t));
       k1 \<leftarrow> (if stat_of k t \<noteq> RT_THREAD_INIT then rt_schedule_remove_thread t k else Some k);
       (_, k2) \<leftarrow> rt_timer_detach (ThreadTimer t) k1;
       let k3 = upd_thread t (\<lambda>th. th\<lparr>stat := RT_THREAD_CLOSE\<rparr>) k2;
       l \<leftarrow> ls_prepend DefunctQ t (thl k3);
       Some (RT_EOK, k3\<lparr>thl := l\<rparr>)
     }"

definition rt_thread_sleep :: "u32 \<Rightarrow> kernel \<Rightarrow> kernel option" where
  "rt_thread_sleep ticks k =
     do {
       t \<leftarrow> rt_thread_self k;
       RT_ASSERT (rt_object_get_type k (OThread t) = RT_Object_Class_Thread);
       (_, k1) \<leftarrow> rt_thread_suspend t k;
       (_, _, k2) \<leftarrow> rt_timer_control (ThreadTimer t) (CTRL_SET_TIME ticks) k1;
       (_, k3) \<leftarrow> rt_timer_start (ThreadTimer t) k2;
       rt_schedule k3
     }"

definition rt_thread_sleep_return :: "tid \<Rightarrow> kernel \<Rightarrow> int \<times> kernel" where
  "rt_thread_sleep_return t k =
     (RT_EOK, if t_error (threads k t) = - RT_ETIMEOUT
              then upd_thread t (\<lambda>th. th\<lparr>t_error := RT_EOK\<rparr>) k else k)"

definition rt_thread_delay :: "u32 \<Rightarrow> kernel \<Rightarrow> kernel option" where
  "rt_thread_delay ticks k = rt_thread_sleep ticks k"

definition rt_thread_mdelay :: "int \<Rightarrow> kernel \<Rightarrow> kernel option" where
  "rt_thread_mdelay ms k =
     do {
       ticks \<leftarrow> rt_tick_from_millisecond ms;
       rt_thread_sleep (of_int ticks) k
     }"

datatype thread_cmd = CTRL_CHANGE_PRIORITY u8 | CTRL_STARTUP | CTRL_CLOSE | CTRL_NONE

definition change_priority :: "tid \<Rightarrow> u8 \<Rightarrow> kernel \<Rightarrow> kernel" where
  "change_priority t p =
     upd_thread t (\<lambda>th. th\<lparr>current_priority := p, number_mask := prio_mask p\<rparr>)"

definition rt_thread_control :: "tid \<Rightarrow> thread_cmd \<Rightarrow> kernel \<Rightarrow> (int \<times> kernel) option" where
  "rt_thread_control t cmd k =
     do {
       RT_ASSERT (rt_object_get_type k (OThread t) = RT_Object_Class_Thread);
       (case cmd of
          CTRL_CHANGE_PRIORITY p \<Rightarrow>
            if stat_of k t = RT_THREAD_READY
            then do {
              k1 \<leftarrow> rt_schedule_remove_thread t k;
              k2 \<leftarrow> rt_schedule_insert_thread t (change_priority t p k1);
              Some (RT_EOK, k2)
            }
            else Some (RT_EOK, change_priority t p k)
        | CTRL_STARTUP \<Rightarrow> rt_thread_startup t k
        | CTRL_CLOSE \<Rightarrow> rt_thread_delete t k
        | CTRL_NONE \<Rightarrow> Some (RT_EOK, k))
     }"

definition rt_thread_find :: "u8 list \<Rightarrow> kernel \<Rightarrow> (oref option \<times> kernel) option" where
  "rt_thread_find name k =
     do {
       let k1 = (if rt_thread_self k \<noteq> None then rt_enter_critical k else k);
       information \<leftarrow> rt_object_get_information RT_Object_Class_Thread;
       let object = find (\<lambda>r. o_name (hdr k1 r) = name_buf name) (lst (objs k1) information);
       k2 \<leftarrow> (if rt_thread_self k1 \<noteq> None then rt_exit_critical k1 else Some k1);
       Some (object, k2)
     }"

text \<open>One turn of \<^verbatim>\<open>rt_thread_timer_entry\<close> up to its blocking call; \<^verbatim>\<open>rt_soft_timer_check\<close> follows.\<close>

definition rt_thread_timer_entry :: "kernel \<Rightarrow> kernel option" where
  "rt_thread_timer_entry k =
     (let next_timeout = rt_timer_list_next_timeout SoftT k
      in if next_timeout = RT_TICK_MAX
         then do {
           self \<leftarrow> rt_thread_self k;
           (_, k1) \<leftarrow> rt_thread_suspend self k;
           rt_schedule k1
         }
         else if next_timeout - rt_tick_get k < TICK_HALF
         then rt_thread_delay (next_timeout - rt_tick_get k) k
         else Some k)"

definition rt_system_timer_thread_init :: "u32 \<Rightarrow> u32 \<Rightarrow> u8 \<Rightarrow> kernel \<Rightarrow> kernel option" where
  "rt_system_timer_thread_init stack stk_size prio k =
     do {
       let k1 = k\<lparr>tml := (tml k)\<lparr>lst := (lst (tml k))(SoftT := [])\<rparr>\<rparr>;
       (_, k2) \<leftarrow> rt_thread_init (timer_thread k1) [116, 105, 109, 101, 114] stack stk_size prio 10 k1;
       (_, k3) \<leftarrow> rt_thread_startup (timer_thread k1) k2;
       Some k3
     }"

subsection \<open>A new thread\<close>

lemma kinv_fresh:
  assumes inv: "kinv k" and s: "stat_of k' t = RT_THREAD_INIT" "stat_of k t = RT_THREAD_INIT"
    and same: "thl k' = thl k" "ready_group k' = ready_group k" "current k' = current k" "tml k' = tml k"
    and th: "\<And>u. u \<noteq> t \<Longrightarrow> threads k' u = threads k u"
    and hd: "\<And>r. r \<noteq> OThread t \<Longrightarrow> r \<noteq> OTimer (ThreadTimer t) \<Longrightarrow> hdr k' r = hdr k r"
    and tm: "\<And>m. m \<noteq> ThreadTimer t \<Longrightarrow> timers k' m = timers k m"
  shows "kinv k'"
proof -
  note si = kinvD(1) [OF inv]
  note core = sched_inv_core [OF si]
  have ow: "own (thl k) t = None"
  proof -
    have "link_ok (own (thl k) t) 0 (prio_of k t)"
      using core_thread_ok [OF core, of t] s(2) by (simp add: thread_ok_def)
    then show ?thesis by (cases "own (thl k) t") (auto elim: link_ok.elims)
  qed
  have tw: "own (tml k) (ThreadTimer t) = None"
    using kinvD(4) [OF inv, of t] s(2) by (cases "own (tml k) (ThreadTimer t)") auto
  have st: "stat_of k' u = stat_of k u" for u
    using th [of u] s by (cases "u = t") (simp_all add: stat_of_def)
  have "thread_ok k' u" for u
  proof (cases "u = t")
    case True
    then show ?thesis using s ow same by (simp add: thread_ok_def)
  next
    case False
    with core_thread_ok [OF core, of u] thread_ok_cong [of k' u k] same th show ?thesis by simp
  qed
  then have "sched_inv k'"
    using si same by (simp add: sched_inv_def core_except_def cur_ok_def st)
  moreover have "timer_inv k'"
  proof -
    have fl: "timer_flag k' m = timer_flag k m" if "own (tml k) m \<noteq> None" for m
      using that tw hd [of "OTimer m"] by (cases "m = ThreadTimer t") auto
    have "timer_flag k' m AND 1 \<noteq> 0 \<and> q = timer_queue k' m" if o: "own (tml k') m = Some q" for m q
    proof -
      have o': "own (tml k) m = Some q" using o same by simp
      with kinvD(2) [OF inv] have "timer_flag k m AND 1 \<noteq> 0 \<and> q = timer_queue k m"
        unfolding timer_inv_def by blast
      moreover have "timer_flag k' m = timer_flag k m" by (rule fl) (simp add: o')
      ultimately show ?thesis by (simp add: timer_queue_def)
    qed
    then show ?thesis using kinvD(2) [OF inv] same by (simp add: timer_inv_def)
  qed
  moreover have "thread_objs_ok k' u" if "live k' u" for u
  proof -
    have u: "u \<noteq> t" "live k u" using that s by (auto simp: live_def st)
    have "thread_objs_ok k' u = thread_objs_ok k u"
      using u(1) hd tm by (simp add: thread_objs_ok_def rt_object_get_type_def rt_object_is_systemobject_def)
    with kinvD(3) [OF inv u(2)] show ?thesis by simp
  qed
  ultimately show ?thesis using kinvD(4) [OF inv] same by (simp add: kinv_def st)
qed

lemma thread_timer_class: "10 \<in> set object_classes" "1 \<in> set object_classes"
  by (simp_all add: object_classes_def)

text \<open>The stack frame lies inside a stack of at least 72 bytes.\<close>

lemma stack_init_inside:
  assumes "72 \<le> unat n" "unat start + unat n < 2 ^ 32"
  shows "start < rt_hw_stack_init (start + n - 4)" "rt_hw_stack_init (start + n - 4) \<le> start + n"
proof -
  let ?x = "start + n"
  have x: "unat ?x = unat start + unat n" using assms(2) by (simp add: unat_word_ariths)
  have a: "unat (?x AND NOT (mask 3)) = unat ?x - unat ?x mod 8"
    using unat_and_not_mask [of ?x 3] by simp
  have "unat ?x mod 8 \<le> 7" by simp
  have "(64 :: u32) \<le> ?x AND NOT (mask 3)"
    using a x assms(1) by (simp add: word_le_nat_alt)
  then have s: "unat ((?x AND NOT (mask 3)) - 64) = unat ?x - unat ?x mod 8 - 64"
    by (simp add: unat_sub a)
  have e: "rt_hw_stack_init (start + n - 4) = (?x AND NOT (mask 3)) - 64"
    by (simp add: rt_hw_stack_init_def Let_def mask_eq_exp_minus_1)
  show "start < rt_hw_stack_init (start + n - 4)"
    unfolding e word_less_nat_alt s using x assms(1) \<open>unat ?x mod 8 \<le> 7\<close> by linarith
  show "rt_hw_stack_init (start + n - 4) \<le> start + n"
    unfolding e word_le_nat_alt s by simp
qed

text \<open>What \<^verbatim>\<open>rt_thread_init\<close> establishes.\<close>

lemma thread_init_spec:
  assumes inv: "kinv k" and t: "stat_of k t = RT_THREAD_INIT"
    and o: "own (objs k) (OThread t) = None" "own (objs k) (OTimer (ThreadTimer t)) = None"
    and st: "start \<noteq> 0" "72 \<le> unat n" "unat start + unat n < 2 ^ 32"
    and p: "unat p < 32"
  obtains k' where "rt_thread_init t name start n p tk k = Some (RT_EOK, k')" "kinv k'"
    "stat_of k' t = RT_THREAD_INIT" "thread_objs_ok k' t" "init_priority (threads k' t) = p"
    "rt_object_get_type k' (OThread t) = RT_Object_Class_Thread" "stack_ok (threads k' t)"
    "current k' = current k" "\<And>u. u \<noteq> t \<Longrightarrow> threads k' u = threads k u" "lock_nest k' = lock_nest k"
    "init_tick (threads k' t) = tk"
proof -
  note si = kinvD(1) [OF inv]
  have ow: "own (thl k) t = None"
  proof -
    have "link_ok (own (thl k) t) 0 (prio_of k t)"
      using core_thread_ok [OF sched_inv_core [OF si], of t] t by (simp add: thread_ok_def)
    then show ?thesis by (cases "own (thl k) t") (auto elim: link_ok.elims)
  qed
  have tw: "own (tml k) (ThreadTimer t) = None"
    using kinvD(4) [OF inv, of t] t by (cases "own (tml k) (ThreadTimer t)") auto
  note f = stack_init_inside [OF st(2,3)]
  have n0: "n \<noteq> 0" using st(2) by auto
  obtain k' where r: "rt_thread_init t name start n p tk k = Some (RT_EOK, k')" and
    k': "thl k' = thl k" "ready_group k' = ready_group k" "current k' = current k" "tml k' = tml k"
    "lock_nest k' = lock_nest k"
    "\<And>u. u \<noteq> t \<Longrightarrow> threads k' u = threads k u"
    "\<And>r. r \<noteq> OThread t \<Longrightarrow> r \<noteq> OTimer (ThreadTimer t) \<Longrightarrow> hdr k' r = hdr k r"
    "\<And>m. m \<noteq> ThreadTimer t \<Longrightarrow> timers k' m = timers k m"
    "stat (threads k' t) = 0" "init_priority (threads k' t) = p" "init_tick (threads k' t) = tk"
    "stack_ok (threads k' t)"
    "o_type (hdr k' (OThread t)) = 0x81" "o_type (hdr k' (OTimer (ThreadTimer t))) = 0x8a"
    "timer_flag k' (ThreadTimer t) = 0" "timeout_func (timers k' (ThreadTimer t)) = ThreadTimeout t"
    using st(1) o ow tw p n0 f
    by (simp add: rt_thread_init_def rt_thread_init0_def rt_timer_init_def rt_timer_init0_def
        object_init_eq thread_timer_class Let_def stack_ok_def not_le not_less ls_init_def)
  have s': "stat_of k' t = 0" using k'(9) by (simp add: stat_of_def)
  have "kinv k'" by (rule kinv_fresh [OF inv s' t k'(1-4,6-8)])
  moreover have "thread_objs_ok k' t"
    using k'(14-16) k'(13) by (simp add: thread_objs_ok_def rt_object_get_type_def rt_object_is_systemobject_def)
  ultimately show ?thesis
    using that r s' k' by (simp add: rt_object_get_type_def)
qed

lemma prio_mask_eq: "unat p < 32 \<Longrightarrow> prio_mask p = 2 ^ unat p"
  by (simp add: prio_mask_def push_bit_eq_mult)

text \<open>Starting an initialised thread.\<close>

lemma startup_spec:
  assumes inv: "kinv k" and t: "stat_of k t = RT_THREAD_INIT" and ok: "thread_objs_ok k t"
    and p: "unat (init_priority (threads k t)) < 32" and st: "stacks_ok k" "stack_ok (threads k t)"
    and cur: "current k = Some c"
  obtains k1 k' where "rt_thread_startup t k = Some (RT_EOK, k')" "rt_schedule k1 = Some k'"
    "kinv k1" "stacks_ok k1" "current k1 = Some c" "lock_nest k1 = lock_nest k"
    "stat_of k1 = (stat_of k)(t := RT_THREAD_READY)"
    "prio_of k1 t = unat (init_priority (threads k t))"
    "lst (thl k1) (ReadyQ (prio_of k1 t)) = lst (thl k) (ReadyQ (prio_of k1 t)) @ [t]"
    "kinv k'" "rescheduled k1 k'"
proof -
  note si = kinvD(1) [OF inv]
  note core = sched_inv_core [OF si]
  have ct: "c \<noteq> t" using cur_not_ready [OF si cur] t by auto
  define f where "f = (\<lambda>th. th\<lparr>current_priority := init_priority th,
    number_mask := prio_mask (init_priority th), stat := RT_THREAD_SUSPEND\<rparr> :: rt_thread)"
  define k1 where "k1 = upd_thread t f k"
  have sel: "thl k1 = thl k" "ready_group k1 = ready_group k" "current k1 = current k" "tml k1 = tml k"
    "hdr k1 = hdr k" "timers k1 = timers k" "lock_nest k1 = lock_nest k"
    "stat_of k1 u = (if u = t then RT_THREAD_SUSPEND else stat_of k u)"
    "u \<noteq> t \<Longrightarrow> threads k1 u = threads k u"
    "prio_of k1 t = unat (init_priority (threads k t))"
    "number_mask (threads k1 t) = 2 ^ unat (init_priority (threads k t))"
    "stack_ok (threads k1 t) = stack_ok (threads k t)" for u
    using p by (simp_all add: k1_def f_def stat_of_def prio_of_def prio_mask_eq stack_ok_def)
  have ow: "own (thl k) t = None"
  proof -
    have "link_ok (own (thl k) t) 0 (prio_of k t)"
      using core_thread_ok [OF core, of t] t by (simp add: thread_ok_def)
    then show ?thesis by (cases "own (thl k) t") (auto elim: link_ok.elims)
  qed
  have "thread_ok k1 u" for u
  proof (cases "u = t")
    case True
    then show ?thesis using p ow by (simp add: thread_ok_def sel)
  next
    case False
    with core_thread_ok [OF core, of u] thread_ok_cong [of k1 u k] sel show ?thesis by simp
  qed
  then have si1: "sched_inv k1"
    using si by (auto simp: sched_inv_def core_except_def cur_ok_def sel)
  have live1: "live k1 u \<longleftrightarrow> live k u \<or> u = t" for u
    by (simp add: live_def sel t)
  have objs1: "thread_objs_ok k1 u = thread_objs_ok k u" for u
    by (rule thread_objs_ok_cong) (simp_all add: sel)
  have inv1: "kinv k1"
    using si1 kinvD(2) [OF inv] timer_inv_cong [of k1 k] kinvD(3,4) [OF inv] ok
    by (auto simp: kinv_def live1 objs1 sel)
  have s1: "stat_of k1 t = RT_THREAD_SUSPEND" by (simp add: sel)
  from resume_spec [OF inv1 s1] obtain k2 where k2: "rt_thread_resume t k1 = Some (RT_EOK, k2)"
    "kinv k2" "woken t k1 k2" "env_same k1 k2" by blast
  have st1: "stacks_ok k1"
  proof -
    have "stack_ok (threads k1 u)" if "live k1 u" for u
      using that st sel(9) [of u] sel(12) by (cases "u = t") (auto simp: live1 stacks_ok_def)
    then show ?thesis by (simp add: stacks_ok_def)
  qed
  have st2: "stacks_ok k2"
    by (rule stacks_ok_env [OF st1 k2(4)]) (use woken_live [OF k2(3) s1] in simp)
  have w: "stat_of k2 = (stat_of k)(t := RT_THREAD_READY)" "current k2 = Some c"
    using k2(3) cur ct by (auto simp: woken_def sel fun_eq_iff)
  have pr: "prio_of k2 t = prio_of k1 t" by (rule env_sameD(15) [OF k2(4)])
  have nt: "t \<notin> set (lst (thl k) q)" for q using ow ls_wfD [OF core_wf [OF core]] by simp
  have lq: "lst (thl k2) (ReadyQ (prio_of k2 t)) = lst (thl k) (ReadyQ (prio_of k2 t)) @ [t]"
    using k2(3) cur ct nt by (simp add: woken_def sel pr)
  have "current k2 \<noteq> None" using w by simp
  from schedule_kinv [OF k2(2) this st2] obtain k' where
    k': "rt_schedule k2 = Some k'" "kinv k'" "rescheduled k2 k'" by blast
  have res: "rt_thread_startup t k = Some (RT_EOK, k')"
  proof -
    have "upd_thread t (\<lambda>th. th\<lparr>current_priority := init_priority th,
        number_mask := prio_mask (init_priority th), stat := RT_THREAD_SUSPEND\<rparr>) k = k1"
      by (simp add: k1_def f_def)
    then show ?thesis
      using t ok k2(1) k'(1) w(2)
      by (simp add: rt_thread_startup_def thread_objs_ok_def Let_def rt_thread_self_def)
  qed
  show ?thesis
    by (rule that [OF res k'(1) k2(2) st2 w(2) _ w(1) _ lq k'(2,3)])
      (use env_sameD(8) [OF k2(4)] sel pr in simp_all)
qed

end
