(* ===== verification/Thread_Life.thy ===== *)
theory Thread_Life
  imports Thread
begin

text \<open>
  What the thread operations of theory Thread promise: start, sleep, end and change of priority
  keep the kernel invariant and leave a most urgent thread running.
\<close>

subsection \<open>Starting a thread\<close>

lemma schedule_top:
  assumes inv: "kinv k" and st: "stacks_ok k" and cur: "current k = Some c" and lock: "lock_nest k = 0"
    and r: "rt_schedule k = Some k'"
    and some: "stat_of k c = RT_THREAD_RUNNING \<or> (\<exists>t. stat_of k t = RT_THREAD_READY)"
  shows "runs_highest k'"
  using schedule_runs_highest [OF kinvD(1) [OF inv] cur stacks_ready [OF st] lock some] r by auto

text \<open>
  A thread initialised with a priority below 32 and a stack of at least 72 bytes that does
  not wrap the address space, and then started, is ready or running at its priority; both calls
  keep the kernel invariant, and afterwards a most urgent thread runs, so that the new thread
  preempts its creator exactly when its priority is at least as urgent.
\<close>

theorem rt_thread_start_runs:
  assumes inv: "kinv k" and t: "stat_of k t = RT_THREAD_INIT"
    and o: "own (objs k) (OThread t) = None" "own (objs k) (OTimer (ThreadTimer t)) = None"
    and s: "start \<noteq> 0" "72 \<le> unat n" "unat start + unat n < 2 ^ 32" and p: "unat p < 32"
    and st: "stacks_ok k" and cur: "current k = Some c" "stat_of k c = RT_THREAD_RUNNING" "lock_nest k = 0"
  shows "\<exists>k1 k2. rt_thread_init t name start n p tk k = Some (RT_EOK, k1) \<and> kinv k1 \<and>
           rt_thread_startup t k1 = Some (RT_EOK, k2) \<and> kinv k2 \<and> runs_highest k2 \<and>
           prio_of k2 t = unat p \<and>
           (stat_of k2 t = RT_THREAD_RUNNING \<or> stat_of k2 t = RT_THREAD_READY)"
proof -
  have ct: "c \<noteq> t" using cur t by auto
  obtain k1 where k1: "rt_thread_init t name start n p tk k = Some (RT_EOK, k1)" "kinv k1"
    "stat_of k1 t = RT_THREAD_INIT" "thread_objs_ok k1 t" "init_priority (threads k1 t) = p"
    "stack_ok (threads k1 t)" "current k1 = current k" "lock_nest k1 = lock_nest k"
    and th: "\<And>u. u \<noteq> t \<Longrightarrow> threads k1 u = threads k u"
    by (rule thread_init_spec [OF inv t o s p, of name tk]) blast
  have st1: "stacks_ok k1"
  proof -
    have "stack_ok (threads k1 u)" if "live k1 u" for u
      using that st k1(3,6) th [of u] by (cases "u = t") (auto simp: stacks_ok_def live_def stat_of_def)
    then show ?thesis by (simp add: stacks_ok_def)
  qed
  have c1: "current k1 = Some c" using k1(7) cur by simp
  have p1: "unat (init_priority (threads k1 t)) < 32" using k1(5) p by simp
  obtain k2 k3 where k2: "rt_thread_startup t k1 = Some (RT_EOK, k3)" "rt_schedule k2 = Some k3"
    "kinv k2" "stacks_ok k2" "current k2 = Some c" "lock_nest k2 = lock_nest k1"
    "stat_of k2 = (stat_of k1)(t := RT_THREAD_READY)" "prio_of k2 t = unat (init_priority (threads k1 t))"
    "kinv k3" "rescheduled k2 k3"
    by (rule startup_spec [OF k1(2-4) p1 st1 k1(6) c1]) blast
  have rdy: "stat_of k2 c = RT_THREAD_RUNNING"
    using k2(7) ct th [of c] cur(2) by (simp add: stat_of_def)
  have "runs_highest k3"
    by (rule schedule_top [OF k2(3-5) _ k2(2)]) (use k2(6) k1(8) cur rdy in simp_all)
  moreover have "prio_of k3 t = unat p"
    using env_sameD(15) [OF rescheduledD(5) [OF k2(10)]] k2(8) k1(5) by simp
  moreover have "stat_of k3 t = RT_THREAD_RUNNING \<or> stat_of k3 t = RT_THREAD_READY"
    using k2(7,10) unfolding rescheduled_def by (metis fun_upd_same)
  ultimately show ?thesis using k1 k2 by blast
qed

theorem rt_thread_start_runs_witness:
  "\<exists>k1 k2. rt_thread_init 7 [97] 1000 512 3 10 sleep_demo = Some (RT_EOK, k1) \<and>
     rt_thread_startup 7 k1 = Some (RT_EOK, k2) \<and> runs_highest k2 \<and> prio_of k2 7 = 3"
proof -
  have "own (objs sleep_demo) r = None" for r by (simp add: sleep_demo_def timer_demo_def demo_simps)
  then show ?thesis
    using rt_thread_start_runs [OF sleep_demo_kinv _ _ _ _ _ _ _ sleep_demo_stacks sleep_demo_sel(1),
        of 7 1000 512 3 "[97]" 10]
    by (auto simp: sleep_demo_stat demo_stat sleep_demo_sel)
qed

subsection \<open>Sleeping\<close>

lemma sleep_spec:
  assumes inv: "kinv k" and cur: "current k = Some c" and run: "stat_of k c = RT_THREAD_RUNNING"
    and st: "stacks_ok k" and n: "n < TICK_HALF"
  obtains k1 k' where "rt_thread_sleep n k = Some k'" "rt_schedule k1 = Some k'" "kinv k1" "stacks_ok k1"
    "current k1 = Some c" "lock_nest k1 = lock_nest k" "stat_of k1 = (stat_of k)(c := RT_THREAD_SUSPEND)"
    "own (tml k1) (ThreadTimer c) = Some HardT" "timeout_tick (timers k1 (ThreadTimer c)) = tick k + n"
    "kinv k'" "rescheduled k1 k'" "env_same k k'"
proof -
  let ?m = "ThreadTimer c"
  have ok: "thread_objs_ok k c" using kinvD(3) [OF inv] run by (simp add: live_def)
  obtain k1 where k1: "rt_thread_suspend c k = Some (RT_EOK, k1)" "kinv k1" "parked c k k1"
    "env_same k k1" "own (tml k1) = (own (tml k))(?m := None)"
    using suspend_spec [OF inv] run by blast
  define k2 where "k2 = upd_timer ?m (\<lambda>x. x\<lparr>tm_init_tick := n\<rparr>) k1"
  have inv2: "kinv k2" using k1(2) kinv_set_init_tick by (simp add: k2_def)
  have ok1: "thread_objs_ok k1 c" using env_sameD(20) [OF k1(4)] ok by simp
  have ctl: "rt_timer_control ?m (CTRL_SET_TIME n) k1 = Some (None, RT_EOK, k2)"
    using ok1 by (simp add: rt_timer_control_def thread_objs_ok_def k2_def)
  have s2: "stat_of k2 = (stat_of k)(c := RT_THREAD_SUSPEND)" "current k2 = Some c"
    using k1(3) cur by (simp_all add: k2_def parked_def stat_of_def fun_eq_iff)
  define k3 where "k3 = started ?m k2"
  have go: "rt_timer_start ?m k2 = Some (RT_EOK, k3)"
    unfolding k3_def by (rule thread_timer_start [OF inv2]) (use s2 n in \<open>simp_all add: k2_def\<close>)
  have inv3: "kinv k3" unfolding k3_def by (rule kinv_started [OF inv2]) (use s2 in simp)
  have e2: "env_same k1 k2" by (auto simp: env_same_def k2_def thread_se_self)
  have e3: "env_same k k3"
    using env_same_trans [OF env_same_trans [OF k1(4) e2] started_env [of k2 ?m]] by (simp add: k3_def)
  have s3: "stat_of k3 = stat_of k2" "current k3 = Some c"
    using s2 by (simp_all add: k3_def fun_eq_iff)
  have st3: "stacks_ok k3"
    by (rule stacks_ok_env [OF st e3]) (use s2 s3 run in \<open>auto simp: live_def split: if_splits\<close>)
  have "current k3 \<noteq> None" using s3 by simp
  from schedule_kinv [OF inv3 this st3] obtain k' where
    k': "rt_schedule k3 = Some k'" "kinv k'" "rescheduled k3 k'" by blast
  have res: "rt_thread_sleep n k = Some k'"
    using cur ok k1(1) ctl go k'(1)
    by (simp add: rt_thread_sleep_def rt_thread_self_def thread_objs_ok_def)
  have fl: "timer_queue k2 ?m = HardT"
    using kinvD(3) [OF inv2, of c] s2 by (simp add: timer_queue_def live_def thread_objs_ok_def)
  have e': "env_same k k'" by (rule env_same_trans [OF e3 rescheduledD(5) [OF k'(3)]])
  show ?thesis
    by (rule that [OF res k'(1) inv3 st3 s3(2) _ _ _ _ k'(2,3) e'])
      (use s2 s3 env_sameD [OF e3] fl env_sameD(7) [OF k1(4)] in \<open>simp_all add: k3_def k2_def\<close>)
qed

text \<open>
  \<^verbatim>\<open>rt_thread_sleep\<close> from the running thread suspends it with its timer pending at the
  current tick plus the argument (below half the tick range) and hands the processor to a most
  urgent ready thread; the kernel invariant holds.
\<close>

theorem rt_thread_sleep_blocks:
  assumes inv: "kinv k" and st: "stacks_ok k" and cur: "current k = Some c" "stat_of k c = RT_THREAD_RUNNING"
    and n: "n < TICK_HALF" and lock: "lock_nest k = 0" and r: "stat_of k t = RT_THREAD_READY"
  shows "\<exists>k'. rt_thread_sleep n k = Some k' \<and> kinv k' \<and> runs_highest k' \<and>
           stat_of k' c = RT_THREAD_SUSPEND \<and> ThreadTimer c \<in> set (lst (tml k') HardT) \<and>
           timeout_tick (timers k' (ThreadTimer c)) = tick k + n \<and> tick k' = tick k"
proof -
  obtain k1 k' where k': "rt_thread_sleep n k = Some k'" "rt_schedule k1 = Some k'" "kinv k1" "stacks_ok k1"
    "current k1 = Some c" "lock_nest k1 = lock_nest k" "stat_of k1 = (stat_of k)(c := RT_THREAD_SUSPEND)"
    "own (tml k1) (ThreadTimer c) = Some HardT" "timeout_tick (timers k1 (ThreadTimer c)) = tick k + n"
    "kinv k'" "rescheduled k1 k'" "env_same k k'"
    by (rule sleep_spec [OF inv cur st n]) blast
  have "t \<noteq> c" using r cur by auto
  then have rdy: "stat_of k1 t = RT_THREAD_READY" using k'(7) r by simp
  have "runs_highest k'"
    by (rule schedule_top [OF k'(3-5) _ k'(2)]) (use lock k'(6) rdy in auto)
  moreover have "stat_of k' c = RT_THREAD_SUSPEND"
    using rescheduled_stat [OF k'(11), of RT_THREAD_SUSPEND c] k'(7) by simp
  moreover have "ThreadTimer c \<in> set (lst (tml k') HardT)"
    using kinvD(2) [OF k'(10)] k'(8) rescheduledD(1) [OF k'(11)] by (simp add: timer_inv_def ls_wfD)
  moreover have "timeout_tick (timers k' (ThreadTimer c)) = tick k + n"
    using k'(9) rescheduledD(3) [OF k'(11)] by simp
  ultimately show ?thesis using k'(1,10) env_sameD(7) [OF k'(12)] by blast
qed

theorem rt_thread_sleep_blocks_witness:
  "\<exists>k'. rt_thread_sleep 20 sleep_demo = Some k' \<and> stat_of k' 0 = RT_THREAD_SUSPEND \<and>
     timeout_tick (timers k' (ThreadTimer 0)) = 25"
  using rt_thread_sleep_blocks [OF sleep_demo_kinv sleep_demo_stacks sleep_demo_sel(1), of 20 1]
  by (auto simp: sleep_demo_stat demo_stat sleep_demo_sel)

subsection \<open>Ending a thread\<close>

abbreviation (input) closed :: "tid \<Rightarrow> kernel \<Rightarrow> kernel" where
  "closed t \<equiv> upd_thread t (\<lambda>th. th\<lparr>stat := RT_THREAD_CLOSE\<rparr>)"

lemma close_spec:
  assumes inv: "sched_inv k" and t: "stat_of k t \<noteq> RT_THREAD_INIT"
  obtains k1 where "rt_schedule_remove_thread t k = Some k1" "sched_inv (closed t k1)"
    "sched_frame k (closed t k1)" "stat_of (closed t k1) = (stat_of k)(t := RT_THREAD_CLOSE)"
    "own (thl (closed t k1)) t = None" "current (closed t k1) = current k"
    "\<And>q. lst (thl (closed t k1)) q = remove1 t (lst (thl k) q)"
proof -
  note c = sched_inv_core [OF inv]
  have p: "prio_of k t < 32" "number_mask (threads k t) = 2 ^ prio_of k t"
    using core_thread_ok [OF c, of t] t by (auto simp: thread_ok_def)
  from core_remove [OF c t] obtain k1 where
    k1: "rt_schedule_remove_thread t k = Some k1" "core_except {t} k1"
    and f: "k1 = k\<lparr>thl := ls_remove t (thl k), ready_group := ready_group k1\<rparr>" .
  have e: "stat_of k1 u = stat_of k u" "prio_of k1 u = prio_of k u" "threads k1 = threads k"
    "current k1 = current k" "own (thl k1) t = None" for u
    by (subst f, simp add: own_ls_remove)+
  have lq: "lst (thl k1) q = remove1 t (lst (thl k) q)" for q
    by (subst f) (simp add: lst_ls_remove [OF core_wf [OF c]])
  let ?k = "closed t k1"
  have st: "stat_of ?k = (stat_of k)(t := RT_THREAD_CLOSE)"
    by (simp add: stat_of_upd_thread e fun_eq_iff)
  have x: "core_except {t} ?k" by (rule core_except_upd_thread [OF k1(2)])
  have "thread_ok ?k t" using p by (simp add: thread_ok_def st e prio_of_def)
  with x have "core_except {} ?k" by (auto simp: core_except_def)
  moreover have "cur_ok ?k"
    using running_current [OF inv] cur_not_ready [OF inv] by (auto simp: cur_ok_def st e)
  moreover have "sched_frame k ?k"
  proof (rule sched_frame_trans [OF sched_frame_remove [OF k1(1)]])
    show "sched_frame k1 ?k"
      by (rule sched_frameI) (auto intro: exI [of _ RT_THREAD_CLOSE] thread_stat_self)
  qed
  ultimately show ?thesis using that [OF k1(1) _ _ st] e lq by (simp add: sched_inv_def)
qed

lemma kinv_object_detach:
  assumes inv: "kinv k" and t: "\<not> live k t" and r: "r = OThread t \<or> r = OTimer (ThreadTimer t)"
  shows "kinv (rt_object_detach r k)"
proof -
  let ?k = "rt_object_detach r k"
  have s: "thl ?k = thl k" "ready_group ?k = ready_group k" "threads ?k = threads k"
    "current ?k = current k" "tml ?k = tml k" "timers ?k = timers k" "timer_flag ?k m = timer_flag k m"
    "o_type (hdr ?k q) = (if q = r then 0 else o_type (hdr k q))" for m q
    by (auto simp: rt_object_detach_def Let_def)
  have st: "stat_of ?k = stat_of k" by (simp add: stat_of_def s fun_eq_iff)
  have "sched_inv ?k" using kinvD(1) [OF inv] sched_inv_cong [of ?k k] s by simp
  moreover have "timer_inv ?k" using kinvD(2) [OF inv] timer_inv_cong [of ?k k] s by simp
  moreover have "thread_objs_ok ?k u" if "live ?k u" for u
  proof -
    have u: "live k u" using that by (simp add: live_def st)
    with t have "u \<noteq> t" by blast
    with kinvD(3) [OF inv u] r show ?thesis
      by (auto simp: thread_objs_ok_def rt_object_get_type_def rt_object_is_systemobject_def s)
  qed
  ultimately show ?thesis using kinvD(4) [OF inv] by (simp add: kinv_def st s)
qed

lemma kinv_defunct:
  assumes inv: "kinv k" and t: "stat_of k t = RT_THREAD_CLOSE" and o: "own (thl k) t = None"
  obtains l where "ls_prepend DefunctQ t (thl k) = Some l" "kinv (k\<lparr>thl := l\<rparr>)"
    "lst l DefunctQ = t # lst (thl k) DefunctQ"
proof -
  note si = kinvD(1) [OF inv]
  note core = sched_inv_core [OF si]
  define l where "l = (thl k)\<lparr>lst := (lst (thl k))(DefunctQ := t # lst (thl k) DefunctQ),
    own := (own (thl k))(t := Some DefunctQ)\<rparr>"
  have i: "ls_prepend DefunctQ t (thl k) = Some l" by (simp add: ls_insert_eq [OF o] l_def)
  let ?k = "k\<lparr>thl := l\<rparr>"
  have "thread_ok ?k u" for u
    using core_thread_ok [OF core, of u] t by (cases "u = t") (auto simp: thread_ok_def l_def)
  moreover have "lst l (ReadyQ p) = lst (thl k) (ReadyQ p)" for p by (simp add: l_def)
  ultimately have "sched_inv ?k"
    using si ls_insert_wf [OF core_wf [OF core] i] by (simp add: sched_inv_def core_except_def cur_ok_def)
  moreover have "timer_inv ?k" using kinvD(2) [OF inv] timer_inv_cong [of ?k k] by simp
  moreover have "thread_objs_ok ?k u = thread_objs_ok k u" for u by (rule thread_objs_ok_cong) simp_all
  ultimately have "kinv ?k" using kinvD(3,4) [OF inv] by (simp add: kinv_def live_def)
  with i show ?thesis using that by (simp add: l_def)
qed

text \<open>A closed thread gives up its timer.\<close>

lemma close_timer:
  assumes inv: "kinv k" and l: "live k t"
  obtains k1 k2 where "rt_schedule_remove_thread t k = Some k1"
    "rt_timer_detach (ThreadTimer t) (closed t k1) = Some (RT_EOK, k2)"
    "rt_timer_detach (ThreadTimer t) k1 = Some (RT_EOK, rt_object_detach (OTimer (ThreadTimer t)) (rt_timer_remove (ThreadTimer t) k1))"
    "k2 = closed t (rt_object_detach (OTimer (ThreadTimer t)) (rt_timer_remove (ThreadTimer t) k1))"
    "kinv k2" "stat_of k2 = (stat_of k)(t := RT_THREAD_CLOSE)" "own (thl k2) t = None"
    "current k2 = current k" "lock_nest k2 = lock_nest k" "threads k2 t = (threads k t)\<lparr>stat := RT_THREAD_CLOSE\<rparr>"
    "\<And>u. stack_ok (threads k2 u) = stack_ok (threads k u)" "hdr k1 = hdr k"
    "\<And>r. r \<noteq> OTimer (ThreadTimer t) \<Longrightarrow> hdr k2 r = hdr k r"
    "\<And>q. lst (thl k2) q = remove1 t (lst (thl k) q)"
proof -
  let ?m = "ThreadTimer t"
  have ne: "stat_of k t \<noteq> RT_THREAD_INIT" using l by (auto simp: live_def)
  have ok: "thread_objs_ok k t" by (rule kinvD(3) [OF inv l])
  from close_spec [OF kinvD(1) [OF inv] ne] obtain k1 where
    k1: "rt_schedule_remove_thread t k = Some k1" "sched_inv (closed t k1)"
    "sched_frame k (closed t k1)" "stat_of (closed t k1) = (stat_of k)(t := RT_THREAD_CLOSE)"
    "own (thl (closed t k1)) t = None" "current (closed t k1) = current k"
    and lq: "\<And>q. lst (thl (closed t k1)) q = remove1 t (lst (thl k) q)" by blast
  have h1: "hdr k1 = hdr k" "timers k1 = timers k" "tml k1 = tml k" "lock_nest k1 = lock_nest k"
    "threads k1 = threads k"
    by (subst remove_thread_frame [OF k1(1)], simp)+
  define kc where "kc = rt_timer_remove ?m (closed t k1)"
  have invc: "kinv kc"
  proof -
    have "sched_inv kc" using k1(2) sched_inv_cong [of kc "closed t k1"] by (simp add: kc_def)
    moreover have "timer_inv kc"
      using kinvD(2) [OF inv]
      by (auto simp: kc_def timer_inv_def own_ls_remove timer_queue_def h1 split: if_splits)
    moreover have st: "stat_of kc u = (if u = t then RT_THREAD_CLOSE else stat_of k u)" for u
      using k1(4) by (simp add: kc_def fun_eq_iff)
    moreover have "thread_objs_ok kc u = thread_objs_ok k u" for u
      by (rule thread_objs_ok_cong) (simp_all add: kc_def h1)
    moreover have "stat_of k u = RT_THREAD_SUSPEND \<and> u \<noteq> t"
      if "own (tml kc) (ThreadTimer u) \<noteq> None" for u
      using that kinvD(4) [OF inv, of u] by (auto simp: kc_def own_ls_remove h1 split: if_splits)
    ultimately show ?thesis
      using kinvD(3) [OF inv] by (simp add: kinv_def live_def)
  qed
  let ?k2 = "rt_object_detach (OTimer ?m) kc"
  have stc: "stat_of kc = (stat_of k)(t := RT_THREAD_CLOSE)" using k1(4) by (simp add: kc_def fun_eq_iff)
  have "\<not> live kc t" by (simp add: live_def stc)
  then have inv2: "kinv ?k2" using kinv_object_detach [OF invc] by blast
  have d: "rt_timer_detach ?m (closed t k1) = Some (RT_EOK, ?k2)"
    "rt_timer_detach ?m k1 = Some (RT_EOK, rt_object_detach (OTimer ?m) (rt_timer_remove ?m k1))"
    using ok object_type_cong [of k1 k] h1
    by (simp_all add: rt_timer_detach_def thread_objs_ok_def kc_def)
  have eq: "?k2 = closed t (rt_object_detach (OTimer ?m) (rt_timer_remove ?m k1))"
    by (simp add: kc_def rt_object_detach_def rt_timer_remove_def upd_hdr_def upd_thread_def Let_def)
  have sel: "threads ?k2 = threads kc" "thl ?k2 = thl kc" "current ?k2 = current kc" "lock_nest ?k2 = lock_nest kc"
    "stat_of ?k2 = stat_of kc" "\<And>r. r \<noteq> OTimer ?m \<Longrightarrow> hdr ?k2 r = hdr kc r"
    by (simp_all add: rt_object_detach_def Let_def stat_of_def fun_eq_iff)
  show ?thesis
    by (rule that [OF k1(1) d(1,2) eq inv2])
      (use sel stc k1(5,6) h1 lq in \<open>simp_all add: kc_def stack_ok_def\<close>)
qed

lemma thread_objs_same: "thread_objs_ok k t \<Longrightarrow> rt_object_get_type k (OThread t) = RT_Object_Class_Thread"
  by (simp add: thread_objs_ok_def)

text \<open>What closing leaves: no live thread appears, the stacks stay intact.\<close>

lemma closed_stacks:
  assumes st: "stacks_ok k" and s: "stat_of k' = (stat_of k)(t := RT_THREAD_CLOSE)"
    and e: "\<And>u. stack_ok (threads k' u) = stack_ok (threads k u)"
  shows "stacks_ok k'"
  using st by (auto simp: stacks_ok_def live_def s e)

text \<open>
  \<^verbatim>\<open>rt_thread_exit\<close> of the running thread keeps the kernel invariant, closes the thread and
  hands the processor to a most urgent ready thread; a statically initialised thread without
  cleanup function leaves the object container, any other waits on the defunct list.
\<close>

theorem rt_thread_exit_closes:
  assumes inv: "kinv k" and st: "stacks_ok k" and cur: "current k = Some c" "stat_of k c = RT_THREAD_RUNNING"
    and lock: "lock_nest k = 0" and r: "stat_of k u = RT_THREAD_READY"
  shows "\<exists>k'. rt_thread_exit k = Some k' \<and> kinv k' \<and> runs_highest k' \<and> stat_of k' c = RT_THREAD_CLOSE \<and>
           (if rt_object_is_systemobject k (OThread c) \<and> \<not> cleanup (threads k c)
            then o_type (hdr k' (OThread c)) = 0 \<and> own (objs k') (OThread c) = None
            else c \<in> set (lst (thl k') DefunctQ))"
proof -
  have l: "live k c" using cur by (simp add: live_def)
  obtain k1 k2 where k: "rt_schedule_remove_thread c k = Some k1"
    "rt_timer_detach (ThreadTimer c) (closed c k1) = Some (RT_EOK, k2)" "kinv k2"
    "stat_of k2 = (stat_of k)(c := RT_THREAD_CLOSE)" "own (thl k2) c = None" "current k2 = current k"
    "lock_nest k2 = lock_nest k" "threads k2 c = (threads k c)\<lparr>stat := RT_THREAD_CLOSE\<rparr>"
    and sk: "\<And>u. stack_ok (threads k2 u) = stack_ok (threads k u)"
    and h: "\<And>r. r \<noteq> OTimer (ThreadTimer c) \<Longrightarrow> hdr k2 r = hdr k r"
    by (rule close_timer [OF inv l]) blast
  let ?sys = "rt_object_is_systemobject k (OThread c) \<and> \<not> cleanup (threads k c)"
  have sys: "rt_object_is_systemobject k2 (OThread c) \<and> \<not> cleanup (threads k2 c) \<longleftrightarrow> ?sys"
    by (simp add: rt_object_is_systemobject_def h k(8))
  have nl: "\<not> live k2 c" by (simp add: live_def k(4))
  obtain k3 where k3: "(if ?sys then Some (rt_object_detach (OThread c) k2)
              else do { l \<leftarrow> ls_prepend DefunctQ c (thl k2); Some (k2\<lparr>thl := l\<rparr>) }) = Some k3"
    "kinv k3" "threads k3 = threads k2" "current k3 = current k" "lock_nest k3 = lock_nest k"
    "if ?sys then o_type (hdr k3 (OThread c)) = 0 \<and> own (objs k3) (OThread c) = None
     else c \<in> set (lst (thl k3) DefunctQ)"
  proof (cases ?sys)
    case True
    have "kinv (rt_object_detach (OThread c) k2)" using kinv_object_detach [OF k(3) nl] by blast
    then show ?thesis
      by (intro that [of "rt_object_detach (OThread c) k2"])
        (use True k(6,7) in \<open>simp_all add: rt_object_detach_def Let_def own_ls_remove\<close>)
  next
    case False
    have "stat_of k2 c = RT_THREAD_CLOSE" by (simp add: k(4))
    from kinv_defunct [OF k(3) this k(5)] obtain l' where
      "ls_prepend DefunctQ c (thl k2) = Some l'" "kinv (k2\<lparr>thl := l'\<rparr>)"
      "lst l' DefunctQ = c # lst (thl k2) DefunctQ" .
    then show ?thesis
      by (intro that [of "k2\<lparr>thl := l'\<rparr>"]) (use False k(6,7) in auto)
  qed
  have s3: "stat_of k3 = (stat_of k)(c := RT_THREAD_CLOSE)"
    using k(4) k3(3) by (simp add: stat_of_def fun_eq_iff)
  have st3: "stacks_ok k3" by (rule closed_stacks [OF st s3]) (simp add: k3(3) sk)
  have "c \<noteq> u" using r cur by auto
  then have rdy: "stat_of k3 u = RT_THREAD_READY" using r by (simp add: s3)
  have c3: "current k3 = Some c" "current k3 \<noteq> None" using cur k3(4) by simp_all
  from schedule_kinv [OF k3(2) c3(2) st3] obtain k' where
    k': "rt_schedule k3 = Some k'" "kinv k'" "rescheduled k3 k'" by blast
  have res: "rt_thread_exit k = Some k'"
    using k3(1) sys k'(1) k(1,2) cur(1)
    by (simp add: rt_thread_exit_def rt_thread_self_def Let_def cong: if_cong)
  have top: "runs_highest k'"
    by (rule schedule_top [OF k3(2) st3 c3(1) _ k'(1)]) (use lock k3(5) rdy in auto)
  have e: "env_same k3 k'" by (rule rescheduledD(5) [OF k'(3)])
  have "stat_of k' c = RT_THREAD_CLOSE"
    using rescheduled_stat [OF k'(3), of RT_THREAD_CLOSE c] s3 by simp
  moreover have "o_type (hdr k' (OThread c)) = o_type (hdr k3 (OThread c))"
    "objs k' = objs k3" "lst (thl k') DefunctQ = lst (thl k3) DefunctQ"
    using rescheduledD [OF k'(3)] env_sameD(6) [OF e] by simp_all
  ultimately show ?thesis using res k'(2) top k3(6) by auto
qed

theorem rt_thread_exit_closes_witness:
  "\<exists>k'. rt_thread_exit sleep_demo = Some k' \<and> runs_highest k' \<and> stat_of k' 0 = RT_THREAD_CLOSE"
  using rt_thread_exit_closes [OF sleep_demo_kinv sleep_demo_stacks sleep_demo_sel(1), of 1]
  by (auto simp: sleep_demo_stat demo_stat sleep_demo_sel)

text \<open>Detaching a static thread.\<close>

lemma detach_spec:
  assumes inv: "kinv k" and l: "live k t" and sys: "rt_object_is_systemobject k (OThread t)"
  obtains k' where "rt_thread_detach t k = Some (RT_EOK, k')" "kinv k'"
    "stat_of k' = (stat_of k)(t := RT_THREAD_CLOSE)" "o_type (hdr k' (OThread t)) = 0"
    "current k' = current k" "lock_nest k' = lock_nest k" "irq_nest k' = irq_nest k"
    "threads k' t = (threads k t)\<lparr>stat := RT_THREAD_CLOSE\<rparr>"
    "cleanup (threads k t) \<Longrightarrow> lst (thl k') DefunctQ = t # remove1 t (lst (thl k) DefunctQ)"
    "\<And>u. stack_ok (threads k' u) = stack_ok (threads k u)"
proof -
  let ?m = "ThreadTimer t"
  define kd where "kd = (\<lambda>k1. rt_object_detach (OTimer ?m) (rt_timer_remove ?m k1))"
  obtain k1 where k: "rt_schedule_remove_thread t k = Some k1"
    "rt_timer_detach ?m k1 = Some (RT_EOK, kd k1)" "kinv (closed t (kd k1))"
    "stat_of (closed t (kd k1)) = (stat_of k)(t := RT_THREAD_CLOSE)"
    "own (thl (closed t (kd k1))) t = None" "current (closed t (kd k1)) = current k"
    "lock_nest (closed t (kd k1)) = lock_nest k"
    "threads (closed t (kd k1)) t = (threads k t)\<lparr>stat := RT_THREAD_CLOSE\<rparr>"
    and sk: "\<And>u. stack_ok (threads (closed t (kd k1)) u) = stack_ok (threads k u)"
    and lq: "\<And>q. lst (thl (closed t (kd k1))) q = remove1 t (lst (thl k) q)"
    unfolding kd_def by (rule close_timer [OF inv l]) blast
  have irq: "irq_nest (kd k1) = irq_nest k"
    unfolding kd_def by (subst remove_thread_frame [OF k(1)]) (simp add: rt_object_detach_def Let_def)
  let ?k3 = "rt_object_detach (OThread t) (closed t (kd k1))"
  have nl: "\<not> live (closed t (kd k1)) t" unfolding live_def k(4) by simp
  have inv3: "kinv ?k3" using kinv_object_detach [OF k(3) nl] by blast
  have s3: "threads ?k3 = threads (closed t (kd k1))" "thl ?k3 = thl (closed t (kd k1))"
    "current ?k3 = current k" "lock_nest ?k3 = lock_nest k" "irq_nest ?k3 = irq_nest k"
    "o_type (hdr ?k3 (OThread t)) = 0"
    using k(6,7) irq by (simp_all add: rt_object_detach_def Let_def)
  have st3: "stat_of ?k3 = (stat_of k)(t := RT_THREAD_CLOSE)"
    using k(4) s3(1) by (simp add: stat_of_def fun_eq_iff)
  have ne: "stat_of k t \<noteq> RT_THREAD_INIT" using l by (auto simp: live_def)
  have ty: "rt_object_get_type k (OThread t) = RT_Object_Class_Thread"
    by (rule thread_objs_same [OF kinvD(3) [OF inv l]])
  have cl: "cleanup (threads ?k3 t) = cleanup (threads k t)" by (simp only: s3(1) k(8)) simp
  have base: "rt_thread_detach t k =
     (if cleanup (threads k t)
      then do { l \<leftarrow> ls_prepend DefunctQ t (thl ?k3); Some (RT_EOK, ?k3\<lparr>thl := l\<rparr>) }
      else Some (RT_EOK, ?k3))"
    using ty sys ne k(1,2) cl by (simp add: rt_thread_detach_def Let_def)
  show ?thesis
  proof (cases "cleanup (threads k t)")
    case False
    show ?thesis
      by (rule that [of ?k3]) (use False base inv3 s3 st3 k(8) sk in simp_all)
  next
    case True
    have c3: "stat_of ?k3 t = RT_THREAD_CLOSE" "own (thl ?k3) t = None"
      using st3 k(5) s3(2) by simp_all
    from kinv_defunct [OF inv3 c3] obtain l' where l': "ls_prepend DefunctQ t (thl ?k3) = Some l'"
      "kinv (?k3\<lparr>thl := l'\<rparr>)" "lst l' DefunctQ = t # lst (thl ?k3) DefunctQ" .
    have "stat_of (?k3\<lparr>thl := l'\<rparr>) = (stat_of k)(t := RT_THREAD_CLOSE)"
      using st3 by (simp add: fun_eq_iff)
    then show ?thesis
      by (intro that [of "?k3\<lparr>thl := l'\<rparr>"]) (use True base l' s3 k(8) sk lq in simp_all)
  qed
qed

subsection \<open>Changing a priority\<close>

lemma change_priority_sel [simp]:
  "thl (change_priority t p k) = thl k" "ready_group (change_priority t p k) = ready_group k"
  "current (change_priority t p k) = current k" "tml (change_priority t p k) = tml k"
  "hdr (change_priority t p k) = hdr k" "timers (change_priority t p k) = timers k"
  "stat_of (change_priority t p k) u = stat_of k u"
  "prio_of (change_priority t p k) u = (if u = t then unat p else prio_of k u)"
  "u \<noteq> t \<Longrightarrow> threads (change_priority t p k) u = threads k u"
  "number_mask (threads (change_priority t p k) t) = prio_mask p"
  by (simp_all add: change_priority_def stat_of_def prio_of_def)

lemma kinv_same_stat:
  assumes inv: "kinv k" and s: "sched_inv k'" and st: "\<And>u. stat_of k' u = stat_of k u"
    and e: "tml k' = tml k" "hdr k' = hdr k" "timers k' = timers k"
  shows "kinv k'"
proof -
  have "timer_inv k'" using kinvD(2) [OF inv] timer_inv_cong [of k' k] e by simp
  moreover have "thread_objs_ok k' u = thread_objs_ok k u" for u
    by (rule thread_objs_ok_cong) (simp_all add: e)
  ultimately show ?thesis using s kinvD(3,4) [OF inv] by (simp add: kinv_def live_def st e)
qed

lemma change_priority_idle:
  assumes inv: "kinv k" and p: "unat p < 32" and n: "stat_of k t \<noteq> RT_THREAD_READY"
  shows "kinv (change_priority t p k)"
proof (rule kinv_same_stat [OF inv])
  let ?k = "change_priority t p k"
  note core = sched_inv_core [OF kinvD(1) [OF inv]]
  have "link_ok q s x = link_ok q s y" if "s \<noteq> RT_THREAD_READY" for q and s :: u8 and x y
    using that by (cases "(q, s, x)" rule: link_ok.cases) auto
  then have "thread_ok ?k u" for u
    using core_thread_ok [OF core, of u] p n
    by (cases "u = t") (auto simp: thread_ok_def prio_mask_eq)
  then show "sched_inv ?k"
    using kinvD(1) [OF inv] by (simp add: sched_inv_def core_except_def cur_ok_def)
qed simp_all

lemma change_priority_ready:
  assumes inv: "kinv k" and p: "unat p < 32" and n: "stat_of k t = RT_THREAD_READY"
  obtains k1 k2 where "rt_schedule_remove_thread t k = Some k1"
    "rt_schedule_insert_thread t (change_priority t p k1) = Some k2" "kinv k2"
    "\<And>u. stat_of k2 u = stat_of k u" "prio_of k2 t = unat p"
    "\<And>q. lst (thl k2) q = remove1 t (lst (thl k) q) @ (if q = ReadyQ (unat p) then [t] else [])"
proof -
  note si = kinvD(1) [OF inv]
  note core = sched_inv_core [OF si]
  have "stat_of k t \<noteq> RT_THREAD_INIT" using n by simp
  from core_remove [OF core this] obtain k1 where k1: "rt_schedule_remove_thread t k = Some k1"
    "core_except {t} k1" and f: "k1 = k\<lparr>thl := ls_remove t (thl k), ready_group := ready_group k1\<rparr>" .
  have e: "stat_of k1 u = stat_of k u" "prio_of k1 u = prio_of k u" "threads k1 = threads k"
    "current k1 = current k" "thl k1 = ls_remove t (thl k)" "tml k1 = tml k" "hdr k1 = hdr k"
    "timers k1 = timers k" for u
    by (subst f, simp)+
  let ?c = "change_priority t p k1"
  have x: "core_except {t} ?c"
    unfolding change_priority_def by (rule core_except_upd_thread [OF k1(2)])
  have cur: "current ?c \<noteq> Some t" using cur_not_ready [OF si] n by (auto simp: e)
  have pc: "prio_of ?c t < 32" "number_mask (threads ?c t) = 2 ^ prio_of ?c t"
    using p by (simp_all add: prio_mask_eq)
  from core_insert [OF x cur pc] obtain k2 where k2: "rt_schedule_insert_thread t ?c = Some k2"
    "core_except {} k2" and f2: "k2 = (set_stat t RT_THREAD_READY ?c)\<lparr>thl := thl k2, ready_group := ready_group k2\<rparr>"
    and l2: "lst (thl k2) = (lst (thl ?c))(ReadyQ (prio_of ?c t) := lst (thl ?c) (ReadyQ (prio_of ?c t)) @ [t])"
    by blast
  have e2: "stat_of k2 u = stat_of k u" "prio_of k2 t = unat p" "current k2 = current k"
    "tml k2 = tml k" "hdr k2 = hdr k" "timers k2 = timers k" for u
    by (subst f2, simp add: e n)+
  have "cur_ok k2" using si by (simp add: sched_inv_def cur_ok_def e2)
  then have "sched_inv k2" using k2(2) by (simp add: sched_inv_def)
  then have "kinv k2" by (rule kinv_same_stat [OF inv]) (simp_all add: e2)
  then show ?thesis
    by (intro that [OF k1(1) k2(1)])
      (simp_all add: e2 l2 e lst_ls_remove [OF core_wf [OF core]])
qed

text \<open>
  Changing the priority of a started thread to a value below 32 keeps the kernel
  invariant and every thread's state; a ready thread moves to the end of the queue of its new
  priority, any other thread stays where it is linked.
\<close>

theorem rt_thread_control_priority:
  assumes inv: "kinv k" and l: "live k t" and p: "unat p < 32"
  shows "\<exists>k'. rt_thread_control t (CTRL_CHANGE_PRIORITY p) k = Some (RT_EOK, k') \<and> kinv k' \<and>
           (\<forall>u. stat_of k' u = stat_of k u) \<and> prio_of k' t = unat p \<and>
           (\<forall>q. lst (thl k') q =
              (if stat_of k t = RT_THREAD_READY
               then remove1 t (lst (thl k) q) @ (if q = ReadyQ (unat p) then [t] else [])
               else lst (thl k) q))"
proof (cases "stat_of k t = RT_THREAD_READY")
  case True
  from change_priority_ready [OF inv p True] obtain k1 k2 where
    "rt_schedule_remove_thread t k = Some k1"
    "rt_schedule_insert_thread t (change_priority t p k1) = Some k2" "kinv k2"
    "\<And>u. stat_of k2 u = stat_of k u" "prio_of k2 t = unat p"
    "\<And>q. lst (thl k2) q = remove1 t (lst (thl k) q) @ (if q = ReadyQ (unat p) then [t] else [])" by blast
  then show ?thesis
    using True thread_objs_same [OF kinvD(3) [OF inv l]]
    by (intro exI [of _ k2]) (simp add: rt_thread_control_def)
next
  case False
  then show ?thesis
    using change_priority_idle [OF inv p False] thread_objs_same [OF kinvD(3) [OF inv l]]
    by (intro exI [of _ "change_priority t p k"]) (simp add: rt_thread_control_def)
qed

theorem rt_thread_control_priority_witness:
  "\<exists>k'. rt_thread_control 2 (CTRL_CHANGE_PRIORITY 10) sleep_demo = Some (RT_EOK, k') \<and> kinv k' \<and>
     lst (thl k') (ReadyQ 10) = [1, 2]"
  using rt_thread_control_priority [OF sleep_demo_kinv, of 2 10]
  by (auto simp: live_def sleep_demo_stat demo_stat sleep_demo_sel demo_thl)

end
