(* ===== verification/Idle.thy ===== *)
theory Idle
  imports Thread_Life
begin

text \<open>
  \<^verbatim>\<open>rt-thread/src/idle.c\<close>: the idle hooks and \<^verbatim>\<open>rt_thread_idle_excute\<close>, which reclaims the
  threads on the defunct list.  \<open>clean t\<close> is the effect of a thread's cleanup function.  The
  allocator is not called here; what is handed to \<^verbatim>\<open>RT_KERNEL_FREE\<close> is returned: the stack and
  the thread object of each reclaimed thread.
\<close>

subsection \<open>Operations\<close>

text \<open>A hook is a number; the table has \<^verbatim>\<open>RT_IDEL_HOOK_LIST_SIZE\<close> (4) entries.\<close>

fun rt_thread_idle_sethook :: "nat \<Rightarrow> nat option list \<Rightarrow> int \<times> nat option list" where
  "rt_thread_idle_sethook hook [] = (- RT_EFULL, [])"
| "rt_thread_idle_sethook hook (None # hs) = (RT_EOK, Some hook # hs)"
| "rt_thread_idle_sethook hook (Some h # hs) =
     (let (r, hs') = rt_thread_idle_sethook hook hs in (r, Some h # hs'))"

fun rt_thread_idle_delhook :: "nat \<Rightarrow> nat option list \<Rightarrow> int \<times> nat option list" where
  "rt_thread_idle_delhook hook [] = (- RT_ENOSYS, [])"
| "rt_thread_idle_delhook hook (h # hs) =
     (if h = Some hook then (RT_EOK, None # hs)
      else let (r, hs') = rt_thread_idle_delhook hook hs in (r, h # hs'))"

definition has_defunct_thread :: "kernel \<Rightarrow> bool" where
  "has_defunct_thread k \<longleftrightarrow> lst (thl k) DefunctQ \<noteq> []"

partial_function (option) rt_thread_idle_excute ::
  "(tid \<Rightarrow> kernel \<Rightarrow> kernel option) \<Rightarrow> (u32 \<times> oref) list \<Rightarrow> kernel \<Rightarrow> ((u32 \<times> oref) list \<times> kernel) option"
where
  "rt_thread_idle_excute clean freed k =
     (if has_defunct_thread k then
        (if not_in_interrupt k then
           (let t = hd (lst (thl k) DefunctQ);
                k1 = rt_enter_critical (k\<lparr>thl := ls_remove t (thl k)\<rparr>)
            in Option.bind (if cleanup (threads k1 t) then clean t k1 else Some k1) (\<lambda>k2.
               Option.bind (rt_exit_critical k2) (\<lambda>k3.
                 if rt_object_is_systemobject k2 (OThread t) then Some (freed, k3)
                 else Option.bind (rt_object_delete (OThread t) k3) (\<lambda>k4.
                        rt_thread_idle_excute clean (freed @ [(stack_addr (threads k3 t), OThread t)]) k4))))
         else None)
      else Some (freed, k))"

definition rt_thread_idle_init :: "tid \<Rightarrow> u32 \<Rightarrow> kernel \<Rightarrow> (int \<times> kernel) option" where
  "rt_thread_idle_init idle stack k =
     do {
       (_, k1) \<leftarrow> rt_thread_init idle [116, 105, 100, 108, 101, 48] stack 256 31 32 k;
       rt_thread_startup idle k1
     }"

subsection \<open>Hooks\<close>

text \<open>
  Idle hooks: a hook added to a table with a free entry is found and removed again by
  \<^verbatim>\<open>rt_thread_idle_delhook\<close>, which restores the table when the hook was not in it before; a
  full table refuses it with \<^verbatim>\<open>-RT_EFULL\<close> and stays as it is.
\<close>

theorem idle_hook_roundtrip:
  shows "(if None \<in> set hs
          then fst (rt_thread_idle_sethook h hs) = RT_EOK \<and>
               (Some h \<notin> set hs \<longrightarrow>
                  rt_thread_idle_delhook h (snd (rt_thread_idle_sethook h hs)) = (RT_EOK, hs))
          else rt_thread_idle_sethook h hs = (- RT_EFULL, hs))"
  by (induction h hs rule: rt_thread_idle_sethook.induct) (auto split: prod.splits)

theorem idle_hook_roundtrip_witness:
  "rt_thread_idle_delhook 9 (snd (rt_thread_idle_sethook 9 [Some 3, None, None, None])) =
     (RT_EOK, [Some 3, None, None, None])"
  using idle_hook_roundtrip [of "[Some 3, None, None, None]" 9] by simp

subsection \<open>Reclaiming a detached thread\<close>

text \<open>
  A statically initialised thread with a cleanup function that is detached while it is
  not running ends in the allocator: \<^verbatim>\<open>rt_thread_detach\<close> clears its object type before it puts
  the thread on the defunct list, so \<^verbatim>\<open>rt_thread_idle_excute\<close> no longer sees a system object and
  hands its static stack and its static thread object to \<^verbatim>\<open>RT_KERNEL_FREE\<close>.
\<close>

theorem detached_static_thread_is_freed:
  assumes inv: "kinv k" and st: "stacks_ok k" and cur: "current k = Some c" "stat_of k c = RT_THREAD_RUNNING"
    and t: "stat_of k t = RT_THREAD_SUSPEND" and sys: "rt_object_is_systemobject k (OThread t)"
    and cl: "cleanup (threads k t)" and lock: "lock_nest k = 0" and irq: "irq_nest k = 0"
    and e: "lst (thl k) DefunctQ = []"
  shows "\<exists>k1 k2. rt_thread_detach t k = Some (RT_EOK, k1) \<and>
           rt_thread_idle_excute (\<lambda>_. Some) [] k1 = Some ([(stack_addr (threads k t), OThread t)], k2)"
proof -
  have l: "live k t" using t by (simp add: live_def)
  have nd: "t \<notin> set (lst (thl k) DefunctQ)" using e by simp
  have ct: "c \<noteq> t" using cur t by auto
  obtain k1 where k1: "rt_thread_detach t k = Some (RT_EOK, k1)" "kinv k1"
    "stat_of k1 = (stat_of k)(t := RT_THREAD_CLOSE)" "o_type (hdr k1 (OThread t)) = 0"
    "current k1 = current k" "lock_nest k1 = lock_nest k" "irq_nest k1 = irq_nest k"
    "threads k1 t = (threads k t)\<lparr>stat := RT_THREAD_CLOSE\<rparr>" "lst (thl k1) DefunctQ = [t]"
    and sk: "\<And>u. stack_ok (threads k1 u) = stack_ok (threads k u)"
    by (rule detach_spec [OF inv l sys]) (use cl e in auto)
  let ?k2 = "k1\<lparr>thl := ls_remove t (thl k1)\<rparr>"
  note core = sched_inv_core [OF kinvD(1) [OF k1(2)]]
  have si2: "sched_inv ?k2"
  proof -
    have "stat_of k1 t = RT_THREAD_CLOSE" using k1(3) by simp
    then have nr: "t \<notin> set (lst (thl k1) (ReadyQ p))" for p using queued_ready [OF core, of t p] by auto
    have "thread_ok ?k2 u" for u
      using core_thread_ok [OF core, of u] k1(3)
      by (cases "u = t") (simp_all add: thread_ok_def own_ls_remove)
    then show ?thesis
      using kinvD(1) [OF k1(2)] core_wf [OF core] nr
      by (simp add: sched_inv_def core_except_def cur_ok_def lst_ls_remove)
  qed
  have si3: "sched_inv (?k2\<lparr>lock_nest := 0\<rparr>)" using si2 sched_inv_cong [of "?k2\<lparr>lock_nest := 0\<rparr>" ?k2] by simp
  have st3: "ready_stacks_ok (?k2\<lparr>lock_nest := 0\<rparr>)"
    using st k1(3) sk by (auto simp: ready_stacks_ok_def stacks_ok_def live_def split: if_splits)
  have c3: "current (?k2\<lparr>lock_nest := 0\<rparr>) = Some c" using k1(5) cur by simp
  from schedule_rescheduled [OF si3 c3 st3] obtain k3 where
    k3: "rt_schedule (?k2\<lparr>lock_nest := 0\<rparr>) = Some k3" "rescheduled (?k2\<lparr>lock_nest := 0\<rparr>) k3" by blast
  have ex: "rt_exit_critical (rt_enter_critical ?k2) = Some k3"
    using k3(1) k1(6) lock by (simp add: rt_exit_critical_def rt_enter_critical_def)
  have sa: "stack_addr (threads k3 t) = stack_addr (threads k t)"
  proof -
    from rescheduledD(5) [OF k3(2)] obtain s e' where
      "threads k3 t = (threads k1 t)\<lparr>stat := s, t_error := e'\<rparr>"
      unfolding env_same_def by (auto dest: spec [of _ t])
    then show ?thesis using k1(8) by simp
  qed
  have h3: "hdr k3 = hdr k1" using rescheduledD(2) [OF k3(2)] by simp
  let ?k4 = "(upd_hdr (OThread t) (\<lambda>h. h\<lparr>o_type := 0\<rparr>) k3)\<lparr>objs := ls_remove (OThread t) (objs k3)\<rparr>"
  have del: "rt_object_delete (OThread t) k3 = Some ?k4"
    using h3 k1(4) by (simp add: rt_object_delete_def Let_def)
  have "lst (thl ?k4) DefunctQ = []"
    using rescheduledD(6) [OF k3(2), of DefunctQ] k1(9) by (simp add: lst_ls_remove [OF core_wf [OF core]])
  then have last: "rt_thread_idle_excute (\<lambda>_. Some) fr ?k4 = Some (fr, ?k4)" for fr
    by (simp add: rt_thread_idle_excute.simps [of _ _ ?k4] has_defunct_thread_def)
  have nsys: "\<not> rt_object_is_systemobject (rt_enter_critical ?k2) (OThread t)"
    using k1(4) by (simp add: rt_object_is_systemobject_def rt_enter_critical_def)
  have "rt_thread_idle_excute (\<lambda>_. Some) [] k1 = Some ([(stack_addr (threads k t), OThread t)], ?k4)"
    using k1(7,9) irq ex del last nsys sa
    by (subst rt_thread_idle_excute.simps) (simp add: has_defunct_thread_def not_in_interrupt_def Let_def)
  with k1(1) show ?thesis by blast
qed

text \<open>Thread 3 of the sleeping kernel has a cleanup function.\<close>

definition cleanup_demo :: kernel where
  "cleanup_demo = upd_thread 3 (\<lambda>th. th\<lparr>cleanup := True\<rparr>) sleep_demo"

theorem detached_static_thread_is_freed_witness:
  "\<exists>k1 k2. rt_thread_detach 3 cleanup_demo = Some (RT_EOK, k1) \<and>
     rt_thread_idle_excute (\<lambda>_. Some) [] k1 = Some ([(100, OThread 3)], k2)"
proof -
  have st: "stat_of cleanup_demo u = stat_of sleep_demo u" "prio_of cleanup_demo u = prio_of sleep_demo u"
    "number_mask (threads cleanup_demo u) = number_mask (threads sleep_demo u)"
    "stack_ok (threads cleanup_demo u) = stack_ok (threads sleep_demo u)" for u
    by (simp_all add: cleanup_demo_def stat_of_def prio_of_def stack_ok_def)
  have sel: "thl cleanup_demo = thl sleep_demo" "current cleanup_demo = Some 0" "lock_nest cleanup_demo = 0"
    "irq_nest cleanup_demo = 0" "cleanup (threads cleanup_demo 3)"
    "stack_addr (threads cleanup_demo 3) = 100" "hdr cleanup_demo = hdr sleep_demo"
    by (simp_all add: cleanup_demo_def sleep_demo_sel) (simp add: demo_simps)
  have "kinv cleanup_demo"
    using sleep_demo_kinv kinv_cong [of cleanup_demo sleep_demo] st by (simp add: cleanup_demo_def)
  moreover have "stacks_ok cleanup_demo"
    using sleep_demo_stacks by (simp add: stacks_ok_def live_def st)
  moreover have "rt_object_is_systemobject cleanup_demo (OThread 3)"
    by (simp add: rt_object_is_systemobject_def sel(7)) (simp add: sleep_demo_def)
  ultimately show ?thesis
    using detached_static_thread_is_freed [of cleanup_demo 0 3] sel
    by (simp add: st sleep_demo_stat demo_stat sleep_demo_sel demo_thl)
qed

end
