(* ===== verification/Ipc.thy ===== *)
theory Ipc
  imports Idle
begin

text \<open>
  \<^verbatim>\<open>rt-thread/src/ipc.c\<close>, the part all IPC objects share: the suspend lists, and the sequence
  by which a thread goes to wait on one (reset error, suspend and link, arm the timer).

  A call that can block is split at its \<^verbatim>\<open>rt_schedule\<close>.  The first part returns \<open>Some err\<close> when
  the call is over and \<open>None\<close> when the caller has been suspended; the second part is what the
  caller does when it runs again.  Waiting times are \<^verbatim>\<open>rt_int32_t\<close>, taken as \<open>int\<close>.
\<close>

subsection \<open>Operations\<close>

text \<open>Initialising a head that has threads linked would lose them.\<close>

definition rt_ipc_object_init :: "qid \<Rightarrow> kernel \<Rightarrow> (int \<times> kernel) option" where
  "rt_ipc_object_init q k = (if lst (thl k) q = [] then Some (RT_EOK, k) else None)"

definition rt_ipc_list_suspend :: "qid \<Rightarrow> tid \<Rightarrow> u8 \<Rightarrow> kernel \<Rightarrow> (int \<times> kernel) option" where
  "rt_ipc_list_suspend q t flag k =
     do {
       (_, k1) \<leftarrow> rt_thread_suspend t k;
       (if flag = RT_IPC_FLAG_FIFO
        then do { l \<leftarrow> ls_append q t (thl k1); Some (RT_EOK, k1\<lparr>thl := l\<rparr>) }
        else if flag = RT_IPC_FLAG_PRIO
        then do {
          l \<leftarrow> ls_insert (\<lambda>s. current_priority (threads k1 t) < current_priority (threads k1 s))
                 q t (thl k1);
          Some (RT_EOK, k1\<lparr>thl := l\<rparr>)
        }
        else Some (RT_EOK, k1))
     }"

definition rt_ipc_list_resume :: "qid \<Rightarrow> kernel \<Rightarrow> (int \<times> kernel) option" where
  "rt_ipc_list_resume q k =
     (case lst (thl k) q of
        [] \<Rightarrow> None
      | t # _ \<Rightarrow> do { (_, k1) \<leftarrow> rt_thread_resume t k; Some (RT_EOK, k1) })"

partial_function (option) rt_ipc_list_resume_all :: "qid \<Rightarrow> kernel \<Rightarrow> kernel option" where
  "rt_ipc_list_resume_all q k =
     (case lst (thl k) q of
        [] \<Rightarrow> Some k
      | t # _ \<Rightarrow>
          Option.bind (rt_thread_resume t (upd_thread t (\<lambda>th. th\<lparr>t_error := - RT_ERROR\<rparr>) k))
            (\<lambda>(_, k1). rt_ipc_list_resume_all q k1))"

text \<open>
  The waiting sequence of \<^verbatim>\<open>rt_sem_take\<close>, \<^verbatim>\<open>rt_mb_recv\<close> and the other calls, after the error
  reset: link the thread, and arm its timer for a positive time.
\<close>

definition ipc_wait :: "qid \<Rightarrow> tid \<Rightarrow> u8 \<Rightarrow> int \<Rightarrow> kernel \<Rightarrow> kernel option" where
  "ipc_wait q t flag time k =
     do {
       (_, k1) \<leftarrow> rt_ipc_list_suspend q t flag k;
       (if time > 0
        then do {
          (_, _, k2) \<leftarrow> rt_timer_control (ThreadTimer t) (CTRL_SET_TIME (of_int time)) k1;
          (_, k3) \<leftarrow> rt_timer_start (ThreadTimer t) k2;
          Some k3
        }
        else Some k1)
     }"

text \<open>
  The same sequence where the thread is linked by \<^verbatim>\<open>rt_list_insert_before\<close> or
  \<^verbatim>\<open>rt_list_insert_after\<close> without a flag: in front of the first thread that satisfies \<open>before\<close>.
\<close>

definition wait_on :: "(tid \<Rightarrow> bool) \<Rightarrow> qid \<Rightarrow> tid \<Rightarrow> int \<Rightarrow> kernel \<Rightarrow> kernel option" where
  "wait_on before q t time k =
     do {
       (_, k1) \<leftarrow> rt_thread_suspend t k;
       l \<leftarrow> ls_insert before q t (thl k1);
       let k2 = k1\<lparr>thl := l\<rparr>;
       (if time > 0
        then do {
          (_, _, k3) \<leftarrow> rt_timer_control (ThreadTimer t) (CTRL_SET_TIME (of_int time)) k2;
          (_, k4) \<leftarrow> rt_timer_start (ThreadTimer t) k3;
          Some k4
        }
        else Some k2)
     }"

subsection \<open>Waiting\<close>

text \<open>\<open>wait_q q\<close>: \<open>q\<close> is the head of a list of suspended threads.\<close>

fun wait_q :: "qid \<Rightarrow> bool" where
  "wait_q (SuspendQ _) = True"
| "wait_q (SenderQ _) = True"
| "wait_q (CompletionQ _) = True"
| "wait_q (PushQ _) = True"
| "wait_q (PopQ _) = True"
| "wait_q _ = False"

lemma wait_q_link: "wait_q q \<Longrightarrow> link_ok (Some q) RT_THREAD_SUSPEND p"
  by (cases q) auto

lemma wait_q_suspended:
  assumes "kinv k" "wait_q q" "t \<in> set (lst (thl k) q)"
  shows "stat_of k t = RT_THREAD_SUSPEND"
proof -
  note core = sched_inv_core [OF kinvD(1) [OF assms(1)]]
  have "own (thl k) t = Some q" using ls_wfD [OF core_wf [OF core]] assms(3) by blast
  with core_thread_ok [OF core, of t] assms(2) show ?thesis
    by (cases q) (simp_all add: thread_ok_def)
qed

lemma wait_q_not_ready: "wait_q q \<Longrightarrow> q \<noteq> ReadyQ p"
  by (cases q) auto

lemma kinv_link:
  assumes inv: "kinv k" and t: "stat_of k t = RT_THREAD_SUSPEND" and o: "own (thl k) t = None"
    and q: "wait_q q"
  obtains l where "ls_insert P q t (thl k) = Some l" "kinv (k\<lparr>thl := l\<rparr>)"
    "lst l = (lst (thl k))(q := insert_at P t (lst (thl k) q))"
proof -
  note si = kinvD(1) [OF inv]
  note core = sched_inv_core [OF si]
  define l where "l = (thl k)\<lparr>lst := (lst (thl k))(q := insert_at P t (lst (thl k) q)),
    own := (own (thl k))(t := Some q)\<rparr>"
  have i: "ls_insert P q t (thl k) = Some l" by (simp add: ls_insert_eq [OF o] l_def)
  let ?k = "k\<lparr>thl := l\<rparr>"
  have "thread_ok ?k u" for u
    using core_thread_ok [OF core, of u] t wait_q_link [OF q]
    by (cases "u = t") (simp_all add: thread_ok_def l_def)
  moreover have "lst l (ReadyQ p) = lst (thl k) (ReadyQ p)" for p
    using wait_q_not_ready [OF q, of p] by (auto simp: l_def)
  ultimately have "sched_inv ?k"
    using si ls_insert_wf [OF core_wf [OF core] i] by (simp add: sched_inv_def core_except_def cur_ok_def)
  moreover have "timer_inv ?k" using kinvD(2) [OF inv] timer_inv_cong [of ?k k] by simp
  moreover have "thread_objs_ok ?k u = thread_objs_ok k u" for u by (rule thread_objs_ok_cong) simp_all
  ultimately have "kinv ?k" using kinvD(3,4) [OF inv] by (simp add: kinv_def live_def)
  with i show ?thesis using that by (simp add: l_def)
qed

text \<open>The insertion point a flag asks for.\<close>

definition flag_before :: "u8 \<Rightarrow> kernel \<Rightarrow> tid \<Rightarrow> tid \<Rightarrow> bool" where
  "flag_before flag k t s \<longleftrightarrow>
     flag = RT_IPC_FLAG_PRIO \<and> current_priority (threads k t) < current_priority (threads k s)"

text \<open>
  \<open>waiting_on before k c q time k'\<close>: \<open>c\<close> is suspended on \<open>q\<close>, its timer runs iff the time is
  positive, nothing else has moved.
\<close>

definition waiting_on :: "(tid \<Rightarrow> bool) \<Rightarrow> kernel \<Rightarrow> tid \<Rightarrow> qid \<Rightarrow> int \<Rightarrow> kernel \<Rightarrow> bool" where
  "waiting_on before k c q time k' \<longleftrightarrow>
     stat_of k' = (stat_of k)(c := RT_THREAD_SUSPEND) \<and>
     (\<forall>q'. lst (thl k') q' =
        (if q' = q then insert_at before c (lst (thl k) q) else lst (thl k) q')) \<and>
     (if time > 0 then ThreadTimer c \<in> set (lst (tml k') HardT) \<and>
                       timeout_tick (timers k' (ThreadTimer c)) = tick k + of_int time
      else own (tml k') (ThreadTimer c) = None) \<and>
     current k' = current k \<and> (\<forall>u. t_error (threads k' u) = t_error (threads k u))"

lemma timer_control_time:
  assumes inv: "kinv k" and c: "stat_of k c = RT_THREAD_SUSPEND" and n: "n < TICK_HALF"
  obtains k' where
    "rt_timer_control (ThreadTimer c) (CTRL_SET_TIME n) k = Some (None, RT_EOK,
       upd_timer (ThreadTimer c) (\<lambda>x. x\<lparr>tm_init_tick := n\<rparr>) k)"
    "rt_timer_start (ThreadTimer c) (upd_timer (ThreadTimer c) (\<lambda>x. x\<lparr>tm_init_tick := n\<rparr>) k) = Some (RT_EOK, k')"
    "kinv k'" "env_same k k'" "thl k' = thl k" "threads k' = threads k" "current k' = current k"
    "ThreadTimer c \<in> set (lst (tml k') HardT)" "timeout_tick (timers k' (ThreadTimer c)) = tick k + n"
proof -
  let ?m = "ThreadTimer c"
  let ?k1 = "upd_timer ?m (\<lambda>x. x\<lparr>tm_init_tick := n\<rparr>) k"
  have inv1: "kinv ?k1" using inv kinv_set_init_tick by simp
  have ok: "thread_objs_ok k c" using kinvD(3) [OF inv] c by (simp add: live_def)
  have s1: "stat_of ?k1 c = RT_THREAD_SUSPEND" using c by simp
  have st: "rt_timer_start ?m ?k1 = Some (RT_EOK, started ?m ?k1)"
    by (rule thread_timer_start [OF inv1 s1]) (simp add: n)
  have inv2: "kinv (started ?m ?k1)" by (rule kinv_started [OF inv1 s1])
  have q: "timer_queue ?k1 ?m = HardT" using ok by (simp add: timer_queue_def thread_objs_ok_def)
  have e1: "env_same k ?k1" by (auto simp: env_same_def thread_se_self)
  have "own (tml (started ?m ?k1)) ?m = Some HardT" by (simp add: q)
  moreover have "ls_wf (tml (started ?m ?k1))" using kinvD(2) [OF inv2] by (simp only: timer_inv_def)
  ultimately have mem: "?m \<in> set (lst (tml (started ?m ?k1)) HardT)" by (simp only: ls_wfD)
  have ctl: "rt_timer_control ?m (CTRL_SET_TIME n) k = Some (None, RT_EOK, ?k1)"
    using ok by (simp add: rt_timer_control_def thread_objs_ok_def)
  show ?thesis
    by (rule that [OF ctl st inv2 env_same_trans [OF e1 started_env] _ _ _ mem]) simp_all
qed

lemma wait_on_spec:
  assumes inv: "kinv k" and cur: "current k = Some c" and run: "stat_of k c = RT_THREAD_RUNNING"
    and q: "wait_q q" and t: "time < 0x7fffffff"
  obtains k1 k' where "rt_thread_suspend c k = Some (RT_EOK, k1)" "env_same k k1"
    "wait_on before q c time k = Some k'" "kinv k'" "waiting_on before k c q time k'" "env_same k k'"
proof -
  obtain k1 where k1: "rt_thread_suspend c k = Some (RT_EOK, k1)" "kinv k1" "parked c k k1"
    "env_same k k1" "own (tml k1) = (own (tml k))(ThreadTimer c := None)"
    and er: "\<And>u. t_error (threads k1 u) = t_error (threads k u)"
    using suspend_spec [OF inv] run by blast
  note core = sched_inv_core [OF kinvD(1) [OF inv]]
  have cu: "own (thl k) c = None" by (rule running_unlinked [OF core run])
  then have nt: "c \<notin> set (lst (thl k) q')" for q' using ls_wfD [OF core_wf [OF core]] by simp
  have s1: "stat_of k1 c = RT_THREAD_SUSPEND" "own (thl k1) c = None" "lst (thl k1) q' = lst (thl k) q'" for q'
    using k1(3) nt by (simp_all add: parked_def)
  from kinv_link [OF k1(2) s1(1,2) q, of before] obtain l where
    l: "ls_insert before q c (thl k1) = Some l" "kinv (k1\<lparr>thl := l\<rparr>)"
    "lst l = (lst (thl k1))(q := insert_at before c (lst (thl k1) q))" .
  let ?k2 = "k1\<lparr>thl := l\<rparr>"
  have st2: "stat_of ?k2 = (stat_of k)(c := RT_THREAD_SUSPEND)" "current ?k2 = current k"
    using k1(3) by (simp_all add: parked_def fun_eq_iff)
  have e2: "env_same k ?k2"
    by (rule env_same_trans [OF k1(4)]) (simp add: env_same_def thread_se_self)
  have lq: "lst (thl ?k2) q' = (if q' = q then insert_at before c (lst (thl k) q) else lst (thl k) q')" for q'
    using l(3) s1(3) by simp
  show ?thesis
  proof (cases "time > 0")
    case False
    have "own (tml ?k2) (ThreadTimer c) = None" by (simp add: k1(5))
    with False st2 lq er have "waiting_on before k c q time ?k2" by (simp add: waiting_on_def)
    then show ?thesis using that [OF k1(1,4), of ?k2] l k1(1) e2 False by (simp add: wait_on_def)
  next
    case True
    have n: "(of_int time :: u32) < TICK_HALF"
      using True t by (simp add: word_less_def unsigned_of_int take_bit_int_eq_self)
    have c2: "stat_of ?k2 c = RT_THREAD_SUSPEND" using st2 by simp
    from timer_control_time [OF l(2) c2 n] obtain k' where k':
      "rt_timer_control (ThreadTimer c) (CTRL_SET_TIME (of_int time)) ?k2 = Some (None, RT_EOK,
         upd_timer (ThreadTimer c) (\<lambda>x. x\<lparr>tm_init_tick := of_int time\<rparr>) ?k2)"
      "rt_timer_start (ThreadTimer c) (upd_timer (ThreadTimer c) (\<lambda>x. x\<lparr>tm_init_tick := of_int time\<rparr>) ?k2)
         = Some (RT_EOK, k')"
      "kinv k'" "env_same ?k2 k'" "thl k' = thl ?k2" "threads k' = threads ?k2" "current k' = current ?k2"
      "ThreadTimer c \<in> set (lst (tml k') HardT)"
      "timeout_tick (timers k' (ThreadTimer c)) = tick ?k2 + of_int time" .
    have "stat_of k' = stat_of ?k2" by (simp add: stat_of_def k'(6) fun_eq_iff)
    moreover have "tick ?k2 = tick k" using env_sameD(7) [OF e2] .
    ultimately have "waiting_on before k c q time k'"
      using True st2 lq er k' by (simp add: waiting_on_def)
    moreover have "wait_on before q c time k = Some k'"
      using True l(1) k1(1) k'(1,2) by (simp add: wait_on_def)
    ultimately show ?thesis using that [OF k1(1,4)] k'(3) env_same_trans [OF e2 k'(4)] by blast
  qed
qed

text \<open>\<^verbatim>\<open>rt_ipc_list_suspend\<close> is the case of the two flags.\<close>

lemma ipc_wait_eq:
  assumes s: "rt_thread_suspend c k = Some (RT_EOK, k1)" "env_same k k1"
    and fl: "flag = RT_IPC_FLAG_FIFO \<or> flag = RT_IPC_FLAG_PRIO"
  shows "ipc_wait q c flag time k = wait_on (flag_before flag k c) q c time k"
proof -
  have pr: "current_priority (threads k1 u) = current_priority (threads k u)" for u
    by (rule env_sameD(21) [OF s(2)])
  have "flag_before flag k c = (if flag = RT_IPC_FLAG_FIFO then \<lambda>_. False
      else (\<lambda>s. current_priority (threads k1 c) < current_priority (threads k1 s)))"
    using fl by (auto simp: flag_before_def pr fun_eq_iff)
  with fl show ?thesis
    by (cases "ls_insert (flag_before flag k c) q c (thl k1)")
      (auto simp: ipc_wait_def wait_on_def rt_ipc_list_suspend_def s(1))
qed

subsection \<open>Waking\<close>

lemma wait_q_other:
  assumes inv: "kinv k" and q: "t \<in> set (lst (thl k) q)" and "q' \<noteq> q"
  shows "t \<notin> set (lst (thl k) q')"
  using ls_wfD [OF core_wf [OF sched_inv_core [OF kinvD(1) [OF inv]]], of t] assms by simp

lemma woken_lists:
  assumes inv: "kinv k" and w: "woken t k k'" and l: "lst (thl k) q = t # ts" and q: "wait_q q"
  shows "lst (thl k') q = ts"
    and "wait_q q' \<Longrightarrow> q' \<noteq> q \<Longrightarrow> lst (thl k') q' = lst (thl k) q'"
proof -
  note n = wait_q_not_ready
  show "lst (thl k') q = ts" using w l n [OF q] by (simp add: woken_def)
  assume q': "wait_q q'" "q' \<noteq> q"
  have "t \<notin> set (lst (thl k) q')" by (rule wait_q_other [OF inv _ q'(2)]) (simp add: l)
  then show "lst (thl k') q' = lst (thl k) q'" using w n [OF q'(1)] by (simp add: woken_def)
qed

lemma list_resume_spec:
  assumes inv: "kinv k" and q: "wait_q q" and l: "lst (thl k) q = t # ts"
  obtains k' where "rt_ipc_list_resume q k = Some (RT_EOK, k')" "kinv k'" "woken t k k'" "env_same k k'"
    "\<And>u. t_error (threads k' u) = t_error (threads k u)" "lst (thl k') q = ts"
    "\<And>q'. wait_q q' \<Longrightarrow> q' \<noteq> q \<Longrightarrow> lst (thl k') q' = lst (thl k) q'"
    "stat_of k t = RT_THREAD_SUSPEND"
proof -
  have s: "stat_of k t = RT_THREAD_SUSPEND" by (rule wait_q_suspended [OF inv q]) (simp add: l)
  obtain k' where k': "rt_thread_resume t k = Some (RT_EOK, k')" "kinv k'" "woken t k k'" "env_same k k'"
    and er: "\<And>u. t_error (threads k' u) = t_error (threads k u)"
    by (rule resume_spec [OF inv s]) blast
  show ?thesis
    by (rule that [OF _ k'(2-4) er woken_lists(1) [OF inv k'(3) l q] woken_lists(2) [OF inv k'(3) l q] s])
      (simp_all add: rt_ipc_list_resume_def l k'(1))
qed

lemma kinv_set_error: "kinv (upd_thread t (\<lambda>th. th\<lparr>t_error := e\<rparr>) k) = kinv k"
  by (rule kinv_cong) (simp_all add: stat_of_def prio_of_def)

lemma set_error_stat [simp]:
  "stat_of (upd_thread t (\<lambda>th. th\<lparr>t_error := e\<rparr>) k) u = stat_of k u"
  "live (upd_thread t (\<lambda>th. th\<lparr>t_error := e\<rparr>) k) u = live k u"
  by (simp_all add: stat_of_def live_def)

lemma set_error_env: "env_same k (upd_thread t (\<lambda>th. th\<lparr>t_error := e\<rparr>) k)"
proof -
  have "\<exists>s e'. threads (upd_thread t (\<lambda>th. th\<lparr>t_error := e\<rparr>) k) u = (threads k u)\<lparr>stat := s, t_error := e'\<rparr>" for u
    by (cases "u = t") (auto simp: thread_se_self intro!: exI [of _ "stat (threads k t)"] exI [of _ e])
  then show ?thesis by (simp add: env_same_def)
qed

text \<open>\<open>all_woken q k k'\<close>: every thread of \<open>q\<close> has been resumed with error \<^verbatim>\<open>-RT_ERROR\<close>.\<close>

definition all_woken :: "qid \<Rightarrow> kernel \<Rightarrow> kernel \<Rightarrow> bool" where
  "all_woken q k k' \<longleftrightarrow>
     (\<forall>u. stat_of k' u = (if u \<in> set (lst (thl k) q)
            then if current k = Some u then RT_THREAD_RUNNING else RT_THREAD_READY
            else stat_of k u)) \<and>
     (\<forall>u. t_error (threads k' u) = (if u \<in> set (lst (thl k) q) then - RT_ERROR else t_error (threads k u))) \<and>
     lst (thl k') q = [] \<and>
     (\<forall>q'. wait_q q' \<longrightarrow> q' \<noteq> q \<longrightarrow> lst (thl k') q' = lst (thl k) q') \<and>
     current k' = current k \<and> env_same k k'"

lemma resume_all_spec:
  assumes "kinv k" "wait_q q"
  shows "\<exists>k'. rt_ipc_list_resume_all q k = Some k' \<and> kinv k' \<and> all_woken q k k'"
  using assms
proof (induction "lst (thl k) q" arbitrary: k)
  case Nil
  then show ?case
    by (intro exI [of _ k]) (simp add: rt_ipc_list_resume_all.simps [of q k] all_woken_def)
next
  case (Cons t ts)
  note l = Cons.hyps(2) [symmetric] and inv = Cons.prems(1) and q = Cons.prems(2)
  let ?k0 = "upd_thread t (\<lambda>th. th\<lparr>t_error := - RT_ERROR\<rparr>) k"
  have inv0: "kinv ?k0" using inv by (simp add: kinv_set_error)
  have st0: "stat_of ?k0 u = stat_of k u" for u by (simp add: stat_of_def)
  have l0: "lst (thl ?k0) q = t # ts" using l by simp
  have s: "stat_of ?k0 t = RT_THREAD_SUSPEND" by (rule wait_q_suspended [OF inv0 q]) (simp add: l)
  obtain k1 where k1: "rt_thread_resume t ?k0 = Some (RT_EOK, k1)" "kinv k1" "woken t ?k0 k1" "env_same ?k0 k1"
    and er: "\<And>u. t_error (threads k1 u) = t_error (threads ?k0 u)"
    by (rule resume_spec [OF inv0 s]) blast
  note wl = woken_lists [OF inv0 k1(3) l0 q]
  from Cons.hyps(1) [OF wl(1) [symmetric] k1(2) q] obtain k' where
    k': "rt_ipc_list_resume_all q k1 = Some k'" "kinv k'" "all_woken q k1 k'" by blast
  have step: "rt_ipc_list_resume_all q k = Some k'"
    by (subst rt_ipc_list_resume_all.simps) (simp add: l k1(1) k'(1))
  have e: "env_same k k'"
    using env_same_trans [OF env_same_trans [OF set_error_env k1(4)]] k'(3) by (simp add: all_woken_def)
  have d: "t \<notin> set ts"
    using ls_wf_distinct [OF core_wf [OF sched_inv_core [OF kinvD(1) [OF inv]]], of q] l by simp
  have "all_woken q k k'"
    using k'(3) k1(3) wl d er e st0 by (auto simp: all_woken_def woken_def l split: if_splits)
  with step k'(2) show ?case by blast
qed

lemma all_woken_live:
  assumes inv: "kinv k" and q: "wait_q q" and w: "all_woken q k k'"
  shows "live k' u = live k u"
  using w wait_q_suspended [OF inv q, of u] by (auto simp: all_woken_def live_def split: if_splits)

lemma waiting_live: "waiting_on before k c q time k' \<Longrightarrow> stat_of k c = RT_THREAD_RUNNING \<Longrightarrow> live k' u = live k u"
  by (auto simp: waiting_on_def live_def split: if_splits)

subsection \<open>Changing an IPC object\<close>

lemma kinv_ipc_upds [simp]:
  "kinv (k\<lparr>sems := xs\<rparr>) = kinv k" "kinv (k\<lparr>mutexes := xm\<rparr>) = kinv k"
  "kinv (k\<lparr>events := xe\<rparr>) = kinv k" "kinv (k\<lparr>mailboxes := xb\<rparr>) = kinv k"
  "kinv (k\<lparr>mqs := xq\<rparr>) = kinv k" "kinv (k\<lparr>res := xr\<rparr>) = kinv k"
  by (rule kinv_cong; simp)+

lemma live_ipc_upds [simp]:
  "live (k\<lparr>sems := xs\<rparr>) t = live k t" "live (k\<lparr>mutexes := xm\<rparr>) t = live k t"
  "live (k\<lparr>events := xe\<rparr>) t = live k t" "live (k\<lparr>mailboxes := xb\<rparr>) t = live k t"
  "live (k\<lparr>mqs := xq\<rparr>) t = live k t" "live (k\<lparr>res := xr\<rparr>) t = live k t"
  by (simp_all add: live_def)

lemma stacks_ipc_upds [simp]:
  "stacks_ok (k\<lparr>sems := xs\<rparr>) = stacks_ok k" "stacks_ok (k\<lparr>mutexes := xm\<rparr>) = stacks_ok k"
  "stacks_ok (k\<lparr>events := xe\<rparr>) = stacks_ok k" "stacks_ok (k\<lparr>mailboxes := xb\<rparr>) = stacks_ok k"
  "stacks_ok (k\<lparr>mqs := xq\<rparr>) = stacks_ok k" "stacks_ok (k\<lparr>res := xr\<rparr>) = stacks_ok k"
  by (simp_all add: stacks_ok_def)

lemma kinv_set_flag:
  assumes inv: "kinv k" and r: "\<forall>m. r \<noteq> OTimer m"
  shows "kinv (upd_hdr r (\<lambda>h. h\<lparr>o_flag := f\<rparr>) k)"
proof -
  let ?k = "upd_hdr r (\<lambda>h. h\<lparr>o_flag := f\<rparr>) k"
  have r': "OTimer m \<noteq> r" for m using r by blast
  have "sched_inv ?k" using kinvD(1) [OF inv] sched_inv_cong [of ?k k] by simp
  moreover have "timer_inv ?k" using kinvD(2) [OF inv] timer_inv_cong [of ?k k] by (simp add: r')
  moreover have "thread_objs_ok ?k u = thread_objs_ok k u" for u
    by (rule thread_objs_ok_cong) (simp_all add: r')
  ultimately show ?thesis using kinvD(3,4) [OF inv] by (simp add: kinv_def live_def)
qed

text \<open>
  Registering an object that is no thread and no timer keeps the kernel invariant.
\<close>

lemma kinv_object_init:
  assumes inv: "kinv k" and r: "\<forall>t. r \<noteq> OThread t" "\<forall>m. r \<noteq> OTimer m"
    and k': "rt_object_init r type name k = Some k'"
  shows "kinv k'" "thl k' = thl k" "threads k' = threads k" "current k' = current k"
    "sems k' = sems k" "mutexes k' = mutexes k" "events k' = events k" "mailboxes k' = mailboxes k" "mqs k' = mqs k"
    "hdr k' r = (hdr k r)\<lparr>o_type := type OR RT_Object_Class_Static, o_name := name_buf name\<rparr>"
    "q \<noteq> r \<Longrightarrow> hdr k' q = hdr k q"
proof -
  have e: "thl k' = thl k" "threads k' = threads k" "current k' = current k" "ready_group k' = ready_group k"
    "tml k' = tml k" "timers k' = timers k" "sems k' = sems k" "mutexes k' = mutexes k"
    "events k' = events k" "mailboxes k' = mailboxes k" "mqs k' = mqs k"
    "hdr k' = (hdr k)(r := (hdr k r)\<lparr>o_type := type OR RT_Object_Class_Static, o_name := name_buf name\<rparr>)"
    using k' by (auto simp: rt_object_init_def bind_eq_Some_conv)
  show "thl k' = thl k" "threads k' = threads k" "current k' = current k"
    "sems k' = sems k" "mutexes k' = mutexes k" "events k' = events k" "mailboxes k' = mailboxes k" "mqs k' = mqs k"
    "hdr k' r = (hdr k r)\<lparr>o_type := type OR RT_Object_Class_Static, o_name := name_buf name\<rparr>"
    "q \<noteq> r \<Longrightarrow> hdr k' q = hdr k q"
    by (simp_all add: e)
  have "sched_inv k'" using kinvD(1) [OF inv] sched_inv_cong [of k' k] e by simp
  moreover have r': "OTimer m \<noteq> r" "OThread t \<noteq> r" for m t using r by blast+
  then have "timer_inv k'" using kinvD(2) [OF inv] timer_inv_cong [of k' k] e by simp
  moreover have "thread_objs_ok k' u = thread_objs_ok k u" for u
    using r' by (simp add: thread_objs_ok_def rt_object_get_type_def rt_object_is_systemobject_def e)
  ultimately show "kinv k'" using kinvD(3,4) [OF inv] by (simp add: kinv_def live_def stat_of_def e)
qed

text \<open>After a wake-up or a suspension: reschedule, and what is left to say of the waiting lists.\<close>

lemma finish_schedule:
  assumes inv: "kinv k" and st: "stacks_ok k" and cur: "current k = Some c"
  obtains k' where "rt_schedule k = Some k'" "kinv k'" "rescheduled k k'" "env_same k k'" "stacks_ok k'"
    "current k' \<noteq> None"
    "\<And>q. wait_q q \<Longrightarrow> lst (thl k') q = lst (thl k) q"
    "lock_nest k = 0 \<Longrightarrow> stat_of k c = RT_THREAD_RUNNING \<or> (\<exists>t. stat_of k t = RT_THREAD_READY) \<Longrightarrow> runs_highest k'"
    "lock_nest k \<noteq> 0 \<Longrightarrow> k' = k"
proof -
  have "current k \<noteq> None" using cur by simp
  from schedule_kinv [OF inv this st] obtain k' where k': "rt_schedule k = Some k'" "kinv k'"
    "rescheduled k k'" "stacks_ok k'" "current k' \<noteq> None" "lock_nest k \<noteq> 0 \<Longrightarrow> k' = k" by blast
  show ?thesis
    by (rule that [OF k'(1-3) rescheduledD(5) [OF k'(3)] k'(4,5)])
      (use rescheduledD(6) [OF k'(3)] wait_q_not_ready schedule_top [OF inv st cur _ k'(1)] k'(6) in auto)
qed

subsection \<open>Blocking and waking\<close>

text \<open>The blocking branch, shared by all callers: reset the error, wait, reschedule.\<close>

lemma block_on_spec:
  assumes inv: "kinv k" and st: "stacks_ok k" and cur: "current k = Some c" and run: "stat_of k c = RT_THREAD_RUNNING"
    and q: "wait_q q" and t: "time < 0x7fffffff"
  obtains k2 k' where "wait_on before q c time (upd_thread c (\<lambda>th. th\<lparr>t_error := RT_EOK\<rparr>) k) = Some k2"
    "rt_schedule k2 = Some k'" "kinv k'" "env_same k k'" "stacks_ok k'"
    "lst (thl k') q = insert_at before c (lst (thl k) q)"
    "\<And>q'. wait_q q' \<Longrightarrow> q' \<noteq> q \<Longrightarrow> lst (thl k') q' = lst (thl k) q'"
    "stat_of k' c = RT_THREAD_SUSPEND" "t_error (threads k' c) = RT_EOK"
    "if time > 0 then ThreadTimer c \<in> set (lst (tml k') HardT) \<and>
        timeout_tick (timers k' (ThreadTimer c)) = tick k + of_int time
     else own (tml k') (ThreadTimer c) = None"
    "lock_nest k = 0 \<Longrightarrow> stat_of k u = RT_THREAD_READY \<Longrightarrow> runs_highest k'"
    "\<And>v. live k' v = live k v"
    "\<And>v. v \<noteq> c \<Longrightarrow> (stat_of k' v = RT_THREAD_SUSPEND \<longleftrightarrow> stat_of k v = RT_THREAD_SUSPEND) \<and>
        t_error (threads k' v) = t_error (threads k v)"
proof -
  let ?k1 = "upd_thread c (\<lambda>th. th\<lparr>t_error := RT_EOK\<rparr>) k"
  have inv1: "kinv ?k1" using inv by (simp add: kinv_set_error)
  have s1: "current ?k1 = Some c" "stat_of ?k1 c = RT_THREAD_RUNNING" using cur run by (simp_all add: stat_of_def)
  from wait_on_spec [OF inv1 s1 q t, of before] obtain k2 where k2: "wait_on before q c time ?k1 = Some k2" "kinv k2"
    "waiting_on before ?k1 c q time k2" "env_same ?k1 k2" by blast
  have e2: "env_same k k2" by (rule env_same_trans [OF set_error_env k2(4)])
  have st2: "stacks_ok k2"
    by (rule stacks_ok_env [OF st e2])
      (use waiting_live [OF k2(3) s1(2)] in simp)
  have c2: "current k2 = Some c" using k2(3) cur by (simp add: waiting_on_def)
  obtain k' where k': "rt_schedule k2 = Some k'" "kinv k'"
    "rescheduled k2 k'" "env_same k2 k'" "stacks_ok k'"
    and lq: "\<And>q. wait_q q \<Longrightarrow> lst (thl k') q = lst (thl k2) q"
    and top: "lock_nest k2 = 0 \<Longrightarrow> stat_of k2 c = RT_THREAD_RUNNING \<or> (\<exists>t. stat_of k2 t = RT_THREAD_READY) \<Longrightarrow> runs_highest k'"
    by (rule finish_schedule [OF k2(2) st2 c2]) blast
  have w: "stat_of k2 = (stat_of k)(c := RT_THREAD_SUSPEND)"
    using k2(3) by (simp add: waiting_on_def stat_of_def fun_eq_iff)
  have "runs_highest k'" if u: "lock_nest k = 0" "stat_of k u = RT_THREAD_READY"
  proof (rule top)
    show "lock_nest k2 = 0" using env_sameD(8) [OF e2] u(1) by simp
    have "u \<noteq> c" using u(2) run by auto
    then have "stat_of k2 u = RT_THREAD_READY" using u(2) by (simp add: w)
    then show "stat_of k2 c = RT_THREAD_RUNNING \<or> (\<exists>t. stat_of k2 t = RT_THREAD_READY)" by blast
  qed
  moreover have "stat_of k' c = RT_THREAD_SUSPEND"
    using rescheduled_stat [OF k'(3), of RT_THREAD_SUSPEND c] w by simp
  moreover have "t_error (threads k' c) = RT_EOK"
    using rescheduledD(4) [OF k'(3), of c] k2(3) by (simp add: waiting_on_def)
  moreover have "lst (thl k') q = insert_at before c (lst (thl k) q)"
    using lq [OF q] k2(3) by (simp add: waiting_on_def)
  moreover have "lst (thl k') q' = lst (thl k) q'" if "wait_q q'" "q' \<noteq> q" for q'
    using lq [OF that(1)] k2(3) that(2) by (simp add: waiting_on_def)
  moreover have "if time > 0 then ThreadTimer c \<in> set (lst (tml k') HardT) \<and>
        timeout_tick (timers k' (ThreadTimer c)) = tick k + of_int time
     else own (tml k') (ThreadTimer c) = None"
    using k2(3) rescheduledD(1,3) [OF k'(3)] by (simp add: waiting_on_def)
  moreover have "live k' v = live k v" for v
    using rescheduled_live [OF k'(3)] waiting_live [OF k2(3) s1(2)] by simp
  moreover have "(stat_of k' v = RT_THREAD_SUSPEND \<longleftrightarrow> stat_of k v = RT_THREAD_SUSPEND) \<and>
      t_error (threads k' v) = t_error (threads k v)" if "v \<noteq> c" for v
    using that rescheduled_stat [OF k'(3), of RT_THREAD_SUSPEND v] rescheduledD(4) [OF k'(3), of v] k2(3) w
    by (simp add: waiting_on_def)
  ultimately show ?thesis
    using that [OF k2(1) k'(1,2) env_same_trans [OF e2 k'(4)] k'(5)] by blast
qed

lemma block_spec:
  assumes inv: "kinv k" and st: "stacks_ok k" and cur: "current k = Some c" and run: "stat_of k c = RT_THREAD_RUNNING"
    and q: "wait_q q" and fl: "flag = RT_IPC_FLAG_FIFO \<or> flag = RT_IPC_FLAG_PRIO" and t: "time < 0x7fffffff"
  obtains k2 k' where "ipc_wait q c flag time (upd_thread c (\<lambda>th. th\<lparr>t_error := RT_EOK\<rparr>) k) = Some k2"
    "rt_schedule k2 = Some k'" "kinv k'" "env_same k k'" "stacks_ok k'"
    "lst (thl k') q = insert_at (flag_before flag k c) c (lst (thl k) q)"
    "\<And>q'. wait_q q' \<Longrightarrow> q' \<noteq> q \<Longrightarrow> lst (thl k') q' = lst (thl k) q'"
    "stat_of k' c = RT_THREAD_SUSPEND" "t_error (threads k' c) = RT_EOK"
    "if time > 0 then ThreadTimer c \<in> set (lst (tml k') HardT) \<and>
        timeout_tick (timers k' (ThreadTimer c)) = tick k + of_int time
     else own (tml k') (ThreadTimer c) = None"
    "lock_nest k = 0 \<Longrightarrow> stat_of k u = RT_THREAD_READY \<Longrightarrow> runs_highest k'"
    "\<And>v. live k' v = live k v"
    "\<And>v. v \<noteq> c \<Longrightarrow> (stat_of k' v = RT_THREAD_SUSPEND \<longleftrightarrow> stat_of k v = RT_THREAD_SUSPEND) \<and>
        t_error (threads k' v) = t_error (threads k v)"
proof -
  let ?k1 = "upd_thread c (\<lambda>th. th\<lparr>t_error := RT_EOK\<rparr>) k"
  have inv1: "kinv ?k1" using inv by (simp add: kinv_set_error)
  have s1: "current ?k1 = Some c" "stat_of ?k1 c = RT_THREAD_RUNNING" using cur run by (simp_all add: stat_of_def)
  have fb: "flag_before flag ?k1 c = flag_before flag k c" by (simp add: flag_before_def fun_eq_iff)
  from wait_on_spec [OF inv1 s1 q t] obtain k2 where "rt_thread_suspend c ?k1 = Some (RT_EOK, k2)" "env_same ?k1 k2"
    by blast
  from ipc_wait_eq [OF this fl, of q time, unfolded fb] have
    e: "ipc_wait q c flag time ?k1 = wait_on (flag_before flag k c) q c time ?k1" .
  show ?thesis by (rule block_on_spec [OF inv st cur run q t, of "flag_before flag k c" u]) (rule that [unfolded e])
qed

text \<open>Resuming the first waiting thread and rescheduling, shared by the release operations.\<close>

lemma wake_head_spec:
  assumes inv: "kinv k" and st: "stacks_ok k" and cur: "current k = Some c"
    and q: "wait_q q" and l: "lst (thl k) q = t # ts"
  obtains k1 k' where "rt_ipc_list_resume q k = Some (RT_EOK, k1)" "rt_schedule k1 = Some k'" "kinv k'"
    "env_same k k'" "stacks_ok k'" "lst (thl k') q = ts"
    "\<And>q'. wait_q q' \<Longrightarrow> q' \<noteq> q \<Longrightarrow> lst (thl k') q' = lst (thl k) q'"
    "stat_of k' t = RT_THREAD_READY \<or> stat_of k' t = RT_THREAD_RUNNING"
    "\<And>u. t_error (threads k' u) = t_error (threads k u)" "own (tml k') (ThreadTimer t) = None"
    "lock_nest k = 0 \<Longrightarrow> runs_highest k'" "kinv k1" "env_same k k1" "stacks_ok k1" "current k1 = Some c"
    "lst (thl k1) q = ts" "stat_of k t = RT_THREAD_SUSPEND" "\<And>v. live k' v = live k v"
    "\<And>v. v \<noteq> t \<Longrightarrow> stat_of k' v = RT_THREAD_SUSPEND \<longleftrightarrow> stat_of k v = RT_THREAD_SUSPEND"
proof -
  obtain k1 where k1: "rt_ipc_list_resume q k = Some (RT_EOK, k1)" "kinv k1" "woken t k k1" "env_same k k1"
    "lst (thl k1) q = ts" "stat_of k t = RT_THREAD_SUSPEND"
    and er: "\<And>u. t_error (threads k1 u) = t_error (threads k u)"
    and lo: "\<And>q'. wait_q q' \<Longrightarrow> q' \<noteq> q \<Longrightarrow> lst (thl k1) q' = lst (thl k) q'"
    by (rule list_resume_spec [OF inv q l]) blast
  have st1: "stacks_ok k1" by (rule stacks_ok_env [OF st k1(4)]) (use woken_live [OF k1(3,6)] in simp)
  have c1: "current k1 = Some c" using k1(3) cur by (simp add: woken_def)
  obtain k' where k': "rt_schedule k1 = Some k'" "kinv k'" "rescheduled k1 k'" "env_same k1 k'" "stacks_ok k'"
    and lq: "\<And>q. wait_q q \<Longrightarrow> lst (thl k') q = lst (thl k1) q"
    and top: "lock_nest k1 = 0 \<Longrightarrow> stat_of k1 c = RT_THREAD_RUNNING \<or> (\<exists>t. stat_of k1 t = RT_THREAD_READY) \<Longrightarrow> runs_highest k'"
    by (rule finish_schedule [OF k1(2) st1 c1]) blast
  have t1: "stat_of k1 t = RT_THREAD_READY \<or> stat_of k1 t = RT_THREAD_RUNNING" using k1(3) by (simp add: woken_def)
  have n: "own (tml k1) (ThreadTimer t) = None"
    using kinvD(4) [OF k1(2), of t] t1 by (cases "own (tml k1) (ThreadTimer t)") auto
  show ?thesis
  proof (rule that [OF k1(1) k'(1,2) env_same_trans [OF k1(4) k'(4)] k'(5) _ _ _ _ _ _ k1(2,4) st1 c1 k1(5,6) _])
    show "live k' v = live k v" for v
      using rescheduled_live [OF k'(3)] woken_live [OF k1(3,6)] by simp
    show "stat_of k' v = RT_THREAD_SUSPEND \<longleftrightarrow> stat_of k v = RT_THREAD_SUSPEND" if "v \<noteq> t" for v
      using that rescheduled_stat [OF k'(3), of RT_THREAD_SUSPEND v] k1(3) by (simp add: woken_def)
    show "lst (thl k') q = ts" using lq [OF q] k1(5) by simp
    show "lst (thl k') q' = lst (thl k) q'" if "wait_q q'" "q' \<noteq> q" for q'
      using lq [OF that(1)] lo [OF that] by simp
    show "stat_of k' t = RT_THREAD_READY \<or> stat_of k' t = RT_THREAD_RUNNING"
      using t1 k'(3) unfolding rescheduled_def by metis
    show "t_error (threads k' u) = t_error (threads k u)" for u
      using er rescheduledD(4) [OF k'(3)] by simp
    show "own (tml k') (ThreadTimer t) = None" using n rescheduledD(1) [OF k'(3)] by simp
    show "runs_highest k'" if "lock_nest k = 0"
    proof (rule top)
      show "lock_nest k1 = 0" using that env_sameD(8) [OF k1(4)] by simp
      show "stat_of k1 c = RT_THREAD_RUNNING \<or> (\<exists>t. stat_of k1 t = RT_THREAD_READY)"
        using k1(3) cur by (cases "c = t") (auto simp: woken_def)
    qed
  qed
qed

text \<open>
  \<open>moved q k k'\<close>: something has gone in or out, and the first thread waiting on \<open>q\<close>, if any,
  has been resumed.
\<close>

definition moved :: "qid \<Rightarrow> kernel \<Rightarrow> kernel \<Rightarrow> bool" where
  "moved q k k' \<longleftrightarrow>
     current k' \<noteq> None \<and> lock_nest k' = lock_nest k \<and> tick k' = tick k \<and>
     (\<forall>u. t_error (threads k' u) = t_error (threads k u)) \<and>
     (case lst (thl k) q of
        [] \<Rightarrow> thl k' = thl k \<and> threads k' = threads k \<and> current k' = current k
      | t # ts \<Rightarrow> lst (thl k') q = ts \<and> (stat_of k' t = RT_THREAD_READY \<or> stat_of k' t = RT_THREAD_RUNNING) \<and>
          own (tml k') (ThreadTimer t) = None \<and> (lock_nest k = 0 \<longrightarrow> runs_highest k'))"

text \<open>The common end of both directions: resume the head of \<open>q\<close> if there is one, and reschedule.\<close>

lemma wake_end:
  assumes inv: "kinv k1" and st: "stacks_ok k1" and cur: "current k1 = Some c" and q: "wait_q q"
  obtains k' where "kinv k'" "stacks_ok k'" "moved q k1 k'" "env_same k1 k'"
    "lst (thl k1) q = [] \<Longrightarrow> k' = k1"
    "lst (thl k1) q \<noteq> [] \<Longrightarrow> \<exists>k2. rt_ipc_list_resume q k1 = Some (RT_EOK, k2) \<and> rt_schedule k2 = Some k'"
    "\<And>q'. wait_q q' \<Longrightarrow> q' \<noteq> q \<Longrightarrow> lst (thl k') q' = lst (thl k1) q'"
proof (cases "lst (thl k1) q")
  case Nil
  show ?thesis by (rule that [of k1]) (use inv st cur Nil in \<open>simp_all add: moved_def\<close>)
next
  case (Cons t ts)
  obtain k2 k' where k': "rt_ipc_list_resume q k1 = Some (RT_EOK, k2)" "rt_schedule k2 = Some k'" "kinv k'"
    "env_same k1 k'" "stacks_ok k'" "lst (thl k') q = ts"
    "stat_of k' t = RT_THREAD_READY \<or> stat_of k' t = RT_THREAD_RUNNING"
    "own (tml k') (ThreadTimer t) = None" "kinv k2" "stacks_ok k2" "current k2 = Some c"
    and er: "\<And>u. t_error (threads k' u) = t_error (threads k1 u)"
    and lo: "\<And>q'. wait_q q' \<Longrightarrow> q' \<noteq> q \<Longrightarrow> lst (thl k') q' = lst (thl k1) q'"
    and top: "lock_nest k1 = 0 \<Longrightarrow> runs_highest k'"
    by (rule wake_head_spec [OF inv st cur q Cons]) blast
  have "current k2 \<noteq> None" using k'(11) by simp
  from schedule_kinv [OF k'(9) this k'(10)] k'(2) have "current k' \<noteq> None" by auto
  then have "moved q k1 k'"
    using Cons k' er top env_sameD(7,8) [OF k'(4)] by (simp add: moved_def)
  from that [OF k'(3,5) this k'(4)] k'(1,2) Cons lo show ?thesis by auto
qed

subsection \<open>A concrete kernel with IPC objects\<close>

text \<open>The sleeping kernel in which every IPC object is registered; thread 4 waits on semaphore 0.\<close>

definition ipc_demo :: kernel where
  "ipc_demo = sleep_demo\<lparr>
     hdr := (\<lambda>r. \<lparr>o_name = [], o_type = (case r of OThread _ \<Rightarrow> 0x81 | OTimer _ \<Rightarrow> 0x8a | OSem _ \<Rightarrow> 0x82
               | OMutex _ \<Rightarrow> 0x83 | OEvent _ \<Rightarrow> 0x84 | OMailbox _ \<Rightarrow> 0x85 | OMq _ \<Rightarrow> 0x86 | OMempool _ \<Rightarrow> 0x88),
               o_flag = (if r = OTimer (ThreadTimer 4) then RT_TIMER_FLAG_ACTIVATED else 0)\<rparr>)\<rparr>"

lemma ipc_demo_sel: "current ipc_demo = Some 0" "threads ipc_demo = threads demo_kernel"
  "thl ipc_demo = thl demo_kernel" "irq_nest ipc_demo = 0" "lock_nest ipc_demo = 0"
  "tml ipc_demo = tml sleep_demo" "timers ipc_demo = timers sleep_demo" "tick ipc_demo = 5"
  "sems ipc_demo = sems zero_kernel" "mutexes ipc_demo = mutexes zero_kernel"
  "events ipc_demo = events zero_kernel" "mailboxes ipc_demo = mailboxes zero_kernel"
  "mqs ipc_demo = mqs zero_kernel" "res ipc_demo = res zero_kernel" "o_flag (hdr ipc_demo (OSem i)) = 0" "o_flag (hdr ipc_demo (OMutex i)) = 0"
  "o_flag (hdr ipc_demo (OEvent i)) = 0" "o_flag (hdr ipc_demo (OMailbox i)) = 0" "o_flag (hdr ipc_demo (OMq i)) = 0"
  by (simp_all add: ipc_demo_def sleep_demo_sel) (simp_all add: sleep_demo_def timer_demo_def demo_kernel_def)

lemma ipc_demo_stat: "stat_of ipc_demo t = stat_of demo_kernel t" "prio_of ipc_demo t = prio_of demo_kernel t"
  by (simp_all add: stat_of_def prio_of_def ipc_demo_sel)

lemma ipc_demo_type:
  "rt_object_get_type ipc_demo (OSem i) = 2" "rt_object_get_type ipc_demo (OMutex i) = 3"
  "rt_object_get_type ipc_demo (OEvent i) = 4" "rt_object_get_type ipc_demo (OMailbox i) = 5"
  "rt_object_get_type ipc_demo (OMq i) = 6"
  "rt_object_is_systemobject ipc_demo r" "rt_object_get_type ipc_demo (OMempool i) = 8"
  by (simp_all add: ipc_demo_def rt_object_get_type_def rt_object_is_systemobject_def split: oref.splits)

lemma ipc_demo_kinv: "kinv ipc_demo"
proof -
  have "sched_inv ipc_demo"
    using kinvD(1) [OF sleep_demo_kinv] sched_inv_cong [of ipc_demo sleep_demo] by (simp add: ipc_demo_def)
  moreover have "timer_inv ipc_demo"
    using kinvD(2) [OF sleep_demo_kinv] timer_inv_cong [of ipc_demo sleep_demo]
    by (simp add: ipc_demo_def sleep_demo_def)
  moreover have "thread_objs_ok ipc_demo t" for t
    by (simp add: thread_objs_ok_def ipc_demo_def rt_object_get_type_def rt_object_is_systemobject_def)
      (simp add: sleep_demo_def timer_demo_def)
  ultimately show ?thesis
    by (simp add: kinv_def ipc_demo_sel sleep_demo_sel ipc_demo_stat demo_stat)
qed

lemma ipc_demo_stacks: "stacks_ok ipc_demo"
  using sleep_demo_stacks by (simp add: stacks_ok_def live_def ipc_demo_stat sleep_demo_stat ipc_demo_sel sleep_demo_sel)

end
