(* ===== verification/Semaphore.thy ===== *)
theory Semaphore
  imports Ipc
begin

text \<open>
  \<^verbatim>\<open>rt-thread/src/ipc.c\<close>, semaphores, and the counting semaphore they refine: a count and a
  list of waiting threads, of which at most one is non-trivial.
\<close>

subsection \<open>Operations\<close>

definition upd_sem :: "oid \<Rightarrow> (rt_semaphore \<Rightarrow> rt_semaphore) \<Rightarrow> kernel \<Rightarrow> kernel" where
  "upd_sem i f k = k\<lparr>sems := (sems k)(i := f (sems k i))\<rparr>"

definition set_flag :: "oref \<Rightarrow> u8 \<Rightarrow> kernel \<Rightarrow> kernel" where
  "set_flag r f = upd_hdr r (\<lambda>h. h\<lparr>o_flag := f\<rparr>)"

definition rt_sem_init :: "oid \<Rightarrow> u8 list \<Rightarrow> u32 \<Rightarrow> u8 \<Rightarrow> kernel \<Rightarrow> (int \<times> kernel) option" where
  "rt_sem_init i name value flag k =
     do {
       k1 \<leftarrow> rt_object_init (OSem i) RT_Object_Class_Semaphore name k;
       (_, k2) \<leftarrow> rt_ipc_object_init (SuspendQ (OSem i)) k1;
       Some (RT_EOK, set_flag (OSem i) flag (upd_sem i (\<lambda>s. s\<lparr>s_value := ucast value\<rparr>) k2))
     }"

definition rt_sem_detach :: "oid \<Rightarrow> kernel \<Rightarrow> (int \<times> kernel) option" where
  "rt_sem_detach i k =
     do {
       RT_ASSERT (rt_object_get_type k (OSem i) = RT_Object_Class_Semaphore);
       RT_ASSERT (rt_object_is_systemobject k (OSem i));
       k1 \<leftarrow> rt_ipc_list_resume_all (SuspendQ (OSem i)) k;
       Some (RT_EOK, rt_object_detach (OSem i) k1)
     }"

definition rt_sem_create ::
  "u8 list \<Rightarrow> u32 \<Rightarrow> u8 \<Rightarrow> oid option \<Rightarrow> kernel \<Rightarrow> (oid option \<times> kernel) option" where
  "rt_sem_create name value flag mem k =
     do {
       RT_ASSERT (not_in_interrupt k);
       (_, k1) \<leftarrow> rt_object_allocate RT_Object_Class_Semaphore name (map_option OSem mem) k;
       (case mem of
          None \<Rightarrow> Some (None, k1)
        | Some i \<Rightarrow> do {
            (_, k2) \<leftarrow> rt_ipc_object_init (SuspendQ (OSem i)) k1;
            Some (Some i, set_flag (OSem i) flag (upd_sem i (\<lambda>s. s\<lparr>s_value := ucast value\<rparr>) k2))
          })
     }"

definition rt_sem_delete :: "oid \<Rightarrow> kernel \<Rightarrow> (int \<times> kernel) option" where
  "rt_sem_delete i k =
     do {
       RT_ASSERT (not_in_interrupt k);
       RT_ASSERT (rt_object_get_type k (OSem i) = RT_Object_Class_Semaphore);
       RT_ASSERT (\<not> rt_object_is_systemobject k (OSem i));
       k1 \<leftarrow> rt_ipc_list_resume_all (SuspendQ (OSem i)) k;
       k2 \<leftarrow> rt_object_delete (OSem i) k1;
       Some (RT_EOK, k2)
     }"

definition rt_sem_take :: "oid \<Rightarrow> int \<Rightarrow> kernel \<Rightarrow> (int option \<times> kernel) option" where
  "rt_sem_take i time k =
     do {
       RT_ASSERT (rt_object_get_type k (OSem i) = RT_Object_Class_Semaphore);
       (if s_value (sems k i) > 0
        then Some (Some RT_EOK, upd_sem i (\<lambda>s. s\<lparr>s_value := s_value s - 1\<rparr>) k)
        else if time = 0 then Some (Some (- RT_ETIMEOUT), k)
        else do {
          RT_ASSERT (in_thread_context k);
          t \<leftarrow> rt_thread_self k;
          let k1 = upd_thread t (\<lambda>th. th\<lparr>t_error := RT_EOK\<rparr>) k;
          k2 \<leftarrow> ipc_wait (SuspendQ (OSem i)) t (o_flag (hdr k1 (OSem i))) time k1;
          k3 \<leftarrow> rt_schedule k2;
          Some (None, k3)
        })
     }"

definition rt_sem_take_return :: "tid \<Rightarrow> kernel \<Rightarrow> int" where
  "rt_sem_take_return t k =
     (if t_error (threads k t) \<noteq> RT_EOK then t_error (threads k t) else RT_EOK)"

definition rt_sem_trytake :: "oid \<Rightarrow> kernel \<Rightarrow> (int option \<times> kernel) option" where
  "rt_sem_trytake i k = rt_sem_take i 0 k"

definition rt_sem_release :: "oid \<Rightarrow> kernel \<Rightarrow> (int \<times> kernel) option" where
  "rt_sem_release i k =
     do {
       RT_ASSERT (rt_object_get_type k (OSem i) = RT_Object_Class_Semaphore);
       (if lst (thl k) (SuspendQ (OSem i)) \<noteq> []
        then do {
          (_, k1) \<leftarrow> rt_ipc_list_resume (SuspendQ (OSem i)) k;
          k2 \<leftarrow> rt_schedule k1;
          Some (RT_EOK, k2)
        }
        else Some (RT_EOK, upd_sem i (\<lambda>s. s\<lparr>s_value := s_value s + 1\<rparr>) k))
     }"

definition rt_sem_control :: "oid \<Rightarrow> nat \<Rightarrow> u32 \<Rightarrow> kernel \<Rightarrow> (int \<times> kernel) option" where
  "rt_sem_control i cmd value k =
     do {
       RT_ASSERT (rt_object_get_type k (OSem i) = RT_Object_Class_Semaphore);
       (if cmd = RT_IPC_CMD_RESET
        then do {
          k1 \<leftarrow> rt_ipc_list_resume_all (SuspendQ (OSem i)) k;
          k2 \<leftarrow> rt_schedule (upd_sem i (\<lambda>s. s\<lparr>s_value := ucast value\<rparr>) k1);
          Some (RT_EOK, k2)
        }
        else Some (- RT_ERROR, k))
     }"

subsection \<open>The counting semaphore\<close>

text \<open>\<open>sem_p before c\<close> takes for thread \<open>c\<close>, who waits in front of the threads \<open>before\<close> selects.\<close>

fun sem_p :: "(tid \<Rightarrow> bool) \<Rightarrow> tid \<Rightarrow> nat \<times> tid list \<Rightarrow> nat \<times> tid list" where
  "sem_p before c (Suc n, ts) = (n, ts)"
| "sem_p before c (0, ts) = (0, insert_at before c ts)"

fun sem_v :: "nat \<times> tid list \<Rightarrow> nat \<times> tid list" where
  "sem_v (n, []) = (n + 1, [])"
| "sem_v (n, t # ts) = (n, ts)"

definition sem_abs :: "kernel \<Rightarrow> oid \<Rightarrow> nat \<times> tid list" where
  "sem_abs k i = (unat (s_value (sems k i)), lst (thl k) (SuspendQ (OSem i)))"

definition sem_ok :: "kernel \<Rightarrow> oid \<Rightarrow> bool" where
  "sem_ok k i \<longleftrightarrow>
     rt_object_get_type k (OSem i) = RT_Object_Class_Semaphore \<and>
     (o_flag (hdr k (OSem i)) = RT_IPC_FLAG_FIFO \<or> o_flag (hdr k (OSem i)) = RT_IPC_FLAG_PRIO) \<and>
     (fst (sem_abs k i) > 0 \<longrightarrow> snd (sem_abs k i) = [])"

lemma upd_sem_sel [simp]:
  "kinv (upd_sem i f k) = kinv k" "stacks_ok (upd_sem i f k) = stacks_ok k" "thl (upd_sem i f k) = thl k"
  "hdr (upd_sem i f k) = hdr k" "threads (upd_sem i f k) = threads k" "current (upd_sem i f k) = current k"
  "lock_nest (upd_sem i f k) = lock_nest k" "irq_nest (upd_sem i f k) = irq_nest k"
  "tml (upd_sem i f k) = tml k" "timers (upd_sem i f k) = timers k" "tick (upd_sem i f k) = tick k"
  "stat_of (upd_sem i f k) t = stat_of k t" "prio_of (upd_sem i f k) t = prio_of k t"
  "sems (upd_sem i f k) = (sems k)(i := f (sems k i))"
  "rt_object_get_type (upd_sem i f k) r = rt_object_get_type k r"
  by (simp_all add: upd_sem_def rt_object_get_type_def)

lemma sem_ok_env:
  assumes "sem_ok k i" "env_same k k'" "lst (thl k') (SuspendQ (OSem i)) = lst (thl k) (SuspendQ (OSem i))"
  shows "sem_ok k' i" "sem_abs k' i = sem_abs k i"
  using assms env_sameD(14) [OF assms(2), of "OSem i"]
  by (simp_all add: sem_ok_def sem_abs_def env_sameD(1,11) [OF assms(2)])

lemma waiter_list_flag:
  "flag_before (o_flag (hdr k (OSem i))) k c = (\<lambda>s. o_flag (hdr k (OSem i)) = RT_IPC_FLAG_PRIO \<and>
     current_priority (threads k c) < current_priority (threads k s))"
  by (simp add: flag_before_def fun_eq_iff)

text \<open>
  C4.  \<^verbatim>\<open>rt_sem_take\<close> by the running thread refines taking from a counting semaphore on every
  branch: a positive count is decremented; with no count and no waiting time the call returns
  \<^verbatim>\<open>-RT_ETIMEOUT\<close> and changes nothing; otherwise the caller is suspended on the semaphore's list
  (at the end, or by priority, as the flag says), its error reset, its timer armed exactly for
  a positive time, and a most urgent ready thread runs.
\<close>

theorem rt_sem_take_refines:
  assumes inv: "kinv k" and st: "stacks_ok k" and cur: "current k = Some c" "stat_of k c = RT_THREAD_RUNNING"
    and ok: "sem_ok k i" and irq: "irq_nest k = 0" and lock: "lock_nest k = 0" and t: "time < 0x7fffffff"
    and idle: "stat_of k u = RT_THREAD_READY"
  shows "\<exists>r k'. rt_sem_take i time k = Some (r, k') \<and> kinv k' \<and> sem_ok k' i \<and>
     (if fst (sem_abs k i) > 0
      then r = Some RT_EOK \<and> threads k' = threads k \<and> thl k' = thl k
      else if time = 0 then r = Some (- RT_ETIMEOUT) \<and> k' = k
      else r = None \<and> stat_of k' c = RT_THREAD_SUSPEND \<and> t_error (threads k' c) = RT_EOK \<and> runs_highest k' \<and>
           (if time > 0 then ThreadTimer c \<in> set (lst (tml k') HardT) \<and>
                             timeout_tick (timers k' (ThreadTimer c)) = tick k + of_int time
            else own (tml k') (ThreadTimer c) = None)) \<and>
     (fst (sem_abs k i) > 0 \<or> time \<noteq> 0 \<longrightarrow>
        sem_abs k' i = sem_p (flag_before (o_flag (hdr k (OSem i))) k c) c (sem_abs k i))"
proof (cases "s_value (sems k i) > 0")
  case True
  then have pos: "unat (s_value (sems k i)) > 0" by (simp add: unat_gt_0)
  then obtain n where n: "unat (s_value (sems k i)) = Suc n" by (cases "unat (s_value (sems k i))") auto
  then have d: "unat (s_value (sems k i) - 1) = n" using True by (simp add: unat_minus_one)
  let ?k = "upd_sem i (\<lambda>s. s\<lparr>s_value := s_value s - 1\<rparr>) k"
  have "rt_sem_take i time k = Some (Some RT_EOK, ?k)"
    using True ok by (simp add: rt_sem_take_def sem_ok_def)
  with inv ok n d pos show ?thesis
    by (intro exI [of _ "Some RT_EOK"] exI [of _ ?k]) (simp add: sem_ok_def sem_abs_def)
next
  case False
  then have z: "s_value (sems k i) = 0" by (simp add: word_gt_0)
  show ?thesis
  proof (cases "time = 0")
    case True
    then show ?thesis using z inv ok
      by (intro exI [of _ "Some (- RT_ETIMEOUT)"] exI [of _ k]) (simp add: rt_sem_take_def sem_ok_def sem_abs_def)
  next
    case False
    let ?q = "SuspendQ (OSem i)" and ?f = "o_flag (hdr k (OSem i))"
    have fl: "?f = RT_IPC_FLAG_FIFO \<or> ?f = RT_IPC_FLAG_PRIO" using ok by (simp add: sem_ok_def)
    have wq: "wait_q ?q" by simp
    obtain k2 k' where b: "ipc_wait ?q c ?f time (upd_thread c (\<lambda>th. th\<lparr>t_error := RT_EOK\<rparr>) k) = Some k2"
      "rt_schedule k2 = Some k'" "kinv k'" "env_same k k'"
      "lst (thl k') ?q = insert_at (flag_before ?f k c) c (lst (thl k) ?q)"
      "stat_of k' c = RT_THREAD_SUSPEND" "t_error (threads k' c) = RT_EOK"
      "if time > 0 then ThreadTimer c \<in> set (lst (tml k') HardT) \<and>
          timeout_tick (timers k' (ThreadTimer c)) = tick k + of_int time
       else own (tml k') (ThreadTimer c) = None" "runs_highest k'"
      by (rule block_spec [OF inv st cur wq fl t, where u = u]) (use lock idle in blast)
    have res: "rt_sem_take i time k = Some (None, k')"
      using False z ok cur irq b(1,2)
      by (simp add: rt_sem_take_def sem_ok_def in_thread_context_def not_in_interrupt_def rt_thread_self_def)
    have a: "sem_abs k i = (0, lst (thl k) ?q)" by (simp add: sem_abs_def z)
    have a': "sem_abs k' i = (0, insert_at (flag_before ?f k c) c (lst (thl k) ?q))"
      using env_sameD(1) [OF b(4)] z b(5) by (simp add: sem_abs_def)
    have "sem_ok k' i"
      using ok a' env_sameD(11) [OF b(4), of "OSem i"] env_sameD(14) [OF b(4), of "OSem i"]
      by (simp add: sem_ok_def)
    with res a a' b False show ?thesis
      by (intro exI [of _ "None"] exI [of _ k']) simp
  qed
qed

theorem rt_sem_take_refines_witness:
  "\<exists>k'. rt_sem_take 0 20 ipc_demo = Some (None, k') \<and> sem_abs k' 0 = (0, [4, 0]) \<and>
     timeout_tick (timers k' (ThreadTimer 0)) = 25"
proof -
  have a: "sem_abs ipc_demo 0 = (0, [4])"
    by (simp add: sem_abs_def ipc_demo_sel demo_thl) (simp add: zero_kernel_def)
  have "sem_ok ipc_demo 0" by (simp add: sem_ok_def a ipc_demo_type ipc_demo_sel)
  moreover have "(of_int 20 :: u32) = 20" by simp
  ultimately show ?thesis
    using rt_sem_take_refines [OF ipc_demo_kinv ipc_demo_stacks ipc_demo_sel(1), of 0 20 1]
    by (auto simp: a ipc_demo_stat demo_stat ipc_demo_sel flag_before_def)
qed

subsection \<open>Release\<close>

text \<open>
  C5.  \<^verbatim>\<open>rt_sem_release\<close> below the largest count refines releasing a counting semaphore: with
  threads waiting, the first one is made ready, its timer stopped, its error code left as it is,
  the count unchanged and a most urgent thread runs; otherwise the count grows by one.
\<close>

theorem rt_sem_release_refines:
  assumes inv: "kinv k" and st: "stacks_ok k" and cur: "current k = Some c"
    and ok: "sem_ok k i" and lock: "lock_nest k = 0" and max: "fst (sem_abs k i) < 65535"
  shows "\<exists>k'. rt_sem_release i k = Some (RT_EOK, k') \<and> kinv k' \<and> sem_ok k' i \<and>
           sem_abs k' i = sem_v (sem_abs k i) \<and>
           (\<forall>t ts. snd (sem_abs k i) = t # ts \<longrightarrow>
              (stat_of k' t = RT_THREAD_READY \<or> stat_of k' t = RT_THREAD_RUNNING) \<and> runs_highest k' \<and>
              rt_sem_take_return t k' = rt_sem_take_return t k \<and> own (tml k') (ThreadTimer t) = None)"
proof (cases "lst (thl k) (SuspendQ (OSem i))")
  case Nil
  let ?k = "upd_sem i (\<lambda>s. s\<lparr>s_value := s_value s + 1\<rparr>) k"
  have "unat (s_value (sems k i) + 1) = unat (s_value (sems k i)) + 1"
    using max by (simp add: sem_abs_def unat_word_ariths)
  then show ?thesis
    using Nil inv ok
    by (intro exI [of _ ?k]) (simp add: rt_sem_release_def sem_ok_def sem_abs_def)
next
  case (Cons t ts)
  have wq: "wait_q (SuspendQ (OSem i))" by simp
  obtain k1 k' where k': "rt_ipc_list_resume (SuspendQ (OSem i)) k = Some (RT_EOK, k1)" "rt_schedule k1 = Some k'"
    "kinv k'" "env_same k k'" "lst (thl k') (SuspendQ (OSem i)) = ts"
    "stat_of k' t = RT_THREAD_READY \<or> stat_of k' t = RT_THREAD_RUNNING"
    "own (tml k') (ThreadTimer t) = None"
    and er: "\<And>u. t_error (threads k' u) = t_error (threads k u)"
    and top: "lock_nest k = 0 \<Longrightarrow> runs_highest k'"
    by (rule wake_head_spec [OF inv st cur wq Cons]) blast
  have z: "unat (s_value (sems k i)) = 0" using ok Cons by (simp add: sem_ok_def sem_abs_def)
  have a: "sem_abs k' i = (0, ts)" using env_sameD(1) [OF k'(4)] z k'(5) by (simp add: sem_abs_def)
  have "sem_ok k' i"
    using ok a env_sameD(11) [OF k'(4), of "OSem i"] env_sameD(14) [OF k'(4), of "OSem i"]
    by (simp add: sem_ok_def)
  moreover have "rt_sem_release i k = Some (RT_EOK, k')"
    using ok Cons k'(1,2) by (simp add: rt_sem_release_def sem_ok_def)
  moreover have "sem_abs k i = (0, t # ts)" using z Cons by (simp add: sem_abs_def)
  ultimately show ?thesis
    using k'(3,6,7) a top [OF lock] er by (intro exI [of _ k']) (simp add: rt_sem_take_return_def)
qed

theorem rt_sem_release_refines_witness:
  "\<exists>k'. rt_sem_release 0 ipc_demo = Some (RT_EOK, k') \<and> sem_abs k' 0 = (0, []) \<and> runs_highest k'"
proof -
  have a: "sem_abs ipc_demo 0 = (0, [4])"
    by (simp add: sem_abs_def ipc_demo_sel demo_thl) (simp add: zero_kernel_def)
  have "sem_ok ipc_demo 0" by (simp add: sem_ok_def a ipc_demo_type ipc_demo_sel)
  then show ?thesis
    using rt_sem_release_refines [OF ipc_demo_kinv ipc_demo_stacks ipc_demo_sel(1), of 0]
    by (auto simp: a ipc_demo_sel)
qed

text \<open>
  A semaphore at its largest count 65535 with no thread waiting loses all of it on one more
  release: the call reports success and the count is 0.
\<close>

theorem rt_sem_release_wraps:
  assumes "rt_object_get_type k (OSem i) = RT_Object_Class_Semaphore"
    and "sem_abs k i = (65535, [])"
  shows "\<exists>k'. rt_sem_release i k = Some (RT_EOK, k') \<and> sem_abs k' i = (0, [])"
proof -
  have "s_value (sems k i) = 65535"
    using assms(2) by (intro unsigned_word_eqI [where ?'a = nat]) (simp add: sem_abs_def)
  then show ?thesis using assms by (simp add: rt_sem_release_def sem_abs_def)
qed

theorem rt_sem_release_wraps_witness:
  "\<exists>k'. rt_sem_release 1 (upd_sem 1 (\<lambda>s. s\<lparr>s_value := 65535\<rparr>) ipc_demo) = Some (RT_EOK, k') \<and> sem_abs k' 1 = (0, [])"
  by (rule rt_sem_release_wraps) (simp_all add: ipc_demo_type sem_abs_def ipc_demo_sel demo_thl)

text \<open>
  Detaching a semaphore makes every waiting thread ready with error \<^verbatim>\<open>-RT_ERROR\<close>, which is
  what its pending \<^verbatim>\<open>rt_sem_take\<close> returns, and no other thread's error changes.
\<close>

theorem rt_sem_detach_wakes_all:
  assumes inv: "kinv k" and ok: "sem_ok k i" and sys: "rt_object_is_systemobject k (OSem i)"
    and c: "current k \<noteq> None \<longrightarrow> the (current k) \<notin> set (snd (sem_abs k i))"
  shows "\<exists>k'. rt_sem_detach i k = Some (RT_EOK, k') \<and> lst (thl k') (SuspendQ (OSem i)) = [] \<and>
           o_type (hdr k' (OSem i)) = 0 \<and>
           (\<forall>t. if t \<in> set (snd (sem_abs k i))
                then stat_of k' t = RT_THREAD_READY \<and> rt_sem_take_return t k' = - RT_ERROR
                else stat_of k' t = stat_of k t \<and> t_error (threads k' t) = t_error (threads k t))"
proof -
  have "wait_q (SuspendQ (OSem i))" by simp
  from resume_all_spec [OF inv this] obtain k1 where k1:
    "rt_ipc_list_resume_all (SuspendQ (OSem i)) k = Some k1" "all_woken (SuspendQ (OSem i)) k k1" by blast
  have "rt_sem_detach i k = Some (RT_EOK, rt_object_detach (OSem i) k1)"
    using ok sys k1(1) by (simp add: rt_sem_detach_def sem_ok_def)
  then show ?thesis
    using k1(2) c
    by (intro exI [of _ "rt_object_detach (OSem i) k1"])
      (auto simp: all_woken_def rt_object_detach_def Let_def stat_of_def rt_sem_take_return_def sem_abs_def)
qed

theorem rt_sem_detach_wakes_all_witness:
  "\<exists>k'. rt_sem_detach 0 ipc_demo = Some (RT_EOK, k') \<and> stat_of k' 4 = RT_THREAD_READY \<and>
     rt_sem_take_return 4 k' = - RT_ERROR"
proof -
  have a: "sem_abs ipc_demo 0 = (0, [4])"
    by (simp add: sem_abs_def ipc_demo_sel demo_thl) (simp add: zero_kernel_def)
  have "sem_ok ipc_demo 0" by (simp add: sem_ok_def a ipc_demo_type ipc_demo_sel)
  from rt_sem_detach_wakes_all [OF ipc_demo_kinv this ipc_demo_type(6)] show ?thesis
    unfolding a by (auto simp: ipc_demo_sel dest: spec [of _ 4])
qed

end
