(* ===== verification/Mutex.thy ===== *)
theory Mutex
  imports Semaphore
begin

text \<open>
  \<^verbatim>\<open>rt-thread/src/ipc.c\<close>, mutexes: ownership, nesting, priority inheritance and hand-over.
\<close>

subsection \<open>Operations\<close>

definition upd_mutex :: "oid \<Rightarrow> (rt_mutex \<Rightarrow> rt_mutex) \<Rightarrow> kernel \<Rightarrow> kernel" where
  "upd_mutex i f k = k\<lparr>mutexes := (mutexes k)(i := f (mutexes k i))\<rparr>"

definition rt_mutex_init :: "oid \<Rightarrow> u8 list \<Rightarrow> u8 \<Rightarrow> kernel \<Rightarrow> (int \<times> kernel) option" where
  "rt_mutex_init i name flag k =
     do {
       k1 \<leftarrow> rt_object_init (OMutex i) RT_Object_Class_Mutex name k;
       (_, k2) \<leftarrow> rt_ipc_object_init (SuspendQ (OMutex i)) k1;
       Some (RT_EOK, set_flag (OMutex i) flag
         (upd_mutex i (\<lambda>m. m\<lparr>m_value := 1, owner := None, original_priority := 0xFF, hold := 0\<rparr>) k2))
     }"

definition rt_mutex_detach :: "oid \<Rightarrow> kernel \<Rightarrow> (int \<times> kernel) option" where
  "rt_mutex_detach i k =
     do {
       RT_ASSERT (rt_object_get_type k (OMutex i) = RT_Object_Class_Mutex);
       RT_ASSERT (rt_object_is_systemobject k (OMutex i));
       k1 \<leftarrow> rt_ipc_list_resume_all (SuspendQ (OMutex i)) k;
       Some (RT_EOK, rt_object_detach (OMutex i) k1)
     }"

definition rt_mutex_create ::
  "u8 list \<Rightarrow> u8 \<Rightarrow> oid option \<Rightarrow> kernel \<Rightarrow> (oid option \<times> kernel) option" where
  "rt_mutex_create name flag mem k =
     do {
       RT_ASSERT (not_in_interrupt k);
       (_, k1) \<leftarrow> rt_object_allocate RT_Object_Class_Mutex name (map_option OMutex mem) k;
       (case mem of
          None \<Rightarrow> Some (None, k1)
        | Some i \<Rightarrow> do {
            (_, k2) \<leftarrow> rt_ipc_object_init (SuspendQ (OMutex i)) k1;
            Some (Some i, set_flag (OMutex i) flag
              (upd_mutex i (\<lambda>m. m\<lparr>m_value := 1, owner := None, original_priority := 0xFF, hold := 0\<rparr>) k2))
          })
     }"

definition rt_mutex_delete :: "oid \<Rightarrow> kernel \<Rightarrow> (int \<times> kernel) option" where
  "rt_mutex_delete i k =
     do {
       RT_ASSERT (not_in_interrupt k);
       RT_ASSERT (rt_object_get_type k (OMutex i) = RT_Object_Class_Mutex);
       RT_ASSERT (\<not> rt_object_is_systemobject k (OMutex i));
       k1 \<leftarrow> rt_ipc_list_resume_all (SuspendQ (OMutex i)) k;
       k2 \<leftarrow> rt_object_delete (OMutex i) k1;
       Some (RT_EOK, k2)
     }"

text \<open>The code from the label \<^verbatim>\<open>__again\<close> to the \<^verbatim>\<open>rt_schedule\<close>, for the calling thread \<open>t\<close>.\<close>

definition mutex_again :: "oid \<Rightarrow> tid \<Rightarrow> int \<Rightarrow> kernel \<Rightarrow> (int option \<times> kernel) option" where
  "mutex_again i t time k =
     (if m_value (mutexes k i) > 0
      then Some (Some RT_EOK, upd_mutex i (\<lambda>m. m\<lparr>m_value := m_value m - 1, owner := Some t,
              original_priority := current_priority (threads k t), hold := hold m + 1\<rparr>) k)
      else if time = 0
      then Some (Some (- RT_ETIMEOUT), upd_thread t (\<lambda>th. th\<lparr>t_error := - RT_ETIMEOUT\<rparr>) k)
      else do {
        own \<leftarrow> owner (mutexes k i);
        k1 \<leftarrow> (if current_priority (threads k t) < current_priority (threads k own)
               then map_option snd
                      (rt_thread_control own (CTRL_CHANGE_PRIORITY (current_priority (threads k t))) k)
               else Some k);
        k2 \<leftarrow> ipc_wait (SuspendQ (OMutex i)) t (o_flag (hdr k1 (OMutex i))) time k1;
        k3 \<leftarrow> rt_schedule k2;
        Some (None, k3)
      })"

definition rt_mutex_take :: "oid \<Rightarrow> int \<Rightarrow> kernel \<Rightarrow> (int option \<times> kernel) option" where
  "rt_mutex_take i time k =
     do {
       RT_ASSERT (in_thread_context k);
       RT_ASSERT (rt_object_get_type k (OMutex i) = RT_Object_Class_Mutex);
       t \<leftarrow> rt_thread_self k;
       let k1 = upd_thread t (\<lambda>th. th\<lparr>t_error := RT_EOK\<rparr>) k;
       (if owner (mutexes k1 i) = Some t
        then Some (Some RT_EOK, upd_mutex i (\<lambda>m. m\<lparr>hold := hold m + 1\<rparr>) k1)
        else mutex_again i t time k1)
     }"

text \<open>After the switch back: a signal repeats the attempt, any other error is returned.\<close>

definition rt_mutex_take_return :: "oid \<Rightarrow> int \<Rightarrow> tid \<Rightarrow> kernel \<Rightarrow> (int option \<times> kernel) option" where
  "rt_mutex_take_return i time t k =
     (if t_error (threads k t) \<noteq> RT_EOK
      then if t_error (threads k t) = - RT_EINTR then mutex_again i t time k
           else Some (Some (t_error (threads k t)), k)
      else Some (Some RT_EOK, k))"

definition rt_mutex_release :: "oid \<Rightarrow> kernel \<Rightarrow> (int \<times> kernel) option" where
  "rt_mutex_release i k =
     do {
       RT_ASSERT (rt_object_get_type k (OMutex i) = RT_Object_Class_Mutex);
       RT_ASSERT (in_thread_context k);
       thread \<leftarrow> rt_thread_self k;
       (if owner (mutexes k i) \<noteq> Some thread
        then Some (- RT_ERROR, upd_thread thread (\<lambda>th. th\<lparr>t_error := - RT_ERROR\<rparr>) k)
        else
          let k1 = upd_mutex i (\<lambda>m. m\<lparr>hold := hold m - 1\<rparr>) k
          in if hold (mutexes k1 i) \<noteq> 0 then Some (RT_EOK, k1)
          else do {
            k2 \<leftarrow> (if original_priority (mutexes k1 i) \<noteq> current_priority (threads k1 thread)
                   then map_option snd (rt_thread_control thread
                          (CTRL_CHANGE_PRIORITY (original_priority (mutexes k1 i))) k1)
                   else Some k1);
            (case lst (thl k2) (SuspendQ (OMutex i)) of
               t # _ \<Rightarrow> do {
                 let k3 = upd_mutex i (\<lambda>m. m\<lparr>owner := Some t,
                            original_priority := current_priority (threads k2 t), hold := hold m + 1\<rparr>) k2;
                 (_, k4) \<leftarrow> rt_ipc_list_resume (SuspendQ (OMutex i)) k3;
                 k5 \<leftarrow> rt_schedule k4;
                 Some (RT_EOK, k5)
               }
             | [] \<Rightarrow> Some (RT_EOK, upd_mutex i (\<lambda>m. m\<lparr>m_value := m_value m + 1, owner := None,
                                                     original_priority := 0xff\<rparr>) k2))
          })
     }"

definition rt_mutex_control :: "oid \<Rightarrow> nat \<Rightarrow> kernel \<Rightarrow> (int \<times> kernel) option" where
  "rt_mutex_control i cmd k =
     do {
       RT_ASSERT (rt_object_get_type k (OMutex i) = RT_Object_Class_Mutex);
       Some (- RT_ERROR, k)
     }"

subsection \<open>Changing the priority of the owner\<close>

definition prio_changed :: "tid \<Rightarrow> u8 \<Rightarrow> kernel \<Rightarrow> kernel \<Rightarrow> bool" where
  "prio_changed t p k k' \<longleftrightarrow>
     (\<forall>u. stat_of k' u = stat_of k u) \<and>
     (\<forall>u. current_priority (threads k' u) = (if u = t then p else current_priority (threads k u))) \<and>
     (\<forall>u. t_error (threads k' u) = t_error (threads k u)) \<and>
     (\<forall>u. stack_ok (threads k' u) = stack_ok (threads k u)) \<and>
     (\<forall>q. wait_q q \<longrightarrow> lst (thl k') q = lst (thl k) q) \<and>
     current k' = current k \<and> lock_nest k' = lock_nest k \<and> irq_nest k' = irq_nest k \<and> tick k' = tick k \<and>
     hdr k' = hdr k \<and> tml k' = tml k \<and> timers k' = timers k \<and>
     sems k' = sems k \<and> mutexes k' = mutexes k \<and> events k' = events k \<and> mailboxes k' = mailboxes k \<and>
     mqs k' = mqs k \<and> res k' = res k"

lemma prio_changedD:
  assumes "prio_changed t p k k'"
  shows "stat_of k' u = stat_of k u"
    "current_priority (threads k' u) = (if u = t then p else current_priority (threads k u))"
    "t_error (threads k' u) = t_error (threads k u)" "stack_ok (threads k' u) = stack_ok (threads k u)"
    "wait_q q \<Longrightarrow> lst (thl k') q = lst (thl k) q"
    "current k' = current k" "lock_nest k' = lock_nest k" "irq_nest k' = irq_nest k" "tick k' = tick k"
    "hdr k' = hdr k" "tml k' = tml k" "timers k' = timers k" "mutexes k' = mutexes k"
    "live k' u = live k u"
  using assms by (simp_all add: prio_changed_def live_def)

lemma prio_changed_self: "p = current_priority (threads k t) \<Longrightarrow> prio_changed t p k k"
  by (simp add: prio_changed_def)

lemma sched_frame_change:
  "sems (change_priority t p k) = sems k" "mutexes (change_priority t p k) = mutexes k"
  "events (change_priority t p k) = events k" "mailboxes (change_priority t p k) = mailboxes k"
  "mqs (change_priority t p k) = mqs k" "res (change_priority t p k) = res k" "tick (change_priority t p k) = tick k"
  "lock_nest (change_priority t p k) = lock_nest k" "irq_nest (change_priority t p k) = irq_nest k"
  "t_error (threads (change_priority t p k) u) = t_error (threads k u)"
  "stack_ok (threads (change_priority t p k) u) = stack_ok (threads k u)"
  "current_priority (threads (change_priority t p k) u) = (if u = t then p else current_priority (threads k u))"
  by (simp_all add: change_priority_def stack_ok_def)

lemma control_priority_spec:
  assumes inv: "kinv k" and l: "live k t" and p: "unat p < 32"
  obtains k' where "rt_thread_control t (CTRL_CHANGE_PRIORITY p) k = Some (RT_EOK, k')" "kinv k'"
    "prio_changed t p k k'"
proof (cases "stat_of k t = RT_THREAD_READY")
  case True
  obtain k1 k2 where k: "rt_schedule_remove_thread t k = Some k1"
    "rt_schedule_insert_thread t (change_priority t p k1) = Some k2" "kinv k2"
    and s: "\<And>u. stat_of k2 u = stat_of k u"
    and lq: "\<And>q. lst (thl k2) q = remove1 t (lst (thl k) q) @ (if q = ReadyQ (unat p) then [t] else [])"
    by (rule change_priority_ready [OF inv p True]) blast
  note f1 = sched_frame_sel [OF sched_frame_remove [OF k(1)]]
  note f2 = sched_frame_sel [OF sched_frame_insert [OF k(2)], unfolded sched_frame_change change_priority_sel]
  have c1: "current k1 = current k" by (subst remove_thread_frame [OF k(1)]) simp
  have cur: "current k2 = current k" by (subst insert_thread_frame [OF k(2)]) (simp add: c1)
  have w: "lst (thl k2) q = lst (thl k) q" if "wait_q q" for q
  proof -
    have "t \<notin> set (lst (thl k) q)" using wait_q_suspended [OF inv that, of t] True by auto
    then show ?thesis using wait_q_not_ready [OF that, of "unat p"] by (simp add: lq)
  qed
  have "prio_changed t p k k2"
    using f1 f2 s w cur by (simp add: prio_changed_def)
  moreover have "rt_thread_control t (CTRL_CHANGE_PRIORITY p) k = Some (RT_EOK, k2)"
    using True thread_objs_same [OF kinvD(3) [OF inv l]] k(1,2) by (simp add: rt_thread_control_def)
  ultimately show ?thesis using that k(3) by blast
next
  case False
  have "prio_changed t p k (change_priority t p k)"
    by (simp add: prio_changed_def sched_frame_change)
  then show ?thesis
    using that change_priority_idle [OF inv p False] False thread_objs_same [OF kinvD(3) [OF inv l]]
    by (simp add: rt_thread_control_def)
qed

subsection \<open>Ownership\<close>

text \<open>
  A free mutex has value 1, no holds and no waiting thread; an owned one has value 0, at least
  one hold, and its owner does not wait for it.
\<close>

definition mutex_ok :: "kernel \<Rightarrow> oid \<Rightarrow> bool" where
  "mutex_ok k i \<longleftrightarrow>
     rt_object_get_type k (OMutex i) = RT_Object_Class_Mutex \<and>
     (o_flag (hdr k (OMutex i)) = RT_IPC_FLAG_FIFO \<or> o_flag (hdr k (OMutex i)) = RT_IPC_FLAG_PRIO) \<and>
     (case owner (mutexes k i) of
        None \<Rightarrow> m_value (mutexes k i) = 1 \<and> hold (mutexes k i) = 0 \<and> lst (thl k) (SuspendQ (OMutex i)) = []
      | Some w \<Rightarrow> m_value (mutexes k i) = 0 \<and> hold (mutexes k i) \<noteq> 0 \<and> live k w \<and>
                 unat (original_priority (mutexes k i)) < 32 \<and> w \<notin> set (lst (thl k) (SuspendQ (OMutex i))))"

lemma upd_mutex_sel [simp]:
  "kinv (upd_mutex i f k) = kinv k" "stacks_ok (upd_mutex i f k) = stacks_ok k" "thl (upd_mutex i f k) = thl k"
  "hdr (upd_mutex i f k) = hdr k" "threads (upd_mutex i f k) = threads k" "current (upd_mutex i f k) = current k"
  "lock_nest (upd_mutex i f k) = lock_nest k" "irq_nest (upd_mutex i f k) = irq_nest k"
  "tml (upd_mutex i f k) = tml k" "timers (upd_mutex i f k) = timers k" "tick (upd_mutex i f k) = tick k"
  "stat_of (upd_mutex i f k) t = stat_of k t" "prio_of (upd_mutex i f k) t = prio_of k t"
  "live (upd_mutex i f k) t = live k t"
  "mutexes (upd_mutex i f k) = (mutexes k)(i := f (mutexes k i))"
  "rt_object_get_type (upd_mutex i f k) r = rt_object_get_type k r"
  by (simp_all add: upd_mutex_def rt_object_get_type_def live_def)

lemma upd_thread_id: "f (threads k t) = threads k t \<Longrightarrow> upd_thread t f k = k"
  by (simp add: upd_thread_def)

lemma live_prio:
  assumes "kinv k" "live k t"
  shows "unat (current_priority (threads k t)) < 32"
  using core_thread_ok [OF sched_inv_core [OF kinvD(1) [OF assms(1)]], of t] assms(2)
  by (auto simp: thread_ok_def live_def prio_of_def)

text \<open>
  Raising the owner's priority to that of a more urgent taker, or leaving the state alone.
\<close>

lemma inherit_spec:
  assumes inv: "kinv k" and w: "live k w" and c: "live k c" and ne: "w \<noteq> c"
  obtains k1 where "(if current_priority (threads k c) < current_priority (threads k w)
       then map_option snd (rt_thread_control w (CTRL_CHANGE_PRIORITY (current_priority (threads k c))) k)
       else Some k) = Some k1" "kinv k1"
    "prio_changed w (min (current_priority (threads k w)) (current_priority (threads k c))) k k1"
proof (cases "current_priority (threads k c) < current_priority (threads k w)")
  case True
  from control_priority_spec [OF inv w live_prio [OF inv c]] obtain k' where
    "rt_thread_control w (CTRL_CHANGE_PRIORITY (current_priority (threads k c))) k = Some (RT_EOK, k')"
    "kinv k'" "prio_changed w (current_priority (threads k c)) k k'" .
  moreover have "min (current_priority (threads k w)) (current_priority (threads k c)) =
      current_priority (threads k c)" using True by (simp add: min_absorb2)
  ultimately show ?thesis using True by (intro that [of k']) simp_all
next
  case False
  then show ?thesis using inv by (intro that [of k]) (simp_all add: min_def prio_changed_self)
qed

text \<open>The branch of \<^verbatim>\<open>rt_mutex_take\<close> that waits: the mutex belongs to another thread \<open>w\<close>.\<close>

lemma mutex_take_waits:
  assumes inv: "kinv k" and st: "stacks_ok k" and cur: "current k = Some c" "stat_of k c = RT_THREAD_RUNNING"
    and ok: "mutex_ok k i" and irq: "irq_nest k = 0" and lock: "lock_nest k = 0" and t: "time < 0x7fffffff"
    and idle: "stat_of k u = RT_THREAD_READY" and Some: "owner (mutexes k i) = Some w" and False: "w \<noteq> c" and time: "time \<noteq> 0"
  shows "\<exists>k'. rt_mutex_take i time k = Some (None, k') \<and> kinv k' \<and> mutex_ok k' i \<and> mutexes k' = mutexes k \<and>
     stat_of k' c = RT_THREAD_SUSPEND \<and> runs_highest k' \<and>
     current_priority (threads k' w) = min (current_priority (threads k w)) (current_priority (threads k c)) \<and>
     lst (thl k') (SuspendQ (OMutex i)) =
       insert_at (flag_before (o_flag (hdr k (OMutex i))) k c) c (lst (thl k) (SuspendQ (OMutex i)))"
proof -
  let ?k1 = "upd_thread c (\<lambda>th. th\<lparr>t_error := RT_EOK\<rparr>) k"
  have inv1: "kinv ?k1" using inv by (simp add: kinv_set_error)
  have lc: "live k c" using cur(2) by (simp add: live_def)
  have ctx: "in_thread_context k" using cur(1) irq by (simp add: in_thread_context_def not_in_interrupt_def)
  have ty: "rt_object_get_type k (OMutex i) = RT_Object_Class_Mutex" using ok by (simp add: mutex_ok_def)
  have v: "m_value (mutexes k i) = 0" "live k w" using ok Some by (simp_all add: mutex_ok_def)
  let ?q = "SuspendQ (OMutex i)" and ?f = "o_flag (hdr k (OMutex i))"
  have w1: "live ?k1 w" "live ?k1 c" using v(2) lc by simp_all
  from inherit_spec [OF inv1 w1 False] obtain k2 where k2:
    "(if current_priority (threads ?k1 c) < current_priority (threads ?k1 w)
      then map_option snd (rt_thread_control w (CTRL_CHANGE_PRIORITY (current_priority (threads ?k1 c))) ?k1)
      else Some ?k1) = Some k2" "kinv k2"
    "prio_changed w (min (current_priority (threads ?k1 w)) (current_priority (threads ?k1 c))) ?k1 k2" .
  note d = prio_changedD [OF k2(3)]
  have st2: "stacks_ok k2"
    using st by (simp add: stacks_ok_def d(4,14)) (simp add: stack_ok_def)
  have s2: "current k2 = Some c" "stat_of k2 c = RT_THREAD_RUNNING" using d(1,6) cur by simp_all
  have fl: "?f = RT_IPC_FLAG_FIFO \<or> ?f = RT_IPC_FLAG_PRIO" using ok by (simp add: mutex_ok_def)
  have wq: "wait_q ?q" by simp
  obtain k3 k' where b: "ipc_wait ?q c ?f time (upd_thread c (\<lambda>th. th\<lparr>t_error := RT_EOK\<rparr>) k2) = Some k3"
    "rt_schedule k3 = Some k'" "kinv k'" "env_same k2 k'"
    "lst (thl k') ?q = insert_at (flag_before ?f k2 c) c (lst (thl k2) ?q)"
    "stat_of k' c = RT_THREAD_SUSPEND" "runs_highest k'"
    and lv: "\<And>v. live k' v = live k2 v"
    by (rule block_spec [OF k2(2) st2 s2 wq fl t, where u = u])
      (use d(1,7) lock idle in auto)
  have id: "upd_thread c (\<lambda>th. th\<lparr>t_error := RT_EOK\<rparr>) k2 = k2"
    by (rule upd_thread_id) (use d(3) [of c] in simp)
  have pr: "flag_before ?f k2 c s = flag_before ?f k c s" if "s \<in> set (lst (thl k) ?q)" for s
  proof -
    have "s \<noteq> w" using that ok Some by (auto simp: mutex_ok_def)
    then show ?thesis using False by (simp add: flag_before_def d(2))
  qed
  have lq: "lst (thl k') ?q = insert_at (flag_before ?f k c) c (lst (thl k) ?q)"
    using b(5) d(5) [OF wq] insert_at_cong [of "lst (thl k) ?q", OF pr] by simp
  have res: "rt_mutex_take i time k = Some (None, k')"
    using Some False time v ctx ty cur(1) k2(1) b(1,2) id d(10)
    by (simp add: rt_mutex_take_def mutex_again_def rt_thread_self_def Let_def cong: if_cong)
  have m: "mutexes k' = mutexes k" using env_sameD(2) [OF b(4)] d(13) by simp
  have ok': "mutex_ok k' i"
    using ok Some m lq lv d(14) False env_sameD(11) [OF b(4), of "OMutex i"]
      env_sameD(14) [OF b(4), of "OMutex i"] d(10) object_type_cong(1) [of k2 ?k1]
    by (simp add: mutex_ok_def)
  have "current_priority (threads k' w) = min (current_priority (threads k w)) (current_priority (threads k c))"
    using env_sameD(21) [OF b(4), of w] d(2) [of w] False by simp
  with res b(3,6,7) lq ok' m show ?thesis
    by (intro exI [of _ k']) simp
qed

text \<open>
  C2.  \<^verbatim>\<open>rt_mutex_take\<close> by the running thread \<open>c\<close>: a free mutex becomes \<open>c\<close>'s with one hold; the
  owner's nested take (below 255 holds) adds a hold; without waiting time another thread's
  mutex gives \<^verbatim>\<open>-RT_ETIMEOUT\<close> and stays as it is; otherwise \<open>c\<close> is suspended on the mutex, the
  owner runs on with the more urgent of its own and \<open>c\<close>'s priority, and a most urgent thread
  runs.  On every branch the ownership invariant holds.
\<close>

theorem rt_mutex_take_spec:
  assumes inv: "kinv k" and st: "stacks_ok k" and cur: "current k = Some c" "stat_of k c = RT_THREAD_RUNNING"
    and ok: "mutex_ok k i" and irq: "irq_nest k = 0" and lock: "lock_nest k = 0" and t: "time < 0x7fffffff"
    and idle: "stat_of k u = RT_THREAD_READY" and h: "hold (mutexes k i) \<noteq> 255"
  shows "\<exists>r k'. rt_mutex_take i time k = Some (r, k') \<and> kinv k' \<and> mutex_ok k' i \<and>
     (case owner (mutexes k i) of
        None \<Rightarrow> r = Some RT_EOK \<and> owner (mutexes k' i) = Some c \<and> hold (mutexes k' i) = 1 \<and>
               original_priority (mutexes k' i) = current_priority (threads k c)
      | Some w \<Rightarrow>
          owner (mutexes k' i) = Some w \<and>
          (if w = c then r = Some RT_EOK \<and> hold (mutexes k' i) = hold (mutexes k i) + 1
           else hold (mutexes k' i) = hold (mutexes k i) \<and>
             (if time = 0 then r = Some (- RT_ETIMEOUT) \<and> thl k' = thl k
              else r = None \<and> stat_of k' c = RT_THREAD_SUSPEND \<and> runs_highest k' \<and>
                   current_priority (threads k' w) =
                     min (current_priority (threads k w)) (current_priority (threads k c)) \<and>
                   lst (thl k') (SuspendQ (OMutex i)) =
                     insert_at (flag_before (o_flag (hdr k (OMutex i))) k c) c
                       (lst (thl k) (SuspendQ (OMutex i)))))) "
proof -
  let ?k1 = "upd_thread c (\<lambda>th. th\<lparr>t_error := RT_EOK\<rparr>) k"
  have inv1: "kinv ?k1" using inv by (simp add: kinv_set_error)
  have lc: "live k c" using cur(2) by (simp add: live_def)
  have ctx: "in_thread_context k" using cur(1) irq by (simp add: in_thread_context_def not_in_interrupt_def)
  have ty: "rt_object_get_type k (OMutex i) = RT_Object_Class_Mutex" using ok by (simp add: mutex_ok_def)
  have cw: "c \<notin> set (lst (thl k) (SuspendQ (OMutex i)))"
    using wait_q_suspended [OF inv, of "SuspendQ (OMutex i)" c] cur(2) by auto
  show ?thesis
  proof (cases "owner (mutexes k i)")
    case None
    let ?k' = "upd_mutex i (\<lambda>m. m\<lparr>m_value := m_value m - 1, owner := Some c,
              original_priority := current_priority (threads ?k1 c), hold := hold m + 1\<rparr>) ?k1"
    have "rt_mutex_take i time k = Some (Some RT_EOK, ?k')"
      using None ok ctx ty cur(1)
      by (simp add: rt_mutex_take_def mutex_again_def mutex_ok_def rt_thread_self_def Let_def)
    moreover have "mutex_ok ?k' i" using ok None live_prio [OF inv lc] lc by (simp add: mutex_ok_def)
    ultimately show ?thesis
      using None ok inv1 by (intro exI [of _ "Some RT_EOK"] exI [of _ ?k']) (simp add: mutex_ok_def)
  next
    case (Some w)
    show ?thesis
    proof (cases "w = c")
      case True
      let ?k' = "upd_mutex i (\<lambda>m. m\<lparr>hold := hold m + 1\<rparr>) ?k1"
      have r: "rt_mutex_take i time k = Some (Some RT_EOK, ?k')"
        using Some True ok ctx ty cur(1) by (simp add: rt_mutex_take_def rt_thread_self_def Let_def)
      have "hold (mutexes k i) + 1 \<noteq> 0"
      proof
        assume "hold (mutexes k i) + 1 = 0"
        then have "hold (mutexes k i) = - 1" by (simp only: eq_neg_iff_add_eq_0)
        with h show False by simp
      qed
      then have "mutex_ok ?k' i" using ok Some by (simp add: mutex_ok_def)
      with r Some True inv1 show ?thesis
        by (intro exI [of _ "Some RT_EOK"] exI [of _ ?k']) simp
    next
      case False
      have v: "m_value (mutexes k i) = 0" "live k w" using ok Some by (simp_all add: mutex_ok_def)
      show ?thesis
      proof (cases "time = 0")
        case True
        let ?k' = "upd_thread c (\<lambda>th. th\<lparr>t_error := - RT_ETIMEOUT\<rparr>) ?k1"
        have "rt_mutex_take i time k = Some (Some (- RT_ETIMEOUT), ?k')"
          using Some False True v ctx ty cur(1)
          by (simp add: rt_mutex_take_def mutex_again_def rt_thread_self_def Let_def)
        moreover have "mutex_ok ?k' i" using ok Some by (simp add: mutex_ok_def)
        ultimately show ?thesis
          using Some False True inv1
          by (intro exI [of _ "Some (- RT_ETIMEOUT)"] exI [of _ ?k']) (simp add: kinv_set_error)
      next
        case time: False
        from mutex_take_waits [OF inv st cur ok irq lock t idle Some False time] obtain k' where
          "rt_mutex_take i time k = Some (None, k') \<and> kinv k' \<and> mutex_ok k' i \<and> mutexes k' = mutexes k \<and>
           stat_of k' c = RT_THREAD_SUSPEND \<and> runs_highest k' \<and>
           current_priority (threads k' w) = min (current_priority (threads k w)) (current_priority (threads k c)) \<and>
           lst (thl k') (SuspendQ (OMutex i)) =
             insert_at (flag_before (o_flag (hdr k (OMutex i))) k c) c (lst (thl k) (SuspendQ (OMutex i)))" ..
        then show ?thesis using Some False time by (intro exI [of _ None] exI [of _ k']) simp
      qed
    qed
  qed
qed

text \<open>A kernel in which thread 2, of priority 20, owns mutex 0.\<close>

definition mutex_demo :: kernel where
  "mutex_demo = upd_mutex 0 (\<lambda>m. m\<lparr>owner := Some 2, hold := 1, original_priority := 20\<rparr>) ipc_demo"

lemma mutex_demo_sel: "kinv mutex_demo" "stacks_ok mutex_demo" "current mutex_demo = Some 0"
  "stat_of mutex_demo t = stat_of demo_kernel t" "irq_nest mutex_demo = 0" "lock_nest mutex_demo = 0"
  "thl mutex_demo = thl demo_kernel" "threads mutex_demo = threads demo_kernel"
  "mutexes mutex_demo 0 = \<lparr>m_value = 0, original_priority = 20, hold = 1, owner = Some 2\<rparr>"
  "o_flag (hdr mutex_demo (OMutex i)) = 0"
  by (simp_all add: mutex_demo_def ipc_demo_sel ipc_demo_kinv ipc_demo_stacks ipc_demo_stat) (simp add: zero_kernel_def)

lemma mutex_demo_ok: "mutex_ok mutex_demo 0"
  by (simp add: mutex_ok_def mutex_demo_sel demo_thl live_def demo_stat) (simp add: mutex_demo_def ipc_demo_type)

theorem rt_mutex_take_spec_witness:
  "\<exists>k'. rt_mutex_take 0 20 mutex_demo = Some (None, k') \<and> current_priority (threads k' 2) = 10 \<and>
     lst (thl k') (SuspendQ (OMutex 0)) = [0]"
  using rt_mutex_take_spec [OF mutex_demo_sel(1-3) _ mutex_demo_ok mutex_demo_sel(5,6), of 20 1]
  by (auto simp: mutex_demo_sel demo_stat demo_thl demo_simps)

subsection \<open>Release\<close>

text \<open>Back to the priority the owner had when it got the mutex.\<close>

lemma restore_spec:
  assumes inv: "kinv k" and c: "live k c" and p: "unat p < 32"
  obtains k2 where "(if p \<noteq> current_priority (threads k c)
       then map_option snd (rt_thread_control c (CTRL_CHANGE_PRIORITY p) k) else Some k) = Some k2"
    "kinv k2" "prio_changed c p k k2"
proof (cases "p = current_priority (threads k c)")
  case True
  then show ?thesis using inv by (intro that [of k]) (simp_all add: prio_changed_self)
next
  case False
  from control_priority_spec [OF inv c p] obtain k' where
    "rt_thread_control c (CTRL_CHANGE_PRIORITY p) k = Some (RT_EOK, k')" "kinv k'" "prio_changed c p k k'" .
  then show ?thesis using False by (intro that [of k']) simp_all
qed

text \<open>The last release of \<^verbatim>\<open>rt_mutex_release\<close>, by the owner.\<close>

lemma mutex_last_release:
  assumes inv: "kinv k" and st: "stacks_ok k" and cur: "current k = Some c" "stat_of k c = RT_THREAD_RUNNING"
    and ok: "mutex_ok k i" and irq: "irq_nest k = 0" and lock: "lock_nest k = 0"
    and own: "owner (mutexes k i) = Some c" and True: "hold (mutexes k i) = 1"
  shows "\<exists>k'. rt_mutex_release i k = Some (RT_EOK, k') \<and> kinv k' \<and> mutex_ok k' i \<and>
     current_priority (threads k' c) = original_priority (mutexes k i) \<and>
     (case lst (thl k) (SuspendQ (OMutex i)) of
        [] \<Rightarrow> owner (mutexes k' i) = None
      | t # ts \<Rightarrow> owner (mutexes k' i) = Some t \<and> hold (mutexes k' i) = 1 \<and>
          original_priority (mutexes k' i) = current_priority (threads k t) \<and>
          (stat_of k' t = RT_THREAD_READY \<or> stat_of k' t = RT_THREAD_RUNNING) \<and>
          lst (thl k') (SuspendQ (OMutex i)) = ts \<and> runs_highest k')"
proof -
  have lc: "live k c" using cur(2) by (simp add: live_def)
  have ctx: "in_thread_context k" using cur(1) irq by (simp add: in_thread_context_def not_in_interrupt_def)
  have ty: "rt_object_get_type k (OMutex i) = RT_Object_Class_Mutex" using ok by (simp add: mutex_ok_def)
  let ?q = "SuspendQ (OMutex i)"
  have wq: "wait_q ?q" by simp
  have m: "m_value (mutexes k i) = 0" "hold (mutexes k i) \<noteq> 0" "unat (original_priority (mutexes k i)) < 32"
    using ok own by (simp_all add: mutex_ok_def)
  let ?k1 = "upd_mutex i (\<lambda>m. m\<lparr>hold := hold m - 1\<rparr>) k"
  let ?p = "original_priority (mutexes k i)"
  have i1: "kinv ?k1" "live ?k1 c" using inv lc by simp_all
  from restore_spec [OF i1 m(3)] obtain k2 where k2:
    "(if ?p \<noteq> current_priority (threads ?k1 c)
      then map_option snd (rt_thread_control c (CTRL_CHANGE_PRIORITY ?p) ?k1) else Some ?k1) = Some k2"
    "kinv k2" "prio_changed c ?p ?k1 k2" .
  note d = prio_changedD [OF k2(3)]
  have st2: "stacks_ok k2" using st by (simp add: stacks_ok_def d(4,14))
  have m2: "mutexes k2 i = (mutexes k i)\<lparr>hold := 0\<rparr>" using d(13) True by simp
  have l2: "lst (thl k2) ?q = lst (thl k) ?q" using d(5) [OF wq] by simp
  have rel: "rt_mutex_release i k = (case lst (thl k2) ?q of
           t # _ \<Rightarrow> do {
             let k3 = upd_mutex i (\<lambda>m. m\<lparr>owner := Some t,
                        original_priority := current_priority (threads k2 t), hold := hold m + 1\<rparr>) k2;
             (_, k4) \<leftarrow> rt_ipc_list_resume ?q k3;
             k5 \<leftarrow> rt_schedule k4;
             Some (RT_EOK, k5)
           }
         | [] \<Rightarrow> Some (RT_EOK, upd_mutex i (\<lambda>m. m\<lparr>m_value := m_value m + 1, owner := None,
                                                 original_priority := 0xff\<rparr>) k2))"
    using own True ctx ty cur(1) k2(1) by (simp add: rt_mutex_release_def rt_thread_self_def Let_def cong: if_cong)
  have ty2: "rt_object_get_type k2 r = rt_object_get_type k r" for r
    using d(10) object_type_cong(1) [of k2 ?k1] by simp
  show ?thesis
  proof (cases "lst (thl k) ?q")
    case Nil
    let ?k' = "upd_mutex i (\<lambda>m. m\<lparr>m_value := m_value m + 1, owner := None, original_priority := 0xff\<rparr>) k2"
    have "rt_mutex_release i k = Some (RT_EOK, ?k')" using rel l2 Nil by simp
    moreover have "mutex_ok ?k' i" using ok m m2 l2 Nil d(10) ty2 by (simp add: mutex_ok_def)
    ultimately show ?thesis using own True Nil k2(2) d(2) [of c]
      by (intro exI [of _ ?k']) simp
  next
    case (Cons t ts)
    let ?k3 = "upd_mutex i (\<lambda>m. m\<lparr>owner := Some t,
                 original_priority := current_priority (threads k2 t), hold := hold m + 1\<rparr>) k2"
    have i3: "kinv ?k3" "stacks_ok ?k3" "current ?k3 = Some c" using k2(2) st2 d(6) cur(1) by simp_all
    have l3: "lst (thl ?k3) ?q = t # ts" using l2 Cons by simp
    obtain k4 k' where b: "rt_ipc_list_resume ?q ?k3 = Some (RT_EOK, k4)" "rt_schedule k4 = Some k'"
      "kinv k'" "env_same ?k3 k'" "lst (thl k') ?q = ts"
      "stat_of k' t = RT_THREAD_READY \<or> stat_of k' t = RT_THREAD_RUNNING"
      and top: "lock_nest ?k3 = 0 \<Longrightarrow> runs_highest k'"
      by (rule wake_head_spec [OF i3 wq l3]) blast
    have r: "rt_mutex_release i k = Some (RT_EOK, k')" using rel l2 Cons b(1,2) by simp
    have tc: "t \<noteq> c" using ok own Cons by (auto simp: mutex_ok_def)
    have tl: "live k' t" "live k2 t" using b(6) wait_q_suspended [OF i3(1) wq, of t] l3
      by (auto simp: live_def)
    have dt: "t \<notin> set ts"
      using ls_wf_distinct [OF core_wf [OF sched_inv_core [OF kinvD(1) [OF inv]]], of ?q] Cons by simp
    have me: "mutexes k' i = \<lparr>m_value = 0, original_priority = current_priority (threads k t), hold = 1, owner = Some t\<rparr>"
      using env_sameD(2) [OF b(4)] m m2 d(2) [of t] tc by simp
    have "mutex_ok k' i"
      using ok me b(5) tl dt live_prio [OF k2(2) tl(2)] d(2) [of t] tc d(10) ty2 env_sameD(11) [OF b(4), of "OMutex i"]
        env_sameD(14) [OF b(4), of "OMutex i"]
      by (simp add: mutex_ok_def)
    moreover have "current_priority (threads k' c) = ?p"
      using env_sameD(21) [OF b(4), of c] d(2) [of c] by simp
    moreover have "runs_highest k'" using top d(7) lock by simp
    ultimately show ?thesis using r own True Cons b(3,5,6) me
      by (intro exI [of _ k']) simp
  qed
qed

text \<open>
  C3.  \<^verbatim>\<open>rt_mutex_release\<close> by the running thread \<open>c\<close>: another thread's mutex gives
  \<^verbatim>\<open>-RT_ERROR\<close> and stays as it is; a nested release takes one hold off; the last release puts
  \<open>c\<close> back to the priority it had when it got the mutex and either frees the mutex, or hands it
  to the first waiting thread with one hold and that thread's priority as the saved one, makes
  it ready and runs a most urgent thread.  On every branch the ownership invariant holds.
\<close>

theorem rt_mutex_release_spec:
  assumes inv: "kinv k" and st: "stacks_ok k" and cur: "current k = Some c" "stat_of k c = RT_THREAD_RUNNING"
    and ok: "mutex_ok k i" and irq: "irq_nest k = 0" and lock: "lock_nest k = 0"
  shows "\<exists>r k'. rt_mutex_release i k = Some (r, k') \<and> kinv k' \<and> mutex_ok k' i \<and>
     (if owner (mutexes k i) \<noteq> Some c
      then r = - RT_ERROR \<and> t_error (threads k' c) = - RT_ERROR \<and> mutexes k' = mutexes k \<and> thl k' = thl k
      else r = RT_EOK \<and>
        (if hold (mutexes k i) \<noteq> 1
         then owner (mutexes k' i) = Some c \<and> hold (mutexes k' i) = hold (mutexes k i) - 1 \<and>
              threads k' = threads k \<and> thl k' = thl k
         else current_priority (threads k' c) = original_priority (mutexes k i) \<and>
           (case lst (thl k) (SuspendQ (OMutex i)) of
              [] \<Rightarrow> owner (mutexes k' i) = None
            | t # ts \<Rightarrow> owner (mutexes k' i) = Some t \<and> hold (mutexes k' i) = 1 \<and>
                original_priority (mutexes k' i) = current_priority (threads k t) \<and>
                (stat_of k' t = RT_THREAD_READY \<or> stat_of k' t = RT_THREAD_RUNNING) \<and>
                lst (thl k') (SuspendQ (OMutex i)) = ts \<and> runs_highest k')))"
proof -
  have lc: "live k c" using cur(2) by (simp add: live_def)
  have ctx: "in_thread_context k" using cur(1) irq by (simp add: in_thread_context_def not_in_interrupt_def)
  have ty: "rt_object_get_type k (OMutex i) = RT_Object_Class_Mutex" using ok by (simp add: mutex_ok_def)
  show ?thesis
  proof (cases "owner (mutexes k i) = Some c")
    case False
    let ?k' = "upd_thread c (\<lambda>th. th\<lparr>t_error := - RT_ERROR\<rparr>) k"
    have "rt_mutex_release i k = Some (- RT_ERROR, ?k')"
      using False ctx ty cur(1) by (simp add: rt_mutex_release_def rt_thread_self_def)
    moreover have "mutex_ok ?k' i"
      using ok object_type_cong(1) [of ?k' k "OMutex i"] by (simp add: mutex_ok_def split: option.splits)
    ultimately show ?thesis using False inv
      by (intro exI [of _ "- RT_ERROR"] exI [of _ ?k']) (simp add: kinv_set_error)
  next
    case own: True
    let ?k1 = "upd_mutex i (\<lambda>m. m\<lparr>hold := hold m - 1\<rparr>) k"
    show ?thesis
    proof (cases "hold (mutexes k i) = 1")
      case False
      then have "rt_mutex_release i k = Some (RT_EOK, ?k1)"
        using own ctx ty cur(1) by (simp add: rt_mutex_release_def rt_thread_self_def Let_def)
      moreover have "mutex_ok ?k1 i" using ok own False by (simp add: mutex_ok_def)
      ultimately show ?thesis using False own inv
        by (intro exI [of _ RT_EOK] exI [of _ ?k1]) simp
    next
      case True
      show ?thesis using mutex_last_release [OF inv st cur ok irq lock own True] own True
        by (intro exI [of _ RT_EOK]) simp
    qed
  qed
qed

theorem rt_mutex_release_spec_witness:
  "\<exists>k'. rt_mutex_release 0 (upd_mutex 0 (\<lambda>m. m\<lparr>owner := Some 0\<rparr>) mutex_demo) = Some (RT_EOK, k') \<and>
     owner (mutexes k' 0) = None \<and> current_priority (threads k' 0) = 20"
proof -
  let ?k = "upd_mutex 0 (\<lambda>m. m\<lparr>owner := Some 0\<rparr>) mutex_demo"
  have k: "kinv ?k" "stacks_ok ?k" "current ?k = Some 0" "stat_of ?k 0 = RT_THREAD_RUNNING"
    "irq_nest ?k = 0" "lock_nest ?k = 0"
    by (simp_all add: mutex_demo_sel demo_stat)
  have "mutex_ok ?k 0"
    by (simp add: mutex_ok_def mutex_demo_sel demo_thl live_def demo_stat) (simp add: mutex_demo_def ipc_demo_type)
  from rt_mutex_release_spec [OF k(1-4) this k(5,6)] show ?thesis
    by (auto simp: mutex_demo_sel demo_thl)
qed

text \<open>
  The hold counter is one byte wide and wraps: with 255 holds two more nested takes
  succeed, after which a single release frees the mutex although 256 takes are still open.
\<close>

theorem rt_mutex_hold_wraps:
  assumes own: "owner (mutexes k i) = Some c" and h: "hold (mutexes k i) = 255"
    and cur: "current k = Some c" and irq: "irq_nest k = 0"
    and ty: "rt_object_get_type k (OMutex i) = RT_Object_Class_Mutex"
    and q: "lst (thl k) (SuspendQ (OMutex i)) = []"
    and p: "original_priority (mutexes k i) = current_priority (threads k c)"
  shows "\<exists>k1 k2 k3. rt_mutex_take i time k = Some (Some RT_EOK, k1) \<and>
           rt_mutex_take i time k1 = Some (Some RT_EOK, k2) \<and>
           rt_mutex_release i k2 = Some (RT_EOK, k3) \<and> owner (mutexes k3 i) = None"
proof -
  let ?e = "\<lambda>k. upd_thread c (\<lambda>th. th\<lparr>t_error := RT_EOK\<rparr>) k"
  let ?h = "\<lambda>k. upd_mutex i (\<lambda>m. m\<lparr>hold := hold m + 1\<rparr>) k"
  have ctx: "in_thread_context (?h (?e x))" "in_thread_context x" if "current x = Some c" "irq_nest x = 0" for x
    using that by (simp_all add: in_thread_context_def not_in_interrupt_def)
  have ty': "rt_object_get_type (?e x) r = rt_object_get_type x r" for x r by (rule object_type_cong) simp
  have take_eq: "rt_mutex_take i time x = Some (Some RT_EOK, ?h (?e x))"
    if "owner (mutexes x i) = Some c" "current x = Some c" "irq_nest x = 0"
      "rt_object_get_type x (OMutex i) = RT_Object_Class_Mutex" for x
    using that ctx by (simp add: rt_mutex_take_def rt_thread_self_def Let_def)
  let ?k2 = "?h (?e (?h (?e k)))"
  have "rt_mutex_take i time k = Some (Some RT_EOK, ?h (?e k))"
    using take_eq own cur irq ty by simp
  moreover have "rt_mutex_take i time (?h (?e k)) = Some (Some RT_EOK, ?k2)"
    by (rule take_eq) (simp_all add: own cur irq ty ty')
  moreover have "hold (mutexes ?k2 i) = 1" using h by simp
  then have "\<exists>k3. rt_mutex_release i ?k2 = Some (RT_EOK, k3) \<and> owner (mutexes k3 i) = None"
    using own cur irq q p ty ctx(1) [of "?h (?e k)"]
    by (simp add: rt_mutex_release_def rt_thread_self_def Let_def ty')
  ultimately show ?thesis by blast
qed

theorem rt_mutex_hold_wraps_witness:
  "\<exists>k1 k2 k3. rt_mutex_take 0 0 (upd_mutex 0 (\<lambda>m. m\<lparr>owner := Some 0, hold := 255, original_priority := 10\<rparr>) mutex_demo)
       = Some (Some RT_EOK, k1) \<and>
     rt_mutex_take 0 0 k1 = Some (Some RT_EOK, k2) \<and>
     rt_mutex_release 0 k2 = Some (RT_EOK, k3) \<and> owner (mutexes k3 0) = None"
  by (rule rt_mutex_hold_wraps)
    (simp_all add: mutex_demo_def ipc_demo_type ipc_demo_sel demo_thl, simp add: demo_simps)

end
