(* ===== verification/Event.thy ===== *)
theory Event
  imports Mutex
begin

text \<open>
  \<^verbatim>\<open>rt-thread/src/ipc.c\<close>, event sets: 32 flags that threads wait for, all or any of a mask of
  them, and the delivery order of a send.
\<close>

subsection \<open>Operations\<close>

definition upd_event :: "oid \<Rightarrow> (rt_event \<Rightarrow> rt_event) \<Rightarrow> kernel \<Rightarrow> kernel" where
  "upd_event i f k = k\<lparr>events := (events k)(i := f (events k i))\<rparr>"

definition rt_event_init :: "oid \<Rightarrow> u8 list \<Rightarrow> u8 \<Rightarrow> kernel \<Rightarrow> (int \<times> kernel) option" where
  "rt_event_init i name flag k =
     do {
       k1 \<leftarrow> rt_object_init (OEvent i) RT_Object_Class_Event name k;
       (_, k2) \<leftarrow> rt_ipc_object_init (SuspendQ (OEvent i)) (set_flag (OEvent i) flag k1);
       Some (RT_EOK, upd_event i (\<lambda>e. e\<lparr>e_set := 0\<rparr>) k2)
     }"

definition rt_event_detach :: "oid \<Rightarrow> kernel \<Rightarrow> (int \<times> kernel) option" where
  "rt_event_detach i k =
     do {
       RT_ASSERT (rt_object_get_type k (OEvent i) = RT_Object_Class_Event);
       RT_ASSERT (rt_object_is_systemobject k (OEvent i));
       k1 \<leftarrow> rt_ipc_list_resume_all (SuspendQ (OEvent i)) k;
       Some (RT_EOK, rt_object_detach (OEvent i) k1)
     }"

definition rt_event_create :: "u8 list \<Rightarrow> u8 \<Rightarrow> oid option \<Rightarrow> kernel \<Rightarrow> (oid option \<times> kernel) option" where
  "rt_event_create name flag mem k =
     do {
       RT_ASSERT (not_in_interrupt k);
       (_, k1) \<leftarrow> rt_object_allocate RT_Object_Class_Event name (map_option OEvent mem) k;
       (case mem of
          None \<Rightarrow> Some (None, k1)
        | Some i \<Rightarrow> do {
            (_, k2) \<leftarrow> rt_ipc_object_init (SuspendQ (OEvent i)) (set_flag (OEvent i) flag k1);
            Some (Some i, upd_event i (\<lambda>e. e\<lparr>e_set := 0\<rparr>) k2)
          })
     }"

definition rt_event_delete :: "oid \<Rightarrow> kernel \<Rightarrow> (int \<times> kernel) option" where
  "rt_event_delete i k =
     do {
       RT_ASSERT (rt_object_get_type k (OEvent i) = RT_Object_Class_Event);
       RT_ASSERT (\<not> rt_object_is_systemobject k (OEvent i));
       RT_ASSERT (not_in_interrupt k);
       k1 \<leftarrow> rt_ipc_list_resume_all (SuspendQ (OEvent i)) k;
       k2 \<leftarrow> rt_object_delete (OEvent i) k1;
       Some (RT_EOK, k2)
     }"

text \<open>Whether the flags \<open>e\<close> meet a wait for \<open>s\<close> with option \<open>opt\<close>; AND takes precedence.\<close>

definition event_match :: "u32 \<Rightarrow> u8 \<Rightarrow> u32 \<Rightarrow> bool" where
  "event_match s opt e =
     (if opt AND RT_EVENT_FLAG_AND \<noteq> 0 then s AND e = s
      else if opt AND RT_EVENT_FLAG_OR \<noteq> 0 then s AND e \<noteq> 0
      else False)"




text \<open>The second component is what the call stores through \<^verbatim>\<open>recved\<close>, when that is not null.\<close>

definition rt_event_recv ::
  "oid \<Rightarrow> u32 \<Rightarrow> u8 \<Rightarrow> int \<Rightarrow> kernel \<Rightarrow> (int option \<times> u32 option \<times> kernel) option" where
  "rt_event_recv i s opt timeout k =
     do {
       RT_ASSERT (in_thread_context k);
       RT_ASSERT (rt_object_get_type k (OEvent i) = RT_Object_Class_Event);
       (if s = 0 then Some (Some (- RT_ERROR), None, k)
        else do {
          t \<leftarrow> rt_thread_self k;
          let k1 = upd_thread t (\<lambda>th. th\<lparr>t_error := RT_EOK\<rparr>) k;
          RT_ASSERT (opt AND RT_EVENT_FLAG_AND \<noteq> 0 \<or> opt AND RT_EVENT_FLAG_OR \<noteq> 0);
          (if event_match s opt (e_set (events k1 i))
           then Some (Some RT_EOK, Some (e_set (events k1 i) AND s),
                  if opt AND RT_EVENT_FLAG_CLEAR \<noteq> 0
                  then upd_event i (\<lambda>e. e\<lparr>e_set := e_set e AND NOT s\<rparr>) k1 else k1)
           else if timeout = 0
           then Some (Some (- RT_ETIMEOUT), None,
                  upd_thread t (\<lambda>th. th\<lparr>t_error := - RT_ETIMEOUT\<rparr>) k1)
           else do {
             let k2 = upd_thread t (\<lambda>th. th\<lparr>event_set := s, event_info := opt\<rparr>) k1;
             k3 \<leftarrow> ipc_wait (SuspendQ (OEvent i)) t (o_flag (hdr k2 (OEvent i))) timeout k2;
             k4 \<leftarrow> rt_schedule k3;
             Some (None, None, k4)
           })
        })
     }"


definition rt_event_control :: "oid \<Rightarrow> nat \<Rightarrow> kernel \<Rightarrow> (int \<times> kernel) option" where
  "rt_event_control i cmd k =
     do {
       RT_ASSERT (rt_object_get_type k (OEvent i) = RT_Object_Class_Event);
       (if cmd = RT_IPC_CMD_RESET
        then do {
          k1 \<leftarrow> rt_ipc_list_resume_all (SuspendQ (OEvent i)) k;
          k2 \<leftarrow> rt_schedule (upd_event i (\<lambda>e. e\<lparr>e_set := 0\<rparr>) k1);
          Some (RT_EOK, k2)
        }
        else Some (- RT_ERROR, k))
     }"

subsection \<open>Delivery\<close>


definition wants :: "kernel \<Rightarrow> tid \<Rightarrow> u32 \<times> u8" where
  "wants k t = (event_set (threads k t), event_info (threads k t))"

definition event_ok :: "kernel \<Rightarrow> oid \<Rightarrow> bool" where
  "event_ok k i \<longleftrightarrow>
     rt_object_get_type k (OEvent i) = RT_Object_Class_Event \<and>
     (o_flag (hdr k (OEvent i)) = RT_IPC_FLAG_FIFO \<or> o_flag (hdr k (OEvent i)) = RT_IPC_FLAG_PRIO) \<and>
     (\<forall>t \<in> set (lst (thl k) (SuspendQ (OEvent i))).
        \<not> event_match (fst (wants k t)) (snd (wants k t)) (e_set (events k i)))"

lemma event_match_mono:
  assumes "\<not> event_match s opt e" and "e' AND e = e'"
  shows "\<not> event_match s opt e'"
proof -
  have 1: "s AND e = s" if "s AND e' = s"
    using assms(2) that by (metis and.assoc)
  have 2: "s AND e' = 0" if "s AND e = 0"
  proof -
    have "s AND e' = (s AND e) AND e'" using assms(2) by (metis and.assoc and.commute)
    with that show ?thesis by simp
  qed
  show ?thesis using assms(1) 1 2 by (auto simp: event_match_def split: if_splits)
qed

lemma and_not_and: "(if b then e AND NOT x else e) AND e = (if b then e AND NOT x else e :: u32)"
proof -
  have "(e AND NOT x) AND e = e AND NOT x" by (rule bit_word_eqI) (auto simp: bit_simps)
  then show ?thesis using and.idem [of e] by (cases b) (simp_all only: if_True if_False)
qed






subsection \<open>The loop delivers\<close>


lemma upd_event_sel [simp]:
  "kinv (upd_event i f k) = kinv k" "stacks_ok (upd_event i f k) = stacks_ok k" "thl (upd_event i f k) = thl k"
  "hdr (upd_event i f k) = hdr k" "threads (upd_event i f k) = threads k" "current (upd_event i f k) = current k"
  "lock_nest (upd_event i f k) = lock_nest k" "irq_nest (upd_event i f k) = irq_nest k"
  "tml (upd_event i f k) = tml k" "timers (upd_event i f k) = timers k" "tick (upd_event i f k) = tick k"
  "stat_of (upd_event i f k) t = stat_of k t" "prio_of (upd_event i f k) t = prio_of k t"
  "live (upd_event i f k) t = live k t"
  "events (upd_event i f k) = (events k)(i := f (events k i))"
  "rt_object_get_type (upd_event i f k) r = rt_object_get_type k r"
  "wants (upd_event i f k) t = wants k t"
  by (simp_all add: upd_event_def rt_object_get_type_def live_def wants_def)

text \<open>Writing a thread's event mask and option concerns no invariant.\<close>

lemma set_wants_sel:
  "kinv (upd_thread t (\<lambda>th. th\<lparr>event_set := s th, event_info := j th\<rparr>) k) = kinv k"
  "stacks_ok (upd_thread t (\<lambda>th. th\<lparr>event_set := s th, event_info := j th\<rparr>) k) = stacks_ok k"
  "stat_of (upd_thread t (\<lambda>th. th\<lparr>event_set := s th, event_info := j th\<rparr>) k) u = stat_of k u"
  "t_error (threads (upd_thread t (\<lambda>th. th\<lparr>event_set := s th, event_info := j th\<rparr>) k) u) = t_error (threads k u)"
  "current_priority (threads (upd_thread t (\<lambda>th. th\<lparr>event_set := s th, event_info := j th\<rparr>) k) u) =
     current_priority (threads k u)"
  "rt_object_get_type (upd_thread t g k) r = rt_object_get_type k r"
proof -
  let ?k = "upd_thread t (\<lambda>th. th\<lparr>event_set := s th, event_info := j th\<rparr>) k"
  show st: "stat_of ?k u = stat_of k u" for u by (simp add: stat_of_def)
  show "kinv ?k = kinv k" by (rule kinv_cong) (simp_all add: stat_of_def prio_of_def)
  have "stack_ok (threads ?k u) = stack_ok (threads k u)" for u by (simp add: stack_ok_def)
  then show "stacks_ok ?k = stacks_ok k" by (simp add: stacks_ok_def live_def st)
  show "rt_object_get_type (upd_thread t g k) r = rt_object_get_type k r" by (rule object_type_cong) simp
qed simp_all







text \<open>A kernel in which thread 4 waits for any of the flags 6, taking what it gets out of the set.\<close>

definition event_demo :: kernel where
  "event_demo = upd_thread 4 (\<lambda>th. th\<lparr>event_set := 6, event_info := RT_EVENT_FLAG_OR OR RT_EVENT_FLAG_CLEAR\<rparr>)
     (ipc_demo\<lparr>thl := (thl ipc_demo)\<lparr>lst := (\<lambda>_. [])(ReadyQ 10 := [1], ReadyQ 20 := [2], SuspendQ (OEvent 0) := [4]),
        own := (own (thl ipc_demo))(4 := Some (SuspendQ (OEvent 0)))\<rparr>\<rparr>)"

lemma event_demo_sel: "current event_demo = Some 0" "irq_nest event_demo = 0" "lock_nest event_demo = 0"
  "stat_of event_demo t = stat_of demo_kernel t" "prio_of event_demo t = prio_of demo_kernel t"
  "lst (thl event_demo) q = (if q = SuspendQ (OEvent 0) then [4] else if q = SuspendQ (OSem 0) then []
     else lst (thl demo_kernel) q)"
  "own (thl event_demo) t = (if t = 4 then Some (SuspendQ (OEvent 0)) else own (thl demo_kernel) t)"
  "hdr event_demo = hdr ipc_demo" "tml event_demo = tml ipc_demo" "timers event_demo = timers ipc_demo"
  "ready_group event_demo = ready_group demo_kernel" "e_set (events event_demo i) = 0"
  "rt_object_get_type event_demo r = rt_object_get_type ipc_demo r"
  "wants event_demo 4 = (6, 6)" "t_error (threads event_demo t) = 0"
  "stack_ok (threads event_demo t) = stack_ok (threads ipc_demo t)"
  "number_mask (threads event_demo t) = number_mask (threads demo_kernel t)"
  by (simp_all add: event_demo_def stat_of_def prio_of_def wants_def ipc_demo_sel stack_ok_def
      rt_object_get_type_def) (simp_all add: demo_simps ipc_demo_def sleep_demo_def timer_demo_def)

lemma event_demo_kinv: "kinv event_demo"
proof -
  have "thread_ok event_demo t" for t
    using core_thread_ok [OF sched_inv_core [OF demo_inv], of t]
    by (auto simp: thread_ok_def event_demo_sel demo_thl demo_stat)
  moreover have "ls_wf (thl event_demo)" by (auto simp: ls_wf_def event_demo_sel demo_thl)
  ultimately have "sched_inv event_demo"
    using demo_inv by (simp add: sched_inv_def core_except_def cur_ok_def event_demo_sel demo_sel)
  moreover have "timer_inv event_demo"
    using kinvD(2) [OF ipc_demo_kinv] timer_inv_cong [of event_demo ipc_demo] by (simp add: event_demo_sel)
  moreover have "thread_objs_ok event_demo t = thread_objs_ok ipc_demo t" for t
    by (rule thread_objs_ok_cong) (simp_all add: event_demo_sel)
  ultimately show ?thesis
    using kinvD(3,4) [OF ipc_demo_kinv]
    by (simp add: kinv_def event_demo_sel live_def ipc_demo_stat)
qed

lemma event_demo_stacks: "stacks_ok event_demo"
  using ipc_demo_stacks by (simp add: stacks_ok_def live_def event_demo_sel ipc_demo_stat)

lemma event_demo_ok: "event_ok event_demo 0"
  by (simp add: event_ok_def event_demo_sel ipc_demo_type ipc_demo_sel event_match_def)


text \<open>
  \<^verbatim>\<open>rt_event_recv\<close> by the running thread: when the flags meet the condition it returns
  those it asked for, and with CLEAR takes exactly its mask out of the set; otherwise it times out
  at once without waiting time, or waits with its mask and option recorded.  On every branch
  no thread is left waiting for a condition that the flags meet.
\<close>

theorem rt_event_recv_spec:
  assumes inv: "kinv k" and st: "stacks_ok k" and cur: "current k = Some c" "stat_of k c = RT_THREAD_RUNNING"
    and ok: "event_ok k i" and irq: "irq_nest k = 0" and lock: "lock_nest k = 0" and t: "time < 0x7fffffff"
    and idle: "stat_of k u = RT_THREAD_READY" and s: "s \<noteq> 0"
    and opt: "opt AND RT_EVENT_FLAG_AND \<noteq> 0 \<or> opt AND RT_EVENT_FLAG_OR \<noteq> 0"
  shows "\<exists>r v k'. rt_event_recv i s opt time k = Some (r, v, k') \<and> kinv k' \<and> event_ok k' i \<and>
     (if event_match s opt (e_set (events k i))
      then r = Some RT_EOK \<and> v = Some (e_set (events k i) AND s) \<and> thl k' = thl k \<and>
           e_set (events k' i) = (if opt AND RT_EVENT_FLAG_CLEAR \<noteq> 0 then e_set (events k i) AND NOT s
                                  else e_set (events k i))
      else v = None \<and> e_set (events k' i) = e_set (events k i) \<and>
       (if time = 0 then r = Some (- RT_ETIMEOUT) \<and> thl k' = thl k
        else r = None \<and> stat_of k' c = RT_THREAD_SUSPEND \<and> wants k' c = (s, opt) \<and> runs_highest k' \<and>
             lst (thl k') (SuspendQ (OEvent i)) =
               insert_at (flag_before (o_flag (hdr k (OEvent i))) k c) c (lst (thl k) (SuspendQ (OEvent i)))))"
proof -
  let ?e = "e_set (events k i)" and ?q = "SuspendQ (OEvent i)" and ?f = "o_flag (hdr k (OEvent i))"
  let ?k1 = "upd_thread c (\<lambda>th. th\<lparr>t_error := RT_EOK\<rparr>) k"
  have ctx: "in_thread_context k" using cur(1) irq by (simp add: in_thread_context_def not_in_interrupt_def)
  have ty: "rt_object_get_type k (OEvent i) = RT_Object_Class_Event" using ok by (simp add: event_ok_def)
  have inv1: "kinv ?k1" using inv by (simp add: kinv_set_error)
  have w: "wants (upd_thread c (\<lambda>th. th\<lparr>t_error := x\<rparr>) y) v = wants y v" for x y v by (simp add: wants_def)
  have ty': "rt_object_get_type (upd_thread c g y) r = rt_object_get_type y r" for g y r by (rule object_type_cong) simp
  show ?thesis
  proof (cases "event_match s opt ?e")
    case True
    let ?k' = "if opt AND RT_EVENT_FLAG_CLEAR \<noteq> 0 then upd_event i (\<lambda>e. e\<lparr>e_set := e_set e AND NOT s\<rparr>) ?k1 else ?k1"
    let ?c = "if opt AND RT_EVENT_FLAG_CLEAR \<noteq> 0 then ?e AND NOT s else ?e"
    have r: "rt_event_recv i s opt time k = Some (Some RT_EOK, Some (?e AND s), ?k')"
      using True ctx ty s opt cur(1) by (simp add: rt_event_recv_def rt_thread_self_def)
    have c: "?c AND ?e = ?c" by (rule and_not_and)
    have nm: "\<forall>t \<in> set (lst (thl k) ?q). \<not> event_match (fst (wants k t)) (snd (wants k t)) ?c"
      using ok by (intro ballI event_match_mono [OF _ c]) (simp add: event_ok_def)
    have f: "e_set (events ?k' i) = ?c" "thl ?k' = thl k" "hdr ?k' = hdr k"
      "rt_object_get_type ?k' r = rt_object_get_type k r" "wants ?k' v = wants k v" "kinv ?k'" for r v
      using inv inv1 by (simp_all add: w ty')
    have "event_ok ?k' i" unfolding event_ok_def f using ok nm unfolding event_ok_def by blast
    with r True f(1,2,6) show ?thesis
      by (intro exI [of _ "Some RT_EOK"] exI [of _ "Some (?e AND s)"] exI [of _ ?k']) (simp only: if_True simp_thms)
  next
    case nm: False
    show ?thesis
    proof (cases "time = 0")
      case True
      let ?k' = "upd_thread c (\<lambda>th. th\<lparr>t_error := - RT_ETIMEOUT\<rparr>) ?k1"
      have "rt_event_recv i s opt time k = Some (Some (- RT_ETIMEOUT), None, ?k')"
        using nm True ctx ty s opt cur(1) by (simp add: rt_event_recv_def rt_thread_self_def)
      moreover have "event_ok ?k' i" using ok by (simp add: event_ok_def w ty')
      ultimately show ?thesis using nm True inv1
        by (intro exI [of _ "Some (- RT_ETIMEOUT)"] exI [of _ None] exI [of _ ?k']) (simp add: kinv_set_error)
    next
      case time: False
      let ?k2 = "upd_thread c (\<lambda>th. th\<lparr>event_set := s, event_info := opt\<rparr>) ?k1"
      note sw = set_wants_sel(1-5) [where t = c and s = "\<lambda>_. s" and j = "\<lambda>_. opt" and k = ?k1]
      have i2: "kinv ?k2" "stacks_ok ?k2" "current ?k2 = Some c" "stat_of ?k2 c = RT_THREAD_RUNNING"
        using inv1 cur st by (simp_all add: sw(1,2,3)) (simp add: stacks_ok_def stack_ok_def)
      have fl: "?f = RT_IPC_FLAG_FIFO \<or> ?f = RT_IPC_FLAG_PRIO" using ok by (simp add: event_ok_def)
      have wq: "wait_q ?q" by simp
      obtain k3 k' where b: "ipc_wait ?q c ?f time (upd_thread c (\<lambda>th. th\<lparr>t_error := RT_EOK\<rparr>) ?k2) = Some k3"
        "rt_schedule k3 = Some k'" "kinv k'" "env_same ?k2 k'"
        "lst (thl k') ?q = insert_at (flag_before ?f ?k2 c) c (lst (thl ?k2) ?q)"
        "stat_of k' c = RT_THREAD_SUSPEND" "runs_highest k'"
        by (rule block_spec [OF i2 wq fl t, where u = u]) (use lock idle in \<open>auto simp: sw(3)\<close>)
      have id: "upd_thread c (\<lambda>th. th\<lparr>t_error := RT_EOK\<rparr>) ?k2 = ?k2" by (rule upd_thread_id) simp
      have fb: "flag_before ?f ?k2 c = flag_before ?f k c" by (simp add: flag_before_def fun_eq_iff)
      have r: "rt_event_recv i s opt time k = Some (None, None, k')"
        using nm time ctx ty s opt cur(1) b(1,2) id by (simp add: rt_event_recv_def rt_thread_self_def)
      have e': "e_set (events k' i) = ?e" using env_sameD(3) [OF b(4)] by simp
      have w': "wants k' v = (if v = c then (s, opt) else wants k v)" for v
        by (simp add: wants_def env_sameD(18,19) [OF b(4)])
      have lq: "lst (thl k') ?q = insert_at (flag_before ?f k c) c (lst (thl k) ?q)" using b(5) fb by simp
      have "event_ok k' i"
        using ok nm e' lq env_sameD(11) [OF b(4), of "OEvent i"] env_sameD(14) [OF b(4), of "OEvent i"]
        by (simp add: event_ok_def w' ty')
      with r nm time b(3,6,7) e' w' lq show ?thesis
        by (intro exI [of _ None] exI [of _ k']) simp
    qed
  qed
qed

theorem rt_event_recv_spec_witness:
  "\<exists>k'. rt_event_recv 0 9 RT_EVENT_FLAG_AND 20 event_demo = Some (None, None, k') \<and> wants k' 0 = (9, 1) \<and>
     lst (thl k') (SuspendQ (OEvent 0)) = [4, 0]"
  using rt_event_recv_spec [OF event_demo_kinv event_demo_stacks event_demo_sel(1) _ event_demo_ok
      event_demo_sel(2,3), of 20 1 9 RT_EVENT_FLAG_AND]
  by (auto simp: event_demo_sel demo_stat event_match_def ipc_demo_sel flag_before_def)

end
