(* ===== verification/Fifo.thy ===== *)
theory Fifo
  imports Rt_Prelude
begin

text \<open>
  What the buffers of the kernel and of the driver layer have in common: the contents of a
  circular array as a list, and the interface of a bounded queue with the facts that
  hold of every implementation of it.
\<close>

subsection \<open>The contents of a circular array\<close>

text \<open>\<open>ring_slice a n i c\<close>: the \<open>c\<close> elements from index \<open>i\<close> on, in an array of \<open>n\<close> elements.\<close>

definition ring_slice :: "'a list \<Rightarrow> nat \<Rightarrow> nat \<Rightarrow> nat \<Rightarrow> 'a list" where
  "ring_slice a n i c = map (\<lambda>j. a ! ((i + j) mod n)) [0..<c]"

lemma length_ring_slice [simp]: "length (ring_slice a n i c) = c"
  by (simp add: ring_slice_def)

lemma ring_slice_0 [simp]: "ring_slice a n i 0 = []"
  by (simp add: ring_slice_def)

lemma ring_slice_eq_Nil [simp]: "ring_slice a n i c = [] \<longleftrightarrow> c = 0"
  by (simp add: ring_slice_def)

lemma nth_ring_slice [simp]: "j < c \<Longrightarrow> ring_slice a n i c ! j = a ! ((i + j) mod n)"
  by (simp add: ring_slice_def)

text \<open>Positions less than \<open>n\<close> apart are different cells.\<close>

lemma ring_index_inj:
  assumes "(i + j) mod n = (i + l) mod (n :: nat)" "j < n" "l < n"
  shows "j = l"
proof -
  have le: "j = l" if "(i + j) mod n = (i + l) mod n" "j \<le> l" "l < n" for j l :: nat
  proof -
    have "n dvd l - j" using that mod_eq_dvd_iff_nat [of "i + j" "i + l" n] by simp
    then show ?thesis using that by (cases "l = j") (auto dest: dvd_imp_le)
  qed
  show ?thesis using le [of j l] le [of l j] assms by (cases "j \<le> l") auto
qed

lemma ring_slice_put:
  assumes "c < n" "n \<le> length a"
  shows "ring_slice (a[(i + c) mod n := x]) n i (Suc c) = ring_slice a n i c @ [x]"
proof (rule nth_equalityI)
  fix j assume "j < length (ring_slice (a[(i + c) mod n := x]) n i (Suc c))"
  then have j: "j < Suc c" by simp
  have l: "(i + c) mod n < length a" using assms by (intro less_le_trans [OF mod_less_divisor]) auto
  show "ring_slice (a[(i + c) mod n := x]) n i (Suc c) ! j = (ring_slice a n i c @ [x]) ! j"
  proof (cases "j = c")
    case True
    then show ?thesis using l by (simp add: nth_append)
  next
    case False
    then have "(i + c) mod n \<noteq> (i + j) mod n" using ring_index_inj [of i c n j] j assms by auto
    with False j show ?thesis by (simp add: nth_append)
  qed
qed simp

lemma ring_slice_get:
  "0 < n \<Longrightarrow> ring_slice a n i (Suc c) = a ! (i mod n) # ring_slice a n (Suc i mod n) c"
  by (rule nth_equalityI) (auto simp: nth_Cons mod_simps split: nat.split)

lemma ring_slice_mod: "ring_slice a n (i mod n) c = ring_slice a n i c"
  by (simp add: ring_slice_def mod_simps)

lemma ring_slice_append:
  "ring_slice a n i (c + d) = ring_slice a n i c @ ring_slice a n (i + c) d"
  by (rule nth_equalityI) (auto simp: nth_append)

text \<open>A stretch that does not wrap around, and one that does.\<close>

lemma ring_slice_straight:
  assumes "i + c \<le> n" "n \<le> length a"
  shows "ring_slice a n i c = take c (drop i a)"
proof (rule nth_equalityI)
  fix j assume "j < length (ring_slice a n i c)"
  then show "ring_slice a n i c ! j = take c (drop i a) ! j" using assms by simp
qed (use assms in simp)

lemma ring_slice_wrap:
  assumes "i < n" "n \<le> i + c" "c \<le> n" "n \<le> length a"
  shows "ring_slice a n i c = take (n - i) (drop i a) @ take (c - (n - i)) a"
proof -
  have "ring_slice a n i (n - i + (c - (n - i))) = ring_slice a n i (n - i) @ ring_slice a n (i + (n - i)) (c - (n - i))"
    by (rule ring_slice_append)
  moreover have "ring_slice a n (i + (n - i)) (c - (n - i)) = ring_slice a n 0 (c - (n - i))"
    using ring_slice_mod [of a n "i + (n - i)"] assms(1) by simp
  ultimately show ?thesis
    using assms ring_slice_straight [of i "n - i" n a] ring_slice_straight [of 0 "c - (n - i)" n a] by simp
qed

subsection \<open>Bounded queues\<close>

text \<open>
  \<open>offer x s\<close> says whether \<open>x\<close> is taken, \<open>fetch s\<close> gives the oldest item or none, each with the
  state it leaves, also when it refuses; \<open>None\<close> is a call that fails.  \<open>contents\<close> is oldest first.
  \<open>good n s\<close>: the state \<open>s\<close> is well-formed and has room in its counters for \<open>n\<close> more offers.
\<close>

locale bounded_fifo =
  fixes offer :: "'a \<Rightarrow> 's \<Rightarrow> (bool \<times> 's) option"
    and fetch :: "'s \<Rightarrow> ('a option \<times> 's) option"
    and contents :: "'s \<Rightarrow> 'a list"
    and capacity :: "'s \<Rightarrow> nat"
    and fits :: "'s \<Rightarrow> 'a \<Rightarrow> bool"
    and good :: "nat \<Rightarrow> 's \<Rightarrow> bool"
  assumes bound: "good n s \<Longrightarrow> length (contents s) \<le> capacity s"
    and offer_full: "good (Suc n) s \<Longrightarrow> length (contents s) = capacity s \<Longrightarrow> fits s x \<Longrightarrow>
      \<exists>s'. offer x s = Some (False, s') \<and> good n s' \<and> contents s' = contents s \<and> capacity s' = capacity s \<and>
           (\<forall>y. fits s' y = fits s y)"
    and offer_ok: "good (Suc n) s \<Longrightarrow> length (contents s) < capacity s \<Longrightarrow> fits s x \<Longrightarrow>
      \<exists>s'. offer x s = Some (True, s') \<and> good n s' \<and> contents s' = contents s @ [x] \<and> capacity s' = capacity s \<and>
           (\<forall>y. fits s' y = fits s y)"
    and fetch_empty: "good n s \<Longrightarrow> contents s = [] \<Longrightarrow>
      \<exists>s'. fetch s = Some (None, s') \<and> good n s' \<and> contents s' = [] \<and> capacity s' = capacity s \<and>
           (\<forall>y. fits s' y = fits s y)"
    and fetch_ok: "good n s \<Longrightarrow> contents s = x # xs \<Longrightarrow>
      \<exists>s'. fetch s = Some (Some x, s') \<and> good n s' \<and> contents s' = xs \<and> capacity s' = capacity s \<and>
           (\<forall>y. fits s' y = fits s y)"

text \<open>
  A run of offers and fetches, with what each returns; every call goes on from the state the one
  before it has left, and a call that fails ends the run.  And the same run on a list of bounded length.
\<close>

datatype 'a fifo_op = Offer 'a | Fetch
datatype 'a fifo_result = Accepted | Refused | Item 'a | Empty

fun fifo_step :: "('a \<Rightarrow> 's \<Rightarrow> (bool \<times> 's) option) \<Rightarrow> ('s \<Rightarrow> ('a option \<times> 's) option) \<Rightarrow> 'a fifo_op \<Rightarrow> 's \<Rightarrow>
    ('a fifo_result \<times> 's) option" where
  "fifo_step offer fetch (Offer x) s = map_option (\<lambda>(b, s'). (if b then Accepted else Refused, s')) (offer x s)"
| "fifo_step offer fetch Fetch s = map_option (\<lambda>(r, s'). (case r of Some x \<Rightarrow> Item x | None \<Rightarrow> Empty, s')) (fetch s)"

fun fifo_run :: "('a \<Rightarrow> 's \<Rightarrow> (bool \<times> 's) option) \<Rightarrow> ('s \<Rightarrow> ('a option \<times> 's) option) \<Rightarrow> 'a fifo_op list \<Rightarrow> 's \<Rightarrow>
    ('a fifo_result list \<times> 's) option" where
  "fifo_run offer fetch [] s = Some ([], s)"
| "fifo_run offer fetch (op # ops) s =
     do {
       (r, s1) \<leftarrow> fifo_step offer fetch op s;
       (rs, s2) \<leftarrow> fifo_run offer fetch ops s1;
       Some (r # rs, s2)
     }"

fun queue_step :: "nat \<Rightarrow> 'a fifo_op \<Rightarrow> 'a list \<Rightarrow> 'a fifo_result \<times> 'a list" where
  "queue_step n (Offer x) q = (if length q < n then (Accepted, q @ [x]) else (Refused, q))"
| "queue_step n Fetch [] = (Empty, [])"
| "queue_step n Fetch (x # q) = (Item x, q)"

fun queue_run :: "nat \<Rightarrow> 'a fifo_op list \<Rightarrow> 'a list \<Rightarrow> 'a fifo_result list \<times> 'a list" where
  "queue_run n [] q = ([], q)"
| "queue_run n (op # ops) q = (let (r, q1) = queue_step n op q; (rs, q2) = queue_run n ops q1 in (r # rs, q2))"

fun offered :: "'a fifo_op list \<Rightarrow> 'a list" where
  "offered [] = []"
| "offered (Offer x # ops) = x # offered ops"
| "offered (Fetch # ops) = offered ops"

context bounded_fifo begin

text \<open>One call, and then every run, gives the results of the bounded list and leaves its contents.\<close>

lemma step_refines:
  assumes "good (length (offered (op # ops))) s" "\<forall>x \<in> set (offered (op # ops)). fits s x"
  shows "\<exists>s'. fifo_step offer fetch op s = Some (fst (queue_step (capacity s) op (contents s)), s') \<and>
    good (length (offered ops)) s' \<and> (\<forall>x \<in> set (offered ops). fits s' x) \<and>
    contents s' = snd (queue_step (capacity s) op (contents s)) \<and> capacity s' = capacity s"
proof (cases op)
  case (Offer x)
  have "length (contents s) < capacity s \<or> length (contents s) = capacity s" using bound [OF assms(1)] by linarith
  then show ?thesis
  proof
    assume "length (contents s) < capacity s"
    then show ?thesis using offer_ok [of "length (offered ops)" s x] assms Offer by fastforce
  next
    assume "length (contents s) = capacity s"
    then show ?thesis using offer_full [of "length (offered ops)" s x] assms Offer by fastforce
  qed
next
  case Fetch
  show ?thesis
  proof (cases "contents s")
    case Nil
    then show ?thesis using fetch_empty [of "length (offered ops)" s] assms Fetch by fastforce
  next
    case (Cons x xs)
    then show ?thesis using fetch_ok [of "length (offered ops)" s x xs] assms Fetch by fastforce
  qed
qed

lemma run_refines:
  assumes "good (length (offered ops)) s" "\<forall>x \<in> set (offered ops). fits s x"
  shows "\<exists>s'. fifo_run offer fetch ops s = Some (fst (queue_run (capacity s) ops (contents s)), s') \<and> good 0 s' \<and>
           contents s' = snd (queue_run (capacity s) ops (contents s)) \<and> capacity s' = capacity s"
  using assms
proof (induction ops arbitrary: s)
  case Nil
  then show ?case by simp
next
  case (Cons op ops)
  from step_refines [OF Cons.prems] obtain s1 where
    s1: "fifo_step offer fetch op s = Some (fst (queue_step (capacity s) op (contents s)), s1)"
      "good (length (offered ops)) s1" "\<forall>x \<in> set (offered ops). fits s1 x"
      "contents s1 = snd (queue_step (capacity s) op (contents s))" "capacity s1 = capacity s" by blast
  from Cons.IH [OF s1(2,3)] obtain s' where
    "fifo_run offer fetch ops s1 = Some (fst (queue_run (capacity s1) ops (contents s1)), s')" "good 0 s'"
    "contents s' = snd (queue_run (capacity s1) ops (contents s1))" "capacity s' = capacity s1" by blast
  with s1 show ?case by (simp add: split_beta)
qed

end

end
