(* ===== verification/Mailbox.thy ===== *)
theory Mailbox
  imports Event Fifo
begin

text \<open>
  \<^verbatim>\<open>rt-thread/src/ipc.c\<close>, mailboxes: a circular array of words with a list of waiting
  receivers and a list of waiting senders; as a bounded queue.
\<close>

subsection \<open>Operations\<close>

definition upd_mb :: "oid \<Rightarrow> (rt_mailbox \<Rightarrow> rt_mailbox) \<Rightarrow> kernel \<Rightarrow> kernel" where
  "upd_mb i f k = k\<lparr>mailboxes := (mailboxes k)(i := f (mailboxes k i))\<rparr>"

definition rt_mb_init :: "oid \<Rightarrow> u8 list \<Rightarrow> u32 list \<Rightarrow> u32 \<Rightarrow> u8 \<Rightarrow> kernel \<Rightarrow> (int \<times> kernel) option" where
  "rt_mb_init i name msgpool n flag k =
     do {
       k1 \<leftarrow> rt_object_init (OMailbox i) RT_Object_Class_MailBox name k;
       (_, k2) \<leftarrow> rt_ipc_object_init (SuspendQ (OMailbox i)) (set_flag (OMailbox i) flag k1);
       (_, k3) \<leftarrow> rt_ipc_object_init (SenderQ (OMailbox i))
         (upd_mb i (\<lambda>m. m\<lparr>msg_pool := msgpool, mb_size := ucast n, mb_entry := 0, in_offset := 0, out_offset := 0\<rparr>) k2);
       Some (RT_EOK, k3)
     }"

definition rt_mb_detach :: "oid \<Rightarrow> kernel \<Rightarrow> (int \<times> kernel) option" where
  "rt_mb_detach i k =
     do {
       RT_ASSERT (rt_object_get_type k (OMailbox i) = RT_Object_Class_MailBox);
       RT_ASSERT (rt_object_is_systemobject k (OMailbox i));
       k1 \<leftarrow> rt_ipc_list_resume_all (SuspendQ (OMailbox i)) k;
       k2 \<leftarrow> rt_ipc_list_resume_all (SenderQ (OMailbox i)) k1;
       Some (RT_EOK, rt_object_detach (OMailbox i) k2)
     }"

text \<open>\<open>pool\<close> is what \<^verbatim>\<open>RT_KERNEL_MALLOC\<close> returns for the messages.\<close>

definition rt_mb_create ::
  "u8 list \<Rightarrow> u32 \<Rightarrow> u8 \<Rightarrow> oid option \<Rightarrow> u32 list option \<Rightarrow> kernel \<Rightarrow> (oid option \<times> kernel) option" where
  "rt_mb_create name n flag mem pool k =
     do {
       RT_ASSERT (not_in_interrupt k);
       (_, k1) \<leftarrow> rt_object_allocate RT_Object_Class_MailBox name (map_option OMailbox mem) k;
       (case mem of
          None \<Rightarrow> Some (None, k1)
        | Some i \<Rightarrow> do {
            (_, k2) \<leftarrow> rt_ipc_object_init (SuspendQ (OMailbox i)) (set_flag (OMailbox i) flag k1);
            let k3 = upd_mb i (\<lambda>m. m\<lparr>mb_size := ucast n\<rparr>) k2;
            (case pool of
               None \<Rightarrow> do { k4 \<leftarrow> rt_object_delete (OMailbox i) k3; Some (None, k4) }
             | Some p \<Rightarrow> do {
                 (_, k4) \<leftarrow> rt_ipc_object_init (SenderQ (OMailbox i))
                   (upd_mb i (\<lambda>m. m\<lparr>msg_pool := p, mb_entry := 0, in_offset := 0, out_offset := 0\<rparr>) k3);
                 Some (Some i, k4)
               })
          })
     }"

definition rt_mb_delete :: "oid \<Rightarrow> kernel \<Rightarrow> (int \<times> kernel) option" where
  "rt_mb_delete i k =
     do {
       RT_ASSERT (not_in_interrupt k);
       RT_ASSERT (rt_object_get_type k (OMailbox i) = RT_Object_Class_MailBox);
       RT_ASSERT (\<not> rt_object_is_systemobject k (OMailbox i));
       k1 \<leftarrow> rt_ipc_list_resume_all (SuspendQ (OMailbox i)) k;
       k2 \<leftarrow> rt_ipc_list_resume_all (SenderQ (OMailbox i)) k1;
       k3 \<leftarrow> rt_object_delete (OMailbox i) k2;
       Some (RT_EOK, k3)
     }"

text \<open>
  The waiting time left after a wait from tick \<open>start\<close> to tick \<open>now\<close>: \<^verbatim>\<open>timeout -= tick_delta\<close> is
  unsigned and read back as a signed number.
\<close>

definition time_left :: "int \<Rightarrow> u32 \<Rightarrow> u32 \<Rightarrow> int" where
  "time_left timeout start now =
     (if timeout > 0
      then let r = sint ((of_int timeout :: u32) - (now - start)) in if r < 0 then 0 else r
      else timeout)"

text \<open>Storing a message and fetching one, after the loops have found room and a message.\<close>

definition mb_store :: "u32 \<Rightarrow> rt_mailbox \<Rightarrow> rt_mailbox option" where
  "mb_store v m =
     (if unat (in_offset m) < length (msg_pool m)
      then let n = in_offset m + 1
           in Some (m\<lparr>msg_pool := (msg_pool m)[unat (in_offset m) := v],
                      in_offset := (if n \<ge> mb_size m then 0 else n), mb_entry := mb_entry m + 1\<rparr>)
      else None)"

definition mb_load :: "rt_mailbox \<Rightarrow> (u32 \<times> rt_mailbox) option" where
  "mb_load m =
     (if unat (out_offset m) < length (msg_pool m)
      then let n = out_offset m + 1
           in Some (msg_pool m ! unat (out_offset m),
                    m\<lparr>out_offset := (if n \<ge> mb_size m then 0 else n), mb_entry := mb_entry m - 1\<rparr>)
      else None)"

text \<open>From the test of the \<^verbatim>\<open>while\<close> to the end, or to the \<^verbatim>\<open>rt_schedule\<close> of a wait.\<close>

definition mb_send_loop :: "oid \<Rightarrow> u32 \<Rightarrow> int \<Rightarrow> kernel \<Rightarrow> (int option \<times> kernel) option" where
  "mb_send_loop i v timeout k =
     (if mb_entry (mailboxes k i) = mb_size (mailboxes k i)
      then do {
        t \<leftarrow> rt_thread_self k;
        let k1 = upd_thread t (\<lambda>th. th\<lparr>t_error := RT_EOK\<rparr>) k;
        (if timeout = 0 then Some (Some (- RT_EFULL), k1)
         else do {
           RT_ASSERT (in_thread_context k1);
           k2 \<leftarrow> ipc_wait (SenderQ (OMailbox i)) t (o_flag (hdr k1 (OMailbox i))) timeout k1;
           k3 \<leftarrow> rt_schedule k2;
           Some (None, k3)
         })
      }
      else do {
        m \<leftarrow> mb_store v (mailboxes k i);
        let k1 = upd_mb i (\<lambda>_. m) k;
        (if lst (thl k1) (SuspendQ (OMailbox i)) \<noteq> []
         then do {
           (_, k2) \<leftarrow> rt_ipc_list_resume (SuspendQ (OMailbox i)) k1;
           k3 \<leftarrow> rt_schedule k2;
           Some (Some RT_EOK, k3)
         }
         else Some (Some RT_EOK, k1))
      })"

definition rt_mb_send_wait :: "oid \<Rightarrow> u32 \<Rightarrow> int \<Rightarrow> kernel \<Rightarrow> (int option \<times> kernel) option" where
  "rt_mb_send_wait i v timeout k =
     do {
       RT_ASSERT (rt_object_get_type k (OMailbox i) = RT_Object_Class_MailBox);
       (if mb_entry (mailboxes k i) = mb_size (mailboxes k i) \<and> timeout = 0
        then Some (Some (- RT_EFULL), k)
        else mb_send_loop i v timeout k)
     }"

text \<open>The sender \<open>t\<close> runs again; \<open>start\<close> is the tick at which it went to wait.\<close>

definition rt_mb_send_wait_return ::
  "oid \<Rightarrow> u32 \<Rightarrow> int \<Rightarrow> u32 \<Rightarrow> tid \<Rightarrow> kernel \<Rightarrow> (int option \<times> kernel) option" where
  "rt_mb_send_wait_return i v timeout start t k =
     (if t_error (threads k t) \<noteq> RT_EOK then Some (Some (t_error (threads k t)), k)
      else mb_send_loop i v (time_left timeout start (tick k)) k)"

definition rt_mb_send :: "oid \<Rightarrow> u32 \<Rightarrow> kernel \<Rightarrow> (int option \<times> kernel) option" where
  "rt_mb_send i v k = rt_mb_send_wait i v 0 k"

definition mb_recv_loop :: "oid \<Rightarrow> int \<Rightarrow> kernel \<Rightarrow> (int option \<times> u32 option \<times> kernel) option" where
  "mb_recv_loop i timeout k =
     (if mb_entry (mailboxes k i) = 0
      then do {
        t \<leftarrow> rt_thread_self k;
        let k1 = upd_thread t (\<lambda>th. th\<lparr>t_error := RT_EOK\<rparr>) k;
        (if timeout = 0
         then Some (Some (- RT_ETIMEOUT), None, upd_thread t (\<lambda>th. th\<lparr>t_error := - RT_ETIMEOUT\<rparr>) k1)
         else do {
           RT_ASSERT (in_thread_context k1);
           k2 \<leftarrow> ipc_wait (SuspendQ (OMailbox i)) t (o_flag (hdr k1 (OMailbox i))) timeout k1;
           k3 \<leftarrow> rt_schedule k2;
           Some (None, None, k3)
         })
      }
      else do {
        (v, m) \<leftarrow> mb_load (mailboxes k i);
        let k1 = upd_mb i (\<lambda>_. m) k;
        (if lst (thl k1) (SenderQ (OMailbox i)) \<noteq> []
         then do {
           (_, k2) \<leftarrow> rt_ipc_list_resume (SenderQ (OMailbox i)) k1;
           k3 \<leftarrow> rt_schedule k2;
           Some (Some RT_EOK, Some v, k3)
         }
         else Some (Some RT_EOK, Some v, k1))
      })"

definition rt_mb_recv :: "oid \<Rightarrow> int \<Rightarrow> kernel \<Rightarrow> (int option \<times> u32 option \<times> kernel) option" where
  "rt_mb_recv i timeout k =
     do {
       RT_ASSERT (rt_object_get_type k (OMailbox i) = RT_Object_Class_MailBox);
       (if mb_entry (mailboxes k i) = 0 \<and> timeout = 0 then Some (Some (- RT_ETIMEOUT), None, k)
        else mb_recv_loop i timeout k)
     }"

definition rt_mb_recv_return ::
  "oid \<Rightarrow> int \<Rightarrow> u32 \<Rightarrow> tid \<Rightarrow> kernel \<Rightarrow> (int option \<times> u32 option \<times> kernel) option" where
  "rt_mb_recv_return i timeout start t k =
     (if t_error (threads k t) \<noteq> RT_EOK then Some (Some (t_error (threads k t)), None, k)
      else mb_recv_loop i (time_left timeout start (tick k)) k)"

definition rt_mb_control :: "oid \<Rightarrow> nat \<Rightarrow> kernel \<Rightarrow> (int \<times> kernel) option" where
  "rt_mb_control i cmd k =
     do {
       RT_ASSERT (rt_object_get_type k (OMailbox i) = RT_Object_Class_MailBox);
       (if cmd = RT_IPC_CMD_RESET
        then do {
          k1 \<leftarrow> rt_ipc_list_resume_all (SuspendQ (OMailbox i)) k;
          k2 \<leftarrow> rt_ipc_list_resume_all (SenderQ (OMailbox i)) k1;
          k3 \<leftarrow> rt_schedule (upd_mb i (\<lambda>m. m\<lparr>mb_entry := 0, in_offset := 0, out_offset := 0\<rparr>) k2);
          Some (RT_EOK, k3)
        }
        else Some (- RT_ERROR, k))
     }"

subsection \<open>The circular array\<close>

definition mb_wf :: "rt_mailbox \<Rightarrow> bool" where
  "mb_wf m \<longleftrightarrow>
     unat (mb_size m) \<le> length (msg_pool m) \<and> mb_entry m \<le> mb_size m \<and>
     (mb_size m \<noteq> 0 \<longrightarrow> out_offset m < mb_size m \<and>
        unat (in_offset m) = (unat (out_offset m) + unat (mb_entry m)) mod unat (mb_size m))"

definition mb_msgs :: "rt_mailbox \<Rightarrow> u32 list" where
  "mb_msgs m = ring_slice (msg_pool m) (unat (mb_size m)) (unat (out_offset m)) (unat (mb_entry m))"

lemma wrap_index:
  fixes a n :: u16
  assumes "a < n"
  shows "unat (if a + 1 \<ge> n then 0 else a + 1) = Suc (unat a) mod unat n"
proof -
  have "unat a < unat n" "unat n < 2 ^ 16" using assms unsigned_less [of n] by (simp_all add: word_less_nat_alt)
  then have u: "unat (a + 1) = Suc (unat a)" by (simp add: unat_word_ariths)
  then show ?thesis using \<open>unat a < unat n\<close> by (auto simp: word_le_nat_alt mod_Suc)
qed

lemma mb_store_spec:
  assumes wf: "mb_wf m" and room: "mb_entry m \<noteq> mb_size m"
  obtains m' where "mb_store v m = Some m'" "mb_wf m'" "mb_msgs m' = mb_msgs m @ [v]" "mb_size m' = mb_size m"
    "unat (mb_entry m') = Suc (unat (mb_entry m))"
proof -
  let ?n = "unat (mb_size m)"
  have e: "mb_entry m < mb_size m" using wf room by (simp add: mb_wf_def order_less_le)
  then have en: "unat (mb_entry m) < ?n" by (simp add: word_less_nat_alt)
  then have z: "mb_size m \<noteq> 0" "?n \<noteq> 0" by auto
  have i: "unat (in_offset m) = (unat (out_offset m) + unat (mb_entry m)) mod ?n" using wf z by (simp add: mb_wf_def)
  have il: "unat (in_offset m) < ?n" unfolding i using z by simp
  then have il': "in_offset m < mb_size m" by (simp add: word_less_nat_alt)
  have lp: "?n \<le> length (msg_pool m)" using wf by (simp add: mb_wf_def)
  have "?n < 2 ^ 16" using unsigned_less [of "mb_size m"] by simp
  then have se: "unat (mb_entry m + 1) = Suc (unat (mb_entry m))" using en by (simp add: unat_word_ariths)
  define i' where i': "i' = (if in_offset m + 1 \<ge> mb_size m then 0 else in_offset m + 1)"
  have w: "unat i' = Suc (unat (in_offset m)) mod ?n" unfolding i' by (rule wrap_index [OF il'])
  let ?m = "m\<lparr>msg_pool := (msg_pool m)[unat (in_offset m) := v], in_offset := i', mb_entry := mb_entry m + 1\<rparr>"
  have "mb_store v m = Some ?m" using il lp by (simp add: mb_store_def Let_def i')
  moreover have "mb_wf ?m"
    using wf z en se by (simp add: mb_wf_def w word_le_nat_alt mod_Suc_eq i)
  moreover have "mb_msgs ?m = mb_msgs m @ [v]"
    using ring_slice_put [OF en lp, where x = v and i = "unat (out_offset m)"] by (simp add: mb_msgs_def se i)
  ultimately show ?thesis using that [of ?m] se by simp
qed

lemma mb_load_spec:
  assumes wf: "mb_wf m" and some: "mb_entry m \<noteq> 0"
  obtains m' where "mb_load m = Some (hd (mb_msgs m), m')" "mb_wf m'" "mb_msgs m' = tl (mb_msgs m)" "mb_size m' = mb_size m"
    "Suc (unat (mb_entry m')) = unat (mb_entry m)"
proof -
  let ?n = "unat (mb_size m)"
  have e: "unat (mb_entry m) \<noteq> 0" "unat (mb_entry m) \<le> ?n"
    using wf some by (simp_all add: mb_wf_def word_le_nat_alt unat_eq_0)
  then obtain c where c: "unat (mb_entry m) = Suc c" by (cases "unat (mb_entry m)") auto
  have z: "mb_size m \<noteq> 0" "0 < ?n" using e by auto
  have o: "out_offset m < mb_size m" using wf z by (simp add: mb_wf_def)
  then have on: "unat (out_offset m) < ?n" by (simp add: word_less_nat_alt)
  have lp: "?n \<le> length (msg_pool m)" using wf by (simp add: mb_wf_def)
  have i: "unat (in_offset m) = (unat (out_offset m) + Suc c) mod ?n" using wf z c by (simp add: mb_wf_def)
  have se: "unat (mb_entry m - 1) = c" using some c by (simp add: unat_minus_one)
  define o' where o': "o' = (if out_offset m + 1 \<ge> mb_size m then 0 else out_offset m + 1)"
  let ?m = "m\<lparr>out_offset := o', mb_entry := mb_entry m - 1\<rparr>"
  have w: "unat o' = Suc (unat (out_offset m)) mod ?n" unfolding o' by (rule wrap_index [OF o])
  have ol: "o' < mb_size m" unfolding word_less_nat_alt w using z by simp
  have ms: "mb_msgs m = msg_pool m ! unat (out_offset m) # ring_slice (msg_pool m) ?n (Suc (unat (out_offset m)) mod ?n) c"
    unfolding mb_msgs_def c ring_slice_get [OF z(2)] using on by simp
  have "mb_load m = Some (hd (mb_msgs m), ?m)" using on lp by (simp add: mb_load_def Let_def ms o')
  moreover have "mb_wf ?m"
    using wf z e c se ol by (simp add: mb_wf_def word_le_nat_alt i w mod_simps)
  moreover have "mb_msgs ?m = tl (mb_msgs m)" unfolding ms by (simp add: mb_msgs_def se w)
  ultimately show ?thesis using that [of ?m] se c by simp
qed

subsection \<open>Sending and receiving\<close>

definition mb_ok :: "kernel \<Rightarrow> oid \<Rightarrow> bool" where
  "mb_ok k i \<longleftrightarrow>
     rt_object_get_type k (OMailbox i) = RT_Object_Class_MailBox \<and>
     (o_flag (hdr k (OMailbox i)) = RT_IPC_FLAG_FIFO \<or> o_flag (hdr k (OMailbox i)) = RT_IPC_FLAG_PRIO) \<and>
     mb_wf (mailboxes k i)"

lemma upd_mb_sel [simp]:
  "kinv (upd_mb i f k) = kinv k" "stacks_ok (upd_mb i f k) = stacks_ok k" "thl (upd_mb i f k) = thl k"
  "hdr (upd_mb i f k) = hdr k" "threads (upd_mb i f k) = threads k" "current (upd_mb i f k) = current k"
  "lock_nest (upd_mb i f k) = lock_nest k" "irq_nest (upd_mb i f k) = irq_nest k"
  "tml (upd_mb i f k) = tml k" "timers (upd_mb i f k) = timers k" "tick (upd_mb i f k) = tick k"
  "stat_of (upd_mb i f k) t = stat_of k t" "prio_of (upd_mb i f k) t = prio_of k t"
  "live (upd_mb i f k) t = live k t"
  "mailboxes (upd_mb i f k) = (mailboxes k)(i := f (mailboxes k i))"
  "rt_object_get_type (upd_mb i f k) r = rt_object_get_type k r"
  by (simp_all add: upd_mb_def rt_object_get_type_def live_def)

lemma mb_ok_env:
  assumes "env_same k k'"
  shows "mb_ok k' i = mb_ok k i" "mailboxes k' i = mailboxes k i"
  using env_sameD(14) [OF assms, of "OMailbox i"] env_sameD(4,11) [OF assms]
  by (simp_all add: mb_ok_def)

lemma mb_ok_upd: "mb_wf m \<Longrightarrow> mb_ok k i \<Longrightarrow> mb_ok (upd_mb i (\<lambda>_. m) k) i"
  by (simp add: mb_ok_def)

lemma moved_upd_mb [simp]: "moved q (upd_mb i f k) k' = moved q k k'"
  by (simp add: moved_def cong: list.case_cong)

lemma mb_send_room:
  assumes inv: "kinv k" and st: "stacks_ok k" and cur: "current k = Some c" and ok: "mb_ok k i"
    and room: "mb_entry (mailboxes k i) \<noteq> mb_size (mailboxes k i)"
  obtains k' where "rt_mb_send_wait i v timeout k = Some (Some RT_EOK, k')"
    "mb_send_loop i v timeout k = Some (Some RT_EOK, k')" "kinv k'" "stacks_ok k'" "mb_ok k' i"
    "moved (SuspendQ (OMailbox i)) k k'" "mb_msgs (mailboxes k' i) = mb_msgs (mailboxes k i) @ [v]"
    "mb_size (mailboxes k' i) = mb_size (mailboxes k i)"
    "unat (mb_entry (mailboxes k' i)) = Suc (unat (mb_entry (mailboxes k i)))"
proof -
  let ?q = "SuspendQ (OMailbox i)"
  have wf: "mb_wf (mailboxes k i)" using ok by (simp add: mb_ok_def)
  from mb_store_spec [OF wf room, of v] obtain m where m: "mb_store v (mailboxes k i) = Some m" "mb_wf m"
    "mb_msgs m = mb_msgs (mailboxes k i) @ [v]" "mb_size m = mb_size (mailboxes k i)"
    "unat (mb_entry m) = Suc (unat (mb_entry (mailboxes k i)))" .
  let ?k1 = "upd_mb i (\<lambda>_. m) k"
  have i1: "kinv ?k1" "stacks_ok ?k1" "current ?k1 = Some c" "wait_q ?q" using inv st cur by simp_all
  obtain k' where k': "kinv k'" "stacks_ok k'" "moved ?q ?k1 k'" "env_same ?k1 k'"
    "lst (thl ?k1) ?q = [] \<Longrightarrow> k' = ?k1"
    "lst (thl ?k1) ?q \<noteq> [] \<Longrightarrow> \<exists>k2. rt_ipc_list_resume ?q ?k1 = Some (RT_EOK, k2) \<and> rt_schedule k2 = Some k'"
    by (rule wake_end [OF i1]) blast
  have r: "mb_send_loop i v timeout k = Some (Some RT_EOK, k')"
    using room m(1) k'(5,6) by (cases "lst (thl k) ?q = []") (auto simp: mb_send_loop_def)
  moreover have "rt_mb_send_wait i v timeout k = Some (Some RT_EOK, k')"
    using r ok room by (simp add: rt_mb_send_wait_def mb_ok_def)
  moreover have "moved ?q k k'" using k'(3) by simp
  moreover have "mailboxes k' i = m" using mb_ok_env(2) [OF k'(4), of i] by simp
  moreover have "mb_ok k' i" using mb_ok_env(1) [OF k'(4)] mb_ok_upd [OF m(2) ok] by simp
  ultimately show ?thesis using that [OF _ _ k'(1,2)] m by simp
qed

lemma mb_recv_some:
  assumes inv: "kinv k" and st: "stacks_ok k" and cur: "current k = Some c" and ok: "mb_ok k i"
    and some: "mb_entry (mailboxes k i) \<noteq> 0"
  obtains k' where "rt_mb_recv i timeout k = Some (Some RT_EOK, Some (hd (mb_msgs (mailboxes k i))), k')"
    "mb_recv_loop i timeout k = Some (Some RT_EOK, Some (hd (mb_msgs (mailboxes k i))), k')"
    "kinv k'" "stacks_ok k'" "mb_ok k' i" "moved (SenderQ (OMailbox i)) k k'"
    "mb_msgs (mailboxes k' i) = tl (mb_msgs (mailboxes k i))"
    "mb_size (mailboxes k' i) = mb_size (mailboxes k i)"
    "Suc (unat (mb_entry (mailboxes k' i))) = unat (mb_entry (mailboxes k i))"
proof -
  let ?q = "SenderQ (OMailbox i)"
  have wf: "mb_wf (mailboxes k i)" using ok by (simp add: mb_ok_def)
  from mb_load_spec [OF wf some] obtain m where m: "mb_load (mailboxes k i) = Some (hd (mb_msgs (mailboxes k i)), m)"
    "mb_wf m" "mb_msgs m = tl (mb_msgs (mailboxes k i))" "mb_size m = mb_size (mailboxes k i)"
    "Suc (unat (mb_entry m)) = unat (mb_entry (mailboxes k i))" .
  let ?k1 = "upd_mb i (\<lambda>_. m) k"
  have i1: "kinv ?k1" "stacks_ok ?k1" "current ?k1 = Some c" "wait_q ?q" using inv st cur by simp_all
  obtain k' where k': "kinv k'" "stacks_ok k'" "moved ?q ?k1 k'" "env_same ?k1 k'"
    "lst (thl ?k1) ?q = [] \<Longrightarrow> k' = ?k1"
    "lst (thl ?k1) ?q \<noteq> [] \<Longrightarrow> \<exists>k2. rt_ipc_list_resume ?q ?k1 = Some (RT_EOK, k2) \<and> rt_schedule k2 = Some k'"
    by (rule wake_end [OF i1]) blast
  have r: "mb_recv_loop i timeout k = Some (Some RT_EOK, Some (hd (mb_msgs (mailboxes k i))), k')"
    using some m(1) k'(5,6) by (cases "lst (thl k) ?q = []") (auto simp: mb_recv_loop_def)
  moreover have "rt_mb_recv i timeout k = Some (Some RT_EOK, Some (hd (mb_msgs (mailboxes k i))), k')"
    using r ok some by (simp add: rt_mb_recv_def mb_ok_def)
  moreover have "moved ?q k k'" using k'(3) by simp
  moreover have "mailboxes k' i = m" using mb_ok_env(2) [OF k'(4), of i] by simp
  moreover have "mb_ok k' i" using mb_ok_env(1) [OF k'(4)] mb_ok_upd [OF m(2) ok] by simp
  ultimately show ?thesis using that [OF _ _ k'(1,2)] m by simp
qed

subsection \<open>A mailbox is a bounded queue\<close>

definition mb_good :: "oid \<Rightarrow> kernel \<Rightarrow> bool" where
  "mb_good i k \<longleftrightarrow> kinv k \<and> stacks_ok k \<and> current k \<noteq> None \<and> mb_ok k i"

text \<open>
  The calls that do not wait, by their results and with the state they leave; a failed assertion
  and any other result are \<open>None\<close>.
\<close>

definition mb_offer :: "oid \<Rightarrow> u32 \<Rightarrow> kernel \<Rightarrow> (bool \<times> kernel) option" where
  "mb_offer i v k =
     (case rt_mb_send i v k of
        Some (Some e, k') \<Rightarrow> if e = RT_EOK then Some (True, k') else if e = - RT_EFULL then Some (False, k') else None
      | _ \<Rightarrow> None)"

definition mb_fetch :: "oid \<Rightarrow> kernel \<Rightarrow> (u32 option \<times> kernel) option" where
  "mb_fetch i k =
     (case rt_mb_recv i 0 k of
        Some (Some e, r, k') \<Rightarrow>
          if e = RT_EOK \<and> r \<noteq> None \<or> e = - RT_ETIMEOUT \<and> r = None then Some (r, k') else None
      | _ \<Rightarrow> None)"

lemma entry_full: "unat (mb_entry m) = unat (mb_size m) \<longleftrightarrow> mb_entry m = mb_size m"
  by (rule word_unat_eq_iff [symmetric])

lemma length_mb_msgs [simp]: "length (mb_msgs m) = unat (mb_entry m)"
  by (simp add: mb_msgs_def)

interpretation mb: bounded_fifo "mb_offer i" "mb_fetch i" "\<lambda>k. mb_msgs (mailboxes k i)"
  "\<lambda>k. unat (mb_size (mailboxes k i))" "\<lambda>_ _. True" "\<lambda>_. mb_good i" for i
proof (unfold_locales, goal_cases)
  case (1 n k)
  then show ?case by (simp add: mb_good_def mb_ok_def mb_wf_def word_le_nat_alt)
next
  case (2 n k v)
  then show ?case by (simp add: mb_offer_def rt_mb_send_def rt_mb_send_wait_def mb_good_def mb_ok_def entry_full)
next
  case (3 n k v)
  then obtain c where c: "kinv k" "stacks_ok k" "current k = Some c" "mb_ok k i" by (auto simp: mb_good_def)
  have room: "mb_entry (mailboxes k i) \<noteq> mb_size (mailboxes k i)" using 3(2) by auto
  obtain k' where "rt_mb_send_wait i v 0 k = Some (Some RT_EOK, k')" "kinv k'" "stacks_ok k'" "mb_ok k' i"
    "moved (SuspendQ (OMailbox i)) k k'" "mb_msgs (mailboxes k' i) = mb_msgs (mailboxes k i) @ [v]"
    "mb_size (mailboxes k' i) = mb_size (mailboxes k i)"
    by (rule mb_send_room [OF c room]) blast
  then show ?case by (simp add: mb_offer_def rt_mb_send_def mb_good_def moved_def)
next
  case (4 n k)
  then have "mb_entry (mailboxes k i) = 0" by (metis length_mb_msgs list.size(3) unat_eq_0)
  then show ?case using 4 by (simp add: mb_fetch_def rt_mb_recv_def mb_good_def mb_ok_def)
next
  case (5 n k v vs)
  then obtain c where c: "kinv k" "stacks_ok k" "current k = Some c" "mb_ok k i" by (auto simp: mb_good_def)
  have some: "mb_entry (mailboxes k i) \<noteq> 0" using 5(2) length_mb_msgs [of "mailboxes k i"] by auto
  obtain k' where "rt_mb_recv i 0 k = Some (Some RT_EOK, Some (hd (mb_msgs (mailboxes k i))), k')"
    "kinv k'" "stacks_ok k'" "mb_ok k' i" "moved (SenderQ (OMailbox i)) k k'"
    "mb_msgs (mailboxes k' i) = tl (mb_msgs (mailboxes k i))" "mb_size (mailboxes k' i) = mb_size (mailboxes k i)"
    by (rule mb_recv_some [OF c some]) blast
  then show ?case using 5(2) by (simp add: mb_fetch_def mb_good_def moved_def)
qed

text \<open>
  C13.  Any run of \<^verbatim>\<open>rt_mb_send\<close> and of \<^verbatim>\<open>rt_mb_recv\<close> without waiting time on a mailbox returns
  what a list of at most \<^verbatim>\<open>size\<close> messages returns, whatever threads the calls wake and switch
  to on the way: messages come out in the order they went in, none lost, none twice.  Every call
  returns and goes on from the state the one before has left, also when that one was refused
  (\<^verbatim>\<open>-RT_EFULL\<close>, \<^verbatim>\<open>-RT_ETIMEOUT\<close>).
\<close>

theorem mb_run_refines_queue:
  assumes "mb_good i k"
  shows "\<exists>k'. fifo_run (mb_offer i) (mb_fetch i) ops k =
      Some (fst (queue_run (unat (mb_size (mailboxes k i))) ops (mb_msgs (mailboxes k i))), k') \<and>
    mb_good i k' \<and>
    mb_msgs (mailboxes k' i) = snd (queue_run (unat (mb_size (mailboxes k i))) ops (mb_msgs (mailboxes k i)))"
  using mb.run_refines [OF assms, of ops] by blast

text \<open>A kernel with a mailbox of two words, empty and wrapped once.\<close>

definition mb_demo :: kernel where
  "mb_demo = upd_mb 0 (\<lambda>m. m\<lparr>msg_pool := [7, 8], mb_size := 2, in_offset := 1, out_offset := 1\<rparr>) ipc_demo"

lemma mb_demo_sel: "mailboxes mb_demo 0 = \<lparr>msg_pool = [7, 8], mb_size = 2, mb_entry = 0, in_offset = 1, out_offset = 1\<rparr>"
  "kinv mb_demo" "stacks_ok mb_demo" "current mb_demo = Some 0" "irq_nest mb_demo = 0" "lock_nest mb_demo = 0"
  "stat_of mb_demo t = stat_of demo_kernel t" "thl mb_demo = thl demo_kernel" "tick mb_demo = 5"
  by (simp_all add: mb_demo_def ipc_demo_sel ipc_demo_kinv ipc_demo_stacks ipc_demo_stat) (simp add: zero_kernel_def)

lemma mb_demo_ok: "mb_ok mb_demo 0"
  by (simp add: mb_ok_def mb_demo_sel mb_wf_def) (simp add: mb_demo_def ipc_demo_type ipc_demo_sel)

lemma mb_demo_msgs: "mb_msgs (mailboxes mb_demo 0) = []"
  by (simp add: mb_demo_sel mb_msgs_def)

theorem mb_run_refines_queue_witness:
  "\<exists>k'. fifo_run (mb_offer 0) (mb_fetch 0) [Offer 1, Offer 2, Offer 3, Fetch, Fetch, Fetch] mb_demo =
     Some ([Accepted, Accepted, Refused, Item 1, Item 2, Empty], k') \<and> mb_msgs (mailboxes k' 0) = []"
proof -
  have "mb_good 0 mb_demo" by (simp add: mb_good_def mb_demo_sel mb_demo_ok)
  note run = mb_run_refines_queue [OF this, of "[Offer 1, Offer 2, Offer 3, Fetch, Fetch, Fetch]"]
  have n: "unat (mb_size (mailboxes mb_demo 0)) = 2" by (simp add: mb_demo_sel(1))
  have q: "queue_run 2 [Offer 1, Offer 2, Offer 3, Fetch, Fetch, Fetch] [] =
      ([Accepted, Accepted, Refused, Item 1, Item 2, Empty :: u32 fifo_result], [])" by simp
  from run [unfolded n mb_demo_msgs q] show ?thesis by auto
qed

subsection \<open>Waiting\<close>

text \<open>
  \<^verbatim>\<open>rt_mb_send_wait\<close> by the running thread, on every branch: a full mailbox without waiting
  time refuses and changes nothing; a full one with waiting time suspends the sender on the
  senders' list, its timer armed exactly for a positive time, the messages as they were; with room
  the message is appended and the first waiting receiver, if there is one, made ready.
\<close>

theorem rt_mb_send_wait_spec:
  assumes inv: "kinv k" and st: "stacks_ok k" and cur: "current k = Some c" "stat_of k c = RT_THREAD_RUNNING"
    and ok: "mb_ok k i" and irq: "irq_nest k = 0" and lock: "lock_nest k = 0" and t: "time < 0x7fffffff"
    and idle: "stat_of k u = RT_THREAD_READY"
  shows "\<exists>r k'. rt_mb_send_wait i v time k = Some (r, k') \<and> kinv k' \<and> mb_ok k' i \<and>
     (if length (mb_msgs (mailboxes k i)) = unat (mb_size (mailboxes k i))
      then if time = 0 then r = Some (- RT_EFULL) \<and> k' = k
           else r = None \<and> mailboxes k' = mailboxes k \<and> stat_of k' c = RT_THREAD_SUSPEND \<and> runs_highest k' \<and>
                lst (thl k') (SenderQ (OMailbox i)) =
                  insert_at (flag_before (o_flag (hdr k (OMailbox i))) k c) c (lst (thl k) (SenderQ (OMailbox i))) \<and>
                (if time > 0 then ThreadTimer c \<in> set (lst (tml k') HardT) \<and>
                                  timeout_tick (timers k' (ThreadTimer c)) = tick k + of_int time
                 else own (tml k') (ThreadTimer c) = None)
      else r = Some RT_EOK \<and> mb_msgs (mailboxes k' i) = mb_msgs (mailboxes k i) @ [v] \<and>
           moved (SuspendQ (OMailbox i)) k k')"
proof (cases "mb_entry (mailboxes k i) = mb_size (mailboxes k i)")
  case False
  obtain k' where "rt_mb_send_wait i v time k = Some (Some RT_EOK, k')" "kinv k'" "mb_ok k' i"
    "moved (SuspendQ (OMailbox i)) k k'" "mb_msgs (mailboxes k' i) = mb_msgs (mailboxes k i) @ [v]"
    by (rule mb_send_room [OF inv st cur(1) ok False]) blast
  then show ?thesis using False by (intro exI [of _ "Some RT_EOK"] exI [of _ k']) (simp add: entry_full)
next
  case full: True
  have ty: "rt_object_get_type k (OMailbox i) = RT_Object_Class_MailBox" using ok by (simp add: mb_ok_def)
  show ?thesis
  proof (cases "time = 0")
    case True
    then show ?thesis using full inv ok ty
      by (intro exI [of _ "Some (- RT_EFULL)"] exI [of _ k]) (simp add: rt_mb_send_wait_def)
  next
    case False
    let ?q = "SenderQ (OMailbox i)" and ?f = "o_flag (hdr k (OMailbox i))"
    have fl: "?f = RT_IPC_FLAG_FIFO \<or> ?f = RT_IPC_FLAG_PRIO" using ok by (simp add: mb_ok_def)
    have wq: "wait_q ?q" by simp
    obtain k2 k' where b: "ipc_wait ?q c ?f time (upd_thread c (\<lambda>th. th\<lparr>t_error := RT_EOK\<rparr>) k) = Some k2"
      "rt_schedule k2 = Some k'" "kinv k'" "env_same k k'"
      "lst (thl k') ?q = insert_at (flag_before ?f k c) c (lst (thl k) ?q)"
      "stat_of k' c = RT_THREAD_SUSPEND"
      "if time > 0 then ThreadTimer c \<in> set (lst (tml k') HardT) \<and>
          timeout_tick (timers k' (ThreadTimer c)) = tick k + of_int time
       else own (tml k') (ThreadTimer c) = None" "runs_highest k'"
      by (rule block_spec [OF inv st cur wq fl t, where u = u]) (use lock idle in blast)
    have "rt_mb_send_wait i v time k = Some (None, k')"
      using full False ty cur irq b(1,2)
      by (simp add: rt_mb_send_wait_def mb_send_loop_def in_thread_context_def not_in_interrupt_def rt_thread_self_def)
    then show ?thesis
      using full False b ok mb_ok_env(1) [OF b(4)] env_sameD(4) [OF b(4)]
      by (intro exI [of _ None] exI [of _ k']) simp
  qed
qed

theorem rt_mb_send_wait_spec_witness:
  "\<exists>k'. rt_mb_send_wait 0 9 (- 1) (upd_mb 0 (\<lambda>m. m\<lparr>mb_entry := 2\<rparr>) mb_demo) = Some (None, k') \<and>
     lst (thl k') (SenderQ (OMailbox 0)) = [0] \<and> own (tml k') (ThreadTimer 0) = None"
proof -
  let ?k = "upd_mb 0 (\<lambda>m. m\<lparr>mb_entry := 2\<rparr>) mb_demo"
  have k: "kinv ?k" "stacks_ok ?k" "current ?k = Some 0" "stat_of ?k 0 = RT_THREAD_RUNNING" "irq_nest ?k = 0"
    "lock_nest ?k = 0" "stat_of ?k 1 = RT_THREAD_READY"
    by (simp_all add: mb_demo_sel demo_stat)
  have ok: "mb_ok ?k 0"
    by (simp add: mb_ok_def mb_demo_sel mb_wf_def) (simp add: mb_demo_def ipc_demo_type ipc_demo_sel)
  show ?thesis
    using rt_mb_send_wait_spec [OF k(1-4) ok k(5,6) _ k(7), of "- 1" 9]
    by (auto simp: mb_demo_sel demo_thl)
qed

text \<open>
  C14.  Hand-over of a message to a waiting receiver: the running thread receives from an empty
  mailbox and is suspended; a send by whichever thread runs next makes it ready; when it runs
  again its call returns that message, and the mailbox is empty.
\<close>

theorem mb_handover:
  assumes inv: "kinv k" and st: "stacks_ok k" and cur: "current k = Some c" "stat_of k c = RT_THREAD_RUNNING"
    and ok: "mb_ok k i" and irq: "irq_nest k = 0" and lock: "lock_nest k = 0" and t: "time < 0x7fffffff" "time \<noteq> 0"
    and idle: "stat_of k u = RT_THREAD_READY" and empty: "mb_msgs (mailboxes k i) = []"
    and size: "mb_size (mailboxes k i) \<noteq> 0" and alone: "lst (thl k) (SuspendQ (OMailbox i)) = []"
  shows "\<exists>k1 k2 k3. rt_mb_recv i time k = Some (None, None, k1) \<and> stat_of k1 c = RT_THREAD_SUSPEND \<and>
     rt_mb_send i v k1 = Some (Some RT_EOK, k2) \<and>
     (stat_of k2 c = RT_THREAD_READY \<or> stat_of k2 c = RT_THREAD_RUNNING) \<and>
     rt_mb_recv_return i time start c k2 = Some (Some RT_EOK, Some v, k3) \<and>
     kinv k3 \<and> mb_msgs (mailboxes k3 i) = []"
proof -
  let ?q = "SuspendQ (OMailbox i)" and ?f = "o_flag (hdr k (OMailbox i))"
  have fl: "?f = RT_IPC_FLAG_FIFO \<or> ?f = RT_IPC_FLAG_PRIO" using ok by (simp add: mb_ok_def)
  have wq: "wait_q ?q" by simp
  have e: "mb_entry (mailboxes k i) = 0"
    using empty by (metis length_mb_msgs list.size(3) unat_eq_0)
  obtain kw k1 where b: "ipc_wait ?q c ?f time (upd_thread c (\<lambda>th. th\<lparr>t_error := RT_EOK\<rparr>) k) = Some kw"
    "rt_schedule kw = Some k1" "kinv k1" "env_same k k1" "stacks_ok k1"
    "lst (thl k1) ?q = insert_at (flag_before ?f k c) c (lst (thl k) ?q)"
    "stat_of k1 c = RT_THREAD_SUSPEND" "t_error (threads k1 c) = RT_EOK" "runs_highest k1"
    by (rule block_spec [OF inv st cur wq fl t(1), where u = u]) (use lock idle in blast)
  have r1: "rt_mb_recv i time k = Some (None, None, k1)"
    using e t(2) ok cur irq b(1,2)
    by (simp add: rt_mb_recv_def mb_recv_loop_def mb_ok_def in_thread_context_def not_in_interrupt_def rt_thread_self_def)
  have m1: "mailboxes k1 i = mailboxes k i" "mb_ok k1 i" using mb_ok_env [OF b(4)] ok by simp_all
  obtain c1 where c1: "current k1 = Some c1" using b(9) by (auto simp: runs_highest_def)
  have room: "mb_entry (mailboxes k1 i) \<noteq> mb_size (mailboxes k1 i)" using m1 e size by simp
  obtain k2 where k2: "rt_mb_send_wait i v 0 k1 = Some (Some RT_EOK, k2)" "kinv k2" "stacks_ok k2" "mb_ok k2 i"
    "moved ?q k1 k2" "mb_msgs (mailboxes k2 i) = mb_msgs (mailboxes k1 i) @ [v]"
    by (rule mb_send_room [OF b(3,5) c1 m1(2) room]) blast
  have l1: "lst (thl k1) ?q = [c]" using b(6) alone by simp
  have c2: "stat_of k2 c = RT_THREAD_READY \<or> stat_of k2 c = RT_THREAD_RUNNING" "t_error (threads k2 c) = RT_EOK"
    using k2(5) l1 b(8) by (simp_all add: moved_def)
  obtain c' where c': "current k2 = Some c'" using k2(5) by (auto simp: moved_def)
  have m2: "mb_msgs (mailboxes k2 i) = [v]" using k2(6) m1(1) empty by simp
  then have some: "mb_entry (mailboxes k2 i) \<noteq> 0" using length_mb_msgs [of "mailboxes k2 i"] by auto
  obtain k3 where k3: "mb_recv_loop i (time_left time start (tick k2)) k2 = Some (Some RT_EOK, Some (hd (mb_msgs (mailboxes k2 i))), k3)"
    "kinv k3" "mb_msgs (mailboxes k3 i) = tl (mb_msgs (mailboxes k2 i))"
    by (rule mb_recv_some [OF k2(2,3) c' k2(4) some]) blast
  have "rt_mb_recv_return i time start c k2 = Some (Some RT_EOK, Some v, k3)"
    using k3(1) c2(2) m2 by (simp add: rt_mb_recv_return_def)
  with r1 b(7) k2(1) c2(1) k3(2,3) m2 show ?thesis by (auto simp: rt_mb_send_def)
qed

theorem mb_handover_witness:
  "\<exists>k1 k2 k3. rt_mb_recv 0 20 mb_demo = Some (None, None, k1) \<and> rt_mb_send 0 42 k1 = Some (Some RT_EOK, k2) \<and>
     rt_mb_recv_return 0 20 5 0 k2 = Some (Some RT_EOK, Some 42, k3)"
  using mb_handover [OF mb_demo_sel(2-4) _ mb_demo_ok mb_demo_sel(5,6), of 20 1 42 5]
  by (auto simp: mb_demo_sel demo_stat demo_thl mb_msgs_def)

end
