(* ===== verification/Msgqueue.thy ===== *)
theory Msgqueue
  imports Mailbox
begin

text \<open>
  \<^verbatim>\<open>rt-thread/src/ipc.c\<close>, message queues: a pool of equal blocks on two linked lists, the free
  blocks and the queued messages.  A block is its index in the pool.  Senders and receivers hold
  a block between two critical sections; the steps are separate definitions, so that
  interleavings of them can be stated.
\<close>

subsection \<open>The steps on the blocks\<close>

text \<open>The loop of \<^verbatim>\<open>rt_mq_init\<close> that puts blocks \<open>0..n-1\<close> on the free list.\<close>

fun mq_link_free :: "nat \<Rightarrow> rt_messagequeue \<Rightarrow> rt_messagequeue" where
  "mq_link_free 0 m = m"
| "mq_link_free (Suc b) m =
     (let m1 = mq_link_free b m
      in m1\<lparr>mq_next := (mq_next m1)(b := msg_queue_free m1), msg_queue_free := Some b\<rparr>)"

text \<open>The pool's bytes as the data areas of the blocks, each behind a four byte \<^verbatim>\<open>next\<close> field.\<close>

definition pool_data :: "u8 list \<Rightarrow> u16 \<Rightarrow> nat \<Rightarrow> u8 list" where
  "pool_data pool sz b = take (unat sz) (drop (b * (unat sz + 4) + 4) pool)"

definition mq_setup :: "u8 list \<Rightarrow> u32 \<Rightarrow> u16 \<Rightarrow> rt_messagequeue \<Rightarrow> rt_messagequeue" where
  "mq_setup pool sz n m =
     (mq_link_free (unat n) (m\<lparr>mq_data := pool_data pool (ucast (rt_align sz)), msg_size := ucast (rt_align sz),
        max_msgs := n, msg_queue_head := None, msg_queue_tail := None, msg_queue_free := None\<rparr>))
     \<lparr>mq_entry := 0\<rparr>"

text \<open>A sender takes a free block, fills it, and appends it or puts it in front.\<close>

definition mq_take :: "rt_messagequeue \<Rightarrow> (nat \<times> rt_messagequeue) option" where
  "mq_take m =
     (case msg_queue_free m of
        None \<Rightarrow> None
      | Some b \<Rightarrow> Some (b, m\<lparr>msg_queue_free := mq_next m b\<rparr>))"

definition mq_fill :: "nat \<Rightarrow> u8 list \<Rightarrow> rt_messagequeue \<Rightarrow> rt_messagequeue" where
  "mq_fill b bytes m =
     m\<lparr>mq_data := (mq_data m)(b := bytes @ drop (length bytes) (mq_data m b))\<rparr>"

definition mq_append :: "nat \<Rightarrow> rt_messagequeue \<Rightarrow> rt_messagequeue" where
  "mq_append b m =
     (let m1 = (case msg_queue_tail m of
                  Some l \<Rightarrow> m\<lparr>mq_next := (mq_next m)(l := Some b)\<rparr>
                | None \<Rightarrow> m);
          m2 = m1\<lparr>msg_queue_tail := Some b\<rparr>;
          m3 = (if msg_queue_head m2 = None then m2\<lparr>msg_queue_head := Some b\<rparr> else m2)
      in m3\<lparr>mq_entry := mq_entry m3 + 1\<rparr>)"

definition mq_push :: "nat \<Rightarrow> rt_messagequeue \<Rightarrow> rt_messagequeue" where
  "mq_push b m =
     (let m1 = m\<lparr>mq_next := (mq_next m)(b := msg_queue_head m), msg_queue_head := Some b\<rparr>;
          m2 = (if msg_queue_tail m1 = None then m1\<lparr>msg_queue_tail := Some b\<rparr> else m1)
      in m2\<lparr>mq_entry := mq_entry m2 + 1\<rparr>)"

text \<open>A receiver takes the first message off, reads it, and frees its block.\<close>

definition mq_unlink :: "rt_messagequeue \<Rightarrow> (nat \<times> rt_messagequeue) option" where
  "mq_unlink m =
     (case msg_queue_head m of
        None \<Rightarrow> None
      | Some b \<Rightarrow>
          let m1 = m\<lparr>msg_queue_head := mq_next m b\<rparr>;
              m2 = (if msg_queue_tail m1 = Some b then m1\<lparr>msg_queue_tail := None\<rparr> else m1)
          in Some (b, m2\<lparr>mq_entry := mq_entry m2 - 1\<rparr>))"

definition mq_free :: "nat \<Rightarrow> rt_messagequeue \<Rightarrow> rt_messagequeue" where
  "mq_free b m = m\<lparr>mq_next := (mq_next m)(b := msg_queue_free m), msg_queue_free := Some b\<rparr>"

text \<open>The loop of \<^verbatim>\<open>RT_IPC_CMD_RESET\<close>.\<close>

partial_function (option) mq_flush :: "rt_messagequeue \<Rightarrow> rt_messagequeue option" where
  "mq_flush m =
     (case msg_queue_head m of
        None \<Rightarrow> Some m
      | Some b \<Rightarrow>
          let m1 = m\<lparr>msg_queue_head := mq_next m b\<rparr>;
              m2 = (if msg_queue_tail m1 = Some b then m1\<lparr>msg_queue_tail := None\<rparr> else m1)
          in mq_flush (mq_free b m2))"

subsection \<open>Operations\<close>

definition upd_mq :: "oid \<Rightarrow> (rt_messagequeue \<Rightarrow> rt_messagequeue) \<Rightarrow> kernel \<Rightarrow> kernel" where
  "upd_mq i f k = k\<lparr>mqs := (mqs k)(i := f (mqs k i))\<rparr>"

definition rt_mq_init ::
  "oid \<Rightarrow> u8 list \<Rightarrow> u8 list \<Rightarrow> u32 \<Rightarrow> u32 \<Rightarrow> u8 \<Rightarrow> kernel \<Rightarrow> (int \<times> kernel) option" where
  "rt_mq_init i name msgpool sz pool_size flag k =
     do {
       k1 \<leftarrow> rt_object_init (OMq i) RT_Object_Class_MessageQueue name k;
       (_, k2) \<leftarrow> rt_ipc_object_init (SuspendQ (OMq i)) (set_flag (OMq i) flag k1);
       let n = ucast (pool_size div (ucast (ucast (rt_align sz) :: u16) + 4));
       Some (RT_EOK, upd_mq i (mq_setup msgpool sz n) k2)
     }"

definition rt_mq_detach :: "oid \<Rightarrow> kernel \<Rightarrow> (int \<times> kernel) option" where
  "rt_mq_detach i k =
     do {
       RT_ASSERT (rt_object_get_type k (OMq i) = RT_Object_Class_MessageQueue);
       RT_ASSERT (rt_object_is_systemobject k (OMq i));
       k1 \<leftarrow> rt_ipc_list_resume_all (SuspendQ (OMq i)) k;
       Some (RT_EOK, rt_object_detach (OMq i) k1)
     }"

definition rt_mq_delete :: "oid \<Rightarrow> kernel \<Rightarrow> (int \<times> kernel) option" where
  "rt_mq_delete i k =
     do {
       RT_ASSERT (not_in_interrupt k);
       RT_ASSERT (rt_object_get_type k (OMq i) = RT_Object_Class_MessageQueue);
       RT_ASSERT (\<not> rt_object_is_systemobject k (OMq i));
       k1 \<leftarrow> rt_ipc_list_resume_all (SuspendQ (OMq i)) k;
       k2 \<leftarrow> rt_object_delete (OMq i) k1;
       Some (RT_EOK, k2)
     }"

definition rt_mq_create ::
  "u8 list \<Rightarrow> u32 \<Rightarrow> u32 \<Rightarrow> u8 \<Rightarrow> oid option \<Rightarrow> u8 list option \<Rightarrow> kernel \<Rightarrow> (oid option \<times> kernel) option" where
  "rt_mq_create name sz n flag mem pool k =
     do {
       RT_ASSERT (not_in_interrupt k);
       (_, k1) \<leftarrow> rt_object_allocate RT_Object_Class_MessageQueue name (map_option OMq mem) k;
       (case mem of
          None \<Rightarrow> Some (None, k1)
        | Some i \<Rightarrow> do {
            (_, k2) \<leftarrow> rt_ipc_object_init (SuspendQ (OMq i)) (set_flag (OMq i) flag k1);
            (case pool of
               None \<Rightarrow> do {
                 (_, k3) \<leftarrow> rt_mq_delete i (upd_mq i (\<lambda>m. m\<lparr>msg_size := ucast (rt_align sz), max_msgs := ucast n\<rparr>) k2);
                 Some (None, k3)
               }
             | Some p \<Rightarrow> Some (Some i, upd_mq i (mq_setup p sz (ucast n)) k2))
          })
     }"

text \<open>The end of both kinds of send: wake the first waiting receiver.\<close>

definition mq_wake :: "oid \<Rightarrow> kernel \<Rightarrow> (int \<times> kernel) option" where
  "mq_wake i k =
     (if lst (thl k) (SuspendQ (OMq i)) \<noteq> []
      then do {
        (_, k1) \<leftarrow> rt_ipc_list_resume (SuspendQ (OMq i)) k;
        k2 \<leftarrow> rt_schedule k1;
        Some (RT_EOK, k2)
      }
      else Some (RT_EOK, k))"

definition rt_mq_send :: "oid \<Rightarrow> u8 list \<Rightarrow> u32 \<Rightarrow> kernel \<Rightarrow> (int \<times> kernel) option" where
  "rt_mq_send i buffer n k =
     do {
       RT_ASSERT (rt_object_get_type k (OMq i) = RT_Object_Class_MessageQueue);
       RT_ASSERT (n \<noteq> 0);
       (if unat n > unat (msg_size (mqs k i)) then Some (- RT_ERROR, k)
        else (case mq_take (mqs k i) of
            None \<Rightarrow> Some (- RT_EFULL, k)
          | Some (b, m) \<Rightarrow> do {
              RT_ASSERT (unat n \<le> length buffer);
              let m1 = mq_fill b (take (unat n) buffer) (m\<lparr>mq_next := (mq_next m)(b := None)\<rparr>);
              mq_wake i (upd_mq i (\<lambda>_. mq_append b m1) k)
            }))
     }"

definition rt_mq_urgent :: "oid \<Rightarrow> u8 list \<Rightarrow> u32 \<Rightarrow> kernel \<Rightarrow> (int \<times> kernel) option" where
  "rt_mq_urgent i buffer n k =
     do {
       RT_ASSERT (rt_object_get_type k (OMq i) = RT_Object_Class_MessageQueue);
       RT_ASSERT (n \<noteq> 0);
       (if unat n > unat (msg_size (mqs k i)) then Some (- RT_ERROR, k)
        else (case mq_take (mqs k i) of
            None \<Rightarrow> Some (- RT_EFULL, k)
          | Some (b, m) \<Rightarrow> do {
              RT_ASSERT (unat n \<le> length buffer);
              let m1 = mq_fill b (take (unat n) buffer) m;
              mq_wake i (upd_mq i (\<lambda>_. mq_push b m1) k)
            }))
     }"

text \<open>\<open>n\<close> is the size of the caller's buffer; the bytes stored there are returned.\<close>

definition mq_recv_loop :: "oid \<Rightarrow> u32 \<Rightarrow> int \<Rightarrow> kernel \<Rightarrow> (int option \<times> u8 list option \<times> kernel) option" where
  "mq_recv_loop i n timeout k =
     (if mq_entry (mqs k i) = 0
      then do {
        RT_ASSERT (in_thread_context k);
        t \<leftarrow> rt_thread_self k;
        let k1 = upd_thread t (\<lambda>th. th\<lparr>t_error := RT_EOK\<rparr>) k;
        (if timeout = 0
         then Some (Some (- RT_ETIMEOUT), None, upd_thread t (\<lambda>th. th\<lparr>t_error := - RT_ETIMEOUT\<rparr>) k1)
         else do {
           k2 \<leftarrow> ipc_wait (SuspendQ (OMq i)) t (o_flag (hdr k1 (OMq i))) timeout k1;
           k3 \<leftarrow> rt_schedule k2;
           Some (None, None, k3)
         })
      }
      else do {
        (b, m) \<leftarrow> mq_unlink (mqs k i);
        let sz = (if unat n > unat (msg_size m) then unat (msg_size m) else unat n);
        Some (Some RT_EOK, Some (take sz (mq_data m b)), upd_mq i (\<lambda>_. mq_free b m) k)
      })"

definition rt_mq_recv :: "oid \<Rightarrow> u32 \<Rightarrow> int \<Rightarrow> kernel \<Rightarrow> (int option \<times> u8 list option \<times> kernel) option" where
  "rt_mq_recv i n timeout k =
     do {
       RT_ASSERT (rt_object_get_type k (OMq i) = RT_Object_Class_MessageQueue);
       RT_ASSERT (n \<noteq> 0);
       (if mq_entry (mqs k i) = 0 \<and> timeout = 0 then Some (Some (- RT_ETIMEOUT), None, k)
        else mq_recv_loop i n timeout k)
     }"

definition rt_mq_recv_return ::
  "oid \<Rightarrow> u32 \<Rightarrow> int \<Rightarrow> u32 \<Rightarrow> tid \<Rightarrow> kernel \<Rightarrow> (int option \<times> u8 list option \<times> kernel) option" where
  "rt_mq_recv_return i n timeout start t k =
     (if t_error (threads k t) \<noteq> RT_EOK then Some (Some (t_error (threads k t)), None, k)
      else mq_recv_loop i n (time_left timeout start (tick k)) k)"

definition rt_mq_control :: "oid \<Rightarrow> nat \<Rightarrow> kernel \<Rightarrow> (int \<times> kernel) option" where
  "rt_mq_control i cmd k =
     do {
       RT_ASSERT (rt_object_get_type k (OMq i) = RT_Object_Class_MessageQueue);
       (if cmd = RT_IPC_CMD_RESET
        then do {
          k1 \<leftarrow> rt_ipc_list_resume_all (SuspendQ (OMq i)) k;
          m \<leftarrow> mq_flush (mqs k1 i);
          k2 \<leftarrow> rt_schedule (upd_mq i (\<lambda>_. m\<lparr>mq_entry := 0\<rparr>) k1);
          Some (RT_EOK, k2)
        }
        else Some (- RT_ERROR, k))
     }"

subsection \<open>Who has a block\<close>

text \<open>
  \<open>h\<close> records the blocks on no list: taken by a sender and not yet filled, filled and not yet
  linked, unlinked by a receiver and not yet freed.
\<close>

datatype holding = Taken | Filled | Got

definition mq_wf :: "rt_messagequeue \<Rightarrow> (nat \<Rightarrow> holding option) \<Rightarrow> nat list \<Rightarrow> nat list \<Rightarrow> bool" where
  "mq_wf m h fs qs \<longleftrightarrow>
     linked (mq_next m) (msg_queue_free m) fs \<and> linked (mq_next m) (msg_queue_head m) qs \<and>
     msg_queue_tail m = (if qs = [] then None else Some (last qs)) \<and>
     distinct (fs @ qs) \<and> (\<forall>b. h b \<noteq> None \<longrightarrow> b \<notin> set fs \<and> b \<notin> set qs) \<and>
     (\<forall>b. b < unat (max_msgs m) \<longleftrightarrow> b \<in> set fs \<or> b \<in> set qs \<or> h b \<noteq> None) \<and>
     unat (mq_entry m) = length qs \<and>
     (\<forall>b < unat (max_msgs m). length (mq_data m b) = unat (msg_size m)) \<and>
     (\<forall>b. h b = Some Filled \<longrightarrow> mq_next m b = None)"

text \<open>The messages, oldest first.\<close>

definition mq_msgs :: "rt_messagequeue \<Rightarrow> u8 list list" where
  "mq_msgs m = map (mq_data m) (walk (mq_next m) (msg_queue_head m) (unat (mq_entry m)))"

lemma mq_msgs_eq: "mq_wf m h fs qs \<Longrightarrow> mq_msgs m = map (mq_data m) qs"
  using linked_walk by (fastforce simp: mq_wf_def mq_msgs_def)

lemma mq_count:
  assumes "mq_wf m h fs qs"
  shows "length qs + length fs \<le> unat (max_msgs m)" "h b \<noteq> None \<Longrightarrow> Suc (length qs) \<le> unat (max_msgs m)"
proof -
  have d: "distinct (fs @ qs)" and s: "set (fs @ qs) \<subseteq> {..<unat (max_msgs m)}"
    using assms by (auto simp: mq_wf_def)
  then show "length qs + length fs \<le> unat (max_msgs m)"
    using card_mono [OF _ s] distinct_card [OF d] by simp
  assume h: "h b \<noteq> None"
  have "b \<notin> set qs" "b < unat (max_msgs m)" using assms h by (simp_all add: mq_wf_def)
  then have "distinct (b # qs)" "set (b # qs) \<subseteq> {..<unat (max_msgs m)}" using d s by auto
  then show "Suc (length qs) \<le> unat (max_msgs m)" using card_mono [of "{..<unat (max_msgs m)}" "set (b # qs)"]
      distinct_card [of "b # qs"] by simp
qed

lemma unat_plus_one16:
  assumes "unat (a :: u16) < unat (n :: u16)"
  shows "unat (a + 1) = Suc (unat a)"
proof -
  have "unat n < 2 ^ 16" using unsigned_less [of n] by simp
  with assms show ?thesis by (simp add: unat_word_ariths)
qed

lemma mq_entry_suc:
  assumes wf: "mq_wf m h fs qs" and h: "h b \<noteq> None"
  shows "unat (mq_entry m + 1) = Suc (length qs)"
proof -
  have e: "unat (mq_entry m) = length qs" using wf by (simp add: mq_wf_def)
  have "unat (mq_entry m) < unat (max_msgs m)" using mq_count(2) [OF wf h] e by simp
  from unat_plus_one16 [OF this] show ?thesis by (simp add: e)
qed

lemma mq_take_wf:
  assumes wf: "mq_wf m h fs qs"
  shows "fs = [] \<Longrightarrow> mq_take m = None"
    "fs = b # bs \<Longrightarrow> \<exists>m'. mq_take m = Some (b, m') \<and> mq_wf m' (h(b := Some Taken)) bs qs \<and> h b = None \<and>
       mq_data m' = mq_data m \<and> msg_size m' = msg_size m \<and> max_msgs m' = max_msgs m"
  using wf by (auto simp: mq_wf_def mq_take_def)

lemma mq_fill_wf:
  assumes wf: "mq_wf m h fs qs" and h: "h b = Some Taken" and l: "length bytes \<le> unat (msg_size m)"
  shows "mq_wf (mq_fill b bytes (m\<lparr>mq_next := (mq_next m)(b := None)\<rparr>)) (h(b := Some Filled)) fs qs"
    and "mq_wf (mq_fill b bytes m) h fs qs"
proof -
  have b: "b \<notin> set fs" "b \<notin> set qs" "b < unat (max_msgs m)" "length (mq_data m b) = unat (msg_size m)"
    using wf h by (auto simp: mq_wf_def)
  show "mq_wf (mq_fill b bytes (m\<lparr>mq_next := (mq_next m)(b := None)\<rparr>)) (h(b := Some Filled)) fs qs"
    using wf b l h by (auto simp: mq_wf_def mq_fill_def)
  show "mq_wf (mq_fill b bytes m) h fs qs"
    using wf b l by (simp add: mq_wf_def mq_fill_def)
qed

lemma mq_append_wf:
  assumes wf: "mq_wf m h fs qs" and h: "h b = Some Filled"
  shows "mq_wf (mq_append b m) (h(b := None)) fs (qs @ [b])" "mq_data (mq_append b m) = mq_data m"
    "msg_size (mq_append b m) = msg_size m" "max_msgs (mq_append b m) = max_msgs m"
proof -
  have b: "b \<notin> set fs" "b \<notin> set qs" "b < unat (max_msgs m)" "mq_next m b = None"
    using wf h by (auto simp: mq_wf_def)
  have e: "unat (mq_entry m + 1) = Suc (length qs)" by (rule mq_entry_suc [OF wf, of b]) (simp add: h)
  show "mq_data (mq_append b m) = mq_data m" "msg_size (mq_append b m) = msg_size m"
    "max_msgs (mq_append b m) = max_msgs m"
    by (simp_all add: mq_append_def Let_def split: option.split)
  show "mq_wf (mq_append b m) (h(b := None)) fs (qs @ [b])"
  proof (cases "qs = []")
    case True
    then show ?thesis using wf b e h by (auto simp: mq_wf_def mq_append_def linked_None)
  next
    case False
    then obtain a qs' where q: "qs = a # qs'" by (cases qs) auto
    have hd: "msg_queue_head m = Some a" "msg_queue_tail m = Some (last qs)" using wf q by (auto simp: mq_wf_def)
    have ch: "linked ((mq_next m)(last qs := Some b)) (Some a) (qs @ [b])"
      using linked_snoc [of "mq_next m" "Some a" qs b] wf False b hd by (simp add: mq_wf_def)
    have lf: "last qs \<notin> set fs" "last qs \<in> set qs" using wf False by (auto simp: mq_wf_def)
    have hl: "h (last qs) = None" using wf lf(2) by (auto simp: mq_wf_def)
    have eq: "mq_append b m = m\<lparr>mq_next := (mq_next m)(last qs := Some b), msg_queue_tail := Some b, mq_entry := mq_entry m + 1\<rparr>"
      using hd by (simp add: mq_append_def)
    show ?thesis unfolding eq using wf b e h ch lf hl hd False by (auto simp: mq_wf_def)
  qed
qed

lemma mq_push_wf:
  assumes wf: "mq_wf m h fs qs" and h: "h b = Some Taken \<or> h b = Some Filled"
  shows "mq_wf (mq_push b m) (h(b := None)) fs (b # qs)" "mq_data (mq_push b m) = mq_data m"
    "msg_size (mq_push b m) = msg_size m" "max_msgs (mq_push b m) = max_msgs m"
proof -
  have hn: "h b \<noteq> None" using h by auto
  then have b: "b \<notin> set fs" "b \<notin> set qs" "b < unat (max_msgs m)" using wf by (auto simp: mq_wf_def)
  have e: "unat (mq_entry m + 1) = Suc (length qs)" by (rule mq_entry_suc [OF wf hn])
  show "mq_data (mq_push b m) = mq_data m" "msg_size (mq_push b m) = msg_size m" "max_msgs (mq_push b m) = max_msgs m"
    by (simp_all add: mq_push_def Let_def)
  show "mq_wf (mq_push b m) (h(b := None)) fs (b # qs)"
    using wf b e hn by (auto simp: mq_wf_def mq_push_def)
qed

lemma mq_unlink_wf:
  assumes wf: "mq_wf m h fs qs"
  shows "qs = [] \<Longrightarrow> mq_unlink m = None"
    "qs = b # bs \<Longrightarrow> \<exists>m'. mq_unlink m = Some (b, m') \<and> mq_wf m' (h(b := Some Got)) fs bs \<and>
       mq_data m' = mq_data m \<and> msg_size m' = msg_size m \<and> max_msgs m' = max_msgs m"
proof -
  show "mq_unlink m = None" if "qs = []" using wf that by (simp add: mq_wf_def mq_unlink_def)
  assume q: "qs = b # bs"
  let ?m = "m\<lparr>msg_queue_head := mq_next m b, msg_queue_tail := (if bs = [] then None else msg_queue_tail m),
    mq_entry := mq_entry m - 1\<rparr>"
  have e: "unat (mq_entry m - 1) = length bs" using wf q by (subst unat_minus_one) (auto simp: mq_wf_def)
  have t: "msg_queue_tail m = Some b \<longleftrightarrow> bs = []" using wf q by (auto simp: mq_wf_def)
  have "mq_unlink m = Some (b, ?m)" using wf q t by (auto simp: mq_unlink_def mq_wf_def)
  moreover have "mq_wf ?m (h(b := Some Got)) fs bs" using wf q e t by (auto simp: mq_wf_def)
  ultimately show "\<exists>m'. mq_unlink m = Some (b, m') \<and> mq_wf m' (h(b := Some Got)) fs bs \<and>
       mq_data m' = mq_data m \<and> msg_size m' = msg_size m \<and> max_msgs m' = max_msgs m"
    by (intro exI [of _ ?m]) simp
qed

lemma mq_free_wf:
  assumes wf: "mq_wf m h fs qs" and h: "h b = Some Got"
  shows "mq_wf (mq_free b m) (h(b := None)) (b # fs) qs" "mq_data (mq_free b m) = mq_data m"
    "msg_size (mq_free b m) = msg_size m" "max_msgs (mq_free b m) = max_msgs m"
  using wf h by (auto simp: mq_wf_def mq_free_def)

text \<open>Setting up gives every block to the free list.\<close>

lemma mq_link_free_spec:
  "linked (mq_next m) (msg_queue_free m) [] \<Longrightarrow>
   linked (mq_next (mq_link_free n m)) (msg_queue_free (mq_link_free n m)) (rev [0..<n]) \<and>
   mq_data (mq_link_free n m) = mq_data m \<and> msg_size (mq_link_free n m) = msg_size m \<and>
   max_msgs (mq_link_free n m) = max_msgs m \<and> msg_queue_head (mq_link_free n m) = msg_queue_head m \<and>
   msg_queue_tail (mq_link_free n m) = msg_queue_tail m"
  by (induction n) (auto simp: Let_def)

lemma mq_setup_wf:
  assumes "unat n * (unat (ucast (rt_align sz) :: u16) + 4) \<le> length pool"
  shows "mq_wf (mq_setup pool sz n m) (\<lambda>_. None) (rev [0..<unat n]) []"
proof -
  let ?s = "unat (ucast (rt_align sz) :: u16)"
  have "length (pool_data pool (ucast (rt_align sz)) b) = ?s" if "b < unat n" for b
  proof -
    have "Suc b * (?s + 4) \<le> unat n * (?s + 4)" using that by (intro mult_le_mono1) simp
    also have "\<dots> \<le> length pool" by (rule assms)
    finally have "b * (?s + 4) + 4 + ?s \<le> length pool" by simp
    then show ?thesis by (simp add: pool_data_def)
  qed
  then show ?thesis
    using mq_link_free_spec [of "m\<lparr>mq_data := pool_data pool (ucast (rt_align sz)), msg_size := ucast (rt_align sz),
        max_msgs := n, msg_queue_head := None, msg_queue_tail := None, msg_queue_free := None\<rparr>" "unat n"]
    by (auto simp: mq_setup_def mq_wf_def)
qed

subsection \<open>Interleavings\<close>

text \<open>
  Senders and receivers as they are preempted between their critical sections: one rule per
  section, for whichever thread takes it.
\<close>

inductive mq_step ::
  "rt_messagequeue \<times> (nat \<Rightarrow> holding option) \<Rightarrow> rt_messagequeue \<times> (nat \<Rightarrow> holding option) \<Rightarrow> bool" where
  take: "mq_take m = Some (b, m') \<Longrightarrow> mq_step (m, h) (m', h(b := Some Taken))"
| fill: "h b = Some Taken \<Longrightarrow> length bytes \<le> unat (msg_size m) \<Longrightarrow>
    mq_step (m, h) (mq_fill b bytes (m\<lparr>mq_next := (mq_next m)(b := None)\<rparr>), h(b := Some Filled))"
| append: "h b = Some Filled \<Longrightarrow> mq_step (m, h) (mq_append b m, h(b := None))"
| urgent_fill: "h b = Some Taken \<Longrightarrow> length bytes \<le> unat (msg_size m) \<Longrightarrow>
    mq_step (m, h) (mq_fill b bytes m, h)"
| push: "h b = Some Taken \<Longrightarrow> mq_step (m, h) (mq_push b m, h(b := None))"
| unlink: "mq_unlink m = Some (b, m') \<Longrightarrow> mq_step (m, h) (m', h(b := Some Got))"
| free: "h b = Some Got \<Longrightarrow> mq_step (m, h) (mq_free b m, h(b := None))"

inductive mq_reach :: "rt_messagequeue \<Rightarrow> rt_messagequeue \<times> (nat \<Rightarrow> holding option) \<Rightarrow> bool" for m0 where
  start: "mq_reach m0 (m0, \<lambda>_. None)"
| step: "mq_reach m0 s \<Longrightarrow> mq_step s s' \<Longrightarrow> mq_reach m0 s'"

lemma mq_step_wf:
  assumes "mq_step (m, h) (m', h')" and wf: "mq_wf m h fs qs"
  shows "\<exists>fs' qs'. mq_wf m' h' fs' qs' \<and> msg_size m' = msg_size m \<and> max_msgs m' = max_msgs m"
  using assms(1)
proof cases
  case (take b)
  then obtain bs where "fs = b # bs"
    using mq_take_wf [OF wf] by (cases fs) auto
  with mq_take_wf(2) [OF wf this] take show ?thesis by auto
next
  case (fill b bytes)
  with mq_fill_wf(1) [OF wf fill(3,4)] show ?thesis
    by (intro exI [of _ fs] exI [of _ qs]) (simp add: mq_fill_def)
next
  case (append b)
  with mq_append_wf [OF wf append(3)] show ?thesis by blast
next
  case (urgent_fill b bytes)
  with mq_fill_wf(2) [OF wf urgent_fill(3,4)] show ?thesis
    by (intro exI [of _ fs] exI [of _ qs]) (simp add: mq_fill_def)
next
  case (push b)
  with mq_push_wf [OF wf] show ?thesis by blast
next
  case (unlink b)
  then obtain bs where "qs = b # bs"
    using mq_unlink_wf [OF wf] by (cases qs) auto
  with mq_unlink_wf(2) [OF wf this] unlink show ?thesis by auto
next
  case (free b)
  with mq_free_wf [OF wf free(3)] show ?thesis by blast
qed

lemma mq_reach_wf:
  assumes "mq_reach m0 s" and wf: "mq_wf m0 (\<lambda>_. None) fs0 qs0"
  shows "\<exists>fs qs. mq_wf (fst s) (snd s) fs qs \<and> msg_size (fst s) = msg_size m0 \<and> max_msgs (fst s) = max_msgs m0"
  using assms(1)
proof (induction rule: mq_reach.induct)
  case start
  show ?case using wf by auto
next
  case (step s s')
  then obtain fs qs where 1: "mq_wf (fst s) (snd s) fs qs" "msg_size (fst s) = msg_size m0" "max_msgs (fst s) = max_msgs m0"
    by blast
  have "mq_step (fst s, snd s) (fst s', snd s')" using step.hyps(2) by simp
  from mq_step_wf [OF this 1(1)] 1(2,3) show ?case by auto
qed

text \<open>
  C15.  However senders and receivers are interleaved, no block of a message queue is lost or
  has two users: in every state reachable from a fresh queue each block is on the free list, on
  the message list, or held by one thread, the next block a sender gets is held by no one, the
  entry count is the number of messages, and with no thread inside all blocks are accounted for.
\<close>

theorem mq_interleaving_safe:
  assumes pool: "unat n * (unat (ucast (rt_align sz) :: u16) + 4) \<le> length pool"
    and reach: "mq_reach (mq_setup pool sz n m0) (m, h)"
  shows "\<exists>fs qs. mq_wf m h fs qs \<and> length (mq_msgs m) = unat (mq_entry m) \<and>
     (\<forall>b m'. mq_take m = Some (b, m') \<longrightarrow> h b = None \<and> b \<notin> set qs) \<and>
     ((\<forall>b. h b = None) \<longrightarrow> length fs + length qs = unat n)"
proof -
  from mq_reach_wf [OF reach mq_setup_wf [OF pool]] obtain fs qs where
    wf: "mq_wf m h fs qs" "max_msgs m = max_msgs (mq_setup pool sz n m0)" by auto
  have n: "max_msgs m = n" using wf(2) mq_link_free_spec [of "m0\<lparr>mq_data := pool_data pool (ucast (rt_align sz)),
      msg_size := ucast (rt_align sz), max_msgs := n, msg_queue_head := None, msg_queue_tail := None,
      msg_queue_free := None\<rparr>" "unat n"] by (simp add: mq_setup_def)
  have "h b = None \<and> b \<notin> set qs" if "mq_take m = Some (b, m')" for b m'
    using that mq_take_wf [OF wf(1)] wf(1) by (cases fs) (auto simp: mq_wf_def)
  moreover have "length fs + length qs = unat n" if "\<forall>b. h b = None"
  proof -
    have "distinct (fs @ qs)" "set (fs @ qs) = {..<unat n}" using wf(1) that n by (auto simp: mq_wf_def)
    with distinct_card [of "fs @ qs"] show ?thesis by simp
  qed
  moreover have "length (mq_msgs m) = unat (mq_entry m)" using wf(1) mq_msgs_eq [OF wf(1)] by (simp add: mq_wf_def)
  ultimately show ?thesis using wf(1) by blast
qed

definition zero_mq :: rt_messagequeue where
  "zero_mq = \<lparr>mq_next = (\<lambda>_. None), mq_data = (\<lambda>_. []), msg_size = 0, max_msgs = 0, mq_entry = 0,
     msg_queue_head = None, msg_queue_tail = None, msg_queue_free = None\<rparr>"

lemma rt_align_4: "rt_align 4 = 4"
  by (simp add: rt_align_def)

theorem mq_interleaving_safe_witness:
  "\<exists>m h fs qs. mq_reach (mq_setup (replicate 16 0) 4 2 zero_mq) (m, h) \<and> h 1 = Some Taken \<and> mq_wf m h fs qs"
proof -
  let ?m0 = "mq_setup (replicate 16 0) 4 2 zero_mq"
  have p: "unat (2 :: u16) * (unat (ucast (rt_align 4) :: u16) + 4) \<le> length (replicate 16 (0 :: u8))"
    by (simp add: rt_align_4)
  have "rev [0..<unat (2 :: u16)] = 1 # [0]" by (simp add: upt_rec)
  from mq_take_wf(2) [OF mq_setup_wf [OF p] this] obtain m' where t: "mq_take ?m0 = Some (1, m')" by blast
  have r: "mq_reach ?m0 (m', (\<lambda>_. None)(1 := Some Taken))"
    by (rule mq_reach.step [OF mq_reach.start mq_step.take [OF t]])
  from mq_interleaving_safe [OF p r] r show ?thesis by fastforce
qed

subsection \<open>Sending and receiving\<close>

definition mq_ok :: "kernel \<Rightarrow> oid \<Rightarrow> bool" where
  "mq_ok k i \<longleftrightarrow>
     rt_object_get_type k (OMq i) = RT_Object_Class_MessageQueue \<and>
     (o_flag (hdr k (OMq i)) = RT_IPC_FLAG_FIFO \<or> o_flag (hdr k (OMq i)) = RT_IPC_FLAG_PRIO) \<and>
     (\<exists>fs qs. mq_wf (mqs k i) (\<lambda>_. None) fs qs)"

lemma upd_mq_sel [simp]:
  "kinv (upd_mq i f k) = kinv k" "stacks_ok (upd_mq i f k) = stacks_ok k" "thl (upd_mq i f k) = thl k"
  "hdr (upd_mq i f k) = hdr k" "threads (upd_mq i f k) = threads k" "current (upd_mq i f k) = current k"
  "lock_nest (upd_mq i f k) = lock_nest k" "irq_nest (upd_mq i f k) = irq_nest k"
  "tml (upd_mq i f k) = tml k" "timers (upd_mq i f k) = timers k" "tick (upd_mq i f k) = tick k"
  "stat_of (upd_mq i f k) t = stat_of k t" "prio_of (upd_mq i f k) t = prio_of k t"
  "live (upd_mq i f k) t = live k t"
  "mqs (upd_mq i f k) = (mqs k)(i := f (mqs k i))"
  "rt_object_get_type (upd_mq i f k) r = rt_object_get_type k r"
  "moved q (upd_mq i f k) k' = moved q k k'"
  by (simp_all add: upd_mq_def rt_object_get_type_def live_def moved_def cong: list.case_cong)

lemma mq_ok_env:
  assumes "env_same k k'"
  shows "mq_ok k' i = mq_ok k i" "mqs k' i = mqs k i"
  using env_sameD(14) [OF assms, of "OMq i"] env_sameD(5,11) [OF assms]
  by (simp_all add: mq_ok_def)

lemma mq_ok_upd: "mq_wf m (\<lambda>_. None) fs qs \<Longrightarrow> mq_ok k i \<Longrightarrow> mq_ok (upd_mq i (\<lambda>_. m) k) i"
  by (auto simp: mq_ok_def)

lemma mq_okE:
  assumes "mq_ok k i"
  obtains fs qs where "mq_wf (mqs k i) (\<lambda>_. None) fs qs" "mq_msgs (mqs k i) = map (mq_data (mqs k i)) qs"
    "length fs + length qs = unat (max_msgs (mqs k i))"
proof -
  from assms obtain fs qs where wf: "mq_wf (mqs k i) (\<lambda>_. None) fs qs" by (auto simp: mq_ok_def)
  have "distinct (fs @ qs)" "set (fs @ qs) = {..<unat (max_msgs (mqs k i))}" using wf by (auto simp: mq_wf_def)
  with distinct_card [of "fs @ qs"] have "length fs + length qs = unat (max_msgs (mqs k i))" by simp
  then show ?thesis using that wf mq_msgs_eq [OF wf] by blast
qed

lemma mq_wake_spec:
  assumes i1: "kinv k1" "stacks_ok k1" "current k1 = Some c"
  obtains k' where "mq_wake i k1 = Some (RT_EOK, k')" "kinv k'" "stacks_ok k'" "moved (SuspendQ (OMq i)) k1 k'"
    "env_same k1 k'"
proof -
  let ?q = "SuspendQ (OMq i)"
  have wq: "wait_q ?q" by simp
  obtain k' where k': "kinv k'" "stacks_ok k'" "moved ?q k1 k'" "env_same k1 k'"
    "lst (thl k1) ?q = [] \<Longrightarrow> k' = k1"
    "lst (thl k1) ?q \<noteq> [] \<Longrightarrow> \<exists>k2. rt_ipc_list_resume ?q k1 = Some (RT_EOK, k2) \<and> rt_schedule k2 = Some k'"
    by (rule wake_end [OF i1 wq]) blast
  have "mq_wake i k1 = Some (RT_EOK, k')"
    using k'(5,6) by (cases "lst (thl k1) ?q = []") (auto simp: mq_wake_def)
  then show ?thesis using that k' by blast
qed

text \<open>Both sends, up to the wake-up: the messages gain one whose first bytes are the caller's.\<close>

lemma mq_send_blocks:
  assumes wf: "mq_wf m (\<lambda>_. None) (b # fs) qs" and l: "length bytes \<le> unat (msg_size m)"
  obtains m1 where "mq_take m = Some (b, m1)"
    "mq_wf (mq_append b (mq_fill b bytes (m1\<lparr>mq_next := (mq_next m1)(b := None)\<rparr>))) (\<lambda>_. None) fs (qs @ [b])"
    "mq_msgs (mq_append b (mq_fill b bytes (m1\<lparr>mq_next := (mq_next m1)(b := None)\<rparr>))) =
       mq_msgs m @ [bytes @ drop (length bytes) (mq_data m b)]"
    "mq_wf (mq_push b (mq_fill b bytes m1)) (\<lambda>_. None) fs (b # qs)"
    "mq_msgs (mq_push b (mq_fill b bytes m1)) = (bytes @ drop (length bytes) (mq_data m b)) # mq_msgs m"
    "msg_size (mq_append b (mq_fill b bytes (m1\<lparr>mq_next := (mq_next m1)(b := None)\<rparr>))) = msg_size m"
    "max_msgs (mq_append b (mq_fill b bytes (m1\<lparr>mq_next := (mq_next m1)(b := None)\<rparr>))) = max_msgs m"
    "length (mq_data m b) = unat (msg_size m)"
proof -
  obtain m1 where m1: "mq_take m = Some (b, m1)" "mq_wf m1 ((\<lambda>_. None)(b := Some Taken)) fs qs"
    "mq_data m1 = mq_data m" "msg_size m1 = msg_size m" "max_msgs m1 = max_msgs m"
    using mq_take_wf(2) [OF wf refl] by blast
  have l1: "length bytes \<le> unat (msg_size m1)" using l m1(4) by simp
  have tk: "((\<lambda>_. None)(b := Some Taken)) b = Some Taken" by simp
  note f = mq_fill_wf [OF m1(2) tk l1]
  have fl: "((\<lambda>_. None)(b := Some Taken, b := Some Filled)) b = Some Filled" by simp
  note ap = mq_append_wf [OF f(1) fl]
  note pu = mq_push_wf [OF f(2), of b, OF disjI1, OF tk]
  have h: "(\<lambda>_. None)(b := Some Taken, b := Some Filled, b := None) = (\<lambda>_. None :: holding option)"
    "(\<lambda>_. None)(b := Some Taken, b := None) = (\<lambda>_. None :: holding option)" by auto
  have b: "b \<notin> set qs" "length (mq_data m b) = unat (msg_size m)" using wf by (auto simp: mq_wf_def)
  have d: "map ((mq_data m)(b := x)) qs = map (mq_data m) qs" for x using b(1) by auto
  show ?thesis
  proof (rule that [OF m1(1)])
    let ?a = "mq_append b (mq_fill b bytes (m1\<lparr>mq_next := (mq_next m1)(b := None)\<rparr>))"
    show wa: "mq_wf ?a (\<lambda>_. None) fs (qs @ [b])" using ap(1) by (simp only: h)
    show wp: "mq_wf (mq_push b (mq_fill b bytes m1)) (\<lambda>_. None) fs (b # qs)" using pu(1) by (simp only: h)
    show "mq_msgs ?a = mq_msgs m @ [bytes @ drop (length bytes) (mq_data m b)]"
      unfolding mq_msgs_eq [OF wa] mq_msgs_eq [OF wf] ap(2) by (simp add: mq_fill_def m1(3) d)
    show "mq_msgs (mq_push b (mq_fill b bytes m1)) = (bytes @ drop (length bytes) (mq_data m b)) # mq_msgs m"
      unfolding mq_msgs_eq [OF wp] mq_msgs_eq [OF wf] pu(2) by (simp add: mq_fill_def m1(3) d)
    show "msg_size ?a = msg_size m" "max_msgs ?a = max_msgs m" using ap(3,4) m1(4,5) by (simp_all add: mq_fill_def)
    show "length (mq_data m b) = unat (msg_size m)" by (rule b(2))
  qed
qed

lemma mq_send_room:
  assumes inv: "kinv k" and st: "stacks_ok k" and cur: "current k = Some c" and ok: "mq_ok k i"
    and room: "length (mq_msgs (mqs k i)) < unat (max_msgs (mqs k i))"
    and n: "n \<noteq> 0" "unat n \<le> unat (msg_size (mqs k i))" "unat n \<le> length buffer"
  obtains k' x where "rt_mq_send i buffer n k = Some (RT_EOK, k')" "kinv k'" "stacks_ok k'" "mq_ok k' i"
    "moved (SuspendQ (OMq i)) k k'" "mq_msgs (mqs k' i) = mq_msgs (mqs k i) @ [take (unat n) buffer @ x]"
    "unat n + length x = unat (msg_size (mqs k i))"
    "msg_size (mqs k' i) = msg_size (mqs k i)" "max_msgs (mqs k' i) = max_msgs (mqs k i)"
proof -
  from mq_okE [OF ok] obtain fs qs where wf: "mq_wf (mqs k i) (\<lambda>_. None) fs qs"
    "mq_msgs (mqs k i) = map (mq_data (mqs k i)) qs" "length fs + length qs = unat (max_msgs (mqs k i))" .
  then obtain b bs where f: "fs = b # bs" using room by (cases fs) auto
  have l: "length (take (unat n) buffer) \<le> unat (msg_size (mqs k i))" using n by simp
  note w = wf(1) [unfolded f]
  obtain m1 where m1: "mq_take (mqs k i) = Some (b, m1)" and m2:
    "mq_wf (mq_append b (mq_fill b (take (unat n) buffer) (m1\<lparr>mq_next := (mq_next m1)(b := None)\<rparr>))) (\<lambda>_. None) bs (qs @ [b])"
    "mq_msgs (mq_append b (mq_fill b (take (unat n) buffer) (m1\<lparr>mq_next := (mq_next m1)(b := None)\<rparr>))) =
       mq_msgs (mqs k i) @ [take (unat n) buffer @ drop (length (take (unat n) buffer)) (mq_data (mqs k i) b)]"
    "msg_size (mq_append b (mq_fill b (take (unat n) buffer) (m1\<lparr>mq_next := (mq_next m1)(b := None)\<rparr>))) = msg_size (mqs k i)"
    "max_msgs (mq_append b (mq_fill b (take (unat n) buffer) (m1\<lparr>mq_next := (mq_next m1)(b := None)\<rparr>))) = max_msgs (mqs k i)"
    "length (mq_data (mqs k i) b) = unat (msg_size (mqs k i))"
    by (rule mq_send_blocks [OF w l]) blast
  define m where "m = mq_append b (mq_fill b (take (unat n) buffer) (m1\<lparr>mq_next := (mq_next m1)(b := None)\<rparr>))"
  note m2 = m2 [folded m_def]
  let ?k1 = "upd_mq i (\<lambda>_. m) k"
  have i1: "kinv ?k1" "stacks_ok ?k1" "current ?k1 = Some c" using inv st cur by simp_all
  obtain k' where k': "mq_wake i ?k1 = Some (RT_EOK, k')" "kinv k'" "stacks_ok k'" "moved (SuspendQ (OMq i)) ?k1 k'"
    "env_same ?k1 k'" by (rule mq_wake_spec [OF i1])
  have ty: "rt_object_get_type k (OMq i) = RT_Object_Class_MessageQueue" using ok by (simp add: mq_ok_def)
  have "rt_mq_send i buffer n k = Some (RT_EOK, k')"
    using ty n m1 k'(1) by (simp add: rt_mq_send_def m_def)
  moreover have "mqs k' i = m" using mq_ok_env(2) [OF k'(5), of i] by simp
  moreover have "mq_ok k' i" using mq_ok_env(1) [OF k'(5)] mq_ok_upd [OF m2(1) ok] by simp
  ultimately show ?thesis
    using that [OF _ k'(2,3), of "drop (length (take (unat n) buffer)) (mq_data (mqs k i) b)"] k'(4) m2 n by simp
qed

lemma mq_recv_some:
  assumes ok: "mq_ok k i" and some: "mq_msgs (mqs k i) = x # xs" and n: "n \<noteq> 0"
  obtains k' where "rt_mq_recv i n timeout k = Some (Some RT_EOK, Some (take (min (unat n) (unat (msg_size (mqs k i)))) x), k')"
    "mq_recv_loop i n timeout k = Some (Some RT_EOK, Some (take (min (unat n) (unat (msg_size (mqs k i)))) x), k')"
    "kinv k' = kinv k" "stacks_ok k' = stacks_ok k" "current k' = current k" "mq_ok k' i" "mq_msgs (mqs k' i) = xs"
    "msg_size (mqs k' i) = msg_size (mqs k i)" "max_msgs (mqs k' i) = max_msgs (mqs k i)" "thl k' = thl k" "threads k' = threads k"
proof -
  from mq_okE [OF ok] obtain fs qs where wf: "mq_wf (mqs k i) (\<lambda>_. None) fs qs"
    "mq_msgs (mqs k i) = map (mq_data (mqs k i)) qs" .
  then obtain b bs where q: "qs = b # bs" "x = mq_data (mqs k i) b" "xs = map (mq_data (mqs k i)) bs"
    using some by (cases qs) auto
  obtain m1 where m1: "mq_unlink (mqs k i) = Some (b, m1)" "mq_wf m1 ((\<lambda>_. None)(b := Some Got)) fs bs"
    "mq_data m1 = mq_data (mqs k i)" "msg_size m1 = msg_size (mqs k i)" "max_msgs m1 = max_msgs (mqs k i)"
    using mq_unlink_wf(2) [OF wf(1) q(1)] by blast
  have got: "((\<lambda>_. None)(b := Some Got)) b = Some Got" by simp
  note fr = mq_free_wf [OF m1(2) got]
  have h: "(\<lambda>_. None)(b := Some Got, b := None) = (\<lambda>_. None :: holding option)" by auto
  note wf' = fr(1) [unfolded h]
  let ?k' = "upd_mq i (\<lambda>_. mq_free b m1) k"
  have e: "mq_entry (mqs k i) \<noteq> 0" using wf(1) q(1) by (auto simp: mq_wf_def)
  have ty: "rt_object_get_type k (OMq i) = RT_Object_Class_MessageQueue" using ok by (simp add: mq_ok_def)
  have mn: "(if unat (msg_size m1) < unat n then unat (msg_size m1) else unat n) = min (unat n) (unat (msg_size (mqs k i)))"
    by (simp add: m1(4) min_def)
  have r: "mq_recv_loop i n timeout k = Some (Some RT_EOK, Some (take (min (unat n) (unat (msg_size (mqs k i)))) x), ?k')"
    using e m1 q(2) mn by (simp add: mq_recv_loop_def Let_def del: take_take)
  moreover have "rt_mq_recv i n timeout k = mq_recv_loop i n timeout k" using ty n e by (simp add: rt_mq_recv_def)
  moreover have "mq_ok ?k' i" by (rule mq_ok_upd [OF wf' ok])
  moreover have "mq_msgs (mqs ?k' i) = xs" using mq_msgs_eq [OF wf'] fr(2) m1(3) q(3) by simp
  ultimately show ?thesis using that [of ?k'] fr(3,4) m1(4,5) by simp
qed

subsection \<open>A message queue of full-size messages is a bounded queue\<close>

definition mq_good :: "oid \<Rightarrow> kernel \<Rightarrow> bool" where
  "mq_good i k \<longleftrightarrow> kinv k \<and> stacks_ok k \<and> current k \<noteq> None \<and> mq_ok k i"

text \<open>
  The calls that do not wait, by their results and with the state they leave; a failed assertion
  and any other result are \<open>None\<close>.
\<close>

definition mq_offer :: "oid \<Rightarrow> u8 list \<Rightarrow> kernel \<Rightarrow> (bool \<times> kernel) option" where
  "mq_offer i x k =
     (case rt_mq_send i x (of_nat (length x)) k of
        Some (e, k') \<Rightarrow> if e = RT_EOK then Some (True, k') else if e = - RT_EFULL then Some (False, k') else None
      | None \<Rightarrow> None)"

definition mq_fetch :: "oid \<Rightarrow> kernel \<Rightarrow> (u8 list option \<times> kernel) option" where
  "mq_fetch i k =
     (case rt_mq_recv i 0xffffffff 0 k of
        Some (Some e, r, k') \<Rightarrow>
          if e = RT_EOK \<and> r \<noteq> None \<or> e = - RT_ETIMEOUT \<and> r = None then Some (r, k') else None
      | _ \<Rightarrow> None)"

definition mq_fits :: "oid \<Rightarrow> kernel \<Rightarrow> u8 list \<Rightarrow> bool" where
  "mq_fits i k x \<longleftrightarrow> x \<noteq> [] \<and> length x = unat (msg_size (mqs k i))"

lemma msg_length:
  assumes "length x = unat (s :: u16)"
  shows "unat (of_nat (length x) :: u32) = length x"
proof -
  have "length x < 2 ^ 16" using assms unsigned_less [of s] by simp
  then show ?thesis by (simp add: unat_of_nat)
qed

lemma mq_good_cur: "mq_good i k \<Longrightarrow> \<exists>c. kinv k \<and> stacks_ok k \<and> current k = Some c \<and> mq_ok k i"
  by (auto simp: mq_good_def)

interpretation mq: bounded_fifo "mq_offer i" "mq_fetch i" "\<lambda>k. mq_msgs (mqs k i)"
  "\<lambda>k. unat (max_msgs (mqs k i))" "mq_fits i" "\<lambda>_. mq_good i" for i
proof (unfold_locales, goal_cases)
  case (1 n k)
  then have "mq_ok k i" by (simp add: mq_good_def)
  then show ?case by (rule mq_okE) (metis le_add2 length_map)
next
  case (2 n k x)
  then have ok: "mq_ok k i" by (simp add: mq_good_def)
  then obtain fs qs where wf: "mq_wf (mqs k i) (\<lambda>_. None) fs qs" "mq_msgs (mqs k i) = map (mq_data (mqs k i)) qs"
    "length fs + length qs = unat (max_msgs (mqs k i))" by (rule mq_okE)
  then have "fs = []" using 2(2) by simp
  then have "mq_take (mqs k i) = None" by (rule mq_take_wf(1) [OF wf(1)])
  moreover have x: "x \<noteq> []" "length x = unat (msg_size (mqs k i))" using 2(3) by (simp_all add: mq_fits_def)
  moreover note lx = msg_length [OF x(2)]
  moreover have "(of_nat (length x) :: u32) \<noteq> 0" using lx x(1) by (metis length_0_conv unat_0)
  ultimately have "mq_offer i x k = Some (False, k)" using ok by (simp add: mq_offer_def rt_mq_send_def mq_ok_def)
  then show ?case using 2(1) by simp
next
  case (3 n k x)
  then obtain c where c: "kinv k" "stacks_ok k" "current k = Some c" "mq_ok k i" using mq_good_cur by blast
  have x: "x \<noteq> []" "length x = unat (msg_size (mqs k i))" using 3(3) by (simp_all add: mq_fits_def)
  note lx = msg_length [OF x(2)]
  have n: "(of_nat (length x) :: u32) \<noteq> 0" using lx x(1) by (metis length_0_conv unat_0)
  obtain k' y where "rt_mq_send i x (of_nat (length x)) k = Some (RT_EOK, k')" "kinv k'" "stacks_ok k'" "mq_ok k' i"
    "moved (SuspendQ (OMq i)) k k'" "mq_msgs (mqs k' i) = mq_msgs (mqs k i) @ [take (unat (of_nat (length x) :: u32)) x @ y]"
    "unat (of_nat (length x) :: u32) + length y = unat (msg_size (mqs k i))"
    "msg_size (mqs k' i) = msg_size (mqs k i)" "max_msgs (mqs k' i) = max_msgs (mqs k i)"
    by (rule mq_send_room [OF c 3(2) n, of x]) (use lx x(2) in linarith)+
  then show ?case using lx x by (simp add: mq_offer_def mq_good_def moved_def mq_fits_def)
next
  case (4 n k)
  then have ok: "mq_ok k i" by (simp add: mq_good_def)
  then obtain fs qs where wf: "mq_wf (mqs k i) (\<lambda>_. None) fs qs" "mq_msgs (mqs k i) = map (mq_data (mqs k i)) qs"
    by (rule mq_okE)
  then have "mq_entry (mqs k i) = 0" using 4(2) by (simp add: mq_wf_def unat_eq_0)
  then have "mq_fetch i k = Some (None, k)" using ok by (simp add: mq_fetch_def rt_mq_recv_def mq_ok_def)
  then show ?case using 4 by simp
next
  case (5 n k x xs)
  then have ok: "mq_ok k i" by (simp add: mq_good_def)
  then obtain fs qs where wf: "mq_wf (mqs k i) (\<lambda>_. None) fs qs" "mq_msgs (mqs k i) = map (mq_data (mqs k i)) qs"
    by (rule mq_okE)
  then have lx: "length x = unat (msg_size (mqs k i))" using 5(2) by (cases qs) (auto simp: mq_wf_def)
  have "length x < 2 ^ 16" using lx unsigned_less [of "msg_size (mqs k i)"] by simp
  then have mn: "take (min (unat (0xffffffff :: u32)) (unat (msg_size (mqs k i)))) x = x" using lx by simp
  have n: "(0xffffffff :: u32) \<noteq> 0" by simp
  obtain k' where k': "rt_mq_recv i 0xffffffff 0 k =
      Some (Some RT_EOK, Some (take (min (unat (0xffffffff :: u32)) (unat (msg_size (mqs k i)))) x), k')"
    "kinv k' = kinv k" "stacks_ok k' = stacks_ok k" "current k' = current k" "mq_ok k' i" "mq_msgs (mqs k' i) = xs"
    "msg_size (mqs k' i) = msg_size (mqs k i)" "max_msgs (mqs k' i) = max_msgs (mqs k i)"
    by (rule mq_recv_some [OF ok 5(2) n]) blast
  then show ?case using 5(1) unfolding mn by (simp add: mq_fetch_def mq_good_def mq_fits_def)
qed

text \<open>
  C16.  Any run of \<^verbatim>\<open>rt_mq_send\<close> and of \<^verbatim>\<open>rt_mq_recv\<close> without waiting time with messages of the
  queue's size returns what a list of at most \<^verbatim>\<open>max_msgs\<close> byte strings returns, and leaves its
  contents; every call returns and goes on from the state the one before has left, also when that
  one was refused (\<^verbatim>\<open>-RT_EFULL\<close>, \<^verbatim>\<open>-RT_ETIMEOUT\<close>).
\<close>

theorem mq_run_refines_queue:
  assumes "mq_good i k" and "\<forall>x \<in> set (offered ops). mq_fits i k x"
  shows "\<exists>k'. fifo_run (mq_offer i) (mq_fetch i) ops k =
      Some (fst (queue_run (unat (max_msgs (mqs k i))) ops (mq_msgs (mqs k i))), k') \<and>
    mq_good i k' \<and>
    mq_msgs (mqs k' i) = snd (queue_run (unat (max_msgs (mqs k i))) ops (mq_msgs (mqs k i)))"
  using mq.run_refines [OF assms] by blast

text \<open>A kernel with a message queue of two four-byte messages.\<close>

definition mq_demo :: kernel where
  "mq_demo = upd_mq 0 (mq_setup (replicate 16 0) 4 2) ipc_demo"

lemma mq_demo_wf: "mq_wf (mqs mq_demo 0) (\<lambda>_. None) [1, 0] []"
proof -
  have "rev [0..<unat (2 :: u16)] = [1, 0]" by (simp add: upt_rec)
  then show ?thesis using mq_setup_wf [of 2 4 "replicate 16 0" "mqs ipc_demo 0"]
    by (simp add: mq_demo_def rt_align_4)
qed

lemma mq_demo_sel: "kinv mq_demo" "stacks_ok mq_demo" "current mq_demo = Some 0" "irq_nest mq_demo = 0"
  "lock_nest mq_demo = 0" "thl mq_demo = thl demo_kernel" "max_msgs (mqs mq_demo 0) = 2" "msg_size (mqs mq_demo 0) = 4"
  "mq_msgs (mqs mq_demo 0) = []" "mq_ok mq_demo 0" "stat_of mq_demo t = stat_of demo_kernel t"
proof -
  note l = mq_link_free_spec [of "mqs ipc_demo 0\<lparr>mq_data := pool_data (replicate 16 0) (ucast (rt_align 4)),
      msg_size := ucast (rt_align 4), max_msgs := 2, msg_queue_head := None, msg_queue_tail := None,
      msg_queue_free := None\<rparr>" "unat (2 :: u16)"]
  show "max_msgs (mqs mq_demo 0) = 2" "msg_size (mqs mq_demo 0) = 4"
    using l by (simp_all add: mq_demo_def mq_setup_def rt_align_4)
  show "mq_msgs (mqs mq_demo 0) = []" by (simp add: mq_msgs_eq [OF mq_demo_wf])
  have "rt_object_get_type mq_demo (OMq 0) = 6" "o_flag (hdr mq_demo (OMq 0)) = 0"
    by (simp_all add: mq_demo_def ipc_demo_type ipc_demo_sel)
  then show "mq_ok mq_demo 0" unfolding mq_ok_def using mq_demo_wf by blast
qed (simp_all add: mq_demo_def ipc_demo_kinv ipc_demo_stacks ipc_demo_sel ipc_demo_stat)

theorem mq_run_refines_queue_witness:
  "\<exists>k'. fifo_run (mq_offer 0) (mq_fetch 0) [Offer [1,2,3,4], Offer [5,6,7,8], Offer [9,9,9,9], Fetch, Fetch, Fetch] mq_demo =
     Some ([Accepted, Accepted, Refused, Item [1,2,3,4], Item [5,6,7,8], Empty], k') \<and> mq_msgs (mqs k' 0) = []"
proof -
  let ?ops = "[Offer [1,2,3,4], Offer [5,6,7,8], Offer [9,9,9,9], Fetch, Fetch, Fetch] :: u8 list fifo_op list"
  have g: "mq_good 0 mq_demo" by (simp add: mq_good_def mq_demo_sel)
  have f: "\<forall>x \<in> set (offered ?ops). mq_fits 0 mq_demo x" by (simp add: mq_fits_def mq_demo_sel)
  have n: "unat (max_msgs (mqs mq_demo 0)) = 2" by (simp add: mq_demo_sel)
  have q: "queue_run 2 ?ops [] = ([Accepted, Accepted, Refused, Item [1,2,3,4], Item [5,6,7,8], Empty], [])" by simp
  from mq_run_refines_queue [OF g f, unfolded n mq_demo_sel(9) q] show ?thesis by auto
qed

subsection \<open>Reset\<close>

lemma mq_flush_spec:
  "mq_wf (m\<lparr>mq_entry := of_nat (length qs)\<rparr>) h fs qs \<Longrightarrow>
   \<exists>m'. mq_flush m = Some m' \<and> mq_wf (m'\<lparr>mq_entry := 0\<rparr>) h (rev qs @ fs) [] \<and> max_msgs m' = max_msgs m \<and> msg_size m' = msg_size m"
proof (induction qs arbitrary: m fs)
  case Nil
  then show ?case
    by (intro exI [of _ m]) (simp add: mq_flush.simps [of m] mq_wf_def)
next
  case (Cons b bs)
  let ?m2 = "mq_free b (m\<lparr>msg_queue_head := mq_next m b, msg_queue_tail := (if bs = [] then None else msg_queue_tail m)\<rparr>)"
  have hd: "msg_queue_head m = Some b" "msg_queue_tail m = Some b \<longleftrightarrow> bs = []"
    using Cons.prems by (auto simp: mq_wf_def)
  have n: "length bs < unat (max_msgs m)" using mq_count(1) [OF Cons.prems] by simp
  moreover have "unat (max_msgs m) < 2 ^ 16" using unsigned_less [of "max_msgs m"] by simp
  ultimately have e: "unat (of_nat (length bs) :: u16) = length bs" by (simp add: unat_of_nat)
  have "mq_wf (?m2\<lparr>mq_entry := of_nat (length bs)\<rparr>) h (b # fs) bs"
    using Cons.prems e by (auto simp: mq_wf_def mq_free_def)
  from Cons.IH [OF this] obtain m' where m': "mq_flush ?m2 = Some m'" "mq_wf (m'\<lparr>mq_entry := 0\<rparr>) h (rev bs @ b # fs) []"
    "max_msgs m' = max_msgs m" "msg_size m' = msg_size m" by (auto simp: mq_free_def)
  have "mq_flush m = mq_flush ?m2" by (subst mq_flush.simps) (simp add: hd mq_free_def)
  with m' show ?case by simp
qed

text \<open>
  Resetting a message queue returns: every waiting receiver is woken with the error
  \<^verbatim>\<open>-RT_ERROR\<close>, the queue is empty and all its blocks are free.
\<close>

theorem rt_mq_reset:
  assumes inv: "kinv k" and st: "stacks_ok k" and cur: "current k = Some c" and ok: "mq_ok k i"
  shows "\<exists>k' fs. rt_mq_control i RT_IPC_CMD_RESET k = Some (RT_EOK, k') \<and> kinv k' \<and> mq_ok k' i \<and>
     mq_msgs (mqs k' i) = [] \<and> mq_wf (mqs k' i) (\<lambda>_. None) fs [] \<and> length fs = unat (max_msgs (mqs k i)) \<and>
     lst (thl k') (SuspendQ (OMq i)) = [] \<and>
     (\<forall>t \<in> set (lst (thl k) (SuspendQ (OMq i))).
        t_error (threads k' t) = - RT_ERROR \<and> (stat_of k' t = RT_THREAD_READY \<or> stat_of k' t = RT_THREAD_RUNNING))"
proof -
  let ?q = "SuspendQ (OMq i)"
  have wq: "wait_q ?q" by simp
  from resume_all_spec [OF inv wq] obtain k1 where
    k1: "rt_ipc_list_resume_all ?q k = Some k1" "kinv k1" "all_woken ?q k k1" by blast
  have e1: "env_same k k1" "current k1 = Some c" "lst (thl k1) ?q = []" using k1(3) cur by (simp_all add: all_woken_def)
  from mq_okE [OF ok] obtain fs qs where wf: "mq_wf (mqs k i) (\<lambda>_. None) fs qs"
    "length fs + length qs = unat (max_msgs (mqs k i))" .
  have m: "mqs k1 i = mqs k i" by (rule mq_ok_env(2) [OF e1(1)])
  have "length qs = unat (mq_entry (mqs k i))" using wf(1) by (simp add: mq_wf_def)
  then have "(of_nat (length qs) :: u16) = mq_entry (mqs k i)" by simp
  then have "mq_wf (mqs k1 i\<lparr>mq_entry := of_nat (length qs)\<rparr>) (\<lambda>_. None) fs qs" using wf(1) by (simp add: m)
  from mq_flush_spec [OF this] obtain m' where
    m': "mq_flush (mqs k1 i) = Some m'" "mq_wf (m'\<lparr>mq_entry := 0\<rparr>) (\<lambda>_. None) (rev qs @ fs) []" by blast
  let ?k2 = "upd_mq i (\<lambda>_. m'\<lparr>mq_entry := 0\<rparr>) k1"
  have st1: "stacks_ok k1"
    by (rule stacks_ok_env [OF st e1(1)]) (use all_woken_live [OF inv wq k1(3)] in simp)
  have i2: "kinv ?k2" "stacks_ok ?k2" "current ?k2 = Some c" using k1(2) st1 e1(2) by simp_all
  obtain k' where k': "rt_schedule ?k2 = Some k'" "kinv k'" "rescheduled ?k2 k'"
    and lq: "\<And>q. wait_q q \<Longrightarrow> lst (thl k') q = lst (thl ?k2) q"
    by (rule finish_schedule [OF i2]) blast
  note e2 = rescheduledD(5) [OF k'(3)]
  have ty: "rt_object_get_type k (OMq i) = RT_Object_Class_MessageQueue" using ok by (simp add: mq_ok_def)
  have r: "rt_mq_control i RT_IPC_CMD_RESET k = Some (RT_EOK, k')"
    using ty k1(1) m'(1) k'(1) by (simp add: rt_mq_control_def)
  have mk: "mqs k' i = m'\<lparr>mq_entry := 0\<rparr>" using mq_ok_env(2) [OF e2, of i] by simp
  have ok': "mq_ok k' i"
    using mq_ok_env(1) [OF e2, of i] mq_ok_env(1) [OF e1(1), of i] ok mq_ok_upd [OF m'(2), of k1] by simp
  have w: "t_error (threads k' t) = - RT_ERROR \<and> (stat_of k' t = RT_THREAD_READY \<or> stat_of k' t = RT_THREAD_RUNNING)"
    if "t \<in> set (lst (thl k) ?q)" for t
  proof -
    have "t_error (threads ?k2 t) = - RT_ERROR" "stat_of ?k2 t = RT_THREAD_READY \<or> stat_of ?k2 t = RT_THREAD_RUNNING"
      using k1(3) that by (auto simp: all_woken_def)
    then show ?thesis using k'(3) rescheduledD(4) [OF k'(3), of t] unfolding rescheduled_def by metis
  qed
  show ?thesis
    by (intro exI [of _ k'] exI [of _ "rev qs @ fs"])
      (use r k'(2) ok' mk m'(2) mq_msgs_eq [OF m'(2)] wf(2) lq [OF wq] e1(3) w in simp)
qed

theorem rt_mq_reset_witness:
  "\<exists>k'. rt_mq_control 0 RT_IPC_CMD_RESET mq_demo = Some (RT_EOK, k') \<and> mq_msgs (mqs k' 0) = []"
  using rt_mq_reset [OF mq_demo_sel(1,2,3,10)] by blast

end
