(* ===== verification/Ringbuffer.thy ===== *)
theory Ringbuffer
  imports Fifo
begin

text \<open>
  \<^verbatim>\<open>rt-thread/components/drivers/src/ringbuffer.c\<close> and its header: a byte ring with mirror bits,
  without any waiting.  The indices are 15-bit fields; C arithmetic on them is in \<open>int\<close>.
\<close>

subsection \<open>Copies within bounds\<close>

definition mem_read :: "u8 list \<Rightarrow> int \<Rightarrow> int \<Rightarrow> u8 list option" where
  "mem_read a off n =
     (if 0 \<le> off \<and> 0 \<le> n \<and> off + n \<le> int (length a) then Some (take (nat n) (drop (nat off) a)) else None)"

definition mem_write :: "u8 list \<Rightarrow> int \<Rightarrow> u8 list \<Rightarrow> u8 list option" where
  "mem_write a off bs =
     (if 0 \<le> off \<and> off + int (length bs) \<le> int (length a)
      then Some (take (nat off) a @ bs @ drop (nat off + length bs) a) else None)"

text \<open>\<^verbatim>\<open>memcpy(&dst[d], &src[s], n)\<close>.\<close>

definition mem_copy :: "u8 list \<Rightarrow> int \<Rightarrow> u8 list \<Rightarrow> int \<Rightarrow> int \<Rightarrow> u8 list option" where
  "mem_copy dst d src s n = do { bs \<leftarrow> mem_read src s n; mem_write dst d bs }"

subsection \<open>Operations\<close>

record rt_ringbuffer =
  buffer_ptr :: "u8 list"
  read_mirror :: bool
  read_index :: "15 word"
  write_mirror :: bool
  write_index :: "15 word"
  buffer_size :: int       \<comment> \<open>\<open>rt_int16_t\<close>\<close>

abbreviation ridx :: "rt_ringbuffer \<Rightarrow> int" where "ridx rb \<equiv> uint (read_index rb)"
abbreviation widx :: "rt_ringbuffer \<Rightarrow> int" where "widx rb \<equiv> uint (write_index rb)"

datatype rt_ringbuffer_state = RT_RINGBUFFER_EMPTY | RT_RINGBUFFER_FULL | RT_RINGBUFFER_HALFFULL

definition rt_ringbuffer_status :: "rt_ringbuffer \<Rightarrow> rt_ringbuffer_state" where
  "rt_ringbuffer_status rb =
     (if read_index rb = write_index rb
      then if read_mirror rb = write_mirror rb then RT_RINGBUFFER_EMPTY else RT_RINGBUFFER_FULL
      else RT_RINGBUFFER_HALFFULL)"

definition rt_ringbuffer_init :: "u8 list \<Rightarrow> int \<Rightarrow> rt_ringbuffer option" where
  "rt_ringbuffer_init pool n =
     do {
       RT_ASSERT (n > 0);
       Some \<lparr>buffer_ptr = pool, read_mirror = False, read_index = 0, write_mirror = False, write_index = 0,
             buffer_size = n AND NOT 3\<rparr>
     }"

definition rt_ringbuffer_get_size :: "rt_ringbuffer \<Rightarrow> u16" where
  "rt_ringbuffer_get_size rb = of_int (buffer_size rb)"

definition rt_ringbuffer_data_len :: "rt_ringbuffer \<Rightarrow> u32" where
  "rt_ringbuffer_data_len rb =
     (case rt_ringbuffer_status rb of
        RT_RINGBUFFER_EMPTY \<Rightarrow> 0
      | RT_RINGBUFFER_FULL \<Rightarrow> of_int (buffer_size rb)
      | RT_RINGBUFFER_HALFFULL \<Rightarrow>
          if widx rb > ridx rb then of_int (widx rb - ridx rb)
          else of_int (buffer_size rb - (ridx rb - widx rb)))"

definition rt_ringbuffer_space_len :: "rt_ringbuffer \<Rightarrow> u32" where
  "rt_ringbuffer_space_len rb = of_int (buffer_size rb) - rt_ringbuffer_data_len rb"

text \<open>The two ways of writing: up to the end of the buffer, and around it.\<close>

definition rb_write_straight :: "rt_ringbuffer \<Rightarrow> u8 list \<Rightarrow> int \<Rightarrow> rt_ringbuffer option" where
  "rb_write_straight rb ptr len =
     do {
       buf \<leftarrow> mem_copy (buffer_ptr rb) (widx rb) ptr 0 len;
       Some (rb\<lparr>buffer_ptr := buf, write_index := write_index rb + of_int len\<rparr>)
     }"

definition rb_write_around :: "rt_ringbuffer \<Rightarrow> u8 list \<Rightarrow> int \<Rightarrow> rt_ringbuffer option" where
  "rb_write_around rb ptr len =
     do {
       let tail = buffer_size rb - widx rb;
       buf1 \<leftarrow> mem_copy (buffer_ptr rb) (widx rb) ptr 0 tail;
       buf2 \<leftarrow> mem_copy buf1 0 ptr tail (len - tail);
       Some (rb\<lparr>buffer_ptr := buf2, write_mirror := \<not> write_mirror rb, write_index := of_int (len - tail)\<rparr>)
     }"

definition rt_ringbuffer_put :: "rt_ringbuffer \<Rightarrow> u8 list \<Rightarrow> u16 \<Rightarrow> (u32 \<times> rt_ringbuffer) option" where
  "rt_ringbuffer_put rb ptr len =
     (let n = (ucast (rt_ringbuffer_space_len rb) :: u16)
      in if n = 0 then Some (0, rb)
      else
        let len1 = (if n < len then n else len)
        in if buffer_size rb - widx rb > uint len1
        then do { rb1 \<leftarrow> rb_write_straight rb ptr (uint len1); Some (ucast len1, rb1) }
        else do { rb1 \<leftarrow> rb_write_around rb ptr (uint len1); Some (ucast len1, rb1) })"

definition rt_ringbuffer_put_force :: "rt_ringbuffer \<Rightarrow> u8 list \<Rightarrow> u16 \<Rightarrow> (u32 \<times> rt_ringbuffer) option" where
  "rt_ringbuffer_put_force rb ptr len =
     do {
       let space_length = (ucast (rt_ringbuffer_space_len rb) :: u16);
       (src, len1) \<leftarrow>
         (if uint len > buffer_size rb
          then map_option (\<lambda>p. (p, of_int (buffer_size rb)))
                 (mem_read ptr (uint len - buffer_size rb) (buffer_size rb))
          else Some (ptr, len));
       (if buffer_size rb - widx rb > uint len1
        then do {
          rb1 \<leftarrow> rb_write_straight rb src (uint len1);
          Some (ucast len1, if len1 > space_length then rb1\<lparr>read_index := write_index rb1\<rparr> else rb1)
        }
        else do {
          rb1 \<leftarrow> rb_write_around rb src (uint len1);
          Some (ucast len1,
            if len1 > space_length
            then rb1\<lparr>read_mirror := \<not> read_mirror rb1, read_index := write_index rb1\<rparr> else rb1)
        })
     }"

text \<open>The bytes stored at \<^verbatim>\<open>ptr\<close> are returned.\<close>

definition rt_ringbuffer_get :: "rt_ringbuffer \<Rightarrow> u16 \<Rightarrow> (u32 \<times> u8 list \<times> rt_ringbuffer) option" where
  "rt_ringbuffer_get rb len =
     (let n = rt_ringbuffer_data_len rb
      in if n = 0 then Some (0, [], rb)
      else
        let len1 = (if n < ucast len then ucast n else len)
        in if buffer_size rb - ridx rb > uint len1
        then do {
          bs \<leftarrow> mem_read (buffer_ptr rb) (ridx rb) (uint len1);
          Some (ucast len1, bs, rb\<lparr>read_index := read_index rb + of_int (uint len1)\<rparr>)
        }
        else do {
          let tail = buffer_size rb - ridx rb;
          bs1 \<leftarrow> mem_read (buffer_ptr rb) (ridx rb) tail;
          bs2 \<leftarrow> mem_read (buffer_ptr rb) 0 (uint len1 - tail);
          Some (ucast len1, bs1 @ bs2,
            rb\<lparr>read_mirror := \<not> read_mirror rb, read_index := of_int (uint len1 - tail)\<rparr>)
        })"

definition rt_ringbuffer_putchar :: "rt_ringbuffer \<Rightarrow> u8 \<Rightarrow> (u32 \<times> rt_ringbuffer) option" where
  "rt_ringbuffer_putchar rb ch =
     (if rt_ringbuffer_space_len rb = 0 then Some (0, rb)
      else do {
        buf \<leftarrow> mem_write (buffer_ptr rb) (widx rb) [ch];
        let rb1 = rb\<lparr>buffer_ptr := buf\<rparr>;
        Some (1, if widx rb1 = buffer_size rb1 - 1
                 then rb1\<lparr>write_mirror := \<not> write_mirror rb1, write_index := 0\<rparr>
                 else rb1\<lparr>write_index := write_index rb1 + 1\<rparr>)
      })"

definition rt_ringbuffer_putchar_force :: "rt_ringbuffer \<Rightarrow> u8 \<Rightarrow> (u32 \<times> rt_ringbuffer) option" where
  "rt_ringbuffer_putchar_force rb ch =
     do {
       let old_state = rt_ringbuffer_status rb;
       buf \<leftarrow> mem_write (buffer_ptr rb) (widx rb) [ch];
       let rb1 = rb\<lparr>buffer_ptr := buf\<rparr>;
       Some (1,
         if widx rb1 = buffer_size rb1 - 1
         then let rb2 = rb1\<lparr>write_mirror := \<not> write_mirror rb1, write_index := 0\<rparr>
              in if old_state = RT_RINGBUFFER_FULL
                 then rb2\<lparr>read_mirror := \<not> read_mirror rb2, read_index := write_index rb2\<rparr> else rb2
         else let rb2 = rb1\<lparr>write_index := write_index rb1 + 1\<rparr>
              in if old_state = RT_RINGBUFFER_FULL then rb2\<lparr>read_index := write_index rb2\<rparr> else rb2)
     }"

definition rt_ringbuffer_getchar :: "rt_ringbuffer \<Rightarrow> (u32 \<times> u8 option \<times> rt_ringbuffer) option" where
  "rt_ringbuffer_getchar rb =
     (if rt_ringbuffer_data_len rb = 0 then Some (0, None, rb)
      else do {
        bs \<leftarrow> mem_read (buffer_ptr rb) (ridx rb) 1;
        Some (1, Some (hd bs),
          if ridx rb = buffer_size rb - 1
          then rb\<lparr>read_mirror := \<not> read_mirror rb, read_index := 0\<rparr>
          else rb\<lparr>read_index := read_index rb + 1\<rparr>)
      })"

definition rt_ringbuffer_reset :: "rt_ringbuffer \<Rightarrow> rt_ringbuffer" where
  "rt_ringbuffer_reset rb = rb\<lparr>read_mirror := False, read_index := 0, write_mirror := False, write_index := 0\<rparr>"

text \<open>
  \<open>rb_mem\<close> and \<open>pool\<close> are what the two \<^verbatim>\<open>rt_malloc\<close> calls return; the size, aligned down as \<^verbatim>\<open>rt_uint16_t\<close>,
  becomes an \<^verbatim>\<open>rt_int16_t\<close> in the call of \<^verbatim>\<open>rt_ringbuffer_init\<close>.
\<close>

definition rt_ringbuffer_create :: "u16 \<Rightarrow> bool \<Rightarrow> u8 list option \<Rightarrow> rt_ringbuffer option option" where
  "rt_ringbuffer_create n rb_mem pool =
     do {
       RT_ASSERT (n > 0);
       let n1 = n AND NOT 3;
       (if \<not> rb_mem then Some None
        else (case pool of
            None \<Rightarrow> Some None
          | Some p \<Rightarrow> do { rb \<leftarrow> rt_ringbuffer_init p (sint n1); Some (Some rb) }))
     }"

subsection \<open>Contents\<close>

abbreviation rb_r :: "rt_ringbuffer \<Rightarrow> nat" where "rb_r rb \<equiv> unat (read_index rb)"
abbreviation rb_w :: "rt_ringbuffer \<Rightarrow> nat" where "rb_w rb \<equiv> unat (write_index rb)"
abbreviation rb_n :: "rt_ringbuffer \<Rightarrow> nat" where "rb_n rb \<equiv> nat (buffer_size rb)"

definition rb_count :: "rt_ringbuffer \<Rightarrow> nat" where
  "rb_count rb =
     (if read_mirror rb = write_mirror rb then rb_w rb - rb_r rb else rb_n rb - (rb_r rb - rb_w rb))"

text \<open>
  In the same mirror the reader is not ahead of the writer, in the other one not behind; a
  buffer of size 0 never leaves its initial state.
\<close>

definition rb_ok :: "rt_ringbuffer \<Rightarrow> bool" where
  "rb_ok rb \<longleftrightarrow>
     0 \<le> buffer_size rb \<and> rb_n rb < 2 ^ 15 \<and> rb_n rb \<le> length (buffer_ptr rb) \<and>
     (if rb_n rb = 0 then rb_r rb = 0 \<and> rb_w rb = 0 \<and> read_mirror rb = write_mirror rb
      else rb_r rb < rb_n rb \<and> rb_w rb < rb_n rb \<and>
           (if read_mirror rb = write_mirror rb then rb_r rb \<le> rb_w rb else rb_w rb \<le> rb_r rb))"

definition rb_data :: "rt_ringbuffer \<Rightarrow> u8 list" where
  "rb_data rb = ring_slice (buffer_ptr rb) (rb_n rb) (rb_r rb) (rb_count rb)"

lemma rb_size:
  assumes "rb_ok rb"
  shows "buffer_size rb = int (rb_n rb)" "rb_n rb < 2 ^ 15" "rb_n rb \<le> length (buffer_ptr rb)" "rb_count rb \<le> rb_n rb"
  using assms by (auto simp: rb_ok_def rb_count_def split: if_splits)

lemma length_rb_data [simp]: "length (rb_data rb) = rb_count rb"
  by (simp add: rb_data_def)

lemma of_nat_u32: "x < 2 ^ 32 \<Longrightarrow> unat (of_nat x :: u32) = x"
  by (simp add: unat_of_nat)

lemma data_len_eq:
  assumes "rb_ok rb"
  shows "rt_ringbuffer_data_len rb = of_nat (rb_count rb)" "unat (rt_ringbuffer_data_len rb) = rb_count rb"
    "unat (rt_ringbuffer_space_len rb) = rb_n rb - rb_count rb"
    "unat (ucast (rt_ringbuffer_space_len rb) :: u16) = rb_n rb - rb_count rb"
proof -
  note s = rb_size [OF assms]
  have eq: "rb_r rb = rb_w rb \<longleftrightarrow> read_index rb = write_index rb" by (simp add: word_unat_eq_iff)
  have i: "widx rb = int (rb_w rb)" "ridx rb = int (rb_r rb)" by simp_all
  have ofi: "int a - int b = int (a - b)" if "b \<le> a" for a b :: nat using that by simp
  show d: "rt_ringbuffer_data_len rb = of_nat (rb_count rb)"
  proof (cases "read_mirror rb = write_mirror rb")
    case True
    then have "rb_r rb \<le> rb_w rb" using assms by (simp add: rb_ok_def split: if_splits)
    then have "read_index rb \<noteq> write_index rb \<Longrightarrow> ridx rb < widx rb" using eq i by linarith
    then show ?thesis using True \<open>rb_r rb \<le> rb_w rb\<close>
      by (simp add: rt_ringbuffer_data_len_def rt_ringbuffer_status_def rb_count_def)
  next
    case False
    then have l: "rb_w rb \<le> rb_r rb" "rb_r rb < rb_n rb" using assms by (auto simp: rb_ok_def split: if_splits)
    then have nl: "\<not> ridx rb < widx rb" using i by linarith
    show ?thesis
    proof (cases "read_index rb = write_index rb")
      case True
      have "buffer_size rb = int (rb_n rb)" by (rule s(1))
      then have "(of_int (buffer_size rb) :: u32) = of_nat (rb_n rb)" by (metis of_int_of_nat_eq)
      then show ?thesis using False True by (simp add: rt_ringbuffer_data_len_def rt_ringbuffer_status_def rb_count_def)
    next
      case ne: False
      have "buffer_size rb - (ridx rb - widx rb) = int (rb_n rb - (rb_r rb - rb_w rb))"
        using i s(1) l by linarith
      then show ?thesis using False ne nl
        by (simp add: rt_ringbuffer_data_len_def rt_ringbuffer_status_def rb_count_def)
    qed
  qed
  show u: "unat (rt_ringbuffer_data_len rb) = rb_count rb" unfolding d using s by (simp add: unat_of_nat)
  have "(of_int (buffer_size rb) :: u32) = of_nat (rb_n rb)" using s(1) by (metis of_int_of_nat_eq)
  then have sp: "rt_ringbuffer_space_len rb = of_nat (rb_n rb - rb_count rb)"
    using s(4) by (simp add: rt_ringbuffer_space_len_def d of_nat_diff)
  show "unat (rt_ringbuffer_space_len rb) = rb_n rb - rb_count rb"
  proof -
    have "rb_n rb - rb_count rb < 2 ^ 15" using s(2) by linarith
    then have "rb_n rb - rb_count rb < 2 ^ 32" by simp
    then show ?thesis unfolding sp by (rule of_nat_u32)
  qed
  then show "unat (ucast (rt_ringbuffer_space_len rb) :: u16) = rb_n rb - rb_count rb"
    using s by (simp add: unsigned_ucast_eq take_bit_nat_eq_self)
qed

subsection \<open>Writing and reading blocks\<close>

lemma mem_write_nth:
  assumes "mem_write a (int off) bs = Some a'"
  shows "length a' = length a"
    "p < length a \<Longrightarrow> a' ! p = (if off \<le> p \<and> p < off + length bs then bs ! (p - off) else a ! p)"
proof -
  have o: "off + length bs \<le> length a" and a': "a' = take off a @ bs @ drop (off + length bs) a"
    using assms by (auto simp: mem_write_def split: if_splits)
  show "length a' = length a" using o by (simp add: a')
  show "a' ! p = (if off \<le> p \<and> p < off + length bs then bs ! (p - off) else a ! p)" if "p < length a"
    using o that unfolding a' by (auto simp: nth_append)
qed

lemma mem_write_Some: "off + length bs \<le> length a \<Longrightarrow> \<exists>a'. mem_write a (int off) bs = Some a'"
  by (simp add: mem_write_def)

lemma mem_read_Some: "off + n \<le> length a \<Longrightarrow> mem_read a (int off) (int n) = Some (take n (drop off a))"
  by (simp add: mem_read_def)

text \<open>An array that holds \<open>src\<close> from position \<open>i + c\<close> on, and elsewhere what it held.\<close>

lemma ring_slice_put_block:
  assumes new: "\<And>j. j < length src \<Longrightarrow> a' ! ((i + c + j) mod n) = src ! j"
    and old: "\<And>p. p < n \<Longrightarrow> (\<And>j. j < length src \<Longrightarrow> p \<noteq> (i + c + j) mod n) \<Longrightarrow> a' ! p = a ! p"
    and n: "c + length src \<le> n" "0 < n"
  shows "ring_slice a' n i (c + length src) = ring_slice a n i c @ src"
proof (rule nth_equalityI)
  fix j assume "j < length (ring_slice a' n i (c + length src))"
  then have j: "j < c + length src" by simp
  show "ring_slice a' n i (c + length src) ! j = (ring_slice a n i c @ src) ! j"
  proof (cases "j < c")
    case True
    have "(i + j) mod n \<noteq> (i + c + l) mod n" if "l < length src" for l
      using ring_index_inj [of i j n "c + l"] that True n by (auto simp: add.assoc)
    then have "a' ! ((i + j) mod n) = a ! ((i + j) mod n)" using n by (intro old) auto
    with True j show ?thesis by (simp add: nth_append)
  next
    case False
    with j new [of "j - c"] show ?thesis by (simp add: nth_append)
  qed
qed simp

lemma of_nat_u15: "x < 2 ^ 15 \<Longrightarrow> unat (of_nat x :: 15 word) = x"
  by (simp add: unat_of_nat)

lemma index_add_u15: "unat (a :: 15 word) + x < 2 ^ 15 \<Longrightarrow> unat (a + of_nat x) = unat a + x"
  by (simp add: unat_word_ariths unat_of_nat)

text \<open>Where the writer stands.\<close>

lemma rb_write_pos:
  assumes "rb_ok rb" "rb_n rb \<noteq> 0"
  shows "rb_w rb = (rb_r rb + rb_count rb) mod rb_n rb" "rb_w rb < rb_n rb" "rb_r rb < rb_n rb"
proof -
  show l: "rb_w rb < rb_n rb" "rb_r rb < rb_n rb" using assms by (simp_all add: rb_ok_def)
  show "rb_w rb = (rb_r rb + rb_count rb) mod rb_n rb"
  proof (cases "read_mirror rb = write_mirror rb")
    case True
    then have "rb_r rb + rb_count rb = rb_w rb" using assms by (simp add: rb_ok_def rb_count_def)
    then show ?thesis using l by simp
  next
    case False
    then have "rb_r rb + rb_count rb = rb_n rb + rb_w rb" using assms by (simp add: rb_ok_def rb_count_def)
    then show ?thesis using l by simp
  qed
qed

text \<open>
  Writing \<open>src\<close> at the writer, in one piece or in two, into a state whose count grows by its
  length: the contents gain \<open>src\<close>.
\<close>

lemma rb_data_written:
  assumes ok: "rb_ok rb" and z: "rb_n rb \<noteq> 0" and l: "length buf = length (buffer_ptr rb)"
    and new: "\<And>j. j < length src \<Longrightarrow> buf ! ((rb_w rb + j) mod rb_n rb) = src ! j"
    and old: "\<And>p. p < rb_n rb \<Longrightarrow> (\<And>j. j < length src \<Longrightarrow> p \<noteq> (rb_w rb + j) mod rb_n rb) \<Longrightarrow> buf ! p = buffer_ptr rb ! p"
    and room: "rb_count rb + length src \<le> rb_n rb"
    and rb': "buffer_ptr rb' = buf" "buffer_size rb' = buffer_size rb" "read_index rb' = read_index rb"
      "rb_count rb' = rb_count rb + length src"
  shows "rb_data rb' = rb_data rb @ src"
proof -
  have pos: "(rb_w rb + j) mod rb_n rb = (rb_r rb + rb_count rb + j) mod rb_n rb" for j
    unfolding rb_write_pos(1) [OF ok z] by (simp add: mod_simps)
  have "ring_slice buf (rb_n rb) (rb_r rb) (rb_count rb + length src) =
      ring_slice (buffer_ptr rb) (rb_n rb) (rb_r rb) (rb_count rb) @ src"
    by (rule ring_slice_put_block) (use new old room z in \<open>simp_all add: pos\<close>)
  then show ?thesis by (simp add: rb_data_def rb')
qed

text \<open>Both kinds of write, into free space.\<close>

lemma rb_write_straight_spec:
  assumes ok: "rb_ok rb" and n: "len < rb_n rb - rb_w rb" "len \<le> length ptr" and room: "rb_count rb + len \<le> rb_n rb"
  obtains rb1 where "rb_write_straight rb ptr (int len) = Some rb1" "rb_ok rb1" "buffer_size rb1 = buffer_size rb"
    "rb_data rb1 = rb_data rb @ take len ptr"
proof -
  note s = rb_size [OF ok]
  have z: "rb_n rb \<noteq> 0" using n by linarith
  let ?src = "take len ptr"
  have ls: "length ?src = len" using n by simp
  have "rb_w rb + length ?src \<le> length (buffer_ptr rb)" using n s ls by linarith
  from mem_write_Some [OF this] obtain buf where b: "mem_write (buffer_ptr rb) (int (rb_w rb)) ?src = Some buf" by blast
  note nth = mem_write_nth [OF b]
  let ?rb = "rb\<lparr>buffer_ptr := buf, write_index := write_index rb + of_int (int len)\<rparr>"
  have w: "unat (write_index rb + of_int (int len)) = rb_w rb + len"
    using index_add_u15 [of "write_index rb" len] n s by simp
  have rd: "mem_read ptr 0 (int len) = Some ?src" using mem_read_Some [of 0 len ptr] n by simp
  have res: "rb_write_straight rb ptr (int len) = Some ?rb"
    using b by (simp add: rb_write_straight_def mem_copy_def rd)
  have cnt: "rb_count ?rb = rb_count rb + len"
    using ok room z w by (auto simp: rb_count_def rb_ok_def split: if_splits)
  have ok': "rb_ok ?rb"
    using ok room n nth(1) z w by (auto simp: rb_ok_def rb_count_def split: if_splits)
  have m: "(rb_w rb + j) mod rb_n rb = rb_w rb + j" if "j < len" for j using that n by simp
  have "rb_data ?rb = rb_data rb @ ?src"
  proof (rule rb_data_written [OF ok z nth(1)])
    show "buf ! ((rb_w rb + j) mod rb_n rb) = ?src ! j" if "j < length ?src" for j
      using that nth(2) [of "rb_w rb + j"] m [of j] ls n s by simp
    show "buf ! p = buffer_ptr rb ! p" if "p < rb_n rb" "\<And>j. j < length ?src \<Longrightarrow> p \<noteq> (rb_w rb + j) mod rb_n rb" for p
    proof -
      have "\<not> (rb_w rb \<le> p \<and> p < rb_w rb + len)"
      proof
        assume a: "rb_w rb \<le> p \<and> p < rb_w rb + len"
        then have j: "p - rb_w rb < length ?src" using ls by linarith
        from that(2) [OF j] mod_less [OF that(1)] a show False by simp
      qed
      then show ?thesis using nth(2) [of p] that(1) s ls by auto
    qed
  qed (use room ls cnt in simp_all)
  with res ok' show ?thesis using that [of ?rb] by simp
qed

text \<open>
  Writing around the end, whether or not it overruns unread bytes: the cells from the writer
  on hold \<open>src\<close>, the others are as they were.
\<close>

lemma rb_write_around_cells:
  assumes s: "buffer_size rb = int (rb_n rb)" "rb_n rb < 2 ^ 15" "rb_n rb \<le> length (buffer_ptr rb)"
    and w: "rb_w rb < rb_n rb" and n: "rb_n rb - rb_w rb \<le> len" "len \<le> rb_n rb" "len \<le> length ptr"
  obtains buf where "rb_write_around rb ptr (int len) = Some (rb\<lparr>buffer_ptr := buf, write_mirror := \<not> write_mirror rb,
      write_index := of_nat (rb_w rb + len - rb_n rb)\<rparr>)"
    "length buf = length (buffer_ptr rb)"
    "\<And>j. j < len \<Longrightarrow> buf ! ((rb_w rb + j) mod rb_n rb) = ptr ! j"
    "\<And>p. p < rb_n rb \<Longrightarrow> (\<And>j. j < len \<Longrightarrow> p \<noteq> (rb_w rb + j) mod rb_n rb) \<Longrightarrow> buf ! p = buffer_ptr rb ! p"
proof -
  define t where "t = rb_n rb - rb_w rb"
  have t: "t \<le> len" "rb_w rb + t = rb_n rb" "0 < t" using n w by (simp_all add: t_def)
  have ti: "buffer_size rb - widx rb = int t" "widx rb = int (rb_w rb)"
    using s(1) t(2) uint_nat [of "write_index rb"] by linarith+
  have lt: "int len - int t = int (len - t)" using t(1) by simp
  let ?s1 = "take t ptr" and ?s2 = "take (len - t) (drop t ptr)"
  have l: "length ?s1 = t" "length ?s2 = len - t" using n t by simp_all
  have rd: "mem_read ptr 0 (int t) = Some ?s1" "mem_read ptr (int t) (int (len - t)) = Some ?s2"
    using mem_read_Some [of 0 t ptr] mem_read_Some [of t "len - t" ptr] n t by simp_all
  have "rb_w rb + length ?s1 \<le> length (buffer_ptr rb)" using s t l by linarith
  from mem_write_Some [OF this] obtain b1 where b1: "mem_write (buffer_ptr rb) (int (rb_w rb)) ?s1 = Some b1" by blast
  note n1 = mem_write_nth [OF b1]
  have "0 + length ?s2 \<le> length b1" using s n l n1(1) by linarith
  from mem_write_Some [OF this] obtain b2 where b2: "mem_write b1 (int 0) ?s2 = Some b2" by blast
  note n2 = mem_write_nth [OF b2]
  have b2': "mem_write b1 0 ?s2 = Some b2" using b2 by simp
  have "len - t = rb_w rb + len - rb_n rb" using t n by linarith
  then have wi: "(of_int (int (len - t)) :: 15 word) = of_nat (rb_w rb + len - rb_n rb)"
    by (simp only: of_int_of_nat_eq)
  have res: "rb_write_around rb ptr (int len) = Some (rb\<lparr>buffer_ptr := b2, write_mirror := \<not> write_mirror rb,
      write_index := of_nat (rb_w rb + len - rb_n rb)\<rparr>)"
  proof -
    have "mem_copy (buffer_ptr rb) (widx rb) ptr 0 (int t) = Some b1" "mem_copy b1 0 ptr (int t) (int (len - t)) = Some b2"
      using b1 b2' by (simp_all only: mem_copy_def rd ti(2) bind.bind_lunit)
    then show ?thesis by (simp only: rb_write_around_def Let_def ti(1) lt wi bind.bind_lunit)
  qed
  have m: "(rb_w rb + j) mod rb_n rb = (if j < t then rb_w rb + j else j - t)" if "j < len" for j
  proof (cases "j < t")
    case True
    then show ?thesis using t by simp
  next
    case False
    then have "rb_w rb + j = rb_n rb + (j - t)" using t by simp
    then have "(rb_w rb + j) mod rb_n rb = (j - t) mod rb_n rb" by simp
    then show ?thesis using False that n w by simp
  qed
  show ?thesis
  proof (rule that [OF res])
    show "length b2 = length (buffer_ptr rb)" using n1(1) n2(1) by simp
    show "b2 ! ((rb_w rb + j) mod rb_n rb) = ptr ! j" if j: "j < len" for j
    proof (cases "j < t")
      case True
      then have p: "rb_w rb + j < length (buffer_ptr rb)" "rb_w rb + j < length b1" using s t n1(1) by linarith+
      have "\<not> rb_w rb + j < len - t" using n(2) t(2) by linarith
      then have "b2 ! (rb_w rb + j) = b1 ! (rb_w rb + j)" using n2(2) [OF p(2)] l by simp
      moreover have "b1 ! (rb_w rb + j) = ptr ! j" using n1(2) [OF p(1)] True n(3) t(1) unfolding l(1) by simp
      ultimately show ?thesis using m [OF j] True by simp
    next
      case False
      then have p: "j - t < length b1" using s n j n1(1) by linarith
      have c: "j - t < len - t" "t + (j - t) = j" using False j by linarith+
      have "b2 ! (j - t) = ptr ! j" using n2(2) [OF p] c n(3) t(1) unfolding l(2) by simp
      then show ?thesis using m [OF j] False by simp
    qed
    show "b2 ! p = buffer_ptr rb ! p" if p: "p < rb_n rb" and o: "\<And>j. j < len \<Longrightarrow> p \<noteq> (rb_w rb + j) mod rb_n rb" for p
    proof -
      have "\<not> rb_w rb \<le> p"
      proof
        assume a: "rb_w rb \<le> p"
        then have j: "p - rb_w rb < len" "p - rb_w rb < t" using p t by linarith+
        from o [OF j(1)] m [OF j(1)] j(2) a show False by simp
      qed
      moreover have "\<not> p < len - t"
      proof
        assume "p < len - t"
        then have j: "p + t < len" by linarith
        from o [OF j] m [OF j] show False by simp
      qed
      ultimately show ?thesis using n2(2) [of p] n1(2) [of p] p s n1(1) l by simp
    qed
  qed
qed

lemma rb_write_around_spec:
  assumes ok: "rb_ok rb" and n: "rb_n rb - rb_w rb \<le> len" "len \<le> length ptr" "0 < len"
    and room: "rb_count rb + len \<le> rb_n rb"
  obtains rb1 where "rb_write_around rb ptr (int len) = Some rb1" "rb_ok rb1" "buffer_size rb1 = buffer_size rb"
    "rb_data rb1 = rb_data rb @ take len ptr"
proof -
  note s = rb_size [OF ok]
  have z: "rb_n rb \<noteq> 0" using n room by linarith
  note pos = rb_write_pos [OF ok z]
  have ln: "len \<le> rb_n rb" using room by linarith
  obtain buf where b: "rb_write_around rb ptr (int len) = Some (rb\<lparr>buffer_ptr := buf, write_mirror := \<not> write_mirror rb,
      write_index := of_nat (rb_w rb + len - rb_n rb)\<rparr>)" "length buf = length (buffer_ptr rb)"
    and new: "\<And>j. j < len \<Longrightarrow> buf ! ((rb_w rb + j) mod rb_n rb) = ptr ! j"
    and old: "\<And>p. p < rb_n rb \<Longrightarrow> (\<And>j. j < len \<Longrightarrow> p \<noteq> (rb_w rb + j) mod rb_n rb) \<Longrightarrow> buf ! p = buffer_ptr rb ! p"
    by (rule rb_write_around_cells [OF s(1-3) pos(2) n(1) ln n(2)]) blast
  define wi :: "15 word" where "wi = of_nat (rb_w rb + len - rb_n rb)"
  note b = b [folded wi_def]
  let ?rb = "rb\<lparr>buffer_ptr := buf, write_mirror := \<not> write_mirror rb, write_index := wi\<rparr>"
  have same: "read_mirror rb = write_mirror rb" "rb_r rb \<le> rb_w rb"
    using ok n room z by (auto simp: rb_ok_def rb_count_def split: if_splits)
  have w: "unat wi = rb_w rb + len - rb_n rb"
    unfolding wi_def using s(2) pos(2) ln by (intro of_nat_u15) linarith
  have le: "rb_w rb + len - rb_n rb \<le> rb_r rb" using room same by (simp add: rb_count_def)
  have cnt: "rb_count ?rb = rb_count rb + len"
  proof -
    have "rb_n rb - (rb_r rb - unat wi) = (rb_w rb - rb_r rb) + len" using same(2) w le n pos(2,3) by linarith
    then show ?thesis using same(1) by (simp add: rb_count_def)
  qed
  have ok': "rb_ok ?rb" using ok b(2) same w le z pos(2,3) unfolding rb_ok_def by simp
  have "rb_data ?rb = rb_data rb @ take len ptr"
    by (rule rb_data_written [OF ok z b(2)]) (use new old room n cnt in simp_all)
  with b(1) ok' show ?thesis using that [of ?rb] by simp
qed

lemma rb_write_spec:
  assumes ok: "rb_ok rb" and z: "rb_n rb \<noteq> 0" and l: "n \<le> length ptr" "rb_count rb + n \<le> rb_n rb"
  obtains rb1 where
    "(if buffer_size rb - widx rb > int n then rb_write_straight rb ptr (int n) else rb_write_around rb ptr (int n)) = Some rb1"
    "rb_ok rb1" "buffer_size rb1 = buffer_size rb" "rb_data rb1 = rb_data rb @ take n ptr"
proof -
  have w: "buffer_size rb - widx rb > int n \<longleftrightarrow> n < rb_n rb - rb_w rb"
    using rb_size(1) [OF ok] uint_nat [of "write_index rb"] by linarith
  show ?thesis
  proof (cases "n < rb_n rb - rb_w rb")
    case True
    from rb_write_straight_spec [OF ok True l] obtain rb1 where
      "rb_write_straight rb ptr (int n) = Some rb1" "rb_ok rb1" "buffer_size rb1 = buffer_size rb"
      "rb_data rb1 = rb_data rb @ take n ptr" .
    then show ?thesis using that [of rb1] True w by simp
  next
    case around: False
    then have a: "rb_n rb - rb_w rb \<le> n" by linarith
    moreover have "0 < n" using around rb_write_pos(2) [OF ok z] by linarith
    ultimately obtain rb1 where
      "rb_write_around rb ptr (int n) = Some rb1" "rb_ok rb1" "buffer_size rb1 = buffer_size rb"
      "rb_data rb1 = rb_data rb @ take n ptr" using rb_write_around_spec [OF ok a l(1) _ l(2)] by blast
    then show ?thesis using that [of rb1] around w by simp
  qed
qed

lemma rt_ringbuffer_put_spec:
  assumes ok: "rb_ok rb" and l: "unat len \<le> length ptr"
  defines "n \<equiv> min (unat len) (rb_n rb - rb_count rb)"
  obtains rb' where "rt_ringbuffer_put rb ptr len = Some (of_nat n, rb')" "rb_ok rb'" "buffer_size rb' = buffer_size rb"
    "rb_data rb' = rb_data rb @ take n ptr"
proof -
  let ?sp = "ucast (rt_ringbuffer_space_len rb) :: u16"
  have sp: "unat ?sp = rb_n rb - rb_count rb" by (rule data_len_eq(4) [OF ok])
  note s = rb_size [OF ok]
  show ?thesis
  proof (cases "?sp = 0")
    case True
    then have "n = 0" using sp by (simp add: n_def)
    with True ok show ?thesis using that [of rb] by (simp add: rt_ringbuffer_put_def Let_def)
  next
    case False
    define len1 where "len1 = (if ?sp < len then ?sp else len)"
    have u: "unat len1 = n" using sp by (auto simp: len1_def n_def word_less_nat_alt)
    have ui: "uint len1 = int n" using u uint_nat [of len1] by simp
    have uc: "(ucast len1 :: u32) = of_nat n" using u by (metis of_nat_unat)
    have d: "rt_ringbuffer_put rb ptr len =
        (if buffer_size rb - widx rb > int n
         then do { rb1 \<leftarrow> rb_write_straight rb ptr (int n); Some (of_nat n, rb1) }
         else do { rb1 \<leftarrow> rb_write_around rb ptr (int n); Some (of_nat n, rb1) })"
      using False by (simp add: rt_ringbuffer_put_def Let_def flip: len1_def ui uc)
    have nl: "n \<le> length ptr" "rb_count rb + n \<le> rb_n rb" using l s(4) by (simp_all add: n_def)
    have "rb_n rb - rb_count rb \<noteq> 0" using False sp by (metis unat_eq_0)
    then have "rb_n rb \<noteq> 0" by linarith
    from rb_write_spec [OF ok this nl] obtain rb1 where
      "(if buffer_size rb - widx rb > int n then rb_write_straight rb ptr (int n) else rb_write_around rb ptr (int n)) = Some rb1"
      "rb_ok rb1" "buffer_size rb1 = buffer_size rb" "rb_data rb1 = rb_data rb @ take n ptr" .
    then show ?thesis using that [of rb1] d by (simp split: if_splits)
  qed
qed

text \<open>Advancing the reader by \<open>n\<close> drops \<open>n\<close> bytes.\<close>

lemma rb_data_read:
  assumes ok: "rb_ok rb" and n: "n \<le> rb_count rb"
    and rb': "buffer_ptr rb' = buffer_ptr rb" "buffer_size rb' = buffer_size rb" "rb_r rb' = (rb_r rb + n) mod rb_n rb"
      "rb_count rb' = rb_count rb - n"
  shows "rb_data rb' = drop n (rb_data rb)"
    and "take n (rb_data rb) = ring_slice (buffer_ptr rb) (rb_n rb) (rb_r rb) n"
proof -
  have "rb_data rb = ring_slice (buffer_ptr rb) (rb_n rb) (rb_r rb) n @
      ring_slice (buffer_ptr rb) (rb_n rb) (rb_r rb + n) (rb_count rb - n)"
    using n ring_slice_append [of "buffer_ptr rb" "rb_n rb" "rb_r rb" n "rb_count rb - n"] by (simp add: rb_data_def)
  then show "take n (rb_data rb) = ring_slice (buffer_ptr rb) (rb_n rb) (rb_r rb) n"
    and "rb_data rb' = drop n (rb_data rb)"
    by (simp_all add: rb_data_def rb' ring_slice_mod)
qed

lemma rt_ringbuffer_get_spec:
  assumes ok: "rb_ok rb"
  defines "n \<equiv> \<lambda>len :: u16. min (unat len) (rb_count rb)"
  obtains rb' where "rt_ringbuffer_get rb len = Some (of_nat (n len), take (n len) (rb_data rb), rb')" "rb_ok rb'"
    "buffer_size rb' = buffer_size rb" "rb_data rb' = drop (n len) (rb_data rb)"
proof -
  let ?n = "n len"
  note dl = data_len_eq(1,2) [OF ok]
  note s = rb_size [OF ok]
  show ?thesis
  proof (cases "rt_ringbuffer_data_len rb = 0")
    case True
    then have "rb_count rb = 0" using dl(2) by simp
    with True ok show ?thesis using that [of rb] by (simp add: rt_ringbuffer_get_def n_def)
  next
    case False
    then have c: "rb_count rb \<noteq> 0" using dl(2) by (metis unat_eq_0)
    then have z: "rb_n rb \<noteq> 0" using s(4) by linarith
    note pos = rb_write_pos [OF ok z]
    define len1 where "len1 = (if rt_ringbuffer_data_len rb < ucast len then ucast (rt_ringbuffer_data_len rb) else len)"
    have "unat len < 2 ^ 16" using unsigned_less [of len] by simp
    then have ul: "unat (ucast len :: u32) = unat len" by (simp add: unsigned_ucast_eq take_bit_nat_eq_self)
    have ud: "unat (ucast (rt_ringbuffer_data_len rb) :: u16) = rb_count rb"
      using s dl(2) by (simp add: unsigned_ucast_eq take_bit_nat_eq_self)
    have u: "unat len1 = ?n" using ul ud dl(2) by (auto simp: len1_def n_def word_less_nat_alt)
    have ui: "uint len1 = int ?n" using u uint_nat [of len1] by simp
    have uc: "(ucast len1 :: u32) = of_nat ?n" using u by (metis of_nat_unat)
    have w: "buffer_size rb - ridx rb > int ?n \<longleftrightarrow> ?n < rb_n rb - rb_r rb"
      using s(1) uint_nat [of "read_index rb"] by linarith
    have nc: "?n \<le> rb_count rb" by (simp add: n_def)
    define t where "t = rb_n rb - rb_r rb"
    have t: "rb_r rb + t = rb_n rb" "0 < t" "t \<le> rb_n rb" using pos(3) by (simp_all add: t_def)
    have ti: "buffer_size rb - ridx rb = int t" "ridx rb = int (rb_r rb)"
      using s(1) t(1) uint_nat [of "read_index rb"] by linarith+
    have d: "rt_ringbuffer_get rb len =
        (if buffer_size rb - ridx rb > int ?n
         then do { bs \<leftarrow> mem_read (buffer_ptr rb) (ridx rb) (int ?n);
                   Some (of_nat ?n, bs, rb\<lparr>read_index := read_index rb + of_int (int ?n)\<rparr>) }
         else do { let tail = buffer_size rb - ridx rb;
                   bs1 \<leftarrow> mem_read (buffer_ptr rb) (ridx rb) tail;
                   bs2 \<leftarrow> mem_read (buffer_ptr rb) 0 (int ?n - tail);
                   Some (of_nat ?n, bs1 @ bs2,
                     rb\<lparr>read_mirror := \<not> read_mirror rb, read_index := of_int (int ?n - tail)\<rparr>) })"
      using False by (simp only: rt_ringbuffer_get_def Let_def if_False flip: len1_def ui uc)
    show ?thesis
    proof (cases "?n < t")
      case True
      let ?rb = "rb\<lparr>read_index := read_index rb + of_int (int ?n)\<rparr>"
      have r: "unat (read_index rb + of_int (int ?n)) = rb_r rb + ?n"
        using index_add_u15 [of "read_index rb" ?n] True t(1) s(2) by simp
      have m: "rb_r ?rb = (rb_r rb + ?n) mod rb_n rb" using r True t(1) by simp
      have cnt: "rb_count ?rb = rb_count rb - ?n" using nc r ok z True t(1)
        by (auto simp: rb_count_def rb_ok_def split: if_splits)
      have ok': "rb_ok ?rb" using ok z r nc True t(1) by (auto simp: rb_ok_def rb_count_def split: if_splits)
      note rd = rb_data_read [OF ok nc, of ?rb, OF _ _ m cnt]
      have le: "rb_r rb + ?n \<le> length (buffer_ptr rb)" using s(3) True t(1) by linarith
      have "mem_read (buffer_ptr rb) (ridx rb) (int ?n) = Some (take ?n (rb_data rb))"
        unfolding ti(2) mem_read_Some [OF le] using ring_slice_straight [of "rb_r rb" ?n "rb_n rb" "buffer_ptr rb"] rd(2) True t(1) s(3)
        by simp
      then have "rt_ringbuffer_get rb len = Some (of_nat ?n, take ?n (rb_data rb), ?rb)"
        using d ti(1) True by simp
      then show ?thesis using that [of ?rb] ok' rd(1) by simp
    next
      case False
      define ri :: "15 word" where "ri = of_int (int ?n - int t)"
      let ?rb = "rb\<lparr>read_mirror := \<not> read_mirror rb, read_index := ri\<rparr>"
      have nt: "int ?n - int t = int (?n - t)" using False by simp
      have nn: "?n - t < rb_n rb" using nc s(4) t by linarith
      have "?n - t < 2 ^ 15" using nn s(2) by linarith
      then have r: "unat ri = ?n - t" unfolding ri_def nt of_int_of_nat_eq by (rule of_nat_u15)
      have "rb_r rb + ?n = rb_n rb + (?n - t)" using False t(1) by linarith
      then have m: "rb_r ?rb = (rb_r rb + ?n) mod rb_n rb" using r nn by simp
      have diff: "read_mirror rb \<noteq> write_mirror rb"
      proof
        assume "read_mirror rb = write_mirror rb"
        then have "rb_count rb = rb_w rb - rb_r rb" by (simp add: rb_count_def)
        then show False using False nc t(1,2) pos(2) by linarith
      qed
      have le: "rb_w rb \<le> rb_r rb" "rb_count rb = t + rb_w rb"
        using ok z diff t pos(3) by (simp_all add: rb_ok_def rb_count_def t_def)
      have cnt: "rb_count ?rb = rb_count rb - ?n" using diff r le(2) nc False by (simp add: rb_count_def)
      have ok': "rb_ok ?rb" using ok z diff r le nc False nn by (auto simp: rb_ok_def)
      note rd = rb_data_read [OF ok nc, of ?rb, OF _ _ m cnt]
      have l1: "rb_r rb + t \<le> length (buffer_ptr rb)" "0 + (?n - t) \<le> length (buffer_ptr rb)" using s(3) t(1) nn by linarith+
      have "take (rb_n rb - rb_r rb) (drop (rb_r rb) (buffer_ptr rb)) @ take (?n - (rb_n rb - rb_r rb)) (buffer_ptr rb) =
          ring_slice (buffer_ptr rb) (rb_n rb) (rb_r rb) ?n"
        using ring_slice_wrap [of "rb_r rb" "rb_n rb" ?n "buffer_ptr rb"] pos(3) False t(1) s(3,4) nc by simp
      then have app: "take t (drop (rb_r rb) (buffer_ptr rb)) @ take (?n - t) (buffer_ptr rb) = take ?n (rb_data rb)"
        using rd(2) by (simp add: t_def)
      have g1: "mem_read (buffer_ptr rb) (ridx rb) (int t) = Some (take t (drop (rb_r rb) (buffer_ptr rb)))"
        unfolding ti(2) by (rule mem_read_Some [OF l1(1)])
      have g2: "mem_read (buffer_ptr rb) 0 (int (?n - t)) = Some (take (?n - t) (buffer_ptr rb))"
        using mem_read_Some [OF l1(2)] by (simp only: semiring_1_class.of_nat_0 drop0)
      note g = g1 g2
      have "\<not> buffer_size rb - ridx rb > int ?n" using ti(1) False by linarith
      then have "rt_ringbuffer_get rb len = Some (of_nat ?n, take ?n (rb_data rb), ?rb)"
        by (simp only: d if_False Let_def ti(1) nt g bind.bind_lunit app ri_def)
      then show ?thesis using that [of ?rb] ok' rd(1) by simp
    qed
  qed
qed

end
