(* ===== verification/Ringbuffer_Queue.thy ===== *)
theory Ringbuffer_Queue
  imports Ringbuffer
begin

text \<open>
  The ring buffer as a bounded queue of bytes: initialisation, the one-byte operations, the
  forced writes, and the properties.
\<close>

subsection \<open>Initialisation\<close>

lemma align_down_4: "(n :: int) AND -4 = n - n mod 4"
proof -
  have "n - take_bit 2 n = n AND NOT (take_bit 2 n)" by (rule disjunctive_diff) (simp add: bit_take_bit_iff)
  also have "\<dots> = n AND NOT (mask 2)" by (rule bit_eqI) (auto simp: bit_and_iff bit_not_iff bit_take_bit_iff bit_mask_iff)
  finally show ?thesis by (simp add: mask_eq_exp_minus_1 take_bit_eq_mod)
qed

lemma rt_ringbuffer_init_spec:
  assumes "0 < n" "n < 2 ^ 15" "nat n \<le> length pool"
  obtains rb where "rt_ringbuffer_init pool n = Some rb" "rb_ok rb" "buffer_size rb = n - n mod 4" "rb_data rb = []"
proof -
  let ?rb = "\<lparr>buffer_ptr = pool, read_mirror = False, read_index = 0, write_mirror = False, write_index = 0,
    buffer_size = n - n mod 4\<rparr>"
  have "n mod 4 \<le> n" using assms(1) by (intro zmod_le_nonneg_dividend) simp
  moreover have "0 \<le> n mod 4" by simp
  ultimately have "rb_ok ?rb" using assms by (simp add: rb_ok_def) linarith
  moreover have "rb_data ?rb = []" by (simp add: rb_data_def rb_count_def)
  ultimately show ?thesis using that [of ?rb] assms(1) by (simp add: rt_ringbuffer_init_def align_down_4)
qed

lemma rt_ringbuffer_reset_spec:
  "rb_ok rb \<Longrightarrow> rb_ok (rt_ringbuffer_reset rb) \<and> rb_data (rt_ringbuffer_reset rb) = [] \<and>
     buffer_size (rt_ringbuffer_reset rb) = buffer_size rb"
  by (auto simp: rt_ringbuffer_reset_def rb_ok_def rb_data_def rb_count_def)

subsection \<open>One byte at a time\<close>

text \<open>The one-byte operations are the block operations on one byte.\<close>

lemma mem_copy_1: "mem_copy a off [ch] 0 1 = mem_write a off [ch]"
  by (simp add: mem_copy_def mem_read_def)

lemma mem_nothing: "0 \<le> i \<Longrightarrow> i \<le> int (length s) \<Longrightarrow> mem_copy a 0 s i 0 = Some a" "mem_read a 0 0 = Some []"
  by (simp_all add: mem_copy_def mem_read_def mem_write_def)

lemma rt_ringbuffer_putchar_eq:
  assumes ok: "rb_ok rb"
  shows "rt_ringbuffer_putchar rb ch =
    (if rb_count rb = rb_n rb then Some (0, rb)
     else map_option (Pair 1) (if rb_w rb + 1 < rb_n rb then rb_write_straight rb [ch] (int 1)
                               else rb_write_around rb [ch] (int 1)))"
proof -
  note s = rb_size [OF ok]
  have sp: "rt_ringbuffer_space_len rb = 0 \<longleftrightarrow> rb_count rb = rb_n rb"
    using data_len_eq(3) [OF ok] s(4) by (metis diff_is_0_eq diff_self_eq_0 le_antisym unat_eq_0)
  have i: "widx rb = int (rb_w rb)" using uint_nat [of "write_index rb"] by linarith
  show ?thesis
  proof (cases "rb_count rb = rb_n rb")
    case True
    then show ?thesis using sp by (simp add: rt_ringbuffer_putchar_def)
  next
    case False
    then have z: "rb_n rb \<noteq> 0" using s(4) by linarith
    note pos = rb_write_pos [OF ok z]
    have e: "widx rb = buffer_size rb - 1 \<longleftrightarrow> \<not> rb_w rb + 1 < rb_n rb" using i s(1) pos(2) by linarith
    have t: "buffer_size rb - widx rb = 1" if "\<not> rb_w rb + 1 < rb_n rb" using that e by linarith
    show ?thesis
    proof (cases "rb_w rb + 1 < rb_n rb")
      case True
      then show ?thesis using False sp e
        by (simp add: rt_ringbuffer_putchar_def rb_write_straight_def mem_copy_1 map_option_bind o_def)
    next
      case around: False
      then show ?thesis using False sp e t [OF around]
        by (simp add: rt_ringbuffer_putchar_def rb_write_around_def mem_copy_1 mem_nothing map_option_bind o_def)
    qed
  qed
qed

lemma rt_ringbuffer_putchar_spec:
  assumes ok: "rb_ok rb"
  shows "rb_count rb = rb_n rb \<Longrightarrow> rt_ringbuffer_putchar rb ch = Some (0, rb)"
    and "rb_count rb < rb_n rb \<Longrightarrow> \<exists>rb'. rt_ringbuffer_putchar rb ch = Some (1, rb') \<and> rb_ok rb' \<and>
      buffer_size rb' = buffer_size rb \<and> rb_data rb' = rb_data rb @ [ch]"
proof -
  show "rt_ringbuffer_putchar rb ch = Some (0, rb)" if "rb_count rb = rb_n rb"
    using that by (simp add: rt_ringbuffer_putchar_eq [OF ok])
  assume c: "rb_count rb < rb_n rb"
  have l: "1 \<le> length [ch]" "rb_count rb + 1 \<le> rb_n rb" using c by simp_all
  have z: "rb_n rb \<noteq> 0" using c by linarith
  show "\<exists>rb'. rt_ringbuffer_putchar rb ch = Some (1, rb') \<and> rb_ok rb' \<and>
      buffer_size rb' = buffer_size rb \<and> rb_data rb' = rb_data rb @ [ch]"
  proof (cases "rb_w rb + 1 < rb_n rb")
    case True
    then have "1 < rb_n rb - rb_w rb" by linarith
    from rb_write_straight_spec [OF ok this l] obtain rb1 where
      "rb_write_straight rb [ch] (int 1) = Some rb1" "rb_ok rb1" "buffer_size rb1 = buffer_size rb"
      "rb_data rb1 = rb_data rb @ take 1 [ch]" .
    then show ?thesis using c True by (simp add: rt_ringbuffer_putchar_eq [OF ok])
  next
    case False
    then have "rb_n rb - rb_w rb \<le> 1" by linarith
    from rb_write_around_spec [OF ok this l(1) _ l(2)] obtain rb1 where
      "rb_write_around rb [ch] (int 1) = Some rb1" "rb_ok rb1" "buffer_size rb1 = buffer_size rb"
      "rb_data rb1 = rb_data rb @ take 1 [ch]" by auto
    then show ?thesis using c False by (simp add: rt_ringbuffer_putchar_eq [OF ok])
  qed
qed

lemma rt_ringbuffer_getchar_eq:
  assumes ok: "rb_ok rb"
  shows "rt_ringbuffer_getchar rb =
    map_option (\<lambda>(n, bs, rb'). (n, if n = 0 then None else Some (hd bs), rb')) (rt_ringbuffer_get rb 1)"
proof (cases "rt_ringbuffer_data_len rb = 0")
  case True
  then show ?thesis by (simp add: rt_ringbuffer_getchar_def rt_ringbuffer_get_def)
next
  case False
  then have "rb_count rb \<noteq> 0" using data_len_eq(2) [OF ok] by (metis unat_eq_0)
  then have z: "rb_n rb \<noteq> 0" using rb_size(4) [OF ok] by linarith
  note s = rb_size [OF ok] and pos = rb_write_pos [OF ok z]
  have i: "ridx rb = int (rb_r rb)" using uint_nat [of "read_index rb"] by linarith
  have l: "\<not> rt_ringbuffer_data_len rb < 1" using False by (simp add: word_less_1)
  have e: "buffer_size rb - ridx rb > 1 \<longleftrightarrow> ridx rb \<noteq> buffer_size rb - 1" using i s(1) pos(3) by linarith
  show ?thesis using False l e
    by (cases "ridx rb = buffer_size rb - 1")
      (simp_all add: rt_ringbuffer_getchar_def rt_ringbuffer_get_def map_option_bind o_def mem_nothing)
qed

lemma rt_ringbuffer_getchar_spec:
  assumes ok: "rb_ok rb"
  shows "rb_data rb = [] \<Longrightarrow> rt_ringbuffer_getchar rb = Some (0, None, rb)"
    and "rb_data rb = x # xs \<Longrightarrow> \<exists>rb'. rt_ringbuffer_getchar rb = Some (1, Some x, rb') \<and> rb_ok rb' \<and>
      buffer_size rb' = buffer_size rb \<and> rb_data rb' = xs"
proof -
  from rt_ringbuffer_get_spec [OF ok, of 1] obtain rb' where
    g: "rt_ringbuffer_get rb 1 = Some (of_nat (min 1 (rb_count rb)), take (min 1 (rb_count rb)) (rb_data rb), rb')"
      "rb_ok rb'" "buffer_size rb' = buffer_size rb" "rb_data rb' = drop (min 1 (rb_count rb)) (rb_data rb)"
    by (auto simp del: length_rb_data)
  show "rt_ringbuffer_getchar rb = Some (0, None, rb)" if "rb_data rb = []"
  proof -
    have "rt_ringbuffer_data_len rb = 0" using data_len_eq(1) [OF ok] that length_rb_data [of rb] by simp
    then show ?thesis by (simp add: rt_ringbuffer_getchar_def)
  qed
  assume d: "rb_data rb = x # xs"
  then have "min 1 (rb_count rb) = 1" using length_rb_data [of rb] by simp
  with g d show "\<exists>rb'. rt_ringbuffer_getchar rb = Some (1, Some x, rb') \<and> rb_ok rb' \<and>
      buffer_size rb' = buffer_size rb \<and> rb_data rb' = xs" by (simp add: rt_ringbuffer_getchar_eq [OF ok])
qed

subsection \<open>The ring as a bounded queue\<close>

text \<open>By the number they return, with the state they leave.\<close>

definition rb_offer :: "u8 \<Rightarrow> rt_ringbuffer \<Rightarrow> (bool \<times> rt_ringbuffer) option" where
  "rb_offer ch rb =
     (case rt_ringbuffer_putchar rb ch of
        Some (n, rb') \<Rightarrow> if n = 1 then Some (True, rb') else if n = 0 then Some (False, rb') else None
      | None \<Rightarrow> None)"

definition rb_fetch :: "rt_ringbuffer \<Rightarrow> (u8 option \<times> rt_ringbuffer) option" where
  "rb_fetch rb =
     (case rt_ringbuffer_getchar rb of
        Some (n, r, rb') \<Rightarrow> if n = 1 \<and> r \<noteq> None \<or> n = 0 \<and> r = None then Some (r, rb') else None
      | None \<Rightarrow> None)"

interpretation rb: bounded_fifo rb_offer rb_fetch rb_data rb_n "\<lambda>_ _. True" "\<lambda>_. rb_ok"
proof (unfold_locales, goal_cases)
  case (1 n s)
  then show ?case by (simp add: rb_size(4))
next
  case (2 n s x)
  then show ?case by (simp add: rb_offer_def rt_ringbuffer_putchar_spec(1))
next
  case (3 n s x)
  then have "rb_count s < rb_n s" by simp
  from rt_ringbuffer_putchar_spec(2) [OF 3(1) this] obtain rb' where
    "rt_ringbuffer_putchar s x = Some (1, rb')" "rb_ok rb'" "buffer_size rb' = buffer_size s" "rb_data rb' = rb_data s @ [x]"
    by blast
  then show ?case by (simp add: rb_offer_def)
next
  case (4 n s)
  then show ?case by (simp add: rb_fetch_def rt_ringbuffer_getchar_spec(1))
next
  case (5 n s x xs)
  from rt_ringbuffer_getchar_spec(2) [OF 5] show ?case by (auto simp: rb_fetch_def)
qed

text \<open>
  C17.  Any run of \<^verbatim>\<open>rt_ringbuffer_putchar\<close> and \<^verbatim>\<open>rt_ringbuffer_getchar\<close> on an initialised ring
  buffer returns what a list of at most as many bytes as its size, aligned down to words,
  returns, and leaves its contents: no byte is lost, duplicated or reordered, also not by a call
  that finds the ring full or empty.
\<close>

theorem rb_run_refines_queue:
  assumes "0 < n" "n < 2 ^ 15" "nat n \<le> length pool"
  shows "\<exists>rb rb'. rt_ringbuffer_init pool n = Some rb \<and>
    fifo_run rb_offer rb_fetch ops rb = Some (fst (queue_run (nat (n - n mod 4)) ops []), rb') \<and>
    rb_data rb' = snd (queue_run (nat (n - n mod 4)) ops []) \<and> rb_ok rb'"
proof -
  from rt_ringbuffer_init_spec [OF assms] obtain rb where
    rb: "rt_ringbuffer_init pool n = Some rb" "rb_ok rb" "buffer_size rb = n - n mod 4" "rb_data rb = []" .
  from rb.run_refines [OF rb(2), of ops] show ?thesis unfolding rb(3,4) using rb(1) by auto
qed

theorem rb_run_refines_queue_witness:
  "\<exists>rb rb'. rt_ringbuffer_init (replicate 8 0) 6 = Some rb \<and>
    fifo_run rb_offer rb_fetch [Offer 1, Offer 2, Offer 3, Offer 4, Offer 5, Fetch, Offer 6, Fetch, Fetch, Fetch, Fetch, Fetch] rb =
      Some ([Accepted, Accepted, Accepted, Accepted, Refused, Item 1, Accepted, Item 2, Item 3, Item 4, Item 6, Empty], rb')"
proof -
  let ?ops = "[Offer 1, Offer 2, Offer 3, Offer 4, Offer 5, Fetch, Offer 6, Fetch, Fetch, Fetch, Fetch, Fetch] :: u8 fifo_op list"
  have q: "fst (queue_run (nat (6 - 6 mod 4)) ?ops []) =
      [Accepted, Accepted, Accepted, Accepted, Refused, Item 1, Accepted, Item 2, Item 3, Item 4, Item 6, Empty]" by simp
  show ?thesis using rb_run_refines_queue [of 6 "replicate 8 0" ?ops, unfolded q] by auto
qed

text \<open>
  C18.  Blocks: \<^verbatim>\<open>rt_ringbuffer_put\<close> appends as many bytes as there is room for and returns
  their number; a following \<^verbatim>\<open>rt_ringbuffer_get\<close> returns the oldest bytes, as many as are asked
  for and stored, and leaves the rest, wherever the indices stand.
\<close>

theorem rb_put_get:
  assumes ok: "rb_ok rb" and "unat len \<le> length ptr"
  shows "\<exists>rb'. rt_ringbuffer_put rb ptr len = Some (of_nat (min (unat len) (rb_n rb - length (rb_data rb))), rb') \<and>
    rb_ok rb' \<and> rb_data rb' = rb_data rb @ take (min (unat len) (rb_n rb - length (rb_data rb))) ptr \<and>
    (\<exists>rb''. rt_ringbuffer_get rb' m = Some (of_nat (min (unat m) (length (rb_data rb'))), take (unat m) (rb_data rb'), rb'') \<and>
       rb_ok rb'' \<and> rb_data rb'' = drop (unat m) (rb_data rb'))"
proof -
  from rt_ringbuffer_put_spec [OF assms] obtain rb' where
    p: "rt_ringbuffer_put rb ptr len = Some (of_nat (min (unat len) (rb_n rb - rb_count rb)), rb')" "rb_ok rb'"
      "buffer_size rb' = buffer_size rb" "rb_data rb' = rb_data rb @ take (min (unat len) (rb_n rb - rb_count rb)) ptr" .
  from rt_ringbuffer_get_spec [OF p(2), of m] obtain rb'' where
    "rt_ringbuffer_get rb' m =
      Some (of_nat (min (unat m) (rb_count rb')), take (min (unat m) (rb_count rb')) (rb_data rb'), rb'')"
    "rb_ok rb''" "rb_data rb'' = drop (min (unat m) (rb_count rb')) (rb_data rb')" .
  moreover have "take (min (unat m) (rb_count rb')) (rb_data rb') = take (unat m) (rb_data rb')"
    "drop (min (unat m) (rb_count rb')) (rb_data rb') = drop (unat m) (rb_data rb')"
    by (simp_all add: min_def)
  ultimately show ?thesis using p by simp
qed

text \<open>A ring of eight bytes that holds four.\<close>

definition rb_demo :: rt_ringbuffer where
  "rb_demo = \<lparr>buffer_ptr = [1, 2, 3, 4, 0, 0, 0, 0], read_mirror = False, read_index = 0, write_mirror = False,
     write_index = 4, buffer_size = 8\<rparr>"

lemma rb_demo_ok: "rb_ok rb_demo" "rb_data rb_demo = [1, 2, 3, 4]"
  by (simp_all add: rb_demo_def rb_ok_def rb_data_def rb_count_def ring_slice_def upt_rec)

theorem rb_put_get_witness:
  "\<exists>rb'. rt_ringbuffer_put rb_demo [5, 6] 2 = Some (2, rb') \<and> (\<exists>rb''. rt_ringbuffer_get rb' 3 = Some (3, [1, 2, 3], rb''))"
proof -
  have "rb_n rb_demo = 8" by (simp add: rb_demo_def)
  with rb_put_get [OF rb_demo_ok(1), of 2 "[5, 6]" 3] show ?thesis by (auto simp: rb_demo_ok(2) simp del: length_rb_data)
qed

subsection \<open>Forced writes\<close>

lemma rb_full_iff:
  assumes "rb_ok rb" "rb_n rb \<noteq> 0"
  shows "rb_count rb = rb_n rb \<longleftrightarrow> rt_ringbuffer_status rb = RT_RINGBUFFER_FULL"
    and "rb_count rb = rb_n rb \<longleftrightarrow> read_index rb = write_index rb \<and> read_mirror rb \<noteq> write_mirror rb"
proof -
  show "rb_count rb = rb_n rb \<longleftrightarrow> read_index rb = write_index rb \<and> read_mirror rb \<noteq> write_mirror rb"
    using assms by (auto simp: rb_ok_def rb_count_def word_unat_eq_iff split: if_splits)
  then show "rb_count rb = rb_n rb \<longleftrightarrow> rt_ringbuffer_status rb = RT_RINGBUFFER_FULL"
    by (simp add: rt_ringbuffer_status_def)
qed

text \<open>On a full buffer \<^verbatim>\<open>rt_ringbuffer_putchar_force\<close> drops the oldest byte.\<close>

lemma putchar_force_eq:
  assumes ok: "rb_ok rb" and z: "rb_n rb \<noteq> 0"
  shows "rb_count rb < rb_n rb \<Longrightarrow> rt_ringbuffer_putchar_force rb ch = rt_ringbuffer_putchar rb ch"
    and "rb_count rb = rb_n rb \<Longrightarrow> \<exists>x rb1. rt_ringbuffer_getchar rb = Some (1, Some x, rb1) \<and>
      rt_ringbuffer_putchar_force rb ch = rt_ringbuffer_putchar rb1 ch"
proof -
  note s = rb_size [OF ok] and pos = rb_write_pos [OF ok z]
  show "rt_ringbuffer_putchar_force rb ch = rt_ringbuffer_putchar rb ch" if "rb_count rb < rb_n rb"
  proof -
    have "rt_ringbuffer_space_len rb \<noteq> 0" using data_len_eq(3) [OF ok] that by auto
    moreover have "rt_ringbuffer_status rb \<noteq> RT_RINGBUFFER_FULL" using rb_full_iff [OF assms] that by auto
    ultimately show ?thesis
      by (cases "mem_write (buffer_ptr rb) (widx rb) [ch]")
        (simp_all add: rt_ringbuffer_putchar_force_def rt_ringbuffer_putchar_def Let_def)
  qed
  assume full: "rb_count rb = rb_n rb"
  then obtain x xs where d: "rb_data rb = x # xs" using z length_rb_data [of rb] by (cases "rb_data rb") auto
  from rt_ringbuffer_getchar_spec(2) [OF ok d] obtain rb1 where
    g: "rt_ringbuffer_getchar rb = Some (1, Some x, rb1)" "rb_ok rb1" "buffer_size rb1 = buffer_size rb" "rb_data rb1 = xs"
    by blast
  have c1: "rb_count rb1 < rb_n rb1" using d g(3,4) full length_rb_data [of rb] length_rb_data [of rb1] by simp
  have e: "read_index rb = write_index rb" "read_mirror rb = (\<not> write_mirror rb)" "rt_ringbuffer_status rb = RT_RINGBUFFER_FULL"
    using rb_full_iff [OF assms] full by auto
  have r1: "rb1 = (if ridx rb = buffer_size rb - 1 then rb\<lparr>read_mirror := \<not> read_mirror rb, read_index := 0\<rparr>
      else rb\<lparr>read_index := read_index rb + 1\<rparr>)"
    using g(1) by (auto simp: rt_ringbuffer_getchar_def split: if_splits Option.bind_splits)
  have "rt_ringbuffer_space_len rb1 \<noteq> 0" using data_len_eq(3) [OF g(2)] c1 by auto
  then have "rt_ringbuffer_putchar_force rb ch = rt_ringbuffer_putchar rb1 ch"
    by (cases "widx rb = buffer_size rb - 1"; cases "mem_write (buffer_ptr rb) (widx rb) [ch]")
      (simp_all add: rt_ringbuffer_putchar_force_def rt_ringbuffer_putchar_def Let_def e r1)
  with g(1) show "\<exists>x rb1. rt_ringbuffer_getchar rb = Some (1, Some x, rb1) \<and>
      rt_ringbuffer_putchar_force rb ch = rt_ringbuffer_putchar rb1 ch" by blast
qed

text \<open>The writers do not look at the reader's fields.\<close>

abbreviation with_reader :: "bool \<Rightarrow> 15 word \<Rightarrow> rt_ringbuffer \<Rightarrow> rt_ringbuffer" where
  "with_reader m i rb \<equiv> rb\<lparr>read_mirror := m, read_index := i\<rparr>"

lemma rb_write_reader:
  "rb_write_straight (with_reader m i rb) ptr len = map_option (with_reader m i) (rb_write_straight rb ptr len)"
  "rb_write_around (with_reader m i rb) ptr len = map_option (with_reader m i) (rb_write_around rb ptr len)"
  by (auto simp: rb_write_straight_def rb_write_around_def Let_def split: Option.bind_splits)

lemma rb_write_mirror:
  "rb_write_straight rb ptr len = Some rb' \<Longrightarrow> write_mirror rb' = write_mirror rb \<and> read_mirror rb' = read_mirror rb"
  "rb_write_around rb ptr len = Some rb' \<Longrightarrow> write_mirror rb' = (\<not> write_mirror rb) \<and> read_mirror rb' = read_mirror rb"
  by (auto simp: rb_write_straight_def rb_write_around_def Let_def split: Option.bind_splits)

lemma rt_ringbuffer_get_reader:
  "rt_ringbuffer_get rb len = Some (a, bs, rb') \<Longrightarrow> \<exists>m i. rb' = with_reader m i rb"
proof -
  have same: "rb = with_reader (read_mirror rb) (read_index rb) rb" by simp
  have "rb' = rb \<or> rb' = rb\<lparr>read_index := read_index rb'\<rparr> \<or> rb' = with_reader (read_mirror rb') (read_index rb') rb"
    if "rt_ringbuffer_get rb len = Some (a, bs, rb')"
    using that by (auto simp: rt_ringbuffer_get_def Let_def split: if_splits Option.bind_splits)
  moreover have "rb\<lparr>read_index := j\<rparr> = with_reader (read_mirror rb) j rb" for j by simp
  ultimately show "rt_ringbuffer_get rb len = Some (a, bs, rb') \<Longrightarrow> ?thesis" using same by metis
qed

text \<open>The bytes that are written: the last ones, when there are more than the buffer holds.\<close>

lemma put_force_src:
  assumes ok: "rb_ok rb" and l: "unat len \<le> length ptr"
  defines "n \<equiv> min (unat len) (rb_n rb)"
  obtains src where "length src \<ge> n" "take n src = drop (unat len - n) (take (unat len) ptr)"
    "rt_ringbuffer_put_force rb ptr len =
       (if buffer_size rb - widx rb > int n
        then do {
          rb1 \<leftarrow> rb_write_straight rb src (int n);
          Some (of_nat n, if rb_n rb - rb_count rb < n then rb1\<lparr>read_index := write_index rb1\<rparr> else rb1)
        }
        else do {
          rb1 \<leftarrow> rb_write_around rb src (int n);
          Some (of_nat n, if rb_n rb - rb_count rb < n
            then rb1\<lparr>read_mirror := \<not> read_mirror rb1, read_index := write_index rb1\<rparr> else rb1)
        })"
proof -
  note s = rb_size [OF ok] and sp = data_len_eq(4) [OF ok]
  have ul: "uint len = int (unat len)" by simp
  define len1 :: u16 where "len1 = (if uint len > buffer_size rb then of_int (buffer_size rb) else len)"
  have "unat (of_int (buffer_size rb) :: u16) = rb_n rb"
  proof -
    have "(of_int (buffer_size rb) :: u16) = of_nat (rb_n rb)" using s(1) by (metis of_int_of_nat_eq)
    moreover have "rb_n rb < 2 ^ 16" using s(2) by simp
    ultimately show ?thesis by (simp add: unat_of_nat)
  qed
  moreover have g: "uint len > buffer_size rb \<longleftrightarrow> rb_n rb < unat len" using ul s(1) by linarith
  ultimately have u: "unat len1 = n" by (simp add: len1_def n_def)
  have ui: "uint len1 = int n" using u uint_nat [of len1] by simp
  have uc: "(ucast len1 :: u32) = of_nat n" using u by (metis of_nat_unat)
  have cmp: "len1 > ucast (rt_ringbuffer_space_len rb) \<longleftrightarrow> rb_n rb - rb_count rb < n"
    using u sp by (simp add: word_less_nat_alt)
  define src where "src = (if uint len > buffer_size rb then drop (unat len - rb_n rb) (take (unat len) ptr) else ptr)"
  have ls: "length src \<ge> n" "take n src = drop (unat len - n) (take (unat len) ptr)"
    using l g by (auto simp: src_def n_def)
  have m: "(if uint len > buffer_size rb
      then map_option (\<lambda>p. (p, of_int (buffer_size rb))) (mem_read ptr (uint len - buffer_size rb) (buffer_size rb))
      else Some (ptr, len)) = Some (src, len1)"
  proof (cases "uint len > buffer_size rb")
    case True
    have "uint len - buffer_size rb = int (unat len - rb_n rb)" using True g ul s(1) by linarith
    moreover have "unat len - rb_n rb + rb_n rb \<le> length ptr" using True g l by linarith
    ultimately have "mem_read ptr (uint len - buffer_size rb) (buffer_size rb) =
        Some (take (rb_n rb) (drop (unat len - rb_n rb) ptr))"
      using mem_read_Some [of "unat len - rb_n rb" "rb_n rb" ptr] s(1) by metis
    moreover have "take (rb_n rb) (drop (unat len - rb_n rb) ptr) = src"
      using True g by (simp add: src_def drop_take)
    ultimately show ?thesis using True by (simp add: len1_def)
  next
    case False
    then show ?thesis by (simp add: src_def len1_def)
  qed
  have "rt_ringbuffer_put_force rb ptr len =
       (if buffer_size rb - widx rb > int n
        then do {
          rb1 \<leftarrow> rb_write_straight rb src (int n);
          Some (of_nat n, if rb_n rb - rb_count rb < n then rb1\<lparr>read_index := write_index rb1\<rparr> else rb1)
        }
        else do {
          rb1 \<leftarrow> rb_write_around rb src (int n);
          Some (of_nat n, if rb_n rb - rb_count rb < n
            then rb1\<lparr>read_mirror := \<not> read_mirror rb1, read_index := write_index rb1\<rparr> else rb1)
        })"
    unfolding rt_ringbuffer_put_force_def Let_def m bind.bind_lunit prod.case ui uc cmp ..
  with ls show ?thesis by (rule that)
qed

text \<open>Making room by advancing the reader, then writing.\<close>

lemma rb_forced_write:
  assumes ok: "rb_ok rb" and z: "rb_n rb \<noteq> 0" and n: "n \<le> rb_n rb" "rb_n rb - rb_count rb < n" and l: "n \<le> length src"
  obtains x where
    "(if buffer_size rb - widx rb > int n then rb_write_straight rb src (int n) else rb_write_around rb src (int n)) =
       Some (with_reader (read_mirror rb) (read_index rb) x)"
    "rb_ok x" "buffer_size x = buffer_size rb" "rb_data x = drop (n - (rb_n rb - rb_count rb)) (rb_data rb) @ take n src"
    "read_index x = write_index x" "read_mirror x \<noteq> write_mirror x"
proof -
  define d where "d = n - (rb_n rb - rb_count rb)"
  note s = rb_size [OF ok]
  have d: "d \<le> rb_count rb" "rb_count rb - d + n = rb_n rb" using n s(4) by (simp_all add: d_def)
  have "d < 2 ^ 15" using d(1) s(2,4) by linarith
  then have "unat (of_nat d :: u16) = d" by (simp add: unat_of_nat)
  then have m: "min (unat (of_nat d :: u16)) (rb_count rb) = d" using d(1) by simp
  from rt_ringbuffer_get_spec [OF ok, of "of_nat d", unfolded m] obtain rb1 where
    g: "rt_ringbuffer_get rb (of_nat d) = Some (of_nat d, take d (rb_data rb), rb1)" "rb_ok rb1"
      "buffer_size rb1 = buffer_size rb" "rb_data rb1 = drop d (rb_data rb)" .
  from rt_ringbuffer_get_reader [OF g(1)] obtain m i where r: "rb1 = with_reader m i rb" by blast
  have c: "rb_count rb1 = rb_count rb - d" using g(4) length_rb_data [of rb1] length_rb_data [of rb] by simp
  have z1: "rb_n rb1 \<noteq> 0" "rb_count rb1 + n \<le> rb_n rb1" using z d(2) by (simp_all add: g(3) c)
  from rb_write_spec [OF g(2) z1(1) l z1(2)] obtain x where
    x: "(if buffer_size rb1 - widx rb1 > int n then rb_write_straight rb1 src (int n) else rb_write_around rb1 src (int n)) = Some x"
      "rb_ok x" "buffer_size x = buffer_size rb1" "rb_data x = rb_data rb1 @ take n src" .
  have "length (rb_data x) = rb_n rb" unfolding x(4) using l d(2) c by simp
  then have "rb_count x = rb_n x" by (simp add: x(3) g(3))
  then have f: "read_index x = write_index x" "read_mirror x \<noteq> write_mirror x"
    using rb_full_iff(2) [OF x(2)] z by (auto simp: x(3) g(3))
  have same: "rb = with_reader (read_mirror rb) (read_index rb) rb1" by (simp add: r)
  have w: "buffer_size rb - widx rb = buffer_size rb1 - widx rb1" by (simp add: r)
  have "(if buffer_size rb - widx rb > int n then rb_write_straight rb src (int n) else rb_write_around rb src (int n)) =
      Some (with_reader (read_mirror rb) (read_index rb) x)"
    unfolding w using x(1) rb_write_reader [where m = "read_mirror rb" and i = "read_index rb" and rb = rb1, folded same]
    by (simp split: if_splits)
  with x f g show ?thesis by (intro that [of x]) (simp_all add: d_def)
qed

text \<open>
  \<^verbatim>\<open>rt_ringbuffer_put_force\<close>: when the bytes fit, they are appended.  When they do not, the
  oldest bytes make room -- but only if reader and writer stand in different mirrors.  In the
  same mirror the code flips both mirror bits: the call reports all bytes written and leaves
  the buffer empty.
\<close>

theorem rt_ringbuffer_put_force_spec:
  assumes ok: "rb_ok rb" and z: "rb_n rb \<noteq> 0" and l: "unat len \<le> length ptr"
  defines "n \<equiv> min (unat len) (rb_n rb)" and "room \<equiv> rb_n rb - length (rb_data rb)"
  shows "\<exists>rb'. rt_ringbuffer_put_force rb ptr len = Some (of_nat n, rb') \<and> rb_ok rb' \<and>
    rb_data rb' =
      (if n \<le> room then rb_data rb @ drop (unat len - n) (take (unat len) ptr)
       else if read_mirror rb = write_mirror rb then []
       else drop (n - room) (rb_data rb) @ drop (unat len - n) (take (unat len) ptr))"
proof -
  from put_force_src [OF ok l, folded n_def] obtain src where
    src: "n \<le> length src" "take n src = drop (unat len - n) (take (unat len) ptr)"
    and eq: "rt_ringbuffer_put_force rb ptr len =
       (if buffer_size rb - widx rb > int n
        then do {
          rb1 \<leftarrow> rb_write_straight rb src (int n);
          Some (of_nat n, if rb_n rb - rb_count rb < n then rb1\<lparr>read_index := write_index rb1\<rparr> else rb1)
        }
        else do {
          rb1 \<leftarrow> rb_write_around rb src (int n);
          Some (of_nat n, if rb_n rb - rb_count rb < n
            then rb1\<lparr>read_mirror := \<not> read_mirror rb1, read_index := write_index rb1\<rparr> else rb1)
        })" .
  have room: "room = rb_n rb - rb_count rb" by (simp add: room_def)
  show ?thesis
  proof (cases "n \<le> room")
    case True
    then have "rb_count rb + n \<le> rb_n rb" using rb_size(4) [OF ok] by (simp add: room)
    from rb_write_spec [OF ok z src(1) this] obtain rb1 where
      "(if buffer_size rb - widx rb > int n then rb_write_straight rb src (int n) else rb_write_around rb src (int n)) = Some rb1"
      "rb_ok rb1" "rb_data rb1 = rb_data rb @ take n src" .
    then show ?thesis using True src(2) unfolding eq room by (auto split: if_splits)
  next
    case False
    then have f: "rb_n rb - rb_count rb < n" "n \<le> rb_n rb" by (simp_all add: room n_def)
    from rb_forced_write [OF ok z f(2,1) src(1)] obtain x where
      x: "(if buffer_size rb - widx rb > int n then rb_write_straight rb src (int n) else rb_write_around rb src (int n)) =
        Some (with_reader (read_mirror rb) (read_index rb) x)"
        "rb_ok x" "buffer_size x = buffer_size rb" "rb_data x = drop (n - (rb_n rb - rb_count rb)) (rb_data rb) @ take n src"
        "read_index x = write_index x" "read_mirror x \<noteq> write_mirror x" .
    show ?thesis
    proof (cases "read_mirror rb = write_mirror rb")
      case True
      then have rw: "rb_r rb \<le> rb_w rb" "rb_count rb = rb_w rb - rb_r rb" using ok z by (auto simp: rb_ok_def rb_count_def)
      then have a: "\<not> buffer_size rb - widx rb > int n"
        using f(1) rb_size(1,4) [OF ok] uint_nat [of "write_index rb"] by linarith
      let ?y = "with_reader (\<not> read_mirror rb) (write_index x) x"
      have "rb_write_around rb src (int n) = Some (with_reader (read_mirror rb) (read_index rb) x)" using x(1) a by simp
      from rb_write_mirror(2) [OF this] have "write_mirror x = (\<not> read_mirror rb)" using True by simp
      then have "rb_ok ?y" "rb_data ?y = []" using x(2) z
        by (auto simp: rb_ok_def rb_data_def rb_count_def x(3) split: if_splits)
      then show ?thesis using False True f a x(1) unfolding eq by simp
    next
      case diff: False
      have "write_mirror x = (if buffer_size rb - widx rb > int n then write_mirror rb else \<not> write_mirror rb)"
      proof (cases "buffer_size rb - widx rb > int n")
        case True
        with x(1) have "rb_write_straight rb src (int n) = Some (with_reader (read_mirror rb) (read_index rb) x)" by simp
        from rb_write_mirror(1) [OF this] True show ?thesis by simp
      next
        case False
        with x(1) have "rb_write_around rb src (int n) = Some (with_reader (read_mirror rb) (read_index rb) x)" by simp
        from rb_write_mirror(2) [OF this] False show ?thesis by simp
      qed
      then have "(if buffer_size rb - widx rb > int n then read_mirror rb else \<not> read_mirror rb) = read_mirror x"
        using diff x(6) by auto
      then have "rt_ringbuffer_put_force rb ptr len = Some (of_nat n, with_reader (read_mirror x) (read_index x) x)"
        using f x(1) unfolding eq x(5) by (auto split: if_splits)
      then show ?thesis using False diff x(2,4) src(2) by (simp add: room)
    qed
  qed
qed

theorem rt_ringbuffer_put_force_spec_witness:
  "\<exists>rb'. rt_ringbuffer_put_force rb_demo [5, 6, 7, 8, 9, 10] 6 = Some (6, rb') \<and> rb_data rb' = []"
proof -
  have n: "rb_n rb_demo = 8" "read_mirror rb_demo = write_mirror rb_demo" by (simp_all add: rb_demo_def)
  have "rb_n rb_demo \<noteq> 0" "unat (6 :: u16) \<le> length [5, 6, 7, 8, 9, 10 :: u8]" by (simp_all add: n)
  from rt_ringbuffer_put_force_spec [OF rb_demo_ok(1) this] show ?thesis by (auto simp: n rb_demo_ok(2))
qed

end
