(* ===== verification/Mempool.thy ===== *)
theory Mempool
  imports Mailbox
begin

text \<open>
  \<^verbatim>\<open>rt-thread/src/mempool.c\<close>: pools of blocks of one size.  A block is its index in the pool;
  its pointer-sized head links it on the free list or names its pool.
\<close>

subsection \<open>Operations\<close>

abbreviation mp :: "kernel \<Rightarrow> oid \<Rightarrow> rt_mempool" where
  "mp k \<equiv> mempools (res k)"

definition upd_mp :: "oid \<Rightarrow> (rt_mempool \<Rightarrow> rt_mempool) \<Rightarrow> kernel \<Rightarrow> kernel" where
  "upd_mp i f k = k\<lparr>res := (res k)\<lparr>mempools := (mp k)(i := f (mp k i))\<rparr>\<rparr>"

text \<open>
  The counters and the loop that links the blocks; with no block the write of the last link goes
  to the address before the pool.
\<close>

definition mp_setup :: "rt_mempool \<Rightarrow> rt_mempool option" where
  "mp_setup m =
     (let n = unat (block_total_count m)
      in if n = 0 then None
         else Some (m\<lparr>block_free_count := block_total_count m, suspend_thread_count := 0,
                mp_link := (fold (\<lambda>b l. l(b := NextFree (Some (b + 1)))) [0..<n] (mp_link m))(n - 1 := NextFree None),
                block_list := Some 0\<rparr>))"

text \<open>The pool's memory has \<open>sz\<close> bytes; a block size that wraps to \<open>-4\<close> divides by zero.\<close>

definition rt_mp_init :: "oid \<Rightarrow> u8 list \<Rightarrow> u32 \<Rightarrow> u32 \<Rightarrow> kernel \<Rightarrow> (int \<times> kernel) option" where
  "rt_mp_init i name sz bs k =
     do {
       k1 \<leftarrow> rt_object_init (OMempool i) RT_Object_Class_MemPool name k;
       let sz1 = sz AND NOT 3;
       let bs1 = rt_align bs;
       RT_ASSERT (bs1 + 4 \<noteq> 0);
       (_, k2) \<leftarrow> rt_ipc_object_init (SuspendQ (OMempool i)) k1;
       m \<leftarrow> mp_setup ((mp k2 i)\<lparr>mp_size := sz1, block_size := bs1, block_total_count := sz1 div (bs1 + 4)\<rparr>);
       Some (RT_EOK, upd_mp i (\<lambda>_. m) k2)
     }"

partial_function (option) mp_resume_all :: "oid \<Rightarrow> kernel \<Rightarrow> kernel option" where
  "mp_resume_all i k =
     (case lst (thl k) (SuspendQ (OMempool i)) of
        [] \<Rightarrow> Some k
      | t # _ \<Rightarrow>
          Option.bind (rt_thread_resume t (upd_thread t (\<lambda>th. th\<lparr>t_error := - RT_ERROR\<rparr>) k))
            (\<lambda>(_, k1). mp_resume_all i (upd_mp i (\<lambda>m. m\<lparr>suspend_thread_count := suspend_thread_count m - 1\<rparr>) k1)))"

definition rt_mp_detach :: "oid \<Rightarrow> kernel \<Rightarrow> (int \<times> kernel) option" where
  "rt_mp_detach i k =
     do {
       RT_ASSERT (rt_object_get_type k (OMempool i) = RT_Object_Class_MemPool);
       RT_ASSERT (rt_object_is_systemobject k (OMempool i));
       k1 \<leftarrow> mp_resume_all i k;
       Some (RT_EOK, rt_object_detach (OMempool i) k1)
     }"

text \<open>
  \<open>pool\<close>: whether \<^verbatim>\<open>rt_malloc\<close> returns memory.  Its size is computed modulo \<open>2 ^ 32\<close>; the links
  must lie inside it.
\<close>

definition rt_mp_create ::
  "u8 list \<Rightarrow> u32 \<Rightarrow> u32 \<Rightarrow> oid option \<Rightarrow> bool \<Rightarrow> kernel \<Rightarrow> (oid option \<times> kernel) option" where
  "rt_mp_create name count bs mem pool k =
     do {
       RT_ASSERT (not_in_interrupt k);
       (_, k1) \<leftarrow> rt_object_allocate RT_Object_Class_MemPool name (map_option OMempool mem) k;
       (case mem of
          None \<Rightarrow> Some (None, k1)
        | Some i \<Rightarrow> do {
            let bs1 = rt_align bs;
            let k2 = upd_mp i (\<lambda>m. m\<lparr>block_size := bs1, mp_size := (bs1 + 4) * count\<rparr>) k1;
            (if \<not> pool
             then do { k3 \<leftarrow> rt_object_delete (OMempool i) k2; Some (None, k3) }
             else do {
               RT_ASSERT (unat (bs1 + 4) * unat count < 2 ^ 32);
               (_, k3) \<leftarrow> rt_ipc_object_init (SuspendQ (OMempool i)) k2;
               m \<leftarrow> mp_setup ((mp k3 i)\<lparr>block_total_count := count\<rparr>);
               Some (Some i, upd_mp i (\<lambda>_. m) k3)
             })
          })
     }"

definition rt_mp_delete :: "oid \<Rightarrow> kernel \<Rightarrow> (int \<times> kernel) option" where
  "rt_mp_delete i k =
     do {
       RT_ASSERT (not_in_interrupt k);
       RT_ASSERT (rt_object_get_type k (OMempool i) = RT_Object_Class_MemPool);
       RT_ASSERT (\<not> rt_object_is_systemobject k (OMempool i));
       k1 \<leftarrow> mp_resume_all i k;
       k2 \<leftarrow> rt_object_delete (OMempool i) k1;
       Some (RT_EOK, k2)
     }"

text \<open>
  \<^verbatim>\<open>rt_set_errno\<close>: inside an interrupt, and before the first thread runs, a global variable is
  set that the kernel does not read.
\<close>

definition rt_set_errno :: "int \<Rightarrow> kernel \<Rightarrow> kernel" where
  "rt_set_errno e k =
     (if irq_nest k \<noteq> 0 then k
      else case rt_thread_self k of None \<Rightarrow> k | Some t \<Rightarrow> upd_thread t (\<lambda>th. th\<lparr>t_error := e\<rparr>) k)"

text \<open>Taking the first free block.\<close>

definition mp_take :: "oid \<Rightarrow> rt_mempool \<Rightarrow> (nat \<times> rt_mempool) option" where
  "mp_take i m =
     do {
       b \<leftarrow> block_list m;
       (case mp_link m b of
          NextFree p \<Rightarrow> Some (b, m\<lparr>block_free_count := block_free_count m - 1, block_list := p,
                               mp_link := (mp_link m)(b := PoolOf i)\<rparr>)
        | PoolOf _ \<Rightarrow> None)
     }"

text \<open>
  From the test of the \<^verbatim>\<open>while\<close> to the end, or to the \<^verbatim>\<open>rt_schedule\<close> of a wait.  The result \<open>None\<close>
  is a call that waits, \<open>Some None\<close> is \<^verbatim>\<open>RT_NULL\<close>.  The code counts the waiting thread between its
  link and its timer, with interrupts off.
\<close>

definition mp_alloc_loop :: "oid \<Rightarrow> int \<Rightarrow> kernel \<Rightarrow> (nat option option \<times> kernel) option" where
  "mp_alloc_loop i time k =
     (if block_free_count (mp k i) = 0
      then if time = 0 then Some (Some None, rt_set_errno (- RT_ETIMEOUT) k)
      else do {
        RT_ASSERT (not_in_interrupt k);
        t \<leftarrow> rt_thread_self k;
        let k1 = upd_mp i (\<lambda>m. m\<lparr>suspend_thread_count := suspend_thread_count m + 1\<rparr>) k;
        k2 \<leftarrow> wait_on (\<lambda>_. True) (SuspendQ (OMempool i)) t time (upd_thread t (\<lambda>th. th\<lparr>t_error := RT_EOK\<rparr>) k1);
        k3 \<leftarrow> rt_schedule k2;
        Some (None, k3)
      }
      else do {
        (b, m) \<leftarrow> mp_take i (mp k i);
        Some (Some (Some b), upd_mp i (\<lambda>_. m) k)
      })"

definition rt_mp_alloc :: "oid \<Rightarrow> int \<Rightarrow> kernel \<Rightarrow> (nat option option \<times> kernel) option" where
  "rt_mp_alloc i time k = mp_alloc_loop i time k"

definition rt_mp_alloc_return ::
  "oid \<Rightarrow> int \<Rightarrow> u32 \<Rightarrow> tid \<Rightarrow> kernel \<Rightarrow> (nat option option \<times> kernel) option" where
  "rt_mp_alloc_return i time start t k =
     (if t_error (threads k t) \<noteq> RT_EOK then Some (Some None, k)
      else mp_alloc_loop i (time_left time start (tick k)) k)"

text \<open>The block put back by \<^verbatim>\<open>rt_mp_free\<close>.\<close>

definition mp_put :: "nat \<Rightarrow> rt_mempool \<Rightarrow> rt_mempool" where
  "mp_put b m = m\<lparr>block_free_count := block_free_count m + 1,
     mp_link := (mp_link m)(b := NextFree (block_list m)), block_list := Some b\<rparr>"

text \<open>
  \<open>rt_mp_free j b\<close> frees block \<open>b\<close> of the memory of pool \<open>j\<close>; the head of the block says which
  pool it belongs to.  With a positive count and an empty list the head of the list would be
  taken for a thread.
\<close>

definition rt_mp_free :: "oid \<Rightarrow> nat \<Rightarrow> kernel \<Rightarrow> kernel option" where
  "rt_mp_free j b k =
     (case mp_link (mp k j) b of
        NextFree _ \<Rightarrow> None
      | PoolOf i \<Rightarrow> do {
          RT_ASSERT (i = j);
          let k1 = upd_mp i (mp_put b) k;
          (if suspend_thread_count (mp k1 i) > 0
           then case lst (thl k1) (SuspendQ (OMempool i)) of
                  [] \<Rightarrow> None
                | t # _ \<Rightarrow> do {
                    (_, k2) \<leftarrow> rt_thread_resume t (upd_thread t (\<lambda>th. th\<lparr>t_error := RT_EOK\<rparr>) k1);
                    rt_schedule (upd_mp i (\<lambda>m. m\<lparr>suspend_thread_count := suspend_thread_count m - 1\<rparr>) k2)
                  }
           else Some k1)
        })"

subsection \<open>Well-formed pools\<close>

definition mp_next :: "rt_mempool \<Rightarrow> nat \<Rightarrow> nat option" where
  "mp_next m b = (case mp_link m b of NextFree p \<Rightarrow> p | PoolOf _ \<Rightarrow> None)"

text \<open>\<open>fs\<close> are the free blocks, first to be allocated first.\<close>

definition mp_wf :: "oid \<Rightarrow> rt_mempool \<Rightarrow> nat list \<Rightarrow> bool" where
  "mp_wf i m fs \<longleftrightarrow>
     linked (mp_next m) (block_list m) fs \<and> distinct fs \<and> set fs \<subseteq> {..<unat (block_total_count m)} \<and>
     (\<forall>b < unat (block_total_count m). if b \<in> set fs then \<exists>p. mp_link m b = NextFree p else mp_link m b = PoolOf i) \<and>
     unat (block_free_count m) = length fs"

definition mp_held :: "kernel \<Rightarrow> oid \<Rightarrow> nat set" where
  "mp_held k i = {b. b < unat (block_total_count (mp k i)) \<and> mp_link (mp k i) b = PoolOf i}"

definition mp_free_blocks :: "kernel \<Rightarrow> oid \<Rightarrow> nat list" where
  "mp_free_blocks k i = walk (mp_next (mp k i)) (block_list (mp k i)) (unat (block_free_count (mp k i)))"

definition mp_ok :: "kernel \<Rightarrow> oid \<Rightarrow> bool" where
  "mp_ok k i \<longleftrightarrow>
     rt_object_get_type k (OMempool i) = RT_Object_Class_MemPool \<and> (\<exists>fs. mp_wf i (mp k i) fs) \<and>
     unat (suspend_thread_count (mp k i)) = length (lst (thl k) (SuspendQ (OMempool i)))"

lemma mp_free_blocks_eq: "mp_wf i (mp k i) fs \<Longrightarrow> mp_free_blocks k i = fs"
  using linked_walk by (fastforce simp: mp_wf_def mp_free_blocks_def)

lemma mp_okD: "mp_ok k i \<Longrightarrow> mp_wf i (mp k i) (mp_free_blocks k i)"
  by (auto simp: mp_ok_def mp_free_blocks_eq)

lemma mp_held_eq: "mp_wf i (mp k i) fs \<Longrightarrow> mp_held k i = {..<unat (block_total_count (mp k i))} - set fs"
  unfolding mp_wf_def mp_held_def by (auto split: if_splits)

lemma mp_next_upd [simp]:
  "mp_next (m\<lparr>mp_link := (mp_link m)(b := NextFree p)\<rparr>) = (mp_next m)(b := p)"
  "mp_next (m\<lparr>mp_link := (mp_link m)(b := PoolOf i)\<rparr>) = (mp_next m)(b := None)"
  "mp_next (m\<lparr>block_free_count := x\<rparr>) = mp_next m" "mp_next (m\<lparr>block_list := y\<rparr>) = mp_next m"
  "mp_next (m\<lparr>suspend_thread_count := z\<rparr>) = mp_next m"
  by (auto simp: mp_next_def fun_eq_iff)

lemma mp_wf_count: "mp_wf i m fs \<Longrightarrow> length fs \<le> unat (block_total_count m)"
  using card_mono [of "{..<unat (block_total_count m)}" "set fs"] by (auto simp: mp_wf_def distinct_card)

lemma mp_wf_waiters [simp]: "mp_wf i (m\<lparr>suspend_thread_count := n\<rparr>) fs = mp_wf i m fs"
  by (simp add: mp_wf_def)

lemma mp_take_wf:
  assumes wf: "mp_wf i m (b # fs)"
  obtains m' where "mp_take i m = Some (b, m')" "mp_wf i m' fs" "block_total_count m' = block_total_count m"
    "suspend_thread_count m' = suspend_thread_count m"
proof -
  have "b < unat (block_total_count m)" using wf by (simp add: mp_wf_def)
  then have "\<exists>p. mp_link m b = NextFree p" using wf by (simp add: mp_wf_def)
  then obtain p where l: "mp_link m b = NextFree p" by blast
  then have p: "block_list m = Some b" "mp_link m b = NextFree p" "linked (mp_next m) p fs"
    using wf by (simp_all add: mp_wf_def) (simp add: mp_next_def)
  let ?m = "m\<lparr>block_free_count := block_free_count m - 1, block_list := p, mp_link := (mp_link m)(b := PoolOf i)\<rparr>"
  have n: "mp_next ?m = (mp_next m)(b := None)" by (auto simp: mp_next_def fun_eq_iff)
  have "unat (block_free_count m - 1) = length fs"
    using wf by (subst unat_minus_one) (auto simp: mp_wf_def)
  then have "mp_wf i ?m fs" using wf p(3) by (auto simp: mp_wf_def n)
  then show ?thesis using that [of ?m] p by (simp add: mp_take_def)
qed

lemma mp_put_sel [simp]:
  "block_total_count (mp_put b m) = block_total_count m" "suspend_thread_count (mp_put b m) = suspend_thread_count m"
  by (simp_all add: mp_put_def)

lemma mp_put_wf:
  assumes wf: "mp_wf i m fs" and b: "b < unat (block_total_count m)" "mp_link m b = PoolOf i"
  shows "mp_wf i (mp_put b m) (b # fs)"
proof -
  have nb: "b \<notin> set fs" using wf b by (auto simp: mp_wf_def)
  have n: "mp_next (mp_put b m) = (mp_next m)(b := block_list m)"
    by (auto simp: mp_put_def mp_next_def fun_eq_iff)
  have "length (b # fs) \<le> unat (block_total_count m)"
    using wf b nb card_mono [of "{..<unat (block_total_count m)}" "set (b # fs)"]
    by (auto simp: mp_wf_def distinct_card)
  moreover have "unat (block_total_count m) < 2 ^ 32" using unsigned_less [of "block_total_count m"] by simp
  ultimately have "unat (block_free_count m + 1) = Suc (length fs)"
    using wf by (simp add: mp_wf_def unat_word_ariths)
  then show ?thesis using wf b nb n by (auto simp: mp_wf_def mp_put_def)
qed

text \<open>Setting up puts every block on the free list.\<close>

lemma mp_links:
  "fold (\<lambda>b l. l(b := NextFree (Some (b + 1)))) [0..<n] l0 b = (if b < n then NextFree (Some (b + 1)) else l0 b)"
  by (induction n) auto

lemma linked_upt: "m \<le> n \<Longrightarrow> linked (\<lambda>b. if b = n then None else Some (Suc b)) (Some m) [m..<Suc n]"
proof (induction "n - m" arbitrary: m)
  case 0
  then show ?case by (simp add: upt_rec)
next
  case (Suc d)
  then have "linked (\<lambda>b. if b = n then None else Some (Suc b)) (Some (Suc m)) [Suc m..<Suc n]" by simp
  with Suc show ?case by (simp add: upt_rec [of m])
qed

lemma linked_cong: "linked n p bs \<Longrightarrow> (\<And>b. b \<in> set bs \<Longrightarrow> n' b = n b) \<Longrightarrow> linked n' p bs"
  by (induction bs arbitrary: p) auto

lemma mp_setup_wf:
  assumes "mp_setup m = Some m'"
  shows "mp_wf i m' [0..<unat (block_total_count m)]" "suspend_thread_count m' = 0"
    "block_total_count m' = block_total_count m"
proof -
  define n where "n = unat (block_total_count m)"
  from assms have n0: "n \<noteq> 0" and m': "m' = m\<lparr>block_free_count := block_total_count m, suspend_thread_count := 0,
      mp_link := (fold (\<lambda>b l. l(b := NextFree (Some (b + 1)))) [0..<n] (mp_link m))(n - 1 := NextFree None),
      block_list := Some 0\<rparr>"
    by (simp_all add: mp_setup_def Let_def n_def split: if_splits)
  have lk: "mp_link m' b = NextFree (if b = n - 1 then None else Some (Suc b))" if "b < n" for b
    using that mp_links [of n "mp_link m" b] by (simp add: m')
  have "linked (mp_next m') (Some 0) [0..<Suc (n - 1)]"
    by (rule linked_cong [OF linked_upt [of 0 "n - 1"]]) (use n0 lk in \<open>auto simp: mp_next_def\<close>)
  then have "linked (mp_next m') (Some 0) [0..<n]" using n0 by simp
  then show "mp_wf i m' [0..<unat (block_total_count m)]" "suspend_thread_count m' = 0"
    "block_total_count m' = block_total_count m"
    using lk by (simp_all add: mp_wf_def m' flip: n_def) (auto simp: atLeast0LessThan)
qed

subsection \<open>Allocation\<close>

lemma upd_mp_sel [simp]:
  "kinv (upd_mp i f k) = kinv k" "stacks_ok (upd_mp i f k) = stacks_ok k" "thl (upd_mp i f k) = thl k"
  "hdr (upd_mp i f k) = hdr k" "threads (upd_mp i f k) = threads k" "current (upd_mp i f k) = current k"
  "lock_nest (upd_mp i f k) = lock_nest k" "irq_nest (upd_mp i f k) = irq_nest k" "objs (upd_mp i f k) = objs k"
  "tml (upd_mp i f k) = tml k" "timers (upd_mp i f k) = timers k" "tick (upd_mp i f k) = tick k"
  "stat_of (upd_mp i f k) t = stat_of k t" "prio_of (upd_mp i f k) t = prio_of k t"
  "mp (upd_mp i f k) j = (if j = i then f (mp k i) else mp k j)"
  "rt_object_get_type (upd_mp i f k) r = rt_object_get_type k r" "live (upd_mp i f k) t = live k t"
  by (simp_all add: upd_mp_def rt_object_get_type_def)

lemma mp_held_upd:
  "mp_held (upd_mp i f k) i = {b. b < unat (block_total_count (f (mp k i))) \<and> mp_link (f (mp k i)) b = PoolOf i}"
  by (simp add: mp_held_def)

lemma mp_free_upd: "mp_wf i (f (mp k i)) fs \<Longrightarrow> mp_free_blocks (upd_mp i f k) i = fs"
  by (rule mp_free_blocks_eq) simp

lemma mp_same:
  assumes "res k' = res k"
  shows "mp_held k' i = mp_held k i" "mp_free_blocks k' i = mp_free_blocks k i"
  using assms by (simp_all add: mp_held_def mp_free_blocks_def)

text \<open>Taking a block out of the pool.\<close>

lemma mp_alloc_free_block:
  assumes ok: "mp_ok k i" and fs: "mp_free_blocks k i = b # fs"
  obtains k' where "mp_alloc_loop i time k = Some (Some (Some b), k')" "b \<notin> mp_held k i"
    "mp_held k' i = insert b (mp_held k i)" "mp_free_blocks k' i = fs" "mp_ok k' i" "kinv k' = kinv k"
    "stacks_ok k' = stacks_ok k" "thl k' = thl k" "threads k' = threads k" "current k' = current k"
proof -
  from mp_okD [OF ok] fs have wf: "mp_wf i (mp k i) (b # fs)" by simp
  from mp_take_wf [OF wf] obtain m' where m: "mp_take i (mp k i) = Some (b, m')" "mp_wf i m' fs"
    "block_total_count m' = block_total_count (mp k i)" "suspend_thread_count m' = suspend_thread_count (mp k i)" .
  let ?k = "upd_mp i (\<lambda>_. m') k"
  have "block_free_count (mp k i) \<noteq> 0" using wf by (auto simp: mp_wf_def)
  then have r: "mp_alloc_loop i time k = Some (Some (Some b), ?k)" by (simp add: mp_alloc_loop_def m(1))
  have w: "mp_wf i (mp ?k i) fs" using m(2) by simp
  have "b < unat (block_total_count (mp k i))" "b \<notin> set fs" using wf by (simp_all add: mp_wf_def)
  then have h: "b \<notin> mp_held k i" "mp_held ?k i = insert b (mp_held k i)"
    using mp_held_eq [OF wf] mp_held_eq [OF w] m(3) by auto
  have "mp_ok ?k i" using ok m(2,4) by (auto simp: mp_ok_def)
  with r h show ?thesis using that [of ?k] mp_free_blocks_eq [OF w] by simp
qed

lemma mp_alloc_cases:
  assumes inv: "kinv k" and st: "stacks_ok k" and cur: "current k = Some c" and run: "stat_of k c = RT_THREAD_RUNNING"
    and irq: "irq_nest k = 0" and lock: "lock_nest k = 0" and idle: "stat_of k u = RT_THREAD_READY"
    and ok: "mp_ok k i" and t: "time < 0x7fffffff" and few: "suspend_thread_count (mp k i) + 1 \<noteq> 0"
  shows "case mp_free_blocks k i of
      b # fs \<Rightarrow> \<exists>k'. rt_mp_alloc i time k = Some (Some (Some b), k') \<and> b \<notin> mp_held k i \<and>
        mp_held k' i = insert b (mp_held k i) \<and> mp_free_blocks k' i = fs \<and> mp_ok k' i \<and> kinv k'
    | [] \<Rightarrow> if time = 0
        then rt_mp_alloc i time k = Some (Some None, upd_thread c (\<lambda>th. th\<lparr>t_error := - RT_ETIMEOUT\<rparr>) k)
        else \<exists>k'. rt_mp_alloc i time k = Some (None, k') \<and> kinv k' \<and> mp_ok k' i \<and> mp_held k' i = mp_held k i \<and>
          lst (thl k') (SuspendQ (OMempool i)) = c # lst (thl k) (SuspendQ (OMempool i)) \<and>
          stat_of k' c = RT_THREAD_SUSPEND \<and> stacks_ok k' \<and> runs_highest k' \<and>
          (if time > 0 then ThreadTimer c \<in> set (lst (tml k') HardT) \<and>
             timeout_tick (timers k' (ThreadTimer c)) = tick k + of_int time
           else own (tml k') (ThreadTimer c) = None)"
proof (cases "mp_free_blocks k i")
  case (Cons b fs)
  from mp_alloc_free_block [OF ok Cons] inv show ?thesis by (auto simp: Cons rt_mp_alloc_def)
next
  case Nil
  have e: "block_free_count (mp k i) = 0" using mp_okD [OF ok] by (simp add: Nil mp_wf_def unat_eq_0)
  show ?thesis
  proof (cases "time = 0")
    case True
    then show ?thesis
      by (simp add: Nil rt_mp_alloc_def mp_alloc_loop_def e rt_set_errno_def irq rt_thread_self_def cur)
  next
    case False
    let ?q = "SuspendQ (OMempool i)"
    let ?k1 = "upd_mp i (\<lambda>m. m\<lparr>suspend_thread_count := suspend_thread_count m + 1\<rparr>) k"
    have a: "kinv ?k1" "stacks_ok ?k1" "current ?k1 = Some c" "stat_of ?k1 c = RT_THREAD_RUNNING" "wait_q ?q"
      using inv st cur run by simp_all
    obtain k2 k' where k': "wait_on (\<lambda>_. True) ?q c time (upd_thread c (\<lambda>th. th\<lparr>t_error := RT_EOK\<rparr>) ?k1) = Some k2"
      "rt_schedule k2 = Some k'" "kinv k'" "env_same ?k1 k'" "lst (thl k') ?q = c # lst (thl k) ?q"
      "stat_of k' c = RT_THREAD_SUSPEND" "runs_highest k'" "stacks_ok k'"
      "if time > 0 then ThreadTimer c \<in> set (lst (tml k') HardT) \<and>
          timeout_tick (timers k' (ThreadTimer c)) = tick k + of_int time
       else own (tml k') (ThreadTimer c) = None"
      by (rule block_on_spec [OF a t, where u = u and before = "\<lambda>_. True"]) (use lock idle in simp)
    have r: "mp k' i = (mp k i)\<lparr>suspend_thread_count := suspend_thread_count (mp k i) + 1\<rparr>"
      using env_sameD(24) [OF k'(4)] by simp
    have "mp_ok k' i"
      using ok env_sameD(11) [OF k'(4), of "OMempool i"] k'(5) unatSuc [of "suspend_thread_count (mp k i)"] few
      by (auto simp: mp_ok_def r add.commute)
    moreover have "mp_held k' i = mp_held k i" by (simp add: mp_held_def r)
    moreover have "rt_mp_alloc i time k = Some (None, k')"
      using False e irq cur k'(1,2) by (simp add: rt_mp_alloc_def mp_alloc_loop_def not_in_interrupt_def rt_thread_self_def)
    ultimately show ?thesis using False k'(3,5-9) by (simp add: Nil)
  qed
qed

text \<open>
  C19.  \<^verbatim>\<open>rt_mp_alloc\<close> by the running thread: the first free block is handed out, which nobody
  holds; an empty pool without waiting time gives \<^verbatim>\<open>RT_NULL\<close>; otherwise the caller waits in front
  of all others, is counted, its timer runs iff the time is positive, and a most urgent thread
  runs.
\<close>

theorem rt_mp_alloc_spec:
  assumes inv: "kinv k" and st: "stacks_ok k" and cur: "current k = Some c" and run: "stat_of k c = RT_THREAD_RUNNING"
    and irq: "irq_nest k = 0" and lock: "lock_nest k = 0" and idle: "stat_of k u = RT_THREAD_READY"
    and ok: "mp_ok k i" and t: "time < 0x7fffffff" and few: "suspend_thread_count (mp k i) + 1 \<noteq> 0"
  shows "case mp_free_blocks k i of
      b # fs \<Rightarrow> \<exists>k'. rt_mp_alloc i time k = Some (Some (Some b), k') \<and> b \<notin> mp_held k i \<and>
        mp_held k' i = insert b (mp_held k i) \<and> mp_free_blocks k' i = fs \<and> mp_ok k' i \<and> kinv k'
    | [] \<Rightarrow> if time = 0
        then rt_mp_alloc i time k = Some (Some None, upd_thread c (\<lambda>th. th\<lparr>t_error := - RT_ETIMEOUT\<rparr>) k)
        else \<exists>k'. rt_mp_alloc i time k = Some (None, k') \<and> kinv k' \<and> mp_ok k' i \<and> mp_held k' i = mp_held k i \<and>
          lst (thl k') (SuspendQ (OMempool i)) = c # lst (thl k) (SuspendQ (OMempool i)) \<and>
          stat_of k' c = RT_THREAD_SUSPEND \<and> stacks_ok k' \<and> runs_highest k' \<and>
          (if time > 0 then ThreadTimer c \<in> set (lst (tml k') HardT) \<and>
             timeout_tick (timers k' (ThreadTimer c)) = tick k + of_int time
           else own (tml k') (ThreadTimer c) = None)"
  by (rule mp_alloc_cases [OF assms])

subsection \<open>Freeing\<close>

lemma mp_put_held:
  assumes ok: "mp_ok k i" and b: "b \<in> mp_held k i"
  shows "mp_wf i (mp_put b (mp k i)) (b # mp_free_blocks k i)"
    and "mp_held (upd_mp i (mp_put b) k) i = mp_held k i - {b}"
    and "mp_link (mp k i) b = PoolOf i"
proof -
  show l: "mp_link (mp k i) b = PoolOf i" using b by (simp add: mp_held_def)
  show "mp_wf i (mp_put b (mp k i)) (b # mp_free_blocks k i)"
    by (rule mp_put_wf [OF mp_okD [OF ok] _ l]) (use b in \<open>simp add: mp_held_def\<close>)
  show "mp_held (upd_mp i (mp_put b) k) i = mp_held k i - {b}"
    by (auto simp: mp_held_def mp_put_def)
qed

text \<open>The first waiting thread is resumed and counted down.\<close>

lemma mp_wake:
  assumes inv: "kinv k" and st: "stacks_ok k" and cur: "current k = Some c" and l: "lst (thl k) (SuspendQ (OMempool i)) = t # ts"
  obtains k2 k' where "rt_thread_resume t (upd_thread t (\<lambda>th. th\<lparr>t_error := RT_EOK\<rparr>) k) = Some (RT_EOK, k2)"
    "rt_schedule (upd_mp i f k2) = Some k'" "kinv k'" "stacks_ok k'" "lst (thl k') (SuspendQ (OMempool i)) = ts"
    "stat_of k' t = RT_THREAD_READY \<or> stat_of k' t = RT_THREAD_RUNNING" "t_error (threads k' t) = RT_EOK"
    "own (tml k') (ThreadTimer t) = None" "lock_nest k = 0 \<Longrightarrow> runs_highest k'"
    "mp k' i = f (mp k i)" "rt_object_get_type k' r = rt_object_get_type k r" "tick k' = tick k"
proof -
  let ?q = "SuspendQ (OMempool i)"
  let ?k0 = "upd_thread t (\<lambda>th. th\<lparr>t_error := RT_EOK\<rparr>) k"
  have inv0: "kinv ?k0" using inv by (simp add: kinv_set_error)
  have wq: "wait_q ?q" and l0: "lst (thl ?k0) ?q = t # ts" using l by simp_all
  obtain k2 where k2: "rt_ipc_list_resume ?q ?k0 = Some (RT_EOK, k2)" "kinv k2" "woken t ?k0 k2" "env_same ?k0 k2"
    "lst (thl k2) ?q = ts" "stat_of ?k0 t = RT_THREAD_SUSPEND" and er: "\<And>u. t_error (threads k2 u) = t_error (threads ?k0 u)"
    by (rule list_resume_spec [OF inv0 wq l0]) blast
  have r2: "rt_thread_resume t ?k0 = Some (RT_EOK, k2)"
  proof -
    have "stat_of ?k0 t = RT_THREAD_SUSPEND" by (rule k2(6))
    from resume_spec [OF inv0 this] obtain k3 where "rt_thread_resume t ?k0 = Some (RT_EOK, k3)" by blast
    with k2(1) show ?thesis by (simp add: rt_ipc_list_resume_def l)
  qed
  have e2: "env_same k k2" by (rule env_same_trans [OF set_error_env k2(4)])
  let ?k3 = "upd_mp i f k2"
  have "stacks_ok k2"
    by (rule stacks_ok_env [OF st e2]) (use woken_live [OF k2(3,6)] in simp)
  then have a: "kinv ?k3" "stacks_ok ?k3" "current ?k3 = Some c" using k2(2,3) cur by (simp_all add: woken_def)
  obtain k' where k': "rt_schedule ?k3 = Some k'" "kinv k'" "rescheduled ?k3 k'" "env_same ?k3 k'" "stacks_ok k'"
    and lq: "\<And>q. wait_q q \<Longrightarrow> lst (thl k') q = lst (thl ?k3) q"
    and top: "lock_nest ?k3 = 0 \<Longrightarrow> stat_of ?k3 c = RT_THREAD_RUNNING \<or> (\<exists>t. stat_of ?k3 t = RT_THREAD_READY) \<Longrightarrow> runs_highest k'"
    by (rule finish_schedule [OF a]) blast
  have t2: "stat_of k2 t = RT_THREAD_READY \<or> stat_of k2 t = RT_THREAD_RUNNING" using k2(3) by (simp add: woken_def)
  have n: "own (tml k2) (ThreadTimer t) = None"
    using kinvD(4) [OF k2(2), of t] t2 by (cases "own (tml k2) (ThreadTimer t)") auto
  show ?thesis
  proof (rule that [OF r2 k'(1,2,5)])
    show "lst (thl k') ?q = ts" using lq [OF wq] k2(5) by simp
    show "stat_of k' t = RT_THREAD_READY \<or> stat_of k' t = RT_THREAD_RUNNING"
      using t2 k'(3) unfolding rescheduled_def by (metis upd_mp_sel(13))
    show "t_error (threads k' t) = RT_EOK" using rescheduledD(4) [OF k'(3), of t] er [of t] by simp
    show "own (tml k') (ThreadTimer t) = None" using n rescheduledD(1) [OF k'(3)] by simp
    show "runs_highest k'" if "lock_nest k = 0"
    proof (rule top)
      show "lock_nest ?k3 = 0" using that env_sameD(8) [OF e2] by simp
      have "stat_of k2 t = (if c = t then RT_THREAD_RUNNING else RT_THREAD_READY)" using k2(3) cur by (simp add: woken_def)
      then show "stat_of ?k3 c = RT_THREAD_RUNNING \<or> (\<exists>t. stat_of ?k3 t = RT_THREAD_READY)"
        by (cases "c = t") auto
    qed
    show "mp k' i = f (mp k i)" using env_sameD(24) [OF k'(4)] env_sameD(24) [OF e2] by simp
    show "rt_object_get_type k' r = rt_object_get_type k r" using env_sameD(11) [OF k'(4)] env_sameD(11) [OF e2] by simp
    show "tick k' = tick k" using env_sameD(7) [OF k'(4)] env_sameD(7) [OF e2] by simp
  qed
qed

text \<open>
  C20.  \<^verbatim>\<open>rt_mp_free\<close> of a block somebody holds: it becomes the first free block.  If threads wait,
  the first one is made ready with its error cleared and its timer stopped, a most urgent thread
  runs, and when the woken thread continues it gets this block.
\<close>

theorem rt_mp_free_spec:
  assumes inv: "kinv k" and st: "stacks_ok k" and cur: "current k = Some c" and lock: "lock_nest k = 0"
    and ok: "mp_ok k i" and b: "b \<in> mp_held k i"
  shows "\<exists>k'. rt_mp_free i b k = Some k' \<and> kinv k' \<and> mp_ok k' i \<and> mp_held k' i = mp_held k i - {b} \<and>
    mp_free_blocks k' i = b # mp_free_blocks k i \<and>
    (case lst (thl k) (SuspendQ (OMempool i)) of
       [] \<Rightarrow> thl k' = thl k \<and> threads k' = threads k
     | t # ts \<Rightarrow> lst (thl k') (SuspendQ (OMempool i)) = ts \<and>
         (stat_of k' t = RT_THREAD_READY \<or> stat_of k' t = RT_THREAD_RUNNING) \<and>
         own (tml k') (ThreadTimer t) = None \<and> runs_highest k' \<and>
         (\<exists>k''. rt_mp_alloc_return i time start t k' = Some (Some (Some b), k'') \<and> mp_held k'' i = mp_held k i))"
proof -
  let ?q = "SuspendQ (OMempool i)"
  let ?k1 = "upd_mp i (mp_put b) k"
  note p = mp_put_held [OF ok b]
  have w1: "mp_wf i (mp ?k1 i) (b # mp_free_blocks k i)" using p(1) by simp
  have n: "unat (suspend_thread_count (mp k i)) = length (lst (thl k) ?q)" using ok by (simp add: mp_ok_def)
  show ?thesis
  proof (cases "lst (thl k) ?q")
    case Nil
    then have "suspend_thread_count (mp k i) = 0" using n by (simp add: unat_eq_0)
    then have "rt_mp_free i b k = Some ?k1" "mp_ok ?k1 i"
      using ok p(1,3) Nil by (auto simp: rt_mp_free_def mp_ok_def)
    then show ?thesis using inv p(2) mp_free_blocks_eq [OF w1] Nil by (intro exI [of _ ?k1]) simp
  next
    case (Cons t ts)
    let ?f = "\<lambda>m. m\<lparr>suspend_thread_count := suspend_thread_count m - 1\<rparr>"
    have i1: "kinv ?k1" "stacks_ok ?k1" "current ?k1 = Some c" "lst (thl ?k1) ?q = t # ts" using inv st cur Cons by simp_all
    obtain k2 k' where k': "rt_thread_resume t (upd_thread t (\<lambda>th. th\<lparr>t_error := RT_EOK\<rparr>) ?k1) = Some (RT_EOK, k2)"
      "rt_schedule (upd_mp i ?f k2) = Some k'" "kinv k'" "lst (thl k') ?q = ts"
      "stat_of k' t = RT_THREAD_READY \<or> stat_of k' t = RT_THREAD_RUNNING" "t_error (threads k' t) = RT_EOK"
      "own (tml k') (ThreadTimer t) = None" "runs_highest k'" "mp k' i = ?f (mp ?k1 i)"
      "rt_object_get_type k' (OMempool i) = rt_object_get_type k (OMempool i)"
      by (rule mp_wake [OF i1, where f = ?f and r = "OMempool i"]) (use lock in simp)
    have c0: "suspend_thread_count (mp k i) \<noteq> 0" using n Cons by auto
    then have r: "rt_mp_free i b k = Some k'"
      using p(3) Cons k'(1,2) by (simp add: rt_mp_free_def word_gt_0)
    have w': "mp_wf i (mp k' i) (b # mp_free_blocks k i)" using w1 by (simp add: k'(9))
    have "unat (suspend_thread_count (mp k i) - 1) = length ts" using n Cons c0 by (simp add: unat_minus_one)
    then have ok': "mp_ok k' i" using ok w' k'(4,10) by (auto simp: mp_ok_def k'(9))
    note f' = mp_free_blocks_eq [OF w']
    have h': "mp_held k' i = mp_held k i - {b}" using p(2) by (simp add: mp_held_def k'(9))
    obtain k'' where "mp_alloc_loop i (time_left time start (tick k')) k' = Some (Some (Some b), k'')"
      "mp_held k'' i = insert b (mp_held k' i)" by (rule mp_alloc_free_block [OF ok' f'])
    then have "rt_mp_alloc_return i time start t k' = Some (Some (Some b), k'') \<and> mp_held k'' i = mp_held k i"
      using k'(6) b h' by (auto simp: rt_mp_alloc_return_def)
    with r k' ok' f' h' Cons show ?thesis by (intro exI [of _ k']) auto
  qed
qed

text \<open>A pool that has been initialised: every block is free.\<close>

lemma rt_mp_init_ok:
  assumes inv: "kinv k" and r: "rt_mp_init i name sz bs k = Some (e, k')"
  shows "kinv k'" "mp_ok k' i" "mp_held k' i = {}"
    "mp_free_blocks k' i = [0..<unat ((sz AND NOT 3) div (rt_align bs + 4))]" "e = RT_EOK"
proof -
  from r obtain k1 m where k1: "rt_object_init (OMempool i) RT_Object_Class_MemPool name k = Some k1"
    and l: "lst (thl k1) (SuspendQ (OMempool i)) = []"
    and m: "mp_setup ((mp k1 i)\<lparr>mp_size := sz AND NOT 3, block_size := rt_align bs,
        block_total_count := (sz AND NOT 3) div (rt_align bs + 4)\<rparr>) = Some m"
    and k': "k' = upd_mp i (\<lambda>_. m) k1" "e = RT_EOK"
    by (auto simp: rt_mp_init_def rt_ipc_object_init_def Let_def split: if_splits Option.bind_splits)
  have n: "\<forall>t. OMempool i \<noteq> OThread t" "\<forall>x. OMempool i \<noteq> OTimer x" by simp_all
  note o = kinv_object_init [OF inv n k1]
  note w = mp_setup_wf [OF m]
  have w': "mp_wf i (mp k' i) [0..<unat ((sz AND NOT 3) div (rt_align bs + 4))]" using w(1) [of i] by (simp add: k'(1))
  show "kinv k'" using o(1) by (simp add: k'(1))
  have "rt_object_get_type k' (OMempool i) = RT_Object_Class_MemPool"
    using o(10) by (simp add: rt_object_get_type_def k'(1))
  then show "mp_ok k' i" using w' w(2) l by (auto simp: mp_ok_def k'(1))
  show "mp_free_blocks k' i = [0..<unat ((sz AND NOT 3) div (rt_align bs + 4))]" by (rule mp_free_blocks_eq [OF w'])
  have tot: "block_total_count (mp k' i) = (sz AND NOT 3) div (rt_align bs + 4)" using w(3) by (simp add: k'(1))
  show "mp_held k' i = {}"
    unfolding mp_held_eq [OF w'] tot by (simp only: set_upt atLeast0LessThan Diff_cancel)
  show "e = RT_EOK" by (rule k'(2))
qed

subsection \<open>A concrete kernel with pools\<close>

text \<open>Pool 0 has the free block 1 and the allocated block 0, pool 2 one allocated block.\<close>

definition mp_demo :: kernel where
  "mp_demo = upd_mp 2 (\<lambda>_. \<lparr>mp_size = 8, block_size = 4, block_list = None, mp_link = (\<lambda>_. PoolOf 2),
       block_total_count = 1, block_free_count = 0, suspend_thread_count = 0\<rparr>)
    (upd_mp 0 (\<lambda>_. \<lparr>mp_size = 16, block_size = 4, block_list = Some 1, mp_link = (\<lambda>_. NextFree None)(0 := PoolOf 0),
       block_total_count = 2, block_free_count = 1, suspend_thread_count = 0\<rparr>) ipc_demo)"

lemma mp_demo_sel: "kinv mp_demo" "stacks_ok mp_demo" "current mp_demo = Some 0" "irq_nest mp_demo = 0" "lock_nest mp_demo = 0"
  "stat_of mp_demo t = stat_of demo_kernel t" "thl mp_demo = thl demo_kernel"
  by (simp_all add: mp_demo_def ipc_demo_kinv ipc_demo_stacks ipc_demo_sel ipc_demo_stat)

lemma mp_demo_ok: "mp_ok mp_demo 0" "mp_ok mp_demo 2" "mp_free_blocks mp_demo 0 = [1]" "mp_free_blocks mp_demo 2 = []"
  "mp_held mp_demo 0 = {0}" "mp_held mp_demo 2 = {0}"
proof -
  have w: "mp_wf 0 (mp mp_demo 0) [1]" "mp_wf 2 (mp mp_demo 2) []"
    by (auto simp: mp_demo_def mp_wf_def mp_next_def)
  then show "mp_ok mp_demo 0" "mp_ok mp_demo 2"
    by (auto simp: mp_ok_def mp_demo_sel(7) demo_thl) (simp_all add: mp_demo_def ipc_demo_type)
  show "mp_free_blocks mp_demo 0 = [1]" "mp_free_blocks mp_demo 2 = []" using mp_free_blocks_eq w by blast+
  show "mp_held mp_demo 0 = {0}" "mp_held mp_demo 2 = {0}"
    unfolding mp_held_eq [OF w(1)] mp_held_eq [OF w(2)] by (auto simp: mp_demo_def)
qed

theorem rt_mp_alloc_spec_witness:
  "\<exists>k'. rt_mp_alloc 0 5 mp_demo = Some (Some (Some 1), k') \<and> mp_held k' 0 = {0, 1}"
proof -
  have run: "stat_of mp_demo 0 = RT_THREAD_RUNNING" "stat_of mp_demo 1 = RT_THREAD_READY"
    by (simp_all add: mp_demo_sel demo_stat)
  have few: "suspend_thread_count (mp mp_demo 0) + 1 \<noteq> 0" by (simp add: mp_demo_def)
  from rt_mp_alloc_spec [OF mp_demo_sel(1-3) run(1) mp_demo_sel(4,5) run(2) mp_demo_ok(1) _ few, of 5]
  show ?thesis by (auto simp: mp_demo_ok)
qed

theorem rt_mp_free_spec_witness:
  "\<exists>k'. rt_mp_free 0 0 mp_demo = Some k' \<and> mp_held k' 0 = {} \<and> mp_free_blocks k' 0 = [0, 1]"
  using rt_mp_free_spec [OF mp_demo_sel(1-3,5) mp_demo_ok(1), where b = 0 and time = 0 and start = 0] by (auto simp: mp_demo_ok)

subsection \<open>A wait that times out\<close>

text \<open>
  C21.  When the only waiting thread times out, its call returns \<^verbatim>\<open>RT_NULL\<close> but leaves the count
  of waiting threads at one with an empty list: the next \<^verbatim>\<open>rt_mp_free\<close>, of whatever block, takes
  the head of the list for a thread.
\<close>

theorem rt_mp_timeout_breaks_free:
  assumes inv: "kinv k" and st: "stacks_ok k" and cur: "current k = Some c" and ok: "mp_ok k i"
    and l: "lst (thl k) (SuspendQ (OMempool i)) = [t]" and tm: "own (tml k) (ThreadTimer t) = None"
    and b: "b \<in> mp_held k i"
  shows "\<exists>k'. rt_thread_timeout t k = Some k' \<and> kinv k' \<and> lst (thl k') (SuspendQ (OMempool i)) = [] \<and>
    suspend_thread_count (mp k' i) = 1 \<and> rt_mp_alloc_return i time start t k' = Some (Some None, k') \<and>
    rt_mp_free i b k' = None"
proof -
  let ?q = "SuspendQ (OMempool i)"
  have wq: "wait_q ?q" by simp
  have s: "stat_of k t = RT_THREAD_SUSPEND" by (rule wait_q_suspended [OF inv wq]) (simp add: l)
  obtain k1 where k1: "rt_thread_timeout t k = rt_schedule k1" "kinv k1" "woken t k k1" "env_same k k1"
    "t_error (threads k1 t) = - RT_ETIMEOUT"
    by (rule timeout_wakes [OF inv s tm]) simp
  have st1: "stacks_ok k1" by (rule stacks_ok_env [OF st k1(4)]) (use woken_live [OF k1(3) s] in simp)
  have c1: "current k1 = Some c" using k1(3) cur by (simp add: woken_def)
  obtain k' where k': "rt_schedule k1 = Some k'" "kinv k'" "rescheduled k1 k'" "env_same k1 k'"
    and lq: "\<And>q. wait_q q \<Longrightarrow> lst (thl k') q = lst (thl k1) q"
    by (rule finish_schedule [OF k1(2) st1 c1]) blast
  have e: "lst (thl k') ?q = []" using lq [OF wq] woken_lists(1) [OF inv k1(3) l wq] by simp
  have r: "mp k' i = mp k i" using env_sameD(24) [OF k'(4)] env_sameD(24) [OF k1(4)] by simp
  have "unat (suspend_thread_count (mp k i)) = unat (1 :: u32)" using ok l by (simp add: mp_ok_def)
  then have n: "suspend_thread_count (mp k i) = 1" by (simp only: word_unat_eq_iff)
  have "t_error (threads k' t) = - RT_ETIMEOUT" using rescheduledD(4) [OF k'(3)] k1(5) by simp
  then have "rt_mp_alloc_return i time start t k' = Some (Some None, k')" by (simp add: rt_mp_alloc_return_def)
  moreover have "rt_mp_free i b k' = None"
    using mp_put_held(3) [OF ok b] e n by (simp add: rt_mp_free_def r)
  ultimately show ?thesis using k1(1) k'(1,2) e n r by simp
qed

theorem rt_mp_timeout_breaks_free_witness:
  "\<exists>k k'. rt_mp_alloc 2 (- 1) mp_demo = Some (None, k) \<and> rt_thread_timeout 0 k = Some k' \<and> rt_mp_free 2 0 k' = None"
proof -
  have run: "stat_of mp_demo 0 = RT_THREAD_RUNNING" "stat_of mp_demo 1 = RT_THREAD_READY"
    by (simp_all add: mp_demo_sel demo_stat)
  have few: "suspend_thread_count (mp mp_demo 2) + 1 \<noteq> 0" by (simp add: mp_demo_def)
  obtain k where k: "rt_mp_alloc 2 (- 1) mp_demo = Some (None, k)" "kinv k" "mp_ok k 2" "mp_held k 2 = {0}"
    "lst (thl k) (SuspendQ (OMempool 2)) = [0]" "stacks_ok k" "runs_highest k" "own (tml k) (ThreadTimer 0) = None"
    using mp_alloc_cases [OF mp_demo_sel(1-3) run(1) mp_demo_sel(4,5) run(2) mp_demo_ok(2) _ few, of "- 1"]
    by (auto simp: mp_demo_ok mp_demo_sel(7) demo_thl)
  then obtain c where c: "current k = Some c" by (auto simp: runs_highest_def)
  have "0 \<in> mp_held k 2" using k(4) by simp
  from rt_mp_timeout_breaks_free [OF k(2,6) c k(3,5,8) this] k(1) show ?thesis by blast
qed

end
