(* ===== verification/Completion.thy ===== *)
theory Completion
  imports Ipc
begin

text \<open>
  \<^verbatim>\<open>rt-thread/components/drivers/src/completion.c\<close>: a flag one thread waits for and anyone sets.
\<close>

subsection \<open>Operations\<close>

abbreviation (input) RT_COMPLETED :: u32 where "RT_COMPLETED \<equiv> 1"
abbreviation (input) RT_UNCOMPLETED :: u32 where "RT_UNCOMPLETED \<equiv> 0"

abbreviation cflag :: "kernel \<Rightarrow> oid \<Rightarrow> u32" where
  "cflag k i \<equiv> c_flag (completions (res k) i)"

definition set_cflag :: "oid \<Rightarrow> u32 \<Rightarrow> kernel \<Rightarrow> kernel" where
  "set_cflag i f k = k\<lparr>res := (res k)\<lparr>completions := (completions (res k))(i := \<lparr>c_flag = f\<rparr>)\<rparr>\<rparr>"

definition rt_completion_init :: "oid \<Rightarrow> kernel \<Rightarrow> kernel option" where
  "rt_completion_init i k =
     map_option snd (rt_ipc_object_init (CompletionQ i) (set_cflag i RT_UNCOMPLETED k))"

definition rt_completion_wait :: "oid \<Rightarrow> int \<Rightarrow> kernel \<Rightarrow> (int option \<times> kernel) option" where
  "rt_completion_wait i timeout k =
     (if cflag k i \<noteq> RT_COMPLETED
      then do {
        RT_ASSERT (lst (thl k) (CompletionQ i) = []);
        (if timeout = 0 then Some (Some (- RT_ETIMEOUT), k)
         else do {
           t \<leftarrow> rt_thread_self k;
           k1 \<leftarrow> wait_on (\<lambda>_. False) (CompletionQ i) t timeout (upd_thread t (\<lambda>th. th\<lparr>t_error := RT_EOK\<rparr>) k);
           RT_ASSERT (not_in_interrupt k1);
           k2 \<leftarrow> rt_schedule k1;
           Some (None, k2)
         })
      }
      else Some (Some RT_EOK, set_cflag i RT_UNCOMPLETED k))"

text \<open>The waiting thread \<open>t\<close> runs again: whatever woke it, the flag is cleared.\<close>

definition rt_completion_wait_return :: "oid \<Rightarrow> tid \<Rightarrow> kernel \<Rightarrow> int \<times> kernel" where
  "rt_completion_wait_return i t k = (t_error (threads k t), set_cflag i RT_UNCOMPLETED k)"

definition rt_completion_done :: "oid \<Rightarrow> kernel \<Rightarrow> kernel option" where
  "rt_completion_done i k =
     (if cflag k i = RT_COMPLETED then Some k
      else
        let k1 = set_cflag i RT_COMPLETED k
        in if lst (thl k1) (CompletionQ i) \<noteq> []
           then do { (_, k2) \<leftarrow> rt_ipc_list_resume (CompletionQ i) k1; rt_schedule k2 }
           else Some k1)"

subsection \<open>The handshake\<close>

lemma set_cflag_sel [simp]:
  "kinv (set_cflag i f k) = kinv k" "stacks_ok (set_cflag i f k) = stacks_ok k" "thl (set_cflag i f k) = thl k"
  "hdr (set_cflag i f k) = hdr k" "threads (set_cflag i f k) = threads k" "current (set_cflag i f k) = current k"
  "lock_nest (set_cflag i f k) = lock_nest k" "irq_nest (set_cflag i f k) = irq_nest k"
  "tml (set_cflag i f k) = tml k" "timers (set_cflag i f k) = timers k" "tick (set_cflag i f k) = tick k"
  "stat_of (set_cflag i f k) t = stat_of k t" "prio_of (set_cflag i f k) t = prio_of k t"
  "cflag (set_cflag i f k) j = (if j = i then f else cflag k j)"
  by (simp_all add: set_cflag_def)

lemma completion_wait_blocks:
  assumes inv: "kinv k" and st: "stacks_ok k" and cur: "current k = Some c" "stat_of k c = RT_THREAD_RUNNING"
    and irq: "irq_nest k = 0" and t: "timeout < 0x7fffffff" "timeout \<noteq> 0"
    and unc: "cflag k i \<noteq> RT_COMPLETED" and alone: "lst (thl k) (CompletionQ i) = []"
  obtains k1 where "rt_completion_wait i timeout k = Some (None, k1)" "kinv k1" "stacks_ok k1" "env_same k k1"
    "lst (thl k1) (CompletionQ i) = [c]" "stat_of k1 c = RT_THREAD_SUSPEND" "t_error (threads k1 c) = RT_EOK"
    "cflag k1 i \<noteq> RT_COMPLETED" "timeout < 0 \<Longrightarrow> own (tml k1) (ThreadTimer c) = None"
    "lock_nest k = 0 \<Longrightarrow> stat_of k u = RT_THREAD_READY \<Longrightarrow> runs_highest k1"
proof -
  have wq: "wait_q (CompletionQ i)" by simp
  obtain kw k1 where b: "wait_on (\<lambda>_. False) (CompletionQ i) c timeout (upd_thread c (\<lambda>th. th\<lparr>t_error := RT_EOK\<rparr>) k) = Some kw"
    "rt_schedule kw = Some k1" "kinv k1" "env_same k k1" "stacks_ok k1"
    "lst (thl k1) (CompletionQ i) = insert_at (\<lambda>_. False) c (lst (thl k) (CompletionQ i))"
    "stat_of k1 c = RT_THREAD_SUSPEND" "t_error (threads k1 c) = RT_EOK"
    "if timeout > 0 then ThreadTimer c \<in> set (lst (tml k1) HardT) \<and>
        timeout_tick (timers k1 (ThreadTimer c)) = tick k + of_int timeout
     else own (tml k1) (ThreadTimer c) = None"
    "lock_nest k = 0 \<Longrightarrow> stat_of k u = RT_THREAD_READY \<Longrightarrow> runs_highest k1"
    by (rule block_on_spec [OF inv st cur wq t(1), where u = u and before = "\<lambda>_. False"]) blast
  have "irq_nest kw = irq_nest k"
  proof -
    have "kinv (upd_thread c (\<lambda>th. th\<lparr>t_error := RT_EOK\<rparr>) k)" "current (upd_thread c (\<lambda>th. th\<lparr>t_error := RT_EOK\<rparr>) k) = Some c"
      "stat_of (upd_thread c (\<lambda>th. th\<lparr>t_error := RT_EOK\<rparr>) k) c = RT_THREAD_RUNNING"
      using inv cur by (simp_all add: kinv_set_error)
    from wait_on_spec [OF this wq t(1), of "\<lambda>_. False"] b(1) have "env_same (upd_thread c (\<lambda>th. th\<lparr>t_error := RT_EOK\<rparr>) k) kw" by auto
    from env_sameD(9) [OF this] show ?thesis by simp
  qed
  then have w: "rt_completion_wait i timeout k = Some (None, k1)"
    using unc alone t(2) b(1,2) cur irq by (simp add: rt_completion_wait_def rt_thread_self_def not_in_interrupt_def)
  have f: "cflag k1 i \<noteq> RT_COMPLETED" using env_sameD(24) [OF b(4)] unc by simp
  show ?thesis
    by (rule that [OF w b(3,5,4) _ b(7,8) f _ b(10)]) (use b(6,9) alone in auto)
qed

lemma completion_done_wakes:
  assumes inv: "kinv k" and st: "stacks_ok k" and cur: "current k = Some c"
    and unc: "cflag k i \<noteq> RT_COMPLETED" and l: "lst (thl k) (CompletionQ i) = t # ts"
  obtains k' where "rt_completion_done i k = Some k'" "kinv k'" "stacks_ok k'" "lst (thl k') (CompletionQ i) = ts"
    "stat_of k' t = RT_THREAD_READY \<or> stat_of k' t = RT_THREAD_RUNNING" "t_error (threads k' t) = t_error (threads k t)"
    "own (tml k') (ThreadTimer t) = None" "cflag k' i = RT_COMPLETED" "lock_nest k = 0 \<Longrightarrow> runs_highest k'"
proof -
  let ?k1 = "set_cflag i RT_COMPLETED k"
  have a: "kinv ?k1" "stacks_ok ?k1" "current ?k1 = Some c" "wait_q (CompletionQ i)" "lst (thl ?k1) (CompletionQ i) = t # ts"
    using inv st cur l by simp_all
  obtain k2 k' where k': "rt_ipc_list_resume (CompletionQ i) ?k1 = Some (RT_EOK, k2)" "rt_schedule k2 = Some k'" "kinv k'"
    "env_same ?k1 k'" "stacks_ok k'" "lst (thl k') (CompletionQ i) = ts"
    "stat_of k' t = RT_THREAD_READY \<or> stat_of k' t = RT_THREAD_RUNNING"
    "own (tml k') (ThreadTimer t) = None" "t_error (threads k' t) = t_error (threads ?k1 t)"
    "lock_nest ?k1 = 0 \<Longrightarrow> runs_highest k'"
    by (rule wake_head_spec [OF a]) blast
  have "cflag k' i = RT_COMPLETED" using env_sameD(24) [OF k'(4)] by simp
  moreover have "rt_completion_done i k = Some k'" using unc l k'(1,2) by (simp add: rt_completion_done_def)
  ultimately show ?thesis using that k'(3,5-10) by simp
qed

text \<open>
  One \<^verbatim>\<open>rt_completion_done\<close> ends one wait: the running thread waits for a completion that is
  not done and is suspended; a done by whichever thread runs next makes it ready; when it runs
  again its call returns \<^verbatim>\<open>RT_EOK\<close>, and the completion is undone again.
\<close>

theorem completion_handshake:
  assumes inv: "kinv k" and st: "stacks_ok k" and cur: "current k = Some c" "stat_of k c = RT_THREAD_RUNNING"
    and irq: "irq_nest k = 0" and lock: "lock_nest k = 0" and t: "timeout < 0x7fffffff" "timeout \<noteq> 0"
    and idle: "stat_of k u = RT_THREAD_READY" and unc: "cflag k i \<noteq> RT_COMPLETED" and alone: "lst (thl k) (CompletionQ i) = []"
  shows "\<exists>k1 k2 k3. rt_completion_wait i timeout k = Some (None, k1) \<and> stat_of k1 c = RT_THREAD_SUSPEND \<and> runs_highest k1 \<and>
     rt_completion_done i k1 = Some k2 \<and> (stat_of k2 c = RT_THREAD_READY \<or> stat_of k2 c = RT_THREAD_RUNNING) \<and>
     runs_highest k2 \<and> rt_completion_wait_return i c k2 = (RT_EOK, k3) \<and> kinv k3 \<and>
     cflag k3 i \<noteq> RT_COMPLETED \<and> lst (thl k3) (CompletionQ i) = []"
proof -
  obtain k1 where k1: "rt_completion_wait i timeout k = Some (None, k1)" "kinv k1" "stacks_ok k1" "env_same k k1"
    "lst (thl k1) (CompletionQ i) = [c]" "stat_of k1 c = RT_THREAD_SUSPEND" "t_error (threads k1 c) = RT_EOK"
    "cflag k1 i \<noteq> RT_COMPLETED" "runs_highest k1"
    by (rule completion_wait_blocks [OF inv st cur irq t unc alone, where u = u]) (use lock idle in simp)
  obtain c1 where c1: "current k1 = Some c1" using k1(9) by (auto simp: runs_highest_def)
  obtain k2 where k2: "rt_completion_done i k1 = Some k2" "kinv k2" "lst (thl k2) (CompletionQ i) = []"
    "stat_of k2 c = RT_THREAD_READY \<or> stat_of k2 c = RT_THREAD_RUNNING" "t_error (threads k2 c) = RT_EOK" "runs_highest k2"
    by (rule completion_done_wakes [OF k1(2,3) c1 k1(8,5)]) (use k1(7) env_sameD(8) [OF k1(4)] lock in simp)
  have "rt_completion_wait_return i c k2 = (RT_EOK, set_cflag i RT_UNCOMPLETED k2)"
    by (simp add: rt_completion_wait_return_def k2(5))
  with k1(1,6,9) k2(1-4,6) show ?thesis by (auto intro!: exI [of _ k1] exI [of _ k2])
qed

text \<open>
  A \<^verbatim>\<open>rt_completion_done\<close> that comes after the waiting thread has timed out, but before it
  runs again, is lost: the call returns \<^verbatim>\<open>-RT_ETIMEOUT\<close> and clears the flag the done has set.
\<close>

theorem completion_done_lost:
  assumes inv: "kinv k" and st: "stacks_ok k" and cur: "current k = Some c" and l: "lst (thl k) (CompletionQ i) = [t]"
    and tm: "own (tml k) (ThreadTimer t) = None" and unc: "cflag k i \<noteq> RT_COMPLETED"
  shows "\<exists>k1 k2 k3. rt_thread_timeout t k = Some k1 \<and> rt_completion_done i k1 = Some k2 \<and> cflag k2 i = RT_COMPLETED \<and>
     rt_completion_wait_return i t k2 = (- RT_ETIMEOUT, k3) \<and> cflag k3 i \<noteq> RT_COMPLETED"
proof -
  let ?q = "CompletionQ i"
  have wq: "wait_q ?q" by simp
  have s: "stat_of k t = RT_THREAD_SUSPEND" by (rule wait_q_suspended [OF inv wq]) (simp add: l)
  obtain k1 where k1: "rt_thread_timeout t k = rt_schedule k1" "kinv k1" "woken t k k1" "env_same k k1"
    "t_error (threads k1 t) = - RT_ETIMEOUT"
    by (rule timeout_wakes [OF inv s tm]) simp
  have st1: "stacks_ok k1" by (rule stacks_ok_env [OF st k1(4)]) (use woken_live [OF k1(3) s] in simp)
  have c1: "current k1 = Some c" using k1(3) cur by (simp add: woken_def)
  obtain k' where k': "rt_schedule k1 = Some k'" "rescheduled k1 k'" "env_same k1 k'"
    and lq: "\<And>q. wait_q q \<Longrightarrow> lst (thl k') q = lst (thl k1) q"
    by (rule finish_schedule [OF k1(2) st1 c1]) blast
  have "lst (thl k') ?q = []" using lq [OF wq] woken_lists(1) [OF inv k1(3) l wq] by simp
  moreover have "cflag k' i \<noteq> RT_COMPLETED" using env_sameD(24) [OF k1(4)] env_sameD(24) [OF k'(3)] unc by simp
  ultimately have "rt_completion_done i k' = Some (set_cflag i RT_COMPLETED k')" by (simp add: rt_completion_done_def)
  moreover have "t_error (threads k' t) = - RT_ETIMEOUT" using rescheduledD(4) [OF k'(2)] k1(5) by simp
  ultimately show ?thesis using k1(1) k'(1) by (simp add: rt_completion_wait_return_def)
qed

theorem completion_handshake_witness:
  "\<exists>k1 k2 k3. rt_completion_wait 0 10 ipc_demo = Some (None, k1) \<and> rt_completion_done 0 k1 = Some k2 \<and>
     rt_completion_wait_return 0 0 k2 = (RT_EOK, k3) \<and> cflag k3 0 \<noteq> RT_COMPLETED"
proof -
  have a: "stat_of ipc_demo 0 = RT_THREAD_RUNNING" "stat_of ipc_demo 1 = RT_THREAD_READY"
    "cflag ipc_demo 0 \<noteq> RT_COMPLETED" "lst (thl ipc_demo) (CompletionQ 0) = []"
    by (simp_all add: ipc_demo_stat demo_stat ipc_demo_sel demo_thl) (simp add: zero_kernel_def)
  from completion_handshake [OF ipc_demo_kinv ipc_demo_stacks ipc_demo_sel(1) a(1) ipc_demo_sel(4,5) _ _ a(2,3,4), of 10]
  show ?thesis by (simp, blast)
qed

theorem completion_done_lost_witness:
  "\<exists>k k1 k2 k3. rt_completion_wait 0 (- 1) ipc_demo = Some (None, k) \<and> rt_thread_timeout 0 k = Some k1 \<and>
     rt_completion_done 0 k1 = Some k2 \<and> rt_completion_wait_return 0 0 k2 = (- RT_ETIMEOUT, k3) \<and> cflag k3 0 \<noteq> RT_COMPLETED"
proof -
  have a: "stat_of ipc_demo 0 = RT_THREAD_RUNNING" "stat_of ipc_demo 1 = RT_THREAD_READY"
    "cflag ipc_demo 0 \<noteq> RT_COMPLETED" "lst (thl ipc_demo) (CompletionQ 0) = []"
    by (simp_all add: ipc_demo_stat demo_stat ipc_demo_sel demo_thl) (simp add: zero_kernel_def)
  obtain k where k: "rt_completion_wait 0 (- 1) ipc_demo = Some (None, k)" "kinv k" "stacks_ok k"
    "lst (thl k) (CompletionQ 0) = [0]" "cflag k 0 \<noteq> RT_COMPLETED" "own (tml k) (ThreadTimer 0) = None" "runs_highest k"
    by (rule completion_wait_blocks [OF ipc_demo_kinv ipc_demo_stacks ipc_demo_sel(1) a(1) ipc_demo_sel(4) _ _ a(3,4),
        where u = 1 and timeout = "- 1"]) (use a(2) ipc_demo_sel(5) in simp_all)
  obtain c where c: "current k = Some c" using k(7) by (auto simp: runs_highest_def)
  from completion_done_lost [OF k(2,3) c k(4,6,5)] k(1) show ?thesis by blast
qed

end
