(* ===== verification/Dataqueue.thy ===== *)
theory Dataqueue
  imports Ipc Fifo
begin

text \<open>
  \<^verbatim>\<open>rt-thread/components/drivers/src/dataqueue.c\<close>: a bounded queue of pointers on which threads
  wait in both directions.  The two indices run on without being reduced; \<open>cb i event\<close> is what
  the callback of queue \<open>i\<close> does.
\<close>

subsection \<open>Operations\<close>

abbreviation (input) RT_DATAQUEUE_EVENT_POP :: u32 where "RT_DATAQUEUE_EVENT_POP \<equiv> 1"
abbreviation (input) RT_DATAQUEUE_EVENT_PUSH :: u32 where "RT_DATAQUEUE_EVENT_PUSH \<equiv> 2"
abbreviation (input) RT_DATAQUEUE_EVENT_LWM :: u32 where "RT_DATAQUEUE_EVENT_LWM \<equiv> 3"

abbreviation dq :: "kernel \<Rightarrow> oid \<Rightarrow> rt_data_queue" where
  "dq k \<equiv> data_queues (res k)"

definition upd_dq :: "oid \<Rightarrow> (rt_data_queue \<Rightarrow> rt_data_queue) \<Rightarrow> kernel \<Rightarrow> kernel" where
  "upd_dq i f k = k\<lparr>res := (res k)\<lparr>data_queues := (dq k)(i := f (dq k i))\<rparr>\<rparr>"

text \<open>C computes the difference of the \<^verbatim>\<open>rt_uint16_t\<close> indices as \<^verbatim>\<open>int\<close>.\<close>

definition dq_used :: "rt_data_queue \<Rightarrow> int" where
  "dq_used q = uint (put_index q) - uint (get_index q)"

text \<open>\<open>mem\<close> is what \<^verbatim>\<open>rt_malloc\<close> returns: \<open>n\<close> uninitialised items.\<close>

definition rt_data_queue_init ::
  "oid \<Rightarrow> u16 \<Rightarrow> u16 \<Rightarrow> bool \<Rightarrow> rt_data_item list option \<Rightarrow> kernel \<Rightarrow> (int \<times> kernel) option" where
  "rt_data_queue_init i n lw notify mem k =
     do {
       let k1 = upd_dq i (\<lambda>q. q\<lparr>evt_notify := notify, dq_size := n, lwm := lw, get_index := 0, put_index := 0\<rparr>) k;
       (_, k2) \<leftarrow> rt_ipc_object_init (PushQ i) k1;
       (_, k3) \<leftarrow> rt_ipc_object_init (PopQ i) k2;
       (case mem of
          None \<Rightarrow> Some (- RT_ENOMEM, k3)
        | Some items \<Rightarrow> Some (RT_EOK, upd_dq i (\<lambda>q. q\<lparr>dq_items := items\<rparr>) k3))
     }"

definition dq_notify :: "(oid \<Rightarrow> u32 \<Rightarrow> kernel \<Rightarrow> kernel option) \<Rightarrow> oid \<Rightarrow> u32 \<Rightarrow> kernel \<Rightarrow> kernel option" where
  "dq_notify cb i event k = (if evt_notify (dq k i) then cb i event k else Some k)"

text \<open>Storing at \<^verbatim>\<open>put_index % size\<close> and loading from \<^verbatim>\<open>get_index % size\<close>; a size of 0 divides by zero.\<close>

definition dq_store :: "rt_data_item \<Rightarrow> rt_data_queue \<Rightarrow> rt_data_queue option" where
  "dq_store x q =
     (let j = unat (put_index q mod dq_size q)
      in if dq_size q \<noteq> 0 \<and> j < length (dq_items q)
         then Some (q\<lparr>dq_items := (dq_items q)[j := x], put_index := put_index q + 1\<rparr>) else None)"

definition dq_front :: "rt_data_queue \<Rightarrow> rt_data_item option" where
  "dq_front q =
     (let j = unat (get_index q mod dq_size q)
      in if dq_size q \<noteq> 0 \<and> j < length (dq_items q) then Some (dq_items q ! j) else None)"

text \<open>From the test of the \<^verbatim>\<open>while\<close> to the end, or to the \<^verbatim>\<open>rt_schedule\<close> of a wait.\<close>

definition dq_push_loop ::
  "(oid \<Rightarrow> u32 \<Rightarrow> kernel \<Rightarrow> kernel option) \<Rightarrow> oid \<Rightarrow> rt_data_item \<Rightarrow> int \<Rightarrow> kernel \<Rightarrow> (int option \<times> kernel) option" where
  "dq_push_loop cb i x timeout k =
     (if dq_used (dq k i) = uint (dq_size (dq k i))
      then if timeout = 0 then Some (Some (- RT_ETIMEOUT), k)
      else do {
        RT_ASSERT (not_in_interrupt k);
        t \<leftarrow> rt_thread_self k;
        k1 \<leftarrow> wait_on (\<lambda>_. False) (PushQ i) t timeout (upd_thread t (\<lambda>th. th\<lparr>t_error := RT_EOK\<rparr>) k);
        k2 \<leftarrow> rt_schedule k1;
        Some (None, k2)
      }
      else do {
        q \<leftarrow> dq_store x (dq k i);
        let k1 = upd_dq i (\<lambda>_. q) k;
        (if lst (thl k1) (PopQ i) \<noteq> []
         then do {
           (_, k2) \<leftarrow> rt_ipc_list_resume (PopQ i) k1;
           k3 \<leftarrow> rt_schedule k2;
           Some (Some RT_EOK, k3)
         }
         else do { k2 \<leftarrow> dq_notify cb i RT_DATAQUEUE_EVENT_PUSH k1; Some (Some RT_EOK, k2) })
      })"

definition rt_data_queue_push ::
  "(oid \<Rightarrow> u32 \<Rightarrow> kernel \<Rightarrow> kernel option) \<Rightarrow> oid \<Rightarrow> rt_data_item \<Rightarrow> int \<Rightarrow> kernel \<Rightarrow> (int option \<times> kernel) option" where
  "rt_data_queue_push cb i x timeout k = dq_push_loop cb i x timeout k"

text \<open>After a wait the loop goes on with the whole waiting time again.\<close>

definition rt_data_queue_push_return ::
  "(oid \<Rightarrow> u32 \<Rightarrow> kernel \<Rightarrow> kernel option) \<Rightarrow> oid \<Rightarrow> rt_data_item \<Rightarrow> int \<Rightarrow> tid \<Rightarrow> kernel \<Rightarrow> (int option \<times> kernel) option" where
  "rt_data_queue_push_return cb i x timeout t k =
     (if t_error (threads k t) \<noteq> RT_EOK then Some (Some (t_error (threads k t)), k)
      else dq_push_loop cb i x timeout k)"

definition dq_pop_loop ::
  "(oid \<Rightarrow> u32 \<Rightarrow> kernel \<Rightarrow> kernel option) \<Rightarrow> oid \<Rightarrow> int \<Rightarrow> kernel \<Rightarrow> (int option \<times> rt_data_item option \<times> kernel) option" where
  "dq_pop_loop cb i timeout k =
     (if get_index (dq k i) = put_index (dq k i)
      then if timeout = 0 then Some (Some (- RT_ETIMEOUT), None, k)
      else do {
        RT_ASSERT (not_in_interrupt k);
        t \<leftarrow> rt_thread_self k;
        k1 \<leftarrow> wait_on (\<lambda>_. False) (PopQ i) t timeout (upd_thread t (\<lambda>th. th\<lparr>t_error := RT_EOK\<rparr>) k);
        k2 \<leftarrow> rt_schedule k1;
        Some (None, None, k2)
      }
      else do {
        x \<leftarrow> dq_front (dq k i);
        let k1 = upd_dq i (\<lambda>q. q\<lparr>get_index := get_index q + 1\<rparr>) k;
        (if dq_used (dq k1 i) \<le> uint (lwm (dq k1 i))
         then do {
           k2 \<leftarrow> (if lst (thl k1) (PushQ i) \<noteq> []
                  then do { (_, k2) \<leftarrow> rt_ipc_list_resume (PushQ i) k1; rt_schedule k2 }
                  else Some k1);
           k3 \<leftarrow> dq_notify cb i RT_DATAQUEUE_EVENT_LWM k2;
           Some (Some RT_EOK, Some x, k3)
         }
         else do { k2 \<leftarrow> dq_notify cb i RT_DATAQUEUE_EVENT_POP k1; Some (Some RT_EOK, Some x, k2) })
      })"

definition rt_data_queue_pop ::
  "(oid \<Rightarrow> u32 \<Rightarrow> kernel \<Rightarrow> kernel option) \<Rightarrow> oid \<Rightarrow> int \<Rightarrow> kernel \<Rightarrow> (int option \<times> rt_data_item option \<times> kernel) option" where
  "rt_data_queue_pop cb i timeout k = dq_pop_loop cb i timeout k"

definition rt_data_queue_pop_return ::
  "(oid \<Rightarrow> u32 \<Rightarrow> kernel \<Rightarrow> kernel option) \<Rightarrow> oid \<Rightarrow> int \<Rightarrow> tid \<Rightarrow> kernel \<Rightarrow> (int option \<times> rt_data_item option \<times> kernel) option" where
  "rt_data_queue_pop_return cb i timeout t k =
     (if t_error (threads k t) \<noteq> RT_EOK then Some (Some (t_error (threads k t)), None, k)
      else dq_pop_loop cb i timeout k)"

definition rt_data_queue_peak :: "oid \<Rightarrow> kernel \<Rightarrow> (int \<times> rt_data_item option) option" where
  "rt_data_queue_peak i k =
     (if get_index (dq k i) = put_index (dq k i) then Some (- RT_EEMPTY, None)
      else do { x \<leftarrow> dq_front (dq k i); Some (RT_EOK, Some x) })"

definition rt_data_queue_reset :: "oid \<Rightarrow> kernel \<Rightarrow> kernel option" where
  "rt_data_queue_reset i k =
     do {
       k1 \<leftarrow> rt_ipc_list_resume_all (PopQ i) (rt_enter_critical k);
       k2 \<leftarrow> rt_ipc_list_resume_all (PushQ i) k1;
       k3 \<leftarrow> rt_exit_critical k2;
       rt_schedule k3
     }"

subsection \<open>The queue as a ring\<close>

text \<open>
  As long as the put index has not wrapped around, the stored items are those between the
  indices.
\<close>

definition dq_wf :: "rt_data_queue \<Rightarrow> bool" where
  "dq_wf q \<longleftrightarrow> dq_size q \<noteq> 0 \<and> length (dq_items q) = unat (dq_size q) \<and> get_index q \<le> put_index q \<and>
     unat (put_index q) - unat (get_index q) \<le> unat (dq_size q)"

definition dq_contents :: "rt_data_queue \<Rightarrow> rt_data_item list" where
  "dq_contents q = ring_slice (dq_items q) (unat (dq_size q)) (unat (get_index q)) (unat (put_index q) - unat (get_index q))"

lemma length_dq_contents [simp]: "length (dq_contents q) = unat (put_index q) - unat (get_index q)"
  by (simp add: dq_contents_def)

lemma dq_wfD:
  assumes "dq_wf q"
  shows "unat (get_index q) \<le> unat (put_index q)" "0 < unat (dq_size q)" "dq_size q \<noteq> 0"
    "length (dq_items q) = unat (dq_size q)" "length (dq_contents q) \<le> unat (dq_size q)"
    "dq_used q = int (length (dq_contents q))"
    "get_index q = put_index q \<longleftrightarrow> dq_contents q = []"
proof -
  show le: "unat (get_index q) \<le> unat (put_index q)" "0 < unat (dq_size q)" "dq_size q \<noteq> 0"
    "length (dq_items q) = unat (dq_size q)" "length (dq_contents q) \<le> unat (dq_size q)"
    using assms by (simp_all add: dq_wf_def word_le_nat_alt unat_gt_0)
  show "dq_used q = int (length (dq_contents q))"
    using le(1) uint_nat [of "put_index q"] uint_nat [of "get_index q"] by (simp add: dq_used_def)
  show "get_index q = put_index q \<longleftrightarrow> dq_contents q = []"
    using le(1) by (auto simp: dq_contents_def word_unat_eq_iff)
qed

lemma dq_full_iff: "dq_wf q \<Longrightarrow> dq_used q = uint (dq_size q) \<longleftrightarrow> length (dq_contents q) = unat (dq_size q)"
  using dq_wfD(6) [of q] uint_nat [of "dq_size q"] by linarith

lemma dq_store_spec:
  assumes wf: "dq_wf q" and room: "length (dq_contents q) < unat (dq_size q)" and p: "put_index q \<noteq> 0xffff"
  obtains q' where "dq_store x q = Some q'" "dq_wf q'" "dq_contents q' = dq_contents q @ [x]" "dq_size q' = dq_size q"
    "evt_notify q' = evt_notify q" "put_index q' = put_index q + 1"
proof -
  note w = dq_wfD [OF wf]
  let ?j = "unat (put_index q) mod unat (dq_size q)"
  let ?q = "q\<lparr>dq_items := (dq_items q)[?j := x], put_index := put_index q + 1\<rparr>"
  have "unat (put_index q) < 2 ^ 16" using unsigned_less [of "put_index q"] by simp
  moreover have "unat (put_index q) \<noteq> 65535" using p by (simp add: word_unat_eq_iff)
  ultimately have u: "unat (put_index q + 1) = Suc (unat (put_index q))" by (simp add: unat_word_ariths)
  have s: "dq_store x q = Some ?q" using w by (simp add: dq_store_def unat_mod)
  have j: "?j = (unat (get_index q) + length (dq_contents q)) mod unat (dq_size q)" using w(1) by simp
  have c: "dq_contents ?q = dq_contents q @ [x]"
    using ring_slice_put [of "length (dq_contents q)" "unat (dq_size q)" "dq_items q" "unat (get_index q)" x] room w u
    by (simp add: dq_contents_def Suc_diff_le)
  have "dq_wf ?q" using wf w(1) room u by (auto simp: dq_wf_def word_le_nat_alt)
  with s c show ?thesis using that by simp
qed

lemma dq_front_spec:
  assumes wf: "dq_wf q" and c: "dq_contents q = x # xs"
  shows "dq_front q = Some x" "dq_wf (q\<lparr>get_index := get_index q + 1\<rparr>)"
    "dq_contents (q\<lparr>get_index := get_index q + 1\<rparr>) = xs"
proof -
  note w = dq_wfD [OF wf]
  have lt: "unat (get_index q) < unat (put_index q)" using c length_dq_contents [of q] by simp
  moreover have "unat (put_index q) < 2 ^ 16" using unsigned_less [of "put_index q"] by simp
  ultimately have u: "unat (get_index q + 1) = Suc (unat (get_index q))" by (simp add: unat_word_ariths)
  have d: "unat (put_index q) - unat (get_index q) = Suc (unat (put_index q) - Suc (unat (get_index q)))" using lt by simp
  have "dq_contents q = dq_items q ! (unat (get_index q) mod unat (dq_size q)) #
      ring_slice (dq_items q) (unat (dq_size q)) (Suc (unat (get_index q))) (unat (put_index q) - Suc (unat (get_index q)))"
    unfolding dq_contents_def d ring_slice_get [OF w(2)] by (simp add: ring_slice_mod)
  then show "dq_front q = Some x" "dq_contents (q\<lparr>get_index := get_index q + 1\<rparr>) = xs"
    using c w u by (simp_all add: dq_front_def unat_mod) (simp add: dq_contents_def u)
  show "dq_wf (q\<lparr>get_index := get_index q + 1\<rparr>)" using wf lt u by (auto simp: dq_wf_def word_le_nat_alt)
qed

subsection \<open>Push and pop in the kernel\<close>

lemma upd_dq_sel [simp]:
  "kinv (upd_dq i f k) = kinv k" "stacks_ok (upd_dq i f k) = stacks_ok k" "thl (upd_dq i f k) = thl k"
  "hdr (upd_dq i f k) = hdr k" "threads (upd_dq i f k) = threads k" "current (upd_dq i f k) = current k"
  "lock_nest (upd_dq i f k) = lock_nest k" "irq_nest (upd_dq i f k) = irq_nest k"
  "tml (upd_dq i f k) = tml k" "timers (upd_dq i f k) = timers k" "tick (upd_dq i f k) = tick k"
  "stat_of (upd_dq i f k) t = stat_of k t" "prio_of (upd_dq i f k) t = prio_of k t"
  "dq (upd_dq i f k) j = (if j = i then f (dq k i) else dq k j)"
  by (simp_all add: upd_dq_def)

lemma moved_upd_dq [simp]: "moved q (upd_dq i f k) k' = moved q k k'"
  by (simp add: moved_def cong: list.case_cong)

lemma dq_push_room:
  assumes inv: "kinv k" and st: "stacks_ok k" and cur: "current k = Some c" and n: "\<not> evt_notify (dq k i)"
    and s: "dq_used (dq k i) \<noteq> uint (dq_size (dq k i))" "dq_store x (dq k i) = Some q" "evt_notify q = evt_notify (dq k i)"
  obtains k' where "dq_push_loop cb i x timeout k = Some (Some RT_EOK, k')" "kinv k'" "stacks_ok k'"
    "moved (PopQ i) k k'" "dq k' i = q" "lst (thl k) (PopQ i) = [] \<Longrightarrow> k' = upd_dq i (\<lambda>_. q) k"
proof -
  let ?k1 = "upd_dq i (\<lambda>_. q) k"
  have a: "kinv ?k1" "stacks_ok ?k1" "current ?k1 = Some c" "wait_q (PopQ i)" using inv st cur by simp_all
  obtain k' where k': "kinv k'" "stacks_ok k'" "moved (PopQ i) ?k1 k'" "env_same ?k1 k'"
    and e: "lst (thl ?k1) (PopQ i) = [] \<Longrightarrow> k' = ?k1"
    and w: "lst (thl ?k1) (PopQ i) \<noteq> [] \<Longrightarrow> \<exists>k2. rt_ipc_list_resume (PopQ i) ?k1 = Some (RT_EOK, k2) \<and> rt_schedule k2 = Some k'"
    by (rule wake_end [OF a]) blast
  have d: "dq k' i = q" using env_sameD(24) [OF k'(4)] by simp
  have "dq_push_loop cb i x timeout k = Some (Some RT_EOK, k')"
    using s n e w by (cases "lst (thl k) (PopQ i)") (auto simp: dq_push_loop_def dq_notify_def)
  then show ?thesis using that k'(1-3) d e by simp
qed

lemma dq_pop_some:
  assumes inv: "kinv k" and st: "stacks_ok k" and cur: "current k = Some c" and n: "\<not> evt_notify (dq k i)"
    and wf: "dq_wf (dq k i)" and c: "dq_contents (dq k i) = x # xs"
  obtains k' where "dq_pop_loop cb i timeout k = Some (Some RT_EOK, Some x, k')" "kinv k'" "stacks_ok k'" "current k' \<noteq> None"
    "dq k' i = (dq k i)\<lparr>get_index := get_index (dq k i) + 1\<rparr>"
    "if length xs \<le> unat (lwm (dq k i)) then moved (PushQ i) k k' else thl k' = thl k \<and> threads k' = threads k"
proof -
  let ?q = "(dq k i)\<lparr>get_index := get_index (dq k i) + 1\<rparr>"
  let ?k1 = "upd_dq i (\<lambda>q. q\<lparr>get_index := get_index q + 1\<rparr>) k"
  note f = dq_front_spec [OF wf c]
  have ne: "get_index (dq k i) \<noteq> put_index (dq k i)" using dq_wfD(7) [OF wf] c by simp
  have u: "dq_used ?q \<le> uint (lwm (dq k i)) \<longleftrightarrow> length xs \<le> unat (lwm (dq k i))"
    using dq_wfD(6) [OF f(2)] uint_nat [of "lwm (dq k i)"] unfolding f(3) by linarith
  have a: "kinv ?k1" "stacks_ok ?k1" "current ?k1 = Some c" "wait_q (PushQ i)" using inv st cur by simp_all
  show ?thesis
  proof (cases "length xs \<le> unat (lwm (dq k i))")
    case False
    then have "dq_pop_loop cb i timeout k = Some (Some RT_EOK, Some x, ?k1)"
      using ne f(1) u n by (simp add: dq_pop_loop_def dq_notify_def)
    then show ?thesis using that [of ?k1] a False by simp
  next
    case True
    obtain k' where k': "kinv k'" "stacks_ok k'" "moved (PushQ i) ?k1 k'" "env_same ?k1 k'"
      and e: "lst (thl ?k1) (PushQ i) = [] \<Longrightarrow> k' = ?k1"
      and w: "lst (thl ?k1) (PushQ i) \<noteq> [] \<Longrightarrow> \<exists>k2. rt_ipc_list_resume (PushQ i) ?k1 = Some (RT_EOK, k2) \<and> rt_schedule k2 = Some k'"
      by (rule wake_end [OF a]) blast
    have d: "dq k' i = ?q" using env_sameD(24) [OF k'(4)] by simp
    have "dq_pop_loop cb i timeout k = Some (Some RT_EOK, Some x, k')"
      using ne f(1) u n True e w d
      by (cases "lst (thl k) (PushQ i)") (auto simp: dq_pop_loop_def dq_notify_def)
    moreover have m: "moved (PushQ i) k k'" using k'(3) by (simp only: moved_upd_dq)
    moreover have "current k' \<noteq> None" using m by (simp add: moved_def)
    ultimately show ?thesis using that [of k'] k'(1,2) d True by simp
  qed
qed

subsection \<open>Runs without waiting\<close>

text \<open>
  By their results and with the state they leave; any other result than these is \<open>None\<close>.
\<close>

definition dq_offer :: "(oid \<Rightarrow> u32 \<Rightarrow> kernel \<Rightarrow> kernel option) \<Rightarrow> oid \<Rightarrow> rt_data_item \<Rightarrow> kernel \<Rightarrow> (bool \<times> kernel) option" where
  "dq_offer cb i x k =
     (case rt_data_queue_push cb i x 0 k of
        Some (Some e, k') \<Rightarrow> if e = RT_EOK then Some (True, k') else if e = - RT_ETIMEOUT then Some (False, k') else None
      | _ \<Rightarrow> None)"

definition dq_fetch :: "(oid \<Rightarrow> u32 \<Rightarrow> kernel \<Rightarrow> kernel option) \<Rightarrow> oid \<Rightarrow> kernel \<Rightarrow> (rt_data_item option \<times> kernel) option" where
  "dq_fetch cb i k =
     (case rt_data_queue_pop cb i 0 k of
        Some (Some e, r, k') \<Rightarrow>
          if e = RT_EOK \<and> r \<noteq> None \<or> e = - RT_ETIMEOUT \<and> r = None then Some (r, k') else None
      | _ \<Rightarrow> None)"

text \<open>A queue without callback whose put index does not wrap around in the next \<open>n\<close> pushes.\<close>

definition dq_good :: "oid \<Rightarrow> nat \<Rightarrow> kernel \<Rightarrow> bool" where
  "dq_good i n k \<longleftrightarrow> kinv k \<and> stacks_ok k \<and> current k \<noteq> None \<and> dq_wf (dq k i) \<and> \<not> evt_notify (dq k i) \<and>
     unat (put_index (dq k i)) + n < 2 ^ 16"

interpretation dq: bounded_fifo "dq_offer cb i" "dq_fetch cb i" "\<lambda>k. dq_contents (dq k i)"
  "\<lambda>k. unat (dq_size (dq k i))" "\<lambda>_ _. True" "dq_good i" for cb i
proof (unfold_locales, goal_cases)
  case (1 n k)
  then show ?case using dq_wfD(5) [of "dq k i"] by (simp add: dq_good_def)
next
  case (2 n k x)
  then show ?case using dq_full_iff [of "dq k i"]
    by (simp add: dq_good_def dq_offer_def rt_data_queue_push_def dq_push_loop_def)
next
  case (3 n k x)
  then obtain c where c: "kinv k" "stacks_ok k" "current k = Some c" "\<not> evt_notify (dq k i)" and wf: "dq_wf (dq k i)"
    and lt: "unat (put_index (dq k i)) + Suc n < 2 ^ 16" by (auto simp: dq_good_def)
  have nf: "dq_used (dq k i) \<noteq> uint (dq_size (dq k i))" using dq_full_iff [OF wf] 3(2) by simp
  have p: "put_index (dq k i) \<noteq> 0xffff" using lt by auto
  from dq_store_spec [OF wf 3(2) p, of x] obtain q where q: "dq_store x (dq k i) = Some q" "dq_wf q"
    "dq_contents q = dq_contents (dq k i) @ [x]" "dq_size q = dq_size (dq k i)" "evt_notify q = evt_notify (dq k i)"
    "put_index q = put_index (dq k i) + 1" .
  obtain k' where k': "dq_push_loop cb i x 0 k = Some (Some RT_EOK, k')" "kinv k'" "stacks_ok k'"
    "moved (PopQ i) k k'" "dq k' i = q"
    by (rule dq_push_room [OF c nf q(1,5)]) blast
  have "unat (put_index (dq k i) + 1) = Suc (unat (put_index (dq k i)))" using lt by (simp add: unat_word_ariths)
  then have "dq_good i n k'" using k' q(2,5,6) c(4) lt by (simp add: dq_good_def moved_def)
  then show ?case using k'(1,5) q(3,4) by (simp add: dq_offer_def rt_data_queue_push_def)
next
  case (4 n k)
  then show ?case using dq_wfD(7) [of "dq k i"]
    by (simp add: dq_good_def dq_fetch_def rt_data_queue_pop_def dq_pop_loop_def)
next
  case (5 n k x xs)
  then obtain c where c: "kinv k" "stacks_ok k" "current k = Some c" "\<not> evt_notify (dq k i)" and wf: "dq_wf (dq k i)"
    and lt: "unat (put_index (dq k i)) + n < 2 ^ 16" by (auto simp: dq_good_def)
  obtain k' where k': "dq_pop_loop cb i 0 k = Some (Some RT_EOK, Some x, k')" "kinv k'" "stacks_ok k'" "current k' \<noteq> None"
    "dq k' i = (dq k i)\<lparr>get_index := get_index (dq k i) + 1\<rparr>"
    by (rule dq_pop_some [OF c wf 5(2)]) blast
  note f = dq_front_spec [OF wf 5(2)]
  have "dq_good i n k'" using k' f(2) c(4) lt by (simp add: dq_good_def)
  then show ?case using k'(1,5) f(3) by (simp add: dq_fetch_def rt_data_queue_pop_def)
qed

text \<open>
  C22.  Any run of \<^verbatim>\<open>rt_data_queue_push\<close> and \<^verbatim>\<open>rt_data_queue_pop\<close> without waiting time on a queue
  without callback returns what a list of at most \<^verbatim>\<open>size\<close> items returns, and leaves its contents,
  provided the put index does not run past 65535; every call goes on from the state the one before
  has left, also when that one was refused.
\<close>

theorem dq_run_refines_queue:
  assumes "dq_good i (length (offered ops)) k"
  shows "\<exists>k'. fifo_run (dq_offer cb i) (dq_fetch cb i) ops k =
      Some (fst (queue_run (unat (dq_size (dq k i))) ops (dq_contents (dq k i))), k') \<and>
    dq_contents (dq k' i) = snd (queue_run (unat (dq_size (dq k i))) ops (dq_contents (dq k i))) \<and> kinv k'"
  using dq.run_refines [OF assms, of cb] by (auto simp: dq_good_def)

text \<open>One push after the wrap.\<close>

lemma dq_wrapped_push:
  assumes inv: "kinv k" and st: "stacks_ok k" and cur: "current k = Some c" and nt: "\<not> evt_notify (dq k i)"
    and alone: "lst (thl k) (PopQ i) = []" and l: "length (dq_items (dq k i)) = unat (dq_size (dq k i))" "dq_size (dq k i) \<noteq> 0"
    and idx: "get_index (dq k i) = 0xffff" "unat (put_index (dq k i) + 1) \<le> 65535"
  shows "\<exists>q. dq_offer cb i x k = Some (True, upd_dq i (\<lambda>_. q) k) \<and> dq_size q = dq_size (dq k i) \<and>
    length (dq_items q) = unat (dq_size q) \<and> \<not> evt_notify q \<and> get_index q = 0xffff \<and> put_index q = put_index (dq k i) + 1"
proof -
  let ?j = "unat (put_index (dq k i) mod dq_size (dq k i))"
  let ?q = "(dq k i)\<lparr>dq_items := (dq_items (dq k i))[?j := x], put_index := put_index (dq k i) + 1\<rparr>"
  have "?j < unat (dq_size (dq k i))" using l(2) by (simp add: unat_mod unat_gt_0)
  then have s: "dq_store x (dq k i) = Some ?q" using l by (simp add: dq_store_def)
  have "uint (put_index (dq k i)) < 2 ^ 16" using unsigned_less [of "put_index (dq k i)"] by simp
  moreover have "0 < uint (dq_size (dq k i))" using l(2) by (metis uint_nat unat_gt_0 of_nat_0_less_iff)
  ultimately have nf: "dq_used (dq k i) \<noteq> uint (dq_size (dq k i))" by (simp add: dq_used_def idx(1))
  have "evt_notify ?q = evt_notify (dq k i)" by simp
  then have "dq_push_loop cb i x 0 k = Some (Some RT_EOK, upd_dq i (\<lambda>_. ?q) k)"
    by (rule dq_push_room [OF inv st cur nt nf s, of cb 0]) (use alone in simp)
  then show ?thesis using alone l nt idx(1) by (intro exI [of _ ?q]) (simp add: dq_offer_def rt_data_queue_push_def)
qed

lemma dq_wrapped_run:
  assumes "kinv k" "stacks_ok k" "current k = Some c" "\<not> evt_notify (dq k i)" "lst (thl k) (PopQ i) = []"
    "length (dq_items (dq k i)) = unat (dq_size (dq k i))" "dq_size (dq k i) \<noteq> 0" "get_index (dq k i) = 0xffff"
    "put_index (dq k i) = of_nat n - 1" "n + length xs \<le> 65535"
  shows "map_option fst (fifo_run (dq_offer cb i) (dq_fetch cb i) (map Offer xs) k) = Some (replicate (length xs) Accepted)"
  using assms
proof (induction xs arbitrary: k n)
  case Nil
  then show ?case by simp
next
  case (Cons x xs)
  have "unat (of_nat n :: u16) = n" using Cons.prems(10) by (simp add: unat_of_nat)
  then have "unat (put_index (dq k i) + 1) \<le> 65535" using Cons.prems(9,10) by simp
  from dq_wrapped_push [OF Cons.prems(1-8) this, of cb x] obtain q where
    q: "dq_offer cb i x k = Some (True, upd_dq i (\<lambda>_. q) k)" "dq_size q = dq_size (dq k i)" "length (dq_items q) = unat (dq_size q)"
      "\<not> evt_notify q" "get_index q = 0xffff" "put_index q = put_index (dq k i) + 1" by blast
  let ?k = "upd_dq i (\<lambda>_. q) k"
  have "map_option fst (fifo_run (dq_offer cb i) (dq_fetch cb i) (map Offer xs) ?k) = Some (replicate (length xs) Accepted)"
    by (rule Cons.IH [of ?k "Suc n"]) (use Cons.prems q in simp_all)
  with q(1) show ?case by auto
qed

text \<open>
  When the put index wraps around to 0 the queue never becomes full again: with both
  indices at 65535 any number of pushes up to 65535 succeeds, whatever the size of the queue, and
  the items overwrite each other.
\<close>

theorem dq_wrap_never_full:
  assumes "kinv k" "stacks_ok k" "current k = Some c" "\<not> evt_notify (dq k i)" "lst (thl k) (PopQ i) = []"
    and "length (dq_items (dq k i)) = unat (dq_size (dq k i))" "dq_size (dq k i) \<noteq> 0"
    and "get_index (dq k i) = 0xffff" "put_index (dq k i) = 0xffff" and "length xs \<le> 65535"
  shows "dq_contents (dq k i) = [] \<and>
    map_option fst (fifo_run (dq_offer cb i) (dq_fetch cb i) (map Offer xs) k) = Some (replicate (length xs) Accepted)"
proof -
  have "put_index (dq k i) = of_nat 0 - 1" "0 + length xs \<le> 65535" using assms(9,10) by simp_all
  from dq_wrapped_run [OF assms(1-8) this] assms(8,9) show ?thesis by (simp add: dq_contents_def)
qed

text \<open>Two queues of two items: one fresh, one after 65535 items have gone through it.\<close>

definition item :: "u32 \<Rightarrow> rt_data_item" where
  "item p = \<lparr>data_ptr = p, data_size = 1\<rparr>"

definition dq_demo :: kernel where
  "dq_demo = upd_dq 2 (\<lambda>_. \<lparr>dq_size = 2, lwm = 1, get_index = 0xffff, put_index = 0xffff, dq_items = [item 0, item 0],
       evt_notify = False\<rparr>)
    (upd_dq 0 (\<lambda>_. \<lparr>dq_size = 2, lwm = 1, get_index = 0, put_index = 0, dq_items = [item 0, item 0], evt_notify = False\<rparr>)
       ipc_demo)"

lemma dq_demo_sel: "kinv dq_demo" "stacks_ok dq_demo" "current dq_demo = Some 0" "thl dq_demo = thl demo_kernel"
  by (simp_all add: dq_demo_def ipc_demo_kinv ipc_demo_stacks ipc_demo_sel)

theorem dq_run_refines_queue_witness:
  "\<exists>k'. fifo_run (dq_offer (\<lambda>_ _. Some) 0) (dq_fetch (\<lambda>_ _. Some) 0)
     [Offer (item 1), Offer (item 2), Offer (item 3), Fetch, Offer (item 4), Fetch, Fetch, Fetch] dq_demo =
   Some ([Accepted, Accepted, Refused, Item (item 1), Accepted, Item (item 2), Item (item 4), Empty], k') \<and>
   dq_contents (dq k' 0) = []"
proof -
  let ?ops = "[Offer (item 1), Offer (item 2), Offer (item 3), Fetch, Offer (item 4), Fetch, Fetch, Fetch]"
  have g: "dq_good 0 (length (offered ?ops)) dq_demo"
    by (simp add: dq_good_def dq_demo_sel) (simp add: dq_demo_def dq_wf_def)
  have n: "unat (dq_size (dq dq_demo 0)) = 2" "dq_contents (dq dq_demo 0) = []" by (simp_all add: dq_demo_def dq_contents_def)
  have q: "queue_run 2 ?ops [] =
      ([Accepted, Accepted, Refused, Item (item 1), Accepted, Item (item 2), Item (item 4), Empty], [])" by simp
  from dq_run_refines_queue [OF g, of "\<lambda>_ _. Some", unfolded n q] show ?thesis by auto
qed

theorem dq_wrap_never_full_witness:
  "unat (dq_size (dq dq_demo 2)) = 2 \<and>
   map_option fst (fifo_run (dq_offer (\<lambda>_ _. Some) 2) (dq_fetch (\<lambda>_ _. Some) 2) (map Offer [item 1, item 2, item 3]) dq_demo) =
     Some [Accepted, Accepted, Accepted]"
proof -
  have a: "\<not> evt_notify (dq dq_demo 2)" "lst (thl dq_demo) (PopQ 2) = []"
    "length (dq_items (dq dq_demo 2)) = unat (dq_size (dq dq_demo 2))" "dq_size (dq dq_demo 2) \<noteq> 0"
    "get_index (dq dq_demo 2) = 0xffff" "put_index (dq dq_demo 2) = 0xffff" "length [item 1, item 2, item 3] \<le> 65535"
    by (simp_all add: dq_demo_sel(4) demo_thl) (simp_all add: dq_demo_def)
  from dq_wrap_never_full [OF dq_demo_sel(1-3) a, of "\<lambda>_ _. Some"] show ?thesis by (simp add: dq_demo_def)
qed

end
