(* ===== verification/Kservice_Mem.thy ===== *)
theory Kservice_Mem
  imports Rt_Prelude "HOL-Library.Sublist"
begin

text \<open>
  The memory and string routines of \<^verbatim>\<open>rt-thread/src/kservice.c\<close>, on memory as a map from 32-bit
  addresses to bytes.  The word loops of \<^verbatim>\<open>rt_memset\<close> and \<^verbatim>\<open>rt_memcpy\<close> are modelled as they are written
  and shown equal to the byte loops.  Plain \<^verbatim>\<open>char\<close> is unsigned, as on the ARM target, and \<^verbatim>\<open>long\<close> has 4
  bytes.  A loop that looks for the end of a string may find none and not return.
\<close>

type_synonym memory = "u32 \<Rightarrow> u8"

subsection \<open>Words in memory\<close>

definition bytes32 :: "u32 \<Rightarrow> u8 list" where
  "bytes32 v = [ucast v, ucast (drop_bit 8 v), ucast (drop_bit 16 v), ucast (drop_bit 24 v)]"

definition word32 :: "u8 \<Rightarrow> u8 \<Rightarrow> u8 \<Rightarrow> u8 \<Rightarrow> u32" where
  "word32 a b c d = ucast a OR push_bit 8 (ucast b) OR push_bit 16 (ucast c) OR push_bit 24 (ucast d)"

lemma word32_bytes [simp]:
  "word32 (ucast v) (ucast (drop_bit 8 v)) (ucast (drop_bit 16 v)) (ucast (drop_bit 24 v)) = v"
proof (rule bit_word_eqI)
  fix n :: nat assume "n < LENGTH(32)"
  then consider "n < 8" | "8 \<le> n \<and> n < 16" | "16 \<le> n \<and> n < 24" | "24 \<le> n \<and> n < 32" by (force simp: not_less)
  then show "bit (word32 (ucast v) (ucast (drop_bit 8 v)) (ucast (drop_bit 16 v)) (ucast (drop_bit 24 v))) n = bit v n"
    by cases (auto simp: word32_def bit_simps)
qed

lemma bytes32_word [simp]: "bytes32 (word32 a b c d) = [a, b, c, d]"
  unfolding bytes32_def word32_def
  by (simp, intro conjI; rule bit_word_eqI; auto simp: bit_simps dest: bit_imp_le_length)

definition load32 :: "memory \<Rightarrow> u32 \<Rightarrow> u32" where
  "load32 m a = word32 (m a) (m (a + 1)) (m (a + 2)) (m (a + 3))"

definition store32 :: "u32 \<Rightarrow> u32 \<Rightarrow> memory \<Rightarrow> memory" where
  "store32 a w m = m(a := bytes32 w ! 0, a + 1 := bytes32 w ! 1, a + 2 := bytes32 w ! 2, a + 3 := bytes32 w ! 3)"

subsection \<open>Operations on memory\<close>

fun set_bytes :: "nat \<Rightarrow> u32 \<Rightarrow> u8 \<Rightarrow> memory \<Rightarrow> memory" where
  "set_bytes 0 a d m = m"
| "set_bytes (Suc n) a d m = set_bytes n (a + 1) d (m(a := d))"

fun set_words :: "nat \<Rightarrow> u32 \<Rightarrow> u32 \<Rightarrow> memory \<Rightarrow> nat \<times> u32 \<times> memory" where
  "set_words n a w m = (if n \<ge> 4 then set_words (n - 4) (a + 4) w (store32 a w m) else (n, a, m))"

fun set_quads :: "nat \<Rightarrow> u32 \<Rightarrow> u32 \<Rightarrow> memory \<Rightarrow> nat \<times> u32 \<times> memory" where
  "set_quads n a w m =
     (if n \<ge> 16
      then set_quads (n - 16) (a + 16) w
             (store32 (a + 12) w (store32 (a + 8) w (store32 (a + 4) w (store32 a w m))))
      else (n, a, m))"

declare set_words.simps [simp del] set_quads.simps [simp del]

definition rt_memset :: "u32 \<Rightarrow> u32 \<Rightarrow> u32 \<Rightarrow> memory \<Rightarrow> memory" where
  "rt_memset s c count m =
     (let d = c AND 0xff
      in if count \<ge> 4 \<and> s AND 3 = 0
         then let b = push_bit 8 d OR d; buffer = b OR push_bit 16 b;
                  (n1, a1, m1) = set_quads (unat count) s buffer m;
                  (n2, a2, m2) = set_words n1 a1 buffer m1
              in set_bytes n2 a2 (ucast d) m2
         else set_bytes (unat count) s (ucast d) m)"

fun copy_bytes :: "nat \<Rightarrow> u32 \<Rightarrow> u32 \<Rightarrow> memory \<Rightarrow> memory" where
  "copy_bytes 0 d s m = m"
| "copy_bytes (Suc n) d s m = copy_bytes n (d + 1) (s + 1) (m(d := m s))"

definition copy32 :: "u32 \<Rightarrow> u32 \<Rightarrow> memory \<Rightarrow> memory" where
  "copy32 d s m = store32 d (load32 m s) m"

fun copy_words :: "nat \<Rightarrow> u32 \<Rightarrow> u32 \<Rightarrow> memory \<Rightarrow> nat \<times> u32 \<times> u32 \<times> memory" where
  "copy_words n d s m = (if n \<ge> 4 then copy_words (n - 4) (d + 4) (s + 4) (copy32 d s m) else (n, d, s, m))"

fun copy_quads :: "nat \<Rightarrow> u32 \<Rightarrow> u32 \<Rightarrow> memory \<Rightarrow> nat \<times> u32 \<times> u32 \<times> memory" where
  "copy_quads n d s m =
     (if n \<ge> 16
      then copy_quads (n - 16) (d + 16) (s + 16)
             (copy32 (d + 12) (s + 12) (copy32 (d + 8) (s + 8) (copy32 (d + 4) (s + 4) (copy32 d s m))))
      else (n, d, s, m))"

declare copy_words.simps [simp del] copy_quads.simps [simp del]

text \<open>
  \<^verbatim>\<open>len\<close> is an \<^verbatim>\<open>int\<close>, but the word loops compare it unsigned and the byte loop runs down to 0, so it counts
  like the unsigned \<^verbatim>\<open>count\<close> (past \<open>2 ^ 31\<close> by the wrap-around of the target).
\<close>

definition rt_memcpy :: "u32 \<Rightarrow> u32 \<Rightarrow> u32 \<Rightarrow> memory \<Rightarrow> memory" where
  "rt_memcpy dst src count m =
     (if count \<ge> 16 \<and> (src AND 3) OR (dst AND 3) = 0
      then let (n1, d1, s1, m1) = copy_quads (unat count) dst src m;
               (n2, d2, s2, m2) = copy_words n1 d1 s1 m1
           in copy_bytes n2 d2 s2 m2
      else copy_bytes (unat count) dst src m)"

fun copy_back :: "nat \<Rightarrow> u32 \<Rightarrow> u32 \<Rightarrow> memory \<Rightarrow> memory" where
  "copy_back 0 d s m = m"
| "copy_back (Suc n) d s m = copy_back n (d - 1) (s - 1) (m(d - 1 := m (s - 1)))"

definition rt_memmove :: "u32 \<Rightarrow> u32 \<Rightarrow> u32 \<Rightarrow> memory \<Rightarrow> memory" where
  "rt_memmove dest src n m =
     (if src < dest \<and> dest < src + n then copy_back (unat n) (dest + n) (src + n) m
      else copy_bytes (unat n) dest src m)"

fun memcmp_loop :: "nat \<Rightarrow> u32 \<Rightarrow> u32 \<Rightarrow> memory \<Rightarrow> int" where
  "memcmp_loop 0 a b m = 0"
| "memcmp_loop (Suc n) a b m =
     (let res = uint (m a) - uint (m b) in if res \<noteq> 0 then res else memcmp_loop n (a + 1) (b + 1) m)"

definition rt_memcmp :: "u32 \<Rightarrow> u32 \<Rightarrow> u32 \<Rightarrow> memory \<Rightarrow> int" where
  "rt_memcmp cs ct count m = memcmp_loop (unat count) cs ct m"

subsection \<open>Operations on strings\<close>

partial_function (option) strlen_loop :: "u32 \<Rightarrow> memory \<Rightarrow> u32 option" where
  "strlen_loop sc m = (if m sc \<noteq> 0 then strlen_loop (sc + 1) m else Some sc)"

definition rt_strlen :: "u32 \<Rightarrow> memory \<Rightarrow> u32 option" where
  "rt_strlen s m = do { sc \<leftarrow> strlen_loop s m; Some (sc - s) }"

partial_function (option) strnlen_loop :: "u32 \<Rightarrow> u32 \<Rightarrow> u32 \<Rightarrow> memory \<Rightarrow> u32 option" where
  "strnlen_loop s maxlen sc m =
     (if m sc \<noteq> 0 \<and> sc - s < maxlen then strnlen_loop s maxlen (sc + 1) m else Some sc)"

definition rt_strnlen :: "u32 \<Rightarrow> u32 \<Rightarrow> memory \<Rightarrow> u32 option" where
  "rt_strnlen s maxlen m = do { sc \<leftarrow> strnlen_loop s maxlen s m; Some (sc - s) }"

text \<open>The search from \<open>s1\<close> on with \<open>n\<close> more starts to try; \<^verbatim>\<open>RT_NULL\<close> is 0.\<close>

fun strstr_loop :: "nat \<Rightarrow> u32 \<Rightarrow> u32 \<Rightarrow> u32 \<Rightarrow> memory \<Rightarrow> u32" where
  "strstr_loop 0 s1 s2 l2 m = 0"
| "strstr_loop (Suc n) s1 s2 l2 m =
     (if rt_memcmp s1 s2 l2 m = 0 then s1 else strstr_loop n (s1 + 1) s2 l2 m)"

definition rt_strstr :: "u32 \<Rightarrow> u32 \<Rightarrow> memory \<Rightarrow> u32 option" where
  "rt_strstr s1 s2 m =
     do {
       l2 \<leftarrow> rt_strlen s2 m;
       (if l2 = 0 then Some s1
        else do {
          l1 \<leftarrow> rt_strlen s1 m;
          Some (strstr_loop (nat (sint l1 - sint l2 + 1)) s1 s2 l2 m)
        })
     }"

definition to_lower :: "u8 \<Rightarrow> int" where
  "to_lower c = (if 0x41 \<le> c \<and> c \<le> 0x5a then uint c + 0x20 else uint c)"

text \<open>The difference, an \<^verbatim>\<open>int\<close>, is returned as \<^verbatim>\<open>rt_uint32_t\<close>.\<close>

partial_function (option) rt_strcasecmp :: "u32 \<Rightarrow> u32 \<Rightarrow> memory \<Rightarrow> u32 option" where
  "rt_strcasecmp a b m =
     (let ca = to_lower (m a); cb = to_lower (m b)
      in if ca = cb \<and> ca \<noteq> 0 then rt_strcasecmp (a + 1) (b + 1) m else Some (of_int (ca - cb)))"

text \<open>One round of the \<^verbatim>\<open>do\<close> loop for each of the \<open>n\<close> bytes left.\<close>

fun strncpy_loop :: "nat \<Rightarrow> u32 \<Rightarrow> u32 \<Rightarrow> memory \<Rightarrow> memory" where
  "strncpy_loop 0 d s m = m"
| "strncpy_loop (Suc n) d s m =
     (if m s = 0 then set_bytes n (d + 1) 0 (m(d := 0)) else strncpy_loop n (d + 1) (s + 1) (m(d := m s)))"

definition rt_strncpy :: "u32 \<Rightarrow> u32 \<Rightarrow> u32 \<Rightarrow> memory \<Rightarrow> memory" where
  "rt_strncpy dst src n m = (if n \<noteq> 0 then strncpy_loop (unat n) dst src m else m)"

text \<open>The difference is kept in a \<^verbatim>\<open>signed char\<close>.\<close>

fun strncmp_loop :: "nat \<Rightarrow> int \<Rightarrow> u32 \<Rightarrow> u32 \<Rightarrow> memory \<Rightarrow> int" where
  "strncmp_loop 0 res cs ct m = res"
| "strncmp_loop (Suc n) res cs ct m =
     (let r = sint (m cs - m ct) in if r \<noteq> 0 \<or> m cs = 0 then r else strncmp_loop n r (cs + 1) (ct + 1) m)"

definition rt_strncmp :: "u32 \<Rightarrow> u32 \<Rightarrow> u32 \<Rightarrow> memory \<Rightarrow> int" where
  "rt_strncmp cs ct count m = strncmp_loop (unat count) 0 cs ct m"

partial_function (option) rt_strcmp :: "u32 \<Rightarrow> u32 \<Rightarrow> memory \<Rightarrow> int option" where
  "rt_strcmp cs ct m =
     (if m cs \<noteq> 0 \<and> m cs = m ct then rt_strcmp (cs + 1) (ct + 1) m else Some (uint (m cs) - uint (m ct)))"

subsection \<open>Filling\<close>

lemma unat_diff_step:
  fixes x a :: u32
  shows "x \<noteq> a \<Longrightarrow> unat (x - (a + 1)) = unat (x - a) - 1 \<and> 0 < unat (x - a)"
    and "unat (a - (a + 1)) = 2 ^ 32 - 1"
proof -
  show "x \<noteq> a \<Longrightarrow> unat (x - (a + 1)) = unat (x - a) - 1 \<and> 0 < unat (x - a)"
  proof -
    assume "x \<noteq> a"
    then have "x - a \<noteq> 0" by simp
    then have "unat (x - a - 1) = unat (x - a) - 1" "0 < unat (x - a)"
      by (simp_all add: unat_minus_one unat_gt_0)
    moreover have "x - (a + 1) = x - a - 1" by simp
    ultimately show ?thesis by metis
  qed
  have "a - (a + 1) = (- 1 :: u32)" by simp
  then show "unat (a - (a + 1)) = 2 ^ 32 - 1" by (simp add: unsigned_minus_1_eq_mask mask_eq_exp_minus_1)
qed

lemma set_bytes_eq: "n \<le> 2 ^ 32 \<Longrightarrow> set_bytes n a d m = (\<lambda>x. if unat (x - a) < n then d else m x)"
proof (induction n arbitrary: a m)
  case (Suc n)
  then have IH: "set_bytes n (a + 1) d (m(a := d)) = (\<lambda>x. if unat (x - (a + 1)) < n then d else (m(a := d)) x)" by simp
  show ?case unfolding set_bytes.simps IH
  proof
    fix x
    show "(if unat (x - (a + 1)) < n then d else (m(a := d)) x) = (if unat (x - a) < Suc n then d else m x)"
      using unat_diff_step(1) [of x a] unat_diff_step(2) [of a] Suc.prems by (cases "x = a") auto
  qed
qed simp

lemma set_bytes_add: "set_bytes (i + j) a d m = set_bytes j (a + of_nat i) d (set_bytes i a d m)"
  by (induction i arbitrary: a m) (simp_all add: add.assoc)

lemma store32_fill: "bytes32 w = [d, d, d, d] \<Longrightarrow> store32 a w m = set_bytes 4 a d m"
  by (simp add: store32_def numeral_eq_Suc add.assoc)

lemma mod_round: "0 < k \<Longrightarrow> k \<le> n \<Longrightarrow> n - n mod k = k + (n - k - (n - k) mod k)" for n k :: nat
  unfolding minus_mod_eq_div_mult by (simp add: le_div_geq)

lemma set_words_spec:
  assumes "bytes32 w = [d, d, d, d]"
  shows "set_words n a w m = (n mod 4, a + of_nat (n - n mod 4), set_bytes (n - n mod 4) a d m)"
  using assms
proof (induction n a w m rule: set_words.induct)
  case (1 n a w m)
  show ?case
  proof (cases "4 \<le> n")
    case True
    have r: "n - n mod 4 = 4 + (n - 4 - (n - 4) mod 4)" "(n - 4) mod 4 = n mod 4"
      using mod_round [OF _ True] True by (simp_all add: le_mod_geq)
    show ?thesis using 1 True unfolding set_words.simps [of n] r(1) set_bytes_add [of 4]
      by (simp add: store32_fill [OF 1(2)] r(2))
  next
    case False
    then show ?thesis by (subst set_words.simps) simp
  qed
qed

lemma set_quads_spec:
  assumes "bytes32 w = [d, d, d, d]"
  shows "set_quads n a w m = (n mod 16, a + of_nat (n - n mod 16), set_bytes (n - n mod 16) a d m)"
  using assms
proof (induction n a w m rule: set_quads.induct)
  case (1 n a w m)
  show ?case
  proof (cases "16 \<le> n")
    case True
    have q: "store32 (a + 12) w (store32 (a + 8) w (store32 (a + 4) w (store32 a w m))) = set_bytes (4 + (4 + (4 + 4))) a d m"
      unfolding set_bytes_add [of 4] by (simp add: store32_fill [OF 1(2)] add.assoc)
    have r: "n - n mod 16 = 16 + (n - 16 - (n - 16) mod 16)" "(n - 16) mod 16 = n mod 16"
      using mod_round [OF _ True] True by (simp_all add: le_mod_geq)
    show ?thesis using 1 True q unfolding set_quads.simps [of n] r(1) set_bytes_add [of 16]
      by (simp add: r(2))
  next
    case False
    then show ?thesis by (subst set_quads.simps) simp
  qed
qed

lemma memset_buffer:
  fixes c :: u32
  defines "d \<equiv> c AND 0xff"
  defines "b \<equiv> push_bit 8 d OR d"
  shows "bytes32 (b OR push_bit 16 b) = [ucast d, ucast d, ucast d, ucast d]"
proof -
  have m: "0xff = (mask 8 :: u32)" by (simp add: mask_eq_exp_minus_1)
  have "b OR push_bit 16 b = word32 (ucast d) (ucast d) (ucast d) (ucast d)"
    unfolding b_def d_def word32_def m by (rule bit_word_eqI) (auto simp: bit_simps)
  then show ?thesis by simp
qed

lemma rt_memset_bytes: "rt_memset s c count m = set_bytes (unat count) s (ucast (c AND 0xff)) m"
proof (cases "count \<ge> 4 \<and> s AND 3 = 0")
  case True
  let ?n = "unat count" and ?d = "ucast (c AND 0xff) :: u8"
  note B = memset_buffer [of c]
  have n: "?n = (?n - ?n mod 16) + ((?n mod 16 - ?n mod 16 mod 4) + ?n mod 16 mod 4)" by simp
  have "rt_memset s c count m =
    set_bytes (?n mod 16 mod 4) (s + of_nat (?n - ?n mod 16) + of_nat (?n mod 16 - ?n mod 16 mod 4)) ?d
      (set_bytes (?n mod 16 - ?n mod 16 mod 4) (s + of_nat (?n - ?n mod 16)) ?d (set_bytes (?n - ?n mod 16) s ?d m))"
    using True unfolding rt_memset_def Let_def set_quads_spec [OF B] set_words_spec [OF B] by simp
  also have "\<dots> = set_bytes ?n s ?d m"
    by (subst (5) n) (simp only: set_bytes_add)
  finally show ?thesis .
next
  case False
  then show ?thesis unfolding rt_memset_def Let_def by (simp only: if_False)
qed

subsection \<open>Copying\<close>

lemma copy_bytes_add: "copy_bytes (i + j) d s m = copy_bytes j (d + of_nat i) (s + of_nat i) (copy_bytes i d s m)"
  by (induction i arbitrary: d s m) (simp_all add: add.assoc)

text \<open>A word is copied like its bytes one after the other unless a byte of it is overwritten before it is read.\<close>

definition far :: "u32 \<Rightarrow> u32 \<Rightarrow> bool" where
  "far d s \<longleftrightarrow> d \<noteq> s + 1 \<and> d \<noteq> s + 2 \<and> d \<noteq> s + 3"

lemma far_add: "far (d + x) (s + x) = far d s"
proof -
  have "d + x = s + x + i \<longleftrightarrow> d = s + i" for i by (simp add: add.commute add.left_commute)
  then show ?thesis by (simp add: far_def)
qed

lemma aligned_far:
  assumes "(s AND 3) OR (d AND 3) = 0"
  shows "far d s"
proof -
  have z: "unat s mod 4 = 0" "unat d mod 4 = 0"
    using assms by (simp_all add: or_eq_0_iff and3_zero_iff)
  have a: "unat (s + of_nat i) mod 4 = i" if "i < 4" for i
  proof -
    have "unat (s + of_nat i) mod 4 = (unat s + i) mod 4"
      using that by (simp add: unat_word_ariths unat_of_nat mod_mod_cancel)
    then show ?thesis using that z(1) by presburger
  qed
  have "unat (s + 1) mod 4 = 1" "unat (s + 2) mod 4 = 2" "unat (s + 3) mod 4 = 3"
    using a [of 1] a [of 2] a [of 3] by simp_all
  then show ?thesis using z(2) unfolding far_def by auto
qed

lemma copy32_bytes:
  assumes "far d s"
  shows "copy32 d s m = copy_bytes 4 d s m"
proof -
  have n: "s + 1 \<noteq> d" "s + 2 \<noteq> d" "s + 3 \<noteq> d" "s + 2 \<noteq> d + 1" "s + 3 \<noteq> d + 1" "s + 3 \<noteq> d + 2"
    using assms far_add [of d 1 s] far_add [of d 2 s] unfolding far_def by (auto simp: add.assoc)
  have "copy_bytes 4 d s m = m(d := m s, d + 1 := m (s + 1), d + 2 := m (s + 2), d + 3 := m (s + 3))"
    using n by (simp add: numeral_eq_Suc add.assoc)
  then show ?thesis by (simp add: copy32_def store32_def load32_def)
qed

lemma copy_words_spec:
  assumes "far d s"
  shows "copy_words n d s m =
    (n mod 4, d + of_nat (n - n mod 4), s + of_nat (n - n mod 4), copy_bytes (n - n mod 4) d s m)"
  using assms
proof (induction n d s m rule: copy_words.induct)
  case (1 n d s m)
  show ?case
  proof (cases "4 \<le> n")
    case True
    have r: "n - n mod 4 = 4 + (n - 4 - (n - 4) mod 4)" "(n - 4) mod 4 = n mod 4"
      using mod_round [OF _ True] True by (simp_all add: le_mod_geq)
    show ?thesis using 1(1) [OF True] 1(2) True unfolding copy_words.simps [of n] r(1) copy_bytes_add [of 4]
      by (simp add: copy32_bytes far_add r(2))
  next
    case False
    then show ?thesis by (subst copy_words.simps) simp
  qed
qed

lemma copy_quads_spec:
  assumes "far d s"
  shows "copy_quads n d s m =
    (n mod 16, d + of_nat (n - n mod 16), s + of_nat (n - n mod 16), copy_bytes (n - n mod 16) d s m)"
  using assms
proof (induction n d s m rule: copy_quads.induct)
  case (1 n d s m)
  show ?case
  proof (cases "16 \<le> n")
    case True
    have q: "copy32 (d + 12) (s + 12) (copy32 (d + 8) (s + 8) (copy32 (d + 4) (s + 4) (copy32 d s m))) =
      copy_bytes (4 + (4 + (4 + 4))) d s m"
      using 1(2) unfolding copy_bytes_add [of 4] by (simp add: copy32_bytes far_add add.assoc)
    have r: "n - n mod 16 = 16 + (n - 16 - (n - 16) mod 16)" "(n - 16) mod 16 = n mod 16"
      using mod_round [OF _ True] True by (simp_all add: le_mod_geq)
    show ?thesis using 1(1) [OF True] 1(2) True q unfolding copy_quads.simps [of n] r(1) copy_bytes_add [of 16]
      by (simp add: far_add r(2))
  next
    case False
    then show ?thesis by (subst copy_quads.simps) simp
  qed
qed

lemma rt_memcpy_bytes: "rt_memcpy dst src count m = copy_bytes (unat count) dst src m"
proof (cases "count \<ge> 16 \<and> (src AND 3) OR (dst AND 3) = 0")
  case True
  let ?n = "unat count"
  have f: "far dst src" using aligned_far True by blast
  have f2: "far (dst + of_nat (?n - ?n mod 16)) (src + of_nat (?n - ?n mod 16))" using f by (simp only: far_add)
  have n: "?n = (?n - ?n mod 16) + ((?n mod 16 - ?n mod 16 mod 4) + ?n mod 16 mod 4)" by simp
  have "rt_memcpy dst src count m =
    copy_bytes (?n mod 16 mod 4) (dst + of_nat (?n - ?n mod 16) + of_nat (?n mod 16 - ?n mod 16 mod 4))
      (src + of_nat (?n - ?n mod 16) + of_nat (?n mod 16 - ?n mod 16 mod 4))
      (copy_bytes (?n mod 16 - ?n mod 16 mod 4) (dst + of_nat (?n - ?n mod 16)) (src + of_nat (?n - ?n mod 16))
        (copy_bytes (?n - ?n mod 16) dst src m))"
    using True unfolding rt_memcpy_def Let_def copy_quads_spec [OF f] prod.case copy_words_spec [OF f2] by simp
  also have "\<dots> = copy_bytes ?n dst src m"
    by (subst (7) n) (simp only: copy_bytes_add)
  finally show ?thesis .
next
  case False
  then show ?thesis unfolding rt_memcpy_def by (simp only: if_False)
qed

text \<open>The copy is right when no byte is overwritten before it is read.\<close>

lemma copy_bytes_eq:
  assumes "n \<le> 2 ^ 32" "\<And>i j. j < i \<Longrightarrow> i < n \<Longrightarrow> s + of_nat i \<noteq> d + of_nat j"
  shows "copy_bytes n d s m = (\<lambda>x. if unat (x - d) < n then m (s + (x - d)) else m x)"
  using assms
proof (induction n arbitrary: d s m)
  case (Suc n)
  let ?m = "m(d := m s)"
  have nd: "s + of_nat (Suc i) \<noteq> d" if "i < n" for i using Suc.prems(2) [of 0 "Suc i"] that by simp
  have IH: "copy_bytes n (d + 1) (s + 1) ?m = (\<lambda>x. if unat (x - (d + 1)) < n then ?m (s + 1 + (x - (d + 1))) else ?m x)"
  proof (rule Suc.IH)
    show "n \<le> 2 ^ 32" using Suc.prems(1) by simp
    fix i j assume ij: "j < i" "i < n"
    then have "s + of_nat (Suc i) \<noteq> d + of_nat (Suc j)" by (intro Suc.prems(2)) simp_all
    then show "s + 1 + of_nat i \<noteq> d + 1 + of_nat j" by (simp add: add.assoc)
  qed
  show ?case unfolding copy_bytes.simps IH
  proof
    fix x
    show "(if unat (x - (d + 1)) < n then ?m (s + 1 + (x - (d + 1))) else ?m x) =
      (if unat (x - d) < Suc n then m (s + (x - d)) else m x)"
    proof (cases "x = d")
      case True
      then show ?thesis using unat_diff_step(2) [of d] Suc.prems(1) by simp
    next
      case False
      note u = unat_diff_step(1) [OF False]
      have e: "s + 1 + (x - (d + 1)) = s + (x - d)" by simp
      have "s + (x - d) \<noteq> d" if "unat (x - d) < Suc n"
      proof -
        have "x - d = of_nat (Suc (unat (x - d) - 1))" using u by simp
        then show ?thesis using nd [of "unat (x - d) - 1"] that u by (metis One_nat_def Suc_pred less_Suc_eq_le Suc_le_eq)
      qed
      then show ?thesis using u False unfolding e by auto
    qed
  qed
qed simp

lemma copy_back_eq:
  assumes "n \<le> 2 ^ 32" "\<And>i j. i < j \<Longrightarrow> j < n \<Longrightarrow> s + of_nat i \<noteq> d + of_nat j"
  shows "copy_back n (d + of_nat n) (s + of_nat n) m = (\<lambda>x. if unat (x - d) < n then m (s + (x - d)) else m x)"
  using assms
proof (induction n arbitrary: m)
  case (Suc n)
  let ?m = "m(d + of_nat n := m (s + of_nat n))"
  have "copy_back (Suc n) (d + of_nat (Suc n)) (s + of_nat (Suc n)) m = copy_back n (d + of_nat n) (s + of_nat n) ?m"
    by (simp add: algebra_simps)
  also have "\<dots> = (\<lambda>x. if unat (x - d) < n then ?m (s + (x - d)) else ?m x)"
    using Suc.prems by (intro Suc.IH) simp_all
  also have "\<dots> = (\<lambda>x. if unat (x - d) < Suc n then m (s + (x - d)) else m x)"
  proof
    fix x
    have n: "unat (of_nat n :: u32) = n" using Suc.prems(1) by (simp add: unat_of_nat)
    have ne: "s + (x - d) \<noteq> d + of_nat n" if "unat (x - d) < n"
      using Suc.prems(2) [OF that] by simp
    have "x = d + of_nat n \<longleftrightarrow> unat (x - d) = n"
    proof
      assume "unat (x - d) = n"
      then have "x - d = of_nat n" by (metis n unsigned_word_eqI)
      then show "x = d + of_nat n" by (simp add: algebra_simps)
    qed (simp add: n)
    then show "(if unat (x - d) < n then ?m (s + (x - d)) else ?m x) = (if unat (x - d) < Suc n then m (s + (x - d)) else m x)"
      using ne by (auto simp: less_Suc_eq)
  qed
  finally show ?case .
qed simp

text \<open>Addresses that do not wrap around.\<close>

lemma unat_add_small: "unat a + i < 2 ^ 32 \<Longrightarrow> unat (a + of_nat i :: u32) = unat a + i"
  by (simp add: unat_word_ariths unat_of_nat)

lemma move_spec:
  assumes s: "unat src + unat n < 2 ^ 32" and d: "unat dst + unat n \<le> 2 ^ 32"
  shows "rt_memmove dst src n m = (\<lambda>x. if x - dst < n then m (src + (x - dst)) else m x)"
proof -
  let ?n = "unat n"
  have us: "unat (src + of_nat i) = unat src + i" if "i < ?n" for i using that s by (intro unat_add_small) simp
  have ud: "unat (dst + of_nat i) = unat dst + i" if "i < ?n" for i using that d by (intro unat_add_small) simp
  have n32: "?n \<le> 2 ^ 32" using s by simp
  have sn: "unat (src + n) = unat src + ?n" using s by (simp add: unat_word_ariths)
  show ?thesis
  proof (cases "src < dst \<and> dst < src + n")
    case True
    have ne: "src + of_nat i \<noteq> dst + of_nat j" if "i < j" "j < ?n" for i j
    proof -
      have "unat src < unat dst" using True by (simp add: word_less_nat_alt)
      then have "unat (src + of_nat i) < unat (dst + of_nat j)" using that us [of i] ud [of j] by simp
      then show ?thesis by auto
    qed
    show ?thesis
      unfolding rt_memmove_def if_P [OF True] using copy_back_eq [OF n32 ne, of m] by (simp add: word_less_nat_alt)
  next
    case False
    have ne: "src + of_nat i \<noteq> dst + of_nat j" if "j < i" "i < ?n" for i j
    proof -
      have "unat dst \<le> unat src \<or> unat src + ?n \<le> unat dst"
        using False sn by (auto simp: word_less_nat_alt not_less)
      then have "unat (src + of_nat i) \<noteq> unat (dst + of_nat j)" using that us [of i] ud [of j] by auto
      then show ?thesis by auto
    qed
    show ?thesis
      unfolding rt_memmove_def if_not_P [OF False] using copy_bytes_eq [OF n32 ne, of m] by (simp add: word_less_nat_alt)
  qed
qed

text \<open>
  C31.  \<^verbatim>\<open>rt_memmove\<close> copies the bytes as they were before the call, whichever way the two areas overlap,
  and changes nothing else.
\<close>

theorem rt_memmove_copies:
  assumes "unat src + unat n < 2 ^ 32" and "unat dst + unat n \<le> 2 ^ 32"
  shows "(\<forall>i < unat n. rt_memmove dst src n m (dst + of_nat i) = m (src + of_nat i)) \<and>
    (\<forall>a. (\<forall>i < unat n. a \<noteq> dst + of_nat i) \<longrightarrow> rt_memmove dst src n m a = m a)"
proof -
  note M = move_spec [OF assms, of m]
  have "rt_memmove dst src n m (dst + of_nat i) = m (src + of_nat i)" if "i < unat n" for i
    using that assms(1) unfolding M by (simp add: word_less_nat_alt unat_of_nat)
  moreover have "rt_memmove dst src n m a = m a" if "\<forall>i < unat n. a \<noteq> dst + of_nat i" for a
  proof -
    have "a = dst + of_nat (unat (a - dst))" by simp
    then have "\<not> unat (a - dst) < unat n" using that by metis
    then show ?thesis unfolding M by (simp add: word_less_nat_alt)
  qed
  ultimately show ?thesis by blast
qed

theorem rt_memmove_copies_witness:
  "rt_memmove 0x102 0x100 4 (\<lambda>a. ucast a) 0x105 = 3 \<and> rt_memmove 0x100 0x102 4 (\<lambda>a. ucast a) 0x100 = 2"
proof -
  note up = rt_memmove_copies [of "0x100" 4 "0x102" "\<lambda>a. ucast a", THEN conjunct1, rule_format]
  note down = rt_memmove_copies [of "0x102" 4 "0x100" "\<lambda>a. ucast a", THEN conjunct1, rule_format]
  have "rt_memmove 0x102 0x100 4 (\<lambda>a. ucast a) 0x105 = 3" using up [of 3] by simp
  moreover have "rt_memmove 0x100 0x102 4 (\<lambda>a. ucast a) 0x100 = 2" using down [of 0] by simp
  ultimately show ?thesis by simp
qed

lemma ucast_low_byte: "ucast ((c :: u32) AND 0xff) = (ucast c :: u8)"
proof -
  have m: "0xff = (mask 8 :: u32)" by (simp add: mask_eq_exp_minus_1)
  show ?thesis unfolding m by (rule bit_word_eqI) (auto simp: bit_simps)
qed

text \<open>\<^verbatim>\<open>rt_memset\<close> and \<^verbatim>\<open>rt_memcpy\<close> on areas that do not overlap.\<close>

lemma memset_eq: "rt_memset s c count m = (\<lambda>x. if x - s < count then ucast c else m x)"
proof -
  have "unat count < 2 ^ 32" using unsigned_less [of count] by simp
  then show ?thesis
    unfolding rt_memset_bytes ucast_low_byte by (simp add: set_bytes_eq word_less_nat_alt)
qed

lemma memcpy_eq:
  assumes "\<And>i j. i < unat count \<Longrightarrow> j < unat count \<Longrightarrow> src + of_nat i \<noteq> dst + of_nat j"
  shows "rt_memcpy dst src count m = (\<lambda>x. if x - dst < count then m (src + (x - dst)) else m x)"
proof -
  have "unat count < 2 ^ 32" using unsigned_less [of count] by simp
  then have "unat count \<le> 2 ^ 32" by simp
  then show ?thesis
    unfolding rt_memcpy_bytes by (simp add: copy_bytes_eq assms word_less_nat_alt)
qed

text \<open>
  C32.  The word loops of \<^verbatim>\<open>rt_memset\<close> and \<^verbatim>\<open>rt_memcpy\<close>, four words and one word at a time with a byte
  loop for the rest, do exactly what byte loops from the first byte to the last would do, for
  every address, alignment, length and overlap.
\<close>

theorem word_loops_are_byte_loops:
  "rt_memset s c count m = set_bytes (unat count) s (ucast c) m \<and>
   rt_memcpy dst src count m = copy_bytes (unat count) dst src m"
  using rt_memset_bytes rt_memcpy_bytes by (simp add: ucast_low_byte)

subsection \<open>Comparing and searching\<close>

fun bytes_at :: "memory \<Rightarrow> u32 \<Rightarrow> nat \<Rightarrow> u8 list" where
  "bytes_at m a 0 = []"
| "bytes_at m a (Suc n) = m a # bytes_at m (a + 1) n"

text \<open>The string \<open>xs\<close> stands at \<open>a\<close>, with its terminating zero.\<close>

fun str_at :: "memory \<Rightarrow> u32 \<Rightarrow> u8 list \<Rightarrow> bool" where
  "str_at m a [] \<longleftrightarrow> m a = 0"
| "str_at m a (x # xs) \<longleftrightarrow> m a = x \<and> x \<noteq> 0 \<and> str_at m (a + 1) xs"

lemma memcmp_zero_iff: "memcmp_loop n a b m = 0 \<longleftrightarrow> bytes_at m a n = bytes_at m b n"
  by (induction n arbitrary: a b) (auto simp: Let_def dest: unsigned_word_eqI)

lemma strlen_loop_spec: "str_at m a xs \<Longrightarrow> strlen_loop a m = Some (a + of_nat (length xs))"
proof (induction m a xs rule: str_at.induct)
  case (2 m a x xs)
  then show ?case by (subst strlen_loop.simps) (simp add: add.assoc)
qed (simp add: strlen_loop.simps)

lemma rt_strlen_spec: "str_at m a xs \<Longrightarrow> rt_strlen a m = Some (of_nat (length xs))"
  by (simp add: rt_strlen_def strlen_loop_spec)

lemma strnlen_loop_spec:
  assumes "str_at m a xs" "unat (a - s) + length xs < 2 ^ 32"
  shows "strnlen_loop s k a m = Some (a + of_nat (min (length xs) (unat k - unat (a - s))))"
  using assms
proof (induction m a xs rule: str_at.induct)
  case (2 m a x xs)
  have u: "unat (a + 1 - s) = unat (a - s) + 1"
  proof -
    have e: "a + 1 - s = (a - s) + of_nat 1" by simp
    show ?thesis unfolding e using 2(3) by (subst unat_add_small) simp_all
  qed
  show ?case
  proof (cases "unat (a - s) < unat k")
    case True
    then have e: "min (length (x # xs)) (unat k - unat (a - s)) = Suc (min (length xs) (unat k - unat (a + 1 - s)))"
      unfolding u by simp
    show ?thesis unfolding e
      using 2 True by (subst strnlen_loop.simps) (simp add: u word_less_nat_alt add.assoc)
  next
    case False
    then show ?thesis using 2 by (subst strnlen_loop.simps) (simp add: word_less_nat_alt)
  qed
qed (simp add: strnlen_loop.simps)

lemma rt_strnlen_spec:
  assumes "str_at m s xs" "length xs < 2 ^ 32"
  shows "rt_strnlen s k m = Some (of_nat (min (length xs) (unat k)))"
  using strnlen_loop_spec [of m s xs s k] assms by (simp add: rt_strnlen_def)

lemma str_prefix:
  "str_at m a xs \<Longrightarrow> 0 \<notin> set ys \<Longrightarrow> bytes_at m a (length ys) = ys \<longleftrightarrow> prefix ys xs"
proof (induction ys arbitrary: a xs)
  case (Cons y ys)
  show ?case using Cons by (cases xs) auto
qed simp

lemma str_bytes: "str_at m a xs \<Longrightarrow> bytes_at m a (length xs) = xs \<and> 0 \<notin> set xs"
  by (induction m a xs rule: str_at.induct) auto

text \<open>The reference: the first place where \<open>ys\<close> starts.\<close>

fun first_occ :: "u8 list \<Rightarrow> u8 list \<Rightarrow> nat option" where
  "first_occ ys [] = (if ys = [] then Some 0 else None)"
| "first_occ ys (x # xs) = (if prefix ys (x # xs) then Some 0 else map_option Suc (first_occ ys xs))"

lemma first_occ_short: "length xs < length ys \<Longrightarrow> first_occ ys xs = None"
proof (induction xs)
  case (Cons x xs)
  then show ?case using prefix_length_le [of ys "x # xs"] by auto
qed auto

lemma strstr_loop_spec:
  assumes x: "str_at m a xs" and y: "str_at m b ys" and ne: "ys \<noteq> []" and len: "length ys < 2 ^ 32"
  shows "strstr_loop (length xs + 1 - length ys) a b (of_nat (length ys)) m =
    (case first_occ ys xs of None \<Rightarrow> 0 | Some i \<Rightarrow> a + of_nat i)"
  using x
proof (induction xs arbitrary: a)
  case Nil
  then show ?case using ne by (cases ys) simp_all
next
  case (Cons c xs)
  show ?case
  proof (cases "length (c # xs) < length ys")
    case True
    then show ?thesis using first_occ_short [OF True] by simp
  next
    case False
    then have n: "length (c # xs) + 1 - length ys = Suc (length xs + 1 - length ys)" using ne by (cases ys) simp_all
    have "rt_memcmp a b (of_nat (length ys)) m = 0 \<longleftrightarrow> prefix ys (c # xs)"
      using str_prefix [OF Cons.prems, of ys] str_bytes [OF y] len
      by (simp add: rt_memcmp_def memcmp_zero_iff unat_of_nat)
    then show ?thesis
      using Cons.IH [of "a + 1"] Cons.prems unfolding n
      by (auto split: option.splits simp: add.assoc)
  qed
qed

text \<open>
  \<^verbatim>\<open>rt_strstr\<close> returns a pointer to the first occurrence of the second string in the first, the
  first string itself when the second is empty, and \<^verbatim>\<open>RT_NULL\<close> when there is none.
\<close>

theorem rt_strstr_first:
  assumes "str_at m s1 xs" "str_at m s2 ys" and "length xs < 2 ^ 31" "length ys < 2 ^ 31"
  shows "rt_strstr s1 s2 m = Some (case first_occ ys xs of None \<Rightarrow> 0 | Some i \<Rightarrow> s1 + of_nat i)"
proof (cases "ys = []")
  case True
  then show ?thesis using rt_strlen_spec [OF assms(2)] by (cases xs) (simp_all add: rt_strstr_def)
next
  case False
  have si: "sint (of_nat n :: u32) = int n" if "n < 2 ^ 31" for n
    using that by (simp add: sint_uint uint_nat unat_of_nat signed_take_bit_int_eq_self)
  have "(of_nat (length ys) :: u32) \<noteq> 0"
    using False assms(4) by (metis length_greater_0_conv less_trans not_less_zero si sint_0 of_nat_0_eq_iff)
  moreover have "nat (int (length xs) - int (length ys) + 1) = length xs + 1 - length ys" by simp
  moreover have "length ys < 2 ^ 32" using assms(4) by simp
  ultimately show ?thesis
    using strstr_loop_spec [OF assms(1,2) False] rt_strlen_spec [OF assms(1)] rt_strlen_spec [OF assms(2)]
      si [OF assms(3)] si [OF assms(4)]
    by (simp add: rt_strstr_def)
qed

definition text_demo :: memory where
  "text_demo = (\<lambda>_. 0)(0x100 := 0x63, 0x101 := 0x61, 0x102 := 0x62, 0x200 := 0x61, 0x201 := 0x62)"

theorem rt_strstr_first_witness: "rt_strstr 0x100 0x200 text_demo = Some 0x101"
proof -
  have "str_at text_demo 0x100 [0x63, 0x61, 0x62]" "str_at text_demo 0x200 [0x61, 0x62]"
    by (simp_all add: text_demo_def)
  from rt_strstr_first [OF this] show ?thesis by simp
qed

lemma rt_strcmp_spec:
  assumes "str_at m a xs" "str_at m b ys"
  shows "\<exists>r. rt_strcmp a b m = Some r \<and> (r = 0 \<longleftrightarrow> xs = ys)"
  using assms
proof (induction xs arbitrary: a b ys)
  case Nil
  then show ?case by (cases ys) (auto simp: rt_strcmp.simps [of a b] uint_0_iff)
next
  case (Cons x xs)
  show ?case
  proof (cases ys)
    case Nil
    then show ?thesis using Cons.prems by (auto simp: rt_strcmp.simps [of a b] uint_0_iff)
  next
    case ys: (Cons y ys')
    show ?thesis
    proof (cases "x = y")
      case True
      then show ?thesis using Cons.IH [of "a + 1" "b + 1" ys'] Cons.prems by (simp add: ys rt_strcmp.simps [of a b])
    next
      case False
      then have "uint x \<noteq> uint y" by (auto dest: unsigned_word_eqI)
      then show ?thesis using False Cons.prems by (simp add: ys rt_strcmp.simps [of a b])
    qed
  qed
qed

lemma to_lower_zero: "to_lower c = 0 \<longleftrightarrow> c = 0"
proof -
  have "uint c + 0x20 \<noteq> 0" using uint_ge_0 [of c] by linarith
  then show ?thesis by (auto simp: to_lower_def uint_0_iff)
qed

lemma rt_strcasecmp_step:
  "rt_strcasecmp a b m =
    (if to_lower (m a) = to_lower (m b) \<and> m a \<noteq> 0 then rt_strcasecmp (a + 1) (b + 1) m
     else Some (of_int (to_lower (m a) - to_lower (m b))))"
  unfolding rt_strcasecmp.simps [of a b m] Let_def to_lower_zero by (rule refl)

lemma to_lower_diff: "of_int (to_lower c - to_lower d) = (0 :: u32) \<longleftrightarrow> to_lower c = to_lower d"
proof -
  have b: "0 \<le> to_lower c \<and> to_lower c < 2 ^ 10" for c
  proof -
    have "uint c < 256" using unsigned_less [of c] by simp
    then show ?thesis by (auto simp: to_lower_def)
  qed
  have "(2 :: int) ^ 32 dvd to_lower c - to_lower d \<longleftrightarrow> to_lower c = to_lower d"
  proof
    assume dv: "(2 :: int) ^ 32 dvd to_lower c - to_lower d"
    have "\<bar>to_lower c - to_lower d\<bar> < 2 ^ 32" using b [of c] b [of d] by (simp add: abs_less_iff)
    then have "to_lower c - to_lower d = 0" using dv zdvd_not_zless [of "\<bar>to_lower c - to_lower d\<bar>" "2 ^ 32"] by fastforce
    then show "to_lower c = to_lower d" by simp
  qed simp
  then show ?thesis by (simp only: word_of_int_eq_0_iff) simp
qed

lemma rt_strcasecmp_spec:
  assumes "str_at m a xs" "str_at m b ys"
  shows "\<exists>r. rt_strcasecmp a b m = Some r \<and> (r = 0 \<longleftrightarrow> map to_lower xs = map to_lower ys)"
  using assms
proof (induction xs arbitrary: a b ys)
  case Nil
  then have "m a = 0" by simp
  then have "rt_strcasecmp a b m = Some (of_int (to_lower 0 - to_lower (m b)))" by (subst rt_strcasecmp_step) simp
  moreover have "to_lower 0 = to_lower (m b) \<longleftrightarrow> ys = []"
    using Nil.prems(2) to_lower_zero [of "m b"] by (cases ys) (auto simp: to_lower_zero [of 0, simplified])
  ultimately show ?case using to_lower_diff [of 0 "m b"] by auto
next
  case (Cons x xs)
  then have x: "m a = x" "x \<noteq> 0" "str_at m (a + 1) xs" by simp_all
  show ?case
  proof (cases "to_lower x = to_lower (m b)")
    case True
    then have "m b \<noteq> 0" using x(2) to_lower_zero by metis
    then obtain ys' where ys: "ys = m b # ys'" "str_at m (b + 1) ys'" using Cons.prems(2) by (cases ys) auto
    have "rt_strcasecmp a b m = rt_strcasecmp (a + 1) (b + 1) m"
      by (subst rt_strcasecmp_step) (use x True in simp)
    then show ?thesis using Cons.IH [OF x(3) ys(2)] True ys(1) by simp
  next
    case False
    then have "rt_strcasecmp a b m = Some (of_int (to_lower x - to_lower (m b)))"
      by (subst rt_strcasecmp_step) (use x in simp)
    moreover have "of_int (to_lower x - to_lower (m b)) \<noteq> (0 :: u32)" using False to_lower_diff by blast
    moreover have "map to_lower (x # xs) \<noteq> map to_lower ys" using False Cons.prems(2) by (cases ys) auto
    ultimately show ?thesis by blast
  qed
qed

lemma sint_high8: "128 \<le> uint w \<Longrightarrow> sint (w :: u8) = uint w - 256"
proof -
  assume w: "128 \<le> uint w"
  have "uint w < 256" using unsigned_less [of w] by simp
  then have "(uint w + 128) mod 256 = uint w - 128"
    using w mod_add_self2 [of "uint w - 128" 256] mod_pos_pos_trivial [of "uint w - 128" 256] by (simp add: add.commute)
  then show ?thesis using w by (simp add: sint_uint signed_take_bit_eq_take_bit_shift take_bit_eq_mod)
qed

text \<open>
  \<^verbatim>\<open>rt_strncmp\<close> keeps the difference of two characters in a \<^verbatim>\<open>signed char\<close>: when it is more than
  127 the sign is wrong, and \<^verbatim>\<open>rt_strncmp\<close> and \<^verbatim>\<open>rt_strcmp\<close> order the same strings differently.
\<close>

theorem rt_strncmp_sign:
  assumes "uint (m cs) - uint (m ct) > 127" and "count \<noteq> 0"
  shows "rt_strncmp cs ct count m < 0 \<and> (\<exists>r > 0. rt_strcmp cs ct m = Some r)"
proof -
  have d: "uint (m cs - m ct) = uint (m cs) - uint (m ct)" using assms(1) by (simp add: uint_sub_if')
  have "uint (m cs - m ct) < 256" using unsigned_less [of "m cs - m ct"] by simp
  then have s: "sint (m cs - m ct) < 0" using sint_high8 [of "m cs - m ct"] assms(1) d by simp
  obtain n where n: "unat count = Suc n" using assms(2) by (metis not0_implies_Suc unat_eq_zero)
  have "rt_strncmp cs ct count m < 0" using s by (simp add: rt_strncmp_def n Let_def)
  moreover have "m cs \<noteq> m ct" using assms(1) by auto
  ultimately show ?thesis using assms(1) by (simp add: rt_strcmp.simps [of cs ct])
qed

theorem rt_strncmp_sign_witness:
  "rt_strncmp 0 4 2 ((\<lambda>_. 0)(0 := 0xe4, 4 := 0x61)) < 0 \<and> (\<exists>r > 0. rt_strcmp 0 4 ((\<lambda>_. 0)(0 := 0xe4, 4 := 0x61)) = Some r)"
  by (rule rt_strncmp_sign) simp_all

text \<open>\<^verbatim>\<open>rt_strncpy\<close> copies at most \<open>n\<close> bytes and pads with zeros; a longer string is not terminated.\<close>

lemma strncpy_loop_spec:
  assumes "str_at m s xs" "n \<le> 2 ^ 32" "\<And>i j. i \<le> length xs \<Longrightarrow> j < n \<Longrightarrow> s + of_nat i \<noteq> d + of_nat j"
  shows "strncpy_loop n d s m =
    (\<lambda>x. if unat (x - d) < n then if unat (x - d) < length xs then m (s + (x - d)) else 0 else m x)"
  using assms
proof (induction n arbitrary: d s m xs)
  case (Suc n)
  show ?case
  proof (cases xs)
    case Nil
    have "strncpy_loop (Suc n) d s m = set_bytes (Suc n) d 0 m" using Suc.prems(1) Nil by simp
    also have "\<dots> = (\<lambda>x. if unat (x - d) < Suc n then 0 else m x)" by (rule set_bytes_eq [OF Suc.prems(2)])
    finally show ?thesis unfolding Nil by (simp del: strncpy_loop.simps add: fun_eq_iff)
  next
    case (Cons c cs)
    let ?m = "m(d := m s)"
    have nd: "s + of_nat i \<noteq> d" if "i \<le> length xs" for i using Suc.prems(3) [of i 0] that by simp
    have keep: "str_at ?m a ys" if "str_at m a ys" "\<And>i. i \<le> length ys \<Longrightarrow> a + of_nat i \<noteq> d" for a ys
      using that
    proof (induction m a ys rule: str_at.induct)
      case (2 m a y ys)
      have "a + 1 + of_nat i \<noteq> d" if "i \<le> length ys" for i
        using 2(3) [of "Suc i"] that by (simp add: add.assoc)
      then show ?case using 2 2(3) [of 0] by simp
    qed (auto dest: spec [of _ "0 :: nat"])
    have tl: "str_at ?m (s + 1) cs"
    proof (rule keep)
      show "str_at m (s + 1) cs" using Suc.prems(1) Cons by simp
      show "s + 1 + of_nat i \<noteq> d" if "i \<le> length cs" for i using nd [of "Suc i"] that Cons by (simp add: add.assoc)
    qed
    have IH: "strncpy_loop n (d + 1) (s + 1) ?m =
      (\<lambda>x. if unat (x - (d + 1)) < n then if unat (x - (d + 1)) < length cs then ?m (s + 1 + (x - (d + 1))) else 0 else ?m x)"
    proof (rule Suc.IH [OF tl])
      show "n \<le> 2 ^ 32" using Suc.prems(2) by simp
      fix i j assume "i \<le> length cs" "j < n"
      then have "s + of_nat (Suc i) \<noteq> d + of_nat (Suc j)" by (intro Suc.prems(3)) (simp_all add: Cons)
      then show "s + 1 + of_nat i \<noteq> d + 1 + of_nat j" by (simp add: add.assoc)
    qed
    have "strncpy_loop (Suc n) d s m = strncpy_loop n (d + 1) (s + 1) ?m" using Suc.prems(1) Cons by simp
    also have "\<dots> = (\<lambda>x. if unat (x - d) < Suc n then if unat (x - d) < length xs then m (s + (x - d)) else 0 else m x)"
      unfolding IH
    proof
      fix x
      show "(if unat (x - (d + 1)) < n then if unat (x - (d + 1)) < length cs then ?m (s + 1 + (x - (d + 1))) else 0 else ?m x) =
        (if unat (x - d) < Suc n then if unat (x - d) < length xs then m (s + (x - d)) else 0 else m x)"
      proof (cases "x = d")
        case True
        then show ?thesis using unat_diff_step(2) [of d] Suc.prems(2) Cons by simp
      next
        case False
        note u = unat_diff_step(1) [OF False]
        have e: "s + 1 + (x - (d + 1)) = s + (x - d)" by simp
        have "s + (x - d) \<noteq> d" if "unat (x - d) < length xs"
          using nd [of "unat (x - d)"] that by simp
        then show ?thesis using u False unfolding e Cons by auto
      qed
    qed
    finally show ?thesis .
  qed
qed simp

lemma rt_strncpy_spec:
  assumes "str_at m src xs" "\<And>i j. i \<le> length xs \<Longrightarrow> j < unat n \<Longrightarrow> src + of_nat i \<noteq> dst + of_nat j" "n \<noteq> 0"
  shows "rt_strncpy dst src n m =
    (\<lambda>x. if x - dst < n then if unat (x - dst) < length xs then m (src + (x - dst)) else 0 else m x)"
proof -
  have "unat n < 2 ^ 32" using unsigned_less [of n] by simp
  then have "unat n \<le> 2 ^ 32" by simp
  from strncpy_loop_spec [OF assms(1) this assms(2)] show ?thesis
    using assms(3) by (simp add: rt_strncpy_def word_less_nat_alt)
qed

end
