(* ===== verification/Small_Mem.thy ===== *)
theory Small_Mem
  imports Semaphore Kservice_Mem
begin

text \<open>
  \<^verbatim>\<open>rt-thread/src/mem.c\<close>: the system heap, a row of blocks with a 12-byte header each in one
  area of memory.  The memory is modelled byte by byte, so the headers, the freed blocks and the
  data of the callers share it as they do in the code; addresses and sizes are 32-bit words and
  every sum and difference wraps as in C.  Pointers are addresses, \<^verbatim>\<open>RT_NULL\<close> is 0.
\<close>

subsection \<open>Headers in memory\<close>

record heap_mem =
  hm_magic :: u16
  hm_used :: u16
  hm_next :: u32
  hm_prev :: u32

definition bytes16 :: "u16 \<Rightarrow> u8 list" where
  "bytes16 v = [ucast v, ucast (drop_bit 8 v)]"

definition word16 :: "u8 \<Rightarrow> u8 \<Rightarrow> u16" where
  "word16 a b = ucast a OR push_bit 8 (ucast b)"

text \<open>The layout of \<^verbatim>\<open>struct heap_mem\<close> on the little-endian target.\<close>

definition encode_mem :: "heap_mem \<Rightarrow> u8 list" where
  "encode_mem m = bytes16 (hm_magic m) @ bytes16 (hm_used m) @ bytes32 (hm_next m) @ bytes32 (hm_prev m)"

definition decode_mem :: "(nat \<Rightarrow> u8) \<Rightarrow> heap_mem" where
  "decode_mem b = \<lparr>hm_magic = word16 (b 0) (b 1), hm_used = word16 (b 2) (b 3),
     hm_next = word32 (b 4) (b 5) (b 6) (b 7), hm_prev = word32 (b 8) (b 9) (b 10) (b 11)\<rparr>"

text \<open>The static variables of the file and the memory; the heap's semaphore is a kernel object.\<close>

record heap =
  bytes :: memory
  heap_ptr :: u32
  heap_end :: u32
  lfree :: u32
  heap_sem :: oid
  mem_size_aligned :: u32
  used_mem :: u32
  max_mem :: u32

definition mem_at :: "heap \<Rightarrow> u32 \<Rightarrow> heap_mem" where
  "mem_at h p = decode_mem (\<lambda>i. bytes h (p + of_nat i))"

text \<open>An assignment to a field of the header at \<open>p\<close>.\<close>

definition set_mem :: "u32 \<Rightarrow> (heap_mem \<Rightarrow> heap_mem) \<Rightarrow> heap \<Rightarrow> heap" where
  "set_mem p f h = h\<lparr>bytes := (\<lambda>a. if unat (a - p) < 12 then encode_mem (f (mem_at h p)) ! unat (a - p) else bytes h a)\<rparr>"

abbreviation (input) HEAP_MAGIC :: u16 where "HEAP_MAGIC \<equiv> 0x1ea0"
abbreviation (input) SIZEOF_STRUCT_MEM :: u32 where "SIZEOF_STRUCT_MEM \<equiv> 12"
abbreviation (input) MIN_SIZE_ALIGNED :: u32 where "MIN_SIZE_ALIGNED \<equiv> 12"
abbreviation (input) RT_WAITING_FOREVER :: int where "RT_WAITING_FOREVER \<equiv> - 1"

subsection \<open>Operations\<close>

definition plug_next :: "u32 \<Rightarrow> heap \<Rightarrow> heap" where
  "plug_next mem h =
     (let nmem = heap_ptr h + hm_next (mem_at h mem)
      in if mem \<noteq> nmem \<and> hm_used (mem_at h nmem) = 0 \<and> nmem \<noteq> heap_end h
         then let h1 = (if lfree h = nmem then h\<lparr>lfree := mem\<rparr> else h);
                  h2 = set_mem mem (\<lambda>m. m\<lparr>hm_next := hm_next (mem_at h1 nmem)\<rparr>) h1
              in set_mem (heap_ptr h2 + hm_next (mem_at h2 nmem)) (\<lambda>m. m\<lparr>hm_prev := mem - heap_ptr h2\<rparr>) h2
         else h)"

definition plug_prev :: "u32 \<Rightarrow> heap \<Rightarrow> heap" where
  "plug_prev mem h =
     (let pmem = heap_ptr h + hm_prev (mem_at h mem)
      in if pmem \<noteq> mem \<and> hm_used (mem_at h pmem) = 0
         then let h1 = (if lfree h = mem then h\<lparr>lfree := pmem\<rparr> else h);
                  h2 = set_mem pmem (\<lambda>m. m\<lparr>hm_next := hm_next (mem_at h1 mem)\<rparr>) h1
              in set_mem (heap_ptr h2 + hm_next (mem_at h2 mem)) (\<lambda>m. m\<lparr>hm_prev := pmem - heap_ptr h2\<rparr>) h2
         else h)"

definition plug_holes :: "u32 \<Rightarrow> heap \<Rightarrow> heap option" where
  "plug_holes mem h =
     do {
       RT_ASSERT (heap_ptr h \<le> mem);
       RT_ASSERT (mem < heap_end h);
       RT_ASSERT (hm_used (mem_at h mem) = 0);
       Some (plug_prev mem (plug_next mem h))
     }"

definition rt_align_down :: "u32 \<Rightarrow> u32" where
  "rt_align_down n = n AND NOT 3"

definition heap_setup :: "u32 \<Rightarrow> u32 \<Rightarrow> heap \<Rightarrow> heap" where
  "heap_setup b n h =
     (let h1 = h\<lparr>mem_size_aligned := n, heap_ptr := b\<rparr>;
          h2 = set_mem b (\<lambda>_. \<lparr>hm_magic = HEAP_MAGIC, hm_used = 0, hm_next = n + SIZEOF_STRUCT_MEM, hm_prev = 0\<rparr>) h1;
          e = b + hm_next (mem_at h2 b)
      in set_mem e (\<lambda>_. \<lparr>hm_magic = HEAP_MAGIC, hm_used = 1, hm_next = n + SIZEOF_STRUCT_MEM, hm_prev = n + SIZEOF_STRUCT_MEM\<rparr>)
           (h2\<lparr>heap_end := e\<rparr>))"

definition rt_system_heap_init :: "u32 \<Rightarrow> u32 \<Rightarrow> heap \<Rightarrow> kernel \<Rightarrow> (heap \<times> kernel) option" where
  "rt_system_heap_init begin_addr end_addr h k =
     do {
       let begin_align = rt_align begin_addr;
       let end_align = rt_align_down end_addr;
       RT_ASSERT (not_in_interrupt k);
       (if end_align > 2 * SIZEOF_STRUCT_MEM \<and> end_align - 2 * SIZEOF_STRUCT_MEM \<ge> begin_align
        then do {
          let h1 = heap_setup begin_align (end_align - begin_align - 2 * SIZEOF_STRUCT_MEM) h;
          (_, k1) \<leftarrow> rt_sem_init (heap_sem h) [0x68, 0x65, 0x61, 0x70] 1 RT_IPC_FLAG_FIFO k;
          Some (h1\<lparr>lfree := heap_ptr h1\<rparr>, k1)
        }
        else Some (h, k))
     }"

text \<open>
  The \<^verbatim>\<open>for\<close> loop of \<^verbatim>\<open>rt_malloc\<close> up to the block it takes, and the loop that moves \<^verbatim>\<open>lfree\<close>.  Both
  follow the links in memory, and may follow them for ever.
\<close>

partial_function (option) find_fit :: "u32 \<Rightarrow> heap \<Rightarrow> u32 \<Rightarrow> u32 option option" where
  "find_fit n h ptr =
     (if ptr < mem_size_aligned h - n
      then if hm_used (mem_at h (heap_ptr h + ptr)) = 0 \<and>
              hm_next (mem_at h (heap_ptr h + ptr)) - (ptr + SIZEOF_STRUCT_MEM) \<ge> n
           then Some (Some ptr)
           else find_fit n h (hm_next (mem_at h (heap_ptr h + ptr)))
      else Some None)"

partial_function (option) next_free :: "heap \<Rightarrow> u32 \<Rightarrow> u32 option" where
  "next_free h p =
     (if hm_used (mem_at h p) \<noteq> 0 \<and> p \<noteq> heap_end h
      then next_free h (heap_ptr h + hm_next (mem_at h p))
      else Some p)"

definition mem_stat :: "u32 \<Rightarrow> heap \<Rightarrow> heap" where
  "mem_stat n h = (let u = used_mem h + n in h\<lparr>used_mem := u, max_mem := (if max_mem h < u then u else max_mem h)\<rparr>)"

text \<open>The block at \<open>ptr\<close> is cut behind \<open>sz\<close> bytes; the rest becomes a free block.\<close>

definition split_block :: "u32 \<Rightarrow> u32 \<Rightarrow> heap \<Rightarrow> heap" where
  "split_block ptr sz h =
     (let mem = heap_ptr h + ptr; ptr2 = ptr + SIZEOF_STRUCT_MEM + sz; mem2 = heap_ptr h + ptr2;
          h1 = set_mem mem2 (\<lambda>m. \<lparr>hm_magic = HEAP_MAGIC, hm_used = 0, hm_next = hm_next (mem_at h mem), hm_prev = ptr\<rparr>) h;
          h2 = set_mem mem (\<lambda>m. m\<lparr>hm_next := ptr2\<rparr>) h1
      in if hm_next (mem_at h2 mem2) \<noteq> mem_size_aligned h2 + SIZEOF_STRUCT_MEM
         then set_mem (heap_ptr h2 + hm_next (mem_at h2 mem2)) (\<lambda>m. m\<lparr>hm_prev := ptr2\<rparr>) h2
         else h2)"

definition take_block :: "u32 \<Rightarrow> u32 \<Rightarrow> heap \<Rightarrow> heap" where
  "take_block ptr sz h =
     (let mem = heap_ptr h + ptr;
          use = set_mem mem (\<lambda>m. m\<lparr>hm_used := 1\<rparr>);
          h1 = (if hm_next (mem_at h mem) - (ptr + SIZEOF_STRUCT_MEM) \<ge> sz + SIZEOF_STRUCT_MEM + MIN_SIZE_ALIGNED
                then mem_stat (sz + SIZEOF_STRUCT_MEM) (use (split_block ptr sz h))
                else mem_stat (hm_next (mem_at h mem) - (mem - heap_ptr h)) (use h))
      in set_mem mem (\<lambda>m. m\<lparr>hm_magic := HEAP_MAGIC\<rparr>) h1)"

text \<open>What \<^verbatim>\<open>rt_malloc\<close> does between taking and releasing the semaphore.\<close>

definition malloc_section :: "u32 \<Rightarrow> heap \<Rightarrow> (u32 \<times> heap) option" where
  "malloc_section sz h =
     do {
       r \<leftarrow> find_fit sz h (lfree h - heap_ptr h);
       (case r of
          None \<Rightarrow> Some (0, h)
        | Some ptr \<Rightarrow> do {
            let mem = heap_ptr h + ptr;
            let h1 = take_block ptr sz h;
            (if mem = lfree h1
             then do {
               l \<leftarrow> next_free h1 (lfree h1);
               RT_ASSERT (l = heap_end h1 \<or> hm_used (mem_at h1 l) = 0);
               Some (mem + SIZEOF_STRUCT_MEM, h1\<lparr>lfree := l\<rparr>)
             }
             else Some (mem + SIZEOF_STRUCT_MEM, h1))
          })
     }"

text \<open>
  From the return of \<^verbatim>\<open>rt_sem_take\<close>, whose result is not looked at, to the end: this is also what a
  call that had to wait does when it runs again.
\<close>

definition rt_malloc_return :: "u32 \<Rightarrow> heap \<Rightarrow> kernel \<Rightarrow> (u32 option \<times> heap \<times> kernel) option" where
  "rt_malloc_return sz h k =
     do {
       (p, h1) \<leftarrow> malloc_section sz h;
       (_, k1) \<leftarrow> rt_sem_release (heap_sem h) k;
       (if p = 0 then Some (Some 0, h1, k1)
        else do {
          RT_ASSERT (p + sz \<le> heap_end h1);
          RT_ASSERT (p mod 4 = 0);
          RT_ASSERT ((p - SIZEOF_STRUCT_MEM) AND 3 = 0);
          Some (Some p, h1, k1)
        })
     }"

text \<open>The result \<open>None\<close> is a call that waits for the semaphore.\<close>

definition rt_malloc :: "u32 \<Rightarrow> heap \<Rightarrow> kernel \<Rightarrow> (u32 option \<times> heap \<times> kernel) option" where
  "rt_malloc sz h k =
     (if sz = 0 then Some (Some 0, h, k)
      else do {
        RT_ASSERT (not_in_interrupt k);
        let sz1 = rt_align sz;
        (if sz1 > mem_size_aligned h then Some (Some 0, h, k)
         else do {
           let sz2 = (if sz1 < MIN_SIZE_ALIGNED then MIN_SIZE_ALIGNED else sz1);
           (r, k1) \<leftarrow> rt_sem_take (heap_sem h) RT_WAITING_FOREVER k;
           (case r of
              None \<Rightarrow> Some (None, h, k1)
            | Some _ \<Rightarrow> rt_malloc_return sz2 h k1)
         })
      })"

definition free_section :: "u32 \<Rightarrow> heap \<Rightarrow> heap option" where
  "free_section rmem h =
     do {
       let mem = rmem - SIZEOF_STRUCT_MEM;
       RT_ASSERT (hm_used (mem_at h mem) \<noteq> 0);
       RT_ASSERT (hm_magic (mem_at h mem) = HEAP_MAGIC);
       let h1 = set_mem mem (\<lambda>m. m\<lparr>hm_magic := HEAP_MAGIC\<rparr>) (set_mem mem (\<lambda>m. m\<lparr>hm_used := 0\<rparr>) h);
       let h2 = (if mem < lfree h1 then h1\<lparr>lfree := mem\<rparr> else h1);
       let h3 = h2\<lparr>used_mem := used_mem h2 - (hm_next (mem_at h2 mem) - (mem - heap_ptr h2))\<rparr>;
       plug_holes mem h3
     }"

definition rt_free_return :: "u32 \<Rightarrow> heap \<Rightarrow> kernel \<Rightarrow> (unit option \<times> heap \<times> kernel) option" where
  "rt_free_return rmem h k =
     do {
       h1 \<leftarrow> free_section rmem h;
       (_, k1) \<leftarrow> rt_sem_release (heap_sem h1) k;
       Some (Some (), h1, k1)
     }"

definition rt_free :: "u32 \<Rightarrow> heap \<Rightarrow> kernel \<Rightarrow> (unit option \<times> heap \<times> kernel) option" where
  "rt_free rmem h k =
     (if rmem = 0 then Some (Some (), h, k)
      else do {
        RT_ASSERT (not_in_interrupt k);
        RT_ASSERT (rmem AND 3 = 0);
        RT_ASSERT (heap_ptr h \<le> rmem \<and> rmem < heap_end h);
        (r, k1) \<leftarrow> rt_sem_take (heap_sem h) RT_WAITING_FOREVER k;
        (case r of
           None \<Rightarrow> Some (None, h, k1)
         | Some _ \<Rightarrow> rt_free_return rmem h k1)
      })"

text \<open>The routines of \<^verbatim>\<open>kservice.c\<close> on the memory of the heap.\<close>

definition heap_memcpy :: "u32 \<Rightarrow> u32 \<Rightarrow> u32 \<Rightarrow> heap \<Rightarrow> heap" where
  "heap_memcpy dst src n h = h\<lparr>bytes := rt_memcpy dst src n (bytes h)\<rparr>"

definition heap_memset :: "u32 \<Rightarrow> u32 \<Rightarrow> u32 \<Rightarrow> heap \<Rightarrow> heap" where
  "heap_memset s c n h = h\<lparr>bytes := rt_memset s c n (bytes h)\<rparr>"

text \<open>
  \<^verbatim>\<open>rt_realloc\<close> under the semaphore: the size of the old block, and whether the call is finished.
\<close>

definition block_size_of :: "u32 \<Rightarrow> heap \<Rightarrow> u32" where
  "block_size_of rmem h =
     (let mem = rmem - SIZEOF_STRUCT_MEM; ptr = mem - heap_ptr h in hm_next (mem_at h mem) - ptr - SIZEOF_STRUCT_MEM)"

definition realloc_section :: "u32 \<Rightarrow> u32 \<Rightarrow> heap \<Rightarrow> (bool \<times> heap) option" where
  "realloc_section rmem newsize h =
     (if rmem < heap_ptr h \<or> rmem \<ge> heap_end h then Some (True, h)
      else
        let ptr = rmem - SIZEOF_STRUCT_MEM - heap_ptr h; sz = block_size_of rmem h
        in if sz = newsize then Some (True, h)
           else if newsize + SIZEOF_STRUCT_MEM + MIN_SIZE_ALIGNED < sz
           then do {
             let h1 = h\<lparr>used_mem := used_mem h - (sz - newsize)\<rparr>;
             h2 \<leftarrow> plug_holes (heap_ptr h + (ptr + SIZEOF_STRUCT_MEM + newsize)) (split_block ptr newsize h1);
             Some (True, h2)
           }
           else Some (False, h))"

text \<open>
  From the return of the second \<^verbatim>\<open>rt_malloc\<close>; \<open>sz\<close> is the size of the old block.  A call inside
  that waits makes the whole call wait.
\<close>

definition realloc_copy ::
  "u32 \<Rightarrow> u32 \<Rightarrow> u32 \<Rightarrow> u32 \<Rightarrow> heap \<Rightarrow> kernel \<Rightarrow> (u32 option \<times> heap \<times> kernel) option" where
  "realloc_copy nmem rmem sz newsize h k =
     (if nmem = 0 then Some (Some 0, h, k)
      else do {
        let h1 = heap_memcpy nmem rmem (if sz < newsize then sz else newsize) h;
        (r, h2, k2) \<leftarrow> rt_free rmem h1 k;
        Some (case r of None \<Rightarrow> None | Some _ \<Rightarrow> Some nmem, h2, k2)
      })"

definition rt_realloc_return ::
  "u32 \<Rightarrow> u32 \<Rightarrow> heap \<Rightarrow> kernel \<Rightarrow> (u32 option \<times> heap \<times> kernel) option" where
  "rt_realloc_return rmem newsize h k =
     do {
       let sz = block_size_of rmem h;
       (fin, h1) \<leftarrow> realloc_section rmem newsize h;
       (_, k1) \<leftarrow> rt_sem_release (heap_sem h1) k;
       (if fin then Some (Some rmem, h1, k1)
        else do {
          (r, h2, k2) \<leftarrow> rt_malloc newsize h1 k1;
          (case r of
             None \<Rightarrow> Some (None, h2, k2)
           | Some nmem \<Rightarrow> realloc_copy nmem rmem sz newsize h2 k2)
        })
     }"

definition rt_realloc :: "u32 \<Rightarrow> u32 \<Rightarrow> heap \<Rightarrow> kernel \<Rightarrow> (u32 option \<times> heap \<times> kernel) option" where
  "rt_realloc rmem sz h k =
     do {
       RT_ASSERT (not_in_interrupt k);
       let newsize = rt_align sz;
       (if newsize > mem_size_aligned h then Some (Some 0, h, k)
        else if newsize = 0
        then do {
          (r, h1, k1) \<leftarrow> rt_free rmem h k;
          Some (map_option (\<lambda>_. 0) r, h1, k1)
        }
        else if rmem = 0 then rt_malloc newsize h k
        else do {
          (r, k1) \<leftarrow> rt_sem_take (heap_sem h) RT_WAITING_FOREVER k;
          (case r of
             None \<Rightarrow> Some (None, h, k1)
           | Some _ \<Rightarrow> rt_realloc_return rmem newsize h k1)
        })
     }"

text \<open>The part of \<^verbatim>\<open>rt_calloc\<close> behind its \<^verbatim>\<open>rt_malloc\<close>.\<close>

definition calloc_zero :: "u32 \<Rightarrow> u32 \<Rightarrow> heap \<Rightarrow> heap" where
  "calloc_zero p n h = (if p \<noteq> 0 then heap_memset p 0 n h else h)"

definition rt_calloc :: "u32 \<Rightarrow> u32 \<Rightarrow> heap \<Rightarrow> kernel \<Rightarrow> (u32 option \<times> heap \<times> kernel) option" where
  "rt_calloc count sz h k =
     do {
       (r, h1, k1) \<leftarrow> rt_malloc (count * sz) h k;
       Some (r, case r of None \<Rightarrow> h1 | Some p \<Rightarrow> calloc_zero p (count * sz) h1, k1)
     }"

definition rt_memory_info :: "heap \<Rightarrow> u32 \<times> u32 \<times> u32" where
  "rt_memory_info h = (mem_size_aligned h, used_mem h, max_mem h)"

end
