(* ===== verification/Heap_Blocks.thy ===== *)
theory Heap_Blocks
  imports Small_Mem
begin

text \<open>
  The heap of \<^theory_text>\<open>Small_Mem\<close> seen as a list of blocks, each a size and whether it is in use: the
  links in memory lay the list out without gaps.  The lemmas say what the operations do to it.
\<close>

subsection \<open>Headers\<close>

lemma word16_bytes [simp]: "word16 (ucast v) (ucast (drop_bit 8 v)) = v"
  unfolding word16_def by (rule bit_word_eqI) (auto simp: bit_simps)

lemma encode_decode [simp]: "decode_mem (\<lambda>i. encode_mem m ! i) = m"
  by (simp add: decode_mem_def encode_mem_def bytes16_def bytes32_def)

lemma decode_cong: "(\<And>i. i < 12 \<Longrightarrow> b i = c i) \<Longrightarrow> decode_mem b = decode_mem c"
  by (simp add: decode_mem_def)

lemma set_mem_sel [simp]:
  "heap_ptr (set_mem p f h) = heap_ptr h" "heap_end (set_mem p f h) = heap_end h" "lfree (set_mem p f h) = lfree h"
  "heap_sem (set_mem p f h) = heap_sem h" "mem_size_aligned (set_mem p f h) = mem_size_aligned h"
  "used_mem (set_mem p f h) = used_mem h" "max_mem (set_mem p f h) = max_mem h"
  by (simp_all add: set_mem_def)

lemma mem_at_upd [simp]:
  "mem_at (h\<lparr>lfree := x\<rparr>) p = mem_at h p" "mem_at (h\<lparr>used_mem := y\<rparr>) p = mem_at h p"
  "mem_at (h\<lparr>max_mem := y\<rparr>) p = mem_at h p" "mem_at (h\<lparr>heap_end := x\<rparr>) p = mem_at h p"
  "mem_at (h\<lparr>mem_size_aligned := x\<rparr>) p = mem_at h p" "mem_at (h\<lparr>heap_ptr := x\<rparr>) p = mem_at h p"
  by (simp_all add: mem_at_def)

lemma mem_at_set_same: "mem_at (set_mem p f h) p = f (mem_at h p)"
proof -
  have "unat (of_nat i :: u32) = i" if "i < 12" for i using that by (simp add: unat_of_nat)
  then have "mem_at (set_mem p f h) p = decode_mem (\<lambda>i. encode_mem (f (mem_at h p)) ! i)"
    unfolding mem_at_def [of "set_mem p f h"] by (intro decode_cong) (simp add: set_mem_def)
  then show ?thesis by simp
qed

lemma bytes_set: "12 \<le> unat (a - p) \<Longrightarrow> bytes (set_mem p f h) a = bytes h a"
  by (simp add: set_mem_def)

text \<open>Offsets from the start of the heap, as natural numbers.\<close>

definition at :: "heap \<Rightarrow> nat \<Rightarrow> u32" where
  "at h n = heap_ptr h + of_nat n"

definition hdr_at :: "heap \<Rightarrow> nat \<Rightarrow> heap_mem" where
  "hdr_at h n = mem_at h (at h n)"

lemma at_cong [simp]:
  "at (set_mem p f h) n = at h n" "at (h\<lparr>lfree := x\<rparr>) n = at h n" "at (h\<lparr>used_mem := y\<rparr>) n = at h n"
  "at (h\<lparr>max_mem := y\<rparr>) n = at h n" "at (h\<lparr>heap_end := x\<rparr>) n = at h n" "at (h\<lparr>bytes := b\<rparr>) n = at h n"
  by (simp_all add: at_def)

lemma unat_at_diff:
  assumes "n < 2 ^ 32" "m < 2 ^ 32"
  shows "unat (at h n - at h m) = (if m \<le> n then n - m else 2 ^ 32 + n - m)"
proof -
  have d: "at h n - at h m = of_nat n - of_nat m" by (simp add: at_def)
  show ?thesis
  proof (cases "m \<le> n")
    case True
    have "unat (of_nat n :: u32) = n" "unat (of_nat m :: u32) = m" using True assms by (simp_all add: unat_of_nat)
    then show ?thesis using True unat_sub [of "of_nat m" "of_nat n :: u32"] by (simp add: d word_le_nat_alt)
  next
    case False
    define e where "e = 2 ^ 32 + n - m"
    then have e: "e + m = 2 ^ 32 + n" "e < 2 ^ 32" using False assms by simp_all
    have "(of_nat (e + m) :: u32) = of_nat n" unfolding e(1) by simp
    then have "(of_nat n :: u32) - of_nat m = of_nat e" by (simp add: algebra_simps)
    then show ?thesis using False e by (simp add: d unat_of_nat)
  qed
qed

lemma at_eq_iff: "n < 2 ^ 32 \<Longrightarrow> m < 2 ^ 32 \<Longrightarrow> at h n = at h m \<longleftrightarrow> n = m"
  using unat_at_diff [of n m h] by (auto split: if_splits)

definition apart :: "nat \<Rightarrow> nat \<Rightarrow> bool" where
  "apart m d \<longleftrightarrow> d < m \<or> m + 12 \<le> d"

lemma byte_set:
  "apart m d \<Longrightarrow> m + 12 \<le> 2 ^ 32 \<Longrightarrow> d < 2 ^ 32 \<Longrightarrow> bytes (set_mem (at h m) f h) (at h d) = bytes h (at h d)"
  by (rule bytes_set) (auto simp: unat_at_diff apart_def)

lemma hdr_set:
  assumes "n = m \<or> n + 12 \<le> m \<or> m + 12 \<le> n" "n + 12 \<le> 2 ^ 32" "m + 12 \<le> 2 ^ 32"
  shows "hdr_at (set_mem (at h m) f h) n = (if n = m then f (hdr_at h m) else hdr_at h n)"
proof (cases "n = m")
  case True
  then show ?thesis by (simp add: hdr_at_def mem_at_set_same)
next
  case False
  have "bytes (set_mem (at h m) f h) (at h n + of_nat i) = bytes h (at h n + of_nat i)" if "i < 12" for i
  proof -
    have "at h n + of_nat i = at h (n + i)" by (simp add: at_def)
    then show ?thesis using byte_set [of m "n + i" h f] that False assms by (auto simp: apart_def)
  qed
  then have "mem_at (set_mem (at h m) f h) (at h n) = mem_at h (at h n)"
    unfolding mem_at_def by (rule decode_cong)
  then show ?thesis using False by (simp add: hdr_at_def)
qed

lemma hdr_at_upd [simp]:
  "hdr_at (h\<lparr>lfree := x\<rparr>) n = hdr_at h n" "hdr_at (h\<lparr>used_mem := y\<rparr>) n = hdr_at h n"
  "hdr_at (h\<lparr>max_mem := y\<rparr>) n = hdr_at h n" "hdr_at (h\<lparr>heap_end := x\<rparr>) n = hdr_at h n"
  by (simp_all add: hdr_at_def)

subsection \<open>Rows of blocks\<close>

type_synonym blk = "nat \<times> bool"

fun end_of :: "nat \<Rightarrow> blk list \<Rightarrow> nat" where
  "end_of n [] = n"
| "end_of n ((z, u) # bs) = end_of (n + 12 + z) bs"

fun prev_of :: "nat \<Rightarrow> nat \<Rightarrow> blk list \<Rightarrow> nat" where
  "prev_of p n [] = p"
| "prev_of p n ((z, u) # bs) = prev_of n (n + 12 + z) bs"

fun blks :: "heap \<Rightarrow> nat \<Rightarrow> nat \<Rightarrow> blk list \<Rightarrow> bool" where
  "blks h n p [] \<longleftrightarrow> True"
| "blks h n p ((z, u) # bs) \<longleftrightarrow>
     hdr_at h n = \<lparr>hm_magic = HEAP_MAGIC, hm_used = of_bool u, hm_next = of_nat (n + 12 + z), hm_prev = of_nat p\<rparr> \<and>
     blks h (n + 12 + z) n bs"

text \<open>The offsets of the free blocks, of the bytes that callers hold, and the memory in use.\<close>

fun frees :: "nat \<Rightarrow> blk list \<Rightarrow> nat set" where
  "frees n [] = {}"
| "frees n ((z, u) # bs) = (if u then {} else {n}) \<union> frees (n + 12 + z) bs"

fun held :: "nat \<Rightarrow> blk list \<Rightarrow> nat set" where
  "held n [] = {}"
| "held n ((z, u) # bs) = (if u then {n + 12..<n + 12 + z} else {}) \<union> held (n + 12 + z) bs"

fun in_use :: "blk list \<Rightarrow> nat" where
  "in_use [] = 0"
| "in_use ((z, u) # bs) = (if u then 12 + z else 0) + in_use bs"

fun tidy :: "blk list \<Rightarrow> bool" where
  "tidy ((_, False) # (z, False) # bs) = False"
| "tidy (b # bs) = tidy bs"
| "tidy [] = True"

lemma end_of_append [simp]: "end_of n (xs @ ys) = end_of (end_of n xs) ys"
  by (induction n xs rule: end_of.induct) auto

lemma prev_of_append [simp]: "prev_of p n (xs @ ys) = prev_of (prev_of p n xs) (end_of n xs) ys"
  by (induction p n xs rule: prev_of.induct) auto

lemma blks_append [simp]: "blks h n p (xs @ ys) \<longleftrightarrow> blks h n p xs \<and> blks h (end_of n xs) (prev_of p n xs) ys"
  by (induction h n p xs rule: blks.induct) auto

lemma frees_append [simp]: "frees n (xs @ ys) = frees n xs \<union> frees (end_of n xs) ys"
  by (induction n xs rule: frees.induct) auto

lemma held_append [simp]: "held n (xs @ ys) = held n xs \<union> held (end_of n xs) ys"
  by (induction n xs rule: held.induct) auto

lemma in_use_append [simp]: "in_use (xs @ ys) = in_use xs + in_use ys"
  by (induction xs rule: in_use.induct) auto

lemma end_of_ge: "n \<le> end_of n bs"
  by (induction n bs rule: end_of.induct) auto

lemma end_of_ge_append: "end_of n xs \<le> end_of n (xs @ ys)"
  by (simp add: end_of_ge)

lemma prev_of_le: "p \<le> n \<Longrightarrow> prev_of p n bs \<le> end_of n bs"
  by (induction p n bs rule: prev_of.induct) auto

lemma prev_of_12: "p + 12 \<le> n \<or> bs \<noteq> [] \<Longrightarrow> prev_of p n bs + 12 \<le> end_of n bs"
  by (induction p n bs rule: prev_of.induct) auto

lemma frees_bounds: "q \<in> frees n bs \<Longrightarrow> n \<le> q \<and> q + 12 \<le> end_of n bs"
proof (induction n bs rule: frees.induct)
  case (2 n z u bs)
  then show ?case using end_of_ge [of "n + 12 + z" bs] by (auto split: if_splits)
qed simp

lemma held_bounds: "d \<in> held n bs \<Longrightarrow> n + 12 \<le> d \<and> d < end_of n bs"
proof (induction n bs rule: held.induct)
  case (2 n z u bs)
  then show ?case using end_of_ge [of "n + 12 + z" bs] by (auto split: if_splits)
qed simp

lemma frees_split:
  assumes "q \<in> frees n bs"
  obtains xs z ys where "bs = xs @ (z, False) # ys" "q = end_of n xs"
  using assms
proof (induction n bs arbitrary: thesis rule: frees.induct)
  case (2 n z u bs)
  show ?case
  proof (cases "\<not> u \<and> q = n")
    case True
    then show ?thesis using 2(2) [of "[]" z bs] by simp
  next
    case False
    then have "q \<in> frees (n + 12 + z) bs" using 2(3) by (auto split: if_splits)
    then obtain xs z' ys where "bs = xs @ (z', False) # ys" "q = end_of (n + 12 + z) xs" using 2(1) by blast
    then show ?thesis using 2(2) [of "(z, u) # xs" z' ys] by simp
  qed
qed simp

lemma blks_frame:
  assumes "blks h n p bs" "heap_ptr h' = heap_ptr h" "\<And>q. n \<le> q \<Longrightarrow> q + 12 \<le> end_of n bs \<Longrightarrow> hdr_at h' q = hdr_at h q"
  shows "blks h' n p bs"
  using assms
proof (induction h n p bs rule: blks.induct)
  case (2 h n p z u bs)
  have "n + 12 \<le> end_of n ((z, u) # bs)" using end_of_ge [of "n + 12 + z" bs] by simp
  then show ?case using 2 by auto
qed simp

lemma blks_set:
  assumes "blks h n p bs" "m + 12 \<le> n \<or> end_of n bs \<le> m" "m + 12 \<le> 2 ^ 32" "end_of n bs \<le> 2 ^ 32"
  shows "blks (set_mem (at h m) f h) n p bs"
  by (rule blks_frame [OF assms(1)]) (use assms in \<open>auto simp: hdr_set\<close>)

lemma blks_upd [simp]:
  "blks (h\<lparr>lfree := x\<rparr>) n p bs = blks h n p bs" "blks (h\<lparr>used_mem := y\<rparr>) n p bs = blks h n p bs"
  "blks (h\<lparr>max_mem := y\<rparr>) n p bs = blks h n p bs" "blks (h\<lparr>heap_end := x\<rparr>) n p bs = blks h n p bs"
  by (induction h n p bs rule: blks.induct) auto

subsection \<open>Replacing a part of the row\<close>

text \<open>An assignment to the header at offset \<open>n\<close>.\<close>

definition put :: "nat \<Rightarrow> (heap_mem \<Rightarrow> heap_mem) \<Rightarrow> heap \<Rightarrow> heap" where
  "put n f h = set_mem (at h n) f h"

lemma put_sel [simp]:
  "heap_ptr (put n f h) = heap_ptr h" "heap_end (put n f h) = heap_end h" "lfree (put n f h) = lfree h"
  "heap_sem (put n f h) = heap_sem h" "mem_size_aligned (put n f h) = mem_size_aligned h"
  "used_mem (put n f h) = used_mem h" "max_mem (put n f h) = max_mem h" "at (put n f h) m = at h m"
  by (simp_all add: put_def)

lemma hdr_put:
  "n = m \<or> n + 12 \<le> m \<or> m + 12 \<le> n \<Longrightarrow> n + 12 \<le> 2 ^ 32 \<Longrightarrow> m + 12 \<le> 2 ^ 32 \<Longrightarrow>
   hdr_at (put m f h) n = (if n = m then f (hdr_at h m) else hdr_at h n)"
  unfolding put_def by (rule hdr_set)

text \<open>The blocks fill the heap from its start to the end block; address 0 is not part of a heap.\<close>

definition row :: "heap \<Rightarrow> blk list \<Rightarrow> bool" where
  "row h bs \<longleftrightarrow> blks h 0 0 bs \<and> bs \<noteq> [] \<and> end_of 0 bs = unat (mem_size_aligned h) + 12 \<and>
     heap_end h = at h (end_of 0 bs) \<and> hm_used (hdr_at h (end_of 0 bs)) = 1 \<and>
     unat (heap_ptr h) + end_of 0 bs + 12 \<le> 2 ^ 32 \<and> heap_ptr h \<noteq> 0 \<and> unat (heap_ptr h) mod 4 = 0 \<and> (\<forall>(z, u)\<in>set bs. z mod 4 = 0)"

text \<open>\<open>same_vars\<close>: equal up to the memory, \<^verbatim>\<open>lfree\<close> and the statistics.\<close>

definition same_vars :: "heap \<Rightarrow> heap \<Rightarrow> bool" where
  "same_vars h h' \<longleftrightarrow> heap_ptr h' = heap_ptr h \<and> heap_end h' = heap_end h \<and> heap_sem h' = heap_sem h \<and>
     mem_size_aligned h' = mem_size_aligned h"

lemma row_replace:
  assumes r: "row h (xs @ b1 @ ys)" and n: "n = end_of 0 xs" and m: "m = end_of n b1" "end_of n b2 = m" and ne: "b2 \<noteq> []"
    and v: "same_vars h h'"
    and low: "\<And>q. q + 12 \<le> n \<Longrightarrow> hdr_at h' q = hdr_at h q"
    and high: "\<And>q. m + 12 \<le> q \<Longrightarrow> q \<le> end_of m ys \<Longrightarrow> hdr_at h' q = hdr_at h q"
    and mid: "blks h' n (prev_of 0 0 xs) b2"
    and at_m: "hm_used (hdr_at h' m) = hm_used (hdr_at h m)"
      "ys \<noteq> [] \<Longrightarrow> hdr_at h' m = (hdr_at h m)\<lparr>hm_prev := of_nat (prev_of (prev_of 0 0 xs) n b2)\<rparr>"
    and al: "\<forall>(z, u)\<in>set b2. z mod 4 = 0"
  shows "row h' (xs @ b2 @ ys)"
proof -
  have hp: "heap_ptr h' = heap_ptr h" "heap_end h' = heap_end h" "mem_size_aligned h' = mem_size_aligned h"
    using v by (simp_all add: same_vars_def)
  have at: "at h' = at h" using hp by (simp add: at_def fun_eq_iff)
  have E: "end_of 0 (xs @ b2 @ ys) = end_of 0 (xs @ b1 @ ys)" "end_of 0 (xs @ b1 @ ys) = end_of m ys"
    using n m by simp_all
  have b: "blks h 0 0 xs" "blks h m (prev_of (prev_of 0 0 xs) n b1) ys"
    using r n m by (simp_all add: row_def)
  have "blks h' 0 0 xs" by (rule blks_frame [OF b(1) hp(1)]) (use low n in auto)
  moreover have "blks h' m (prev_of (prev_of 0 0 xs) n b2) ys"
  proof (cases ys)
    case (Cons zu ys')
    obtain z u where zu: "zu = (z, u)" by (cases zu)
    have "blks h' (m + 12 + z) m ys'"
      by (rule blks_frame [of h]) (use b(2) hp high in \<open>auto simp: Cons zu\<close>)
    then show ?thesis using b(2) at_m(2) by (simp add: Cons zu)
  qed simp
  moreover have u: "hm_used (hdr_at h (end_of m ys)) = 1" using r unfolding row_def E(2) by blast
  have "hm_used (hdr_at h' (end_of m ys)) = 1"
  proof (cases "ys = []")
    case True
    then show ?thesis using at_m(1) u by simp
  next
    case False
    then obtain z u ys' where "ys = (z, u) # ys'" by (metis neq_Nil_conv surj_pair)
    then have "m + 12 \<le> end_of m ys" using end_of_ge [of "m + 12 + z" ys'] by simp
    then show ?thesis using high [of "end_of m ys"] u by simp
  qed
  ultimately show ?thesis using r mid n m ne al hp at E by (auto simp: row_def)
qed

lemma row_bounds:
  assumes "row h bs"
  shows "end_of 0 bs + 12 \<le> 2 ^ 32" "unat (heap_ptr h) + end_of 0 bs + 12 \<le> 2 ^ 32"
  using assms by (simp_all add: row_def)

lemma blks_prev: "blks h m p ys \<Longrightarrow> ys \<noteq> [] \<Longrightarrow> (hdr_at h m)\<lparr>hm_prev := of_nat p\<rparr> = hdr_at h m"
  by (cases ys) auto

text \<open>The three things that happen to blocks: marking one, cutting one, joining two free ones.\<close>

lemma row_mark:
  assumes r: "row h (xs @ (z, u) # ys)"
  shows "row (put (end_of 0 xs) (\<lambda>m. m\<lparr>hm_used := of_bool v, hm_magic := HEAP_MAGIC\<rparr>) h) (xs @ (z, v) # ys)"
proof -
  let ?n = "end_of 0 xs" and ?p = "prev_of 0 0 xs"
  let ?h = "put ?n (\<lambda>m. m\<lparr>hm_used := of_bool v, hm_magic := HEAP_MAGIC\<rparr>) h"
  have e: "end_of (?n + 12 + z) ys + 12 \<le> 2 ^ 32" "?n + 12 + z \<le> end_of (?n + 12 + z) ys"
    using row_bounds(1) [OF r] end_of_ge by simp_all
  have b: "blks h ?n ?p [(z, u)]" "blks h (?n + 12 + z) ?n ys" using r by (simp_all add: row_def)
  have "row ?h (xs @ [(z, v)] @ ys)"
  proof (rule row_replace [where n = ?n and m = "?n + 12 + z"])
    show "row h (xs @ [(z, u)] @ ys)" using r by simp
    show "hdr_at ?h q = hdr_at h q" if "q + 12 \<le> ?n" for q using that e by (simp add: hdr_put)
    show "hdr_at ?h q = hdr_at h q" if "?n + 12 + z + 12 \<le> q" "q \<le> end_of (?n + 12 + z) ys" for q
      using that e by (simp add: hdr_put)
    show "blks ?h ?n ?p [(z, v)]" using b e by (simp add: hdr_put)
    show "hm_used (hdr_at ?h (?n + 12 + z)) = hm_used (hdr_at h (?n + 12 + z))" using e by (simp add: hdr_put)
    show "hdr_at ?h (?n + 12 + z) = (hdr_at h (?n + 12 + z))\<lparr>hm_prev := of_nat (prev_of ?p ?n [(z, v)])\<rparr>" if "ys \<noteq> []"
      using that b blks_prev [OF b(2)] e by (simp add: hdr_put)
    show "\<forall>(z, u)\<in>set [(z, v)]. z mod 4 = 0" using r by (simp add: row_def)
  qed (simp_all add: same_vars_def)
  then show ?thesis by simp
qed

text \<open>\<open>keeps D h h'\<close>: the bytes at the offsets in \<open>D\<close>, and all bytes outside the heap, stay.\<close>

definition beyond :: "heap \<Rightarrow> nat set" where
  "beyond h = {d. unat (mem_size_aligned h) + 24 \<le> d \<and> d < 2 ^ 32}"

definition keeps :: "nat set \<Rightarrow> heap \<Rightarrow> heap \<Rightarrow> bool" where
  "keeps D h h' \<longleftrightarrow> mem_size_aligned h' = mem_size_aligned h \<and> (\<forall>d\<in>D \<union> beyond h. bytes h' (at h d) = bytes h (at h d))"

lemma byte_put:
  assumes "heap_ptr g = heap_ptr h" "apart m d" "m + 12 \<le> 2 ^ 32" "d < 2 ^ 32"
  shows "bytes (put m f h) (at g d) = bytes h (at g d)"
  using byte_set [of m d h f] assms by (simp add: put_def at_def)

lemma set_mem_put: "heap_ptr g = heap_ptr h \<Longrightarrow> set_mem (heap_ptr g + of_nat n) f h = put n f h"
  by (simp add: put_def at_def)

lemma mem_at_hdr: "heap_ptr g = heap_ptr h \<Longrightarrow> mem_at h (heap_ptr g + of_nat n) = hdr_at h n"
  by (simp add: hdr_at_def at_def)

definition cut :: "nat \<Rightarrow> nat \<Rightarrow> nat \<Rightarrow> bool \<Rightarrow> heap \<Rightarrow> heap" where
  "cut n m e l h =
     (let h2 = put n (\<lambda>m'. m'\<lparr>hm_next := of_nat m\<rparr>)
                 (put m (\<lambda>_. \<lparr>hm_magic = HEAP_MAGIC, hm_used = 0, hm_next = of_nat e, hm_prev = of_nat n\<rparr>) h)
      in if l then h2 else put e (\<lambda>m'. m'\<lparr>hm_prev := of_nat m\<rparr>) h2)"

lemma cut_sel [simp]:
  "heap_ptr (cut n m e l h) = heap_ptr h" "heap_end (cut n m e l h) = heap_end h" "lfree (cut n m e l h) = lfree h"
  "heap_sem (cut n m e l h) = heap_sem h" "mem_size_aligned (cut n m e l h) = mem_size_aligned h"
  "used_mem (cut n m e l h) = used_mem h" "max_mem (cut n m e l h) = max_mem h" "at (cut n m e l h) d = at h d"
  by (simp_all add: cut_def Let_def)

lemma row_mid:
  assumes "row h (xs @ (z, u) # ys)"
  shows "blks h (end_of 0 xs) (prev_of 0 0 xs) [(z, u)]" "blks h (end_of 0 xs + 12 + z) (end_of 0 xs) ys"
    "end_of (end_of 0 xs + 12 + z) ys + 12 \<le> 2 ^ 32" "end_of 0 xs + 12 + z \<le> end_of (end_of 0 xs + 12 + z) ys"
    "hm_next (hdr_at h (end_of 0 xs)) = of_nat (end_of 0 xs + 12 + z)" "z mod 4 = 0"
  using assms row_bounds(1) [OF assms] end_of_ge [of "end_of 0 xs + 12 + z" ys] unfolding row_def
  by (simp_all del: of_nat_add)

lemma beyond_row:
  "row h (xs @ (z, u) # ys) \<Longrightarrow> n = end_of 0 xs \<Longrightarrow> beyond h = {d. end_of (n + 12 + z) ys + 12 \<le> d \<and> d < 2 ^ 32}"
  by (simp add: beyond_def row_def add.commute)

lemma of_nat_eq32: "n < 2 ^ 32 \<Longrightarrow> m < 2 ^ 32 \<Longrightarrow> (of_nat n :: u32) = of_nat m \<longleftrightarrow> n = m"
  by (simp add: word_of_nat_eq_iff take_bit_nat_eq_self)

lemma row_end:
  assumes "row h bs" "n < 2 ^ 32"
  shows "of_nat n = mem_size_aligned h + SIZEOF_STRUCT_MEM \<longleftrightarrow> n = end_of 0 bs"
proof -
  have e: "end_of 0 bs = unat (mem_size_aligned h) + 12" "end_of 0 bs + 12 \<le> 2 ^ 32"
    using assms row_bounds by (simp_all add: row_def)
  have "mem_size_aligned h + SIZEOF_STRUCT_MEM = of_nat (end_of 0 bs)" unfolding e(1) by simp
  then show ?thesis using e(2) assms(2) of_nat_eq32 [of n "end_of 0 bs"] by auto
qed

lemma split_block_cut:
  assumes r: "row h (xs @ (z, u) # ys)" and n: "n = end_of 0 xs" and s: "sz + 12 \<le> z"
  shows "split_block (of_nat n) (of_nat sz) h = cut n (n + 12 + sz) (n + 12 + z) (ys = []) h"
proof -
  let ?m = "n + 12 + sz"
  note mid = row_mid [OF r, folded n]
  have w: "of_nat n + 12 + of_nat sz = (of_nat ?m :: u32)" by simp
  define h2 where "h2 = put n (\<lambda>m'. m'\<lparr>hm_next := of_nat ?m\<rparr>)
    (put ?m (\<lambda>_. \<lparr>hm_magic = HEAP_MAGIC, hm_used = 0, hm_next = of_nat (n + 12 + z), hm_prev = of_nat n\<rparr>) h)"
  have hp: "heap_ptr h2 = heap_ptr h" "mem_size_aligned h2 = mem_size_aligned h" by (simp_all add: h2_def)
  have nx: "hm_next (hdr_at h2 ?m) = of_nat (n + 12 + z)" using mid s by (simp add: h2_def hdr_put)
  have last: "of_nat (n + 12 + z) = mem_size_aligned h + 12 \<longleftrightarrow> ys = []"
  proof -
    have "end_of 0 (xs @ (z, u) # ys) = n + 12 + z \<longleftrightarrow> ys = []"
    proof (cases ys)
      case (Cons b ys')
      then show ?thesis using end_of_ge [of "n + 12 + z + 12 + fst b" ys'] by (cases b) (simp add: n)
    qed (simp add: n)
    moreover have "n + 12 + z < 2 ^ 32" using mid by simp
    ultimately show ?thesis using row_end [OF r] by metis
  qed
  have "split_block (of_nat n) (of_nat sz) h =
    (if hm_next (hdr_at h2 ?m) \<noteq> mem_size_aligned h2 + 12
     then set_mem (heap_ptr h2 + hm_next (hdr_at h2 ?m)) (\<lambda>m. m\<lparr>hm_prev := of_nat ?m\<rparr>) h2 else h2)"
    unfolding split_block_def Let_def w
    by (simp only: set_mem_put put_sel mem_at_hdr mid(5) h2_def)
  also have "\<dots> = cut n ?m (n + 12 + z) (ys = []) h"
    unfolding nx hp last cut_def Let_def h2_def [symmetric] using set_mem_put [OF hp(1) [symmetric]] by (simp del: of_nat_add)
  finally show ?thesis .
qed

lemma row_cut:
  assumes r: "row h (xs @ (z, u) # ys)" and n: "n = end_of 0 xs" and s: "sz + 12 \<le> z" "sz mod 4 = 0"
  shows "row (cut n (n + 12 + sz) (n + 12 + z) (ys = []) h) (xs @ (sz, u) # (z - sz - 12, False) # ys)"
proof -
  let ?m = "n + 12 + sz" and ?e = "n + 12 + z" and ?p = "prev_of 0 0 xs"
  let ?h = "cut n ?m ?e (ys = []) h" and ?b = "[(sz, u), (z - sz - 12, False)]"
  note mid = row_mid [OF r, folded n]
  have "row ?h (xs @ ?b @ ys)"
  proof (rule row_replace [where n = n and m = ?e])
    show "row h (xs @ [(z, u)] @ ys)" using r by simp
    show "hdr_at ?h q = hdr_at h q" if "q + 12 \<le> n" for q
      using that mid s by (simp add: cut_def Let_def hdr_put)
    show "hdr_at ?h q = hdr_at h q" if "?e + 12 \<le> q" "q \<le> end_of ?e ys" for q
      using that mid s by (simp add: cut_def Let_def hdr_put)
    have "end_of n ?b = ?e" "?m + 12 + (z - sz - 12) = ?e" using s by simp_all
    then show "end_of n ?b = ?e" "blks ?h n ?p ?b"
      using mid(1,3,4) s by (simp_all add: cut_def Let_def hdr_put)
    show "hm_used (hdr_at ?h ?e) = hm_used (hdr_at h ?e)"
      using mid s by (simp add: cut_def Let_def hdr_put)
    show "hdr_at ?h ?e = (hdr_at h ?e)\<lparr>hm_prev := of_nat (prev_of ?p n ?b)\<rparr>" if "ys \<noteq> []"
      using that mid s by (simp add: cut_def Let_def hdr_put)
    show "\<forall>(z, u)\<in>set ?b. z mod 4 = 0" using mid(6) s by simp presburger
  qed (simp_all add: n same_vars_def)
  then show ?thesis by simp
qed

lemma keeps_cut:
  assumes r: "row h (xs @ (z, u) # ys)" and n: "n = end_of 0 xs" and s: "sz + 12 \<le> z"
  shows "keeps (held 0 (xs @ (sz, u) # (z - sz - 12, False) # ys)) h (cut n (n + 12 + sz) (n + 12 + z) (ys = []) h)"
proof -
  note mid = row_mid [OF r, folded n]
  have e: "n + 12 + sz + 12 + (z - sz - 12) = n + 12 + z" using s by simp
  have "apart n d \<and> apart (n + 12 + sz) d \<and> apart (n + 12 + z) d \<and> d < 2 ^ 32"
    if "d \<in> held 0 (xs @ (sz, u) # (z - sz - 12, False) # ys) \<union> beyond h" for d
  proof -
    from that consider "d \<in> held 0 xs" | "n + 12 \<le> d \<and> d < n + 12 + sz" | "d \<in> held (n + 12 + z) ys"
      | "end_of (n + 12 + z) ys + 12 \<le> d \<and> d < 2 ^ 32"
      using e beyond_row [OF r n] by (auto simp: n [symmetric] ac_simps split: if_splits)
    then show ?thesis
    proof cases
      case 4
      then show ?thesis using mid s by (simp add: apart_def)
    next
      case 1
      then show ?thesis using held_bounds [OF 1] mid s by (simp add: apart_def flip: n)
    next
      case 2
      then show ?thesis using mid s by (simp add: apart_def)
    next
      case 3
      then show ?thesis using held_bounds [OF 3] mid s by (simp add: apart_def)
    qed
  qed
  moreover have "n + 12 + z + 12 \<le> 2 ^ 32" using mid by simp
  ultimately show ?thesis using s by (auto simp: keeps_def cut_def Let_def byte_put)
qed

text \<open>Two neighbours become one block, whichever of them \<^verbatim>\<open>plug_holes\<close> was called for.\<close>

definition join :: "nat \<Rightarrow> nat \<Rightarrow> heap \<Rightarrow> heap" where
  "join n e h = put e (\<lambda>m. m\<lparr>hm_prev := of_nat n\<rparr>) (put n (\<lambda>m. m\<lparr>hm_next := of_nat e\<rparr>) h)"

lemma join_sel [simp]:
  "heap_ptr (join n e h) = heap_ptr h" "heap_end (join n e h) = heap_end h" "lfree (join n e h) = lfree h"
  "heap_sem (join n e h) = heap_sem h" "mem_size_aligned (join n e h) = mem_size_aligned h"
  "used_mem (join n e h) = used_mem h" "max_mem (join n e h) = max_mem h" "at (join n e h) d = at h d"
  by (simp_all add: join_def)

lemma row_join:
  assumes r: "row h (xs @ (z, u) # (z2, v) # ys)" and n: "n = end_of 0 xs" and e: "e = n + 12 + z + 12 + z2"
  shows "row (join n e h) (xs @ (z + 12 + z2, u) # ys)"
proof -
  let ?p = "prev_of 0 0 xs" and ?h = "join n e h" and ?b = "[(z + 12 + z2, u)]"
  note mid = row_mid [OF r, folded n]
  have mid2: "blks h e (n + 12 + z) ys" "end_of e ys + 12 \<le> 2 ^ 32" "e \<le> end_of e ys" "z2 mod 4 = 0"
    using mid r end_of_ge by (simp_all add: e row_def)
  have "row ?h (xs @ ?b @ ys)"
  proof (rule row_replace [where n = n and m = e])
    show "row h (xs @ [(z, u), (z2, v)] @ ys)" using r by simp
    show "hdr_at ?h q = hdr_at h q" if "q + 12 \<le> n" for q
      using that mid2 e by (simp add: join_def hdr_put)
    show "hdr_at ?h q = hdr_at h q" if "e + 12 \<le> q" "q \<le> end_of e ys" for q
      using that mid2 e by (simp add: join_def hdr_put)
    show "blks ?h n ?p ?b" "hm_used (hdr_at ?h e) = hm_used (hdr_at h e)"
      using mid(1) mid2 e by (simp_all add: join_def hdr_put)
    show "hdr_at ?h e = (hdr_at h e)\<lparr>hm_prev := of_nat (prev_of ?p n ?b)\<rparr>" if "ys \<noteq> []"
      using that mid2 e by (simp add: join_def hdr_put)
    show "\<forall>(z, u)\<in>set ?b. z mod 4 = 0" using mid(6) mid2(4) by simp presburger
  qed (simp_all add: n e same_vars_def)
  then show ?thesis by simp
qed

lemma keeps_join:
  assumes r: "row h (xs @ (z, u) # (z2, v) # ys)" and n: "n = end_of 0 xs" and e: "e = n + 12 + z + 12 + z2"
  shows "keeps (held 0 xs \<union> held e ys) h (join n e h)"
proof -
  note mid = row_mid [OF r, folded n]
  have e2: "end_of e ys + 12 \<le> 2 ^ 32" "e \<le> end_of e ys" using mid end_of_ge by (simp_all add: e)
  have "end_of e ys = unat (mem_size_aligned h) + 12" using r by (simp add: row_def e n)
  then have "apart n d \<and> apart e d \<and> d < 2 ^ 32" if "d \<in> held 0 xs \<union> held e ys \<union> beyond h" for d
    using that held_bounds [of d 0 xs] held_bounds [of d e ys] e e2
    by (auto simp: apart_def beyond_def simp flip: n)
  then show ?thesis using e2 e by (simp add: keeps_def join_def byte_put)
qed

end
