(* ===== verification/Heap_Alloc.thy ===== *)
theory Heap_Alloc
  imports Heap_Blocks
begin

text \<open>
  What the sections of \<^verbatim>\<open>rt_malloc\<close>, \<^verbatim>\<open>rt_free\<close> and \<^verbatim>\<open>rt_realloc\<close> under the heap's semaphore do to the
  list of blocks: first fit, coalescing with both neighbours, shrinking in place.
\<close>

subsection \<open>Coalescing\<close>

fun join_next :: "nat \<Rightarrow> blk list \<Rightarrow> blk list" where
  "join_next z ((z2, False) # ys) = (z + 12 + z2, False) # ys"
| "join_next z ys = (z, False) # ys"

fun join_prev :: "blk list \<Rightarrow> blk list \<Rightarrow> blk list" where
  "join_prev [] bs = bs"
| "join_prev [(z0, False)] ((z, u) # bs) = (z0 + 12 + z, u) # bs"
| "join_prev (b # xs) bs = b # join_prev xs bs"

definition coalesce :: "blk list \<Rightarrow> nat \<Rightarrow> blk list \<Rightarrow> blk list" where
  "coalesce xs z ys = join_prev xs (join_next z ys)"

lemma join_prev_snoc:
  "join_prev (xs @ [(z0, u0)]) ((z, u) # bs) =
     (if u0 then xs @ (z0, u0) # (z, u) # bs else xs @ (z0 + 12 + z, u) # bs)"
proof (induction xs)
  case Nil
  then show ?case by (cases u0) simp_all
next
  case (Cons b xs)
  obtain z' u' where b: "b = (z', u')" by (cases b)
  obtain c cs where c: "xs @ [(z0, u0)] = c # cs" by (cases "xs @ [(z0, u0)]") auto
  show ?case using Cons.IH by (cases u') (simp_all add: b c)
qed

lemma join_next_Cons: "\<exists>z' ys'. join_next z ys = (z', False) # ys'"
  by (cases "(z, ys)" rule: join_next.cases) auto

lemma tidy_Cons: "tidy (b # bs) \<longleftrightarrow> tidy bs \<and> (bs = [] \<or> snd b \<or> snd (hd bs))"
  by (cases "b # bs" rule: tidy.cases) auto

lemma tidy_append:
  "tidy (xs @ ys) \<longleftrightarrow> tidy xs \<and> tidy ys \<and> (xs = [] \<or> ys = [] \<or> snd (last xs) \<or> snd (hd ys))"
  by (induction xs) (auto simp: tidy_Cons hd_append)

text \<open>The two cases of each half, by what stands next to the block.\<close>

lemma join_next_cases:
  obtains (none) "join_next z ys = (z, False) # ys" "ys = [] \<or> snd (hd ys)"
  | (free) z2 ys' where "ys = (z2, False) # ys'" "join_next z ys = (z + 12 + z2, False) # ys'"
  by (cases "(z, ys)" rule: join_next.cases) auto

lemma join_prev_cases:
  assumes "bs = (z, False) # ys"
  obtains (none) "join_prev xs bs = xs @ bs" "xs = [] \<or> snd (last xs)"
  | (free) z0 xs' where "xs = xs' @ [(z0, False)]" "join_prev xs bs = xs' @ (z0 + 12 + z, False) # ys"
proof (cases xs rule: rev_cases)
  case Nil
  then show ?thesis using none by simp
next
  case (snoc xs' b)
  obtain z0 u0 where "b = (z0, u0)" by (cases b)
  then show ?thesis using snoc assms none free by (cases u0) (auto simp: join_prev_snoc)
qed

lemma join_next_facts:
  "end_of n (join_next z ys) = end_of n ((z, False) # ys)" "held n (join_next z ys) = held n ((z, False) # ys)"
  "in_use (join_next z ys) = in_use ((z, False) # ys)" "frees n (join_next z ys) \<subseteq> frees n ((z, False) # ys)"
  "tidy ys \<Longrightarrow> tidy (join_next z ys)"
  by (cases z ys rule: join_next_cases; auto simp: ac_simps tidy_Cons)+

lemma coalesce_facts:
  shows end_of_coalesce: "end_of 0 (coalesce xs z ys) = end_of 0 (xs @ (z, False) # ys)"
    and held_coalesce: "held 0 (coalesce xs z ys) = held 0 (xs @ (z, False) # ys)"
    and in_use_coalesce: "in_use (coalesce xs z ys) = in_use (xs @ (z, False) # ys)"
    and frees_coalesce: "frees 0 (coalesce xs z ys) \<subseteq> frees 0 (xs @ (z, False) # ys)"
    and tidy_coalesce: "tidy (xs @ (y, True) # ys) \<Longrightarrow> tidy (coalesce xs z ys)"
proof -
  obtain z1 ys1 where j: "join_next z ys = (z1, False) # ys1" using join_next_Cons by blast
  have p: "end_of 0 (coalesce xs z ys) = end_of 0 (xs @ join_next z ys)"
    "held 0 (coalesce xs z ys) = held 0 (xs @ join_next z ys)" "in_use (coalesce xs z ys) = in_use (xs @ join_next z ys)"
    "frees 0 (coalesce xs z ys) \<subseteq> frees 0 (xs @ join_next z ys)"
    "tidy xs \<Longrightarrow> tidy (join_next z ys) \<Longrightarrow> tidy (coalesce xs z ys)"
    unfolding coalesce_def
    by (cases xs rule: join_prev_cases [OF j]; auto simp: j ac_simps tidy_Cons tidy_append)+
  show "end_of 0 (coalesce xs z ys) = end_of 0 (xs @ (z, False) # ys)"
    "held 0 (coalesce xs z ys) = held 0 (xs @ (z, False) # ys)"
    "in_use (coalesce xs z ys) = in_use (xs @ (z, False) # ys)"
    unfolding p(1-3) by (simp_all add: join_next_facts)
  show "frees 0 (coalesce xs z ys) \<subseteq> frees 0 (xs @ (z, False) # ys)" using p(4) join_next_facts(4) [of "end_of 0 xs"] by auto
  show "tidy (coalesce xs z ys)" if "tidy (xs @ (y, True) # ys)"
    using that p(5) join_next_facts(5) by (auto simp: tidy_append tidy_Cons)
qed

subsection \<open>plug_holes\<close>

lemma at_upd_lfree: "(if c then h\<lparr>lfree := x\<rparr> else h) = h\<lparr>lfree := (if c then x else lfree h)\<rparr>"
  by simp

lemma row_upd [simp]:
  "row (h\<lparr>lfree := x\<rparr>) bs = row h bs" "row (h\<lparr>used_mem := y\<rparr>) bs = row h bs" "row (h\<lparr>max_mem := y\<rparr>) bs = row h bs"
  by (simp_all add: row_def)

lemma keeps_upd [simp]:
  "keeps D h (g\<lparr>lfree := x\<rparr>) = keeps D h g" "keeps D (h\<lparr>lfree := x\<rparr>) g = keeps D h g"
  "keeps D h (g\<lparr>used_mem := y\<rparr>) = keeps D h g" "keeps D (h\<lparr>used_mem := y\<rparr>) g = keeps D h g"
  "keeps D h (g\<lparr>max_mem := y\<rparr>) = keeps D h g"
  by (simp_all add: keeps_def beyond_def)

lemma keeps_trans: "keeps D g h \<Longrightarrow> keeps D h k \<Longrightarrow> heap_ptr h = heap_ptr g \<Longrightarrow> keeps D g k"
  by (auto simp: keeps_def at_def beyond_def)

lemma keeps_mono: "keeps D g h \<Longrightarrow> C \<subseteq> D \<Longrightarrow> keeps C g h"
  by (auto simp: keeps_def)

lemma keeps_refl [simp]: "keeps D h h"
  by (simp add: keeps_def)

lemma plug_next_eq:
  assumes r: "row h (xs @ (z, False) # ys)" and n: "n = end_of 0 xs"
  shows "plug_next (at h n) h =
    (case ys of (z2, False) # ys' \<Rightarrow> join n (n + 12 + z + 12 + z2) (h\<lparr>lfree := (if lfree h = at h (n + 12 + z) then at h n else lfree h)\<rparr>)
     | _ \<Rightarrow> h)"
proof -
  note mid = row_mid [OF r, folded n]
  have nm: "heap_ptr h + hm_next (mem_at h (at h n)) = at h (n + 12 + z)"
    using mid(5) by (simp add: hdr_at_def at_def del: of_nat_add)
  have ne: "at h n \<noteq> at h (n + 12 + z)" using mid(3,4) by (simp add: at_eq_iff)
  have E: "heap_end h = at h (end_of (n + 12 + z) ys)" using r by (simp add: row_def n)
  show ?thesis
  proof (cases ys)
    case Nil
    then show ?thesis using E by (simp add: plug_next_def Let_def nm)
  next
    case (Cons b ys')
    obtain z2 u2 where b: "b = (z2, u2)" by (cases b)
    have u: "hm_used (mem_at h (at h (n + 12 + z))) = of_bool u2"
      using mid(2) by (simp add: Cons b hdr_at_def)
    show ?thesis
    proof (cases u2)
      case True
      then show ?thesis by (simp add: plug_next_def Let_def nm u Cons b)
    next
      case False
      let ?e = "n + 12 + z + 12 + z2"
      have e: "?e \<le> end_of (n + 12 + z) ys" "end_of (n + 12 + z) ys + 12 \<le> 2 ^ 32"
        using mid(3) end_of_ge [of ?e ys'] by (simp_all add: Cons b)
      then have nE: "at h (n + 12 + z) \<noteq> heap_end h" unfolding E by (subst at_eq_iff) auto
      define h1 where "h1 = h\<lparr>lfree := (if lfree h = at h (n + 12 + z) then at h n else lfree h)\<rparr>"
      have nx: "hm_next (mem_at h1 (at h (n + 12 + z))) = of_nat ?e"
        using mid(2) by (simp add: Cons b False hdr_at_def h1_def)
      define h2 where "h2 = put n (\<lambda>m. m\<lparr>hm_next := of_nat ?e\<rparr>) h1"
      have at: "at h = at h1" "at h2 = at h1" "heap_ptr h2 = heap_ptr h1" by (simp_all add: h1_def h2_def at_def fun_eq_iff)
      have nx2: "hm_next (mem_at h2 (at h (n + 12 + z))) = of_nat ?e"
        using nx e mid(3,4) hdr_put [of "n + 12 + z" n _ h1] by (simp add: h2_def hdr_at_def at del: of_nat_add)
      have dn: "at h n - heap_ptr h2 = of_nat n" by (simp add: at_def h2_def h1_def)
      have h2': "set_mem (at h n) (\<lambda>m. m\<lparr>hm_next := hm_next (mem_at h1 (at h (n + 12 + z)))\<rparr>) h1 = h2"
        unfolding nx by (simp only: h2_def put_def at)
      have "plug_next (at h n) h =
        set_mem (heap_ptr h2 + hm_next (mem_at h2 (at h (n + 12 + z)))) (\<lambda>m. m\<lparr>hm_prev := at h n - heap_ptr h2\<rparr>) h2"
        unfolding plug_next_def Let_def nm at_upd_lfree h1_def [symmetric] h2' using ne u False nE by simp
      also have "\<dots> = join n ?e h1"
        unfolding nx2 set_mem_put [OF refl] dn unfolding join_def h2_def by (rule refl)
      finally show ?thesis by (simp add: Cons b False h1_def)
    qed
  qed
qed

lemma plug_prev_first: "row h ((z, False) # ys) \<Longrightarrow> plug_prev (at h 0) h = h"
  using row_mid(1) [of h "[]" z False ys] by (simp add: plug_prev_def hdr_at_def Let_def) (simp add: at_def)

lemma plug_prev_eq:
  assumes r: "row h (xs @ (z0, u0) # (z, False) # ys)" and q: "q = end_of 0 xs" and n: "n = q + 12 + z0"
  shows "plug_prev (at h n) h =
    (if u0 then h else join q (n + 12 + z) (h\<lparr>lfree := (if lfree h = at h n then at h q else lfree h)\<rparr>))"
proof -
  note m0 = row_mid [OF r, folded q]
  have n': "n = end_of 0 (xs @ [(z0, u0)])" using n q by simp
  have r': "row h ((xs @ [(z0, u0)]) @ (z, False) # ys)" using r by simp
  note mid = row_mid [OF r', folded n']
  have pm: "heap_ptr h + hm_prev (mem_at h (at h n)) = at h q"
    using mid(1) by (simp add: hdr_at_def q) (simp add: at_def)
  have ne: "at h q \<noteq> at h n" using mid(3,4) n by (simp add: at_eq_iff)
  have u: "hm_used (mem_at h (at h q)) = of_bool u0" using m0(1) by (simp add: hdr_at_def)
  show ?thesis
  proof (cases u0)
    case True
    then show ?thesis by (simp add: plug_prev_def Let_def pm u)
  next
    case False
    let ?e = "n + 12 + z"
    define h1 where "h1 = h\<lparr>lfree := (if lfree h = at h n then at h q else lfree h)\<rparr>"
    have nx: "hm_next (mem_at h1 (at h n)) = of_nat ?e"
      using mid(5) by (simp add: hdr_at_def h1_def del: of_nat_add)
    define h2 where "h2 = put q (\<lambda>m. m\<lparr>hm_next := of_nat ?e\<rparr>) h1"
    have at: "at h = at h1" "at h2 = at h1" "heap_ptr h2 = heap_ptr h1" by (simp_all add: h1_def h2_def at_def fun_eq_iff)
    have nx2: "hm_next (mem_at h2 (at h n)) = of_nat ?e"
      using nx mid(3,4) n hdr_put [of n q _ h1] by (simp add: h2_def hdr_at_def at del: of_nat_add)
    have dn: "at h q - heap_ptr h2 = of_nat q" by (simp add: at_def h2_def h1_def)
    have h2': "set_mem (at h q) (\<lambda>m. m\<lparr>hm_next := hm_next (mem_at h1 (at h n))\<rparr>) h1 = h2"
      unfolding nx by (simp only: h2_def put_def at)
    have "plug_prev (at h n) h =
      set_mem (heap_ptr h2 + hm_next (mem_at h2 (at h n))) (\<lambda>m. m\<lparr>hm_prev := at h q - heap_ptr h2\<rparr>) h2"
      unfolding plug_prev_def Let_def pm at_upd_lfree h1_def [symmetric] h2' using ne u False by simp
    also have "\<dots> = join q ?e h1"
      unfolding nx2 set_mem_put [OF refl] dn unfolding join_def h2_def by (rule refl)
    finally show ?thesis by (simp add: False h1_def)
  qed
qed

text \<open>
  \<open>lfree\<close> points at a free block or at the end.  After \<^verbatim>\<open>plug_holes\<close> the two neighbours are one
  block with it, no byte that a caller holds has changed, and \<^verbatim>\<open>lfree\<close> has not moved up.
\<close>

definition lfree_at :: "heap \<Rightarrow> blk list \<Rightarrow> nat \<Rightarrow> bool" where
  "lfree_at h bs l \<longleftrightarrow> lfree h = at h l \<and> l \<in> insert (end_of 0 bs) (frees 0 bs)"

definition same_rest :: "heap \<Rightarrow> heap \<Rightarrow> bool" where
  "same_rest h h' \<longleftrightarrow> same_vars h h' \<and> used_mem h' = used_mem h \<and> max_mem h' = max_mem h"

lemma lfree_at_bounds: "row h bs \<Longrightarrow> lfree_at h bs l \<Longrightarrow> l < 2 ^ 32"
  using row_bounds(1) frees_bounds [of l 0 bs] by (fastforce simp: lfree_at_def)

lemma plug_next_spec:
  assumes r: "row h (xs @ (z, False) # ys)" and n: "n = end_of 0 xs" and l: "lfree_at h (xs @ (z, False) # ys) l"
  shows "\<exists>l'. let h' = plug_next (at h n) h; bs = xs @ join_next z ys in
    row h' bs \<and> lfree_at h' bs l' \<and> l' \<le> l \<and> same_rest h h' \<and> keeps (held 0 (xs @ (z, False) # ys)) h h' \<and>
    (ys = [] \<or> snd (hd ys) \<longrightarrow> h' = h)"
proof (cases z ys rule: join_next_cases)
  case none
  then have "plug_next (at h n) h = h" unfolding plug_next_eq [OF r n] by (auto split: list.splits prod.splits bool.splits)
  then show ?thesis using none r l by (auto simp: same_rest_def same_vars_def)
next
  case (free z2 ys')
  let ?m = "n + 12 + z" and ?e = "n + 12 + z + 12 + z2"
  define x where "x = (if lfree h = at h ?m then at h n else lfree h)"
  have p: "plug_next (at h n) h = join n ?e (h\<lparr>lfree := x\<rparr>)"
    unfolding plug_next_eq [OF r n] free x_def by simp
  have r': "row (h\<lparr>lfree := x\<rparr>) (xs @ (z, False) # (z2, False) # ys')" using r free by simp
  have j: "row (plug_next (at h n) h) (xs @ join_next z ys)"
    unfolding p free(2) by (rule row_join [OF r' n refl])
  have k: "keeps (held 0 (xs @ (z, False) # ys)) h (plug_next (at h n) h)"
    using keeps_join [OF r' n refl] unfolding p free by (simp add: n)
  note mid = row_mid [OF r, folded n]
  have m: "?m < 2 ^ 32" "l < 2 ^ 32" using mid lfree_at_bounds [OF r l] by simp_all
  define l' where "l' = (if l = ?m then n else l)"
  have "x = at h l'" using l m by (auto simp: x_def l'_def lfree_at_def at_eq_iff)
  moreover have "l' \<in> insert (end_of 0 (xs @ join_next z ys)) (frees 0 (xs @ join_next z ys))"
    using l unfolding l'_def lfree_at_def free by (auto simp: n ac_simps)
  ultimately have "lfree_at (plug_next (at h n) h) (xs @ join_next z ys) l'"
    unfolding lfree_at_def p by (simp add: at_def)
  moreover have "l' \<le> l" by (simp add: l'_def)
  moreover have "same_rest h (plug_next (at h n) h)" unfolding p by (simp add: same_rest_def same_vars_def)
  moreover have "\<not> (ys = [] \<or> snd (hd ys))" by (simp add: free)
  ultimately show ?thesis using j k unfolding Let_def by blast
qed

lemma plug_prev_spec:
  assumes r: "row h (xs @ (z, False) # ys)" and n: "n = end_of 0 xs" and l: "lfree_at h (xs @ (z, False) # ys) l"
  shows "\<exists>l'. let h' = plug_prev (at h n) h; bs = join_prev xs ((z, False) # ys) in
    row h' bs \<and> lfree_at h' bs l' \<and> l' \<le> l \<and> same_rest h h' \<and> keeps (held 0 (xs @ (z, False) # ys)) h h' \<and>
    (xs = [] \<or> snd (last xs) \<longrightarrow> h' = h)"
proof (cases rule: join_prev_cases [where xs = xs, OF refl [of "(z, False) # ys"]])
  case 1
  note none = this
  have "plug_prev (at h n) h = h"
  proof (cases xs rule: rev_cases)
    case Nil
    then show ?thesis using plug_prev_first [of h z ys] r n by simp
  next
    case (snoc xs' b)
    then obtain z0 where "xs = xs' @ [(z0, True)]" using none by (cases b) auto
    then show ?thesis using plug_prev_eq [of h xs' z0 True z ys "end_of 0 xs'" n] r n by simp
  qed
  then show ?thesis using none r l by (auto simp: same_rest_def same_vars_def)
next
  case (2 z0 xs')
  note free = this
  define q where "q = end_of 0 xs'"
  have nq: "n = q + 12 + z0" using n free by (simp add: q_def)
  let ?e = "n + 12 + z"
  define x where "x = (if lfree h = at h n then at h q else lfree h)"
  have r2: "row h (xs' @ (z0, False) # (z, False) # ys)" using r free by simp
  have p: "plug_prev (at h n) h = join q ?e (h\<lparr>lfree := x\<rparr>)"
    unfolding plug_prev_eq [OF r2 q_def nq] x_def by simp
  have r': "row (h\<lparr>lfree := x\<rparr>) (xs' @ (z0, False) # (z, False) # ys)" using r2 by simp
  have e: "?e = q + 12 + z0 + 12 + z" using nq by simp
  have j: "row (plug_prev (at h n) h) (join_prev xs ((z, False) # ys))"
    unfolding p free(2) by (rule row_join [OF r' q_def e])
  have k: "keeps (held 0 (xs @ (z, False) # ys)) h (plug_prev (at h n) h)"
    using keeps_join [OF r' q_def e] unfolding p free by (simp add: nq q_def)
  note mid = row_mid [OF r, folded n]
  have m: "n < 2 ^ 32" "l < 2 ^ 32" using mid lfree_at_bounds [OF r l] by simp_all
  define l' where "l' = (if l = n then q else l)"
  have "x = at h l'" using l m by (auto simp: x_def l'_def lfree_at_def at_eq_iff)
  moreover have "l' \<in> insert (end_of 0 (join_prev xs ((z, False) # ys))) (frees 0 (join_prev xs ((z, False) # ys)))"
    using l unfolding l'_def lfree_at_def free(2) unfolding free(1) by (auto simp: nq q_def ac_simps)
  ultimately have "lfree_at (plug_prev (at h n) h) (join_prev xs ((z, False) # ys)) l'"
    unfolding lfree_at_def p by (simp add: at_def)
  moreover have "l' \<le> l" by (simp add: l'_def nq)
  moreover have "same_rest h (plug_prev (at h n) h)" unfolding p by (simp add: same_rest_def same_vars_def)
  moreover have "\<not> (xs = [] \<or> snd (last xs))" by (simp add: free(1))
  ultimately show ?thesis using j k unfolding Let_def by blast
qed

lemma unat_at: "unat (heap_ptr h) + n < 2 ^ 32 \<Longrightarrow> unat (at h n) = unat (heap_ptr h) + n"
  by (simp add: at_def unat_word_ariths unat_of_nat)

lemma row_unat_at: "row h bs \<Longrightarrow> n \<le> end_of 0 bs \<Longrightarrow> unat (at h n) = unat (heap_ptr h) + n"
  using row_bounds(2) by (fastforce intro: unat_at)

lemma plug_holes_spec:
  assumes r: "row h (xs @ (z, False) # ys)" and n: "n = end_of 0 xs" and l: "lfree_at h (xs @ (z, False) # ys) l"
  shows "\<exists>h' l'. plug_holes (at h n) h = Some h' \<and> row h' (coalesce xs z ys) \<and> lfree_at h' (coalesce xs z ys) l' \<and>
    l' \<le> l \<and> same_rest h h' \<and> keeps (held 0 (xs @ (z, False) # ys)) h h' \<and>
    ((xs = [] \<or> snd (last xs)) \<and> (ys = [] \<or> snd (hd ys)) \<longrightarrow> h' = h)"
proof -
  let ?h1 = "plug_next (at h n) h"
  obtain z' ys' where j: "join_next z ys = (z', False) # ys'" using join_next_Cons by blast
  obtain l1 where 1: "row ?h1 (xs @ (z', False) # ys')" "lfree_at ?h1 (xs @ (z', False) # ys') l1" "l1 \<le> l"
    "same_rest h ?h1" "keeps (held 0 (xs @ (z, False) # ys)) h ?h1" "ys = [] \<or> snd (hd ys) \<longrightarrow> ?h1 = h"
    using plug_next_spec [OF r n l] unfolding Let_def j by blast
  have at: "at ?h1 n = at h n" using 1(4) by (simp add: same_rest_def same_vars_def at_def)
  let ?h2 = "plug_prev (at h n) ?h1"
  obtain l2 where 2: "row ?h2 (coalesce xs z ys)" "lfree_at ?h2 (coalesce xs z ys) l2" "l2 \<le> l1"
    "same_rest ?h1 ?h2" "keeps (held 0 (xs @ (z', False) # ys')) ?h1 ?h2" "xs = [] \<or> snd (last xs) \<longrightarrow> ?h2 = ?h1"
    using plug_prev_spec [OF 1(1) n 1(2)] unfolding Let_def at coalesce_def j by blast
  have hd: "held 0 (xs @ (z', False) # ys') = held 0 (xs @ (z, False) # ys)"
    using join_next_facts(2) [of "end_of 0 xs" z ys] by (simp add: j)
  have k: "keeps (held 0 (xs @ (z, False) # ys)) h ?h2"
    by (rule keeps_trans [OF 1(5) 2(5) [unfolded hd]]) (use 1(4) in \<open>simp add: same_rest_def same_vars_def\<close>)
  have s: "same_rest h ?h2" using 1(4) 2(4) by (simp add: same_rest_def same_vars_def)
  note mid = row_mid [OF r, folded n]
  have "n + 12 + z \<le> end_of 0 (xs @ (z, False) # ys)" using mid(4) by (simp add: n)
  then have "heap_ptr h \<le> at h n" "at h n < heap_end h"
    using row_unat_at [OF r] r unfolding row_def by (simp_all add: word_le_nat_alt word_less_nat_alt)
  moreover have "hm_used (mem_at h (at h n)) = 0" using mid(1) by (simp add: hdr_at_def)
  ultimately have "plug_holes (at h n) h = Some ?h2" by (simp add: plug_holes_def)
  moreover have "l2 \<le> l" using 1(3) 2(3) by simp
  moreover have "(xs = [] \<or> snd (last xs)) \<and> (ys = [] \<or> snd (hd ys)) \<longrightarrow> ?h2 = h" using 1(6) 2(6) by auto
  ultimately show ?thesis using 2(1,2) k s by blast
qed

subsection \<open>The section of rt_free\<close>

text \<open>
  A well-formed heap: the row, no two free neighbours, \<^verbatim>\<open>lfree\<close> at a free block or at the end, the
  memory in use counted exactly (\<^verbatim>\<open>max_mem\<close>, the most that ever was, is only written).
\<close>

definition heap_ok :: "heap \<Rightarrow> blk list \<Rightarrow> nat \<Rightarrow> bool" where
  "heap_ok h bs l \<longleftrightarrow> row h bs \<and> tidy bs \<and> lfree_at h bs l \<and> used_mem h = of_nat (in_use bs)"

definition lowest :: "blk list \<Rightarrow> nat \<Rightarrow> bool" where
  "lowest bs l \<longleftrightarrow> (\<forall>q \<in> frees 0 bs. l \<le> q)"

lemma set_mem_twice: "set_mem p f (set_mem p g h) = set_mem p (\<lambda>m. f (g m)) h"
  by (simp add: set_mem_def fun_eq_iff mem_at_set_same [unfolded set_mem_def])

lemma set_mem_vars:
  "set_mem p f (h\<lparr>lfree := x\<rparr>) = (set_mem p f h)\<lparr>lfree := x\<rparr>"
  "set_mem p f (h\<lparr>used_mem := y\<rparr>) = (set_mem p f h)\<lparr>used_mem := y\<rparr>"
  "set_mem p f (mem_stat k h) = mem_stat k (set_mem p f h)"
  by (rule heap.equality; simp add: set_mem_def mem_stat_def Let_def fun_eq_iff)+

lemma keeps_mark:
  assumes r: "row h (xs @ (z, u) # ys)" and n: "n = end_of 0 xs"
  shows "keeps (held 0 (xs @ (z, True) # ys)) h (put n f h)"
proof -
  note mid = row_mid [OF r, folded n]
  have "apart n d \<and> d < 2 ^ 32" if "d \<in> held 0 (xs @ (z, True) # ys) \<union> beyond h" for d
  proof -
    from that consider "d \<in> held 0 xs" | "n + 12 \<le> d \<and> d < n + 12 + z" | "d \<in> held (n + 12 + z) ys"
      | "end_of (n + 12 + z) ys + 12 \<le> d \<and> d < 2 ^ 32"
      using beyond_row [OF r n] by (auto simp: n)
    then show ?thesis
      using held_bounds [of d 0 xs] held_bounds [of d "n + 12 + z" ys] mid(3,4) by cases (auto simp: apart_def n)
  qed
  then show ?thesis using mid(3,4) by (simp add: keeps_def byte_put)
qed

lemma free_section_spec:
  assumes ok: "heap_ok h (xs @ (z, True) # ys) l" and n: "n = end_of 0 xs"
  shows "\<exists>h' l'. free_section (at h (n + 12)) h = Some h' \<and> heap_ok h' (coalesce xs z ys) l' \<and>
    (lowest (xs @ (z, True) # ys) l \<longrightarrow> lowest (coalesce xs z ys) l') \<and>
    same_vars h h' \<and> keeps (held 0 (xs @ (z, False) # ys)) h h' \<and> l' \<le> n"
proof -
  let ?bs = "xs @ (z, True) # ys" and ?cs = "xs @ (z, False) # ys"
  have r: "row h ?bs" and l: "lfree_at h ?bs l" using ok by (simp_all add: heap_ok_def)
  note mid = row_mid [OF r, folded n]
  define h1 where "h1 = put n (\<lambda>m. m\<lparr>hm_used := 0, hm_magic := HEAP_MAGIC\<rparr>) h"
  have r1: "row h1 ?cs" using row_mark [OF r, of False] by (simp add: h1_def n)
  have mem: "at h (n + 12) - 12 = at h n" by (simp add: at_def)
  have hd: "hm_used (mem_at h (at h n)) = 1" "hm_magic (mem_at h (at h n)) = HEAP_MAGIC"
    using mid(1) by (simp_all add: hdr_at_def)
  have h1: "set_mem (at h n) (\<lambda>m. m\<lparr>hm_magic := HEAP_MAGIC\<rparr>) (set_mem (at h n) (\<lambda>m. m\<lparr>hm_used := 0\<rparr>) h) = h1"
    unfolding set_mem_twice by (simp add: h1_def put_def)
  have lb: "l \<le> end_of 0 ?bs" using l frees_bounds [of l 0 ?bs] by (auto simp: lfree_at_def)
  have nb: "n + 12 + z \<le> end_of 0 ?bs" using mid(4) by (simp add: n)
  have lt: "at h n < lfree h1 \<longleftrightarrow> n < l"
    using l row_unat_at [OF r lb] row_unat_at [OF r, of n] nb by (simp add: h1_def lfree_at_def word_less_nat_alt)
  define l1 where "l1 = (if n < l then n else l)"
  define h3 where "h3 = (if n < l then h1\<lparr>lfree := at h n\<rparr> else h1)\<lparr>used_mem := used_mem h - of_nat (12 + z)\<rparr>"
  have dif: "hm_next (mem_at h1 (at h n)) - (at h n - heap_ptr h1) = of_nat (12 + z)"
    using row_mid(5) [OF r1, folded n] by (simp add: hdr_at_def h1_def) (simp add: at_def)
  have "free_section (at h (n + 12)) h = plug_holes (at h n) h3"
    unfolding free_section_def Let_def mem h1 using hd lt dif l
    by (simp add: h3_def l1_def lfree_at_def) (simp add: h1_def)
  moreover have r3: "row h3 ?cs" using r1 by (simp add: h3_def)
  have at3: "at h3 = at h" by (simp add: h3_def h1_def fun_eq_iff at_def)
  have l3: "lfree_at h3 ?cs l1" using l by (auto simp: lfree_at_def l1_def at3 h3_def n) (auto simp: h1_def)
  ultimately obtain h' l' where P: "free_section (at h (n + 12)) h = Some h'" "row h' (coalesce xs z ys)"
    "lfree_at h' (coalesce xs z ys) l'" "l' \<le> l1" "same_rest h3 h'" "keeps (held 0 ?cs) h3 h'"
    using plug_holes_spec [OF r3 n l3] unfolding at3 by auto
  have "keeps (held 0 ?cs) h h1"
    unfolding h1_def by (rule keeps_mono [OF keeps_mark [OF r n]]) auto
  then have k: "keeps (held 0 ?cs) h h'"
    by (rule keeps_trans) (use P(6) in \<open>simp_all add: h3_def split: if_splits\<close>, simp_all add: h1_def)
  have "used_mem h' = of_nat (in_use (coalesce xs z ys))"
    unfolding in_use_coalesce using P(5) ok by (simp add: same_rest_def h3_def heap_ok_def)
  then have "heap_ok h' (coalesce xs z ys) l'"
    using P ok tidy_coalesce [of xs z ys z] by (simp add: heap_ok_def)
  moreover have "lowest (coalesce xs z ys) l'" if "lowest ?bs l"
  proof -
    have "l1 \<le> q" if "q \<in> frees 0 ?cs" for q
    proof -
      have "l \<le> q \<or> q = n" using that \<open>lowest ?bs l\<close> by (auto simp: lowest_def n)
      then show ?thesis by (auto simp: l1_def)
    qed
    then show ?thesis using frees_coalesce [of xs z ys] P(4) by (force simp: lowest_def)
  qed
  moreover have "same_vars h h'" using P(5) by (simp add: same_rest_def same_vars_def h3_def h1_def split: if_splits)
  moreover have "l' \<le> n" using P(4) by (simp add: l1_def split: if_splits)
  ultimately show ?thesis using P(1) k by blast
qed

subsection \<open>The section of rt_malloc\<close>

text \<open>First fit from offset \<open>q\<close>; the search stops at the first block with less than \<open>s\<close> bytes and a header behind it.\<close>

fun fit :: "nat \<Rightarrow> nat \<Rightarrow> nat \<Rightarrow> blk list \<Rightarrow> nat option" where
  "fit M s q [] = None"
| "fit M s q ((z, u) # bs) =
     (if q + s < M then if \<not> u \<and> s \<le> z then Some q else fit M s (q + 12 + z) bs else None)"

lemma of_nat_sub32: "m \<le> n \<Longrightarrow> (of_nat n :: u32) - of_nat m = of_nat (n - m)"
  by (metis add_diff_cancel_right' le_add_diff_inverse2 of_nat_add)

lemma find_fit_eq:
  assumes "blks h q p ys" "end_of q ys = M + 12" "M = unat (mem_size_aligned h)" "s \<le> M" "M + 24 \<le> 2 ^ 32"
  shows "find_fit (of_nat s) h (of_nat q) = Some (map_option of_nat (fit M s q ys))"
  using assms
proof (induction M s q ys arbitrary: p rule: fit.induct)
  case (1 M s q)
  have "unat (mem_size_aligned h - of_nat s) = M - s"
    using 1 unat_sub [of "of_nat s" "mem_size_aligned h"] by (simp add: word_le_nat_alt unat_of_nat32)
  then have "\<not> of_nat q < mem_size_aligned h - of_nat s"
    using 1 unat_of_nat32 [of q] by (simp add: word_less_nat_alt)
  then show ?case by (simp add: find_fit.simps [of _ _ "of_nat q"])
next
  case (2 M s q z u bs)
  let ?m = "q + 12 + z"
  have b: "?m + 12 \<le> 2 ^ 32" using 2 end_of_ge [of ?m bs] by simp
  have hd: "mem_at h (heap_ptr h + of_nat q) = \<lparr>hm_magic = HEAP_MAGIC, hm_used = of_bool u, hm_next = of_nat ?m, hm_prev = of_nat p\<rparr>"
    using 2(2) mem_at_hdr [OF refl, of h q] by (simp del: of_nat_add)
  have "unat (mem_size_aligned h - of_nat s) = M - s"
    using 2 unat_sub [of "of_nat s" "mem_size_aligned h"] by (simp add: word_le_nat_alt unat_of_nat32)
  then have c: "of_nat q < mem_size_aligned h - of_nat s \<longleftrightarrow> q + s < M"
    using 2 b by (auto simp: word_less_nat_alt unat_of_nat32)
  have "(of_nat ?m :: u32) - (of_nat q + 12) = of_nat z" by simp
  then have f: "of_nat s \<le> (of_nat ?m :: u32) - (of_nat q + 12) \<longleftrightarrow> s \<le> z"
    using 2 b by (simp add: word_le_nat_alt unat_of_nat32)
  have IH: "find_fit (of_nat s) h (of_nat ?m) = Some (map_option of_nat (fit M s ?m bs))" if "q + s < M" "\<not> (\<not> u \<and> s \<le> z)"
    by (rule 2(1) [OF that, of q]) (use 2 in simp_all)
  show ?case
    using IH c f by (subst find_fit.simps) (simp add: hd del: of_nat_add)
qed

lemma fit_SomeD:
  assumes "fit M s q ys = Some n"
  obtains xs z zs where "ys = xs @ (z, False) # zs" "n = end_of q xs" "s \<le> z" "n + s < M"
    "\<And>x. (x, False) \<in> set xs \<Longrightarrow> x < s"
  using assms
proof (induction M s q ys arbitrary: thesis rule: fit.induct)
  case (2 M s q z u bs)
  show ?case
  proof (cases "\<not> u \<and> s \<le> z")
    case True
    then show ?thesis using 2(2) [of "[]" z bs] 2(3) by (simp split: if_splits)
  next
    case False
    then have q: "q + s < M" "fit M s (q + 12 + z) bs = Some n" using 2(3) by (auto split: if_splits)
    from 2(1) [OF q(1) False _ q(2)] obtain xs z' zs where
      "bs = xs @ (z', False) # zs" "n = end_of (q + 12 + z) xs" "s \<le> z'" "n + s < M" "\<And>x. (x, False) \<in> set xs \<Longrightarrow> x < s"
      by blast
    then show ?thesis by (intro 2(2) [of "(z, u) # xs" z' zs]) (use False in auto)
  qed
qed simp

lemma fit_NoneD:
  assumes "fit M s q (xs @ (z, False) # zs) = None" "end_of q (xs @ (z, False) # zs) = M + 12"
  shows "z < s \<or> (z = s \<and> zs = [])"
  using assms
proof (induction xs arbitrary: q)
  case Nil
  have ge: "q + 12 + z \<le> end_of (q + 12 + z) zs" by (rule end_of_ge)
  have "zs = []" if "q + 12 + z = M + 12"
  proof (cases zs)
    case (Cons b zs')
    then show ?thesis using that Nil(2) end_of_ge [of "q + 12 + z + 12 + fst b" zs'] by (cases b) simp
  qed
  then show ?case using Nil ge by (auto split: if_splits)
next
  case (Cons b xs)
  obtain y v where b: "b = (y, v)" by (cases b)
  show ?case
  proof (cases "q + s < M")
    case True
    then show ?thesis using Cons.IH [of "q + 12 + y"] Cons.prems by (auto simp: b split: if_splits)
  next
    case False
    have "q + 12 \<le> end_of (q + 12 + y) xs" "end_of (q + 12 + y) xs + 12 + z \<le> M + 12"
      using Cons.prems(2) end_of_ge [of "q + 12 + y" xs] end_of_ge [of "end_of (q + 12 + y) xs + 12 + z" zs]
      by (simp_all add: b)
    then show ?thesis using False by simp
  qed
qed

lemma next_free_eq:
  assumes "blks h q p ys" "heap_end h = at h (end_of q ys)" "end_of q ys + 12 \<le> 2 ^ 32"
  shows "next_free h (at h q) = Some (at h (end_of q (takeWhile snd ys)))"
  using assms
proof (induction h q p ys rule: blks.induct)
  case (1 h n p)
  then show ?case by (simp add: next_free.simps)
next
  case (2 h n p z u bs)
  let ?m = "n + 12 + z"
  have hd: "mem_at h (at h n) = \<lparr>hm_magic = HEAP_MAGIC, hm_used = of_bool u, hm_next = of_nat ?m, hm_prev = of_nat p\<rparr>"
    using 2(2) by (simp add: hdr_at_def)
  have m: "heap_ptr h + of_nat ?m = at h ?m" by (simp add: at_def)
  have "at h n \<noteq> heap_end h"
    using 2(3,4) end_of_ge [of ?m bs] by (simp add: at_eq_iff)
  then show ?case using 2 by (subst next_free.simps) (simp add: hd m del: of_nat_add)
qed

lemma takeWhile_free:
  "end_of q (takeWhile snd ys) \<in> insert (end_of q ys) (frees q ys)"
  "n \<in> frees q ys \<Longrightarrow> end_of q (takeWhile snd ys) \<le> n"
proof -
  show "end_of q (takeWhile snd ys) \<in> insert (end_of q ys) (frees q ys)"
    by (induction q ys rule: frees.induct) auto
  show "n \<in> frees q ys \<Longrightarrow> end_of q (takeWhile snd ys) \<le> n"
  proof (induction q ys rule: frees.induct)
    case (2 q z u bs)
    then show ?case using frees_bounds [of n "q + 12 + z" bs] by (auto split: if_splits)
  qed simp
qed

text \<open>What becomes of a free block of \<open>z\<close> bytes of which \<open>s\<close> are asked for.\<close>

definition carve :: "nat \<Rightarrow> nat \<Rightarrow> blk list" where
  "carve s z = (if s + 24 \<le> z then [(s, True), (z - s - 12, False)] else [(z, True)])"

lemma mem_stat_sel [simp]:
  "heap_ptr (mem_stat k h) = heap_ptr h" "heap_end (mem_stat k h) = heap_end h" "lfree (mem_stat k h) = lfree h"
  "heap_sem (mem_stat k h) = heap_sem h" "mem_size_aligned (mem_stat k h) = mem_size_aligned h"
  "used_mem (mem_stat k h) = used_mem h + k" "at (mem_stat k h) d = at h d" "bytes (mem_stat k h) = bytes h"
  "row (mem_stat k h) bs = row h bs" "keeps D g (mem_stat k h) = keeps D g h"
  by (simp_all add: mem_stat_def Let_def)

lemma take_block_spec:
  assumes r: "row h (xs @ (z, False) # ys)" and n: "n = end_of 0 xs" and s: "s \<le> z" "s mod 4 = 0"
    and M: "n + s < unat (mem_size_aligned h)"
  defines "h' \<equiv> take_block (of_nat n) (of_nat s) h"
  shows "row h' (xs @ carve s z @ ys) \<and> same_vars h h' \<and> lfree h' = lfree h \<and>
    used_mem h' = used_mem h + of_nat (in_use (carve s z)) \<and> keeps (held 0 (xs @ (z, False) # ys)) h h'"
proof -
  note mid = row_mid [OF r, folded n]
  have M': "unat (mem_size_aligned h) + 24 \<le> 2 ^ 32" using row_bounds(1) [OF r] r by (simp add: row_def)
  have at: "heap_ptr h + of_nat n = at h n" by (simp add: at_def)
  have nx: "hm_next (mem_at h (at h n)) = of_nat (n + 12 + z)" using mid(5) by (simp add: hdr_at_def)
  have "(of_nat (n + 12 + z) :: u32) - (of_nat n + 12) = of_nat z" by simp
  moreover have "(of_nat s :: u32) + 12 + 12 = of_nat (s + 24)" by simp
  ultimately have c: "of_nat s + 12 + 12 \<le> hm_next (mem_at h (at h n)) - (of_nat n + 12) \<longleftrightarrow> s + 24 \<le> z"
    using M M' mid(3,4) unfolding nx by (simp add: word_le_nat_alt unat_of_nat32 del: of_nat_add)
  let ?f = "\<lambda>m. m\<lparr>hm_used := of_bool True, hm_magic := HEAP_MAGIC\<rparr>"
  show ?thesis
  proof (cases "s + 24 \<le> z")
    case True
    then have sz: "s + 12 \<le> z" by simp
    let ?g = "cut n (n + 12 + s) (n + 12 + z) (ys = []) h"
    have h': "h' = mem_stat (of_nat s + 12) (put n ?f ?g)"
      using True unfolding h'_def take_block_def Let_def at c split_block_cut [OF r n sz]
      by (simp add: set_mem_vars set_mem_twice put_def)
    note rc = row_cut [OF r n sz s(2)]
    have H: "held 0 (xs @ (s, False) # (z - s - 12, False) # ys) = held 0 (xs @ (z, False) # ys)"
      using sz by (simp add: n ac_simps)
    have k1: "keeps (held 0 (xs @ (z, False) # ys)) h ?g"
      using keeps_cut [OF r n sz] unfolding H .
    have k2: "keeps (held 0 (xs @ (z, False) # ys)) ?g (put n ?f ?g)"
      unfolding H [symmetric] by (rule keeps_mono [OF keeps_mark [OF rc n]]) auto
    have "keeps (held 0 (xs @ (z, False) # ys)) h (put n ?f ?g)"
      by (rule keeps_trans [OF k1 k2]) simp
    then show ?thesis using row_mark [OF rc, of True] True unfolding h' carve_def
      by (simp add: n same_vars_def)
  next
    case False
    have h': "h' = mem_stat (of_nat (12 + z)) (put n ?f h)"
    proof -
      have "h' = mem_stat (of_nat (n + 12 + z) - (at h n - heap_ptr h)) (put n ?f h)"
        using False unfolding h'_def take_block_def Let_def at c
        by (simp add: set_mem_vars set_mem_twice put_def nx del: of_nat_add)
      also have "of_nat (n + 12 + z) - (at h n - heap_ptr h) = of_nat (12 + z)" by (simp add: at_def)
      finally show ?thesis .
    qed
    have "keeps (held 0 (xs @ (z, False) # ys)) h (put n ?f h)"
      by (rule keeps_mono [OF keeps_mark [OF r n]]) auto
    then show ?thesis using row_mark [OF r, of True] False unfolding h' carve_def
      by (simp add: n same_vars_def)
  qed
qed

text \<open>\<open>lfree\<close> after block \<open>n\<close> has been taken: searched for again when it was that block.\<close>

lemma end_of_carve: "s \<le> z \<Longrightarrow> end_of n (carve s z @ ys) = end_of (n + 12 + z) ys"
  by (auto simp: carve_def ac_simps)

lemma frees_carve: "s \<le> z \<Longrightarrow> frees n (carve s z @ ys) = (if s + 24 \<le> z then {n + 12 + s} else {}) \<union> frees (n + 12 + z) ys"
  by (auto simp: carve_def ac_simps)

lemma tidy_carve: "tidy (xs @ (z, False) # ys) \<Longrightarrow> tidy (xs @ carve s z @ ys)"
  by (auto simp: carve_def tidy_append tidy_Cons)

lemma lfree_taken:
  assumes l: "l \<in> insert (end_of 0 (xs @ (z, False) # ys)) (frees 0 (xs @ (z, False) # ys))" and n: "n = end_of 0 xs" and s: "s \<le> z"
  defines "l' \<equiv> (if l = n then end_of n (takeWhile snd (carve s z @ ys)) else l)"
  shows "l' \<in> insert (end_of 0 (xs @ carve s z @ ys)) (frees 0 (xs @ carve s z @ ys))"
    and "lowest (xs @ (z, False) # ys) l \<Longrightarrow> lowest (xs @ carve s z @ ys) l'"
proof -
  have E: "end_of 0 (xs @ carve s z @ ys) = end_of 0 (xs @ (z, False) # ys)" "end_of n (carve s z @ ys) = end_of 0 (xs @ (z, False) # ys)"
    using end_of_carve [OF s] by (simp_all add: n)
  have F: "frees 0 (xs @ carve s z @ ys) = frees 0 xs \<union> frees n (carve s z @ ys)" by (simp add: n)
  have l2: "l \<in> insert (end_of 0 (xs @ (z, False) # ys)) (frees 0 xs \<union> insert n (frees (n + 12 + z) ys))"
    using l by (auto simp: n)
  show "l' \<in> insert (end_of 0 (xs @ carve s z @ ys)) (frees 0 (xs @ carve s z @ ys))"
  proof (cases "l = n")
    case True
    then show ?thesis using takeWhile_free(1) [of n "carve s z @ ys"] unfolding F E l'_def by auto
  next
    case False
    then show ?thesis using l2 unfolding F E(1) l'_def frees_carve [OF s] by auto
  qed
  assume low: "lowest (xs @ (z, False) # ys) l"
  have "l' \<le> q" if q: "q \<in> frees 0 (xs @ carve s z @ ys)" for q
  proof (cases "l = n")
    case True
    have "\<not> q < n \<or> q \<notin> frees 0 xs" using low True by (auto simp: lowest_def ball_Un not_less)
    then have "q \<notin> frees 0 xs" using frees_bounds [of q 0 xs] by (auto simp: n)
    then show ?thesis using q True takeWhile_free(2) [of q n "carve s z @ ys"] unfolding F l'_def by auto
  next
    case False
    have "l \<le> n" using low by (auto simp: lowest_def n)
    moreover have "q \<in> frees 0 (xs @ (z, False) # ys) \<or> n \<le> q"
      using q unfolding F frees_carve [OF s] by (auto simp: n split: if_splits)
    ultimately show ?thesis using low False by (auto simp: l'_def lowest_def)
  qed
  then show "lowest (xs @ carve s z @ ys) l'" by (simp add: lowest_def)
qed

lemma next_free_row:
  assumes r: "row h (xs @ ys)" and n: "n = end_of 0 xs"
  shows "\<exists>l. next_free h (at h n) = Some (at h l) \<and> l = end_of n (takeWhile snd ys) \<and>
    (at h l = heap_end h \<or> hm_used (mem_at h (at h l)) = 0)"
proof -
  let ?l = "end_of n (takeWhile snd ys)"
  have b: "blks h n (prev_of 0 0 xs) ys" "heap_end h = at h (end_of n ys)" "end_of n ys + 12 \<le> 2 ^ 32"
    using r row_bounds(1) [OF r] by (simp_all add: row_def n)
  have "at h ?l = heap_end h \<or> hm_used (mem_at h (at h ?l)) = 0"
  proof (cases "?l \<in> frees n ys")
    case True
    then obtain us z vs where "ys = us @ (z, False) # vs" "?l = end_of n us" by (rule frees_split)
    then show ?thesis using b(1) by (simp add: hdr_at_def)
  next
    case False
    then show ?thesis using takeWhile_free(1) [of n ys] b(2) by auto
  qed
  then show ?thesis using next_free_eq [OF b] by blast
qed

definition too_small :: "nat \<Rightarrow> blk list \<Rightarrow> nat \<Rightarrow> bool" where
  "too_small s bs l \<longleftrightarrow> (\<forall>xs z ys. bs = xs @ (z, False) # ys \<and> l \<le> end_of 0 xs \<longrightarrow> z < s \<or> (z = s \<and> ys = []))"

text \<open>The first free block of at least \<open>s\<close> bytes at or behind \<open>lfree\<close> is taken.\<close>

definition first_fit :: "nat \<Rightarrow> blk list \<Rightarrow> nat \<Rightarrow> blk list \<Rightarrow> nat \<Rightarrow> blk list \<Rightarrow> bool" where
  "first_fit s bs l xs z ys \<longleftrightarrow> bs = xs @ (z, False) # ys \<and> s \<le> z \<and> l \<le> end_of 0 xs \<and>
     (\<forall>us x vs. xs = us @ (x, False) # vs \<and> l \<le> end_of 0 us \<longrightarrow> x < s)"

lemma split_unique:
  assumes "us @ b # vs = xs @ c # ys" "end_of 0 us = end_of 0 xs"
  shows "us = xs \<and> b = c \<and> vs = ys"
proof -
  have "us = xs" if "us @ b # vs = xs @ c # ys" "end_of n us = end_of n xs" for n
    using that
  proof (induction us arbitrary: xs n)
    case Nil
    then show ?case
    proof (cases xs)
      case (Cons d ds)
      then show ?thesis using Nil(2) end_of_ge [of "n + 12 + fst d" ds] by (cases d) simp
    qed simp
  next
    case (Cons a us)
    show ?case
    proof (cases xs)
      case Nil
      then show ?thesis using Cons(3) end_of_ge [of "n + 12 + fst a" us] by (cases a) simp
    next
      case (Cons d ds)
      then show ?thesis using Cons.prems Cons.IH [of ds "n + 12 + fst a"] by (cases a) auto
    qed
  qed
  then show ?thesis using assms by blast
qed

lemma split_after:
  assumes "us @ b # vs = xs @ ys" "end_of 0 xs \<le> end_of 0 us"
  obtains ws where "us = xs @ ws" "ys = ws @ b # vs"
proof -
  from assms(1) obtain w where "us = xs @ w \<and> w @ b # vs = ys \<or> us @ w = xs \<and> b # vs = w @ ys"
    by (auto simp: append_eq_append_conv2)
  moreover have "w = []" if "us @ w = xs"
  proof (rule ccontr)
    assume "w \<noteq> []"
    then obtain z u w' where "w = (z, u) # w'" by (metis neq_Nil_conv surj_pair)
    then show False using assms(2) that end_of_ge [of "end_of 0 us + 12 + z" w'] by auto
  qed
  ultimately show ?thesis using that by (metis append_Nil append_Nil2)
qed

lemma search_spec:
  assumes r: "row h bs" and l: "lfree_at h bs l" and s: "s \<le> unat (mem_size_aligned h)"
  shows "(find_fit (of_nat s) h (lfree h - heap_ptr h) = Some None \<and> too_small s bs l) \<or>
    (\<exists>xs z ys. find_fit (of_nat s) h (lfree h - heap_ptr h) = Some (Some (of_nat (end_of 0 xs))) \<and>
       first_fit s bs l xs z ys \<and> end_of 0 xs + s < unat (mem_size_aligned h))"
proof -
  let ?M = "unat (mem_size_aligned h)"
  have M: "?M + 24 \<le> 2 ^ 32" "end_of 0 bs = ?M + 12" using r row_bounds(1) [OF r] by (simp_all add: row_def)
  have lf: "lfree h - heap_ptr h = of_nat l" using l by (simp add: lfree_at_def at_def)
  obtain xs ys where bs: "bs = xs @ ys" "l = end_of 0 xs"
  proof (cases "l \<in> frees 0 bs")
    case True
    then show ?thesis using that frees_split by metis
  next
    case False
    then show ?thesis using l that [of bs "[]"] by (auto simp: lfree_at_def)
  qed
  have b: "blks h l (prev_of 0 0 xs) ys" "end_of l ys = ?M + 12" using r M(2) by (simp_all add: row_def bs)
  note f = find_fit_eq [OF b refl s M(1), folded lf]
  show ?thesis
  proof (cases "fit ?M s l ys")
    case None
    have "z < s \<or> (z = s \<and> vs = [])" if "bs = us @ (z, False) # vs" "l \<le> end_of 0 us" for us z vs
    proof -
      have "us @ (z, False) # vs = xs @ ys" "end_of 0 xs \<le> end_of 0 us" using that bs by simp_all
      from split_after [OF this] obtain ws where "ys = ws @ (z, False) # vs" by blast
      then show ?thesis using fit_NoneD [of ?M s l ws z vs] None b(2) by simp
    qed
    then show ?thesis using f None by (simp add: too_small_def)
  next
    case (Some n)
    from fit_SomeD [OF Some] obtain us z vs where u: "ys = us @ (z, False) # vs" "n = end_of l us" "s \<le> z" "n + s < ?M"
      "\<And>x. (x, False) \<in> set us \<Longrightarrow> x < s" by blast
    have "x < s" if "xs @ us = as @ (x, False) # cs" "l \<le> end_of 0 as" for as x cs
    proof -
      have "as @ (x, False) # cs = xs @ us" "end_of 0 xs \<le> end_of 0 as" using that bs by simp_all
      from split_after [OF this] obtain ws where "us = ws @ (x, False) # cs" by blast
      then show ?thesis using u(5) by auto
    qed
    then have "first_fit s bs l (xs @ us) z vs"
      using u bs end_of_ge by (simp add: first_fit_def)
    moreover have "find_fit (of_nat s) h (lfree h - heap_ptr h) = Some (Some (of_nat (end_of 0 (xs @ us))))"
      "end_of 0 (xs @ us) + s < ?M" using f Some u bs by simp_all
    ultimately show ?thesis by blast
  qed
qed

lemma malloc_section_spec:
  assumes ok: "heap_ok h bs l" and s: "s \<le> unat (mem_size_aligned h)" "s mod 4 = 0"
  shows "(malloc_section (of_nat s) h = Some (0, h) \<and> too_small s bs l) \<or>
    (\<exists>xs z ys h' l'. malloc_section (of_nat s) h = Some (at h (end_of 0 xs + 12), h') \<and> first_fit s bs l xs z ys \<and>
       end_of 0 xs + s < unat (mem_size_aligned h) \<and> heap_ok h' (xs @ carve s z @ ys) l' \<and>
       (lowest bs l \<longrightarrow> lowest (xs @ carve s z @ ys) l') \<and> same_vars h h' \<and> keeps (held 0 bs) h h')"
proof -
  have r: "row h bs" and l: "lfree_at h bs l" using ok by (simp_all add: heap_ok_def)
  from search_spec [OF r l s(1)] show ?thesis
  proof (elim disjE exE conjE)
    assume "find_fit (of_nat s) h (lfree h - heap_ptr h) = Some None" "too_small s bs l"
    then show ?thesis by (simp add: malloc_section_def)
  next
    fix xs z ys
    assume ff: "find_fit (of_nat s) h (lfree h - heap_ptr h) = Some (Some (of_nat (end_of 0 xs)))"
      and fit: "first_fit s bs l xs z ys" and M: "end_of 0 xs + s < unat (mem_size_aligned h)"
    define n where "n = end_of 0 xs"
    define cs where "cs = xs @ carve s z @ ys"
    have bs: "bs = xs @ (z, False) # ys" and sz: "s \<le> z" using fit by (simp_all add: first_fit_def)
    define h1 where "h1 = take_block (of_nat n) (of_nat s) h"
    have T: "row h1 cs" "same_vars h h1" "lfree h1 = lfree h" "used_mem h1 = used_mem h + of_nat (in_use (carve s z))"
      "keeps (held 0 bs) h h1"
      using take_block_spec [OF r [unfolded bs] n_def sz s(2)] M unfolding h1_def cs_def bs n_def by auto
    have at1: "at h1 = at h" using T(2) by (simp add: same_vars_def at_def fun_eq_iff)
    have mem: "heap_ptr h + of_nat n = at h n" by (simp add: at_def)
    define l' where "l' = (if l = n then end_of n (takeWhile snd (carve s z @ ys)) else l)"
    have lt: "l < 2 ^ 32" "n < 2 ^ 32"
      using lfree_at_bounds [OF r l] row_mid(3,4) [OF r [unfolded bs]] by (simp_all add: n_def)
    then have eq: "at h n = lfree h \<longleftrightarrow> l = n" using l by (auto simp: lfree_at_def at_eq_iff)
    have "malloc_section (of_nat s) h = Some (at h (n + 12), h1\<lparr>lfree := at h l'\<rparr>)"
    proof (cases "l = n")
      case True
      then show ?thesis
        using next_free_row [OF T(1) [unfolded cs_def] n_def] ff eq
        by (simp add: malloc_section_def T(3) at1 l'_def flip: n_def h1_def mem) (simp add: at_def)
    next
      case False
      then have "h1\<lparr>lfree := at h l'\<rparr> = h1" using T(3) l by (simp add: l'_def lfree_at_def)
      then show ?thesis using False eq ff
        by (simp add: malloc_section_def T(3) flip: n_def h1_def mem) (simp add: at_def)
    qed
    moreover have "heap_ok (h1\<lparr>lfree := at h l'\<rparr>) cs l'"
    proof -
      have "tidy cs" using ok tidy_carve [of xs z ys s] by (simp add: heap_ok_def bs cs_def)
      moreover have "in_use cs = in_use bs + in_use (carve s z)" by (simp add: bs cs_def)
      moreover have "l' \<in> insert (end_of 0 cs) (frees 0 cs)"
        unfolding cs_def l'_def by (rule lfree_taken(1)) (use l sz in \<open>auto simp: lfree_at_def bs n_def\<close>)
      ultimately show ?thesis using T ok by (simp add: heap_ok_def lfree_at_def at1)
    qed
    moreover have "lowest cs l'" if "lowest bs l"
      unfolding cs_def l'_def by (rule lfree_taken(2)) (use l sz that in \<open>auto simp: lfree_at_def bs n_def\<close>)
    moreover have "same_vars h (h1\<lparr>lfree := at h l'\<rparr>)" "keeps (held 0 bs) h (h1\<lparr>lfree := at h l'\<rparr>)"
      using T(2,5) by (simp_all add: same_vars_def)
    ultimately show ?thesis using fit M unfolding n_def cs_def by blast
  qed
qed

subsection \<open>The section of rt_realloc\<close>

lemma row_block:
  assumes r: "row h (xs @ (z, u) # ys)" and n: "n = end_of 0 xs"
  shows "at h (n + 12) - 12 - heap_ptr h = of_nat n" "block_size_of (at h (n + 12)) h = of_nat z"
    "z \<le> unat (mem_size_aligned h)" "n + z \<le> unat (mem_size_aligned h)" "unat (mem_size_aligned h) + 24 < 2 ^ 32"
    "heap_ptr h \<le> at h (n + 12)" "z \<noteq> 0 \<Longrightarrow> at h (n + 12) < heap_end h" "at h (n + 12) \<noteq> 0"
    "unat (at h (n + 12)) mod 4 = unat (heap_ptr h) mod 4 \<longleftrightarrow> n mod 4 = 0"
proof -
  note mid = row_mid [OF r, folded n]
  have E: "end_of 0 (xs @ (z, u) # ys) = unat (mem_size_aligned h) + 12" using r by (simp add: row_def)
  show d: "at h (n + 12) - 12 - heap_ptr h = of_nat n" by (simp add: at_def)
  have "at h (n + 12) - 12 = at h n" by (simp add: at_def)
  moreover have "hm_next (mem_at h (at h n)) = of_nat (n + 12 + z)" using mid(5) by (simp add: hdr_at_def)
  ultimately show "block_size_of (at h (n + 12)) h = of_nat z" by (simp add: block_size_of_def Let_def d) (simp add: at_def)
  show "z \<le> unat (mem_size_aligned h)" "n + z \<le> unat (mem_size_aligned h)" "unat (mem_size_aligned h) + 24 < 2 ^ 32"
    using mid(3,4) E row_bounds(2) [OF r] r unat_eq_zero [of "heap_ptr h"] by (simp_all add: n row_def)
  have le: "n + 12 \<le> end_of 0 (xs @ (z, u) # ys)" using mid(4) by (simp add: n)
  note ua = row_unat_at [OF r le]
  show "heap_ptr h \<le> at h (n + 12)" "at h (n + 12) \<noteq> 0" using ua by (auto simp: word_le_nat_alt)
  show "z \<noteq> 0 \<Longrightarrow> at h (n + 12) < heap_end h"
    using ua row_unat_at [OF r le_refl] r mid(4) unfolding row_def by (simp add: word_less_nat_alt n)
  show "unat (at h (n + 12)) mod 4 = unat (heap_ptr h) mod 4 \<longleftrightarrow> n mod 4 = 0"
    unfolding ua by presburger
qed

lemma end_of_mod4: "\<forall>(z, u)\<in>set bs. z mod 4 = 0 \<Longrightarrow> n mod 4 = 0 \<Longrightarrow> end_of n bs mod 4 = 0"
proof (induction n bs rule: end_of.induct)
  case (2 n z u bs)
  then have "n mod 4 = 0" "z mod 4 = 0" by simp_all
  then have "(n + 12 + z) mod 4 = 0" by presburger
  then show ?case using 2 by simp
qed simp

lemma shrink_spec:
  assumes ok: "heap_ok h (xs @ (z, True) # ys) l" and n: "n = end_of 0 xs"
    and s: "s + 24 < z" "s mod 4 = 0"
  defines "bs \<equiv> xs @ (s, True) # join_next (z - s - 12) ys"
  shows "\<exists>h' l'. realloc_section (at h (n + 12)) (of_nat s) h = Some (True, h') \<and> heap_ok h' bs l' \<and>
    same_vars h h' \<and> keeps (held 0 bs) h h' \<and> l' \<le> l \<and> (ys = [] \<or> snd (hd ys) \<longrightarrow> lfree h' = lfree h)"
proof -
  let ?bs = "xs @ (z, True) # ys" and ?cs = "(xs @ [(s, True)]) @ (z - s - 12, False) # ys"
  have r: "row h ?bs" and l: "lfree_at h ?bs l" using ok by (simp_all add: heap_ok_def)
  note mid = row_mid [OF r, folded n] and blk = row_block [OF r n]
  let ?m = "n + 12 + s"
  define h1 where "h1 = h\<lparr>used_mem := used_mem h - (of_nat z - of_nat s)\<rparr>"
  have r1: "row h1 ?bs" using r by (simp add: h1_def)
  have sz: "s + 12 \<le> z" using s by simp
  define h2 where "h2 = cut n ?m (n + 12 + z) (ys = []) h1"
  have r2: "row h2 ?cs" using row_cut [OF r1 n sz s(2)] by (simp add: h2_def)
  have at: "at h2 = at h" "at h1 = at h" "heap_ptr h1 = heap_ptr h" by (simp_all add: h2_def h1_def at_def fun_eq_iff)
  have m: "?m = end_of 0 (xs @ [(s, True)])" by (simp add: n)
  have l2: "lfree_at h2 ?cs l"
    using l s by (auto simp: lfree_at_def at h2_def h1_def ac_simps)
  obtain h' l' where P: "plug_holes (at h2 ?m) h2 = Some h'" "row h' (coalesce (xs @ [(s, True)]) (z - s - 12) ys)"
    "lfree_at h' (coalesce (xs @ [(s, True)]) (z - s - 12) ys) l'" "l' \<le> l" "same_rest h2 h'" "keeps (held 0 ?cs) h2 h'"
    "ys = [] \<or> snd (hd ys) \<longrightarrow> h' = h2"
    using plug_holes_spec [OF r2 m l2] by auto
  obtain z' ys' where j: "join_next (z - s - 12) ys = (z', False) # ys'" using join_next_Cons by blast
  have co: "coalesce (xs @ [(s, True)]) (z - s - 12) ys = bs"
    unfolding coalesce_def bs_def j by (simp add: join_prev_snoc)
  have mm: "heap_ptr h1 + (at h (n + 12) - 12 - heap_ptr h + 12 + of_nat s) = at h2 ?m"
    unfolding blk(1) at by (simp add: at_def)
  have "of_nat s + 12 + 12 < (of_nat z :: u32)" "(of_nat z :: u32) \<noteq> of_nat s"
    using s blk(3,5) unat_of_nat32 [of "24 + s"] by (simp_all add: word_less_nat_alt unat_of_nat32 of_nat_eq32)
  moreover have "\<not> (at h (n + 12) < heap_ptr h \<or> heap_end h \<le> at h (n + 12))"
    using blk(6,7) s by (auto simp: not_less not_le)
  moreover have "split_block (of_nat n) (of_nat s) h1 = h2"
    unfolding h2_def by (rule split_block_cut [OF r1 n sz])
  ultimately have "realloc_section (at h (n + 12)) (of_nat s) h = Some (True, h')"
    using P(1) mm unfolding realloc_section_def Let_def blk(1,2) h1_def [symmetric] by (simp add: h1_def)
  moreover have "heap_ok h' bs l'"
  proof -
    have "tidy bs" unfolding co [symmetric]
      by (rule tidy_coalesce [where y = z]) (use ok in \<open>auto simp: heap_ok_def tidy_append tidy_Cons\<close>)
    moreover have "used_mem h' = of_nat (in_use bs)"
      using P(5) ok unfolding co [symmetric] in_use_coalesce
      by (simp add: same_rest_def h2_def h1_def heap_ok_def)
    ultimately show ?thesis using P(2,3) unfolding co heap_ok_def by simp
  qed
  moreover have "same_vars h h'" using P(5) by (simp add: same_rest_def same_vars_def h2_def h1_def)
  moreover have "keeps (held 0 bs) h h'"
  proof -
    have H: "held 0 bs = held 0 ?cs" unfolding co [symmetric] by (rule held_coalesce)
    have "keeps (held 0 ?cs) h1 h2" using keeps_cut [OF r1 n sz] by (simp add: h2_def)
    then have "keeps (held 0 ?cs) h h2" by (simp add: h1_def)
    then show ?thesis unfolding H by (rule keeps_trans) (use P(6) in \<open>simp_all add: h2_def h1_def\<close>)
  qed
  moreover have "ys = [] \<or> snd (hd ys) \<longrightarrow> lfree h' = lfree h" using P(7) by (simp add: h2_def h1_def)
  ultimately show ?thesis using P(4) by blast
qed

lemma realloc_section_cases:
  assumes ok: "heap_ok h (xs @ (z, True) # ys) l" and n: "n = end_of 0 xs" and z: "z \<noteq> 0"
    and s: "s \<le> unat (mem_size_aligned h)" "\<not> s + 24 < z"
  shows "realloc_section (at h (n + 12)) (of_nat s) h = Some (s = z, h)"
proof -
  have r: "row h (xs @ (z, True) # ys)" using ok by (simp add: heap_ok_def)
  note blk = row_block [OF r n]
  have "(of_nat z :: u32) = of_nat s \<longleftrightarrow> s = z" using s blk(3,5) by (auto simp: of_nat_eq32)
  moreover have "\<not> of_nat s + 12 + 12 < (of_nat z :: u32)"
    using s blk(3,5) unat_of_nat32 [of "24 + s"] by (simp add: word_less_nat_alt unat_of_nat32)
  moreover have "\<not> (at h (n + 12) < heap_ptr h \<or> heap_end h \<le> at h (n + 12))"
    using blk(6,7) z by (auto simp: not_less not_le)
  ultimately show ?thesis unfolding realloc_section_def Let_def blk(1,2) by simp
qed

end
