(* ===== verification/Heap_Ops.thy ===== *)
theory Heap_Ops
  imports Heap_Alloc
begin

text \<open>
  The calls of the system heap as their callers see them: which bytes a call gives out or takes
  back, which it leaves alone, and that they return.  The heap's semaphore is free in these
  statements, so the calls do not wait; a call that waits runs the same section later.
\<close>

subsection \<open>Alignment\<close>

lemma mod4_word: "(x :: u32) mod 4 = 0 \<longleftrightarrow> unat x mod 4 = 0"
  unfolding unat_eq_zero [symmetric] by (simp add: unat_mod)

lemma unat_rt_align:
  "unat (rt_align n) = (if unat n + 3 < 2 ^ 32 then (unat n + 3) div 4 * 4 else 0)"
proof -
  have m: "(3 :: u32) = mask 2" by (simp add: mask_eq_exp_minus_1)
  have a: "unat (rt_align n) = unat (n + 3) - unat (n + 3) mod 4"
    unfolding rt_align_def m unat_and_not_mask by simp
  have b: "unat n < 2 ^ 32" using unsigned_less [of n] by simp
  show ?thesis
  proof (cases "unat n + 3 < 2 ^ 32")
    case True
    then have "unat (n + 3) = unat n + 3" by (simp add: unat_word_ariths)
    then show ?thesis unfolding a minus_mod_eq_div_mult using True by simp
  next
    case False
    then have "unat (n + 3) = unat n + 3 - 2 ^ 32" using b by (simp add: unat_word_ariths le_mod_geq)
    then show ?thesis unfolding a minus_mod_eq_div_mult using False b by simp
  qed
qed

definition align4 :: "nat \<Rightarrow> nat" where
  "align4 n = (n + 3) div 4 * 4"

lemma align4_facts: "n \<le> align4 n" "align4 n < n + 4" "align4 n mod 4 = 0" "0 < n \<Longrightarrow> 4 \<le> align4 n"
  by (simp_all add: align4_def)

lemma rt_align_eq: "n \<le> 0xfffffffc \<Longrightarrow> rt_align n = of_nat (align4 (unat n))"
proof -
  assume "n \<le> 0xfffffffc"
  then have "unat (rt_align n) = align4 (unat n)" by (simp add: unat_rt_align word_le_nat_alt align4_def)
  then have "(of_nat (unat (rt_align n)) :: u32) = of_nat (align4 (unat n))" by simp
  then show ?thesis by simp
qed

lemma rt_align_wraps: "0xfffffffc < n \<Longrightarrow> rt_align n = 0"
  using unat_rt_align [of n] by (simp add: word_less_nat_alt unat_eq_zero)

subsection \<open>The semaphore of the heap\<close>

definition heap_sem_free :: "kernel \<Rightarrow> heap \<Rightarrow> bool" where
  "heap_sem_free k h \<longleftrightarrow> irq_nest k = 0 \<and>
     rt_object_get_type k (OSem (heap_sem h)) = RT_Object_Class_Semaphore \<and> s_value (sems k (heap_sem h)) > 0 \<and>
     lst (thl k) (SuspendQ (OSem (heap_sem h))) = []"

lemma heap_sem_take:
  assumes "heap_sem_free k h" "heap_sem h' = heap_sem h"
  obtains k1 where "rt_sem_take (heap_sem h) w k = Some (Some RT_EOK, k1)"
    "rt_sem_release (heap_sem h') k1 = Some (RT_EOK, k)"
proof
  let ?k = "upd_sem (heap_sem h) (\<lambda>s. s\<lparr>s_value := s_value s - 1\<rparr>) k"
  show "rt_sem_take (heap_sem h) w k = Some (Some RT_EOK, ?k)"
    using assms by (simp add: rt_sem_take_def heap_sem_free_def)
  have "upd_sem (heap_sem h) (\<lambda>s. s\<lparr>s_value := s_value s + 1\<rparr>) ?k = k"
    by (simp add: upd_sem_def)
  then show "rt_sem_release (heap_sem h') ?k = Some (RT_EOK, k)"
    using assms by (simp add: rt_sem_release_def heap_sem_free_def)
qed

subsection \<open>Allocating\<close>

lemma first_fit_held:
  assumes "first_fit s bs l xs z ys" and n: "n = end_of 0 xs"
  defines "c \<equiv> (if s + 24 \<le> z then s else z)"
  shows "held 0 (xs @ carve s z @ ys) = held 0 bs \<union> {n + 12..<n + 12 + c}"
    "{n + 12..<n + 12 + z} \<inter> held 0 bs = {}" "s \<le> c"
proof -
  have bs: "bs = xs @ (z, False) # ys" and s: "s \<le> z" using assms by (simp_all add: first_fit_def)
  show "held 0 (xs @ carve s z @ ys) = held 0 bs \<union> {n + 12..<n + 12 + c}"
    by (auto simp: bs n carve_def c_def ac_simps)
  have "d \<notin> held 0 bs" if "d \<in> {n + 12..<n + 12 + z}" for d
    using that held_bounds [of d 0 xs] held_bounds [of d "n + 12 + z" ys] by (auto simp: bs n)
  then show "{n + 12..<n + 12 + z} \<inter> held 0 bs = {}" by blast
  show "s \<le> c" using s by (simp add: c_def)
qed

text \<open>\<open>gives_block\<close>: the call gives out the first fitting block and nothing else changes.\<close>

definition gives_block :: "nat \<Rightarrow> heap \<Rightarrow> blk list \<Rightarrow> nat \<Rightarrow> u32 \<Rightarrow> heap \<Rightarrow> bool" where
  "gives_block s h bs l p h' \<longleftrightarrow> (\<exists>xs z ys l'. first_fit s bs l xs z ys \<and> p = at h (end_of 0 xs + 12) \<and>
     end_of 0 xs + s < unat (mem_size_aligned h) \<and>
     heap_ok h' (xs @ carve s z @ ys) l' \<and> (lowest bs l \<longrightarrow> lowest (xs @ carve s z @ ys) l') \<and>
     same_vars h h' \<and> keeps (held 0 bs) h h')"

lemma row_offset_mod4:
  assumes "row h (xs @ ys)"
  shows "end_of 0 xs mod 4 = 0"
  using assms by (intro end_of_mod4) (auto simp: row_def)

lemma malloc_return_spec:
  assumes ok: "heap_ok h bs l" and s: "s \<le> unat (mem_size_aligned h)" "s mod 4 = 0"
    and k: "heap_sem_free k h"
  shows "\<exists>p h' k1. rt_sem_take (heap_sem h) w k = Some (Some RT_EOK, k1) \<and> rt_malloc_return (of_nat s) h k1 = Some (Some p, h', k) \<and>
    (if p = 0 then h' = h \<and> too_small s bs l else gives_block s h bs l p h')"
proof -
  from malloc_section_spec [OF ok s] show ?thesis
  proof (elim disjE exE conjE)
    assume "malloc_section (of_nat s) h = Some (0, h)" "too_small s bs l"
    moreover obtain k1 where "rt_sem_take (heap_sem h) w k = Some (Some RT_EOK, k1)" "rt_sem_release (heap_sem h) k1 = Some (RT_EOK, k)"
      using heap_sem_take [OF k refl] .
    ultimately show ?thesis by (auto simp: rt_malloc_return_def)
  next
    fix xs z ys h' l'
    let ?n = "end_of 0 xs" and ?cs = "xs @ carve s z @ ys"
    assume A: "malloc_section (of_nat s) h = Some (at h (?n + 12), h')" "first_fit s bs l xs z ys"
      "?n + s < unat (mem_size_aligned h)" "heap_ok h' ?cs l'" "lowest bs l \<longrightarrow> lowest ?cs l'" "same_vars h h'"
      "keeps (held 0 bs) h h'"
    have r: "row h' ?cs" and r0: "row h bs" using A(4) ok by (simp_all add: heap_ok_def)
    have v: "heap_ptr h' = heap_ptr h" "heap_sem h' = heap_sem h" "heap_end h' = heap_end h" "mem_size_aligned h' = mem_size_aligned h"
      using A(6) by (simp_all add: same_vars_def)
    have bs: "bs = xs @ (z, False) # ys" using A(2) by (simp add: first_fit_def)
    have E: "end_of 0 bs = unat (mem_size_aligned h) + 12" "heap_end h = at h (end_of 0 bs)" using r0 by (simp_all add: row_def)
    have n4: "?n mod 4 = 0" using row_offset_mod4 [of h' xs "carve s z @ ys"] r by simp
    have u: "unat (at h (?n + 12)) = unat (heap_ptr h) + (?n + 12)" "unat (at h ?n) = unat (heap_ptr h) + ?n"
      "unat (at h (?n + 12 + s)) = unat (heap_ptr h) + (?n + 12 + s)" "unat (heap_end h) = unat (heap_ptr h) + end_of 0 bs"
      using row_unat_at [OF r0] A(3) E by simp_all
    have h4: "unat (heap_ptr h) mod 4 = 0" using r0 by (simp add: row_def)
    have "at h (?n + 12) + of_nat s \<le> heap_end h'"
    proof -
      have "at h (?n + 12) + of_nat s = at h (?n + 12 + s)" by (simp add: at_def)
      then show ?thesis using u A(3) E(1) by (simp add: v word_le_nat_alt)
    qed
    moreover have "at h (?n + 12) mod 4 = 0" unfolding mod4_word u using h4 n4 by presburger
    moreover have "(at h (?n + 12) - 12) AND 3 = 0"
    proof -
      have "at h (?n + 12) - 12 = at h ?n" by (simp add: at_def)
      then show ?thesis unfolding and3_zero_iff using u h4 n4 by simp presburger
    qed
    moreover have "at h (?n + 12) \<noteq> 0" using u(1) by auto
    moreover obtain k1 where "rt_sem_take (heap_sem h) w k = Some (Some RT_EOK, k1)" "rt_sem_release (heap_sem h) k1 = Some (RT_EOK, k)"
      using heap_sem_take [OF k refl] .
    moreover have "gives_block s h bs l (at h (?n + 12)) h'" unfolding gives_block_def using A(2-7) by blast
    ultimately show ?thesis using A(1) by (auto simp: rt_malloc_return_def)
  qed
qed

text \<open>The size a call really asks for: aligned, and at least 12 bytes.\<close>

definition malloc_size :: "u32 \<Rightarrow> nat" where
  "malloc_size sz = max 12 (align4 (unat sz))"

lemma align4_small: "(sz :: u32) \<le> 0xfffffffc \<Longrightarrow> align4 (unat sz) \<le> 0xfffffffc"
  by (simp add: word_le_nat_alt align4_def)

lemma rt_malloc_cases:
  assumes ok: "heap_ok h bs l" and k: "heap_sem_free k h" and sz: "sz \<noteq> 0" "sz \<le> 0xfffffffc"
    and M: "12 \<le> unat (mem_size_aligned h)"
  shows "\<exists>p h'. rt_malloc sz h k = Some (Some p, h', k) \<and>
    (if p = 0 then h' = h \<and> (unat (mem_size_aligned h) < malloc_size sz \<or> too_small (malloc_size sz) bs l)
     else gives_block (malloc_size sz) h bs l p h')"
proof -
  let ?a = "align4 (unat sz)" and ?M = "unat (mem_size_aligned h)"
  have a: "rt_align sz = of_nat ?a" "?a < 2 ^ 32" using rt_align_eq [OF sz(2)] align4_small [OF sz(2)] by simp_all
  have ni: "not_in_interrupt k" using k by (simp add: heap_sem_free_def not_in_interrupt_def)
  show ?thesis
  proof (cases "?a \<le> ?M")
    case False
    then have "rt_malloc sz h k = Some (Some 0, h, k)"
      using a sz ni by (simp add: rt_malloc_def word_less_nat_alt unat_of_nat32)
    then show ?thesis using False by (auto simp: malloc_size_def)
  next
    case True
    let ?s = "malloc_size sz"
    have s: "?s \<le> ?M" "?s mod 4 = 0" using True M align4_facts(3) by (auto simp: malloc_size_def max_def)
    have "(if rt_align sz < 12 then 12 else rt_align sz) = (of_nat ?s :: u32)"
      using a by (auto simp: malloc_size_def max_def word_less_nat_alt unat_of_nat32)
    moreover have "\<not> rt_align sz > mem_size_aligned h" using True a by (simp add: word_less_nat_alt unat_of_nat32)
    moreover obtain p h' k1 where "rt_sem_take (heap_sem h) RT_WAITING_FOREVER k = Some (Some RT_EOK, k1)"
      "rt_malloc_return (of_nat ?s) h k1 = Some (Some p, h', k)"
      "if p = 0 then h' = h \<and> too_small ?s bs l else gives_block ?s h bs l p h'"
      using malloc_return_spec [OF ok s k] by blast
    ultimately show ?thesis using sz(1) ni by (auto simp: rt_malloc_def)
  qed
qed

subsection \<open>Freeing\<close>

lemma rt_free_cases:
  assumes ok: "heap_ok h (xs @ (z, True) # ys) l" and z: "z \<noteq> 0" and k: "heap_sem_free k h"
  shows "\<exists>h' l'. rt_free (at h (end_of 0 xs + 12)) h k = Some (Some (), h', k) \<and> heap_ok h' (coalesce xs z ys) l' \<and>
    (lowest (xs @ (z, True) # ys) l \<longrightarrow> lowest (coalesce xs z ys) l') \<and> same_vars h h' \<and>
    keeps (held 0 (xs @ (z, False) # ys)) h h' \<and> l' \<le> end_of 0 xs"
proof -
  let ?p = "at h (end_of 0 xs + 12)"
  have r: "row h (xs @ (z, True) # ys)" using ok by (simp add: heap_ok_def)
  note b = row_block [OF r refl]
  obtain h' l' where F: "free_section ?p h = Some h'" "heap_ok h' (coalesce xs z ys) l'"
    "lowest (xs @ (z, True) # ys) l \<longrightarrow> lowest (coalesce xs z ys) l'" "same_vars h h'"
    "keeps (held 0 (xs @ (z, False) # ys)) h h'" "l' \<le> end_of 0 xs"
    using free_section_spec [OF ok refl] by blast
  have "end_of 0 xs mod 4 = 0" using row_offset_mod4 [OF r] .
  moreover have "unat (heap_ptr h) mod 4 = 0" using r by (simp add: row_def)
  ultimately have "unat ?p mod 4 = 0" using b(9) by simp
  then have al: "?p AND 3 = 0" by (simp add: and3_zero_iff)
  have ni: "not_in_interrupt k" using k by (simp add: heap_sem_free_def not_in_interrupt_def)
  have "heap_sem h' = heap_sem h" using F(4) by (simp add: same_vars_def)
  then obtain k1 where "rt_sem_take (heap_sem h) RT_WAITING_FOREVER k = Some (Some RT_EOK, k1)"
    "rt_sem_release (heap_sem h') k1 = Some (RT_EOK, k)"
    using heap_sem_take [OF k] by blast
  then have "rt_free ?p h k = Some (Some (), h', k)"
    using b(6,7,8) z al ni F(1) by (simp add: rt_free_def rt_free_return_def)
  then show ?thesis using F by blast
qed

lemma lowest_unique:
  assumes "lfree_at h bs l" "lowest bs l" "lfree_at h' bs l'" "lowest bs l'"
  shows "l = l'"
proof (cases "frees 0 bs = {}")
  case True
  then show ?thesis using assms by (simp add: lfree_at_def)
next
  case False
  then obtain q where q: "q \<in> frees 0 bs" by blast
  then have "l \<le> q" "l' \<le> q" "q < end_of 0 bs" using assms frees_bounds [OF q] by (auto simp: lowest_def)
  then have "l \<in> frees 0 bs" "l' \<in> frees 0 bs" using assms by (auto simp: lfree_at_def)
  then show ?thesis using assms by (auto simp: lowest_def intro: le_antisym)
qed

lemma coalesce_used: "xs = [] \<or> snd (last xs) \<Longrightarrow> ys = [] \<or> snd (hd ys) \<Longrightarrow> coalesce xs z ys = xs @ (z, False) # ys"
proof -
  assume x: "xs = [] \<or> snd (last xs)" and y: "ys = [] \<or> snd (hd ys)"
  have "join_next z ys = (z, False) # ys" using y by (cases "(z, ys)" rule: join_next.cases) auto
  then show ?thesis using x unfolding coalesce_def
    by (cases xs rule: rev_cases) (auto simp: join_prev_snoc)
qed

lemma coalesce_carve:
  assumes "tidy (xs @ (z, False) # ys)" "s \<le> z"
  shows "\<exists>c ws. carve s z @ ys = (c, True) # ws \<and> coalesce xs c ws = xs @ (z, False) # ys"
proof (cases "s + 24 \<le> z")
  case True
  have "coalesce xs s ((z - s - 12, False) # ys) = join_prev xs ((z, False) # ys)"
    using True by (simp add: coalesce_def)
  also have "\<dots> = coalesce xs z ys"
    using assms by (cases ys) (auto simp: coalesce_def tidy_append tidy_Cons)
  finally show ?thesis using True assms coalesce_used [of xs ys z] by (auto simp: carve_def tidy_append tidy_Cons)
next
  case False
  then show ?thesis using assms coalesce_used [of xs ys z] by (auto simp: carve_def tidy_append tidy_Cons)
qed

lemma malloc_free_cases:
  assumes ok: "heap_ok h bs l" and low: "lowest bs l" and g: "gives_block s h bs l p h1" and s: "0 < s" and k: "heap_sem_free k h"
  shows "\<exists>h2. rt_free p h1 k = Some (Some (), h2, k) \<and> heap_ok h2 bs l \<and> lowest bs l \<and> same_vars h h2 \<and>
    keeps (held 0 bs) h h2"
proof -
  from g obtain xs z ys l1 where g: "first_fit s bs l xs z ys" "p = at h (end_of 0 xs + 12)"
    "heap_ok h1 (xs @ carve s z @ ys) l1" "lowest (xs @ carve s z @ ys) l1" "same_vars h h1" "keeps (held 0 bs) h h1"
    using low unfolding gives_block_def by blast
  have bs: "bs = xs @ (z, False) # ys" and sz: "s \<le> z" using g(1) by (simp_all add: first_fit_def)
  have "tidy (xs @ (z, False) # ys)" using ok by (simp add: heap_ok_def bs)
  then obtain c ws where c: "carve s z @ ys = (c, True) # ws" "coalesce xs c ws = bs"
    using coalesce_carve [OF _ sz] bs by metis
  have "c \<noteq> 0" using c(1) s sz by (auto simp: carve_def split: if_splits)
  have p: "p = at h1 (end_of 0 xs + 12)" using g(2,5) by (simp add: at_def same_vars_def)
  have k1: "heap_sem_free k h1" using k g(5) by (simp add: heap_sem_free_def same_vars_def)
  obtain h2 l2 where F: "rt_free p h1 k = Some (Some (), h2, k)" "heap_ok h2 bs l2" "lowest bs l2" "same_vars h1 h2"
    "keeps (held 0 (xs @ (c, False) # ws)) h1 h2"
    using rt_free_cases [OF g(3) [unfolded c(1)] \<open>c \<noteq> 0\<close> k1] g(4) unfolding p c by blast
  have "l2 = l" using lowest_unique [of h2 bs l2 h l] F ok low by (simp add: heap_ok_def)
  moreover have "held 0 bs = held 0 (xs @ (c, False) # ws)" using held_coalesce [of xs c ws] c(2) by simp
  then have "keeps (held 0 bs) h h2" using keeps_trans [OF g(6), of h2] F(5) g(5) by (simp add: same_vars_def)
  moreover have "same_vars h h2" using g(5) F(4) by (simp add: same_vars_def)
  ultimately show ?thesis using F low by blast
qed

subsection \<open>Writes of the callers\<close>

text \<open>A heap stays well-formed under writes to bytes that are given out.\<close>

fun starts :: "nat \<Rightarrow> blk list \<Rightarrow> nat set" where
  "starts n [] = {n}"
| "starts n ((z, u) # bs) = insert n (starts (n + 12 + z) bs)"

lemma starts_bounds: "q \<in> starts n bs \<Longrightarrow> n \<le> q \<and> q \<le> end_of n bs"
proof (induction n bs rule: starts.induct)
  case (2 n z u bs)
  then show ?case using end_of_ge [of "n + 12 + z" bs] by auto
qed simp

lemma held_apart: "d \<in> held n bs \<Longrightarrow> q \<in> starts n bs \<Longrightarrow> apart q d"
proof (induction n bs rule: starts.induct)
  case (2 n z u bs)
  then show ?case using held_bounds [of d "n + 12 + z" bs] starts_bounds [of q "n + 12 + z" bs]
    by (auto simp: apart_def split: if_splits)
qed simp

lemma blks_starts:
  "blks h n p bs \<Longrightarrow> (\<And>q. q \<in> starts n bs \<Longrightarrow> hdr_at h' q = hdr_at h q) \<Longrightarrow> blks h' n p bs"
  by (induction h n p bs rule: blks.induct) auto

lemma starts_end: "end_of n bs \<in> starts n bs"
  by (induction n bs rule: starts.induct) auto

lemma hdr_write:
  assumes r: "row h bs" and w: "\<And>a. a \<notin> at h ` held 0 bs \<Longrightarrow> b a = bytes h a" and q: "q \<in> starts 0 bs"
  shows "hdr_at (h\<lparr>bytes := b\<rparr>) q = hdr_at h q"
proof -
  have "b (at h q + of_nat i) = bytes h (at h q + of_nat i)" if i: "i < 12" for i
  proof (rule w)
    have a: "at h q + of_nat i = at h (q + i)" by (simp add: at_def)
    have "q + i < 2 ^ 32" using row_bounds(1) [OF r] starts_bounds [OF q] i by simp
    moreover have "d < 2 ^ 32 \<and> d \<noteq> q + i" if "d \<in> held 0 bs" for d
      using held_apart [OF that q] held_bounds [OF that] row_bounds(1) [OF r] i by (auto simp: apart_def)
    ultimately show "at h q + of_nat i \<notin> at h ` held 0 bs" unfolding a by (metis at_eq_iff imageE)
  qed
  then have "mem_at (h\<lparr>bytes := b\<rparr>) (at h q) = mem_at h (at h q)"
    unfolding mem_at_def by (intro decode_cong) simp
  then show ?thesis by (simp add: hdr_at_def)
qed

lemma heap_ok_write:
  assumes ok: "heap_ok h bs l" and w: "\<And>a. a \<notin> at h ` held 0 bs \<Longrightarrow> b a = bytes h a"
  shows "heap_ok (h\<lparr>bytes := b\<rparr>) bs l"
proof -
  have r: "row h bs" using ok by (simp add: heap_ok_def)
  note hd = hdr_write [OF r w]
  have "blks (h\<lparr>bytes := b\<rparr>) 0 0 bs" by (rule blks_starts [of h]) (use r hd in \<open>auto simp: row_def\<close>)
  moreover have "hdr_at (h\<lparr>bytes := b\<rparr>) (end_of 0 bs) = hdr_at h (end_of 0 bs)" by (rule hd) (auto intro: starts_end)
  moreover have "hm_used (hdr_at h (end_of 0 bs)) = 1" using r unfolding row_def by blast
  ultimately have "row (h\<lparr>bytes := b\<rparr>) bs" using r unfolding row_def by (simp add: at_def)
  then show ?thesis using ok by (simp add: heap_ok_def lfree_at_def)
qed

lemma at_range:
  assumes "q + m \<le> 2 ^ 32" "m < 2 ^ 32"
  shows "a - at h q < of_nat m \<longleftrightarrow> (\<exists>i<m. a = at h (q + i))"
proof
  assume "a - at h q < of_nat m"
  then have "unat (a - at h q) < m" using assms by (simp add: word_less_nat_alt unat_of_nat32)
  moreover have "a = at h (q + unat (a - at h q))" by (simp add: at_def)
  ultimately show "\<exists>i<m. a = at h (q + i)" by blast
next
  assume "\<exists>i<m. a = at h (q + i)"
  then obtain i where "i < m" "a = at h (q + i)" by blast
  then have "a - at h q = of_nat i" by (simp add: at_def)
  then show "a - at h q < of_nat m" using \<open>i < m\<close> assms by (simp add: word_less_nat_alt unat_of_nat32)
qed

text \<open>Copying \<open>m\<close> bytes between two blocks.\<close>

lemma memcpy_at:
  fixes h :: heap and n :: nat
  assumes "q + m \<le> 2 ^ 32" "m < 2 ^ 32" "n + m \<le> 2 ^ 32" "{n..<n + m} \<inter> {q..<q + m} = {}"
  defines "g \<equiv> heap_memcpy (at h q) (at h n) (of_nat m) h"
  shows "i < m \<Longrightarrow> bytes g (at h (q + i)) = bytes h (at h (n + i))"
    and "\<not> (\<exists>i<m. a = at h (q + i)) \<Longrightarrow> bytes g a = bytes h a"
proof -
  have "at h n + of_nat i \<noteq> at h q + of_nat j" if "i < m" "j < m" for i j
  proof -
    have "n + i \<in> {n..<n + m}" "q + j \<in> {q..<q + m}" using that by simp_all
    then have "n + i \<noteq> q + j" using assms(4) by (metis IntI empty_iff)
    moreover have "at h n + of_nat i = at h (n + i)" "at h q + of_nat j = at h (q + j)" by (simp_all add: at_def)
    ultimately show ?thesis using that assms(1-3) by (simp add: at_eq_iff)
  qed
  then have g: "bytes g = (\<lambda>a. if a - at h q < of_nat m then bytes h (at h n + (a - at h q)) else bytes h a)"
    using assms(2) unfolding g_def heap_memcpy_def by (subst memcpy_eq) (auto simp: unat_of_nat32)
  show "i < m \<Longrightarrow> bytes g (at h (q + i)) = bytes h (at h (n + i))"
  proof -
    assume i: "i < m"
    have "at h (q + i) - at h q < of_nat m" using i by (subst at_range [OF assms(1,2)]) auto
    moreover have "at h n + (at h (q + i) - at h q) = at h (n + i)" by (simp add: at_def)
    ultimately show ?thesis by (simp add: g)
  qed
  show "\<not> (\<exists>i<m. a = at h (q + i)) \<Longrightarrow> bytes g a = bytes h a"
    unfolding at_range [OF assms(1,2), symmetric] by (simp add: g)
qed

lemma memcpy_ok:
  fixes n :: nat
  assumes ok: "heap_ok h bs l" and q: "{q..<q + m} \<subseteq> held 0 bs" and m: "0 < m"
    and n: "{n..<n + m} \<subseteq> held 0 bs" "{n..<n + m} \<inter> {q..<q + m} = {}"
  defines "g \<equiv> heap_memcpy (at h q) (at h n) (of_nat m) h"
  shows "heap_ok g bs l" "\<And>D. D \<inter> {q..<q + m} = {} \<Longrightarrow> D \<subseteq> held 0 bs \<Longrightarrow> keeps D h g"
    "\<And>i. i < m \<Longrightarrow> bytes g (at h (q + i)) = bytes h (at h (n + i))" "same_rest h g" "lfree g = lfree h"
proof -
  have r: "row h bs" using ok by (simp add: heap_ok_def)
  have "q + m - 1 \<in> held 0 bs" using q m by auto
  then have b: "q + m \<le> end_of 0 bs" using held_bounds [of "q + m - 1" 0 bs] m by linarith
  then have e: "q + m \<le> 2 ^ 32" "m < 2 ^ 32" using row_bounds(1) [OF r] by simp_all
  have "n + m - 1 \<in> held 0 bs" using n(1) m by auto
  then have "n + m \<le> end_of 0 bs" using held_bounds [of "n + m - 1" 0 bs] m by linarith
  then have "n + m \<le> 2 ^ 32" using row_bounds(1) [OF r] by simp
  note c = memcpy_at [OF e this n(2), where h = h, folded g_def]
  have "g = h\<lparr>bytes := bytes g\<rparr>" by (simp add: g_def heap_memcpy_def)
  moreover have "bytes g a = bytes h a" if "a \<notin> at h ` held 0 bs" for a
  proof (rule c(2))
    have "q + i \<in> held 0 bs" if "i < m" for i using that q by auto
    then show "\<not> (\<exists>i<m. a = at h (q + i))" using that by blast
  qed
  ultimately show "heap_ok g bs l" using heap_ok_write [OF ok, of "bytes g"] by simp
  show "same_rest h g" "lfree g = lfree h" by (simp_all add: g_def heap_memcpy_def same_rest_def same_vars_def)
  show "bytes g (at h (q + i)) = bytes h (at h (n + i))" if "i < m" for i using c(1) [OF that] .
  show "keeps D h g" if D: "D \<inter> {q..<q + m} = {}" "D \<subseteq> held 0 bs" for D
    unfolding keeps_def
  proof (intro conjI ballI)
    show "mem_size_aligned g = mem_size_aligned h" by (simp add: g_def heap_memcpy_def)
    fix d assume d: "d \<in> D \<union> beyond h"
    then have "d < 2 ^ 32" using D(2) held_bounds [of d 0 bs] row_bounds(1) [OF r] by (fastforce simp: beyond_def)
    moreover have "d \<notin> {q..<q + m}" using d D(1) b r by (auto simp: beyond_def row_def)
    ultimately have "at h d \<noteq> at h (q + i)" if "i < m" for i
      using that e b row_bounds(1) [OF r] by (subst at_eq_iff) auto
    then show "bytes g (at h d) = bytes h (at h d)" using c(2) by blast
  qed
qed

subsection \<open>The blocks in use\<close>

text \<open>Offset of the first byte and size of each block that is in use.\<close>

fun used_at :: "nat \<Rightarrow> blk list \<Rightarrow> (nat \<times> nat) set" where
  "used_at n [] = {}"
| "used_at n ((z, u) # bs) = (if u then {(n + 12, z)} else {}) \<union> used_at (n + 12 + z) bs"

lemma used_at_append [simp]: "used_at n (xs @ ys) = used_at n xs \<union> used_at (end_of n xs) ys"
  by (induction n xs rule: used_at.induct) auto

lemma used_at_bounds: "(d, z) \<in> used_at n bs \<Longrightarrow> n + 12 \<le> d \<and> d + z \<le> end_of n bs"
proof (induction n bs rule: used_at.induct)
  case (2 n z' u bs)
  then show ?case using end_of_ge [of "n + 12 + z'" bs] by (auto split: if_splits)
qed simp

lemma used_at_held: "(d, z) \<in> used_at n bs \<Longrightarrow> {d..<d + z} \<subseteq> held n bs"
  by (induction n bs rule: used_at.induct) (auto split: if_splits)

lemma used_at_split:
  assumes "(d, z) \<in> used_at n bs"
  obtains us vs where "bs = us @ (z, True) # vs" "d = end_of n us + 12"
  using assms
proof (induction n bs arbitrary: thesis rule: used_at.induct)
  case (2 n z' u bs)
  show ?case
  proof (cases "u \<and> (d, z) = (n + 12, z')")
    case True
    then show ?thesis using 2(2) [of "[]" bs] by simp
  next
    case False
    then have "(d, z) \<in> used_at (n + 12 + z') bs" using 2(3) by (auto split: if_splits)
    then obtain us vs where "bs = us @ (z, True) # vs" "d = end_of (n + 12 + z') us + 12" using 2(1) by blast
    then show ?thesis using 2(2) [of "(z', u) # us" vs] by simp
  qed
qed simp

lemma used_at_disjoint:
  assumes "(d, z) \<in> used_at n bs" "(e, y) \<in> used_at n bs" "d \<noteq> e"
  shows "{d..<d + z} \<inter> {e..<e + y} = {}"
  using assms
proof (induction n bs rule: used_at.induct)
  case (2 n z' u bs)
  then show ?case
    using used_at_bounds [of d z "n + 12 + z'" bs] used_at_bounds [of e y "n + 12 + z'" bs]
    by (auto split: if_splits)
qed simp

lemma used_at_inj: "(d, z) \<in> used_at n bs \<Longrightarrow> (d, y) \<in> used_at n bs \<Longrightarrow> z = y"
proof (induction n bs rule: used_at.induct)
  case (2 n z' u bs)
  then show ?case
    using used_at_bounds [of d z "n + 12 + z'" bs] used_at_bounds [of d y "n + 12 + z'" bs]
    by (auto split: if_splits)
qed simp

lemma used_at_join_next: "used_at n (join_next z ys) = used_at n ((z, False) # ys)"
  by (cases z ys rule: join_next_cases) (auto simp: ac_simps)

lemma used_at_coalesce: "used_at 0 (coalesce xs z ys) = used_at 0 (xs @ (z, False) # ys)"
proof -
  obtain z1 ys1 where j: "join_next z ys = (z1, False) # ys1" using join_next_Cons by blast
  have "used_at 0 (coalesce xs z ys) = used_at 0 (xs @ join_next z ys)"
    unfolding coalesce_def by (cases xs rule: join_prev_cases [OF j]) (auto simp: j ac_simps)
  then show ?thesis by (simp add: used_at_join_next)
qed

lemma used_at_free:
  "used_at 0 (xs @ (z, False) # ys) = used_at 0 (xs @ (z, True) # ys) - {(end_of 0 xs + 12, z)}"
  using used_at_bounds [of "end_of 0 xs + 12" z 0 xs] used_at_bounds [of "end_of 0 xs + 12" z "end_of 0 xs + 12 + z" ys]
  by auto

lemma held_free:
  "held 0 (xs @ (z, False) # ys) = held 0 (xs @ (z, True) # ys) - {end_of 0 xs + 12..<end_of 0 xs + 12 + z}"
  using held_bounds [of _ 0 xs] held_bounds [of _ "end_of 0 xs + 12 + z" ys] by fastforce

lemma used_at_fit:
  assumes "first_fit s bs l xs z ys"
  shows "used_at 0 (xs @ carve s z @ ys) = insert (end_of 0 xs + 12, if s + 24 \<le> z then s else z) (used_at 0 bs)"
  using assms by (auto simp: first_fit_def carve_def ac_simps)

text \<open>A call that gives out a block, in these terms.\<close>

lemma gives_blockD:
  assumes g: "gives_block s h bs l p h'" and r: "row h bs"
  obtains d c cs l' where "p = at h d" "s \<le> c" "heap_ok h' cs l'" "used_at 0 cs = insert (d, c) (used_at 0 bs)"
    "held 0 cs = held 0 bs \<union> {d..<d + c}" "{d..<d + c} \<inter> held 0 bs = {}" "same_vars h h'" "keeps (held 0 bs) h h'"
    "lowest bs l \<longrightarrow> lowest cs l'" "p \<noteq> 0" "\<And>z. (d, z) \<notin> used_at 0 bs"
proof -
  from g obtain xs z ys l' where g: "first_fit s bs l xs z ys" "p = at h (end_of 0 xs + 12)"
    "heap_ok h' (xs @ carve s z @ ys) l'" "same_vars h h'" "keeps (held 0 bs) h h'"
    "lowest bs l \<longrightarrow> lowest (xs @ carve s z @ ys) l'"
    unfolding gives_block_def by blast
  let ?d = "end_of 0 xs + 12" and ?c = "if s + 24 \<le> z then s else z"
  have bs: "bs = xs @ (z, False) # ys" using g(1) by (simp add: first_fit_def)
  note f = first_fit_held [OF g(1) refl]
  have "?c \<le> z" by simp
  then have "{?d..<?d + ?c} \<subseteq> {?d..<?d + z}" by auto
  then have dis: "{?d..<?d + ?c} \<inter> held 0 bs = {}" using f(2) by blast
  have np: "p \<noteq> 0" unfolding g(2) by (rule row_block(8) [OF r [unfolded bs] refl])
  have nu: "(?d, y) \<notin> used_at 0 bs" for y
    using used_at_bounds [of ?d y 0 xs] used_at_bounds [of ?d y "?d + z" ys] by (auto simp: bs)
  show ?thesis
    by (rule that [OF g(2) f(3) g(3) used_at_fit [OF g(1)] f(1) dis g(4,5,6) np nu])
qed

subsection \<open>Changing the size\<close>

text \<open>
  \<open>moves_block\<close>: in place of \<open>z\<close> bytes at offset \<open>d\<close> there are at least \<open>s\<close> bytes at \<open>q\<close>, with the old
  contents; the other blocks and their bytes are as before.
\<close>

definition moves_block :: "nat \<Rightarrow> heap \<Rightarrow> blk list \<Rightarrow> nat \<Rightarrow> nat \<Rightarrow> u32 \<Rightarrow> heap \<Rightarrow> bool" where
  "moves_block s h bs d z q h' \<longleftrightarrow> (\<exists>e c cs l'. q = at h e \<and> q \<noteq> 0 \<and> s \<le> c \<and> heap_ok h' cs l' \<and> same_vars h h' \<and>
     used_at 0 cs = insert (e, c) (used_at 0 bs - {(d, z)}) \<and> (\<forall>y. (e, y) \<notin> used_at 0 bs - {(d, z)}) \<and>
     keeps (held 0 bs - {d..<d + z}) h h' \<and> (\<forall>i < min s z. bytes h' (q + of_nat i) = bytes h (at h d + of_nat i)))"

lemma moves_blockI:
  assumes "q = at h e" "q \<noteq> 0" "s \<le> c" "heap_ok h' cs l'" "same_vars h h'"
    "used_at 0 cs = insert (e, c) (used_at 0 bs - {(d, z)})" "\<And>y. (e, y) \<notin> used_at 0 bs - {(d, z)}"
    "keeps (held 0 bs - {d..<d + z}) h h'" "\<And>i. i < min s z \<Longrightarrow> bytes h' (q + of_nat i) = bytes h (at h d + of_nat i)"
  shows "moves_block s h bs d z q h'"
  unfolding moves_block_def using assms by blast

lemma realloc_move:
  assumes ok: "heap_ok h bs l" and u: "(d, z) \<in> used_at 0 bs" and s: "0 < s" "z \<noteq> 0" and k: "heap_sem_free k h"
    and g: "gives_block s' h bs l q h1" and s': "s \<le> s'" "s < 2 ^ 32"
  shows "\<exists>h'. realloc_copy q (at h d) (of_nat z) (of_nat s) h1 k = Some (Some q, h', k) \<and> moves_block s h bs d z q h'"
proof -
  have r: "row h bs" using ok by (simp add: heap_ok_def)
  obtain e c cs l1 where G: "q = at h e" "s' \<le> c" "heap_ok h1 cs l1" "used_at 0 cs = insert (e, c) (used_at 0 bs)"
    "held 0 cs = held 0 bs \<union> {e..<e + c}" "{e..<e + c} \<inter> held 0 bs = {}" "same_vars h h1" "keeps (held 0 bs) h h1"
    "lowest bs l \<longrightarrow> lowest cs l1" "q \<noteq> 0" "\<And>z. (e, z) \<notin> used_at 0 bs"
    by (rule gives_blockD [OF g r], rule that)
  have at1: "at h1 = at h" using G(7) by (simp add: same_vars_def at_def fun_eq_iff)
  let ?m = "min s z"
  have z32: "z < 2 ^ 32" using used_at_bounds [OF u] row_bounds(1) [OF r] by simp
  have m: "(if (of_nat z :: u32) < of_nat s then of_nat z else of_nat s) = (of_nat ?m :: u32)"
    using z32 s' by (auto simp: word_less_nat_alt unat_of_nat32 min_def)
  define g1 where "g1 = heap_memcpy (at h1 e) (at h1 d) (of_nat ?m) h1"
  have mc: "?m \<le> c" using G(2) s' by simp
  have "{e..<e + ?m} \<subseteq> {e..<e + c}" using mc by (intro ivl_subset [THEN iffD2]) simp
  then have ec: "{e..<e + ?m} \<subseteq> held 0 cs" "{e..<e + ?m} \<inter> held 0 bs = {}" using G(6) unfolding G(5) by blast+
  have m0: "0 < ?m" using s by simp
  have "{d..<d + ?m} \<subseteq> {d..<d + z}" by (intro ivl_subset [THEN iffD2]) simp
  then have "{d..<d + ?m} \<subseteq> held 0 bs" using used_at_held [OF u] by blast
  then have dc: "{d..<d + ?m} \<subseteq> held 0 cs" "{d..<d + ?m} \<inter> {e..<e + ?m} = {}" using ec(2) unfolding G(5) by blast+
  note C = memcpy_ok [OF G(3) ec(1) m0 dc, folded g1_def]
  have atg: "at g1 = at h" using C(4) at1 by (simp add: same_rest_def same_vars_def at_def fun_eq_iff)
  have kg: "heap_sem_free k g1" using k C(4) G(7) by (simp add: heap_sem_free_def same_rest_def same_vars_def)
  have "(d, z) \<in> used_at 0 cs" using u G(4) by simp
  then obtain us vs where S: "cs = us @ (z, True) # vs" "d = end_of 0 us + 12" by (rule used_at_split)
  obtain h' l' where F: "rt_free (at g1 (end_of 0 us + 12)) g1 k = Some (Some (), h', k)" "heap_ok h' (coalesce us z vs) l'"
    "same_vars g1 h'" "keeps (held 0 (us @ (z, False) # vs)) g1 h'"
    using rt_free_cases [OF C(1) [unfolded S(1)] s(2) kg] by blast
  have free: "rt_free (at h d) g1 k = Some (Some (), h', k)" using F(1) by (simp add: S(2) atg)
  have copy: "realloc_copy q (at h d) (of_nat z) (of_nat s) h1 k = Some (Some q, h', k)"
    using free G(10) unfolding realloc_copy_def m by (simp add: G(1) g1_def at1)
  have H: "held 0 (us @ (z, False) # vs) = held 0 cs - {d..<d + z}"
    unfolding held_free S(1) S(2) by simp
  have hd: "{d..<d + z} \<subseteq> held 0 bs" by (rule used_at_held [OF u])
  have k1: "keeps (held 0 bs - {d..<d + z}) h1 g1"
  proof (rule C(2))
    have sub: "{e..<e + ?m} \<subseteq> {e..<e + c}" using mc by (intro ivl_subset [THEN iffD2]) simp
    then show "(held 0 bs - {d..<d + z}) \<inter> {e..<e + ?m} = {}" using G(6) by blast
    show "held 0 bs - {d..<d + z} \<subseteq> held 0 cs" using G(5) by blast
  qed
  have k2: "keeps (held 0 bs - {d..<d + z}) g1 h'"
    by (rule keeps_mono [OF F(4)], unfold H G(5)) blast
  have k0: "keeps (held 0 bs - {d..<d + z}) h h1" by (rule keeps_mono [OF G(8)]) auto
  have keep: "keeps (held 0 bs - {d..<d + z}) h h'"
    by (rule keeps_trans [OF keeps_trans [OF k0 k1] k2]) (use G(7) C(4) in \<open>simp_all add: same_rest_def same_vars_def\<close>)
  have data: "bytes h' (q + of_nat i) = bytes h (at h d + of_nat i)" if i: "i < ?m" for i
  proof -
    have a: "q + of_nat i = at h (e + i)" "at h d + of_nat i = at h (d + i)" by (simp_all add: G(1) at_def)
    have ei: "e + i \<in> {e..<e + c}" using less_le_trans [OF i mc] by simp
    then have "e + i \<notin> {d..<d + z}" using G(6) hd by blast
    then have "e + i \<in> held 0 (us @ (z, False) # vs)" using ei G(5) unfolding H by blast
    then have "bytes h' (at h (e + i)) = bytes g1 (at h (e + i))" using F(4) by (simp add: keeps_def atg)
    also have "\<dots> = bytes h1 (at h (d + i))" using C(3) [OF i] by (simp add: at1)
    also have "\<dots> = bytes h (at h (d + i))"
    proof -
      have "d + i \<in> {d..<d + z}" using i by simp
      then have "d + i \<in> held 0 bs" using hd by blast
      then show ?thesis using G(8) by (simp add: keeps_def)
    qed
    finally show ?thesis by (simp add: a)
  qed
  have ed: "e \<noteq> d" using G(11) u by blast
  have U: "used_at 0 (coalesce us z vs) = insert (e, c) (used_at 0 bs - {(d, z)})"
    unfolding used_at_coalesce used_at_free S(1) [symmetric] S(2) [symmetric] G(4) using ed by auto
  have v: "same_vars h h'" using G(7) C(4) F(3) by (simp add: same_rest_def same_vars_def)
  have nd: "(e, y) \<notin> used_at 0 bs - {(d, z)}" for y using G(11) by blast
  have "moves_block s h bs d z q h'"
    by (rule moves_blockI [OF G(1) G(10) le_trans [OF s'(1) G(2)] F(2) v U nd keep data])
  then show ?thesis using copy by blast
qed

lemma moves_same:
  assumes ok: "heap_ok h bs l" and u: "(d, z) \<in> used_at 0 bs" and s: "s \<le> z"
  shows "moves_block s h bs d z (at h d) h"
proof -
  have r: "row h bs" using ok by (simp add: heap_ok_def)
  obtain us vs where S: "bs = us @ (z, True) # vs" "d = end_of 0 us + 12" using u by (rule used_at_split)
  have np: "at h d \<noteq> 0" using row_block(8) [OF r [unfolded S(1)] refl] by (simp add: S(2))
  have nd: "(d, y) \<notin> used_at 0 bs - {(d, z)}" for y using used_at_inj [OF u, of y] by auto
  have v: "same_vars h h" by (simp add: same_vars_def)
  have U: "used_at 0 bs = insert (d, z) (used_at 0 bs - {(d, z)})" using u by blast
  show ?thesis by (rule moves_blockI [OF refl np s ok v U nd keeps_refl refl])
qed

lemma moves_shrunk:
  assumes ok: "heap_ok h (xs @ (z, True) # ys) l" and s: "s + 24 < z" "s mod 4 = 0"
  defines "d \<equiv> end_of 0 xs + 12"
  shows "\<exists>h'. realloc_section (at h d) (of_nat s) h = Some (True, h') \<and> moves_block s h (xs @ (z, True) # ys) d z (at h d) h' \<and>
    same_vars h h'"
proof -
  let ?bs = "xs @ (z, True) # ys" and ?cs = "xs @ (s, True) # join_next (z - s - 12) ys"
  have r: "row h ?bs" using ok by (simp add: heap_ok_def)
  obtain h' l' where P: "realloc_section (at h d) (of_nat s) h = Some (True, h')" "heap_ok h' ?cs l'" "same_vars h h'"
    "keeps (held 0 ?cs) h h'"
    using shrink_spec [OF ok refl s] unfolding d_def by blast
  have "end_of 0 xs + 12 + s + 12 + (z - s - 12) = end_of 0 xs + 12 + z" using s by simp
  then have U: "used_at 0 ?cs = insert (d, s) (used_at 0 xs \<union> used_at (end_of 0 xs + 12 + z) ys)"
    and H: "held 0 ?cs = held 0 xs \<union> {d..<d + s} \<union> held (end_of 0 xs + 12 + z) ys"
    by (auto simp: used_at_join_next join_next_facts(2) d_def ac_simps)
  have B: "used_at 0 ?bs - {(d, z)} = used_at 0 xs \<union> used_at (end_of 0 xs + 12 + z) ys"
    using used_at_free [of xs z ys] by (simp add: d_def)
  have HB: "held 0 ?bs - {d..<d + z} = held 0 xs \<union> held (end_of 0 xs + 12 + z) ys"
    using held_free [of xs z ys] by (simp add: d_def)
  have nd: "(d, y) \<notin> used_at 0 ?bs - {(d, z)}" for y
    using used_at_inj [of d z 0 ?bs y] by (auto simp: d_def)
  have np: "at h d \<noteq> 0" unfolding d_def by (rule row_block(8) [OF r refl])
  have k: "keeps (held 0 ?bs - {d..<d + z}) h h'" unfolding HB by (rule keeps_mono [OF P(4)], unfold H) blast
  have data: "bytes h' (at h d + of_nat i) = bytes h (at h d + of_nat i)" if "i < min s z" for i
  proof -
    have "at h d + of_nat i = at h (d + i)" by (simp add: at_def)
    moreover have "d + i \<in> held 0 ?cs" using that unfolding H by auto
    ultimately show ?thesis using P(4) by (simp add: keeps_def)
  qed
  have "moves_block s h ?bs d z (at h d) h'"
    by (rule moves_blockI [OF refl np le_refl P(2) P(3) _ nd k data]) (simp_all only: U B)
  then show ?thesis using P by blast
qed

lemma rt_realloc_cases:
  assumes ok: "heap_ok h bs l" and u: "(d, z) \<in> used_at 0 bs" and z: "z \<noteq> 0" and k: "heap_sem_free k h"
    and sz: "sz \<noteq> 0" "sz \<le> 0xfffffffc" and M: "12 \<le> unat (mem_size_aligned h)"
  shows "\<exists>q h'. rt_realloc (at h d) sz h k = Some (Some q, h', k) \<and>
    (if q = 0 then h' = h else moves_block (align4 (unat sz)) h bs d z q h')"
proof -
  let ?s = "align4 (unat sz)" and ?M = "unat (mem_size_aligned h)"
  have a: "rt_align sz = of_nat ?s" "?s < 2 ^ 32" "?s mod 4 = 0" "0 < ?s"
    using rt_align_eq [OF sz(2)] align4_small [OF sz(2)] align4_facts [of "unat sz"] sz(1) by (simp_all add: unat_gt_0)
  have ni: "not_in_interrupt k" using k by (simp add: heap_sem_free_def not_in_interrupt_def)
  have r: "row h bs" using ok by (simp add: heap_ok_def)
  obtain us vs where S: "bs = us @ (z, True) # vs" "d = end_of 0 us + 12" using u by (rule used_at_split)
  note b = row_block [OF r [unfolded S(1)] refl, folded S(2)]
  show ?thesis
  proof (cases "?s \<le> ?M")
    case False
    then have "rt_realloc (at h d) sz h k = Some (Some 0, h, k)"
      using a ni by (simp add: rt_realloc_def word_less_nat_alt unat_of_nat32)
    then show ?thesis by (intro exI [of _ 0] exI [of _ h]) simp
  next
    case True
    have "\<not> of_nat ?s > mem_size_aligned h" "(of_nat ?s :: u32) \<noteq> 0"
      using True a by (simp_all add: word_less_nat_alt unat_of_nat32 unat_eq_zero [symmetric])
    then have R: "rt_realloc (at h d) sz h k =
      do { (r, k1) \<leftarrow> rt_sem_take (heap_sem h) RT_WAITING_FOREVER k;
           (case r of None \<Rightarrow> Some (None, h, k1) | Some _ \<Rightarrow> rt_realloc_return (at h d) (of_nat ?s) h k1) }"
      using ni b(8) by (simp add: rt_realloc_def a(1))
    show ?thesis
    proof (cases "?s + 24 < z")
      case True
      obtain h' where P: "realloc_section (at h d) (of_nat ?s) h = Some (True, h')" "moves_block ?s h bs d z (at h d) h'" "same_vars h h'"
        using moves_shrunk [OF ok [unfolded S(1)] True a(3)] unfolding S by blast
      have "heap_sem h' = heap_sem h" using P(3) by (simp add: same_vars_def)
      then obtain k1 where "rt_sem_take (heap_sem h) RT_WAITING_FOREVER k = Some (Some RT_EOK, k1)"
        "rt_sem_release (heap_sem h') k1 = Some (RT_EOK, k)" using heap_sem_take [OF k] by blast
      then have "rt_realloc (at h d) sz h k = Some (Some (at h d), h', k)"
        using P(1) by (simp add: R rt_realloc_return_def)
      then show ?thesis using P(2) b(8) by auto
    next
      case False
      note sec = realloc_section_cases [OF ok [unfolded S(1)] refl z True False, folded S(2)]
      obtain k1 where K: "rt_sem_take (heap_sem h) RT_WAITING_FOREVER k = Some (Some RT_EOK, k1)"
        "rt_sem_release (heap_sem h) k1 = Some (RT_EOK, k)" using heap_sem_take [OF k refl] .
      show ?thesis
      proof (cases "?s = z")
        case True
        then have "rt_realloc (at h d) sz h k = Some (Some (at h d), h, k)"
          using K sec by (simp add: R rt_realloc_return_def)
        then show ?thesis using moves_same [OF ok u] True b(8) by auto
      next
        case ne: False
        have s4: "align4 ?s = ?s" using a(3) by (simp add: align4_def)
        have sz': "(of_nat ?s :: u32) \<noteq> 0" "(of_nat ?s :: u32) \<le> 0xfffffffc"
          using a align4_small [OF sz(2)] by (simp_all add: word_le_nat_alt unat_of_nat32 unat_eq_zero [symmetric])
        obtain q h1 where A: "rt_malloc (of_nat ?s) h k = Some (Some q, h1, k)"
          "if q = 0 then h1 = h else gives_block (malloc_size (of_nat ?s)) h bs l q h1"
          using rt_malloc_cases [OF ok k sz' M] by (metis (no_types, lifting))
        have E: "rt_realloc (at h d) sz h k = realloc_copy q (at h d) (of_nat z) (of_nat ?s) h1 k"
          using K sec ne A(1) b(2) by (simp add: R rt_realloc_return_def)
        have ms: "?s \<le> malloc_size (of_nat ?s)" using a(2) s4 by (simp add: malloc_size_def unat_of_nat32)
        show ?thesis
        proof (cases "q = 0")
          case True
          then show ?thesis using A(2) unfolding E by (intro exI [of _ 0] exI [of _ h]) (simp add: realloc_copy_def)
        next
          case False
          then have "gives_block (malloc_size (of_nat ?s)) h bs l q h1" using A(2) by simp
          from realloc_move [OF ok u a(4) z k this ms a(2)] show ?thesis unfolding E using False by auto
        qed
      qed
    qed
  qed
qed

end
