(* ===== verification/Heap_Client.thy ===== *)
theory Heap_Client
  imports Heap_Ops
begin

text \<open>
  The system heap as an abstract store: a partial map from pointers to the bytes that their owner
  has put there.  \<open>heap_run\<close> are the states that callers reach who free and reallocate only what
  they own and write only inside it; the theorems say that the memory represents the store.
\<close>

subsection \<open>A fresh heap\<close>

lemma heap_setup_ok:
  assumes b: "b \<noteq> 0" "unat b mod 4 = 0" and n: "unat n mod 4 = 0" and m: "unat b + unat n + 24 \<le> 2 ^ 32"
    and u: "used_mem h = 0"
  defines "g \<equiv> (heap_setup b n h)\<lparr>lfree := b\<rparr>"
  shows "heap_ok g [(unat n, False)] 0" "lowest [(unat n, False)] 0" "heap_sem g = heap_sem h" "mem_size_aligned g = n"
    "heap_ptr g = b"
proof -
  let ?E = "12 + unat n"
  define h1 where "h1 = h\<lparr>mem_size_aligned := n, heap_ptr := b\<rparr>"
  define h2 where "h2 = put 0 (\<lambda>_. \<lparr>hm_magic = HEAP_MAGIC, hm_used = 0, hm_next = n + 12, hm_prev = 0\<rparr>) h1"
  define h3 where "h3 = h2\<lparr>heap_end := at h1 ?E\<rparr>"
  have E: "?E + 12 \<le> 2 ^ 32" using m by simp
  have ne: "n + 12 = of_nat ?E" by (simp add: add.commute)
  have p0: "set_mem b f h1 = put 0 f h1" for f by (simp add: put_def at_def h1_def)
  have nx: "b + hm_next (mem_at h2 b) = at h1 ?E"
  proof -
    have "mem_at h2 b = hdr_at h2 0" by (simp add: hdr_at_def at_def h2_def h1_def)
    also have "hm_next (hdr_at h2 0) = of_nat ?E" unfolding h2_def by (simp add: hdr_put ne)
    finally show ?thesis by (simp add: at_def h1_def)
  qed
  have at3: "at h3 = at h1" by (simp add: h3_def h2_def fun_eq_iff)
  define f3 where "f3 = (\<lambda>_ :: heap_mem. \<lparr>hm_magic = HEAP_MAGIC, hm_used = (1 :: u16), hm_next = n + 12, hm_prev = n + 12\<rparr>)"
  have g: "g = (put ?E f3 h3)\<lparr>lfree := b\<rparr>"
    unfolding g_def heap_setup_def Let_def h1_def [symmetric] p0 h2_def [symmetric] nx f3_def h3_def
    by (simp add: put_def at_def h2_def)
  have s: "heap_ptr g = b" "heap_end g = at h1 ?E" "mem_size_aligned g = n" "used_mem g = 0" "lfree g = b" "heap_sem g = heap_sem h"
    by (simp_all add: g h3_def h2_def h1_def u)
  have hd: "hdr_at g ?E = f3 (hdr_at h3 ?E)" "hdr_at g 0 = \<lparr>hm_magic = HEAP_MAGIC, hm_used = 0, hm_next = of_nat ?E, hm_prev = 0\<rparr>"
    using E by (simp_all add: g hdr_put h3_def) (simp_all add: h2_def hdr_put add.commute)
  have at: "at g = at h1" using s by (simp add: at_def fun_eq_iff h1_def)
  have "row g [(unat n, False)]"
    using hd s E m b n by (simp add: row_def at f3_def add.commute)
  then show "heap_ok g [(unat n, False)] 0"
    using s by (simp add: heap_ok_def lfree_at_def at_def)
  show "lowest [(unat n, False)] 0" by (simp add: lowest_def)
  show "heap_sem g = heap_sem h" "mem_size_aligned g = n" "heap_ptr g = b" using s by simp_all
qed

subsection \<open>The store\<close>

type_synonym store = "u32 \<Rightarrow> u8 option list option"

definition cells_ok :: "heap \<Rightarrow> nat \<Rightarrow> u8 option list \<Rightarrow> bool" where
  "cells_ok h d xs \<longleftrightarrow> (\<forall>i < length xs. \<forall>x. xs ! i = Some x \<longrightarrow> bytes h (at h (d + i)) = x)"

definition represents :: "heap \<Rightarrow> blk list \<Rightarrow> store \<Rightarrow> bool" where
  "represents h bs A \<longleftrightarrow>
     (\<forall>p xs. A p = Some xs \<longrightarrow>
        (\<exists>d z. p = at h d \<and> (d, z) \<in> used_at 0 bs \<and> length xs \<le> z \<and> xs \<noteq> [] \<and> cells_ok h d xs)) \<and>
     (\<forall>d z. (d, z) \<in> used_at 0 bs \<longrightarrow> at h d \<in> dom A)"

lemma representsD:
  assumes "represents h bs A" "A p = Some xs"
  obtains d z where "p = at h d" "(d, z) \<in> used_at 0 bs" "length xs \<le> z" "xs \<noteq> []" "cells_ok h d xs"
  using assms unfolding represents_def by blast

lemma used_at_32: "row h bs \<Longrightarrow> (d, z) \<in> used_at 0 bs \<Longrightarrow> d + z < 2 ^ 32"
  using used_at_bounds [of d z 0 bs] row_bounds(1) [of h bs] by simp

lemma cells_keep:
  assumes "cells_ok h d xs" "keeps D h h'" "heap_ptr h' = heap_ptr h" "\<And>i. i < length xs \<Longrightarrow> d + i \<in> D"
  shows "cells_ok h' d xs"
proof -
  have "at h' = at h" using assms(3) by (simp add: at_def fun_eq_iff)
  then show ?thesis using assms(1,2,4) by (simp add: cells_ok_def keeps_def)
qed

text \<open>
  One block gives way to another (or to none, or none to one), the bytes of the others stay: the
  store changes at the two pointers only.
\<close>

lemma represents_change:
  assumes R: "represents h bs A" and r: "row h bs" and hp: "heap_ptr h' = heap_ptr h"
    and old: "\<And>d z xs. A (at h d) = Some xs \<Longrightarrow> (d, z) \<in> used_at 0 bs \<Longrightarrow> at h d \<notin> P \<Longrightarrow> length xs \<le> z \<Longrightarrow>
      (d, z) \<in> used_at 0 cs \<and> {d..<d + length xs} \<subseteq> D"
    and k: "keeps D h h'"
    and new: "\<And>p xs. p \<in> P \<Longrightarrow> A' p = Some xs \<Longrightarrow>
      \<exists>d z. p = at h d \<and> (d, z) \<in> used_at 0 cs \<and> length xs \<le> z \<and> xs \<noteq> [] \<and> cells_ok h' d xs"
    and same: "\<And>p. p \<notin> P \<Longrightarrow> A' p = A p"
    and conv: "\<And>d z. (d, z) \<in> used_at 0 cs \<Longrightarrow> at h d \<in> dom A'"
  shows "represents h' cs A'"
  unfolding represents_def
proof (intro conjI allI impI)
  have at: "at h' = at h" using hp by (simp add: at_def fun_eq_iff)
  fix p xs assume p: "A' p = Some xs"
  show "\<exists>d z. p = at h' d \<and> (d, z) \<in> used_at 0 cs \<and> length xs \<le> z \<and> xs \<noteq> [] \<and> cells_ok h' d xs"
  proof (cases "p \<in> P")
    case True
    then show ?thesis using new [OF True p] by (simp add: at)
  next
    case False
    then have "A p = Some xs" using p same by simp
    from representsD [OF R this] obtain d z where d: "p = at h d" "(d, z) \<in> used_at 0 bs" "length xs \<le> z" "xs \<noteq> []" "cells_ok h d xs" .
    have o: "(d, z) \<in> used_at 0 cs" "{d..<d + length xs} \<subseteq> D" using old [of d xs z] d False \<open>A p = Some xs\<close> by auto
    have "cells_ok h' d xs" by (rule cells_keep [OF d(5) k hp]) (use o(2) in auto)
    then show ?thesis using d o by (auto simp: at)
  qed
next
  fix d z assume "(d, z) \<in> used_at 0 cs"
  then show "at h' d \<in> dom A'" using conv hp by (simp add: at_def)
qed

lemma represents_malloc:
  assumes R: "represents h bs A" and ok: "heap_ok h bs l" and g: "gives_block s h bs l p h'" and n: "n \<le> s" "0 < n"
  shows "\<exists>cs l'. heap_ok h' cs l' \<and> represents h' cs (A(p \<mapsto> replicate n None)) \<and> same_vars h h'"
proof -
  have r: "row h bs" using ok by (simp add: heap_ok_def)
  obtain e c cs l1 where G: "p = at h e" "s \<le> c" "heap_ok h' cs l1" "used_at 0 cs = insert (e, c) (used_at 0 bs)"
    "held 0 cs = held 0 bs \<union> {e..<e + c}" "{e..<e + c} \<inter> held 0 bs = {}" "same_vars h h'" "keeps (held 0 bs) h h'"
    "lowest bs l \<longrightarrow> lowest cs l1" "p \<noteq> 0" "\<And>z. (e, z) \<notin> used_at 0 bs"
    by (rule gives_blockD [OF g r], rule that)
  have "represents h' cs (A(p \<mapsto> replicate n None))"
  proof (rule represents_change [OF R r _ _ G(8), where P = "{p}"])
    show "heap_ptr h' = heap_ptr h" using G(7) by (simp add: same_vars_def)
    show "(d, z) \<in> used_at 0 cs \<and> {d..<d + length xs} \<subseteq> held 0 bs" if "(d, z) \<in> used_at 0 bs" "length xs \<le> z" for d z and xs :: "u8 option list"
      using used_at_held [OF that(1)] that by (force simp: G(4))
    show "\<exists>d z. q = at h d \<and> (d, z) \<in> used_at 0 cs \<and> length xs \<le> z \<and> xs \<noteq> [] \<and> cells_ok h' d xs"
      if "q \<in> {p}" "(A(p \<mapsto> replicate n None)) q = Some xs" for q xs
      using that G(1,2,4) n by (intro exI [of _ e] exI [of _ c]) (auto simp: cells_ok_def)
    show "at h d \<in> dom (A(p \<mapsto> replicate n None))" if "(d, z) \<in> used_at 0 cs" for d z
      using that R unfolding G(4) represents_def by (auto simp: G(1))
  qed auto
  then show ?thesis using G(3,7) by blast
qed

text \<open>An owned pointer names a block in use; the address determines the offset.\<close>

lemma at_inj_used:
  assumes "row h bs" "(d, z) \<in> used_at 0 bs" "(e, y) \<in> used_at 0 bs" "at h d = at h e"
  shows "d = e \<and> z = y"
proof -
  have "d = e" using used_at_32 [OF assms(1,2)] used_at_32 [OF assms(1,3)] assms(4) by (simp add: at_eq_iff)
  then show ?thesis using used_at_inj assms(2,3) by blast
qed

lemma others_keep:
  assumes r: "row h bs" and u: "(d, z) \<in> used_at 0 bs" and o: "(e, y) \<in> used_at 0 bs" "at h e \<noteq> at h d" "n \<le> y"
  shows "(e, y) \<in> used_at 0 bs - {(d, z)} \<and> {e..<e + n} \<subseteq> held 0 bs - {d..<d + z}"
proof -
  have "e \<noteq> d" using o(2) by blast
  then have "{e..<e + y} \<inter> {d..<d + z} = {}" using used_at_disjoint o(1) u by blast
  moreover have "{e..<e + n} \<subseteq> {e..<e + y}" using o(3) by (intro ivl_subset [THEN iffD2]) simp
  moreover have "{e..<e + y} \<subseteq> held 0 bs" using o(1) by (rule used_at_held)
  ultimately show ?thesis using o(1) \<open>e \<noteq> d\<close> by blast
qed

lemma all_free:
  assumes ok: "heap_ok h bs l" and u: "used_at 0 bs = {}"
  shows "bs = [(unat (mem_size_aligned h), False)]" "l < end_of 0 bs \<Longrightarrow> l = 0"
proof -
  have r: "row h bs" "tidy bs" using ok by (simp_all add: heap_ok_def)
  then obtain z v cs where b: "bs = (z, v) # cs" by (metis row_def neq_Nil_conv surj_pair)
  have v: "\<not> v" using u by (auto simp: b split: if_splits)
  have "cs = []"
  proof (cases cs)
    case (Cons c ds)
    obtain y w where c: "c = (y, w)" by (cases c)
    then have "w" using r(2) v by (simp add: b Cons tidy_Cons)
    then show ?thesis using u by (simp add: b Cons c)
  qed
  then show bs: "bs = [(unat (mem_size_aligned h), False)]" using r(1) v by (simp add: row_def b)
  show "l < end_of 0 bs \<Longrightarrow> l = 0" using ok by (auto simp: heap_ok_def lfree_at_def bs)
qed

lemma represents_free:
  assumes R: "represents h bs A" and ok: "heap_ok h bs l" and p: "A p = Some xs" and k: "heap_sem_free k h"
  shows "\<exists>h' cs l'. rt_free p h k = Some (Some (), h', k) \<and> heap_ok h' cs l' \<and> represents h' cs (A(p := None)) \<and>
    same_vars h h' \<and> (used_at 0 cs = {} \<longrightarrow> l' = 0)"
proof -
  have r: "row h bs" using ok by (simp add: heap_ok_def)
  obtain d z where d: "p = at h d" "(d, z) \<in> used_at 0 bs" "length xs \<le> z" "xs \<noteq> []" using representsD [OF R p] by metis
  obtain us vs where S: "bs = us @ (z, True) # vs" "d = end_of 0 us + 12" using d(2) by (rule used_at_split)
  have z: "z \<noteq> 0" using d(3,4) by (cases z) auto
  let ?cs = "coalesce us z vs"
  obtain h' l' where F: "rt_free (at h d) h k = Some (Some (), h', k)" "heap_ok h' ?cs l'" "same_vars h h'"
    "keeps (held 0 (us @ (z, False) # vs)) h h'" "l' \<le> end_of 0 us"
    using rt_free_cases [OF ok [unfolded S(1)] z k] unfolding S by blast
  have "l' = 0" if "used_at 0 ?cs = {}"
  proof (rule all_free(2) [OF F(2) that])
    show "l' < end_of 0 ?cs" unfolding end_of_coalesce
      using F(5) end_of_ge [of "end_of 0 us + 12 + z" vs] by simp
  qed
  have U: "used_at 0 ?cs = used_at 0 bs - {(d, z)}" unfolding used_at_coalesce used_at_free S ..
  have H: "held 0 (us @ (z, False) # vs) = held 0 bs - {d..<d + z}" unfolding held_free S ..
  have "represents h' ?cs (A(p := None))"
  proof (rule represents_change [OF R r _ _ F(4), where P = "{p}"])
    show "heap_ptr h' = heap_ptr h" using F(3) by (simp add: same_vars_def)
    show "(e, y) \<in> used_at 0 ?cs \<and> {e..<e + length ys} \<subseteq> held 0 (us @ (z, False) # vs)"
      if "(e, y) \<in> used_at 0 bs" "at h e \<notin> {p}" "length ys \<le> y" for e y and ys :: "u8 option list"
      unfolding U H using others_keep [OF r d(2) that(1) _ that(3)] that(2) d(1) by blast
    show "at h e \<in> dom (A(p := None))" if "(e, y) \<in> used_at 0 ?cs" for e y
    proof -
      have e: "(e, y) \<in> used_at 0 bs" "(e, y) \<noteq> (d, z)" using that unfolding U by auto
      then have "at h e \<noteq> p" using at_inj_used [OF r e(1) d(2)] d(1) by blast
      then show ?thesis using R e(1) unfolding represents_def by auto
    qed
  qed auto
  then show ?thesis using F d(1) \<open>used_at 0 ?cs = {} \<Longrightarrow> l' = 0\<close> by blast
qed

definition resize_cells :: "nat \<Rightarrow> u8 option list \<Rightarrow> u8 option list" where
  "resize_cells n xs = take n xs @ replicate (n - length xs) None"

lemma resize_cells_nth: "i < n \<Longrightarrow> resize_cells n xs ! i = (if i < length xs then xs ! i else None)"
  by (simp add: resize_cells_def nth_append)

lemma length_resize_cells [simp]: "length (resize_cells n xs) = n"
  by (simp add: resize_cells_def)

lemma represents_moves:
  assumes R: "represents h bs A" and ok: "heap_ok h bs l" and p: "A (at h d) = Some xs" and u: "(d, z) \<in> used_at 0 bs"
    and m: "moves_block s h bs d z q h'" and n: "n \<le> s" "0 < n"
  shows "\<exists>cs l'. heap_ok h' cs l' \<and> represents h' cs ((A(at h d := None))(q \<mapsto> resize_cells n xs)) \<and> same_vars h h'"
proof -
  have r: "row h bs" using ok by (simp add: heap_ok_def)
  obtain e c cs l1 where M: "q = at h e" "s \<le> c" "heap_ok h' cs l1" "same_vars h h'"
    "used_at 0 cs = insert (e, c) (used_at 0 bs - {(d, z)})" "\<forall>y. (e, y) \<notin> used_at 0 bs - {(d, z)}"
    "keeps (held 0 bs - {d..<d + z}) h h'" "\<forall>i < min s z. bytes h' (q + of_nat i) = bytes h (at h d + of_nat i)"
    using m unfolding moves_block_def by blast
  obtain d' z' where d': "at h d = at h d'" "(d', z') \<in> used_at 0 bs" "length xs \<le> z'" "cells_ok h d' xs"
    using representsD [OF R p] by metis
  then have dz: "d' = d" "z' = z" using at_inj_used [OF r u] by blast+
  have at: "at h' = at h" using M(4) by (simp add: same_vars_def at_def fun_eq_iff)
  let ?B = "(A(at h d := None))(q \<mapsto> resize_cells n xs)"
  have cells: "cells_ok h' e (resize_cells n xs)"
    unfolding cells_ok_def
  proof (intro allI impI)
    fix i x assume i: "i < length (resize_cells n xs)" "resize_cells n xs ! i = Some x"
    then have il: "i < n" "i < length xs" "xs ! i = Some x" by (simp_all add: resize_cells_nth split: if_splits)
    then have "bytes h' (q + of_nat i) = bytes h (at h d + of_nat i)" using M(8) n d'(3) dz by simp
    moreover have "bytes h (at h (d + i)) = x" using d'(4) il dz by (simp add: cells_ok_def)
    moreover have "q + of_nat i = at h' (e + i)" "at h d + of_nat i = at h (d + i)" unfolding at by (simp_all add: M(1) at_def)
    ultimately show "bytes h' (at h' (e + i)) = x" by simp
  qed
  have "represents h' cs ?B"
  proof (rule represents_change [OF R r _ _ M(7), where P = "{at h d, q}"])
    show "heap_ptr h' = heap_ptr h" using M(4) by (simp add: same_vars_def)
    show "(f, y) \<in> used_at 0 cs \<and> {f..<f + length ys} \<subseteq> held 0 bs - {d..<d + z}"
      if "(f, y) \<in> used_at 0 bs" "at h f \<notin> {at h d, q}" "length ys \<le> y" for f y and ys :: "u8 option list"
      unfolding M(5) using others_keep [OF r u that(1) _ that(3)] that(2) by blast
    show "\<exists>f y. pp = at h f \<and> (f, y) \<in> used_at 0 cs \<and> length ys \<le> y \<and> ys \<noteq> [] \<and> cells_ok h' f ys"
      if "pp \<in> {at h d, q}" "?B pp = Some ys" for pp ys
    proof -
      have o1: "pp = at h e" and o2: "ys = resize_cells n xs" using that M(1) by (auto split: if_splits)
      have "(e, c) \<in> used_at 0 cs" unfolding M(5) by simp
      moreover have "length ys \<le> c" "ys \<noteq> []" "cells_ok h' e ys"
        using M(2) n cells length_resize_cells [of n xs] unfolding o2 by (auto simp del: length_resize_cells)
      ultimately show ?thesis using o1 by blast
    qed
    show "at h f \<in> dom ?B" if "(f, y) \<in> used_at 0 cs" for f y
    proof (cases "(f, y) = (e, c)")
      case True
      then show ?thesis by (simp add: M(1))
    next
      case False
      then have f: "(f, y) \<in> used_at 0 bs" "(f, y) \<noteq> (d, z)" using that unfolding M(5) by auto
      then have "at h f \<noteq> at h d" using at_inj_used [OF r f(1) u] by blast
      then show ?thesis using R f(1) unfolding represents_def by auto
    qed
  qed auto
  then show ?thesis using M(3,4) by blast
qed

text \<open>Writes inside an owned block.\<close>

lemma represents_update:
  assumes R: "represents h bs A" and ok: "heap_ok h bs l" and p: "A p = Some xs" and len: "length ys = length xs"
    and out: "\<And>a. (\<forall>i < length xs. a \<noteq> p + of_nat i) \<Longrightarrow> b a = bytes h a"
    and inn: "\<And>i x. i < length xs \<Longrightarrow> ys ! i = Some x \<Longrightarrow> b (p + of_nat i) = x"
  shows "heap_ok (h\<lparr>bytes := b\<rparr>) bs l" "represents (h\<lparr>bytes := b\<rparr>) bs (A(p \<mapsto> ys))"
proof -
  let ?h = "h\<lparr>bytes := b\<rparr>"
  have r: "row h bs" using ok by (simp add: heap_ok_def)
  obtain d z where d: "p = at h d" "(d, z) \<in> used_at 0 bs" "length xs \<le> z" "xs \<noteq> []" using representsD [OF R p] by metis
  have pi: "p + of_nat i = at h (d + i)" for i by (simp add: d(1) at_def)
  have hd: "{d..<d + z} \<subseteq> held 0 bs" by (rule used_at_held [OF d(2)])
  show "heap_ok ?h bs l"
  proof (rule heap_ok_write [OF ok])
    fix a assume a: "a \<notin> at h ` held 0 bs"
    show "b a = bytes h a"
    proof (rule out, intro allI impI)
      fix i assume "i < length xs"
      then have "d + i \<in> {d..<d + z}" using d(3) by simp
      then show "a \<noteq> p + of_nat i" using a hd unfolding pi by blast
    qed
  qed
  have k: "keeps (held 0 bs - {d..<d + z}) h ?h"
    unfolding keeps_def
  proof (intro conjI ballI)
    show "mem_size_aligned ?h = mem_size_aligned h" by simp
    fix e assume e: "e \<in> held 0 bs - {d..<d + z} \<union> beyond h"
    then have e32: "e < 2 ^ 32" using held_bounds [of e 0 bs] row_bounds(1) [OF r] by (auto simp: beyond_def)
    have "b (at h e) = bytes h (at h e)"
    proof (rule out, intro allI impI)
      fix i assume "i < length xs"
      then have i: "d + i \<in> {d..<d + z}" using d(3) by simp
      then have "d + i \<le> end_of 0 bs" using hd held_bounds [of "d + i" 0 bs] by fastforce
      then have "e \<noteq> d + i" "d + i < 2 ^ 32" using e i r used_at_32 [OF r d(2)] by (auto simp: beyond_def row_def)
      then show "at h e \<noteq> p + of_nat i" unfolding pi using e32 by (simp add: at_eq_iff)
    qed
    then show "bytes ?h (at h e) = bytes h (at h e)" by simp
  qed
  show "represents ?h bs (A(p \<mapsto> ys))"
  proof (rule represents_change [OF R r _ _ k, where P = "{p}"])
    show "(e, y) \<in> used_at 0 bs \<and> {e..<e + length zs} \<subseteq> held 0 bs - {d..<d + z}"
      if "(e, y) \<in> used_at 0 bs" "at h e \<notin> {p}" "length zs \<le> y" for e y and zs :: "u8 option list"
      using others_keep [OF r d(2) that(1) _ that(3)] that(2) d(1) by blast
    show "\<exists>e y. q = at h e \<and> (e, y) \<in> used_at 0 bs \<and> length zs \<le> y \<and> zs \<noteq> [] \<and> cells_ok ?h e zs"
      if "q \<in> {p}" "(A(p \<mapsto> ys)) q = Some zs" for q zs
    proof -
      have zs: "q = at h d" "zs = ys" using that d(1) by auto
      have "cells_ok ?h d ys" using inn len unfolding cells_ok_def pi by simp
      moreover have "length ys \<le> z" "ys \<noteq> []" using len d(3,4) by auto
      ultimately show ?thesis using zs d(2) by blast
    qed
    show "at h e \<in> dom (A(p \<mapsto> ys))" if "(e, y) \<in> used_at 0 bs" for e y
      using R that unfolding represents_def by auto
  qed auto
qed

lemma represents_write:
  fixes x :: u8
  assumes R: "represents h bs A" and ok: "heap_ok h bs l" and p: "A p = Some xs" and i: "i < length xs"
  defines "g \<equiv> h\<lparr>bytes := (bytes h)(p + of_nat i := x)\<rparr>"
  shows "heap_ok g bs l" "represents g bs (A(p \<mapsto> xs[i := Some x]))"
proof -
  have r: "row h bs" using ok by (simp add: heap_ok_def)
  obtain d z where d: "p = at h d" "(d, z) \<in> used_at 0 bs" "length xs \<le> z" "cells_ok h d xs" using representsD [OF R p] by metis
  have pi: "p + of_nat j = at h (d + j)" for j by (simp add: d(1) at_def)
  have inj: "p + of_nat j = p + of_nat i \<longleftrightarrow> j = i" if "j < length xs" for j
    unfolding pi using that i d(3) used_at_32 [OF r d(2)] by (subst at_eq_iff) auto
  have u: "((bytes h)(p + of_nat i := x)) (p + of_nat j) = y" if "j < length xs" "xs[i := Some x] ! j = Some y" for j y
    using that d(4) inj [OF that(1)] by (cases "j = i") (auto simp: cells_ok_def pi)
  have out: "((bytes h)(p + of_nat i := x)) a = bytes h a" if "\<forall>j<length xs. a \<noteq> p + of_nat j" for a
    using that i by auto
  show "heap_ok g bs l" "represents g bs (A(p \<mapsto> xs[i := Some x]))"
    unfolding g_def using represents_update [OF R ok p length_list_update out u] by blast+
qed

lemma represents_zero:
  assumes R: "represents h bs A" and ok: "heap_ok h bs l" and p: "A p = Some xs" and n: "length xs = unat w"
  shows "heap_ok (heap_memset p 0 w h) bs l" "represents (heap_memset p 0 w h) bs (A(p \<mapsto> replicate (unat w) (Some 0)))"
proof -
  let ?b = "\<lambda>a. if a - p < w then 0 else bytes h a"
  have i: "p + of_nat i - p < w \<longleftrightarrow> i < unat w" if "i < unat w" for i
  proof -
    have "unat w < 2 ^ 32" using unsigned_less [of w] by simp
    then show ?thesis using that by (simp add: word_less_nat_alt unat_of_nat32)
  qed
  have out: "?b a = bytes h a" if "\<forall>i<length xs. a \<noteq> p + of_nat i" for a
  proof -
    have "a = p + of_nat (unat (a - p))" by simp
    then have "\<not> unat (a - p) < unat w" using that unfolding n by metis
    then show ?thesis by (simp add: word_less_nat_alt)
  qed
  have inn: "?b (p + of_nat i) = x" if "i < length xs" "replicate (unat w) (Some 0) ! i = Some x" for i x
    using that i [of i] by (simp add: n)
  have len: "length (replicate (unat w) (Some 0)) = length xs" by (simp add: n)
  show "heap_ok (heap_memset p 0 w h) bs l" "represents (heap_memset p 0 w h) bs (A(p \<mapsto> replicate (unat w) (Some 0)))"
    unfolding heap_memset_def memset_eq ucast_0 using represents_update [OF R ok p len out inn] by blast+
qed

subsection \<open>Runs\<close>

text \<open>
  The states after any sequence of calls, started on a fresh heap of \<open>n\<close> bytes at \<open>b\<close>, with the
  owners' store beside the memory.
\<close>

definition fresh_heap :: "kernel \<Rightarrow> heap \<Rightarrow> bool" where
  "fresh_heap k h \<longleftrightarrow> (\<exists>b n h0. h = (heap_setup b n h0)\<lparr>lfree := b\<rparr> \<and> b \<noteq> 0 \<and> unat b mod 4 = 0 \<and> unat n mod 4 = 0 \<and>
     12 \<le> n \<and> unat b + unat n + 24 \<le> 2 ^ 32 \<and> used_mem h0 = 0 \<and> heap_sem_free k h)"

inductive heap_run :: "kernel \<Rightarrow> heap \<Rightarrow> store \<Rightarrow> bool" for k :: kernel where
  run_fresh: "fresh_heap k h \<Longrightarrow> heap_run k h Map.empty"
| run_malloc: "heap_run k h A \<Longrightarrow> sz \<noteq> 0 \<Longrightarrow> sz \<le> 0xfffffffc \<Longrightarrow> rt_malloc sz h k = Some (Some p, h', k') \<Longrightarrow>
    heap_run k h' (if p = 0 then A else A(p \<mapsto> replicate (unat sz) None))"
| run_calloc: "heap_run k h A \<Longrightarrow> count * sz \<noteq> 0 \<Longrightarrow> unat count * unat sz \<le> 0xfffffffc \<Longrightarrow>
    rt_calloc count sz h k = Some (Some p, h', k') \<Longrightarrow>
    heap_run k h' (if p = 0 then A else A(p \<mapsto> replicate (unat count * unat sz) (Some 0)))"
| run_free: "heap_run k h A \<Longrightarrow> A p = Some xs \<Longrightarrow> rt_free p h k = Some (Some (), h', k') \<Longrightarrow> heap_run k h' (A(p := None))"
| run_realloc: "heap_run k h A \<Longrightarrow> A p = Some xs \<Longrightarrow> sz \<noteq> 0 \<Longrightarrow> sz \<le> 0xfffffffc \<Longrightarrow>
    rt_realloc p sz h k = Some (Some q, h', k') \<Longrightarrow>
    heap_run k h' (if q = 0 then A else (A(p := None))(q \<mapsto> resize_cells (unat sz) xs))"
| run_write: "heap_run k h A \<Longrightarrow> A p = Some xs \<Longrightarrow> i < length xs \<Longrightarrow>
    heap_run k (h\<lparr>bytes := (bytes h)(p + of_nat i := x)\<rparr>) (A(p \<mapsto> xs[i := Some x]))"

definition run_inv :: "kernel \<Rightarrow> heap \<Rightarrow> store \<Rightarrow> bool" where
  "run_inv k h A \<longleftrightarrow> heap_sem_free k h \<and> 12 \<le> unat (mem_size_aligned h) \<and> (\<exists>bs l. heap_ok h bs l \<and> represents h bs A \<and> (used_at 0 bs = {} \<longrightarrow> l = 0))"

lemma run_invI:
  assumes "run_inv k h A" "same_vars h h'" "heap_ok h' cs l'" "represents h' cs A'" "used_at 0 cs = {} \<longrightarrow> l' = 0"
  shows "run_inv k h' A'"
  using assms unfolding run_inv_def by (auto simp: heap_sem_free_def same_vars_def)

lemma represents_some: "represents h bs (A(p \<mapsto> xs)) \<Longrightarrow> used_at 0 bs \<noteq> {}"
  by (auto simp: represents_def split: if_splits dest: spec [of _ p])

lemma run_invI_some:
  "run_inv k h A \<Longrightarrow> same_vars h h' \<Longrightarrow> heap_ok h' cs l' \<Longrightarrow> represents h' cs (A'(p \<mapsto> xs)) \<Longrightarrow> run_inv k h' (A'(p \<mapsto> xs))"
  using run_invI represents_some by metis

lemma run_inv_malloc:
  assumes I: "run_inv k h A" and sz: "sz \<noteq> 0" "sz \<le> 0xfffffffc"
  shows "\<exists>p h'. rt_malloc sz h k = Some (Some p, h', k) \<and>
    run_inv k h' (if p = 0 then A else A(p \<mapsto> replicate (unat sz) None))"
proof -
  obtain bs l where B: "heap_sem_free k h" "12 \<le> unat (mem_size_aligned h)" "heap_ok h bs l" "represents h bs A"
    using I by (auto simp: run_inv_def)
  obtain p h' where M: "rt_malloc sz h k = Some (Some p, h', k)"
    "if p = 0 then h' = h else gives_block (malloc_size sz) h bs l p h'"
    using rt_malloc_cases [OF B(3,1) sz B(2)] by (metis (no_types, lifting))
  show ?thesis
  proof (cases "p = 0")
    case True
    then show ?thesis using M I by auto
  next
    case False
    have n: "unat sz \<le> malloc_size sz" "0 < unat sz"
      using align4_facts(1) [of "unat sz"] sz by (auto simp: malloc_size_def unat_gt_0)
    have "gives_block (malloc_size sz) h bs l p h'" using M(2) False by simp
    from represents_malloc [OF B(4,3) this n] have "run_inv k h' (A(p \<mapsto> replicate (unat sz) None))"
      using run_invI_some [OF I] by blast
    then show ?thesis using M(1) False by auto
  qed
qed

lemma run_inv_update:
  assumes I: "run_inv k h A" and v: "same_vars h h'"
    and s: "\<And>bs l. heap_ok h bs l \<Longrightarrow> represents h bs A \<Longrightarrow> heap_ok h' bs l \<and> represents h' bs (A(p \<mapsto> ys))"
  shows "run_inv k h' (A(p \<mapsto> ys))"
proof -
  obtain bs l where "heap_ok h bs l" "represents h bs A" using I by (auto simp: run_inv_def)
  then have "heap_ok h' bs l" "represents h' bs (A(p \<mapsto> ys))" using s by blast+
  then show ?thesis using run_invI_some [OF I v] by blast
qed

lemma run_inv_calloc:
  assumes I: "run_inv k h A" and sz: "count * sz \<noteq> 0" "unat count * unat sz \<le> 0xfffffffc"
  shows "\<exists>p h'. rt_calloc count sz h k = Some (Some p, h', k) \<and>
    run_inv k h' (if p = 0 then A else A(p \<mapsto> replicate (unat count * unat sz) (Some 0)))"
proof -
  have n: "unat (count * sz) = unat count * unat sz" using sz(2) by (simp add: unat_word_ariths)
  then have le: "count * sz \<le> 0xfffffffc" using sz(2) by (simp add: word_le_nat_alt)
  obtain p h1 where M: "rt_malloc (count * sz) h k = Some (Some p, h1, k)"
    "run_inv k h1 (if p = 0 then A else A(p \<mapsto> replicate (unat (count * sz)) None))"
    using run_inv_malloc [OF I sz(1) le] by blast
  show ?thesis
  proof (cases "p = 0")
    case True
    then show ?thesis using M by (auto simp: rt_calloc_def calloc_zero_def)
  next
    case False
    let ?B = "A(p \<mapsto> replicate (unat (count * sz)) None)"
    have "run_inv k (heap_memset p 0 (count * sz) h1) (?B(p \<mapsto> replicate (unat (count * sz)) (Some 0)))"
    proof (rule run_inv_update)
      show "run_inv k h1 ?B" using M(2) False by simp
      show "same_vars h1 (heap_memset p 0 (count * sz) h1)" by (simp add: heap_memset_def same_vars_def)
      show "heap_ok (heap_memset p 0 (count * sz) h1) bs l \<and>
        represents (heap_memset p 0 (count * sz) h1) bs (?B(p \<mapsto> replicate (unat (count * sz)) (Some 0)))"
        if "heap_ok h1 bs l" "represents h1 bs ?B" for bs l
        using represents_zero [OF that(2,1), of p] by simp
    qed
    then show ?thesis using M(1) False by (auto simp: rt_calloc_def calloc_zero_def n)
  qed
qed

lemma run_inv_free:
  assumes I: "run_inv k h A" and p: "A p = Some xs"
  shows "\<exists>h'. rt_free p h k = Some (Some (), h', k) \<and> run_inv k h' (A(p := None))"
proof -
  obtain bs l where B: "heap_sem_free k h" "heap_ok h bs l" "represents h bs A" using I by (auto simp: run_inv_def)
  from represents_free [OF B(3,2) p B(1)] show ?thesis using run_invI [OF I] by metis
qed

lemma run_inv_realloc:
  assumes I: "run_inv k h A" and p: "A p = Some xs" and sz: "sz \<noteq> 0" "sz \<le> 0xfffffffc"
  shows "\<exists>q h'. rt_realloc p sz h k = Some (Some q, h', k) \<and>
    run_inv k h' (if q = 0 then A else (A(p := None))(q \<mapsto> resize_cells (unat sz) xs))"
proof -
  obtain bs l where B: "heap_sem_free k h" "12 \<le> unat (mem_size_aligned h)" "heap_ok h bs l" "represents h bs A"
    using I by (auto simp: run_inv_def)
  obtain d z where d: "p = at h d" "(d, z) \<in> used_at 0 bs" "length xs \<le> z" "xs \<noteq> []" using representsD [OF B(4) p] by metis
  have z: "z \<noteq> 0" using d(3,4) by (cases z) auto
  obtain q h' where M: "rt_realloc p sz h k = Some (Some q, h', k)"
    "if q = 0 then h' = h else moves_block (align4 (unat sz)) h bs d z q h'"
    using rt_realloc_cases [OF B(3) d(2) z B(1) sz B(2)] unfolding d(1) by blast
  show ?thesis
  proof (cases "q = 0")
    case True
    then show ?thesis using M I by auto
  next
    case False
    have n: "unat sz \<le> align4 (unat sz)" "0 < unat sz" using align4_facts(1) [of "unat sz"] sz by (simp_all add: unat_gt_0)
    have "moves_block (align4 (unat sz)) h bs d z q h'" using M(2) False by simp
    from represents_moves [OF B(4,3) p [unfolded d(1)] d(2) this n]
    have "run_inv k h' ((A(p := None))(q \<mapsto> resize_cells (unat sz) xs))"
      unfolding d(1) [symmetric] using run_invI_some [OF I] by blast
    then show ?thesis using M(1) False by auto
  qed
qed

lemma heap_run_inv: "heap_run k h A \<Longrightarrow> run_inv k h A"
proof (induction rule: heap_run.induct)
  case (run_fresh h)
  then obtain b n :: u32 and h0 where F: "h = (heap_setup b n h0)\<lparr>lfree := b\<rparr>" "b \<noteq> 0" "unat b mod 4 = 0" "unat n mod 4 = 0"
    "12 \<le> n" "unat b + unat n + 24 \<le> 2 ^ 32" "used_mem h0 = 0" "heap_sem_free k h"
    unfolding fresh_heap_def by (elim exE conjE) (rule that)
  note ok = heap_setup_ok [OF F(2,3,4,6,7)]
  have "represents h [(unat n, False)] Map.empty" by (simp add: represents_def)
  then show ?case using F(5,8) ok(1,4) unfolding run_inv_def F(1)
    by (intro conjI exI [of _ "[(unat n, False)]"] exI [of _ 0]) (auto simp: word_le_nat_alt)
next
  case (run_malloc h A sz p h' k')
  then show ?case using run_inv_malloc [of k h A sz] by auto
next
  case (run_calloc h A count sz p h' k')
  then show ?case using run_inv_calloc [of k h A count sz] by auto
next
  case (run_free h A p xs h' k')
  then show ?case using run_inv_free [of k h A p xs] by (metis option.inject prod.inject)
next
  case (run_realloc h A p xs sz q h' k')
  then show ?case using run_inv_realloc [of k h A p xs sz] by auto
next
  case (run_write h A p xs i x)
  then show ?case
    by (intro run_inv_update [where A = A]) (auto simp: same_vars_def intro: represents_write)
qed

subsection \<open>A heap of 88 bytes\<close>

definition heap_kernel :: kernel where
  "heap_kernel = upd_sem 2 (\<lambda>s. s\<lparr>s_value := 1\<rparr>) ipc_demo"

definition heap_zero :: heap where
  "heap_zero = \<lparr>bytes = (\<lambda>_. 0), heap_ptr = 0, heap_end = 0, lfree = 0, heap_sem = 2, mem_size_aligned = 0,
     used_mem = 0, max_mem = 0\<rparr>"

definition heap_demo :: heap where
  "heap_demo = (heap_setup 0x1000 88 heap_zero)\<lparr>lfree := 0x1000\<rparr>"

lemma heap_demo_ok:
  "heap_ok heap_demo [(88, False)] 0" "lowest [(88, False)] 0" "heap_sem heap_demo = 2" "mem_size_aligned heap_demo = 88"
  "heap_ptr heap_demo = 0x1000"
  using heap_setup_ok [where b = "0x1000" and n = 88 and h = heap_zero] by (simp_all add: heap_demo_def heap_zero_def)

lemma heap_kernel_free: "heap_sem h = 2 \<Longrightarrow> heap_sem_free heap_kernel h"
  by (simp add: heap_sem_free_def heap_kernel_def ipc_demo_sel ipc_demo_type demo_thl)

lemma heap_demo_fresh: "fresh_heap heap_kernel heap_demo"
  unfolding fresh_heap_def
  by (rule exI [of _ "0x1000"], rule exI [of _ 88], rule exI [of _ heap_zero])
    (simp add: heap_demo_def heap_zero_def heap_kernel_free heap_demo_ok(3) [unfolded heap_demo_def heap_zero_def])

text \<open>Two allocations leave a free block of 12 bytes at the end.\<close>

lemma first_fit_first: "first_fit s ((z, False) # ys) 0 xs z' ys' \<Longrightarrow> s \<le> z \<Longrightarrow> xs = [] \<and> z' = z \<and> ys' = ys"
proof -
  assume f: "first_fit s ((z, False) # ys) 0 xs z' ys'" and s: "s \<le> z"
  have "xs = []"
  proof (cases xs)
    case (Cons b us)
    then have "b = (z, False)" using f by (simp add: first_fit_def)
    then have "\<exists>us' x vs. xs = us' @ (x, False) # vs \<and> x = z" using Cons by (intro exI [of _ "[]"]) simp
    then show ?thesis using f s unfolding first_fit_def by fastforce
  qed simp
  then show ?thesis using f by (simp add: first_fit_def)
qed

lemma demo_alloc:
  assumes ok: "heap_ok h bs l" and s: "heap_sem h = 2" "mem_size_aligned h = 88" and sz: "sz \<noteq> 0" "sz \<le> 0xfffffffc" "malloc_size sz \<le> 88"
    and big: "bs = xs @ (z, False) # ys" "l \<le> end_of 0 xs" "malloc_size sz < z"
  shows "\<exists>p h'. rt_malloc sz h heap_kernel = Some (Some p, h', heap_kernel) \<and> p \<noteq> 0 \<and>
    gives_block (malloc_size sz) h bs l p h' \<and> heap_sem h' = 2 \<and> mem_size_aligned h' = 88"
proof -
  obtain p h' where M: "rt_malloc sz h heap_kernel = Some (Some p, h', heap_kernel)"
    "if p = 0 then h' = h \<and> (unat (mem_size_aligned h) < malloc_size sz \<or> too_small (malloc_size sz) bs l)
     else gives_block (malloc_size sz) h bs l p h'"
    using rt_malloc_cases [OF ok heap_kernel_free [OF s(1)] sz(1,2)] s(2) by auto
  have "\<not> too_small (malloc_size sz) bs l"
    unfolding too_small_def using big by (metis less_irrefl not_less_iff_gr_or_eq order_less_trans)
  then have p: "p \<noteq> 0" using M(2) s(2) sz(3) by (auto split: if_splits)
  then have g: "gives_block (malloc_size sz) h bs l p h'" using M(2) by simp
  then have "same_vars h h'" unfolding gives_block_def by blast
  then show ?thesis using M(1) p g s by (auto simp: same_vars_def)
qed

lemma demo_two:
  obtains h where "heap_ok h [(40, True), (12, True), (12, False)] 76" "heap_sem h = 2" "mem_size_aligned h = 88"
    "heap_ptr h = 0x1000"
proof -
  have m: "malloc_size 40 = 40" "malloc_size 12 = 12" by (simp_all add: malloc_size_def align4_def)
  obtain p h1 where 1: "gives_block 40 heap_demo [(88, False)] 0 p h1" "heap_sem h1 = 2" "mem_size_aligned h1 = 88"
    using demo_alloc [OF heap_demo_ok(1,3,4), where sz = 40 and xs = "[]" and z = 88 and ys = "[]"] m by auto
  then obtain l1 where h1: "heap_ok h1 [(40, True), (36, False)] l1" "lowest [(40, True), (36, False)] l1" "heap_ptr h1 = 0x1000"
    using heap_demo_ok(2,5) unfolding gives_block_def
    by (auto dest!: first_fit_first simp: carve_def same_vars_def)
  then have l1: "l1 = 52" by (auto simp: heap_ok_def lfree_at_def lowest_def)
  obtain q h2 where 2: "gives_block 12 h1 [(40, True), (36, False)] 52 q h2" "heap_sem h2 = 2" "mem_size_aligned h2 = 88"
    using demo_alloc [OF h1(1) 1(2,3), where sz = 12 and xs = "[(40, True)]" and z = 36 and ys = "[]"] m by (auto simp: l1)
  have ff: "xs = [(40, True)] \<and> z = 36 \<and> ys = []" if "first_fit 12 [(40, True), (36, False)] 52 xs z ys" for xs z ys
    using that unfolding first_fit_def by (auto simp: Cons_eq_append_conv)
  then obtain l2 where h2: "heap_ok h2 [(40, True), (12, True), (12, False)] l2" "lowest [(40, True), (12, True), (12, False)] l2"
    "heap_ptr h2 = 0x1000"
    using 2(1) h1(2,3) l1 unfolding gives_block_def by (fastforce simp: carve_def same_vars_def)
  then have "l2 = 76" by (auto simp: heap_ok_def lfree_at_def lowest_def)
  then show ?thesis using that h2 2 by blast
qed

subsection \<open>Properties\<close>

lemma too_small_lowest:
  assumes "too_small s bs l" "lowest bs l"
  shows "(\<forall>z. (z, False) \<in> set (butlast bs) \<longrightarrow> z < s) \<and> (\<forall>xs z. bs = xs @ [(z, False)] \<longrightarrow> z \<le> s)"
proof -
  have f: "z < s \<or> z = s \<and> ys = []" if "bs = xs @ (z, False) # ys" for xs z ys
  proof -
    have "end_of 0 xs \<in> frees 0 bs" unfolding that frees_append by simp
    then show ?thesis using assms that by (auto simp: too_small_def lowest_def)
  qed
  have "z < s" if m: "(z, False) \<in> set (butlast bs)" for z
  proof -
    obtain xs ys where "butlast bs = xs @ (z, False) # ys" using split_list [OF m] by blast
    moreover have "bs = butlast bs @ [last bs]" using m by (cases bs) auto
    ultimately have "bs = xs @ (z, False) # ys @ [last bs]" by simp
    then show ?thesis using f by blast
  qed
  moreover have "z \<le> s" if "bs = xs @ [(z, False)]" for xs z using f [of xs z "[]"] that by auto
  ultimately show ?thesis by blast
qed

text \<open>
  C29.  \<^verbatim>\<open>rt_malloc\<close> on a well-formed heap whose semaphore is free returns.  It searches from \<^verbatim>\<open>lfree\<close> on,
  and the last block of the heap does not count when the aligned size is all of it.  It returns \<^verbatim>\<open>RT_NULL\<close>
  only when the aligned size is larger than the heap or every free block at or behind \<^verbatim>\<open>lfree\<close> is too small
  in this sense, and then the heap is unchanged; so where \<^verbatim>\<open>lfree\<close> is the lowest free block, every free
  block is smaller than the aligned size, but that the last one may have just this size.  Otherwise it takes
  the first free block at or behind \<^verbatim>\<open>lfree\<close> that fits, splits it when at least 24 bytes are left over,
  keeps the heap well-formed and \<^verbatim>\<open>lfree\<close> lowest, and changes no byte that is given out.  The pointer is
  aligned, and the bytes it gives out belong to nobody else.
\<close>

theorem rt_malloc_spec:
  assumes ok: "heap_ok h bs l" and k: "heap_sem_free k h" and sz: "sz \<noteq> 0" "sz \<le> 0xfffffffc"
    and M: "12 \<le> unat (mem_size_aligned h)"
  shows "\<exists>p h'. rt_malloc sz h k = Some (Some p, h', k) \<and>
    (if p = 0 then h' = h \<and> (unat (mem_size_aligned h) < malloc_size sz \<or> too_small (malloc_size sz) bs l \<and>
       (lowest bs l \<longrightarrow> (\<forall>z. (z, False) \<in> set (butlast bs) \<longrightarrow> z < malloc_size sz) \<and>
          (\<forall>xs z. bs = xs @ [(z, False)] \<longrightarrow> z \<le> malloc_size sz)))
     else \<exists>xs z ys l'. first_fit (malloc_size sz) bs l xs z ys \<and> p = at h (end_of 0 xs + 12) \<and> unat p mod 4 = 0 \<and>
       {end_of 0 xs + 12..<end_of 0 xs + 12 + malloc_size sz} \<inter> held 0 bs = {} \<and>
       heap_ok h' (xs @ carve (malloc_size sz) z @ ys) l' \<and>
       (lowest bs l \<longrightarrow> lowest (xs @ carve (malloc_size sz) z @ ys) l') \<and> keeps (held 0 bs) h h')"
proof -
  obtain p h' where M: "rt_malloc sz h k = Some (Some p, h', k)"
    "if p = 0 then h' = h \<and> (unat (mem_size_aligned h) < malloc_size sz \<or> too_small (malloc_size sz) bs l)
     else gives_block (malloc_size sz) h bs l p h'"
    using rt_malloc_cases [OF ok k sz M] by blast
  show ?thesis
  proof (cases "p = 0")
    case True
    then show ?thesis using M too_small_lowest [of "malloc_size sz" bs l] by auto
  next
    case False
    then obtain xs z ys l' where G: "first_fit (malloc_size sz) bs l xs z ys" "p = at h (end_of 0 xs + 12)"
      "heap_ok h' (xs @ carve (malloc_size sz) z @ ys) l'"
      "lowest bs l \<longrightarrow> lowest (xs @ carve (malloc_size sz) z @ ys) l'" "keeps (held 0 bs) h h'"
      using M(2) unfolding gives_block_def by auto
    have bs: "bs = xs @ (z, False) # ys" "malloc_size sz \<le> z" using G(1) by (simp_all add: first_fit_def)
    have r: "row h (xs @ (z, False) # ys)" using ok by (simp add: heap_ok_def bs)
    have "unat p mod 4 = 0"
      using row_block(9) [OF r refl] row_offset_mod4 [OF r] r by (simp add: G(2) row_def)
    moreover have "{end_of 0 xs + 12..<end_of 0 xs + 12 + malloc_size sz} \<inter> held 0 bs = {}"
    proof -
      have "{end_of 0 xs + 12..<end_of 0 xs + 12 + malloc_size sz} \<subseteq> {end_of 0 xs + 12..<end_of 0 xs + 12 + z}"
        using bs(2) by (intro ivl_subset [THEN iffD2]) simp
      then show ?thesis using first_fit_held(2) [OF G(1) refl] by blast
    qed
    ultimately show ?thesis using M(1) False G by auto
  qed
qed

theorem rt_malloc_spec_witness:
  "\<exists>p h'. rt_malloc 20 heap_demo heap_kernel = Some (Some p, h', heap_kernel) \<and> p = 0x100c \<and>
     heap_ok h' [(20, True), (56, False)] 32"
proof -
  have m: "malloc_size 20 = 20" by (simp add: malloc_size_def align4_def)
  have "\<not> too_small 20 [(88, False)] 0" by (auto simp: too_small_def intro: exI [of _ "[]"])
  moreover have "xs = [] \<and> z = 88 \<and> ys = []" if "first_fit 20 [(88, False)] 0 xs z ys" for xs z ys
    using first_fit_first [OF that] by simp
  moreover have "l = 32" if "heap_ok h [(20, True), (56, False)] l" "lowest [(20, True), (56, False)] l" for h l
    using that by (auto simp: heap_ok_def lfree_at_def lowest_def)
  ultimately show ?thesis
    using rt_malloc_spec [OF heap_demo_ok(1) heap_kernel_free [OF heap_demo_ok(3)], of 20]
    by (fastforce simp: m heap_demo_ok carve_def at_def split: if_splits)
qed

lemma plug_holes_max: "plug_holes m h = Some h' \<Longrightarrow> max_mem h' = max_mem h"
  by (auto simp: plug_holes_def plug_next_def plug_prev_def Let_def split: bind_splits if_splits)

lemma free_section_max: "free_section p h = Some h' \<Longrightarrow> max_mem h' = max_mem h"
  by (auto simp: free_section_def Let_def dest!: plug_holes_max split: bind_splits if_splits)

lemma free_max_mem: "rt_free p h k = Some (r, h', k') \<Longrightarrow> max_mem h' = max_mem h"
  by (auto simp: rt_free_def rt_free_return_def dest!: free_section_max split: bind_splits option.splits if_splits)

text \<open>
  C30.  Freeing what was just allocated restores the blocks, \<^verbatim>\<open>lfree\<close> and the count \<^verbatim>\<open>used_mem\<close> of the memory in
  use, and leaves every byte given out before unchanged.  The other statistic, \<^verbatim>\<open>max_mem\<close>, is the most that
  was ever in use, and stays at what the allocation made it.
\<close>

theorem malloc_free_roundtrip:
  assumes ok: "heap_ok h bs l" "lowest bs l" and k: "heap_sem_free k h" and sz: "sz \<noteq> 0" "sz \<le> 0xfffffffc"
    and M: "12 \<le> unat (mem_size_aligned h)" and p: "rt_malloc sz h k = Some (Some p, h1, k1)" "p \<noteq> 0"
  shows "\<exists>h2. rt_free p h1 k1 = Some (Some (), h2, k) \<and> heap_ok h2 bs l \<and> lfree h2 = lfree h \<and>
    used_mem h2 = used_mem h \<and> max_mem h2 = max_mem h1 \<and> keeps (held 0 bs) h h2"
proof -
  have g: "k1 = k" "gives_block (malloc_size sz) h bs l p h1"
    using rt_malloc_cases [OF ok(1) k sz M] p by auto
  have "0 < malloc_size sz" by (simp add: malloc_size_def)
  from malloc_free_cases [OF ok g(2) this k] obtain h2 where
    "rt_free p h1 k = Some (Some (), h2, k)" "heap_ok h2 bs l" "same_vars h h2" "keeps (held 0 bs) h h2" by blast
  then show ?thesis using ok(1) g(1) free_max_mem by (auto simp: heap_ok_def lfree_at_def at_def same_vars_def)
qed

theorem malloc_free_roundtrip_witness:
  "\<exists>p h1 h2. rt_malloc 20 heap_demo heap_kernel = Some (Some p, h1, heap_kernel) \<and>
     rt_free p h1 heap_kernel = Some (Some (), h2, heap_kernel) \<and> heap_ok h2 [(88, False)] 0"
proof -
  have m: "malloc_size 20 \<le> 88" "malloc_size 20 < 88" by (simp_all add: malloc_size_def align4_def)
  obtain p h1 where M: "rt_malloc 20 heap_demo heap_kernel = Some (Some p, h1, heap_kernel)" "p \<noteq> 0"
    using demo_alloc [OF heap_demo_ok(1,3,4), where sz = 20 and xs = "[]" and z = 88 and ys = "[]"] m by auto
  from malloc_free_roundtrip [OF heap_demo_ok(1,2) heap_kernel_free [OF heap_demo_ok(3)] _ _ _ M]
  show ?thesis using M by (auto simp: heap_demo_ok)
qed

lemma heap_block_facts:
  assumes run: "heap_run k h A" and p: "A p = Some xs"
  shows "unat p mod 4 = 0 \<and> unat (heap_ptr h) + 12 \<le> unat p \<and> unat p + length xs \<le> unat (heap_end h) \<and>
    (\<forall>i < length xs. \<forall>x. xs ! i = Some x \<longrightarrow> bytes h (p + of_nat i) = x) \<and>
    (\<forall>q ys. A q = Some ys \<and> q \<noteq> p \<longrightarrow> {unat p..<unat p + length xs} \<inter> {unat q..<unat q + length ys} = {})"
proof -
  obtain bs l where B: "heap_ok h bs l" "represents h bs A" using heap_run_inv [OF run] by (auto simp: run_inv_def)
  have r: "row h bs" using B(1) by (simp add: heap_ok_def)
  have ua: "unat (at h d) = unat (heap_ptr h) + d" if "(d, z) \<in> used_at 0 bs" for d z
    using row_unat_at [OF r, of d] used_at_bounds [OF that] by simp
  obtain d z where d: "p = at h d" "(d, z) \<in> used_at 0 bs" "length xs \<le> z" "cells_ok h d xs"
    using representsD [OF B(2) p] by metis
  obtain us vs where S: "bs = us @ (z, True) # vs" "d = end_of 0 us + 12" using d(2) by (rule used_at_split)
  have "unat p mod 4 = 0"
    using row_block(9) [OF r [unfolded S(1)] refl] row_offset_mod4 [OF r [unfolded S(1)]] r by (simp add: d(1) S(2) row_def)
  moreover have "unat (heap_ptr h) + 12 \<le> unat p" using ua [OF d(2)] used_at_bounds [OF d(2)] by (simp add: d(1))
  moreover have "unat p + length xs \<le> unat (heap_end h)"
    using ua [OF d(2)] used_at_bounds [OF d(2)] d(3) row_unat_at [OF r le_refl] r by (simp add: d(1) row_def)
  moreover have "\<forall>i < length xs. \<forall>x. xs ! i = Some x \<longrightarrow> bytes h (p + of_nat i) = x"
    using d(4) by (simp add: cells_ok_def d(1)) (simp add: at_def add.assoc)
  moreover have "{unat p..<unat p + length xs} \<inter> {unat q..<unat q + length ys} = {}" if q: "A q = Some ys" "q \<noteq> p" for q ys
  proof -
    obtain e y where e: "q = at h e" "(e, y) \<in> used_at 0 bs" "length ys \<le> y" using representsD [OF B(2) q(1)] by metis
    have "{d..<d + z} \<inter> {e..<e + y} = {}" using used_at_disjoint [OF d(2) e(2)] q(2) d(1) e(1) by blast
    then have "d + z \<le> e \<or> e + y \<le> d \<or> z = 0 \<or> y = 0" by (auto simp: ivl_disj_int) 
    then show ?thesis using ua [OF d(2)] ua [OF e(2)] d(1,3) e(1,3) by auto
  qed
  ultimately show ?thesis by blast
qed

text \<open>What lies outside the heap, and stays as it is when a block is taken or given back.\<close>

definition out_heap :: "heap \<Rightarrow> u32 \<Rightarrow> bool" where
  "out_heap h x \<longleftrightarrow> unat x < unat (heap_ptr h) \<or> unat (heap_end h) + 12 \<le> unat x"

lemma keeps_out:
  assumes r: "row h bs" and k: "keeps D h h'" and x: "out_heap h x"
  shows "bytes h' x = bytes h x"
proof -
  let ?d = "unat (x - heap_ptr h)"
  have e: "unat (heap_end h) = unat (heap_ptr h) + unat (mem_size_aligned h) + 12"
    "unat (heap_ptr h) + unat (mem_size_aligned h) + 24 \<le> 2 ^ 32"
    using row_unat_at [OF r le_refl] r by (simp_all add: row_def)
  have "?d = (if heap_ptr h \<le> x then unat x - unat (heap_ptr h) else unat x + 2 ^ 32 - unat (heap_ptr h))"
    by (simp add: unat_sub_if_size word_size word_le_nat_alt)
  moreover have "?d < 2 ^ 32" using unsigned_less [of "x - heap_ptr h"] by simp
  ultimately have "?d \<in> beyond h" using x e
    by (auto simp: beyond_def out_heap_def word_le_nat_alt split: if_splits)
  moreover have "at h ?d = x" by (simp add: at_def)
  moreover have "\<forall>d \<in> beyond h. bytes h' (at h d) = bytes h (at h d)" using k by (simp add: keeps_def)
  ultimately show ?thesis by metis
qed

lemma malloc_out:
  assumes I: "run_inv k h A" and sz: "sz \<noteq> 0" "sz \<le> 0xfffffffc" and M: "rt_malloc sz h k = Some (Some p, h', k')"
    and x: "out_heap h x"
  shows "bytes h' x = bytes h x" "out_heap h' x"
proof -
  obtain bs l where B: "heap_sem_free k h" "12 \<le> unat (mem_size_aligned h)" "heap_ok h bs l" using I by (auto simp: run_inv_def)
  have r: "row h bs" using B(3) by (simp add: heap_ok_def)
  have "h' = h \<or> same_vars h h' \<and> keeps (held 0 bs) h h'"
  proof -
    obtain q g where g: "rt_malloc sz h k = Some (Some q, g, k)"
      "if q = 0 then g = h \<and> (unat (mem_size_aligned h) < malloc_size sz \<or> too_small (malloc_size sz) bs l)
       else gives_block (malloc_size sz) h bs l q g"
      using rt_malloc_cases [OF B(3,1) sz B(2)] by blast
    then have "g = h'" using M by simp
    then show ?thesis using g(2) unfolding gives_block_def by (metis (no_types, lifting))
  qed
  then show "bytes h' x = bytes h x" "out_heap h' x" using keeps_out [OF r _ x, of "held 0 bs" h'] x
    unfolding same_vars_def out_heap_def by metis+
qed

text \<open>
  C26.  The heap under any run of its callers: each owned pointer is aligned and its bytes lie inside
  the heap, hold what their owner last wrote (across \<^verbatim>\<open>rt_realloc\<close> too, and zeros after
  \<^verbatim>\<open>rt_calloc\<close>), and are nobody else's.
\<close>

theorem heap_run_blocks:
  assumes run: "heap_run k h A" and p: "A p = Some xs"
  shows "unat p mod 4 = 0 \<and> unat (heap_ptr h) + 12 \<le> unat p \<and> unat p + length xs \<le> unat (heap_end h) \<and>
    (\<forall>i < length xs. \<forall>x. xs ! i = Some x \<longrightarrow> bytes h (p + of_nat i) = x) \<and>
    (\<forall>q ys. A q = Some ys \<and> q \<noteq> p \<longrightarrow> {unat p..<unat p + length xs} \<inter> {unat q..<unat q + length ys} = {})"
  by (rule heap_block_facts [OF assms])

lemma demo_run:
  obtains p h where "heap_run heap_kernel h [p \<mapsto> replicate 20 None]" "p \<noteq> 0"
proof -
  have m: "malloc_size 20 \<le> 88" "malloc_size 20 < 88" by (simp_all add: malloc_size_def align4_def)
  obtain p h where M: "rt_malloc 20 heap_demo heap_kernel = Some (Some p, h, heap_kernel)" "p \<noteq> 0"
    using demo_alloc [OF heap_demo_ok(1,3,4), where sz = 20 and xs = "[]" and z = 88 and ys = "[]"] m by auto
  from run_malloc [OF run_fresh [OF heap_demo_fresh] _ _ M(1)] show ?thesis using that M(2) by simp
qed

theorem heap_run_blocks_witness:
  "\<exists>p h. heap_run heap_kernel h [p \<mapsto> (replicate 20 None)[3 := Some 7]] \<and> bytes h (p + 3) = 7 \<and> unat p mod 4 = 0"
proof -
  obtain p h where "heap_run heap_kernel h [p \<mapsto> replicate 20 None]" by (rule demo_run)
  from run_write [OF this, of p "replicate 20 None" 3 7]
  have "heap_run heap_kernel (h\<lparr>bytes := (bytes h)(p + 3 := 7)\<rparr>) [p \<mapsto> (replicate 20 None)[3 := Some 7]]" by simp
  from this heap_run_blocks [OF this, of p] show ?thesis by fastforce
qed



text \<open>
  C27.  When the callers have given everything back the heap is one free block again, the count
  \<^verbatim>\<open>used_mem\<close> of the memory in use is 0 and \<^verbatim>\<open>lfree\<close> points at its start: nothing leaks and nothing stays
  fragmented.  (\<^verbatim>\<open>max_mem\<close>, the most that was ever in use, stays.)
\<close>

theorem heap_run_no_leak:
  assumes run: "heap_run k h Map.empty"
  shows "heap_ok h [(unat (mem_size_aligned h), False)] 0 \<and> used_mem h = 0 \<and> lfree h = heap_ptr h \<and>
    hm_used (mem_at h (heap_ptr h)) = 0 \<and> hm_next (mem_at h (heap_ptr h)) = mem_size_aligned h + 12"
proof -
  obtain bs l where B: "heap_ok h bs l" "represents h bs Map.empty" "used_at 0 bs = {} \<longrightarrow> l = 0"
    using heap_run_inv [OF run] by (auto simp: run_inv_def)
  have u: "used_at 0 bs = {}" using B(2) by (auto simp: represents_def)
  have ok: "heap_ok h [(unat (mem_size_aligned h), False)] 0" using B(1,3) u all_free(1) [OF B(1) u] by simp
  then show ?thesis
    by (simp add: heap_ok_def lfree_at_def row_def hdr_at_def at_def add.commute)
qed

theorem heap_run_no_leak_witness:
  "\<exists>p h h'. heap_run heap_kernel h [p \<mapsto> replicate 20 None] \<and> rt_free p h heap_kernel = Some (Some (), h', heap_kernel) \<and>
     used_mem h' = 0"
proof -
  obtain p h where r: "heap_run heap_kernel h [p \<mapsto> replicate 20 None]" by (rule demo_run)
  obtain h' where f: "rt_free p h heap_kernel = Some (Some (), h', heap_kernel)"
    using run_inv_free [OF heap_run_inv [OF r], of p "replicate 20 None"] by auto
  have "[p \<mapsto> replicate 20 (None :: u8 option)](p := None) = Map.empty" by simp
  then have "heap_run heap_kernel h' Map.empty" using run_free [OF r _ f] by simp
  from heap_run_no_leak [OF this] r f show ?thesis by blast
qed

text \<open>
  A size within three bytes of \<open>2 ^ 32\<close> is aligned to 0: \<^verbatim>\<open>rt_malloc\<close> gives out a block of 12 bytes
  for it, and \<^verbatim>\<open>rt_realloc\<close> frees the block instead of refusing to grow it.
\<close>

theorem heap_size_wraps:
  assumes "0xfffffffc < sz" and "12 \<le> mem_size_aligned h"
  shows "rt_malloc sz h k = rt_malloc 12 h k \<and> rt_realloc p sz h k = rt_realloc p 0 h k"
proof -
  have a: "rt_align sz = 0" "rt_align 0 = 0" using rt_align_wraps [OF assms(1)] by (simp_all add: rt_align_def)
  have b: "rt_align 12 = 12" using rt_align_eq [of 12] by (simp add: align4_def)
  have "sz \<noteq> 0" using assms(1) by auto
  moreover have "\<not> mem_size_aligned h < 12" using assms(2) by (simp add: not_less)
  ultimately show ?thesis by (simp add: rt_malloc_def rt_realloc_def a b)
qed

theorem heap_size_wraps_witness:
  "\<exists>p h'. rt_malloc 0xffffffff heap_demo heap_kernel = Some (Some p, h', heap_kernel) \<and> p \<noteq> 0 \<and>
     (\<exists>l. heap_ok h' [(12, True), (64, False)] l)"
proof -
  have m: "malloc_size 12 = 12" by (simp add: malloc_size_def align4_def)
  obtain p h' where M: "rt_malloc 12 heap_demo heap_kernel = Some (Some p, h', heap_kernel)" "p \<noteq> 0"
    "gives_block 12 heap_demo [(88, False)] 0 p h'"
    using demo_alloc [OF heap_demo_ok(1,3,4), where sz = 12 and xs = "[]" and z = 88 and ys = "[]"] m by auto
  then have "\<exists>l. heap_ok h' [(12, True), (64, False)] l"
    unfolding gives_block_def by (auto dest!: first_fit_first simp: carve_def)
  moreover have "rt_malloc 0xffffffff heap_demo heap_kernel = rt_malloc 12 heap_demo heap_kernel"
    using heap_size_wraps [of "0xffffffff" heap_demo heap_kernel 0] by (simp add: heap_demo_ok)
  ultimately show ?thesis using M by auto
qed

text \<open>
  A block that \<^verbatim>\<open>rt_realloc\<close> shrinks in front of \<^verbatim>\<open>lfree\<close> leaves its rest behind as a free block that
  \<^verbatim>\<open>rt_malloc\<close> does not look at: \<^verbatim>\<open>lfree\<close> is not lowered, and an allocation that would fit there fails
  when the blocks behind \<^verbatim>\<open>lfree\<close> are too small.
\<close>

theorem realloc_rest_is_lost:
  assumes ok: "heap_ok h (xs @ (z, True) # (y, True) # ys) l" and l: "end_of 0 xs + 12 + z + 12 + y \<le> l"
    and k: "heap_sem_free k h" and M: "12 \<le> unat (mem_size_aligned h)"
    and sz: "sz \<noteq> 0" "sz \<le> 0xfffffffc" "align4 (unat sz) + 24 < z"
    and t: "t \<noteq> 0" "t \<le> 0xfffffffc" "\<forall>x. (x, False) \<in> set ys \<longrightarrow> x < malloc_size t"
  defines "p \<equiv> at h (end_of 0 xs + 12)" and "s \<equiv> align4 (unat sz)"
  shows "\<exists>h'. rt_realloc p sz h k = Some (Some p, h', k) \<and>
    heap_ok h' (xs @ (s, True) # (z - s - 12, False) # (y, True) # ys) l \<and> rt_malloc t h' k = Some (Some 0, h', k)"
proof -
  let ?bs = "xs @ (z, True) # (y, True) # ys" and ?cs = "xs @ (s, True) # (z - s - 12, False) # (y, True) # ys"
  have r: "row h ?bs" using ok by (simp add: heap_ok_def)
  have s: "s + 24 < z" "s mod 4 = 0" using sz(3) align4_facts(3) by (simp_all add: s_def)
  obtain h' l' where P: "realloc_section p (of_nat s) h = Some (True, h')" "heap_ok h' ?cs l'" "same_vars h h'" "lfree h' = lfree h"
    using shrink_spec [OF ok refl s] unfolding p_def by auto
  have ni: "not_in_interrupt k" using k by (simp add: heap_sem_free_def not_in_interrupt_def)
  note b = row_block [OF r refl, folded p_def]
  have a: "rt_align sz = of_nat s" "s < 2 ^ 32" "s \<noteq> 0"
    using rt_align_eq [OF sz(2)] align4_small [OF sz(2)] align4_facts(4) [of "unat sz"] sz(1)
    by (simp_all add: s_def unat_gt_0)
  have "\<not> of_nat s > mem_size_aligned h" "(of_nat s :: u32) \<noteq> 0"
    using a b(3) s by (simp_all add: word_less_nat_alt unat_of_nat32 unat_eq_zero [symmetric])
  moreover have "heap_sem h' = heap_sem h" using P(3) by (simp add: same_vars_def)
  then obtain k1 where "rt_sem_take (heap_sem h) RT_WAITING_FOREVER k = Some (Some RT_EOK, k1)"
    "rt_sem_release (heap_sem h') k1 = Some (RT_EOK, k)" using heap_sem_take [OF k] by blast
  ultimately have R: "rt_realloc p sz h k = Some (Some p, h', k)"
    using ni b(8) P(1) by (simp add: rt_realloc_def a(1) rt_realloc_return_def)
  have r': "row h' ?cs" using P(2) by (simp add: heap_ok_def)
  have "l' = l"
  proof -
    have "at h l' = at h l" using ok P(2,3,4) by (simp add: heap_ok_def lfree_at_def at_def same_vars_def)
    moreover have "l' < 2 ^ 32" "l < 2 ^ 32" using lfree_at_bounds [OF r'] lfree_at_bounds [OF r] ok P(2) by (auto simp: heap_ok_def)
    ultimately show ?thesis by (simp add: at_eq_iff)
  qed
  with P(2) have ok': "heap_ok h' ?cs l" by simp
  have k': "heap_sem_free k h'" "mem_size_aligned h' = mem_size_aligned h" using k P(3) by (simp_all add: heap_sem_free_def same_vars_def)
  obtain q h2 where A: "rt_malloc t h' k = Some (Some q, h2, k)"
    "if q = 0 then h2 = h' else gives_block (malloc_size t) h' ?cs l q h2"
    using rt_malloc_cases [OF ok' k'(1) t(1,2)] M k'(2) by (metis (no_types, lifting))
  have "q = 0"
  proof (rule ccontr)
    assume "q \<noteq> 0"
    then obtain us x vs where F: "first_fit (malloc_size t) ?cs l us x vs" using A(2) unfolding gives_block_def by auto
    then have u: "us @ (x, False) # vs = (xs @ [(s, True), (z - s - 12, False), (y, True)]) @ ys" "l \<le> end_of 0 us"
      "malloc_size t \<le> x" by (simp_all add: first_fit_def)
    have "end_of 0 (xs @ [(s, True), (z - s - 12, False), (y, True)]) \<le> end_of 0 us" using l u(2) s by simp
    from split_after [OF u(1) this] obtain ws where "ys = ws @ (x, False) # vs" by blast
    then have "(x, False) \<in> set ys" by simp
    then show False using t(3) u(3) by auto
  qed
  then show ?thesis using R ok' A by auto
qed

theorem realloc_rest_is_lost_witness:
  "\<exists>h h' p. heap_ok h [(40, True), (12, True), (12, False)] 76 \<and>
     rt_realloc p 4 h heap_kernel = Some (Some p, h', heap_kernel) \<and>
     heap_ok h' [(4, True), (24, False), (12, True), (12, False)] 76 \<and>
     rt_malloc 24 h' heap_kernel = Some (Some 0, h', heap_kernel)"
proof -
  have m: "malloc_size 24 = 24" "align4 4 = 4" by (simp_all add: malloc_size_def align4_def)
  obtain h where h: "heap_ok h [(40, True), (12, True), (12, False)] 76" "heap_sem h = 2" "mem_size_aligned h = 88"
    "heap_ptr h = 0x1000" by (rule demo_two)
  have ok: "heap_ok h ([] @ (40, True) # (12, True) # [(12, False)]) 76" using h(1) by simp
  from realloc_rest_is_lost [OF ok _ heap_kernel_free [OF h(2)], of 4 24] h(1)
  show ?thesis by (auto simp: m h(3))
qed

end
