(* ===== verification/Heap_Lib.thy ===== *)
theory Heap_Lib
  imports Heap_Client
begin

text \<open>
  The routines of \<^verbatim>\<open>rt-thread/src/kservice.c\<close> that allocate: \<^verbatim>\<open>rt_strdup\<close>, \<^verbatim>\<open>rt_malloc_align\<close> and
  \<^verbatim>\<open>rt_free_align\<close>, as clients of the system heap.
\<close>

subsection \<open>Operations\<close>

text \<open>The part behind the \<^verbatim>\<open>rt_malloc\<close> inside; a call that waits there makes the whole call wait.\<close>

definition strdup_copy :: "u32 \<Rightarrow> u32 \<Rightarrow> u32 \<Rightarrow> heap \<Rightarrow> heap" where
  "strdup_copy tmp s len h = (if tmp = 0 then h else heap_memcpy tmp s len h)"

definition rt_strdup :: "u32 \<Rightarrow> heap \<Rightarrow> kernel \<Rightarrow> (u32 option \<times> heap \<times> kernel) option" where
  "rt_strdup s h k =
     do {
       n \<leftarrow> rt_strlen s (bytes h);
       let len = n + 1;
       (r, h1, k1) \<leftarrow> rt_malloc len h k;
       Some (r, case r of None \<Rightarrow> h1 | Some tmp \<Rightarrow> strdup_copy tmp s len h1, k1)
     }"

text \<open>The address for the caller, with the address of the block stored in front of it.\<close>

definition align_block :: "u32 \<Rightarrow> u32 \<Rightarrow> heap \<Rightarrow> u32 \<times> heap" where
  "align_block ptr align h =
     (if ptr = 0 then (0, h)
      else
        let align_ptr = (if ptr AND (align - 1) = 0 then ptr + align else (ptr + (align - 1)) AND NOT (align - 1))
        in (align_ptr, h\<lparr>bytes := store32 (align_ptr - 4) ptr (bytes h)\<rparr>))"

definition rt_malloc_align :: "u32 \<Rightarrow> u32 \<Rightarrow> heap \<Rightarrow> kernel \<Rightarrow> (u32 option \<times> heap \<times> kernel) option" where
  "rt_malloc_align sz align h k =
     do {
       let align1 = (align + 3) AND NOT 3;
       let align_size = ((sz + 3) AND NOT 3) + align1;
       (r, h1, k1) \<leftarrow> rt_malloc align_size h k;
       Some (case r of
               None \<Rightarrow> (None, h1, k1)
             | Some ptr \<Rightarrow> let (q, h2) = align_block ptr align1 h1 in (Some q, h2, k1))
     }"

definition rt_free_align :: "u32 \<Rightarrow> heap \<Rightarrow> kernel \<Rightarrow> (unit option \<times> heap \<times> kernel) option" where
  "rt_free_align ptr h k = rt_free (load32 (bytes h) (ptr - 4)) h k"

subsection \<open>Writing into a block\<close>

lemma heap_run_writes:
  "heap_run k h A \<Longrightarrow> A p = Some xs \<Longrightarrow> i + length cs \<le> length xs \<Longrightarrow>
    heap_run k (h\<lparr>bytes := fold (\<lambda>j b. b(p + of_nat (i + j) := cs ! j)) [0..<length cs] (bytes h)\<rparr>)
      (A(p \<mapsto> take i xs @ map Some cs @ drop (i + length cs) xs))"
proof (induction cs rule: rev_induct)
  case Nil
  then show ?case by (simp add: fun_upd_idem)
next
  case (snoc c cs)
  let ?b = "fold (\<lambda>j b. b(p + of_nat (i + j) := cs ! j)) [0..<length cs] (bytes h)"
  let ?ys = "take i xs @ map Some cs @ drop (i + length cs) xs"
  have e: "fold (\<lambda>j b. b(p + of_nat (i + j) := (cs @ [c]) ! j)) [0..<length cs] (bytes h) = ?b"
    by (rule fold_cong) (simp_all add: nth_append)
  have l: "i + length cs < length ?ys" using snoc.prems(3) by simp
  have r: "heap_run k (h\<lparr>bytes := ?b\<rparr>) (A(p \<mapsto> ?ys))"
    by (rule snoc.IH) (use snoc.prems in simp_all)
  have u: "?ys[i + length cs := Some c] = take i xs @ map Some (cs @ [c]) @ drop (i + length (cs @ [c])) xs"
    using snoc.prems(3) by (simp add: list_update_append Cons_nth_drop_Suc [symmetric])
  have f: "fold (\<lambda>j b. b(p + of_nat (i + j) := (cs @ [c]) ! j)) [0..<length (cs @ [c])] (bytes h) = ?b(p + of_nat (i + length cs) := c)"
  proof -
    have "[0..<length (cs @ [c])] = [0..<length cs] @ [length cs]" by simp
    then show ?thesis by (simp only: fold_append o_apply e fold.simps nth_append_length id_apply)
  qed
  have "heap_run k (h\<lparr>bytes := ?b(p + of_nat (i + length cs) := c)\<rparr>)
      (A(p \<mapsto> take i xs @ map Some (cs @ [c]) @ drop (i + length (cs @ [c])) xs))"
    using run_write [OF r _ l, of p c] unfolding u by simp
  then show ?case unfolding f .
qed

lemma fold_writes:
  "n \<le> 2 ^ 32 \<Longrightarrow> fold (\<lambda>j b. b(p + of_nat j := cs ! j)) [0..<n] m =
    (\<lambda>x :: u32. if unat (x - p) < n then cs ! unat (x - p) else m x)"
proof (induction n)
  case (Suc n)
  have "x = p + of_nat n \<longleftrightarrow> unat (x - p) = n" for x
  proof -
    have "x = p + of_nat n \<longleftrightarrow> x - p = of_nat n" by (simp add: diff_eq_eq add.commute)
    moreover have "unat (of_nat n :: u32) = n" using Suc.prems by (simp add: unat_of_nat32)
    ultimately show ?thesis by (metis word_unat_eq_iff)
  qed
  then show ?case using Suc by (auto simp: fun_eq_iff)
qed simp

lemma heap_run_copy:
  assumes run: "heap_run k h A" and p: "A p = Some xs" "unat len \<le> length xs"
    and c: "length cs = unat len" "\<And>i. i < unat len \<Longrightarrow> bytes h (s + of_nat i) = cs ! i"
    and d: "\<And>i j. i < unat len \<Longrightarrow> j < unat len \<Longrightarrow> s + of_nat i \<noteq> p + of_nat j"
  shows "heap_run k (heap_memcpy p s len h) (A(p \<mapsto> map Some cs @ drop (unat len) xs))"
proof -
  have "unat len < 2 ^ 32" using unsigned_less [of len] by simp
  then have f: "fold (\<lambda>j b. b(p + of_nat (0 + j) := cs ! j)) [0..<length cs] (bytes h) =
      (\<lambda>x. if unat (x - p) < unat len then cs ! unat (x - p) else bytes h x)"
    using fold_writes [of "length cs" p cs "bytes h"] c(1) by simp
  have "heap_memcpy p s len h = h\<lparr>bytes := fold (\<lambda>j b. b(p + of_nat (0 + j) := cs ! j)) [0..<length cs] (bytes h)\<rparr>"
  proof -
    have "bytes h (s + (x - p)) = cs ! unat (x - p)" if "unat (x - p) < unat len" for x
      using c(2) [OF that] by simp
    then have "rt_memcpy p s len (bytes h) = (\<lambda>x. if unat (x - p) < unat len then cs ! unat (x - p) else bytes h x)"
      using memcpy_eq [of len s p "bytes h"] d by (auto simp: fun_eq_iff word_less_nat_alt)
    then show ?thesis unfolding heap_memcpy_def f by simp
  qed
  then show ?thesis using heap_run_writes [OF run p(1), of 0 cs] p(2) c(1) by simp
qed

lemma str_at_cong: "(\<And>i. i \<le> length xs \<Longrightarrow> m' (a + of_nat i) = m (a + of_nat i)) \<Longrightarrow> str_at m' a xs = str_at m a xs"
proof (induction xs arbitrary: a)
  case Nil
  then show ?case using Nil [of 0] by simp
next
  case (Cons x xs)
  have "str_at m' (a + 1) xs = str_at m (a + 1) xs"
    by (rule Cons.IH) (use Cons.prems [of "Suc i" for i] in \<open>simp add: add.assoc\<close>)
  then show ?case using Cons.prems [of 0] by simp
qed

lemma str_at_nth: "str_at m a xs \<Longrightarrow> i \<le> length xs \<Longrightarrow> m (a + of_nat i) = (xs @ [0]) ! i"
proof (induction xs arbitrary: a i)
  case (Cons x xs)
  then show ?case using Cons.IH [of "a + 1" "i - 1"] by (cases i) (simp_all add: add.assoc)
qed simp

lemma str_at_bytes:
  assumes "\<And>i. i \<le> length xs \<Longrightarrow> m (a + of_nat i) = (xs @ [0]) ! i" "0 \<notin> set xs"
  shows "str_at m a xs"
  using assms
proof (induction xs arbitrary: a)
  case Nil
  then show ?case using Nil(1) [of 0] by simp
next
  case (Cons x xs)
  have "str_at m (a + 1) xs"
  proof (rule Cons.IH)
    show "m (a + 1 + of_nat i) = (xs @ [0]) ! i" if "i \<le> length xs" for i
      using Cons.prems(1) [of "Suc i"] that by (simp add: add.assoc)
  qed (use Cons.prems in simp)
  then show ?case using Cons.prems(1) [of 0] Cons.prems(2) by simp
qed

lemma malloc_fresh:
  assumes I: "run_inv k h A" and sz: "sz \<noteq> 0" "sz \<le> 0xfffffffc" and M: "rt_malloc sz h k = Some (Some p, h', k')" "p \<noteq> 0"
  shows "A p = None"
proof (rule ccontr)
  assume "A p \<noteq> None"
  then obtain xs where xs: "A p = Some xs" by auto
  obtain bs l where B: "heap_sem_free k h" "12 \<le> unat (mem_size_aligned h)" "heap_ok h bs l" "represents h bs A"
    using I by (auto simp: run_inv_def)
  have r: "row h bs" using B(3) by (simp add: heap_ok_def)
  obtain d z where d: "p = at h d" "(d, z) \<in> used_at 0 bs" using representsD [OF B(4) xs] by metis
  have "gives_block (malloc_size sz) h bs l p h'" using rt_malloc_cases [OF B(3,1) sz B(2)] M by auto
  then obtain e c cs l' where G: "p = at h e" "heap_ok h' cs l'" "used_at 0 cs = insert (e, c) (used_at 0 bs)"
    "\<And>z. (e, z) \<notin> used_at 0 bs"
    using gives_blockD [OF _ r] by metis
  have "e < 2 ^ 32" using used_at_bounds [of e c 0 cs] row_bounds(1) [of h' cs] G(2,3) by (auto simp: heap_ok_def)
  moreover have "d < 2 ^ 32" using used_at_bounds [OF d(2)] row_bounds(1) [OF r] by simp
  ultimately have "d = e" using d(1) G(1) at_eq_iff by metis
  then show False using d(2) G(4) by blast
qed

text \<open>Any change inside one block.\<close>

lemma heap_run_set:
  assumes run: "heap_run k h A" and p: "A p = Some xs" and m: "\<And>x. length xs \<le> unat (x - p) \<Longrightarrow> m x = bytes h x"
  shows "heap_run k (h\<lparr>bytes := m\<rparr>) (A(p \<mapsto> map (\<lambda>i. Some (m (p + of_nat i))) [0..<length xs]))"
proof -
  let ?cs = "map (\<lambda>i. m (p + of_nat i)) [0..<length xs]"
  have "unat p + length xs \<le> unat (heap_end h)" using heap_block_facts [OF run p] by blast
  moreover have "unat (heap_end h) < 2 ^ 32" using unsigned_less [of "heap_end h"] by simp
  ultimately have n: "length xs \<le> 2 ^ 32" by simp
  have "fold (\<lambda>j b. b(p + of_nat (0 + j) := ?cs ! j)) [0..<length ?cs] (bytes h) =
      (\<lambda>x. if unat (x - p) < length xs then ?cs ! unat (x - p) else bytes h x)"
    using fold_writes [OF n, of p ?cs "bytes h"] by simp
  also have "\<dots> = m" using m by (auto simp: fun_eq_iff)
  finally have f: "fold (\<lambda>j b. b(p + of_nat (0 + j) := ?cs ! j)) [0..<length ?cs] (bytes h) = m" .
  show ?thesis using heap_run_writes [OF run p, of 0 ?cs] unfolding f by (simp add: o_def)
qed

subsection \<open>Strings that an allocation leaves alone\<close>

text \<open>A string whose bytes are in blocks in use or outside the heap.\<close>

definition str_in :: "heap \<Rightarrow> (u32 \<Rightarrow> u8 option list option) \<Rightarrow> u32 \<Rightarrow> u8 list \<Rightarrow> bool" where
  "str_in h A s xs \<longleftrightarrow> str_at (bytes h) s xs \<and>
     (\<forall>i \<le> length xs. out_heap h (s + of_nat i) \<or>
       (\<exists>q ys j. A q = Some ys \<and> j < length ys \<and> s + of_nat i = q + of_nat j \<and> ys ! j \<noteq> None))"

lemma block_address:
  assumes "heap_run k h A" "A q = Some ys" "j < length ys"
  shows "unat (q + of_nat j) = unat q + j" "\<not> out_heap h (q + of_nat j)"
proof -
  have b: "unat (heap_ptr h) + 12 \<le> unat q" "unat q + length ys \<le> unat (heap_end h)"
    using heap_block_facts [OF assms(1,2)] by auto
  have "unat (heap_end h) < 2 ^ 32" using unsigned_less [of "heap_end h"] by simp
  then show e: "unat (q + of_nat j) = unat q + j" using b assms(3) by (intro unat_add_small) simp
  show "\<not> out_heap h (q + of_nat j)" unfolding out_heap_def e using b assms(3) by simp
qed

lemma str_in_malloc:
  assumes run: "heap_run k h A" and sz: "sz \<noteq> 0" "sz \<le> 0xfffffffc" and M: "rt_malloc sz h k = Some (Some p, h1, k1)" "p \<noteq> 0"
    and s: "str_in h A s xs"
  shows "str_at (bytes h1) s xs" "\<forall>i \<le> length xs. \<forall>j < unat sz. s + of_nat i \<noteq> p + of_nat j"
proof -
  have r1: "heap_run k h1 (A(p \<mapsto> replicate (unat sz) None))" using run_malloc [OF run sz M(1)] M(2) by simp
  note I = heap_run_inv [OF run]
  have f: "A p = None" by (rule malloc_fresh [OF I sz M])
  have new: "\<not> out_heap h1 (p + of_nat j)" "unat (p + of_nat j) = unat p + j" if "j < unat sz" for j
    using block_address [OF r1, of p "replicate (unat sz) None" j] that by auto
  have byte: "bytes h1 (s + of_nat i) = bytes h (s + of_nat i) \<and> (\<forall>j < unat sz. s + of_nat i \<noteq> p + of_nat j)"
    if i: "i \<le> length xs" for i
  proof -
    consider (out) "out_heap h (s + of_nat i)"
      | (block) q ys j where "A q = Some ys" "j < length ys" "s + of_nat i = q + of_nat j" "ys ! j \<noteq> None"
      using s i by (auto simp: str_in_def)
    then show ?thesis
    proof cases
      case out
      note o = malloc_out [OF I sz M(1) out]
      then show ?thesis using new(1) by metis
    next
      case block
      have qp: "q \<noteq> p" using block(1) f by auto
      obtain x where x: "ys ! j = Some x" using block(4) by auto
      have "bytes h (q + of_nat j) = x" using heap_block_facts [OF run block(1)] block(2) x by blast
      moreover have B: "bytes h1 (q + of_nat j) = x" "{unat q..<unat q + length ys} \<inter> {unat p..<unat p + unat sz} = {}"
      proof -
        have q1: "(A(p \<mapsto> replicate (unat sz) None)) q = Some ys" using block(1) qp by simp
        note F = heap_block_facts [OF r1 q1]
        show "bytes h1 (q + of_nat j) = x" using F block(2) x by blast
        have "\<forall>r zs. (A(p \<mapsto> replicate (unat sz) None)) r = Some zs \<and> r \<noteq> q \<longrightarrow>
            {unat q..<unat q + length ys} \<inter> {unat r..<unat r + length zs} = {}" using F by blast
        from this [rule_format, of p "replicate (unat sz) None"] qp
        show "{unat q..<unat q + length ys} \<inter> {unat p..<unat p + unat sz} = {}" by simp
      qed
      moreover have "q + of_nat j \<noteq> p + of_nat l" if "l < unat sz" for l
      proof -
        have "unat q + j \<noteq> unat p + l" using B(2) block(2) that by fastforce
        then show ?thesis using block_address(1) [OF run block(1,2)] new(2) [OF that] by metis
      qed
      ultimately show ?thesis using block(3) by simp
    qed
  qed
  have "str_at (bytes h) s xs" using s by (simp add: str_in_def)
  then show "str_at (bytes h1) s xs" using str_at_cong [of xs "bytes h1" s "bytes h"] byte by simp
  show "\<forall>i \<le> length xs. \<forall>j < unat sz. s + of_nat i \<noteq> p + of_nat j" using byte by blast
qed

subsection \<open>rt_strdup\<close>

lemma strdup_spec:
  assumes run: "heap_run k h A" and s: "str_in h A s xs" and l: "length xs + 16 < 2 ^ 32"
  shows "\<exists>p h'. rt_strdup s h k = Some (Some p, h', k) \<and>
    heap_run k h' (if p = 0 then A else A(p \<mapsto> map Some (xs @ [0]))) \<and> (p \<noteq> 0 \<longrightarrow> A p = None \<and> str_at (bytes h') p xs) \<and>
    (p = 0 \<longrightarrow> (\<exists>h1. rt_malloc (of_nat (length xs) + 1) h k = Some (Some 0, h1, k)))"
proof -
  let ?n = "length xs + 1" and ?len = "of_nat (length xs) + 1 :: u32"
  have str: "str_at (bytes h) s xs" using s by (simp add: str_in_def)
  have "unat (of_nat ?n :: u32) = ?n" using l by (intro unat_of_nat32) simp
  then have len: "unat ?len = ?n" by (simp only: of_nat_add of_nat_1)
  have sz: "?len \<noteq> 0" "?len \<le> 0xfffffffc" using len l by (auto simp: word_le_nat_alt unat_eq_zero [symmetric] simp del: unat_eq_zero)
  obtain p h1 where M: "rt_malloc ?len h k = Some (Some p, h1, k)" using run_inv_malloc [OF heap_run_inv [OF run] sz] by blast
  have E: "rt_strdup s h k = Some (Some p, strdup_copy p s ?len h1, k)"
    by (simp add: rt_strdup_def rt_strlen_spec [OF str] M)
  show ?thesis
  proof (cases "p = 0")
    case True
    then show ?thesis using run_malloc [OF run sz M] M by (simp add: E strdup_copy_def)
  next
    case False
    have f: "A p = None" by (rule malloc_fresh [OF heap_run_inv [OF run] sz M False])
    have r1: "heap_run k h1 (A(p \<mapsto> replicate ?n None))" using run_malloc [OF run sz M] False by (simp add: len)
    note S = str_in_malloc [OF run sz M False s, unfolded len]
    have b1: "bytes h1 (s + of_nat i) = (xs @ [0]) ! i" if "i < ?n" for i
      using str_at_nth [OF S(1), of i] that by simp
    have r2: "heap_run k (heap_memcpy p s ?len h1) (A(p \<mapsto> map Some (xs @ [0])))"
      using heap_run_copy [OF r1, of p "replicate ?n None" ?len "xs @ [0]" s] b1 S(2) by (simp add: len)
    have "bytes (heap_memcpy p s ?len h1) (p + of_nat i) = (xs @ [0]) ! i" if "i < ?n" for i
      using heap_block_facts [OF r2, of p "map Some (xs @ [0])"] that by (auto simp del: map_append)
    then have "str_at (bytes (heap_memcpy p s ?len h1)) p xs"
      by (intro str_at_bytes) (use str_bytes [OF str] in auto)
    then show ?thesis using r2 f False by (simp add: E strdup_copy_def)
  qed
qed

lemma block_str_in:
  assumes run: "heap_run k h A" and s: "A s = Some ys" "map Some (xs @ [0]) = take (length xs + 1) ys" "0 \<notin> set xs"
  shows "str_in h A s xs" "length xs + 16 < 2 ^ 32"
proof -
  let ?n = "length xs + 1"
  note S = heap_block_facts [OF run s(1)]
  have n: "?n \<le> length ys" using arg_cong [OF s(2), of length] by (simp add: min_def split: if_splits)
  have y: "ys ! i = Some ((xs @ [0]) ! i)" if "i < ?n" for i
    using arg_cong [OF s(2), of "\<lambda>zs. zs ! i"] that by (simp add: nth_append split: if_splits)
  have b: "bytes h (s + of_nat i) = (xs @ [0]) ! i" if "i < ?n" for i using S y [OF that] that n by auto
  have "str_at (bytes h) s xs" by (rule str_at_bytes) (use b s(3) in auto)
  moreover have "\<exists>q zs j. A q = Some zs \<and> j < length zs \<and> s + of_nat i = q + of_nat j \<and> zs ! j \<noteq> None" if "i \<le> length xs" for i
    using s(1) y [of i] that n by (intro exI [of _ s] exI [of _ ys] exI [of _ i]) simp
  ultimately show "str_in h A s xs" by (simp add: str_in_def)
  have "unat (heap_end h) < 2 ^ 32" using unsigned_less [of "heap_end h"] by simp
  moreover have "heap_ptr h \<noteq> 0" "unat (heap_ptr h) mod 4 = 0"
    using heap_run_inv [OF run] by (auto simp: run_inv_def heap_ok_def row_def)
  moreover from this have "4 \<le> unat (heap_ptr h)" by (metis dvd_imp_le mod_0_imp_dvd unat_gt_0)
  ultimately show "length xs + 16 < 2 ^ 32" using S n by simp
qed

text \<open>
  \<^verbatim>\<open>rt_strdup\<close> of a string in a block of the heap returns; unless the heap has no room the result
  is a new block with the same string, and all blocks are as before.
\<close>

theorem rt_strdup_copies:
  assumes run: "heap_run k h A" and s: "A s = Some ys" "map Some (xs @ [0]) = take (length xs + 1) ys" "0 \<notin> set xs"
  shows "\<exists>p h'. rt_strdup s h k = Some (Some p, h', k) \<and>
    heap_run k h' (if p = 0 then A else A(p \<mapsto> map Some (xs @ [0]))) \<and> (p \<noteq> 0 \<longrightarrow> A p = None \<and> str_at (bytes h') p xs)"
  using strdup_spec [OF run block_str_in [OF assms]] by blast

lemma demo_text:
  obtains s h where "heap_run heap_kernel h [s \<mapsto> map Some [0x61, 0x62, 0] @ replicate 17 None]"
    "heap_ok h [(20, True), (56, False)] 32" "heap_sem h = 2" "mem_size_aligned h = 88" "str_at (bytes h) s [0x61, 0x62]"
proof -
  have m: "malloc_size 20 = 20" by (simp add: malloc_size_def align4_def)
  obtain s h where M: "rt_malloc 20 heap_demo heap_kernel = Some (Some s, h, heap_kernel)" "s \<noteq> 0"
    "gives_block 20 heap_demo [(88, False)] 0 s h" "heap_sem h = 2" "mem_size_aligned h = 88"
    using demo_alloc [OF heap_demo_ok(1,3,4), where sz = 20 and xs = "[]" and z = 88 and ys = "[]"] m by auto
  then obtain l where h: "heap_ok h [(20, True), (56, False)] l" "lowest [(20, True), (56, False)] l" "s = at h 12"
    using heap_demo_ok(2) unfolding gives_block_def
    by (auto dest!: first_fit_first simp: carve_def same_vars_def at_def)
  have l: "l = 32" using h(1,2) by (auto simp: heap_ok_def lfree_at_def lowest_def)
  have r: "heap_run heap_kernel h [s \<mapsto> replicate 20 None]"
    using run_malloc [OF run_fresh [OF heap_demo_fresh] _ _ M(1)] M(2) by simp
  let ?cs = "[0x61, 0x62, 0] :: u8 list"
  let ?g = "h\<lparr>bytes := fold (\<lambda>j b. b(s + of_nat (0 + j) := ?cs ! j)) [0..<length ?cs] (bytes h)\<rparr>"
  have g: "bytes ?g = (\<lambda>x. if unat (x - s) < 3 then ?cs ! unat (x - s) else bytes h x)"
  proof -
    have "fold (\<lambda>j b. b(s + of_nat (0 + j) := ?cs ! j)) [0..<length ?cs] (bytes h) =
        (\<lambda>x. if unat (x - s) < length ?cs then ?cs ! unat (x - s) else bytes h x)"
      using fold_writes [of "length ?cs" s ?cs "bytes h"] by (simp only: add_0) simp
    moreover have "length ?cs = 3" by simp
    ultimately show ?thesis by (simp only:) simp
  qed
  have run: "heap_run heap_kernel ?g [s \<mapsto> map Some ?cs @ replicate 17 None]"
    using heap_run_writes [OF r, of s "replicate 20 None" 0 ?cs] by simp
  have "heap_ok ?g [(20, True), (56, False)] 32"
  proof (rule heap_ok_write [OF h(1) [unfolded l]])
    fix a assume a: "a \<notin> at h ` held 0 [(20, True), (56, False)]"
    have "\<not> unat (a - s) < 3"
    proof
      assume "unat (a - s) < 3"
      then have "12 + unat (a - s) \<in> held 0 [(20, True), (56, False)]" "a = at h (12 + unat (a - s))"
        by (simp_all add: h(3) at_def)
      then show False using a by blast
    qed
    then show "fold (\<lambda>j b. b(s + of_nat (0 + j) := ?cs ! j)) [0..<length ?cs] (bytes h) a = bytes h a"
      using g by (simp add: fun_eq_iff del: upt.simps upt_rec_numeral)
  qed
  moreover have "str_at (bytes ?g) s [0x61, 0x62]" by (simp only: g) simp
  ultimately show ?thesis using that run M(4,5) by simp
qed

theorem rt_strdup_copies_witness:
  "\<exists>s h p h'. rt_strdup s h heap_kernel = Some (Some p, h', heap_kernel) \<and> p \<noteq> 0 \<and> p \<noteq> s \<and>
     str_at (bytes h') s [0x61, 0x62] \<and> str_at (bytes h') p [0x61, 0x62]"
proof -
  obtain s h where D: "heap_run heap_kernel h [s \<mapsto> map Some [0x61, 0x62, 0] @ replicate 17 None]"
    "heap_ok h [(20, True), (56, False)] 32" "heap_sem h = 2" "mem_size_aligned h = 88" "str_at (bytes h) s [0x61, 0x62]"
    by (rule demo_text)
  obtain p h' where C: "rt_strdup s h heap_kernel = Some (Some p, h', heap_kernel)"
    "heap_run heap_kernel h' (if p = 0 then [s \<mapsto> map Some [0x61, 0x62, 0] @ replicate 17 None]
       else [s \<mapsto> map Some [0x61, 0x62, 0] @ replicate 17 None, p \<mapsto> map Some ([0x61, 0x62] @ [0])])"
    "p \<noteq> 0 \<longrightarrow> [s \<mapsto> map Some [0x61, 0x62, 0 :: u8] @ replicate 17 None] p = None \<and> str_at (bytes h') p [0x61, 0x62]"
    using rt_strdup_copies [OF D(1), of s "map Some [0x61, 0x62, 0] @ replicate 17 None" "[0x61, 0x62]"] by auto
  have m: "malloc_size 3 = 12" by (simp add: malloc_size_def align4_def)
  obtain q h1 where "rt_malloc 3 h heap_kernel = Some (Some q, h1, heap_kernel)" "q \<noteq> 0"
    using demo_alloc [OF D(2,3,4), where sz = 3 and xs = "[(20, True)]" and z = 56 and ys = "[]"] m by auto
  then have "p \<noteq> 0" using C(1) by (auto simp: rt_strdup_def rt_strlen_spec [OF D(5)])
  then have p: "p \<noteq> s" "str_at (bytes h') p [0x61, 0x62]"
    "heap_run heap_kernel h' [s \<mapsto> map Some [0x61, 0x62, 0] @ replicate 17 None, p \<mapsto> map Some [0x61, 0x62, 0]]"
    using C(2,3) \<open>p \<noteq> 0\<close> by (auto split: if_splits)
  have B: "\<forall>i<20. \<forall>x. (map Some [0x61, 0x62, 0] @ replicate 17 None) ! i = Some x \<longrightarrow> bytes h' (s + of_nat i) = x"
    using heap_block_facts [OF p(3), of s "map Some [0x61, 0x62, 0] @ replicate 17 None"] p(1) by simp
  from spec [OF B, of 0] spec [OF B, of 1] spec [OF B, of 2]
  have "str_at (bytes h') s [0x61, 0x62]" by (simp add: add.assoc)
  then show ?thesis using C(1) p \<open>p \<noteq> 0\<close> by blast
qed

subsection \<open>Aligned blocks\<close>

lemma load32_store32: "load32 (store32 a w m) a = w"
  by (simp add: load32_def store32_def bytes32_def)

lemma and_pow2_zero: "(p :: u32) AND (2 ^ a - 1) = 0 \<longleftrightarrow> unat p mod 2 ^ a = 0"
proof -
  have m: "(2 ^ a - 1 :: u32) = mask a" by (simp add: mask_eq_exp_minus_1)
  have "p AND mask a = take_bit a p" by (simp add: take_bit_eq_mask)
  moreover have "unat (take_bit a p) = unat p mod 2 ^ a"
    by (simp only: unsigned_take_bit_eq take_bit_nat_eq_self_iff) (simp add: take_bit_eq_mod)
  ultimately show ?thesis unfolding m by (metis unat_0 unat_eq_zero)
qed

text \<open>Where the aligned address is in a block of \<open>n + 2 ^ a\<close> bytes.\<close>

lemma align_address:
  assumes a: "2 \<le> a" "a < 31" and p: "unat p mod 4 = 0" "unat p + 2 ^ a < 2 ^ 32"
  defines "q \<equiv> (if p AND (2 ^ a - 1) = 0 then p + 2 ^ a else (p + (2 ^ a - 1)) AND NOT (2 ^ a - 1)) :: u32"
  shows "unat q mod 2 ^ a = 0" "unat p + 4 \<le> unat q" "unat q \<le> unat p + 2 ^ a"
proof -
  have d: "(4 :: nat) dvd 2 ^ a" using a(1) le_imp_power_dvd [of 2 a "2 :: nat"] by simp
  have "(2 :: nat) ^ a < 2 ^ 32" using a(2) by (intro power_strict_increasing) simp_all
  then have w: "unat (2 ^ a :: u32) = 2 ^ a" using unat_of_nat32 [of "2 ^ a"] by simp
  have "unat q mod 2 ^ a = 0 \<and> unat p + 4 \<le> unat q \<and> unat q \<le> unat p + 2 ^ a"
  proof (cases "unat p mod 2 ^ a = 0")
    case True
    then have "q = p + 2 ^ a" by (simp add: q_def and_pow2_zero)
    moreover have "unat (p + 2 ^ a) = unat p + 2 ^ a" using unat_add_small [of p "2 ^ a"] p(2) w by simp
    moreover have "(4 :: nat) \<le> 2 ^ a" using d by (rule dvd_imp_le) simp
    ultimately show ?thesis using True by simp
  next
    case False
    let ?r = "unat p mod 2 ^ a" and ?x = "unat p + 2 ^ a - 1"
    have m: "(2 ^ a - 1 :: u32) = mask a" by (simp add: mask_eq_exp_minus_1)
    have "unat (mask a :: u32) = 2 ^ a - 1" unfolding m [symmetric] using w by (subst unat_sub) (simp_all add: word_le_nat_alt)
    then have "mask a = (of_nat (2 ^ a - 1) :: u32)" by (metis of_nat_unat ucast_id)
    then have x: "unat (p + mask a) = ?x" using unat_add_small [of p "2 ^ a - 1"] p(2) by simp
    have "q = (p + mask a) AND NOT (mask a)" using False and_pow2_zero [of p a] unfolding q_def m by (simp only: if_False)
    then have q: "unat q = ?x - ?x mod 2 ^ a" by (simp only: unat_and_not_mask x)
    have r: "?r < 2 ^ a" "?r mod 4 = 0" "0 < ?r" using p(1) d False by (simp_all add: mod_mod_cancel)
    have rd: "?r + 4 \<le> 2 ^ a"
    proof -
      have "4 dvd 2 ^ a - ?r" using d r by (simp add: dvd_diff_nat mod_eq_0_iff_dvd)
      then have "4 \<le> 2 ^ a - ?r" using r(1) by (intro dvd_imp_le) simp_all
      then show ?thesis using r(1) by simp
    qed
    have "?x mod 2 ^ a = ?r - 1"
    proof -
      have "?x = (?r - 1) + (unat p div 2 ^ a + 1) * 2 ^ a" using r(3) div_mult_mod_eq [of "unat p" "2 ^ a"] by simp
      then show ?thesis using r(1) by (metis mod_mult_self1 mod_less less_imp_diff_less)
    qed
    then have u: "unat q = unat p + 2 ^ a - ?r" using q r by simp
    moreover have "(unat p + 2 ^ a - ?r) mod 2 ^ a = 0"
    proof -
      have "unat p + 2 ^ a - ?r = (unat p div 2 ^ a + 1) * 2 ^ a" using r(1) div_mult_mod_eq [of "unat p" "2 ^ a"] by simp
      then show ?thesis by simp
    qed
    ultimately show ?thesis using rd r by simp
  qed
  then show "unat q mod 2 ^ a = 0" "unat p + 4 \<le> unat q" "unat q \<le> unat p + 2 ^ a" by simp_all
qed

text \<open>The block behind an aligned address is the one whose address stands in front of it.\<close>

lemma rt_free_align_block:
  assumes run: "heap_run k h A" and p: "A p = Some xs" and l: "load32 (bytes h) (q - 4) = p"
  shows "\<exists>h'. rt_free_align q h k = Some (Some (), h', k) \<and> heap_run k h' (A(p := None))"
proof -
  obtain h' where F: "rt_free p h k = Some (Some (), h', k)" using run_inv_free [OF heap_run_inv [OF run] p] by blast
  then show ?thesis using run_free [OF run p F] by (simp add: rt_free_align_def l)
qed

text \<open>
  C36.  \<^verbatim>\<open>rt_malloc_align\<close> with a power of two returns; unless there is no room the address is a multiple of
  the alignment, the bytes asked for lie in one new block, behind the word that holds the block's
  address, and \<^verbatim>\<open>rt_free_align\<close> gives that block back.
\<close>

theorem rt_malloc_align_block:
  assumes run: "heap_run k h A" and a: "2 \<le> a" "a < 31" and sz: "unat sz + 3 + 2 ^ a \<le> 0xfffffffc"
  shows "\<exists>q h'. rt_malloc_align sz (2 ^ a) h k = Some (Some q, h', k) \<and>
    (if q = 0 then heap_run k h' A
     else unat q mod 2 ^ a = 0 \<and>
       (\<exists>p xs. A p = None \<and> heap_run k h' (A(p \<mapsto> xs)) \<and> unat p + 4 \<le> unat q \<and> unat q + unat sz \<le> unat p + length xs \<and>
          (\<exists>h''. rt_free_align q h' k = Some (Some (), h'', k) \<and> heap_run k h'' A)))"
proof -
  let ?n = "align4 (unat sz) + 2 ^ a"
  have d: "(4 :: nat) dvd 2 ^ a" using a(1) le_imp_power_dvd [of 2 a "2 :: nat"] by simp
  have n: "?n \<le> 0xfffffffc" "4 \<le> (2 :: nat) ^ a" using sz align4_facts(2) [of "unat sz"] dvd_imp_le [OF d] by simp_all
  have w: "(2 ^ a :: u32) = of_nat (2 ^ a)" by simp
  have "align4 (2 ^ a) = 2 ^ a"
  proof -
    have "(2 ^ a + 3) div 4 = (2 ^ a :: nat) div 4" using d by (auto simp: dvd_def)
    then show ?thesis using d by (simp add: align4_def)
  qed
  then have a1: "(2 ^ a + 3) AND NOT 3 = (2 ^ a :: u32)"
    using rt_align_eq [of "2 ^ a"] n unat_of_nat32 [of "2 ^ a"] unfolding rt_align_def w by (simp add: word_le_nat_alt)
  have s: "(sz + 3) AND NOT 3 = of_nat (align4 (unat sz))"
    using rt_align_eq [of sz] sz by (simp add: rt_align_def word_le_nat_alt)
  let ?t = "of_nat ?n :: u32"
  have t: "((sz + 3) AND NOT 3) + 2 ^ a = ?t" unfolding s by simp
  have tn: "unat ?t = ?n" using n by (intro unat_of_nat32) simp
  have t0: "?t \<noteq> 0" "?t \<le> 0xfffffffc" using tn n by (auto simp: word_le_nat_alt unat_eq_zero [symmetric] simp del: unat_eq_zero of_nat_add)
  note I = heap_run_inv [OF run]
  obtain p h1 where M: "rt_malloc ?t h k = Some (Some p, h1, k)" using run_inv_malloc [OF I t0] by blast
  have E: "rt_malloc_align sz (2 ^ a) h k = Some (let (q, h2) = align_block p (2 ^ a) h1 in (Some q, h2, k))"
    unfolding rt_malloc_align_def a1 Let_def t M by simp
  have r0: "heap_run k h1 (if p = 0 then A else A(p \<mapsto> replicate ?n None))" using run_malloc [OF run t0 M] unfolding tn .
  show ?thesis
  proof (cases "p = 0")
    case True
    then show ?thesis using r0 by (simp add: E align_block_def)
  next
    case False
    have f: "A p = None" by (rule malloc_fresh [OF I t0 M False])
    have r1: "heap_run k h1 (A(p \<mapsto> replicate ?n None))" using r0 False by simp
    note P1 = heap_block_facts [OF r1, of p "replicate ?n None"]
    have he: "unat (heap_end h1) < 2 ^ 32" using unsigned_less [of "heap_end h1"] by simp
    have p: "unat p mod 4 = 0" "unat p + ?n < 2 ^ 32" using P1 he by auto
    define q where "q = (if p AND (2 ^ a - 1) = 0 then p + 2 ^ a else (p + (2 ^ a - 1)) AND NOT (2 ^ a - 1))"
    have q: "unat q mod 2 ^ a = 0" "unat p + 4 \<le> unat q" "unat q \<le> unat p + 2 ^ a"
      using align_address [OF a p(1)] p(2) unfolding q_def by auto
    define i where "i = unat q - unat p - 4"
    have qi: "q - 4 = p + of_nat i"
    proof -
      have "q = of_nat (unat p + (i + 4))" using q(2) by (simp add: i_def)
      then show ?thesis by (simp add: algebra_simps)
    qed
    let ?xs = "take i (replicate ?n None) @ map Some (bytes32 p) @ drop (i + length (bytes32 p)) (replicate ?n None)"
    have l4: "length (bytes32 p) = 4" by (simp add: bytes32_def)
    have il: "i + length (bytes32 p) \<le> length (replicate ?n (None :: u8 option))" using q(2,3) by (simp add: i_def l4)
    have "fold (\<lambda>j b. b(p + of_nat (i + j) := bytes32 p ! j)) [0..<length (bytes32 p)] (bytes h1) = store32 (q - 4) p (bytes h1)"
      unfolding qi store32_def l4 by (simp add: numeral_eq_Suc add.assoc)
    then have r2: "heap_run k (h1\<lparr>bytes := store32 (q - 4) p (bytes h1)\<rparr>) (A(p \<mapsto> ?xs))"
      using heap_run_writes [OF r1 _ il, of p] by simp
    have "unat q + unat sz \<le> unat p + length ?xs" using q(3) il align4_facts(1) [of "unat sz"] by simp
    moreover have "\<exists>h''. rt_free_align q (h1\<lparr>bytes := store32 (q - 4) p (bytes h1)\<rparr>) k = Some (Some (), h'', k) \<and> heap_run k h'' A"
      using rt_free_align_block [OF r2, of p ?xs q] f by (simp add: load32_store32 fun_upd_idem)
    moreover have "q \<noteq> 0" using q(2) by auto
    moreover have "align_block p (2 ^ a) h1 = (q, h1\<lparr>bytes := store32 (q - 4) p (bytes h1)\<rparr>)"
      using False by (simp add: align_block_def q_def Let_def)
    ultimately show ?thesis using r2 f q(1,2) by (auto simp: E intro!: exI [of _ p] exI [of _ ?xs])
  qed
qed

theorem rt_malloc_align_block_witness:
  "\<exists>q h' h''. rt_malloc_align 10 16 heap_demo heap_kernel = Some (Some q, h', heap_kernel) \<and> q \<noteq> 0 \<and> unat q mod 16 = 0 \<and>
     rt_free_align q h' heap_kernel = Some (Some (), h'', heap_kernel)"
proof -
  obtain q h' where Q: "rt_malloc_align 10 16 heap_demo heap_kernel = Some (Some q, h', heap_kernel)"
    "if q = 0 then heap_run heap_kernel h' Map.empty
     else unat q mod 16 = 0 \<and> (\<exists>h''. rt_free_align q h' heap_kernel = Some (Some (), h'', heap_kernel))"
    using rt_malloc_align_block [OF run_fresh [OF heap_demo_fresh], of 4 10] by (auto split: if_splits)
  have m: "malloc_size 28 = 28" by (simp add: malloc_size_def align4_def)
  obtain p h1 where M: "rt_malloc 28 heap_demo heap_kernel = Some (Some p, h1, heap_kernel)" "p \<noteq> 0"
    and g: "gives_block 28 heap_demo [(88, False)] 0 p h1"
    using demo_alloc [OF heap_demo_ok(1,3,4), where sz = 28 and xs = "[]" and z = 88 and ys = "[]"] m by auto
  have "p = 0x100c" using g heap_demo_ok(5) unfolding gives_block_def by (auto dest!: first_fit_first simp: at_def)
  then have "q = 0x1010" using Q(1) M(1) by (simp add: rt_malloc_align_def align_block_def)
  then show ?thesis using Q by auto
qed

end
