(* ===== verification/Kservice_Print.thy ===== *)
theory Kservice_Print
  imports Kservice_Mem
begin

text \<open>
  The formatted output of \<^verbatim>\<open>rt-thread/src/kservice.c\<close>: \<^verbatim>\<open>rt_vsnprintf\<close> and the routines on it, as
  configured (\<^verbatim>\<open>RT_PRINTF_PRECISION\<close>, without \<^verbatim>\<open>RT_PRINTF_LONGLONG\<close> and \<^verbatim>\<open>RT_PRINTF_SPECIAL\<close>).  The
  format, the strings printed and the buffer are in one memory; the arguments are the list of the
  32-bit words that \<^verbatim>\<open>va_arg\<close> takes one by one (with no argument left there is no result).
  \<^verbatim>\<open>int\<close> variables are integers; a conversion that changes the value is written out.
\<close>

subsection \<open>Output\<close>

abbreviation (input) ch :: "char \<Rightarrow> u8" where "ch \<equiv> of_char"

text \<open>The next position to write and the memory; nothing is written behind \<^verbatim>\<open>end\<close>.\<close>

type_synonym out = "u32 \<times> memory"

definition put :: "u32 \<Rightarrow> u8 \<Rightarrow> out \<Rightarrow> out" where
  "put e c = (\<lambda>(str, m). (str + 1, if str \<le> e then m(str := c) else m))"

definition put_list :: "u32 \<Rightarrow> u8 list \<Rightarrow> out \<Rightarrow> out" where
  "put_list e = fold (put e)"

text \<open>The loop \<^verbatim>\<open>while (size-- > 0)\<close>: what is left in \<^verbatim>\<open>size\<close>, and the output.\<close>

definition pad :: "u32 \<Rightarrow> u8 \<Rightarrow> int \<Rightarrow> out \<Rightarrow> int \<times> out" where
  "pad e c n out = (min n 0 - 1, put_list e (replicate (nat n) c) out)"

text \<open>The copy loop of \<^verbatim>\<open>%s\<close>, which reads the string while it writes.\<close>

fun put_str :: "u32 \<Rightarrow> nat \<Rightarrow> u32 \<Rightarrow> out \<Rightarrow> out" where
  "put_str e 0 s out = out"
| "put_str e (Suc n) s out = put_str e n (s + 1) (put e (snd out s) out)"

subsection \<open>Numbers\<close>

definition divide :: "u32 \<Rightarrow> u8 \<Rightarrow> nat \<times> u32" where
  "divide n base = (if base = 10 then (unat (n mod 10), n div 10) else (unat (n mod 16), n div 16))"

definition isdigit :: "u8 \<Rightarrow> bool" where
  "isdigit c \<longleftrightarrow> (of_int (uint c - 48) :: u32) < 10"

definition to_int :: "int \<Rightarrow> int" where
  "to_int x = signed_take_bit 31 x"

partial_function (option) skip_atoi :: "u32 \<Rightarrow> int \<Rightarrow> memory \<Rightarrow> (u32 \<times> int) option" where
  "skip_atoi s i m = (if isdigit (m s) then skip_atoi (s + 1) (to_int (i * 10 + uint (m s) - 48)) m else Some (s, i))"

abbreviation (input) ZEROPAD :: u8 where "ZEROPAD \<equiv> 1"
abbreviation (input) SIGN :: u8 where "SIGN \<equiv> 2"
abbreviation (input) PLUS :: u8 where "PLUS \<equiv> 4"
abbreviation (input) SPACE :: u8 where "SPACE \<equiv> 8"
abbreviation (input) LEFT :: u8 where "LEFT \<equiv> 16"
abbreviation (input) SPECIAL :: u8 where "SPECIAL \<equiv> 32"
abbreviation (input) LARGE :: u8 where "LARGE \<equiv> 64"

definition small_digits :: "u8 list" where
  "small_digits = map of_char ''0123456789abcdef''"

definition large_digits :: "u8 list" where
  "large_digits = map of_char ''0123456789ABCDEF''"

text \<open>\<^verbatim>\<open>tmp\<close>: the digits, the last one first.\<close>

function tmp_digits :: "u8 list \<Rightarrow> u8 \<Rightarrow> u32 \<Rightarrow> u8 list" where
  "tmp_digits digits base num =
     (if num \<noteq> 0 then digits ! fst (divide num base) # tmp_digits digits base (snd (divide num base)) else [])"
  by pat_completeness auto
termination
  by (relation "measure (\<lambda>(_, _, num). unat num)") (auto simp: divide_def unat_div word_gt_0 unat_gt_0)

declare tmp_digits.simps [simp del]

definition number_sign :: "u32 \<Rightarrow> u8 \<Rightarrow> u8 \<times> u32" where
  "number_sign num type =
     (if type AND SIGN \<noteq> 0
      then if sint num < 0 then (ch CHR ''-'', - num)
           else if type AND PLUS \<noteq> 0 then (ch CHR ''+'', num)
           else if type AND SPACE \<noteq> 0 then (ch CHR '' '', num)
           else (0, num)
      else (0, num))"

definition print_number :: "u32 \<Rightarrow> u32 \<Rightarrow> u8 \<Rightarrow> int \<Rightarrow> int \<Rightarrow> u8 \<Rightarrow> out \<Rightarrow> out" where
  "print_number e num base s precision type out =
     (let digits = (if type AND LARGE \<noteq> 0 then large_digits else small_digits);
          ty = (if type AND LEFT \<noteq> 0 then type AND NOT ZEROPAD else type);
          c = (if ty AND ZEROPAD \<noteq> 0 then ch CHR ''0'' else ch CHR '' '');
          (sign, num1) = number_sign num ty;
          tmp = (if num1 = 0 then [ch CHR ''0''] else tmp_digits digits base num1);
          i = int (length tmp);
          prec = (if i > precision then i else precision);
          size0 = s - prec;
          (size1, out1) =
            (if ty AND (ZEROPAD OR LEFT) = 0
             then pad e (ch CHR '' '') (if sign \<noteq> 0 \<and> size0 > 0 then size0 - 1 else size0) out
             else (size0, out));
          (size2, out2) =
            (if sign \<noteq> 0 then (if fst out1 \<le> e then size1 - 1 else size1, put e sign out1) else (size1, out1));
          (size3, out3) = (if ty AND LEFT = 0 then pad e c size2 out2 else (size2, out2));
          out4 = put_list e (replicate (nat (prec - i)) (ch CHR ''0'')) out3;
          out5 = (if precision \<noteq> 0 then put_list e (rev tmp) out4 else out4)
      in snd (pad e (ch CHR '' '') size3 out5))"

subsection \<open>Conversions\<close>

text \<open>The flags from the character behind \<open>fmt\<close> on; where they end, and the flags.\<close>

partial_function (option) scan_flags :: "u32 \<Rightarrow> u8 \<Rightarrow> memory \<Rightarrow> (u32 \<times> u8) option" where
  "scan_flags fmt flags m =
     (let f = fmt + 1
      in if m f = ch CHR ''-'' then scan_flags f (flags OR LEFT) m
         else if m f = ch CHR ''+'' then scan_flags f (flags OR PLUS) m
         else if m f = ch CHR '' '' then scan_flags f (flags OR SPACE) m
         else if m f = ch CHR ''#'' then scan_flags f (flags OR SPECIAL) m
         else if m f = ch CHR ''0'' then scan_flags f (flags OR ZEROPAD) m
         else Some (f, flags))"

definition scan_width :: "u32 \<Rightarrow> u8 \<Rightarrow> u32 list \<Rightarrow> memory \<Rightarrow> (u32 \<times> int \<times> u8 \<times> u32 list) option" where
  "scan_width fmt flags args m =
     (if isdigit (m fmt) then do { (f, w) \<leftarrow> skip_atoi fmt 0 m; Some (f, w, flags, args) }
      else if m fmt = ch CHR ''*''
      then case args of
             [] \<Rightarrow> None
           | a # as \<Rightarrow> Some (if sint a < 0 then (fmt + 1, to_int (- sint a), flags OR LEFT, as) else (fmt + 1, sint a, flags, as))
      else Some (fmt, - 1, flags, args))"

definition scan_precision :: "u32 \<Rightarrow> u32 list \<Rightarrow> memory \<Rightarrow> (u32 \<times> int \<times> u32 list) option" where
  "scan_precision fmt args m =
     (if m fmt = ch CHR ''.''
      then do {
        (f, p, as) \<leftarrow>
          (if isdigit (m (fmt + 1)) then do { (f, p) \<leftarrow> skip_atoi (fmt + 1) 0 m; Some (f, p, args) }
           else if m (fmt + 1) = ch CHR ''*''
           then case args of [] \<Rightarrow> None | a # as \<Rightarrow> Some (fmt + 2, sint a, as)
           else Some (fmt + 1, - 1, args));
        Some (f, if p < 0 then 0 else p, as)
      }
      else Some (fmt, - 1, args))"

definition scan_qualifier :: "u32 \<Rightarrow> memory \<Rightarrow> u32 \<times> u8" where
  "scan_qualifier fmt m = (if m fmt = ch CHR ''h'' \<or> m fmt = ch CHR ''l'' then (fmt + 1, m fmt) else (fmt, 0))"

text \<open>\<^verbatim>\<open>%c\<close>: the loops are \<^verbatim>\<open>while (--field_width > 0)\<close>.\<close>

definition print_char :: "u32 \<Rightarrow> u8 \<Rightarrow> int \<Rightarrow> u32 \<Rightarrow> out \<Rightarrow> out" where
  "print_char e flags width arg out =
     (let (w, out1) = (if flags AND LEFT = 0
                       then (min (width - 1) 0, put_list e (replicate (nat (width - 1)) (ch CHR '' '')) out)
                       else (width, out));
          out2 = put e (ucast arg) out1
      in put_list e (replicate (nat (w - 1)) (ch CHR '' '')) out2)"

text \<open>\<^verbatim>\<open>%s\<close>: the loops are \<^verbatim>\<open>while (len < field_width--)\<close>; \<^verbatim>\<open>RT_NULL\<close> prints a string of its own.\<close>

definition null_text :: "u8 list" where
  "null_text = map of_char ''(NULL)''"

definition print_string :: "u32 \<Rightarrow> u8 \<Rightarrow> int \<Rightarrow> int \<Rightarrow> u32 \<Rightarrow> out \<Rightarrow> out option" where
  "print_string e flags width precision s out =
     do {
       n \<leftarrow> (if s = 0 then Some (of_nat (length null_text)) else rt_strlen s (snd out));
       let len0 = sint n;
       let len = (if precision > 0 \<and> len0 > precision then precision else len0);
       let (w, out1) = (if flags AND LEFT = 0
                        then (min width len - 1, put_list e (replicate (nat (width - len)) (ch CHR '' '')) out)
                        else (width, out));
       let out2 = (if s = 0 then put_list e (take (nat len) null_text) out1 else put_str e (nat len) s out1);
       Some (put_list e (replicate (nat (w - len)) (ch CHR '' '')) out2)
     }"

text \<open>The argument of an integer conversion.\<close>

definition int_arg :: "u8 \<Rightarrow> u8 \<Rightarrow> u32 \<Rightarrow> u32" where
  "int_arg qualifier flags a =
     (if qualifier = ch CHR ''h''
      then if flags AND SIGN \<noteq> 0 then scast (ucast a :: u16) else ucast (ucast a :: u16)
      else a)"

text \<open>The \<^verbatim>\<open>switch\<close>: where the format goes on (the character before the next one), and what is left.\<close>

definition convert ::
  "u32 \<Rightarrow> u32 \<Rightarrow> u8 \<Rightarrow> int \<Rightarrow> int \<Rightarrow> u8 \<Rightarrow> u32 list \<Rightarrow> out \<Rightarrow> (u32 \<times> u32 list \<times> out) option" where
  "convert e fmt flags width precision qualifier args out =
     (let c = snd out fmt;
          integer = (\<lambda>base flags.
            case args of
              [] \<Rightarrow> None
            | a # as \<Rightarrow> Some (fmt, as, print_number e (int_arg qualifier flags a) base width precision flags out))
      in if c = ch CHR ''c''
         then (case args of [] \<Rightarrow> None | a # as \<Rightarrow> Some (fmt, as, print_char e flags width a out))
         else if c = ch CHR ''s''
         then (case args of
                 [] \<Rightarrow> None
               | a # as \<Rightarrow> do { out1 \<leftarrow> print_string e flags width precision a out; Some (fmt, as, out1) })
         else if c = ch CHR ''p''
         then (case args of
                 [] \<Rightarrow> None
               | a # as \<Rightarrow>
                   Some (fmt, as,
                     if width = - 1 then print_number e a 16 8 precision (flags OR ZEROPAD) out
                     else print_number e a 16 width precision flags out))
         else if c = ch CHR ''%'' then Some (fmt, args, put e (ch CHR ''%'') out)
         else if c = ch CHR ''o'' then integer 8 flags
         else if c = ch CHR ''X'' then integer 16 (flags OR LARGE)
         else if c = ch CHR ''x'' then integer 16 flags
         else if c = ch CHR ''d'' \<or> c = ch CHR ''i'' then integer 10 (flags OR SIGN)
         else if c = ch CHR ''u'' then integer 10 flags
         else let out1 = put e (ch CHR ''%'') out
              in if c \<noteq> 0 then Some (fmt, args, put e c out1) else Some (fmt - 1, args, out1))"

definition directive :: "u32 \<Rightarrow> u32 \<Rightarrow> u32 list \<Rightarrow> out \<Rightarrow> (u32 \<times> u32 list \<times> out) option" where
  "directive e fmt args out =
     do {
       (f1, flags) \<leftarrow> scan_flags fmt 0 (snd out);
       (f2, width, flags1, args1) \<leftarrow> scan_width f1 flags args (snd out);
       (f3, precision, args2) \<leftarrow> scan_precision f2 args1 (snd out);
       let (f4, qualifier) = scan_qualifier f3 (snd out);
       convert e f4 flags1 width precision qualifier args2 out
     }"

partial_function (option) vsn_loop :: "u32 \<Rightarrow> u32 \<Rightarrow> u32 list \<Rightarrow> out \<Rightarrow> out option" where
  "vsn_loop e fmt args out =
     (if snd out fmt = 0 then Some out
      else if snd out fmt \<noteq> ch CHR ''%'' then vsn_loop e (fmt + 1) args (put e (snd out fmt) out)
      else do {
        (f, as, out1) \<leftarrow> directive e fmt args out;
        vsn_loop e (f + 1) as out1
      })"

definition rt_vsnprintf :: "u32 \<Rightarrow> u32 \<Rightarrow> u32 \<Rightarrow> u32 list \<Rightarrow> memory \<Rightarrow> (int \<times> memory) option" where
  "rt_vsnprintf buf sz fmt args m =
     do {
       let e0 = buf + sz - 1;
       let e = (if e0 < buf then - 1 else e0);
       (str, m1) \<leftarrow> vsn_loop e fmt args (buf, m);
       Some (sint (str - buf), if str \<le> e then m1(str := 0) else m1(e := 0))
     }"

definition rt_snprintf :: "u32 \<Rightarrow> u32 \<Rightarrow> u32 \<Rightarrow> u32 list \<Rightarrow> memory \<Rightarrow> (int \<times> memory) option" where
  "rt_snprintf buf sz fmt args m = rt_vsnprintf buf sz fmt args m"

definition rt_vsprintf :: "u32 \<Rightarrow> u32 \<Rightarrow> u32 list \<Rightarrow> memory \<Rightarrow> (int \<times> memory) option" where
  "rt_vsprintf buf fmt args m = rt_vsnprintf buf (- 1) fmt args m"

definition rt_sprintf :: "u32 \<Rightarrow> u32 \<Rightarrow> u32 list \<Rightarrow> memory \<Rightarrow> (int \<times> memory) option" where
  "rt_sprintf buf fmt args m = rt_vsprintf buf fmt args m"

subsection \<open>What a format prints\<close>

text \<open>
  The text that the loop of \<^verbatim>\<open>rt_vsnprintf\<close> puts for each conversion, as the code makes it, without the
  buffer: an intermediate step, which keeps what the code does where it is wrong (\<^verbatim>\<open>%o\<close> is base 16,
  and a precision of 0 drops the digits).  What a conversion is meant to print is in theory
  Print_Spec, and the two are shown to agree there.
\<close>

definition spaces :: "int \<Rightarrow> u8 list" where
  "spaces n = replicate (nat n) (ch CHR '' '')"

definition digits_text :: "u32 \<Rightarrow> u8 \<Rightarrow> u8 \<Rightarrow> u8 list" where
  "digits_text n base type =
     (if n = 0 then [ch CHR ''0'']
      else rev (tmp_digits (if type AND LARGE \<noteq> 0 then large_digits else small_digits) base n))"

definition number_text :: "u32 \<Rightarrow> u8 \<Rightarrow> int \<Rightarrow> int \<Rightarrow> u8 \<Rightarrow> u8 list" where
  "number_text num base width precision type =
     (let (sign, n) = number_sign num type;
          ds = digits_text n base type;
          zeros = replicate (nat precision - length ds) (ch CHR ''0'');
          body = zeros @ (if precision = 0 then [] else ds);
          front = (if sign = 0 then [] else [sign]);
          fill = width - max precision (int (length ds)) - int (length front)
      in if type AND LEFT \<noteq> 0 then front @ body @ spaces fill
         else if type AND ZEROPAD \<noteq> 0 then front @ replicate (nat fill) (ch CHR ''0'') @ body
         else spaces fill @ front @ body)"

definition padded :: "u8 \<Rightarrow> int \<Rightarrow> u8 list \<Rightarrow> u8 list" where
  "padded flags width xs =
     (let fill = spaces (width - int (length xs)) in if flags AND LEFT \<noteq> 0 then xs @ fill else fill @ xs)"

text \<open>
  A format as it is documented: characters and conversions, each with its flags, width,
  precision, qualifier and conversion character.
\<close>

datatype field = Default | Number nat | Star

datatype piece = Chr u8 | Conv "u8 list" field "field option" "u8 list" u8

fun decimal :: "nat \<Rightarrow> u8 list" where
  "decimal n = (if n < 10 then [of_nat (48 + n)] else decimal (n div 10) @ [of_nat (48 + n mod 10)])"

declare decimal.simps [simp del]

fun field_text :: "field \<Rightarrow> u8 list" where
  "field_text Default = []"
| "field_text (Number n) = decimal n"
| "field_text Star = [ch CHR ''*'']"

fun piece_text :: "piece \<Rightarrow> u8 list" where
  "piece_text (Chr c) = [c]"
| "piece_text (Conv fl w p q c) =
     ch CHR ''%'' # fl @ field_text w @ (case p of None \<Rightarrow> [] | Some f \<Rightarrow> ch CHR ''.'' # field_text f) @ q @ [c]"

definition flag_bit :: "u8 \<Rightarrow> u8" where
  "flag_bit c =
     (if c = ch CHR ''-'' then LEFT else if c = ch CHR ''+'' then PLUS else if c = ch CHR '' '' then SPACE
      else if c = ch CHR ''#'' then SPECIAL else if c = ch CHR ''0'' then ZEROPAD else 0)"

definition flag_chars :: "u8 list" where
  "flag_chars = map of_char ''-+ #0''"

definition other_chars :: "u8 list" where
  "other_chars = map of_char ''123456789*.hl''"

fun piece_ok :: "piece \<Rightarrow> bool" where
  "piece_ok (Chr c) \<longleftrightarrow> c \<noteq> 0 \<and> c \<noteq> ch CHR ''%''"
| "piece_ok (Conv fl w p q c) \<longleftrightarrow>
     set fl \<subseteq> set flag_chars \<and> (\<forall>n. w = Number n \<longrightarrow> 0 < n \<and> n < 2 ^ 31) \<and> (\<forall>n. p = Some (Number n) \<longrightarrow> n < 2 ^ 31) \<and>
     (q = [] \<or> q = [ch CHR ''h''] \<or> q = [ch CHR ''l'']) \<and> c \<noteq> 0 \<and> c \<notin> set flag_chars \<and> c \<notin> set other_chars"

fun width_of :: "field \<Rightarrow> u8 \<Rightarrow> u32 list \<Rightarrow> (int \<times> u8 \<times> u32 list) option" where
  "width_of Default flags args = Some (- 1, flags, args)"
| "width_of (Number n) flags args = Some (int n, flags, args)"
| "width_of Star flags [] = None"
| "width_of Star flags (a # as) = Some (if sint a < 0 then (to_int (- sint a), flags OR LEFT, as) else (sint a, flags, as))"

fun precision_of :: "field option \<Rightarrow> u32 list \<Rightarrow> (int \<times> u32 list) option" where
  "precision_of None args = Some (- 1, args)"
| "precision_of (Some Default) args = Some (0, args)"
| "precision_of (Some (Number n)) args = Some (int n, args)"
| "precision_of (Some Star) [] = None"
| "precision_of (Some Star) (a # as) = Some (max 0 (sint a), as)"

text \<open>The text of one conversion of an argument; \<open>S\<close> gives the strings in memory.\<close>

definition arg_text :: "(u32 \<Rightarrow> u8 list option) \<Rightarrow> u8 \<Rightarrow> u8 \<Rightarrow> u8 \<Rightarrow> int \<Rightarrow> int \<Rightarrow> u32 \<Rightarrow> u8 list option" where
  "arg_text S c q flags width precision a =
     (if c = ch CHR ''c'' then Some (padded flags width [ucast a])
      else if c = ch CHR ''s''
      then map_option (\<lambda>xs. padded flags width (if precision > 0 then take (nat precision) xs else xs))
             (if a = 0 then Some null_text else S a)
      else if c = ch CHR ''p''
      then Some (if width = - 1 then number_text a 16 8 precision (flags OR ZEROPAD)
                 else number_text a 16 width precision flags)
      else if c = ch CHR ''o'' then Some (number_text (int_arg q flags a) 8 width precision flags)
      else if c = ch CHR ''X''
      then Some (number_text (int_arg q (flags OR LARGE) a) 16 width precision (flags OR LARGE))
      else if c = ch CHR ''x'' then Some (number_text (int_arg q flags a) 16 width precision flags)
      else if c = ch CHR ''d'' \<or> c = ch CHR ''i''
      then Some (number_text (int_arg q (flags OR SIGN) a) 10 width precision (flags OR SIGN))
      else Some (number_text (int_arg q flags a) 10 width precision flags))"

definition arg_chars :: "u8 list" where
  "arg_chars = map of_char ''cspoXxdiu''"

fun piece_out :: "(u32 \<Rightarrow> u8 list option) \<Rightarrow> piece \<Rightarrow> u32 list \<Rightarrow> (u8 list \<times> u32 list) option" where
  "piece_out S (Chr c) args = Some ([c], args)"
| "piece_out S (Conv fl w p q c) args =
     do {
       (width, flags, args1) \<leftarrow> width_of w (foldl (\<lambda>f x. f OR flag_bit x) 0 fl) args;
       (precision, args2) \<leftarrow> precision_of p args1;
       (if c \<in> set arg_chars
        then case args2 of
               [] \<Rightarrow> None
             | a # as \<Rightarrow> map_option (\<lambda>xs. (xs, as)) (arg_text S c (if q = [] then 0 else hd q) flags width precision a)
        else Some (if c = ch CHR ''%'' then [c] else [ch CHR ''%'', c], args2))
     }"

fun format_out :: "(u32 \<Rightarrow> u8 list option) \<Rightarrow> piece list \<Rightarrow> u32 list \<Rightarrow> u8 list option" where
  "format_out S [] args = Some []"
| "format_out S (d # ds) args =
     do { (xs, as) \<leftarrow> piece_out S d args; ys \<leftarrow> format_out S ds as; Some (xs @ ys) }"

subsection \<open>Output behind the end\<close>

lemma put_list_simps [simp]:
  "put_list e [] out = out" "put_list e (c # cs) out = put_list e cs (put e c out)"
  "put_list e (cs @ ds) out = put_list e ds (put_list e cs out)"
  by (simp_all add: put_list_def)

lemma fst_put_list: "fst (put_list e cs out) = fst out + of_nat (length cs)"
  by (induction cs arbitrary: out) (auto simp: put_def split: prod.splits)

text \<open>
  What is printed is \<open>t\<close>, the buffer has \<open>z\<close> bytes at \<open>b\<close>.  The position may be up to \<open>k\<close> ahead of
  the text, but only when the buffer is full.
\<close>

definition prints :: "u32 \<Rightarrow> nat \<Rightarrow> memory \<Rightarrow> nat \<Rightarrow> u8 list \<Rightarrow> out \<Rightarrow> bool" where
  "prints b z m k t out \<longleftrightarrow>
     (\<exists>n. fst out = b + of_nat n \<and> length t \<le> n \<and> n \<le> length t + k \<and> (n = length t \<or> z \<le> length t)) \<and>
     snd out = (\<lambda>x. if unat (x - b) < min (length t) z then t ! unat (x - b) else m x)"

lemma prints_mono: "prints b z m k t out \<Longrightarrow> k \<le> j \<Longrightarrow> prints b z m j t out"
  by (fastforce simp: prints_def)

text \<open>A buffer of \<open>z\<close> bytes at \<open>b\<close>, its last byte is \<open>e\<close>.\<close>

definition buffer :: "u32 \<Rightarrow> nat \<Rightarrow> u32 \<Rightarrow> bool" where
  "buffer b z e \<longleftrightarrow> 0 < z \<and> unat b + z \<le> 2 ^ 32 \<and> e = b + of_nat z - 1"

lemma end_iff:
  assumes B: "buffer b z e" and n: "unat b + n < 2 ^ 32"
  shows "b + of_nat n \<le> e \<longleftrightarrow> n < z"
proof -
  have z: "0 < z" "unat b + z \<le> 2 ^ 32" and e: "e = b + of_nat z - 1" using B by (simp_all add: buffer_def)
  have "e = b + of_nat (z - 1)" using z by (simp add: e of_nat_diff)
  moreover have "unat (b + of_nat (z - 1)) = unat b + (z - 1)"
    using z by (subst unat_add_small) (simp_all add: unat_of_nat32)
  moreover have "unat (b + of_nat n) = unat b + n"
    using n by (subst unat_add_small) (simp_all add: unat_of_nat32)
  ultimately show ?thesis using z by (simp add: word_le_nat_alt) linarith
qed

lemma put_prints:
  assumes B: "buffer b z e" and P: "prints b z m k t out" and n: "unat b + length t + k + 1 < 2 ^ 32"
  shows "prints b z m k (t @ [c]) (put e c out)"
proof -
  obtain n where N: "fst out = b + of_nat n" "length t \<le> n" "n \<le> length t + k" "n = length t \<or> z \<le> length t"
    and M: "snd out = (\<lambda>x. if unat (x - b) < min (length t) z then t ! unat (x - b) else m x)"
    using P by (auto simp: prints_def)
  have e: "fst out \<le> e \<longleftrightarrow> n < z" unfolding N(1) by (rule end_iff [OF B]) (use N n in simp)
  have x: "x = fst out \<longleftrightarrow> unat (x - b) = n" for x
  proof -
    have "unat (of_nat n :: u32) = n" using N n by (simp add: unat_of_nat32)
    moreover have "x = fst out \<longleftrightarrow> x - b = of_nat n" unfolding N(1) by (simp add: diff_eq_eq add.commute)
    ultimately show ?thesis by (metis word_unat_eq_iff)
  qed
  have s: "snd (put e c out) = (\<lambda>x. if unat (x - b) < min (length (t @ [c])) z then (t @ [c]) ! unat (x - b) else m x)"
  proof
    fix y
    have "snd (put e c out) y = (if n < z \<and> unat (y - b) = n then c else snd out y)"
      using x [of y] e by (simp add: put_def split_beta)
    also have "\<dots> = (if unat (y - b) < min (length (t @ [c])) z then (t @ [c]) ! unat (y - b) else m y)"
      using N(2,4) unfolding M by (auto simp: nth_append not_less)
    finally show "snd (put e c out) y = (if unat (y - b) < min (length (t @ [c])) z then (t @ [c]) ! unat (y - b) else m y)" .
  qed
  have "fst (put e c out) = b + of_nat (Suc n)" by (simp add: put_def split_beta N(1))
  then show ?thesis using s N unfolding prints_def by (intro conjI exI [of _ "Suc n"]) auto
qed

lemma put_list_prints:
  "buffer b z e \<Longrightarrow> prints b z m k t out \<Longrightarrow> unat b + length t + length cs + k < 2 ^ 32 \<Longrightarrow> prints b z m k (t @ cs) (put_list e cs out)"
proof (induction cs arbitrary: t out)
  case (Cons c cs)
  have "prints b z m k (t @ [c]) (put e c out)" using Cons.prems by (intro put_prints) simp_all
  from Cons.IH [OF Cons.prems(1) this] show ?case using Cons.prems by simp
qed simp

lemma prints_full:
  assumes B: "buffer b z e" and P: "prints b z m k t out" and n: "unat b + length t + k < 2 ^ 32" and f: "\<not> fst out \<le> e"
  shows "z \<le> length t"
proof -
  obtain n where N: "fst out = b + of_nat n" "n \<le> length t + k" "n = length t \<or> z \<le> length t"
    using P by (auto simp: prints_def)
  have "\<not> n < z" using f end_iff [OF B, of n] N n by simp
  then show ?thesis using N(3) by auto
qed

text \<open>Once the buffer is full, only the number of characters matters.\<close>

lemma prints_swap:
  assumes P: "prints b z m k (t @ cs) out" and "z \<le> length t" "length ds \<le> length cs" "length cs \<le> length ds + j"
  shows "prints b z m (k + j) (t @ ds) out"
  using assms unfolding prints_def by (auto simp: nth_append fun_eq_iff)

subsection \<open>Numbers\<close>

lemma length_tmp_digits: "n \<noteq> 0 \<Longrightarrow> tmp_digits ds base n \<noteq> []"
  by (simp add: tmp_digits.simps [of _ _ n])

lemma digits_text_length: "0 < length (digits_text n base type)"
  by (simp add: digits_text_def length_tmp_digits)

lemma flag_and_or: "(w :: u8) AND (a OR b) = 0 \<longleftrightarrow> w AND a = 0 \<and> w AND b = 0"
  unfolding bit.conj_disj_distrib by (rule or_eq_0_iff)

lemma number_sign_zeropad: "number_sign num (type AND NOT ZEROPAD) = number_sign num type"
proof -
  have "(type AND NOT ZEROPAD) AND SIGN = type AND SIGN" "(type AND NOT ZEROPAD) AND PLUS = type AND PLUS"
    "(type AND NOT ZEROPAD) AND SPACE = type AND SPACE"
    by (simp_all add: and.assoc)
  then show ?thesis unfolding number_sign_def by (simp only:)
qed

lemma and_not_zeropad: "(type AND NOT ZEROPAD) AND ZEROPAD = 0" "(type AND NOT ZEROPAD) AND LEFT = type AND LEFT"
  for type :: u8
  by (simp_all add: and.assoc)

text \<open>
  The digits after the sign: what \<^verbatim>\<open>print_number\<close> puts is the text, or, when the sign was already
  behind the end, it may put one character of padding more.
\<close>

lemma print_number_puts:
  "\<exists>cs. print_number e num base s precision type out = put_list e cs out \<and>
     (cs = number_text num base s precision type \<or>
      \<not> fst out \<le> e \<and> length (number_text num base s precision type) \<le> length cs \<and>
      length cs \<le> length (number_text num base s precision type) + 1)"
proof -
  define ty where "ty = (if type AND LEFT \<noteq> 0 then type AND NOT ZEROPAD else type)"
  obtain sign n where sg: "number_sign num type = (sign, n)" by fastforce
  have sg': "number_sign num ty = (sign, n)" unfolding ty_def by (cases "type AND LEFT \<noteq> 0") (simp_all only: number_sign_zeropad if_True if_False sg not_False_eq_True simp_thms)
  define ds where "ds = digits_text n base type"
  define tmp where "tmp = rev ds"
  have tmp: "(if n = 0 then [ch CHR ''0''] else tmp_digits (if type AND LARGE \<noteq> 0 then large_digits else small_digits) base n) = tmp"
    by (simp add: tmp_def ds_def digits_text_def)
  define prec where "prec = max precision (int (length ds))"
  have prec: "(if int (length tmp) > precision then int (length tmp) else precision) = prec"
    by (simp add: prec_def tmp_def max_def)
  define body where "body = replicate (nat precision - length ds) (ch CHR ''0'') @ (if precision = 0 then [] else ds)"
  have nz: "nat (prec - int (length tmp)) = nat precision - length ds" by (simp add: prec_def tmp_def)
  have body: "(if precision \<noteq> 0 then put_list e (rev tmp) (put_list e (replicate (nat (prec - int (length tmp))) (ch CHR ''0'')) o1)
      else put_list e (replicate (nat (prec - int (length tmp))) (ch CHR ''0'')) o1) = put_list e body o1" for o1
    unfolding nz by (simp add: body_def tmp_def)
  note E = print_number_def [of e num base s precision type out, unfolded Let_def, folded ty_def,
    unfolded sg' prod.case tmp prec body]
  have T: "number_text num base s precision type =
    (let front = (if sign = 0 then [] else [sign]); fill = s - prec - int (length front)
     in if type AND LEFT \<noteq> 0 then front @ body @ spaces fill
        else if type AND ZEROPAD \<noteq> 0 then front @ replicate (nat fill) (ch CHR ''0'') @ body
        else spaces fill @ front @ body)"
    unfolding number_text_def sg Let_def prod.case ds_def [symmetric] prec_def [symmetric] body_def [symmetric] ..
  define front where "front = (if sign = 0 then [] else [sign])"
  define fill where "fill = s - prec - int (length front)"
  define fill' where "fill' = s - prec - (if sign \<noteq> 0 \<and> fst out \<le> e then 1 else 0)"
  have f': "fill' = fill \<or> \<not> fst out \<le> e \<and> fill' = fill + 1" by (simp add: fill'_def fill_def front_def)
  note P = pad_def Let_def spaces_def prod.case snd_conv fst_conv
  consider (left) "type AND LEFT \<noteq> 0" | (zero) "type AND LEFT = 0" "type AND ZEROPAD \<noteq> 0"
    | (plain) "type AND LEFT = 0" "type AND ZEROPAD = 0" by blast
  then show ?thesis
  proof cases
    case left
    then have ty: "\<not> ty AND (ZEROPAD OR LEFT) = 0" "\<not> ty AND LEFT = 0"
      by (simp_all only: ty_def if_True flag_and_or and_not_zeropad) (simp_all add: and.assoc)
    have "print_number e num base s precision type out = put_list e (front @ body @ spaces fill') out"
      unfolding E if_not_P [OF ty(1)] if_not_P [OF ty(2)] P fill'_def front_def by (cases "sign = 0") auto
    moreover have "number_text num base s precision type = front @ body @ spaces fill"
      using left unfolding T by (simp add: Let_def front_def fill_def)
    ultimately show ?thesis using f'
      by (intro exI [of _ "front @ body @ spaces fill'"]) (auto simp: spaces_def simp del: put_list_simps)
  next
    case zero
    then have ty: "ty AND LEFT = 0" "\<not> ty AND ZEROPAD = 0" "ty = type" by (simp_all add: ty_def)
    then have "\<not> ty AND (ZEROPAD OR LEFT) = 0" by (simp only: flag_and_or) simp
    note ty = ty this
    have "print_number e num base s precision type out = put_list e (front @ replicate (nat fill') (ch CHR ''0'') @ body) out"
      unfolding E if_not_P [OF ty(4)] if_P [OF ty(1)] P fill'_def front_def using ty(2)
      by (cases "sign = 0") auto
    moreover have "number_text num base s precision type = front @ replicate (nat fill) (ch CHR ''0'') @ body"
      using zero unfolding T by (simp add: Let_def front_def fill_def)
    ultimately show ?thesis using f'
      by (intro exI [of _ "front @ replicate (nat fill') (ch CHR ''0'') @ body"]) (auto simp del: put_list_simps)
  next
    case plain
    then have ty: "ty AND LEFT = 0" "ty AND ZEROPAD = 0" by (simp_all add: ty_def)
    then have "ty AND (ZEROPAD OR LEFT) = 0" by (simp only: flag_and_or)
    note ty = ty this
    have "print_number e num base s precision type out = put_list e (spaces fill @ front @ body) out"
      unfolding E if_P [OF ty(3)] if_P [OF ty(1)] P fill_def front_def by (cases "sign = 0") auto
    moreover have "number_text num base s precision type = spaces fill @ front @ body"
      using plain unfolding T by (simp add: Let_def front_def fill_def)
    ultimately show ?thesis by (intro exI [of _ "spaces fill @ front @ body"]) (simp del: put_list_simps)
  qed
qed

lemma print_number_prints:
  assumes B: "buffer b z e" and P: "prints b z m k t out"
    and n: "unat b + length t + length (number_text num base s precision type) + k + 1 < 2 ^ 32"
  shows "prints b z m (k + 1) (t @ number_text num base s precision type) (print_number e num base s precision type out)"
proof -
  let ?x = "number_text num base s precision type"
  obtain cs where C: "print_number e num base s precision type out = put_list e cs out"
    "cs = ?x \<or> \<not> fst out \<le> e \<and> length ?x \<le> length cs \<and> length cs \<le> length ?x + 1"
    using print_number_puts by blast
  have p: "prints b z m k (t @ cs) (put_list e cs out)" by (rule put_list_prints [OF B P]) (use C(2) n in auto)
  show ?thesis
  proof (cases "cs = ?x")
    case True
    then show ?thesis using prints_mono [OF p] by (simp add: C(1))
  next
    case False
    then have f: "\<not> fst out \<le> e" "length ?x \<le> length cs" "length cs \<le> length ?x + 1" using C(2) by auto
    have "z \<le> length t" by (rule prints_full [OF B P _ f(1)]) (use n in simp)
    from prints_swap [OF p this f(2,3)] show ?thesis by (simp add: C(1))
  qed
qed

subsection \<open>Strings\<close>

text \<open>The string of \<open>n\<close> characters at \<open>a\<close>, with its zero, is outside the buffer.\<close>

definition outside :: "u32 \<Rightarrow> nat \<Rightarrow> u32 \<Rightarrow> nat \<Rightarrow> bool" where
  "outside b z a n \<longleftrightarrow> (\<forall>i \<le> n. z \<le> unat (a + of_nat i - b))"

lemma outside_Suc: "outside b z a (Suc n) \<longleftrightarrow> z \<le> unat (a - b) \<and> outside b z (a + 1) n"
proof
  assume O: "outside b z a (Suc n)"
  have "z \<le> unat (a + 1 + of_nat i - b)" if "i \<le> n" for i
    using O that unfolding outside_def by (auto dest!: spec [of _ "Suc i"] simp: add.assoc)
  then show "z \<le> unat (a - b) \<and> outside b z (a + 1) n" using O by (auto simp: outside_def dest: spec [of _ 0])
next
  assume O: "z \<le> unat (a - b) \<and> outside b z (a + 1) n"
  show "outside b z a (Suc n)"
    unfolding outside_def
  proof (intro allI impI)
    fix i assume "i \<le> Suc n"
    then show "z \<le> unat (a + of_nat i - b)"
      using O by (cases i) (auto simp: outside_def add.assoc)
  qed
qed

lemma outside_0: "outside b z a 0 \<longleftrightarrow> z \<le> unat (a - b)"
  by (simp add: outside_def)

lemma prints_keep: "prints b z m k t out \<Longrightarrow> z \<le> unat (a - b) \<Longrightarrow> snd out a = m a"
  by (simp add: prints_def)

lemma prints_str:
  assumes "prints b z m k t out"
  shows "str_at m a xs \<Longrightarrow> outside b z a (length xs) \<Longrightarrow> str_at (snd out) a xs"
  using prints_keep [OF assms]
  by (induction m a xs rule: str_at.induct) (auto simp: outside_Suc outside_0)

lemma put_str_list:
  assumes B: "buffer b z e"
  shows "prints b z m k t out \<Longrightarrow> str_at m a xs \<Longrightarrow> outside b z a (length xs) \<Longrightarrow> n \<le> length xs \<Longrightarrow>
    unat b + length t + n + k < 2 ^ 32 \<Longrightarrow> put_str e n a out = put_list e (take n xs) out"
proof (induction n arbitrary: a xs t out)
  case (Suc n)
  then obtain x ys where xs: "xs = x # ys" by (cases xs) auto
  have "snd out a = m a" using prints_keep [OF Suc.prems(1)] Suc.prems(3) by (simp add: xs outside_Suc)
  then have x: "snd out a = x" using Suc.prems(2) by (simp add: xs)
  have "prints b z m k (t @ [x]) (put e x out)" by (rule put_prints [OF B Suc.prems(1)]) (use Suc.prems in simp)
  then have "put_str e n (a + 1) (put e x out) = put_list e (take n ys) (put e x out)"
    using Suc.prems by (intro Suc.IH [of "t @ [x]"]) (simp_all add: xs outside_Suc)
  then show ?case by (simp add: x xs)
qed simp

lemma print_char_list: "print_char e flags width a out = put_list e (padded flags width [ucast a]) out"
  by (simp add: print_char_def padded_def spaces_def)

text \<open>How long the text of \<^verbatim>\<open>%s\<close> is.\<close>

definition cut_to :: "int \<Rightarrow> u8 list \<Rightarrow> u8 list" where
  "cut_to precision xs = (if precision > 0 then take (nat precision) xs else xs)"

lemma print_string_list:
  assumes B: "buffer b z e" and P: "prints b z m k t out"
    and S: "a \<noteq> 0 \<Longrightarrow> str_at m a xs \<and> outside b z a (length xs) \<and> length xs < 2 ^ 31" "a = 0 \<Longrightarrow> xs = null_text"
    and n: "unat b + length t + length (padded flags width (cut_to precision xs)) + k < 2 ^ 32"
  shows "print_string e flags width precision a out = Some (put_list e (padded flags width (cut_to precision xs)) out)"
proof -
  have sl: "(if a = 0 then Some (of_nat (length null_text)) else rt_strlen a (snd out)) = Some (of_nat (length xs))"
    using S prints_str [OF P] rt_strlen_spec by auto
  have "length xs < 2 ^ 31" using S by (cases "a = 0") (simp_all add: null_text_def)
  then have "sint (of_nat (length xs) :: u32) = int (length xs)"
    by (simp add: sint_uint uint_nat unat_of_nat signed_take_bit_int_eq_self)
  then have len: "(if precision > 0 \<and> sint (of_nat (length xs) :: u32) > precision then precision
      else sint (of_nat (length xs) :: u32)) = int (length (cut_to precision xs))"
    by (auto simp: cut_to_def)
  have c: "take (length (cut_to precision xs)) xs = cut_to precision xs" by (auto simp: cut_to_def min_def)
  have put: "(if a = 0 then put_list e (take (nat (int (length (cut_to precision xs)))) null_text) o1
      else put_str e (nat (int (length (cut_to precision xs)))) a o1) = put_list e (cut_to precision xs) o1"
    if o1: "prints b z m k u o1" "unat b + length u + length (cut_to precision xs) + k < 2 ^ 32" for u o1
    using S put_str_list [OF B o1(1), of a xs "length (cut_to precision xs)"] o1(2) c by (auto simp: cut_to_def)
  show ?thesis
  proof (cases "flags AND LEFT = 0")
    case True
    have "prints b z m k (t @ spaces (width - int (length (cut_to precision xs)))) (put_list e (spaces (width - int (length (cut_to precision xs)))) out)"
      by (rule put_list_prints [OF B P]) (use n True in \<open>simp add: padded_def Let_def\<close>)
    note put [OF this]
    moreover have "unat b + length (t @ spaces (width - int (length (cut_to precision xs)))) + length (cut_to precision xs) + k < 2 ^ 32"
      using n True by (simp add: padded_def Let_def)
    ultimately show ?thesis
      using True unfolding print_string_def sl bind.simps Let_def len by (auto simp: padded_def Let_def spaces_def)
  next
    case False
    note put [OF P]
    moreover have "unat b + length t + length (cut_to precision xs) + k < 2 ^ 32"
      using n False by (simp add: padded_def Let_def)
    ultimately show ?thesis
      using False unfolding print_string_def sl bind.simps Let_def len by (auto simp: padded_def Let_def spaces_def)
  qed
qed

subsection \<open>Reading a format\<close>

lemma isdigit_iff: "isdigit c \<longleftrightarrow> 48 \<le> uint c \<and> uint c \<le> 57"
proof -
  have c: "0 \<le> uint c" "uint c < 256" using unsigned_less [of c] by simp_all
  have "isdigit c \<longleftrightarrow> (uint c - 48) mod 2 ^ 32 < 10"
    unfolding isdigit_def word_less_def by (subst uint_word_of_int) simp
  also have "\<dots> \<longleftrightarrow> 48 \<le> uint c \<and> uint c \<le> 57"
  proof (cases "48 \<le> uint c")
    case True
    then have "(uint c - 48) mod 2 ^ 32 = uint c - 48" using c by (intro mod_pos_pos_trivial) simp_all
    then show ?thesis using True by auto
  next
    case False
    have "(uint c - 48) mod 2 ^ 32 = (uint c - 48 + 2 ^ 32) mod 2 ^ 32" by (rule mod_add_self2 [symmetric])
    also have "\<dots> = uint c - 48 + 2 ^ 32" using False c by (intro mod_pos_pos_trivial) simp_all
    finally have e: "(uint c - 48) mod 2 ^ 32 = uint c - 48 + 2 ^ 32" .
    have "\<not> k - 48 + 2 ^ 32 < 10" if "0 \<le> k" for k :: int using that by simp
    then have "\<not> uint c - 48 + 2 ^ 32 < 10" using c(1) by blast
    then show ?thesis unfolding e using False by blast
  qed
  finally show ?thesis .
qed

lemma isdigit_chars: "isdigit c \<Longrightarrow> c \<in> set flag_chars \<or> c \<in> set other_chars"
proof -
  assume "isdigit c"
  then have "uint c \<in> {48..57}" by (simp add: isdigit_iff)
  also have "{48..57 :: int} = {48, 49, 50, 51, 52, 53, 54, 55, 56, 57}" by (auto; arith)
  finally have "word_of_int (uint c) \<in> (word_of_int ` {48, 49, 50, 51, 52, 53, 54, 55, 56, 57} :: u8 set)" by (rule imageI)
  then show ?thesis by (auto simp: flag_chars_def other_chars_def)
qed

lemma str_at_append: "str_at m a (xs @ ys) \<Longrightarrow> str_at m (a + of_nat (length xs)) ys"
proof (induction xs arbitrary: a)
  case (Cons x xs)
  then have "str_at m (a + 1 + of_nat (length xs)) ys" by simp
  then show ?case by (simp add: add.assoc)
qed simp

lemma str_at_hd: "str_at m a xs \<Longrightarrow> xs \<noteq> [] \<Longrightarrow> m a = hd xs"
  by (cases xs) auto

lemma scan_flags_spec:
  assumes "set fl \<subseteq> set flag_chars" "str_at m (p + 1) (fl @ rest)" "rest \<noteq> []" "hd rest \<notin> set flag_chars"
  shows "scan_flags p f m = Some (p + 1 + of_nat (length fl), foldl (\<lambda>f x. f OR flag_bit x) f fl)"
  using assms
proof (induction fl arbitrary: p f)
  case Nil
  then have "m (p + 1) \<notin> set flag_chars" using str_at_hd [of m "p + 1" rest] by simp
  then show ?case by (subst scan_flags.simps) (simp add: flag_chars_def Let_def)
next
  case (Cons c fl)
  have c: "m (p + 1) = c" "c \<in> set flag_chars" and IH:
    "scan_flags (p + 1) g m = Some (p + 1 + 1 + of_nat (length fl), foldl (\<lambda>f x. f OR flag_bit x) g fl)" for g
    using Cons by simp_all
  have "scan_flags p f m = scan_flags (p + 1) (f OR flag_bit c) m"
    using c by (subst scan_flags.simps) (auto simp: flag_chars_def flag_bit_def Let_def)
  then show ?case using IH by (simp add: add.assoc)
qed

lemma skip_atoi_spec:
  assumes "\<forall>c \<in> set ds. isdigit c" "str_at m p (ds @ rest)" "\<not> isdigit (m (p + of_nat (length ds)))"
  shows "skip_atoi p i m = Some (p + of_nat (length ds), foldl (\<lambda>i d. to_int (i * 10 + uint d - 48)) i ds)"
  using assms
proof (induction ds arbitrary: p i)
  case Nil
  then show ?case by (subst skip_atoi.simps) simp
next
  case (Cons d ds)
  have "m (p + 1 + of_nat (length ds)) = m (p + of_nat (length (d # ds)))" by (simp add: add.assoc)
  then have IH: "skip_atoi (p + 1) j m = Some (p + 1 + of_nat (length ds), foldl (\<lambda>i d. to_int (i * 10 + uint d - 48)) j ds)" for j
    using Cons by simp
  have "skip_atoi p i m = skip_atoi (p + 1) (to_int (i * 10 + uint d - 48)) m"
    using Cons.prems by (subst skip_atoi.simps) simp
  then show ?case using IH by (simp add: add.assoc)
qed

lemma uint_digit: "d < 10 \<Longrightarrow> uint (of_nat (48 + d) :: u8) = 48 + int d"
proof -
  assume "d < 10"
  then have "unat (of_nat (48 + d) :: u8) = 48 + d" by (subst unat_of_nat) simp
  then show ?thesis unfolding uint_nat by simp
qed

lemma decimal_digits: "\<forall>c \<in> set (decimal n). isdigit c"
proof (induction n rule: decimal.induct)
  case (1 n)
  have d: "isdigit (of_nat (48 + d))" if "d < 10" for d
    using that unfolding isdigit_iff uint_digit [OF that] by simp
  show ?case
  proof (cases "n < 10")
    case True
    then show ?thesis using d [of n] by (simp add: decimal.simps)
  next
    case False
    have "isdigit (of_nat (48 + n mod 10))" by (rule d) simp
    then show ?thesis using 1 False by (simp add: decimal.simps [of n])
  qed
qed

lemma decimal_value: "n < 2 ^ 31 \<Longrightarrow> foldl (\<lambda>i d. to_int (i * 10 + uint d - 48)) 0 (decimal n) = int n"
proof (induction n rule: decimal.induct)
  case (1 n)
  have s: "to_int (int n) = int n" using 1(2) by (simp add: to_int_def signed_take_bit_int_eq_self)
  show ?case
  proof (cases "n < 10")
    case True
    then show ?thesis using s by (simp only: decimal.simps [of n] if_True foldl_Cons foldl_Nil uint_digit) simp
  next
    case False
    have "foldl (\<lambda>i d. to_int (i * 10 + uint d - 48)) 0 (decimal (n div 10)) = int (n div 10)"
      using 1 False by simp
    moreover have "int (n div 10) * 10 + (48 + int (n mod 10)) - 48 = int n"
      unfolding of_nat_div of_nat_mod by simp
    moreover have "uint (of_nat (48 + n mod 10) :: u8) = 48 + int (n mod 10)" by (rule uint_digit) simp
    ultimately show ?thesis using False s
      by (simp only: decimal.simps [of n] if_False foldl_append foldl_Cons foldl_Nil)
  qed
qed

lemma decimal_nonempty: "decimal n \<noteq> []"
  by (subst decimal.simps) simp

lemma decimal_first: "0 < n \<Longrightarrow> hd (decimal n) \<notin> set flag_chars \<and> isdigit (hd (decimal n))"
proof (induction n rule: decimal.induct)
  case (1 n)
  show ?case
  proof (cases "n < 10")
    case True
    then have "n \<in> {1, 2, 3, 4, 5, 6, 7, 8, 9}" using 1(2) by auto
    then show ?thesis using decimal_digits [of n] by (auto simp: decimal.simps [of n] flag_chars_def)
  next
    case False
    then show ?thesis using 1 by (subst (1 2) decimal.simps) (simp add: hd_append decimal_nonempty)
  qed
qed

text \<open>What follows a field does not continue it.\<close>

lemma conv_char: "c \<notin> set flag_chars \<Longrightarrow> c \<notin> set other_chars \<Longrightarrow> \<not> isdigit c \<and> c \<noteq> ch CHR ''*'' \<and> c \<noteq> ch CHR ''.'' \<and>
    c \<noteq> ch CHR ''h'' \<and> c \<noteq> ch CHR ''l''"
  using isdigit_chars [of c] by (auto simp: other_chars_def)

lemma mark_chars:
  "\<not> isdigit (ch CHR ''*'') \<and> \<not> isdigit (ch CHR ''.'') \<and> \<not> isdigit (ch CHR ''h'') \<and> \<not> isdigit (ch CHR ''l'')"
  "{ch CHR ''*'', ch CHR ''.'', ch CHR ''h'', ch CHR ''l''} \<inter> set flag_chars = {}"
  by (simp_all add: isdigit_iff flag_chars_def)

lemma scan_width_spec:
  assumes "str_at m a (field_text w @ rest)" "rest \<noteq> []" "\<not> isdigit (hd rest)" "hd rest \<noteq> ch CHR ''*''"
    "\<And>n. w = Number n \<Longrightarrow> n < 2 ^ 31" "width_of w flags args = Some (width, flags', args')"
  shows "scan_width a flags args m = Some (a + of_nat (length (field_text w)), width, flags', args')"
proof (cases w)
  case Default
  then have "m a = hd rest" using assms(1,2) str_at_hd by simp
  then show ?thesis using assms Default by (simp add: scan_width_def)
next
  case (Number n)
  have d: "m a = hd (decimal n)" using str_at_hd [OF assms(1)] by (simp add: Number decimal_nonempty)
  then have "isdigit (m a)" using decimal_digits [of n] decimal_nonempty [of n] by simp
  moreover have "m (a + of_nat (length (decimal n))) = hd rest"
    using str_at_hd [OF str_at_append [OF assms(1)] assms(2)] by (simp add: Number)
  then have "skip_atoi a 0 m = Some (a + of_nat (length (decimal n)), int n)"
    using skip_atoi_spec [OF decimal_digits, of m a n rest 0] decimal_value [of n] assms(1,3,5) Number by simp
  ultimately show ?thesis using assms(6) by (simp add: scan_width_def Number)
next
  case Star
  then show ?thesis using assms mark_chars by (cases args) (auto simp: scan_width_def)
qed

definition precision_text :: "field option \<Rightarrow> u8 list" where
  "precision_text p = (case p of None \<Rightarrow> [] | Some f \<Rightarrow> ch CHR ''.'' # field_text f)"

lemma scan_precision_spec:
  assumes "str_at m a (precision_text p @ rest)" "rest \<noteq> []" "\<not> isdigit (hd rest)" "hd rest \<noteq> ch CHR ''*''"
    "hd rest \<noteq> ch CHR ''.''" "\<And>n. p = Some (Number n) \<Longrightarrow> n < 2 ^ 31" "precision_of p args = Some (precision, args')"
  shows "scan_precision a args m = Some (a + of_nat (length (precision_text p)), precision, args')"
proof (cases p)
  case None
  then have "m a = hd rest" using assms(1,2) str_at_hd by (simp add: precision_text_def)
  then show ?thesis using assms None by (simp add: scan_precision_def precision_text_def)
next
  case (Some f)
  then have dot: "m a = ch CHR ''.''" "str_at m (a + 1) (field_text f @ rest)" using assms(1) by (simp_all add: precision_text_def)
  show ?thesis
  proof (cases f)
    case Default
    then have "m (a + 1) = hd rest" using str_at_hd [OF dot(2)] assms(2) by simp
    then show ?thesis using assms Default Some dot by (simp add: scan_precision_def precision_text_def)
  next
    case (Number n)
    then have d: "m (a + 1) = hd (decimal n)" using str_at_hd [OF dot(2)] by (simp add: decimal_nonempty)
    then have "isdigit (m (a + 1))" using decimal_digits [of n] decimal_nonempty [of n] by simp
    moreover have "m (a + 1 + of_nat (length (decimal n))) = hd rest"
      using str_at_hd [OF str_at_append [OF dot(2)] assms(2)] by (simp add: Number)
    then have "skip_atoi (a + 1) 0 m = Some (a + 1 + of_nat (length (decimal n)), int n)"
      using skip_atoi_spec [OF decimal_digits, of m "a + 1" n rest 0] decimal_value [of n] assms(3,6) Number Some dot(2) by simp
    ultimately show ?thesis using assms(7) dot(1) by (simp add: scan_precision_def precision_text_def Number Some add.assoc)
  next
    case Star
    then show ?thesis using assms dot mark_chars Some
      by (cases args) (auto simp: scan_precision_def precision_text_def max_def)
  qed
qed

lemma scan_qualifier_spec:
  assumes "q = [] \<or> q = [ch CHR ''h''] \<or> q = [ch CHR ''l'']" "c \<noteq> ch CHR ''h''" "c \<noteq> ch CHR ''l''"
    "str_at m a (q @ c # rest)"
  shows "scan_qualifier a m = (a + of_nat (length q), if q = [] then 0 else hd q)"
  using assms by (auto simp: scan_qualifier_def)

subsection \<open>One conversion\<close>

definition strings_ok :: "(u32 \<Rightarrow> u8 list option) \<Rightarrow> u32 \<Rightarrow> nat \<Rightarrow> memory \<Rightarrow> bool" where
  "strings_ok S b z m \<longleftrightarrow>
     (\<forall>a xs. S a = Some xs \<longrightarrow> str_at m a xs \<and> outside b z a (length xs) \<and> length xs < 2 ^ 31)"

lemma convert_arg:
  assumes B: "buffer b z e" and P: "prints b z m k t out" and S: "strings_ok S b z m"
    and c: "snd out fmt = c" "c \<in> set arg_chars" and x: "arg_text S c q flags width precision a = Some xs"
    and n: "unat b + length t + length xs + k + 1 < 2 ^ 32"
  shows "\<exists>out'. convert e fmt flags width precision q (a # as) out = Some (fmt, as, out') \<and> prints b z m (k + 1) (t @ xs) out'"
proof -
  have num: "prints b z m (k + 1) (t @ number_text v base w precision type) (print_number e v base w precision type out)"
    if "number_text v base w precision type = xs" for v base w type
    using print_number_prints [OF B P] n that by blast
  have put: "prints b z m (k + 1) (t @ xs) (put_list e xs out)"
    using put_list_prints [OF B P, of xs] n prints_mono by fastforce
  consider "c = ch CHR ''c''" | "c = ch CHR ''s''" | "c = ch CHR ''p''" | "c = ch CHR ''o''" | "c = ch CHR ''X''"
    | "c = ch CHR ''x''" | "c = ch CHR ''d'' \<or> c = ch CHR ''i''" | "c = ch CHR ''u''"
    using c(2) by (auto simp: arg_chars_def)
  then show ?thesis
  proof cases
    case 1
    then show ?thesis using c x put by (simp add: convert_def arg_text_def print_char_list)
  next
    case 2
    then obtain ys where y: "(if a = 0 then Some null_text else S a) = Some ys" "xs = padded flags width (cut_to precision ys)"
      using x by (auto simp: arg_text_def cut_to_def)
    have "print_string e flags width precision a out = Some (put_list e (padded flags width (cut_to precision ys)) out)"
      by (rule print_string_list [OF B P]) (use y n S in \<open>auto simp: strings_ok_def split: if_splits\<close>)
    then show ?thesis using 2 c put by (simp add: convert_def y(2))
  next
    case 3
    then show ?thesis using c x num by (auto simp: convert_def arg_text_def)
  next
    case 4
    then show ?thesis using c x num by (auto simp: convert_def arg_text_def)
  next
    case 5
    then show ?thesis using c x num by (auto simp: convert_def arg_text_def)
  next
    case 6
    then show ?thesis using c x num by (auto simp: convert_def arg_text_def)
  next
    case 7
    then show ?thesis using c x num by (elim disjE) (simp_all add: convert_def arg_text_def)
  next
    case 8
    then show ?thesis using c x num by (auto simp: convert_def arg_text_def)
  qed
qed

lemma convert_plain:
  assumes "snd out fmt = c" "c \<notin> set arg_chars" "c \<noteq> 0"
  shows "convert e fmt flags width precision q args out =
    Some (fmt, args, put_list e (if c = ch CHR ''%'' then [c] else [ch CHR ''%'', c]) out)"
  using assms by (simp add: convert_def arg_chars_def Let_def)

lemma directive_prints:
  assumes B: "buffer b z e" and P: "prints b z m k t out" and S: "strings_ok S b z m"
    and ok: "piece_ok (Conv fl w p q c)" and f: "str_at m fmt (piece_text (Conv fl w p q c) @ rest)"
    and o: "outside b z fmt (length (piece_text (Conv fl w p q c) @ rest))"
    and x: "piece_out S (Conv fl w p q c) args = Some (xs, as)"
    and n: "unat b + length t + length xs + k + 1 < 2 ^ 32"
  shows "\<exists>out'. directive e fmt args out = Some (fmt + of_nat (length (piece_text (Conv fl w p q c))) - 1, as, out') \<and>
    prints b z m (k + 1) (t @ xs) out'"
proof -
  let ?m = "snd out"
  have f': "str_at ?m fmt (piece_text (Conv fl w p q c) @ rest)" by (rule prints_str [OF P f o])
  let ?r3 = "c # rest" and ?r2 = "q @ c # rest" and ?r1 = "precision_text p @ q @ c # rest"
  have f0: "str_at ?m (fmt + 1) (fl @ field_text w @ ?r1)" using f' by (simp add: precision_text_def)
  define p1 where "p1 = fmt + 1 + of_nat (length fl)"
  define p2 where "p2 = p1 + of_nat (length (field_text w))"
  define p3 where "p3 = p2 + of_nat (length (precision_text p))"
  define p4 where "p4 = p3 + of_nat (length q)"
  have f1: "str_at ?m p1 (field_text w @ ?r1)" using str_at_append [OF f0] by (simp add: p1_def)
  have f2: "str_at ?m p2 ?r1" using str_at_append [OF f1] by (simp add: p2_def)
  have f3: "str_at ?m p3 ?r2" using str_at_append [OF f2] by (simp add: p3_def)
  have f4: "str_at ?m p4 ?r3" using str_at_append [OF f3] by (simp add: p4_def)
  have c: "c \<noteq> 0" "c \<notin> set flag_chars" "c \<notin> set other_chars" using ok by simp_all
  note cc = conv_char [OF c(2,3)]
  have q: "q = [] \<or> q = [ch CHR ''h''] \<or> q = [ch CHR ''l'']" using ok by simp
  have h2: "hd ?r2 \<notin> set flag_chars \<and> \<not> isdigit (hd ?r2) \<and> hd ?r2 \<noteq> ch CHR ''*'' \<and> hd ?r2 \<noteq> ch CHR ''.''"
    using q cc c mark_chars by auto
  have h1: "hd ?r1 \<notin> set flag_chars \<and> \<not> isdigit (hd ?r1) \<and> hd ?r1 \<noteq> ch CHR ''*''"
    using h2 mark_chars by (cases p) (auto simp: precision_text_def)
  have h0: "hd (field_text w @ ?r1) \<notin> set flag_chars"
  proof (cases w)
    case (Number n)
    then show ?thesis using ok decimal_first [of n] by (simp add: decimal_nonempty)
  qed (use h1 mark_chars in auto)
  obtain width flags args1 precision args2 where W: "width_of w (foldl (\<lambda>f x. f OR flag_bit x) 0 fl) args = Some (width, flags, args1)"
    and R: "precision_of p args1 = Some (precision, args2)"
    using x by (auto simp: bind_eq_Some_conv)
  let ?q = "if q = [] then 0 else hd q"
  have "directive e fmt args out = convert e p4 flags width precision ?q args2 out"
  proof -
    have 1: "scan_flags fmt 0 ?m = Some (p1, foldl (\<lambda>f x. f OR flag_bit x) 0 fl)"
      unfolding p1_def by (rule scan_flags_spec [OF _ f0 _ h0]) (use ok in simp_all)
    have 2: "scan_width p1 (foldl (\<lambda>f x. f OR flag_bit x) 0 fl) args ?m = Some (p2, width, flags, args1)"
      unfolding p2_def by (rule scan_width_spec [OF f1 _ _ _ _ W]) (use ok h1 in auto)
    have 3: "scan_precision p2 args1 ?m = Some (p3, precision, args2)"
      unfolding p3_def by (rule scan_precision_spec [OF f2 _ _ _ _ _ R]) (use ok h2 in auto)
    have 4: "scan_qualifier p3 ?m = (p4, ?q)"
      unfolding p4_def by (rule scan_qualifier_spec [OF q _ _ f3]) (use cc in simp_all)
    show ?thesis by (simp add: directive_def 1 2 3 4)
  qed
  moreover have "\<exists>out'. convert e p4 flags width precision ?q args2 out = Some (p4, as, out') \<and> prints b z m (k + 1) (t @ xs) out'"
  proof (cases "c \<in> set arg_chars")
    case True
    then obtain a where a: "args2 = a # as" "arg_text S c ?q flags width precision a = Some xs"
      using x by (auto simp: W R split: list.splits)
    show ?thesis unfolding a(1) by (rule convert_arg [OF B P S _ True a(2) n]) (use f4 in simp)
  next
    case False
    have "xs = (if c = ch CHR ''%'' then [c] else [ch CHR ''%'', c])" "as = args2"
      using x False by (auto simp: W R)
    moreover have "prints b z m (k + 1) (t @ xs) (put_list e xs out)"
      using put_list_prints [OF B P, of xs] n prints_mono by fastforce
    moreover have "?m p4 = c" using f4 by simp
    ultimately show ?thesis using convert_plain [of out p4 c] False c(1) by simp
  qed
  moreover have "p4 = fmt + of_nat (length (piece_text (Conv fl w p q c))) - 1"
    by (simp add: p4_def p3_def p2_def p1_def precision_text_def)
  ultimately show ?thesis by simp
qed

subsection \<open>The whole format\<close>

abbreviation format_text :: "piece list \<Rightarrow> u8 list" where
  "format_text ds \<equiv> concat (map piece_text ds)"

lemma outside_tail: "outside b z a (length (xs @ ys)) \<Longrightarrow> outside b z (a + of_nat (length xs)) (length ys)"
  unfolding outside_def
proof (intro allI impI)
  fix i assume o: "\<forall>i\<le>length (xs @ ys). z \<le> unat (a + of_nat i - b)" and i: "i \<le> length ys"
  have "z \<le> unat (a + of_nat (length xs + i) - b)" using o i by (simp del: of_nat_add)
  then show "z \<le> unat (a + of_nat (length xs) + of_nat i - b)" by (simp add: add.assoc)
qed

lemma vsn_loop_prints:
  assumes B: "buffer b z e" and S: "strings_ok S b z m"
  shows "prints b z m k t out \<Longrightarrow> \<forall>d \<in> set ds. piece_ok d \<Longrightarrow> str_at m fmt (format_text ds) \<Longrightarrow>
    outside b z fmt (length (format_text ds)) \<Longrightarrow> format_out S ds args = Some xs \<Longrightarrow>
    unat b + length t + length xs + k + length ds < 2 ^ 32 \<Longrightarrow>
    \<exists>out'. vsn_loop e fmt args out = Some out' \<and> prints b z m (k + length ds) (t @ xs) out'"
proof (induction ds arbitrary: k t out fmt args xs)
  case Nil
  have "snd out fmt = 0" using prints_str [OF Nil.prems(1), of fmt "[]"] Nil.prems by simp
  then show ?case using Nil.prems by (subst vsn_loop.simps) simp
next
  case (Cons d ds)
  obtain ys as zs where Y: "piece_out S d args = Some (ys, as)" "format_out S ds as = Some zs" "xs = ys @ zs"
    using Cons.prems(5) by (auto simp: bind_eq_Some_conv)
  let ?n = "of_nat (length (piece_text d)) :: u32"
  have mem: "str_at m (fmt + ?n) (format_text ds)" "outside b z (fmt + ?n) (length (format_text ds))"
    using str_at_append [of m fmt "piece_text d"] outside_tail [of b z fmt "piece_text d"] Cons.prems(3,4) by simp_all
  have step: "\<exists>out'. vsn_loop e fmt args out = vsn_loop e (fmt + ?n) as out' \<and> prints b z m (k + 1) (t @ ys) out'"
  proof (cases d)
    case (Chr c)
    have "str_at (snd out) fmt (c # format_text ds)" using prints_str [OF Cons.prems(1,3,4)] Chr by simp
    then have "vsn_loop e fmt args out = vsn_loop e (fmt + 1) args (put e c out)"
      using Cons.prems(2) Chr by (subst vsn_loop.simps) auto
    moreover have "prints b z m (k + 1) (t @ [c]) (put e c out)"
      by (rule prints_mono [OF put_prints [OF B Cons.prems(1)]]) (use Cons.prems(6) Y(3) in simp_all)
    ultimately show ?thesis using Y(1) Chr by (intro exI [of _ "put e c out"]) auto
  next
    case (Conv fl w p q c)
    obtain out' where D: "directive e fmt args out = Some (fmt + ?n - 1, as, out')" "prints b z m (k + 1) (t @ ys) out'"
      using directive_prints [OF B Cons.prems(1) S, of fl w p q c fmt "format_text ds" args ys as] Cons.prems Y
      by (auto simp: Conv)
    have "str_at (snd out) fmt (format_text (d # ds))" by (rule prints_str [OF Cons.prems(1,3,4)])
    then have "snd out fmt = ch CHR ''%''" using Conv by simp
    then have "vsn_loop e fmt args out = do { (f, as, out1) \<leftarrow> directive e fmt args out; vsn_loop e (f + 1) as out1 }"
      by (subst vsn_loop.simps) simp
    then show ?thesis using D by (intro exI [of _ out']) simp
  qed
  then obtain out' where o: "vsn_loop e fmt args out = vsn_loop e (fmt + ?n) as out'" "prints b z m (k + 1) (t @ ys) out'"
    by blast
  have "\<exists>out''. vsn_loop e (fmt + ?n) as out' = Some out'' \<and> prints b z m (k + 1 + length ds) ((t @ ys) @ zs) out''"
    by (rule Cons.IH [OF o(2) _ mem Y(2)]) (use Cons.prems Y(3) in simp_all)
  then show ?case using o(1) Y(3) by simp
qed

text \<open>The buffer afterwards: what fits of the text, and a zero.\<close>

definition printed :: "u32 \<Rightarrow> nat \<Rightarrow> u8 list \<Rightarrow> memory \<Rightarrow> memory" where
  "printed b z t m =
     (\<lambda>x. let i = unat (x - b); l = min (length t) (z - 1) in if i < l then t ! i else if i = l then 0 else m x)"

lemma prints_end:
  assumes B: "buffer b z e" and P: "prints b z m k t (str, m1)" and n: "unat b + length t + k < 2 ^ 32"
  shows "(if str \<le> e then m1(str := 0) else m1(e := 0)) = printed b z t m"
    "length t + k < 2 ^ 31 \<Longrightarrow> int (length t) \<le> sint (str - b) \<and> (length t < z \<longrightarrow> sint (str - b) = int (length t))"
proof -
  obtain n where N: "str = b + of_nat n" "length t \<le> n" "n \<le> length t + k" "n = length t \<or> z \<le> length t"
    and M: "m1 = (\<lambda>x. if unat (x - b) < min (length t) z then t ! unat (x - b) else m x)"
    using P by (auto simp: prints_def)
  have z: "0 < z" "unat b + z \<le> 2 ^ 32" and e: "e = b + of_nat (z - 1)" using B by (simp_all add: buffer_def of_nat_diff)
  have at: "x = b + of_nat i \<longleftrightarrow> unat (x - b) = i" if "i < 2 ^ 32" for x i
  proof -
    have "x = b + of_nat i \<longleftrightarrow> x - b = of_nat i" by (simp add: diff_eq_eq add.commute)
    then show ?thesis using unat_of_nat32 [OF that] word_unat_eq_iff by metis
  qed
  have le: "str \<le> e \<longleftrightarrow> n < z" unfolding N(1) by (rule end_iff [OF B]) (use N n in simp)
  let ?p = "if n < z then n else z - 1"
  have l: "min (length t) (z - 1) = ?p" using N(2,4) z(1) by (auto simp: min_def)
  have "?p < 2 ^ 32" using N n z by auto
  note a = at [OF this]
  have "(if str \<le> e then m1(str := 0) else m1(e := 0)) = m1(b + of_nat ?p := 0)"
    unfolding le by (simp only: N(1) e split: if_split) simp
  also have "\<dots> = printed b z t m"
  proof
    fix x
    have "(m1(b + of_nat ?p := 0)) x = (if unat (x - b) = ?p then 0 else m1 x)" using a [of x] by simp
    also have "\<dots> = printed b z t m x"
      unfolding printed_def Let_def l M using N(2,4) z(1) by auto
    finally show "(m1(b + of_nat ?p := 0)) x = printed b z t m x" .
  qed
  finally show "(if str \<le> e then m1(str := 0) else m1(e := 0)) = printed b z t m" .
  show "length t + k < 2 ^ 31 \<Longrightarrow> int (length t) \<le> sint (str - b) \<and> (length t < z \<longrightarrow> sint (str - b) = int (length t))"
  proof -
    assume "length t + k < 2 ^ 31"
    then have "n < 2 ^ 31" using N by simp
    then have "sint (of_nat n :: u32) = int n" by (simp add: sint_uint uint_nat unat_of_nat signed_take_bit_int_eq_self)
    then have "sint (str - b) = int n" by (simp add: N(1))
    then show ?thesis using N by auto
  qed
qed

lemma rt_vsnprintf_text:
  assumes B: "buffer b z (if b + sz - 1 < b then - 1 else b + sz - 1)" and S: "strings_ok S b z m"
    and ds: "\<forall>d \<in> set ds. piece_ok d" and f: "str_at m fmt (format_text ds)" "outside b z fmt (length (format_text ds))"
    and t: "format_out S ds args = Some t" and n: "unat b + length t + length ds < 2 ^ 32" "length t + length ds < 2 ^ 31"
  shows "\<exists>r. rt_vsnprintf b sz fmt args m = Some (r, printed b z t m) \<and> int (length t) \<le> r \<and>
    (length t < z \<longrightarrow> r = int (length t))"
proof -
  have "prints b z m 0 [] (b, m)" by (simp add: prints_def)
  from vsn_loop_prints [OF B S this ds f t] obtain str m1 where L:
    "vsn_loop (if b + sz - 1 < b then - 1 else b + sz - 1) fmt args (b, m) = Some (str, m1)"
    "prints b z m (length ds) t (str, m1)"
    using n by fastforce
  note E = prints_end [OF B L(2) n(1)]
  show ?thesis using E(2) [OF n(2)] unfolding rt_vsnprintf_def Let_def L(1) by (simp add: E(1) [symmetric])
qed

lemma buffer_end:
  assumes "sz \<noteq> 0" "unat b + unat sz \<le> 2 ^ 32"
  shows "buffer b (unat sz) (if b + sz - 1 < b then - 1 else b + sz - 1)"
proof -
  have s: "0 < unat sz" using assms(1) by (simp add: unat_gt_0)
  have e: "b + sz - 1 = b + of_nat (unat sz - 1)" using s by (simp add: of_nat_diff)
  have "unat (b + of_nat (unat sz - 1)) = unat b + (unat sz - 1)"
    using assms(2) s by (subst unat_add_small) (simp_all add: unat_of_nat32)
  then have "\<not> b + sz - 1 < b" unfolding e by (simp add: word_less_nat_alt)
  then show ?thesis using assms(2) s by (simp add: buffer_def)
qed

text \<open>A memory with texts in it.\<close>

definition text_mem :: "(u32 \<times> string) list \<Rightarrow> memory" where
  "text_mem ts = foldr (\<lambda>(a, s) m x. if unat (x - a) < length s then of_char (s ! unat (x - a)) else m x) ts (\<lambda>_. 0)"

subsection \<open>Numbers that are printed and read back\<close>

lemma small_digit: "d < 10 \<Longrightarrow> small_digits ! d = of_nat (48 + d)"
proof -
  assume "d < 10"
  then have "d \<in> {0, 1, 2, 3, 4, 5, 6, 7, 8, 9}" by auto
  then show ?thesis by (auto simp: small_digits_def)
qed

lemma tmp_digits_decimal: "n \<noteq> 0 \<Longrightarrow> rev (tmp_digits small_digits 10 n) = decimal (unat n)"
proof (induction n rule: measure_induct_rule [of unat])
  case (less n)
  have d: "divide n 10 = (unat n mod 10, n div 10)" "unat (n div 10) = unat n div 10"
    by (simp_all add: divide_def unat_mod unat_div)
  have s: "small_digits ! (unat n mod 10) = of_nat (48 + unat n mod 10)" by (rule small_digit) simp
  have n0: "0 < unat n" using less.prems by (simp add: unat_gt_0)
  have E: "tmp_digits small_digits 10 n = of_nat (48 + unat n mod 10) # tmp_digits small_digits 10 (n div 10)"
    using less.prems by (subst tmp_digits.simps) (simp only: d fst_conv snd_conv s not_False_eq_True if_True)
  show ?case
  proof (cases "unat n < 10")
    case True
    then have "n div 10 = 0" using d(2) by (simp add: unat_eq_0 [symmetric] del: unat_eq_0)
    then have "tmp_digits small_digits 10 (n div 10) = []" by (simp add: tmp_digits.simps)
    then show ?thesis using True unfolding E by (simp add: decimal.simps [of "unat n"])
  next
    case False
    then have "n div 10 \<noteq> 0" using d(2) by (metis div_greater_zero_iff not_less unat_0 less_irrefl zero_less_numeral)
    then have "rev (tmp_digits small_digits 10 (n div 10)) = decimal (unat n div 10)"
      using less.IH [of "n div 10"] n0 d(2) by simp
    then show ?thesis using False unfolding E by (simp add: decimal.simps [of "unat n"])
  qed
qed

lemma digits_text_decimal: "type AND LARGE = 0 \<Longrightarrow> digits_text n 10 type = decimal (unat n)"
  using tmp_digits_decimal [of n] by (auto simp: digits_text_def decimal.simps)

lemma length_decimal: "n < 10 ^ k \<Longrightarrow> 0 < k \<Longrightarrow> length (decimal n) \<le> k"
proof (induction n arbitrary: k rule: decimal.induct)
  case (1 n)
  show ?case
  proof (cases "n < 10")
    case False
    then obtain j where k: "k = Suc j" "0 < j" using 1(2,3) by (cases k; cases "k - 1") auto
    have "n div 10 < 10 ^ j" using 1(2) k(1) by (simp add: less_mult_imp_div_less mult.commute)
    then show ?thesis using 1(1) [OF False _ k(2)] False k(1) by (simp add: decimal.simps [of n])
  qed (use 1 in \<open>simp add: decimal.simps [of n]\<close>)
qed

lemma str_atI:
  "(\<And>i. i < length xs \<Longrightarrow> m (a + of_nat i) = xs ! i) \<Longrightarrow> 0 \<notin> set xs \<Longrightarrow> m (a + of_nat (length xs)) = 0 \<Longrightarrow> str_at m a xs"
proof (induction xs arbitrary: a)
  case (Cons x xs)
  have "str_at m (a + 1) xs"
  proof (rule Cons.IH)
    show "m (a + 1 + of_nat i) = xs ! i" if "i < length xs" for i
      using Cons.prems(1) [of "Suc i"] that by (simp add: add.assoc)
  qed (use Cons.prems in \<open>simp_all add: add.assoc\<close>)
  then show ?case using Cons.prems(1) [of 0] Cons.prems(2) by simp
qed simp

lemma str_at_printed:
  assumes "0 \<notin> set t" "length t < z" "z \<le> 2 ^ 32"
  shows "str_at (printed b z t m) b t"
  using assms by (intro str_atI) (simp_all add: printed_def unat_of_nat32 Let_def del: of_nat_add)

lemma outside_2: "outside b z a 2 \<longleftrightarrow> z \<le> unat (a - b) \<and> z \<le> unat (a + 1 - b) \<and> z \<le> unat (a + 1 + 1 - b)"
  by (simp add: numeral_2_eq_2 outside_Suc outside_0)

lemma sint_nonneg: "0 \<le> sint v \<Longrightarrow> sint v = int (unat v) \<and> unat v < 2 ^ 31" for v :: u32
proof -
  assume p: "0 \<le> sint v"
  have b: "sint v < 2 ^ 31" using sint_lt [of v] by simp
  have "uint v = uint (word_of_int (sint v) :: u32)" by simp
  also have "\<dots> = sint v mod 2 ^ 32" by (subst uint_word_of_int) simp
  also have "\<dots> = sint v" using p b by (intro mod_pos_pos_trivial) simp_all
  finally have "int (unat v) = sint v" by simp
  moreover from this have "int (unat v) < int (2 ^ 31)" using b by simp
  ultimately show ?thesis by (metis of_nat_less_iff)
qed

lemma number_text_plain:
  "0 \<le> sint v \<Longrightarrow> type = 0 \<or> type = SIGN \<Longrightarrow> number_text v 10 (- 1) (- 1) type = decimal (unat v)"
  by (auto simp: number_text_def number_sign_def digits_text_decimal spaces_def Let_def)

text \<open>
  C34.  A number that is not negative, printed by \<^verbatim>\<open>%d\<close>, \<^verbatim>\<open>%i\<close> or \<^verbatim>\<open>%u\<close>, is read back by \<^verbatim>\<open>skip_atoi\<close>,
  which stops at the end of the text.
\<close>

theorem print_then_atoi:
  assumes "0 \<le> sint v" "c \<in> {ch CHR ''d'', ch CHR ''i'', ch CHR ''u''}" "11 < sz" "unat buf + unat sz \<le> 2 ^ 32"
    and fmt: "str_at m fmt [ch CHR ''%'', c]" "outside buf (unat sz) fmt 2"
  shows "\<exists>r m'. rt_snprintf buf sz fmt [v] m = Some (r, m') \<and> skip_atoi buf 0 m' = Some (buf + of_int r, sint v)"
proof -
  let ?t = "decimal (unat v)" and ?ds = "[Conv [] Default None [] c]"
  note v = sint_nonneg [OF assms(1)]
  have l: "length ?t \<le> 10" by (rule length_decimal) (use v in simp_all)
  have z: "11 < unat sz" using assms(3) by (simp add: word_less_nat_alt)
  then have t: "length ?t < unat sz" using l by simp
  have o: "format_out Map.empty ?ds [v] = Some ?t"
  proof -
    have n: "number_text v 10 (- 1) (- 1) 0 = ?t" "number_text v 10 (- 1) (- 1) SIGN = ?t"
      by (simp_all add: number_text_plain [OF assms(1)])
    consider "c = ch CHR ''d''" | "c = ch CHR ''i''" | "c = ch CHR ''u''" using assms(2) by blast
    then show ?thesis by cases (simp_all add: arg_chars_def arg_text_def int_arg_def n)
  qed
  have "\<exists>r. rt_snprintf buf sz fmt [v] m = Some (r, printed buf (unat sz) ?t m) \<and> int (length ?t) \<le> r \<and>
      (length ?t < unat sz \<longrightarrow> r = int (length ?t))"
  proof (rule rt_vsnprintf_text [OF buffer_end [OF _ assms(4)] _ _ _ _ o, folded rt_snprintf_def])
    show "\<forall>d\<in>set ?ds. piece_ok d" using assms(2) by (auto simp: flag_chars_def other_chars_def)
    show "str_at m fmt (format_text ?ds)" using fmt(1) by simp
    show "outside buf (unat sz) fmt (length (format_text ?ds))" using fmt(2) by (simp add: outside_2 outside_Suc outside_0)
    show "unat buf + length ?t + length ?ds < 2 ^ 32" "length ?t + length ?ds < 2 ^ 31" using z l assms(4) by simp_all
  qed (use z in \<open>auto simp: strings_ok_def\<close>)
  then have r: "rt_snprintf buf sz fmt [v] m = Some (int (length ?t), printed buf (unat sz) ?t m)" using t by auto
  have d: "\<forall>c \<in> set ?t. isdigit c" by (rule decimal_digits)
  have "0 \<notin> set ?t" using d isdigit_iff [of 0] by auto
  then have s: "str_at (printed buf (unat sz) ?t m) buf ?t" using t assms(4) by (intro str_at_printed) simp_all
  have "printed buf (unat sz) ?t m (buf + of_nat (length ?t)) = 0" using str_at_append [of _ buf ?t "[]"] s by simp
  then have "skip_atoi buf 0 (printed buf (unat sz) ?t m) = Some (buf + of_nat (length ?t), int (unat v))"
    using skip_atoi_spec [OF d, of _ buf "[]" 0] s decimal_value v by (simp add: isdigit_iff)
  then show ?thesis using r v by simp
qed

theorem print_then_atoi_witness:
  "\<exists>r m'. rt_snprintf 0x100 16 0x200 [1234567] (text_mem [(0x200, ''%d'')]) = Some (r, m') \<and>
     skip_atoi 0x100 0 m' = Some (0x100 + of_int r, 1234567)"
  using print_then_atoi [of 1234567 "ch CHR ''d''" 16 "0x100" "text_mem [(0x200, ''%d'')]" "0x200"]
  by (simp add: text_mem_def outside_2)

subsection \<open>Where the output is not what the format asks for\<close>

lemma tmp_digits_octal: "tmp_digits ds 8 n = tmp_digits ds 16 n"
proof (induction n rule: measure_induct_rule [of unat])
  case (less n)
  have d: "divide n 8 = divide n 16" "divide n 16 = (unat (n mod 16), n div 16)" by (simp_all add: divide_def)
  show ?case
  proof (cases "n = 0")
    case False
    then have "unat (n div 16) < unat n" by (simp add: unat_div unat_gt_0)
    then show ?thesis using less.IH [of "n div 16"] False by (simp add: tmp_digits.simps [of ds _ n] d)
  qed (simp add: tmp_digits.simps)
qed

lemma number_text_octal: "number_text v 8 w precision type = number_text v 16 w precision type"
  unfolding number_text_def digits_text_def tmp_digits_octal by (rule refl)

lemma length_hex: "unat n < 16 ^ k \<Longrightarrow> length (tmp_digits ds 16 n) \<le> k"
proof (induction k arbitrary: n)
  case 0
  then have "n = 0" by (simp add: unat_eq_zero)
  then show ?case by (simp add: tmp_digits.simps)
next
  case (Suc k)
  have "unat (n div 16) < 16 ^ k" using Suc.prems by (simp add: unat_div less_mult_imp_div_less mult.commute)
  then show ?case using Suc.IH [of "n div 16"] by (simp add: tmp_digits.simps [of ds 16 n] divide_def)
qed

lemma length_hex_text: "length (digits_text n 16 type) \<le> 8"
  using length_hex [of n 8] unsigned_less [of n] by (auto simp: digits_text_def)

lemma hex_text: "number_text v 16 (- 1) (- 1) 0 = digits_text v 16 0"
  by (simp add: number_text_def number_sign_def spaces_def Let_def)

text \<open>
  \<^verbatim>\<open>%o\<close> prints hexadecimal digits: \<^verbatim>\<open>divide\<close> takes every base but 10 for 16.
\<close>

theorem octal_prints_hex:
  assumes "15 < sz" "unat buf + unat sz \<le> 2 ^ 32"
    and "str_at m fmt [ch CHR ''%'', ch CHR ''o'']" "outside buf (unat sz) fmt 2"
  shows "rt_snprintf buf sz fmt [v] m =
    Some (int (length (digits_text v 16 0)), printed buf (unat sz) (digits_text v 16 0) m)"
proof -
  let ?t = "digits_text v 16 0" and ?ds = "[Conv [] Default None [] (ch CHR ''o'')]"
  have z: "15 < unat sz" using assms(1) by (simp add: word_less_nat_alt)
  have l: "length ?t \<le> 8" by (rule length_hex_text)
  have o: "format_out Map.empty ?ds [v] = Some ?t"
    by (simp add: arg_chars_def arg_text_def int_arg_def number_text_octal hex_text)
  have "\<exists>r. rt_snprintf buf sz fmt [v] m = Some (r, printed buf (unat sz) ?t m) \<and> int (length ?t) \<le> r \<and>
      (length ?t < unat sz \<longrightarrow> r = int (length ?t))"
  proof (rule rt_vsnprintf_text [OF buffer_end [OF _ assms(2)] _ _ _ _ o, folded rt_snprintf_def])
    show "\<forall>d\<in>set ?ds. piece_ok d" by (simp add: flag_chars_def other_chars_def)
    show "str_at m fmt (format_text ?ds)" using assms(3) by simp
    show "outside buf (unat sz) fmt (length (format_text ?ds))" using assms(4) by (simp add: outside_2 outside_Suc outside_0)
    show "unat buf + length ?t + length ?ds < 2 ^ 32" "length ?t + length ?ds < 2 ^ 31" using z l assms(2) by simp_all
  qed (use z in \<open>auto simp: strings_ok_def\<close>)
  then show ?thesis using z l by auto
qed

theorem octal_prints_hex_witness:
  "\<exists>m'. rt_snprintf 0x100 16 0x200 [8] (text_mem [(0x200, ''%o'')]) = Some (1, m') \<and> m' 0x100 = ch CHR ''8''"
proof -
  have "digits_text 8 16 0 = [ch CHR ''8'']" by (simp add: digits_text_def tmp_digits.simps divide_def small_digits_def)
  then show ?thesis
    using octal_prints_hex [of 16 "0x100" "text_mem [(0x200, ''%o'')]" "0x200" 8]
    by (simp add: text_mem_def outside_2 printed_def)
qed

text \<open>
  C35.  A size of 0 does not keep \<^verbatim>\<open>rt_snprintf\<close> from writing: the end is then the end of the address
  space, and the whole text and its zero go to memory.
\<close>

theorem rt_snprintf_size_zero:
  assumes "buf \<noteq> 0" "strings_ok S buf (2 ^ 32 - unat buf) m"
    and "\<forall>d \<in> set ds. piece_ok d" "str_at m fmt (format_text ds)" "outside buf (2 ^ 32 - unat buf) fmt (length (format_text ds))"
    and "format_out S ds args = Some t" "unat buf + length t + length ds < 2 ^ 32" "length t + length ds < 2 ^ 31"
  shows "rt_snprintf buf 0 fmt args m = Some (int (length t), printed buf (Suc (length t)) t m)"
proof -
  have u: "unat buf < 2 ^ 32" "0 < unat buf" using unsigned_less [of buf] assms(1) by (simp_all add: unat_gt_0)
  have "buf - 1 < buf" using assms(1) by (simp add: word_less_nat_alt unat_minus_one u(2))
  moreover have "buf + of_nat (2 ^ 32 - unat buf) - 1 = - 1"
  proof -
    have "(of_nat (2 ^ 32 - unat buf) :: u32) = of_nat (2 ^ 32) - buf" using u(1) by (subst of_nat_diff) simp_all
    then show ?thesis by simp
  qed
  ultimately have B: "buffer buf (2 ^ 32 - unat buf) (if buf + 0 - 1 < buf then - 1 else buf + 0 - 1)"
    using u by (simp add: buffer_def)
  have "length t < 2 ^ 32 - unat buf" using assms(7) by simp
  moreover from this have "printed buf (2 ^ 32 - unat buf) t m = printed buf (Suc (length t)) t m"
    by (simp add: printed_def min_absorb1)
  ultimately show ?thesis
    using rt_vsnprintf_text [OF B assms(2-8)] by (auto simp: rt_snprintf_def)
qed

theorem rt_snprintf_size_zero_witness:
  "\<exists>m'. rt_snprintf 0x100 0 4 [] (text_mem [(4, ''ab'')]) = Some (2, m') \<and> str_at m' 0x100 (map of_char ''ab'')"
proof -
  have "rt_snprintf 0x100 0 4 [] (text_mem [(4, ''ab'')]) =
      Some (int (length (map of_char ''ab'' :: u8 list)), printed 0x100 (Suc (length (map of_char ''ab'' :: u8 list))) (map of_char ''ab'') (text_mem [(4, ''ab'')]))"
    by (rule rt_snprintf_size_zero [of _ Map.empty _ "[Chr (ch CHR ''a''), Chr (ch CHR ''b'')]"])
      (simp_all add: strings_ok_def text_mem_def outside_Suc outside_0)
  then show ?thesis by (simp add: printed_def)
qed

end
