(* ===== verification/Print_Spec.thy ===== *)
theory Print_Spec
  imports Kservice_Print
begin

text \<open>
  What a format of \<^verbatim>\<open>rt_snprintf\<close> is meant to print, in terms of integers, digits and characters only,
  as the comments of \<^verbatim>\<open>kservice.c\<close> and the common rules of \<^verbatim>\<open>printf\<close> have it, and the proof that it is
  printed.
\<close>

subsection \<open>Integers as text\<close>

definition digit_char :: "bool \<Rightarrow> nat \<Rightarrow> u8" where
  "digit_char upper d = of_nat (if d < 10 then 48 + d else if upper then 55 + d else 87 + d)"

fun numeral_text :: "bool \<Rightarrow> nat \<Rightarrow> nat \<Rightarrow> u8 list" where
  "numeral_text upper b n =
     (if b < 2 \<or> n < b then [digit_char upper n] else numeral_text upper b (n div b) @ [digit_char upper (n mod b)])"

declare numeral_text.simps [simp del]

text \<open>The number that the lower bits of an argument stand for.\<close>

definition arg_value :: "nat \<Rightarrow> bool \<Rightarrow> u32 \<Rightarrow> int" where
  "arg_value bits sg a =
     (let u = uint a mod 2 ^ bits in if sg \<and> 2 ^ (bits - 1) \<le> u then u - 2 ^ bits else u)"

subsection \<open>Conversions\<close>

record conv_opts =
  at_left :: bool
  zero_fill :: bool
  show_plus :: bool
  show_space :: bool
  min_width :: "nat option"
  prec_given :: "nat option"

definition flag_opts :: "u8 list \<Rightarrow> conv_opts" where
  "flag_opts fl = \<lparr>at_left = ch CHR ''-'' \<in> set fl, zero_fill = ch CHR ''0'' \<in> set fl, show_plus = ch CHR ''+'' \<in> set fl,
     show_space = ch CHR '' '' \<in> set fl, min_width = None, prec_given = None\<rparr>"

definition count_of :: "nat option \<Rightarrow> nat" where
  "count_of x = (case x of None \<Rightarrow> 0 | Some n \<Rightarrow> n)"

text \<open>A text with its sign, filled up to the width.\<close>

definition justify :: "conv_opts \<Rightarrow> u8 list \<Rightarrow> u8 list \<Rightarrow> u8 list" where
  "justify opt sign body =
     (let n = count_of (min_width opt) - length (sign @ body)
      in if at_left opt then sign @ body @ replicate n (ch CHR '' '')
         else if zero_fill opt then sign @ replicate n (ch CHR ''0'') @ body
         else replicate n (ch CHR '' '') @ sign @ body)"

definition sign_text :: "conv_opts \<Rightarrow> bool \<Rightarrow> int \<Rightarrow> u8 list" where
  "sign_text opt sg v =
     (if v < 0 then [ch CHR ''-''] else if sg \<and> show_plus opt then [ch CHR ''+'']
      else if sg \<and> show_space opt then [ch CHR '' ''] else [])"

definition integer_text :: "conv_opts \<Rightarrow> bool \<Rightarrow> bool \<Rightarrow> nat \<Rightarrow> int \<Rightarrow> u8 list" where
  "integer_text opt sg upper b v =
     (let ds = numeral_text upper b (nat \<bar>v\<bar>)
      in justify opt (sign_text opt sg v) (replicate (count_of (prec_given opt) - length ds) (ch CHR ''0'') @ ds))"

text \<open>
  One conversion of an argument: \<open>half\<close> is the qualifier \<^verbatim>\<open>h\<close>, \<open>S\<close> gives the strings in memory.  The
  precision is the least number of digits of a number and the largest length of a string.
\<close>

definition conv_text :: "(u32 \<Rightarrow> u8 list option) \<Rightarrow> u8 \<Rightarrow> bool \<Rightarrow> conv_opts \<Rightarrow> u32 \<Rightarrow> u8 list option" where
  "conv_text S c half opt a =
     (let bits = (if half then 16 else 32); plain = opt\<lparr>zero_fill := False\<rparr>
      in if c = ch CHR ''c'' then Some (justify plain [] [of_int (uint a)])
         else if c = ch CHR ''s''
         then map_option (\<lambda>xs. justify plain [] (case prec_given opt of None \<Rightarrow> xs | Some n \<Rightarrow> take n xs))
                (if a = 0 then Some (map of_char ''(NULL)'') else S a)
         else if c = ch CHR ''p''
         then Some (integer_text (if min_width opt = None then opt\<lparr>min_width := Some 8, zero_fill := True\<rparr> else opt) False False 16 (uint a))
         else if c = ch CHR ''d'' \<or> c = ch CHR ''i'' then Some (integer_text opt True False 10 (arg_value bits True a))
         else if c = ch CHR ''u'' then Some (integer_text opt False False 10 (arg_value bits False a))
         else if c = ch CHR ''x'' then Some (integer_text opt False False 16 (arg_value bits False a))
         else if c = ch CHR ''X'' then Some (integer_text opt False True 16 (arg_value bits False a))
         else if c = ch CHR ''o'' then Some (integer_text opt False False 8 (arg_value bits False a))
         else None)"

text \<open>
  A width that is an argument may be negative, which is the flag \<^verbatim>\<open>-\<close> and its absolute value, but \<^verbatim>\<open>-2147483648\<close>
  has none; a precision that is an argument has to be positive.  No text is specified otherwise.
\<close>

fun width_opts :: "field \<Rightarrow> conv_opts \<Rightarrow> u32 list \<Rightarrow> (conv_opts \<times> u32 list) option" where
  "width_opts Default opt args = Some (opt, args)"
| "width_opts (Number n) opt args = Some (opt\<lparr>min_width := Some n\<rparr>, args)"
| "width_opts Star opt [] = None"
| "width_opts Star opt (a # as) =
     (let v = arg_value 32 True a
      in if v = - (2 ^ 31) then None
         else Some (opt\<lparr>min_width := Some (nat \<bar>v\<bar>), at_left := at_left opt \<or> v < 0\<rparr>, as))"

fun prec_opts :: "field option \<Rightarrow> conv_opts \<Rightarrow> u32 list \<Rightarrow> (conv_opts \<times> u32 list) option" where
  "prec_opts None opt args = Some (opt, args)"
| "prec_opts (Some Default) opt args = Some (opt\<lparr>prec_given := Some 0\<rparr>, args)"
| "prec_opts (Some (Number n)) opt args = Some (opt\<lparr>prec_given := Some n\<rparr>, args)"
| "prec_opts (Some Star) opt [] = None"
| "prec_opts (Some Star) opt (a # as) =
     (let v = arg_value 32 True a in if v \<le> 0 then None else Some (opt\<lparr>prec_given := Some (nat v)\<rparr>, as))"

text \<open>A character that is no conversion is printed behind its percent sign.\<close>

definition takes_arg :: "u8 \<Rightarrow> bool" where
  "takes_arg c \<longleftrightarrow> c \<in> of_char ` {CHR ''c'', CHR ''s'', CHR ''p'', CHR ''d'', CHR ''i'', CHR ''u'', CHR ''x'', CHR ''X'', CHR ''o''}"

fun piece_spec :: "(u32 \<Rightarrow> u8 list option) \<Rightarrow> piece \<Rightarrow> u32 list \<Rightarrow> (u8 list \<times> u32 list) option" where
  "piece_spec S (Chr c) args = Some ([c], args)"
| "piece_spec S (Conv fl w p q c) args =
     do {
       (opt1, args1) \<leftarrow> width_opts w (flag_opts fl) args;
       (opt2, args2) \<leftarrow> prec_opts p opt1 args1;
       (if takes_arg c
        then case args2 of
               [] \<Rightarrow> None
             | a # as \<Rightarrow> map_option (\<lambda>xs. (xs, as)) (conv_text S c (q = [ch CHR ''h'']) opt2 a)
        else Some (if c = ch CHR ''%'' then [c] else [ch CHR ''%'', c], args2))
     }"

fun format_spec :: "(u32 \<Rightarrow> u8 list option) \<Rightarrow> piece list \<Rightarrow> u32 list \<Rightarrow> u8 list option" where
  "format_spec S [] args = Some []"
| "format_spec S (d # ds) args =
     do { (xs, as) \<leftarrow> piece_spec S d args; ys \<leftarrow> format_spec S ds as; Some (xs @ ys) }"

text \<open>
  What the code gets right: all but \<^verbatim>\<open>%o\<close>, which prints hexadecimal digits, and a precision of 0, for
  which a number has no digits and a string is not cut.
\<close>

fun piece_right :: "piece \<Rightarrow> bool" where
  "piece_right (Chr c) \<longleftrightarrow> True"
| "piece_right (Conv fl w p q c) \<longleftrightarrow> c \<noteq> ch CHR ''o'' \<and> p \<noteq> Some Default \<and> p \<noteq> Some (Number 0)"

subsection \<open>The digits\<close>

lemma digit_chars:
  "d < 16 \<Longrightarrow> small_digits ! d = digit_char False d" "d < 16 \<Longrightarrow> large_digits ! d = digit_char True d"
proof -
  assume "d < 16"
  then have "d \<in> {0, 1, 2, 3, 4, 5, 6, 7, 8, 9, 10, 11, 12, 13, 14, 15}" by (simp; arith)
  then show "small_digits ! d = digit_char False d" "large_digits ! d = digit_char True d"
    by (auto simp: small_digits_def large_digits_def digit_char_def)
qed

lemma tmp_digits_numeral:
  assumes b: "b = 10 \<or> b = (16 :: u8)" and ds: "\<And>d. d < 16 \<Longrightarrow> ds ! d = digit_char upper d"
  shows "n \<noteq> 0 \<Longrightarrow> rev (tmp_digits ds b n) = numeral_text upper (unat b) (unat n)"
proof (induction n rule: measure_induct_rule [of unat])
  case (less n)
  let ?b = "unat b"
  have b': "?b = 10 \<or> ?b = 16" using b by auto
  define q where "q = snd (divide n b)"
  have d: "divide n b = (unat n mod ?b, q)" "unat n mod ?b < 16" and u: "unat q = unat n div ?b"
    using b by (auto simp: q_def divide_def unat_mod unat_div)
  have n0: "0 < unat n" using less.prems by (simp add: unat_gt_0)
  have q0: "q = 0 \<longleftrightarrow> unat n < ?b"
    using u b' unat_eq_zero [of q] by (auto simp: div_eq_0_iff)
  have E: "tmp_digits ds b n = digit_char upper (unat n mod ?b) # tmp_digits ds b q"
    using less.prems by (subst tmp_digits.simps) (simp only: d ds fst_conv snd_conv not_False_eq_True if_True)
  have N: "numeral_text upper ?b (unat n) =
      (if unat n < ?b then [digit_char upper (unat n)] else numeral_text upper ?b (unat n div ?b) @ [digit_char upper (unat n mod ?b)])"
    using b' by (subst numeral_text.simps) auto
  show ?case
  proof (cases "unat n < ?b")
    case True
    then show ?thesis unfolding E N by (simp add: tmp_digits.simps q0)
  next
    case False
    have lt: "unat n div ?b < unat n" using n0 b' by auto
    have "q \<noteq> 0" using False q0 by simp
    then have "rev (tmp_digits ds b q) = numeral_text upper ?b (unat n div ?b)"
      using less.IH [of q] u lt by simp
    then show ?thesis using False unfolding E N by simp
  qed
qed

lemma digits_text_numeral:
  assumes "b = 10 \<or> b = (16 :: u8)"
  shows "digits_text n b type = numeral_text (type AND LARGE \<noteq> 0) (unat b) (unat n)"
proof (cases "n = 0")
  case True
  then show ?thesis using assms by (auto simp: digits_text_def numeral_text.simps digit_char_def)
next
  case False
  then show ?thesis
    using tmp_digits_numeral [OF assms, of small_digits False n] tmp_digits_numeral [OF assms, of large_digits True n]
    by (auto simp: digits_text_def digit_chars)
qed

subsection \<open>Numbers\<close>

text \<open>How the code keeps the options: the flags as bits, \<open>- 1\<close> for what is not given.\<close>

definition opts_rel :: "conv_opts \<Rightarrow> u8 \<Rightarrow> int \<Rightarrow> int \<Rightarrow> bool" where
  "opts_rel opt flags width precision \<longleftrightarrow>
     (at_left opt \<longleftrightarrow> flags AND LEFT \<noteq> 0) \<and> (zero_fill opt \<longleftrightarrow> flags AND ZEROPAD \<noteq> 0) \<and>
     (show_plus opt \<longleftrightarrow> flags AND PLUS \<noteq> 0) \<and> (show_space opt \<longleftrightarrow> flags AND SPACE \<noteq> 0) \<and>
     flags AND SIGN = 0 \<and> flags AND LARGE = 0 \<and>
     width = (case min_width opt of None \<Rightarrow> - 1 | Some n \<Rightarrow> int n) \<and>
     precision = (case prec_given opt of None \<Rightarrow> - 1 | Some n \<Rightarrow> int n) \<and> prec_given opt \<noteq> Some 0"

lemma signed_cases:
  fixes u :: int
  assumes "0 \<le> u" "u < 2 * 2 ^ n"
  shows "signed_take_bit n u = (if 2 ^ n \<le> u then u - 2 * 2 ^ n else u)"
proof (cases "2 ^ n \<le> u")
  case True
  have "(u + 2 ^ n) mod (2 * 2 ^ n) = (u - 2 ^ n) mod (2 * 2 ^ n)"
    using mod_add_self2 [of "u - 2 ^ n" "2 * 2 ^ n"] by (simp add: algebra_simps)
  also have "\<dots> = u - 2 ^ n" using True assms by (intro mod_pos_pos_trivial) simp_all
  finally show ?thesis using True by (simp add: signed_take_bit_eq_take_bit_shift take_bit_eq_mod)
next
  case False
  then show ?thesis using assms by (simp add: signed_take_bit_int_eq_self)
qed

lemma sint_cases: "sint w = (if 2147483648 \<le> uint w then uint w - 4294967296 else uint w)" for w :: u32
  using signed_cases [of "uint w" 31] uint_bounded [of w] by (simp add: sint_uint)

lemma sint_cases_16: "sint w = (if 32768 \<le> uint w then uint w - 65536 else uint w)" for w :: "16 word"
  using signed_cases [of "uint w" 15] uint_bounded [of w] by (simp add: sint_uint)

lemma arg_value_32: "arg_value 32 True a = sint a" "arg_value 32 False a = uint a"
proof -
  have "uint a mod 4294967296 = uint a" using uint_bounded [of a] by (intro mod_pos_pos_trivial) simp_all
  then show "arg_value 32 True a = sint a" "arg_value 32 False a = uint a" by (simp_all add: arg_value_def sint_cases Let_def)
qed

lemma arg_value_16:
  "arg_value 16 True a = sint (ucast a :: 16 word)" "arg_value 16 False a = uint (ucast a :: 16 word)"
proof -
  have u: "uint (ucast a :: 16 word) = uint a mod 65536" by (simp add: unsigned_ucast_eq take_bit_eq_mod)
  show "arg_value 16 True a = sint (ucast a :: 16 word)" "arg_value 16 False a = uint (ucast a :: 16 word)"
    unfolding sint_cases_16 u by (simp_all add: arg_value_def Let_def)
qed

lemma int_arg_value:
  "type AND SIGN \<noteq> 0 \<Longrightarrow> sint (int_arg q type a) = arg_value (if q = ch CHR ''h'' then 16 else 32) True a"
  "type AND SIGN = 0 \<Longrightarrow> uint (int_arg q type a) = arg_value (if q = ch CHR ''h'' then 16 else 32) False a"
proof -
  let ?a = "ucast a :: 16 word"
  have b: "0 \<le> uint ?a \<and> uint ?a < 65536" using uint_bounded [of ?a] by simp
  have "sint (scast ?a :: u32) = sint ?a"
    unfolding signed_scast_eq using b
    by (intro signed_take_bit_int_eq_self) (auto simp: sint_cases_16 intro: order_trans [of _ 0])
  moreover have "uint (ucast ?a :: u32) = uint ?a"
    unfolding unsigned_ucast_eq [where w = ?a] by (rule take_bit_int_eq_self) (use b in auto)
  ultimately show "type AND SIGN \<noteq> 0 \<Longrightarrow> sint (int_arg q type a) = arg_value (if q = ch CHR ''h'' then 16 else 32) True a"
    "type AND SIGN = 0 \<Longrightarrow> uint (int_arg q type a) = arg_value (if q = ch CHR ''h'' then 16 else 32) False a"
    by (simp_all only: int_arg_def arg_value_32 arg_value_16 if_True if_False not_False_eq_True split: if_split) simp_all
qed

text \<open>The type that \<^verbatim>\<open>print_number\<close> gets, with the flags that the conversion adds.\<close>

definition type_rel :: "conv_opts \<Rightarrow> bool \<Rightarrow> bool \<Rightarrow> u8 \<Rightarrow> bool" where
  "type_rel opt sg upper type \<longleftrightarrow>
     (at_left opt \<longleftrightarrow> type AND LEFT \<noteq> 0) \<and> (zero_fill opt \<longleftrightarrow> type AND ZEROPAD \<noteq> 0) \<and>
     (show_plus opt \<longleftrightarrow> type AND PLUS \<noteq> 0) \<and> (show_space opt \<longleftrightarrow> type AND SPACE \<noteq> 0) \<and>
     (sg \<longleftrightarrow> type AND SIGN \<noteq> 0) \<and> (upper \<longleftrightarrow> type AND LARGE \<noteq> 0)"

lemma number_sign_spec:
  assumes T: "type_rel opt sg upper type" and n: "number_sign num type = (sign, n)"
    and v: "v = (if sg then sint num else uint num)"
  shows "(if sign = 0 then [] else [sign]) = sign_text opt sg v" "unat n = nat \<bar>v\<bar>"
proof -
  have nn: "sint num < 0 \<Longrightarrow> unat (- num) = nat (- sint num)"
  proof -
    assume "sint num < 0"
    then have "2147483648 \<le> uint num" using sint_cases [of num] uint_bounded [of num] by (auto split: if_splits)
    then have "uint (- num) = 4294967296 - uint num" using uint_bounded [of num]
      by (simp add: uint_word_ariths zmod_zminus1_eq_if mod_pos_pos_trivial)
    then show ?thesis using \<open>2147483648 \<le> uint num\<close> by (simp add: sint_cases flip: nat_uint_eq)
  qed
  have pp: "\<not> sint num < 0 \<Longrightarrow> unat num = nat (sint num)"
    using uint_bounded [of num] by (auto simp: sint_cases simp flip: nat_uint_eq split: if_splits)
  show "(if sign = 0 then [] else [sign]) = sign_text opt sg v" "unat n = nat \<bar>v\<bar>"
    using T n nn pp unfolding type_rel_def number_sign_def sign_text_def v
    by (auto split: if_splits)
qed

lemma fill_arith:
  "nat width = w \<Longrightarrow> nat precision = p \<Longrightarrow> nat (width - max precision (int d) - int f) = w - (f + (p - d + d))"
  by arith

lemma number_text_spec:
  assumes T: "type_rel opt sg upper type" and b: "base = 10 \<or> base = (16 :: u8)"
    and v: "v = (if sg then sint num else uint num)"
    and w: "nat width = count_of (min_width opt)" and p: "nat precision = count_of (prec_given opt)" "precision \<noteq> 0"
  shows "number_text num base width precision type = integer_text opt sg upper (unat base) v"
proof -
  obtain sign n where n: "number_sign num type = (sign, n)" by fastforce
  note N = number_sign_spec [OF T n v]
  let ?ds = "numeral_text upper (unat base) (nat \<bar>v\<bar>)"
  have ds: "digits_text n base type = ?ds" using digits_text_numeral [OF b] T N(2) by (simp add: type_rel_def)
  let ?body = "replicate (count_of (prec_given opt) - length ?ds) (ch CHR ''0'') @ ?ds" and ?front = "sign_text opt sg v"
  have fill: "nat (width - max precision (int (length ?ds)) - int (length ?front)) =
      count_of (min_width opt) - length (?front @ ?body)"
    using fill_arith [OF w p(1)] by simp
  show ?thesis
    using T unfolding number_text_def n Let_def prod.case ds N(1) integer_text_def justify_def type_rel_def spaces_def fill p(1)
    by (simp add: p(2))
qed

subsection \<open>Options\<close>

lemma or_bit: "(f OR g) AND b = 0 \<longleftrightarrow> f AND b = 0 \<and> g AND b = 0" for f :: u8
  unfolding bit.conj_disj_distrib2 by (rule or_eq_0_iff)

lemma fold_flags:
  "foldl (\<lambda>f x. f OR flag_bit x) f fl AND b = 0 \<longleftrightarrow> f AND b = 0 \<and> (\<forall>x \<in> set fl. flag_bit x AND b = 0)"
  by (induction fl arbitrary: f) (auto simp: or_bit)

lemma flag_bits:
  "flag_bit x AND LEFT = 0 \<longleftrightarrow> x \<noteq> ch CHR ''-''" "flag_bit x AND ZEROPAD = 0 \<longleftrightarrow> x \<noteq> ch CHR ''0''"
  "flag_bit x AND PLUS = 0 \<longleftrightarrow> x \<noteq> ch CHR ''+''" "flag_bit x AND SPACE = 0 \<longleftrightarrow> x \<noteq> ch CHR '' ''"
  "flag_bit x AND SIGN = 0" "flag_bit x AND LARGE = 0"
  by (auto simp: flag_bit_def)

lemma flags_rel: "opts_rel (flag_opts fl) (foldl (\<lambda>f x. f OR flag_bit x) 0 fl) (- 1) (- 1)"
proof -
  let ?f = "foldl (\<lambda>f x. f OR flag_bit x) 0 fl"
  have "?f AND LEFT \<noteq> 0 \<longleftrightarrow> ch CHR ''-'' \<in> set fl" "?f AND ZEROPAD \<noteq> 0 \<longleftrightarrow> ch CHR ''0'' \<in> set fl"
    "?f AND PLUS \<noteq> 0 \<longleftrightarrow> ch CHR ''+'' \<in> set fl" "?f AND SPACE \<noteq> 0 \<longleftrightarrow> ch CHR '' '' \<in> set fl"
    unfolding fold_flags flag_bits by auto
  moreover have "?f AND SIGN = 0" "?f AND LARGE = 0"
    using fold_flags [of 0 fl SIGN] fold_flags [of 0 fl LARGE] by (auto simp: flag_bits)
  ultimately show ?thesis by (simp add: opts_rel_def flag_opts_def)
qed

lemma or_left:
  "(f OR LEFT) AND LEFT = 0 \<longleftrightarrow> False" "(f OR LEFT) AND ZEROPAD = f AND ZEROPAD" "(f OR LEFT) AND PLUS = f AND PLUS"
  "(f OR LEFT) AND SPACE = f AND SPACE" "(f OR LEFT) AND SIGN = f AND SIGN" "(f OR LEFT) AND LARGE = f AND LARGE" for f :: u8
  by (simp_all add: or_bit bit.conj_disj_distrib2)

lemma width_rel:
  assumes R: "opts_rel opt flags (- 1) (- 1)" and W: "width_opts w opt args = Some (opt', args')"
  shows "\<exists>width flags'. width_of w flags args = Some (width, flags', args') \<and> opts_rel opt' flags' width (- 1)"
proof -
  have none: "min_width opt = None" "prec_given opt = None" using R by (auto simp: opts_rel_def split: option.splits)
  show ?thesis
  proof (cases w)
    case Star
    then obtain a as where a: "args = a # as" using W by (cases args) auto
    have v: "sint a \<noteq> - 2147483648" "args' = as" "opt' = opt\<lparr>min_width := Some (nat \<bar>sint a\<bar>), at_left := at_left opt \<or> sint a < 0\<rparr>"
      using W Star a by (auto simp: arg_value_32 Let_def split: if_splits)
    have "- 2147483648 \<le> sint a" "sint a < 2147483648" using sint_cases [of a] uint_bounded [of a] by (auto split: if_splits intro: order_trans [of _ 0])
    then have "sint a < 0 \<Longrightarrow> to_int (- sint a) = - sint a" using v(1) by (simp add: to_int_def signed_take_bit_int_eq_self)
    then show ?thesis using R none Star a v
      by (cases "sint a < 0") (simp_all add: opts_rel_def or_left)
  qed (use R W none in \<open>auto simp: opts_rel_def\<close>)
qed

lemma prec_rel:
  assumes R: "opts_rel opt flags width (- 1)" and P: "prec_opts p opt args = Some (opt', args')"
    and ok: "p \<noteq> Some Default" "p \<noteq> Some (Number 0)"
  shows "\<exists>precision. precision_of p args = Some (precision, args') \<and> opts_rel opt' flags width precision"
proof (cases p)
  case None
  then show ?thesis using R P by auto
next
  case (Some f)
  show ?thesis
  proof (cases f)
    case Star
    then obtain a as where a: "args = a # as" using P Some by (cases args) auto
    then show ?thesis using R P Some Star by (auto simp: opts_rel_def arg_value_32 Let_def split: if_splits)
  qed (use R P Some ok in \<open>auto simp: opts_rel_def\<close>)
qed

subsection \<open>Formats\<close>

lemma padded_spec:
  assumes "opts_rel opt flags width precision"
  shows "padded flags width xs = justify (opt\<lparr>zero_fill := False\<rparr>) [] xs"
proof -
  have "nat (width - int (length xs)) = count_of (min_width opt) - length xs"
    using assms by (auto simp: opts_rel_def count_of_def split: option.splits)
  then show ?thesis using assms by (simp add: padded_def justify_def spaces_def opts_rel_def Let_def)
qed

lemma opts_nat:
  assumes "opts_rel opt flags width precision"
  shows "nat width = count_of (min_width opt)" "nat precision = count_of (prec_given opt)" "precision \<noteq> 0"
  using assms by (auto simp: opts_rel_def count_of_def split: option.splits)

lemma opts_type:
  assumes "opts_rel opt flags width precision"
  shows "type_rel opt False False flags" "type_rel opt True False (flags OR SIGN)" "type_rel opt False True (flags OR LARGE)"
    "type_rel (opt\<lparr>min_width := Some 8, zero_fill := True\<rparr>) False False (flags OR ZEROPAD)"
  using assms by (auto simp: opts_rel_def type_rel_def or_bit)

lemma conv_text_spec:
  assumes R: "opts_rel opt flags width precision" and h: "half \<longleftrightarrow> q = ch CHR ''h''" and o: "c \<noteq> ch CHR ''o''"
    and x: "conv_text S c half opt a = Some xs"
  shows "arg_text S c q flags width precision a = Some xs"
proof -
  note T = opts_type [OF R] and w = opts_nat [OF R]
  have sl: "flags AND SIGN = 0" "(flags OR SIGN) AND SIGN \<noteq> 0" "(flags OR LARGE) AND SIGN = 0"
    using R by (simp_all add: opts_rel_def or_bit)
  have un: "number_text num 16 width precision flags = integer_text opt False False 16 (uint num)"
    "number_text num 10 width precision flags = integer_text opt False False 10 (uint num)"
    "number_text num 16 width precision (flags OR LARGE) = integer_text opt False True 16 (uint num)"
    "number_text num 10 width precision (flags OR SIGN) = integer_text opt True False 10 (sint num)" for num
    using number_text_spec [OF T(1) _ _ w, of 16] number_text_spec [OF T(1) _ _ w, of 10]
      number_text_spec [OF T(3) _ _ w, of 16] number_text_spec [OF T(2) _ _ w, of 10] by simp_all
  have pt: "number_text a 16 8 precision (flags OR ZEROPAD) =
      integer_text (opt\<lparr>min_width := Some 8, zero_fill := True\<rparr>) False False 16 (uint a)"
    using number_text_spec [OF T(4) _ _ _ _ w(3), of 16 "uint a" a 8] w(2) by (simp add: count_of_def)
  have m: "width = - 1 \<longleftrightarrow> min_width opt = None" using R by (auto simp: opts_rel_def split: option.splits)
  have cut: "(if 0 < precision then take (nat precision) ys else ys) = (case prec_given opt of None \<Rightarrow> ys | Some n \<Rightarrow> take n ys)" for ys
    using R by (auto simp: opts_rel_def split: option.splits)
  have byte: "(ucast a :: u8) = of_int (uint a)" by simp
  note val = int_arg_value(2) [OF sl(1)] int_arg_value(1) [OF sl(2)] int_arg_value(2) [OF sl(3)]
  show ?thesis
    using x o unfolding conv_text_def arg_text_def padded_spec [OF R] un val pt m cut null_text_def byte h Let_def
    by (auto split: if_splits)
qed

lemma piece_spec_out:
  assumes ok: "piece_ok d" "piece_right d" and x: "piece_spec S d args = Some (xs, as)"
  shows "piece_out S d args = Some (xs, as)"
proof (cases d)
  case (Conv fl w p q c)
  obtain opt1 args1 opt2 args2 where O: "width_opts w (flag_opts fl) args = Some (opt1, args1)" "prec_opts p opt1 args1 = Some (opt2, args2)"
    using x by (auto simp: Conv bind_eq_Some_conv)
  obtain width flags where w: "width_of w (foldl (\<lambda>f x. f OR flag_bit x) 0 fl) args = Some (width, flags, args1)"
    "opts_rel opt1 flags width (- 1)" using width_rel [OF flags_rel O(1)] by blast
  obtain precision where p: "precision_of p args1 = Some (precision, args2)" "opts_rel opt2 flags width precision"
    using prec_rel [OF w(2) O(2)] ok(2) by (auto simp: Conv)
  note W = w(1) p
  have arg: "c \<in> set arg_chars \<longleftrightarrow> takes_arg c" by (auto simp: arg_chars_def takes_arg_def)
  have h: "q = [ch CHR ''h''] \<longleftrightarrow> (if q = [] then 0 else hd q) = ch CHR ''h''" using ok(1) by (auto simp: Conv)
  have "c \<noteq> ch CHR ''o''" using ok(2) by (simp add: Conv)
  note conv = conv_text_spec [OF W(3) h this]
  show ?thesis
    using x conv by (auto simp: Conv O W(1,2) arg split: list.splits if_splits)
qed (use x in simp)

lemma format_spec_out:
  "\<forall>d \<in> set ds. piece_ok d \<and> piece_right d \<Longrightarrow> format_spec S ds args = Some t \<Longrightarrow> format_out S ds args = Some t"
  by (induction ds arbitrary: args t) (force simp: bind_eq_Some_conv dest: piece_spec_out)+

text \<open>
  C33.  \<^verbatim>\<open>rt_snprintf\<close> of a format made of characters and conversions, with any flags, widths,
  precisions and arguments but \<^verbatim>\<open>%o\<close> and a precision of 0 (both come out wrong): it returns, the buffer
  holds what fits of the text that \<open>format_spec\<close> gives the format and a zero, no byte outside the buffer
  changes, and when the text fits its length is the result.  The format and the strings printed are
  outside the buffer.
\<close>

theorem rt_snprintf_prints:
  assumes "sz \<noteq> 0" "unat buf + unat sz \<le> 2 ^ 32" "strings_ok S buf (unat sz) m"
    and "\<forall>d \<in> set ds. piece_ok d \<and> piece_right d" "str_at m fmt (format_text ds)"
    and "outside buf (unat sz) fmt (length (format_text ds))"
    and "format_spec S ds args = Some t" "unat buf + length t + length ds < 2 ^ 32" "length t + length ds < 2 ^ 31"
  shows "\<exists>r. rt_snprintf buf sz fmt args m = Some (r, printed buf (unat sz) t m) \<and> int (length t) \<le> r \<and>
    (length t < unat sz \<longrightarrow> r = int (length t))"
  unfolding rt_snprintf_def
  by (rule rt_vsnprintf_text [OF buffer_end [OF assms(1,2)] assms(3) _ assms(5,6) format_spec_out [OF assms(4,7)] assms(8,9)])
    (use assms(4) in simp)

text \<open>\<^verbatim>\<open>%05d|%-6s|%x|%+hi\<close> with -42, a string, 255 and 65543, of which 7 is the lower half.\<close>

definition print_demo :: "piece list" where
  "print_demo = [Conv [ch CHR ''0''] (Number 5) None [] (ch CHR ''d''), Chr (ch CHR ''|''),
     Conv [ch CHR ''-''] (Number 6) None [] (ch CHR ''s''), Chr (ch CHR ''|''), Conv [] Default None [] (ch CHR ''x''),
     Chr (ch CHR ''|''), Conv [ch CHR ''+''] Default None [ch CHR ''h''] (ch CHR ''i'')]"

definition print_mem :: memory where
  "print_mem = text_mem [(0x200, ''%05d|%-6s|%x|%+hi''), (0x300, ''hello'')]"

lemma print_mem_at: "str_at print_mem 0x200 (format_text print_demo)" "str_at print_mem 0x300 (map of_char ''hello'')"
  by (simp_all add: print_mem_def print_demo_def text_mem_def decimal.simps)

lemma numeral_demo: "numeral_text False 10 42 = [0x34, 0x32]" "numeral_text False 16 255 = [0x66, 0x66]" "numeral_text False 10 7 = [0x37]"
  by (simp_all add: numeral_text.simps digit_char_def)

lemma replicate_2: "replicate 2 x = [x, x]"
  by (simp add: numeral_2_eq_2)

lemma value_demo: "arg_value 32 True (- 42) = - 42" "arg_value 32 False 255 = 255" "arg_value 16 True 65543 = 7"
  by (simp_all add: arg_value_def)

lemma print_demo_out:
  "format_spec [0x300 \<mapsto> map of_char ''hello''] print_demo [- 42, 0x300, 255, 65543] = Some (map of_char ''-0042|hello |ff|+7'')"
  by (simp add: print_demo_def flag_opts_def takes_arg_def conv_text_def integer_text_def justify_def sign_text_def count_of_def
    value_demo numeral_demo Let_def replicate_2)

theorem rt_snprintf_prints_witness:
  "\<exists>m'. rt_snprintf 0x100 20 0x200 [- 42, 0x300, 255, 65543] print_mem = Some (18, m') \<and>
     str_at m' 0x100 (map of_char ''-0042|hello |ff|+7'')"
proof -
  let ?t = "map of_char ''-0042|hello |ff|+7'' :: u8 list"
  have t: "length ?t = 18" by simp
  have "\<exists>r. rt_snprintf 0x100 20 0x200 [- 42, 0x300, 255, 65543] print_mem = Some (r, printed 0x100 (unat (20 :: u32)) ?t print_mem) \<and>
      int (length ?t) \<le> r \<and> (length ?t < unat (20 :: u32) \<longrightarrow> r = int (length ?t))"
  proof (rule rt_snprintf_prints [OF _ _ _ _ _ _ print_demo_out])
    show "strings_ok [0x300 \<mapsto> map of_char ''hello''] 0x100 (unat (20 :: u32)) print_mem"
      using print_mem_at(2) by (auto simp: strings_ok_def outside_Suc outside_0)
    show "\<forall>d\<in>set print_demo. piece_ok d \<and> piece_right d" by (simp add: print_demo_def flag_chars_def other_chars_def)
    show "str_at print_mem 0x200 (format_text print_demo)" by (rule print_mem_at)
    show "outside 0x100 (unat (20 :: u32)) 0x200 (length (format_text print_demo))"
      by (simp add: print_demo_def decimal.simps outside_Suc outside_0)
  qed (simp_all add: print_demo_def)
  moreover have "str_at (printed 0x100 (unat (20 :: u32)) ?t print_mem) 0x100 ?t"
    by (simp add: printed_def)
  ultimately show ?thesis unfolding t by simp
qed

end
