(* ===== verification/System.thy ===== *)
theory System
  imports Semaphore
begin

text \<open>
  The kernel as a whole: threads that take and release semaphores, yield, and are interrupted by
  the tick, in any order.  One invariant of the scheduler, the timers and the semaphores holds in
  every state that is reached, no call fails, and no unit of a semaphore is lost or made up,
  also when threads time out.
\<close>

subsection \<open>The invariant of the system\<close>

text \<open>
  Timers are one-shot, and only the timer of a thread calls \<^verbatim>\<open>rt_thread_timeout\<close> for it; the idle
  thread never waits.  A thread on the list of a semaphore has no error yet.
\<close>

definition oneshot_timers :: "kernel \<Rightarrow> bool" where
  "oneshot_timers k \<longleftrightarrow> (\<forall>m. timer_flag k m AND RT_TIMER_FLAG_PERIODIC = 0 \<and>
     (\<forall>t. timeout_func (timers k m) = ThreadTimeout t \<longrightarrow> m = ThreadTimer t))"

definition sems_ok :: "oid set \<Rightarrow> kernel \<Rightarrow> bool" where
  "sems_ok S k \<longleftrightarrow> (\<forall>i \<in> S. sem_ok k i \<and> (\<forall>t \<in> set (snd (sem_abs k i)). t_error (threads k t) = RT_EOK))"

definition sys_ok :: "tid \<Rightarrow> oid set \<Rightarrow> kernel \<Rightarrow> bool" where
  "sys_ok idle S k \<longleftrightarrow> kinv k \<and> stacks_ok k \<and> cpu_runs k \<and> irq_nest k = 0 \<and> lock_nest k = 0 \<and>
     (stat_of k idle = RT_THREAD_READY \<or> stat_of k idle = RT_THREAD_RUNNING) \<and> oneshot_timers k \<and> sems_ok S k"

subsection \<open>Runs\<close>

text \<open>
  A run is recorded with the calls, what they returned and the kernel before and after each of them.
\<close>

datatype sys_call = Take oid "int option" | Release oid int | Yield int | Tick

type_synonym sys_trace = "(sys_call \<times> kernel \<times> kernel) list"

inductive sys_run :: "tid \<Rightarrow> oid set \<Rightarrow> (nat \<Rightarrow> kernel \<Rightarrow> kernel option) \<Rightarrow> kernel \<Rightarrow> sys_trace \<Rightarrow> kernel \<Rightarrow> bool"
  for idle :: tid and S :: "oid set" and cb :: "nat \<Rightarrow> kernel \<Rightarrow> kernel option" and k0 :: kernel where
  sys_start: "sys_run idle S cb k0 [] k0"
| sys_take: "sys_run idle S cb k0 tr k \<Longrightarrow> i \<in> S \<Longrightarrow> current k = Some c \<Longrightarrow> c \<noteq> idle \<or> time = 0 \<Longrightarrow> time < 0x7fffffff \<Longrightarrow>
    rt_sem_take i time k = Some (r, k') \<Longrightarrow> sys_run idle S cb k0 (tr @ [(Take i r, k, k')]) k'"
| sys_release: "sys_run idle S cb k0 tr k \<Longrightarrow> i \<in> S \<Longrightarrow> current k = Some c \<Longrightarrow> fst (sem_abs k i) < 65535 \<Longrightarrow>
    rt_sem_release i k = Some (r, k') \<Longrightarrow> sys_run idle S cb k0 (tr @ [(Release i r, k, k')]) k'"
| sys_yield: "sys_run idle S cb k0 tr k \<Longrightarrow> rt_thread_yield k = Some (r, k') \<Longrightarrow> sys_run idle S cb k0 (tr @ [(Yield r, k, k')]) k'"
| sys_tick: "sys_run idle S cb k0 tr k \<Longrightarrow> rt_tick_increase cb k = Some k' \<Longrightarrow> sys_run idle S cb k0 (tr @ [(Tick, k, k')]) k'"

text \<open>
  The threads that waited for semaphore \<open>i\<close> before a step, and after it are off its list, can run and
  will return from \<^verbatim>\<open>rt_sem_take\<close> with code \<open>r\<close>.
\<close>

definition woken_with :: "int \<Rightarrow> oid \<Rightarrow> kernel \<Rightarrow> kernel \<Rightarrow> tid list" where
  "woken_with r i k k' =
     filter (\<lambda>t. t \<notin> set (snd (sem_abs k' i)) \<and> stat_of k' t \<noteq> RT_THREAD_SUSPEND \<and> rt_sem_take_return t k' = r)
       (snd (sem_abs k i))"

text \<open>
  The units of semaphore \<open>i\<close> that threads got: by takes that returned \<^verbatim>\<open>RT_EOK\<close> at once, and when a waiting
  thread was woken to return it; and those that releases gave.
\<close>

definition got :: "oid \<Rightarrow> sys_trace \<Rightarrow> nat" where
  "got i tr = (\<Sum>(call, k, k') \<leftarrow> tr. (if call = Take i (Some RT_EOK) then 1 else 0) + length (woken_with RT_EOK i k k'))"

definition gave :: "oid \<Rightarrow> sys_trace \<Rightarrow> nat" where
  "gave i tr = (\<Sum>(call, k, k') \<leftarrow> tr. if call = Release i RT_EOK then 1 else 0)"

text \<open>A waiting thread waits on, or was woken with a unit by a release, or by the tick with \<^verbatim>\<open>-RT_ETIMEOUT\<close>.\<close>

definition waiters_kept :: "oid set \<Rightarrow> sys_call \<times> kernel \<times> kernel \<Rightarrow> bool" where
  "waiters_kept S = (\<lambda>(call, k, k'). \<forall>i \<in> S. \<forall>t \<in> set (snd (sem_abs k i)). t \<in> set (snd (sem_abs k' i)) \<or>
     call = Release i RT_EOK \<and> t \<in> set (woken_with RT_EOK i k k') \<or>
     call = Tick \<and> t \<in> set (woken_with (- RT_ETIMEOUT) i k k'))"

subsection \<open>Every call keeps the invariant\<close>

lemma env_oneshot: "env_same k k' \<Longrightarrow> oneshot_timers k' = oneshot_timers k"
  by (simp add: env_same_def oneshot_timers_def)

lemma oneshot_hard: "oneshot_timers k \<Longrightarrow> hard_oneshot k"
  by (simp add: oneshot_timers_def hard_oneshot_def)

lemma live_not_suspended:
  "live k t \<Longrightarrow> stat_of k t \<noteq> RT_THREAD_SUSPEND \<Longrightarrow> stat_of k t = RT_THREAD_READY \<or> stat_of k t = RT_THREAD_RUNNING"
  by (auto simp: live_def)

lemma sys_current:
  assumes "sys_ok idle S k" "current k = Some c"
  shows "stat_of k c = RT_THREAD_RUNNING" "c \<noteq> idle \<Longrightarrow> stat_of k idle = RT_THREAD_READY"
  using assms running_current [OF kinvD(1), of k idle] by (auto simp: sys_ok_def cpu_runs_def)

text \<open>
  What a call may do to the semaphores: their counts stay but for the one it is about, the lists
  only lose threads, and the error of a thread that waits on stays.
\<close>

lemma sems_ok_change:
  assumes ok: "sems_ok S k" and i: "i \<in> S \<Longrightarrow> sem_ok k' i \<and> (\<forall>t \<in> set (snd (sem_abs k' i)). t_error (threads k' t) = RT_EOK)"
    and v: "\<And>j. j \<noteq> i \<Longrightarrow> sems k' j = sems k j"
    and l: "\<And>j. j \<noteq> i \<Longrightarrow> set (lst (thl k') (SuspendQ (OSem j))) \<subseteq> set (lst (thl k) (SuspendQ (OSem j)))"
    and e: "\<And>j t. j \<noteq> i \<Longrightarrow> t \<in> set (lst (thl k') (SuspendQ (OSem j))) \<Longrightarrow> t_error (threads k' t) = t_error (threads k t)"
    and h: "\<And>j. rt_object_get_type k' (OSem j) = rt_object_get_type k (OSem j)" "\<And>j. o_flag (hdr k' (OSem j)) = o_flag (hdr k (OSem j))"
  shows "sems_ok S k'"
  unfolding sems_ok_def
proof
  fix j assume j: "j \<in> S"
  show "sem_ok k' j \<and> (\<forall>t\<in>set (snd (sem_abs k' j)). t_error (threads k' t) = RT_EOK)"
  proof (cases "j = i")
    case True
    then show ?thesis using i j by simp
  next
    case False
    have old: "sem_ok k j" "\<forall>t\<in>set (snd (sem_abs k j)). t_error (threads k t) = RT_EOK" using ok j by (auto simp: sems_ok_def)
    have "sem_ok k' j"
      using old(1) v [OF False] l [OF False] h [of j] by (auto simp: sem_ok_def sem_abs_def)
    moreover have "t_error (threads k' t) = RT_EOK" if "t \<in> set (snd (sem_abs k' j))" for t
      using that old(2) l [OF False] e [OF False, of t] by (auto simp: sem_abs_def)
    ultimately show ?thesis by blast
  qed
qed

lemma take_keeps:
  assumes ok: "sys_ok idle S k" and i: "i \<in> S" and cur: "current k = Some c" and w: "c \<noteq> idle \<or> time = 0" and t: "time < 0x7fffffff"
  shows "\<exists>r k'. rt_sem_take i time k = Some (r, k') \<and> sys_ok idle S k' \<and>
    fst (sem_abs k' i) + (if r = Some RT_EOK then 1 else 0) = fst (sem_abs k i) \<and> (\<forall>j. j \<noteq> i \<longrightarrow> fst (sem_abs k' j) = fst (sem_abs k j)) \<and>
    (\<forall>j. set (snd (sem_abs k j)) \<subseteq> set (snd (sem_abs k' j)))"
proof -
  have inv: "kinv k" "stacks_ok k" "cpu_runs k" "irq_nest k = 0" "lock_nest k = 0" "oneshot_timers k" "sems_ok S k"
    and idle: "stat_of k idle = RT_THREAD_READY \<or> stat_of k idle = RT_THREAD_RUNNING" using ok by (simp_all add: sys_ok_def)
  have si: "sem_ok k i" "\<forall>t \<in> set (snd (sem_abs k i)). t_error (threads k t) = RT_EOK" using inv(7) i by (auto simp: sems_ok_def)
  show ?thesis
  proof (cases "s_value (sems k i) > 0")
    case True
    let ?k = "upd_sem i (\<lambda>s. s\<lparr>s_value := s_value s - 1\<rparr>) k"
    have "rt_sem_take i time k = Some (Some RT_EOK, ?k)" using True si(1) by (simp add: rt_sem_take_def sem_ok_def)
    moreover have u: "unat (s_value (sems k i) - 1) + 1 = unat (s_value (sems k i))"
    proof -
      have "unat (s_value (sems k i)) > 0" using True by (simp add: unat_gt_0)
      moreover have "unat (s_value (sems k i) - 1) = unat (s_value (sems k i)) - 1" using True by (simp add: unat_minus_one)
      ultimately show ?thesis by simp
    qed
    moreover have "sems_ok S ?k"
    proof (rule sems_ok_change [OF inv(7), where i = i])
      show "sem_ok ?k i \<and> (\<forall>t\<in>set (snd (sem_abs ?k i)). t_error (threads ?k t) = RT_EOK)"
        using si u by (auto simp: sem_ok_def sem_abs_def)
    qed simp_all
    moreover have "oneshot_timers ?k" using inv(6) by (simp add: oneshot_timers_def)
    moreover have "cpu_runs ?k" using inv(3) by (simp add: cpu_runs_def)
    ultimately show ?thesis using inv idle
      by (intro exI [of _ "Some RT_EOK"] exI [of _ ?k]) (simp add: sys_ok_def sem_abs_def)
  next
    case False
    then have z: "s_value (sems k i) = 0" by (simp add: word_gt_0)
    show ?thesis
    proof (cases "time = 0")
      case True
      then have "rt_sem_take i time k = Some (Some (- RT_ETIMEOUT), k)" using z si by (simp add: rt_sem_take_def sem_ok_def)
      then show ?thesis using ok by (intro exI [of _ "Some (- RT_ETIMEOUT)"] exI [of _ k]) simp
    next
      case False
      then have ci: "c \<noteq> idle" using w by simp
      note C = sys_current [OF ok cur]
      let ?q = "SuspendQ (OSem i)" and ?f = "o_flag (hdr k (OSem i))"
      have fl: "?f = RT_IPC_FLAG_FIFO \<or> ?f = RT_IPC_FLAG_PRIO" using si by (simp add: sem_ok_def)
      have wq: "wait_q ?q" by simp
      obtain k2 k' where b: "ipc_wait ?q c ?f time (upd_thread c (\<lambda>th. th\<lparr>t_error := RT_EOK\<rparr>) k) = Some k2"
        "rt_schedule k2 = Some k'" "kinv k'" "env_same k k'" "stacks_ok k'"
        "lst (thl k') ?q = insert_at (flag_before ?f k c) c (lst (thl k) ?q)" "t_error (threads k' c) = RT_EOK"
        "runs_highest k'" "\<And>v. live k' v = live k v"
        and lo: "\<And>q'. wait_q q' \<Longrightarrow> q' \<noteq> ?q \<Longrightarrow> lst (thl k') q' = lst (thl k) q'"
        and st: "\<And>v. v \<noteq> c \<Longrightarrow> (stat_of k' v = RT_THREAD_SUSPEND \<longleftrightarrow> stat_of k v = RT_THREAD_SUSPEND) \<and>
            t_error (threads k' v) = t_error (threads k v)"
        by (rule block_spec [OF inv(1,2) cur C(1) wq fl t, where u = idle]) (use inv(5) C(2) [OF ci] in blast)
      note e = env_sameD [OF b(4)]
      have res: "rt_sem_take i time k = Some (None, k')"
        using False z si cur inv(4) b(1,2)
        by (simp add: rt_sem_take_def sem_ok_def in_thread_context_def not_in_interrupt_def rt_thread_self_def)
      have er: "t_error (threads k' u) = RT_EOK" if "u \<in> set (lst (thl k') ?q)" for u
      proof (cases "u = c")
        case False
        then have "u \<in> set (lst (thl k) ?q)" using that b(6) by (simp add: set_insert_at)
        then show ?thesis using si(2) st [OF False] by (simp add: sem_abs_def)
      qed (simp add: b(7))
      have "sems_ok S k'"
      proof (rule sems_ok_change [OF inv(7), where i = i])
        show "sem_ok k' i \<and> (\<forall>t\<in>set (snd (sem_abs k' i)). t_error (threads k' t) = RT_EOK)"
          using si er e(1) z e(11) [of "OSem i"] e(14) [of "OSem i"] by (simp add: sem_ok_def sem_abs_def)
        show "t_error (threads k' u) = t_error (threads k u)" if "j \<noteq> i" "u \<in> set (lst (thl k') (SuspendQ (OSem j)))" for j u
        proof -
          have "u \<in> set (lst (thl k) (SuspendQ (OSem j)))" using that lo [of "SuspendQ (OSem j)"] by simp
          then have "stat_of k u = RT_THREAD_SUSPEND" by (rule wait_q_suspended [OF inv(1), rotated]) simp
          then have "u \<noteq> c" using C(1) by auto
          then show ?thesis using st by blast
        qed
      qed (use e(1) e(11) e(14) lo in simp_all)
      moreover have "stat_of k' idle = RT_THREAD_READY \<or> stat_of k' idle = RT_THREAD_RUNNING"
        using live_not_suspended [of k' idle] b(9) [of idle] idle st [of idle] ci by (auto simp: live_def)
      moreover have "cpu_runs k'" using b(8) by (auto simp: runs_highest_def cpu_runs_def)
      ultimately have "sys_ok idle S k'" using b(3,5) e(8,9) inv env_oneshot [OF b(4)] by (simp add: sys_ok_def)
      moreover have "set (lst (thl k) (SuspendQ (OSem j))) \<subseteq> set (lst (thl k') (SuspendQ (OSem j)))" for j
        using b(6) lo [of "SuspendQ (OSem j)"] by (cases "j = i") (auto simp: set_insert_at)
      ultimately show ?thesis using res e(1) by (intro exI [of _ None] exI [of _ k']) (simp add: sem_abs_def)
    qed
  qed
qed


text \<open>The parts of \<^verbatim>\<open>sys_ok\<close> that a call without an effect on timers and objects keeps.\<close>

lemma sys_ok_env:
  assumes ok: "sys_ok idle S k" and e: "env_same k k'" and k': "kinv k'" "stacks_ok k'" "cpu_runs k'" "sems_ok S k'"
    and v: "live k' idle = live k idle" and i: "stat_of k' idle = RT_THREAD_SUSPEND \<Longrightarrow> stat_of k idle = RT_THREAD_SUSPEND"
  shows "sys_ok idle S k'"
proof -
  have "live k idle" using ok by (auto simp: sys_ok_def live_def)
  then have "stat_of k' idle = RT_THREAD_READY \<or> stat_of k' idle = RT_THREAD_RUNNING"
    by (intro live_not_suspended) (use v i ok in \<open>auto simp: sys_ok_def\<close>)
  then show ?thesis using k' env_oneshot [OF e] env_sameD(8,9) [OF e] ok by (simp add: sys_ok_def)
qed

lemma release_keeps:
  assumes ok: "sys_ok idle S k" and i: "i \<in> S" and cur: "current k = Some c" and max: "fst (sem_abs k i) < 65535"
  shows "\<exists>k'. rt_sem_release i k = Some (RT_EOK, k') \<and> sys_ok idle S k' \<and>
    fst (sem_abs k' i) + length (woken_with RT_EOK i k k') = fst (sem_abs k i) + 1 \<and>
    set (snd (sem_abs k i)) \<subseteq> set (snd (sem_abs k' i)) \<union> set (woken_with RT_EOK i k k') \<and>
    (\<forall>j. j \<noteq> i \<longrightarrow> sem_abs k' j = sem_abs k j)"
proof -
  have inv: "kinv k" "stacks_ok k" "cpu_runs k" "lock_nest k = 0" "oneshot_timers k" "sems_ok S k"
    using ok by (simp_all add: sys_ok_def)
  have si: "sem_ok k i" "\<forall>t \<in> set (snd (sem_abs k i)). t_error (threads k t) = RT_EOK"
    using inv(6) i by (auto simp: sems_ok_def)
  show ?thesis
  proof (cases "lst (thl k) (SuspendQ (OSem i))")
    case Nil
    let ?k = "upd_sem i (\<lambda>s. s\<lparr>s_value := s_value s + 1\<rparr>) k"
    have u: "unat (s_value (sems k i) + 1) = unat (s_value (sems k i)) + 1"
      using max by (simp add: sem_abs_def unat_word_ariths)
    have "rt_sem_release i k = Some (RT_EOK, ?k)" using Nil si by (simp add: rt_sem_release_def sem_ok_def)
    moreover have "sems_ok S ?k"
      by (rule sems_ok_change [OF inv(6), where i = i]) (use si Nil in \<open>simp_all add: sem_ok_def sem_abs_def\<close>)
    moreover have "sys_ok idle S ?k"
      using ok calculation(2) by (simp add: sys_ok_def oneshot_timers_def cpu_runs_def)
    ultimately show ?thesis using u Nil by (intro exI [of _ ?k]) (simp add: sem_abs_def woken_with_def)
  next
    case (Cons t ts)
    have wq: "wait_q (SuspendQ (OSem i))" by simp
    obtain k1 k' where k': "rt_ipc_list_resume (SuspendQ (OSem i)) k = Some (RT_EOK, k1)" "rt_schedule k1 = Some k'"
      "kinv k'" "env_same k k'" "stacks_ok k'" "lst (thl k') (SuspendQ (OSem i)) = ts" "stat_of k t = RT_THREAD_SUSPEND"
      "stat_of k' t = RT_THREAD_READY \<or> stat_of k' t = RT_THREAD_RUNNING"
      and lo: "\<And>q'. wait_q q' \<Longrightarrow> q' \<noteq> SuspendQ (OSem i) \<Longrightarrow> lst (thl k') q' = lst (thl k) q'"
      and er: "\<And>u. t_error (threads k' u) = t_error (threads k u)"
      and top: "lock_nest k = 0 \<Longrightarrow> runs_highest k'" and lv: "\<And>v. live k' v = live k v"
      and st: "\<And>v. v \<noteq> t \<Longrightarrow> stat_of k' v = RT_THREAD_SUSPEND \<longleftrightarrow> stat_of k v = RT_THREAD_SUSPEND"
      by (rule wake_head_spec [OF inv(1,2) cur wq Cons]) blast
    note e = env_sameD [OF k'(4)]
    have res: "rt_sem_release i k = Some (RT_EOK, k')" using si Cons k'(1,2) by (simp add: rt_sem_release_def sem_ok_def)
    have sk: "sems_ok S k'"
      by (rule sems_ok_change [OF inv(6), where i = i])
        (use si Cons k'(6) er lo e(1) e(11) e(14) in \<open>simp_all add: sem_ok_def sem_abs_def\<close>)
    have "cpu_runs k'" using top inv(4) by (auto simp: runs_highest_def cpu_runs_def)
    moreover have "stat_of k idle \<noteq> RT_THREAD_SUSPEND" using ok by (auto simp: sys_ok_def)
    ultimately have "sys_ok idle S k'" using sys_ok_env [OF ok k'(4,3,5)] sk lv st [of idle] k'(7) by auto
    moreover have "t \<notin> set ts"
      using ls_wf_distinct [OF core_wf [OF sched_inv_core [OF kinvD(1) [OF inv(1)]]], of "SuspendQ (OSem i)"] Cons by simp
    moreover have "rt_sem_take_return t k' = RT_EOK" using si(2) Cons er by (simp add: sem_abs_def rt_sem_take_return_def)
    moreover have "filter (\<lambda>u. u \<notin> set ts \<and> P u) ts = []" for P by (simp add: filter_empty_conv)
    ultimately have "woken_with RT_EOK i k k' = [t]" using Cons k'(6,8) by (auto simp: woken_with_def sem_abs_def)
    then show ?thesis using res e(1) Cons si(1) lo k'(6) \<open>sys_ok idle S k'\<close>
      by (intro exI [of _ k']) (auto simp: sem_abs_def sem_ok_def)
  qed
qed

lemma yield_keeps:
  assumes ok: "sys_ok idle S k"
  shows "\<exists>k'. rt_thread_yield k = Some (RT_EOK, k') \<and> sys_ok idle S k' \<and> (\<forall>j. sem_abs k' j = sem_abs k j)"
proof -
  have inv: "kinv k" "stacks_ok k" "cpu_runs k" "lock_nest k = 0" "sems_ok S k" using ok by (simp_all add: sys_ok_def)
  obtain c where cur: "current k = Some c" "stat_of k c = RT_THREAD_RUNNING" using inv(3) by (auto simp: cpu_runs_def)
  obtain k' where k': "rt_schedule k = Some k'" "kinv k'" "rescheduled k k'" "env_same k k'" "stacks_ok k'"
    and lq: "\<And>q. wait_q q \<Longrightarrow> lst (thl k') q = lst (thl k) q"
    and top: "lock_nest k = 0 \<Longrightarrow> stat_of k c = RT_THREAD_RUNNING \<or> (\<exists>t. stat_of k t = RT_THREAD_READY) \<Longrightarrow> runs_highest k'"
    by (rule finish_schedule [OF inv(1,2) cur(1)]) blast
  note e = env_sameD [OF k'(4)]
  have "sems_ok S k'"
    using inv(5) lq rescheduledD(4) [OF k'(3)] e(1) e(11) e(14) by (simp add: sems_ok_def sem_ok_def sem_abs_def)
  moreover have "cpu_runs k'" using top [OF inv(4)] cur(2) by (auto simp: runs_highest_def cpu_runs_def)
  ultimately have "sys_ok idle S k'"
    using sys_ok_env [OF ok k'(4,2,5)] rescheduled_live [OF k'(3)] rescheduled_stat [OF k'(3), of RT_THREAD_SUSPEND idle] by auto
  then show ?thesis using k'(1) e(1) lq by (simp add: rt_thread_yield_def sem_abs_def)
qed

lemma tick_keeps:
  assumes ok: "sys_ok idle S k" and cb: "callback_ok cb"
  shows "\<exists>k'. rt_tick_increase cb k = Some k' \<and> sys_ok idle S k' \<and> tick k' = tick k + 1 \<and>
    (\<forall>j. fst (sem_abs k' j) = fst (sem_abs k j) \<and> woken_with RT_EOK j k k' = [] \<and>
       set (snd (sem_abs k j)) \<subseteq> set (snd (sem_abs k' j)) \<union> set (woken_with (- RT_ETIMEOUT) j k k'))"
proof -
  have inv: "kinv k" "stacks_ok k" "cpu_runs k" "lock_nest k = 0" "oneshot_timers k" "sems_ok S k"
    using ok by (simp_all add: sys_ok_def)
  obtain c where cur: "current k = Some c" "stat_of k c = RT_THREAD_RUNNING" using inv(3) by (auto simp: cpu_runs_def)
  let ?due = "set (takeWhile (is_due (tick k + 1) k) (lst (tml k) HardT))"
  obtain k1 k' where k': "rt_tick_increase cb k = Some k'" "kinv k'" "stacks_ok k'" "env_same k1 k'"
    "timers k1 = timers k" "hdr k1 = hdr k" "sems k1 = sems k" "lock_nest k1 = lock_nest k" "irq_nest k1 = irq_nest k"
    "tick k1 = tick k + 1"
    and st: "\<And>t. if ThreadTimer t \<in> ?due
        then stat_of k' t \<noteq> RT_THREAD_SUSPEND \<and> t_error (threads k' t) = - RT_ETIMEOUT
        else (stat_of k' t = RT_THREAD_SUSPEND \<longleftrightarrow> stat_of k t = RT_THREAD_SUSPEND) \<and>
             t_error (threads k' t) = t_error (threads k t)"
    and l: "\<And>q. (\<forall>p. q \<noteq> ReadyQ p) \<Longrightarrow> lst (thl k') q = filter (\<lambda>t. ThreadTimer t \<notin> ?due) (lst (thl k) q)"
    and cr: "lock_nest k = 0 \<Longrightarrow> stat_of k c = RT_THREAD_RUNNING \<Longrightarrow> cpu_runs k'"
    and lv: "\<And>u. live k' u = live k u"
    by (rule tick_spec [OF inv(1,2) cur(1) cb oneshot_hard [OF inv(5)]]) blast
  note e = env_sameD [OF k'(4), unfolded k'(6,7)]
  have ty: "rt_object_get_type k' (OSem j) = rt_object_get_type k (OSem j)" for j
    using env_sameD(11) [OF k'(4), of "OSem j"] k'(6) by (simp add: rt_object_get_type_def)
  have "sems_ok S k'"
  proof -
    have "sem_ok k' j \<and> (\<forall>t\<in>set (snd (sem_abs k' j)). t_error (threads k' t) = RT_EOK)" if "j \<in> S" for j
    proof -
      have "sem_ok k j" "\<forall>t\<in>set (snd (sem_abs k j)). t_error (threads k t) = RT_EOK"
        using inv(6) that by (auto simp: sems_ok_def)
      then show ?thesis using l [of "SuspendQ (OSem j)"] st e(1) e(14) [of "OSem j"] ty
        by (auto simp: sem_ok_def sem_abs_def filter_empty_conv)
    qed
    then show ?thesis by (simp add: sems_ok_def)
  qed
  moreover have "stat_of k' idle \<noteq> RT_THREAD_SUSPEND" using ok st [of idle] by (auto simp: sys_ok_def split: if_splits)
  moreover have "live k' idle" using lv [of idle] ok by (auto simp: sys_ok_def live_def)
  moreover have "oneshot_timers k'"
    using env_oneshot [OF k'(4)] inv(5) k'(5,6) by (simp add: oneshot_timers_def)
  ultimately have "sys_ok idle S k'"
    using k'(2,3) cr inv(4) cur(2) env_sameD(8,9) [OF k'(4)] k'(8,9) ok live_not_suspended by (simp add: sys_ok_def)
  moreover have "woken_with RT_EOK j k k' = []" for j
    using l [of "SuspendQ (OSem j)"] st by (auto simp: woken_with_def sem_abs_def filter_empty_conv rt_sem_take_return_def)
  moreover have "set (snd (sem_abs k j)) \<subseteq> set (snd (sem_abs k' j)) \<union> set (woken_with (- RT_ETIMEOUT) j k k')" for j
    using l [of "SuspendQ (OSem j)"] st by (auto simp: woken_with_def sem_abs_def rt_sem_take_return_def)
  ultimately show ?thesis using k'(1) e(1) env_sameD(7) [OF k'(4)] k'(10) by (simp add: sem_abs_def)
qed

subsection \<open>What holds in every run\<close>

lemma got_simps [simp]:
  "got i [] = 0" "gave i [] = 0"
  "got i (tr @ [(call, k, k')]) = got i tr + (if call = Take i (Some RT_EOK) then 1 else 0) + length (woken_with RT_EOK i k k')"
  "gave i (tr @ [(call, k, k')]) = gave i tr + (if call = Release i RT_EOK then 1 else 0)"
  by (simp_all add: got_def gave_def)

lemma none_woken:
  assumes "set (snd (sem_abs k i)) \<subseteq> set (snd (sem_abs k' i))"
  shows "woken_with r i k k' = []"
  using assms by (auto simp: woken_with_def filter_empty_conv)

text \<open>
  C7.  Over any run of takes, releases below the largest count, yields and ticks, by any
  threads in any order, the invariant of the system holds, and for every semaphore the units
  that are left and those that threads got are those at the start and those given: a thread
  that times out while it waits, or is woken by a release, neither loses nor makes up a unit.
  Every thread on the list of a semaphore stays there until a release wakes it with a unit or the tick
  with \<^verbatim>\<open>-RT_ETIMEOUT\<close>, and no thread waits on a semaphore with units left.
\<close>

theorem sys_run_conserves:
  assumes run: "sys_run idle S cb k0 tr k" and ok: "sys_ok idle S k0" and cb: "callback_ok cb"
  shows "sys_ok idle S k \<and>
    (\<forall>i \<in> S. fst (sem_abs k i) + got i tr = fst (sem_abs k0 i) + gave i tr \<and>
       (fst (sem_abs k i) > 0 \<longrightarrow> snd (sem_abs k i) = [])) \<and>
    (\<forall>step \<in> set tr. waiters_kept S step)"
proof -
  have "sys_ok idle S k \<and> (\<forall>i \<in> S. fst (sem_abs k i) + got i tr = fst (sem_abs k0 i) + gave i tr) \<and> (\<forall>step \<in> set tr. waiters_kept S step)"
    using run
  proof induction
    case sys_start
    then show ?case using ok by simp
  next
    case (sys_take tr k i c time r k')
    then have t: "sys_ok idle S k'" "fst (sem_abs k' i) + (if r = Some RT_EOK then 1 else 0) = fst (sem_abs k i)"
      "\<And>j. j \<noteq> i \<Longrightarrow> fst (sem_abs k' j) = fst (sem_abs k j)" "\<And>j. set (snd (sem_abs k j)) \<subseteq> set (snd (sem_abs k' j))"
      using take_keeps [of idle S k i c time] by auto
    then have "waiters_kept S (Take i r, k, k')" by (auto simp: waiters_kept_def)
    moreover have "fst (sem_abs k' j) + got j (tr @ [(Take i r, k, k')]) = fst (sem_abs k0 j) + gave j (tr @ [(Take i r, k, k')])"
      if "j \<in> S" for j
      using sys_take.IH t(2,3) none_woken [OF t(4)] that by (cases "j = i"; cases "r = Some RT_EOK") auto
    ultimately show ?case using t(1) sys_take.IH by simp
  next
    case (sys_release tr k i c r k')
    then have t: "r = RT_EOK" "sys_ok idle S k'" "fst (sem_abs k' i) + length (woken_with RT_EOK i k k') = fst (sem_abs k i) + 1"
      "set (snd (sem_abs k i)) \<subseteq> set (snd (sem_abs k' i)) \<union> set (woken_with RT_EOK i k k')"
      "\<And>j. j \<noteq> i \<Longrightarrow> sem_abs k' j = sem_abs k j"
      using release_keeps [of idle S k i c] by auto
    then have "waiters_kept S (Release i r, k, k')" by (fastforce simp: waiters_kept_def)
    moreover have "fst (sem_abs k' j) + got j (tr @ [(Release i r, k, k')]) = fst (sem_abs k0 j) + gave j (tr @ [(Release i r, k, k')])"
      if "j \<in> S" for j
      using sys_release.IH t(1,3,5) none_woken [of k j k'] that by (cases "j = i") auto
    ultimately show ?case using t(2) sys_release.IH by simp
  next
    case (sys_yield tr k r k')
    then have t: "sys_ok idle S k'" "\<And>j. sem_abs k' j = sem_abs k j" using yield_keeps [of idle S k] by auto
    then show ?case using sys_yield.IH none_woken by (auto simp: waiters_kept_def)
  next
    case (sys_tick tr k k')
    then have t: "sys_ok idle S k'" "\<And>j. fst (sem_abs k' j) = fst (sem_abs k j)" "\<And>j. woken_with RT_EOK j k k' = []"
      "\<And>j. set (snd (sem_abs k j)) \<subseteq> set (snd (sem_abs k' j)) \<union> set (woken_with (- RT_ETIMEOUT) j k k')"
      using tick_keeps [of idle S k cb] cb by auto
    then have "waiters_kept S (Tick, k, k')" by (fastforce simp: waiters_kept_def)
    then show ?case using sys_tick.IH t by simp
  qed
  then show ?thesis by (auto simp: sys_ok_def sems_ok_def sem_ok_def)
qed

lemma demo_sys_ok: "sys_ok 2 {0} ipc_demo"
proof -
  have "oneshot_timers ipc_demo"
    by (simp add: oneshot_timers_def ipc_demo_def) (simp add: sleep_demo_def timer_demo_def split: tmr.splits)
  moreover have "sems_ok {0} ipc_demo"
    by (simp add: sems_ok_def sem_ok_def sem_abs_def ipc_demo_type ipc_demo_sel demo_thl) (simp add: demo_simps)
  ultimately show ?thesis
    using ipc_demo_kinv ipc_demo_stacks by (simp add: sys_ok_def cpu_runs_def ipc_demo_sel ipc_demo_stat demo_stat)
qed

text \<open>The running thread gives the unit that thread 4 waits for.\<close>

lemma demo_sys_run: "\<exists>k. sys_run 2 {0} (\<lambda>_. Some) ipc_demo [(Release 0 RT_EOK, ipc_demo, k)] k"
proof -
  have a: "sem_abs ipc_demo 0 = (0, [4])"
    by (simp add: sem_abs_def ipc_demo_sel demo_thl) (simp add: zero_kernel_def)
  obtain k where k: "rt_sem_release 0 ipc_demo = Some (RT_EOK, k)"
    using release_keeps [OF demo_sys_ok _ ipc_demo_sel(1), of 0] by (auto simp: a)
  have "sys_run 2 {0} (\<lambda>_. Some) ipc_demo ([] @ [(Release 0 RT_EOK, ipc_demo, k)]) k"
    by (rule sys_release [OF _ _ _ _ k]) (auto simp: a ipc_demo_sel intro: sys_start)
  then show ?thesis by auto
qed

theorem sys_run_conserves_witness:
  "\<exists>k. sys_run 2 {0} (\<lambda>_. Some) ipc_demo [(Release 0 RT_EOK, ipc_demo, k)] k \<and> sys_ok 2 {0} k \<and>
     fst (sem_abs k 0) + got 0 [(Release 0 RT_EOK, ipc_demo, k)] = 1 \<and>
     (4 \<in> set (snd (sem_abs k 0)) \<or> 4 \<in> set (woken_with RT_EOK 0 ipc_demo k))"
proof -
  obtain k where k: "sys_run 2 {0} (\<lambda>_. Some) ipc_demo [(Release 0 RT_EOK, ipc_demo, k)] k" using demo_sys_run by blast
  have a: "sem_abs ipc_demo 0 = (0, [4])"
    by (simp add: sem_abs_def ipc_demo_sel demo_thl) (simp add: zero_kernel_def)
  have g: "gave 0 [(Release 0 RT_EOK, ipc_demo, k)] = 1" by (simp add: gave_def)
  show ?thesis using k sys_run_conserves [OF k demo_sys_ok callback_ok_Some] by (auto simp: a g waiters_kept_def)
qed

text \<open>
  C8.  No run gets stuck: in every state that is reached a thread runs, and each of its calls,
  and the tick interrupt, returns: no assertion fails, no loop goes on, no null pointer is read.
\<close>

theorem sys_run_returns:
  assumes run: "sys_run idle S cb k0 tr k" and ok: "sys_ok idle S k0" and cb: "callback_ok cb"
  shows "\<exists>c. current k = Some c \<and> stat_of k c = RT_THREAD_RUNNING \<and>
    (\<forall>i \<in> S. \<forall>time < 0x7fffffff. c \<noteq> idle \<or> time = 0 \<longrightarrow> rt_sem_take i time k \<noteq> None) \<and>
    (\<forall>i \<in> S. fst (sem_abs k i) < 65535 \<longrightarrow> rt_sem_release i k \<noteq> None) \<and>
    rt_thread_yield k \<noteq> None \<and> rt_tick_increase cb k \<noteq> None"
proof -
  have k: "sys_ok idle S k" using run
  proof induction
    case (sys_take tr k i c time r k')
    then show ?case using take_keeps [of idle S k i c time] by auto
  next
    case (sys_release tr k i c r k')
    then show ?case using release_keeps [of idle S k i c] by auto
  next
    case (sys_yield tr k r k')
    then show ?case using yield_keeps [of idle S k] by auto
  next
    case (sys_tick tr k k')
    then show ?case using tick_keeps [of idle S k cb] cb by auto
  qed (rule ok)
  then obtain c where c: "current k = Some c" "stat_of k c = RT_THREAD_RUNNING" by (auto simp: sys_ok_def cpu_runs_def)
  show ?thesis using c take_keeps [OF k _ c(1)] release_keeps [OF k _ c(1)] yield_keeps [OF k] tick_keeps [OF k cb]
    by (intro exI [of _ c]) fastforce
qed

theorem sys_run_returns_witness:
  "\<exists>k c. sys_run 2 {0} (\<lambda>_. Some) ipc_demo [(Release 0 RT_EOK, ipc_demo, k)] k \<and> current k = Some c \<and>
     rt_thread_yield k \<noteq> None \<and> rt_tick_increase (\<lambda>_. Some) k \<noteq> None"
proof -
  obtain k where k: "sys_run 2 {0} (\<lambda>_. Some) ipc_demo [(Release 0 RT_EOK, ipc_demo, k)] k" using demo_sys_run by blast
  then show ?thesis using sys_run_returns [OF k demo_sys_ok callback_ok_Some] by auto
qed

end
