(* ===== verification/Rt_Slist.thy ===== *)
theory Rt_Slist
  imports Rt_Prelude
begin

text \<open>
  The singly linked lists of \<^verbatim>\<open>rt-thread/include/rtservice.h\<close>: the nodes are a heap of
  next-pointers, the head is a node like the others.  Each operation is shown to do on the list
  of nodes that the heap represents what its name says.
\<close>

subsection \<open>Operations\<close>

type_synonym 'n slist = "'n \<Rightarrow> 'n option"

definition rt_slist_init :: "'n \<Rightarrow> 'n slist \<Rightarrow> 'n slist" where
  "rt_slist_init l s = s(l := None)"

text \<open>\<^verbatim>\<open>while (l->next) l = l->next; return l;\<close>\<close>

partial_function (option) rt_slist_tail :: "'n \<Rightarrow> 'n slist \<Rightarrow> 'n option" where
  "rt_slist_tail l s = (case s l of None \<Rightarrow> Some l | Some m \<Rightarrow> rt_slist_tail m s)"

definition rt_slist_append :: "'n \<Rightarrow> 'n \<Rightarrow> 'n slist \<Rightarrow> 'n slist option" where
  "rt_slist_append l n s = do { node \<leftarrow> rt_slist_tail l s; Some (s(node := Some n, n := None)) }"

definition rt_slist_insert :: "'n \<Rightarrow> 'n \<Rightarrow> 'n slist \<Rightarrow> 'n slist" where
  "rt_slist_insert l n s = (let s1 = s(n := s l) in s1(l := Some n))"

partial_function (option) slist_len_loop :: "'n slist \<Rightarrow> 'n option \<Rightarrow> u32 \<Rightarrow> u32 option" where
  "slist_len_loop s p len = (case p of None \<Rightarrow> Some len | Some n \<Rightarrow> slist_len_loop s (s n) (len + 1))"

definition rt_slist_len :: "'n \<Rightarrow> 'n slist \<Rightarrow> u32 option" where
  "rt_slist_len l s = slist_len_loop s (s l) 0"

text \<open>\<^verbatim>\<open>while (node->next && node->next != n) node = node->next;\<close>\<close>

partial_function (option) slist_before :: "'n \<Rightarrow> 'n \<Rightarrow> 'n slist \<Rightarrow> 'n option" where
  "slist_before node n s =
     (case s node of None \<Rightarrow> Some node | Some m \<Rightarrow> if m = n then Some node else slist_before m n s)"

definition rt_slist_remove :: "'n \<Rightarrow> 'n \<Rightarrow> 'n slist \<Rightarrow> 'n slist option" where
  "rt_slist_remove l n s =
     do {
       node \<leftarrow> slist_before l n s;
       Some (case s node of None \<Rightarrow> s | Some m \<Rightarrow> s(node := s m))
     }"

definition rt_slist_first :: "'n \<Rightarrow> 'n slist \<Rightarrow> 'n option" where
  "rt_slist_first l s = s l"

definition rt_slist_next :: "'n \<Rightarrow> 'n slist \<Rightarrow> 'n option" where
  "rt_slist_next n s = s n"

definition rt_slist_isempty :: "'n \<Rightarrow> 'n slist \<Rightarrow> bool" where
  "rt_slist_isempty l s \<longleftrightarrow> s l = None"

subsection \<open>The list that the heap represents\<close>

definition slist_rel :: "'n slist \<Rightarrow> 'n \<Rightarrow> 'n list \<Rightarrow> bool" where
  "slist_rel s l xs \<longleftrightarrow> linked s (s l) xs \<and> distinct (l # xs)"

lemma slist_init_rel: "slist_rel (rt_slist_init l s) l []"
  by (simp add: slist_rel_def rt_slist_init_def)

lemma slist_empty_rel: "slist_rel s l xs \<Longrightarrow> rt_slist_isempty l s \<longleftrightarrow> xs = []"
  by (cases xs) (auto simp: slist_rel_def rt_slist_isempty_def)

lemma slist_first_rel: "slist_rel s l xs \<Longrightarrow> rt_slist_first l s = (case xs of [] \<Rightarrow> None | x # _ \<Rightarrow> Some x)"
  by (cases xs) (auto simp: slist_rel_def rt_slist_first_def)

lemma linked_append: "linked s p (xs @ x # ys) \<Longrightarrow> linked s (s x) ys"
  by (induction xs arbitrary: p) auto

lemma linked_last: "linked s (s l) (xs @ ys) \<Longrightarrow> s (last (l # xs)) = (case ys of [] \<Rightarrow> None | y # _ \<Rightarrow> Some y)"
  by (induction xs arbitrary: l) (auto split: list.split)

lemma slist_next_rel:
  "slist_rel s l (xs @ x # ys) \<Longrightarrow> rt_slist_next x s = (case ys of [] \<Rightarrow> None | y # _ \<Rightarrow> Some y)"
  using linked_append [of s "s l" xs x ys] by (cases ys) (auto simp: slist_rel_def rt_slist_next_def)

lemma slist_tail_rel: "slist_rel s l xs \<Longrightarrow> rt_slist_tail l s = Some (last (l # xs))"
proof -
  have "linked s (s l) xs \<Longrightarrow> rt_slist_tail l s = Some (last (l # xs))" for l
    by (induction xs arbitrary: l) (simp_all add: rt_slist_tail.simps)
  then show "slist_rel s l xs \<Longrightarrow> ?thesis" by (simp add: slist_rel_def)
qed

lemma slist_len_rel:
  assumes "slist_rel s l xs"
  shows "rt_slist_len l s = Some (of_nat (length xs))"
proof -
  have "linked s p xs \<Longrightarrow> slist_len_loop s p c = Some (c + of_nat (length xs))" for p c
    by (induction xs arbitrary: p c) (simp_all add: slist_len_loop.simps algebra_simps)
  then show ?thesis using assms by (simp add: rt_slist_len_def slist_rel_def)
qed

lemma slist_insert_rel: "slist_rel s l xs \<Longrightarrow> n \<notin> set (l # xs) \<Longrightarrow> slist_rel (rt_slist_insert l n s) l (n # xs)"
  by (auto simp: slist_rel_def rt_slist_insert_def Let_def)

lemma linked_append_node:
  "linked s (s l) xs \<Longrightarrow> distinct (l # xs) \<Longrightarrow> n \<notin> set (l # xs) \<Longrightarrow>
   linked (s(last (l # xs) := Some n, n := None)) ((s(last (l # xs) := Some n, n := None)) l) (xs @ [n])"
proof (induction xs arbitrary: l)
  case (Cons x xs)
  define z where "z = last (x # xs)"
  have z: "last (l # x # xs) = z" "z \<in> set (x # xs)" unfolding z_def by (simp, rule last_in_set) simp
  define g where "g = s(z := Some n, n := None)"
  have "linked g (g x) (xs @ [n])" unfolding z_def g_def by (rule Cons.IH) (use Cons.prems in auto)
  moreover have "g l = Some x" using Cons.prems z(2) by (auto simp: g_def)
  ultimately show ?case unfolding z(1) g_def [symmetric] by simp
qed simp

lemma slist_append_rel:
  assumes "slist_rel s l xs" "n \<notin> set (l # xs)"
  obtains s' where "rt_slist_append l n s = Some s'" "slist_rel s' l (xs @ [n])"
proof -
  have "slist_rel (s(last (l # xs) := Some n, n := None)) l (xs @ [n])"
    using assms linked_append_node [of s l xs n] by (auto simp: slist_rel_def simp del: last.simps)
  then show ?thesis using that assms slist_tail_rel [OF assms(1)] by (simp add: rt_slist_append_def)
qed

lemma slist_before_rel:
  "linked s (s l) xs \<Longrightarrow> distinct (l # xs) \<Longrightarrow>
   slist_before l n s = Some (last (l # takeWhile (\<lambda>x. x \<noteq> n) xs))"
  by (induction xs arbitrary: l) (auto simp: slist_before.simps)

lemma linked_remove_node:
  "linked s (s l) (xs @ n # ys) \<Longrightarrow> distinct (l # xs @ n # ys) \<Longrightarrow>
   linked (s(last (l # xs) := s n)) ((s(last (l # xs) := s n)) l) (xs @ ys)"
proof (induction xs arbitrary: l)
  case (Cons x xs)
  define z where "z = last (x # xs)"
  have z: "last (l # x # xs) = z" "z \<in> set (x # xs)" unfolding z_def by (simp, rule last_in_set) simp
  define g where "g = s(z := s n)"
  have "linked g (g x) (xs @ ys)" unfolding z_def g_def by (rule Cons.IH) (use Cons.prems in auto)
  moreover have "g l = Some x" using Cons.prems z(2) by (auto simp: g_def)
  ultimately show ?case unfolding z(1) g_def [symmetric] by simp
qed auto

text \<open>
  Removing a node takes it from the list, and does nothing when it is not on it; the next-pointer
  of the removed node stays, so that a loop that stands at it can go on.
\<close>

lemma slist_remove_rel:
  assumes rel: "slist_rel s l xs"
  obtains s' where "rt_slist_remove l n s = Some s'" "slist_rel s' l (remove1 n xs)" "n \<noteq> l \<Longrightarrow> s' n = s n"
proof (cases "n \<in> set xs")
  case False
  then have tw: "takeWhile (\<lambda>x. x \<noteq> n) xs = xs" by (auto simp: takeWhile_eq_all_conv)
  have "slist_before l n s = Some (last (l # xs))"
    using slist_before_rel [of s l xs n] rel unfolding tw by (simp add: slist_rel_def)
  moreover have "s (last (l # xs)) = None" using linked_last [of s l xs "[]"] rel by (simp add: slist_rel_def)
  ultimately show ?thesis using that [of s] rel False by (simp add: rt_slist_remove_def)
next
  case True
  then obtain ys zs where xs: "xs = ys @ n # zs" "n \<notin> set ys" by (meson split_list_first)
  then have tw: "takeWhile (\<lambda>x. x \<noteq> n) xs = ys" by (induction ys arbitrary: xs) auto
  have b: "slist_before l n s = Some (last (l # ys))"
    using slist_before_rel [of s l xs n] rel unfolding tw by (simp add: slist_rel_def)
  have "s (last (l # ys)) = Some n"
    using linked_last [of s l ys "n # zs"] rel by (simp add: slist_rel_def xs(1))
  then have r: "rt_slist_remove l n s = Some (s(last (l # ys) := s n))" by (simp add: rt_slist_remove_def b)
  have d: "distinct (l # ys @ n # zs)" using rel by (simp add: slist_rel_def xs(1))
  have "linked (s(last (l # ys) := s n)) ((s(last (l # ys) := s n)) l) (ys @ zs)"
    using linked_remove_node [of s l ys n zs] rel by (simp add: slist_rel_def xs(1))
  moreover have "remove1 n xs = ys @ zs" using xs by (simp add: remove1_append)
  moreover have "n \<noteq> last (l # ys)" using d last_in_set [of ys] by (cases "ys = []") auto
  ultimately show ?thesis using that [OF r] d by (auto simp: slist_rel_def)
qed

end
