(* ===== verification/Ringblk.thy ===== *)
theory Ringblk
  imports Rt_Slist
begin

text \<open>
  The ring block buffer \<^verbatim>\<open>components/drivers/src/ringblk_buf.c\<close>: blocks of any size, cut in turn
  from one buffer.  A block is its index in the set of blocks; the list of the blocks in use is a
  singly linked list through the blocks.
\<close>

subsection \<open>Data\<close>

datatype rt_rbb_status = RT_RBB_BLK_UNUSED | RT_RBB_BLK_INITED | RT_RBB_BLK_PUT | RT_RBB_BLK_GET

record rt_rbb_blk =
  blk_status :: rt_rbb_status
  blk_size :: u32              \<comment> \<open>24 bits\<close>
  blk_buf :: u32

datatype rbb_node = BlkList | Blk nat

record rt_rbb_blk_queue =
  q_blocks :: nat
  q_num :: u32

record rt_rbb =
  rbb_buf :: u32
  rbb_buf_size :: u32
  blk_set :: "nat \<Rightarrow> rt_rbb_blk"
  blk_max_num :: u32
  blk_list :: "rbb_node slist"

text \<open>\<^verbatim>\<open>rt_slist_entry\<close>: the list head is not in a block.\<close>

fun blk_of :: "rbb_node \<Rightarrow> nat option" where
  "blk_of (Blk i) = Some i"
| "blk_of BlkList = None"

abbreviation upd_blk :: "nat \<Rightarrow> (rt_rbb_blk \<Rightarrow> rt_rbb_blk) \<Rightarrow> rt_rbb \<Rightarrow> rt_rbb" where
  "upd_blk i f r \<equiv> r\<lparr>blk_set := (blk_set r)(i := f (blk_set r i))\<rparr>"

subsection \<open>Operations\<close>

definition rt_rbb_init :: "u32 \<Rightarrow> u32 \<Rightarrow> (nat \<Rightarrow> rt_rbb_blk) \<Rightarrow> u32 \<Rightarrow> rbb_node slist \<Rightarrow> rt_rbb" where
  "rt_rbb_init buf buf_size block_set n s =
     \<lparr>rbb_buf = buf, rbb_buf_size = buf_size,
      blk_set = (\<lambda>i. if i < unat n then (block_set i)\<lparr>blk_status := RT_RBB_BLK_UNUSED\<rparr> else block_set i),
      blk_max_num = n, blk_list = rt_slist_init BlkList s\<rparr>"

text \<open>The three allocations in the order of the code; the last two are freed again when one fails.\<close>

definition rt_rbb_create ::
  "u32 option \<Rightarrow> u32 option \<Rightarrow> (nat \<Rightarrow> rt_rbb_blk) option \<Rightarrow> u32 \<Rightarrow> u32 \<Rightarrow> rbb_node slist \<Rightarrow> rt_rbb option" where
  "rt_rbb_create rbb buf block_set buf_size n s =
     (case rbb of None \<Rightarrow> None
      | Some _ \<Rightarrow> (case buf of None \<Rightarrow> None
        | Some b \<Rightarrow> (case block_set of None \<Rightarrow> None
          | Some bs \<Rightarrow> Some (rt_rbb_init b buf_size bs n s))))"

definition find_empty_blk_in_set :: "rt_rbb \<Rightarrow> nat option" where
  "find_empty_blk_in_set r = List.find (\<lambda>i. blk_status (blk_set r i) = RT_RBB_BLK_UNUSED) [0..<unat (blk_max_num r)]"

definition rbb_new_blk :: "nat \<Rightarrow> u32 \<Rightarrow> u32 \<Rightarrow> rt_rbb \<Rightarrow> (nat option \<times> rt_rbb) option" where
  "rbb_new_blk new buf sz r =
     do {
       s \<leftarrow> rt_slist_append BlkList (Blk new) (blk_list r);
       Some (Some new, upd_blk new (\<lambda>_. \<lparr>blk_status = RT_RBB_BLK_INITED, blk_size = take_bit 24 sz, blk_buf = buf\<rparr>)
              (r\<lparr>blk_list := s\<rparr>))
     }"

definition rt_rbb_blk_alloc :: "u32 \<Rightarrow> rt_rbb \<Rightarrow> (nat option \<times> rt_rbb) option" where
  "rt_rbb_blk_alloc sz r =
     do {
       RT_ASSERT (sz < 0x1000000);
       len \<leftarrow> rt_slist_len BlkList (blk_list r);
       (case find_empty_blk_in_set r of
          None \<Rightarrow> Some (None, r)
        | Some new \<Rightarrow>
            if \<not> len < blk_max_num r then Some (None, r)
            else if len > 0
            then do {
              hn \<leftarrow> rt_slist_first BlkList (blk_list r);
              h \<leftarrow> blk_of hn;
              tn \<leftarrow> rt_slist_tail BlkList (blk_list r);
              t \<leftarrow> blk_of tn;
              let head = blk_set r h;
              let tail = blk_set r t;
              if blk_buf head \<le> blk_buf tail
              then let empty1 = (rbb_buf r + rbb_buf_size r) - (blk_buf tail + blk_size tail);
                       empty2 = blk_buf head - rbb_buf r
                   in if empty1 \<ge> sz then rbb_new_blk new (blk_buf tail + blk_size tail) sz r
                      else if empty2 \<ge> sz then rbb_new_blk new (rbb_buf r) sz r
                      else Some (None, r)
              else let empty1 = blk_buf head - (blk_buf tail + blk_size tail)
                   in if empty1 \<ge> sz then rbb_new_blk new (blk_buf tail + blk_size tail) sz r
                      else Some (None, r)
            }
            else rbb_new_blk new (rbb_buf r) sz r)
     }"

definition rt_rbb_blk_put :: "nat \<Rightarrow> rt_rbb \<Rightarrow> rt_rbb option" where
  "rt_rbb_blk_put i r =
     do {
       RT_ASSERT (blk_status (blk_set r i) = RT_RBB_BLK_INITED);
       Some (upd_blk i (\<lambda>b. b\<lparr>blk_status := RT_RBB_BLK_PUT\<rparr>) r)
     }"

partial_function (option) rbb_get_loop :: "rbb_node option \<Rightarrow> rt_rbb \<Rightarrow> (nat option \<times> rt_rbb) option" where
  "rbb_get_loop node r =
     (case node of
        None \<Rightarrow> Some (None, r)
      | Some n \<Rightarrow> Option.bind (blk_of n) (\<lambda>i.
          if blk_status (blk_set r i) = RT_RBB_BLK_PUT
          then Some (Some i, upd_blk i (\<lambda>b. b\<lparr>blk_status := RT_RBB_BLK_GET\<rparr>) r)
          else rbb_get_loop (rt_slist_next n (blk_list r)) r))"

definition rt_rbb_blk_get :: "rt_rbb \<Rightarrow> (nat option \<times> rt_rbb) option" where
  "rt_rbb_blk_get r =
     (if rt_slist_isempty BlkList (blk_list r) then Some (None, r)
      else rbb_get_loop (rt_slist_first BlkList (blk_list r)) r)"

definition rt_rbb_blk_size :: "nat \<Rightarrow> rt_rbb \<Rightarrow> u32" where
  "rt_rbb_blk_size i r = blk_size (blk_set r i)"

definition rt_rbb_blk_buf :: "nat \<Rightarrow> rt_rbb \<Rightarrow> u32" where
  "rt_rbb_blk_buf i r = blk_buf (blk_set r i)"

definition rt_rbb_get_buf_size :: "rt_rbb \<Rightarrow> u32" where
  "rt_rbb_get_buf_size r = rbb_buf_size r"

text \<open>A block beyond the set is outside the array.\<close>

definition rt_rbb_blk_free :: "nat \<Rightarrow> rt_rbb \<Rightarrow> rt_rbb option" where
  "rt_rbb_blk_free i r =
     do {
       RT_ASSERT (i < unat (blk_max_num r));
       RT_ASSERT (blk_status (blk_set r i) \<noteq> RT_RBB_BLK_UNUSED);
       s \<leftarrow> rt_slist_remove BlkList (Blk i) (blk_list r);
       Some (upd_blk i (\<lambda>b. b\<lparr>blk_status := RT_RBB_BLK_UNUSED\<rparr>) (r\<lparr>blk_list := s\<rparr>))
     }"

subsection \<open>Queues of blocks\<close>

text \<open>The tail of the loop body: the block leaves the list and joins the queue.\<close>

definition rbb_queue_take :: "nat \<Rightarrow> rt_rbb_blk_queue \<Rightarrow> rt_rbb \<Rightarrow> (rt_rbb_blk_queue \<times> rt_rbb) option" where
  "rbb_queue_take i q r =
     do {
       s \<leftarrow> rt_slist_remove BlkList (Blk i) (blk_list r);
       Some (q\<lparr>q_num := q_num q + 1\<rparr>, upd_blk i (\<lambda>b. b\<lparr>blk_status := RT_RBB_BLK_GET\<rparr>) (r\<lparr>blk_list := s\<rparr>))
     }"

partial_function (option) rbb_queue_loop ::
  "rbb_node option \<Rightarrow> nat option \<Rightarrow> u32 \<Rightarrow> u32 \<Rightarrow> rt_rbb_blk_queue \<Rightarrow> rt_rbb \<Rightarrow> (u32 \<times> rt_rbb_blk_queue \<times> rt_rbb) option" where
  "rbb_queue_loop node last_block dlen max_len q r =
     (case node of
        None \<Rightarrow> Some (dlen, q, r)
      | Some n \<Rightarrow> Option.bind (blk_of n) (\<lambda>i.
          case last_block of
            None \<Rightarrow>
              if blk_status (blk_set r i) = RT_RBB_BLK_PUT
              then Option.bind (rbb_queue_take i (q\<lparr>q_blocks := i, q_num := 0\<rparr>) r) (\<lambda>(q1, r1).
                     rbb_queue_loop (rt_slist_next n (blk_list r1)) (Some i) (dlen + blk_size (blk_set r i)) max_len q1 r1)
              else rbb_queue_loop (rt_slist_next n (blk_list r)) None dlen max_len q r
          | Some l \<Rightarrow>
              if blk_status (blk_set r i) \<noteq> RT_RBB_BLK_PUT \<or> blk_buf (blk_set r l) > blk_buf (blk_set r i) \<or>
                 dlen + blk_size (blk_set r i) > max_len
              then Some (dlen, q, r)
              else Option.bind (rbb_queue_take i q r) (\<lambda>(q1, r1).
                     rbb_queue_loop (rt_slist_next n (blk_list r1)) (Some i) (dlen + blk_size (blk_set r i)) max_len q1 r1)))"

definition rt_rbb_blk_queue_get :: "u32 \<Rightarrow> rt_rbb_blk_queue \<Rightarrow> rt_rbb \<Rightarrow> (u32 \<times> rt_rbb_blk_queue \<times> rt_rbb) option" where
  "rt_rbb_blk_queue_get max_len q r =
     (if rt_slist_isempty BlkList (blk_list r) then Some (0, q, r)
      else rbb_queue_loop (rt_slist_first BlkList (blk_list r)) None 0 max_len q r)"

text \<open>\<^verbatim>\<open>blk_queue->blocks[i]\<close> for \<open>i\<close> below \<^verbatim>\<open>blk_num\<close>: the blocks of the set from the first one on.\<close>

definition queue_items :: "rt_rbb_blk_queue \<Rightarrow> nat list" where
  "queue_items q = map (\<lambda>i. q_blocks q + i) [0..<unat (q_num q)]"

fun queue_len_loop :: "nat list \<Rightarrow> u32 \<Rightarrow> rt_rbb \<Rightarrow> u32 option" where
  "queue_len_loop [] dlen r = Some dlen"
| "queue_len_loop (i # is) dlen r =
     (if i < unat (blk_max_num r) then queue_len_loop is (dlen + blk_size (blk_set r i)) r else None)"

definition rt_rbb_blk_queue_len :: "rt_rbb_blk_queue \<Rightarrow> rt_rbb \<Rightarrow> u32 option" where
  "rt_rbb_blk_queue_len q r = queue_len_loop (queue_items q) 0 r"

definition rt_rbb_blk_queue_buf :: "rt_rbb_blk_queue \<Rightarrow> rt_rbb \<Rightarrow> u32 option" where
  "rt_rbb_blk_queue_buf q r = (if q_blocks q < unat (blk_max_num r) then Some (blk_buf (blk_set r (q_blocks q))) else None)"

fun queue_free_loop :: "nat list \<Rightarrow> rt_rbb \<Rightarrow> rt_rbb option" where
  "queue_free_loop [] r = Some r"
| "queue_free_loop (i # is) r = Option.bind (rt_rbb_blk_free i r) (queue_free_loop is)"

definition rt_rbb_blk_queue_free :: "rt_rbb_blk_queue \<Rightarrow> rt_rbb \<Rightarrow> rt_rbb option" where
  "rt_rbb_blk_queue_free q r = queue_free_loop (queue_items q) r"

partial_function (option) rbb_next_len_loop :: "rbb_node option \<Rightarrow> nat option \<Rightarrow> u32 \<Rightarrow> rt_rbb \<Rightarrow> u32 option" where
  "rbb_next_len_loop node last_block len r =
     (case node of
        None \<Rightarrow> Some len
      | Some n \<Rightarrow> Option.bind (blk_of n) (\<lambda>i.
          case last_block of
            None \<Rightarrow>
              if blk_status (blk_set r i) \<noteq> RT_RBB_BLK_PUT
              then rbb_next_len_loop (rt_slist_next n (blk_list r)) None len r
              else rbb_next_len_loop (rt_slist_next n (blk_list r)) (Some i) (len + blk_size (blk_set r i)) r
          | Some l \<Rightarrow>
              if blk_status (blk_set r i) \<noteq> RT_RBB_BLK_PUT \<or> blk_buf (blk_set r l) > blk_buf (blk_set r i)
              then Some len
              else rbb_next_len_loop (rt_slist_next n (blk_list r)) (Some i) (len + blk_size (blk_set r i)) r))"

definition rt_rbb_next_blk_queue_len :: "rt_rbb \<Rightarrow> u32 option" where
  "rt_rbb_next_blk_queue_len r =
     (if rt_slist_isempty BlkList (blk_list r) then Some 0
      else rbb_next_len_loop (rt_slist_first BlkList (blk_list r)) None 0 r)"

subsection \<open>The invariant\<close>

text \<open>Where a block begins and ends.\<close>

definition blk_lo :: "rt_rbb \<Rightarrow> nat \<Rightarrow> nat" where
  "blk_lo r i = unat (blk_buf (blk_set r i))"

definition blk_hi :: "rt_rbb \<Rightarrow> nat \<Rightarrow> nat" where
  "blk_hi r i = blk_lo r i + unat (blk_size (blk_set r i))"

definition buf_lo :: "rt_rbb \<Rightarrow> nat" where
  "buf_lo r = unat (rbb_buf r)"

definition buf_hi :: "rt_rbb \<Rightarrow> nat" where
  "buf_hi r = unat (rbb_buf r) + unat (rbb_buf_size r)"

text \<open>The blocks lie one after the other between \<open>a\<close> and \<open>c\<close>.\<close>

definition region :: "rt_rbb \<Rightarrow> nat \<Rightarrow> nat \<Rightarrow> nat list \<Rightarrow> bool" where
  "region r a c xs \<longleftrightarrow> sorted_wrt (\<lambda>i j. blk_hi r i \<le> blk_lo r j) xs \<and>
     (\<forall>i \<in> set xs. a \<le> blk_lo r i \<and> blk_lo r i < blk_hi r i \<and> blk_hi r i \<le> c)"

text \<open>In the order of the list the blocks go up in the buffer, and once around below the first one.\<close>

definition ring_order :: "rt_rbb \<Rightarrow> nat list \<Rightarrow> bool" where
  "ring_order r xs \<longleftrightarrow> (\<exists>us ls. xs = us @ ls \<and> (us = [] \<longrightarrow> ls = []) \<and>
     region r (buf_lo r) (buf_hi r) us \<and> region r (buf_lo r) (blk_lo r (hd us)) ls)"

definition rbb_ok :: "rt_rbb \<Rightarrow> nat list \<Rightarrow> bool" where
  "rbb_ok r xs \<longleftrightarrow> buf_hi r < 2 ^ 32 \<and> slist_rel (blk_list r) BlkList (map Blk xs) \<and>
     set xs = {i. i < unat (blk_max_num r) \<and> blk_status (blk_set r i) \<noteq> RT_RBB_BLK_UNUSED} \<and> ring_order r xs"

lemma region_Nil [simp]: "region r a c []"
  by (simp add: region_def)

lemma region_single: "region r a c [i] \<longleftrightarrow> a \<le> blk_lo r i \<and> blk_lo r i < blk_hi r i \<and> blk_hi r i \<le> c"
  by (simp add: region_def)

lemma region_snoc: "region r a c (xs @ [i]) \<longleftrightarrow> region r a c xs \<and> a \<le> blk_lo r i \<and> blk_lo r i < blk_hi r i \<and> blk_hi r i \<le> c \<and>
    (\<forall>j \<in> set xs. blk_hi r j \<le> blk_lo r i)"
  by (auto simp: region_def sorted_wrt_append)

lemma region_last: "region r a c xs \<Longrightarrow> j \<in> set xs \<Longrightarrow> blk_hi r j \<le> blk_hi r (last xs) \<and> blk_lo r j \<le> blk_lo r (last xs)"
proof (cases xs rule: rev_cases)
  case (snoc ys y)
  assume r: "region r a c xs" "j \<in> set xs"
  then have "j = y \<or> (blk_hi r j \<le> blk_lo r y \<and> blk_lo r y < blk_hi r y \<and> blk_lo r j < blk_hi r j)"
    unfolding snoc region_snoc by (auto simp: region_def)
  then show ?thesis using snoc by auto
qed simp

lemma region_top: "region r a c xs \<Longrightarrow> xs \<noteq> [] \<Longrightarrow> blk_lo r (hd xs) \<le> c"
  by (cases xs) (auto simp: region_def)

lemma region_le_last: "region r a c xs \<Longrightarrow> xs \<noteq> [] \<Longrightarrow> a \<le> blk_hi r (last xs)"
  by (cases xs rule: rev_cases) (auto simp: region_snoc)

lemma region_hd: "region r a c xs \<Longrightarrow> j \<in> set xs \<Longrightarrow> blk_lo r (hd xs) \<le> blk_lo r j"
  by (cases xs) (auto simp: region_def)

lemma region_filter: "region r a c xs \<Longrightarrow> region r a c (filter P xs)"
  by (auto simp: region_def sorted_wrt_filter)

lemma region_mono: "region r a c xs \<Longrightarrow> a' \<le> a \<Longrightarrow> c \<le> c' \<Longrightarrow> region r a' c' xs"
  by (auto simp: region_def)

lemma region_cong:
  assumes "region r a c xs" "\<And>i. i \<in> set xs \<Longrightarrow> blk_lo r' i = blk_lo r i" "\<And>i. i \<in> set xs \<Longrightarrow> blk_hi r' i = blk_hi r i"
  shows "region r' a c xs"
  using assms by (auto simp: region_def intro: sorted_wrt_mono_rel [of xs "\<lambda>i j. blk_hi r i \<le> blk_lo r j"])

lemma region_disjoint:
  assumes "region r a c xs" "i \<in> set xs" "j \<in> set xs" "i \<noteq> j"
  shows "blk_hi r i \<le> blk_lo r j \<or> blk_hi r j \<le> blk_lo r i"
proof -
  have "sorted_wrt (\<lambda>i j. blk_hi r i \<le> blk_lo r j) xs" using assms(1) by (simp add: region_def)
  then show ?thesis using assms(2-4) by (induction xs) auto
qed

lemma ring_order_disjoint:
  assumes "ring_order r xs" "i \<in> set xs" "j \<in> set xs" "i \<noteq> j"
  shows "blk_hi r i \<le> blk_lo r j \<or> blk_hi r j \<le> blk_lo r i"
proof -
  obtain us ls where x: "xs = us @ ls" "us = [] \<longrightarrow> ls = []"
    "region r (buf_lo r) (buf_hi r) us" "region r (buf_lo r) (blk_lo r (hd us)) ls"
    using assms(1) by (auto simp: ring_order_def)
  have cross: "blk_hi r l \<le> blk_lo r u" if "u \<in> set us" "l \<in> set ls" for u l
    using x(4) that region_hd [OF x(3) that(1)] by (auto simp: region_def)
  show ?thesis
    using assms(2-4) x(1) region_disjoint [OF x(3), of i j] region_disjoint [OF x(4), of i j] cross by auto
qed

lemma ring_order_inside:
  assumes "ring_order r xs" "i \<in> set xs"
  shows "buf_lo r \<le> blk_lo r i" "blk_lo r i < blk_hi r i" "blk_hi r i \<le> buf_hi r"
proof -
  obtain us ls where x: "xs = us @ ls" "us = [] \<longrightarrow> ls = []"
    "region r (buf_lo r) (buf_hi r) us" "region r (buf_lo r) (blk_lo r (hd us)) ls"
    using assms(1) by (auto simp: ring_order_def)
  have top: "blk_lo r (hd us) \<le> buf_hi r" if "us \<noteq> []"
    by (rule region_top [OF x(3) that])
  have "i \<in> set us \<or> i \<in> set ls" using assms(2) x(1) by auto
  then have "buf_lo r \<le> blk_lo r i \<and> blk_lo r i < blk_hi r i \<and> blk_hi r i \<le> buf_hi r"
  proof
    assume "i \<in> set us"
    then show ?thesis using x(3) by (auto simp: region_def)
  next
    assume l: "i \<in> set ls"
    then have "us \<noteq> []" using x(2) by auto
    then show ?thesis using l x(4) top by (fastforce simp: region_def)
  qed
  then show "buf_lo r \<le> blk_lo r i" "blk_lo r i < blk_hi r i" "blk_hi r i \<le> buf_hi r" by simp_all
qed

lemma ring_order_filter:
  assumes "ring_order r xs"
  shows "ring_order r (filter P xs)"
proof -
  obtain us ls where x: "xs = us @ ls" "us = [] \<longrightarrow> ls = []"
    "region r (buf_lo r) (buf_hi r) us" "region r (buf_lo r) (blk_lo r (hd us)) ls"
    using assms(1) by (auto simp: ring_order_def)
  show ?thesis
  proof (cases "filter P us = []")
    case False
    then have "blk_lo r (hd us) \<le> blk_lo r (hd (filter P us))"
      using region_hd [OF x(3), of "hd (filter P us)"] hd_in_set [OF False] by auto
    then show ?thesis using x region_filter [OF x(3), of P] region_mono [OF region_filter [OF x(4), of P]] False
      unfolding ring_order_def by (intro exI [of _ "filter P us"] exI [of _ "filter P ls"]) auto
  next
    case True
    have "region r (buf_lo r) (buf_hi r) (filter P ls)"
    proof (cases "ls = []")
      case False
      then have "us \<noteq> []" using x(2) by auto
      then have "blk_lo r (hd us) \<le> buf_hi r" by (rule region_top [OF x(3)])
      then show ?thesis using region_mono [OF region_filter [OF x(4)]] by simp
    qed simp
    then show ?thesis using True x(1) unfolding ring_order_def
      by (intro exI [of _ "filter P ls"] exI [of _ "[]"]) simp
  qed
qed

lemma ring_order_cong:
  assumes "ring_order r xs" "\<And>i. i \<in> set xs \<Longrightarrow> blk_lo r' i = blk_lo r i" "\<And>i. i \<in> set xs \<Longrightarrow> blk_hi r' i = blk_hi r i"
    "buf_lo r' = buf_lo r" "buf_hi r' = buf_hi r"
  shows "ring_order r' xs"
proof -
  obtain us ls where x: "xs = us @ ls" "us = [] \<longrightarrow> ls = []"
    "region r (buf_lo r) (buf_hi r) us" "region r (buf_lo r) (blk_lo r (hd us)) ls"
    using assms(1) by (auto simp: ring_order_def)
  have "region r' (buf_lo r) (buf_hi r) us" by (rule region_cong [OF x(3)]) (use assms x(1) in auto)
  moreover have "region r' (buf_lo r) (blk_lo r (hd us)) ls" by (rule region_cong [OF x(4)]) (use assms x(1) in auto)
  moreover have "blk_lo r' (hd us) = blk_lo r (hd us) \<or> ls = []" using x(1,2) assms(2) by (cases us) auto
  ultimately show ?thesis using x(1,2) assms(4,5) unfolding ring_order_def
    by (intro exI [of _ us] exI [of _ ls]) auto
qed

subsection \<open>Allocation\<close>

lemma rbb_distinct: "rbb_ok r xs \<Longrightarrow> distinct xs"
  by (simp add: rbb_ok_def slist_rel_def distinct_map)

lemma rbb_len: "rbb_ok r xs \<Longrightarrow> length xs \<le> unat (blk_max_num r)"
  using card_mono [of "{i. i < unat (blk_max_num r)}" "set xs"] distinct_card [OF rbb_distinct [of r xs]]
  by (auto simp: rbb_ok_def)

lemma find_empty_Some: "find_empty_blk_in_set r = Some i \<Longrightarrow> i < unat (blk_max_num r) \<and> blk_status (blk_set r i) = RT_RBB_BLK_UNUSED"
  by (auto simp: find_empty_blk_in_set_def find_Some_iff)

lemma take_bit_24: "(sz :: u32) < 0x1000000 \<Longrightarrow> take_bit 24 sz = sz"
  by (rule unsigned_word_eqI [where ?'a = nat]) (simp add: unsigned_take_bit_eq take_bit_nat_eq_self word_less_nat_alt)

lemma new_blk_spec:
  assumes ok: "rbb_ok r xs" and i: "i < unat (blk_max_num r)" "blk_status (blk_set r i) = RT_RBB_BLK_UNUSED"
    and sz: "sz < 0x1000000"
    and ro: "\<And>r'. blk_set r' = (blk_set r)(i := \<lparr>blk_status = RT_RBB_BLK_INITED, blk_size = sz, blk_buf = b\<rparr>) \<Longrightarrow>
       rbb_buf r' = rbb_buf r \<Longrightarrow> rbb_buf_size r' = rbb_buf_size r \<Longrightarrow> ring_order r' (xs @ [i])"
  shows "\<exists>r'. rbb_new_blk i b sz r = Some (Some i, r') \<and> i \<notin> set xs \<and> rbb_ok r' (xs @ [i]) \<and>
     blk_set r' = (blk_set r)(i := \<lparr>blk_status = RT_RBB_BLK_INITED, blk_size = sz, blk_buf = b\<rparr>) \<and>
     rbb_buf r' = rbb_buf r \<and> rbb_buf_size r' = rbb_buf_size r \<and> blk_max_num r' = blk_max_num r"
proof -
  have ni: "i \<notin> set xs" using ok i by (auto simp: rbb_ok_def)
  have rel: "slist_rel (blk_list r) BlkList (map Blk xs)" using ok by (simp add: rbb_ok_def)
  obtain s where s: "rt_slist_append BlkList (Blk i) (blk_list r) = Some s" "slist_rel s BlkList (map Blk xs @ [Blk i])"
    by (rule slist_append_rel [OF rel, of "Blk i"]) (use ni in auto)
  let ?r = "upd_blk i (\<lambda>_. \<lparr>blk_status = RT_RBB_BLK_INITED, blk_size = sz, blk_buf = b\<rparr>) (r\<lparr>blk_list := s\<rparr>)"
  have "ring_order ?r (xs @ [i])" by (rule ro) simp_all
  then have "rbb_ok ?r (xs @ [i])" using ok s(2) i by (auto simp: rbb_ok_def buf_hi_def)
  then show ?thesis using ni s(1) by (intro exI [of _ ?r]) (simp add: rbb_new_blk_def take_bit_24 [OF sz])
qed

text \<open>The places for a new block of \<open>n\<close> bytes: above the last block, or around at the start of the buffer.\<close>

definition free_place :: "rt_rbb \<Rightarrow> nat list \<Rightarrow> nat list \<Rightarrow> nat \<Rightarrow> nat \<Rightarrow> bool" where
  "free_place r us ls p n \<longleftrightarrow>
     us = [] \<and> p = buf_lo r \<and> buf_lo r + n \<le> buf_hi r \<or>
     us \<noteq> [] \<and> ls = [] \<and> p = blk_hi r (last us) \<and> p + n \<le> buf_hi r \<or>
     us \<noteq> [] \<and> ls = [] \<and> p = buf_lo r \<and> p + n \<le> blk_lo r (hd us) \<or>
     ls \<noteq> [] \<and> p = blk_hi r (last ls) \<and> p + n \<le> blk_lo r (hd us)"

lemma ring_order_new:
  assumes ok: "ring_order r xs" and ni: "i \<notin> set xs" and sz: "0 < unat sz"
    and set': "blk_set r' = (blk_set r)(i := \<lparr>blk_status = RT_RBB_BLK_INITED, blk_size = sz, blk_buf = b\<rparr>)"
    and buf': "rbb_buf r' = rbb_buf r" "rbb_buf_size r' = rbb_buf_size r"
    and xs: "xs = us @ ls" "us = [] \<longrightarrow> ls = []" "region r (buf_lo r) (buf_hi r) us" "region r (buf_lo r) (blk_lo r (hd us)) ls"
    and place: "free_place r us ls (unat b) (unat sz)"
  shows "ring_order r' (xs @ [i])"
proof -
  have lh: "blk_lo r' j = blk_lo r j" "blk_hi r' j = blk_hi r j" if "j \<in> set xs" for j
    using that ni set' by (auto simp: blk_lo_def blk_hi_def)
  have bl: "buf_lo r' = buf_lo r" "buf_hi r' = buf_hi r" using buf' by (simp_all add: buf_lo_def buf_hi_def)
  have new: "blk_lo r' i = unat b" "blk_hi r' i = unat b + unat sz" using set' by (simp_all add: blk_lo_def blk_hi_def)
  have u: "region r' (buf_lo r) (buf_hi r) us" by (rule region_cong [OF xs(3)]) (use lh xs(1) in auto)
  have l: "region r' (buf_lo r) (blk_lo r (hd us)) ls" by (rule region_cong [OF xs(4)]) (use lh xs(1) in auto)
  have lu: "us \<noteq> [] \<Longrightarrow> blk_lo r' (hd us) = blk_lo r (hd us)" using lh xs(1) by simp
  have lastu: "\<forall>j \<in> set us. blk_hi r' j \<le> blk_hi r (last us)" "us \<noteq> [] \<Longrightarrow> buf_lo r \<le> blk_hi r (last us)"
    using region_last [OF xs(3)] region_le_last [OF xs(3)] lh xs(1) by auto
  have lastl: "\<forall>j \<in> set ls. blk_hi r' j \<le> blk_hi r (last ls)" "ls \<noteq> [] \<Longrightarrow> buf_lo r \<le> blk_hi r (last ls)"
    using region_last [OF xs(4)] region_le_last [OF xs(4)] lh xs(1) by auto
  consider "us = []" "unat b = buf_lo r" "buf_lo r + unat sz \<le> buf_hi r"
    | "us \<noteq> []" "ls = []" "unat b = blk_hi r (last us)" "unat b + unat sz \<le> buf_hi r"
    | "us \<noteq> []" "ls = []" "unat b = buf_lo r" "unat b + unat sz \<le> blk_lo r (hd us)"
    | "us \<noteq> []" "ls \<noteq> []" "unat b = blk_hi r (last ls)" "unat b + unat sz \<le> blk_lo r (hd us)"
    using place xs(2) by (auto simp: free_place_def)
  then show ?thesis
  proof cases
    case 1
    then show ?thesis unfolding ring_order_def bl using xs(1,2) new sz
      by (intro exI [of _ "[i]"] exI [of _ "[]"]) (simp add: region_single)
  next
    case 2
    then have "region r' (buf_lo r) (buf_hi r) (us @ [i])"
      unfolding region_snoc using u lastu new sz by auto
    then show ?thesis unfolding ring_order_def bl using xs(1) 2 by (intro exI [of _ "us @ [i]"] exI [of _ "[]"]) simp
  next
    case 3
    then show ?thesis unfolding ring_order_def bl using xs(1) u new sz lu
      by (intro exI [of _ us] exI [of _ "[i]"]) (simp add: region_single)
  next
    case 4
    then have "region r' (buf_lo r) (blk_lo r (hd us)) (ls @ [i])"
      unfolding region_snoc using l lastl new sz by auto
    then show ?thesis unfolding ring_order_def bl using xs(1) u 4 lu
      by (intro exI [of _ us] exI [of _ "ls @ [i]"]) simp
  qed
qed

text \<open>What a successful allocation does.\<close>

definition blk_added :: "rt_rbb \<Rightarrow> nat list \<Rightarrow> u32 \<Rightarrow> nat \<Rightarrow> nat \<Rightarrow> rt_rbb \<Rightarrow> bool" where
  "blk_added r xs sz p i r' \<longleftrightarrow> i \<notin> set xs \<and> i < unat (blk_max_num r) \<and> rbb_ok r' (xs @ [i]) \<and>
     (\<exists>b. unat b = p \<and> blk_set r' = (blk_set r)(i := \<lparr>blk_status = RT_RBB_BLK_INITED, blk_size = sz, blk_buf = b\<rparr>)) \<and>
     rbb_buf r' = rbb_buf r \<and> rbb_buf_size r' = rbb_buf_size r \<and> blk_max_num r' = blk_max_num r"

lemma new_blk_at:
  assumes ok: "rbb_ok r xs" and i: "find_empty_blk_in_set r = Some i" and sz: "0 < sz" "sz < 0x1000000"
    and xs: "xs = us @ ls" "us = [] \<longrightarrow> ls = []" "region r (buf_lo r) (buf_hi r) us" "region r (buf_lo r) (blk_lo r (hd us)) ls"
    and place: "free_place r us ls (unat b) (unat sz)"
  shows "\<exists>r'. rbb_new_blk i b sz r = Some (Some i, r') \<and> blk_added r xs sz (unat b) i r'"
proof -
  note f = find_empty_Some [OF i]
  have ni: "i \<notin> set xs" using ok f by (auto simp: rbb_ok_def)
  have ro: "ring_order r xs" using ok by (simp add: rbb_ok_def)
  have "0 < unat sz" using sz(1) by (simp add: word_less_nat_alt)
  then have "ring_order r' (xs @ [i])"
    if "blk_set r' = (blk_set r)(i := \<lparr>blk_status = RT_RBB_BLK_INITED, blk_size = sz, blk_buf = b\<rparr>)"
      "rbb_buf r' = rbb_buf r" "rbb_buf_size r' = rbb_buf_size r" for r'
    by (rule ring_order_new [OF ro ni _ that xs place])
  from new_blk_spec [OF ok _ _ sz(2) this] f show ?thesis unfolding blk_added_def by blast
qed

text \<open>The addresses that the code computes from the first and the last block.\<close>

lemma rbb_addresses:
  assumes ok: "rbb_ok r xs" and ne: "xs \<noteq> []" and hd: "h = hd xs" and last: "t = last xs"
  shows "unat (blk_buf (blk_set r t) + blk_size (blk_set r t)) = blk_hi r t"
    "unat ((rbb_buf r + rbb_buf_size r) - (blk_buf (blk_set r t) + blk_size (blk_set r t))) = buf_hi r - blk_hi r t"
    "unat (blk_buf (blk_set r h) - rbb_buf r) = blk_lo r h - buf_lo r" "buf_lo r \<le> blk_lo r h" "blk_hi r t \<le> buf_hi r"
    "blk_hi r t \<le> blk_lo r h \<Longrightarrow> unat (blk_buf (blk_set r h) - (blk_buf (blk_set r t) + blk_size (blk_set r t))) = blk_lo r h - blk_hi r t"
proof -
  have ro: "ring_order r xs" and top: "buf_hi r < 2 ^ 32" using ok by (simp_all add: rbb_ok_def)
  note t = ring_order_inside [OF ro last_in_set [OF ne]] and h = ring_order_inside [OF ro hd_in_set [OF ne]]
  show e: "unat (blk_buf (blk_set r t) + blk_size (blk_set r t)) = blk_hi r t"
    using t(3) top by (intro trans [OF unat_add_lem [THEN iffD1]]) (simp_all add: blk_hi_def blk_lo_def last)
  have b: "unat (rbb_buf r + rbb_buf_size r) = buf_hi r"
    using top by (intro trans [OF unat_add_lem [THEN iffD1]]) (simp_all add: buf_hi_def)
  show "unat ((rbb_buf r + rbb_buf_size r) - (blk_buf (blk_set r t) + blk_size (blk_set r t))) = buf_hi r - blk_hi r t"
    using t(3) b e last by (subst unat_sub) (simp_all add: word_le_nat_alt)
  show "unat (blk_buf (blk_set r h) - rbb_buf r) = blk_lo r h - buf_lo r"
    using h(1) hd by (subst unat_sub) (simp_all add: word_le_nat_alt blk_lo_def buf_lo_def)
  show "buf_lo r \<le> blk_lo r h" "blk_hi r t \<le> buf_hi r" using h t hd last by simp_all
  show "unat (blk_buf (blk_set r h) - (blk_buf (blk_set r t) + blk_size (blk_set r t))) = blk_lo r h - blk_hi r t"
    if "blk_hi r t \<le> blk_lo r h" using that e by (subst unat_sub) (simp_all add: word_le_nat_alt blk_lo_def)
qed

text \<open>
  Where the next block goes, from the stretches of the blocks in use: behind the last block if there is
  room, or around at the start of the buffer; between the last and the first block once it is around.
\<close>

definition next_place :: "nat \<Rightarrow> nat \<Rightarrow> (nat \<times> nat) list \<Rightarrow> nat \<Rightarrow> nat option" where
  "next_place lo hi xs n =
     (if xs = [] then Some lo
      else let first = fst (hd xs); (start, stop) = last xs
           in if first \<le> start
              then if stop + n \<le> hi then Some stop else if lo + n \<le> first then Some lo else None
              else if stop + n \<le> first then Some stop else None)"

definition stretches :: "rt_rbb \<Rightarrow> nat list \<Rightarrow> (nat \<times> nat) list" where
  "stretches r xs = map (\<lambda>i. (blk_lo r i, blk_hi r i)) xs"

definition alloc_result :: "rt_rbb \<Rightarrow> nat list \<Rightarrow> u32 \<Rightarrow> nat option \<Rightarrow> bool" where
  "alloc_result r xs sz place \<longleftrightarrow>
     (case place of
        None \<Rightarrow> rt_rbb_blk_alloc sz r = Some (None, r)
      | Some p \<Rightarrow> \<exists>i r'. rt_rbb_blk_alloc sz r = Some (Some i, r') \<and> blk_added r xs sz p i r')"

lemma alloc_more:
  assumes ok: "rbb_ok r xs" and sz: "0 < sz" "sz < 0x1000000" and ne: "xs \<noteq> []"
    and i: "find_empty_blk_in_set r = Some i" and lt: "(of_nat (length xs) :: u32) < blk_max_num r" "0 < (of_nat (length xs) :: u32)"
  shows "alloc_result r xs sz (next_place (buf_lo r) (buf_hi r) (stretches r xs) (unat sz))"
proof -
  have rel: "slist_rel (blk_list r) BlkList (map Blk xs)" and ro: "ring_order r xs"
    using ok by (auto simp: rbb_ok_def)
  obtain us ls where x: "xs = us @ ls" "us = [] \<longrightarrow> ls = []"
    "region r (buf_lo r) (buf_hi r) us" "region r (buf_lo r) (blk_lo r (hd us)) ls"
    using ro by (auto simp: ring_order_def)
  have us: "us \<noteq> []" using x(1,2) ne by auto
  have hd: "hd us = hd xs" using us x(1) by simp
  have ends: "rt_slist_first BlkList (blk_list r) = Some (Blk (hd us))" "rt_slist_tail BlkList (blk_list r) = Some (Blk (last xs))"
    "rt_slist_len BlkList (blk_list r) = Some (of_nat (length xs))"
    using slist_first_rel [OF rel] slist_tail_rel [OF rel] slist_len_rel [OF rel] ne hd by (cases xs; auto simp: last_map)+
  note A = rbb_addresses [OF ok ne hd refl]
  let ?h = "blk_buf (blk_set r (hd us))" and ?e = "blk_buf (blk_set r (last xs)) + blk_size (blk_set r (last xs))"
  note new = new_blk_at [OF ok i sz x]
  have pl: "next_place (buf_lo r) (buf_hi r) (stretches r xs) (unat sz) =
      (if blk_lo r (hd us) \<le> blk_lo r (last xs)
       then if blk_hi r (last xs) + unat sz \<le> buf_hi r then Some (blk_hi r (last xs))
            else if buf_lo r + unat sz \<le> blk_lo r (hd us) then Some (buf_lo r) else None
       else if blk_hi r (last xs) + unat sz \<le> blk_lo r (hd us) then Some (blk_hi r (last xs)) else None)"
    using ne hd by (simp add: next_place_def stretches_def last_map hd_map)
  show ?thesis
  proof (cases "ls = []")
    case True
    then have xu: "last xs = last us" using x(1) by simp
    have up: "blk_lo r (hd us) \<le> blk_lo r (last xs)" using region_hd [OF x(3), of "last us"] us xu by simp
    then have "?h \<le> blk_buf (blk_set r (last xs))" by (simp add: word_le_nat_alt blk_lo_def)
    then have a: "rt_rbb_blk_alloc sz r =
        (if sz \<le> (rbb_buf r + rbb_buf_size r) - ?e then rbb_new_blk i ?e sz r
         else if sz \<le> ?h - rbb_buf r then rbb_new_blk i (rbb_buf r) sz r else Some (None, r))"
      using i sz(2) lt ends by (simp add: rt_rbb_blk_alloc_def Let_def)
    have c: "sz \<le> (rbb_buf r + rbb_buf_size r) - ?e \<longleftrightarrow> blk_hi r (last xs) + unat sz \<le> buf_hi r"
      "sz \<le> ?h - rbb_buf r \<longleftrightarrow> buf_lo r + unat sz \<le> blk_lo r (hd us)"
      using A(2-5) by (simp_all add: word_le_nat_alt) arith+
    have "free_place r us ls (unat ?e) (unat sz)" if "blk_hi r (last xs) + unat sz \<le> buf_hi r"
      using that us True A(1) xu by (simp add: free_place_def)
    moreover have "free_place r us ls (unat (rbb_buf r)) (unat sz)" if "buf_lo r + unat sz \<le> blk_lo r (hd us)"
      using that us True by (simp add: free_place_def buf_lo_def)
    ultimately show ?thesis unfolding pl alloc_result_def a c using up new [of ?e] new [of "rbb_buf r"]
      unfolding A(1) buf_lo_def by (auto split: option.split)
  next
    case ls: False
    then have xl: "last xs = last ls" using x(1) by simp
    have lt': "blk_hi r (last xs) \<le> blk_lo r (hd us)" "blk_lo r (last xs) < blk_hi r (last xs)"
      using x(4) last_in_set [OF ls] xl by (auto simp: region_def)
    then have dn: "\<not> blk_lo r (hd us) \<le> blk_lo r (last xs)" by simp
    then have "\<not> ?h \<le> blk_buf (blk_set r (last xs))" by (simp add: word_le_nat_alt blk_lo_def)
    then have a: "rt_rbb_blk_alloc sz r = (if sz \<le> ?h - ?e then rbb_new_blk i ?e sz r else Some (None, r))"
      using i sz(2) lt ends by (simp add: rt_rbb_blk_alloc_def Let_def)
    have c: "sz \<le> ?h - ?e \<longleftrightarrow> blk_hi r (last xs) + unat sz \<le> blk_lo r (hd us)"
      using A(6) [OF lt'(1)] lt'(1) by (simp add: word_le_nat_alt) arith
    have "free_place r us ls (unat ?e) (unat sz)" if "blk_hi r (last xs) + unat sz \<le> blk_lo r (hd us)"
      using that ls A(1) xl by (simp add: free_place_def)
    then show ?thesis unfolding pl alloc_result_def a c using dn new [of ?e] unfolding A(1) by auto
  qed
qed

text \<open>Every allocation of a size that the buffer has: it fails when all blocks or all places are taken.\<close>

lemma alloc_spec:
  assumes ok: "rbb_ok r xs" and sz: "0 < sz" "sz < 0x1000000" "sz \<le> rbb_buf_size r"
  shows "alloc_result r xs sz
    (if length xs < unat (blk_max_num r) then next_place (buf_lo r) (buf_hi r) (stretches r xs) (unat sz) else None)"
proof -
  have rel: "slist_rel (blk_list r) BlkList (map Blk xs)" using ok by (simp add: rbb_ok_def)
  have len: "rt_slist_len BlkList (blk_list r) = Some (of_nat (length xs))" using slist_len_rel [OF rel] by simp
  have "unat (blk_max_num r) < 2 ^ 32" using unsigned_less [of "blk_max_num r"] by simp
  then have lw: "unat (of_nat (length xs) :: u32) = length xs" using rbb_len [OF ok] by (intro unat_of_nat32) simp
  show ?thesis
  proof (cases "length xs < unat (blk_max_num r)")
    case False
    then have "\<not> (of_nat (length xs) :: u32) < blk_max_num r" by (simp add: word_less_nat_alt lw)
    then have "rt_rbb_blk_alloc sz r = Some (None, r)"
      using sz(2) len by (cases "find_empty_blk_in_set r") (simp_all add: rt_rbb_blk_alloc_def)
    then show ?thesis using False by (simp add: alloc_result_def)
  next
    case True
    then have lt: "(of_nat (length xs) :: u32) < blk_max_num r" by (simp add: word_less_nat_alt lw)
    have "find_empty_blk_in_set r \<noteq> None"
    proof
      assume "find_empty_blk_in_set r = None"
      then have "set xs = {i. i < unat (blk_max_num r)}"
        using ok by (auto simp: find_empty_blk_in_set_def find_None_iff rbb_ok_def)
      then show False using True distinct_card [OF rbb_distinct [OF ok]] by simp
    qed
    then obtain i where i: "find_empty_blk_in_set r = Some i" by auto
    show ?thesis
    proof (cases "xs = []")
      case True
      have "rt_rbb_blk_alloc sz r = rbb_new_blk i (rbb_buf r) sz r"
        using i sz(2) len lt True by (simp add: rt_rbb_blk_alloc_def)
      moreover have "free_place r [] [] (unat (rbb_buf r)) (unat sz)"
        using sz(3) by (simp add: free_place_def buf_lo_def buf_hi_def word_le_nat_alt)
      moreover have "\<exists>r'. rbb_new_blk i (rbb_buf r) sz r = Some (Some i, r') \<and> blk_added r xs sz (unat (rbb_buf r)) i r'"
        if "free_place r [] [] (unat (rbb_buf r)) (unat sz)"
        using new_blk_at [OF ok i sz(1,2), of "[]" "[]", OF _ _ _ _ that] True by simp
      ultimately show ?thesis using True \<open>length xs < unat (blk_max_num r)\<close>
        by (auto simp: alloc_result_def next_place_def stretches_def buf_lo_def)
    next
      case False
      then show ?thesis using alloc_more [OF ok sz(1,2) False i lt] True by (simp add: word_less_nat_alt lw)
    qed
  qed
qed

subsection \<open>Put, get and free\<close>

abbreviation set_status :: "nat \<Rightarrow> rt_rbb_status \<Rightarrow> rt_rbb \<Rightarrow> rt_rbb" where
  "set_status i st r \<equiv> upd_blk i (\<lambda>b. b\<lparr>blk_status := st\<rparr>) r"

lemma set_status_ok:
  assumes "rbb_ok r xs" "i \<in> set xs" "st \<noteq> RT_RBB_BLK_UNUSED"
  shows "rbb_ok (set_status i st r) xs"
proof -
  have "ring_order (set_status i st r) xs"
    by (rule ring_order_cong [of r]) (use assms(1) in \<open>auto simp: rbb_ok_def blk_lo_def blk_hi_def buf_lo_def buf_hi_def\<close>)
  then show ?thesis using assms by (auto simp: rbb_ok_def buf_hi_def)
qed

lemma remove1_filter_distinct: "distinct xs \<Longrightarrow> remove1 i xs = filter (\<lambda>j. j \<noteq> i) xs"
  by (induction xs) auto

lemma free_spec:
  assumes ok: "rbb_ok r xs" and i: "i \<in> set xs"
  shows "\<exists>r'. rt_rbb_blk_free i r = Some r' \<and> rbb_ok r' (remove1 i xs) \<and> blk_set r' = blk_set (set_status i RT_RBB_BLK_UNUSED r) \<and>
     rbb_buf r' = rbb_buf r \<and> rbb_buf_size r' = rbb_buf_size r \<and> blk_max_num r' = blk_max_num r"
proof -
  have rel: "slist_rel (blk_list r) BlkList (map Blk xs)" using ok by (simp add: rbb_ok_def)
  obtain s where s: "rt_slist_remove BlkList (Blk i) (blk_list r) = Some s" "slist_rel s BlkList (remove1 (Blk i) (map Blk xs))"
    by (rule slist_remove_rel [OF rel, of "Blk i"]) blast
  have m: "remove1 (Blk i) (map Blk xs) = map Blk (remove1 i xs)" by (induction xs) auto
  let ?r = "set_status i RT_RBB_BLK_UNUSED (r\<lparr>blk_list := s\<rparr>)"
  have "remove1 i xs = filter (\<lambda>j. j \<noteq> i) xs" by (rule remove1_filter_distinct [OF rbb_distinct [OF ok]])
  then have "ring_order r (remove1 i xs)" using ok ring_order_filter by (simp add: rbb_ok_def)
  then have "ring_order ?r (remove1 i xs)"
    by (rule ring_order_cong) (auto simp: blk_lo_def blk_hi_def buf_lo_def buf_hi_def)
  then have "rbb_ok ?r (remove1 i xs)"
    using ok s(2) m rbb_distinct [OF ok] by (auto simp: rbb_ok_def buf_hi_def)
  then show ?thesis using ok i s(1) by (intro exI [of _ ?r]) (auto simp: rt_rbb_blk_free_def rbb_ok_def)
qed

lemma get_loop_spec:
  assumes "slist_rel (blk_list r) BlkList (map Blk (pre @ post))"
  shows "rbb_get_loop (case post of [] \<Rightarrow> None | x # _ \<Rightarrow> Some (Blk x)) r =
    Some (case List.find (\<lambda>i. blk_status (blk_set r i) = RT_RBB_BLK_PUT) post of
            None \<Rightarrow> (None, r) | Some i \<Rightarrow> (Some i, set_status i RT_RBB_BLK_GET r))"
  using assms
proof (induction post arbitrary: pre)
  case (Cons x post)
  have "rt_slist_next (Blk x) (blk_list r) = (case post of [] \<Rightarrow> None | x # _ \<Rightarrow> Some (Blk x))"
    using slist_next_rel [of "blk_list r" BlkList "map Blk pre" "Blk x" "map Blk post"] Cons.prems by (cases post) auto
  then show ?case using Cons.IH [of "pre @ [x]"] Cons.prems by (simp add: rbb_get_loop.simps)
qed (simp add: rbb_get_loop.simps)

lemma get_spec:
  assumes ok: "rbb_ok r xs"
  shows "rt_rbb_blk_get r = Some (case List.find (\<lambda>i. blk_status (blk_set r i) = RT_RBB_BLK_PUT) xs of
            None \<Rightarrow> (None, r) | Some i \<Rightarrow> (Some i, set_status i RT_RBB_BLK_GET r))"
proof -
  have rel: "slist_rel (blk_list r) BlkList (map Blk xs)" using ok by (simp add: rbb_ok_def)
  have first: "rt_slist_first BlkList (blk_list r) = (case xs of [] \<Rightarrow> None | x # _ \<Rightarrow> Some (Blk x))"
    using slist_first_rel [OF rel] by (cases xs) auto
  show ?thesis
    using get_loop_spec [of r "[]" xs] rel slist_empty_rel [OF rel] first by (cases "xs = []") (auto simp: rt_rbb_blk_get_def)
qed

subsection \<open>The queue of blocks that the buffer implements\<close>

text \<open>
  What the users see: the blocks in use in the order of allocation, each with its status, the address
  it was given at and the size it was asked for.  Users take non-empty blocks of at most the size of
  the buffer, put what they took, and free what is theirs; a call that is refused is a step too.
\<close>

record used_blk =
  u_blk :: nat
  u_status :: rt_rbb_status
  u_lo :: nat
  u_size :: nat

definition q_mark :: "nat \<Rightarrow> rt_rbb_status \<Rightarrow> used_blk list \<Rightarrow> used_blk list" where
  "q_mark i st q = map (\<lambda>u. if u_blk u = i then u\<lparr>u_status := st\<rparr> else u) q"

definition q_first_put :: "used_blk list \<Rightarrow> nat option" where
  "q_first_put q = map_option u_blk (List.find (\<lambda>u. u_status u = RT_RBB_BLK_PUT) q)"

definition q_stretches :: "used_blk list \<Rightarrow> (nat \<times> nat) list" where
  "q_stretches q = map (\<lambda>u. (u_lo u, u_lo u + u_size u)) q"

inductive rbb_run :: "rt_rbb \<Rightarrow> used_blk list \<Rightarrow> rt_rbb \<Rightarrow> bool" for r0 :: rt_rbb where
  run_start: "rbb_run r0 [] r0"
| run_alloc: "rbb_run r0 q r \<Longrightarrow> 0 < sz \<Longrightarrow> sz < 0x1000000 \<Longrightarrow> sz \<le> rbb_buf_size r \<Longrightarrow>
    rt_rbb_blk_alloc sz r = Some (Some i, r') \<Longrightarrow>
    rbb_run r0 (q @ [\<lparr>u_blk = i, u_status = RT_RBB_BLK_INITED, u_lo = unat (rt_rbb_blk_buf i r'), u_size = unat sz\<rparr>]) r'"
| run_refused: "rbb_run r0 q r \<Longrightarrow> 0 < sz \<Longrightarrow> sz < 0x1000000 \<Longrightarrow> sz \<le> rbb_buf_size r \<Longrightarrow>
    rt_rbb_blk_alloc sz r = Some (None, r') \<Longrightarrow> rbb_run r0 q r'"
| run_put: "rbb_run r0 q r \<Longrightarrow> u \<in> set q \<Longrightarrow> u_status u = RT_RBB_BLK_INITED \<Longrightarrow> rt_rbb_blk_put (u_blk u) r = Some r' \<Longrightarrow>
    rbb_run r0 (q_mark (u_blk u) RT_RBB_BLK_PUT q) r'"
| run_get: "rbb_run r0 q r \<Longrightarrow> rt_rbb_blk_get r = Some (Some i, r') \<Longrightarrow> rbb_run r0 (q_mark i RT_RBB_BLK_GET q) r'"
| run_nothing: "rbb_run r0 q r \<Longrightarrow> rt_rbb_blk_get r = Some (None, r') \<Longrightarrow> rbb_run r0 q r'"
| run_free: "rbb_run r0 q r \<Longrightarrow> i \<in> u_blk ` set q \<Longrightarrow> rt_rbb_blk_free i r = Some r' \<Longrightarrow>
    rbb_run r0 (filter (\<lambda>u. u_blk u \<noteq> i) q) r'"

definition blk_shows :: "rt_rbb \<Rightarrow> used_blk \<Rightarrow> bool" where
  "blk_shows r u \<longleftrightarrow> blk_status (blk_set r (u_blk u)) = u_status u \<and> unat (rt_rbb_blk_buf (u_blk u) r) = u_lo u \<and>
     unat (rt_rbb_blk_size (u_blk u) r) = u_size u"

definition same_buffer :: "rt_rbb \<Rightarrow> rt_rbb \<Rightarrow> bool" where
  "same_buffer r r' \<longleftrightarrow> rbb_buf r' = rbb_buf r \<and> rbb_buf_size r' = rbb_buf_size r \<and> blk_max_num r' = blk_max_num r"

definition rbb_shows :: "rt_rbb \<Rightarrow> used_blk list \<Rightarrow> rt_rbb \<Rightarrow> bool" where
  "rbb_shows r0 q r \<longleftrightarrow> rbb_ok r (map u_blk q) \<and> (\<forall>u \<in> set q. blk_shows r u) \<and> same_buffer r0 r"

lemma u_blk_q_mark [simp]: "map u_blk (q_mark i st q) = map u_blk q"
  by (auto simp: q_mark_def)

lemma shows_mark:
  assumes "rbb_shows r0 q r" "i \<in> u_blk ` set q" "st \<noteq> RT_RBB_BLK_UNUSED"
  shows "rbb_shows r0 (q_mark i st q) (set_status i st r)"
proof -
  have "rbb_ok (set_status i st r) (map u_blk (q_mark i st q))"
    using assms set_status_ok [of r "map u_blk q" i st] by (simp add: rbb_shows_def)
  moreover have "\<forall>u \<in> set (q_mark i st q). blk_shows (set_status i st r) u"
    using assms(1) by (auto simp: rbb_shows_def q_mark_def blk_shows_def rt_rbb_blk_buf_def rt_rbb_blk_size_def)
  ultimately show ?thesis using assms(1) by (simp add: rbb_shows_def same_buffer_def)
qed

lemma find_first_put:
  assumes "rbb_shows r0 q r"
  shows "List.find (\<lambda>i. blk_status (blk_set r i) = RT_RBB_BLK_PUT) (map u_blk q) = q_first_put q"
proof -
  have "\<forall>u \<in> set q. blk_shows r u" using assms by (simp add: rbb_shows_def)
  then show ?thesis by (induction q) (auto simp: q_first_put_def blk_shows_def)
qed

lemma first_put_in: "q_first_put q = Some i \<Longrightarrow> i \<in> u_blk ` set q"
  by (induction q) (auto simp: q_first_put_def split: if_splits)

lemma get_shows:
  assumes sh: "rbb_shows r0 q r"
  shows "rt_rbb_blk_get r = Some (case q_first_put q of None \<Rightarrow> (None, r) | Some i \<Rightarrow> (Some i, set_status i RT_RBB_BLK_GET r))"
  using get_spec [of r "map u_blk q"] find_first_put [OF sh] sh by (simp add: rbb_shows_def)

lemma shows_added:
  assumes sh: "rbb_shows r0 q r" and a: "blk_added r (map u_blk q) sz p i r'"
  shows "rbb_shows r0 (q @ [\<lparr>u_blk = i, u_status = RT_RBB_BLK_INITED, u_lo = unat (rt_rbb_blk_buf i r'), u_size = unat sz\<rparr>]) r'"
    "unat (rt_rbb_blk_buf i r') = p"
proof -
  have "blk_shows r' u" if "u \<in> set q" for u
    using that sh a by (force simp: rbb_shows_def blk_added_def blk_shows_def rt_rbb_blk_buf_def rt_rbb_blk_size_def)
  moreover obtain b where "blk_set r' = (blk_set r)(i := \<lparr>blk_status = RT_RBB_BLK_INITED, blk_size = sz, blk_buf = b\<rparr>)" "unat b = p"
    using a by (auto simp: blk_added_def)
  ultimately show "rbb_shows r0 (q @ [\<lparr>u_blk = i, u_status = RT_RBB_BLK_INITED, u_lo = unat (rt_rbb_blk_buf i r'), u_size = unat sz\<rparr>]) r'"
    "unat (rt_rbb_blk_buf i r') = p"
    using sh a by (auto simp: rbb_shows_def blk_added_def same_buffer_def blk_shows_def rt_rbb_blk_buf_def rt_rbb_blk_size_def)
qed

lemma shows_free:
  assumes sh: "rbb_shows r0 q r" and i: "i \<in> u_blk ` set q"
  shows "\<exists>r'. rt_rbb_blk_free i r = Some r' \<and> rbb_shows r0 (filter (\<lambda>u. u_blk u \<noteq> i) q) r'"
proof -
  have ok: "rbb_ok r (map u_blk q)" using sh by (simp add: rbb_shows_def)
  obtain r' where r': "rt_rbb_blk_free i r = Some r'" "rbb_ok r' (remove1 i (map u_blk q))"
    "blk_set r' = blk_set (set_status i RT_RBB_BLK_UNUSED r)" "same_buffer r r'"
    using free_spec [OF ok, of i] i by (auto simp: same_buffer_def)
  have "map u_blk (filter (\<lambda>u. u_blk u \<noteq> i) q) = filter (\<lambda>j. j \<noteq> i) (map u_blk q)" by (induction q) auto
  also have "\<dots> = remove1 i (map u_blk q)"
    by (rule remove1_filter_distinct [OF rbb_distinct [OF ok], symmetric])
  finally show ?thesis using r' sh
    by (auto simp: rbb_shows_def same_buffer_def blk_shows_def rt_rbb_blk_buf_def rt_rbb_blk_size_def)
qed

lemma shows_alloc:
  assumes sh: "rbb_shows r0 q r" and sz: "0 < sz" "sz < 0x1000000" "sz \<le> rbb_buf_size r0"
  shows "alloc_result r (map u_blk q) sz
    (if length q < unat (blk_max_num r0) then next_place (buf_lo r0) (buf_hi r0) (q_stretches q) (unat sz) else None)"
proof -
  have s: "rbb_ok r (map u_blk q)" "\<forall>u \<in> set q. blk_shows r u" "same_buffer r0 r" using sh by (simp_all add: rbb_shows_def)
  have "stretches r (map u_blk q) = q_stretches q"
    using s(2) by (simp add: stretches_def q_stretches_def blk_hi_def blk_lo_def blk_shows_def rt_rbb_blk_buf_def rt_rbb_blk_size_def)
  moreover have "buf_lo r = buf_lo r0" "buf_hi r = buf_hi r0" "blk_max_num r = blk_max_num r0" "rbb_buf_size r = rbb_buf_size r0"
    using s(3) by (simp_all add: same_buffer_def buf_lo_def buf_hi_def)
  moreover have "alloc_result r (map u_blk q) sz
    (if length q < unat (blk_max_num r) then next_place (buf_lo r) (buf_hi r) (stretches r (map u_blk q)) (unat sz) else None)"
    using alloc_spec [OF s(1) sz(1,2)] sz(3) calculation(5) by simp
  ultimately show ?thesis by (simp only:)
qed

lemma run_shows: "rbb_run r0 q r \<Longrightarrow> rbb_ok r0 [] \<Longrightarrow> rbb_shows r0 q r"
proof (induction rule: rbb_run.induct)
  case (run_alloc q r sz i r')
  then have sh: "rbb_shows r0 q r" by simp
  then have "rbb_buf_size r = rbb_buf_size r0" by (simp add: rbb_shows_def same_buffer_def)
  then obtain p where "blk_added r (map u_blk q) sz p i r'"
    using shows_alloc [OF sh, of sz] run_alloc.hyps(2-5) by (auto simp: alloc_result_def split: option.splits)
  then show ?case by (rule shows_added(1) [OF sh])
next
  case (run_refused q r sz r')
  then have sh: "rbb_shows r0 q r" by simp
  then have "rbb_buf_size r = rbb_buf_size r0" by (simp add: rbb_shows_def same_buffer_def)
  then have "r' = r" using shows_alloc [OF sh, of sz] run_refused.hyps(2-5) by (auto simp: alloc_result_def split: option.splits)
  then show ?case using sh by simp
next
  case (run_put q r u r')
  then have "r' = set_status (u_blk u) RT_RBB_BLK_PUT r" by (simp add: rt_rbb_blk_put_def split: if_splits)
  then show ?case using shows_mark [of r0 q r "u_blk u" RT_RBB_BLK_PUT] run_put by simp
next
  case (run_get q r i r')
  then have sh: "rbb_shows r0 q r" by simp
  from get_shows [OF sh] run_get.hyps(2)
  have g: "q_first_put q = Some i" "r' = set_status i RT_RBB_BLK_GET r" by (auto split: option.splits)
  then have "i \<in> u_blk ` set q" by (simp add: first_put_in)
  then show ?case using shows_mark [OF sh, of i RT_RBB_BLK_GET] g by simp
next
  case (run_nothing q r r')
  then have sh: "rbb_shows r0 q r" by simp
  from get_shows [OF sh] run_nothing.hyps(2) have "r' = r" by (auto split: option.splits)
  then show ?case using sh by simp
next
  case (run_free q r i r')
  then show ?case using shows_free [of r0 q r i] by auto
qed (simp add: rbb_shows_def same_buffer_def)

text \<open>
  C37.  In any run of allocations of non-empty blocks of at most the size of the buffer, puts, gets and
  frees, refused ones included, the list of blocks is the queue of the blocks in use; each stays at the
  address it was given and keeps the size it was asked for; they lie inside the buffer and no two of them
  overlap, also when the buffer has been gone around and blocks were freed out of turn; \<^verbatim>\<open>rt_rbb_blk_get\<close>
  returns the first block of the queue that was put; an allocation returns a block that is not in
  use, at the place that \<open>next_place\<close> computes from the queue, and \<^verbatim>\<open>RT_NULL\<close> only when there is none or
  all blocks are in use; and no call fails.
\<close>

theorem rbb_run_refines_queue:
  assumes run: "rbb_run (rt_rbb_init b n bs m s) q r" and buf: "unat b + unat n < 2 ^ 32"
  shows "slist_rel (blk_list r) BlkList (map (Blk \<circ> u_blk) q) \<and>
    (\<forall>u \<in> set q. blk_status (blk_set r (u_blk u)) = u_status u \<and> unat (rt_rbb_blk_buf (u_blk u) r) = u_lo u \<and>
       unat (rt_rbb_blk_size (u_blk u) r) = u_size u \<and> unat b \<le> u_lo u \<and> 0 < u_size u \<and> u_lo u + u_size u \<le> unat b + unat n) \<and>
    (\<forall>u \<in> set q. \<forall>v \<in> set q. u_blk u \<noteq> u_blk v \<longrightarrow> u_lo u + u_size u \<le> u_lo v \<or> u_lo v + u_size v \<le> u_lo u) \<and>
    map_option fst (rt_rbb_blk_get r) = Some (q_first_put q) \<and>
    (\<forall>sz. 0 < sz \<and> sz < 0x1000000 \<and> sz \<le> n \<longrightarrow>
       (\<exists>res r'. rt_rbb_blk_alloc sz r = Some (res, r') \<and>
          (case (if length q < unat m then next_place (unat b) (unat b + unat n) (q_stretches q) (unat sz) else None) of
             None \<Rightarrow> res = None
           | Some p \<Rightarrow> \<exists>i. res = Some i \<and> i < unat m \<and> i \<notin> u_blk ` set q \<and> unat (rt_rbb_blk_buf i r') = p))) \<and>
    (\<forall>u \<in> set q. (u_status u = RT_RBB_BLK_INITED \<longrightarrow> rt_rbb_blk_put (u_blk u) r \<noteq> None) \<and> rt_rbb_blk_free (u_blk u) r \<noteq> None)"
proof -
  let ?r0 = "rt_rbb_init b n bs m s"
  have r0: "buf_lo ?r0 = unat b" "buf_hi ?r0 = unat b + unat n" "blk_max_num ?r0 = m" "rbb_buf_size ?r0 = n"
    by (simp_all add: rt_rbb_init_def buf_lo_def buf_hi_def)
  have "rbb_ok ?r0 []"
    using buf slist_init_rel [of BlkList s]
    by (auto simp: rbb_ok_def rt_rbb_init_def buf_hi_def ring_order_def)
  from run_shows [OF run this] have sh: "rbb_shows ?r0 q r" .
  then have ok: "rbb_ok r (map u_blk q)" and at: "\<forall>u \<in> set q. blk_shows r u" and sb: "same_buffer ?r0 r"
    by (simp_all add: rbb_shows_def)
  have b: "buf_lo r = unat b" "buf_hi r = unat b + unat n" using sb r0 by (simp_all add: same_buffer_def buf_lo_def buf_hi_def)
  have ro: "ring_order r (map u_blk q)" using ok by (simp add: rbb_ok_def)
  have lh: "blk_lo r (u_blk u) = u_lo u" "blk_hi r (u_blk u) = u_lo u + u_size u" if "u \<in> set q" for u
    using at that by (auto simp: blk_shows_def blk_hi_def blk_lo_def rt_rbb_blk_buf_def rt_rbb_blk_size_def)
  have "slist_rel (blk_list r) BlkList (map (Blk \<circ> u_blk) q)" using ok by (simp add: rbb_ok_def)
  moreover have "unat b \<le> u_lo u \<and> 0 < u_size u \<and> u_lo u + u_size u \<le> unat b + unat n" if "u \<in> set q" for u
    using ring_order_inside [OF ro, of "u_blk u"] that lh [OF that] b by simp
  moreover have "u_lo u + u_size u \<le> u_lo v \<or> u_lo v + u_size v \<le> u_lo u" if "u \<in> set q" "v \<in> set q" "u_blk u \<noteq> u_blk v" for u v
    using ring_order_disjoint [OF ro, of "u_blk u" "u_blk v"] that lh by simp
  moreover have "map_option fst (rt_rbb_blk_get r) = Some (q_first_put q)"
    using get_shows [OF sh] by (simp split: option.split)
  moreover have "\<exists>res r'. rt_rbb_blk_alloc sz r = Some (res, r') \<and>
      (case (if length q < unat m then next_place (unat b) (unat b + unat n) (q_stretches q) (unat sz) else None) of
         None \<Rightarrow> res = None
       | Some p \<Rightarrow> \<exists>i. res = Some i \<and> i < unat m \<and> i \<notin> u_blk ` set q \<and> unat (rt_rbb_blk_buf i r') = p)"
    if "0 < sz" "sz < 0x1000000" "sz \<le> n" for sz
  proof -
    have al: "alloc_result r (map u_blk q) sz (if length q < unat m then next_place (unat b) (unat b + unat n) (q_stretches q) (unat sz) else None)"
      using shows_alloc [OF sh that(1,2)] that(3) unfolding r0 by simp
    have m: "blk_max_num r = m" using sb r0 by (simp add: same_buffer_def)
    show ?thesis
    proof (cases "if length q < unat m then next_place (unat b) (unat b + unat n) (q_stretches q) (unat sz) else None")
      case None
      then show ?thesis using al by (simp add: alloc_result_def)
    next
      case (Some p)
      then obtain i r' where a: "rt_rbb_blk_alloc sz r = Some (Some i, r')" "blk_added r (map u_blk q) sz p i r'"
        using al by (auto simp: alloc_result_def)
      then show ?thesis using Some shows_added(2) [OF sh a(2)] m by (auto simp: blk_added_def)
    qed
  qed
  moreover have "\<forall>u \<in> set q. (u_status u = RT_RBB_BLK_INITED \<longrightarrow> rt_rbb_blk_put (u_blk u) r \<noteq> None) \<and> rt_rbb_blk_free (u_blk u) r \<noteq> None"
    using at shows_free [OF sh] by (fastforce simp: rt_rbb_blk_put_def blk_shows_def)
  ultimately show ?thesis using at unfolding blk_shows_def by blast
qed

text \<open>A buffer of 100 bytes with 4 blocks.\<close>

definition rbb_demo :: rt_rbb where
  "rbb_demo = rt_rbb_init 1000 100 (\<lambda>_. \<lparr>blk_status = RT_RBB_BLK_GET, blk_size = 0, blk_buf = 0\<rparr>) 4 (\<lambda>_. None)"

lemma rbb_demo_ok: "rbb_ok rbb_demo []"
  using slist_init_rel [of BlkList "\<lambda>_. None"] by (auto simp: rbb_ok_def rbb_demo_def rt_rbb_init_def buf_hi_def ring_order_def)

lemma demo_blk: "\<exists>i r. rt_rbb_blk_alloc 40 rbb_demo = Some (Some i, r) \<and> blk_added rbb_demo [] 40 1000 i r"
  using alloc_spec [OF rbb_demo_ok, of 40]
  by (simp add: alloc_result_def next_place_def stretches_def rbb_demo_def rt_rbb_init_def buf_lo_def)

definition demo_used :: "nat \<Rightarrow> rt_rbb_status \<Rightarrow> used_blk" where
  "demo_used i st = \<lparr>u_blk = i, u_status = st, u_lo = 1000, u_size = 40\<rparr>"

lemma blk_demo_run:
  assumes a: "rt_rbb_blk_alloc 40 rbb_demo = Some (Some i, r)" "blk_added rbb_demo [] 40 1000 i r"
  shows "rbb_run rbb_demo [demo_used i RT_RBB_BLK_INITED] r"
proof -
  have "rbb_run rbb_demo ([] @ [\<lparr>u_blk = i, u_status = RT_RBB_BLK_INITED, u_lo = unat (rt_rbb_blk_buf i r), u_size = unat (40 :: u32)\<rparr>]) r"
    by (rule run_alloc [OF run_start _ _ _ a(1)]) (simp_all add: rbb_demo_def rt_rbb_init_def)
  moreover have "unat (rt_rbb_blk_buf i r) = 1000" using a(2) by (auto simp: blk_added_def rt_rbb_blk_buf_def)
  ultimately show ?thesis by (simp add: demo_used_def)
qed

text \<open>A second block of 40 bytes goes behind the first one; one of 70 bytes is refused.\<close>

theorem rbb_run_refines_queue_witness:
  "\<exists>i r j r1 r2. rbb_run rbb_demo [demo_used i RT_RBB_BLK_INITED] r \<and> rt_rbb_blk_put i r \<noteq> None \<and>
     rt_rbb_blk_alloc 40 r = Some (Some j, r1) \<and> unat (rt_rbb_blk_buf j r1) = 1040 \<and> rt_rbb_blk_alloc 70 r = Some (None, r2)"
proof -
  obtain i r where a: "rt_rbb_blk_alloc 40 rbb_demo = Some (Some i, r)" "blk_added rbb_demo [] 40 1000 i r" using demo_blk by blast
  have place: "next_place 1000 1100 (q_stretches [demo_used i RT_RBB_BLK_INITED]) n = (if n \<le> 60 then Some 1040 else None)" for n
    by (simp add: next_place_def q_stretches_def demo_used_def)
  note run = blk_demo_run [OF a]
  have sel: "u_blk (demo_used i st) = i" "u_status (demo_used i st) = st" for st by (simp_all add: demo_used_def)
  have T: "rbb_run (rt_rbb_init 1000 100 (\<lambda>_. \<lparr>blk_status = RT_RBB_BLK_GET, blk_size = 0, blk_buf = 0\<rparr>) 4 (\<lambda>_. None))
      [demo_used i RT_RBB_BLK_INITED] r" using run by (simp only: rbb_demo_def)
  note C = rbb_run_refines_queue [OF T]
  have put: "rt_rbb_blk_put i r \<noteq> None" using C by (simp add: sel)
  have "\<exists>j r'. rt_rbb_blk_alloc sz r = Some (Some j, r') \<and> unat (rt_rbb_blk_buf j r') = 1040"
    if "0 < sz" "sz < 0x1000000" "sz \<le> 100" "unat sz \<le> 60" for sz
    using C that by (fastforce simp: place sel)
  moreover have "\<exists>r'. rt_rbb_blk_alloc sz r = Some (None, r')"
    if "0 < sz" "sz < 0x1000000" "sz \<le> 100" "\<not> unat sz \<le> 60" for sz
    using C that by (fastforce simp: place sel)
  ultimately have "\<exists>j r'. rt_rbb_blk_alloc 40 r = Some (Some j, r') \<and> unat (rt_rbb_blk_buf j r') = 1040"
    "\<exists>r'. rt_rbb_blk_alloc 70 r = Some (None, r')" by simp_all
  then show ?thesis using run put by blast
qed

subsection \<open>Where it goes wrong\<close>

text \<open>
  The size is not compared with the size of the buffer when no block is in use: the block goes
  past the end of the buffer.
\<close>

theorem rbb_alloc_too_large:
  assumes ok: "rbb_ok r []" and m: "blk_max_num r \<noteq> 0" and sz: "rbb_buf_size r < sz" "sz < 0x1000000"
  shows "\<exists>i r'. rt_rbb_blk_alloc sz r = Some (Some i, r') \<and> blk_lo r' i = buf_lo r \<and> blk_hi r' i > buf_hi r"
proof -
  have "0 < unat (blk_max_num r)" using m by (simp add: unat_gt_0)
  then have "blk_status (blk_set r 0) = RT_RBB_BLK_UNUSED" "0 \<in> set [0..<unat (blk_max_num r)]" using ok by (auto simp: rbb_ok_def)
  then have "find_empty_blk_in_set r \<noteq> None" by (auto simp: find_empty_blk_in_set_def find_None_iff)
  then obtain i where i: "find_empty_blk_in_set r = Some i" by auto
  have rel: "slist_rel (blk_list r) BlkList []" using ok by (simp add: rbb_ok_def)
  have "0 < blk_max_num r" using m by (simp add: word_gt_0)
  then have "rt_rbb_blk_alloc sz r = rbb_new_blk i (rbb_buf r) sz r"
    using slist_len_rel [OF rel] sz(2) i by (simp add: rt_rbb_blk_alloc_def)
  moreover obtain s where "rt_slist_append BlkList (Blk i) (blk_list r) = Some s"
    by (rule slist_append_rel [OF rel, of "Blk i"]) auto
  ultimately show ?thesis using sz
    by (auto simp: rbb_new_blk_def blk_lo_def blk_hi_def buf_lo_def buf_hi_def take_bit_24 word_less_nat_alt)
qed

theorem rbb_alloc_too_large_witness:
  "\<exists>i r'. rt_rbb_blk_alloc 101 rbb_demo = Some (Some i, r') \<and> blk_lo r' i = buf_lo rbb_demo \<and> blk_hi r' i > buf_hi rbb_demo"
  by (rule rbb_alloc_too_large [OF rbb_demo_ok]) (simp_all add: rbb_demo_def rt_rbb_init_def)

text \<open>
  C38.  \<^verbatim>\<open>rt_rbb_blk_queue_get\<close> takes the blocks of its queue off the list, although the user has
  still to read them: when the only block of the buffer was taken so, the next allocation begins
  again at the start of the buffer and gives the same memory to a second user.
\<close>

theorem rbb_queue_get_reuses:
  assumes ok: "rbb_ok r [i]" and put: "blk_status (blk_set r i) = RT_RBB_BLK_PUT" and at: "blk_lo r i = buf_lo r"
    and m: "1 < blk_max_num r" and sz: "0 < sz" "sz < 0x1000000" "sz \<le> rbb_buf_size r"
  shows "\<exists>q' r1 j r2. rt_rbb_blk_queue_get max_len q r = Some (blk_size (blk_set r i), q', r1) \<and>
    q' = \<lparr>q_blocks = i, q_num = 1\<rparr> \<and> rt_rbb_blk_alloc sz r1 = Some (Some j, r2) \<and> j \<noteq> i \<and>
    blk_status (blk_set r2 i) = RT_RBB_BLK_GET \<and> blk_lo r2 j = blk_lo r2 i"
proof -
  have rel: "slist_rel (blk_list r) BlkList [Blk i]" using ok by (simp add: rbb_ok_def)
  obtain s where s: "rt_slist_remove BlkList (Blk i) (blk_list r) = Some s" "slist_rel s BlkList (remove1 (Blk i) [Blk i])"
    "s (Blk i) = blk_list r (Blk i)" by (rule slist_remove_rel [OF rel, of "Blk i"]) auto
  let ?r1 = "set_status i RT_RBB_BLK_GET (r\<lparr>blk_list := s\<rparr>)"
  have nx: "rt_slist_next (Blk i) s = None"
    using slist_next_rel [of "blk_list r" BlkList "[]" "Blk i" "[]"] rel s(3) by (simp add: rt_slist_next_def)
  have g: "rt_rbb_blk_queue_get max_len q r = Some (blk_size (blk_set r i), \<lparr>q_blocks = i, q_num = 1\<rparr>, ?r1)"
    using slist_empty_rel [OF rel] slist_first_rel [OF rel] put s(1) nx
    by (simp add: rt_rbb_blk_queue_get_def rbb_queue_loop.simps rbb_queue_take_def)
  have len: "rt_slist_len BlkList s = Some 0" using slist_len_rel [of s BlkList "[]"] s(2) by simp
  define j :: nat where "j = (if i = 0 then 1 else 0)"
  have jm: "j < unat (blk_max_num r)" "j \<noteq> i" using m by (auto simp: j_def word_less_nat_alt)
  have "blk_status (blk_set r j) = RT_RBB_BLK_UNUSED" using ok jm by (auto simp: rbb_ok_def)
  then have "find_empty_blk_in_set ?r1 \<noteq> None" using jm by (auto simp: find_empty_blk_in_set_def find_None_iff)
  then obtain l where l: "find_empty_blk_in_set ?r1 = Some l" by auto
  then have li: "l \<noteq> i" using find_empty_Some [OF l] by auto
  have m0: "0 < blk_max_num r" using m by (simp add: word_less_nat_alt)
  then have "rt_rbb_blk_alloc sz ?r1 = rbb_new_blk l (rbb_buf r) sz ?r1"
    using sz(2) l len by (simp add: rt_rbb_blk_alloc_def)
  moreover obtain s2 where "rt_slist_append BlkList (Blk l) s = Some s2"
    by (rule slist_append_rel [of s BlkList "[]" "Blk l"]) (use s(2) in auto)
  ultimately show ?thesis using g li at by (auto simp: rbb_new_blk_def blk_lo_def buf_lo_def)
qed

theorem rbb_queue_get_reuses_witness:
  "\<exists>i r q' r1 j r2. rbb_run rbb_demo [demo_used i RT_RBB_BLK_PUT] r \<and>
     rt_rbb_blk_queue_get 100 \<lparr>q_blocks = 0, q_num = 0\<rparr> r = Some (40, q', r1) \<and>
     rt_rbb_blk_alloc 10 r1 = Some (Some j, r2) \<and> j \<noteq> i \<and> blk_lo r2 j = blk_lo r2 i"
proof -
  have i: "find_empty_blk_in_set rbb_demo = Some 0" by (simp add: find_empty_blk_in_set_def rbb_demo_def rt_rbb_init_def upt_rec)
  have "slist_rel (blk_list rbb_demo) BlkList []" using rbb_demo_ok by (simp add: rbb_ok_def)
  then have len: "rt_slist_len BlkList (blk_list rbb_demo) = Some 0" using slist_len_rel by force
  obtain j r where a: "rt_rbb_blk_alloc 40 rbb_demo = Some (Some j, r)" "blk_added rbb_demo [] 40 1000 j r" using demo_blk by blast
  have "rt_rbb_blk_alloc 40 rbb_demo = rbb_new_blk 0 1000 40 rbb_demo"
    using i len by (simp add: rt_rbb_blk_alloc_def) (simp add: rbb_demo_def rt_rbb_init_def)
  with a(1) have j: "j = 0" "blk_set r 0 = \<lparr>blk_status = RT_RBB_BLK_INITED, blk_size = 40, blk_buf = 1000\<rparr>"
    by (auto simp: rbb_new_blk_def take_bit_24 split: bind_splits)
  let ?r = "set_status 0 RT_RBB_BLK_PUT r"
  have run1: "rbb_run rbb_demo [demo_used 0 RT_RBB_BLK_INITED] r" using blk_demo_run [OF a] by (simp add: j(1))
  have "rbb_run rbb_demo (q_mark (u_blk (demo_used 0 RT_RBB_BLK_INITED)) RT_RBB_BLK_PUT [demo_used 0 RT_RBB_BLK_INITED]) ?r"
    by (rule run_put [OF run1]) (simp_all add: rt_rbb_blk_put_def j(2) demo_used_def)
  then have run: "rbb_run rbb_demo [demo_used 0 RT_RBB_BLK_PUT] ?r" by (simp add: q_mark_def demo_used_def)
  have ok: "rbb_ok ?r [0]" using run_shows [OF run rbb_demo_ok] by (simp add: rbb_shows_def demo_used_def)
  have b: "rbb_buf r = 1000" "rbb_buf_size r = 100" "blk_max_num r = 4"
    using a(2) by (auto simp: blk_added_def) (auto simp: rbb_demo_def rt_rbb_init_def)
  from rbb_queue_get_reuses [OF ok, of 10 100 "\<lparr>q_blocks = 0, q_num = 0\<rparr>"] show ?thesis
    using run by (fastforce simp: j(2) b blk_lo_def buf_lo_def)
qed

end
