(* ===== verification/Dfs_Path.thy ===== *)
theory Dfs_Path
  imports Heap_Lib Kservice_Print
begin

text \<open>
  Path names of the device file system, \<^verbatim>\<open>rt-thread/components/dfs/src/dfs.c\<close>:
  \<^verbatim>\<open>dfs_normalize_path\<close>, which joins a directory and a file name in a block of the heap and then
  removes the empty, \<open>.\<close> and \<open>..\<close> components in place, and \<^verbatim>\<open>dfs_subdir\<close>.
\<close>

subsection \<open>The loop in place\<close>

abbreviation (input) slash :: u8 where "slash \<equiv> 0x2f"
abbreviation (input) dot :: u8 where "dot \<equiv> 0x2e"

text \<open>\<^verbatim>\<open>while ((*src == '/') && (*src != '\0')) src ++;\<close>\<close>

partial_function (option) skip_slashes :: "u32 \<Rightarrow> memory \<Rightarrow> u32 option" where
  "skip_slashes src m = (if m src = slash \<and> m src \<noteq> 0 then skip_slashes (src + 1) m else Some src)"

text \<open>\<^verbatim>\<open>while ((c = *src++) != '\0' && c != '/') *dst ++ = c;\<close>\<close>

partial_function (option) copy_name :: "u32 \<Rightarrow> u32 \<Rightarrow> memory \<Rightarrow> (u8 \<times> u32 \<times> u32 \<times> memory) option" where
  "copy_name src dst m =
     (if m src \<noteq> 0 \<and> m src \<noteq> slash then copy_name (src + 1) (dst + 1) (m(dst := m src))
      else Some (m src, src + 1, dst, m))"

text \<open>\<^verbatim>\<open>while (c == '/') c = *src++;\<close>\<close>

partial_function (option) erase_slashes :: "u8 \<Rightarrow> u32 \<Rightarrow> memory \<Rightarrow> u32 option" where
  "erase_slashes c src m = (if c = slash then erase_slashes (m src) (src + 1) m else Some src)"

text \<open>\<^verbatim>\<open>while (dst0 < dst && dst[-1] != '/') dst --;\<close>\<close>

partial_function (option) back_up :: "u32 \<Rightarrow> u32 \<Rightarrow> memory \<Rightarrow> u32 option" where
  "back_up dst0 dst m = (if dst0 < dst \<and> m (dst - 1) \<noteq> slash then back_up dst0 (dst - 1) m else Some dst)"

text \<open>How a turn of the loop goes on, decided by the dots at \<^verbatim>\<open>src\<close>.\<close>

datatype turn = Copy u32 | Next u32 | Up_one u32

definition norm_dots :: "u32 \<Rightarrow> memory \<Rightarrow> turn option" where
  "norm_dots src m =
     (if m src = dot
      then if m (src + 1) = 0 then Some (Copy (src + 1))
           else if m (src + 1) = slash then map_option Next (skip_slashes (src + 2) m)
           else if m (src + 1) = dot
           then if m (src + 2) = 0 then Some (Up_one (src + 2))
                else if m (src + 2) = slash then map_option Up_one (skip_slashes (src + 3) m)
                else Some (Copy src)
           else Some (Copy src)
      else Some (Copy src))"

text \<open>The loop; \<open>None\<close> in the result is the return of \<^verbatim>\<open>NULL\<close> above the first component.\<close>

partial_function (option) norm_loop :: "u32 \<Rightarrow> u32 \<Rightarrow> u32 \<Rightarrow> memory \<Rightarrow> (u32 option \<times> memory) option" where
  "norm_loop dst0 src dst m =
     Option.bind (norm_dots src m) (\<lambda>t. case t of
       Next s \<Rightarrow> norm_loop dst0 s dst m
     | Up_one s \<Rightarrow>
         if dst - 1 < dst0 then Some (None, m)
         else Option.bind (back_up dst0 (dst - 1) m) (\<lambda>d. norm_loop dst0 s d m)
     | Copy s \<Rightarrow>
         Option.bind (copy_name s dst m) (\<lambda>(c, s1, d, m1).
           if c = slash
           then Option.bind (erase_slashes c s1 (m1(d := slash))) (\<lambda>s2.
                  norm_loop dst0 (s2 - 1) (d + 1) (m1(d := slash)))
           else Some (Some d, m1)))"

text \<open>The end of the routine: the final zero, a slash in front of it, and the empty path.\<close>

definition norm_finish :: "u32 \<Rightarrow> u32 \<Rightarrow> memory \<Rightarrow> memory" where
  "norm_finish fullpath dst m =
     (let m1 = m(dst := 0);
          d = dst - 1;
          m2 = (if d \<noteq> fullpath \<and> m1 d = slash then m1(d := 0) else m1)
      in if m2 fullpath = 0 then m2(fullpath := slash, fullpath + 1 := 0) else m2)"

subsection \<open>The routines\<close>

text \<open>
  \<open>wd\<close> is the address of \<^verbatim>\<open>working_directory\<close>, \<open>fmt\<close> that of the string \<^verbatim>\<open>"%s/%s"\<close>.  The first part
  builds the path in a new block; \<open>None\<close> within the result is an \<^verbatim>\<open>rt_malloc\<close> that waits.
\<close>

definition path_build :: "u32 \<Rightarrow> u32 \<Rightarrow> u32 \<Rightarrow> heap \<Rightarrow> kernel \<Rightarrow> (u32 option \<times> heap \<times> kernel) option" where
  "path_build fmt directory filename h k =
     (if bytes h filename \<noteq> slash
      then do {
        dl \<leftarrow> rt_strlen directory (bytes h);
        fl \<leftarrow> rt_strlen filename (bytes h);
        (r, h1, k1) \<leftarrow> rt_malloc (dl + fl + 2) h k;
        (case r of None \<Rightarrow> Some (None, h1, k1)
         | Some fullpath \<Rightarrow>
             if fullpath = 0 then Some (Some 0, h1, k1)
             else do {
               dl1 \<leftarrow> rt_strlen directory (bytes h1);
               fl1 \<leftarrow> rt_strlen filename (bytes h1);
               (n, m) \<leftarrow> rt_snprintf fullpath (dl1 + fl1 + 2) fmt [directory, filename] (bytes h1);
               Some (Some fullpath, h1\<lparr>bytes := m\<rparr>, k1)
             })
      }
      else rt_strdup filename h k)"

definition dfs_normalize_path ::
  "u32 \<Rightarrow> u32 \<Rightarrow> u32 \<Rightarrow> u32 \<Rightarrow> heap \<Rightarrow> kernel \<Rightarrow> (u32 option \<times> heap \<times> kernel) option" where
  "dfs_normalize_path wd fmt directory filename h k =
     do {
       RT_ASSERT (filename \<noteq> 0);
       (r, h1, k1) \<leftarrow> path_build fmt (if directory = 0 then wd else directory) filename h k;
       (case r of None \<Rightarrow> Some (None, h1, k1)
        | Some fullpath \<Rightarrow>
            if fullpath = 0 then Some (Some 0, h1, k1)
            else do {
              (d, m) \<leftarrow> norm_loop fullpath fullpath fullpath (bytes h1);
              (case d of
                 None \<Rightarrow> do {
                   (f, h2, k2) \<leftarrow> rt_free fullpath (h1\<lparr>bytes := m\<rparr>) k1;
                   Some (map_option (\<lambda>_. 0) f, h2, k2)
                 }
               | Some dst \<Rightarrow> Some (Some fullpath, h1\<lparr>bytes := norm_finish fullpath dst m\<rparr>, k1))
            })
     }"

text \<open>\<^verbatim>\<open>NULL\<close> is 0; the pointers are compared and moved as addresses.\<close>

definition dfs_subdir :: "u32 \<Rightarrow> u32 \<Rightarrow> memory \<Rightarrow> u32 option" where
  "dfs_subdir directory filename m =
     do {
       dl \<leftarrow> rt_strlen directory m;
       fl \<leftarrow> rt_strlen filename m;
       if dl = fl then Some 0
       else let dir = filename + dl in Some (if m dir \<noteq> slash \<and> dir \<noteq> filename then dir - 1 else dir)
     }"

subsection \<open>The loop on lists\<close>

text \<open>The bytes that stay when the last component of the output goes.\<close>

definition up_one :: "u8 list \<Rightarrow> u8 list" where
  "up_one out = rev (dropWhile (\<lambda>c. c \<noteq> slash) (rev (butlast out)))"

lemma drop_while_drop: "length (dropWhile P (drop n xs)) \<le> length xs - n"
  using length_dropWhile_le [of P "drop n xs"] by simp

lemma drop_while_both:
  assumes "dropWhile (\<lambda>c. c \<noteq> x) xs \<noteq> []"
  shows "length (dropWhile (\<lambda>c. c = x) (dropWhile (\<lambda>c. c \<noteq> x) xs)) < length xs"
proof -
  obtain y ys where y: "dropWhile (\<lambda>c. c \<noteq> x) xs = y # ys" using assms by (cases "dropWhile (\<lambda>c. c \<noteq> x) xs") auto
  then have "y = x" using hd_dropWhile [of "\<lambda>c. c \<noteq> x" xs] by simp
  moreover have "length (y # ys) \<le> length xs" using length_dropWhile_le [of "\<lambda>c. c \<noteq> x" xs] y by simp
  ultimately show ?thesis using y length_dropWhile_le [of "\<lambda>c. c = x" ys] by simp
qed

function norm_bytes :: "u8 list \<Rightarrow> u8 list \<Rightarrow> u8 list option" where
  "norm_bytes out inp =
     (if inp = [dot] then Some out
      else if take 2 inp = [dot, slash] then norm_bytes out (dropWhile (\<lambda>c. c = slash) (drop 2 inp))
      else if inp = [dot, dot] then if out = [] then None else Some (up_one out)
      else if take 3 inp = [dot, dot, slash]
      then if out = [] then None else norm_bytes (up_one out) (dropWhile (\<lambda>c. c = slash) (drop 3 inp))
      else let n = takeWhile (\<lambda>c. c \<noteq> slash) inp; r = dropWhile (\<lambda>c. c \<noteq> slash) inp
           in if r = [] then Some (out @ n)
              else norm_bytes (out @ n @ [slash]) (dropWhile (\<lambda>c. c = slash) r))"
  by pat_completeness auto

termination
proof (relation "measure (\<lambda>(out, inp). length inp)")
  fix out inp :: "u8 list"
  assume "take 2 inp = [dot, slash]"
  then have "0 < length inp" by (cases inp) auto
  then have "length inp - 2 < length inp" by simp
  then show "((out, dropWhile (\<lambda>c. c = slash) (drop 2 inp)), out, inp) \<in> measure (\<lambda>(out, inp). length inp)"
    using drop_while_drop [of "\<lambda>c. c = slash" 2 inp] by (simp only: in_measure prod.case le_less_trans)
next
  fix out inp :: "u8 list"
  assume "take 3 inp = [dot, dot, slash]"
  then have "0 < length inp" by (cases inp) auto
  then have "length inp - 3 < length inp" by simp
  then show "((up_one out, dropWhile (\<lambda>c. c = slash) (drop 3 inp)), out, inp) \<in> measure (\<lambda>(out, inp). length inp)"
    using drop_while_drop [of "\<lambda>c. c = slash" 3 inp] by (simp only: in_measure prod.case le_less_trans)
next
  fix out inp n r :: "u8 list"
  assume "r = dropWhile (\<lambda>c. c \<noteq> slash) inp" "r \<noteq> []"
  then show "((out @ n @ [slash], dropWhile (\<lambda>c. c = slash) r), out, inp) \<in> measure (\<lambda>(out, inp). length inp)"
    using drop_while_both [of slash inp] by simp
qed simp

declare norm_bytes.simps [simp del]

subsection \<open>The loop in place does what the loop on lists does\<close>

text \<open>
  The output is at the start of the block at \<open>p\<close>, the rest of the input, with its final zero, at
  the offset \<open>s\<close>; the output never gets ahead of the input.
\<close>

definition norm_inv :: "u32 \<Rightarrow> memory \<Rightarrow> u8 list \<Rightarrow> nat \<Rightarrow> u8 list \<Rightarrow> bool" where
  "norm_inv p m out s inp \<longleftrightarrow> (\<forall>i < length out. m (p + of_nat i) = out ! i) \<and> str_at m (p + of_nat s) inp \<and>
     length out \<le> s \<and> unat p + s + length inp < 2 ^ 32 \<and> p \<noteq> 0"

definition same_past :: "u32 \<Rightarrow> nat \<Rightarrow> memory \<Rightarrow> memory \<Rightarrow> bool" where
  "same_past p n m m' \<longleftrightarrow> (\<forall>x. n \<le> unat (x - p) \<longrightarrow> m' x = m x)"

lemma same_past_refl [simp]: "same_past p n m m"
  by (simp add: same_past_def)

lemma same_past_trans: "same_past p n m m1 \<Longrightarrow> same_past p n m1 m2 \<Longrightarrow> same_past p n m m2"
  by (simp add: same_past_def)

lemma same_past_mono: "same_past p n m m' \<Longrightarrow> n \<le> n' \<Longrightarrow> same_past p n' m m'"
  by (simp add: same_past_def)

lemma str_at_drop: "str_at m a (xs @ ys) \<Longrightarrow> str_at m (a + of_nat (length xs)) ys"
  by (induction xs arbitrary: a) (simp_all add: add.assoc [symmetric])

lemma offset_unat: "unat (p :: u32) + i < 2 ^ 32 \<Longrightarrow> unat (p + of_nat i - p) = i"
  by (simp add: unat_of_nat32)

lemma offset_eq: "unat (p :: u32) + i < 2 ^ 32 \<Longrightarrow> unat p + j < 2 ^ 32 \<Longrightarrow> p + of_nat i = p + of_nat j \<longleftrightarrow> i = j"
  using offset_unat [of p i] offset_unat [of p j] by metis

lemma norm_inv_skip: "norm_inv p m out s (xs @ ys) \<Longrightarrow> norm_inv p m out (s + length xs) ys"
  using str_at_drop [of m "p + of_nat s" xs ys] by (simp add: norm_inv_def add.assoc)

lemma norm_inv_put:
  assumes inv: "norm_inv p m out s (c # r)"
  shows "norm_inv p (m(p + of_nat (length out) := c)) (out @ [c]) (s + 1) r"
    "same_past p (s + 1) m (m(p + of_nat (length out) := c))"
proof -
  have b: "length out \<le> s" "unat p + s + length r + 1 < 2 ^ 32" using inv by (auto simp: norm_inv_def)
  have "str_at (m(p + of_nat (length out) := c)) (p + of_nat s + 1) r = str_at m (p + of_nat s + 1) r"
  proof (rule str_at_cong)
    fix i assume "i \<le> length r"
    then have "p + of_nat (s + 1 + i) \<noteq> p + of_nat (length out)" using b by (subst offset_eq) auto
    then show "(m(p + of_nat (length out) := c)) (p + of_nat s + 1 + of_nat i) = m (p + of_nat s + 1 + of_nat i)"
      by (simp add: ac_simps)
  qed
  moreover have "(m(p + of_nat (length out) := c)) (p + of_nat i) = (out @ [c]) ! i" if "i < length (out @ [c])" for i
    using that inv b offset_eq [of p i "length out"] by (auto simp: norm_inv_def nth_append less_Suc_eq)
  ultimately show "norm_inv p (m(p + of_nat (length out) := c)) (out @ [c]) (s + 1) r"
    using inv by (simp add: norm_inv_def ac_simps)
  show "same_past p (s + 1) m (m(p + of_nat (length out) := c))"
    using b offset_unat [of p "length out"] by (auto simp: same_past_def)
qed

lemma skip_slashes_spec:
  "str_at m a xs \<Longrightarrow> skip_slashes a m = Some (a + of_nat (length (takeWhile (\<lambda>c. c = slash) xs)))"
proof (induction xs arbitrary: a)
  case (Cons x xs)
  then show ?case using Cons.IH [of "a + 1"] by (simp add: skip_slashes.simps [of a])
qed (simp add: skip_slashes.simps)

lemma erase_slashes_spec:
  "str_at m a xs \<Longrightarrow> erase_slashes slash a m = Some (a + of_nat (length (takeWhile (\<lambda>c. c = slash) xs)) + 1)"
proof (induction xs arbitrary: a)
  case (Cons x xs)
  then show ?case using Cons.IH [of "a + 1"]
    by (cases "x = slash") (simp_all add: erase_slashes.simps [of slash a] erase_slashes.simps [of x])
qed (simp add: erase_slashes.simps)

lemma copy_name_spec:
  assumes "norm_inv p m out s inp"
  shows "\<exists>m'. copy_name (p + of_nat s) (p + of_nat (length out)) m =
      Some (hd (dropWhile (\<lambda>c. c \<noteq> slash) inp @ [0]), p + of_nat (s + length (takeWhile (\<lambda>c. c \<noteq> slash) inp) + 1),
        p + of_nat (length out + length (takeWhile (\<lambda>c. c \<noteq> slash) inp)), m') \<and>
    norm_inv p m' (out @ takeWhile (\<lambda>c. c \<noteq> slash) inp) (s + length (takeWhile (\<lambda>c. c \<noteq> slash) inp))
      (dropWhile (\<lambda>c. c \<noteq> slash) inp) \<and> same_past p (s + length inp) m m'"
  using assms
proof (induction inp arbitrary: m out s)
  case Nil
  then show ?case by (intro exI [of _ m]) (simp add: copy_name.simps norm_inv_def)
next
  case (Cons c r)
  have c: "m (p + of_nat s) = c" "c \<noteq> 0" using Cons.prems by (auto simp: norm_inv_def)
  show ?case
  proof (cases "c = slash")
    case True
    then show ?thesis using Cons.prems c by (intro exI [of _ m]) (simp add: copy_name.simps add.assoc)
  next
    case False
    let ?m = "m(p + of_nat (length out) := c)"
    from Cons.IH [OF norm_inv_put(1) [OF Cons.prems]] obtain m' where m':
      "copy_name (p + of_nat (s + 1)) (p + of_nat (length (out @ [c]))) ?m =
        Some (hd (dropWhile (\<lambda>c. c \<noteq> slash) r @ [0]), p + of_nat (s + 1 + length (takeWhile (\<lambda>c. c \<noteq> slash) r) + 1),
        p + of_nat (length (out @ [c]) + length (takeWhile (\<lambda>c. c \<noteq> slash) r)), m')"
      "norm_inv p m' ((out @ [c]) @ takeWhile (\<lambda>c. c \<noteq> slash) r) (s + 1 + length (takeWhile (\<lambda>c. c \<noteq> slash) r))
        (dropWhile (\<lambda>c. c \<noteq> slash) r)" "same_past p (s + 1 + length r) ?m m'" by blast
    have "same_past p (s + length (c # r)) m m'"
      using same_past_trans [OF same_past_mono [OF norm_inv_put(2) [OF Cons.prems]] m'(3)] by simp
    then show ?thesis using m'(1,2) c False
      by (intro exI [of _ m']) (simp add: copy_name.simps [of "p + of_nat s"] ac_simps)
  qed
qed

lemma back_up_spec:
  assumes "k \<le> length out" "\<forall>i < length out. m (p + of_nat i) = out ! i" "unat p + length out < 2 ^ 32"
  shows "back_up p (p + of_nat k) m = Some (p + of_nat (length (dropWhile (\<lambda>c. c \<noteq> slash) (rev (take k out)))))"
  using assms(1)
proof (induction k)
  case 0
  then show ?case by (simp add: back_up.simps)
next
  case (Suc k)
  have e: "p + of_nat (Suc k) - 1 = p + of_nat k" by simp
  have "unat (p + of_nat (Suc k)) = unat p + Suc k"
    using Suc.prems assms(3) unat_of_nat32 [of "Suc k"] by (subst unat_add_lem [THEN iffD1]) simp_all
  then have lt: "p < p + of_nat (Suc k)" by (simp add: word_less_nat_alt)
  have "take (Suc k) out = take k out @ [out ! k]" using Suc.prems by (simp add: take_Suc_conv_app_nth)
  then show ?case using Suc assms(2) lt by (subst back_up.simps) (simp add: e)
qed

lemma up_one_take: "up_one out = take (length (up_one out)) out"
proof -
  have "\<exists>zs. out = up_one out @ zs"
  proof (cases out rule: rev_cases)
    case (snoc xs x)
    have "xs = rev (dropWhile (\<lambda>c. c \<noteq> slash) (rev xs)) @ rev (takeWhile (\<lambda>c. c \<noteq> slash) (rev xs))"
      by (metis rev_append rev_rev_ident takeWhile_dropWhile_id)
    then show ?thesis by (metis append.assoc butlast_snoc snoc up_one_def)
  qed (simp add: up_one_def)
  then show ?thesis by (metis append_eq_conv_conj)
qed

lemma norm_inv_up:
  assumes inv: "norm_inv p m out s inp" and ne: "out \<noteq> []"
  shows "norm_inv p m (up_one out) s inp" "\<not> p + of_nat (length out) - 1 < p"
    "back_up p (p + of_nat (length out) - 1) m = Some (p + of_nat (length (up_one out)))"
proof -
  note t = up_one_take [of out]
  then have l: "length (up_one out) \<le> length out" by (metis length_take min.cobounded1 min.commute)
  have "up_one out ! i = out ! i" if "i < length (up_one out)" for i using that t by (metis nth_take)
  then show "norm_inv p m (up_one out) s inp" using inv l by (simp add: norm_inv_def)
  have b: "unat p + length out < 2 ^ 32" using inv by (simp add: norm_inv_def)
  obtain k where k: "length out = Suc k" using ne by (cases out) auto
  have e: "p + of_nat (length out) - 1 = p + of_nat k" by (simp add: k)
  have "unat (p + of_nat k) = unat p + k" using b k unat_of_nat32 [of k] by (subst unat_add_lem [THEN iffD1]) simp_all
  then show "\<not> p + of_nat (length out) - 1 < p" unfolding e by (simp add: word_less_nat_alt)
  have "take k out = butlast out" by (simp add: butlast_conv_take k)
  then show "back_up p (p + of_nat (length out) - 1) m = Some (p + of_nat (length (up_one out)))"
    unfolding e using back_up_spec [of k out m p] inv b k by (simp add: norm_inv_def up_one_def)
qed

lemma norm_dots_spec:
  assumes "str_at m a inp"
  shows "norm_dots a m = Some
     (if inp = [dot] then Copy (a + 1)
      else if take 2 inp = [dot, slash] then Next (a + 2 + of_nat (length (takeWhile (\<lambda>c. c = slash) (drop 2 inp))))
      else if inp = [dot, dot] then Up_one (a + 2)
      else if take 3 inp = [dot, dot, slash] then Up_one (a + 3 + of_nat (length (takeWhile (\<lambda>c. c = slash) (drop 3 inp))))
      else Copy a)"
proof -
  consider "inp = []" | x where "inp = [x]" | x y where "inp = [x, y]" | x y z r where "inp = x # y # z # r"
    by (cases inp; cases "tl inp"; cases "tl (tl inp)") auto
  then show ?thesis
  proof cases
    case 4
    have t: "str_at m (a + 2) (z # r)" "str_at m (a + 3) r" using assms 4 by (simp_all add: add.assoc)
    show ?thesis using assms 4 skip_slashes_spec [OF t(1)] skip_slashes_spec [OF t(2)] by (auto simp: norm_dots_def add.assoc)
  next
    case 3
    have "str_at m (a + 2) []" using assms 3 by (simp add: add.assoc)
    from skip_slashes_spec [OF this] show ?thesis using assms 3 by (auto simp: norm_dots_def add.assoc)
  qed (use assms in \<open>auto simp: norm_dots_def\<close>)
qed

lemma norm_inv_drop:
  assumes "norm_inv p m out s inp"
  shows "norm_inv p m out (s + (n + length (takeWhile P (drop n inp)))) (dropWhile P (drop n inp)) \<or> length inp < n"
proof (cases "length inp < n")
  case False
  have "norm_inv p m out (s + length (take n inp @ takeWhile P (drop n inp))) (dropWhile P (drop n inp))"
    by (rule norm_inv_skip) (use assms in simp)
  then show ?thesis using False by simp
qed simp

text \<open>What the loop leaves: the output at the start of the block, and nothing changed past the input.\<close>

definition norm_done :: "u32 \<Rightarrow> nat \<Rightarrow> memory \<Rightarrow> u8 list option \<Rightarrow> u32 option \<times> memory \<Rightarrow> bool" where
  "norm_done p n m r q \<longleftrightarrow> same_past p n m (snd q) \<and>
     (case r of None \<Rightarrow> fst q = None
      | Some out \<Rightarrow> fst q = Some (p + of_nat (length out)) \<and> length out \<le> n \<and> (\<forall>i < length out. snd q (p + of_nat i) = out ! i))"

lemma norm_done_mono:
  assumes "norm_done p n' m' r q" "same_past p n m m'" "n' \<le> n"
  shows "norm_done p n m r q"
  using assms by (auto simp: norm_done_def same_past_def split: option.splits)

lemma norm_loop_spec:
  "norm_inv p m out s inp \<Longrightarrow> \<exists>q. norm_loop p (p + of_nat s) (p + of_nat (length out)) m = Some q \<and>
     norm_done p (s + length inp) m (norm_bytes out inp) q"
proof (induction out inp arbitrary: m s rule: norm_bytes.induct)
  case (1 out inp)
  note inv = 1(4)
  have str: "str_at m (p + of_nat s) inp" and lo: "length out \<le> s" using inv by (simp_all add: norm_inv_def)
  note D = norm_dots_spec [OF str]
  note L = norm_loop.simps [of p "p + of_nat s" "p + of_nat (length out)" m]
  have bytes: "\<forall>i < length out. m (p + of_nat i) = out ! i" using inv by (simp add: norm_inv_def)
  consider (one) "inp = [dot]" | (cur) "inp \<noteq> [dot]" "take 2 inp = [dot, slash]"
    | (two) "inp = [dot, dot]" | (up) "inp \<noteq> [dot, dot]" "take 3 inp = [dot, dot, slash]"
    | (name) "inp \<noteq> [dot]" "take 2 inp \<noteq> [dot, slash]" "inp \<noteq> [dot, dot]" "take 3 inp \<noteq> [dot, dot, slash]"
    by blast
  then show ?case
  proof cases
    case one
    have "m (p + of_nat s + 1) = 0" using str one by simp
    then show ?thesis using L D one lo bytes
      by (simp add: copy_name.simps [of "p + of_nat s + 1"] norm_bytes.simps norm_done_def)
  next
    case cur
    let ?s = "s + (2 + length (takeWhile (\<lambda>c. c = slash) (drop 2 inp)))" and ?r = "dropWhile (\<lambda>c. c = slash) (drop 2 inp)"
    have l: "2 \<le> length inp" using cur(2) by (cases inp; cases "tl inp") auto
    have i: "norm_inv p m out ?s ?r" using norm_inv_drop [OF inv, of 2 "\<lambda>c. c = slash"] l by auto
    obtain q where r: "norm_loop p (p + of_nat ?s) (p + of_nat (length out)) m = Some q"
      "norm_done p (?s + length ?r) m (norm_bytes out ?r) q" using 1(1) [OF cur i] by blast
    have len: "?s + length ?r = s + length inp"
      using l arg_cong [OF takeWhile_dropWhile_id [of "\<lambda>c. c = slash" "drop 2 inp"], of length] by (simp del: takeWhile_dropWhile_id)
    then show ?thesis using L D cur r(1) r(2) [unfolded len] by (auto simp: norm_bytes.simps [of out inp] ac_simps)
  next
    case two
    show ?thesis
    proof (cases "out = []")
      case True
      have "p - 1 < p" using inv by (simp add: norm_inv_def word_less_nat_alt unat_minus_one unat_gt_0)
      then show ?thesis using L D two True by (simp add: norm_bytes.simps norm_done_def)
    next
      case False
      note u = norm_inv_up [OF inv False]
      have m2: "m (p + of_nat s + 2) = 0" using str two by (simp add: add.assoc)
      have lu: "length (up_one out) \<le> s" "\<forall>i < length (up_one out). m (p + of_nat i) = up_one out ! i"
        using u(1) by (simp_all add: norm_inv_def)
      have "norm_loop p (p + of_nat s + 2) (p + of_nat (length (up_one out))) m = Some (Some (p + of_nat (length (up_one out))), m)"
        using m2 by (simp add: norm_loop.simps [of p "p + of_nat s + 2"] norm_dots_def copy_name.simps)
      then show ?thesis using L D two False u(2,3) lu
        by (simp add: norm_bytes.simps norm_done_def)
    qed
  next
    case up
    let ?s = "s + (3 + length (takeWhile (\<lambda>c. c = slash) (drop 3 inp)))" and ?r = "dropWhile (\<lambda>c. c = slash) (drop 3 inp)"
    have ne: "inp \<noteq> [dot]" "take 2 inp \<noteq> [dot, slash]" using up(2) by (cases inp; cases "tl inp"; auto)+
    have l: "3 \<le> length inp" using up(2) by (cases inp; cases "tl inp"; cases "tl (tl inp)") auto
    show ?thesis
    proof (cases "out = []")
      case True
      have "p - 1 < p" using inv by (simp add: norm_inv_def word_less_nat_alt unat_minus_one unat_gt_0)
      then show ?thesis using L D up ne True by (simp add: norm_bytes.simps norm_done_def)
    next
      case False
      note u = norm_inv_up [OF inv False]
      have i: "norm_inv p m (up_one out) ?s ?r" using norm_inv_drop [OF u(1), of 3 "\<lambda>c. c = slash"] l by auto
      obtain q where r: "norm_loop p (p + of_nat ?s) (p + of_nat (length (up_one out))) m = Some q"
        "norm_done p (?s + length ?r) m (norm_bytes (up_one out) ?r) q" using 1(2) [OF ne up False i] by blast
      have len: "?s + length ?r = s + length inp"
        using l arg_cong [OF takeWhile_dropWhile_id [of "\<lambda>c. c = slash" "drop 3 inp"], of length] by (simp del: takeWhile_dropWhile_id)
      then show ?thesis using L D up ne r(1) r(2) [unfolded len] False u(2,3) by (auto simp: norm_bytes.simps [of out inp] ac_simps)
    qed
  next
    case name
    let ?n = "takeWhile (\<lambda>c. c \<noteq> slash) inp" and ?r = "dropWhile (\<lambda>c. c \<noteq> slash) inp"
    obtain m1 where c: "copy_name (p + of_nat s) (p + of_nat (length out)) m = Some (hd (?r @ [0]), p + of_nat (s + length ?n + 1),
        p + of_nat (length out + length ?n), m1)"
      "norm_inv p m1 (out @ ?n) (s + length ?n) ?r" "same_past p (s + length inp) m m1"
      using copy_name_spec [OF inv] by blast
    have ll: "length ?n + length ?r = length inp" by (metis length_append takeWhile_dropWhile_id)
    show ?thesis
    proof (cases ?r)
      case Nil
      have nl: "length ?n = length inp" using ll Nil by simp
      have "norm_loop p (p + of_nat s) (p + of_nat (length out)) m = Some (Some (p + of_nat (length (out @ ?n))), m1)"
        using L D name c(1) [unfolded Nil] by simp
      moreover have "norm_bytes out inp = Some (out @ ?n)" using name Nil by (simp add: norm_bytes.simps [of out inp])
      moreover have "norm_done p (s + length inp) m (Some (out @ ?n)) (Some (p + of_nat (length (out @ ?n))), m1)"
        using c(2,3) lo nl by (simp add: norm_done_def norm_inv_def)
      ultimately show ?thesis by metis
    next
      case (Cons x r)
      have x: "x = slash" using hd_dropWhile [of "\<lambda>c. c \<noteq> slash" inp] Cons by simp
      let ?m = "m1(p + of_nat (length (out @ ?n)) := slash)" and ?t = "length (takeWhile (\<lambda>c. c = slash) r)"
      note P = norm_inv_put [OF c(2) [unfolded Cons x]]
      have i: "norm_inv p ?m (out @ ?n @ [slash]) (s + length ?n + 1 + ?t) (dropWhile (\<lambda>c. c = slash) r)"
        using norm_inv_drop [OF P(1), of 0 "\<lambda>c. c = slash"] by simp
      have str1: "str_at ?m (p + of_nat (s + length ?n + 1)) r" using P(1) by (simp add: norm_inv_def)
      have ih: "?r \<noteq> []" "dropWhile (\<lambda>c. c = slash) ?r = dropWhile (\<lambda>c. c = slash) r" using Cons x by simp_all
      obtain q where r: "norm_loop p (p + of_nat (s + length ?n + 1 + ?t)) (p + of_nat (length (out @ ?n @ [slash]))) ?m = Some q"
        "norm_done p (s + length ?n + 1 + ?t + length (dropWhile (\<lambda>c. c = slash) r)) ?m
           (norm_bytes (out @ ?n @ [slash]) (dropWhile (\<lambda>c. c = slash) r)) q"
        using 1(3) [OF name refl refl ih(1), unfolded ih(2), OF i] by blast
      have len: "s + length ?n + 1 + ?t + length (dropWhile (\<lambda>c. c = slash) r) = s + length inp"
      proof -
        have "?t + length (dropWhile (\<lambda>c. c = slash) r) = length r" by (metis length_append takeWhile_dropWhile_id)
        then show ?thesis using ll Cons by simp
      qed
      have "same_past p (s + length inp) m ?m"
        using same_past_trans [OF c(3) same_past_mono [OF P(2)]] ll Cons by simp
      then have "norm_done p (s + length inp) m (norm_bytes (out @ ?n @ [slash]) (dropWhile (\<lambda>c. c = slash) r)) q"
        using norm_done_mono [OF r(2)] len by simp
      moreover have "norm_loop p (p + of_nat s) (p + of_nat (length out)) m = Some q"
        using L D name c(1) Cons x erase_slashes_spec [OF str1] r(1) by (simp add: ac_simps)
      moreover have "norm_bytes out inp = norm_bytes (out @ ?n @ [slash]) (dropWhile (\<lambda>c. c = slash) r)"
        using name ih by (auto simp: norm_bytes.simps [of out inp] Let_def)
      ultimately show ?thesis by metis
    qed
  qed
qed

subsection \<open>What a path means\<close>

text \<open>The components between the slashes, without the empty ones.\<close>

fun names_from :: "u8 list \<Rightarrow> u8 list \<Rightarrow> u8 list list" where
  "names_from acc [] = (if acc = [] then [] else [acc])"
| "names_from acc (c # cs) =
     (if c = slash then (if acc = [] then [] else [acc]) @ names_from [] cs else names_from (acc @ [c]) cs)"

definition names :: "u8 list \<Rightarrow> u8 list list" where
  "names cs = names_from [] cs"

text \<open>
  What an absolute path means: walking from the root along its components, \<^verbatim>\<open>.\<close> stays and \<^verbatim>\<open>..\<close> goes one
  directory up; there is no result when it goes above the root.  The directory that is reached has one
  path without these components.
\<close>

fun walk :: "u8 list list \<Rightarrow> u8 list list \<Rightarrow> u8 list list option" where
  "walk here [] = Some here"
| "walk here (n # rest) =
     (if n = map of_char ''.'' then walk here rest
      else if n = map of_char ''..'' then if here = [] then None else walk (butlast here) rest
      else walk (here @ [n]) rest)"

definition absolute_text :: "u8 list list \<Rightarrow> u8 list" where
  "absolute_text ns = (if ns = [] then [slash] else concat (map (\<lambda>n. slash # n) ns))"

text \<open>
  What the code does with the components: whether the path still starts at the root, and the
  names below.  At the root \<^verbatim>\<open>..\<close> makes the path relative, and goes to nothing from there.
\<close>

fun resolve :: "bool \<times> u8 list list \<Rightarrow> u8 list list \<Rightarrow> (bool \<times> u8 list list) option" where
  "resolve d [] = Some d"
| "resolve (a, ns) (n # rest) =
     (if n = [dot] then resolve (a, ns) rest
      else if n = [dot, dot]
      then if ns \<noteq> [] then resolve (a, butlast ns) rest
           else if a then resolve (False, []) rest else None
      else resolve (a, ns @ [n]) rest)"

fun join_names :: "u8 list list \<Rightarrow> u8 list" where
  "join_names [] = []"
| "join_names [n] = n"
| "join_names (n # ns) = n @ [slash] @ join_names ns"

definition path_text :: "bool \<times> u8 list list \<Rightarrow> u8 list" where
  "path_text d = (let t = (if fst d then [slash] else []) @ join_names (snd d) in if t = [] then [slash] else t)"

subsection \<open>The loop walks along the path\<close>

definition names_ok :: "u8 list list \<Rightarrow> bool" where
  "names_ok ns \<longleftrightarrow> (\<forall>n \<in> set ns. n \<noteq> [] \<and> slash \<notin> set n)"

definition dir_text :: "bool \<Rightarrow> u8 list list \<Rightarrow> u8 list" where
  "dir_text a ns = (if a then [slash] else []) @ concat (map (\<lambda>n. n @ [slash]) ns)"

definition strip_slash :: "u8 list \<Rightarrow> u8 list" where
  "strip_slash t = (if length t > 1 \<and> last t = slash then butlast t else t)"

lemma names_from_name:
  "slash \<notin> set n \<Longrightarrow> names_from acc (n @ slash # r) = (if acc @ n = [] then [] else [acc @ n]) @ names r"
  "slash \<notin> set n \<Longrightarrow> names_from acc n = (if acc @ n = [] then [] else [acc @ n])"
  by (induction n arbitrary: acc) (auto simp: names_def)

lemma names_name:
  "slash \<notin> set n \<Longrightarrow> names (n @ slash # r) = (if n = [] then [] else [n]) @ names r"
  "slash \<notin> set n \<Longrightarrow> names n = (if n = [] then [] else [n])"
  using names_from_name [of n "[]"] by (auto simp: names_def)

lemma names_slash [simp]: "names [] = []" "names (slash # r) = names r"
  by (simp_all add: names_def)

lemma names_drop_slashes [simp]: "names (dropWhile (\<lambda>c. c = slash) r) = names r"
  by (induction r) simp_all

lemma join_concat: "concat (map (\<lambda>n. n @ [slash]) ns) = (if ns = [] then [] else join_names ns @ [slash])"
  by (induction ns rule: join_names.induct) auto

lemma join_snoc: "join_names (ns @ [n]) = concat (map (\<lambda>n. n @ [slash]) ns) @ n"
  by (induction ns rule: join_names.induct) auto

lemma join_ne: "names_ok ns \<Longrightarrow> ns \<noteq> [] \<Longrightarrow> join_names ns \<noteq> []"
  by (induction ns rule: join_names.induct) (auto simp: names_ok_def)

lemma up_one_dir: "names_ok (ns @ [n]) \<Longrightarrow> up_one (dir_text a (ns @ [n])) = dir_text a ns"
proof -
  assume n: "names_ok (ns @ [n])"
  have d: "dropWhile (\<lambda>c. c \<noteq> slash) (rev n @ rev (dir_text a ns)) = rev (dir_text a ns)"
  proof -
    have "dropWhile (\<lambda>c. c \<noteq> slash) (rev n @ rev (dir_text a ns)) = dropWhile (\<lambda>c. c \<noteq> slash) (rev (dir_text a ns))"
      using n by (intro dropWhile_append2) (auto simp: names_ok_def)
    also have "\<dots> = rev (dir_text a ns)"
      by (cases ns rule: rev_cases) (simp_all add: dir_text_def)
    finally show ?thesis .
  qed
  have "butlast (dir_text a (ns @ [n])) = dir_text a ns @ n" by (simp add: dir_text_def butlast_append)
  then show ?thesis using d by (simp add: up_one_def)
qed

lemma up_one_root: "up_one [slash] = []"
  by (simp add: up_one_def)

lemma strip_dir:
  assumes "names_ok ns"
  shows "strip_slash (dir_text a ns) = (if a then [slash] else []) @ join_names ns"
proof (cases "ns = []")
  case False
  then have "join_names ns \<noteq> []" using join_ne assms by blast
  then show ?thesis using False by (auto simp: strip_slash_def dir_text_def join_concat butlast_append neq_Nil_conv)
qed (simp add: strip_slash_def dir_text_def)

lemma strip_name:
  assumes "n \<noteq> []" "slash \<notin> set n"
  shows "strip_slash (dir_text a ns @ n) = (if a then [slash] else []) @ join_names (ns @ [n])"
proof -
  have "last n \<in> set n" using assms(1) by simp
  then have "last n \<noteq> slash" using assms(2) by metis
  then show ?thesis using assms(1) by (simp add: strip_slash_def dir_text_def join_snoc)
qed

lemma norm_bytes_resolve:
  "names_ok ns \<Longrightarrow> out = dir_text a ns \<Longrightarrow> (inp = [] \<or> hd inp \<noteq> slash) \<Longrightarrow>
   map_option strip_slash (norm_bytes out inp) =
   map_option (\<lambda>(b, ms). (if b then [slash] else []) @ join_names ms) (resolve (a, ns) (names inp))"
proof (induction out inp arbitrary: a ns rule: norm_bytes.induct)
  case (1 out inp)
  note ok = 1(4) and out = 1(5) and start = 1(6)
  have hd: "dropWhile (\<lambda>c. c = slash) r = [] \<or> hd (dropWhile (\<lambda>c. c = slash) r) \<noteq> slash" for r :: "u8 list"
    using hd_dropWhile [of "\<lambda>c. c = slash" r] by auto
  have empty: "out = [] \<longleftrightarrow> \<not> a \<and> ns = []" unfolding out by (auto simp: dir_text_def)
  have up_out: "up_one out = dir_text (a \<and> ns \<noteq> []) (butlast ns)" if "out \<noteq> []"
  proof (cases ns rule: rev_cases)
    case (snoc ms n)
    then show ?thesis using up_one_dir [of ms n a] ok out by simp
  qed (use that out in \<open>simp add: dir_text_def up_one_root split: if_splits\<close>)
  have ok': "names_ok (butlast ns)" using ok by (auto simp: names_ok_def dest: in_set_butlastD)
  consider (one) "inp = [dot]" | (cur) r where "inp = dot # slash # r"
    | (two) "inp = [dot, dot]" | (up) r where "inp = dot # dot # slash # r"
    | (name) "inp \<noteq> [dot]" "take 2 inp \<noteq> [dot, slash]" "inp \<noteq> [dot, dot]" "take 3 inp \<noteq> [dot, dot, slash]"
    by (cases inp; cases "tl inp"; cases "tl (tl inp)") auto
  then show ?case
  proof cases
    case one
    then show ?thesis using ok by (simp add: norm_bytes.simps names_def strip_dir out)
  next
    case cur
    then have "names inp = [dot] # names r" by (simp add: names_def)
    moreover have "norm_bytes out inp = norm_bytes out (dropWhile (\<lambda>c. c = slash) r)"
      unfolding cur by (subst norm_bytes.simps) simp
    moreover have "map_option strip_slash (norm_bytes out (dropWhile (\<lambda>c. c = slash) r)) =
      map_option (\<lambda>(b, ms). (if b then [slash] else []) @ join_names ms) (resolve (a, ns) (names r))"
      using 1(1) [OF _ _ ok out] hd [of r] cur by simp
    ultimately show ?thesis by simp
  next
    case two
    then have "names inp = [[dot, dot]]" by (simp add: names_def)
    then show ?thesis using two up_out empty ok' strip_dir [of "butlast ns"] strip_dir [of "[]" False]
      by (auto simp: norm_bytes.simps [of out "[dot, dot]"])
  next
    case (up r)
    then have n: "names inp = [dot, dot] # names r" by (simp add: names_def)
    have ih: "map_option strip_slash (norm_bytes (up_one out) (dropWhile (\<lambda>c. c = slash) r)) =
      map_option (\<lambda>(b, ms). (if b then [slash] else []) @ join_names ms) (resolve (a \<and> ns \<noteq> [], butlast ns) (names r))" if "out \<noteq> []"
      using 1(2) [OF _ _ _ _ that ok' up_out [OF that]] hd [of r] up by simp
    show ?thesis using ih empty up n by (auto simp: norm_bytes.simps [of out "dot # dot # slash # r"])
  next
    case name
    let ?n = "takeWhile (\<lambda>c. c \<noteq> slash) inp" and ?r = "dropWhile (\<lambda>c. c \<noteq> slash) inp"
    have sn: "slash \<notin> set ?n" by (auto dest: set_takeWhileD)
    have inp: "inp = ?n @ ?r" by simp
    show ?thesis
    proof (cases ?r)
      case Nil
      then have i: "?n = inp" using inp by simp
      have "names inp = (if inp = [] then [] else [inp])" using names_name(2) [of inp] sn i by simp
      moreover have "norm_bytes out inp = Some (out @ inp)" using name Nil i by (simp add: norm_bytes.simps [of out inp])
      moreover have "slash \<notin> set inp" using sn i by simp
      ultimately show ?thesis using name ok strip_dir [of ns a] strip_name [of inp a ns] out by simp
    next
      case (Cons x r)
      have x: "x = slash" using hd_dropWhile [of "\<lambda>c. c \<noteq> slash" inp] Cons by simp
      have ne: "?n \<noteq> []" using start Cons x inp by (cases inp) auto
      have split: "inp = ?n @ slash # r" using inp Cons x by simp
      have nm: "names inp = ?n # names r" using names_name(1) [OF sn, of r] ne split by simp
      have nd: "?n \<noteq> [dot]" "?n \<noteq> [dot, dot]"
        using name(2,4) split by (metis append_Cons append_Nil take_Suc_Cons take0 numeral_2_eq_2 numeral_3_eq_3)+
      have ok2: "names_ok (ns @ [?n])" using ok ne sn by (simp add: names_ok_def)
      have o2: "out @ ?n @ [slash] = dir_text a (ns @ [?n])" unfolding out by (simp add: dir_text_def)
      have dr: "?r \<noteq> []" "dropWhile (\<lambda>c. c = slash) ?r = dropWhile (\<lambda>c. c = slash) r" using Cons x by simp_all
      have "map_option strip_slash (norm_bytes (out @ ?n @ [slash]) (dropWhile (\<lambda>c. c = slash) r)) =
        map_option (\<lambda>(b, ms). (if b then [slash] else []) @ join_names ms) (resolve (a, ns @ [?n]) (names r))"
        using 1(3) [OF name refl refl dr(1) ok2 o2] hd [of r] unfolding dr(2) by simp
      moreover have "norm_bytes out inp = norm_bytes (out @ ?n @ [slash]) (dropWhile (\<lambda>c. c = slash) r)"
        using name dr by (auto simp: norm_bytes.simps [of out inp] Let_def)
      ultimately show ?thesis using nm nd by simp
    qed
  qed
qed

lemma norm_bytes_start:
  "map_option strip_slash (norm_bytes [] inp) =
   map_option (\<lambda>(b, ms). (if b then [slash] else []) @ join_names ms) (resolve (inp \<noteq> [] \<and> hd inp = slash, []) (names inp))"
proof (cases "inp \<noteq> [] \<and> hd inp = slash")
  case True
  then obtain r where r: "inp = slash # r" by (cases inp) auto
  have "norm_bytes [] inp = norm_bytes [slash] (dropWhile (\<lambda>c. c = slash) r)"
    unfolding r by (subst norm_bytes.simps) simp
  moreover have "dropWhile (\<lambda>c. c = slash) r = [] \<or> hd (dropWhile (\<lambda>c. c = slash) r) \<noteq> slash"
    using hd_dropWhile [of "\<lambda>c. c = slash" r] by auto
  ultimately show ?thesis
    using norm_bytes_resolve [of "[]" "[slash]" True "dropWhile (\<lambda>c. c = slash) r"] r by (simp add: names_ok_def dir_text_def)
next
  case False
  then have "inp = [] \<or> hd inp \<noteq> slash" by auto
  then show ?thesis using norm_bytes_resolve [of "[]" "[]" False inp] False by (auto simp: names_ok_def dir_text_def)
qed

lemma up_one_set: "set (up_one out) \<subseteq> set out"
proof
  fix x assume "x \<in> set (up_one out)"
  then have "x \<in> set (dropWhile (\<lambda>c. c \<noteq> slash) (rev (butlast out)))" by (simp add: up_one_def)
  then have "x \<in> set (rev (butlast out))" by (rule set_dropWhileD)
  then show "x \<in> set out" by (auto dest: in_set_butlastD)
qed

lemma norm_bytes_set: "norm_bytes out inp = Some t \<Longrightarrow> set t \<subseteq> set out \<union> set inp \<union> {slash}"
proof (induction out inp arbitrary: t rule: norm_bytes.induct)
  case (1 out inp)
  have d: "set (dropWhile P (drop n inp)) \<subseteq> set inp" "set (dropWhile P inp) \<subseteq> set inp" "set (takeWhile P inp) \<subseteq> set inp"
    "set (dropWhile Q (dropWhile P inp)) \<subseteq> set inp" for n P Q
    by (auto dest: set_dropWhileD in_set_dropD set_takeWhileD)
  have u: "set (up_one out) \<subseteq> set out" by (rule up_one_set)
  consider (one) "inp = [dot]" | (cur) "inp \<noteq> [dot]" "take 2 inp = [dot, slash]"
    | (two) "inp = [dot, dot]" | (up) "inp \<noteq> [dot]" "take 2 inp \<noteq> [dot, slash]" "inp \<noteq> [dot, dot]" "take 3 inp = [dot, dot, slash]"
    | (name) "inp \<noteq> [dot]" "take 2 inp \<noteq> [dot, slash]" "inp \<noteq> [dot, dot]" "take 3 inp \<noteq> [dot, dot, slash]"
    by auto
  then show ?case
  proof cases
    case one
    then show ?thesis using 1(4) by (auto simp: norm_bytes.simps)
  next
    case cur
    then have "norm_bytes out (dropWhile (\<lambda>c. c = slash) (drop 2 inp)) = Some t" using 1(4) by (simp add: norm_bytes.simps [of out inp])
    from 1(1) [OF cur this] show ?thesis using d(1) by blast
  next
    case two
    then show ?thesis using 1(4) u by (auto simp: norm_bytes.simps split: if_splits)
  next
    case up
    then have "out \<noteq> []" "norm_bytes (up_one out) (dropWhile (\<lambda>c. c = slash) (drop 3 inp)) = Some t"
      using 1(4) by (auto simp: norm_bytes.simps [of out inp] split: if_splits)
    from 1(2) [OF up this] show ?thesis using d(1) u by blast
  next
    case name
    let ?n = "takeWhile (\<lambda>c. c \<noteq> slash) inp" and ?r = "dropWhile (\<lambda>c. c \<noteq> slash) inp"
    show ?thesis
    proof (cases "?r = []")
      case True
      then have "norm_bytes out inp = Some (out @ ?n)" using name by (simp add: norm_bytes.simps [of out inp])
      then show ?thesis using 1(4) d(3) [of "\<lambda>c. c \<noteq> slash"] by auto
    next
      case False
      then have "norm_bytes (out @ ?n @ [slash]) (dropWhile (\<lambda>c. c = slash) ?r) = Some t"
        using 1(4) name by (auto simp: norm_bytes.simps [of out inp] Let_def split: if_splits)
      from 1(3) [OF name refl refl False this] show ?thesis
        using d(3) [of "\<lambda>c. c \<noteq> slash"] d(4) [of "\<lambda>c. c = slash" "\<lambda>c. c \<noteq> slash"] by auto
    qed
  qed
qed

lemma names_ok_names: "names_ok (names cs)"
proof -
  have "slash \<notin> set acc \<Longrightarrow> names_ok (names_from acc cs)" for acc
    by (induction acc cs rule: names_from.induct) (auto simp: names_ok_def)
  then show ?thesis by (simp add: names_def)
qed

lemma resolve_names_ok: "resolve d rest = Some (b, ms) \<Longrightarrow> names_ok (snd d) \<Longrightarrow> names_ok rest \<Longrightarrow> names_ok ms"
proof (induction d rest arbitrary: b ms rule: resolve.induct)
  case (2 a ns n rest)
  have "names_ok (butlast ns)" "names_ok (ns @ [n])" using 2 by (auto simp: names_ok_def dest: in_set_butlastD)
  then show ?case using 2 by (auto simp: names_ok_def split: if_splits)
qed simp

text \<open>The end of the routine.\<close>

lemma norm_finish_spec:
  assumes out: "\<forall>i < length out. m (p + of_nat i) = out ! i" "out \<noteq> []" "0 \<notin> set out" and b: "unat p + length out < 2 ^ 32"
  shows "str_at (norm_finish p (p + of_nat (length out)) m) p (strip_slash out)"
    "same_past p (length out + 1) m (norm_finish p (p + of_nat (length out)) m)"
proof -
  obtain n where n: "length out = Suc n" using out(2) by (cases out) auto
  let ?m1 = "m(p + of_nat (length out) := 0)" and ?d = "p + of_nat n"
  have d: "p + of_nat (length out) - 1 = ?d" by (simp add: n)
  have ne: "?d \<noteq> p + of_nat (length out)" "(?d \<noteq> p) = (0 < n)"
    using offset_eq [of p n "length out"] offset_eq [of p n 0] b n by auto
  have ld: "?m1 ?d = last out" using ne out(1,2) n by (simp add: last_conv_nth)
  let ?t = "strip_slash out"
  have t: "?t = take (length ?t) out" "length ?t \<le> length out" "?t \<noteq> []" "length ?t = (if ?d \<noteq> p \<and> ?m1 ?d = slash then n else Suc n)"
    using n ne(2) ld out(2) by (auto simp: strip_slash_def butlast_conv_take neq_Nil_conv)
  define m2 where "m2 = (if ?d \<noteq> p \<and> ?m1 ?d = slash then ?m1(?d := 0) else ?m1)"
  have m2: "m2 (p + of_nat i) = (?t @ [0]) ! i" if i: "i \<le> length ?t" for i
  proof (cases "i = length ?t")
    case True
    then have "(?t @ [0]) ! i = 0" by simp
    moreover have "m2 (p + of_nat i) = 0" using True t(4) n by (simp add: m2_def)
    ultimately show ?thesis by simp
  next
    case False
    then have "i < length ?t" using i by simp
    moreover from this have "?t ! i = out ! i" using t(1) by (metis nth_take)
    moreover have "p + of_nat i \<noteq> p + of_nat (length out)" "p + of_nat i \<noteq> ?d \<or> length ?t \<noteq> n"
      using offset_eq [of p i "length out"] offset_eq [of p i n] b n t(2) \<open>i < length ?t\<close> by auto
    ultimately show ?thesis using out(1) t(2,4) by (auto simp: m2_def nth_append)
  qed
  have str: "str_at m2 p ?t"
  proof (rule str_at_bytes)
    show "0 \<notin> set ?t" using t(1) out(3) set_take_subset [of "length ?t" out] by (metis subsetD)
  qed (rule m2)
  then have "m2 p \<noteq> 0" using t(3) by (cases ?t) auto
  then have e: "norm_finish p (p + of_nat (length out)) m = m2" by (simp add: norm_finish_def Let_def d m2_def)
  show "str_at (norm_finish p (p + of_nat (length out)) m) p ?t" using str e by simp
  have "unat (p + of_nat (length out) - p) = length out" "unat (?d - p) = n"
    by (rule offset_unat, use b n in simp)+
  then have "m2 x = m x" if "length out + 1 \<le> unat (x - p)" for x using that n by (auto simp: m2_def)
  then show "same_past p (length out + 1) m (norm_finish p (p + of_nat (length out)) m)" by (simp add: same_past_def e)
qed

subsection \<open>The routine in the heap\<close>

definition join_fmt :: "u8 list" where
  "join_fmt = map of_char ''%s/%s''"

definition full_path :: "u8 list \<Rightarrow> u8 list \<Rightarrow> u8 list" where
  "full_path d f = (if f \<noteq> [] \<and> hd f = slash then f else d @ [slash] @ f)"

lemma join_out:
  assumes "S dir = Some d" "S fn = Some f" "dir \<noteq> 0" "fn \<noteq> 0"
  shows "format_out S [Conv [] Default None [] (ch CHR ''s''), Chr slash, Conv [] Default None [] (ch CHR ''s'')] [dir, fn] =
    Some (d @ [slash] @ f)"
  using assms by (simp add: arg_chars_def arg_text_def padded_def spaces_def)

lemma str_at_unique: "str_at m a xs \<Longrightarrow> str_at m a ys \<Longrightarrow> xs = ys"
proof (induction xs arbitrary: a ys)
  case (Cons x xs)
  then show ?case by (cases ys) auto
qed (metis list.exhaust str_at.simps)

lemma join_prints:
  assumes "sz \<noteq> 0" "unat p + unat sz < 2 ^ 32" "str_at m fmt join_fmt" "outside p (unat sz) fmt (length join_fmt)"
    and d: "str_at m dir d" "outside p (unat sz) dir (length d)" "dir \<noteq> 0"
    and f: "str_at m fn f" "outside p (unat sz) fn (length f)" "fn \<noteq> 0"
    and len: "unat sz = length d + length f + 2" "unat sz + 8 < 2 ^ 31" and b: "unat p + unat sz + 8 < 2 ^ 32"
  shows "\<exists>n. rt_snprintf p sz fmt [dir, fn] m = Some (n, printed p (unat sz) (d @ [slash] @ f) m)"
proof -
  define S where "S = (\<lambda>a. if a = fn then Some f else if a = dir then Some d else None)"
  have df: "dir = fn \<Longrightarrow> d = f" using str_at_unique d(1) f(1) by blast
  have S: "S dir = Some d" "S fn = Some f" using df by (auto simp: S_def)
  let ?ds = "[Conv [] Default None [] (ch CHR ''s''), Chr slash, Conv [] Default None [] (ch CHR ''s'')]"
  have ft: "format_text ?ds = join_fmt" by (simp add: join_fmt_def)
  have ok: "strings_ok S p (unat sz) m" using d f len by (auto simp: strings_ok_def S_def)
  have ds: "\<forall>d \<in> set ?ds. piece_ok d" by (simp add: flag_chars_def other_chars_def)
  show ?thesis unfolding rt_snprintf_def
    using rt_vsnprintf_text [OF buffer_end [OF assms(1)] ok ds _ _ join_out [OF S d(3) f(3)], unfolded ft, OF _ assms(3,4)] assms(2) len b
    by fastforce
qed

lemma block_bound:
  assumes run: "heap_run k h A" and p: "A p = Some xs"
  shows "unat p + length xs + 12 \<le> 2 ^ 32" "p \<noteq> 0"
proof -
  obtain bs l where B: "heap_ok h bs l" using heap_run_inv [OF run] by (auto simp: run_inv_def)
  have r: "row h bs" using B by (simp add: heap_ok_def)
  have "unat (heap_end h) = unat (heap_ptr h) + end_of 0 bs" using row_unat_at [OF r le_refl] r by (simp add: row_def)
  then show "unat p + length xs + 12 \<le> 2 ^ 32" using heap_block_facts [OF run p] row_bounds(2) [OF r] by simp
  have "unat p \<noteq> 0" using heap_block_facts [OF run p] by auto
  then show "p \<noteq> 0" by auto
qed

lemma written_str_in:
  assumes "str_at (bytes h) p xs" "A p = Some ys" "None \<notin> set ys" "length xs < length ys"
  shows "str_in h A p xs"
  unfolding str_in_def
proof (intro conjI allI impI disjI2)
  fix i assume "i \<le> length xs"
  then have "ys ! i \<noteq> None" using assms(3,4) by (metis le_less_trans nth_mem)
  then show "\<exists>q zs j. A q = Some zs \<and> j < length zs \<and> p + of_nat i = q + of_nat j \<and> zs ! j \<noteq> None"
    using assms(2,4) \<open>i \<le> length xs\<close> by (intro exI [of _ p] exI [of _ ys] exI [of _ i]) simp
qed (rule assms)

lemma outsideI:
  assumes "\<forall>i \<le> n. \<forall>j < z. s + of_nat i \<noteq> p + of_nat j"
  shows "outside p z s n"
  unfolding outside_def
proof (intro allI impI)
  fix i assume i: "i \<le> n"
  show "z \<le> unat (s + of_nat i - p)"
  proof (rule ccontr)
    assume "\<not> ?thesis"
    then have "s + of_nat i \<noteq> p + of_nat (unat (s + of_nat i - p))" using assms i by (meson not_le)
    moreover have "p + of_nat (unat (s + of_nat i - p)) = s + of_nat i" by simp
    ultimately show False by metis
  qed
qed

lemma printed_nth:
  "z = length t + 1 \<Longrightarrow> i \<le> length t \<Longrightarrow> unat (of_nat i :: u32) = i \<Longrightarrow> printed p z t m (p + of_nat i) = (t @ [0]) ! i"
  by (auto simp: printed_def nth_append Let_def)

lemma path_build_spec:
  assumes run: "heap_run k h A" and fn: "str_in h A fn f" "fn \<noteq> 0" and dir: "str_in h A dir d" "dir \<noteq> 0"
    and fmt: "str_in h A fmt join_fmt" and len: "length d + length f + 16 < 2 ^ 31"
  shows "\<exists>p h1. path_build fmt dir fn h k = Some (Some p, h1, k) \<and>
    (if p = 0 then heap_run k h1 A \<and> (\<exists>h2. rt_malloc (of_nat (length (full_path d f)) + 1) h k = Some (Some 0, h2, k))
     else A p = None \<and> heap_run k h1 (A(p \<mapsto> map Some (full_path d f @ [0]))))"
proof (cases "f \<noteq> [] \<and> hd f = slash")
  case True
  have str: "str_at (bytes h) fn f" using fn(1) by (simp add: str_in_def)
  then have "bytes h fn = slash" using True by (cases f) auto
  then have "path_build fmt dir fn h k = rt_strdup fn h k" by (simp add: path_build_def)
  moreover have "full_path d f = f" using True by (simp add: full_path_def)
  moreover have "length f + 16 < 2 ^ 32" using len by simp
  ultimately show ?thesis using strdup_spec [OF run fn(1)] by fastforce
next
  case False
  have sd: "str_at (bytes h) dir d" and sf: "str_at (bytes h) fn f" using dir(1) fn(1) by (simp_all add: str_in_def)
  have nf: "bytes h fn \<noteq> slash" using sf False by (cases f) auto
  let ?sz = "of_nat (length d) + of_nat (length f) + 2 :: u32" and ?full = "d @ [slash] @ f"
  have full: "full_path d f = ?full" using False by (auto simp: full_path_def)
  have "unat (of_nat (length d + length f + 2) :: u32) = length d + length f + 2" using len by (intro unat_of_nat32) simp
  then have n: "unat ?sz = length d + length f + 2" by (simp add: ac_simps)
  have sz: "?sz \<noteq> 0" "?sz \<le> 0xfffffffc" using n len by (auto simp: word_le_nat_alt unat_eq_zero [symmetric] simp del: unat_eq_zero)
  have szf: "of_nat (length ?full) + 1 = ?sz" by simp
  note I = heap_run_inv [OF run]
  obtain p h1 where M: "rt_malloc ?sz h k = Some (Some p, h1, k)" using run_inv_malloc [OF I sz] by blast
  show ?thesis
  proof (cases "p = 0")
    case True
    then have "path_build fmt dir fn h k = Some (Some 0, h1, k)"
      using nf M by (simp add: path_build_def rt_strlen_spec [OF sd] rt_strlen_spec [OF sf])
    moreover have "heap_run k h1 A" using run_malloc [OF run sz M] True by simp
    moreover have "rt_malloc (of_nat (length (full_path d f)) + 1) h k = Some (Some 0, h1, k)"
      unfolding full szf using M True by simp
    ultimately show ?thesis using True by auto
  next
    case False
    have r1: "heap_run k h1 (A(p \<mapsto> replicate (unat ?sz) None))" using run_malloc [OF run sz M] False by simp
    have fresh: "A p = None" by (rule malloc_fresh [OF I sz M False])
    note D = str_in_malloc [OF run sz M False dir(1)] and F = str_in_malloc [OF run sz M False fn(1)]
      and T = str_in_malloc [OF run sz M False fmt]
    have b: "unat p + unat ?sz + 12 \<le> 2 ^ 32" using block_bound(1) [OF r1, of p] by simp
    have "\<exists>n. rt_snprintf p ?sz fmt [dir, fn] (bytes h1) = Some (n, printed p (unat ?sz) ?full (bytes h1))"
      by (rule join_prints [OF sz(1) _ T(1) outsideI [OF T(2)] D(1) outsideI [OF D(2)] dir(2) F(1) outsideI [OF F(2)] fn(2) n])
        (use b n len in simp_all)
    then obtain q where q: "rt_snprintf p ?sz fmt [dir, fn] (bytes h1) = Some (q, printed p (unat ?sz) ?full (bytes h1))" by blast
    let ?m = "printed p (unat ?sz) ?full (bytes h1)"
    have "path_build fmt dir fn h k = Some (Some p, h1\<lparr>bytes := ?m\<rparr>, k)"
      using nf M False q by (simp add: path_build_def rt_strlen_spec [OF sd] rt_strlen_spec [OF sf] rt_strlen_spec [OF D(1)] rt_strlen_spec [OF F(1)])
    moreover have "heap_run k (h1\<lparr>bytes := ?m\<rparr>) (A(p \<mapsto> map (\<lambda>i. Some (?m (p + of_nat i))) [0..<unat ?sz]))"
    proof -
      have "?m x = bytes h1 x" if "unat ?sz \<le> unat (x - p)" for x
        using that n by (simp add: printed_def Let_def min_def)
      then show ?thesis using heap_run_set [OF r1, of p "replicate (unat ?sz) None" ?m] by simp
    qed
    moreover have "map (\<lambda>i. Some (?m (p + of_nat i))) [0..<unat ?sz] = map Some (?full @ [0])"
    proof (rule nth_equalityI)
      fix i assume "i < length (map (\<lambda>i. Some (?m (p + of_nat i))) [0..<unat ?sz])"
      then have i: "i < unat ?sz" by simp
      have "unat (of_nat i :: u32) = i" using i b by (intro unat_of_nat32) simp
      then have "?m (p + of_nat i) = (?full @ [0]) ! i"
        using i n by (intro printed_nth) simp_all
      then show "map (\<lambda>i. Some (?m (p + of_nat i))) [0..<unat ?sz] ! i = map Some (?full @ [0]) ! i"
        using i n by (simp del: map_append append_assoc append_Cons upt_Suc)
    qed (simp add: n)
    ultimately show ?thesis using fresh False full by auto
  qed
qed

text \<open>The two ends of \<^verbatim>\<open>dfs_normalize_path\<close> behind its loop: the block is freed, or becomes the result.\<close>

lemma path_gives_up:
  assumes B: "path_build fmt (if dir = 0 then wd else dir) fn h k = Some (Some p, h1, k)" and p: "p \<noteq> 0" and fn: "fn \<noteq> 0"
    and fresh: "A p = None" and r1: "heap_run k h1 (A(p \<mapsto> map Some (full @ [0])))"
    and q: "norm_loop p p p (bytes h1) = Some q" "fst q = None" "same_past p (length full) (bytes h1) (snd q)"
  shows "\<exists>h2. dfs_normalize_path wd fmt dir fn h k = Some (Some 0, h2, k) \<and> heap_run k h2 A"
proof -
  have r2: "heap_run k (h1\<lparr>bytes := snd q\<rparr>) (A(p \<mapsto> map (\<lambda>i. Some (snd q (p + of_nat i))) [0..<length (map Some (full @ [0]))]))"
    using heap_run_set [OF r1, of p "map Some (full @ [0])" "snd q"] q(3) by (simp add: same_past_def)
  obtain h2 where F: "rt_free p (h1\<lparr>bytes := snd q\<rparr>) k = Some (Some (), h2, k)"
    using run_inv_free [OF heap_run_inv [OF r2], of p] by auto
  have "heap_run k h2 A" using run_free [OF r2 _ F] fresh by (simp add: fun_upd_idem)
  moreover have "dfs_normalize_path wd fmt dir fn h k = Some (Some 0, h2, k)"
    using B p fn q(1,2) F by (cases q) (simp add: dfs_normalize_path_def)
  ultimately show ?thesis by blast
qed

lemma path_kept:
  assumes B: "path_build fmt (if dir = 0 then wd else dir) fn h k = Some (Some p, h1, k)" and p: "p \<noteq> 0" and fn: "fn \<noteq> 0"
    and r1: "heap_run k h1 (A(p \<mapsto> map Some (full @ [0])))" and q: "norm_loop p p p (bytes h1) = Some q"
    and Q: "fst q = Some (p + of_nat (length out))" "length out \<le> length full" "\<forall>i < length out. snd q (p + of_nat i) = out ! i"
      "same_past p (length full) (bytes h1) (snd q)" and out: "out \<noteq> []" "0 \<notin> set out" and b: "unat p + length full < 2 ^ 32"
  shows "\<exists>h2 xs. dfs_normalize_path wd fmt dir fn h k = Some (Some p, h2, k) \<and> heap_run k h2 (A(p \<mapsto> xs)) \<and>
    str_in h2 (A(p \<mapsto> xs)) p (strip_slash out)"
proof -
  let ?m = "norm_finish p (p + of_nat (length out)) (snd q)"
  let ?xs = "map (\<lambda>i. Some (?m (p + of_nat i))) [0..<length (map Some (full @ [0]))]"
  have N: "str_at ?m p (strip_slash out)" "same_past p (length out + 1) (snd q) ?m"
    using norm_finish_spec [OF Q(3) out] b Q(2) by simp_all
  have "same_past p (length full + 1) (bytes h1) ?m"
    using same_past_trans [OF same_past_mono [OF Q(4)] same_past_mono [OF N(2)]] Q(2) by simp
  then have r2: "heap_run k (h1\<lparr>bytes := ?m\<rparr>) (A(p \<mapsto> ?xs))"
    using heap_run_set [OF r1, of p "map Some (full @ [0])" ?m] by (simp add: same_past_def)
  have "dfs_normalize_path wd fmt dir fn h k = Some (Some p, h1\<lparr>bytes := ?m\<rparr>, k)"
    using B p fn q Q(1) by (cases q) (simp add: dfs_normalize_path_def)
  moreover have "length (strip_slash out) \<le> length full" using Q(2) by (auto simp: strip_slash_def)
  then have "str_in (h1\<lparr>bytes := ?m\<rparr>) (A(p \<mapsto> ?xs)) p (strip_slash out)"
    using N(1) by (intro written_str_in) (simp_all only: heap.simps fun_upd_same set_map image_iff option.distinct simp_thms bex_simps length_map length_upt length_append list.size, simp_all add: image_iff)
  ultimately show ?thesis using r2 by blast
qed

text \<open>
  What the code does with any path, also one that is relative or goes above the root.  Paths that end
  exactly above the root are left out: there the code reads in front of the block.
\<close>

lemma normalize_path_code:
  assumes run: "heap_run k h A" and fn: "str_in h A fn f" "fn \<noteq> 0"
    and dir: "str_in h A (if dir = 0 then wd else dir) d" "wd \<noteq> 0"
    and fmt: "str_in h A fmt join_fmt" and len: "length d + length f + 16 < 2 ^ 31"
    and r: "r = resolve (hd (full_path d f) = slash, []) (names (full_path d f))" "r \<noteq> Some (False, [])"
  shows "\<exists>p h'. dfs_normalize_path wd fmt dir fn h k = Some (Some p, h', k) \<and>
    (if p = 0
     then heap_run k h' A \<and> (r = None \<or> (\<exists>g. rt_malloc (of_nat (length (full_path d f)) + 1) h k = Some (Some 0, g, k)))
     else A p = None \<and> (\<exists>c xs. r = Some c \<and> heap_run k h' (A(p \<mapsto> xs)) \<and> str_in h' (A(p \<mapsto> xs)) p (path_text c)))"
proof -
  let ?dir = "if dir = 0 then wd else dir" and ?full = "full_path d f"
  have "?dir \<noteq> 0" using dir(2) by simp
  from path_build_spec [OF run fn dir(1) this fmt len] obtain p h1 where
    B: "path_build fmt ?dir fn h k = Some (Some p, h1, k)"
    "if p = 0 then heap_run k h1 A \<and> (\<exists>h2. rt_malloc (of_nat (length ?full) + 1) h k = Some (Some 0, h2, k))
     else A p = None \<and> heap_run k h1 (A(p \<mapsto> map Some (?full @ [0])))" by blast
  show ?thesis
  proof (cases "p = 0")
    case True
    then show ?thesis using B fn(2) by (intro exI [of _ 0] exI [of _ h1]) (auto simp: dfs_normalize_path_def)
  next
    case False
    then have fresh: "A p = None" and r1: "heap_run k h1 (A(p \<mapsto> map Some (?full @ [0])))" using B(2) by simp_all
    have ne: "?full \<noteq> []" by (simp add: full_path_def)
    have nz: "0 \<notin> set ?full"
      using fn(1) dir(1) str_bytes [of "bytes h" fn f] str_bytes [of "bytes h" ?dir d] by (auto simp: full_path_def str_in_def)
    have bytes: "bytes h1 (p + of_nat i) = (?full @ [0]) ! i" if "i \<le> length ?full" for i
      using heap_block_facts [OF r1, of p "map Some (?full @ [0])"] that by (auto simp del: map_append)
    have str: "str_at (bytes h1) p ?full" by (rule str_at_bytes) (use bytes nz in auto)
    have b: "unat p + length ?full + 13 \<le> 2 ^ 32" using block_bound(1) [OF r1, of p] by simp
    have inv: "norm_inv p (bytes h1) [] 0 ?full" using str b False by (simp add: norm_inv_def)
    obtain q where q: "norm_loop p p p (bytes h1) = Some q" "norm_done p (length ?full) (bytes h1) (norm_bytes [] ?full) q"
      using norm_loop_spec [OF inv] by auto
    have res: "map_option strip_slash (norm_bytes [] ?full) = map_option (\<lambda>(b, ms). (if b then [slash] else []) @ join_names ms) r"
      using norm_bytes_start [of ?full] ne by (simp add: r(1))
    show ?thesis
    proof (cases "norm_bytes [] ?full")
      case None
      then have "r = None" using res by (cases r) auto
      have "fst q = None" "same_past p (length ?full) (bytes h1) (snd q)" using q(2) None by (auto simp: norm_done_def)
      from path_gives_up [OF B(1) False fn(2) fresh r1 q(1) this] obtain h2 where
        "dfs_normalize_path wd fmt dir fn h k = Some (Some 0, h2, k) \<and> heap_run k h2 A" ..
      then show ?thesis using \<open>r = None\<close> by (intro exI [of _ 0] exI [of _ h2]) simp
    next
      case (Some out)
      have Q: "fst q = Some (p + of_nat (length out))" "length out \<le> length ?full" "\<forall>i < length out. snd q (p + of_nat i) = out ! i"
        "same_past p (length ?full) (bytes h1) (snd q)" using q(2) Some by (auto simp: norm_done_def)
      obtain bb ms where c: "r = Some (bb, ms)" "strip_slash out = (if bb then [slash] else []) @ join_names ms"
        using res [unfolded Some option.map, symmetric, unfolded map_option_eq_Some] by (auto split: prod.splits)
      have "names_ok ms" by (rule resolve_names_ok [OF trans [OF r(1) [symmetric] c(1)] _ names_ok_names]) (simp add: names_ok_def)
      then have sn: "strip_slash out \<noteq> []" using c r(2) join_ne [of ms] by (cases "ms = []") auto
      then have on: "out \<noteq> []" by (auto simp: strip_slash_def)
      have on0: "0 \<notin> set out" using norm_bytes_set [OF Some] nz by auto
      have le: "unat p + length ?full < 2 ^ 32" using b by simp
      from path_kept [OF B(1) False fn(2) r1 q(1) Q on on0 le] obtain h2 xs where
        "dfs_normalize_path wd fmt dir fn h k = Some (Some p, h2, k)" "heap_run k h2 (A(p \<mapsto> xs))"
        "str_in h2 (A(p \<mapsto> xs)) p (strip_slash out)" by blast
      moreover have "path_text (bb, ms) = strip_slash out" using c(2) sn by (simp add: path_text_def)
      ultimately show ?thesis using False fresh c(1) by (intro exI [of _ p] exI [of _ h2]) auto
    qed
  qed
qed

lemma resolve_walk: "walk here ns = Some ms \<Longrightarrow> resolve (True, here) ns = Some (True, ms)"
  by (induction here ns rule: walk.induct) (auto split: if_splits)

lemma absolute_path_text: "path_text (True, ns) = absolute_text ns"
proof -
  have "slash # join_names ns = concat (map (\<lambda>n. slash # n) ns)" if "ns \<noteq> []"
    using that by (induction ns rule: join_names.induct) auto
  then show ?thesis by (cases "ns = []") (simp_all add: path_text_def absolute_text_def)
qed

text \<open>
  C39.  \<^verbatim>\<open>dfs_normalize_path\<close> of a file name and, when that is relative, a directory (\<^verbatim>\<open>NULL\<close> for the
  working directory), which together are an absolute path that does not go above the root: it gives a new
  block with the absolute path, without empty, \<^verbatim>\<open>.\<close> and \<^verbatim>\<open>..\<close> components, of what walking along the
  components from the root leads to; or \<^verbatim>\<open>NULL\<close> when the heap has no room, and then no block stays
  allocated.
\<close>

theorem dfs_normalize_path_resolves:
  assumes run: "heap_run k h A" and fn: "str_in h A fn f" "fn \<noteq> 0"
    and dir: "str_in h A (if dir = 0 then wd else dir) d" "wd \<noteq> 0"
    and fmt: "str_in h A fmt join_fmt" and len: "length d + length f + 16 < 2 ^ 31"
    and absolute: "hd (full_path d f) = slash" and below: "walk [] (names (full_path d f)) = Some ns"
  shows "\<exists>p h'. dfs_normalize_path wd fmt dir fn h k = Some (Some p, h', k) \<and>
    (if p = 0
     then heap_run k h' A \<and> (\<exists>g. rt_malloc (of_nat (length (full_path d f)) + 1) h k = Some (Some 0, g, k))
     else A p = None \<and> (\<exists>xs. heap_run k h' (A(p \<mapsto> xs)) \<and> str_in h' (A(p \<mapsto> xs)) p (absolute_text ns)))"
proof -
  have r: "resolve (hd (full_path d f) = slash, []) (names (full_path d f)) = Some (True, ns)"
    using resolve_walk [OF below] absolute by simp
  then have "resolve (hd (full_path d f) = slash, []) (names (full_path d f)) \<noteq> Some (False, [])" by simp
  from normalize_path_code [OF run fn dir fmt len refl this] show ?thesis
    unfolding r by (fastforce simp: absolute_path_text)
qed

text \<open>
  Above the root the code does not keep its word: of an absolute path that goes above the root once and
  then down again the result is a relative path.
\<close>

lemma normalize_leaves_root:
  assumes run: "heap_run k h A" and fn: "str_in h A fn (map of_char ''/../'' @ n)" "fn \<noteq> 0"
    and n: "n \<noteq> []" "slash \<notin> set n" "n \<noteq> [dot]" "n \<noteq> [dot, dot]"
    and dir: "str_in h A (if dir = 0 then wd else dir) d" "wd \<noteq> 0"
    and fmt: "str_in h A fmt join_fmt" and len: "length d + length n + 20 < 2 ^ 31"
  shows "\<exists>p h'. dfs_normalize_path wd fmt dir fn h k = Some (Some p, h', k) \<and>
    (p \<noteq> 0 \<longrightarrow> (\<exists>xs. heap_run k h' (A(p \<mapsto> xs)) \<and> str_in h' (A(p \<mapsto> xs)) p n))"
proof -
  let ?f = "map of_char ''/../'' @ n"
  have full: "full_path d ?f = ?f" by (simp add: full_path_def)
  have "names ?f = [[dot, dot], n]" using names_from_name(2) [OF n(2), of "[]"] n(1) by (simp add: names_def)
  then have r: "resolve (hd (full_path d ?f) = slash, []) (names (full_path d ?f)) = Some (False, [n])"
    unfolding full using n(3,4) by simp
  then have "resolve (hd (full_path d ?f) = slash, []) (names (full_path d ?f)) \<noteq> Some (False, [])" by simp
  note C = normalize_path_code [OF run fn dir fmt _ refl this]
  have "path_text (False, [n]) = n" using n(1) by (simp add: path_text_def)
  then show ?thesis using C len unfolding r by (fastforce split: if_splits)
qed

text \<open>A heap, and three strings in front of it.\<close>

definition path_zero :: heap where
  "path_zero = heap_zero\<lparr>bytes := text_mem [(0x100, ''../b/./c''), (0x200, ''%s/%s''), (0x300, ''/a'')]\<rparr>"

definition path_heap :: heap where
  "path_heap = (heap_setup 0x1000 88 path_zero)\<lparr>lfree := 0x1000\<rparr>"

lemma path_heap_ok:
  "heap_ok path_heap [(88, False)] 0" "lowest [(88, False)] 0" "heap_sem path_heap = 2" "mem_size_aligned path_heap = 88"
  "heap_ptr path_heap = 0x1000"
  using heap_setup_ok [where b = "0x1000" and n = 88 and h = path_zero] by (simp_all add: path_heap_def path_zero_def heap_zero_def)

lemma path_heap_run: "heap_run heap_kernel path_heap Map.empty"
proof (rule run_fresh)
  show "fresh_heap heap_kernel path_heap"
    unfolding fresh_heap_def
    by (rule exI [of _ "0x1000"], rule exI [of _ 88], rule exI [of _ path_zero])
      (simp add: path_heap_def [symmetric] heap_kernel_free path_heap_ok(3), simp add: path_zero_def heap_zero_def)
qed

lemma path_heap_end: "heap_end path_heap = 0x1064"
proof -
  have r: "row path_heap [(88, False)]" using path_heap_ok(1) by (simp add: heap_ok_def)
  then have "unat (heap_end path_heap) = 0x1064" using row_unat_at [OF r le_refl] path_heap_ok(5) by (simp add: row_def)
  then show ?thesis by (simp add: word_unat_eq_iff)
qed

lemma setup_bytes:
  "12 \<le> unat (x - b) \<Longrightarrow> 12 \<le> unat (x - heap_end (heap_setup b n h)) \<Longrightarrow> bytes (heap_setup b n h) x = bytes h x"
  by (simp add: heap_setup_def Let_def set_mem_def)

lemma path_heap_bytes: "x < 0xff4 \<Longrightarrow> bytes path_heap x = bytes path_zero x"
proof -
  assume x: "x < 0xff4"
  have "12 \<le> unat (x - 0x1000)" "12 \<le> unat (x - 0x1064)" using x by (simp_all add: unat_sub_if_size word_size word_le_nat_alt word_less_nat_alt)
  then show ?thesis
    using setup_bytes [of x "0x1000" 88 path_zero] path_heap_end by (simp add: path_heap_def)
qed

lemma path_heap_str:
  assumes "str_at (bytes path_zero) s xs" "unat s + length xs < 0xff4"
  shows "str_in path_heap Map.empty s xs"
proof -
  have x: "s + of_nat i < 0xff4" if "i \<le> length xs" for i
  proof -
    have "unat (of_nat i :: u32) = i" using that assms(2) by (intro unat_of_nat32) simp
    then show ?thesis using that assms(2) by (simp add: word_less_nat_alt unat_add_small)
  qed
  have "str_at (bytes path_heap) s xs = str_at (bytes path_zero) s xs"
    by (rule str_at_cong) (use path_heap_bytes x in blast)
  moreover have "out_heap path_heap (s + of_nat i)" if "i \<le> length xs" for i
    using x [OF that] by (simp add: out_heap_def path_heap_ok word_less_nat_alt)
  ultimately show ?thesis using assms(1) by (simp add: str_in_def)
qed

lemma path_heap_text:
  "str_in path_heap Map.empty 0x100 (map of_char ''../b/./c'')" "str_in path_heap Map.empty 0x200 join_fmt"
  "str_in path_heap Map.empty 0x300 (map of_char ''/a'')"
  by (rule path_heap_str, simp_all add: path_zero_def text_mem_def join_fmt_def)+

theorem dfs_normalize_path_resolves_witness:
  "\<exists>p h' xs. dfs_normalize_path 0x300 0x200 0 0x100 path_heap heap_kernel = Some (Some p, h', heap_kernel) \<and>
     heap_run heap_kernel h' [p \<mapsto> xs] \<and> str_in h' [p \<mapsto> xs] p (map of_char ''/b/c'')"
proof -
  have full: "full_path (map of_char ''/a'') (map of_char ''../b/./c'') = map of_char ''/a/../b/./c''" by (simp add: full_path_def)
  have below: "walk [] (names (map of_char ''/a/../b/./c'')) = Some [map of_char ''b'', map of_char ''c'']" by (simp add: names_def)
  have m: "malloc_size 12 = 12" by (simp add: malloc_size_def align4_def)
  obtain q g where M: "rt_malloc 12 path_heap heap_kernel = Some (Some q, g, heap_kernel)" "q \<noteq> 0"
    using demo_alloc [OF path_heap_ok(1,3,4), where sz = 12 and xs = "[]" and z = 88 and ys = "[]"] m by auto
  have t: "absolute_text [map of_char ''b'', map of_char ''c''] = map of_char ''/b/c''" by (simp add: absolute_text_def)
  note C = dfs_normalize_path_resolves [OF path_heap_run path_heap_text(1) _ _ _ path_heap_text(2) _ _ below [folded full], of 0 "0x300"]
  show ?thesis using C path_heap_text(3) M unfolding full t by (auto split: if_splits)
qed

end
