(* ===== verification/Finsh_Vm.thy ===== *)
theory Finsh_Vm
  imports Small_Mem "HOL-Library.Signed_Division"
begin

text \<open>
  The virtual machine of the C expression shell, \<^verbatim>\<open>rt-thread/components/finsh/finsh_ops.c\<close> and
  \<^verbatim>\<open>finsh_vm.c\<close>: a stack of unions, a text segment of bytes, and the handlers of its 48 operations.
  A \<^verbatim>\<open>char\<close> is unsigned, as on the target, \<^verbatim>\<open>short\<close> and \<^verbatim>\<open>long\<close> are signed words of 16 and 32 bits; sums,
  products and left shifts wrap.  \<open>None\<close> is an access outside an array, an operation that is not in
  the table, a division by zero, or a shift by a count outside the word.
\<close>

subsection \<open>State\<close>

abbreviation (input) FINSH_STACK_MAX :: int where "FINSH_STACK_MAX \<equiv> 64"
abbreviation (input) FINSH_TEXT_MAX :: nat where "FINSH_TEXT_MAX \<equiv> 128"

text \<open>A slot holds a \<^verbatim>\<open>union finsh_value\<close>; its \<^verbatim>\<open>char_value\<close> and \<^verbatim>\<open>short_value\<close> are the low bytes.\<close>

record vm =
  vm_stack :: "int \<Rightarrow> u32"
  finsh_sp :: int
  finsh_pc :: nat
  text_segment :: "nat \<Rightarrow> u8"
  vm_mem :: memory

definition char_value :: "u32 \<Rightarrow> u8" where
  "char_value x = ucast x"

definition short_value :: "u32 \<Rightarrow> u16" where
  "short_value x = ucast x"

definition set_char_value :: "u32 \<Rightarrow> u8 \<Rightarrow> u32" where
  "set_char_value x c = (x AND 0xffffff00) OR ucast c"

definition set_short_value :: "u32 \<Rightarrow> u16 \<Rightarrow> u32" where
  "set_short_value x s = (x AND 0xffff0000) OR ucast s"

definition slot :: "int \<Rightarrow> vm \<Rightarrow> u32 option" where
  "slot i v = (if 0 \<le> i \<and> i < FINSH_STACK_MAX then Some (vm_stack v i) else None)"

definition put_slot :: "int \<Rightarrow> u32 \<Rightarrow> vm \<Rightarrow> vm option" where
  "put_slot i x v = (if 0 \<le> i \<and> i < FINSH_STACK_MAX then Some (v\<lparr>vm_stack := (vm_stack v)(i := x)\<rparr>) else None)"

definition text_at :: "nat \<Rightarrow> vm \<Rightarrow> u8 option" where
  "text_at i v = (if i < FINSH_TEXT_MAX then Some (text_segment v i) else None)"

definition FINSH_GET16 :: "nat \<Rightarrow> vm \<Rightarrow> u16 option" where
  "FINSH_GET16 i v = do { a \<leftarrow> text_at i v; b \<leftarrow> text_at (i + 1) v; Some (word16 a b) }"

definition FINSH_GET32 :: "nat \<Rightarrow> vm \<Rightarrow> u32 option" where
  "FINSH_GET32 i v =
     do { a \<leftarrow> text_at i v; b \<leftarrow> text_at (i + 1) v; c \<leftarrow> text_at (i + 2) v; d \<leftarrow> text_at (i + 3) v; Some (word32 a b c d) }"

definition get16 :: "u32 \<Rightarrow> memory \<Rightarrow> u16" where
  "get16 a m = word16 (m a) (m (a + 1))"

definition get32 :: "u32 \<Rightarrow> memory \<Rightarrow> u32" where
  "get32 a m = word32 (m a) (m (a + 1)) (m (a + 2)) (m (a + 3))"

definition put16 :: "u32 \<Rightarrow> u16 \<Rightarrow> memory \<Rightarrow> memory" where
  "put16 a s m = (let b = bytes16 s in m(a := b ! 0, a + 1 := b ! 1))"

definition put32 :: "u32 \<Rightarrow> u32 \<Rightarrow> memory \<Rightarrow> memory" where
  "put32 a x m = (let b = bytes32 x in m(a := b ! 0, a + 1 := b ! 1, a + 2 := b ! 2, a + 3 := b ! 3))"

subsection \<open>The operators\<close>

text \<open>
  The C operators on operands promoted to \<^verbatim>\<open>int\<close>; the result goes back into the width of the
  operation, so its low bits are enough.
\<close>

definition c_div :: "int \<Rightarrow> int \<Rightarrow> int option" where
  "c_div a b = (if b = 0 then None else Some (a sdiv b))"

definition c_mod :: "int \<Rightarrow> int \<Rightarrow> int option" where
  "c_mod a b = (if b = 0 then None else Some (a smod b))"

definition c_shl :: "int \<Rightarrow> int \<Rightarrow> int option" where
  "c_shl a b = (if 0 \<le> b \<and> b < 32 then Some (push_bit (nat b) a) else None)"

definition c_shr :: "int \<Rightarrow> int \<Rightarrow> int option" where
  "c_shr a b = (if 0 \<le> b \<and> b < 32 then Some (drop_bit (nat b) a) else None)"

definition total_op :: "(int \<Rightarrow> int \<Rightarrow> int) \<Rightarrow> int \<Rightarrow> int \<Rightarrow> int option" where
  "total_op f a b = Some (f a b)"

text \<open>\<open>OP_BIN\<close>: the macros on the two upper slots, which pop one.\<close>

definition OP_BIN_BYTE :: "(int \<Rightarrow> int \<Rightarrow> int option) \<Rightarrow> vm \<Rightarrow> vm option" where
  "OP_BIN_BYTE f v =
     do {
       a \<leftarrow> slot (finsh_sp v - 2) v;
       b \<leftarrow> slot (finsh_sp v - 1) v;
       r \<leftarrow> f (uint (char_value a)) (uint (char_value b));
       v1 \<leftarrow> put_slot (finsh_sp v - 2) (set_char_value a (word_of_int r)) v;
       Some (v1\<lparr>finsh_sp := finsh_sp v - 1\<rparr>)
     }"

definition OP_BIN_WORD :: "(int \<Rightarrow> int \<Rightarrow> int option) \<Rightarrow> vm \<Rightarrow> vm option" where
  "OP_BIN_WORD f v =
     do {
       a \<leftarrow> slot (finsh_sp v - 2) v;
       b \<leftarrow> slot (finsh_sp v - 1) v;
       r \<leftarrow> f (sint (short_value a)) (sint (short_value b));
       v1 \<leftarrow> put_slot (finsh_sp v - 2) (set_short_value a (word_of_int r)) v;
       Some (v1\<lparr>finsh_sp := finsh_sp v - 1\<rparr>)
     }"

definition OP_BIN_DWORD :: "(int \<Rightarrow> int \<Rightarrow> int option) \<Rightarrow> vm \<Rightarrow> vm option" where
  "OP_BIN_DWORD f v =
     do {
       a \<leftarrow> slot (finsh_sp v - 2) v;
       b \<leftarrow> slot (finsh_sp v - 1) v;
       r \<leftarrow> f (sint a) (sint b);
       v1 \<leftarrow> put_slot (finsh_sp v - 2) (word_of_int r) v;
       Some (v1\<lparr>finsh_sp := finsh_sp v - 1\<rparr>)
     }"

definition OP_bw_byte :: "vm \<Rightarrow> vm option" where
  "OP_bw_byte v = do { a \<leftarrow> slot (finsh_sp v - 1) v; put_slot (finsh_sp v - 1) (set_char_value a (NOT (char_value a))) v }"

definition OP_bw_word :: "vm \<Rightarrow> vm option" where
  "OP_bw_word v = do { a \<leftarrow> slot (finsh_sp v - 1) v; put_slot (finsh_sp v - 1) (set_short_value a (NOT (short_value a))) v }"

definition OP_bw_dword :: "vm \<Rightarrow> vm option" where
  "OP_bw_dword v = do { a \<leftarrow> slot (finsh_sp v - 1) v; put_slot (finsh_sp v - 1) (NOT a) v }"

subsection \<open>Loads and stores\<close>

text \<open>A load of a narrow value leaves the upper bytes of the slot as they were.\<close>

definition OP_ld_byte :: "vm \<Rightarrow> vm option" where
  "OP_ld_byte v =
     do {
       c \<leftarrow> text_at (finsh_pc v) v;
       old \<leftarrow> slot (finsh_sp v) v;
       v1 \<leftarrow> put_slot (finsh_sp v) (set_char_value old c) v;
       Some (v1\<lparr>finsh_sp := finsh_sp v + 1, finsh_pc := finsh_pc v + 1\<rparr>)
     }"

definition OP_ld_word :: "vm \<Rightarrow> vm option" where
  "OP_ld_word v =
     do {
       s \<leftarrow> FINSH_GET16 (finsh_pc v) v;
       old \<leftarrow> slot (finsh_sp v) v;
       v1 \<leftarrow> put_slot (finsh_sp v) (set_short_value old s) v;
       Some (v1\<lparr>finsh_sp := finsh_sp v + 1, finsh_pc := finsh_pc v + 2\<rparr>)
     }"

definition OP_ld_dword :: "vm \<Rightarrow> vm option" where
  "OP_ld_dword v =
     do {
       x \<leftarrow> FINSH_GET32 (finsh_pc v) v;
       v1 \<leftarrow> put_slot (finsh_sp v) x v;
       Some (v1\<lparr>finsh_sp := finsh_sp v + 1, finsh_pc := finsh_pc v + 4\<rparr>)
     }"

definition OP_ld_value_byte :: "vm \<Rightarrow> vm option" where
  "OP_ld_value_byte v =
     do {
       c \<leftarrow> FINSH_GET32 (finsh_pc v) v;
       old \<leftarrow> slot (finsh_sp v) v;
       v1 \<leftarrow> put_slot (finsh_sp v) (set_char_value old (vm_mem v c)) v;
       Some (v1\<lparr>finsh_sp := finsh_sp v + 1, finsh_pc := finsh_pc v + 4\<rparr>)
     }"

definition OP_ld_value_word :: "vm \<Rightarrow> vm option" where
  "OP_ld_value_word v =
     do {
       s \<leftarrow> FINSH_GET32 (finsh_pc v) v;
       old \<leftarrow> slot (finsh_sp v) v;
       v1 \<leftarrow> put_slot (finsh_sp v) (set_short_value old (get16 s (vm_mem v))) v;
       Some (v1\<lparr>finsh_sp := finsh_sp v + 1, finsh_pc := finsh_pc v + 4\<rparr>)
     }"

definition OP_ld_value_dword :: "vm \<Rightarrow> vm option" where
  "OP_ld_value_dword v =
     do {
       l \<leftarrow> FINSH_GET32 (finsh_pc v) v;
       v1 \<leftarrow> put_slot (finsh_sp v) (get32 l (vm_mem v)) v;
       Some (v1\<lparr>finsh_sp := finsh_sp v + 1, finsh_pc := finsh_pc v + 4\<rparr>)
     }"

definition OP_ld_value_byte_stack :: "vm \<Rightarrow> vm option" where
  "OP_ld_value_byte_stack v =
     do { c \<leftarrow> slot (finsh_sp v - 1) v; put_slot (finsh_sp v - 1) (set_char_value c (vm_mem v c)) v }"

definition OP_ld_value_word_stack :: "vm \<Rightarrow> vm option" where
  "OP_ld_value_word_stack v =
     do { s \<leftarrow> slot (finsh_sp v - 1) v; put_slot (finsh_sp v - 1) (set_short_value s (get16 s (vm_mem v))) v }"

definition OP_ld_value_dword_stack :: "vm \<Rightarrow> vm option" where
  "OP_ld_value_dword_stack v =
     do { l \<leftarrow> slot (finsh_sp v - 1) v; put_slot (finsh_sp v - 1) (get32 l (vm_mem v)) v }"

definition OP_st_byte :: "vm \<Rightarrow> vm option" where
  "OP_st_byte v =
     do {
       a \<leftarrow> slot (finsh_sp v - 2) v;
       x \<leftarrow> slot (finsh_sp v - 1) v;
       Some (v\<lparr>vm_mem := (vm_mem v)(a := char_value x), finsh_sp := finsh_sp v - 1\<rparr>)
     }"

definition OP_st_word :: "vm \<Rightarrow> vm option" where
  "OP_st_word v =
     do {
       a \<leftarrow> slot (finsh_sp v - 2) v;
       x \<leftarrow> slot (finsh_sp v - 1) v;
       Some (v\<lparr>vm_mem := put16 a (short_value x) (vm_mem v), finsh_sp := finsh_sp v - 1\<rparr>)
     }"

definition OP_st_dword :: "vm \<Rightarrow> vm option" where
  "OP_st_dword v =
     do {
       a \<leftarrow> slot (finsh_sp v - 2) v;
       x \<leftarrow> slot (finsh_sp v - 1) v;
       Some (v\<lparr>vm_mem := put32 a x (vm_mem v), finsh_sp := finsh_sp v - 1\<rparr>)
     }"

definition OP_pop :: "vm \<Rightarrow> vm option" where
  "OP_pop v = Some (v\<lparr>finsh_sp := finsh_sp v - 1\<rparr>)"

text \<open>
  \<^verbatim>\<open>OP_call\<close>: the loop pops the parameters, the last one first, into an array of 16; \<open>f\<close> stands for the
  functions the shell calls, as a function of the address, the parameters and the memory.
\<close>

type_synonym callee = "u32 \<Rightarrow> u32 list \<Rightarrow> memory \<Rightarrow> (u32 \<times> memory) option"

fun pop_params :: "nat \<Rightarrow> int \<Rightarrow> vm \<Rightarrow> u32 list \<Rightarrow> u32 list option" where
  "pop_params 0 s v ps = Some ps"
| "pop_params (Suc n) s v ps = do { RT_ASSERT (n < 16); x \<leftarrow> slot s v; pop_params n (s - 1) v (x # ps) }"

definition OP_call :: "callee \<Rightarrow> vm \<Rightarrow> vm option" where
  "OP_call f v =
     do {
       n \<leftarrow> text_at (finsh_pc v) v;
       let v1 = v\<lparr>finsh_pc := finsh_pc v + 1\<rparr>;
       let s = finsh_sp v - 1;
       ps \<leftarrow> pop_params (unat n) s v1 [];
       let s1 = s - int (unat n);
       a \<leftarrow> slot s1 v1;
       (r, m) \<leftarrow> f a ps (vm_mem v1);
       v2 \<leftarrow> put_slot s1 r (v1\<lparr>vm_mem := m\<rparr>);
       Some (v2\<lparr>finsh_sp := s1 + 1\<rparr>)
     }"

subsection \<open>The machine\<close>

definition op_table :: "callee \<Rightarrow> (vm \<Rightarrow> vm option) list" where
  "op_table f =
     [Some,
      OP_BIN_BYTE (total_op (+)), OP_BIN_WORD (total_op (+)), OP_BIN_DWORD (total_op (+)),
      OP_BIN_BYTE (total_op (-)), OP_BIN_WORD (total_op (-)), OP_BIN_DWORD (total_op (-)),
      OP_BIN_BYTE c_div, OP_BIN_WORD c_div, OP_BIN_DWORD c_div,
      OP_BIN_BYTE c_mod, OP_BIN_WORD c_mod, OP_BIN_DWORD c_mod,
      OP_BIN_BYTE (total_op (*)), OP_BIN_WORD (total_op (*)), OP_BIN_DWORD (total_op (*)),
      OP_BIN_BYTE (total_op (AND)), OP_BIN_WORD (total_op (AND)), OP_BIN_DWORD (total_op (AND)),
      OP_BIN_BYTE (total_op (OR)), OP_BIN_WORD (total_op (OR)), OP_BIN_DWORD (total_op (OR)),
      OP_BIN_BYTE (total_op (XOR)), OP_BIN_WORD (total_op (XOR)), OP_BIN_DWORD (total_op (XOR)),
      OP_bw_byte, OP_bw_word, OP_bw_dword,
      OP_BIN_BYTE c_shl, OP_BIN_WORD c_shl, OP_BIN_DWORD c_shl,
      OP_BIN_BYTE c_shr, OP_BIN_WORD c_shr, OP_BIN_DWORD c_shr,
      OP_ld_byte, OP_ld_word, OP_ld_dword,
      OP_ld_value_byte, OP_ld_value_word, OP_ld_value_dword,
      OP_st_byte, OP_st_word, OP_st_dword,
      OP_pop, OP_call f,
      OP_ld_value_byte_stack, OP_ld_value_word_stack, OP_ld_value_dword_stack]"

partial_function (option) vm_loop :: "callee \<Rightarrow> vm \<Rightarrow> vm option" where
  "vm_loop f v =
     (if finsh_pc v < FINSH_TEXT_MAX
      then let op = unat (text_segment v (finsh_pc v))
           in if op < length (op_table f)
              then Option.bind ((op_table f ! op) (v\<lparr>finsh_pc := finsh_pc v + 1\<rparr>)) (vm_loop f)
              else None
      else Some v)"

definition finsh_vm_run :: "callee \<Rightarrow> vm \<Rightarrow> vm option" where
  "finsh_vm_run f v = vm_loop f (v\<lparr>finsh_sp := 0, finsh_pc := 0\<rparr>)"

definition finsh_stack_bottom :: "vm \<Rightarrow> u32" where
  "finsh_stack_bottom v = vm_stack v 0"

end
