(* ===== verification/Finsh_Compiler.thy ===== *)
theory Finsh_Compiler
  imports Finsh_Vm
begin

text \<open>
  The compiler of the C expression shell, \<^verbatim>\<open>rt-thread/components/finsh/finsh_compiler.c\<close>: nodes of the
  syntax tree in a table, linked by child and sibling; \<^verbatim>\<open>finsh_type_check\<close>, which marks addresses and
  widths; \<^verbatim>\<open>finsh_compile\<close>, which emits the code of a node behind that of its children.
\<close>

subsection \<open>Nodes\<close>

datatype finsh_type =
    finsh_type_unknown | finsh_type_void | finsh_type_voidp | finsh_type_char | finsh_type_uchar | finsh_type_charp
    | finsh_type_short | finsh_type_ushort | finsh_type_shortp | finsh_type_int | finsh_type_uint | finsh_type_intp
    | finsh_type_long | finsh_type_ulong | finsh_type_longp

datatype finsh_node_type =
    FINSH_NODE_UNKNOWN | FINSH_NODE_ID | FINSH_NODE_VALUE_CHAR | FINSH_NODE_VALUE_INT | FINSH_NODE_VALUE_LONG
    | FINSH_NODE_VALUE_STRING | FINSH_NODE_VALUE_NULL | FINSH_NODE_SYS_ADD | FINSH_NODE_SYS_SUB | FINSH_NODE_SYS_MUL
    | FINSH_NODE_SYS_DIV | FINSH_NODE_SYS_MOD | FINSH_NODE_SYS_AND | FINSH_NODE_SYS_OR | FINSH_NODE_SYS_XOR
    | FINSH_NODE_SYS_BITWISE | FINSH_NODE_SYS_SHL | FINSH_NODE_SYS_SHR | FINSH_NODE_SYS_FUNC | FINSH_NODE_SYS_ASSIGN
    | FINSH_NODE_SYS_CAST | FINSH_NODE_SYS_PREINC | FINSH_NODE_SYS_PREDEC | FINSH_NODE_SYS_INC | FINSH_NODE_SYS_DEC
    | FINSH_NODE_SYS_GETVALUE | FINSH_NODE_SYS_GETADDR | FINSH_NODE_SYS_NULL

abbreviation (input) FINSH_DATA_TYPE_VOID :: u8 where "FINSH_DATA_TYPE_VOID \<equiv> 0"
abbreviation (input) FINSH_DATA_TYPE_BYTE :: u8 where "FINSH_DATA_TYPE_BYTE \<equiv> 1"
abbreviation (input) FINSH_DATA_TYPE_WORD :: u8 where "FINSH_DATA_TYPE_WORD \<equiv> 2"
abbreviation (input) FINSH_DATA_TYPE_DWORD :: u8 where "FINSH_DATA_TYPE_DWORD \<equiv> 3"
abbreviation (input) FINSH_IDTYPE_VAR :: u8 where "FINSH_IDTYPE_VAR \<equiv> 1"
abbreviation (input) FINSH_IDTYPE_SYSVAR :: u8 where "FINSH_IDTYPE_SYSVAR \<equiv> 2"
abbreviation (input) FINSH_IDTYPE_SYSCALL :: u8 where "FINSH_IDTYPE_SYSCALL \<equiv> 4"
abbreviation (input) FINSH_IDTYPE_ADDRESS :: u8 where "FINSH_IDTYPE_ADDRESS \<equiv> 8"
abbreviation (input) FINSH_NODE_VALUE :: u8 where "FINSH_NODE_VALUE \<equiv> 0"
abbreviation (input) FINSH_ERROR_UNKNOWN_TYPE :: u8 where "FINSH_ERROR_UNKNOWN_TYPE \<equiv> 3"
abbreviation (input) FINSH_ERROR_UNKNOWN_NODE :: u8 where "FINSH_ERROR_UNKNOWN_NODE \<equiv> 8"

text \<open>The union of pointers in a node; a variable is its index in the table it lies in.\<close>

datatype ident = Null_id | Id_var nat | Id_sysvar nat | Id_syscall nat

record finsh_node =
  node_type :: finsh_node_type
  data_type :: u8
  idtype :: u8
  node_value :: u32
  node_id :: ident
  sibling :: "nat option"
  child :: "nat option"

type_synonym nodes = "nat \<Rightarrow> finsh_node"

text \<open>
  The symbols: types and addresses of the variables, system variables and functions.  \<open>var_base\<close> is
  the address of \<^verbatim>\<open>global_variable\<close>, of entries of 24 bytes with the value at 20; \<open>sysvar_at\<close> and
  \<open>syscall_at\<close> are the addresses of the table entries themselves.
\<close>

record symbols =
  var_type :: "nat \<Rightarrow> finsh_type"
  var_base :: u32
  sysvar_type :: "nat \<Rightarrow> finsh_type"
  sysvar_var :: "nat \<Rightarrow> u32"
  sysvar_at :: "nat \<Rightarrow> u32"
  syscall_func :: "nat \<Rightarrow> u32"
  syscall_at :: "nat \<Rightarrow> u32"

text \<open>\<^verbatim>\<open>&(var->value)\<close>, where the identifier is taken for a variable whatever it is.\<close>

fun id_value :: "symbols \<Rightarrow> ident \<Rightarrow> u32" where
  "id_value e Null_id = 20"
| "id_value e (Id_var i) = var_base e + 24 * of_nat i + 20"
| "id_value e (Id_sysvar i) = sysvar_at e i + 20"
| "id_value e (Id_syscall i) = syscall_at e i + 20"

subsection \<open>Emitting code\<close>

abbreviation (input) FINSH_OP_ADD_BYTE :: u8 where "FINSH_OP_ADD_BYTE \<equiv> 0x01"
abbreviation (input) FINSH_OP_ADD_WORD :: u8 where "FINSH_OP_ADD_WORD \<equiv> 0x02"
abbreviation (input) FINSH_OP_ADD_DWORD :: u8 where "FINSH_OP_ADD_DWORD \<equiv> 0x03"
abbreviation (input) FINSH_OP_SUB_BYTE :: u8 where "FINSH_OP_SUB_BYTE \<equiv> 0x04"
abbreviation (input) FINSH_OP_SUB_WORD :: u8 where "FINSH_OP_SUB_WORD \<equiv> 0x05"
abbreviation (input) FINSH_OP_SUB_DWORD :: u8 where "FINSH_OP_SUB_DWORD \<equiv> 0x06"
abbreviation (input) FINSH_OP_DIV_BYTE :: u8 where "FINSH_OP_DIV_BYTE \<equiv> 0x07"
abbreviation (input) FINSH_OP_DIV_WORD :: u8 where "FINSH_OP_DIV_WORD \<equiv> 0x08"
abbreviation (input) FINSH_OP_DIV_DWORD :: u8 where "FINSH_OP_DIV_DWORD \<equiv> 0x09"
abbreviation (input) FINSH_OP_MOD_BYTE :: u8 where "FINSH_OP_MOD_BYTE \<equiv> 0x0a"
abbreviation (input) FINSH_OP_MOD_WORD :: u8 where "FINSH_OP_MOD_WORD \<equiv> 0x0b"
abbreviation (input) FINSH_OP_MOD_DWORD :: u8 where "FINSH_OP_MOD_DWORD \<equiv> 0x0c"
abbreviation (input) FINSH_OP_MUL_BYTE :: u8 where "FINSH_OP_MUL_BYTE \<equiv> 0x0d"
abbreviation (input) FINSH_OP_MUL_WORD :: u8 where "FINSH_OP_MUL_WORD \<equiv> 0x0e"
abbreviation (input) FINSH_OP_MUL_DWORD :: u8 where "FINSH_OP_MUL_DWORD \<equiv> 0x0f"
abbreviation (input) FINSH_OP_AND_BYTE :: u8 where "FINSH_OP_AND_BYTE \<equiv> 0x10"
abbreviation (input) FINSH_OP_AND_WORD :: u8 where "FINSH_OP_AND_WORD \<equiv> 0x11"
abbreviation (input) FINSH_OP_AND_DWORD :: u8 where "FINSH_OP_AND_DWORD \<equiv> 0x12"
abbreviation (input) FINSH_OP_OR_BYTE :: u8 where "FINSH_OP_OR_BYTE \<equiv> 0x13"
abbreviation (input) FINSH_OP_OR_WORD :: u8 where "FINSH_OP_OR_WORD \<equiv> 0x14"
abbreviation (input) FINSH_OP_OR_DWORD :: u8 where "FINSH_OP_OR_DWORD \<equiv> 0x15"
abbreviation (input) FINSH_OP_XOR_BYTE :: u8 where "FINSH_OP_XOR_BYTE \<equiv> 0x16"
abbreviation (input) FINSH_OP_XOR_WORD :: u8 where "FINSH_OP_XOR_WORD \<equiv> 0x17"
abbreviation (input) FINSH_OP_XOR_DWORD :: u8 where "FINSH_OP_XOR_DWORD \<equiv> 0x18"
abbreviation (input) FINSH_OP_BITWISE_BYTE :: u8 where "FINSH_OP_BITWISE_BYTE \<equiv> 0x19"
abbreviation (input) FINSH_OP_BITWISE_WORD :: u8 where "FINSH_OP_BITWISE_WORD \<equiv> 0x1a"
abbreviation (input) FINSH_OP_BITWISE_DWORD :: u8 where "FINSH_OP_BITWISE_DWORD \<equiv> 0x1b"
abbreviation (input) FINSH_OP_SHL_BYTE :: u8 where "FINSH_OP_SHL_BYTE \<equiv> 0x1c"
abbreviation (input) FINSH_OP_SHL_WORD :: u8 where "FINSH_OP_SHL_WORD \<equiv> 0x1d"
abbreviation (input) FINSH_OP_SHL_DWORD :: u8 where "FINSH_OP_SHL_DWORD \<equiv> 0x1e"
abbreviation (input) FINSH_OP_SHR_BYTE :: u8 where "FINSH_OP_SHR_BYTE \<equiv> 0x1f"
abbreviation (input) FINSH_OP_SHR_WORD :: u8 where "FINSH_OP_SHR_WORD \<equiv> 0x20"
abbreviation (input) FINSH_OP_SHR_DWORD :: u8 where "FINSH_OP_SHR_DWORD \<equiv> 0x21"
abbreviation (input) FINSH_OP_LD_BYTE :: u8 where "FINSH_OP_LD_BYTE \<equiv> 0x22"
abbreviation (input) FINSH_OP_LD_WORD :: u8 where "FINSH_OP_LD_WORD \<equiv> 0x23"
abbreviation (input) FINSH_OP_LD_DWORD :: u8 where "FINSH_OP_LD_DWORD \<equiv> 0x24"
abbreviation (input) FINSH_OP_LD_VALUE_BYTE :: u8 where "FINSH_OP_LD_VALUE_BYTE \<equiv> 0x25"
abbreviation (input) FINSH_OP_LD_VALUE_WORD :: u8 where "FINSH_OP_LD_VALUE_WORD \<equiv> 0x26"
abbreviation (input) FINSH_OP_LD_VALUE_DWORD :: u8 where "FINSH_OP_LD_VALUE_DWORD \<equiv> 0x27"
abbreviation (input) FINSH_OP_ST_BYTE :: u8 where "FINSH_OP_ST_BYTE \<equiv> 0x28"
abbreviation (input) FINSH_OP_ST_WORD :: u8 where "FINSH_OP_ST_WORD \<equiv> 0x29"
abbreviation (input) FINSH_OP_ST_DWORD :: u8 where "FINSH_OP_ST_DWORD \<equiv> 0x2a"
abbreviation (input) FINSH_OP_POP :: u8 where "FINSH_OP_POP \<equiv> 0x2b"
abbreviation (input) FINSH_OP_SYSCALL :: u8 where "FINSH_OP_SYSCALL \<equiv> 0x2c"
abbreviation (input) FINSH_OP_LD_VALUE_BYTE_STACK :: u8 where "FINSH_OP_LD_VALUE_BYTE_STACK \<equiv> 0x2d"
abbreviation (input) FINSH_OP_LD_VALUE_WORD_STACK :: u8 where "FINSH_OP_LD_VALUE_WORD_STACK \<equiv> 0x2e"
abbreviation (input) FINSH_OP_LD_VALUE_DWORD_STACK :: u8 where "FINSH_OP_LD_VALUE_DWORD_STACK \<equiv> 0x2f"

record code_buf =
  code_text :: "nat \<Rightarrow> u8"
  compile_pc :: nat

definition finsh_code_byte :: "u8 \<Rightarrow> code_buf \<Rightarrow> code_buf option" where
  "finsh_code_byte x b =
     (if compile_pc b < FINSH_TEXT_MAX
      then Some (b\<lparr>code_text := (code_text b)(compile_pc b := x), compile_pc := compile_pc b + 1\<rparr>) else None)"

fun code_bytes :: "u8 list \<Rightarrow> code_buf \<Rightarrow> code_buf option" where
  "code_bytes [] b = Some b"
| "code_bytes (x # xs) b = Option.bind (finsh_code_byte x b) (code_bytes xs)"

text \<open>The type of a variable as the width of its load; a type the switch has no case for is \<open>None\<close>.\<close>

definition load_code :: "finsh_type \<Rightarrow> u8 option" where
  "load_code t =
     (if t \<in> {finsh_type_char, finsh_type_uchar} then Some FINSH_OP_LD_VALUE_BYTE
      else if t \<in> {finsh_type_short, finsh_type_ushort} then Some FINSH_OP_LD_VALUE_WORD
      else if t \<in> {finsh_type_int, finsh_type_uint, finsh_type_long, finsh_type_ulong, finsh_type_charp,
        finsh_type_shortp, finsh_type_intp, finsh_type_longp} then Some FINSH_OP_LD_VALUE_DWORD
      else None)"

definition load_id :: "u8 \<Rightarrow> finsh_type \<Rightarrow> u32 \<Rightarrow> u8 list" where
  "load_id idt t a =
     (case load_code t of None \<Rightarrow> []
      | Some op \<Rightarrow> (if idt AND FINSH_IDTYPE_ADDRESS \<noteq> 0 then FINSH_OP_LD_DWORD else op) # bytes32 a)"

definition id_code :: "symbols \<Rightarrow> finsh_node \<Rightarrow> u8 list option" where
  "id_code e n =
     (if idtype n AND FINSH_IDTYPE_SYSCALL \<noteq> 0
      then (case node_id n of Id_syscall i \<Rightarrow> Some (FINSH_OP_LD_DWORD # bytes32 (syscall_func e i)) | _ \<Rightarrow> None)
      else if idtype n AND FINSH_IDTYPE_SYSVAR \<noteq> 0
      then (case node_id n of Null_id \<Rightarrow> Some [] | Id_sysvar i \<Rightarrow> Some (load_id (idtype n) (sysvar_type e i) (sysvar_var e i)) | _ \<Rightarrow> None)
      else (case node_id n of Null_id \<Rightarrow> Some [] | Id_var i \<Rightarrow> Some (load_id (idtype n) (var_type e i) (id_value e (Id_var i))) | _ \<Rightarrow> None))"

definition code_sized :: "u8 \<Rightarrow> u8 \<Rightarrow> u8 \<Rightarrow> u8 \<Rightarrow> u8 list" where
  "code_sized dt b w l =
     (if dt = FINSH_DATA_TYPE_BYTE then [b] else if dt = FINSH_DATA_TYPE_WORD then [w]
      else if dt = FINSH_DATA_TYPE_DWORD then [l] else [])"

text \<open>\<^verbatim>\<open>while (sibling != NULL) ...\<close>: the number of parameters of a call.\<close>

partial_function (option) count_siblings :: "nodes \<Rightarrow> nat option \<Rightarrow> nat \<Rightarrow> nat option" where
  "count_siblings ns p n = (case p of None \<Rightarrow> Some n | Some i \<Rightarrow> count_siblings ns (sibling (ns i)) (n + 1))"

definition store_code :: "u8 \<Rightarrow> u8 + u8 list" where
  "store_code dt =
     (if dt = FINSH_DATA_TYPE_BYTE then Inr [FINSH_OP_ST_BYTE, FINSH_OP_LD_VALUE_BYTE_STACK]
      else if dt = FINSH_DATA_TYPE_WORD then Inr [FINSH_OP_ST_WORD, FINSH_OP_LD_VALUE_WORD_STACK]
      else if dt = FINSH_DATA_TYPE_DWORD then Inr [FINSH_OP_ST_DWORD, FINSH_OP_LD_VALUE_DWORD_STACK]
      else Inl FINSH_ERROR_UNKNOWN_TYPE)"

text \<open>\<open>++x\<close> and \<open>--x\<close>, by the operation of each width; then \<open>x++\<close> and \<open>x--\<close>.\<close>

definition preinc_code :: "u8 \<Rightarrow> u8 \<Rightarrow> u8 \<Rightarrow> u8 \<Rightarrow> u32 \<Rightarrow> u8 list" where
  "preinc_code dt b w l a =
     (if dt = FINSH_DATA_TYPE_BYTE
      then FINSH_OP_LD_VALUE_BYTE # bytes32 a @ [FINSH_OP_LD_BYTE, 1, b, FINSH_OP_ST_BYTE, FINSH_OP_LD_VALUE_DWORD_STACK]
      else if dt = FINSH_DATA_TYPE_WORD
      then FINSH_OP_LD_VALUE_WORD # bytes32 a @ FINSH_OP_LD_WORD # bytes16 1 @ [w, FINSH_OP_ST_WORD, FINSH_OP_LD_VALUE_DWORD_STACK]
      else if dt = FINSH_DATA_TYPE_DWORD
      then FINSH_OP_LD_VALUE_DWORD # bytes32 a @ FINSH_OP_LD_DWORD # bytes32 1 @ [l, FINSH_OP_ST_DWORD, FINSH_OP_LD_VALUE_DWORD_STACK]
      else [])"

definition inc_code :: "u8 \<Rightarrow> u8 \<Rightarrow> u8 \<Rightarrow> u8 \<Rightarrow> u32 \<Rightarrow> u8 list" where
  "inc_code dt b w l a =
     (if dt = FINSH_DATA_TYPE_BYTE
      then FINSH_OP_LD_DWORD # bytes32 a @ FINSH_OP_LD_VALUE_BYTE # bytes32 a @ [FINSH_OP_LD_BYTE, 1, b, FINSH_OP_ST_BYTE, FINSH_OP_POP]
      else if dt = FINSH_DATA_TYPE_WORD
      then FINSH_OP_LD_DWORD # bytes32 a @ FINSH_OP_LD_VALUE_WORD # bytes32 a @ FINSH_OP_LD_WORD # bytes16 1 @ [w, FINSH_OP_ST_WORD, FINSH_OP_POP]
      else if dt = FINSH_DATA_TYPE_DWORD
      then FINSH_OP_LD_DWORD # bytes32 a @ FINSH_OP_LD_VALUE_DWORD # bytes32 a @ FINSH_OP_LD_DWORD # bytes32 1 @ [l, FINSH_OP_ST_DWORD, FINSH_OP_POP]
      else [])"

text \<open>The child of an increment, when it is an identifier.\<close>

definition id_child :: "finsh_node option \<Rightarrow> ident option" where
  "id_child c = (case c of None \<Rightarrow> None | Some n \<Rightarrow> if node_type n = FINSH_NODE_ID then Some (node_id n) else None)"

text \<open>
  The switch over the node: what it emits, or the error it sets (\<open>Inl\<close>).  \<open>c\<close> is its child, if
  any, and \<open>parameters\<close> the number of siblings of the child.
\<close>

definition node_code :: "symbols \<Rightarrow> finsh_node \<Rightarrow> finsh_node option \<Rightarrow> nat \<Rightarrow> (u8 + u8 list) option" where
  "node_code e n c parameters =
     (case node_type n of
        FINSH_NODE_ID \<Rightarrow> map_option Inr (id_code e n)
      | FINSH_NODE_VALUE_CHAR \<Rightarrow> Some (Inr [FINSH_OP_LD_BYTE, char_value (node_value n)])
      | FINSH_NODE_VALUE_INT \<Rightarrow> Some (Inr (FINSH_OP_LD_DWORD # bytes32 (node_value n)))
      | FINSH_NODE_VALUE_LONG \<Rightarrow> Some (Inr (FINSH_OP_LD_DWORD # bytes32 (node_value n)))
      | FINSH_NODE_VALUE_NULL \<Rightarrow> Some (Inr (FINSH_OP_LD_DWORD # bytes32 (node_value n)))
      | FINSH_NODE_VALUE_STRING \<Rightarrow> Some (Inr (FINSH_OP_LD_DWORD # bytes32 (node_value n)))
      | FINSH_NODE_SYS_ADD \<Rightarrow> Some (Inr (code_sized (data_type n) FINSH_OP_ADD_BYTE FINSH_OP_ADD_WORD FINSH_OP_ADD_DWORD))
      | FINSH_NODE_SYS_SUB \<Rightarrow> Some (Inr (code_sized (data_type n) FINSH_OP_SUB_BYTE FINSH_OP_SUB_WORD FINSH_OP_SUB_DWORD))
      | FINSH_NODE_SYS_MUL \<Rightarrow> Some (Inr (code_sized (data_type n) FINSH_OP_MUL_BYTE FINSH_OP_MUL_WORD FINSH_OP_MUL_DWORD))
      | FINSH_NODE_SYS_DIV \<Rightarrow> Some (Inr (code_sized (data_type n) FINSH_OP_DIV_BYTE FINSH_OP_DIV_WORD FINSH_OP_DIV_DWORD))
      | FINSH_NODE_SYS_MOD \<Rightarrow> Some (Inr (code_sized (data_type n) FINSH_OP_MOD_BYTE FINSH_OP_MOD_WORD FINSH_OP_MOD_DWORD))
      | FINSH_NODE_SYS_AND \<Rightarrow> Some (Inr (code_sized (data_type n) FINSH_OP_AND_BYTE FINSH_OP_AND_WORD FINSH_OP_AND_DWORD))
      | FINSH_NODE_SYS_OR \<Rightarrow> Some (Inr (code_sized (data_type n) FINSH_OP_OR_BYTE FINSH_OP_OR_WORD FINSH_OP_OR_DWORD))
      | FINSH_NODE_SYS_XOR \<Rightarrow> Some (Inr (code_sized (data_type n) FINSH_OP_XOR_BYTE FINSH_OP_XOR_WORD FINSH_OP_XOR_DWORD))
      | FINSH_NODE_SYS_BITWISE \<Rightarrow> Some (Inr (code_sized (data_type n) FINSH_OP_BITWISE_BYTE FINSH_OP_BITWISE_WORD FINSH_OP_BITWISE_DWORD))
      | FINSH_NODE_SYS_SHL \<Rightarrow> Some (Inr (code_sized (data_type n) FINSH_OP_SHL_BYTE FINSH_OP_SHL_WORD FINSH_OP_SHL_DWORD))
      | FINSH_NODE_SYS_SHR \<Rightarrow> Some (Inr (code_sized (data_type n) FINSH_OP_SHR_BYTE FINSH_OP_SHR_WORD FINSH_OP_SHR_DWORD))
      | FINSH_NODE_SYS_FUNC \<Rightarrow>
          Some (Inr (if c = None then [] else [FINSH_OP_SYSCALL, of_nat parameters]))
      | FINSH_NODE_SYS_ASSIGN \<Rightarrow>
          (case c of None \<Rightarrow> None
           | Some ch \<Rightarrow>
               if node_type ch = FINSH_NODE_ID then Some (store_code (data_type ch))
               else if node_type ch = FINSH_NODE_SYS_GETVALUE then Some (store_code (data_type ch AND 0x0f))
               else Some (Inr []))
      | FINSH_NODE_SYS_PREINC \<Rightarrow> Some (Inr (case id_child c of None \<Rightarrow> []
           | Some i \<Rightarrow> preinc_code (data_type n) FINSH_OP_ADD_BYTE FINSH_OP_ADD_WORD FINSH_OP_ADD_DWORD (id_value e i)))
      | FINSH_NODE_SYS_PREDEC \<Rightarrow> Some (Inr (case id_child c of None \<Rightarrow> []
           | Some i \<Rightarrow> preinc_code (data_type n) FINSH_OP_SUB_BYTE FINSH_OP_SUB_WORD FINSH_OP_SUB_DWORD (id_value e i)))
      | FINSH_NODE_SYS_INC \<Rightarrow> Some (Inr (case id_child c of None \<Rightarrow> []
           | Some i \<Rightarrow> inc_code (data_type n) FINSH_OP_ADD_BYTE FINSH_OP_ADD_WORD FINSH_OP_ADD_DWORD (id_value e i)))
      | FINSH_NODE_SYS_DEC \<Rightarrow> Some (Inr (case id_child c of None \<Rightarrow> []
           | Some i \<Rightarrow> inc_code (data_type n) FINSH_OP_SUB_BYTE FINSH_OP_SUB_WORD FINSH_OP_SUB_DWORD (id_value e i)))
      | FINSH_NODE_SYS_NULL \<Rightarrow> Some (Inr (bytes32 0))
      | FINSH_NODE_SYS_GETVALUE \<Rightarrow>
          Some (Inr (if idtype n AND FINSH_IDTYPE_ADDRESS \<noteq> 0 then []
                     else code_sized (data_type n) FINSH_OP_LD_VALUE_BYTE_STACK FINSH_OP_LD_VALUE_WORD_STACK FINSH_OP_LD_VALUE_DWORD_STACK))
      | FINSH_NODE_SYS_GETADDR \<Rightarrow> Some (Inr [])
      | _ \<Rightarrow> Some (Inl FINSH_ERROR_UNKNOWN_NODE))"

definition call_params :: "nodes \<Rightarrow> finsh_node \<Rightarrow> nat option" where
  "call_params ns n =
     (case child n of Some c \<Rightarrow> if node_type n = FINSH_NODE_SYS_FUNC then count_siblings ns (sibling (ns c)) 0 else Some 0
      | None \<Rightarrow> Some 0)"

partial_function (option) finsh_compile :: "symbols \<Rightarrow> nodes \<Rightarrow> nat option \<Rightarrow> code_buf \<times> u8 \<Rightarrow> (code_buf \<times> u8) option" where
  "finsh_compile e ns p s =
     (case p of None \<Rightarrow> Some s
      | Some i \<Rightarrow>
          Option.bind (finsh_compile e ns (child (ns i)) s) (\<lambda>(b, err).
          Option.bind (call_params ns (ns i)) (\<lambda>k.
          Option.bind (node_code e (ns i) (map_option ns (child (ns i))) k) (\<lambda>c.
          Option.bind (case c of Inl er \<Rightarrow> Some (b, er) | Inr xs \<Rightarrow> map_option (\<lambda>b'. (b', err)) (code_bytes xs b)) (\<lambda>s1.
          finsh_compile e ns (sibling (ns i)) s1)))))"

subsection \<open>Type check\<close>

text \<open>The width of a variable; \<open>None\<close> is an unknown type.\<close>

definition type_width :: "finsh_type \<Rightarrow> u8 option" where
  "type_width t =
     (if t = finsh_type_unknown then None
      else if t = finsh_type_void then Some FINSH_DATA_TYPE_VOID
      else if t \<in> {finsh_type_char, finsh_type_uchar} then Some FINSH_DATA_TYPE_BYTE
      else if t \<in> {finsh_type_short, finsh_type_ushort} then Some FINSH_DATA_TYPE_WORD
      else Some FINSH_DATA_TYPE_DWORD)"

definition set_width :: "finsh_type \<Rightarrow> finsh_node \<times> u8 \<Rightarrow> finsh_node \<times> u8" where
  "set_width t = (\<lambda>(n, err). case type_width t of None \<Rightarrow> (n, FINSH_ERROR_UNKNOWN_TYPE) | Some w \<Rightarrow> (n\<lparr>data_type := w\<rparr>, err))"

text \<open>What the routine sets in a leaf.\<close>

definition check_leaf :: "symbols \<Rightarrow> finsh_node \<times> u8 \<Rightarrow> (finsh_node \<times> u8) option" where
  "check_leaf e = (\<lambda>(n, err).
     case node_type n of
       FINSH_NODE_ID \<Rightarrow>
         if idtype n AND FINSH_IDTYPE_VAR \<noteq> 0
         then (case node_id n of Null_id \<Rightarrow> Some (n, err) | Id_var i \<Rightarrow> Some (set_width (var_type e i) (n, err)) | _ \<Rightarrow> None)
         else if idtype n AND FINSH_IDTYPE_SYSVAR \<noteq> 0
         then (case node_id n of Null_id \<Rightarrow> Some (n, err) | Id_sysvar i \<Rightarrow> Some (set_width (sysvar_type e i) (n, err)) | _ \<Rightarrow> None)
         else Some (n, err)
     | FINSH_NODE_VALUE_CHAR \<Rightarrow> Some (n\<lparr>data_type := FINSH_DATA_TYPE_BYTE\<rparr>, err)
     | FINSH_NODE_VALUE_INT \<Rightarrow> Some (n\<lparr>data_type := FINSH_DATA_TYPE_DWORD\<rparr>, err)
     | FINSH_NODE_VALUE_LONG \<Rightarrow> Some (n\<lparr>data_type := FINSH_DATA_TYPE_DWORD\<rparr>, err)
     | FINSH_NODE_VALUE_STRING \<Rightarrow> Some (n\<lparr>data_type := FINSH_DATA_TYPE_DWORD\<rparr>, err)
     | FINSH_NODE_VALUE_NULL \<Rightarrow> Some (n\<lparr>data_type := FINSH_DATA_TYPE_DWORD\<rparr>, err)
     | _ \<Rightarrow> Some (n, err))"

text \<open>Whether the child of a node is an address.\<close>

definition child_addr :: "finsh_node_type \<Rightarrow> u8 \<Rightarrow> u8" where
  "child_addr t is_addr =
     (if t \<in> {FINSH_NODE_SYS_ASSIGN, FINSH_NODE_SYS_PREINC, FINSH_NODE_SYS_PREDEC, FINSH_NODE_SYS_GETADDR} then FINSH_IDTYPE_ADDRESS
      else if t = FINSH_NODE_SYS_GETVALUE \<and> is_addr \<noteq> 0 then 0 else is_addr)"

text \<open>The attributes of the node itself, after its children and siblings.\<close>

definition check_node :: "symbols \<Rightarrow> u8 \<Rightarrow> finsh_node \<Rightarrow> finsh_node option \<Rightarrow> u8 \<Rightarrow> (finsh_node \<times> u8) option" where
  "check_node e is_addr n c err =
     (let n1 = (if idtype n \<noteq> FINSH_IDTYPE_SYSCALL then n\<lparr>idtype := idtype n OR is_addr\<rparr> else n)
      in case c of Some ch \<Rightarrow> Some (n1\<lparr>data_type := data_type ch\<rparr>, err) | None \<Rightarrow> check_leaf e (n1, err))"

partial_function (option) finsh_type_check :: "symbols \<Rightarrow> nat option \<Rightarrow> u8 \<Rightarrow> nodes \<times> u8 \<Rightarrow> (nodes \<times> u8) option" where
  "finsh_type_check e p is_addr s =
     (case p of None \<Rightarrow> Some s
      | Some i \<Rightarrow>
          Option.bind (finsh_type_check e (child (fst s i)) (child_addr (node_type (fst s i)) is_addr) s) (\<lambda>s1.
          Option.bind (finsh_type_check e (sibling (fst s1 i)) FINSH_NODE_VALUE s1) (\<lambda>(ns, err).
          Option.bind (check_node e is_addr (ns i) (map_option ns (child (ns i))) err) (\<lambda>(n, err1). Some (ns(i := n), err1)))))"

subsection \<open>finsh_compiler_run\<close>

partial_function (option) compile_stmts :: "symbols \<Rightarrow> nat option \<Rightarrow> nodes \<Rightarrow> code_buf \<times> u8 \<Rightarrow> (nodes \<times> code_buf \<times> u8) option" where
  "compile_stmts e p ns s =
     (case p of None \<Rightarrow> Some (ns, s)
      | Some i \<Rightarrow>
          let sib = sibling (ns i); ns1 = ns(i := (ns i)\<lparr>sibling := None\<rparr>)
          in Option.bind (finsh_compile e ns1 (Some i) s) (\<lambda>(b, err).
             Option.bind (if sib \<noteq> None then finsh_code_byte FINSH_OP_POP b else Some b) (\<lambda>b1.
             compile_stmts e sib ns1 (b1, err))))"

text \<open>The second \<^verbatim>\<open>memset\<close> clears \<^verbatim>\<open>sizeof(finsh_vm_stack[0])\<close> bytes: the first slot only.\<close>

definition finsh_compiler_run :: "symbols \<Rightarrow> nat option \<Rightarrow> nodes \<Rightarrow> u8 \<Rightarrow> vm \<Rightarrow> (nodes \<times> u8 \<times> vm) option" where
  "finsh_compiler_run e node ns err v =
     do {
       (ns1, err1) \<leftarrow> finsh_type_check e node FINSH_NODE_VALUE (ns, err);
       (ns2, b, err2) \<leftarrow> compile_stmts e node ns1 (\<lparr>code_text = (\<lambda>_. 0), compile_pc = 0\<rparr>, err1);
       Some (ns2, err2, v\<lparr>text_segment := code_text b, vm_stack := (vm_stack v)(0 := 0)\<rparr>)
     }"

end
