(* ===== verification/Finsh_Token.thy ===== *)
theory Finsh_Token
  imports Rt_Prelude
begin

text \<open>
  The lexer of the C expression shell, \<^verbatim>\<open>rt-thread/components/finsh/finsh_token.c\<close>.  A line is the list
  of its bytes, without the final zero; \<^verbatim>\<open>char\<close> is unsigned.  A write behind the array of the token's
  string or behind a local buffer is \<open>None\<close>.  The routines that report errors carry the error number.
\<close>

subsection \<open>Tokens\<close>

abbreviation (input) asc :: "char \<Rightarrow> u8" where "asc \<equiv> of_char"
abbreviation (input) FINSH_STRING_MAX :: nat where "FINSH_STRING_MAX \<equiv> 128"

abbreviation (input) FINSH_ERROR_EXPECT_CHAR :: u8 where "FINSH_ERROR_EXPECT_CHAR \<equiv> 9"
abbreviation (input) FINSH_ERROR_UNEXPECT_END :: u8 where "FINSH_ERROR_UNEXPECT_END \<equiv> 10"
abbreviation (input) FINSH_ERROR_UNKNOWN_TOKEN :: u8 where "FINSH_ERROR_UNKNOWN_TOKEN \<equiv> 11"

text \<open>The first constructor is the zero that \<^verbatim>\<open>finsh_token_init\<close> writes.\<close>

datatype finsh_token_type =
    finsh_token_type_zero | finsh_token_type_left_paren | finsh_token_type_right_paren | finsh_token_type_comma
  | finsh_token_type_semicolon | finsh_token_type_mul | finsh_token_type_add | finsh_token_type_inc
  | finsh_token_type_sub | finsh_token_type_dec | finsh_token_type_div | finsh_token_type_mod
  | finsh_token_type_assign | finsh_token_type_and | finsh_token_type_or | finsh_token_type_xor
  | finsh_token_type_bitwise | finsh_token_type_shl | finsh_token_type_shr | finsh_token_type_comments
  | finsh_token_type_void | finsh_token_type_char | finsh_token_type_short | finsh_token_type_int
  | finsh_token_type_long | finsh_token_type_unsigned | finsh_token_type_value_char
  | finsh_token_type_value_int | finsh_token_type_value_long | finsh_token_type_value_string
  | finsh_token_type_value_null | finsh_token_type_identifier | finsh_token_type_bad | finsh_token_type_eof

record finsh_token =
  eof :: bool
  replay :: bool
  position :: nat
  current_token :: finsh_token_type
  token_value :: u32
  token_string :: "u8 list"
  token_line :: "u8 list"

definition finsh_name_table :: "(u8 list \<times> finsh_token_type) list" where
  "finsh_name_table =
     [(map of_char ''void'', finsh_token_type_void), (map of_char ''char'', finsh_token_type_char),
      (map of_char ''short'', finsh_token_type_short), (map of_char ''int'', finsh_token_type_int),
      (map of_char ''long'', finsh_token_type_long), (map of_char ''unsigned'', finsh_token_type_unsigned),
      (map of_char ''NULL'', finsh_token_type_value_null), (map of_char ''null'', finsh_token_type_value_null)]"

definition is_alpha :: "u8 \<Rightarrow> bool" where
  "is_alpha c \<longleftrightarrow> (of_int (uint (c OR 0x20) - 0x61) :: u32) < 26"

definition is_digit :: "u8 \<Rightarrow> bool" where
  "is_digit c \<longleftrightarrow> asc CHR ''0'' \<le> c \<and> c \<le> asc CHR ''9''"

definition is_xdigit :: "u8 \<Rightarrow> bool" where
  "is_xdigit c \<longleftrightarrow> (asc CHR ''0'' \<le> c \<and> c \<le> asc CHR ''9'') \<or> (of_int (uint (c OR 0x20) - 0x61) :: u32) < 6"

definition is_odigit :: "u8 \<Rightarrow> bool" where
  "is_odigit c \<longleftrightarrow> (of_int (uint c - 0x30) :: u32) < 8"

definition is_separator :: "u8 \<Rightarrow> bool" where
  "is_separator c \<longleftrightarrow> \<not> ((asc CHR ''a'' \<le> c \<and> c \<le> asc CHR ''z'') \<or> (asc CHR ''A'' \<le> c \<and> c \<le> asc CHR ''Z'')
     \<or> (asc CHR ''0'' \<le> c \<and> c \<le> asc CHR ''9'') \<or> c = asc CHR ''_'')"

definition finsh_token_init :: "u8 list \<Rightarrow> finsh_token" where
  "finsh_token_init str = \<lparr>eof = False, replay = False, position = 0, current_token = finsh_token_type_zero,
     token_value = 0, token_string = replicate FINSH_STRING_MAX 0, token_line = str\<rparr>"

subsection \<open>Characters\<close>

definition token_next_char :: "finsh_token \<Rightarrow> (u8 \<times> finsh_token) option" where
  "token_next_char t =
     (if eof t then Some (0, t)
      else if position t > length (token_line t) then None
      else if position t = length (token_line t) \<or> token_line t ! position t = asc CHR 0x0A
      then Some (0, t\<lparr>eof := True, position := 0\<rparr>)
      else Some (token_line t ! position t, t\<lparr>position := position t + 1\<rparr>))"

definition token_prev_char :: "finsh_token \<Rightarrow> finsh_token" where
  "token_prev_char t = (if eof t then t else if position t = 0 then t else t\<lparr>position := position t - 1\<rparr>)"

definition put_string :: "nat \<Rightarrow> u8 \<Rightarrow> finsh_token \<Rightarrow> finsh_token option" where
  "put_string p c t = (if p < FINSH_STRING_MAX then Some (t\<lparr>token_string := (token_string t)[p := c]\<rparr>) else None)"

text \<open>A string up to its zero; without one the read leaves the array.\<close>

definition c_string :: "u8 list \<Rightarrow> u8 list option" where
  "c_string xs = (if 0 \<in> set xs then Some (takeWhile (\<lambda>c. c \<noteq> 0) xs) else None)"

partial_function (option) get_string_loop :: "u8 \<Rightarrow> nat \<Rightarrow> finsh_token \<Rightarrow> (nat \<times> finsh_token) option" where
  "get_string_loop c p t =
     (if \<not> is_separator c \<and> \<not> eof t
      then Option.bind (put_string p c t) (\<lambda>t1. Option.bind (token_next_char t1) (\<lambda>(c1, t2). get_string_loop c1 (p + 1) t2))
      else Some (p, t))"

text \<open>The end of the line at the end of a word is taken back, although the position is 0 by then.\<close>

definition token_get_string :: "finsh_token \<Rightarrow> (int \<times> finsh_token) option" where
  "token_get_string t =
     do {
       (c, t1) \<leftarrow> token_next_char t;
       if eof t1 then Some (-1, t1)
       else do {
         t2 \<leftarrow> put_string 0 0 t1;
         if is_digit c then Some (-1, token_prev_char t2)
         else do {
           (p, t3) \<leftarrow> get_string_loop c 0 t2;
           t4 \<leftarrow> put_string p 0 (token_prev_char (t3\<lparr>eof := False\<rparr>));
           Some (0, t4)
         }
       }
     }"

partial_function (option) token_trim_loop :: "finsh_token \<Rightarrow> finsh_token option" where
  "token_trim_loop t =
     Option.bind (token_next_char t) (\<lambda>(c, t1).
       if c = asc CHR '' '' \<or> c = asc CHR 0x09 \<or> c = asc CHR 0x0D then token_trim_loop t1 else Some t1)"

definition token_trim_space :: "finsh_token \<Rightarrow> finsh_token option" where
  "token_trim_space t = map_option token_prev_char (token_trim_loop t)"

definition token_match_name :: "finsh_token \<Rightarrow> u8 list \<Rightarrow> int \<times> finsh_token" where
  "token_match_name t str =
     (case map_of finsh_name_table str of Some ty \<Rightarrow> (1, t\<lparr>current_token := ty\<rparr>) | None \<Rightarrow> (0, t))"

subsection \<open>Literals\<close>

text \<open>
  An octal escape: the digits behind the first one go into \<^verbatim>\<open>buf[4]\<close>, and \<^verbatim>\<open>atoi\<close> is called at their end,
  on the empty string.
\<close>

partial_function (option) char_digits :: "u8 \<Rightarrow> nat \<Rightarrow> finsh_token \<Rightarrow> (nat \<times> finsh_token) option" where
  "char_digits c p t =
     (if is_digit c
      then Option.bind (token_next_char t) (\<lambda>(c1, t1). if p < 4 then char_digits c1 (p + 1) t1 else None)
      else Some (p, t))"

definition char_escape :: "finsh_token \<Rightarrow> (u8 \<times> finsh_token) option" where
  "char_escape t =
     do {
       (c, t1) \<leftarrow> token_next_char t;
       if c = asc CHR ''n'' then Some (0x0A, t1)
       else if c = asc CHR ''t'' then Some (0x09, t1)
       else if c = asc CHR ''v'' then Some (0x0B, t1)
       else if c = asc CHR ''b'' then Some (0x08, t1)
       else if c = asc CHR ''r'' then Some (0x0D, t1)
       else if c = asc CHR 0x5C then Some (0x5C, t1)
       else if c = asc CHR 0x27 then Some (0x27, t1)
       else do {
         (p, t2) \<leftarrow> char_digits c 0 t1;
         RT_ASSERT (p < 4);
         Some (0, token_prev_char t2)
       }
     }"

definition token_proc_char :: "finsh_token \<Rightarrow> u8 \<Rightarrow> (u8 \<times> finsh_token \<times> u8) option" where
  "token_proc_char t err =
     do {
       (c, t1) \<leftarrow> token_next_char t;
       (c1, t2) \<leftarrow> (if c = asc CHR 0x5C then char_escape t1 else Some (c, t1));
       (q, t3) \<leftarrow> token_next_char t2;
       if q \<noteq> asc CHR 0x27 then Some (c1, token_prev_char t3, FINSH_ERROR_EXPECT_CHAR)
       else Some (c1, t3, err)
     }"

partial_function (option) hex_escape :: "u8 \<Rightarrow> u32 \<Rightarrow> finsh_token \<Rightarrow> (u32 \<times> finsh_token) option" where
  "hex_escape c r t =
     (if is_xdigit c
      then Option.bind (token_next_char t) (\<lambda>(c1, t1).
        hex_escape c1 (r * 16 + (if c < asc CHR ''A'' then ucast c - 0x30 else ucast (c OR 0x20) - 0x61 + 10)) t1)
      else Some (r, t))"

partial_function (option) oct_escape :: "u8 \<Rightarrow> u32 \<Rightarrow> finsh_token \<Rightarrow> (u32 \<times> finsh_token) option" where
  "oct_escape c r t =
     (if is_odigit c
      then Option.bind (token_next_char t) (\<lambda>(c1, t1). oct_escape c1 (r * 8 + ucast c - 0x30) t1)
      else Some (r, t))"

definition token_proc_escape :: "finsh_token \<Rightarrow> (u32 \<times> finsh_token) option" where
  "token_proc_escape t =
     do {
       (c, t1) \<leftarrow> token_next_char t;
       if c = asc CHR ''n'' then Some (0x0A, t1)
       else if c = asc CHR ''t'' then Some (0x09, t1)
       else if c = asc CHR ''v'' then Some (0x0B, t1)
       else if c = asc CHR ''b'' then Some (0x08, t1)
       else if c = asc CHR ''r'' then Some (0x0D, t1)
       else if c = asc CHR ''f'' then Some (0x0C, t1)
       else if c = asc CHR ''a'' then Some (0x07, t1)
       else if c = asc CHR 0x22 then Some (0x22, t1)
       else if c = asc CHR ''x'' \<or> c = asc CHR ''X''
       then do {
         (c1, t2) \<leftarrow> token_next_char t1;
         (r, t3) \<leftarrow> hex_escape c1 0 t2;
         Some (r, token_prev_char t3)
       }
       else if is_odigit c
       then do { (r, t2) \<leftarrow> oct_escape c 0 t1; Some (r, token_prev_char t2) }
       else Some (0, t1)
     }"

partial_function (option) proc_string_loop :: "nat \<Rightarrow> finsh_token \<Rightarrow> u8 \<Rightarrow> (finsh_token \<times> u8) option" where
  "proc_string_loop p t err =
     (if p < FINSH_STRING_MAX
      then Option.bind (token_next_char t) (\<lambda>(c, t1).
        if eof t1 then Some (t1, FINSH_ERROR_UNEXPECT_END)
        else if c = asc CHR 0x5C
        then Option.bind (token_proc_escape t1) (\<lambda>(r, t2).
          Option.bind (put_string p (ucast r) t2) (\<lambda>t3. proc_string_loop (p + 1) t3 err))
        else if c = asc CHR 0x22 then map_option (\<lambda>t2. (t2, err)) (put_string p 0 t1)
        else Option.bind (put_string p c t1) (\<lambda>t2. proc_string_loop (p + 1) t2 err))
      else Some (t, err))"

definition token_proc_string :: "finsh_token \<Rightarrow> u8 \<Rightarrow> (finsh_token \<times> u8) option" where
  "token_proc_string t err = proc_string_loop 0 t err"

text \<open>Numbers: the digits of a base go into a buffer of 128 bytes and are read from there.\<close>

definition spec_shift :: "int \<Rightarrow> nat" where
  "spec_shift b = (if b = 16 then 4 else if b = 8 then 3 else 1)"

definition spec_digit :: "u8 \<Rightarrow> u32" where
  "spec_digit c =
     (if asc CHR ''a'' \<le> c \<and> c \<le> asc CHR ''f'' then ucast c - 0x61 + 10
      else if asc CHR ''A'' \<le> c \<and> c \<le> asc CHR ''F'' then ucast c - 0x41 + 10
      else ucast c - 0x30)"

text \<open>One round of the loop over \<^verbatim>\<open>bn\<close>, a number of two words.\<close>

definition spec_step :: "nat \<Rightarrow> u8 \<Rightarrow> u32 \<times> u32 \<Rightarrow> u32 \<times> u32" where
  "spec_step shift c = (\<lambda>(bn0, bn1).
     (push_bit shift bn0 OR spec_digit c, push_bit shift bn1 OR drop_bit (32 - shift) bn0))"

definition token_spec_number :: "u8 list \<Rightarrow> int \<Rightarrow> u32" where
  "token_spec_number str b = fst (fold (spec_step (spec_shift b)) str (0, 0))"

partial_function (option) number_digits :: "(u8 \<Rightarrow> bool) \<Rightarrow> u8 \<Rightarrow> u8 list \<Rightarrow> finsh_token \<Rightarrow> (u8 \<times> u8 list \<times> finsh_token) option" where
  "number_digits P c buf t =
     (if P c
      then if length buf < 128
           then Option.bind (token_next_char t) (\<lambda>(c1, t1). number_digits P c1 (buf @ [c]) t1)
           else None
      else if length buf < 128 then Some (c, buf, t) else None)"

partial_function (option) decimal_digits :: "u8 \<Rightarrow> u32 \<Rightarrow> finsh_token \<Rightarrow> (u8 \<times> u32 \<times> finsh_token) option" where
  "decimal_digits c v t =
     (if is_digit c
      then Option.bind (token_next_char t) (\<lambda>(c1, t1). decimal_digits c1 (v * 10 + (ucast c - 0x30)) t1)
      else Some (c, v, t))"

definition number_suffix :: "u8 \<Rightarrow> finsh_token \<Rightarrow> finsh_token" where
  "number_suffix c t =
     (if c = asc CHR ''l'' \<or> c = asc CHR ''L'' then t\<lparr>current_token := finsh_token_type_value_long\<rparr> else token_prev_char t)"

definition token_proc_number :: "finsh_token \<Rightarrow> finsh_token option" where
  "token_proc_number t =
     do {
       (c, t1) \<leftarrow> token_next_char t;
       if c = asc CHR ''0''
       then do {
         (c1, t2) \<leftarrow> token_next_char t1;
         if c1 = asc CHR ''x'' \<or> c1 = asc CHR ''X''
         then do {
           (c2, t3) \<leftarrow> token_next_char t2;
           (c3, buf, t4) \<leftarrow> number_digits (\<lambda>x. is_digit x \<or> is_alpha x) c2 [] t3;
           Some (number_suffix c3 (t4\<lparr>token_value := token_spec_number buf 16, current_token := finsh_token_type_value_int\<rparr>))
         }
         else if c1 = asc CHR ''b'' \<or> c1 = asc CHR ''B''
         then do {
           (c2, t3) \<leftarrow> token_next_char t2;
           (c3, buf, t4) \<leftarrow> number_digits (\<lambda>x. x = asc CHR ''0'' \<or> x = asc CHR ''1'') c2 [] t3;
           Some (number_suffix c3 (t4\<lparr>token_value := token_spec_number buf 2, current_token := finsh_token_type_value_int\<rparr>))
         }
         else if asc CHR ''0'' \<le> c1 \<and> c1 \<le> asc CHR ''7''
         then do {
           (c3, buf, t3) \<leftarrow> number_digits (\<lambda>x. asc CHR ''0'' \<le> x \<and> x \<le> asc CHR ''7'') c1 [] t2;
           Some (number_suffix c3 (t3\<lparr>token_value := token_spec_number buf 8, current_token := finsh_token_type_value_int\<rparr>))
         }
         else Some ((token_prev_char t2)\<lparr>token_value := 0, current_token := finsh_token_type_value_int\<rparr>)
       }
       else do {
         (c1, v, t2) \<leftarrow> decimal_digits c 0 t1;
         Some (number_suffix c1 (t2\<lparr>token_value := v, current_token := finsh_token_type_value_int\<rparr>))
       }
     }"

subsection \<open>token_run\<close>

text \<open>An operator of one character, or of two when the same one follows.\<close>

definition token_double :: "u8 \<Rightarrow> finsh_token_type \<Rightarrow> finsh_token_type \<Rightarrow> finsh_token \<Rightarrow> finsh_token option" where
  "token_double c two one t =
     do {
       (c1, t1) \<leftarrow> token_next_char t;
       Some (if c1 = c then t1\<lparr>current_token := two\<rparr> else (token_prev_char t1)\<lparr>current_token := one\<rparr>)
     }"

definition token_single :: "(u8 \<times> finsh_token_type) list" where
  "token_single =
     [(asc CHR ''('', finsh_token_type_left_paren), (asc CHR '')'', finsh_token_type_right_paren),
      (asc CHR '','', finsh_token_type_comma), (asc CHR '';'', finsh_token_type_semicolon),
      (asc CHR ''&'', finsh_token_type_and), (asc CHR ''*'', finsh_token_type_mul),
      (asc CHR ''|'', finsh_token_type_or), (asc CHR ''%'', finsh_token_type_mod),
      (asc CHR ''~'', finsh_token_type_bitwise), (asc CHR ''^'', finsh_token_type_xor),
      (asc CHR ''='', finsh_token_type_assign)]"

definition token_operator :: "finsh_token \<Rightarrow> u8 \<Rightarrow> (finsh_token \<times> u8) option" where
  "token_operator t err =
     do {
       (c, t1) \<leftarrow> token_next_char t;
       (case map_of token_single c of
          Some ty \<Rightarrow> Some (t1\<lparr>current_token := ty\<rparr>, err)
        | None \<Rightarrow>
            if c = asc CHR ''+'' then map_option (\<lambda>t2. (t2, err)) (token_double c finsh_token_type_inc finsh_token_type_add t1)
            else if c = asc CHR ''-'' then map_option (\<lambda>t2. (t2, err)) (token_double c finsh_token_type_dec finsh_token_type_sub t1)
            else if c = asc CHR ''/'' then map_option (\<lambda>t2. (t2, err)) (token_double c finsh_token_type_eof finsh_token_type_div t1)
            else if c = asc CHR ''<'' then map_option (\<lambda>t2. (t2, err)) (token_double c finsh_token_type_shl finsh_token_type_bad t1)
            else if c = asc CHR ''>'' then map_option (\<lambda>t2. (t2, err)) (token_double c finsh_token_type_shr finsh_token_type_bad t1)
            else if c = asc CHR 0x27
            then do {
              (v, t2, err1) \<leftarrow> token_proc_char t1 err;
              Some (t2\<lparr>token_value := (token_value t2 AND 0xffffff00) OR ucast v, current_token := finsh_token_type_value_char\<rparr>, err1)
            }
            else if c = asc CHR 0x22
            then map_option (\<lambda>(t2, err1). (t2\<lparr>current_token := finsh_token_type_value_string\<rparr>, err1)) (token_proc_string t1 err)
            else if is_digit c then map_option (\<lambda>t2. (t2, err)) (token_proc_number (token_prev_char t1))
            else Some (t1\<lparr>current_token := finsh_token_type_bad\<rparr>, FINSH_ERROR_UNKNOWN_TOKEN))
     }"

definition token_run :: "finsh_token \<Rightarrow> u8 \<Rightarrow> (finsh_token \<times> u8) option" where
  "token_run t err =
     do {
       t1 \<leftarrow> token_trim_space t;
       (_, t2) \<leftarrow> token_get_string t1;
       if eof t2 then Some (t2\<lparr>current_token := finsh_token_type_eof\<rparr>, err)
       else if token_string t2 ! 0 \<noteq> 0
       then do {
         str \<leftarrow> c_string (token_string t2);
         let (r, t3) = token_match_name t2 str;
         Some (if r = 0 then t3\<lparr>current_token := finsh_token_type_identifier\<rparr> else t3, err)
       }
       else token_operator t2 err
     }"

definition finsh_token_token :: "finsh_token \<Rightarrow> u8 \<Rightarrow> (finsh_token_type \<times> finsh_token \<times> u8) option" where
  "finsh_token_token t err =
     do {
       (t1, err1) \<leftarrow> (if replay t then Some (t\<lparr>replay := False\<rparr>, err) else token_run t err);
       Some (current_token t1, t1, err1)
     }"

definition finsh_token_replay :: "finsh_token \<Rightarrow> finsh_token" where
  "finsh_token_replay t = t\<lparr>replay := True\<rparr>"

end
