(* ===== verification/Finsh_Nodes.thy ===== *)
theory Finsh_Nodes
  imports Finsh_Compiler Finsh_Token
begin

text \<open>
  The tables of the C expression shell: variables (\<^verbatim>\<open>finsh_var.c\<close>), system variables and functions
  (\<^verbatim>\<open>finsh_var.c\<close>, \<^verbatim>\<open>finsh_vm.c\<close>), the heap of its strings (\<^verbatim>\<open>finsh_heap.c\<close>) and the nodes of the
  syntax tree (\<^verbatim>\<open>finsh_node.c\<close>).  The values of the variables and the blocks of the heap are bytes of the
  machine's memory; names and types are kept beside it.
\<close>

subsection \<open>State\<close>

abbreviation (input) FINSH_NAME_MAX :: nat where "FINSH_NAME_MAX \<equiv> 16"
abbreviation (input) FINSH_NODE_MAX :: nat where "FINSH_NODE_MAX \<equiv> 16"
abbreviation (input) FINSH_VARIABLE_MAX :: nat where "FINSH_VARIABLE_MAX \<equiv> 8"
abbreviation (input) FINSH_HEAP_MAX :: u32 where "FINSH_HEAP_MAX \<equiv> 128"

abbreviation (input) FINSH_ERROR_OK :: u8 where "FINSH_ERROR_OK \<equiv> 0"
abbreviation (input) FINSH_ERROR_INVALID_TOKEN :: u8 where "FINSH_ERROR_INVALID_TOKEN \<equiv> 1"
abbreviation (input) FINSH_ERROR_EXPECT_TYPE :: u8 where "FINSH_ERROR_EXPECT_TYPE \<equiv> 2"
abbreviation (input) FINSH_ERROR_VARIABLE_EXIST :: u8 where "FINSH_ERROR_VARIABLE_EXIST \<equiv> 4"
abbreviation (input) FINSH_ERROR_EXPECT_OPERATOR :: u8 where "FINSH_ERROR_EXPECT_OPERATOR \<equiv> 5"
abbreviation (input) FINSH_ERROR_MEMORY_FULL :: u8 where "FINSH_ERROR_MEMORY_FULL \<equiv> 6"
abbreviation (input) FINSH_ERROR_UNKNOWN_SYMBOL :: u8 where "FINSH_ERROR_UNKNOWN_SYMBOL \<equiv> 13"
abbreviation (input) FINSH_ERROR_NULL_NODE :: u8 where "FINSH_ERROR_NULL_NODE \<equiv> 14"

text \<open>A name is the bytes in front of its zero; in the lists it is \<open>None\<close> when \<^verbatim>\<open>rt_strdup\<close> failed.\<close>

record finsh_var =
  fv_name :: "u8 list"
  fv_type :: finsh_type

record finsh_sysvar =
  sv_name :: "u8 list option"
  sv_type :: finsh_type
  sv_var :: u32
  sv_at :: u32

record finsh_syscall =
  sc_name :: "u8 list option"
  sc_func :: u32
  sc_at :: u32

text \<open>What the linker fixes: the tables, and the addresses of the arrays.\<close>

record finsh_env =
  heap_base :: u32
  variable_base :: u32
  sysvar_table :: "finsh_sysvar list"
  syscall_table :: "finsh_syscall list"

record finsh =
  global_variable :: "finsh_var list"
  global_sysvar_list :: "finsh_sysvar list"
  global_syscall_list :: "finsh_syscall list"
  free_list :: u32
  allocate_list :: u32
  global_node_table :: nodes
  global_errno :: u8
  machine :: vm
  parser_token :: finsh_token
  parser_root :: "nat option"

definition finsh_error_set :: "u8 \<Rightarrow> finsh \<Rightarrow> finsh" where
  "finsh_error_set e s = s\<lparr>global_errno := e\<rparr>"

definition finsh_error_init :: "finsh \<Rightarrow> finsh" where
  "finsh_error_init s = s\<lparr>global_errno := FINSH_ERROR_OK\<rparr>"

definition bytes_at :: "finsh \<Rightarrow> memory" where
  "bytes_at s = vm_mem (machine s)"

definition set_bytes_at :: "memory \<Rightarrow> finsh \<Rightarrow> finsh" where
  "set_bytes_at m s = s\<lparr>machine := (machine s)\<lparr>vm_mem := m\<rparr>\<rparr>"

subsection \<open>Variables\<close>

definition no_var :: finsh_var where
  "no_var = \<lparr>fv_name = [], fv_type = finsh_type_unknown\<rparr>"

text \<open>The address of the value of an entry, behind 17 bytes of name, the type and two of padding.\<close>

definition value_at :: "finsh_env \<Rightarrow> nat \<Rightarrow> u32" where
  "value_at e i = variable_base e + 24 * of_nat i + 20"

definition finsh_var_init :: "finsh_env \<Rightarrow> finsh \<Rightarrow> finsh" where
  "finsh_var_init e s =
     set_bytes_at (fold (\<lambda>i. put32 (value_at e i) 0) [0..<FINSH_VARIABLE_MAX] (bytes_at s))
       (s\<lparr>global_variable := replicate FINSH_VARIABLE_MAX no_var\<rparr>)"

text \<open>\<^verbatim>\<open>strncmp(..., FINSH_NAME_MAX)\<close> on two names.\<close>

definition same_name :: "u8 list \<Rightarrow> u8 list \<Rightarrow> bool" where
  "same_name x y \<longleftrightarrow> take FINSH_NAME_MAX x = take FINSH_NAME_MAX y"

definition find_var :: "u8 list \<Rightarrow> finsh \<Rightarrow> nat option" where
  "find_var name s = find (\<lambda>i. same_name (fv_name (global_variable s ! i)) name) [0..<FINSH_VARIABLE_MAX]"

definition finsh_var_insert :: "u8 list \<Rightarrow> finsh_type \<Rightarrow> finsh \<Rightarrow> int \<times> finsh" where
  "finsh_var_insert name type s =
     (case find_var name s of
        Some i \<Rightarrow> (-1, s)
      | None \<Rightarrow>
          (case find (\<lambda>i. fv_type (global_variable s ! i) = finsh_type_unknown) [0..<FINSH_VARIABLE_MAX] of
             None \<Rightarrow> (-1, s)
           | Some j \<Rightarrow>
               (int j, s\<lparr>global_variable := (global_variable s)[j := \<lparr>fv_name = take FINSH_NAME_MAX name, fv_type = type\<rparr>]\<rparr>)))"

definition finsh_var_delete :: "finsh_env \<Rightarrow> u8 list \<Rightarrow> finsh \<Rightarrow> int \<times> finsh" where
  "finsh_var_delete e name s =
     (case find_var name s of
        None \<Rightarrow> (-1, s)
      | Some i \<Rightarrow>
          (0, set_bytes_at (put32 (value_at e i) 0 (bytes_at s)) (s\<lparr>global_variable := (global_variable s)[i := no_var]\<rparr>)))"

definition finsh_var_lookup :: "u8 list \<Rightarrow> finsh \<Rightarrow> nat option" where
  "finsh_var_lookup name s = find_var name s"

subsection \<open>System variables and functions\<close>

text \<open>
  An identifier of the parser is 16 bytes from \<^verbatim>\<open>strncpy\<close>, of which the 17th is not written: a comparison
  that gets there, or its length, is not defined when no zero is among them.
\<close>

definition strcmp_id :: "u8 list \<Rightarrow> u8 list option \<Rightarrow> bool option" where
  "strcmp_id name nm =
     (case nm of None \<Rightarrow> None
      | Some x \<Rightarrow> if length name < FINSH_NAME_MAX then Some (x = name)
                 else if take FINSH_NAME_MAX x = name then None else Some False)"

definition strncmp_id :: "u8 list \<Rightarrow> u8 list option \<Rightarrow> bool option" where
  "strncmp_id name nm =
     (case nm of None \<Rightarrow> None
      | Some x \<Rightarrow> if length name < FINSH_NAME_MAX then Some (take (length name) x = name) else None)"

text \<open>The first entry for which the comparison holds.\<close>

fun find_name :: "('a \<Rightarrow> bool option) \<Rightarrow> 'a list \<Rightarrow> nat \<Rightarrow> nat option option" where
  "find_name f [] i = Some None"
| "find_name f (x # xs) i = Option.bind (f x) (\<lambda>b. if b then Some (Some i) else find_name f xs (i + 1))"

text \<open>
  An entry is known by its index in the table, or by the number of the entries in the list that are
  older, counted on from the length of the table.
\<close>

definition finsh_sysvar_lookup :: "finsh_env \<Rightarrow> u8 list \<Rightarrow> finsh \<Rightarrow> nat option option" where
  "finsh_sysvar_lookup e name s =
     do {
       r \<leftarrow> find_name (\<lambda>v. strcmp_id name (sv_name v)) (sysvar_table e) 0;
       (case r of Some i \<Rightarrow> Some (Some i)
        | None \<Rightarrow>
            map_option (map_option (\<lambda>k. length (sysvar_table e) + (length (global_sysvar_list s) - 1 - k)))
              (find_name (\<lambda>v. strncmp_id name (sv_name v)) (global_sysvar_list s) 0))
     }"

definition finsh_syscall_lookup :: "finsh_env \<Rightarrow> u8 list \<Rightarrow> finsh \<Rightarrow> nat option option" where
  "finsh_syscall_lookup e name s =
     do {
       r \<leftarrow> find_name (\<lambda>v. strcmp_id name (sc_name v)) (syscall_table e) 0;
       (case r of Some i \<Rightarrow> Some (Some i)
        | None \<Rightarrow>
            map_option (map_option (\<lambda>k. length (syscall_table e) + (length (global_syscall_list s) - 1 - k)))
              (find_name (\<lambda>v. strncmp_id name (sc_name v)) (global_syscall_list s) 0))
     }"

text \<open>\<open>item\<close> and \<open>dup\<close> are what \<^verbatim>\<open>rt_malloc\<close> and \<^verbatim>\<open>rt_strdup\<close> return.\<close>

definition finsh_sysvar_append :: "u32 option \<Rightarrow> u8 list option \<Rightarrow> finsh_type \<Rightarrow> u32 \<Rightarrow> finsh \<Rightarrow> finsh" where
  "finsh_sysvar_append item dup type var_addr s =
     (case item of None \<Rightarrow> s
      | Some a \<Rightarrow> s\<lparr>global_sysvar_list := \<lparr>sv_name = dup, sv_type = type, sv_var = var_addr, sv_at = a + 4\<rparr> # global_sysvar_list s\<rparr>)"

definition finsh_syscall_append :: "u32 option \<Rightarrow> u8 list option \<Rightarrow> u32 \<Rightarrow> finsh \<Rightarrow> finsh" where
  "finsh_syscall_append item dup func s =
     (case item of None \<Rightarrow> s
      | Some a \<Rightarrow> s\<lparr>global_syscall_list := \<lparr>sc_name = dup, sc_func = func, sc_at = a + 4\<rparr> # global_syscall_list s\<rparr>)"

definition sysvar_of :: "finsh_env \<Rightarrow> finsh \<Rightarrow> nat \<Rightarrow> finsh_sysvar" where
  "sysvar_of e s i = (sysvar_table e @ rev (global_sysvar_list s)) ! i"

definition syscall_of :: "finsh_env \<Rightarrow> finsh \<Rightarrow> nat \<Rightarrow> finsh_syscall" where
  "syscall_of e s i = (syscall_table e @ rev (global_syscall_list s)) ! i"

text \<open>The tables as the compiler reads them.\<close>

definition symbols_of :: "finsh_env \<Rightarrow> finsh \<Rightarrow> symbols" where
  "symbols_of e s =
     \<lparr>var_type = (\<lambda>i. fv_type (global_variable s ! i)), var_base = variable_base e,
      sysvar_type = (\<lambda>i. sv_type (sysvar_of e s i)), sysvar_var = (\<lambda>i. sv_var (sysvar_of e s i)),
      sysvar_at = (\<lambda>i. sv_at (sysvar_of e s i)), syscall_func = (\<lambda>i. sc_func (syscall_of e s i)),
      syscall_at = (\<lambda>i. sc_at (syscall_of e s i))\<rparr>"

subsection \<open>The heap of the strings\<close>

text \<open>A header is a length and the address of the next header; reading at \<^verbatim>\<open>NULL\<close> is \<open>None\<close>.\<close>

datatype block_list = Free_list | Allocate_list

definition the_list :: "block_list \<Rightarrow> finsh \<Rightarrow> u32" where
  "the_list l s = (case l of Free_list \<Rightarrow> free_list s | Allocate_list \<Rightarrow> allocate_list s)"

definition set_list :: "block_list \<Rightarrow> u32 \<Rightarrow> finsh \<Rightarrow> finsh" where
  "set_list l a s = (case l of Free_list \<Rightarrow> s\<lparr>free_list := a\<rparr> | Allocate_list \<Rightarrow> s\<lparr>allocate_list := a\<rparr>)"

definition block_length :: "u32 \<Rightarrow> finsh \<Rightarrow> u32 option" where
  "block_length h s = (if h = 0 then None else Some (get32 h (bytes_at s)))"

definition block_next :: "u32 \<Rightarrow> finsh \<Rightarrow> u32 option" where
  "block_next h s = (if h = 0 then None else Some (get32 (h + 4) (bytes_at s)))"

definition set_length :: "u32 \<Rightarrow> u32 \<Rightarrow> finsh \<Rightarrow> finsh option" where
  "set_length h x s = (if h = 0 then None else Some (set_bytes_at (put32 h x (bytes_at s)) s))"

definition set_next :: "u32 \<Rightarrow> u32 \<Rightarrow> finsh \<Rightarrow> finsh option" where
  "set_next h x s = (if h = 0 then None else Some (set_bytes_at (put32 (h + 4) x (bytes_at s)) s))"

definition zero_bytes :: "u32 \<Rightarrow> nat \<Rightarrow> finsh \<Rightarrow> finsh" where
  "zero_bytes a n s = set_bytes_at (fold (\<lambda>i m. m(a + of_nat i := 0)) [0..<n] (bytes_at s)) s"

definition finsh_heap_init :: "finsh_env \<Rightarrow> finsh \<Rightarrow> finsh option" where
  "finsh_heap_init e s =
     do {
       s1 \<leftarrow> set_length (heap_base e) (FINSH_HEAP_MAX - 8) (zero_bytes (heap_base e) (unat FINSH_HEAP_MAX) s);
       s2 \<leftarrow> set_next (heap_base e) 0 s1;
       Some (s2\<lparr>free_list := heap_base e, allocate_list := 0\<rparr>)
     }"

partial_function (option) insert_point :: "u32 \<Rightarrow> u32 \<Rightarrow> finsh \<Rightarrow> u32 option" where
  "insert_point node header s =
     Option.bind (block_next node s) (\<lambda>n. if n > header \<or> n = 0 then Some node else insert_point n header s)"

definition finsh_block_insert :: "block_list \<Rightarrow> u32 \<Rightarrow> finsh \<Rightarrow> finsh option" where
  "finsh_block_insert l header s =
     (if the_list l s = 0 then Some (set_list l header s)
      else if the_list l s > header
      then map_option (set_list l header) (set_next header (the_list l s) s)
      else do {
        node \<leftarrow> insert_point (the_list l s) header s;
        n \<leftarrow> block_next node s;
        s1 \<leftarrow> (if n \<noteq> 0 then set_next header n s else Some s);
        set_next node header s1
      })"

partial_function (option) block_before :: "u32 \<Rightarrow> u32 \<Rightarrow> finsh \<Rightarrow> u32 option" where
  "block_before node header s =
     (if node = 0 then Some 0
      else Option.bind (block_next node s) (\<lambda>n. if n = header then Some node else block_before n header s))"

definition finsh_block_remove :: "block_list \<Rightarrow> u32 \<Rightarrow> finsh \<Rightarrow> finsh option" where
  "finsh_block_remove l header s =
     (if the_list l s = header
      then do { n \<leftarrow> block_next header s; set_next header 0 (set_list l n s) }
      else do {
        node \<leftarrow> block_before (the_list l s) header s;
        if node = 0 then Some s else do { n \<leftarrow> block_next header s; set_next node n s }
      })"

definition finsh_block_split :: "u32 \<Rightarrow> u32 \<Rightarrow> finsh \<Rightarrow> finsh option" where
  "finsh_block_split header sz s =
     do {
       let nxt = header + 8 + sz;
       len \<leftarrow> block_length header s;
       s1 \<leftarrow> set_length nxt (len - 8 - sz) s;
       s2 \<leftarrow> set_length header sz s1;
       n \<leftarrow> block_next header s2;
       s3 \<leftarrow> set_next nxt n s2;
       set_next header nxt s3
     }"

definition finsh_block_merge :: "block_list \<Rightarrow> u32 \<Rightarrow> finsh \<Rightarrow> finsh option" where
  "finsh_block_merge l header s =
     do {
       nxt \<leftarrow> block_next header s;
       prev \<leftarrow> (if the_list l s = header then Some 0 else block_before (the_list l s) header s);
       hl \<leftarrow> block_length header s;
       nl \<leftarrow> (if nxt = 0 then Some 0 else block_length nxt s);
       pl \<leftarrow> (if prev = 0 then Some 0 else block_length prev s);
       if prev \<noteq> 0 \<and> prev + pl + 8 = header
       then if nxt \<noteq> 0 \<and> header + hl + 8 = nxt
            then do {
              s1 \<leftarrow> set_length prev (pl + (hl + nl + 2 * 8)) s;
              n \<leftarrow> block_next nxt s1;
              set_next prev n s1
            }
            else do {
              s1 \<leftarrow> set_length prev (pl + (hl + 8)) s;
              n \<leftarrow> block_next header s1;
              set_next prev n s1
            }
       else if nxt \<noteq> 0 \<and> header + hl + 8 = nxt
       then do {
         s1 \<leftarrow> set_length header (hl + (nl + 8)) s;
         n \<leftarrow> block_next nxt s1;
         set_next header n s1
       }
       else Some s
     }"

definition finsh_heap_free :: "u32 \<Rightarrow> finsh \<Rightarrow> finsh option" where
  "finsh_heap_free p s =
     do {
       s1 \<leftarrow> finsh_block_remove Allocate_list (p - 8) s;
       s2 \<leftarrow> finsh_block_insert Free_list (p - 8) s1;
       finsh_block_merge Free_list (p - 8) s2
     }"

text \<open>Whether a variable of a known type holds the address.\<close>

definition var_holds :: "finsh_env \<Rightarrow> u32 \<Rightarrow> finsh \<Rightarrow> bool" where
  "var_holds e p s \<longleftrightarrow>
     (\<exists>i \<in> set [0..<FINSH_VARIABLE_MAX].
        fv_type (global_variable s ! i) \<noteq> finsh_type_unknown \<and> get32 (value_at e i) (bytes_at s) = p)"

partial_function (option) gc_loop :: "finsh_env \<Rightarrow> u32 \<Rightarrow> finsh \<Rightarrow> finsh option" where
  "gc_loop e header s =
     (if header = 0 then Some s
      else Option.bind (block_next header s) (\<lambda>n.
        if var_holds e (header + 8) s then gc_loop e n s
        else Option.bind (finsh_heap_free (header + 8) s) (gc_loop e n)))"

definition finsh_heap_gc :: "finsh_env \<Rightarrow> finsh \<Rightarrow> finsh option" where
  "finsh_heap_gc e s = gc_loop e (allocate_list s) s"

text \<open>The first block long enough; the second search, after the collection, takes an exact fit too.\<close>

partial_function (option) first_fit :: "(u32 \<Rightarrow> bool) \<Rightarrow> u32 \<Rightarrow> finsh \<Rightarrow> u32 option" where
  "first_fit fits header s =
     (if header = 0 then Some 0
      else Option.bind (block_length header s) (\<lambda>len.
        if fits len then Some header else Option.bind (block_next header s) (\<lambda>n. first_fit fits n s)))"

definition finsh_heap_allocate :: "finsh_env \<Rightarrow> u32 \<Rightarrow> finsh \<Rightarrow> (u32 \<times> finsh) option" where
  "finsh_heap_allocate e sz s =
     do {
       let sz1 = (sz + 4 - 1) AND NOT (4 - 1);
       h \<leftarrow> first_fit (\<lambda>len. sz1 + 8 < len) (free_list s) s;
       (header, s1) \<leftarrow> (if h = 0
         then do { s1 \<leftarrow> finsh_heap_gc e s; h1 \<leftarrow> first_fit (\<lambda>len. sz1 + 8 \<le> len) (free_list s1) s1; Some (h1, s1) }
         else Some (h, s));
       if header = 0 then Some (0, s1)
       else do {
         s2 \<leftarrow> finsh_block_split header sz1 s1;
         s3 \<leftarrow> finsh_block_remove Free_list header s2;
         s4 \<leftarrow> set_next header 0 s3;
         s5 \<leftarrow> finsh_block_insert Allocate_list header s4;
         Some (header + 8, zero_bytes (header + 8) (unat sz1) s5)
       }
     }"

subsection \<open>Nodes\<close>

definition no_node :: finsh_node where
  "no_node = \<lparr>node_type = FINSH_NODE_UNKNOWN, data_type = 0, idtype = 0, node_value = 0, node_id = Null_id,
     sibling = None, child = None\<rparr>"

definition finsh_node_init :: "finsh \<Rightarrow> finsh" where
  "finsh_node_init s = s\<lparr>global_node_table := (\<lambda>_. no_node)\<rparr>"

definition upd_node :: "nat \<Rightarrow> (finsh_node \<Rightarrow> finsh_node) \<Rightarrow> finsh \<Rightarrow> finsh" where
  "upd_node i f s = s\<lparr>global_node_table := (global_node_table s)(i := f (global_node_table s i))\<rparr>"

definition finsh_node_allocate :: "finsh_node_type \<Rightarrow> finsh \<Rightarrow> nat option \<times> finsh" where
  "finsh_node_allocate type s =
     (case find (\<lambda>i. node_type (global_node_table s i) = FINSH_NODE_UNKNOWN) [0..<FINSH_NODE_MAX] of
        None \<Rightarrow> (None, s)
      | Some i \<Rightarrow> (Some i, upd_node i (\<lambda>n. n\<lparr>node_type := type\<rparr>) s))"

text \<open>Allocation of a node with a value.\<close>

definition finsh_node_new :: "finsh_node_type \<Rightarrow> (finsh_node \<Rightarrow> finsh_node) \<Rightarrow> finsh \<Rightarrow> nat option \<times> finsh" where
  "finsh_node_new type f s =
     (case finsh_node_allocate type s of
        (None, s1) \<Rightarrow> (None, finsh_error_set FINSH_ERROR_MEMORY_FULL s1)
      | (Some i, s1) \<Rightarrow> (Some i, upd_node i f s1))"

definition find_symbol :: "finsh_env \<Rightarrow> u8 list \<Rightarrow> finsh \<Rightarrow> (ident \<times> u8) option" where
  "find_symbol e name s =
     (case finsh_var_lookup name s of
        Some i \<Rightarrow> Some (Id_var i, FINSH_IDTYPE_VAR)
      | None \<Rightarrow>
          Option.bind (finsh_sysvar_lookup e name s) (\<lambda>r.
            case r of
              Some i \<Rightarrow> Some (Id_sysvar i, FINSH_IDTYPE_SYSVAR)
            | None \<Rightarrow>
                Option.bind (finsh_syscall_lookup e name s) (\<lambda>r.
                  case r of Some i \<Rightarrow> Some (Id_syscall i, FINSH_IDTYPE_SYSCALL) | None \<Rightarrow> Some (Null_id, 0))))"

definition finsh_node_new_id :: "finsh_env \<Rightarrow> u8 list \<Rightarrow> finsh \<Rightarrow> (nat option \<times> finsh) option" where
  "finsh_node_new_id e name s =
     do {
       (symbol, type) \<leftarrow> find_symbol e name s;
       Some (if symbol \<noteq> Null_id
             then finsh_node_new FINSH_NODE_ID (\<lambda>n. n\<lparr>node_id := symbol, idtype := type\<rparr>) s
             else (None, finsh_error_set FINSH_ERROR_UNKNOWN_SYMBOL s))
     }"

definition finsh_node_new_char :: "u8 \<Rightarrow> finsh \<Rightarrow> nat option \<times> finsh" where
  "finsh_node_new_char c s = finsh_node_new FINSH_NODE_VALUE_CHAR (\<lambda>n. n\<lparr>node_value := set_char_value (node_value n) c\<rparr>) s"

definition finsh_node_new_int :: "u32 \<Rightarrow> finsh \<Rightarrow> nat option \<times> finsh" where
  "finsh_node_new_int i s = finsh_node_new FINSH_NODE_VALUE_INT (\<lambda>n. n\<lparr>node_value := i\<rparr>) s"

definition finsh_node_new_long :: "u32 \<Rightarrow> finsh \<Rightarrow> nat option \<times> finsh" where
  "finsh_node_new_long l s = finsh_node_new FINSH_NODE_VALUE_LONG (\<lambda>n. n\<lparr>node_value := l\<rparr>) s"

definition finsh_node_new_ptr :: "u32 \<Rightarrow> finsh \<Rightarrow> nat option \<times> finsh" where
  "finsh_node_new_ptr p s = finsh_node_new FINSH_NODE_VALUE_NULL (\<lambda>n. n\<lparr>node_value := p\<rparr>) s"

text \<open>The result of the allocation is not looked at: without memory the copy goes to \<^verbatim>\<open>NULL\<close>.\<close>

definition finsh_node_new_string :: "finsh_env \<Rightarrow> u8 list \<Rightarrow> finsh \<Rightarrow> (nat option \<times> finsh) option" where
  "finsh_node_new_string e str s =
     (case finsh_node_allocate FINSH_NODE_VALUE_STRING s of
        (None, s1) \<Rightarrow> Some (None, finsh_error_set FINSH_ERROR_MEMORY_FULL s1)
      | (Some i, s1) \<Rightarrow>
          do {
            xs \<leftarrow> c_string str;
            (p, s2) \<leftarrow> finsh_heap_allocate e (of_nat (length xs) + 1) s1;
            RT_ASSERT (p \<noteq> 0);
            let m = fold (\<lambda>k m. m(p + of_nat k := (xs @ [0]) ! k)) [0..<length xs + 1] (bytes_at s2);
            Some (Some i, upd_node i (\<lambda>n. n\<lparr>node_value := p\<rparr>) (set_bytes_at m s2))
          })"

end
