(* ===== verification/Finsh_Parser.thy ===== *)
theory Finsh_Parser
  imports Finsh_Nodes
begin

text \<open>
  The parser of the C expression shell, \<^verbatim>\<open>rt-thread/components/finsh/finsh_parser.c\<close>, by recursive
  descent over the tokens, and \<^verbatim>\<open>finsh_init.c\<close>.  The routines call each other in a circle; each is a
  definition with the calls as its argument \<open>proc\<close>, and the circle is closed in one partial function
  over the routine called.  A \<^verbatim>\<open>while\<close> loop is a routine of its own.
\<close>

subsection \<open>Tokens\<close>

definition next_token :: "finsh \<Rightarrow> (finsh_token_type \<times> finsh) option" where
  "next_token s =
     do {
       (ty, t, err) \<leftarrow> finsh_token_token (parser_token s) (global_errno s);
       Some (ty, s\<lparr>parser_token := t, global_errno := err\<rparr>)
     }"

definition token_replay :: "finsh \<Rightarrow> finsh" where
  "token_replay s = s\<lparr>parser_token := finsh_token_replay (parser_token s)\<rparr>"

definition check_token :: "finsh_token_type \<Rightarrow> finsh_token_type \<Rightarrow> finsh \<Rightarrow> finsh" where
  "check_token token type s = (if token \<noteq> type then token_replay (finsh_error_set FINSH_ERROR_INVALID_TOKEN s) else s)"

definition match_token :: "finsh_token_type \<Rightarrow> finsh \<Rightarrow> (finsh_token_type \<times> finsh) option" where
  "match_token type s = do { (token, s1) \<leftarrow> next_token s; Some (token, check_token token type s1) }"

definition is_base_type :: "finsh_token_type \<Rightarrow> bool" where
  "is_base_type token \<longleftrightarrow> token \<in> {finsh_token_type_void, finsh_token_type_char, finsh_token_type_short,
     finsh_token_type_int, finsh_token_type_long}"

text \<open>The identifier is what \<^verbatim>\<open>strncpy\<close> copies of the token's string, whatever the token is.\<close>

definition proc_identifier :: "finsh \<Rightarrow> (u8 list \<times> finsh) option" where
  "proc_identifier s =
     do {
       (_, s1) \<leftarrow> match_token finsh_token_type_identifier s;
       Some (take FINSH_NAME_MAX (takeWhile (\<lambda>c. c \<noteq> 0) (token_string (parser_token s1))), s1)
     }"

subsection \<open>Types\<close>

fun base_type :: "finsh_token_type \<Rightarrow> finsh_type" where
  "base_type finsh_token_type_void = finsh_type_void"
| "base_type finsh_token_type_char = finsh_type_char"
| "base_type finsh_token_type_short = finsh_type_short"
| "base_type finsh_token_type_int = finsh_type_int"
| "base_type finsh_token_type_long = finsh_type_long"
| "base_type _ = finsh_type_unknown"

fun unsigned_type :: "finsh_token_type \<Rightarrow> finsh_type option" where
  "unsigned_type finsh_token_type_char = Some finsh_type_uchar"
| "unsigned_type finsh_token_type_short = Some finsh_type_ushort"
| "unsigned_type finsh_token_type_int = Some finsh_type_uint"
| "unsigned_type finsh_token_type_long = Some finsh_type_ulong"
| "unsigned_type _ = None"

fun pointer_type :: "finsh_type \<Rightarrow> finsh_type" where
  "pointer_type finsh_type_char = finsh_type_charp"
| "pointer_type finsh_type_uchar = finsh_type_charp"
| "pointer_type finsh_type_short = finsh_type_shortp"
| "pointer_type finsh_type_ushort = finsh_type_shortp"
| "pointer_type finsh_type_int = finsh_type_intp"
| "pointer_type finsh_type_uint = finsh_type_intp"
| "pointer_type finsh_type_long = finsh_type_longp"
| "pointer_type finsh_type_ulong = finsh_type_longp"
| "pointer_type _ = finsh_type_voidp"

definition proc_type_pointer :: "finsh_type \<Rightarrow> finsh \<Rightarrow> (finsh_type \<times> finsh) option" where
  "proc_type_pointer type s =
     do {
       (token, s1) \<leftarrow> next_token s;
       Some (if token = finsh_token_type_mul then (pointer_type type, s1) else (type, token_replay s1))
     }"

definition proc_type_return :: "finsh_type \<Rightarrow> finsh \<Rightarrow> (finsh_type \<times> finsh) option" where
  "proc_type_return type s = Some (type, finsh_error_set FINSH_ERROR_UNKNOWN_TYPE (token_replay s))"

definition proc_type :: "finsh \<Rightarrow> (finsh_type \<times> finsh) option" where
  "proc_type s =
     do {
       (token, s1) \<leftarrow> next_token s;
       if is_base_type token then proc_type_pointer (base_type token) s1
       else if token = finsh_token_type_unsigned
       then do {
         (token1, s2) \<leftarrow> next_token s1;
         if is_base_type token1
         then (case unsigned_type token1 of
                 Some type \<Rightarrow> proc_type_pointer type s2
               | None \<Rightarrow> proc_type_return finsh_type_unknown s2)
         else proc_type_pointer finsh_type_unknown (finsh_error_set FINSH_ERROR_EXPECT_TYPE (token_replay s2))
       }
       else proc_type_return finsh_type_unknown s1
     }"

text \<open>The number of a type, which a cast writes into the node.\<close>

fun type_number :: "finsh_type \<Rightarrow> u8" where
  "type_number finsh_type_unknown = 0"
| "type_number finsh_type_void = 1"
| "type_number finsh_type_voidp = 2"
| "type_number finsh_type_char = 3"
| "type_number finsh_type_uchar = 4"
| "type_number finsh_type_charp = 5"
| "type_number finsh_type_short = 6"
| "type_number finsh_type_ushort = 7"
| "type_number finsh_type_shortp = 8"
| "type_number finsh_type_int = 9"
| "type_number finsh_type_uint = 10"
| "type_number finsh_type_intp = 11"
| "type_number finsh_type_long = 12"
| "type_number finsh_type_ulong = 13"
| "type_number finsh_type_longp = 14"

subsection \<open>Expressions\<close>

definition make_sys_node :: "finsh_node_type \<Rightarrow> nat option \<Rightarrow> nat option \<Rightarrow> finsh \<Rightarrow> nat option \<times> finsh" where
  "make_sys_node type node1 node2 s =
     (let (node, s1) = finsh_node_allocate type s
      in (node, case (node1, node) of
                  (Some j, Some i) \<Rightarrow> upd_node j (\<lambda>n. n\<lparr>sibling := node2\<rparr>) (upd_node i (\<lambda>n. n\<lparr>child := Some j\<rparr>) s1)
                | _ \<Rightarrow> finsh_error_set FINSH_ERROR_NULL_NODE s1))"

datatype level = Inclusive_or | Exclusive_or | And | Shift | Additive | Multiplicative

datatype goal =
    Assign_expr | Binary_expr level | Binary_loop level "nat option" | Cast_expr | Unary_expr
  | Postfix_expr | Postfix_loop "nat option" | Primary_expr | Param_list | Param_loop "nat option"

type_synonym procs = "goal \<times> finsh \<Rightarrow> (nat option \<times> finsh) option"

definition proc_assign_expr :: "procs \<Rightarrow> finsh \<Rightarrow> (nat option \<times> finsh) option" where
  "proc_assign_expr proc s =
     Option.bind (proc (Binary_expr Inclusive_or, s)) (\<lambda>(left, s1).
     Option.bind (next_token s1) (\<lambda>(token, s2).
       if token = finsh_token_type_assign
       then Option.bind (proc (Assign_expr, s2)) (\<lambda>(assign, s3). Some (make_sys_node FINSH_NODE_SYS_ASSIGN left assign s3))
       else Some (left, token_replay s2)))"

text \<open>
  The six routines of the binary operators have one shape: an operand, then a loop over operators and
  operands.  \<open>level_op\<close> says which operators belong to a level, \<open>level_operand\<close> what an operand is.
\<close>

fun level_op :: "level \<Rightarrow> finsh_token_type \<Rightarrow> finsh_node_type option" where
  "level_op Inclusive_or token = (if token = finsh_token_type_or then Some FINSH_NODE_SYS_OR else None)"
| "level_op Exclusive_or token = (if token = finsh_token_type_xor then Some FINSH_NODE_SYS_XOR else None)"
| "level_op And token = (if token = finsh_token_type_and then Some FINSH_NODE_SYS_AND else None)"
| "level_op Shift token =
     (if token = finsh_token_type_shl then Some FINSH_NODE_SYS_SHL
      else if token = finsh_token_type_shr then Some FINSH_NODE_SYS_SHR else None)"
| "level_op Additive token =
     (if token = finsh_token_type_sub then Some FINSH_NODE_SYS_SUB
      else if token = finsh_token_type_add then Some FINSH_NODE_SYS_ADD else None)"
| "level_op Multiplicative token =
     (if token = finsh_token_type_mul then Some FINSH_NODE_SYS_MUL
      else if token = finsh_token_type_div then Some FINSH_NODE_SYS_DIV
      else if token = finsh_token_type_mod then Some FINSH_NODE_SYS_MOD else None)"

fun level_operand :: "level \<Rightarrow> goal" where
  "level_operand Inclusive_or = Binary_expr Exclusive_or"
| "level_operand Exclusive_or = Binary_expr And"
| "level_operand And = Binary_expr Shift"
| "level_operand Shift = Binary_expr Additive"
| "level_operand Additive = Binary_expr Multiplicative"
| "level_operand Multiplicative = Cast_expr"

definition binary_expr :: "procs \<Rightarrow> level \<Rightarrow> finsh \<Rightarrow> (nat option \<times> finsh) option" where
  "binary_expr proc l s = Option.bind (proc (level_operand l, s)) (\<lambda>(left, s1). proc (Binary_loop l left, s1))"

definition binary_loop :: "procs \<Rightarrow> level \<Rightarrow> nat option \<Rightarrow> finsh \<Rightarrow> (nat option \<times> finsh) option" where
  "binary_loop proc l left s =
     Option.bind (next_token s) (\<lambda>(token, s1).
       case level_op l token of
         None \<Rightarrow> Some (left, token_replay s1)
       | Some type \<Rightarrow>
           Option.bind (proc (level_operand l, s1)) (\<lambda>(new, s2).
             case new of
               None \<Rightarrow> proc (Binary_loop l left, finsh_error_set FINSH_ERROR_EXPECT_OPERATOR s2)
             | Some n \<Rightarrow> (case make_sys_node type left new s2 of (node, s3) \<Rightarrow> proc (Binary_loop l node, s3))))"

definition proc_cast_expr :: "procs \<Rightarrow> finsh \<Rightarrow> (nat option \<times> finsh) option" where
  "proc_cast_expr proc s =
     Option.bind (next_token s) (\<lambda>(token, s1).
       if token = finsh_token_type_left_paren
       then Option.bind (proc_type s1) (\<lambda>(type, s2).
            Option.bind (match_token finsh_token_type_right_paren s2) (\<lambda>(token1, s3).
            Option.bind (proc (Cast_expr, s3)) (\<lambda>(cast, s4).
              case cast of
                Some i \<Rightarrow> Some (cast, upd_node i (\<lambda>n. n\<lparr>data_type := type_number type\<rparr>) s4)
              | None \<Rightarrow> proc (Unary_expr, token_replay s4))))
       else proc (Unary_expr, token_replay s1))"

definition proc_unary_expr :: "procs \<Rightarrow> finsh \<Rightarrow> (nat option \<times> finsh) option" where
  "proc_unary_expr proc s =
     Option.bind (next_token s) (\<lambda>(token, s1).
       if token = finsh_token_type_add then proc (Cast_expr, s1)
       else if token = finsh_token_type_inc
       then Option.bind (proc (Cast_expr, s1)) (\<lambda>(cast, s2). Some (make_sys_node FINSH_NODE_SYS_PREINC cast None s2))
       else if token = finsh_token_type_sub
       then Option.bind (proc (Cast_expr, s1)) (\<lambda>(cast, s2).
         case finsh_node_new_long 0 s2 of (zero, s3) \<Rightarrow> Some (make_sys_node FINSH_NODE_SYS_SUB zero cast s3))
       else if token = finsh_token_type_dec
       then Option.bind (proc (Cast_expr, s1)) (\<lambda>(cast, s2). Some (make_sys_node FINSH_NODE_SYS_PREDEC cast None s2))
       else if token = finsh_token_type_bitwise
       then Option.bind (proc (Cast_expr, s1)) (\<lambda>(cast, s2). Some (make_sys_node FINSH_NODE_SYS_BITWISE cast None s2))
       else if token = finsh_token_type_mul
       then Option.bind (proc (Cast_expr, s1)) (\<lambda>(cast, s2). Some (make_sys_node FINSH_NODE_SYS_GETVALUE cast None s2))
       else if token = finsh_token_type_and
       then Option.bind (proc (Cast_expr, s1)) (\<lambda>(cast, s2). Some (make_sys_node FINSH_NODE_SYS_GETADDR cast None s2))
       else proc (Postfix_expr, token_replay s1))"

definition proc_postfix_expr :: "procs \<Rightarrow> finsh \<Rightarrow> (nat option \<times> finsh) option" where
  "proc_postfix_expr proc s = Option.bind (proc (Primary_expr, s)) (\<lambda>(postfix, s1). proc (Postfix_loop postfix, s1))"

definition postfix_loop :: "procs \<Rightarrow> nat option \<Rightarrow> finsh \<Rightarrow> (nat option \<times> finsh) option" where
  "postfix_loop proc postfix s =
     Option.bind (next_token s) (\<lambda>(token, s1).
       if token = finsh_token_type_inc
       then (case make_sys_node FINSH_NODE_SYS_INC postfix None s1 of (node, s2) \<Rightarrow> proc (Postfix_loop node, s2))
       else if token = finsh_token_type_dec
       then (case make_sys_node FINSH_NODE_SYS_DEC postfix None s1 of (node, s2) \<Rightarrow> proc (Postfix_loop node, s2))
       else if token = finsh_token_type_left_paren
       then Option.bind (next_token s1) (\<lambda>(token1, s2).
         if token1 \<noteq> finsh_token_type_right_paren
         then Option.bind (proc (Param_list, token_replay s2)) (\<lambda>(param_list, s3).
              Option.bind (match_token finsh_token_type_right_paren s3) (\<lambda>(token2, s4).
                case make_sys_node FINSH_NODE_SYS_FUNC postfix param_list s4 of (node, s5) \<Rightarrow> proc (Postfix_loop node, s5)))
         else (case make_sys_node FINSH_NODE_SYS_FUNC postfix None s2 of (node, s3) \<Rightarrow> proc (Postfix_loop node, s3)))
       else Some (postfix, token_replay s1))"

definition proc_primary_expr :: "finsh_env \<Rightarrow> procs \<Rightarrow> finsh \<Rightarrow> (nat option \<times> finsh) option" where
  "proc_primary_expr e proc s =
     Option.bind (next_token s) (\<lambda>(token, s1).
       if token = finsh_token_type_identifier
       then Option.bind (proc_identifier (token_replay s1)) (\<lambda>(name, s2). finsh_node_new_id e name s2)
       else if token = finsh_token_type_left_paren
       then Option.bind (proc (Assign_expr, s1)) (\<lambda>(expr, s2).
            Option.bind (match_token finsh_token_type_right_paren s2) (\<lambda>(token1, s3). Some (expr, s3)))
       else if token = finsh_token_type_value_int then Some (finsh_node_new_int (token_value (parser_token s1)) s1)
       else if token = finsh_token_type_value_long then Some (finsh_node_new_long (token_value (parser_token s1)) s1)
       else if token = finsh_token_type_value_char then Some (finsh_node_new_char (char_value (token_value (parser_token s1))) s1)
       else if token = finsh_token_type_value_string then finsh_node_new_string e (token_string (parser_token s1)) s1
       else if token = finsh_token_type_value_null then Some (finsh_node_new_ptr 0 s1)
       else Some (None, finsh_error_set FINSH_ERROR_INVALID_TOKEN s1))"

definition proc_param_list :: "procs \<Rightarrow> finsh \<Rightarrow> (nat option \<times> finsh) option" where
  "proc_param_list proc s =
     Option.bind (proc (Assign_expr, s)) (\<lambda>(assign, s1).
       case assign of
         None \<Rightarrow> Some (None, s1)
       | Some i \<Rightarrow> Option.bind (proc (Param_loop assign, s1)) (\<lambda>(last, s2). Some (assign, s2)))"

text \<open>The loop over the parameters behind the first one; \<open>assign\<close> is the last one so far.\<close>

definition param_loop :: "procs \<Rightarrow> nat option \<Rightarrow> finsh \<Rightarrow> (nat option \<times> finsh) option" where
  "param_loop proc assign s =
     Option.bind (next_token s) (\<lambda>(token, s1).
       if token = finsh_token_type_comma
       then Option.bind (proc (Assign_expr, s1)) (\<lambda>(node, s2).
         case assign of
           None \<Rightarrow> None
         | Some i \<Rightarrow>
             if node \<noteq> None then proc (Param_loop node, upd_node i (\<lambda>n. n\<lparr>sibling := node\<rparr>) s2)
             else proc (Param_loop assign, finsh_error_set FINSH_ERROR_EXPECT_OPERATOR (upd_node i (\<lambda>n. n\<lparr>sibling := node\<rparr>) s2)))
       else Some (assign, token_replay s1))"

lemma case_mono:
  "mono_option f \<Longrightarrow> (\<And>x. mono_option (\<lambda>h. g x h)) \<Longrightarrow> mono_option (\<lambda>h. case y of None \<Rightarrow> f h | Some x \<Rightarrow> g x h)"
  "(\<And>x z. mono_option (\<lambda>h. k x z h)) \<Longrightarrow> mono_option (\<lambda>h. case q of (x, z) \<Rightarrow> k x z h)"
  by (cases y; simp) (cases q; simp)

lemma proc_mono [partial_function_mono]:
  "mono_option (\<lambda>proc. proc_assign_expr (\<lambda>gs. proc (e, gs)) s)"
  "mono_option (\<lambda>proc. binary_expr (\<lambda>gs. proc (e, gs)) l s)"
  "mono_option (\<lambda>proc. binary_loop (\<lambda>gs. proc (e, gs)) l n s)"
  "mono_option (\<lambda>proc. proc_cast_expr (\<lambda>gs. proc (e, gs)) s)"
  "mono_option (\<lambda>proc. proc_unary_expr (\<lambda>gs. proc (e, gs)) s)"
  "mono_option (\<lambda>proc. proc_postfix_expr (\<lambda>gs. proc (e, gs)) s)"
  "mono_option (\<lambda>proc. postfix_loop (\<lambda>gs. proc (e, gs)) n s)"
  "mono_option (\<lambda>proc. proc_primary_expr e (\<lambda>gs. proc (e, gs)) s)"
  "mono_option (\<lambda>proc. proc_param_list (\<lambda>gs. proc (e, gs)) s)"
  "mono_option (\<lambda>proc. param_loop (\<lambda>gs. proc (e, gs)) n s)"
  unfolding proc_assign_expr_def binary_expr_def binary_loop_def proc_cast_expr_def proc_unary_expr_def proc_postfix_expr_def
    postfix_loop_def proc_primary_expr_def proc_param_list_def param_loop_def
  by (intro partial_function_mono case_mono)+

partial_function (option) proc :: "finsh_env \<Rightarrow> goal \<times> finsh \<Rightarrow> (nat option \<times> finsh) option" where
  "proc e gs =
     (case fst gs of
        Assign_expr \<Rightarrow> proc_assign_expr (proc e) (snd gs)
      | Binary_expr l \<Rightarrow> binary_expr (proc e) l (snd gs)
      | Binary_loop l n \<Rightarrow> binary_loop (proc e) l n (snd gs)
      | Cast_expr \<Rightarrow> proc_cast_expr (proc e) (snd gs)
      | Unary_expr \<Rightarrow> proc_unary_expr (proc e) (snd gs)
      | Postfix_expr \<Rightarrow> proc_postfix_expr (proc e) (snd gs)
      | Postfix_loop n \<Rightarrow> postfix_loop (proc e) n (snd gs)
      | Primary_expr \<Rightarrow> proc_primary_expr e (proc e) (snd gs)
      | Param_list \<Rightarrow> proc_param_list (proc e) (snd gs)
      | Param_loop n \<Rightarrow> param_loop (proc e) n (snd gs))"

subsection \<open>Statements\<close>

definition proc_expr :: "finsh_env \<Rightarrow> finsh \<Rightarrow> (nat option \<times> finsh) option" where
  "proc_expr e s = proc e (Assign_expr, s)"

definition proc_expr_statement :: "finsh_env \<Rightarrow> finsh \<Rightarrow> (nat option \<times> finsh) option" where
  "proc_expr_statement e s =
     do {
       (token, s1) \<leftarrow> next_token s;
       if token \<noteq> finsh_token_type_semicolon
       then do {
         (expr, s2) \<leftarrow> proc_expr e (token_replay s1);
         (_, s3) \<leftarrow> match_token finsh_token_type_semicolon s2;
         Some (expr, s3)
       }
       else Some (None, s1)
     }"

text \<open>An identifier of a declaration goes into the table.\<close>

definition declare_var :: "finsh_type \<Rightarrow> finsh \<Rightarrow> (u8 list \<times> finsh) option" where
  "declare_var type s =
     do {
       (name, s1) \<leftarrow> proc_identifier s;
       let (r, s2) = finsh_var_insert name type s1;
       Some (name, if r < 0 then finsh_error_set FINSH_ERROR_VARIABLE_EXIST s2 else s2)
     }"

text \<open>An initial value: the node of the assignment, behind the ones there are.\<close>

definition init_node :: "finsh_env \<Rightarrow> u8 list \<Rightarrow> nat option \<Rightarrow> nat option \<Rightarrow> nat option \<Rightarrow> finsh \<Rightarrow>
    (nat option \<times> nat option \<times> finsh) option" where
  "init_node e name node endn assign s =
     do {
       (idnode, s1) \<leftarrow> finsh_node_new_id e name s;
       let (new, s2) = make_sys_node FINSH_NODE_SYS_ASSIGN idnode assign s1;
       (if node = None then Some (new, new, s2)
        else case endn of None \<Rightarrow> None | Some i \<Rightarrow> Some (node, new, upd_node i (\<lambda>n. n\<lparr>sibling := new\<rparr>) s2))
     }"

text \<open>Behind \<open>=\<close>: the nodes and the next token.\<close>

definition decl_init :: "finsh_env \<Rightarrow> u8 list \<Rightarrow> nat option \<Rightarrow> nat option \<Rightarrow> finsh \<Rightarrow>
    (finsh_token_type \<times> nat option \<times> nat option \<times> finsh) option" where
  "decl_init e name node endn s =
     do {
       (assign, s1) \<leftarrow> proc e (Assign_expr, s);
       if assign = None then Some (finsh_token_type_assign, node, endn, s1)
       else do {
         (node1, end1, s2) \<leftarrow> init_node e name node endn assign s1;
         (token, s3) \<leftarrow> next_token s2;
         Some (token, node1, end1, s3)
       }
     }"

partial_function (option) decl_loop :: "finsh_env \<Rightarrow> finsh_type \<Rightarrow> finsh_token_type \<Rightarrow> nat option \<Rightarrow> nat option \<Rightarrow> finsh \<Rightarrow>
    (nat option \<times> finsh) option" where
  "decl_loop e type token node endn s =
     (if token = finsh_token_type_comma
      then Option.bind (declare_var type s) (\<lambda>(name, s1).
           Option.bind (next_token s1) (\<lambda>(token1, s2).
             if token1 = finsh_token_type_assign
             then Option.bind (decl_init e name node endn s2) (\<lambda>(token2, node1, end1, s3). decl_loop e type token2 node1 end1 s3)
             else decl_loop e type token1 node endn s2))
      else Some (node, check_token token finsh_token_type_semicolon s))"

definition proc_variable_decl :: "finsh_env \<Rightarrow> finsh \<Rightarrow> (nat option \<times> finsh) option" where
  "proc_variable_decl e s =
     do {
       (type, s1) \<leftarrow> proc_type s;
       (name, s2) \<leftarrow> declare_var type s1;
       (token, s3) \<leftarrow> next_token s2;
       if token = finsh_token_type_comma then decl_loop e type token None None s3
       else if token = finsh_token_type_assign
       then do {
         (token1, node, endn, s4) \<leftarrow> decl_init e name None None s3;
         decl_loop e type token1 node endn s4
       }
       else if token = finsh_token_type_semicolon then Some (None, s3)
       else Some (None, finsh_error_set FINSH_ERROR_EXPECT_TYPE s3)
     }"

subsection \<open>finsh_parser_run\<close>

definition is_declaration :: "finsh_token_type \<Rightarrow> bool" where
  "is_declaration token \<longleftrightarrow> is_base_type token \<or> token = finsh_token_type_unsigned"

text \<open>
  One statement behind \<open>node\<close>, the last one there is; an expression that does not begin with an
  identifier and has no node lets a token be skipped.
\<close>

definition parser_statement :: "finsh_env \<Rightarrow> nat option \<Rightarrow> finsh_token_type \<Rightarrow> finsh \<Rightarrow> (nat option \<times> finsh) option" where
  "parser_statement e node token s =
     do {
       (new, s1) \<leftarrow> (if is_declaration token then proc_variable_decl e (token_replay s) else proc_expr_statement e (token_replay s));
       if parser_root s \<noteq> None
       then (case node of None \<Rightarrow> None
             | Some i \<Rightarrow>
                 do {
                   let s2 = upd_node i (\<lambda>n. n\<lparr>sibling := new\<rparr>) s1;
                   s3 \<leftarrow> (if new = None \<and> token \<noteq> finsh_token_type_identifier \<and> \<not> is_declaration token
                          then map_option snd (next_token s2) else Some s2);
                   Some (if new \<noteq> None then new else node, s3)
                 })
       else Some (new, s1\<lparr>parser_root := new\<rparr>)
     }"

partial_function (option) parser_loop :: "finsh_env \<Rightarrow> nat option \<Rightarrow> finsh_token_type \<Rightarrow> finsh \<Rightarrow> finsh option" where
  "parser_loop e node token s =
     (if token \<noteq> finsh_token_type_eof \<and> token \<noteq> finsh_token_type_bad
      then Option.bind (parser_statement e node token s) (\<lambda>(node1, s1).
           if parser_root s1 = None then Some s1
           else Option.bind (next_token s1) (\<lambda>(token1, s2). parser_loop e node1 token1 s2))
      else Some s)"

definition finsh_parser_run :: "finsh_env \<Rightarrow> u8 list \<Rightarrow> finsh \<Rightarrow> finsh option" where
  "finsh_parser_run e str s =
     do {
       (token, s1) \<leftarrow> next_token (s\<lparr>parser_token := finsh_token_init str\<rparr>);
       parser_loop e None token s1
     }"

definition finsh_parser_init :: "finsh \<Rightarrow> finsh" where
  "finsh_parser_init s = s\<lparr>parser_token := finsh_token_init [], parser_root := None\<rparr>"

subsection \<open>finsh_init.c, and a line of the shell\<close>

definition finsh_init :: "finsh_env \<Rightarrow> finsh \<Rightarrow> finsh option" where
  "finsh_init e s = finsh_heap_init e (finsh_error_init (finsh_var_init e (finsh_node_init (finsh_parser_init s))))"

definition finsh_flush :: "finsh \<Rightarrow> finsh" where
  "finsh_flush s = finsh_error_init (finsh_node_init (finsh_parser_init s))"

definition finsh_reset :: "finsh_env \<Rightarrow> finsh \<Rightarrow> finsh option" where
  "finsh_reset e s = finsh_heap_init e (finsh_error_init (finsh_var_init e (finsh_node_init s)))"

text \<open>
  \<^verbatim>\<open>finsh_run_line\<close> of \<^verbatim>\<open>shell.c\<close>: the result is the value that is printed, if any, or the error
  number.
\<close>

definition finsh_compile_line :: "finsh_env \<Rightarrow> finsh \<Rightarrow> finsh option" where
  "finsh_compile_line e s =
     do {
       (ns, err, v) \<leftarrow> finsh_compiler_run (symbols_of e s) (parser_root s) (global_node_table s) (global_errno s) (machine s);
       Some (s\<lparr>global_node_table := ns, global_errno := err, machine := v\<rparr>)
     }"

definition finsh_run_line :: "finsh_env \<Rightarrow> callee \<Rightarrow> u8 list \<Rightarrow> finsh \<Rightarrow> ((u8 + u32) \<times> finsh) option" where
  "finsh_run_line e f str s =
     do {
       s1 \<leftarrow> finsh_parser_run e str s;
       s2 \<leftarrow> (if global_errno s1 = FINSH_ERROR_OK then finsh_compile_line e s1 else Some s1);
       if global_errno s2 = FINSH_ERROR_OK
       then do {
         v \<leftarrow> finsh_vm_run f (machine s2);
         Some (Inr (finsh_stack_bottom v), finsh_flush (s2\<lparr>machine := v\<rparr>))
       }
       else Some (Inl (global_errno s2), finsh_flush s2)
     }"

end
