(* ===== verification/Finsh_Correct.thy ===== *)
theory Finsh_Correct
  imports Finsh_Compiler
begin

text \<open>
  What the expressions of the shell mean, and that the compiled code computes it: a syntax of
  expressions, the tree of nodes of each, its value and effect on memory by recursion over the
  syntax, and the correctness of \<^verbatim>\<open>finsh_type_check\<close>, \<^verbatim>\<open>finsh_compile\<close> and the virtual machine together.
\<close>

subsection \<open>Expressions\<close>

datatype binop = Op_add | Op_sub | Op_mul | Op_div | Op_mod | Op_and | Op_or | Op_xor | Op_shl | Op_shr

datatype expr =
    Char_const u8
  | Int_const u32
  | Long_const u32
  | String_const u32
  | Variable ident
  | Function nat
  | Binary binop expr expr
  | Complement expr
  | Assign ident expr
  | Assign_at expr expr
  | Pre_inc bool ident
  | Post_inc bool ident
  | Call_fun nat "expr list"
  | Deref expr
  | Address ident

text \<open>The \<^verbatim>\<open>bool\<close> of an increment is its direction.\<close>

definition id_type :: "symbols \<Rightarrow> ident \<Rightarrow> finsh_type" where
  "id_type sy x = (case x of Id_var i \<Rightarrow> var_type sy i | Id_sysvar i \<Rightarrow> sysvar_type sy i | _ \<Rightarrow> finsh_type_unknown)"

definition id_addr :: "symbols \<Rightarrow> ident \<Rightarrow> u32" where
  "id_addr sy x = (case x of Id_sysvar i \<Rightarrow> sysvar_var sy i | _ \<Rightarrow> id_value sy x)"

definition id_width :: "symbols \<Rightarrow> ident \<Rightarrow> u8" where
  "id_width sy x = (case type_width (id_type sy x) of None \<Rightarrow> 0 | Some w \<Rightarrow> w)"

text \<open>The width the compiler gives an expression, and the width of what the slot then holds.\<close>

fun width :: "symbols \<Rightarrow> expr \<Rightarrow> u8" where
  "width sy (Char_const c) = FINSH_DATA_TYPE_BYTE"
| "width sy (Int_const x) = FINSH_DATA_TYPE_DWORD"
| "width sy (Long_const x) = FINSH_DATA_TYPE_DWORD"
| "width sy (String_const x) = FINSH_DATA_TYPE_DWORD"
| "width sy (Variable x) = id_width sy x"
| "width sy (Function i) = FINSH_DATA_TYPE_VOID"
| "width sy (Binary b x y) = width sy x"
| "width sy (Complement x) = width sy x"
| "width sy (Assign x y) = id_width sy x"
| "width sy (Assign_at p y) = width sy p"
| "width sy (Pre_inc d x) = id_width sy x"
| "width sy (Post_inc d x) = id_width sy x"
| "width sy (Call_fun i ps) = FINSH_DATA_TYPE_VOID"
| "width sy (Deref p) = width sy p"
| "width sy (Address x) = id_width sy x"

definition holds :: "symbols \<Rightarrow> expr \<Rightarrow> u8" where
  "holds sy x = (case x of Function i \<Rightarrow> FINSH_DATA_TYPE_DWORD | Call_fun i ps \<Rightarrow> FINSH_DATA_TYPE_DWORD
     | Address i \<Rightarrow> FINSH_DATA_TYPE_DWORD | _ \<Rightarrow> width sy x)"

text \<open>
  Which expressions are compiled as their tree says (\<open>expr_wf\<close>): the type of each identifier is one the
  compiler loads, a pointer is as wide as a slot, an incremented identifier is a variable of the
  shell.  Which are also translated right (\<open>expr_ok\<close>): the right operand is not narrower than the
  left one, and a parameter is as wide as a slot.
\<close>

definition id_ok :: "symbols \<Rightarrow> ident \<Rightarrow> bool" where
  "id_ok sy x \<longleftrightarrow> (case x of Id_var i \<Rightarrow> True | Id_sysvar i \<Rightarrow> True | _ \<Rightarrow> False) \<and> load_code (id_type sy x) \<noteq> None"

fun is_var :: "ident \<Rightarrow> bool" where
  "is_var (Id_var i) = True"
| "is_var _ = False"

fun expr_wf :: "symbols \<Rightarrow> expr \<Rightarrow> bool" where
  "expr_wf sy (Variable x) = id_ok sy x"
| "expr_wf sy (Binary b x y) = (expr_wf sy x \<and> expr_wf sy y)"
| "expr_wf sy (Complement x) = expr_wf sy x"
| "expr_wf sy (Assign x y) = (id_ok sy x \<and> expr_wf sy y)"
| "expr_wf sy (Assign_at p y) = (expr_wf sy p \<and> expr_wf sy y \<and> width sy p = FINSH_DATA_TYPE_DWORD)"
| "expr_wf sy (Pre_inc d x) = (id_ok sy x \<and> is_var x)"
| "expr_wf sy (Post_inc d x) = (id_ok sy x \<and> is_var x)"
| "expr_wf sy (Call_fun i ps) = (\<forall>p \<in> set ps. expr_wf sy p)"
| "expr_wf sy (Deref p) = (expr_wf sy p \<and> width sy p = FINSH_DATA_TYPE_DWORD)"
| "expr_wf sy (Address x) = id_ok sy x"
| "expr_wf sy _ = True"

fun expr_ok :: "symbols \<Rightarrow> expr \<Rightarrow> bool" where
  "expr_ok sy (Variable x) = id_ok sy x"
| "expr_ok sy (Binary b x y) = (expr_ok sy x \<and> expr_ok sy y \<and> width sy x \<noteq> 0 \<and> width sy x \<le> holds sy y)"
| "expr_ok sy (Complement x) = (expr_ok sy x \<and> width sy x \<noteq> 0)"
| "expr_ok sy (Assign x y) = (id_ok sy x \<and> expr_ok sy y \<and> id_width sy x \<le> holds sy y)"
| "expr_ok sy (Assign_at p y) = (expr_ok sy p \<and> expr_ok sy y \<and> width sy p = FINSH_DATA_TYPE_DWORD \<and> holds sy y = FINSH_DATA_TYPE_DWORD)"
| "expr_ok sy (Pre_inc d x) = (id_ok sy x \<and> is_var x)"
| "expr_ok sy (Post_inc d x) = (id_ok sy x \<and> is_var x)"
| "expr_ok sy (Call_fun i ps) = ((\<forall>p \<in> set ps. expr_ok sy p \<and> holds sy p = FINSH_DATA_TYPE_DWORD) \<and> length ps \<le> 16)"
| "expr_ok sy (Deref p) = (expr_ok sy p \<and> width sy p = FINSH_DATA_TYPE_DWORD)"
| "expr_ok sy (Address x) = id_ok sy x"
| "expr_ok sy _ = True"

subsection \<open>Meaning\<close>

fun op_fun :: "binop \<Rightarrow> int \<Rightarrow> int \<Rightarrow> int option" where
  "op_fun Op_add = total_op (+)"
| "op_fun Op_sub = total_op (-)"
| "op_fun Op_mul = total_op (*)"
| "op_fun Op_div = c_div"
| "op_fun Op_mod = c_mod"
| "op_fun Op_and = total_op (AND)"
| "op_fun Op_or = total_op (OR)"
| "op_fun Op_xor = total_op (XOR)"
| "op_fun Op_shl = c_shl"
| "op_fun Op_shr = c_shr"

text \<open>A value is what the low bytes of a word say, by the width.\<close>

definition cut :: "u8 \<Rightarrow> u32 \<Rightarrow> u32" where
  "cut w x = (if w = FINSH_DATA_TYPE_BYTE then ucast (char_value x) else if w = FINSH_DATA_TYPE_WORD then scast (short_value x) else x)"

definition as_int :: "u8 \<Rightarrow> u32 \<Rightarrow> int" where
  "as_int w x = (if w = FINSH_DATA_TYPE_BYTE then uint (char_value x) else if w = FINSH_DATA_TYPE_WORD then sint (short_value x) else sint x)"

definition load :: "u8 \<Rightarrow> u32 \<Rightarrow> memory \<Rightarrow> u32" where
  "load w a m = (if w = FINSH_DATA_TYPE_BYTE then ucast (m a) else if w = FINSH_DATA_TYPE_WORD then scast (get16 a m) else get32 a m)"

definition save :: "u8 \<Rightarrow> u32 \<Rightarrow> u32 \<Rightarrow> memory \<Rightarrow> memory" where
  "save w a x m = (if w = FINSH_DATA_TYPE_BYTE then m(a := char_value x)
     else if w = FINSH_DATA_TYPE_WORD then put16 a (short_value x) m else put32 a x m)"

definition binary :: "binop \<Rightarrow> u8 \<Rightarrow> u32 \<Rightarrow> u32 \<Rightarrow> u32 option" where
  "binary b w x y = map_option (\<lambda>r. cut w (word_of_int r)) (op_fun b (as_int w x) (as_int w y))"

definition step_by :: "bool \<Rightarrow> u32 \<Rightarrow> u32" where
  "step_by up x = (if up then x + 1 else x - 1)"

fun eval :: "symbols \<Rightarrow> callee \<Rightarrow> expr \<Rightarrow> memory \<Rightarrow> (u32 \<times> memory) option" and
  evals :: "symbols \<Rightarrow> callee \<Rightarrow> expr list \<Rightarrow> memory \<Rightarrow> (u32 list \<times> memory) option" where
  "eval sy f (Char_const c) m = Some (ucast c, m)"
| "eval sy f (Int_const x) m = Some (x, m)"
| "eval sy f (Long_const x) m = Some (x, m)"
| "eval sy f (String_const x) m = Some (x, m)"
| "eval sy f (Variable x) m = Some (load (id_width sy x) (id_addr sy x) m, m)"
| "eval sy f (Function i) m = Some (syscall_func sy i, m)"
| "eval sy f (Binary b x y) m =
     do { (u, m1) \<leftarrow> eval sy f x m; (v, m2) \<leftarrow> eval sy f y m1; r \<leftarrow> binary b (width sy x) u v; Some (r, m2) }"
| "eval sy f (Complement x) m = do { (u, m1) \<leftarrow> eval sy f x m; Some (cut (width sy x) (NOT u), m1) }"
| "eval sy f (Assign x y) m =
     do { (v, m1) \<leftarrow> eval sy f y m; Some (cut (id_width sy x) v, save (id_width sy x) (id_addr sy x) v m1) }"
| "eval sy f (Assign_at p y) m =
     do { (a, m1) \<leftarrow> eval sy f p m; (v, m2) \<leftarrow> eval sy f y m1; Some (v, put32 a v m2) }"
| "eval sy f (Pre_inc d x) m =
     (let v = cut (id_width sy x) (step_by d (load (id_width sy x) (id_addr sy x) m))
      in Some (v, save (id_width sy x) (id_addr sy x) v m))"
| "eval sy f (Post_inc d x) m =
     (let v = load (id_width sy x) (id_addr sy x) m in Some (v, save (id_width sy x) (id_addr sy x) (step_by d v) m))"
| "eval sy f (Call_fun i ps) m = do { (vs, m1) \<leftarrow> evals sy f ps m; f (syscall_func sy i) vs m1 }"
| "eval sy f (Deref p) m = do { (a, m1) \<leftarrow> eval sy f p m; Some (get32 a m1, m1) }"
| "eval sy f (Address x) m = Some (id_addr sy x, m)"
| "evals sy f [] m = Some ([], m)"
| "evals sy f (p # ps) m = do { (v, m1) \<leftarrow> eval sy f p m; (vs, m2) \<leftarrow> evals sy f ps m1; Some (v # vs, m2) }"

subsection \<open>Trees\<close>

datatype tree = Tree finsh_node "tree list"

definition leaf :: "finsh_node_type \<Rightarrow> finsh_node" where
  "leaf t = \<lparr>node_type = t, data_type = 0, idtype = 0, node_value = 0, node_id = Null_id, sibling = None, child = None\<rparr>"

fun op_node :: "binop \<Rightarrow> finsh_node_type" where
  "op_node Op_add = FINSH_NODE_SYS_ADD"
| "op_node Op_sub = FINSH_NODE_SYS_SUB"
| "op_node Op_mul = FINSH_NODE_SYS_MUL"
| "op_node Op_div = FINSH_NODE_SYS_DIV"
| "op_node Op_mod = FINSH_NODE_SYS_MOD"
| "op_node Op_and = FINSH_NODE_SYS_AND"
| "op_node Op_or = FINSH_NODE_SYS_OR"
| "op_node Op_xor = FINSH_NODE_SYS_XOR"
| "op_node Op_shl = FINSH_NODE_SYS_SHL"
| "op_node Op_shr = FINSH_NODE_SYS_SHR"

fun id_kind :: "ident \<Rightarrow> u8" where
  "id_kind (Id_var i) = FINSH_IDTYPE_VAR"
| "id_kind (Id_sysvar i) = FINSH_IDTYPE_SYSVAR"
| "id_kind (Id_syscall i) = FINSH_IDTYPE_SYSCALL"
| "id_kind Null_id = 0"

definition id_leaf :: "ident \<Rightarrow> finsh_node" where
  "id_leaf x = (leaf FINSH_NODE_ID)\<lparr>node_id := x, idtype := id_kind x\<rparr>"

text \<open>The tree the parser makes of an expression.\<close>

fun tree_of :: "expr \<Rightarrow> tree" where
  "tree_of (Char_const c) = Tree ((leaf FINSH_NODE_VALUE_CHAR)\<lparr>node_value := ucast c\<rparr>) []"
| "tree_of (Int_const x) = Tree ((leaf FINSH_NODE_VALUE_INT)\<lparr>node_value := x\<rparr>) []"
| "tree_of (Long_const x) = Tree ((leaf FINSH_NODE_VALUE_LONG)\<lparr>node_value := x\<rparr>) []"
| "tree_of (String_const x) = Tree ((leaf FINSH_NODE_VALUE_STRING)\<lparr>node_value := x\<rparr>) []"
| "tree_of (Variable x) = Tree (id_leaf x) []"
| "tree_of (Function i) = Tree (id_leaf (Id_syscall i)) []"
| "tree_of (Binary b x y) = Tree (leaf (op_node b)) [tree_of x, tree_of y]"
| "tree_of (Complement x) = Tree (leaf FINSH_NODE_SYS_BITWISE) [tree_of x]"
| "tree_of (Assign x y) = Tree (leaf FINSH_NODE_SYS_ASSIGN) [Tree (id_leaf x) [], tree_of y]"
| "tree_of (Assign_at p y) = Tree (leaf FINSH_NODE_SYS_ASSIGN) [Tree (leaf FINSH_NODE_SYS_GETVALUE) [tree_of p], tree_of y]"
| "tree_of (Pre_inc d x) = Tree (leaf (if d then FINSH_NODE_SYS_PREINC else FINSH_NODE_SYS_PREDEC)) [Tree (id_leaf x) []]"
| "tree_of (Post_inc d x) = Tree (leaf (if d then FINSH_NODE_SYS_INC else FINSH_NODE_SYS_DEC)) [Tree (id_leaf x) []]"
| "tree_of (Call_fun i ps) = Tree (leaf FINSH_NODE_SYS_FUNC) (Tree (id_leaf (Id_syscall i)) [] # map tree_of ps)"
| "tree_of (Deref p) = Tree (leaf FINSH_NODE_SYS_GETVALUE) [tree_of p]"
| "tree_of (Address x) = Tree (leaf FINSH_NODE_SYS_GETADDR) [Tree (id_leaf x) []]"

text \<open>Trees in the node table, with the indices they take.\<close>

definition attrs :: "finsh_node \<Rightarrow> finsh_node" where
  "attrs n = n\<lparr>sibling := None, child := None\<rparr>"

fun forest :: "nodes \<Rightarrow> nat option \<Rightarrow> tree list \<Rightarrow> nat list \<Rightarrow> bool" where
  "forest ns p [] F \<longleftrightarrow> p = None \<and> F = []"
| "forest ns p (Tree a cs # ts) F \<longleftrightarrow>
     (\<exists>i F1 F2. p = Some i \<and> attrs (ns i) = a \<and> forest ns (child (ns i)) cs F1 \<and> forest ns (sibling (ns i)) ts F2 \<and> F = i # F1 @ F2)"

lemma forest_cong: "(\<And>i. i \<in> set F \<Longrightarrow> ns' i = ns i) \<Longrightarrow> forest ns p ts F \<Longrightarrow> forest ns' p ts F"
proof (induction ns p ts F rule: forest.induct)
  case (2 ns p a cs ts F)
  then obtain i F1 F2 where F: "p = Some i" "attrs (ns i) = a" "forest ns (child (ns i)) cs F1"
    "forest ns (sibling (ns i)) ts F2" "F = i # F1 @ F2" by auto
  then have "forest ns' (child (ns i)) cs F1" "forest ns' (sibling (ns i)) ts F2" "ns' i = ns i"
    using 2(1) [OF _ F(3)] 2(2) [OF _ F(4)] 2(3) by auto
  then show ?case using F by auto
qed simp

fun root :: "tree \<Rightarrow> finsh_node" where
  "root (Tree a cs) = a"

fun root_of :: "tree list \<Rightarrow> finsh_node option" where
  "root_of [] = None"
| "root_of (t # ts) = Some (root t)"

lemma forest_root: "forest ns p ts F \<Longrightarrow> map_option (attrs \<circ> ns) p = root_of ts"
  by (cases ts; cases "hd ts") auto

lemma attrs_simps [simp]:
  "node_type (attrs n) = node_type n" "data_type (attrs n) = data_type n" "idtype (attrs n) = idtype n"
  "node_value (attrs n) = node_value n" "node_id (attrs n) = node_id n" "attrs (attrs n) = attrs n"
  "attrs (n\<lparr>data_type := w\<rparr>) = (attrs n)\<lparr>data_type := w\<rparr>" "attrs (n\<lparr>idtype := u\<rparr>) = (attrs n)\<lparr>idtype := u\<rparr>"
  by (simp_all add: attrs_def)

lemma check_leaf_attrs:
  "check_leaf e (attrs n, err) = map_option (\<lambda>(n, er). (attrs n, er)) (check_leaf e (n, err))"
  by (auto simp: check_leaf_def set_width_def split: finsh_node_type.splits ident.splits option.splits)

lemma check_node_attrs:
  "check_node e ad (attrs n) (map_option attrs c) err = map_option (\<lambda>(n, er). (attrs n, er)) (check_node e ad n c err)"
  using check_leaf_attrs [of e "n\<lparr>idtype := idtype n OR ad\<rparr>" err] check_leaf_attrs [of e n err]
  by (auto simp: check_node_def Let_def split: option.splits)

lemma check_leaf_links: "check_leaf e (n, err) = Some (n', er) \<Longrightarrow> sibling n' = sibling n \<and> child n' = child n"
  by (auto simp: check_leaf_def set_width_def split: finsh_node_type.splits ident.splits option.splits if_splits)

lemma check_node_links: "check_node e ad n c err = Some (n', er) \<Longrightarrow> sibling n' = sibling n \<and> child n' = child n"
  by (auto simp: check_node_def Let_def split: option.splits if_splits dest!: check_leaf_links)

text \<open>The type check of a forest, as it goes through the tree.\<close>

fun type_check :: "symbols \<Rightarrow> u8 \<Rightarrow> tree list \<Rightarrow> u8 \<Rightarrow> (tree list \<times> u8) option" where
  "type_check e ad [] err = Some ([], err)"
| "type_check e ad (Tree a cs # ts) err =
     do {
       (cs1, e1) \<leftarrow> type_check e (child_addr (node_type a) ad) cs err;
       (ts1, e2) \<leftarrow> type_check e FINSH_NODE_VALUE ts e1;
       (a1, e3) \<leftarrow> check_node e ad a (root_of cs1) e2;
       Some (Tree a1 cs1 # ts1, e3)
     }"

lemma type_check_forest:
  "forest ns p ts F \<Longrightarrow> distinct F \<Longrightarrow> type_check e ad ts err = Some (ts', err') \<Longrightarrow>
   \<exists>ns'. finsh_type_check e p ad (ns, err) = Some (ns', err') \<and> forest ns' p ts' F \<and> (\<forall>i. i \<notin> set F \<longrightarrow> ns' i = ns i)"
proof (induction e ad ts err arbitrary: ns p F ts' err' rule: type_check.induct)
  case (1 e ad err)
  then show ?case by (intro exI [of _ ns]) (simp add: finsh_type_check.simps)
next
  case (2 e ad a cs ts err)
  from 2(3) obtain i F1 F2 where F: "p = Some i" "attrs (ns i) = a" "forest ns (child (ns i)) cs F1"
    "forest ns (sibling (ns i)) ts F2" "F = i # F1 @ F2" by auto
  have d: "distinct F1" "distinct F2" "i \<notin> set F1" "i \<notin> set F2" "set F1 \<inter> set F2 = {}" using 2(4) F(5) by auto
  obtain cs1 e1 ts1 e2 a1 where T: "type_check e (child_addr (node_type a) ad) cs err = Some (cs1, e1)"
    "type_check e 0 ts e1 = Some (ts1, e2)" "check_node e ad a (root_of cs1) e2 = Some (a1, err')" "ts' = Tree a1 cs1 # ts1"
    using 2(5) by (auto split: bind_splits)
  from 2(1) [OF F(3) d(1) T(1)] obtain ns1 where
    n1: "finsh_type_check e (child (ns i)) (child_addr (node_type a) ad) (ns, err) = Some (ns1, e1)"
      "forest ns1 (child (ns i)) cs1 F1" "\<forall>i. i \<notin> set F1 \<longrightarrow> ns1 i = ns i" by auto
  have i1: "ns1 i = ns i" using n1(3) d(3) by simp
  have "forest ns1 (sibling (ns i)) ts F2" by (rule forest_cong [OF _ F(4)]) (use n1(3) d(5) in auto)
  from 2(2) [OF T(1) refl this d(2) T(2)] obtain ns2 where
    n2: "finsh_type_check e (sibling (ns i)) 0 (ns1, e1) = Some (ns2, e2)"
      "forest ns2 (sibling (ns i)) ts1 F2" "\<forall>i. i \<notin> set F2 \<longrightarrow> ns2 i = ns1 i" by auto
  have i2: "ns2 i = ns i" using n2(3) d(4) i1 by simp
  have c2: "forest ns2 (child (ns i)) cs1 F1" by (rule forest_cong [OF _ n1(2)]) (use n2(3) d(5) in auto)
  have "check_node e ad (attrs (ns i)) (map_option attrs (map_option ns2 (child (ns i)))) e2 = Some (a1, err')"
    using T(3) F(2) forest_root [OF c2] by (simp add: option.map_comp)
  then obtain n where n: "check_node e ad (ns i) (map_option ns2 (child (ns i))) e2 = Some (n, err')" "attrs n = a1"
    unfolding check_node_attrs by auto
  have l: "sibling n = sibling (ns i)" "child n = child (ns i)" using check_node_links [OF n(1)] by simp_all
  let ?ns = "ns2(i := n)"
  have "finsh_type_check e p ad (ns, err) = Some (?ns, err')"
    using n1(1) n2(1) n(1) i1 i2 F(1,2) by (subst finsh_type_check.simps) auto
  moreover have "forest ?ns (child (ns i)) cs1 F1" by (rule forest_cong [OF _ c2]) (use d(3) in auto)
  moreover have "forest ?ns (sibling (ns i)) ts1 F2" by (rule forest_cong [OF _ n2(2)]) (use d(4) in auto)
  ultimately have "forest ?ns p ts' F"
    unfolding F(1,5) T(4) forest.simps by (intro exI [of _ i] exI [of _ F1] exI [of _ F2]) (simp add: l n(2))
  moreover have "\<forall>j. j \<notin> set F \<longrightarrow> ?ns j = ns j" using F(5) n1(3) n2(3) by auto
  ultimately show ?case using \<open>finsh_type_check e p ad (ns, err) = Some (?ns, err')\<close> by blast
qed

subsection \<open>What the type check finds\<close>

definition ann_id :: "symbols \<Rightarrow> u8 \<Rightarrow> ident \<Rightarrow> tree" where
  "ann_id sy ad x = Tree ((id_leaf x)\<lparr>idtype := id_kind x OR ad, data_type := id_width sy x\<rparr>) []"

fun annotate :: "symbols \<Rightarrow> expr \<Rightarrow> tree" where
  "annotate sy (Char_const c) = Tree ((leaf FINSH_NODE_VALUE_CHAR)\<lparr>node_value := ucast c, data_type := FINSH_DATA_TYPE_BYTE\<rparr>) []"
| "annotate sy (Int_const x) = Tree ((leaf FINSH_NODE_VALUE_INT)\<lparr>node_value := x, data_type := FINSH_DATA_TYPE_DWORD\<rparr>) []"
| "annotate sy (Long_const x) = Tree ((leaf FINSH_NODE_VALUE_LONG)\<lparr>node_value := x, data_type := FINSH_DATA_TYPE_DWORD\<rparr>) []"
| "annotate sy (String_const x) = Tree ((leaf FINSH_NODE_VALUE_STRING)\<lparr>node_value := x, data_type := FINSH_DATA_TYPE_DWORD\<rparr>) []"
| "annotate sy (Variable x) = ann_id sy 0 x"
| "annotate sy (Function i) = Tree (id_leaf (Id_syscall i)) []"
| "annotate sy (Binary b x y) = Tree ((leaf (op_node b))\<lparr>data_type := width sy x\<rparr>) [annotate sy x, annotate sy y]"
| "annotate sy (Complement x) = Tree ((leaf FINSH_NODE_SYS_BITWISE)\<lparr>data_type := width sy x\<rparr>) [annotate sy x]"
| "annotate sy (Assign x y) = Tree ((leaf FINSH_NODE_SYS_ASSIGN)\<lparr>data_type := id_width sy x\<rparr>) [ann_id sy FINSH_IDTYPE_ADDRESS x, annotate sy y]"
| "annotate sy (Assign_at p y) = Tree ((leaf FINSH_NODE_SYS_ASSIGN)\<lparr>data_type := width sy p\<rparr>)
     [Tree ((leaf FINSH_NODE_SYS_GETVALUE)\<lparr>idtype := FINSH_IDTYPE_ADDRESS, data_type := width sy p\<rparr>) [annotate sy p], annotate sy y]"
| "annotate sy (Pre_inc d x) = Tree ((leaf (if d then FINSH_NODE_SYS_PREINC else FINSH_NODE_SYS_PREDEC))\<lparr>data_type := id_width sy x\<rparr>)
     [ann_id sy FINSH_IDTYPE_ADDRESS x]"
| "annotate sy (Post_inc d x) = Tree ((leaf (if d then FINSH_NODE_SYS_INC else FINSH_NODE_SYS_DEC))\<lparr>data_type := id_width sy x\<rparr>) [ann_id sy 0 x]"
| "annotate sy (Call_fun i ps) = Tree (leaf FINSH_NODE_SYS_FUNC) (Tree (id_leaf (Id_syscall i)) [] # map (annotate sy) ps)"
| "annotate sy (Deref p) = Tree ((leaf FINSH_NODE_SYS_GETVALUE)\<lparr>data_type := width sy p\<rparr>) [annotate sy p]"
| "annotate sy (Address x) = Tree ((leaf FINSH_NODE_SYS_GETADDR)\<lparr>data_type := id_width sy x\<rparr>) [ann_id sy FINSH_IDTYPE_ADDRESS x]"

lemma leaf_sel [simp]:
  "node_type (leaf t) = t" "data_type (leaf t) = 0" "idtype (leaf t) = 0" "node_id (leaf t) = Null_id" "node_value (leaf t) = 0"
  by (simp_all add: leaf_def)

lemma id_leaf_sel [simp]:
  "node_type (id_leaf x) = FINSH_NODE_ID" "data_type (id_leaf x) = 0" "idtype (id_leaf x) = id_kind x" "node_id (id_leaf x) = x"
  "node_value (id_leaf x) = 0"
  by (simp_all add: id_leaf_def)

lemma load_code_width: "load_code t \<noteq> None \<Longrightarrow> \<exists>w. type_width t = Some w \<and> w \<in> {1, 2, 3}"
  by (cases t) (auto simp: load_code_def type_width_def)

lemma id_ok_width: "id_ok sy x \<Longrightarrow> id_width sy x \<in> {1, 2, 3} \<and> type_width (id_type sy x) = Some (id_width sy x)"
  using load_code_width [of "id_type sy x"] by (auto simp: id_ok_def id_width_def)

lemma check_id: "id_ok sy x \<Longrightarrow> ad = 0 \<or> ad = FINSH_IDTYPE_ADDRESS \<Longrightarrow>
  check_node sy ad (id_leaf x) None err = Some (root (ann_id sy ad x), err)"
  using id_ok_width [of sy x]
  by (auto simp: check_node_def check_leaf_def id_ok_def ann_id_def set_width_def id_type_def split: ident.splits)

lemma root_annotate: "data_type (root (annotate sy x)) = width sy x"
  by (cases x) (auto simp: ann_id_def)

lemma child_addrs:
  "child_addr (op_node b) 0 = 0" "child_addr FINSH_NODE_ID ad = ad" "child_addr FINSH_NODE_SYS_FUNC 0 = 0"
  "child_addr FINSH_NODE_VALUE_CHAR 0 = 0" "child_addr FINSH_NODE_VALUE_INT 0 = 0" "child_addr FINSH_NODE_VALUE_LONG 0 = 0"
  "child_addr FINSH_NODE_VALUE_STRING 0 = 0" "child_addr FINSH_NODE_SYS_BITWISE 0 = 0"
  "child_addr FINSH_NODE_SYS_ASSIGN ad = FINSH_IDTYPE_ADDRESS" "child_addr FINSH_NODE_SYS_GETADDR ad = FINSH_IDTYPE_ADDRESS"
  "child_addr FINSH_NODE_SYS_PREINC ad = FINSH_IDTYPE_ADDRESS" "child_addr FINSH_NODE_SYS_PREDEC ad = FINSH_IDTYPE_ADDRESS"
  "child_addr FINSH_NODE_SYS_INC 0 = 0" "child_addr FINSH_NODE_SYS_DEC 0 = 0"
  "child_addr FINSH_NODE_SYS_GETVALUE 0 = 0" "child_addr FINSH_NODE_SYS_GETVALUE FINSH_IDTYPE_ADDRESS = 0"
  by (cases b; simp add: child_addr_def)+

lemma check_inner:
  "check_node sy ad (leaf t) (Some c) err = Some ((leaf t)\<lparr>idtype := ad, data_type := data_type c\<rparr>, err)"
  by (simp add: check_node_def)

lemma leaf_idtype [simp]: "(leaf t)\<lparr>idtype := 0\<rparr> = leaf t"
  by (simp add: leaf_def)

lemma check_consts:
  "check_node sy 0 ((leaf FINSH_NODE_VALUE_CHAR)\<lparr>node_value := x\<rparr>) None err =
    Some ((leaf FINSH_NODE_VALUE_CHAR)\<lparr>node_value := x, data_type := FINSH_DATA_TYPE_BYTE\<rparr>, err)"
  "check_node sy 0 ((leaf FINSH_NODE_VALUE_INT)\<lparr>node_value := x\<rparr>) None err =
    Some ((leaf FINSH_NODE_VALUE_INT)\<lparr>node_value := x, data_type := FINSH_DATA_TYPE_DWORD\<rparr>, err)"
  "check_node sy 0 ((leaf FINSH_NODE_VALUE_LONG)\<lparr>node_value := x\<rparr>) None err =
    Some ((leaf FINSH_NODE_VALUE_LONG)\<lparr>node_value := x, data_type := FINSH_DATA_TYPE_DWORD\<rparr>, err)"
  "check_node sy 0 ((leaf FINSH_NODE_VALUE_STRING)\<lparr>node_value := x\<rparr>) None err =
    Some ((leaf FINSH_NODE_VALUE_STRING)\<lparr>node_value := x, data_type := FINSH_DATA_TYPE_DWORD\<rparr>, err)"
  "check_node sy 0 (id_leaf (Id_syscall i)) None err = Some (id_leaf (Id_syscall i), err)"
  by (simp_all add: check_node_def check_leaf_def leaf_def id_leaf_def)

lemma ann_id_simps [simp]: "Tree (root (ann_id sy ad x)) [] = ann_id sy ad x" "data_type (root (ann_id sy ad x)) = id_width sy x"
  by (simp_all add: ann_id_def)

lemma type_check_annotate:
  "expr_wf sy x \<Longrightarrow> type_check sy 0 ts err = Some (ts1, err) \<Longrightarrow> type_check sy 0 (tree_of x # ts) err = Some (annotate sy x # ts1, err)"
proof (induction x arbitrary: ts ts1)
  case (Call_fun i ps)
  have "\<forall>p \<in> set qs. expr_wf sy p \<Longrightarrow> set qs \<subseteq> set ps \<Longrightarrow> type_check sy 0 (map tree_of qs) err = Some (map (annotate sy) qs, err)" for qs
    by (induction qs) (use Call_fun.IH in auto)
  then have "type_check sy 0 (map tree_of ps) err = Some (map (annotate sy) ps, err)" using Call_fun.prems(1) by simp
  then show ?case using Call_fun.prems(2)
    by (simp add: child_addrs check_consts check_inner)
qed (auto simp: child_addrs check_inner root_annotate check_id check_consts)

subsection \<open>The code of a tree\<close>

fun gen_code :: "symbols \<Rightarrow> tree list \<Rightarrow> u8 list option" where
  "gen_code e [] = Some []"
| "gen_code e (Tree a cs # ts) =
     do {
       xs \<leftarrow> gen_code e cs;
       c \<leftarrow> node_code e a (root_of cs) (if cs \<noteq> [] \<and> node_type a = FINSH_NODE_SYS_FUNC then length cs - 1 else 0);
       ys \<leftarrow> (case c of Inl er \<Rightarrow> None | Inr ys \<Rightarrow> Some ys);
       zs \<leftarrow> gen_code e ts;
       Some (xs @ ys @ zs)
     }"

lemma count_siblings_forest: "forest ns p ts F \<Longrightarrow> count_siblings ns p n = Some (n + length ts)"
proof (induction ts arbitrary: p F n)
  case (Cons t ts)
  then show ?case by (cases t) (fastforce simp: count_siblings.simps [of ns p])
qed (simp add: count_siblings.simps)

lemma id_child_attrs [simp]: "id_child (map_option attrs c) = id_child c"
  by (cases c) (simp_all add: id_child_def)

lemma id_code_attrs [simp]: "id_code e (attrs n) = id_code e n"
  by (simp add: id_code_def split: ident.splits)

lemma node_code_attrs: "node_code e (attrs n) (map_option attrs c) k = node_code e n c k"
  by (cases c; cases "node_type n") (simp_all add: node_code_def id_child_def)

lemma code_bytes_append: "code_bytes (xs @ ys) b = Option.bind (code_bytes xs b) (code_bytes ys)"
  by (induction xs arbitrary: b) (simp_all split: bind_splits)

lemma code_bytes_spec:
  "compile_pc b + length xs \<le> FINSH_TEXT_MAX \<Longrightarrow> \<exists>t. code_bytes xs b = Some \<lparr>code_text = t, compile_pc = compile_pc b + length xs\<rparr> \<and>
     (\<forall>i < length xs. t (compile_pc b + i) = xs ! i) \<and> (\<forall>j. j < compile_pc b \<or> compile_pc b + length xs \<le> j \<longrightarrow> t j = code_text b j)"
proof (induction xs arbitrary: b)
  case Nil
  then show ?case by (cases b) auto
next
  case (Cons x xs)
  let ?b = "b\<lparr>code_text := (code_text b)(compile_pc b := x), compile_pc := compile_pc b + 1\<rparr>"
  have "compile_pc ?b + length xs \<le> FINSH_TEXT_MAX" using Cons.prems by simp
  from Cons.IH [OF this] obtain t where t: "code_bytes xs ?b = Some \<lparr>code_text = t, compile_pc = compile_pc ?b + length xs\<rparr>"
    "\<forall>i < length xs. t (compile_pc ?b + i) = xs ! i" "\<forall>j. j < compile_pc ?b \<or> compile_pc ?b + length xs \<le> j \<longrightarrow> t j = code_text ?b j" by blast
  have "t (compile_pc b + i) = (x # xs) ! i" if "i < length (x # xs)" for i
    using that t(2,3) by (cases i) (auto simp: add.assoc dest: spec [of _ "i - 1"])
  moreover have "t j = code_text b j" if "j < compile_pc b \<or> compile_pc b + length (x # xs) \<le> j" for j using that t(3) by auto
  moreover have "code_bytes (x # xs) b = Some \<lparr>code_text = t, compile_pc = compile_pc b + length (x # xs)\<rparr>"
    using t(1) Cons.prems by (simp add: finsh_code_byte_def)
  ultimately show ?case by blast
qed

lemma compile_forest:
  "forest ns p ts F \<Longrightarrow> gen_code e ts = Some xs \<Longrightarrow> finsh_compile e ns p (b, err) = map_option (\<lambda>b'. (b', err)) (code_bytes xs b)"
proof (induction e ts arbitrary: p F xs b rule: gen_code.induct)
  case (1 e)
  then show ?case by (simp add: finsh_compile.simps)
next
  case (2 e a cs ts)
  from 2(3) obtain i F1 F2 where F: "p = Some i" "attrs (ns i) = a" "forest ns (child (ns i)) cs F1"
    "forest ns (sibling (ns i)) ts F2" by auto
  define k where "k = (if cs \<noteq> [] \<and> node_type a = FINSH_NODE_SYS_FUNC then length cs - 1 else 0)"
  obtain us ys zs where G: "gen_code e cs = Some us" "node_code e a (root_of cs) k = Some (Inr ys)" "gen_code e ts = Some zs"
    "xs = us @ ys @ zs" using 2(4) unfolding k_def by (auto split: bind_splits sum.splits)
  have ih1: "finsh_compile e ns (child (ns i)) (b, err) = map_option (\<lambda>b'. (b', err)) (code_bytes us b)" by (rule 2(1) [OF F(3) G(1)])
  have ih2: "finsh_compile e ns (sibling (ns i)) (b', err) = map_option (\<lambda>b'. (b', err)) (code_bytes zs b')" for b'
    using 2(2) [OF G(1) G(2) [unfolded k_def] _ F(4) G(3)] by simp
  have kk: "call_params ns (ns i) = Some k"
  proof (cases cs)
    case Nil
    then have "child (ns i) = None" using F(3) by simp
    then show ?thesis using Nil by (simp add: call_params_def k_def)
  next
    case (Cons c cs')
    then obtain j F3 where "child (ns i) = Some j" "forest ns (sibling (ns j)) cs' F3" using F(3) by (cases c) auto
    then show ?thesis using Cons F(2) count_siblings_forest [of ns "sibling (ns j)" cs' F3 0] by (auto simp: call_params_def k_def)
  qed
  have n: "node_code e (ns i) (map_option ns (child (ns i))) k = Some (Inr ys)"
    using G(2) node_code_attrs [of e "ns i" "map_option ns (child (ns i))" k] F(2) forest_root [OF F(3)]
    by (simp add: option.map_comp)
  show ?case
    unfolding G(4) F(1) by (subst finsh_compile.simps)
      (cases "code_bytes us b"; simp add: ih1 ih2 kk n code_bytes_append map_option_bind bind_map_option comp_def)
qed

lemma char_value_ucast [simp]: "char_value (ucast c) = c"
  by (rule bit_word_eqI) (simp add: char_value_def bit_simps)

text \<open>The code of an expression, by recursion over the expression.\<close>

definition ld_value :: "u8 \<Rightarrow> u8" where
  "ld_value w = FINSH_OP_LD_VALUE_BYTE + (w - 1)"

fun op_code :: "binop \<Rightarrow> u8" where
  "op_code Op_add = FINSH_OP_ADD_BYTE"
| "op_code Op_sub = FINSH_OP_SUB_BYTE"
| "op_code Op_mul = FINSH_OP_MUL_BYTE"
| "op_code Op_div = FINSH_OP_DIV_BYTE"
| "op_code Op_mod = FINSH_OP_MOD_BYTE"
| "op_code Op_and = FINSH_OP_AND_BYTE"
| "op_code Op_or = FINSH_OP_OR_BYTE"
| "op_code Op_xor = FINSH_OP_XOR_BYTE"
| "op_code Op_shl = FINSH_OP_SHL_BYTE"
| "op_code Op_shr = FINSH_OP_SHR_BYTE"

definition sized :: "u8 \<Rightarrow> u8 \<Rightarrow> u8 list" where
  "sized w op = code_sized w op (op + 1) (op + 2)"

definition inc_op :: "bool \<Rightarrow> u8" where
  "inc_op d = (if d then FINSH_OP_ADD_BYTE else FINSH_OP_SUB_BYTE)"

fun code :: "symbols \<Rightarrow> expr \<Rightarrow> u8 list" where
  "code sy (Char_const c) = [FINSH_OP_LD_BYTE, c]"
| "code sy (Int_const x) = FINSH_OP_LD_DWORD # bytes32 x"
| "code sy (Long_const x) = FINSH_OP_LD_DWORD # bytes32 x"
| "code sy (String_const x) = FINSH_OP_LD_DWORD # bytes32 x"
| "code sy (Variable x) = ld_value (id_width sy x) # bytes32 (id_addr sy x)"
| "code sy (Function i) = FINSH_OP_LD_DWORD # bytes32 (syscall_func sy i)"
| "code sy (Binary b x y) = code sy x @ code sy y @ sized (width sy x) (op_code b)"
| "code sy (Complement x) = code sy x @ sized (width sy x) FINSH_OP_BITWISE_BYTE"
| "code sy (Assign x y) = FINSH_OP_LD_DWORD # bytes32 (id_addr sy x) @ code sy y @
     sized (id_width sy x) FINSH_OP_ST_BYTE @ sized (id_width sy x) FINSH_OP_LD_VALUE_BYTE_STACK"
| "code sy (Assign_at p y) = code sy p @ code sy y @ [FINSH_OP_ST_DWORD, FINSH_OP_LD_VALUE_DWORD_STACK]"
| "code sy (Pre_inc d x) = FINSH_OP_LD_DWORD # bytes32 (id_addr sy x) @
     preinc_code (id_width sy x) (inc_op d) (inc_op d + 1) (inc_op d + 2) (id_addr sy x)"
| "code sy (Post_inc d x) = ld_value (id_width sy x) # bytes32 (id_addr sy x) @
     inc_code (id_width sy x) (inc_op d) (inc_op d + 1) (inc_op d + 2) (id_addr sy x)"
| "code sy (Call_fun i ps) = FINSH_OP_LD_DWORD # bytes32 (syscall_func sy i) @ concat (map (code sy) ps) @
     [FINSH_OP_SYSCALL, of_nat (length ps)]"
| "code sy (Deref p) = code sy p @ [FINSH_OP_LD_VALUE_DWORD_STACK]"
| "code sy (Address x) = FINSH_OP_LD_DWORD # bytes32 (id_addr sy x)"

lemma load_code_ld: "load_code t \<noteq> None \<Longrightarrow> load_code t = Some (ld_value (the (type_width t)))"
  by (cases t) (auto simp: load_code_def type_width_def ld_value_def)

lemma id_code_ann:
  assumes "id_ok sy x"
  shows "id_code sy (root (ann_id sy 0 x)) = Some (ld_value (id_width sy x) # bytes32 (id_addr sy x))"
    "id_code sy (root (ann_id sy FINSH_IDTYPE_ADDRESS x)) = Some (FINSH_OP_LD_DWORD # bytes32 (id_addr sy x))"
  using assms load_code_ld [of "id_type sy x"] id_ok_width [OF assms]
  by (auto simp: id_ok_def id_code_def ann_id_def id_type_def id_addr_def load_id_def split: ident.splits)

lemma gen_code_id:
  assumes "id_ok sy x"
  shows "gen_code sy (ann_id sy 0 x # ts) = map_option (\<lambda>zs. ld_value (id_width sy x) # bytes32 (id_addr sy x) @ zs) (gen_code sy ts)"
    "gen_code sy (ann_id sy FINSH_IDTYPE_ADDRESS x # ts) = map_option (\<lambda>zs. FINSH_OP_LD_DWORD # bytes32 (id_addr sy x) @ zs) (gen_code sy ts)"
proof -
  have *: "gen_code sy (ann_id sy ad x # ts) =
      Option.bind (id_code sy (root (ann_id sy ad x))) (\<lambda>ys. map_option (\<lambda>zs. ys @ zs) (gen_code sy ts))" for ad
    by (simp add: ann_id_def node_code_def map_option_case split: bind_splits option.splits)
  show "gen_code sy (ann_id sy 0 x # ts) = map_option (\<lambda>zs. ld_value (id_width sy x) # bytes32 (id_addr sy x) @ zs) (gen_code sy ts)"
    "gen_code sy (ann_id sy FINSH_IDTYPE_ADDRESS x # ts) = map_option (\<lambda>zs. FINSH_OP_LD_DWORD # bytes32 (id_addr sy x) @ zs) (gen_code sy ts)"
    unfolding * id_code_ann [OF assms] by (simp_all add: append_Cons [symmetric] del: append_Cons)
qed

lemma node_code_ops:
  "node_code sy ((leaf (op_node b))\<lparr>data_type := w\<rparr>) c k = Some (Inr (sized w (op_code b)))"
  "node_code sy ((leaf FINSH_NODE_SYS_BITWISE)\<lparr>data_type := w\<rparr>) c k = Some (Inr (sized w FINSH_OP_BITWISE_BYTE))"
  by (cases b; simp add: node_code_def sized_def)+

lemma node_code_leaves:
  "node_code sy ((leaf FINSH_NODE_VALUE_CHAR)\<lparr>node_value := ucast c, data_type := w\<rparr>) ch k = Some (Inr [FINSH_OP_LD_BYTE, c])"
  "node_code sy ((leaf FINSH_NODE_VALUE_INT)\<lparr>node_value := x, data_type := w\<rparr>) ch k = Some (Inr (FINSH_OP_LD_DWORD # bytes32 x))"
  "node_code sy ((leaf FINSH_NODE_VALUE_LONG)\<lparr>node_value := x, data_type := w\<rparr>) ch k = Some (Inr (FINSH_OP_LD_DWORD # bytes32 x))"
  "node_code sy ((leaf FINSH_NODE_VALUE_STRING)\<lparr>node_value := x, data_type := w\<rparr>) ch k = Some (Inr (FINSH_OP_LD_DWORD # bytes32 x))"
  "node_code sy (id_leaf (Id_syscall i)) ch k = Some (Inr (FINSH_OP_LD_DWORD # bytes32 (syscall_func sy i)))"
  by (simp_all add: node_code_def id_code_def)

lemma id_child_ann [simp]: "id_child (Some (root (ann_id sy ad x))) = Some x"
  by (simp add: id_child_def ann_id_def)

lemma store_sized:
  "w \<in> {1, 2, 3} \<Longrightarrow> store_code w = Inr (sized w FINSH_OP_ST_BYTE @ sized w FINSH_OP_LD_VALUE_BYTE_STACK)"
  by (auto simp: store_code_def sized_def code_sized_def)

lemma node_code_inner:
  "id_ok sy x \<Longrightarrow> node_code sy ((leaf FINSH_NODE_SYS_ASSIGN)\<lparr>data_type := w\<rparr>) (Some (root (ann_id sy ad x))) k =
     Some (Inr (sized (id_width sy x) FINSH_OP_ST_BYTE @ sized (id_width sy x) FINSH_OP_LD_VALUE_BYTE_STACK))"
  "node_code sy ((leaf FINSH_NODE_SYS_ASSIGN)\<lparr>data_type := w\<rparr>)
       (Some ((leaf FINSH_NODE_SYS_GETVALUE)\<lparr>idtype := u, data_type := FINSH_DATA_TYPE_DWORD\<rparr>)) k =
     Some (Inr [FINSH_OP_ST_DWORD, FINSH_OP_LD_VALUE_DWORD_STACK])"
  "node_code sy ((leaf FINSH_NODE_SYS_GETVALUE)\<lparr>idtype := FINSH_IDTYPE_ADDRESS, data_type := w\<rparr>) c k = Some (Inr [])"
  "node_code sy ((leaf FINSH_NODE_SYS_GETVALUE)\<lparr>data_type := FINSH_DATA_TYPE_DWORD\<rparr>) c k = Some (Inr [FINSH_OP_LD_VALUE_DWORD_STACK])"
  "node_code sy ((leaf FINSH_NODE_SYS_GETADDR)\<lparr>data_type := w\<rparr>) c k = Some (Inr [])"
  "is_var x \<Longrightarrow> node_code sy ((leaf (if d then FINSH_NODE_SYS_PREINC else FINSH_NODE_SYS_PREDEC))\<lparr>data_type := w\<rparr>) (Some (root (ann_id sy ad x))) k =
     Some (Inr (preinc_code w (inc_op d) (inc_op d + 1) (inc_op d + 2) (id_addr sy x)))"
  "is_var x \<Longrightarrow> node_code sy ((leaf (if d then FINSH_NODE_SYS_INC else FINSH_NODE_SYS_DEC))\<lparr>data_type := w\<rparr>) (Some (root (ann_id sy ad x))) k =
     Some (Inr (inc_code w (inc_op d) (inc_op d + 1) (inc_op d + 2) (id_addr sy x)))"
  "node_code sy (leaf FINSH_NODE_SYS_FUNC) (Some ch) k = Some (Inr [FINSH_OP_SYSCALL, of_nat k])"
proof -
  assume x: "id_ok sy x"
  have "node_type (root (ann_id sy ad x)) = FINSH_NODE_ID" by (simp add: ann_id_def)
  then show "node_code sy ((leaf FINSH_NODE_SYS_ASSIGN)\<lparr>data_type := w\<rparr>) (Some (root (ann_id sy ad x))) k =
     Some (Inr (sized (id_width sy x) FINSH_OP_ST_BYTE @ sized (id_width sy x) FINSH_OP_LD_VALUE_BYTE_STACK))"
    using store_sized id_ok_width [OF x] by (simp add: node_code_def)
next
  assume x: "is_var x"
  then have "id_value sy x = id_addr sy x" by (cases x) (simp_all add: id_addr_def)
  then show "node_code sy ((leaf (if d then FINSH_NODE_SYS_PREINC else FINSH_NODE_SYS_PREDEC))\<lparr>data_type := w\<rparr>) (Some (root (ann_id sy ad x))) k =
     Some (Inr (preinc_code w (inc_op d) (inc_op d + 1) (inc_op d + 2) (id_addr sy x)))"
    "node_code sy ((leaf (if d then FINSH_NODE_SYS_INC else FINSH_NODE_SYS_DEC))\<lparr>data_type := w\<rparr>) (Some (root (ann_id sy ad x))) k =
     Some (Inr (inc_code w (inc_op d) (inc_op d + 1) (inc_op d + 2) (id_addr sy x)))"
    by (simp_all add: node_code_def inc_op_def)
qed (simp_all add: node_code_def store_code_def code_sized_def)

lemma op_node_func: "op_node b \<noteq> FINSH_NODE_SYS_FUNC"
  by (cases b) simp_all

lemma not_func: "(if b then FINSH_NODE_SYS_PREINC else FINSH_NODE_SYS_PREDEC) \<noteq> FINSH_NODE_SYS_FUNC"
  "(if b then FINSH_NODE_SYS_INC else FINSH_NODE_SYS_DEC) \<noteq> FINSH_NODE_SYS_FUNC"
  by simp_all

lemma gen_code_annotate:
  "expr_wf sy x \<Longrightarrow> gen_code sy (annotate sy x # ts) = map_option (\<lambda>zs. code sy x @ zs) (gen_code sy ts)"
proof (induction x arbitrary: ts)
  case (Call_fun i ps)
  have "\<forall>p \<in> set qs. expr_wf sy p \<Longrightarrow> set qs \<subseteq> set ps \<Longrightarrow> gen_code sy (map (annotate sy) qs) = Some (concat (map (code sy) qs))" for qs
    by (induction qs) (use Call_fun.IH in auto)
  then have ps: "gen_code sy (map (annotate sy) ps) = Some (concat (map (code sy) ps))" using Call_fun.prems by simp
  then show ?case by (simp add: node_code_leaves node_code_inner map_option_case split: option.splits)
qed (simp_all only: annotate.simps expr_wf.simps, simp_all add: node_code_leaves node_code_ops node_code_inner op_node_func not_func gen_code_id
    map_option_case split: option.splits del: if_split)

subsection \<open>The machine runs the code of an operation\<close>

fun text_has :: "(nat \<Rightarrow> u8) \<Rightarrow> nat \<Rightarrow> u8 list \<Rightarrow> bool" where
  "text_has t pc [] \<longleftrightarrow> pc \<le> FINSH_TEXT_MAX"
| "text_has t pc (x # xs) \<longleftrightarrow> pc < FINSH_TEXT_MAX \<and> t pc = x \<and> text_has t (pc + 1) xs"

lemma text_has_end: "text_has t pc xs \<Longrightarrow> pc + length xs \<le> FINSH_TEXT_MAX"
  by (induction xs arbitrary: pc) (auto, fastforce)

lemma text_has_append: "text_has t pc (xs @ ys) \<longleftrightarrow> text_has t pc xs \<and> text_has t (pc + length xs) ys"
proof (induction xs arbitrary: pc)
  case Nil
  show ?case using text_has_end [of t pc ys] by auto
qed (simp add: add.commute [of 1] add.assoc)

definition conf :: "(nat \<Rightarrow> u8) \<Rightarrow> (int \<Rightarrow> u32) \<Rightarrow> int \<Rightarrow> nat \<Rightarrow> memory \<Rightarrow> vm" where
  "conf t st k pc m = \<lparr>vm_stack = st, finsh_sp = k, finsh_pc = pc, text_segment = t, vm_mem = m\<rparr>"

lemma conf_simps [simp]:
  "vm_stack (conf t st k pc m) = st" "finsh_sp (conf t st k pc m) = k" "finsh_pc (conf t st k pc m) = pc"
  "text_segment (conf t st k pc m) = t" "vm_mem (conf t st k pc m) = m"
  "(conf t st k pc m)\<lparr>vm_stack := st'\<rparr> = conf t st' k pc m" "(conf t st k pc m)\<lparr>finsh_sp := k'\<rparr> = conf t st k' pc m"
  "(conf t st k pc m)\<lparr>finsh_pc := pc'\<rparr> = conf t st k pc' m" "(conf t st k pc m)\<lparr>vm_mem := m'\<rparr> = conf t st k pc m'"
  by (simp_all add: conf_def)

lemma slot_conf [simp]: "slot i (conf t st k pc m) = (if 0 \<le> i \<and> i < FINSH_STACK_MAX then Some (st i) else None)"
  by (simp add: slot_def)

lemma put_slot_conf [simp]:
  "put_slot i x (conf t st k pc m) = (if 0 \<le> i \<and> i < FINSH_STACK_MAX then Some (conf t (st(i := x)) k pc m) else None)"
  by (simp add: put_slot_def)

lemma vm_step:
  assumes "pc < FINSH_TEXT_MAX" "t pc = op" "op < 48" "(op_table f ! unat op) (conf t st k (pc + 1) m) = Some v"
  shows "vm_loop f (conf t st k pc m) = vm_loop f v"
proof -
  have "length (op_table f) = 48" by (simp add: op_table_def)
  moreover have "unat op < 48" using assms(3) by (simp add: word_less_nat_alt)
  ultimately show ?thesis using assms by (subst vm_loop.simps) simp
qed

lemma get32_text: "text_has t pc (bytes32 x) \<Longrightarrow> FINSH_GET32 pc (conf t st k pc' m) = Some x"
  by (simp add: bytes32_def FINSH_GET32_def text_at_def numeral_2_eq_2 numeral_3_eq_3)

lemma get16_text: "text_has t pc (bytes16 1) \<Longrightarrow> FINSH_GET16 pc (conf t st k pc' m) = Some 1"
  by (simp add: bytes16_def FINSH_GET16_def text_at_def word16_def)

lemma length_bytes [simp]: "length (bytes32 x) = 4" "length (bytes16 y) = 2"
  by (simp_all add: bytes32_def bytes16_def)

text \<open>Loads of constants and values.\<close>

lemma run_ld_byte:
  assumes "text_has t pc [FINSH_OP_LD_BYTE, c]" "0 \<le> k" "2 * k \<le> int pc"
  shows "vm_loop f (conf t st k pc m) = vm_loop f (conf t (st(k := set_char_value (st k) c)) (k + 1) (pc + 2) m)"
  using assms by (intro vm_step [of pc t FINSH_OP_LD_BYTE]) (simp_all add: op_table_def OP_ld_byte_def text_at_def)

lemma run_ld_word:
  assumes "text_has t pc (FINSH_OP_LD_WORD # bytes16 1)" "0 \<le> k" "2 * k \<le> int pc"
  shows "vm_loop f (conf t st k pc m) = vm_loop f (conf t (st(k := set_short_value (st k) 1)) (k + 1) (pc + 3) m)"
proof -
  have "FINSH_GET16 (pc + 1) (conf t st k (pc + 1) m) = Some 1" using assms(1) by (intro get16_text) simp
  then show ?thesis using assms by (intro vm_step [of pc t FINSH_OP_LD_WORD]) (simp_all add: op_table_def OP_ld_word_def)
qed

lemma run_dword:
  assumes t: "text_has t pc (op # bytes32 x)" "op < 48" and k: "0 \<le> k" "2 * k \<le> int pc"
    and op: "\<And>v. FINSH_GET32 (finsh_pc v) v = Some x \<Longrightarrow> 0 \<le> finsh_sp v \<Longrightarrow> finsh_sp v < FINSH_STACK_MAX \<Longrightarrow> (op_table f ! unat op) v =
      Some (v\<lparr>vm_stack := (vm_stack v)(finsh_sp v := g (vm_stack v (finsh_sp v)) (vm_mem v)), finsh_sp := finsh_sp v + 1, finsh_pc := finsh_pc v + 4\<rparr>)"
  shows "vm_loop f (conf t st k pc m) = vm_loop f (conf t (st(k := g (st k) m)) (k + 1) (pc + 5) m)"
proof -
  have "FINSH_GET32 (pc + 1) (conf t st k (pc + 1) m) = Some x" using t(1) by (intro get32_text) simp
  then show ?thesis using t k op [of "conf t st k (pc + 1) m"] by (intro vm_step [of pc t op]) simp_all
qed

lemma run_ld_dword:
  assumes "text_has t pc (FINSH_OP_LD_DWORD # bytes32 x)" "0 \<le> k" "2 * k \<le> int pc"
  shows "vm_loop f (conf t st k pc m) = vm_loop f (conf t (st(k := x)) (k + 1) (pc + 5) m)"
  by (rule run_dword [OF assms(1) _ assms(2,3), where g = "\<lambda>_ _. x"])
    (simp_all add: op_table_def OP_ld_dword_def put_slot_def)

definition agrees :: "u8 \<Rightarrow> u32 \<Rightarrow> u32 \<Rightarrow> bool" where
  "agrees w s x \<longleftrightarrow> (if w = FINSH_DATA_TYPE_BYTE then char_value s = char_value x
     else if w = FINSH_DATA_TYPE_WORD then short_value s = short_value x else s = x)"

lemma upper_masks: "(0xffffff00 :: u32) = NOT (mask 8)" "(0xffff0000 :: u32) = NOT (mask 16)"
  by (simp_all add: mask_eq_exp_minus_1)

lemma char_of_set [simp]: "char_value (set_char_value x c) = c"
  by (rule bit_word_eqI) (simp add: char_value_def set_char_value_def upper_masks bit_simps)

lemma short_of_set [simp]: "short_value (set_short_value x c) = c"
  by (rule bit_word_eqI) (simp add: short_value_def set_short_value_def upper_masks bit_simps)

lemma short_value_scast [simp]: "short_value (scast c) = c"
  by (rule bit_word_eqI) (auto simp: short_value_def bit_simps)

lemma run_ld_value:
  assumes "text_has t pc (ld_value w # bytes32 a)" "0 \<le> k" "2 * k \<le> int pc" "w \<in> {1, 2, 3}"
  shows "\<exists>s. vm_loop f (conf t st k pc m) = vm_loop f (conf t (st(k := s)) (k + 1) (pc + 5) m) \<and> agrees w s (load w a m)"
proof -
  consider "w = 1" | "w = 2" | "w = 3" using assms(4) by blast
  then show ?thesis
  proof cases
    case 1
    then have "vm_loop f (conf t st k pc m) = vm_loop f (conf t (st(k := set_char_value (st k) (m a))) (k + 1) (pc + 5) m)"
      using assms(1-3)
      by (intro run_dword [of t pc "ld_value w" a, where g = "\<lambda>s m. set_char_value s (m a)"])
        (simp_all add: ld_value_def op_table_def OP_ld_value_byte_def put_slot_def slot_def)
    then show ?thesis using 1 by (auto simp: agrees_def load_def)
  next
    case 2
    then have "vm_loop f (conf t st k pc m) = vm_loop f (conf t (st(k := set_short_value (st k) (get16 a m))) (k + 1) (pc + 5) m)"
      using assms(1-3)
      by (intro run_dword [of t pc "ld_value w" a, where g = "\<lambda>s m. set_short_value s (get16 a m)"])
        (simp_all add: ld_value_def op_table_def OP_ld_value_word_def put_slot_def slot_def)
    then show ?thesis using 2 by (auto simp: agrees_def load_def)
  next
    case 3
    then have "vm_loop f (conf t st k pc m) = vm_loop f (conf t (st(k := get32 a m)) (k + 1) (pc + 5) m)"
      using assms(1-3)
      by (intro run_dword [of t pc "ld_value w" a, where g = "\<lambda>s m. get32 a m"])
        (simp_all add: ld_value_def op_table_def OP_ld_value_dword_def put_slot_def)
    then show ?thesis using 3 by (auto simp: agrees_def load_def)
  qed
qed

text \<open>Operations on the upper slots.\<close>

lemma run_op:
  assumes "text_has t pc [op]" "op < 48" "(op_table f ! unat op) (conf t st k (pc + 1) m) = Some (conf t st' k' (pc + 1) m')"
  shows "vm_loop f (conf t st k pc m) = vm_loop f (conf t st' k' (pc + 1) m')"
  by (rule vm_step [of pc t op]) (use assms in simp_all)

lemma op_bin_table:
  "op_code b < 48" "op_code b + 1 < 48" "op_code b + 2 < 48"
  "op_table f ! unat (op_code b) = OP_BIN_BYTE (op_fun b)" "op_table f ! unat (op_code b + 1) = OP_BIN_WORD (op_fun b)"
  "op_table f ! unat (op_code b + 2) = OP_BIN_DWORD (op_fun b)"
  by (cases b; simp add: op_table_def)+

lemma narrow_of_int [simp]:
  "char_value (word_of_int z) = word_of_int z" "short_value (word_of_int z) = word_of_int z"
  by (rule bit_word_eqI; simp add: char_value_def short_value_def bit_simps)+

lemma sized_cases:
  assumes "w \<in> {1, 2, 3}"
  obtains (byte) "w = 1" "sized w op = [op]" | (half) "w = 2" "sized w op = [op + 1]" | (full) "w = 3" "sized w op = [op + 2]"
  using assms by (auto simp: sized_def code_sized_def)

lemma run_binary:
  assumes t: "text_has t pc (sized w (op_code b))" and w: "w \<in> {1, 2, 3}" and k: "2 \<le> k" "k \<le> FINSH_STACK_MAX"
    and a: "agrees w (st (k - 2)) x" "agrees w (st (k - 1)) y" and r: "binary b w x y = Some r"
  shows "\<exists>s. vm_loop f (conf t st k pc m) = vm_loop f (conf t (st(k - 2 := s)) (k - 1) (pc + 1) m) \<and> agrees w s r"
proof -
  obtain z where z: "op_fun b (as_int w x) (as_int w y) = Some z" "r = cut w (word_of_int z)" using r by (auto simp: binary_def)
  show ?thesis using w
  proof (cases rule: sized_cases [where op = "op_code b"])
    case byte
    let ?s = "set_char_value (st (k - 2)) (word_of_int z)"
    have "vm_loop f (conf t st k pc m) = vm_loop f (conf t (st(k - 2 := ?s)) (k - 1) (pc + 1) m)"
      by (rule run_op [OF t [unfolded byte(2)] op_bin_table(1)]) (use k a z byte(1) in \<open>simp add: op_bin_table OP_BIN_BYTE_def agrees_def as_int_def\<close>)
    moreover have "agrees w ?s r" using byte(1) z(2) by (simp add: agrees_def cut_def)
    ultimately show ?thesis by blast
  next
    case half
    let ?s = "set_short_value (st (k - 2)) (word_of_int z)"
    have "vm_loop f (conf t st k pc m) = vm_loop f (conf t (st(k - 2 := ?s)) (k - 1) (pc + 1) m)"
      by (rule run_op [OF t [unfolded half(2)] op_bin_table(2)]) (use k a z half(1) in \<open>simp add: op_bin_table OP_BIN_WORD_def agrees_def as_int_def\<close>)
    moreover have "agrees w ?s r" using half(1) z(2) by (simp add: agrees_def cut_def)
    ultimately show ?thesis by blast
  next
    case full
    let ?s = "word_of_int z"
    have "vm_loop f (conf t st k pc m) = vm_loop f (conf t (st(k - 2 := ?s)) (k - 1) (pc + 1) m)"
      by (rule run_op [OF t [unfolded full(2)] op_bin_table(3)]) (use k a z full(1) in \<open>simp add: op_bin_table OP_BIN_DWORD_def agrees_def as_int_def\<close>)
    moreover have "agrees w ?s r" using full(1) z(2) by (simp add: agrees_def cut_def)
    ultimately show ?thesis by blast
  qed
qed

lemma narrow_not [simp]: "char_value (NOT x) = NOT (char_value x)" "short_value (NOT x) = NOT (short_value x)"
  by (rule bit_word_eqI; simp add: char_value_def short_value_def bit_simps)+

lemma run_complement:
  assumes t: "text_has t pc (sized w FINSH_OP_BITWISE_BYTE)" and w: "w \<in> {1, 2, 3}" and k: "1 \<le> k" "k \<le> FINSH_STACK_MAX"
    and a: "agrees w (st (k - 1)) x"
  shows "\<exists>s. vm_loop f (conf t st k pc m) = vm_loop f (conf t (st(k - 1 := s)) k (pc + 1) m) \<and> agrees w s (cut w (NOT x))"
  using w
proof (cases rule: sized_cases [where op = "FINSH_OP_BITWISE_BYTE"])
  case byte
  let ?s = "set_char_value (st (k - 1)) (NOT (char_value (st (k - 1))))"
  have "vm_loop f (conf t st k pc m) = vm_loop f (conf t (st(k - 1 := ?s)) k (pc + 1) m)"
    by (rule run_op [OF t [unfolded byte(2)]]) (use k in \<open>simp_all add: op_table_def OP_bw_byte_def\<close>)
  then show ?thesis using byte(1) a by (intro exI [of _ ?s]) (simp add: agrees_def cut_def)
next
  case half
  let ?s = "set_short_value (st (k - 1)) (NOT (short_value (st (k - 1))))"
  have "vm_loop f (conf t st k pc m) = vm_loop f (conf t (st(k - 1 := ?s)) k (pc + 1) m)"
    by (rule run_op [OF t [unfolded half(2)]]) (use k in \<open>simp_all add: op_table_def OP_bw_word_def\<close>)
  then show ?thesis using half(1) a by (intro exI [of _ ?s]) (simp add: agrees_def cut_def)
next
  case full
  have "vm_loop f (conf t st k pc m) = vm_loop f (conf t (st(k - 1 := NOT (st (k - 1)))) k (pc + 1) m)"
    by (rule run_op [OF t [unfolded full(2)]]) (use k in \<open>simp_all add: op_table_def OP_bw_dword_def\<close>)
  then show ?thesis using full(1) a by (intro exI [of _ "NOT (st (k - 1))"]) (simp add: agrees_def cut_def)
qed

lemma run_store:
  assumes t: "text_has t pc (sized w FINSH_OP_ST_BYTE)" and w: "w \<in> {1, 2, 3}" and k: "2 \<le> k" "k \<le> FINSH_STACK_MAX"
    and a: "agrees w (st (k - 1)) x"
  shows "vm_loop f (conf t st k pc m) = vm_loop f (conf t st (k - 1) (pc + 1) (save w (st (k - 2)) x m))"
  using w
proof (cases rule: sized_cases [where op = "FINSH_OP_ST_BYTE"])
  case byte
  show ?thesis
    by (rule run_op [OF t [unfolded byte(2)]]) (use k a byte(1) in \<open>simp_all add: op_table_def OP_st_byte_def agrees_def save_def\<close>)
next
  case half
  show ?thesis
    by (rule run_op [OF t [unfolded half(2)]]) (use k a half(1) in \<open>simp_all add: op_table_def OP_st_word_def agrees_def save_def\<close>)
next
  case full
  show ?thesis
    by (rule run_op [OF t [unfolded full(2)]]) (use k a full(1) in \<open>simp_all add: op_table_def OP_st_dword_def agrees_def save_def\<close>)
qed

lemma run_load_stack:
  assumes t: "text_has t pc (sized w FINSH_OP_LD_VALUE_BYTE_STACK)" and w: "w \<in> {1, 2, 3}" and k: "1 \<le> k" "k \<le> FINSH_STACK_MAX"
  shows "\<exists>s. vm_loop f (conf t st k pc m) = vm_loop f (conf t (st(k - 1 := s)) k (pc + 1) m) \<and> agrees w s (load w (st (k - 1)) m)"
  using w
proof (cases rule: sized_cases [where op = "FINSH_OP_LD_VALUE_BYTE_STACK"])
  case byte
  have "vm_loop f (conf t st k pc m) = vm_loop f (conf t (st(k - 1 := set_char_value (st (k - 1)) (m (st (k - 1))))) k (pc + 1) m)"
    by (rule run_op [OF t [unfolded byte(2)]]) (use k in \<open>simp_all add: op_table_def OP_ld_value_byte_stack_def\<close>)
  then show ?thesis using byte(1) by (auto simp: agrees_def load_def)
next
  case half
  have "vm_loop f (conf t st k pc m) = vm_loop f (conf t (st(k - 1 := set_short_value (st (k - 1)) (get16 (st (k - 1)) m))) k (pc + 1) m)"
    by (rule run_op [OF t [unfolded half(2)]]) (use k in \<open>simp_all add: op_table_def OP_ld_value_word_stack_def\<close>)
  then show ?thesis using half(1) by (auto simp: agrees_def load_def)
next
  case full
  have "vm_loop f (conf t st k pc m) = vm_loop f (conf t (st(k - 1 := get32 (st (k - 1)) m)) k (pc + 1) m)"
    by (rule run_op [OF t [unfolded full(2)]]) (use k in \<open>simp_all add: op_table_def OP_ld_value_dword_stack_def\<close>)
  then show ?thesis using full(1) by (auto simp: agrees_def load_def)
qed

lemma run_pop:
  assumes "text_has t pc [FINSH_OP_POP]"
  shows "vm_loop f (conf t st k pc m) = vm_loop f (conf t st (k - 1) (pc + 1) m)"
  by (rule run_op [OF assms]) (simp_all add: op_table_def OP_pop_def)

lemma word16_bytes16 [simp]: "word16 (bytes16 x ! 0) (bytes16 x ! 1) = x"
  by (rule bit_word_eqI) (auto simp: word16_def bytes16_def bit_simps)

lemma get_put [simp]: "get16 a (put16 a x m) = x" "get32 a (put32 a y m) = y"
proof -
  show "get16 a (put16 a x m) = x" by (simp add: get16_def put16_def Let_def del: One_nat_def)
  show "get32 a (put32 a y m) = y" by (simp add: get32_def put32_def Let_def bytes32_def)
qed

lemma cut_agrees [simp]: "agrees w (cut w x) y = agrees w x y" "agrees w y (cut w x) = agrees w y x"
  by (auto simp: agrees_def cut_def)

lemma load_save [simp]: "w \<in> {1, 2, 3} \<Longrightarrow> load w a (save w a x m) = cut w x"
  by (auto simp: load_def save_def cut_def)

lemma save_cut [simp]: "save w a (cut w x) m = save w a x m"
  by (simp add: save_def cut_def)

lemma low_get32: "char_value (get32 a m) = m a" "short_value (get32 a m) = get16 a m"
  by (rule bit_word_eqI; auto simp: char_value_def short_value_def get32_def get16_def word32_def word16_def bit_simps)+

lemma get32_save: "w \<in> {1, 2, 3} \<Longrightarrow> agrees w (get32 a (save w a x m)) x"
  by (auto simp: agrees_def save_def low_get32)

text \<open>The increments.\<close>

definition one_code :: "u8 \<Rightarrow> u8 list" where
  "one_code w = (if w = FINSH_DATA_TYPE_BYTE then [FINSH_OP_LD_BYTE, 1]
     else if w = FINSH_DATA_TYPE_WORD then FINSH_OP_LD_WORD # bytes16 1 else FINSH_OP_LD_DWORD # bytes32 1)"

lemma inc_codes:
  assumes "w \<in> {1, 2, 3}"
  shows "preinc_code w (op) (op + 1) (op + 2) a =
      ld_value w # bytes32 a @ one_code w @ sized w op @ sized w FINSH_OP_ST_BYTE @ [FINSH_OP_LD_VALUE_DWORD_STACK]"
    "inc_code w (op) (op + 1) (op + 2) a = FINSH_OP_LD_DWORD # bytes32 a @
      ld_value w # bytes32 a @ one_code w @ sized w op @ sized w FINSH_OP_ST_BYTE @ [FINSH_OP_POP]"
  using assms by (auto simp: preinc_code_def inc_code_def one_code_def sized_def code_sized_def ld_value_def)

lemma narrow_one [simp]: "char_value 1 = 1" "short_value 1 = 1"
  by (simp_all add: char_value_def short_value_def)

lemma run_one:
  assumes "text_has t pc (one_code w)" "0 \<le> k" "2 * k \<le> int pc" "w \<in> {1, 2, 3}"
  shows "\<exists>s. vm_loop f (conf t st k pc m) = vm_loop f (conf t (st(k := s)) (k + 1) (pc + length (one_code w)) m) \<and> agrees w s 1"
proof -
  consider "w = 1" | "w = 2" | "w = 3" using assms(4) by blast
  then show ?thesis
  proof cases
    case 1
    then have "vm_loop f (conf t st k pc m) = vm_loop f (conf t (st(k := set_char_value (st k) 1)) (k + 1) (pc + 2) m)"
      using assms by (intro run_ld_byte) (simp_all add: one_code_def)
    then show ?thesis using 1 by (intro exI [of _ "set_char_value (st k) 1"]) (simp add: agrees_def one_code_def)
  next
    case 2
    then have "vm_loop f (conf t st k pc m) = vm_loop f (conf t (st(k := set_short_value (st k) 1)) (k + 1) (pc + 3) m)"
      using assms by (intro run_ld_word) (simp_all add: one_code_def)
    then show ?thesis using 2 by (intro exI [of _ "set_short_value (st k) 1"]) (simp add: agrees_def one_code_def)
  next
    case 3
    then have "vm_loop f (conf t st k pc m) = vm_loop f (conf t (st(k := 1)) (k + 1) (pc + 5) m)"
      using assms by (intro run_ld_dword) (simp_all add: one_code_def)
    then show ?thesis using 3 by (intro exI [of _ 1]) (simp add: agrees_def one_code_def)
  qed
qed

lemma narrow_arith [simp]:
  "char_value (x + 1) = char_value x + 1" "char_value (x - 1) = char_value x - 1"
  "short_value (x + 1) = short_value x + 1" "short_value (x - 1) = short_value x - 1"
proof -
  have c: "char_value (x + y) = char_value x + char_value y" "short_value (x + y) = short_value x + short_value y" for x y
  proof -
    have "char_value (word_of_int (uint x + uint y)) = char_value (word_of_int (uint x)) + char_value (word_of_int (uint y))"
      "short_value (word_of_int (uint x + uint y)) = short_value (word_of_int (uint x)) + short_value (word_of_int (uint y))"
      by (simp_all only: narrow_of_int wi_hom_add)
    then show "char_value (x + y) = char_value x + char_value y" "short_value (x + y) = short_value x + short_value y"
      by (simp_all only: wi_hom_add [symmetric] of_int_uint ucast_id)
  qed
  have n: "char_value (- 1) = - 1" "short_value (- 1) = - 1"
    using narrow_of_int(1) [of "- 1"] narrow_of_int(2) [of "- 1"] by (simp_all only: of_int_minus of_int_1)
  show "char_value (x + 1) = char_value x + 1" "short_value (x + 1) = short_value x + 1"
    using c(1) [of x 1] c(2) [of x 1] by (simp_all only: narrow_one)
  show "char_value (x - 1) = char_value x - 1" "short_value (x - 1) = short_value x - 1"
    using c(1) [of x "- 1"] c(2) [of x "- 1"] by (simp_all only: n add_uminus_conv_diff)
qed

lemma int_word_step [simp]:
  "word_of_int (uint x + 1) = x + 1" "word_of_int (uint x - 1) = x - 1" for x :: u8
  by simp_all

lemma sint_word_step [simp]:
  "word_of_int (sint x + 1) = x + 1" "word_of_int (sint x - 1) = x - 1" for x :: "'a :: len word"
  by simp_all

lemma binary_step: "w \<in> {1, 2, 3} \<Longrightarrow> binary (if d then Op_add else Op_sub) w x 1 = Some (cut w (step_by d x))"
  by (cases d) (auto simp: binary_def total_op_def as_int_def cut_def step_by_def)

lemma op_code_inc: "op_code (if d then Op_add else Op_sub) = inc_op d"
  by (simp add: inc_op_def)

lemma sized_length: "w \<in> {1, 2, 3} \<Longrightarrow> length (sized w op) = 1"
  by (auto simp: sized_def code_sized_def)

lemma run_step:
  assumes t: "text_has t pc (ld_value w # bytes32 a @ one_code w @ sized w (inc_op d))" and k: "0 \<le> k" "2 * k \<le> int pc" and w: "w \<in> {1, 2, 3}"
  shows "\<exists>st'. vm_loop f (conf t st k pc m) = vm_loop f (conf t st' (k + 1) (pc + 6 + length (one_code w)) m) \<and>
    (\<forall>i < k. st' i = st i) \<and> agrees w (st' k) (cut w (step_by d (load w a m)))"
proof -
  have t1: "text_has t pc (ld_value w # bytes32 a)" "text_has t (pc + 5) (one_code w)" "text_has t (pc + 5 + length (one_code w)) (sized w (inc_op d))"
    using t text_has_append [of t pc "ld_value w # bytes32 a" "one_code w @ sized w (inc_op d)"] by (simp_all add: text_has_append)
  obtain s where s: "vm_loop f (conf t st k pc m) = vm_loop f (conf t (st(k := s)) (k + 1) (pc + 5) m)" "agrees w s (load w a m)"
    using run_ld_value [OF t1(1) k w] by blast
  obtain u where u: "vm_loop f (conf t (st(k := s)) (k + 1) (pc + 5) m) =
      vm_loop f (conf t (st(k := s, k + 1 := u)) (k + 1 + 1) (pc + 5 + length (one_code w)) m)" "agrees w u 1"
    using run_one [OF t1(2) _ _ w, of "k + 1" f "st(k := s)" m] k by auto
  have le: "k + 2 \<le> FINSH_STACK_MAX"
    using text_has_end [OF t1(3)] sized_length [OF w, of "inc_op d"] k by (auto simp: one_code_def split: if_splits)
  let ?b = "if d then Op_add else Op_sub"
  obtain v where "vm_loop f (conf t (st(k := s, k + 1 := u)) (k + 1 + 1) (pc + 5 + length (one_code w)) m) =
      vm_loop f (conf t (st(k := s, k + 1 := u, k + 1 + 1 - 2 := v)) (k + 1 + 1 - 1) (pc + 5 + length (one_code w) + 1) m)"
      "agrees w v (cut w (step_by d (load w a m)))"
    using run_binary [of t "pc + 5 + length (one_code w)" w ?b "k + 1 + 1" "st(k := s, k + 1 := u)" "load w a m" 1
        "cut w (step_by d (load w a m))" f m]
      t1(3) w k le s(2) u(2) binary_step [OF w, of d] by (auto simp: op_code_inc)
  then show ?thesis using s(1) u(1) by (intro exI [of _ "st(k := s, k + 1 := u, k := v)"]) (simp add: ac_simps)
qed

text \<open>A call.\<close>

lemma pop_params_stack:
  "n \<le> 16 \<Longrightarrow> 0 \<le> b \<Longrightarrow> b + int n \<le> FINSH_STACK_MAX \<Longrightarrow> length vs = n \<Longrightarrow> (\<forall>i < n. st (b + int i) = vs ! i) \<Longrightarrow>
   pop_params n (b + int n - 1) (conf t st k pc m) ps = Some (vs @ ps)"
proof (induction n arbitrary: vs ps)
  case (Suc n)
  have e: "b + int (Suc n) - 1 = b + int n" by simp
  have "pop_params n (b + int n - 1) (conf t st k pc m) (vs ! n # ps) = Some (take n vs @ vs ! n # ps)"
    by (rule Suc.IH) (use Suc.prems in auto)
  moreover have "take n vs @ vs ! n # ps = vs @ ps" using Suc.prems(4) by (metis append.assoc append_Cons append_Nil lessI take_Suc_conv_app_nth take_all_iff order_refl)
  ultimately show ?case using Suc.prems(1-3,5) by (simp only: e) simp
qed simp

lemma run_call:
  assumes t: "text_has t pc [FINSH_OP_SYSCALL, of_nat n]" and n: "n \<le> 16" "length vs = n" and k: "0 \<le> k" "k + 1 + int n \<le> FINSH_STACK_MAX"
    and st: "st k = a" "\<forall>i < n. st (k + 1 + int i) = vs ! i" and r: "f a vs m = Some (r, m')"
  shows "vm_loop f (conf t st (k + 1 + int n) pc m) = vm_loop f (conf t (st(k := r)) (k + 1) (pc + 2) m')"
proof -
  have u: "unat (of_nat n :: u8) = n" using n(1) by (simp add: unat_of_nat)
  then have ui: "uint (of_nat n :: u8) = int n" by (metis uint_nat)
  have p: "pop_params n (k + 1 + int n - 1) (conf t st (k + 1 + int n) (pc + 1 + 1) m) [] = Some (vs @ [])"
    by (rule pop_params_stack) (use n k st(2) in auto)
  show ?thesis
    by (rule vm_step [of pc t FINSH_OP_SYSCALL])
      (use t u ui p k r st(1) in \<open>simp_all add: Let_def op_table_def OP_call_def text_at_def\<close>)
qed

subsection \<open>The code computes the value\<close>

lemma width_cases: "expr_ok sy x \<Longrightarrow> width sy x \<in> {0, 1, 2, 3} \<and> holds sy x \<in> {1, 2, 3} \<and> (width sy x \<noteq> 0 \<longrightarrow> width sy x \<le> holds sy x)"
  by (induction x) (auto simp: holds_def dest!: id_ok_width)

lemma agrees_mono:
  assumes "agrees w s v" "w' \<le> w" "w \<in> {1, 2, 3}" "w' \<in> {1, 2, 3}"
  shows "agrees w' s v"
proof -
  have "char_value x = ucast (short_value x)" for x
    by (rule bit_word_eqI) (auto simp: char_value_def short_value_def bit_simps)
  then have "short_value s = short_value v \<Longrightarrow> char_value s = char_value v" by simp
  then show ?thesis using assms by (auto simp: agrees_def word_le_nat_alt)
qed

lemma code_length: "expr_ok sy x \<Longrightarrow> 2 \<le> length (code sy x)"
  by (induction x) auto

definition runs :: "callee \<Rightarrow> (nat \<Rightarrow> u8) \<Rightarrow> u8 list \<Rightarrow> nat \<Rightarrow> int \<Rightarrow> memory \<Rightarrow> u8 \<Rightarrow> u32 \<Rightarrow> memory \<Rightarrow> bool" where
  "runs f t c pc k m w v m' \<longleftrightarrow> (\<forall>st. \<exists>st'. vm_loop f (conf t st k pc m) = vm_loop f (conf t st' (k + 1) (pc + length c) m') \<and>
     (\<forall>i < k. st' i = st i) \<and> agrees w (st' k) v)"

lemma runsE:
  assumes "runs f t c pc k m w v m'"
  obtains st' where "vm_loop f (conf t st k pc m) = vm_loop f (conf t st' (k + 1) (pc + length c) m')"
    "\<forall>i < k. st' i = st i" "agrees w (st' k) v"
  using assms unfolding runs_def by blast

lemma runs_const:
  assumes "text_has t pc (FINSH_OP_LD_DWORD # bytes32 x)" "0 \<le> k" "2 * k \<le> int pc"
  shows "runs f t (FINSH_OP_LD_DWORD # bytes32 x) pc k m w x m"
  unfolding runs_def
proof
  fix st
  show "\<exists>st'. vm_loop f (conf t st k pc m) = vm_loop f (conf t st' (k + 1) (pc + length (FINSH_OP_LD_DWORD # bytes32 x)) m) \<and>
     (\<forall>i < k. st' i = st i) \<and> agrees w (st' k) x"
    using run_ld_dword [OF assms, of f st m] by (intro exI [of _ "st(k := x)"]) (simp add: agrees_def)
qed

lemma stack_room: "text_has t pc xs \<Longrightarrow> 2 * k \<le> int pc \<Longrightarrow> k \<le> FINSH_STACK_MAX"
  using text_has_end [of t pc xs] by simp

lemma runs_binary:
  assumes x: "runs f t (code sy x) pc k m (holds sy x) u m1" and y: "runs f t (code sy y) (pc + length (code sy x)) (k + 1) m1 (holds sy y) v m2"
    and t: "text_has t (pc + length (code sy x) + length (code sy y)) (sized w (op_code b))" and w: "w \<in> {1, 2, 3}"
    and h: "w \<le> holds sy x" "holds sy x \<in> {1, 2, 3}" "w \<le> holds sy y" "holds sy y \<in> {1, 2, 3}"
    and k: "0 \<le> k" "2 * (k + 2) \<le> int (pc + length (code sy x) + length (code sy y))" and r: "binary b w u v = Some r"
  shows "runs f t (code sy x @ code sy y @ sized w (op_code b)) pc k m w r m2"
  unfolding runs_def
proof
  fix st
  obtain st1 where 1: "vm_loop f (conf t st k pc m) = vm_loop f (conf t st1 (k + 1) (pc + length (code sy x)) m1)"
    "\<forall>i < k. st1 i = st i" "agrees (holds sy x) (st1 k) u" by (rule runsE [OF x])
  obtain st2 where 2: "vm_loop f (conf t st1 (k + 1) (pc + length (code sy x)) m1) =
      vm_loop f (conf t st2 (k + 1 + 1) (pc + length (code sy x) + length (code sy y)) m2)"
    "\<forall>i < k + 1. st2 i = st1 i" "agrees (holds sy y) (st2 (k + 1)) v" by (rule runsE [OF y])
  have "agrees w (st2 k) u" using agrees_mono [OF 1(3) h(1,2) w] 2(2) by simp
  moreover have "agrees w (st2 (k + 1)) v" using agrees_mono [OF 2(3) h(3,4) w] by simp
  moreover have "k + 1 + 1 \<le> FINSH_STACK_MAX" using stack_room [OF t k(2)] by simp
  ultimately obtain s where "vm_loop f (conf t st2 (k + 1 + 1) (pc + length (code sy x) + length (code sy y)) m2) =
      vm_loop f (conf t (st2(k := s)) (k + 1) (pc + length (code sy x) + length (code sy y) + 1) m2)" "agrees w s r"
    using run_binary [OF t w _ _ _ _ r, of "k + 1 + 1" st2 f m2] k(1) by (auto simp: add.commute)
  then show "\<exists>st'. vm_loop f (conf t st k pc m) = vm_loop f (conf t st' (k + 1) (pc + length (code sy x @ code sy y @ sized w (op_code b))) m2) \<and>
      (\<forall>i < k. st' i = st i) \<and> agrees w (st' k) r"
    using 1 2 sized_length [OF w, of "op_code b"] by (intro exI [of _ "st2(k := s)"]) (simp add: add.assoc)
qed

lemma runs_store:
  assumes t: "text_has t pc (FINSH_OP_LD_DWORD # bytes32 a @ c @ sized w FINSH_OP_ST_BYTE @ sized w FINSH_OP_LD_VALUE_BYTE_STACK)"
    and c: "runs f t c (pc + 5) (k + 1) m h v m1" "2 \<le> length c" and w: "w \<in> {1, 2, 3}" "w \<le> h" "h \<in> {1, 2, 3}"
    and k: "0 \<le> k" "2 * k \<le> int pc"
  shows "runs f t (FINSH_OP_LD_DWORD # bytes32 a @ c @ sized w FINSH_OP_ST_BYTE @ sized w FINSH_OP_LD_VALUE_BYTE_STACK) pc k m w
    (cut w v) (save w a v m1)"
  unfolding runs_def
proof
  fix st
  note n = sized_length [OF w(1)]
  have e: "FINSH_OP_LD_DWORD # bytes32 a @ ys = (FINSH_OP_LD_DWORD # bytes32 a) @ ys" for ys by simp
  have t1: "text_has t pc (FINSH_OP_LD_DWORD # bytes32 a)" "text_has t (pc + 5 + length c) (sized w FINSH_OP_ST_BYTE)"
    "text_has t (pc + 5 + length c + 1) (sized w FINSH_OP_LD_VALUE_BYTE_STACK)"
    using t [unfolded e text_has_append] n by (simp_all add: ac_simps)
  have room: "k + 1 + 1 \<le> FINSH_STACK_MAX" by (rule stack_room [OF t1(2)]) (use c(2) k in simp)
  obtain st2 where 2: "vm_loop f (conf t (st(k := a)) (k + 1) (pc + 5) m) = vm_loop f (conf t st2 (k + 1 + 1) (pc + 5 + length c) m1)"
    "\<forall>i < k + 1. st2 i = (st(k := a)) i" "agrees h (st2 (k + 1)) v" by (rule runsE [OF c(1)])
  have a: "st2 k = a" "agrees w (st2 (k + 1)) v" using 2(2) agrees_mono [OF 2(3) w(2,3,1)] by auto
  have 3: "vm_loop f (conf t st2 (k + 1 + 1) (pc + 5 + length c) m1) = vm_loop f (conf t st2 (k + 1) (pc + 5 + length c + 1) (save w a v m1))"
    using run_store [OF t1(2) w(1) _ room, of st2 v f m1] a k(1) by (simp add: ac_simps)
  obtain s where 4: "vm_loop f (conf t st2 (k + 1) (pc + 5 + length c + 1) (save w a v m1)) =
      vm_loop f (conf t (st2(k := s)) (k + 1) (pc + 5 + length c + 1 + 1) (save w a v m1))" "agrees w s (load w a (save w a v m1))"
    using run_load_stack [OF t1(3) w(1), of "k + 1" f st2 "save w a v m1"] a(1) k(1) room by auto
  have "agrees w s v" using 4(2) load_save [OF w(1)] by simp
  then show "\<exists>st'. vm_loop f (conf t st k pc m) = vm_loop f (conf t st' (k + 1)
      (pc + length (FINSH_OP_LD_DWORD # bytes32 a @ c @ sized w FINSH_OP_ST_BYTE @ sized w FINSH_OP_LD_VALUE_BYTE_STACK)) (save w a v m1)) \<and>
      (\<forall>i < k. st' i = st i) \<and> agrees w (st' k) (cut w v)"
    using run_ld_dword [OF t1(1) k, of f st m] 2(1,2) 3 4(1) n
    by (intro exI [of _ "st2(k := s)"]) (simp add: ac_simps)
qed

lemma inc_length: "w \<in> {1, 2, 3} \<Longrightarrow> length (one_code w) \<in> {2, 3, 5}"
  by (auto simp: one_code_def)

lemma runs_pre_inc:
  assumes t: "text_has t pc (FINSH_OP_LD_DWORD # bytes32 a @ ld_value w # bytes32 a @ one_code w @ sized w (inc_op d) @
      sized w FINSH_OP_ST_BYTE @ [FINSH_OP_LD_VALUE_DWORD_STACK])"
    and w: "w \<in> {1, 2, 3}" and k: "0 \<le> k" "2 * k \<le> int pc"
  shows "runs f t (FINSH_OP_LD_DWORD # bytes32 a @ ld_value w # bytes32 a @ one_code w @ sized w (inc_op d) @
      sized w FINSH_OP_ST_BYTE @ [FINSH_OP_LD_VALUE_DWORD_STACK]) pc k m w (cut w (step_by d (load w a m)))
      (save w a (cut w (step_by d (load w a m))) m)"
  unfolding runs_def
proof
  fix st
  let ?v = "cut w (step_by d (load w a m))" and ?n = "length (one_code w)"
  note n = sized_length [OF w] inc_length [OF w]
  have e: "FINSH_OP_LD_DWORD # bytes32 a @ ld_value w # bytes32 a @ one_code w @ sized w (inc_op d) @
      sized w FINSH_OP_ST_BYTE @ [FINSH_OP_LD_VALUE_DWORD_STACK] = (FINSH_OP_LD_DWORD # bytes32 a) @ (ld_value w # bytes32 a @ one_code w @ sized w (inc_op d)) @
      sized w FINSH_OP_ST_BYTE @ sized 3 FINSH_OP_LD_VALUE_BYTE_STACK" by (simp add: sized_def code_sized_def)
  have t1: "text_has t pc (FINSH_OP_LD_DWORD # bytes32 a)" "text_has t (pc + 5) (ld_value w # bytes32 a @ one_code w @ sized w (inc_op d))"
    "text_has t (pc + 11 + ?n) (sized w FINSH_OP_ST_BYTE)" "text_has t (pc + 12 + ?n) (sized 3 FINSH_OP_LD_VALUE_BYTE_STACK)"
    using t [unfolded e text_has_append] n by (simp_all add: ac_simps)
  have room: "k + 1 + 1 \<le> FINSH_STACK_MAX" by (rule stack_room [OF t1(3)]) (use k in simp)
  obtain st2 where 2: "vm_loop f (conf t (st(k := a)) (k + 1) (pc + 5) m) = vm_loop f (conf t st2 (k + 1 + 1) (pc + 5 + 6 + ?n) m)"
    "\<forall>i < k + 1. st2 i = (st(k := a)) i" "agrees w (st2 (k + 1)) ?v"
    using run_step [OF t1(2) _ _ w, of "k + 1" f "st(k := a)" m] k by auto
  have a: "st2 k = a" using 2(2) by auto
  have 3: "vm_loop f (conf t st2 (k + 1 + 1) (pc + 11 + ?n) m) = vm_loop f (conf t st2 (k + 1) (pc + 11 + ?n + 1) (save w a ?v m))"
    using run_store [OF t1(3) w _ room, of st2 ?v f m] a k(1) 2(3) by (simp add: ac_simps)
  obtain s where 4: "vm_loop f (conf t st2 (k + 1) (pc + 12 + ?n) (save w a ?v m)) =
      vm_loop f (conf t (st2(k := s)) (k + 1) (pc + 12 + ?n + 1) (save w a ?v m))" "agrees 3 s (load 3 a (save w a ?v m))"
    using run_load_stack [OF t1(4) _, of "k + 1" f st2 "save w a ?v m"] a k(1) room by auto
  have "agrees w s ?v" using 4(2) get32_save [OF w, of a ?v m] by (simp add: agrees_def load_def)
  then show "\<exists>st'. vm_loop f (conf t st k pc m) = vm_loop f (conf t st' (k + 1)
      (pc + length (FINSH_OP_LD_DWORD # bytes32 a @ ld_value w # bytes32 a @ one_code w @ sized w (inc_op d) @
      sized w FINSH_OP_ST_BYTE @ [FINSH_OP_LD_VALUE_DWORD_STACK])) (save w a ?v m)) \<and>
      (\<forall>i < k. st' i = st i) \<and> agrees w (st' k) ?v"
    using run_ld_dword [OF t1(1) k, of f st m] 2(1,2) 3 4(1) n(1)
    by (intro exI [of _ "st2(k := s)"]) (simp add: ac_simps del: save_cut cut_agrees)
qed

lemma runs_post_inc:
  assumes t: "text_has t pc (ld_value w # bytes32 a @ FINSH_OP_LD_DWORD # bytes32 a @ ld_value w # bytes32 a @ one_code w @ sized w (inc_op d) @
      sized w FINSH_OP_ST_BYTE @ [FINSH_OP_POP])"
    and w: "w \<in> {1, 2, 3}" and k: "0 \<le> k" "2 * k \<le> int pc"
  shows "runs f t (ld_value w # bytes32 a @ FINSH_OP_LD_DWORD # bytes32 a @ ld_value w # bytes32 a @ one_code w @ sized w (inc_op d) @
      sized w FINSH_OP_ST_BYTE @ [FINSH_OP_POP]) pc k m w (load w a m) (save w a (step_by d (load w a m)) m)"
  unfolding runs_def
proof
  fix st
  let ?v = "cut w (step_by d (load w a m))" and ?n = "length (one_code w)"
  note n = sized_length [OF w] inc_length [OF w]
  have e: "ld_value w # bytes32 a @ FINSH_OP_LD_DWORD # bytes32 a @ ld_value w # bytes32 a @ one_code w @ sized w (inc_op d) @
      sized w FINSH_OP_ST_BYTE @ [FINSH_OP_POP] = (ld_value w # bytes32 a) @ (FINSH_OP_LD_DWORD # bytes32 a) @
      (ld_value w # bytes32 a @ one_code w @ sized w (inc_op d)) @ sized w FINSH_OP_ST_BYTE @ [FINSH_OP_POP]" by simp
  have t1: "text_has t pc (ld_value w # bytes32 a)" "text_has t (pc + 5) (FINSH_OP_LD_DWORD # bytes32 a)"
    "text_has t (pc + 10) (ld_value w # bytes32 a @ one_code w @ sized w (inc_op d))"
    "text_has t (pc + 16 + ?n) (sized w FINSH_OP_ST_BYTE)" "text_has t (pc + 17 + ?n) [FINSH_OP_POP]"
    using t [unfolded e text_has_append] n by (simp_all add: ac_simps)
  have room: "k + 2 + 1 \<le> FINSH_STACK_MAX" by (rule stack_room [OF t1(4)]) (use k in simp)
  obtain s where 1: "vm_loop f (conf t st k pc m) = vm_loop f (conf t (st(k := s)) (k + 1) (pc + 5) m)" "agrees w s (load w a m)"
    using run_ld_value [OF t1(1) k w] by blast
  have 2: "vm_loop f (conf t (st(k := s)) (k + 1) (pc + 5) m) = vm_loop f (conf t (st(k := s, k + 1 := a)) (k + 2) (pc + 10) m)"
    using run_ld_dword [OF t1(2), of "k + 1" f "st(k := s)" m] k by (simp add: ac_simps)
  obtain st2 where 3: "vm_loop f (conf t (st(k := s, k + 1 := a)) (k + 2) (pc + 10) m) = vm_loop f (conf t st2 (k + 2 + 1) (pc + 10 + 6 + ?n) m)"
    "\<forall>i < k + 2. st2 i = (st(k := s, k + 1 := a)) i" "agrees w (st2 (k + 2)) ?v"
    using run_step [OF t1(3) _ _ w, of "k + 2" f "st(k := s, k + 1 := a)" m] k by auto
  have a: "st2 (k + 1) = a" "st2 k = s" using 3(2) by auto
  have 4: "vm_loop f (conf t st2 (k + 2 + 1) (pc + 16 + ?n) m) = vm_loop f (conf t st2 (k + 2) (pc + 16 + ?n + 1) (save w a ?v m))"
    using run_store [OF t1(4) w _ room, of st2 ?v f m] a k(1) 3(3) by (simp add: ac_simps)
  have 5: "vm_loop f (conf t st2 (k + 2) (pc + 17 + ?n) (save w a ?v m)) = vm_loop f (conf t st2 (k + 1) (pc + 18 + ?n) (save w a ?v m))"
    using run_pop [OF t1(5), of f st2 "k + 2" "save w a ?v m"] by (simp add: ac_simps)
  show "\<exists>st'. vm_loop f (conf t st k pc m) = vm_loop f (conf t st' (k + 1)
      (pc + length (ld_value w # bytes32 a @ FINSH_OP_LD_DWORD # bytes32 a @ ld_value w # bytes32 a @ one_code w @ sized w (inc_op d) @
      sized w FINSH_OP_ST_BYTE @ [FINSH_OP_POP])) (save w a (step_by d (load w a m)) m)) \<and>
      (\<forall>i < k. st' i = st i) \<and> agrees w (st' k) (load w a m)"
    using 1 2 3(1,2) 4 5 a n(1) by (intro exI [of _ st2]) (simp add: ac_simps)
qed

definition runs_all :: "callee \<Rightarrow> (nat \<Rightarrow> u8) \<Rightarrow> u8 list \<Rightarrow> nat \<Rightarrow> int \<Rightarrow> memory \<Rightarrow> u32 list \<Rightarrow> memory \<Rightarrow> bool" where
  "runs_all f t c pc k m vs m' \<longleftrightarrow> (\<forall>st. \<exists>st'. vm_loop f (conf t st k pc m) = vm_loop f (conf t st' (k + int (length vs)) (pc + length c) m') \<and>
     (\<forall>i < k. st' i = st i) \<and> (\<forall>i < length vs. st' (k + int i) = vs ! i))"

lemma runs_all_Cons:
  assumes p: "runs f t c pc k m FINSH_DATA_TYPE_DWORD v m1" and ps: "runs_all f t cs (pc + length c) (k + 1) m1 vs m2"
  shows "runs_all f t (c @ cs) pc k m (v # vs) m2"
  unfolding runs_all_def
proof
  fix st
  obtain st1 where 1: "vm_loop f (conf t st k pc m) = vm_loop f (conf t st1 (k + 1) (pc + length c) m1)"
    "\<forall>i < k. st1 i = st i" "agrees FINSH_DATA_TYPE_DWORD (st1 k) v" by (rule runsE [OF p])
  obtain st2 where 2: "vm_loop f (conf t st1 (k + 1) (pc + length c) m1) =
      vm_loop f (conf t st2 (k + 1 + int (length vs)) (pc + length c + length cs) m2)"
    "\<forall>i < k + 1. st2 i = st1 i" "\<forall>i < length vs. st2 (k + 1 + int i) = vs ! i" using ps unfolding runs_all_def by blast
  have "st2 (k + int i) = (v # vs) ! i" if "i < length (v # vs)" for i
    using that 1(3) 2(2,3) by (cases i) (auto simp: agrees_def add.assoc)
  then show "\<exists>st'. vm_loop f (conf t st k pc m) = vm_loop f (conf t st' (k + int (length (v # vs))) (pc + length (c @ cs)) m2) \<and>
     (\<forall>i < k. st' i = st i) \<and> (\<forall>i < length (v # vs). st' (k + int i) = (v # vs) ! i)"
    using 1 2(1,2) by (intro exI [of _ st2]) (simp add: ac_simps)
qed

lemma evals_length: "evals sy f ps m = Some (vs, m') \<Longrightarrow> length vs = length ps"
  by (induction ps arbitrary: m vs) (auto split: bind_splits)

lemma runs_assign_at:
  assumes p: "runs f t c pc k m FINSH_DATA_TYPE_DWORD a m1" and y: "runs f t d (pc + length c) (k + 1) m1 FINSH_DATA_TYPE_DWORD v m2"
    and t: "text_has t (pc + length c + length d) [FINSH_OP_ST_DWORD, FINSH_OP_LD_VALUE_DWORD_STACK]"
    and k: "0 \<le> k" "2 * (k + 2) \<le> int (pc + length c + length d)"
  shows "runs f t (c @ d @ [FINSH_OP_ST_DWORD, FINSH_OP_LD_VALUE_DWORD_STACK]) pc k m FINSH_DATA_TYPE_DWORD v (put32 a v m2)"
  unfolding runs_def
proof
  fix st
  obtain st1 where 1: "vm_loop f (conf t st k pc m) = vm_loop f (conf t st1 (k + 1) (pc + length c) m1)"
    "\<forall>i < k. st1 i = st i" "agrees 3 (st1 k) a" by (rule runsE [OF p])
  obtain st2 where 2: "vm_loop f (conf t st1 (k + 1) (pc + length c) m1) = vm_loop f (conf t st2 (k + 1 + 1) (pc + length c + length d) m2)"
    "\<forall>i < k + 1. st2 i = st1 i" "agrees 3 (st2 (k + 1)) v" by (rule runsE [OF y])
  let ?pc = "pc + length c + length d"
  have room: "k + 1 + 1 \<le> FINSH_STACK_MAX" using stack_room [OF t k(2)] by simp
  have a: "st2 k = a" using 1(3) 2(2) by (simp add: agrees_def)
  have t3: "text_has t ?pc (sized 3 FINSH_OP_ST_BYTE)" "text_has t (?pc + 1) (sized 3 FINSH_OP_LD_VALUE_BYTE_STACK)"
    using t by (simp_all add: sized_def code_sized_def)
  have 3: "vm_loop f (conf t st2 (k + 1 + 1) ?pc m2) = vm_loop f (conf t st2 (k + 1) (?pc + 1) (put32 a v m2))"
    using run_store [OF t3(1) _ _ room, of st2 v f m2] a k(1) 2(3) by (simp add: ac_simps save_def)
  obtain s where "vm_loop f (conf t st2 (k + 1) (?pc + 1) (put32 a v m2)) = vm_loop f (conf t (st2(k := s)) (k + 1) (?pc + 1 + 1) (put32 a v m2))"
    "agrees 3 s (load 3 a (put32 a v m2))"
    using run_load_stack [OF t3(2) _, of "k + 1" f st2 "put32 a v m2"] a k(1) room by auto
  then show "\<exists>st'. vm_loop f (conf t st k pc m) = vm_loop f (conf t st' (k + 1)
      (pc + length (c @ d @ [FINSH_OP_ST_DWORD, FINSH_OP_LD_VALUE_DWORD_STACK])) (put32 a v m2)) \<and> (\<forall>i < k. st' i = st i) \<and> agrees 3 (st' k) v"
    using 1 2 3 by (intro exI [of _ "st2(k := s)"]) (simp add: ac_simps load_def)
qed

lemma runs_deref:
  assumes p: "runs f t c pc k m FINSH_DATA_TYPE_DWORD a m1" and t: "text_has t (pc + length c) [FINSH_OP_LD_VALUE_DWORD_STACK]"
    and k: "0 \<le> k" "2 * (k + 1) \<le> int (pc + length c)"
  shows "runs f t (c @ [FINSH_OP_LD_VALUE_DWORD_STACK]) pc k m FINSH_DATA_TYPE_DWORD (get32 a m1) m1"
  unfolding runs_def
proof
  fix st
  obtain st1 where 1: "vm_loop f (conf t st k pc m) = vm_loop f (conf t st1 (k + 1) (pc + length c) m1)"
    "\<forall>i < k. st1 i = st i" "agrees 3 (st1 k) a" by (rule runsE [OF p])
  have room: "k + 1 \<le> FINSH_STACK_MAX" using stack_room [OF t k(2)] by simp
  have "text_has t (pc + length c) (sized 3 FINSH_OP_LD_VALUE_BYTE_STACK)" using t by (simp add: sized_def code_sized_def)
  then obtain s where "vm_loop f (conf t st1 (k + 1) (pc + length c) m1) = vm_loop f (conf t (st1(k := s)) (k + 1) (pc + length c + 1) m1)"
    "agrees 3 s (load 3 a m1)"
    using run_load_stack [of t "pc + length c" 3 "k + 1" f st1 m1] 1(3) k(1) room by (auto simp: agrees_def)
  then show "\<exists>st'. vm_loop f (conf t st k pc m) = vm_loop f (conf t st' (k + 1) (pc + length (c @ [FINSH_OP_LD_VALUE_DWORD_STACK])) m1) \<and>
      (\<forall>i < k. st' i = st i) \<and> agrees 3 (st' k) (get32 a m1)"
    using 1 by (intro exI [of _ "st1(k := s)"]) (simp add: ac_simps load_def)
qed

lemma runs_complement:
  assumes x: "runs f t c pc k m h u m1" and t: "text_has t (pc + length c) (sized w FINSH_OP_BITWISE_BYTE)"
    and w: "w \<in> {1, 2, 3}" "w \<le> h" "h \<in> {1, 2, 3}" and k: "0 \<le> k" "2 * (k + 1) \<le> int (pc + length c)"
  shows "runs f t (c @ sized w FINSH_OP_BITWISE_BYTE) pc k m w (cut w (NOT u)) m1"
  unfolding runs_def
proof
  fix st
  obtain st1 where 1: "vm_loop f (conf t st k pc m) = vm_loop f (conf t st1 (k + 1) (pc + length c) m1)"
    "\<forall>i < k. st1 i = st i" "agrees h (st1 k) u" by (rule runsE [OF x])
  have room: "k + 1 \<le> FINSH_STACK_MAX" using stack_room [OF t k(2)] by simp
  obtain s where "vm_loop f (conf t st1 (k + 1) (pc + length c) m1) = vm_loop f (conf t (st1(k := s)) (k + 1) (pc + length c + 1) m1)"
    "agrees w s (cut w (NOT u))"
    using run_complement [OF t w(1) _ room, of st1 u f m1] agrees_mono [OF 1(3) w(2,3,1)] k(1) by auto
  then show "\<exists>st'. vm_loop f (conf t st k pc m) = vm_loop f (conf t st' (k + 1) (pc + length (c @ sized w FINSH_OP_BITWISE_BYTE)) m1) \<and>
      (\<forall>i < k. st' i = st i) \<and> agrees w (st' k) (cut w (NOT u))"
    using 1 sized_length [OF w(1)] by (intro exI [of _ "st1(k := s)"]) (simp add: ac_simps)
qed

lemma code_runs:
  "expr_ok sy x \<Longrightarrow> text_has t pc (code sy x) \<Longrightarrow> 0 \<le> k \<Longrightarrow> 2 * k \<le> int pc \<Longrightarrow> eval sy f x m = Some (v, m') \<Longrightarrow>
   runs f t (code sy x) pc k m (holds sy x) v m'"
proof (induction x arbitrary: pc k m v m')
  case (Char_const c)
  then show ?case unfolding runs_def using run_ld_byte [of t pc c k f _ m]
    by (auto simp: holds_def agrees_def intro!: exI [of _ "_(k := set_char_value _ c)"])
next
  case (Variable x)
  then show ?case unfolding runs_def
    using run_ld_value [of t pc "id_width sy x" "id_addr sy x" k f _ m] id_ok_width [of sy x]
    by (fastforce simp: holds_def)
next
  case (Binary b x y)
  have ok: "expr_ok sy x" "expr_ok sy y" "width sy x \<in> {1, 2, 3}" "width sy x \<le> holds sy x" "width sy x \<le> holds sy y"
    "holds sy x \<in> {1, 2, 3}" "holds sy y \<in> {1, 2, 3}"
    using Binary.prems(1) width_cases [of sy x] width_cases [of sy y] by auto
  obtain u m1 u' where e: "eval sy f x m = Some (u, m1)" "eval sy f y m1 = Some (u', m')" "binary b (width sy x) u u' = Some v"
    using Binary.prems(5) by (auto split: bind_splits)
  have t: "text_has t pc (code sy x)" "text_has t (pc + length (code sy x)) (code sy y)"
    "text_has t (pc + length (code sy x) + length (code sy y)) (sized (width sy x) (op_code b))"
    using Binary.prems(2) by (simp_all add: text_has_append)
  note l = code_length [OF ok(1)] code_length [OF ok(2)]
  have "runs f t (code sy x) pc k m (holds sy x) u m1" by (rule Binary.IH(1) [OF ok(1) t(1) Binary.prems(3,4) e(1)])
  moreover have "runs f t (code sy y) (pc + length (code sy x)) (k + 1) m1 (holds sy y) u' m'"
    by (rule Binary.IH(2) [OF ok(2) t(2) _ _ e(2)]) (use Binary.prems(3,4) l in simp_all)
  moreover have "holds sy (Binary b x y) = width sy x" by (simp add: holds_def)
  ultimately show ?case using runs_binary [OF _ _ t(3) ok(3,4,6,5,7) Binary.prems(3) _ e(3)] Binary.prems(4) l by simp
next
  case (Complement x)
  have ok: "expr_ok sy x" "width sy x \<in> {1, 2, 3}" "width sy x \<le> holds sy x" "holds sy x \<in> {1, 2, 3}"
    using Complement.prems(1) width_cases [of sy x] by auto
  obtain u where e: "eval sy f x m = Some (u, m')" "v = cut (width sy x) (NOT u)" using Complement.prems(5) by (auto split: bind_splits)
  have t: "text_has t pc (code sy x)" "text_has t (pc + length (code sy x)) (sized (width sy x) FINSH_OP_BITWISE_BYTE)"
    using Complement.prems(2) by (simp_all add: text_has_append)
  have "runs f t (code sy x) pc k m (holds sy x) u m'" by (rule Complement.IH [OF ok(1) t(1) Complement.prems(3,4) e(1)])
  from runs_complement [OF this t(2) ok(2-4) Complement.prems(3)] show ?case
    using code_length [OF ok(1)] Complement.prems(4) e(2) by (simp add: holds_def)
next
  case (Assign x y)
  have ok: "id_ok sy x" "expr_ok sy y" "id_width sy x \<in> {1, 2, 3}" "id_width sy x \<le> holds sy y" "holds sy y \<in> {1, 2, 3}"
    using Assign.prems(1) width_cases [of sy y] id_ok_width [of sy x] by auto
  obtain u m1 where e: "eval sy f y m = Some (u, m1)" "v = cut (id_width sy x) u" "m' = save (id_width sy x) (id_addr sy x) u m1"
    using Assign.prems(5) by (auto split: bind_splits)
  have "text_has t (pc + 5) (code sy y)"
    using Assign.prems(2) text_has_append [of t pc "FINSH_OP_LD_DWORD # bytes32 (id_addr sy x)"] by (simp add: text_has_append)
  then have "runs f t (code sy y) (pc + 5) (k + 1) m (holds sy y) u m1"
    by (rule Assign.IH [OF ok(2) _ _ _ e(1)]) (use Assign.prems(3,4) in simp_all)
  from runs_store [OF _ this code_length [OF ok(2)] ok(3-5) Assign.prems(3,4)] show ?case
    using Assign.prems(2) e(2,3) by (simp add: holds_def)
next
  case (Assign_at p y)
  have ok: "expr_ok sy p" "expr_ok sy y" "holds sy p = 3" "holds sy y = 3" "width sy p = 3"
    using Assign_at.prems(1) width_cases [of sy p] by (auto simp: word_le_nat_alt)
  obtain a m1 m2 where e: "eval sy f p m = Some (a, m1)" "eval sy f y m1 = Some (v, m2)" "m' = put32 a v m2"
    using Assign_at.prems(5) by (auto split: bind_splits)
  have t: "text_has t pc (code sy p)" "text_has t (pc + length (code sy p)) (code sy y)"
    "text_has t (pc + length (code sy p) + length (code sy y)) [FINSH_OP_ST_DWORD, FINSH_OP_LD_VALUE_DWORD_STACK]"
    using Assign_at.prems(2) unfolding code.simps text_has_append by simp_all
  note l = code_length [OF ok(1)] code_length [OF ok(2)]
  have "runs f t (code sy p) pc k m 3 a m1" using Assign_at.IH(1) [OF ok(1) t(1) Assign_at.prems(3,4) e(1)] ok(3) by simp
  moreover have "runs f t (code sy y) (pc + length (code sy p)) (k + 1) m1 3 v m2"
    using Assign_at.IH(2) [OF ok(2) t(2) _ _ e(2), of "k + 1"] ok(4) Assign_at.prems(3,4) l by simp
  ultimately show ?case using runs_assign_at [OF _ _ t(3) Assign_at.prems(3)] e(3) ok(5) l Assign_at.prems(4) by (simp add: holds_def)
next
  case (Pre_inc d x)
  have w: "id_width sy x \<in> {1, 2, 3}" using Pre_inc.prems(1) id_ok_width [of sy x] by simp
  show ?case using runs_pre_inc [OF _ w Pre_inc.prems(3,4), of t "id_addr sy x" d f m] Pre_inc.prems(2,5)
    by (simp add: inc_codes [OF w] holds_def Let_def)
next
  case (Post_inc d x)
  have w: "id_width sy x \<in> {1, 2, 3}" using Post_inc.prems(1) id_ok_width [of sy x] by simp
  show ?case using runs_post_inc [OF _ w Post_inc.prems(3,4), of t "id_addr sy x" d f m] Post_inc.prems(2,5)
    by (auto simp: inc_codes [OF w] holds_def Let_def)
next
  case (Call_fun i ps)
  let ?fn = "syscall_func sy i"
  obtain vs m1 where e: "evals sy f ps m = Some (vs, m1)" "f ?fn vs m1 = Some (v, m')" using Call_fun.prems(5) by (auto split: bind_splits)
  have n: "length vs = length ps" by (rule evals_length [OF e(1)])
  have all: "runs_all f t (concat (map (code sy) qs)) pc' k' m0 us m2 \<and> 2 * (k' + int (length us)) \<le> int (pc' + length (concat (map (code sy) qs)))"
    if "set qs \<subseteq> set ps" "text_has t pc' (concat (map (code sy) qs))" "0 \<le> k'" "2 * k' \<le> int pc'" "evals sy f qs m0 = Some (us, m2)" for qs pc' k' m0 us m2
    using that
  proof (induction qs arbitrary: pc' k' m0 us)
    case Nil
    then show ?case by (auto simp: runs_all_def)
  next
    case (Cons q qs)
    have q: "q \<in> set ps" "expr_ok sy q" "holds sy q = 3" using Cons.prems(1) Call_fun.prems(1) by auto
    obtain u m1 us' where e: "eval sy f q m0 = Some (u, m1)" "evals sy f qs m1 = Some (us', m2)" "us = u # us'"
      using Cons.prems(5) by (auto split: bind_splits)
    have t: "text_has t pc' (code sy q)" "text_has t (pc' + length (code sy q)) (concat (map (code sy) qs))"
      using Cons.prems(2) by (simp_all add: text_has_append)
    note l = code_length [OF q(2)]
    have 1: "runs f t (code sy q) pc' k' m0 3 u m1" using Call_fun.IH [OF q(1,2) t(1) Cons.prems(3,4) e(1)] q(3) by simp
    have 2: "runs_all f t (concat (map (code sy) qs)) (pc' + length (code sy q)) (k' + 1) m1 us' m2 \<and>
        2 * (k' + 1 + int (length us')) \<le> int (pc' + length (code sy q) + length (concat (map (code sy) qs)))"
      by (rule Cons.IH [OF _ t(2) _ _ e(2)]) (use Cons.prems(1,3,4) l in simp_all)
    show ?case using runs_all_Cons [OF 1 conjunct1 [OF 2]] conjunct2 [OF 2] e(3) by simp
  qed
  let ?cs = "concat (map (code sy) ps)"
  have t: "text_has t pc (FINSH_OP_LD_DWORD # bytes32 ?fn)" "text_has t (pc + 5) ?cs" "text_has t (pc + 5 + length ?cs) [FINSH_OP_SYSCALL, of_nat (length ps)]"
    using Call_fun.prems(2) text_has_append [of t pc "FINSH_OP_LD_DWORD # bytes32 ?fn"] text_has_append [of t "pc + 5" ?cs] by simp_all
  have R: "runs_all f t ?cs (pc + 5) (k + 1) m vs m1" "2 * (k + 1 + int (length vs)) \<le> int (pc + 5 + length ?cs)"
    using all [OF order_refl t(2) _ _ e(1), of "k + 1"] Call_fun.prems(3,4) by simp_all
  have room: "k + 1 + int (length ps) \<le> FINSH_STACK_MAX" using stack_room [OF t(3) R(2)] n by simp
  have h: "holds sy (Call_fun i ps) = 3" by (simp add: holds_def)
  show ?case unfolding runs_def h
  proof
    fix st
    obtain st2 where 2: "vm_loop f (conf t (st(k := ?fn)) (k + 1) (pc + 5) m) = vm_loop f (conf t st2 (k + 1 + int (length vs)) (pc + 5 + length ?cs) m1)"
      "\<forall>i < k + 1. st2 i = (st(k := ?fn)) i" "\<forall>i < length vs. st2 (k + 1 + int i) = vs ! i" using R(1) unfolding runs_all_def by blast
    have "st2 k = ?fn" using 2(2) by auto
    then have "vm_loop f (conf t st2 (k + 1 + int (length ps)) (pc + 5 + length ?cs) m1) =
        vm_loop f (conf t (st2(k := v)) (k + 1) (pc + 5 + length ?cs + 2) m')"
      using Call_fun.prems(1,3) n room 2(3) e(2) by (intro run_call [OF t(3), of vs]) auto
    then show "\<exists>st'. vm_loop f (conf t st k pc m) = vm_loop f (conf t st' (k + 1) (pc + length (code sy (Call_fun i ps))) m') \<and>
        (\<forall>i < k. st' i = st i) \<and> agrees 3 (st' k) v"
      using run_ld_dword [OF t(1) Call_fun.prems(3,4), of f st m] 2(1,2) n
      by (intro exI [of _ "st2(k := v)"]) (simp add: agrees_def ac_simps)
  qed
next
  case (Deref p)
  have ok: "expr_ok sy p" "holds sy p = 3" "width sy p = 3"
    using Deref.prems(1) width_cases [of sy p] by (auto simp: word_le_nat_alt)
  obtain a where e: "eval sy f p m = Some (a, m')" "v = get32 a m'" using Deref.prems(5) by (auto split: bind_splits)
  have t: "text_has t pc (code sy p)" "text_has t (pc + length (code sy p)) [FINSH_OP_LD_VALUE_DWORD_STACK]"
    using Deref.prems(2) unfolding code.simps text_has_append by simp_all
  have "runs f t (code sy p) pc k m 3 a m'" using Deref.IH [OF ok(1) t(1) Deref.prems(3,4) e(1)] ok(2) by simp
  from runs_deref [OF this t(2) Deref.prems(3)] show ?case
    using code_length [OF ok(1)] Deref.prems(4) e(2) ok(3) by (simp add: holds_def)
qed (simp_all add: holds_def runs_const)

subsection \<open>Whole lines\<close>

text \<open>The expressions of a line, the value of all but the last being dropped.\<close>

fun line_code :: "symbols \<Rightarrow> expr list \<Rightarrow> u8 list" where
  "line_code sy [] = []"
| "line_code sy [x] = code sy x"
| "line_code sy (x # y # xs) = code sy x @ [FINSH_OP_POP] @ line_code sy (y # xs)"

fun eval_line :: "symbols \<Rightarrow> callee \<Rightarrow> expr list \<Rightarrow> memory \<Rightarrow> (u32 \<times> memory) option" where
  "eval_line sy f [] m = None"
| "eval_line sy f [x] m = eval sy f x m"
| "eval_line sy f (x # y # xs) m = do { (v, m1) \<leftarrow> eval sy f x m; eval_line sy f (y # xs) m1 }"

lemma expr_ok_wf: "expr_ok sy x \<Longrightarrow> expr_wf sy x"
  by (induction x) auto

lemma type_check_line:
  "\<forall>x \<in> set xs. expr_wf sy x \<Longrightarrow> type_check sy 0 (map tree_of xs) err = Some (map (annotate sy) xs, err)"
  by (induction xs) (simp_all add: type_check_annotate)

lemma compile_line:
  "forest ns p (map (annotate sy) xs) F \<Longrightarrow> distinct F \<Longrightarrow> \<forall>x \<in> set xs. expr_wf sy x \<Longrightarrow>
   compile_pc b + length (line_code sy xs) \<le> FINSH_TEXT_MAX \<Longrightarrow>
   \<exists>ns' b'. compile_stmts sy p ns (b, err) = Some (ns', b', err) \<and> code_bytes (line_code sy xs) b = Some b'"
proof (induction xs arbitrary: ns p F b)
  case Nil
  then show ?case by (simp add: compile_stmts.simps)
next
  case (Cons x xs)
  obtain a cs where T: "annotate sy x = Tree a cs" by (cases "annotate sy x")
  from Cons.prems(1) T obtain i F1 F2 where F: "p = Some i" "attrs (ns i) = a" "forest ns (child (ns i)) cs F1"
    "forest ns (sibling (ns i)) (map (annotate sy) xs) F2" "F = i # F1 @ F2" by auto
  let ?ns = "ns(i := (ns i)\<lparr>sibling := None\<rparr>)"
  have d: "i \<notin> set F1" "i \<notin> set F2" "distinct F2" using Cons.prems(2) F(5) by auto
  have f1: "forest ?ns (child (ns i)) cs F1" by (rule forest_cong [OF _ F(3)]) (use d in auto)
  have f2: "forest ?ns (sibling (ns i)) (map (annotate sy) xs) F2" by (rule forest_cong [OF _ F(4)]) (use d in auto)
  have "attrs (?ns i) = a" using F(2) by (auto simp: attrs_def)
  then have "forest ?ns (Some i) [annotate sy x] (i # F1)" using f1 T by simp
  moreover have "gen_code sy [annotate sy x] = Some (code sy x)" using gen_code_annotate [of sy x "[]"] Cons.prems(3) by simp
  ultimately have c: "finsh_compile sy ?ns (Some i) (b, err) = map_option (\<lambda>b'. (b', err)) (code_bytes (code sy x) b)"
    by (rule compile_forest)
  have len: "length (code sy x) \<le> length (line_code sy (x # xs))" by (cases xs) simp_all
  then obtain b1 where b1: "code_bytes (code sy x) b = Some b1" "compile_pc b1 = compile_pc b + length (code sy x)"
    using code_bytes_spec [of b "code sy x"] Cons.prems(4) by force
  have sib: "sibling (ns i) = None \<longleftrightarrow> xs = []" using F(4) by (cases xs; cases "annotate sy (hd xs)") auto
  show ?case
  proof (cases xs)
    case Nil
    then show ?thesis using F(1) c b1(1) sib by (subst compile_stmts.simps) (simp add: compile_stmts.simps [of sy None])
  next
    case (Cons y ys)
    have "compile_pc b1 < FINSH_TEXT_MAX" using Cons.prems(4) b1(2) Cons by simp
    then obtain b2 where b2: "finsh_code_byte FINSH_OP_POP b1 = Some b2" "compile_pc b2 = compile_pc b1 + 1"
      by (simp add: finsh_code_byte_def)
    have le: "compile_pc b2 + length (line_code sy xs) \<le> FINSH_TEXT_MAX" using Cons.prems(4) b1(2) b2(2) Cons by simp
    then obtain ns' b' where "compile_stmts sy (sibling (ns i)) ?ns (b2, err) = Some (ns', b', err)" "code_bytes (line_code sy xs) b2 = Some b'"
      using Cons.IH [OF f2 d(3) _ le] Cons.prems(3) by (auto simp del: fun_upd_apply)
    then show ?thesis using F(1) c b1(1) b2(1) sib Cons
      by (subst compile_stmts.simps) (auto simp: code_bytes_append Let_def)
  qed
qed

lemma run_line:
  "text_has t pc (line_code sy xs) \<Longrightarrow> \<forall>x \<in> set xs. expr_ok sy x \<Longrightarrow> eval_line sy f xs m = Some (v, m') \<Longrightarrow>
   \<exists>st'. vm_loop f (conf t st 0 pc m) = vm_loop f (conf t st' 1 (pc + length (line_code sy xs)) m') \<and> agrees (holds sy (last xs)) (st' 0) v"
proof (induction sy xs arbitrary: pc m st rule: line_code.induct)
  case (2 sy x)
  have "runs f t (code sy x) pc 0 m (holds sy x) v m'" by (rule code_runs) (use 2 in simp_all)
  then show ?case by (rule runsE [where st = st]) auto
next
  case (3 sy x y xs)
  obtain u m1 where e: "eval sy f x m = Some (u, m1)" "eval_line sy f (y # xs) m1 = Some (v, m')"
    using 3(4) by (auto split: bind_splits)
  have t: "text_has t pc (code sy x)" "text_has t (pc + length (code sy x)) [FINSH_OP_POP]"
    "text_has t (pc + length (code sy x) + 1) (line_code sy (y # xs))"
    using 3(2) text_has_append [of t pc "code sy x"] text_has_append [of t "pc + length (code sy x)" "[FINSH_OP_POP]"] by simp_all
  have "runs f t (code sy x) pc 0 m (holds sy x) u m1" by (rule code_runs [OF _ t(1) _ _ e(1)]) (use 3(3) in simp_all)
  then obtain st1 where 1: "vm_loop f (conf t st 0 pc m) = vm_loop f (conf t st1 1 (pc + length (code sy x)) m1)"
    by (rule runsE [where st = st]) auto
  have "vm_loop f (conf t st1 1 (pc + length (code sy x)) m1) = vm_loop f (conf t st1 0 (pc + length (code sy x) + 1) m1)"
    using run_pop [OF t(2), of f st1 1 m1] by simp
  then show ?case using 3(1) [OF t(3) _ e(2), of st1] 3(3) 1 by (auto simp: ac_simps)
qed simp

lemma run_zeros:
  "pc \<le> FINSH_TEXT_MAX \<Longrightarrow> \<forall>i. pc \<le> i \<and> i < FINSH_TEXT_MAX \<longrightarrow> t i = 0 \<Longrightarrow>
   vm_loop f (conf t st k pc m) = Some (conf t st k FINSH_TEXT_MAX m)"
proof (induction n \<equiv> "FINSH_TEXT_MAX - pc" arbitrary: pc)
  case 0
  then show ?case by (simp add: vm_loop.simps)
next
  case (Suc n)
  have "vm_loop f (conf t st k pc m) = vm_loop f (conf t st k (pc + 1) m)"
    by (rule vm_step [of pc t 0]) (use Suc in \<open>simp_all add: op_table_def\<close>)
  also have "\<dots> = Some (conf t st k FINSH_TEXT_MAX m)" by (rule Suc.hyps(1)) (use Suc in simp_all)
  finally show ?case .
qed

lemma text_hasI: "pc + length xs \<le> FINSH_TEXT_MAX \<Longrightarrow> (\<forall>i < length xs. t (pc + i) = xs ! i) \<Longrightarrow> text_has t pc xs"
proof (induction xs arbitrary: pc)
  case (Cons x xs)
  have "t (pc + 1 + i) = xs ! i" if "i < length xs" for i using Cons.prems(2) that by (auto dest: spec [of _ "i + 1"])
  then show ?case using Cons.IH [of "pc + 1"] Cons.prems by fastforce
qed simp

text \<open>What \<^verbatim>\<open>finsh_compiler_run\<close> emits.\<close>

lemma compiler_run_code:
  assumes tree: "forest ns p (map tree_of xs) F" "distinct F" and wf: "\<forall>x \<in> set xs. expr_wf sy x"
    and fits: "length (line_code sy xs) \<le> FINSH_TEXT_MAX"
  shows "\<exists>ns' t. finsh_compiler_run sy p ns err v = Some (ns', err, v\<lparr>text_segment := t, vm_stack := (vm_stack v)(0 := 0)\<rparr>) \<and>
    text_has t 0 (line_code sy xs) \<and> (\<forall>j. length (line_code sy xs) \<le> j \<longrightarrow> t j = 0)"
proof -
  obtain ns1 where 1: "finsh_type_check sy p 0 (ns, err) = Some (ns1, err)" "forest ns1 p (map (annotate sy) xs) F"
    using type_check_forest [OF tree type_check_line [OF wf]] by blast
  let ?b = "\<lparr>code_text = (\<lambda>_. 0), compile_pc = 0\<rparr>"
  have "compile_pc ?b + length (line_code sy xs) \<le> FINSH_TEXT_MAX" using fits by simp
  from compile_line [OF 1(2) tree(2) wf this, of err] code_bytes_spec [OF this] obtain ns2 t where
    2: "compile_stmts sy p ns1 (?b, err) = Some (ns2, \<lparr>code_text = t, compile_pc = length (line_code sy xs)\<rparr>, err)"
    "\<forall>i < length (line_code sy xs). t i = line_code sy xs ! i" "\<forall>j. length (line_code sy xs) \<le> j \<longrightarrow> t j = 0" by auto
  have "text_has t 0 (line_code sy xs)" by (rule text_hasI) (use fits 2(2) in simp_all)
  then show ?thesis using 1(1) 2(1,3) by (intro exI [of _ ns2] exI [of _ t]) (simp add: finsh_compiler_run_def)
qed

lemma run_state:
  "finsh_vm_run f (v\<lparr>text_segment := t, vm_stack := st\<rparr>) = vm_loop f (conf t st 0 0 (vm_mem v))"
proof -
  have s: "v\<lparr>text_segment := t, vm_stack := st, finsh_sp := 0, finsh_pc := 0\<rparr> = conf t st 0 0 (vm_mem v)" by (cases v) (simp add: conf_def)
  show ?thesis unfolding finsh_vm_run_def s ..
qed

lemma compiled_line_runs:
  assumes tree: "forest ns p (map tree_of xs) F" "distinct F" and ok: "\<forall>x \<in> set xs. expr_ok sy x"
    and fits: "length (line_code sy xs) \<le> FINSH_TEXT_MAX" and val: "eval_line sy f xs (vm_mem v) = Some (r, m')"
  shows "\<exists>ns' v1 v2. finsh_compiler_run sy p ns err v = Some (ns', err, v1) \<and> finsh_vm_run f v1 = Some v2 \<and>
    vm_mem v2 = m' \<and> agrees (holds sy (last xs)) (finsh_stack_bottom v2) r"
proof -
  have "\<forall>x \<in> set xs. expr_wf sy x" using ok expr_ok_wf by blast
  from compiler_run_code [OF tree this fits, of err v] obtain ns' t where
    1: "finsh_compiler_run sy p ns err v = Some (ns', err, v\<lparr>text_segment := t, vm_stack := (vm_stack v)(0 := 0)\<rparr>)"
    "text_has t 0 (line_code sy xs)" "\<forall>j. length (line_code sy xs) \<le> j \<longrightarrow> t j = 0" by blast
  from run_line [OF 1(2) ok val] obtain st where
    2: "vm_loop f (conf t ((vm_stack v)(0 := 0)) 0 0 (vm_mem v)) = vm_loop f (conf t st 1 (length (line_code sy xs)) m')"
    "agrees (holds sy (last xs)) (st 0) r" by fastforce
  moreover have "vm_loop f (conf t st 1 (length (line_code sy xs)) m') = Some (conf t st 1 FINSH_TEXT_MAX m')"
    by (rule run_zeros) (use fits 1(3) in simp_all)
  ultimately show ?thesis using 1(1) by (simp add: run_state finsh_stack_bottom_def)
qed

text \<open>
  The shell computes what its expressions mean: when the nodes are the trees of a line of expressions
  whose right operands are not narrower than the left ones, whose code fits into the text segment,
  the type check and the compiler succeed, and the machine returns with the effects of the
  expressions, in order, on memory and calls, and with the value of the last one, to its width, at
  the bottom of the stack, whatever the stack held before.
\<close>

theorem finsh_run_correct:
  assumes tree: "forest ns p (map tree_of xs) F" "distinct F" and ok: "\<forall>x \<in> set xs. expr_ok sy x"
    and fits: "length (line_code sy xs) \<le> FINSH_TEXT_MAX" and val: "eval_line sy f xs (vm_mem v) = Some (r, m')"
  shows "\<exists>ns' v1 v2. finsh_compiler_run sy p ns err v = Some (ns', err, v1) \<and> finsh_vm_run f v1 = Some v2 \<and>
    vm_mem v2 = m' \<and> agrees (holds sy (last xs)) (finsh_stack_bottom v2) r"
  by (rule compiled_line_runs [OF assms])

text \<open>The line \<^verbatim>\<open>a = 6; a * 7;\<close> with \<^verbatim>\<open>int a\<close>.\<close>

definition line_demo :: "expr list" where
  "line_demo = [Assign (Id_var 0) (Int_const 6), Binary Op_mul (Variable (Id_var 0)) (Int_const 7)]"

definition nodes_demo :: nodes where
  "nodes_demo = (\<lambda>_. leaf FINSH_NODE_UNKNOWN)
     (0 := (leaf FINSH_NODE_SYS_ASSIGN)\<lparr>child := Some 1, sibling := Some 3\<rparr>, 1 := (id_leaf (Id_var 0))\<lparr>sibling := Some 2\<rparr>,
      2 := (leaf FINSH_NODE_VALUE_INT)\<lparr>node_value := 6\<rparr>, 3 := (leaf FINSH_NODE_SYS_MUL)\<lparr>child := Some 4\<rparr>,
      4 := (id_leaf (Id_var 0))\<lparr>sibling := Some 5\<rparr>, 5 := (leaf FINSH_NODE_VALUE_INT)\<lparr>node_value := 7\<rparr>)"

definition symbols_demo :: symbols where
  "symbols_demo = \<lparr>var_type = (\<lambda>_. finsh_type_int), var_base = 0x1000, sysvar_type = (\<lambda>_. finsh_type_int), sysvar_var = (\<lambda>_. 0x2000),
     sysvar_at = (\<lambda>_. 0x3000), syscall_func = (\<lambda>_. 0x4000), syscall_at = (\<lambda>_. 0x5000)\<rparr>"

definition vm_demo :: "u32 \<Rightarrow> vm" where
  "vm_demo x = \<lparr>vm_stack = (\<lambda>_. x), finsh_sp = 0, finsh_pc = 0, text_segment = (\<lambda>_. 0), vm_mem = (\<lambda>_. 0)\<rparr>"

lemma nodes_demo_tree: "forest nodes_demo (Some 0) (map tree_of line_demo) [0, 1, 2, 3, 4, 5]"
  by (simp add: nodes_demo_def line_demo_def attrs_def leaf_def id_leaf_def append_eq_Cons_conv)

theorem finsh_run_correct_witness:
  "\<exists>ns' v1 v2. finsh_compiler_run symbols_demo (Some 0) nodes_demo 0 (vm_demo 7) = Some (ns', 0, v1) \<and>
     finsh_vm_run (\<lambda>a vs m. Some (0, m)) v1 = Some v2 \<and> finsh_stack_bottom v2 = 42 \<and> get32 0x1014 (vm_mem v2) = 6"
proof -
  have "eval_line symbols_demo (\<lambda>a vs m. Some (0, m)) line_demo (vm_mem (vm_demo 7)) = Some (42, put32 0x1014 6 (vm_mem (vm_demo 7)))"
    by (simp add: line_demo_def symbols_demo_def id_width_def type_width_def id_type_def id_addr_def save_def load_def binary_def
      total_op_def as_int_def cut_def)
  moreover have h: "holds symbols_demo (last line_demo) = 3"
    by (simp add: line_demo_def symbols_demo_def id_type_def id_width_def type_width_def holds_def)
  moreover have "\<forall>x \<in> set line_demo. expr_ok symbols_demo x"
    by (simp add: line_demo_def symbols_demo_def id_ok_def id_type_def load_code_def id_width_def type_width_def holds_def)
  moreover have "length (line_code symbols_demo line_demo) \<le> FINSH_TEXT_MAX"
    by (simp add: line_demo_def symbols_demo_def id_width_def type_width_def id_type_def sized_def code_sized_def)
  ultimately show ?thesis
    using finsh_run_correct [OF nodes_demo_tree, of symbols_demo "\<lambda>a vs m. Some (0, m)" "vm_demo 7" 42 "put32 0x1014 6 (vm_mem (vm_demo 7))" 0]
    by (auto simp: agrees_def h)
qed

text \<open>
  C40.  A right operand that is narrower than the left one is taken with what the slot held before: the sum
  of an \<^verbatim>\<open>int\<close> and a character adds the upper three bytes of a slot that \<^verbatim>\<open>finsh_compiler_run\<close> does not
  clear, so the same line gives another value after another line.
\<close>

theorem narrow_operand_stale:
  assumes tree: "forest ns p [tree_of (Binary Op_add (Int_const x) (Char_const c))] F" "distinct F"
  shows "\<exists>ns' v1 v2. finsh_compiler_run sy p ns err v = Some (ns', err, v1) \<and> finsh_vm_run f v1 = Some v2 \<and>
    finsh_stack_bottom v2 = x + ((vm_stack v 1 AND 0xffffff00) OR ucast c)"
proof -
  let ?e = "Binary Op_add (Int_const x) (Char_const c)"
  have code: "line_code sy [?e] = FINSH_OP_LD_DWORD # bytes32 x @ [FINSH_OP_LD_BYTE, c, FINSH_OP_ADD_DWORD]"
    by (simp add: sized_def code_sized_def)
  obtain ns' t where 1: "finsh_compiler_run sy p ns err v = Some (ns', err, v\<lparr>text_segment := t, vm_stack := (vm_stack v)(0 := 0)\<rparr>)"
    "text_has t 0 (line_code sy [?e])" "\<forall>j. length (line_code sy [?e]) \<le> j \<longrightarrow> t j = 0"
    using compiler_run_code [of ns p "[?e]" F sy err v] tree unfolding code by auto
  have e: "text_has t 0 (FINSH_OP_LD_DWORD # bytes32 x)" "text_has t 5 [FINSH_OP_LD_BYTE, c]" "text_has t 7 [FINSH_OP_ADD_DWORD]"
    using 1(2) text_has_append [of t 0 "FINSH_OP_LD_DWORD # bytes32 x" "[FINSH_OP_LD_BYTE, c, FINSH_OP_ADD_DWORD]"] unfolding code by simp_all
  let ?st = "((vm_stack v)(0 := 0))(0 := x)" and ?s = "set_char_value (vm_stack v 1) c"
  have "vm_loop f (conf t ((vm_stack v)(0 := 0)) 0 0 (vm_mem v)) = vm_loop f (conf t ?st 1 5 (vm_mem v))"
    using run_ld_dword [OF e(1), of 0 f "(vm_stack v)(0 := 0)" "vm_mem v"] by simp
  also have "\<dots> = vm_loop f (conf t (?st(1 := ?s)) 2 7 (vm_mem v))"
    using run_ld_byte [OF e(2), of 1 f ?st "vm_mem v"] by simp
  also have "\<dots> = vm_loop f (conf t (?st(1 := ?s, 0 := x + ?s)) 1 8 (vm_mem v))"
    using run_op [OF e(3), of f "?st(1 := ?s)" 2 "vm_mem v" "?st(1 := ?s, 0 := x + ?s)" 1 "vm_mem v"]
    by (simp add: op_table_def OP_BIN_DWORD_def total_op_def)
  also have "\<dots> = Some (conf t (?st(1 := ?s, 0 := x + ?s)) 1 FINSH_TEXT_MAX (vm_mem v))"
    by (rule run_zeros) (use 1(3) in \<open>simp_all add: code sized_def code_sized_def\<close>)
  finally show ?thesis using 1(1) by (simp add: run_state finsh_stack_bottom_def set_char_value_def)
qed

text \<open>The line \<^verbatim>\<open>1 + 'a';\<close>, after a line that left 0x100 in the second slot.\<close>

definition nodes_narrow :: nodes where
  "nodes_narrow = (\<lambda>_. leaf FINSH_NODE_UNKNOWN)
     (0 := (leaf FINSH_NODE_SYS_ADD)\<lparr>child := Some 1\<rparr>, 1 := (leaf FINSH_NODE_VALUE_INT)\<lparr>node_value := 1, sibling := Some 2\<rparr>,
      2 := (leaf FINSH_NODE_VALUE_CHAR)\<lparr>node_value := 0x61\<rparr>)"

lemma nodes_narrow_tree:
  "forest nodes_narrow (Some 0) [tree_of (Binary Op_add (Int_const 1) (Char_const 0x61))] [0, 1, 2]"
  by (simp add: nodes_narrow_def attrs_def leaf_def append_eq_Cons_conv)

theorem narrow_operand_stale_witness:
  "\<exists>ns' v1 v2. finsh_compiler_run symbols_demo (Some 0) nodes_narrow 0 (vm_demo 0x100) = Some (ns', 0, v1) \<and>
     finsh_vm_run (\<lambda>a vs m. Some (0, m)) v1 = Some v2 \<and> finsh_stack_bottom v2 = 0x162"
  using narrow_operand_stale [OF nodes_narrow_tree, of symbols_demo 0 "vm_demo 0x100" "\<lambda>a vs m. Some (0, m)"]
  by (simp add: vm_demo_def)

end
