(* ===== verification/Finsh_Grammar.thy ===== *)
theory Finsh_Grammar
  imports Finsh_Parser Finsh_Correct
begin

text \<open>
  The grammar of the expressions, as the comments of \<^verbatim>\<open>finsh_parser.c\<close> give it, and that the parser
  builds the tree of what it reads: theory Finsh_Correct compiles and runs these trees.  The grammar
  has no parentheses around an expression, no casts and no strings.
\<close>

subsection \<open>Streams of tokens\<close>

text \<open>What a token says to the parser: its type, its value, and its string up to the zero.\<close>

type_synonym tok = "finsh_token_type \<times> u32 \<times> u8 list"

fun tok_ok :: "tok \<Rightarrow> finsh_token \<Rightarrow> bool" where
  "tok_ok (ty, v, str) t \<longleftrightarrow> current_token t = ty \<and> \<not> replay t
     \<and> (ty \<in> {finsh_token_type_value_int, finsh_token_type_value_long} \<longrightarrow> token_value t = v)
     \<and> (ty = finsh_token_type_value_char \<longrightarrow> char_value (token_value t) = char_value v)
     \<and> (ty = finsh_token_type_identifier \<longrightarrow> takeWhile (\<lambda>c. c \<noteq> 0) (token_string t) = str)"

text \<open>The tokens that the lexer gives from a state on, without an error.\<close>

fun yields :: "finsh_token \<Rightarrow> tok list \<Rightarrow> bool" where
  "yields t [] \<longleftrightarrow> True"
| "yields t (k # ks) \<longleftrightarrow> (\<exists>t'. (\<forall>err. finsh_token_token t err = Some (fst k, t', err)) \<and> tok_ok k t' \<and> yields t' ks)"

lemma yields_replay:
  assumes "tok_ok k t" "yields t ks"
  shows "yields (finsh_token_replay t) (k # ks)"
proof -
  have r: "t\<lparr>replay := False\<rparr> = t" using assms(1) by (cases k; cases t) auto
  have "finsh_token_token (finsh_token_replay t) err = Some (fst k, t, err)" for err
    using assms(1) r by (cases k) (auto simp: finsh_token_token_def finsh_token_replay_def)
  then show ?thesis using assms by auto
qed

definition parsing :: "finsh_token \<Rightarrow> nodes \<Rightarrow> finsh \<Rightarrow> finsh" where
  "parsing t ns s = s\<lparr>parser_token := t, global_node_table := ns\<rparr>"

lemma parsing_simps [simp]:
  "parser_token (parsing t ns s) = t" "global_node_table (parsing t ns s) = ns" "global_errno (parsing t ns s) = global_errno s"
  "parsing t' ns' (parsing t ns s) = parsing t' ns' s" "machine (parsing t ns s) = machine s"
  "parser_root (parsing t ns s) = parser_root s" "global_variable (parsing t ns s) = global_variable s"
  "global_sysvar_list (parsing t ns s) = global_sysvar_list s" "global_syscall_list (parsing t ns s) = global_syscall_list s"
  "token_replay (parsing t ns s) = parsing (finsh_token_replay t) ns s"
  "upd_node i f (parsing t ns s) = parsing t (ns(i := f (ns i))) s"
  by (simp_all add: parsing_def token_replay_def upd_node_def)

lemma parsing_self: "s = parsing (parser_token s) (global_node_table s) s"
  by (simp add: parsing_def)

lemma next_token_yields:
  assumes "yields t (k # ks)"
  obtains t' where "next_token (parsing t ns s) = Some (fst k, parsing t' ns s)" "tok_ok k t'" "yields t' ks"
    "yields (finsh_token_replay t') (k # ks)"
proof -
  from assms obtain t' where t: "\<forall>err. finsh_token_token t err = Some (fst k, t', err)" "tok_ok k t'" "yields t' ks" by auto
  show ?thesis
    by (rule that [of t']) (use t yields_replay [OF t(2,3)] in \<open>simp_all add: next_token_def parsing_def\<close>)
qed

declare yields.simps(2) [simp del]

subsection \<open>Free nodes\<close>

definition free_nodes :: "nodes \<Rightarrow> nat set" where
  "free_nodes ns = {i. i < FINSH_NODE_MAX \<and> node_type (ns i) = FINSH_NODE_UNKNOWN}"

definition clean :: "nodes \<Rightarrow> bool" where
  "clean ns \<longleftrightarrow> (\<forall>i. node_type (ns i) = FINSH_NODE_UNKNOWN \<longrightarrow> ns i = no_node)"

text \<open>The step from one table to another that builds trees with the nodes \<open>F\<close>.\<close>

definition builds :: "nodes \<Rightarrow> nodes \<Rightarrow> nat option \<Rightarrow> tree list \<Rightarrow> nat list \<Rightarrow> bool" where
  "builds ns ns' p ts F \<longleftrightarrow> forest ns' p ts F \<and> distinct F \<and> set F \<subseteq> free_nodes ns \<and>
     (\<forall>j. j \<notin> set F \<longrightarrow> ns' j = ns j) \<and> (\<forall>j \<in> set F. node_type (ns' j) \<noteq> FINSH_NODE_UNKNOWN)"

lemma builds_free: "builds ns ns' p ts F \<Longrightarrow> free_nodes ns' = free_nodes ns - set F"
  by (auto simp: builds_def free_nodes_def)

lemma builds_clean: "builds ns ns' p ts F \<Longrightarrow> clean ns \<Longrightarrow> clean ns'"
  unfolding builds_def clean_def by metis

lemma finite_free [simp]: "finite (free_nodes ns)"
  by (simp add: free_nodes_def)

fun tree_size :: "tree \<Rightarrow> nat" where
  "tree_size (Tree a cs) = Suc (sum_list (map tree_size cs))"

abbreviation trees_size :: "tree list \<Rightarrow> nat" where
  "trees_size ts \<equiv> sum_list (map tree_size ts)"

lemma forest_length: "forest ns p ts F \<Longrightarrow> length F = trees_size ts"
  by (induction ns p ts F rule: forest.induct) auto

lemma builds_card: "builds ns ns' p ts F \<Longrightarrow> card (free_nodes ns') = card (free_nodes ns) - trees_size ts"
proof -
  assume b: "builds ns ns' p ts F"
  then have "set F \<subseteq> free_nodes ns" "card (set F) = trees_size ts"
    by (auto simp: builds_def distinct_card forest_length)
  then show ?thesis using builds_free [OF b] by (simp add: card_Diff_subset)
qed

lemma allocate_free:
  assumes "free_nodes ns \<noteq> {}" "clean ns"
  obtains i where "i \<in> free_nodes ns" "ns i = no_node"
    "\<And>ty t s. finsh_node_allocate ty (parsing t ns s) = (Some i, parsing t (ns(i := no_node\<lparr>node_type := ty\<rparr>)) s)"
proof -
  let ?P = "\<lambda>i. node_type (ns i) = FINSH_NODE_UNKNOWN"
  obtain i where i: "find ?P [0..<FINSH_NODE_MAX] = Some i"
    using assms(1) by (cases "find ?P [0..<FINSH_NODE_MAX]") (auto simp: find_None_iff free_nodes_def)
  then have f: "i \<in> free_nodes ns" by (auto simp: find_Some_iff free_nodes_def)
  then have n: "ns i = no_node" using assms(2) by (simp add: clean_def free_nodes_def)
  show ?thesis
    by (rule that [of i]) (use f n in \<open>simp_all add: finsh_node_allocate_def i\<close>)
qed

text \<open>A leaf, and a node over the trees behind it.\<close>

lemma builds_leaf:
  assumes "i \<in> free_nodes ns" "attrs n = a" "sibling n = None" "child n = None" "node_type n \<noteq> FINSH_NODE_UNKNOWN"
  shows "builds ns (ns(i := n)) (Some i) [Tree a []] [i]"
  using assms by (auto simp: builds_def)

text \<open>Two trees or rows of trees in one table, from whichever was built first.\<close>

definition both :: "nodes \<Rightarrow> nodes \<Rightarrow> nat option \<Rightarrow> tree list \<Rightarrow> nat list \<Rightarrow> nat option \<Rightarrow> tree list \<Rightarrow> nat list \<Rightarrow> bool" where
  "both ns ns' p xs F q ys G \<longleftrightarrow> forest ns' p xs F \<and> forest ns' q ys G \<and> distinct (F @ G) \<and> set (F @ G) \<subseteq> free_nodes ns \<and>
     (\<forall>j. j \<notin> set (F @ G) \<longrightarrow> ns' j = ns j) \<and> (\<forall>j \<in> set (F @ G). node_type (ns' j) \<noteq> FINSH_NODE_UNKNOWN)"

lemma both_sym: "both ns ns' p xs F q ys G \<Longrightarrow> both ns ns' q ys G p xs F"
  by (auto simp: both_def)

lemma builds_both:
  assumes "builds ns ns1 p xs F" "builds ns1 ns2 q ys G"
  shows "both ns ns2 p xs F q ys G"
proof -
  have f: "free_nodes ns1 = free_nodes ns - set F" by (rule builds_free [OF assms(1)])
  have d: "set F \<inter> set G = {}" using assms(2) f by (auto simp: builds_def)
  have "forest ns2 p xs F" by (rule forest_cong [of F _ ns1]) (use assms d in \<open>auto simp: builds_def\<close>)
  then show ?thesis using assms d f unfolding both_def builds_def by (auto; metis)
qed

lemma both_join:
  assumes b: "both ns ns' (Some i) [x] F q ys G"
  shows "builds ns (ns'(i := (ns' i)\<lparr>sibling := q\<rparr>)) (Some i) (x # ys) (F @ G)"
proof -
  obtain a cs where x: "x = Tree a cs" by (cases x)
  from b x obtain F1 where F: "F = i # F1" "attrs (ns' i) = a" "forest ns' (child (ns' i)) cs F1" "distinct (F @ G)" "forest ns' q ys G"
    by (auto simp: both_def)
  let ?ns = "ns'(i := (ns' i)\<lparr>sibling := q\<rparr>)"
  have "forest ?ns (child (ns' i)) cs F1" by (rule forest_cong [OF _ F(3)]) (use F(1,4) in auto)
  moreover have "forest ?ns q ys G" by (rule forest_cong [OF _ F(5)]) (use F(1,4) in auto)
  moreover have "attrs (?ns i) = a" using F(2) by (simp add: attrs_def)
  ultimately have "forest ?ns (Some i) (x # ys) (F @ G)"
    unfolding x by (intro iffD2 [OF forest.simps(2)] exI [of _ i] exI [of _ F1] exI [of _ G]) (simp add: F(1))
  then show ?thesis using b F(1) by (auto simp: builds_def both_def)
qed

lemma builds_Nil: "builds ns ns None [] []"
  by (simp add: builds_def)

lemma both_Nil: "builds ns ns' p xs F \<Longrightarrow> both ns ns' p xs F None [] []"
  by (rule builds_both [OF _ builds_Nil])

lemma builds_node:
  assumes "builds ns ns1 (Some j) ts F" "i \<in> free_nodes ns1" "ty \<noteq> FINSH_NODE_UNKNOWN"
  shows "builds ns (ns1(i := no_node\<lparr>node_type := ty, child := Some j\<rparr>)) (Some i) [Tree (leaf ty) ts] (i # F)"
proof -
  let ?ns = "ns1(i := no_node\<lparr>node_type := ty, child := Some j\<rparr>)"
  have f: "free_nodes ns1 = free_nodes ns - set F" by (rule builds_free [OF assms(1)])
  have "forest ?ns (Some j) ts F" by (rule forest_cong [of F _ ns1]) (use assms(1,2) f in \<open>auto simp: builds_def\<close>)
  then show ?thesis using assms f by (auto simp: builds_def leaf_def no_node_def attrs_def)
qed

lemma both_card:
  assumes "both ns ns' p xs F q ys G"
  shows "card (free_nodes ns') = card (free_nodes ns) - (trees_size xs + trees_size ys)"
proof -
  have f: "free_nodes ns' = free_nodes ns - set (F @ G)" using assms by (auto simp: both_def free_nodes_def)
  have "card (set (F @ G)) = trees_size xs + trees_size ys"
    using assms unfolding both_def by (metis distinct_card forest_length length_append)
  then show ?thesis using assms unfolding f by (subst card_Diff_subset) (auto simp: both_def)
qed

lemma both_clean: "both ns ns' p xs F q ys G \<Longrightarrow> clean ns \<Longrightarrow> clean ns'"
  unfolding both_def clean_def by metis

lemma make_sys_both:
  assumes b: "both ns ns' (Some i) [x] F q ys G" and "clean ns" "Suc (tree_size x + trees_size ys) \<le> card (free_nodes ns)"
    and ty: "ty \<noteq> FINSH_NODE_UNKNOWN"
  obtains k ns'' where "make_sys_node ty (Some i) q (parsing t ns' s) = (Some k, parsing t ns'' s)"
    "builds ns ns'' (Some k) [Tree (leaf ty) (x # ys)] (k # F @ G)"
proof -
  let ?ns1 = "ns'(i := (ns' i)\<lparr>sibling := q\<rparr>)"
  have "0 < card (free_nodes ns')" using both_card [OF b] assms(3) by simp
  then have "free_nodes ns' \<noteq> {}" by auto
  from allocate_free [OF this both_clean [OF b assms(2)]] obtain k where
    k: "k \<in> free_nodes ns'" "\<And>ty t s. finsh_node_allocate ty (parsing t ns' s) = (Some k, parsing t (ns'(k := no_node\<lparr>node_type := ty\<rparr>)) s)"
    by metis
  have i: "node_type (ns' i) \<noteq> FINSH_NODE_UNKNOWN" using b by (cases x) (auto simp: both_def)
  then have ki: "k \<noteq> i" using k(1) by (auto simp: free_nodes_def)
  have "k \<in> free_nodes ?ns1" using k(1) ki by (auto simp: free_nodes_def)
  from builds_node [OF both_join [OF b] this ty] have
    "builds ns (?ns1(k := no_node\<lparr>node_type := ty, child := Some i\<rparr>)) (Some k) [Tree (leaf ty) (x # ys)] (k # F @ G)" .
  moreover have "make_sys_node ty (Some i) q (parsing t ns' s)
      = (Some k, parsing t (?ns1(k := no_node\<lparr>node_type := ty, child := Some i\<rparr>)) s)"
    using ki by (simp add: make_sys_node_def k(2) fun_upd_twist)
  ultimately show ?thesis by (rule that [rotated])
qed

lemma new_leaf:
  assumes "free_nodes ns \<noteq> {}" "clean ns" "attrs (f (no_node\<lparr>node_type := ty\<rparr>)) = a"
    "sibling (f (no_node\<lparr>node_type := ty\<rparr>)) = None" "child (f (no_node\<lparr>node_type := ty\<rparr>)) = None"
    "node_type (f (no_node\<lparr>node_type := ty\<rparr>)) \<noteq> FINSH_NODE_UNKNOWN"
  obtains k ns' where "finsh_node_new ty f (parsing t ns s) = (Some k, parsing t ns' s)" "builds ns ns' (Some k) [Tree a []] [k]"
proof -
  from allocate_free [OF assms(1,2)] obtain k where
    k: "k \<in> free_nodes ns" "\<And>ty t s. finsh_node_allocate ty (parsing t ns s) = (Some k, parsing t (ns(k := no_node\<lparr>node_type := ty\<rparr>)) s)"
    by metis
  show ?thesis
    by (rule that [of k "ns(k := f (no_node\<lparr>node_type := ty\<rparr>))"], simp add: finsh_node_new_def k(2))
      (rule builds_leaf [OF k(1) assms(3-6)])
qed

lemma new_value:
  assumes "free_nodes ns \<noteq> {}" "clean ns" "ty \<noteq> FINSH_NODE_UNKNOWN"
  obtains k ns' where "finsh_node_new ty (\<lambda>n. n\<lparr>node_value := v\<rparr>) (parsing t ns s) = (Some k, parsing t ns' s)"
    "builds ns ns' (Some k) [Tree ((leaf ty)\<lparr>node_value := v\<rparr>) []] [k]"
  by (rule new_leaf [OF assms(1,2), where t = t and s = s, of "\<lambda>n. n\<lparr>node_value := v\<rparr>" ty "(leaf ty)\<lparr>node_value := v\<rparr>"])
    (use assms(3) that in \<open>auto simp: attrs_def leaf_def no_node_def\<close>)

subsection \<open>The grammar\<close>

text \<open>
  The productions of the comments, with the expressions they stand for; \<open>R\<close> says what an identifier
  names.  The left side of an assignment is an expression of the level below it, as in the code.
\<close>

inductive derives :: "(u8 list \<Rightarrow> ident \<Rightarrow> bool) \<Rightarrow> goal \<Rightarrow> expr \<Rightarrow> tok list \<Rightarrow> bool"
  and derives_list :: "(u8 list \<Rightarrow> ident \<Rightarrow> bool) \<Rightarrow> expr list \<Rightarrow> tok list \<Rightarrow> bool" for R where
  inclusive_or: "derives R (Binary_expr Inclusive_or) x ts \<Longrightarrow> derives R Assign_expr x ts"
| assign: "derives R (Binary_expr Inclusive_or) (Variable v) ts \<Longrightarrow> derives R Assign_expr y us \<Longrightarrow> fst k = finsh_token_type_assign \<Longrightarrow>
    derives R Assign_expr (Assign v y) (ts @ k # us)"
| assign_at: "derives R (Binary_expr Inclusive_or) (Deref p) ts \<Longrightarrow> derives R Assign_expr y us \<Longrightarrow> fst k = finsh_token_type_assign \<Longrightarrow>
    derives R Assign_expr (Assign_at p y) (ts @ k # us)"
| operand: "derives R (level_operand l) x ts \<Longrightarrow> derives R (Binary_expr l) x ts"
| binary: "derives R (Binary_expr l) x ts \<Longrightarrow> derives R (level_operand l) y us \<Longrightarrow> level_op l (fst k) = Some (op_node b) \<Longrightarrow>
    derives R (Binary_expr l) (Binary b x y) (ts @ k # us)"
| unary: "derives R Unary_expr x ts \<Longrightarrow> derives R Cast_expr x ts"
| plus: "derives R Cast_expr x ts \<Longrightarrow> fst k = finsh_token_type_add \<Longrightarrow> derives R Unary_expr x (k # ts)"
| minus: "derives R Cast_expr x ts \<Longrightarrow> fst k = finsh_token_type_sub \<Longrightarrow>
    derives R Unary_expr (Binary Op_sub (Long_const 0) x) (k # ts)"
| pre_inc: "derives R Cast_expr (Variable v) ts \<Longrightarrow> fst k = (if d then finsh_token_type_inc else finsh_token_type_dec) \<Longrightarrow>
    derives R Unary_expr (Pre_inc d v) (k # ts)"
| complement: "derives R Cast_expr x ts \<Longrightarrow> fst k = finsh_token_type_bitwise \<Longrightarrow> derives R Unary_expr (Complement x) (k # ts)"
| deref: "derives R Cast_expr x ts \<Longrightarrow> fst k = finsh_token_type_mul \<Longrightarrow> derives R Unary_expr (Deref x) (k # ts)"
| address: "derives R Cast_expr (Variable v) ts \<Longrightarrow> fst k = finsh_token_type_and \<Longrightarrow> derives R Unary_expr (Address v) (k # ts)"
| postfix: "derives R Postfix_expr x ts \<Longrightarrow> derives R Unary_expr x ts"
| primary: "derives R Primary_expr x ts \<Longrightarrow> derives R Postfix_expr x ts"
| post_inc: "derives R Postfix_expr (Variable v) ts \<Longrightarrow> fst k = (if d then finsh_token_type_inc else finsh_token_type_dec) \<Longrightarrow>
    derives R Postfix_expr (Post_inc d v) (ts @ [k])"
| call: "derives R Postfix_expr (Function i) ts \<Longrightarrow> fst k = finsh_token_type_left_paren \<Longrightarrow> fst k' = finsh_token_type_right_paren \<Longrightarrow>
    derives R Postfix_expr (Call_fun i []) (ts @ [k, k'])"
| call_list: "derives R Postfix_expr (Function i) ts \<Longrightarrow> derives_list R ps us \<Longrightarrow> fst k = finsh_token_type_left_paren \<Longrightarrow>
    fst k' = finsh_token_type_right_paren \<Longrightarrow> derives R Postfix_expr (Call_fun i ps) (ts @ k # us @ [k'])"
| variable: "R str v \<Longrightarrow> \<forall>i. v \<noteq> Id_syscall i \<Longrightarrow> k = (finsh_token_type_identifier, a, str) \<Longrightarrow> derives R Primary_expr (Variable v) [k]"
| func: "R str (Id_syscall i) \<Longrightarrow> k = (finsh_token_type_identifier, a, str) \<Longrightarrow> derives R Primary_expr (Function i) [k]"
| int_const: "k = (finsh_token_type_value_int, a, str) \<Longrightarrow> derives R Primary_expr (Int_const a) [k]"
| long_const: "k = (finsh_token_type_value_long, a, str) \<Longrightarrow> derives R Primary_expr (Long_const a) [k]"
| char_const: "k = (finsh_token_type_value_char, a, str) \<Longrightarrow> derives R Primary_expr (Char_const (char_value a)) [k]"
| single: "derives R Assign_expr x ts \<Longrightarrow> derives_list R [x] ts"
| more: "derives R Assign_expr x ts \<Longrightarrow> derives_list R ps us \<Longrightarrow> fst k = finsh_token_type_comma \<Longrightarrow> derives_list R (x # ps) (ts @ k # us)"

text \<open>The tokens with which an expression begins.\<close>

definition literal :: "finsh_token_type \<Rightarrow> bool" where
  "literal ty \<longleftrightarrow> ty \<in> {finsh_token_type_identifier, finsh_token_type_value_int, finsh_token_type_value_long, finsh_token_type_value_char}"

definition begins :: "finsh_token_type \<Rightarrow> bool" where
  "begins ty \<longleftrightarrow> literal ty \<or> ty \<in> {finsh_token_type_add, finsh_token_type_sub, finsh_token_type_inc, finsh_token_type_dec,
     finsh_token_type_bitwise, finsh_token_type_mul, finsh_token_type_and}"

definition starts :: "goal \<Rightarrow> finsh_token_type \<Rightarrow> bool" where
  "starts g ty \<longleftrightarrow> (if g \<in> {Primary_expr, Postfix_expr} then literal ty else begins ty)"

lemma starts_simps [simp]:
  "starts Primary_expr = literal" "starts Postfix_expr = literal" "starts Assign_expr = begins" "starts (Binary_expr l) = begins"
  "starts Cast_expr = begins" "starts Unary_expr = begins" "starts (level_operand l) = begins" "literal ty \<Longrightarrow> begins ty"
  by (auto simp: starts_def begins_def fun_eq_iff) (cases l; simp)+

lemma begins_simps:
  "begins finsh_token_type_add" "begins finsh_token_type_sub" "begins finsh_token_type_inc" "begins finsh_token_type_dec"
  "begins finsh_token_type_bitwise" "begins finsh_token_type_mul" "begins finsh_token_type_and"
  "literal finsh_token_type_identifier" "literal finsh_token_type_value_int" "literal finsh_token_type_value_long"
  "literal finsh_token_type_value_char"
  by (simp_all add: begins_def literal_def)

lemma derives_starts:
  "derives R g x ts \<Longrightarrow> ts \<noteq> [] \<and> starts g (fst (hd ts))"
  "derives_list R ps ts \<Longrightarrow> ts \<noteq> [] \<and> begins (fst (hd ts))"
  by (induction rule: derives_derives_list.inducts) (simp_all add: begins_simps)

subsection \<open>What stops a routine\<close>

fun levels :: "level \<Rightarrow> level list" where
  "levels Multiplicative = [Multiplicative]"
| "levels Additive = [Multiplicative, Additive]"
| "levels Shift = [Multiplicative, Additive, Shift]"
| "levels And = [Multiplicative, Additive, Shift, And]"
| "levels Exclusive_or = [Multiplicative, Additive, Shift, And, Exclusive_or]"
| "levels Inclusive_or = [Multiplicative, Additive, Shift, And, Exclusive_or, Inclusive_or]"

definition op_stops :: "level \<Rightarrow> finsh_token_type \<Rightarrow> bool" where
  "op_stops l ty \<longleftrightarrow> ty \<notin> {finsh_token_type_inc, finsh_token_type_dec, finsh_token_type_left_paren}
     \<and> (\<forall>l' \<in> set (levels l). level_op l' ty = None)"

fun stops :: "goal \<Rightarrow> finsh_token_type \<Rightarrow> bool" where
  "stops Assign_expr ty \<longleftrightarrow> op_stops Inclusive_or ty \<and> ty \<noteq> finsh_token_type_assign"
| "stops (Binary_expr l) ty \<longleftrightarrow> op_stops l ty"
| "stops Primary_expr ty \<longleftrightarrow> True"
| "stops g ty \<longleftrightarrow> ty \<notin> {finsh_token_type_inc, finsh_token_type_dec, finsh_token_type_left_paren}"

text \<open>What must follow for a routine to reach its loop with the whole expression; the loops go on from there.\<close>

fun reaches :: "goal \<Rightarrow> finsh_token_type \<Rightarrow> bool" where
  "reaches (Binary_expr l) ty \<longleftrightarrow> stops (level_operand l) ty"
| "reaches Postfix_expr ty \<longleftrightarrow> True"
| "reaches g ty \<longleftrightarrow> stops g ty"

fun goes_on :: "finsh_env \<Rightarrow> goal \<Rightarrow> nat option \<Rightarrow> finsh \<Rightarrow> (nat option \<times> finsh) option" where
  "goes_on e (Binary_expr l) n s = proc e (Binary_loop l n, s)"
| "goes_on e Postfix_expr n s = proc e (Postfix_loop n, s)"
| "goes_on e g n s = Some (n, s)"

lemma stops_operand: "stops (Binary_expr l) ty \<longleftrightarrow> stops (level_operand l) ty \<and> level_op l ty = None"
  by (cases l) (auto simp: op_stops_def)

lemma op_continues: "level_op l ty \<noteq> None \<Longrightarrow> stops (level_operand l) ty"
  by (cases l) (auto simp: op_stops_def split: if_splits)

definition parsed :: "finsh_env \<Rightarrow> finsh \<Rightarrow> goal \<Rightarrow> expr \<Rightarrow> tok list \<Rightarrow> bool" where
  "parsed e s g x ts \<longleftrightarrow>
     (\<forall>t ns k r. yields t (ts @ k # r) \<longrightarrow> reaches g (fst k) \<longrightarrow> clean ns \<longrightarrow> tree_size (tree_of x) \<le> card (free_nodes ns) \<longrightarrow>
        (\<exists>i t' ns' F. proc e (g, parsing t ns s) = goes_on e g (Some i) (parsing t' ns' s) \<and> yields t' (k # r)
           \<and> builds ns ns' (Some i) [tree_of x] F))"

text \<open>The same with the loop left behind.\<close>

definition parsed_whole :: "finsh_env \<Rightarrow> finsh \<Rightarrow> goal \<Rightarrow> expr \<Rightarrow> tok list \<Rightarrow> bool" where
  "parsed_whole e s g x ts \<longleftrightarrow>
     (\<forall>t ns k r. yields t (ts @ k # r) \<longrightarrow> stops g (fst k) \<longrightarrow> clean ns \<longrightarrow> tree_size (tree_of x) \<le> card (free_nodes ns) \<longrightarrow>
        (\<exists>i t' ns' F. proc e (g, parsing t ns s) = Some (Some i, parsing t' ns' s) \<and> yields t' (k # r)
           \<and> builds ns ns' (Some i) [tree_of x] F))"

lemma binary_loop_stops:
  assumes "yields t (k # r)" "level_op l (fst k) = None"
  obtains t' where "proc e (Binary_loop l n, parsing t ns s) = Some (n, parsing t' ns s)" "yields t' (k # r)"
proof -
  from next_token_yields [OF assms(1), of ns s] obtain t1 where
    1: "next_token (parsing t ns s) = Some (fst k, parsing t1 ns s)" "yields (finsh_token_replay t1) (k # r)" by metis
  show ?thesis
    by (rule that [of "finsh_token_replay t1"]) (use 1 assms(2) in \<open>simp_all add: proc.simps [of e "(Binary_loop l n, _)"] binary_loop_def\<close>)
qed

lemma postfix_loop_stops:
  assumes "yields t (k # r)" "stops Postfix_expr (fst k)"
  obtains t' where "proc e (Postfix_loop n, parsing t ns s) = Some (n, parsing t' ns s)" "yields t' (k # r)"
proof -
  from next_token_yields [OF assms(1), of ns s] obtain t1 where
    1: "next_token (parsing t ns s) = Some (fst k, parsing t1 ns s)" "yields (finsh_token_replay t1) (k # r)" by metis
  show ?thesis
    by (rule that [of "finsh_token_replay t1"]) (use 1 assms(2) in \<open>simp_all add: proc.simps [of e "(Postfix_loop n, _)"] postfix_loop_def\<close>)
qed

lemma goes_on_stops:
  assumes "yields t (k # r)" "stops g (fst k)"
  obtains t' where "goes_on e g n (parsing t ns s) = Some (n, parsing t' ns s)" "yields t' (k # r)"
proof (cases g)
  case (Binary_expr l)
  then show ?thesis using binary_loop_stops [OF assms(1), of l e n ns s] assms(2) that by (simp add: stops_operand del: stops.simps) metis
next
  case Postfix_expr
  then show ?thesis using postfix_loop_stops [OF assms(1), of e n ns s] assms(2) that by (simp del: stops.simps) metis
qed (use assms(1) that in simp_all)

lemma stops_reaches: "stops g ty \<Longrightarrow> reaches g ty"
  by (cases g) (simp_all add: stops_operand del: stops.simps)

lemma parsed_whole: "parsed e s g x ts \<Longrightarrow> parsed_whole e s g x ts"
  unfolding parsed_whole_def parsed_def
proof (intro allI impI, goal_cases)
  case (1 t ns k r)
  then obtain i t' ns' F where
    2: "proc e (g, parsing t ns s) = goes_on e g (Some i) (parsing t' ns' s)" "yields t' (k # r)" "builds ns ns' (Some i) [tree_of x] F"
    using stops_reaches by blast
  from goes_on_stops [OF 2(2) 1(3), of e "Some i" ns' s] 2 show ?case by metis
qed

lemma parsed_wholeE:
  assumes "parsed_whole e s g x ts" "yields t (ts @ k # r)" "stops g (fst k)" "clean ns" "tree_size (tree_of x) \<le> card (free_nodes ns)"
  obtains i t' ns' F where "proc e (g, parsing t ns s) = Some (Some i, parsing t' ns' s)" "yields t' (k # r)"
    "builds ns ns' (Some i) [tree_of x] F"
  using assms unfolding parsed_whole_def by blast

lemma parsedE:
  assumes "parsed e s g x ts" "yields t (ts @ k # r)" "reaches g (fst k)" "clean ns" "tree_size (tree_of x) \<le> card (free_nodes ns)"
  obtains i t' ns' F where "proc e (g, parsing t ns s) = goes_on e g (Some i) (parsing t' ns' s)" "yields t' (k # r)"
    "builds ns ns' (Some i) [tree_of x] F"
  using assms unfolding parsed_def by blast

subsection \<open>Routine by routine\<close>

lemmas proc_unfold = proc.simps [of e "(g, s)" for e g s, unfolded fst_conv snd_conv]

lemma parsed_assign_expr: "parsed e s (Binary_expr Inclusive_or) x ts \<Longrightarrow> parsed e s Assign_expr x ts"
  unfolding parsed_def
proof (intro allI impI, goal_cases)
  case (1 t ns k r)
  have k: "stops (Binary_expr Inclusive_or) (fst k)" "fst k \<noteq> finsh_token_type_assign" using 1(3) by simp_all
  have "parsed_whole e s (Binary_expr Inclusive_or) x ts" by (rule parsed_whole) (use 1(1) in \<open>simp add: parsed_def\<close>)
  from parsed_wholeE [OF this 1(2) k(1) 1(4,5)] obtain i t' ns' F where
    2: "proc e (Binary_expr Inclusive_or, parsing t ns s) = Some (Some i, parsing t' ns' s)" "yields t' (k # r)"
      "builds ns ns' (Some i) [tree_of x] F" .
  from next_token_yields [OF 2(2), of ns' s] obtain t1 where
    3: "next_token (parsing t' ns' s) = Some (fst k, parsing t1 ns' s)" "yields (finsh_token_replay t1) (k # r)" by metis
  have "proc e (Assign_expr, parsing t ns s) = Some (Some i, parsing (finsh_token_replay t1) ns' s)"
    by (simp add: proc_unfold [of e Assign_expr "parsing t ns s"] proc_assign_expr_def 2(1) 3(1) k(2))
  then show ?case using 2(3) 3(2) by (intro exI [of _ i] exI [of _ "finsh_token_replay t1"] exI [of _ ns'] exI [of _ F]) simp
qed

lemma stops_token:
  "op_stops l finsh_token_type_assign" "op_stops l finsh_token_type_comma" "op_stops l finsh_token_type_right_paren"
  "op_stops l finsh_token_type_semicolon" "op_stops l finsh_token_type_eof"
  by (cases l; simp add: op_stops_def)+

lemma parsed_assign:
  assumes l: "parsed e s (Binary_expr Inclusive_or) x ts" and y: "parsed e s Assign_expr y us" and k: "fst k = finsh_token_type_assign"
    and z: "tree_of z = Tree (leaf FINSH_NODE_SYS_ASSIGN) [tree_of x, tree_of y]"
  shows "parsed e s Assign_expr z (ts @ k # us)"
  unfolding parsed_def
proof (intro allI impI, goal_cases)
  case (1 t ns k' r)
  have n: "tree_size (tree_of x) + tree_size (tree_of y) < card (free_nodes ns)" using 1(4) z by simp
  have y1: "yields t (ts @ k # us @ k' # r)" using 1(1) by simp
  have sx: "stops (Binary_expr Inclusive_or) (fst k)" "tree_size (tree_of x) \<le> card (free_nodes ns)"
    using k n by (simp_all add: stops_token)
  from parsed_wholeE [OF parsed_whole [OF l] y1 sx(1) 1(3) sx(2)] obtain i t1 ns1 F where
    2: "proc e (Binary_expr Inclusive_or, parsing t ns s) = Some (Some i, parsing t1 ns1 s)" "yields t1 (k # us @ k' # r)"
      "builds ns ns1 (Some i) [tree_of x] F" .
  from next_token_yields [OF 2(2), of ns1 s] obtain t2 where
    3: "next_token (parsing t1 ns1 s) = Some (finsh_token_type_assign, parsing t2 ns1 s)" "yields t2 (us @ k' # r)" using k by metis
  have sy: "stops Assign_expr (fst k')" "tree_size (tree_of y) \<le> card (free_nodes ns1)"
    "Suc (tree_size (tree_of x) + trees_size [tree_of y]) \<le> card (free_nodes ns)"
    using 1(2) n builds_card [OF 2(3)] by simp_all
  from parsed_wholeE [OF parsed_whole [OF y] 3(2) sy(1) builds_clean [OF 2(3) 1(3)] sy(2)] obtain j t3 ns3 G where
    4: "proc e (Assign_expr, parsing t2 ns1 s) = Some (Some j, parsing t3 ns3 s)" "yields t3 (k' # r)"
      "builds ns1 ns3 (Some j) [tree_of y] G" .
  from make_sys_both [OF builds_both [OF 2(3) 4(3)] 1(3) sy(3), of FINSH_NODE_SYS_ASSIGN t3 s] obtain h ns4 where
    5: "make_sys_node FINSH_NODE_SYS_ASSIGN (Some i) (Some j) (parsing t3 ns3 s) = (Some h, parsing t3 ns4 s)"
      "builds ns ns4 (Some h) [Tree (leaf FINSH_NODE_SYS_ASSIGN) [tree_of x, tree_of y]] (h # F @ G)" by blast
  have "proc e (Assign_expr, parsing t ns s) = Some (Some h, parsing t3 ns4 s)"
    by (simp add: proc_unfold [of e Assign_expr "parsing t ns s"] proc_assign_expr_def 2(1) 3(1) 4(1) 5(1))
  then show ?case using 4(2) 5(2) z by (intro exI [of _ h] exI [of _ t3] exI [of _ ns4] exI [of _ "h # F @ G"]) simp
qed

lemma parsed_operand: "parsed e s (level_operand l) x ts \<Longrightarrow> parsed e s (Binary_expr l) x ts"
  unfolding parsed_def
proof (intro allI impI, goal_cases)
  case (1 t ns k r)
  have "parsed_whole e s (level_operand l) x ts" by (rule parsed_whole) (use 1(1) in \<open>simp add: parsed_def\<close>)
  from parsed_wholeE [OF this 1(2) 1(3) [unfolded reaches.simps] 1(4,5)] obtain i t' ns' F where
    2: "proc e (level_operand l, parsing t ns s) = Some (Some i, parsing t' ns' s)" "yields t' (k # r)"
      "builds ns ns' (Some i) [tree_of x] F" .
  have "proc e (Binary_expr l, parsing t ns s) = proc e (Binary_loop l (Some i), parsing t' ns' s)"
    by (simp add: proc_unfold [of e "Binary_expr l" "parsing t ns s"] binary_expr_def 2(1))
  then show ?case using 2(2,3) by (intro exI [of _ i] exI [of _ t'] exI [of _ ns'] exI [of _ F]) simp
qed

lemma op_node_known: "op_node b \<noteq> FINSH_NODE_UNKNOWN"
  by (cases b) simp_all

lemma parsed_binary:
  assumes x: "parsed e s (Binary_expr l) x ts" and y: "parsed e s (level_operand l) y us" and k: "level_op l (fst k) = Some (op_node b)"
  shows "parsed e s (Binary_expr l) (Binary b x y) (ts @ k # us)"
  unfolding parsed_def
proof (intro allI impI, goal_cases)
  case (1 t ns k' r)
  have n: "tree_size (tree_of x) + tree_size (tree_of y) < card (free_nodes ns)" using 1(4) by simp
  have y1: "yields t (ts @ k # us @ k' # r)" using 1(1) by simp
  have kr: "reaches (Binary_expr l) (fst k)" using op_continues [of l "fst k"] k by simp
  have sx: "tree_size (tree_of x) \<le> card (free_nodes ns)" using n by simp
  from parsedE [OF x y1 kr 1(3) sx] obtain i t1 ns1 F where
    2: "proc e (Binary_expr l, parsing t ns s) = proc e (Binary_loop l (Some i), parsing t1 ns1 s)" "yields t1 (k # us @ k' # r)"
      "builds ns ns1 (Some i) [tree_of x] F" unfolding goes_on.simps .
  from next_token_yields [OF 2(2), of ns1 s] obtain t2 where
    3: "next_token (parsing t1 ns1 s) = Some (fst k, parsing t2 ns1 s)" "yields t2 (us @ k' # r)" by metis
  have sy: "tree_size (tree_of y) \<le> card (free_nodes ns1)" "Suc (tree_size (tree_of x) + trees_size [tree_of y]) \<le> card (free_nodes ns)"
    using n builds_card [OF 2(3)] by simp_all
  from parsed_wholeE [OF parsed_whole [OF y] 3(2) 1(2) [unfolded reaches.simps] builds_clean [OF 2(3) 1(3)] sy(1)] obtain j t3 ns3 G where
    4: "proc e (level_operand l, parsing t2 ns1 s) = Some (Some j, parsing t3 ns3 s)" "yields t3 (k' # r)"
      "builds ns1 ns3 (Some j) [tree_of y] G" .
  from make_sys_both [OF builds_both [OF 2(3) 4(3)] 1(3) sy(2) op_node_known, of b t3 s] obtain h ns4 where
    5: "make_sys_node (op_node b) (Some i) (Some j) (parsing t3 ns3 s) = (Some h, parsing t3 ns4 s)"
      "builds ns ns4 (Some h) [Tree (leaf (op_node b)) [tree_of x, tree_of y]] (h # F @ G)" .
  have "proc e (Binary_expr l, parsing t ns s) = proc e (Binary_loop l (Some h), parsing t3 ns4 s)"
    by (simp add: 2(1) proc_unfold [of e "Binary_loop l (Some i)" "parsing t1 ns1 s"] binary_loop_def 3(1) k 4(1) 5(1))
  then show ?case using 4(2) 5(2) by (intro exI [of _ h] exI [of _ t3] exI [of _ ns4] exI [of _ "h # F @ G"]) simp
qed

text \<open>A routine that looks at the first token and hands over to the next routine.\<close>

lemma parsed_handover:
  assumes x: "parsed e s g x ts" and ts: "ts \<noteq> []" "P (fst (hd ts))" and r: "\<And>ty. reaches g' ty \<Longrightarrow> stops g ty"
    and h: "\<And>token s1 t ns. next_token (parsing t ns s) = Some (token, s1) \<Longrightarrow> P token \<Longrightarrow> proc e (g', parsing t ns s) = proc e (g, token_replay s1)"
    and g': "\<And>n s. goes_on e g' n s = Some (n, s)"
  shows "parsed e s g' x ts"
  unfolding parsed_def
proof (intro allI impI, goal_cases)
  case (1 t ns k' r)
  obtain k us where k: "ts = k # us" using ts(1) by (cases ts) auto
  have "yields t (k # us @ k' # r)" using 1(1) k by simp
  from next_token_yields [OF this, of ns s] obtain t1 where
    2: "next_token (parsing t ns s) = Some (fst k, parsing t1 ns s)" "yields (finsh_token_replay t1) (ts @ k' # r)" unfolding k append.simps by metis
  from parsed_wholeE [OF parsed_whole [OF x] 2(2) r [OF 1(2)] 1(3,4)] obtain i t' ns' F where
    3: "proc e (g, parsing (finsh_token_replay t1) ns s) = Some (Some i, parsing t' ns' s)" "yields t' (k' # r)"
      "builds ns ns' (Some i) [tree_of x] F" .
  have "proc e (g', parsing t ns s) = Some (Some i, parsing t' ns' s)" using h [OF 2(1)] ts(2) 3(1) by (simp add: k)
  then show ?case using 3(2,3) by (intro exI [of _ i] exI [of _ t'] exI [of _ ns'] exI [of _ F]) (simp add: g')
qed

lemma parsed_unary:
  assumes "parsed e s Unary_expr x ts" "ts \<noteq> []" "begins (fst (hd ts))"
  shows "parsed e s Cast_expr x ts"
  by (rule parsed_handover [where P = begins, OF assms]) (auto simp: proc_unfold [of e Cast_expr] proc_cast_expr_def begins_def literal_def)

lemma parsed_postfix:
  assumes "parsed e s Postfix_expr x ts" "ts \<noteq> []" "literal (fst (hd ts))"
  shows "parsed e s Unary_expr x ts"
  by (rule parsed_handover [where P = literal, OF assms]) (auto simp: proc_unfold [of e Unary_expr] proc_unary_expr_def literal_def)

text \<open>An operator in front of its operand.\<close>

fun prefix_op :: "finsh_token_type \<Rightarrow> finsh_node_type option" where
  "prefix_op finsh_token_type_inc = Some FINSH_NODE_SYS_PREINC"
| "prefix_op finsh_token_type_dec = Some FINSH_NODE_SYS_PREDEC"
| "prefix_op finsh_token_type_bitwise = Some FINSH_NODE_SYS_BITWISE"
| "prefix_op finsh_token_type_mul = Some FINSH_NODE_SYS_GETVALUE"
| "prefix_op finsh_token_type_and = Some FINSH_NODE_SYS_GETADDR"
| "prefix_op _ = None"

lemma prefix_op_cases:
  assumes "prefix_op ty = Some n"
  shows "n \<noteq> FINSH_NODE_UNKNOWN"
    "next_token s = Some (ty, s1) \<Longrightarrow> proc e (Unary_expr, s) =
      Option.bind (proc e (Cast_expr, s1)) (\<lambda>(cast, s2). Some (make_sys_node n cast None s2))"
  using assms by (cases ty; auto simp: proc_unfold [of e Unary_expr s] proc_unary_expr_def)+

lemma parsed_prefix:
  assumes x: "parsed e s Cast_expr x ts" and k: "prefix_op (fst k) = Some ty" and z: "tree_of z = Tree (leaf ty) [tree_of x]"
  shows "parsed e s Unary_expr z (k # ts)"
  unfolding parsed_def
proof (intro allI impI, goal_cases)
  case (1 t ns k' r)
  have n: "tree_size (tree_of x) \<le> card (free_nodes ns)" "Suc (tree_size (tree_of x) + trees_size []) \<le> card (free_nodes ns)"
    using 1(4) z by simp_all
  have "yields t (k # ts @ k' # r)" using 1(1) by simp
  from next_token_yields [OF this, of ns s] obtain t1 where
    2: "next_token (parsing t ns s) = Some (fst k, parsing t1 ns s)" "yields t1 (ts @ k' # r)" by metis
  have sx: "stops Cast_expr (fst k')" using 1(2) by simp
  from parsed_wholeE [OF parsed_whole [OF x] 2(2) sx 1(3) n(1)] obtain i t' ns' F where
    3: "proc e (Cast_expr, parsing t1 ns s) = Some (Some i, parsing t' ns' s)" "yields t' (k' # r)"
      "builds ns ns' (Some i) [tree_of x] F" .
  from make_sys_both [OF both_Nil [OF 3(3)] 1(3) n(2) prefix_op_cases(1) [OF k], of t' s] obtain h ns4 where
    4: "make_sys_node ty (Some i) None (parsing t' ns' s) = (Some h, parsing t' ns4 s)"
      "builds ns ns4 (Some h) [Tree (leaf ty) [tree_of x]] (h # F @ [])" .
  have "proc e (Unary_expr, parsing t ns s) = Some (Some h, parsing t' ns4 s)"
    by (simp add: prefix_op_cases(2) [OF k 2(1)] 3(1) 4(1))
  then show ?case using 3(2) 4(2) z by (intro exI [of _ h] exI [of _ t'] exI [of _ ns4] exI [of _ "h # F"]) simp
qed

lemma parsed_plus:
  assumes x: "parsed e s Cast_expr x ts" and k: "fst k = finsh_token_type_add"
  shows "parsed e s Unary_expr x (k # ts)"
  unfolding parsed_def
proof (intro allI impI, goal_cases)
  case (1 t ns k' r)
  have "yields t (k # ts @ k' # r)" using 1(1) by simp
  from next_token_yields [OF this, of ns s] obtain t1 where
    2: "next_token (parsing t ns s) = Some (fst k, parsing t1 ns s)" "yields t1 (ts @ k' # r)" by metis
  have sx: "stops Cast_expr (fst k')" using 1(2) by simp
  from parsed_wholeE [OF parsed_whole [OF x] 2(2) sx 1(3,4)] obtain i t' ns' F where
    3: "proc e (Cast_expr, parsing t1 ns s) = Some (Some i, parsing t' ns' s)" "yields t' (k' # r)"
      "builds ns ns' (Some i) [tree_of x] F" .
  have "proc e (Unary_expr, parsing t ns s) = Some (Some i, parsing t' ns' s)"
    by (simp add: proc_unfold [of e Unary_expr "parsing t ns s"] proc_unary_expr_def 2(1) k 3(1))
  then show ?case using 3(2,3) by (intro exI [of _ i] exI [of _ t'] exI [of _ ns'] exI [of _ F]) simp
qed

lemma parsed_minus:
  assumes x: "parsed e s Cast_expr x ts" and k: "fst k = finsh_token_type_sub"
  shows "parsed e s Unary_expr (Binary Op_sub (Long_const 0) x) (k # ts)"
  unfolding parsed_def
proof (intro allI impI, goal_cases)
  case (1 t ns k' r)
  have "yields t (k # ts @ k' # r)" using 1(1) by simp
  from next_token_yields [OF this, of ns s] obtain t1 where
    2: "next_token (parsing t ns s) = Some (fst k, parsing t1 ns s)" "yields t1 (ts @ k' # r)" by metis
  have sx: "stops Cast_expr (fst k')" "tree_size (tree_of x) \<le> card (free_nodes ns)"
    "Suc (tree_size (Tree ((leaf FINSH_NODE_VALUE_LONG)\<lparr>node_value := 0\<rparr>) []) + trees_size [tree_of x]) \<le> card (free_nodes ns)"
    using 1(2,4) by simp_all
  from parsed_wholeE [OF parsed_whole [OF x] 2(2) sx(1) 1(3) sx(2)] obtain i t' ns' F where
    3: "proc e (Cast_expr, parsing t1 ns s) = Some (Some i, parsing t' ns' s)" "yields t' (k' # r)"
      "builds ns ns' (Some i) [tree_of x] F" .
  have "0 < card (free_nodes ns')" using builds_card [OF 3(3)] sx(3) by simp
  then have f: "free_nodes ns' \<noteq> {}" by auto
  have known: "FINSH_NODE_VALUE_LONG \<noteq> FINSH_NODE_UNKNOWN" "FINSH_NODE_SYS_SUB \<noteq> FINSH_NODE_UNKNOWN" by simp_all
  from new_value [OF f builds_clean [OF 3(3) 1(3)] known(1), of 0 t' s] obtain z ns2 where
    4: "finsh_node_new FINSH_NODE_VALUE_LONG (\<lambda>n. n\<lparr>node_value := 0\<rparr>) (parsing t' ns' s) = (Some z, parsing t' ns2 s)"
      "builds ns' ns2 (Some z) [Tree ((leaf FINSH_NODE_VALUE_LONG)\<lparr>node_value := 0\<rparr>) []] [z]" .
  from make_sys_both [OF both_sym [OF builds_both [OF 3(3) 4(2)]] 1(3) sx(3) known(2), of t' s] obtain h ns4 where
    5: "make_sys_node FINSH_NODE_SYS_SUB (Some z) (Some i) (parsing t' ns2 s) = (Some h, parsing t' ns4 s)"
      "builds ns ns4 (Some h) [Tree (leaf FINSH_NODE_SYS_SUB) [Tree ((leaf FINSH_NODE_VALUE_LONG)\<lparr>node_value := 0\<rparr>) [], tree_of x]] (h # [z] @ F)" .
  have "proc e (Unary_expr, parsing t ns s) = Some (Some h, parsing t' ns4 s)"
    by (simp add: proc_unfold [of e Unary_expr "parsing t ns s"] proc_unary_expr_def 2(1) k 3(1) finsh_node_new_long_def 4(1) 5(1))
  then show ?case using 3(2) 5(2) by (intro exI [of _ h] exI [of _ t'] exI [of _ ns4] exI [of _ "h # [z] @ F"]) simp
qed

text \<open>Postfix operators and calls.\<close>

lemma parsed_primary: "parsed e s Primary_expr x ts \<Longrightarrow> parsed e s Postfix_expr x ts"
  unfolding parsed_def
proof (intro allI impI, goal_cases)
  case (1 t ns k r)
  have "parsed_whole e s Primary_expr x ts" by (rule parsed_whole) (use 1(1) in \<open>simp add: parsed_def\<close>)
  moreover have "stops Primary_expr (fst k)" by simp
  ultimately obtain i t' ns' F where
    2: "proc e (Primary_expr, parsing t ns s) = Some (Some i, parsing t' ns' s)" "yields t' (k # r)"
      "builds ns ns' (Some i) [tree_of x] F" by (rule parsed_wholeE [OF _ 1(2) _ 1(4,5)])
  have "proc e (Postfix_expr, parsing t ns s) = proc e (Postfix_loop (Some i), parsing t' ns' s)"
    by (simp add: proc_unfold [of e Postfix_expr "parsing t ns s"] proc_postfix_expr_def 2(1))
  then show ?case using 2(2,3) by (intro exI [of _ i] exI [of _ t'] exI [of _ ns'] exI [of _ F]) simp
qed

text \<open>The loop takes one operator, which puts a node on top.\<close>

lemma parsed_suffix:
  assumes x: "parsed e s Postfix_expr x ts" and z: "tree_of z = Tree (leaf ty) (tree_of x # map tree_of ps)"
    and step: "\<And>i t1 ns ns1 F k r. yields t1 (k1 # us @ k # r) \<Longrightarrow> clean ns \<Longrightarrow> tree_size (tree_of z) \<le> card (free_nodes ns) \<Longrightarrow>
      builds ns ns1 (Some i) [tree_of x] F \<Longrightarrow>
      \<exists>h t2 ns2 G. proc e (Postfix_loop (Some i), parsing t1 ns1 s) = proc e (Postfix_loop (Some h), parsing t2 ns2 s)
        \<and> yields t2 (k # r) \<and> builds ns ns2 (Some h) [tree_of z] G"
  shows "parsed e s Postfix_expr z (ts @ k1 # us)"
  unfolding parsed_def
proof (intro allI impI, goal_cases)
  case (1 t ns k r)
  have n: "tree_size (tree_of x) \<le> card (free_nodes ns)" using 1(4) z by simp
  have y: "yields t (ts @ k1 # us @ k # r)" using 1(1) by simp
  have "reaches Postfix_expr (fst k1)" by simp
  from parsedE [OF x y this 1(3) n] obtain i t1 ns1 F where
    2: "proc e (Postfix_expr, parsing t ns s) = proc e (Postfix_loop (Some i), parsing t1 ns1 s)" "yields t1 (k1 # us @ k # r)"
      "builds ns ns1 (Some i) [tree_of x] F" unfolding goes_on.simps .
  show ?case unfolding goes_on.simps 2(1) by (rule step [OF 2(2) 1(3,4) 2(3)])
qed

lemma parsed_post_inc:
  assumes x: "parsed e s Postfix_expr (Variable v) ts" and k: "fst k1 = (if d then finsh_token_type_inc else finsh_token_type_dec)"
  shows "parsed e s Postfix_expr (Post_inc d v) (ts @ [k1])"
proof (rule parsed_suffix [OF x, where ty = "if d then FINSH_NODE_SYS_INC else FINSH_NODE_SYS_DEC" and ps = "[]"], goal_cases)
  case (2 i t1 ns ns1 F k r)
  let ?ty = "if d then FINSH_NODE_SYS_INC else FINSH_NODE_SYS_DEC"
  have "yields t1 (k1 # k # r)" using 2(1) by simp
  from next_token_yields [OF this, of ns1 s] obtain t2 where
    3: "next_token (parsing t1 ns1 s) = Some (fst k1, parsing t2 ns1 s)" "yields t2 (k # r)" by metis
  have n: "Suc (tree_size (tree_of (Variable v)) + trees_size []) \<le> card (free_nodes ns)" "?ty \<noteq> FINSH_NODE_UNKNOWN" using 2(3) by simp_all
  from make_sys_both [OF both_Nil [OF 2(4)] 2(2) n, of t2 s] obtain h ns2 where
    4: "make_sys_node ?ty (Some i) None (parsing t2 ns1 s) = (Some h, parsing t2 ns2 s)"
      "builds ns ns2 (Some h) [Tree (leaf ?ty) [tree_of (Variable v)]] (h # F @ [])" .
  have "proc e (Postfix_loop (Some i), parsing t1 ns1 s) = proc e (Postfix_loop (Some h), parsing t2 ns2 s)"
    using 4(1) by (simp add: proc_unfold [of e "Postfix_loop (Some i)" "parsing t1 ns1 s"] postfix_loop_def 3(1) k split: if_splits)
  then show ?case using 3(2) 4(2) by (intro exI [of _ h] exI [of _ t2] exI [of _ ns2] exI [of _ "h # F"]) simp
qed simp

lemma parsed_call:
  assumes x: "parsed e s Postfix_expr (Function j) ts" and k: "fst k1 = finsh_token_type_left_paren" "fst k2 = finsh_token_type_right_paren"
  shows "parsed e s Postfix_expr (Call_fun j []) (ts @ [k1, k2])"
proof (rule parsed_suffix [OF x, where ty = FINSH_NODE_SYS_FUNC and ps = "[]"], goal_cases)
  case (2 i t1 ns ns1 F k r)
  have "yields t1 (k1 # k2 # k # r)" using 2(1) by simp
  from next_token_yields [OF this, of ns1 s] obtain t2 where
    3: "next_token (parsing t1 ns1 s) = Some (fst k1, parsing t2 ns1 s)" "yields t2 (k2 # k # r)" by metis
  from next_token_yields [OF 3(2), of ns1 s] obtain t3 where
    4: "next_token (parsing t2 ns1 s) = Some (fst k2, parsing t3 ns1 s)" "yields t3 (k # r)" by metis
  have n: "Suc (tree_size (tree_of (Function j)) + trees_size []) \<le> card (free_nodes ns)" "FINSH_NODE_SYS_FUNC \<noteq> FINSH_NODE_UNKNOWN"
    using 2(3) by simp_all
  from make_sys_both [OF both_Nil [OF 2(4)] 2(2) n, of t3 s] obtain h ns2 where
    5: "make_sys_node FINSH_NODE_SYS_FUNC (Some i) None (parsing t3 ns1 s) = (Some h, parsing t3 ns2 s)"
      "builds ns ns2 (Some h) [Tree (leaf FINSH_NODE_SYS_FUNC) [tree_of (Function j)]] (h # F @ [])" .
  have "proc e (Postfix_loop (Some i), parsing t1 ns1 s) = proc e (Postfix_loop (Some h), parsing t3 ns2 s)"
    by (simp add: proc_unfold [of e "Postfix_loop (Some i)" "parsing t1 ns1 s"] postfix_loop_def 3(1) k 4(1) 5(1))
  then show ?case using 4(2) 5(2) by (intro exI [of _ h] exI [of _ t3] exI [of _ ns2] exI [of _ "h # F"]) simp
qed simp

text \<open>A node in use may change without touching what is built beside it.\<close>

lemma builds_beside:
  assumes "builds ns ns' p ts F" "i \<notin> free_nodes ns" "node_type n \<noteq> FINSH_NODE_UNKNOWN"
  shows "builds (ns(i := n)) (ns'(i := n)) p ts F"
proof -
  have i: "i \<notin> set F" using assms(1,2) by (auto simp: builds_def)
  have "forest (ns'(i := n)) p ts F" by (rule forest_cong [of F _ ns']) (use i assms(1) in \<open>auto simp: builds_def\<close>)
  moreover have "free_nodes (ns(i := n)) = free_nodes ns" using assms(2,3) by (auto simp: free_nodes_def)
  ultimately show ?thesis using assms(1) i by (auto simp: builds_def)
qed

fun more_params :: "(expr \<times> tok \<times> tok list) list \<Rightarrow> tok list" where
  "more_params [] = []"
| "more_params ((x, k, ts) # qs) = k # ts @ more_params qs"

definition params_parsed :: "finsh_env \<Rightarrow> finsh \<Rightarrow> (expr \<times> tok \<times> tok list) list \<Rightarrow> bool" where
  "params_parsed e s qs \<longleftrightarrow> (\<forall>(x, k, ts) \<in> set qs. parsed e s Assign_expr x ts \<and> fst k = finsh_token_type_comma)"

lemma params_stop:
  assumes "params_parsed e s qs" "stops Assign_expr (fst k)"
  obtains k' r' where "more_params qs @ k # r = k' # r'" "stops Assign_expr (fst k')"
  using assms that by (cases qs) (auto simp: params_parsed_def stops_token)

lemma param_loop_run:
  assumes "params_parsed e s qs" "builds ns0 ns1 (Some i) [x] F" "clean ns0"
    and "tree_size x + trees_size (map (tree_of \<circ> fst) qs) \<le> card (free_nodes ns0)"
    and "yields t (more_params qs @ k # r)" "stops Assign_expr (fst k)" "fst k \<noteq> finsh_token_type_comma"
  shows "\<exists>n t' ns' F'. proc e (Param_loop (Some i), parsing t ns1 s) = Some (n, parsing t' ns' s) \<and> yields t' (k # r)
    \<and> builds ns0 ns' (Some i) (x # map (tree_of \<circ> fst) qs) F'"
  using assms
proof (induction qs arbitrary: i x ns0 ns1 F t)
  case Nil
  from next_token_yields [of t k r ns1 s] Nil(5) obtain t1 where
    1: "next_token (parsing t ns1 s) = Some (fst k, parsing t1 ns1 s)" "yields (finsh_token_replay t1) (k # r)" unfolding more_params.simps append.simps by metis
  have "proc e (Param_loop (Some i), parsing t ns1 s) = Some (Some i, parsing (finsh_token_replay t1) ns1 s)"
    using Nil(7) by (simp add: proc_unfold [of e "Param_loop (Some i)" "parsing t ns1 s"] param_loop_def 1(1))
  then show ?case using 1(2) Nil(2) by auto
next
  case (Cons q qs)
  obtain y kc us where q: "q = (y, kc, us)" by (cases q)
  have p: "parsed e s Assign_expr y us" "fst kc = finsh_token_type_comma" "params_parsed e s qs" using Cons.prems(1) by (auto simp: q params_parsed_def)
  have "yields t (kc # us @ more_params qs @ k # r)" using Cons.prems(5) by (simp add: q)
  from next_token_yields [OF this, of ns1 s] obtain t1 where
    1: "next_token (parsing t ns1 s) = Some (fst kc, parsing t1 ns1 s)" "yields t1 (us @ more_params qs @ k # r)" by metis
  from params_stop [OF p(3) Cons.prems(6), of r] obtain k' r' where k': "more_params qs @ k # r = k' # r'" "stops Assign_expr (fst k')" .
  have c1: "clean ns1" by (rule builds_clean [OF Cons.prems(2,3)])
  have n: "tree_size (tree_of y) \<le> card (free_nodes ns1)" "tree_size (tree_of y) + trees_size (map (tree_of \<circ> fst) qs) \<le> card (free_nodes ns1)"
    using Cons.prems(4) builds_card [OF Cons.prems(2)] by (simp_all add: q comp_def)
  from parsed_wholeE [OF parsed_whole [OF p(1)] 1(2) [unfolded k'(1)] k'(2) c1 n(1)] obtain j t2 ns2 G where
    2: "proc e (Assign_expr, parsing t1 ns1 s) = Some (Some j, parsing t2 ns2 s)" "yields t2 (k' # r')" "builds ns1 ns2 (Some j) [tree_of y] G" .
  have i: "i \<in> set F" using Cons.prems(2) by (cases x) (auto simp: builds_def)
  have known: "node_type (ns1 i) \<noteq> FINSH_NODE_UNKNOWN" using Cons.prems(2) i by (auto simp: builds_def)
  then have free: "i \<notin> free_nodes ns1" by (simp add: free_nodes_def)
  then have nsi: "ns2 i = ns1 i" using 2(3) by (auto simp: builds_def)
  let ?n = "(ns1 i)\<lparr>sibling := Some j\<rparr>"
  have b: "builds (ns1(i := ?n)) (ns2(i := ?n)) (Some j) [tree_of y] G" by (rule builds_beside [OF 2(3) free]) (use known in simp)
  have c: "clean (ns1(i := ?n))" "free_nodes (ns1(i := ?n)) = free_nodes ns1"
    using c1 known free by (auto simp: clean_def free_nodes_def)
  have n3: "tree_size (tree_of y) + trees_size (map (tree_of \<circ> fst) qs) \<le> card (free_nodes (ns1(i := ?n)))" using n(2) c(2) by simp
  from Cons.IH [OF p(3) b c(1) n3 2(2) [folded k'(1)] Cons.prems(6,7)] obtain m t3 ns3 G' where
    3: "proc e (Param_loop (Some j), parsing t2 (ns2(i := ?n)) s) = Some (m, parsing t3 ns3 s)" "yields t3 (k # r)"
      "builds (ns1(i := ?n)) ns3 (Some j) (tree_of y # map (tree_of \<circ> fst) qs) G'" by blast
  have "builds ((ns1(i := ?n))(i := ns1 i)) (ns3(i := ns1 i)) (Some j) (tree_of y # map (tree_of \<circ> fst) qs) G'"
    by (rule builds_beside [OF 3(3) _ known]) (use free c(2) in simp)
  then have "builds ns1 (ns3(i := ns1 i)) (Some j) (tree_of y # map (tree_of \<circ> fst) qs) G'" by simp
  from both_join [OF builds_both [OF Cons.prems(2) this]]
  have "builds ns0 (ns3(i := ?n)) (Some i) (x # tree_of y # map (tree_of \<circ> fst) qs) (F @ G')" by simp
  moreover have "ns3(i := ?n) = ns3" using 3(3) free c(2) by (auto simp: builds_def fun_eq_iff)
  ultimately have "builds ns0 ns3 (Some i) (x # map (tree_of \<circ> fst) (q # qs)) (F @ G')" by (simp add: q)
  moreover have "proc e (Param_loop (Some i), parsing t ns1 s) = Some (m, parsing t3 ns3 s)"
    by (simp add: proc_unfold [of e "Param_loop (Some i)" "parsing t ns1 s"] param_loop_def 1(1) p(2) 2(1) nsi 3(1))
  ultimately show ?case using 3(2) by blast
qed

definition list_parsed :: "finsh_env \<Rightarrow> finsh \<Rightarrow> expr list \<Rightarrow> tok list \<Rightarrow> bool" where
  "list_parsed e s ps us \<longleftrightarrow>
     (\<exists>x ts qs. ps = x # map fst qs \<and> us = ts @ more_params qs \<and> parsed e s Assign_expr x ts \<and> params_parsed e s qs)"

lemma list_parsed_single: "parsed e s Assign_expr x ts \<Longrightarrow> list_parsed e s [x] ts"
  unfolding list_parsed_def by (intro exI [of _ x] exI [of _ ts] exI [of _ "[]"]) (simp add: params_parsed_def)

lemma list_parsed_more:
  assumes "parsed e s Assign_expr x ts" "list_parsed e s ps us" "fst k = finsh_token_type_comma"
  shows "list_parsed e s (x # ps) (ts @ k # us)"
proof -
  from assms(2) obtain y vs qs where
    "ps = y # map fst qs" "us = vs @ more_params qs" "parsed e s Assign_expr y vs" "params_parsed e s qs" by (auto simp: list_parsed_def)
  then show ?thesis unfolding list_parsed_def
    using assms(1,3) by (intro exI [of _ x] exI [of _ ts] exI [of _ "(y, k, vs) # qs"]) (auto simp: params_parsed_def)
qed

lemma list_parsedE:
  assumes "list_parsed e s ps us" "yields t (us @ k # r)" "fst k = finsh_token_type_right_paren" "clean ns"
    "trees_size (map tree_of ps) \<le> card (free_nodes ns)"
  obtains i t' ns' F where "proc e (Param_list, parsing t ns s) = Some (Some i, parsing t' ns' s)" "yields t' (k # r)"
    "builds ns ns' (Some i) (map tree_of ps) F"
proof -
  from assms(1) obtain x ts qs where
    p: "ps = x # map fst qs" "us = ts @ more_params qs" "parsed e s Assign_expr x ts" "params_parsed e s qs" by (auto simp: list_parsed_def)
  have k: "stops Assign_expr (fst k)" "fst k \<noteq> finsh_token_type_comma" using assms(3) by (simp_all add: stops_token)
  from params_stop [OF p(4) k(1), of r] obtain k' r' where k': "more_params qs @ k # r = k' # r'" "stops Assign_expr (fst k')" .
  have y: "yields t (ts @ k' # r')" using assms(2) by (simp add: p(2) k'(1) [symmetric])
  have n: "tree_size (tree_of x) \<le> card (free_nodes ns)"
    "tree_size (tree_of x) + trees_size (map (tree_of \<circ> fst) qs) \<le> card (free_nodes ns)" using assms(5) by (simp_all add: p(1) comp_def)
  from parsed_wholeE [OF parsed_whole [OF p(3)] y k'(2) assms(4) n(1)] obtain i t1 ns1 F where
    1: "proc e (Assign_expr, parsing t ns s) = Some (Some i, parsing t1 ns1 s)" "yields t1 (k' # r')" "builds ns ns1 (Some i) [tree_of x] F" .
  from param_loop_run [OF p(4) 1(3) assms(4) n(2) 1(2) [folded k'(1)] k] obtain m t2 ns2 F' where
    2: "proc e (Param_loop (Some i), parsing t1 ns1 s) = Some (m, parsing t2 ns2 s)" "yields t2 (k # r)"
      "builds ns ns2 (Some i) (tree_of x # map (tree_of \<circ> fst) qs) F'" by blast
  have "proc e (Param_list, parsing t ns s) = Some (Some i, parsing t2 ns2 s)"
    by (simp add: proc_unfold [of e Param_list "parsing t ns s"] proc_param_list_def 1(1) 2(1))
  moreover have "builds ns ns2 (Some i) (map tree_of ps) F'" using 2(3) by (simp add: p(1) comp_def)
  ultimately show ?thesis using 2(2) that by blast
qed

lemma parsed_call_list:
  assumes x: "parsed e s Postfix_expr (Function j) ts" and ps: "list_parsed e s ps us"
    and us: "us \<noteq> []" "begins (fst (hd us))"
    and k: "fst k1 = finsh_token_type_left_paren" "fst k2 = finsh_token_type_right_paren"
  shows "parsed e s Postfix_expr (Call_fun j ps) (ts @ k1 # us @ [k2])"
proof (rule parsed_suffix [OF x, where ty = FINSH_NODE_SYS_FUNC and ps = ps], goal_cases)
  case (2 i t1 ns ns1 F k r)
  obtain k0 vs where k0: "us = k0 # vs" using us(1) by (cases us) auto
  have "yields t1 (k1 # us @ k2 # k # r)" using 2(1) by simp
  from next_token_yields [OF this, of ns1 s] obtain t2 where
    3: "next_token (parsing t1 ns1 s) = Some (fst k1, parsing t2 ns1 s)" "yields t2 (us @ k2 # k # r)" by metis
  from next_token_yields [OF 3(2) [unfolded k0 append.simps], of ns1 s] obtain t3 where
    4: "next_token (parsing t2 ns1 s) = Some (fst k0, parsing t3 ns1 s)" "yields (finsh_token_replay t3) (us @ k2 # k # r)"
    unfolding k0 append.simps by metis
  have k0': "fst k0 \<noteq> finsh_token_type_right_paren" using us(2) by (auto simp: k0 begins_def literal_def)
  have n: "trees_size (map tree_of ps) \<le> card (free_nodes ns1)"
    "Suc (tree_size (tree_of (Function j)) + trees_size (map tree_of ps)) \<le> card (free_nodes ns)" "FINSH_NODE_SYS_FUNC \<noteq> FINSH_NODE_UNKNOWN"
    using 2(3) builds_card [OF 2(4)] by simp_all
  from list_parsedE [OF ps 4(2) k(2) builds_clean [OF 2(4,2)] n(1)] obtain p t4 ns2 G where
    5: "proc e (Param_list, parsing (finsh_token_replay t3) ns1 s) = Some (Some p, parsing t4 ns2 s)" "yields t4 (k2 # k # r)"
      "builds ns1 ns2 (Some p) (map tree_of ps) G" .
  from next_token_yields [OF 5(2), of ns2 s] obtain t5 where
    6: "next_token (parsing t4 ns2 s) = Some (fst k2, parsing t5 ns2 s)" "yields t5 (k # r)" by metis
  from make_sys_both [OF builds_both [OF 2(4) 5(3)] 2(2) n(2,3), of t5 s] obtain h ns3 where
    7: "make_sys_node FINSH_NODE_SYS_FUNC (Some i) (Some p) (parsing t5 ns2 s) = (Some h, parsing t5 ns3 s)"
      "builds ns ns3 (Some h) [Tree (leaf FINSH_NODE_SYS_FUNC) (tree_of (Function j) # map tree_of ps)] (h # F @ G)" .
  have "proc e (Postfix_loop (Some i), parsing t1 ns1 s) = proc e (Postfix_loop (Some h), parsing t5 ns3 s)"
    by (simp add: proc_unfold [of e "Postfix_loop (Some i)" "parsing t1 ns1 s"] postfix_loop_def 3(1) k 4(1) k0' 5(1)
      match_token_def 6(1) check_token_def 7(1))
  then show ?case using 6(2) 7(2) by (intro exI [of _ h] exI [of _ t5] exI [of _ ns3] exI [of _ "h # F @ G"]) simp
qed simp

text \<open>Identifiers and constants.\<close>

lemma find_symbol_cong:
  assumes "global_variable s' = global_variable s" "global_sysvar_list s' = global_sysvar_list s" "global_syscall_list s' = global_syscall_list s"
  shows "find_symbol e nm s' = find_symbol e nm s"
  unfolding find_symbol_def finsh_var_lookup_def find_var_def finsh_sysvar_lookup_def finsh_syscall_lookup_def assms ..

lemma find_symbol_parsing [simp]: "find_symbol e nm (parsing t ns s) = find_symbol e nm s"
  by (rule find_symbol_cong) simp_all

definition names :: "finsh_env \<Rightarrow> finsh \<Rightarrow> u8 list \<Rightarrow> ident \<Rightarrow> bool" where
  "names e s str v \<longleftrightarrow> find_symbol e (take FINSH_NAME_MAX str) s = Some (v, id_kind v) \<and> v \<noteq> Null_id"

lemma parsed_leaf:
  assumes z: "tree_of z = Tree a []" and new: "\<And>t ns k' r. yields t (k # k' # r) \<Longrightarrow> clean ns \<Longrightarrow> free_nodes ns \<noteq> {} \<Longrightarrow>
      \<exists>i t2 ns'. proc e (Primary_expr, parsing t ns s) = Some (Some i, parsing t2 ns' s) \<and> yields t2 (k' # r) \<and> builds ns ns' (Some i) [Tree a []] [i]"
  shows "parsed e s Primary_expr z [k]"
  unfolding parsed_def
proof (intro allI impI, goal_cases)
  case (1 t ns k' r)
  have "0 < card (free_nodes ns)" using 1(4) z by simp
  then have "free_nodes ns \<noteq> {}" by auto
  from new [OF _ 1(3) this, of t k' r] 1(1) show ?case by (simp add: z) blast
qed

text \<open>What the routine does with the token it has read.\<close>

lemma parsed_new:
  assumes z: "tree_of z = Tree a []" and f: "attrs (f (no_node\<lparr>node_type := ty\<rparr>)) = a" "sibling (f (no_node\<lparr>node_type := ty\<rparr>)) = None"
      "child (f (no_node\<lparr>node_type := ty\<rparr>)) = None" "node_type (f (no_node\<lparr>node_type := ty\<rparr>)) \<noteq> FINSH_NODE_UNKNOWN"
    and p: "\<And>t ns t1 r. next_token (parsing t ns s) = Some (fst k, parsing t1 ns s) \<Longrightarrow> tok_ok k t1 \<Longrightarrow>
      yields (finsh_token_replay t1) (k # r) \<Longrightarrow> yields t1 r \<Longrightarrow>
      \<exists>t2. yields t2 r \<and> proc e (Primary_expr, parsing t ns s) = Some (finsh_node_new ty f (parsing t2 ns s))"
  shows "parsed e s Primary_expr z [k]"
proof (rule parsed_leaf [OF z], goal_cases)
  case (1 t ns k' r)
  from next_token_yields [OF 1(1), of ns s] obtain t1 where
    2: "next_token (parsing t ns s) = Some (fst k, parsing t1 ns s)" "tok_ok k t1" "yields t1 (k' # r)"
      "yields (finsh_token_replay t1) (k # k' # r)" .
  from p [OF 2(1,2,4,3)] obtain t2 where
    3: "yields t2 (k' # r)" "proc e (Primary_expr, parsing t ns s) = Some (finsh_node_new ty f (parsing t2 ns s))" by blast
  from new_leaf [where f = f and ty = ty and a = a and t = t2 and s = s, OF 1(3,2) f] obtain i ns' where
    4: "finsh_node_new ty f (parsing t2 ns s) = (Some i, parsing t2 ns' s)" "builds ns ns' (Some i) [Tree a []] [i]" .
  then show ?case using 3 by auto
qed

lemma parsed_int: "parsed e s Primary_expr (Int_const a) [(finsh_token_type_value_int, a, str)]"
  by (rule parsed_new [where ty = FINSH_NODE_VALUE_INT and f = "\<lambda>n. n\<lparr>node_value := a\<rparr>", OF tree_of.simps(2)])
    (auto simp: attrs_def leaf_def no_node_def proc_unfold [of e Primary_expr] proc_primary_expr_def finsh_node_new_int_def)

lemma parsed_long: "parsed e s Primary_expr (Long_const a) [(finsh_token_type_value_long, a, str)]"
  by (rule parsed_new [where ty = FINSH_NODE_VALUE_LONG and f = "\<lambda>n. n\<lparr>node_value := a\<rparr>", OF tree_of.simps(3)])
    (auto simp: attrs_def leaf_def no_node_def proc_unfold [of e Primary_expr] proc_primary_expr_def finsh_node_new_long_def)

lemma parsed_char: "parsed e s Primary_expr (Char_const (char_value a)) [(finsh_token_type_value_char, a, str)]"
  by (rule parsed_new [where ty = FINSH_NODE_VALUE_CHAR and f = "\<lambda>n. n\<lparr>node_value := set_char_value (node_value n) (char_value a)\<rparr>",
        OF tree_of.simps(1)])
    (auto simp: attrs_def leaf_def no_node_def set_char_value_def proc_unfold [of e Primary_expr] proc_primary_expr_def finsh_node_new_char_def)

lemma parsed_id:
  assumes "names e s str v" "tree_of z = Tree (id_leaf v) []"
  shows "parsed e s Primary_expr z [(finsh_token_type_identifier, a, str)]"
proof (rule parsed_new [where ty = FINSH_NODE_ID and f = "\<lambda>n. n\<lparr>node_id := v, idtype := id_kind v\<rparr>", OF assms(2)], goal_cases)
  case (5 t ns t1 r)
  let ?k = "(finsh_token_type_identifier, a, str)"
  from next_token_yields [OF 5(3), of ns s] obtain t2 where
    1: "next_token (parsing (finsh_token_replay t1) ns s) = Some (finsh_token_type_identifier, parsing t2 ns s)" "tok_ok ?k t2" "yields t2 r"
    unfolding fst_conv .
  have str: "takeWhile (\<lambda>c. c \<noteq> 0) (token_string t2) = str" using 1(2) by simp
  have "proc_identifier (parsing (finsh_token_replay t1) ns s) = Some (take FINSH_NAME_MAX str, parsing t2 ns s)"
    by (simp add: proc_identifier_def match_token_def 1(1) check_token_def str)
  moreover have "finsh_node_new_id e (take FINSH_NAME_MAX str) (parsing t2 ns s)
      = Some (finsh_node_new FINSH_NODE_ID (\<lambda>n. n\<lparr>node_id := v, idtype := id_kind v\<rparr>) (parsing t2 ns s))"
    using assms(1) by (simp add: finsh_node_new_id_def names_def)
  ultimately have "proc e (Primary_expr, parsing t ns s)
      = Some (finsh_node_new FINSH_NODE_ID (\<lambda>n. n\<lparr>node_id := v, idtype := id_kind v\<rparr>) (parsing t2 ns s))"
    using 5(1) by (simp add: proc_unfold [of e Primary_expr "parsing t ns s"] proc_primary_expr_def)
  then show ?case using 1(3) by blast
qed (simp_all add: attrs_def leaf_def id_leaf_def no_node_def)

subsection \<open>The whole grammar\<close>

lemma derives_parsed:
  "derives (names e s) g x ts \<Longrightarrow> parsed e s g x ts"
  "derives_list (names e s) ps ts \<Longrightarrow> list_parsed e s ps ts"
proof (induction rule: derives_derives_list.inducts)
  case (inclusive_or x ts)
  then show ?case by (intro parsed_assign_expr)
next
  case (assign v ts y us k)
  then show ?case by (intro parsed_assign [where x = "Variable v"]) simp_all
next
  case (assign_at p ts y us k)
  then show ?case by (intro parsed_assign [where x = "Deref p"]) simp_all
next
  case (operand l x ts)
  then show ?case by (intro parsed_operand)
next
  case (binary l x ts y us k b)
  then show ?case by (intro parsed_binary)
next
  case (unary x ts)
  with derives_starts(1) [of "names e s" Unary_expr x ts] show ?case by (intro parsed_unary) simp_all
next
  case (plus x ts k)
  then show ?case by (intro parsed_plus)
next
  case (minus x ts k)
  then show ?case by (intro parsed_minus)
next
  case (pre_inc v ts k d)
  then show ?case by (intro parsed_prefix [where x = "Variable v" and ty = "if d then FINSH_NODE_SYS_PREINC else FINSH_NODE_SYS_PREDEC"]) simp_all
next
  case (complement x ts k)
  then show ?case by (intro parsed_prefix [where x = x]) simp_all
next
  case (deref x ts k)
  then show ?case by (intro parsed_prefix [where x = x]) simp_all
next
  case (address v ts k)
  then show ?case by (intro parsed_prefix [where x = "Variable v"]) simp_all
next
  case (postfix x ts)
  with derives_starts(1) [of "names e s" Postfix_expr x ts] show ?case by (intro parsed_postfix) simp_all
next
  case (primary x ts)
  then show ?case by (intro parsed_primary)
next
  case (post_inc v ts k d)
  then show ?case by (intro parsed_post_inc)
next
  case (call i ts k k')
  then show ?case by (intro parsed_call)
next
  case (call_list i ts ps us k k')
  with derives_starts(2) [of "names e s" ps us] show ?case by (intro parsed_call_list) simp_all
next
  case (variable str v k a)
  then show ?case by (simp add: parsed_id)
next
  case (func str i k a)
  then show ?case by (simp add: parsed_id)
next
  case (int_const k a str)
  then show ?case by (simp add: parsed_int)
next
  case (long_const k a str)
  then show ?case by (simp add: parsed_long)
next
  case (char_const k a str)
  then show ?case by (simp add: parsed_char)
next
  case (single x ts)
  then show ?case by (intro list_parsed_single)
next
  case (more x ts ps us k)
  then show ?case by (intro list_parsed_more)
qed

subsection \<open>Lines\<close>

text \<open>A line is a row of expressions with their tokens, each closed by a semicolon.\<close>

type_synonym stmt = "expr \<times> tok list \<times> tok"

fun line_tokens :: "stmt list \<Rightarrow> tok list" where
  "line_tokens [] = []"
| "line_tokens ((x, ts, k) # qs) = ts @ k # line_tokens qs"

definition line_derives :: "(u8 list \<Rightarrow> ident \<Rightarrow> bool) \<Rightarrow> stmt list \<Rightarrow> bool" where
  "line_derives R qs \<longleftrightarrow> (\<forall>(x, ts, k) \<in> set qs. derives R Assign_expr x ts \<and> fst k = finsh_token_type_semicolon)"

abbreviation line_trees :: "stmt list \<Rightarrow> tree list" where
  "line_trees qs \<equiv> map (\<lambda>q. tree_of (fst q)) qs"

lemma begins_not:
  "begins ty \<Longrightarrow> ty \<noteq> finsh_token_type_semicolon \<and> ty \<noteq> finsh_token_type_eof \<and> ty \<noteq> finsh_token_type_bad \<and> \<not> is_declaration ty"
  by (auto simp: begins_def literal_def is_declaration_def is_base_type_def)

lemma expr_statement_run:
  assumes d: "derives (names e s) Assign_expr x ts" "fst k = finsh_token_type_semicolon"
    and y: "yields t (ts @ k # r)" and c: "clean ns" "tree_size (tree_of x) \<le> card (free_nodes ns)"
  obtains i t' ns' F where "proc_expr_statement e (parsing t ns s) = Some (Some i, parsing t' ns' s)" "yields t' r"
    "builds ns ns' (Some i) [tree_of x] F"
proof -
  obtain k0 us where ts: "ts = k0 # us" "begins (fst k0)" using derives_starts(1) [OF d(1)] by (cases ts) auto
  from next_token_yields [OF y [unfolded ts(1) append.simps], of ns s] obtain t1 where
    1: "next_token (parsing t ns s) = Some (fst k0, parsing t1 ns s)" "yields (finsh_token_replay t1) (ts @ k # r)"
    unfolding ts(1) append.simps by metis
  have k: "stops Assign_expr (fst k)" using d(2) by (simp add: stops_token)
  from parsed_wholeE [OF parsed_whole [OF derives_parsed(1) [OF d(1)]] 1(2) k c] obtain i t2 ns2 F where
    2: "proc e (Assign_expr, parsing (finsh_token_replay t1) ns s) = Some (Some i, parsing t2 ns2 s)" "yields t2 (k # r)"
      "builds ns ns2 (Some i) [tree_of x] F" .
  from next_token_yields [OF 2(2), of ns2 s] obtain t3 where
    3: "next_token (parsing t2 ns2 s) = Some (fst k, parsing t3 ns2 s)" "yields t3 r" by metis
  have "proc_expr_statement e (parsing t ns s) = Some (Some i, parsing t3 ns2 s)"
    using begins_not [OF ts(2)]
    by (simp add: proc_expr_statement_def proc_expr_def 1(1) 2(1) match_token_def 3(1) check_token_def d(2))
  then show ?thesis using 3(2) 2(3) by (rule that)
qed

lemma line_starts:
  assumes "line_derives R qs" "fst k = finsh_token_type_eof"
  obtains k' r where "line_tokens qs @ [k] = k' # r" "qs \<noteq> [] \<Longrightarrow> begins (fst k')" "qs = [] \<Longrightarrow> fst k' = finsh_token_type_eof"
proof (cases qs)
  case Nil
  then show ?thesis using assms(2) that by simp
next
  case (Cons q qs')
  obtain x ts k1 where q: "q = (x, ts, k1)" by (cases q)
  have d: "derives R Assign_expr x ts" using assms(1) Cons by (auto simp: q line_derives_def)
  from derives_starts(1) [OF d] obtain k0 us where "ts = k0 # us" "begins (fst k0)" by (cases ts) auto
  then show ?thesis using that Cons by (simp add: q)
qed

text \<open>The loop of \<^verbatim>\<open>finsh_parser_run\<close> behind its first statement: each further one becomes the sibling of the last.\<close>

lemma parser_loop_run:
  assumes "line_derives (names e s) qs" "fst ke = finsh_token_type_eof" "parser_root s \<noteq> None"
    and "builds ns0 ns1 (Some i) [x] F" "clean ns0" "tree_size x + trees_size (line_trees qs) \<le> card (free_nodes ns0)"
    and "yields (finsh_token_replay t) (line_tokens qs @ [ke])" "line_tokens qs @ [ke] = k # r"
  shows "\<exists>t' ns' F'. parser_loop e (Some i) (fst k) (parsing t ns1 s) = Some (parsing t' ns' s)
    \<and> builds ns0 ns' (Some i) (x # line_trees qs) F'"
  using assms
proof (induction qs arbitrary: i x ns0 ns1 F t k r)
  case Nil
  then have "parser_loop e (Some i) (fst k) (parsing t ns1 s) = Some (parsing t ns1 s)" by (simp add: parser_loop.simps)
  then show ?case using Nil(4) by auto
next
  case (Cons q qs)
  obtain y ts kc where q: "q = (y, ts, kc)" by (cases q)
  have p: "derives (names e s) Assign_expr y ts" "fst kc = finsh_token_type_semicolon" "line_derives (names e s) qs"
    using Cons.prems(1) by (auto simp: q line_derives_def)
  obtain k0 us where ts: "ts = k0 # us" "begins (fst k0)" using derives_starts(1) [OF p(1)] by (cases ts) auto
  have k: "k = k0" using Cons.prems(8) by (simp add: q ts(1))
  have c1: "clean ns1" by (rule builds_clean [OF Cons.prems(4,5)])
  have n: "tree_size (tree_of y) \<le> card (free_nodes ns1)" "tree_size (tree_of y) + trees_size (line_trees qs) \<le> card (free_nodes ns1)"
    using Cons.prems(6) builds_card [OF Cons.prems(4)] by (simp_all add: q)
  have "yields (finsh_token_replay t) (ts @ kc # line_tokens qs @ [ke])" using Cons.prems(7) by (simp add: q)
  from expr_statement_run [OF p(1,2) this c1 n(1)] obtain j t2 ns2 G where
    2: "proc_expr_statement e (parsing (finsh_token_replay t) ns1 s) = Some (Some j, parsing t2 ns2 s)" "yields t2 (line_tokens qs @ [ke])"
      "builds ns1 ns2 (Some j) [tree_of y] G" .
  have i: "i \<in> set F" using Cons.prems(4) by (cases x) (auto simp: builds_def)
  have known: "node_type (ns1 i) \<noteq> FINSH_NODE_UNKNOWN" using Cons.prems(4) i by (auto simp: builds_def)
  then have free: "i \<notin> free_nodes ns1" by (simp add: free_nodes_def)
  then have nsi: "ns2 i = ns1 i" using 2(3) by (auto simp: builds_def)
  let ?n = "(ns1 i)\<lparr>sibling := Some j\<rparr>"
  from line_starts [OF p(3) Cons.prems(2)] obtain k' r' where k': "line_tokens qs @ [ke] = k' # r'" by metis
  from next_token_yields [OF 2(2) [unfolded k'], of "ns2(i := ?n)" s] obtain t3 where
    3: "next_token (parsing t2 (ns2(i := ?n)) s) = Some (fst k', parsing t3 (ns2(i := ?n)) s)"
      "yields (finsh_token_replay t3) (line_tokens qs @ [ke])" unfolding k' by metis
  have b: "builds (ns1(i := ?n)) (ns2(i := ?n)) (Some j) [tree_of y] G" by (rule builds_beside [OF 2(3) free]) (use known in simp)
  have c: "clean (ns1(i := ?n))" "free_nodes (ns1(i := ?n)) = free_nodes ns1"
    using c1 known free by (auto simp: clean_def free_nodes_def)
  have n3: "tree_size (tree_of y) + trees_size (line_trees qs) \<le> card (free_nodes (ns1(i := ?n)))" using n(2) c(2) by simp
  from Cons.IH [OF p(3) Cons.prems(2,3) b c(1) n3 3(2) k'] obtain t4 ns3 G' where
    4: "parser_loop e (Some j) (fst k') (parsing t3 (ns2(i := ?n)) s) = Some (parsing t4 ns3 s)"
      "builds (ns1(i := ?n)) ns3 (Some j) (tree_of y # line_trees qs) G'" by blast
  have "builds ((ns1(i := ?n))(i := ns1 i)) (ns3(i := ns1 i)) (Some j) (tree_of y # line_trees qs) G'"
    by (rule builds_beside [OF 4(2) _ known]) (use free c(2) in simp)
  then have "builds ns1 (ns3(i := ns1 i)) (Some j) (tree_of y # line_trees qs) G'" by simp
  from both_join [OF builds_both [OF Cons.prems(4) this]]
  have "builds ns0 (ns3(i := ?n)) (Some i) (x # tree_of y # line_trees qs) (F @ G')" by simp
  moreover have "ns3(i := ?n) = ns3" using 4(2) free c(2) by (auto simp: builds_def fun_eq_iff)
  ultimately have "builds ns0 ns3 (Some i) (x # line_trees (q # qs)) (F @ G')" by (simp add: q)
  moreover have "parser_statement e (Some i) (fst k0) (parsing t ns1 s) = Some (Some j, parsing t2 (ns2(i := ?n)) s)"
    using begins_not [OF ts(2)] Cons.prems(3) by (simp add: parser_statement_def 2(1) nsi)
  then have "parser_loop e (Some i) (fst k) (parsing t ns1 s) = Some (parsing t4 ns3 s)"
    using begins_not [OF ts(2)] Cons.prems(3) by (subst parser_loop.simps) (auto simp: k 3(1) 4(1))
  ultimately show ?case by blast
qed

text \<open>A shell between two lines.\<close>

definition ready :: "finsh \<Rightarrow> bool" where
  "ready s \<longleftrightarrow> clean (global_node_table s) \<and> card (free_nodes (global_node_table s)) = FINSH_NODE_MAX \<and>
     global_errno s = FINSH_ERROR_OK \<and> parser_root s = None"

lemma ready_flush: "ready (finsh_flush s)"
  by (simp add: ready_def finsh_flush_def finsh_error_init_def finsh_node_init_def finsh_parser_init_def clean_def free_nodes_def
    no_node_def card_Collect_less_nat)

lemma parser_run_trees:
  assumes y: "yields (finsh_token_init str) (line_tokens qs @ [ke])" "fst ke = finsh_token_type_eof"
    and d: "line_derives (names e s) qs" "qs \<noteq> []"
    and c: "clean (global_node_table s)" "trees_size (line_trees qs) \<le> card (free_nodes (global_node_table s))" "parser_root s = None"
  obtains i t ns F where "finsh_parser_run e str s = Some ((parsing t ns s)\<lparr>parser_root := Some i\<rparr>)"
    "builds (global_node_table s) ns (Some i) (line_trees qs) F"
proof -
  let ?ns = "global_node_table s"
  obtain x ts k qs' where q: "qs = (x, ts, k) # qs'" using d(2) by (cases qs) auto
  have p: "derives (names e s) Assign_expr x ts" "fst k = finsh_token_type_semicolon" "line_derives (names e s) qs'"
    using d(1) by (auto simp: q line_derives_def)
  obtain k0 us where ts: "ts = k0 # us" "begins (fst k0)" using derives_starts(1) [OF p(1)] by (cases ts) auto
  have y0: "yields (finsh_token_init str) (k0 # us @ k # line_tokens qs' @ [ke])" using y(1) by (simp add: q ts(1))
  from next_token_yields [OF y0, of ?ns s] obtain t1 where
    1: "next_token (parsing (finsh_token_init str) ?ns s) = Some (fst k0, parsing t1 ?ns s)"
      "yields (finsh_token_replay t1) (ts @ k # line_tokens qs' @ [ke])" unfolding ts(1) append.simps by metis
  have n: "tree_size (tree_of x) \<le> card (free_nodes ?ns)" "tree_size (tree_of x) + trees_size (line_trees qs') \<le> card (free_nodes ?ns)"
    using c(2) by (simp_all add: q)
  from expr_statement_run [OF p(1,2) 1(2) c(1) n(1)] obtain i t2 ns2 F where
    2: "proc_expr_statement e (parsing (finsh_token_replay t1) ?ns s) = Some (Some i, parsing t2 ns2 s)" "yields t2 (line_tokens qs' @ [ke])"
      "builds ?ns ns2 (Some i) [tree_of x] F" .
  let ?s = "s\<lparr>parser_root := Some i\<rparr>"
  have move: "(parsing t ns s)\<lparr>parser_root := Some i\<rparr> = parsing t ns ?s" for t ns by (simp add: parsing_def)
  have d': "line_derives (names e ?s) qs'"
  proof -
    have "names e ?s = names e s"
      using find_symbol_cong [of ?s s e] by (simp add: names_def fun_eq_iff)
    then show ?thesis using p(3) by simp
  qed
  from line_starts [OF p(3) y(2)] obtain k' r' where k': "line_tokens qs' @ [ke] = k' # r'" by metis
  from next_token_yields [OF 2(2) [unfolded k'], of ns2 ?s] obtain t3 where
    3: "next_token (parsing t2 ns2 ?s) = Some (fst k', parsing t3 ns2 ?s)" "yields (finsh_token_replay t3) (line_tokens qs' @ [ke])"
    unfolding k' by metis
  have "parser_root ?s \<noteq> None" by simp
  from parser_loop_run [OF d' y(2) this 2(3) c(1) n(2) 3(2) k'] obtain t4 ns4 F' where
    4: "parser_loop e (Some i) (fst k') (parsing t3 ns2 ?s) = Some (parsing t4 ns4 ?s)"
      "builds ?ns ns4 (Some i) (tree_of x # line_trees qs') F'" by blast
  have "parser_statement e None (fst k0) (parsing t1 ?ns s) = Some (Some i, parsing t2 ns2 ?s)"
    using begins_not [OF ts(2)] c(3) by (simp add: parser_statement_def 2(1) move)
  then have "parser_loop e None (fst k0) (parsing t1 ?ns s) = Some (parsing t4 ns4 ?s)"
    using begins_not [OF ts(2)] by (subst parser_loop.simps) (simp add: 3(1) 4(1))
  moreover have "s\<lparr>parser_token := finsh_token_init str\<rparr> = parsing (finsh_token_init str) ?ns s" by (simp add: parsing_def)
  ultimately have "finsh_parser_run e str s = Some ((parsing t4 ns4 s)\<lparr>parser_root := Some i\<rparr>)"
    by (simp add: finsh_parser_run_def 1(1) move)
  then show ?thesis by (rule that) (use 4(2) in \<open>simp add: q\<close>)
qed

end
