(* ===== verification/Finsh_Lexing.thy ===== *)
theory Finsh_Lexing
  imports Finsh_Grammar
begin

text \<open>
  Texts of tokens, and that the lexer \<^verbatim>\<open>finsh_token.c\<close> reads the tokens back: names, keywords,
  operators, decimal numbers and characters, with a space behind each.
\<close>

subsection \<open>Texts\<close>

definition op_texts :: "(finsh_token_type \<times> u8 list) list" where
  "op_texts =
     [(finsh_token_type_left_paren, map of_char ''(''), (finsh_token_type_right_paren, map of_char '')''),
      (finsh_token_type_comma, map of_char '',''), (finsh_token_type_semicolon, map of_char '';''),
      (finsh_token_type_and, map of_char ''&''), (finsh_token_type_mul, map of_char ''*''),
      (finsh_token_type_or, map of_char ''|''), (finsh_token_type_mod, map of_char ''%''),
      (finsh_token_type_bitwise, map of_char ''~''), (finsh_token_type_xor, map of_char ''^''),
      (finsh_token_type_assign, map of_char ''=''), (finsh_token_type_add, map of_char ''+''),
      (finsh_token_type_sub, map of_char ''-''), (finsh_token_type_div, map of_char ''/''),
      (finsh_token_type_inc, map of_char ''++''), (finsh_token_type_dec, map of_char ''--''),
      (finsh_token_type_shl, map of_char ''<<''), (finsh_token_type_shr, map of_char ''>>'')]"

definition keyword_texts :: "(finsh_token_type \<times> u8 list) list" where
  "keyword_texts =
     [(finsh_token_type_void, map of_char ''void''), (finsh_token_type_char, map of_char ''char''),
      (finsh_token_type_short, map of_char ''short''), (finsh_token_type_int, map of_char ''int''),
      (finsh_token_type_long, map of_char ''long''), (finsh_token_type_unsigned, map of_char ''unsigned''),
      (finsh_token_type_value_null, map of_char ''NULL'')]"

fun decimal :: "nat \<Rightarrow> u8 list" where
  "decimal n = (if n < 10 then [0x30 + of_nat n] else decimal (n div 10) @ [0x30 + of_nat (n mod 10)])"

declare decimal.simps [simp del]

definition word_char :: "u8 \<Rightarrow> bool" where
  "word_char c \<longleftrightarrow> \<not> is_separator c"

fun token_text :: "tok \<Rightarrow> u8 list" where
  "token_text (ty, v, str) =
     (if ty = finsh_token_type_identifier then str
      else if ty = finsh_token_type_value_int then decimal (unat v)
      else if ty = finsh_token_type_value_long then decimal (unat v) @ [asc CHR ''l'']
      else if ty = finsh_token_type_value_char then [0x27, char_value v, 0x27]
      else the (map_of (op_texts @ keyword_texts) ty))"

text \<open>What can be written: names that are not keywords; \<open>0l\<close> is not read as one number.\<close>

fun writable :: "tok \<Rightarrow> bool" where
  "writable (ty, v, str) \<longleftrightarrow>
     (if ty = finsh_token_type_identifier
      then str \<noteq> [] \<and> list_all word_char str \<and> \<not> is_digit (hd str) \<and> length str < FINSH_STRING_MAX \<and> map_of finsh_name_table str = None
      else if ty = finsh_token_type_value_int then True
      else if ty = finsh_token_type_value_long then v \<noteq> 0
      else if ty = finsh_token_type_value_char then char_value v \<notin> {0, 0x0A, 0x27, 0x5C}
      else map_of (op_texts @ keyword_texts) ty \<noteq> None)"

definition line_text :: "tok list \<Rightarrow> u8 list" where
  "line_text ks = concat (map (\<lambda>k. token_text k @ [0x20]) ks)"

subsection \<open>Positions\<close>

definition lex_at :: "finsh_token \<Rightarrow> u8 list \<Rightarrow> bool" where
  "lex_at t xs \<longleftrightarrow> \<not> eof t \<and> \<not> replay t \<and> length (token_string t) = FINSH_STRING_MAX \<and> position t \<le> length (token_line t)
     \<and> drop (position t) (token_line t) = xs"

definition adv :: "nat \<Rightarrow> finsh_token \<Rightarrow> finsh_token" where
  "adv n t = t\<lparr>position := position t + n\<rparr>"

lemma adv_simps [simp]:
  "eof (adv n t) = eof t" "replay (adv n t) = replay t" "token_string (adv n t) = token_string t" "token_line (adv n t) = token_line t"
  "position (adv n t) = position t + n" "adv m (adv n t) = adv (n + m) t" "adv 0 t = t"
  "(adv n t)\<lparr>token_string := w\<rparr> = adv n (t\<lparr>token_string := w\<rparr>)" "(adv n t)\<lparr>eof := b\<rparr> = adv n (t\<lparr>eof := b\<rparr>)"
  "current_token (adv n t) = current_token t" "token_value (adv n t) = token_value t"
  by (simp_all add: adv_def)

lemma lex_at_adv:
  assumes "lex_at t (xs @ ys)"
  shows "lex_at (adv (length xs) t) ys"
proof -
  have d: "drop (position t) (token_line t) = xs @ ys" "position t \<le> length (token_line t)" using assms by (simp_all add: lex_at_def)
  then have "length (token_line t) - position t = length xs + length ys" by (metis length_append length_drop)
  moreover have "drop (length xs) (drop (position t) (token_line t)) = ys" by (simp add: d(1))
  ultimately show ?thesis using assms d(2) by (simp add: lex_at_def add.commute)
qed

lemma lex_at_adv1: "lex_at t (c # ys) \<Longrightarrow> lex_at (adv 1 t) ys"
  using lex_at_adv [of t "[c]" ys] by simp

lemma next_char_at:
  assumes "lex_at t (c # xs)" "c \<noteq> 0x0A"
  shows "token_next_char t = Some (c, adv 1 t)"
proof -
  have d: "drop (position t) (token_line t) = c # xs" using assms(1) by (simp add: lex_at_def)
  then have "position t < length (token_line t)" by (metis drop_all list.distinct(1) not_le)
  moreover have "token_line t ! position t = c" using d by (rule nth_via_drop)
  ultimately show ?thesis using assms by (simp add: token_next_char_def lex_at_def adv_def)
qed

lemma next_char_end: "lex_at t [] \<Longrightarrow> token_next_char t = Some (0, t\<lparr>eof := True, position := 0\<rparr>)"
  by (auto simp: token_next_char_def lex_at_def)

lemma prev_char_adv: "\<not> eof t \<Longrightarrow> token_prev_char (adv (Suc n) t) = adv n t"
  by (simp add: token_prev_char_def adv_def)

lemma prev_char_adv1: "\<not> eof t \<Longrightarrow> token_prev_char (adv 1 t) = t"
  using prev_char_adv [of t 0] by simp

lemma lex_at_string: "lex_at t xs \<Longrightarrow> length w = FINSH_STRING_MAX \<Longrightarrow> lex_at (t\<lparr>token_string := w\<rparr>) xs"
  by (simp add: lex_at_def)

lemma lex_at_eof [dest]: "lex_at t xs \<Longrightarrow> \<not> eof t"
  by (simp add: lex_at_def)

lemma lex_at_upd [simp]:
  "lex_at (t\<lparr>current_token := ty\<rparr>) xs = lex_at t xs" "lex_at (t\<lparr>token_value := v\<rparr>) xs = lex_at t xs"
  by (simp_all add: lex_at_def)

subsection \<open>Spaces and words\<close>

definition blank :: "u8 \<Rightarrow> bool" where
  "blank c \<longleftrightarrow> c \<in> {0x20, 0x09, 0x0D}"

lemma trim_space_at:
  assumes "lex_at t (gap @ c # xs)" "gap = [] \<or> gap = [0x20]" "\<not> blank c" "c \<noteq> 0x0A"
  shows "token_trim_space t = Some (adv (length gap) t)"
proof -
  have *: "token_trim_loop s = Some (adv 1 s)" if "lex_at s (c # xs)" for s
    using next_char_at [OF that assms(4)] assms(3) by (subst token_trim_loop.simps) (simp add: blank_def)
  from assms(2) show ?thesis
  proof
    assume gap: "gap = []"
    then show ?thesis using * [of t] assms(1) prev_char_adv1 [of t] by (auto simp: token_trim_space_def)
  next
    assume gap: "gap = [0x20]"
    then have 1: "lex_at t (0x20 # c # xs)" using assms(1) by simp
    then have 2: "lex_at (adv 1 t) (c # xs)" by (rule lex_at_adv1)
    have "token_trim_loop t = Some (adv 1 (adv 1 t))"
      using next_char_at [OF 1] * [OF 2] by (subst token_trim_loop.simps) simp
    then show ?thesis using prev_char_adv1 [of "adv 1 t"] 2 gap by (auto simp: token_trim_space_def)
  qed
qed

lemma trim_space_end:
  assumes "lex_at t gap" "gap = [] \<or> gap = [0x20]"
  shows "token_trim_space t = Some (t\<lparr>eof := True, position := 0\<rparr>)"
proof -
  have *: "token_trim_loop s = Some (s\<lparr>eof := True, position := 0\<rparr>)" if "lex_at s []" for s
    using next_char_end [OF that] by (subst token_trim_loop.simps) simp
  from assms(2) show ?thesis
  proof
    assume "gap = []"
    then show ?thesis using * [of t] assms(1) by (simp add: token_trim_space_def token_prev_char_def)
  next
    assume "gap = [0x20]"
    then have 1: "lex_at t [0x20]" using assms(1) by simp
    have "token_trim_loop t = Some ((adv 1 t)\<lparr>eof := True, position := 0\<rparr>)"
      using next_char_at [OF 1] * [OF lex_at_adv1 [OF 1]] by (subst token_trim_loop.simps) simp
    then show ?thesis by (simp add: token_trim_space_def token_prev_char_def adv_def)
  qed
qed

definition overwrite :: "nat \<Rightarrow> u8 list \<Rightarrow> u8 list \<Rightarrow> u8 list" where
  "overwrite p ys xs = take p xs @ ys @ drop (p + length ys) xs"

lemma overwrite_Cons: "p < length xs \<Longrightarrow> overwrite (p + 1) ys (xs[p := c]) = overwrite p (c # ys) xs"
  by (simp add: overwrite_def take_Suc_conv_app_nth)

lemma overwrite_Nil [simp]: "overwrite p [] xs = xs"
  by (simp add: overwrite_def)

lemma word_char_simps: "word_char c \<longleftrightarrow> \<not> is_separator c" "\<not> word_char 0" "\<not> word_char 0x20" "\<not> word_char 0x0A"
  by (simp_all add: word_char_def is_separator_def)

lemma get_string_word:
  assumes "lex_at t (ws @ d # xs)" "word_char c" "list_all word_char ws" "\<not> word_char d" "d \<noteq> 0x0A" "p + 1 + length ws < FINSH_STRING_MAX"
  shows "get_string_loop c p t = Some (p + 1 + length ws, adv (length ws + 1) (t\<lparr>token_string := overwrite p (c # ws) (token_string t)\<rparr>))"
  using assms
proof (induction ws arbitrary: c p t)
  case Nil
  let ?t = "t\<lparr>token_string := (token_string t)[p := c]\<rparr>"
  have l: "lex_at ?t (d # xs)" "p < length (token_string t)" using Nil.prems(1,6) by (simp_all add: lex_at_def)
  from next_char_at [OF l(1) Nil.prems(5)] have "token_next_char ?t = Some (d, adv 1 ?t)" .
  moreover have "get_string_loop d (p + 1) (adv 1 ?t) = Some (p + 1, adv 1 ?t)"
    using Nil.prems(4) by (subst get_string_loop.simps) (simp add: word_char_def)
  ultimately show ?case using Nil.prems(2,6) lex_at_eof [OF Nil.prems(1)] overwrite_Cons [OF l(2), of "[]" c]
    by (subst get_string_loop.simps) (simp add: word_char_def put_string_def)
next
  case (Cons w ws)
  let ?t = "t\<lparr>token_string := (token_string t)[p := c]\<rparr>"
  have l: "lex_at ?t (w # ws @ d # xs)" "p < length (token_string t)" using Cons.prems(1,6) by (simp_all add: lex_at_def)
  have w: "w \<noteq> 0x0A" using Cons.prems(3) word_char_simps(4) by auto
  from next_char_at [OF l(1) w] have 1: "token_next_char ?t = Some (w, adv 1 ?t)" .
  have 2: "get_string_loop w (p + 1) (adv 1 ?t) = Some (p + 1 + 1 + length ws,
      adv (length ws + 1) ((adv 1 ?t)\<lparr>token_string := overwrite (p + 1) (w # ws) (token_string (adv 1 ?t))\<rparr>))"
    by (rule Cons.IH) (use lex_at_adv1 [OF l(1)] Cons.prems in simp_all)
  show ?case using Cons.prems(2,6) lex_at_eof [OF Cons.prems(1)] overwrite_Cons [OF l(2), of "w # ws" c]
    by (subst get_string_loop.simps) (simp add: word_char_def put_string_def 1 [simplified] 2 [simplified])
qed

lemma takeWhile_word:
  assumes "list_all word_char w" "length w < length xs"
  shows "takeWhile (\<lambda>c. c \<noteq> 0) ((overwrite 0 w xs)[length w := 0]) = w"
    "0 \<in> set ((overwrite 0 w xs)[length w := 0])" "length ((overwrite 0 w xs)[length w := 0]) = length xs"
proof -
  have o: "(overwrite 0 w xs)[length w := 0] = w @ 0 # drop (length w + 1) xs"
    using assms(2) by (simp add: overwrite_def list_update_append Cons_nth_drop_Suc [symmetric])
  have "\<forall>c \<in> set w. c \<noteq> 0" using assms(1) word_char_simps(2) by (auto simp: list_all_iff)
  then show "takeWhile (\<lambda>c. c \<noteq> 0) ((overwrite 0 w xs)[length w := 0]) = w" "0 \<in> set ((overwrite 0 w xs)[length w := 0])"
    "length ((overwrite 0 w xs)[length w := 0]) = length xs"
    unfolding o using assms(2) by (simp_all add: takeWhile_append2)
qed

lemma adv_eof: "\<not> eof t \<Longrightarrow> adv n (t\<lparr>token_string := u, eof := False\<rparr>) = adv n (t\<lparr>token_string := u\<rparr>)"
  by (cases t) (simp add: adv_def)

lemma get_string_at:
  assumes l: "lex_at t (w @ d # xs)" and w: "w \<noteq> []" "list_all word_char w" "\<not> is_digit (hd w)" "length w < FINSH_STRING_MAX"
    and d: "\<not> word_char d" "d \<noteq> 0x0A"
  obtains str where "token_get_string t = Some (0, adv (length w) (t\<lparr>token_string := str\<rparr>))" "length str = FINSH_STRING_MAX"
    "c_string str = Some w" "takeWhile (\<lambda>c. c \<noteq> 0) str = w" "str ! 0 \<noteq> 0"
proof -
  obtain c ws where cw: "w = c # ws" using w(1) by (cases w) auto
  have n: "length (token_string t) = FINSH_STRING_MAX" using l by (simp add: lex_at_def)
  let ?t = "t\<lparr>token_string := (token_string t)[0 := 0]\<rparr>"
  let ?s = "(overwrite 0 w ((token_string t)[0 := 0]))[length w := 0]"
  have c: "c \<noteq> 0x0A" using w(2) word_char_simps(4) by (auto simp: cw)
  have l1: "lex_at t (c # ws @ d # xs)" using l by (simp add: cw)
  have l2: "lex_at (adv 1 ?t) (ws @ d # xs)" using lex_at_adv1 [OF l1] n by (simp add: lex_at_def)
  have g: "get_string_loop c 0 (adv 1 ?t)
      = Some (0 + 1 + length ws, adv (length ws + 1) ((adv 1 ?t)\<lparr>token_string := overwrite 0 (c # ws) (token_string (adv 1 ?t))\<rparr>))"
    by (rule get_string_word [OF l2]) (use w d in \<open>simp_all add: cw\<close>)
  have e: "\<not> eof t" using l by auto
  then have ee: "t\<lparr>eof := False\<rparr> = t" by (cases t) simp
  have p: "token_prev_char (adv (Suc (Suc (length ws))) (t\<lparr>token_string := overwrite 0 (c # ws) ((token_string t)[0 := 0])\<rparr>))
      = adv (Suc (length ws)) (t\<lparr>token_string := overwrite 0 (c # ws) ((token_string t)[0 := 0])\<rparr>)"
    by (rule prev_char_adv) (use e in simp)
  have tw: "takeWhile (\<lambda>c. c \<noteq> 0) ?s = w" "0 \<in> set ?s" "length ?s = FINSH_STRING_MAX"
    using takeWhile_word [OF w(2), of "(token_string t)[0 := 0]"] w(4) n by simp_all
  show ?thesis
  proof (rule that [of ?s])
    show "token_get_string t = Some (0, adv (length w) (t\<lparr>token_string := ?s\<rparr>))"
      using w(3,4) e
      by (simp add: token_get_string_def next_char_at [OF l1 c] cw put_string_def g [simplified] adv_eof p)
    show "?s ! 0 \<noteq> 0" using tw(1) w(1) by (cases ?s) (auto split: if_splits)
  qed (use tw in \<open>simp_all add: c_string_def\<close>)
qed

lemma get_string_stop:
  assumes l: "lex_at t (c # xs)" and c: "c \<noteq> 0x0A" "is_digit c \<or> \<not> word_char c"
  shows "\<exists>r. token_get_string t = Some (r, t\<lparr>token_string := (token_string t)[0 := 0]\<rparr>)"
proof -
  let ?t = "t\<lparr>token_string := (token_string t)[0 := 0]\<rparr>"
  have e: "\<not> eof t" using l by auto
  have p: "token_prev_char (adv 1 ?t) = ?t" by (rule prev_char_adv1) (use e in simp)
  have q: "token_prev_char (adv 1 (t\<lparr>token_string := u, eof := False\<rparr>)) = t\<lparr>token_string := u\<rparr>" for u
    using e by (cases t) (simp add: token_prev_char_def adv_def)
  show ?thesis
  proof (cases "is_digit c")
    case True
    then show ?thesis using e p [simplified] by (simp add: token_get_string_def next_char_at [OF l c(1)] put_string_def)
  next
    case False
    then have "is_separator c" using c(2) by (simp add: word_char_def)
    then have "get_string_loop c 0 (adv 1 ?t) = Some (0, adv 1 ?t)" by (subst get_string_loop.simps) simp
    then show ?thesis using e False q [simplified] by (simp add: token_get_string_def next_char_at [OF l c(1)] put_string_def)
  qed
qed

subsection \<open>Operators\<close>

lemma run_operator:
  assumes l: "lex_at t (gap @ c # xs)" "gap = [] \<or> gap = [0x20]" and c: "\<not> blank c" "c \<noteq> 0x0A" "is_digit c \<or> \<not> word_char c"
  obtains t' where "\<And>err. token_run t err = token_operator t' err" "lex_at t' (c # xs)"
proof -
  let ?t = "adv (length gap) t"
  have l1: "lex_at ?t (c # xs)" using lex_at_adv [OF l(1)] .
  obtain r where g: "token_get_string ?t = Some (r, ?t\<lparr>token_string := (token_string ?t)[0 := 0]\<rparr>)"
    using get_string_stop [OF l1 c(2,3)] by blast
  have l2: "lex_at (?t\<lparr>token_string := (token_string ?t)[0 := 0]\<rparr>) (c # xs)"
    by (rule lex_at_string [OF l1]) (use l1 in \<open>simp add: lex_at_def\<close>)
  have "token_string ?t \<noteq> []" using l1 by (auto simp: lex_at_def)
  then show ?thesis
    using that [of "?t\<lparr>token_string := (token_string ?t)[0 := 0]\<rparr>"] lex_at_eof [OF l2] l2 g
    by (simp add: token_run_def trim_space_at [OF l c(1,2)])
qed

lemma operator_single:
  assumes "lex_at t (c # xs)" "map_of token_single c = Some ty"
  shows "token_operator t err = Some ((adv 1 t)\<lparr>current_token := ty\<rparr>, err)"
proof -
  have "c \<noteq> 0x0A" using assms(2) by (auto simp: token_single_def split: if_splits)
  from next_char_at [OF assms(1) this] assms(2) show ?thesis by (simp add: token_operator_def)
qed

definition doubles :: "(u8 \<times> finsh_token_type \<times> finsh_token_type) list" where
  "doubles = [(asc CHR ''+'', finsh_token_type_inc, finsh_token_type_add), (asc CHR ''-'', finsh_token_type_dec, finsh_token_type_sub),
     (asc CHR ''/'', finsh_token_type_eof, finsh_token_type_div), (asc CHR ''<'', finsh_token_type_shl, finsh_token_type_bad),
     (asc CHR ''>'', finsh_token_type_shr, finsh_token_type_bad)]"

lemma operator_double:
  assumes "lex_at t (c # d # xs)" "map_of doubles c = Some (two, one)" "d \<noteq> 0x0A"
  shows "token_operator t err =
    Some (if d = c then (adv 2 t)\<lparr>current_token := two\<rparr> else (adv 1 t)\<lparr>current_token := one\<rparr>, err)"
proof -
  have c: "c \<noteq> 0x0A" using assms(2) by (auto simp: doubles_def split: if_splits)
  have n: "token_next_char t = Some (c, adv 1 t)" "token_next_char (adv 1 t) = Some (d, adv 1 (adv 1 t))"
    by (rule next_char_at [OF assms(1) c]) (rule next_char_at [OF lex_at_adv1 [OF assms(1)] assms(3)])
  have e: "\<not> eof t" using assms(1) by auto
  have p: "token_prev_char (adv 1 (adv 1 t)) = adv 1 t" by (rule prev_char_adv1) (use e in simp)
  have "token_double c two one (adv 1 t) = Some (if d = c then (adv 2 t)\<lparr>current_token := two\<rparr> else (adv 1 t)\<lparr>current_token := one\<rparr>)"
    using n(2) p by (simp add: token_double_def numeral_2_eq_2)
  moreover have "token_operator t err = map_option (\<lambda>t2. (t2, err)) (token_double c two one (adv 1 t))"
    using assms(2) n(1) by (auto simp: token_operator_def doubles_def token_single_def split: if_splits)
  ultimately show ?thesis by simp
qed

text \<open>The three shapes of an operator's text, with a space behind.\<close>

definition op_shape :: "finsh_token_type \<Rightarrow> u8 list \<Rightarrow> bool" where
  "op_shape ty w \<longleftrightarrow> (w = [hd w] \<and> map_of token_single (hd w) = Some ty)
     \<or> (w = [hd w] \<and> map_option snd (map_of doubles (hd w)) = Some ty)
     \<or> (w = [hd w, hd w] \<and> map_option fst (map_of doubles (hd w)) = Some ty)"

lemma op_shape_texts: "list_all (\<lambda>(ty, w). op_shape ty w) op_texts"
  by (simp add: op_texts_def op_shape_def token_single_def doubles_def)

lemma op_shapes:
  assumes "map_of op_texts ty = Some w"
  shows "(\<exists>c. w = [c] \<and> map_of token_single c = Some ty) \<or> (\<exists>c two. w = [c] \<and> map_of doubles c = Some (two, ty))
    \<or> (\<exists>c one. w = [c, c] \<and> map_of doubles c = Some (ty, one))"
proof -
  have "op_shape ty w" using op_shape_texts map_of_SomeD [OF assms] by (auto simp: list_all_iff)
  then show ?thesis unfolding op_shape_def by auto
qed

lemma operator_text:
  assumes w: "map_of op_texts ty = Some w" and l: "lex_at t (w @ 0x20 # xs)"
  obtains n where "\<And>err. token_operator t err = Some ((adv n t)\<lparr>current_token := ty\<rparr>, err)" "lex_at (adv n t) (0x20 # xs)"
proof -
  consider (one) c where "w = [c]" "map_of token_single c = Some ty" | (first) c two where "w = [c]" "map_of doubles c = Some (two, ty)"
    | (both) c one where "w = [c, c]" "map_of doubles c = Some (ty, one)" using op_shapes [OF w] by blast
  then show ?thesis
  proof cases
    case one
    then have "lex_at t (c # 0x20 # xs)" using l by simp
    from operator_single [OF this one(2)] lex_at_adv1 [OF this] show ?thesis by (rule that)
  next
    case first
    then have l1: "lex_at t (c # 0x20 # xs)" using l by simp
    have "c \<noteq> 0x20" using first(2) by (auto simp: doubles_def split: if_splits)
    then have "token_operator t err = Some ((adv 1 t)\<lparr>current_token := ty\<rparr>, err)" for err
      using operator_double [OF l1 first(2)] by simp
    from this lex_at_adv1 [OF l1] show ?thesis by (rule that)
  next
    case both
    then have l1: "lex_at t (c # c # 0x20 # xs)" using l by simp
    have "c \<noteq> 0x0A" using both(2) by (auto simp: doubles_def split: if_splits)
    then have "token_operator t err = Some ((adv 2 t)\<lparr>current_token := ty\<rparr>, err)" for err
      using operator_double [OF l1 both(2)] by simp
    moreover have "lex_at (adv 2 t) (0x20 # xs)" using lex_at_adv [of t "[c, c]"] l1 by (simp add: numeral_2_eq_2)
    ultimately show ?thesis by (rule that)
  qed
qed

lemma op_text_starts:
  assumes "map_of op_texts ty = Some w"
  shows "w \<noteq> []" "\<not> blank (hd w)" "hd w \<noteq> 0x0A" "\<not> word_char (hd w)"
proof -
  have "\<forall>w \<in> snd ` set op_texts. w \<noteq> [] \<and> \<not> blank (hd w) \<and> hd w \<noteq> 0x0A \<and> \<not> word_char (hd w)"
    by (simp add: op_texts_def blank_def word_char_def is_separator_def)
  then show "w \<noteq> []" "\<not> blank (hd w)" "hd w \<noteq> 0x0A" "\<not> word_char (hd w)" using map_of_SomeD [OF assms] by force+
qed

subsection \<open>Numbers and characters\<close>

definition digits_value :: "u32 \<Rightarrow> u8 list \<Rightarrow> u32" where
  "digits_value = foldl (\<lambda>v c. v * 10 + (ucast c - 0x30))"

lemma digit_of_nat:
  assumes "k < 10"
  shows "is_digit (0x30 + of_nat k)" "ucast (0x30 + of_nat k :: u8) - 0x30 = (of_nat k :: u32)" "(0x30 + of_nat k :: u8) = 0x30 \<longleftrightarrow> k = 0"
proof -
  have "k \<in> {0, 1, 2, 3, 4, 5, 6, 7, 8, 9}" using assms by auto
  then show "is_digit (0x30 + of_nat k)" "ucast (0x30 + of_nat k :: u8) - 0x30 = (of_nat k :: u32)"
    "(0x30 + of_nat k :: u8) = 0x30 \<longleftrightarrow> k = 0" by (auto simp: is_digit_def)
qed

lemma decimal_digit_list:
  "decimal n \<noteq> [] \<and> list_all is_digit (decimal n) \<and> digits_value 0 (decimal n) = of_nat n \<and> (hd (decimal n) = 0x30 \<longleftrightarrow> n = 0)"
proof (induction n rule: decimal.induct)
  case (1 n)
  show ?case
  proof (cases "n < 10")
    case True
    then show ?thesis using digit_of_nat [OF True] by (subst (1 2 3 4) decimal.simps) (simp add: digits_value_def)
  next
    case False
    have m: "n mod 10 < 10" by simp
    have d: "decimal n = decimal (n div 10) @ [0x30 + of_nat (n mod 10)]" using False by (subst decimal.simps) simp
    have "(of_nat (n div 10) :: u32) * 10 + of_nat (n mod 10) = of_nat (n div 10 * 10 + n mod 10)"
      by (simp only: of_nat_add of_nat_mult of_nat_numeral)
    also have "\<dots> = of_nat n" by (simp only: div_mult_mod_eq)
    finally show ?thesis using 1 [OF False] False digit_of_nat [OF m] by (simp add: d digits_value_def div_eq_0_iff)
  qed
qed

lemma digit_facts:
  assumes "is_digit c"
  shows "c \<noteq> 0x0A" "\<not> blank c" "word_char c"
  using assms by (auto simp: is_digit_def blank_def word_char_def is_separator_def)

lemma decimal_digits_run:
  assumes "lex_at t (ds @ d # xs)" "is_digit c" "list_all is_digit ds" "\<not> is_digit d" "d \<noteq> 0x0A"
  shows "decimal_digits c v t = Some (d, digits_value v (c # ds), adv (length ds + 1) t)"
  using assms
proof (induction ds arbitrary: c v t)
  case Nil
  then have l: "lex_at t (d # xs)" by simp
  show ?case using Nil.prems(2,4) by (subst decimal_digits.simps)
    (simp add: next_char_at [OF l Nil.prems(5)] digits_value_def decimal_digits.simps [of d])
next
  case (Cons e ds)
  then have l: "lex_at t (e # ds @ d # xs)" and e: "is_digit e" by simp_all
  have n: "token_next_char t = Some (e, adv 1 t)" by (rule next_char_at [OF l digit_facts(1) [OF e]])
  have "decimal_digits e u (adv 1 t) = Some (d, digits_value u (e # ds), adv (length ds + 1) (adv 1 t))" for u
    by (rule Cons.IH) (use lex_at_adv1 [OF l] Cons.prems in simp_all)
  then show ?case using Cons.prems(2) n by (subst decimal_digits.simps) (simp add: digits_value_def)
qed

lemma adv_upds:
  "(adv n t)\<lparr>current_token := ty\<rparr> = adv n (t\<lparr>current_token := ty\<rparr>)" "(adv n t)\<lparr>token_value := v\<rparr> = adv n (t\<lparr>token_value := v\<rparr>)"
  by (simp_all add: adv_def)

lemma proc_decimal:
  assumes l: "lex_at t (decimal n @ d # xs)" and n: "n \<noteq> 0" and d: "\<not> is_digit d" "d \<noteq> 0x0A"
  shows "token_proc_number t = Some (number_suffix d
    (adv (length (decimal n) + 1) (t\<lparr>token_value := of_nat n, current_token := finsh_token_type_value_int\<rparr>)))"
proof -
  obtain c ds where w: "decimal n = c # ds" using decimal_digit_list [of n] by (cases "decimal n") auto
  have c: "is_digit c" "list_all is_digit ds" "digits_value 0 (c # ds) = of_nat n" "c \<noteq> 0x30"
    using decimal_digit_list [of n] n by (simp_all add: w)
  have l1: "lex_at t (c # ds @ d # xs)" using l by (simp add: w)
  have "decimal_digits c 0 (adv 1 t) = Some (d, of_nat n, adv (length ds + 1) (adv 1 t))"
    using decimal_digits_run [OF lex_at_adv1 [OF l1] c(1,2) d, of 0] by (simp only: c(3))
  then show ?thesis using c(4)
    by (simp add: token_proc_number_def next_char_at [OF l1 digit_facts(1) [OF c(1)]] w adv_upds)
qed

lemma proc_zero:
  assumes "lex_at t (0x30 # 0x20 # xs)"
  shows "token_proc_number t = Some (adv 1 (t\<lparr>token_value := 0, current_token := finsh_token_type_value_int\<rparr>))"
proof -
  have n: "token_next_char t = Some (0x30, adv 1 t)" "token_next_char (adv 1 t) = Some (0x20, adv 1 (adv 1 t))"
    by (rule next_char_at [OF assms]; simp) (rule next_char_at [OF lex_at_adv1 [OF assms]]; simp)
  have p: "token_prev_char (adv 1 (adv 1 t)) = adv 1 t" by (rule prev_char_adv1) (use assms in auto)
  show ?thesis using n(2) p by (simp add: token_proc_number_def n(1) adv_upds)
qed

lemma operator_number:
  assumes "lex_at t (c # xs)" "is_digit c"
  shows "token_operator t err = map_option (\<lambda>t2. (t2, err)) (token_proc_number t)"
proof -
  have "map_of token_single c = None" "c \<notin> {asc CHR ''+'', asc CHR ''-'', asc CHR ''/'', asc CHR ''<'', asc CHR ''>'', 0x27, 0x22}"
    using assms(2) by (auto simp: is_digit_def token_single_def)
  then show ?thesis using assms(2) prev_char_adv1 [OF lex_at_eof [OF assms(1)]]
    by (simp add: token_operator_def next_char_at [OF assms(1) digit_facts(1) [OF assms(2)]])
qed

lemma operator_char:
  assumes l: "lex_at t (0x27 # c # 0x27 # xs)" and c: "c \<notin> {0x0A, 0x5C}"
  shows "token_operator t err
    = Some (adv 3 (t\<lparr>token_value := set_char_value (token_value t) c, current_token := finsh_token_type_value_char\<rparr>), err)"
proof -
  have l1: "lex_at (adv 1 t) (c # 0x27 # xs)" by (rule lex_at_adv1 [OF l])
  have l2: "lex_at (adv 1 (adv 1 t)) (0x27 # xs)" by (rule lex_at_adv1 [OF l1])
  have n: "token_next_char t = Some (0x27, adv 1 t)" "token_next_char (adv 1 t) = Some (c, adv 1 (adv 1 t))"
    "token_next_char (adv 1 (adv 1 t)) = Some (0x27, adv 1 (adv 1 (adv 1 t)))"
    using next_char_at [OF l] next_char_at [OF l1] next_char_at [OF l2] c by simp_all
  have "token_proc_char (adv 1 t) err = Some (c, adv 3 t, err)"
    using n(2,3) c by (simp add: token_proc_char_def numeral_3_eq_3)
  then show ?thesis by (simp add: token_operator_def n(1) token_single_def set_char_value_def adv_upds)
qed

subsection \<open>One token\<close>

lemma word_starts:
  assumes "list_all word_char w" "w \<noteq> []"
  shows "\<not> blank (hd w)" "hd w \<noteq> 0x0A"
  using assms word_char_simps by (cases w; auto simp: blank_def word_char_def is_separator_def)+

lemma run_word:
  assumes l: "lex_at t (gap @ w @ 0x20 # xs)" "gap = [] \<or> gap = [0x20]"
    and w: "w \<noteq> []" "list_all word_char w" "\<not> is_digit (hd w)" "length w < FINSH_STRING_MAX"
    and ty: "ty = (case map_of finsh_name_table w of Some ty \<Rightarrow> ty | None \<Rightarrow> finsh_token_type_identifier)"
      "ty \<notin> {finsh_token_type_value_int, finsh_token_type_value_long, finsh_token_type_value_char}"
    and str: "ty = finsh_token_type_identifier \<longrightarrow> str = w"
  obtains t' where "\<And>err. token_run t err = Some (t', err)" "tok_ok (ty, v, str) t'" "lex_at t' (0x20 # xs)"
proof -
  let ?t = "adv (length gap) t"
  obtain c ws where c: "w = c # ws" using w(1) by (cases w) auto
  have l0: "lex_at t (gap @ c # ws @ 0x20 # xs)" using l(1) by (simp add: c)
  have tr: "token_trim_space t = Some ?t" by (rule trim_space_at [OF l0 l(2)]) (use word_starts [OF w(2,1)] in \<open>simp_all add: c\<close>)
  have l1: "lex_at ?t (w @ 0x20 # xs)" by (rule lex_at_adv [OF l(1)])
  from get_string_at [OF l1 w(1-4) word_char_simps(3)] obtain st where
    g: "token_get_string ?t = Some (0, adv (length w) (?t\<lparr>token_string := st\<rparr>))" "length st = FINSH_STRING_MAX"
      "c_string st = Some w" "takeWhile (\<lambda>c. c \<noteq> 0) st = w" "st ! 0 \<noteq> 0" by auto
  let ?s = "adv (length w) (?t\<lparr>token_string := st\<rparr>)"
  have l2: "lex_at ?s (0x20 # xs)" by (rule lex_at_adv [OF lex_at_string [OF l1 g(2)]])
  show ?thesis
  proof (rule that [of "?s\<lparr>current_token := ty\<rparr>"])
    show "token_run t err = Some (?s\<lparr>current_token := ty\<rparr>, err)" for err
      using lex_at_eof [OF l2] g(3,5) ty(1) by (simp add: token_run_def tr g(1) token_match_name_def split: option.splits)
    show "tok_ok (ty, v, str) (?s\<lparr>current_token := ty\<rparr>)"
      using l2 g(4) ty(2) str by (auto simp: lex_at_def)
  qed (use l2 in simp)
qed

lemma run_operator_text:
  assumes l: "lex_at t (gap @ w @ 0x20 # xs)" "gap = [] \<or> gap = [0x20]" and w: "map_of op_texts ty = Some w"
    and ty: "ty \<notin> {finsh_token_type_identifier, finsh_token_type_value_int, finsh_token_type_value_long, finsh_token_type_value_char}"
  obtains t' where "\<And>err. token_run t err = Some (t', err)" "tok_ok (ty, v, str) t'" "lex_at t' (0x20 # xs)"
proof -
  obtain c ws where c: "w = c # ws" using op_text_starts(1) [OF w] by (cases w) auto
  have l0: "lex_at t (gap @ c # ws @ 0x20 # xs)" using l(1) by (simp add: c)
  have st: "\<not> blank c" "c \<noteq> 0x0A" "\<not> word_char c" using op_text_starts(2-4) [OF w] by (simp_all add: c)
  from run_operator [OF l0 l(2) st(1,2)] st(3) obtain t1 where
    1: "\<And>err. token_run t err = token_operator t1 err" "lex_at t1 (w @ 0x20 # xs)" unfolding c by auto
  from operator_text [OF w 1(2)] obtain n where
    2: "\<And>err. token_operator t1 err = Some ((adv n t1)\<lparr>current_token := ty\<rparr>, err)" "lex_at (adv n t1) (0x20 # xs)" by blast
  show ?thesis by (rule that [of "(adv n t1)\<lparr>current_token := ty\<rparr>"]) (use 1 2 ty in \<open>auto simp: lex_at_def\<close>)
qed

lemma run_decimal:
  assumes l: "lex_at t (gap @ decimal (unat v) @ 0x20 # xs)" "gap = [] \<or> gap = [0x20]"
  obtains t' where "\<And>err. token_run t err = Some (t', err)" "tok_ok (finsh_token_type_value_int, v, str) t'" "lex_at t' (0x20 # xs)"
proof -
  let ?n = "unat v"
  obtain c ws where c: "decimal ?n = c # ws" "is_digit c" using decimal_digit_list [of ?n] by (cases "decimal ?n") auto
  have l0: "lex_at t (gap @ c # ws @ 0x20 # xs)" using l(1) by (simp add: c)
  from run_operator [OF l0 l(2) digit_facts(2,1) [OF c(2)]] c(2) obtain t1 where
    1: "\<And>err. token_run t err = token_operator t1 err" "lex_at t1 (decimal ?n @ 0x20 # xs)" unfolding c(1) by auto
  let ?t = "t1\<lparr>token_value := v, current_token := finsh_token_type_value_int\<rparr>"
  have "token_proc_number t1 = Some (adv (length (decimal ?n)) ?t)"
  proof (cases "v = 0")
    case True
    have d: "decimal 0 = [0x30]" by (subst decimal.simps) simp
    then have "lex_at t1 (0x30 # 0x20 # xs)" using 1(2) True by simp
    from proc_zero [OF this] True show ?thesis by (simp add: d)
  next
    case False
    then have "?n \<noteq> 0" by (simp add: unat_eq_0)
    from proc_decimal [OF 1(2) this] have "token_proc_number t1 = Some (number_suffix 0x20 (adv (length (decimal ?n) + 1) ?t))"
      by (simp add: is_digit_def)
    moreover have "token_prev_char (adv (Suc (length (decimal ?n))) ?t) = adv (length (decimal ?n)) ?t"
      by (rule prev_char_adv) (use 1(2) in \<open>auto simp: lex_at_def\<close>)
    ultimately show ?thesis by (simp add: number_suffix_def)
  qed
  moreover have "token_operator t1 err = map_option (\<lambda>t2. (t2, err)) (token_proc_number t1)" for err
    by (rule operator_number [OF _ c(2)]) (use 1(2) c(1) in auto)
  moreover have "lex_at (adv (length (decimal ?n)) ?t) (0x20 # xs)" by (rule lex_at_adv) (use 1(2) in simp)
  ultimately show ?thesis using 1(1) by (intro that [of "adv (length (decimal ?n)) ?t"]) (auto simp: lex_at_def)
qed

lemma run_long:
  assumes l: "lex_at t (gap @ decimal (unat v) @ asc CHR ''l'' # 0x20 # xs)" "gap = [] \<or> gap = [0x20]" and v: "v \<noteq> 0"
  obtains t' where "\<And>err. token_run t err = Some (t', err)" "tok_ok (finsh_token_type_value_long, v, str) t'" "lex_at t' (0x20 # xs)"
proof -
  let ?n = "unat v" and ?l = "asc CHR ''l''"
  obtain c ws where c: "decimal ?n = c # ws" "is_digit c" using decimal_digit_list [of ?n] by (cases "decimal ?n") auto
  have l0: "lex_at t (gap @ c # ws @ ?l # 0x20 # xs)" using l(1) by (simp add: c)
  from run_operator [OF l0 l(2) digit_facts(2,1) [OF c(2)]] c(2) obtain t1 where
    1: "\<And>err. token_run t err = token_operator t1 err" "lex_at t1 (decimal ?n @ ?l # 0x20 # xs)" unfolding c(1) by auto
  let ?t = "t1\<lparr>token_value := v, current_token := finsh_token_type_value_long\<rparr>"
  have "?n \<noteq> 0" using v by (simp add: unat_eq_0)
  from proc_decimal [OF 1(2) this] have "token_proc_number t1 = Some (adv (length (decimal ?n) + 1) ?t)"
    by (simp add: is_digit_def number_suffix_def adv_upds)
  moreover have "token_operator t1 err = map_option (\<lambda>t2. (t2, err)) (token_proc_number t1)" for err
    by (rule operator_number [OF _ c(2)]) (use 1(2) c(1) in auto)
  moreover have "lex_at (adv (length (decimal ?n) + 1) ?t) (0x20 # xs)"
    using lex_at_adv [of ?t "decimal ?n @ [?l]" "0x20 # xs"] 1(2) by simp
  ultimately show ?thesis using 1(1) by (intro that [of "adv (length (decimal ?n) + 1) ?t"]) (auto simp: lex_at_def)
qed

lemma run_char:
  assumes l: "lex_at t (gap @ 0x27 # c # 0x27 # 0x20 # xs)" "gap = [] \<or> gap = [0x20]" and c: "c \<notin> {0x0A, 0x5C}" "char_value v = c"
  obtains t' where "\<And>err. token_run t err = Some (t', err)" "tok_ok (finsh_token_type_value_char, v, str) t'" "lex_at t' (0x20 # xs)"
proof -
  have s: "\<not> blank 0x27" "(0x27 :: u8) \<noteq> 0x0A" "is_digit 0x27 \<or> \<not> word_char 0x27" by (simp_all add: blank_def word_char_def is_separator_def)
  from run_operator [OF l s] obtain t1 where
    1: "\<And>err. token_run t err = token_operator t1 err" "lex_at t1 (0x27 # c # 0x27 # 0x20 # xs)" by blast
  let ?t = "t1\<lparr>token_value := set_char_value (token_value t1) c, current_token := finsh_token_type_value_char\<rparr>"
  have "lex_at (adv 3 ?t) (0x20 # xs)" using lex_at_adv [of ?t "[0x27, c, 0x27]" "0x20 # xs"] 1(2) by (simp add: numeral_3_eq_3)
  then show ?thesis using operator_char [OF 1(2) c(1)] 1(1) c(2) by (intro that [of "adv 3 ?t"]) (auto simp: lex_at_def)
qed

lemma keyword_words:
  assumes "map_of keyword_texts ty = Some w"
  shows "w \<noteq> []" "list_all word_char w" "\<not> is_digit (hd w)" "length w < FINSH_STRING_MAX" "map_of finsh_name_table w = Some ty"
    "ty \<notin> {finsh_token_type_value_int, finsh_token_type_value_long, finsh_token_type_value_char, finsh_token_type_identifier}"
proof -
  have "list_all (\<lambda>(ty, w). w \<noteq> [] \<and> list_all word_char w \<and> \<not> is_digit (hd w) \<and> length w < FINSH_STRING_MAX \<and> map_of finsh_name_table w = Some ty
    \<and> ty \<notin> {finsh_token_type_value_int, finsh_token_type_value_long, finsh_token_type_value_char, finsh_token_type_identifier}) keyword_texts"
    by (simp add: keyword_texts_def finsh_name_table_def word_char_def is_separator_def is_digit_def)
  then show "w \<noteq> []" "list_all word_char w" "\<not> is_digit (hd w)" "length w < FINSH_STRING_MAX" "map_of finsh_name_table w = Some ty"
    "ty \<notin> {finsh_token_type_value_int, finsh_token_type_value_long, finsh_token_type_value_char, finsh_token_type_identifier}"
    using map_of_SomeD [OF assms] by (auto simp: list_all_iff)
qed

lemma run_token:
  assumes "lex_at t (gap @ token_text k @ 0x20 # xs)" "gap = [] \<or> gap = [0x20]" "writable k"
  shows "\<exists>t'. (\<forall>err. token_run t err = Some (t', err)) \<and> tok_ok k t' \<and> lex_at t' (0x20 # xs)"
proof -
  obtain ty v str where k: "k = (ty, v, str)" by (cases k)
  note l = assms(1) [unfolded k]
  consider (id) "ty = finsh_token_type_identifier" | (int) "ty = finsh_token_type_value_int" | (long) "ty = finsh_token_type_value_long"
    | (char) "ty = finsh_token_type_value_char"
    | (rest) "ty \<notin> {finsh_token_type_identifier, finsh_token_type_value_int, finsh_token_type_value_long, finsh_token_type_value_char}"
    by blast
  then show ?thesis
  proof cases
    case id
    then have "lex_at t (gap @ str @ 0x20 # xs)" using l by simp
    from run_word [OF this assms(2), of ty str v] assms(3) id show ?thesis by (simp add: k) blast
  next
    case int
    then have "lex_at t (gap @ decimal (unat v) @ 0x20 # xs)" using l by simp
    from run_decimal [OF this assms(2), of str] show ?thesis unfolding k int by blast
  next
    case long
    then have "lex_at t (gap @ decimal (unat v) @ asc CHR ''l'' # 0x20 # xs)" "v \<noteq> 0" using l assms(3) by (simp_all add: k)
    from run_long [OF this(1) assms(2) this(2), of str] show ?thesis unfolding k long by blast
  next
    case char
    then have "lex_at t (gap @ 0x27 # char_value v # 0x27 # 0x20 # xs)" "char_value v \<notin> {0x0A, 0x5C}" using l assms(3) by (simp_all add: k)
    from run_char [OF this(1) assms(2) this(2), of v str] show ?thesis unfolding k char by blast
  next
    case rest
    then obtain w where w1: "map_of (op_texts @ keyword_texts) ty = Some w"
      using assms(3) by (cases "map_of (op_texts @ keyword_texts) ty") (simp_all add: k del: map_of_append)
    then have w: "map_of (op_texts @ keyword_texts) ty = Some w" "lex_at t (gap @ w @ 0x20 # xs)"
      using l rest by (simp_all del: map_of_append)
    show ?thesis
    proof (cases "map_of op_texts ty")
      case None
      then have kw: "map_of keyword_texts ty = Some w" using w(1) by (simp add: map_add_def)
      from run_word [OF w(2) assms(2) keyword_words(1-4) [OF kw], of ty str v] keyword_words(5,6) [OF kw] show ?thesis
        unfolding k by auto
    next
      case (Some w')
      then have "map_of op_texts ty = Some w" using w(1) by (auto simp: map_add_def split: option.splits)
      from run_operator_text [OF w(2) assms(2) this rest, of v str] show ?thesis unfolding k by blast
    qed
  qed
qed

subsection \<open>A line\<close>

lemma yields_run:
  assumes "lex_at t xs" "\<And>err. token_run t err = Some (t', err)" "tok_ok k t'" "yields t' ks"
  shows "yields t (k # ks)"
  using assms by (cases k) (auto simp: yields.simps(2) finsh_token_token_def lex_at_def)

lemma run_end:
  assumes "lex_at t gap" "gap = [] \<or> gap = [0x20]"
  shows "token_run t err = Some (t\<lparr>eof := True, position := 0, current_token := finsh_token_type_eof\<rparr>, err)"
  by (simp add: token_run_def trim_space_end [OF assms] token_get_string_def token_next_char_def)

definition end_token :: tok where
  "end_token = (finsh_token_type_eof, 0, [])"

lemma yields_text:
  assumes "\<forall>k \<in> set ks. writable k" "lex_at t (gap @ line_text ks)" "gap = [] \<or> gap = [0x20]"
  shows "yields t (ks @ [end_token])"
  using assms
proof (induction ks arbitrary: t gap)
  case Nil
  then have l: "lex_at t gap" by (simp add: line_text_def)
  show ?case unfolding append_Nil
    by (rule yields_run [OF l run_end [OF l Nil.prems(3)]]) (use l in \<open>simp_all add: end_token_def lex_at_def\<close>)
next
  case (Cons k ks)
  then have l: "lex_at t (gap @ token_text k @ 0x20 # line_text ks)" by (simp add: line_text_def)
  from run_token [OF l Cons.prems(3)] Cons.prems(1) obtain t' where
    1: "\<And>err. token_run t err = Some (t', err)" "tok_ok k t'" "lex_at t' (0x20 # line_text ks)" by auto
  have "yields t' (ks @ [end_token])" by (rule Cons.IH [of _ "[0x20]"]) (use 1(3) Cons.prems(1) in simp_all)
  from yields_run [OF l 1(1,2) this] show ?case by simp
qed

lemma lex_at_init: "lex_at (finsh_token_init str) str"
  by (simp add: lex_at_def finsh_token_init_def)

lemma line_text_yields:
  assumes "list_all writable ks"
  shows "yields (finsh_token_init (line_text ks)) (ks @ [end_token])"
  using yields_text [of ks _ "[]"] assms lex_at_init [of "line_text ks"] by (simp add: list_all_iff)

text \<open>
  C25.  The lexer reads back what is written: the text of names, keywords, operators, decimal numbers and
  characters, each followed by a space, gives these tokens again, one by one and without an error, and then
  the end of the line.
\<close>

theorem finsh_token_reads_text:
  assumes "list_all writable ks"
  shows "yields (finsh_token_init (line_text ks)) (ks @ [(finsh_token_type_eof, 0, [])])"
  using line_text_yields [OF assms] by (simp add: end_token_def)

lemma finsh_token_reads_text_witness:
  "let ks = [(finsh_token_type_int, 0, []), (finsh_token_type_identifier, 0, map of_char ''tick''), (finsh_token_type_assign, 0, []),
       (finsh_token_type_value_int, 4096, []), (finsh_token_type_shl, 0, []), (finsh_token_type_value_long, 20, []),
       (finsh_token_type_add, 0, []), (finsh_token_type_value_char, 65, []), (finsh_token_type_semicolon, 0, [])] in
   line_text ks = map of_char ''int tick = 4096 << 20l + '' @ [0x27, 65, 0x27, 32] @ map of_char ''; ''
   \<and> yields (finsh_token_init (line_text ks)) (ks @ [(finsh_token_type_eof, 0, [])])"
proof -
  let ?ks = "[(finsh_token_type_int, 0, []), (finsh_token_type_identifier, 0, map of_char ''tick''), (finsh_token_type_assign, 0, []),
       (finsh_token_type_value_int, 4096, []), (finsh_token_type_shl, 0, []), (finsh_token_type_value_long, 20, []),
       (finsh_token_type_add, 0, []), (finsh_token_type_value_char, 65, []), (finsh_token_type_semicolon, 0, [])] :: tok list"
  have "list_all writable ?ks"
    by (simp add: op_texts_def keyword_texts_def finsh_name_table_def char_value_def word_char_def is_separator_def is_digit_def)
  moreover have "line_text ?ks = map of_char ''int tick = 4096 << 20l + '' @ [0x27, 65, 0x27, 32] @ map of_char ''; ''"
    by (simp add: line_text_def op_texts_def keyword_texts_def char_value_def decimal.simps)
  ultimately show ?thesis using finsh_token_reads_text [of ?ks] unfolding Let_def by blast
qed

end
