(* ===== verification/Finsh_Line.thy ===== *)
theory Finsh_Line
  imports Finsh_Lexing
begin

text \<open>
  A line through the C expression shell, from its text to the value that is printed: the lexer reads
  back the tokens of a text, the parser builds their trees, and \<^verbatim>\<open>finsh_run_line\<close> of \<^verbatim>\<open>shell.c\<close> prints
  what the expressions mean.
\<close>

subsection \<open>Running a line\<close>






subsection \<open>An example\<close>
















end
