(* ===== verification/Spec2Isabelle.thy ===== *)
theory Spec2Isabelle
  imports Msgqueue Ringbuffer_Queue Clock Idle Mempool Completion Dataqueue Heap_Lib Print_Spec System Ringblk Dfs_Path Finsh_Line
begin

text \<open>
  The RT-Thread 4.0.0 kernel of this repository (\<^verbatim>\<open>src/rt-thread/src\<close>) and the buffers of its driver
  layer (\<^verbatim>\<open>src/rt-thread/components/drivers/src\<close>), as configured by \<^verbatim>\<open>src/examples/*/rtconfig.h\<close>:
  one core, 32 priorities, \<^verbatim>\<open>RT_DEBUG\<close> on, no hooks set, 1000 ticks per second, software timers.

  \<^bold>\<open>The program.\<close>  Threads are kept in one ready queue per priority, with a bitmap of the
  non-empty ones; \<^verbatim>\<open>rt_schedule\<close> switches to the first thread of the most urgent queue.  A thread
  that waits is linked, by the same list node, on the list of the object it waits for, and its
  timer may be pending; \<^verbatim>\<open>rt_tick_increase\<close>, the tick interrupt, charges the time slice and runs
  the expired timers.  Semaphores, mutexes (with priority inheritance), events, mailboxes,
  message queues, memory pools, completions and data queues are built from these: each suspends
  the caller, arms its timer and reschedules, or resumes the first waiting thread and reschedules.

  \<^bold>\<open>The model.\<close>  The state is the record \<^theory_text>\<open>kernel\<close> of theory Kernel_Defs: the intrusive lists, the
  objects by handle, and the scheduler's variables.  An operation is a function from the state to
  an option: \<^theory_text>\<open>None\<close> is a failed assertion, a null dereference or an access outside an array.
  Error codes are integers, words keep their width, C's integer promotions are written out.  A
  call that waits is cut at its \<^verbatim>\<open>rt_schedule\<close>: its result is then \<^theory_text>\<open>None\<close> within the pair, and what
  it does when its thread runs again is the function with the suffix \<open>_return\<close>, applied to any
  later state.  What an allocation returns is an argument; callbacks are functions on the state.
  Loops over lists that others may change are \<^theory_text>\<open>partial_function (option)\<close>: a loop that does not end is
  \<^theory_text>\<open>None\<close>, and that a call returns is part of each property.

  \<^bold>\<open>The theories.\<close>
  \<^item> Rt_Prelude: words, assertions, chains of blocks.  Rt_List: \<^verbatim>\<open>rtservice.h\<close>, the lists as a heap of
    nodes, and as a store of lists, with the refinement between the two.
  \<^item> Kservice_Bits: \<^verbatim>\<open>__rt_ffs\<close>.  Kernel_Defs: \<^verbatim>\<open>rtdef.h\<close>.  Objects: \<^verbatim>\<open>object.c\<close>.
  \<^item> Scheduler: \<^verbatim>\<open>scheduler.c\<close>, \<^verbatim>\<open>irq.c\<close>; the invariant \<^theory_text>\<open>sched_inv\<close> of states, queues and bitmap.
  \<^item> Timer_Core, Timer: \<^verbatim>\<open>timer.c\<close>.  Thread_Core, Thread, Thread_Life: \<^verbatim>\<open>thread.c\<close>, \<^verbatim>\<open>cpuport.c\<close>; \<^theory_text>\<open>kinv\<close>
    is the invariant of the kernel.  Clock: \<^verbatim>\<open>clock.c\<close>.  Idle: \<^verbatim>\<open>idle.c\<close>.
  \<^item> Ipc: what the IPC objects share in \<^verbatim>\<open>ipc.c\<close>, with one specification of waiting (\<^theory_text>\<open>block_on_spec\<close>) and
    one of waking (\<^theory_text>\<open>wake_head_spec\<close>, \<^theory_text>\<open>wake_end\<close>) that all objects use.  Semaphore, Mutex, Event, Mailbox,
    Msgqueue: the rest of \<^verbatim>\<open>ipc.c\<close>.  Mempool: \<^verbatim>\<open>mempool.c\<close>.
  \<^item> Fifo: circular arrays, and the locale \<^theory_text>\<open>bounded_fifo\<close> of bounded queues, interpreted for mailboxes,
    message queues, ring buffers and data queues.  A refused call goes on from the state the code
    leaves, and only its documented code counts as a refusal: any other result is a failed call.  Ringbuffer, Ringbuffer_Queue: \<^verbatim>\<open>ringbuffer.c\<close>.
    Completion: \<^verbatim>\<open>completion.c\<close>.  Dataqueue: \<^verbatim>\<open>dataqueue.c\<close>.
  \<^item> Kservice_Mem, Kservice_Print: the memory and string routines and the formatted output of
    \<^verbatim>\<open>kservice.c\<close>, on memory by bytes.  Print_Spec: what a format is meant to print, from integers and
    digits only, and that it is printed.
  \<^item> Small_Mem: \<^verbatim>\<open>mem.c\<close>, on the same bytes.  Heap_Blocks: the row of blocks they represent.  Heap_Alloc,
    Heap_Ops: what each operation does to the row.  Heap_Client: the runs of the heap's callers,
    with a store of what they own and have written.  Heap_Lib: \<^verbatim>\<open>rt_strdup\<close> and \<^verbatim>\<open>rt_malloc_align\<close>.
  \<^item> System: threads, semaphores, timers and the tick together, as one step relation.
  \<^item> Rt_Slist: the singly linked lists of \<^verbatim>\<open>rtservice.h\<close>.  Ringblk: \<^verbatim>\<open>ringblk_buf.c\<close>, which uses them.
  \<^item> Dfs_Path: the path names of \<^verbatim>\<open>components/dfs/src/dfs.c\<close>, built in blocks of the heap.
  \<^item> Finsh_Vm, Finsh_Compiler: the machine and the compiler of the C expression shell,
    \<^verbatim>\<open>components/finsh\<close>.  Finsh_Correct: expressions, their meaning, and that the code computes it.
  \<^item> Finsh_Token: its lexer.  Finsh_Nodes: its tables, the heap of its strings and its nodes.
    Finsh_Parser: its parser, \<^verbatim>\<open>finsh_init.c\<close> and \<^verbatim>\<open>finsh_run_line\<close> of \<^verbatim>\<open>shell.c\<close>.  Finsh_Grammar: the
    grammar (\<^theory_text>\<open>derives\<close>), and that the parser builds the trees of what it derives.  Finsh_Lexing: texts
    of tokens are read back.  Finsh_Line: a line from its text to the value printed.

  \<^bold>\<open>What is shown.\<close>  Every operation keeps \<^theory_text>\<open>kinv\<close>; the scheduler runs a most urgent thread; timers
  fire in order and exactly when due; each object does on every branch what its abstract
  counterpart (a counting semaphore, a bounded list, a set of blocks) does, and a thread that
  waits gets what it waits for.  The heap gives each caller aligned memory of its own, loses
  nothing and always returns (what is said of its statistics is said of \<^verbatim>\<open>used_mem\<close>; \<^verbatim>\<open>max_mem\<close> only
  grows); formatted output is the text of the format, cut at the buffer, but for \<^verbatim>\<open>%o\<close> and a precision of
  0; ring blocks never overlap and are given out exactly when there is room; an absolute path name that
  stays below the root is resolved to the directory it leads to; the
  expression shell reads back the tokens of a text, builds the trees of the grammar, and computes and
  prints the values of its expressions.  Some properties state what the code
  does where it is wrong: the
  wrap-around of the semaphore count, of a mutex's holds and of a data queue's index, the forced
  write of a ring buffer, a periodic timer of period 0, a wait for a memory block that times out,
  the sizes near \<open>2 ^ 32\<close> of the heap, octal output, the queues of ring blocks, paths that go above the
  root, operands of different widths.

  \<^bold>\<open>Bounds.\<close>  Waiting times are below \<open>2 ^ 31 - 1\<close>, as the assertion of \<^verbatim>\<open>rt_timer_start\<close> demands.
  There is no fuel: loops over arrays are structural, the others partial functions.
  The text segment of the expression shell has 128 bytes, which its compiler does not check (the
  property asks for code that fits); its stack of 64 slots cannot overflow, as every push takes two
  bytes of code at least.  It has 16 nodes for a line, and looks at 16 bytes of a name.  The
  functions the shell calls are a parameter.  The grammar leaves out parentheses around an expression
  and casts, which the parser does not handle, and strings and declarations; these are modelled, but
  no property is stated of them.

  \<^bold>\<open>Not modelled.\<close>  Signals, devices, the allocators the configuration leaves out (\<^verbatim>\<open>slab.c\<close>,
  \<^verbatim>\<open>memheap.c\<close>), output to the console, the register saving of
  a context switch, the start-up code, and everything outside the kernel: drivers, file
  descriptors and file systems, network stacks, the command shell, line editing and packages.  Of the
  expression shell, names and types are kept beside memory: code that writes over its tables is not
  followed.  Interrupts are taken between the operations, or where the
  code enables them in the middle of one: there the operation is cut into two definitions.
\<close>

end
